(* ===== verification/Efi_Prelude.thy ===== *)
theory Efi_Prelude
  imports Main "HOL-Library.Word" "HOL-Library.Monad_Syntax"
begin

text \<open>
  What every component of the development shares: the status codes of
  MdePkg/Include/Base.h and PiMultiPhase.h, the reading of ASSERT, the machine
  integers of MdePkg/Include/X64/ProcessorBind.h, and the generic lemmas on options and
  lists the component theories use.

  ASSERT (e) of MdePkg/Include/Library/DebugLib.h calls DebugAssert when e is false, which
  does not return in a DEBUG build (CpuDeadLoop or CpuBreakpoint).  A function that can
  assert therefore returns an option here: None is "an ASSERT fired (or, where a theory
  says so, the loop never ends or memory that holds no such object is used)".
\<close>

named_theorems assert_simps \<open>rewriting of ASSERT in the option monad\<close>

type_synonym u8 = "8 word"
type_synonym u16 = "16 word"
type_synonym u32 = "32 word"
type_synonym u64 = "64 word"

text \<open>An EFI_GUID is the list of its 16 bytes (CompareGuid is equality).\<close>

type_synonym guid = "u8 list"

subsection \<open>Status codes\<close>

datatype efi_status =
    EFI_SUCCESS
  | EFI_INVALID_PARAMETER
  | EFI_UNSUPPORTED
  | EFI_BUFFER_TOO_SMALL
  | EFI_NOT_READY
  | EFI_OUT_OF_RESOURCES
  | EFI_NOT_FOUND
  | EFI_ACCESS_DENIED
  | EFI_ALREADY_STARTED
  | EFI_INTERRUPT_PENDING
  | EFI_WARN_INTERRUPT_SOURCE_PENDING
  | EFI_WARN_INTERRUPT_SOURCE_QUIESCED

text \<open>
  The encodings on a 64-bit build: ENCODE_ERROR sets bit 63, PI_ENCODE_ERROR bits 63 and 61,
  PI_ENCODE_WARNING bit 61.
\<close>

fun status_code :: "efi_status \<Rightarrow> u64" where
  "status_code EFI_SUCCESS = 0"
| "status_code EFI_INVALID_PARAMETER = 0x8000000000000002"
| "status_code EFI_UNSUPPORTED = 0x8000000000000003"
| "status_code EFI_BUFFER_TOO_SMALL = 0x8000000000000005"
| "status_code EFI_NOT_READY = 0x8000000000000006"
| "status_code EFI_OUT_OF_RESOURCES = 0x8000000000000009"
| "status_code EFI_NOT_FOUND = 0x800000000000000E"
| "status_code EFI_ACCESS_DENIED = 0x800000000000000F"
| "status_code EFI_ALREADY_STARTED = 0x8000000000000014"
| "status_code EFI_INTERRUPT_PENDING = 0xA000000000000000"
| "status_code EFI_WARN_INTERRUPT_SOURCE_PENDING = 0x2000000000000000"
| "status_code EFI_WARN_INTERRUPT_SOURCE_QUIESCED = 0x2000000000000001"

text \<open>RETURN_ERROR (s) is ((INTN)(RETURN_STATUS)(s)) < 0.\<close>

definition EFI_ERROR :: "efi_status \<Rightarrow> bool" where
  "EFI_ERROR s \<longleftrightarrow> sint (status_code s) < 0"

lemma EFI_ERROR_simps [simp]:
  "EFI_ERROR EFI_SUCCESS = False"
  "EFI_ERROR EFI_INVALID_PARAMETER = True"
  "EFI_ERROR EFI_UNSUPPORTED = True"
  "EFI_ERROR EFI_BUFFER_TOO_SMALL = True"
  "EFI_ERROR EFI_NOT_READY = True"
  "EFI_ERROR EFI_OUT_OF_RESOURCES = True"
  "EFI_ERROR EFI_NOT_FOUND = True"
  "EFI_ERROR EFI_ACCESS_DENIED = True"
  "EFI_ERROR EFI_ALREADY_STARTED = True"
  "EFI_ERROR EFI_INTERRUPT_PENDING = True"
  "EFI_ERROR EFI_WARN_INTERRUPT_SOURCE_PENDING = False"
  "EFI_ERROR EFI_WARN_INTERRUPT_SOURCE_QUIESCED = False"
  by (simp_all add: EFI_ERROR_def)

subsection \<open>ASSERT\<close>

definition ASSERT :: "bool \<Rightarrow> unit option" where
  "ASSERT b = (if b then Some () else None)"

lemma ASSERT_True [simp]: "ASSERT True = Some ()"
  by (simp add: ASSERT_def)

lemma ASSERT_False [simp]: "ASSERT False = None"
  by (simp add: ASSERT_def)

lemma ASSERT_bind_Some [assert_simps]:
  "Option.bind (ASSERT b) f = Some r \<longleftrightarrow> b \<and> f () = Some r"
  by (simp add: ASSERT_def)

lemma ASSERT_bind_None [assert_simps]:
  "Option.bind (ASSERT b) f = None \<longleftrightarrow> (b \<longrightarrow> f () = None)"
  by (simp add: ASSERT_def)

lemma ASSERT_bind_if [assert_simps]:
  "Option.bind (ASSERT b) f = (if b then f () else None)"
  by (simp add: ASSERT_def)

subsection \<open>Lists\<close>

lemma remove1_middle [simp]:
  "x \<notin> set xs \<Longrightarrow> remove1 x (xs @ x # ys) = xs @ ys"
  by (induction xs) auto

lemma in_set_split_first:
  "x \<in> set xs \<Longrightarrow> \<exists>ys zs. xs = ys @ x # zs \<and> x \<notin> set ys"
  by (metis split_list_first)

lemma find_append_list:
  "find P (xs @ ys) = (case find P xs of None \<Rightarrow> find P ys | Some x \<Rightarrow> Some x)"
  by (induction xs) auto

lemma find_Some_in: "find P xs = Some x \<Longrightarrow> x \<in> set xs \<and> P x"
  by (auto simp: find_Some_iff)

lemma find_unique:
  assumes "inj_on f (set xs)"
  shows "find (\<lambda>x. f x = a) xs = Some x \<longleftrightarrow> x \<in> set xs \<and> f x = a"
  using assms by (induction xs) (auto simp: inj_on_def)

lemma find_remove1:
  assumes "\<not> P x"
  shows "find P (remove1 x xs) = find P xs"
  using assms by (induction xs) auto

subsection \<open>Rings\<close>

text \<open>
  A LIST_ENTRY ring is the list of the addresses of its elements; a link is None at the head
  of the ring and Some x at the element x.  ForwardLink and BackLink of an element that is
  not in the ring are None: the element has been removed and its links are stale.
\<close>

fun forward_link :: "nat \<Rightarrow> nat list \<Rightarrow> nat option option" where
  "forward_link h [] = None"
| "forward_link h (x # xs) =
     (if h = x then Some (case xs of [] \<Rightarrow> None | y # ys \<Rightarrow> Some y) else forward_link h xs)"

fun back_link :: "nat option \<Rightarrow> nat \<Rightarrow> nat list \<Rightarrow> nat option option" where
  "back_link prev h [] = None"
| "back_link prev h (x # xs) = (if h = x then Some prev else back_link (Some x) h xs)"

definition first_of :: "nat list \<Rightarrow> nat option" where
  "first_of xs = (case xs of [] \<Rightarrow> None | x # _ \<Rightarrow> Some x)"

definition last_of :: "nat list \<Rightarrow> nat option" where
  "last_of xs = (if xs = [] then None else Some (last xs))"

lemma first_of_simps [simp]: "first_of [] = None" "first_of (x # xs) = Some x"
  by (simp_all add: first_of_def)

lemma last_of_simps [simp]: "last_of [] = None" "last_of (xs @ [x]) = Some x"
  by (simp_all add: last_of_def)

lemma forward_link_split:
  "distinct (pre @ h # post) \<Longrightarrow>
     forward_link h (pre @ h # post) = Some (case post of [] \<Rightarrow> None | k # ks \<Rightarrow> Some k)"
  by (induction pre) auto

lemma back_link_split:
  "distinct (pre @ h # post) \<Longrightarrow> back_link p h (pre @ h # post) = Some (if pre = [] then p else Some (last pre))"
  by (induction pre arbitrary: p) auto

text \<open>
  The walk of a ring up to the first element that satisfies P; every element has to be an
  object (CR asserts on its signature), and P may follow further pointers.
\<close>

fun walk :: "(nat \<Rightarrow> 'b option) \<Rightarrow> ('b \<Rightarrow> bool option) \<Rightarrow> nat list \<Rightarrow> nat option option" where
  "walk m P [] = Some None"
| "walk m P (p # ps) =
     Option.bind (m p) (\<lambda>x. Option.bind (P x) (\<lambda>b. if b then Some (Some p) else walk m P ps))"

lemma walk_find:
  assumes "\<And>p. p \<in> set ps \<Longrightarrow> \<exists>x. m p = Some x \<and> P x = Some (Q p)"
  shows "walk m P ps = Some (find Q ps)"
  using assms
proof (induction ps)
  case (Cons p ps)
  obtain x where "m p = Some x" "P x = Some (Q p)" using Cons.prems[of p] by auto
  then show ?case using Cons by simp
qed simp

subsection \<open>Programs that use services\<close>

text \<open>
  Code outside the model (a notification function, a handler) as a tree of the services it calls: it may
  read the state at any point and go on with what a call has returned.
\<close>

datatype ('c, 'r, 's) program =
    Finish
  | Read "'s \<Rightarrow> ('c, 'r, 's) program"
  | Call 'c "'r \<Rightarrow> ('c, 'r, 's) program"

primrec run_program :: "('c \<Rightarrow> 's \<Rightarrow> ('r \<times> 's) option) \<Rightarrow> ('c, 'r, 's) program \<Rightarrow> 's \<Rightarrow> 's option" where
  "run_program exec Finish s = Some s"
| "run_program exec (Read k) s = run_program exec (k s) s"
| "run_program exec (Call c k) s = (case exec c s of None \<Rightarrow> None | Some (r, s') \<Rightarrow> run_program exec (k r) s')"

text \<open>Every call the program can make satisfies P.\<close>

primrec calls_only :: "('c \<Rightarrow> bool) \<Rightarrow> ('c, 'r, 's) program \<Rightarrow> bool" where
  "calls_only P Finish = True"
| "calls_only P (Read k) = (\<forall>s. calls_only P (k s))"
| "calls_only P (Call c k) = (P c \<and> (\<forall>r. calls_only P (k r)))"

lemma calls_only_True [simp]: "calls_only (\<lambda>c. True) p"
  by (induction p) auto

text \<open>What every call guarantees holds of a program.\<close>

lemma run_program_keeps:
  assumes "\<And>c s r s'. P c \<Longrightarrow> I s \<Longrightarrow> exec c s = Some (r, s') \<Longrightarrow> I s' \<and> G s s'"
    and "\<And>s. I s \<Longrightarrow> G s s" "\<And>s s' s''. G s s' \<Longrightarrow> G s' s'' \<Longrightarrow> G s s''"
  shows "calls_only P p \<Longrightarrow> I s \<Longrightarrow> run_program exec p s = Some s' \<Longrightarrow> I s' \<and> G s s'"
proof (induction p arbitrary: s)
  case (Call c k)
  then obtain r s1 where c: "exec c s = Some (r, s1)" "run_program exec (k r) s1 = Some s'"
    by (auto split: option.splits)
  have "I s1 \<and> G s s1" using assms(1)[OF _ Call.prems(2) c(1)] Call.prems(1) by simp
  moreover from this have "I s' \<and> G s1 s'" using Call.IH[of "k r" s1] Call.prems(1) c(2) by simp
  ultimately show ?case using assms(3) by blast
qed (use assms(2) in auto)

lemma run_program_total:
  assumes "\<And>c s. P c \<Longrightarrow> I s \<Longrightarrow> \<exists>r s'. exec c s = Some (r, s') \<and> I s' \<and> G s s'"
    and "\<And>s. I s \<Longrightarrow> G s s" "\<And>s s' s''. G s s' \<Longrightarrow> G s' s'' \<Longrightarrow> G s s''"
  shows "calls_only P p \<Longrightarrow> I s \<Longrightarrow> \<exists>s'. run_program exec p s = Some s' \<and> I s' \<and> G s s'"
proof (induction p arbitrary: s)
  case (Call c k)
  obtain r s1 where c: "exec c s = Some (r, s1)" "I s1" "G s s1" using assms(1)[of c s] Call.prems by auto
  then obtain s2 where "run_program exec (k r) s1 = Some s2" "I s2" "G s1 s2" using Call.IH[of "k r" s1] Call.prems(1) by auto
  then show ?case using c assms(3) by (intro exI[of _ s2]) auto
qed (use assms(2) in auto)

end
