(* ===== verification/Linked_List.thy ===== *)
theory Linked_List
  imports Efi_Prelude
begin

text \<open>
  MdePkg/Library/BaseLib/LinkedList.c: the intrusive doubly linked lists every core service
  is built on.  A LIST_ENTRY lives at an address; the heap maps an address to its two links.
  The two PCDs that steer the checks are parameters: PcdMaximumLinkedListLength (maxlen, 0
  means "no limit") and PcdVerifyNodeInList (verify).
\<close>

type_synonym addr = nat

record list_entry =
  ForwardLink :: addr
  BackLink :: addr

type_synonym heap = "addr \<Rightarrow> list_entry"

definition set_fwd :: "heap \<Rightarrow> addr \<Rightarrow> addr \<Rightarrow> heap" where
  "set_fwd h a v = h(a := (h a)\<lparr>ForwardLink := v\<rparr>)"

definition set_back :: "heap \<Rightarrow> addr \<Rightarrow> addr \<Rightarrow> heap" where
  "set_back h a v = h(a := (h a)\<lparr>BackLink := v\<rparr>)"

subsection \<open>The operations\<close>

text \<open>
  The first loop of InternalBaseLibIsNodeInList: it walks until it meets List or Node again.
  With no length limit it may never end, which is None (and so is the failing ASSERT).
\<close>

partial_function (option) find_node_loop ::
    "nat \<Rightarrow> heap \<Rightarrow> addr \<Rightarrow> addr \<Rightarrow> addr \<Rightarrow> nat \<Rightarrow> (addr \<times> nat) option" where
  "find_node_loop maxlen h List Node Ptr Count =
     (let Ptr = ForwardLink (h Ptr);
          Count = (if maxlen > 0 then Suc Count else Count)
      in if maxlen > 0 \<and> \<not> Count < maxlen then None
         else if Ptr \<noteq> List \<and> Ptr \<noteq> Node then find_node_loop maxlen h List Node Ptr Count
         else Some (Ptr, Count))"

text \<open>The second loop counts the nodes up to List again, maxlen at most.\<close>

function count_node_loop :: "nat \<Rightarrow> heap \<Rightarrow> addr \<Rightarrow> addr \<Rightarrow> nat \<Rightarrow> nat" where
  "count_node_loop maxlen h List Ptr Count =
     (let Ptr = ForwardLink (h Ptr); Count = Suc Count
      in if Ptr \<noteq> List \<and> Count < maxlen then count_node_loop maxlen h List Ptr Count
         else Count)"
  by pat_completeness auto
termination
  by (relation "measure (\<lambda>(maxlen, h, List, Ptr, Count). maxlen - Count)") auto

declare count_node_loop.simps [simp del]

definition InternalBaseLibIsNodeInList ::
    "nat \<Rightarrow> bool \<Rightarrow> heap \<Rightarrow> addr \<Rightarrow> addr \<Rightarrow> bool \<Rightarrow> bool option" where
  "InternalBaseLibIsNodeInList maxlen verify h List Node VerifyNodeInList = do {
     ASSERT (List \<noteq> 0);
     ASSERT (ForwardLink (h List) \<noteq> 0);
     ASSERT (BackLink (h List) \<noteq> 0);
     ASSERT (Node \<noteq> 0);
     (Ptr, Count) \<leftarrow> (if verify \<and> VerifyNodeInList
                      then find_node_loop maxlen h List Node List 0
                      else Some (List, 0));
     if verify \<and> VerifyNodeInList \<and> Ptr \<noteq> Node then Some False
     else if maxlen > 0 then do {
       ASSERT (count_node_loop maxlen h List Ptr Count < maxlen);
       Some True
     }
     else Some True
   }"

definition InitializeListHead :: "heap \<Rightarrow> addr \<Rightarrow> (heap \<times> addr) option" where
  "InitializeListHead h ListHead = do {
     ASSERT (ListHead \<noteq> 0);
     let h = set_fwd h ListHead ListHead;
     let h = set_back h ListHead ListHead;
     Some (h, ListHead)
   }"

definition InsertHeadList ::
    "nat \<Rightarrow> bool \<Rightarrow> heap \<Rightarrow> addr \<Rightarrow> addr \<Rightarrow> (heap \<times> addr) option" where
  "InsertHeadList maxlen verify h ListHead Entry = do {
     ok \<leftarrow> InternalBaseLibIsNodeInList maxlen verify h ListHead Entry False;
     ASSERT ok;
     let h = set_fwd h Entry (ForwardLink (h ListHead));
     let h = set_back h Entry ListHead;
     let h = set_back h (ForwardLink (h Entry)) Entry;
     let h = set_fwd h ListHead Entry;
     Some (h, ListHead)
   }"

definition InsertTailList ::
    "nat \<Rightarrow> bool \<Rightarrow> heap \<Rightarrow> addr \<Rightarrow> addr \<Rightarrow> (heap \<times> addr) option" where
  "InsertTailList maxlen verify h ListHead Entry = do {
     ok \<leftarrow> InternalBaseLibIsNodeInList maxlen verify h ListHead Entry False;
     ASSERT ok;
     let h = set_fwd h Entry ListHead;
     let h = set_back h Entry (BackLink (h ListHead));
     let h = set_fwd h (BackLink (h Entry)) Entry;
     let h = set_back h ListHead Entry;
     Some (h, ListHead)
   }"

definition GetFirstNode :: "nat \<Rightarrow> bool \<Rightarrow> heap \<Rightarrow> addr \<Rightarrow> addr option" where
  "GetFirstNode maxlen verify h List = do {
     ok \<leftarrow> InternalBaseLibIsNodeInList maxlen verify h List List False;
     ASSERT ok;
     Some (ForwardLink (h List))
   }"

definition GetNextNode :: "nat \<Rightarrow> bool \<Rightarrow> heap \<Rightarrow> addr \<Rightarrow> addr \<Rightarrow> addr option" where
  "GetNextNode maxlen verify h List Node = do {
     ok \<leftarrow> InternalBaseLibIsNodeInList maxlen verify h List Node True;
     ASSERT ok;
     Some (ForwardLink (h Node))
   }"

definition GetPreviousNode :: "nat \<Rightarrow> bool \<Rightarrow> heap \<Rightarrow> addr \<Rightarrow> addr \<Rightarrow> addr option" where
  "GetPreviousNode maxlen verify h List Node = do {
     ok \<leftarrow> InternalBaseLibIsNodeInList maxlen verify h List Node True;
     ASSERT ok;
     Some (BackLink (h Node))
   }"

definition IsListEmpty :: "nat \<Rightarrow> bool \<Rightarrow> heap \<Rightarrow> addr \<Rightarrow> bool option" where
  "IsListEmpty maxlen verify h ListHead = do {
     ok \<leftarrow> InternalBaseLibIsNodeInList maxlen verify h ListHead ListHead False;
     ASSERT ok;
     Some (ForwardLink (h ListHead) = ListHead)
   }"

definition IsNull :: "nat \<Rightarrow> bool \<Rightarrow> heap \<Rightarrow> addr \<Rightarrow> addr \<Rightarrow> bool option" where
  "IsNull maxlen verify h List Node = do {
     ok \<leftarrow> InternalBaseLibIsNodeInList maxlen verify h List Node True;
     ASSERT ok;
     Some (Node = List)
   }"

definition IsNodeAtEnd :: "nat \<Rightarrow> bool \<Rightarrow> heap \<Rightarrow> addr \<Rightarrow> addr \<Rightarrow> bool option" where
  "IsNodeAtEnd maxlen verify h List Node = do {
     ok \<leftarrow> InternalBaseLibIsNodeInList maxlen verify h List Node True;
     ASSERT ok;
     null \<leftarrow> IsNull maxlen verify h List Node;
     Some (\<not> null \<and> BackLink (h List) = Node)
   }"

definition RemoveEntryList ::
    "nat \<Rightarrow> bool \<Rightarrow> heap \<Rightarrow> addr \<Rightarrow> (heap \<times> addr) option" where
  "RemoveEntryList maxlen verify h Entry = do {
     empty \<leftarrow> IsListEmpty maxlen verify h Entry;
     ASSERT (\<not> empty);
     let h = set_back h (ForwardLink (h Entry)) (BackLink (h Entry));
     let h = set_fwd h (BackLink (h Entry)) (ForwardLink (h Entry));
     Some (h, ForwardLink (h Entry))
   }"

definition SwapListEntries ::
    "nat \<Rightarrow> bool \<Rightarrow> heap \<Rightarrow> addr \<Rightarrow> addr \<Rightarrow> (heap \<times> addr) option" where
  "SwapListEntries maxlen verify h FirstEntry SecondEntry =
     (if FirstEntry = SecondEntry then Some (h, SecondEntry)
      else do {
        ok \<leftarrow> InternalBaseLibIsNodeInList maxlen verify h FirstEntry SecondEntry True;
        ASSERT ok;
        (h, Ptr) \<leftarrow> RemoveEntryList maxlen verify h FirstEntry;
        if BackLink (h Ptr) = SecondEntry
        then InsertTailList maxlen verify h SecondEntry FirstEntry
        else do {
          (h, r) \<leftarrow> InsertHeadList maxlen verify h SecondEntry FirstEntry;
          if Ptr = r then Some (h, Ptr)
          else do {
            (h, _) \<leftarrow> RemoveEntryList maxlen verify h SecondEntry;
            (h, _) \<leftarrow> InsertTailList maxlen verify h Ptr SecondEntry;
            Some (h, SecondEntry)
          }
        }
      })"

subsection \<open>The list a heap represents\<close>

text \<open>
  dlseg h p xs q: following ForwardLink from p meets xs and then q, and the BackLinks agree.
  dll h l xs: the cycle through the head l holds exactly the nodes xs, in this order.
\<close>

fun dlseg :: "heap \<Rightarrow> addr \<Rightarrow> addr list \<Rightarrow> addr \<Rightarrow> bool" where
  "dlseg h p [] q \<longleftrightarrow> ForwardLink (h p) = q \<and> BackLink (h q) = p"
| "dlseg h p (x # xs) q \<longleftrightarrow> ForwardLink (h p) = x \<and> BackLink (h x) = p \<and> dlseg h x xs q"

definition dll :: "heap \<Rightarrow> addr \<Rightarrow> addr list \<Rightarrow> bool" where
  "dll h l xs \<longleftrightarrow> distinct (l # xs) \<and> 0 \<notin> set (l # xs) \<and> dlseg h l xs l"

lemma dlseg_append [simp]:
  "dlseg h p (xs @ y # ys) q \<longleftrightarrow> dlseg h p xs y \<and> dlseg h y ys q"
  by (induction xs arbitrary: p) auto

lemma fwd_set [simp]:
  "ForwardLink (set_fwd h a v b) = (if b = a then v else ForwardLink (h b))"
  "BackLink (set_fwd h a v b) = BackLink (h b)"
  "ForwardLink (set_back h a v b) = ForwardLink (h b)"
  "BackLink (set_back h a v b) = (if b = a then v else BackLink (h b))"
  by (simp_all add: set_fwd_def set_back_def)

lemma set_frame: "a \<noteq> b \<Longrightarrow> set_fwd h a v b = h b" "a \<noteq> b \<Longrightarrow> set_back h a v b = h b"
  by (simp_all add: set_fwd_def set_back_def)

lemma dlseg_set_fwd [simp]:
  "a \<noteq> p \<Longrightarrow> a \<notin> set xs \<Longrightarrow> dlseg (set_fwd h a v) p xs q = dlseg h p xs q"
  by (induction xs arbitrary: p) auto

lemma dlseg_set_back [simp]:
  "a \<noteq> q \<Longrightarrow> a \<notin> set xs \<Longrightarrow> dlseg (set_back h a v) p xs q = dlseg h p xs q"
  by (induction xs arbitrary: p) auto

lemma dlseg_ends:
  assumes "dlseg h p xs q"
  shows "ForwardLink (h p) = hd (xs @ [q])" "BackLink (h q) = last (p # xs)"
  using assms by (induction xs arbitrary: p) auto

text \<open>The same cycle seen from another of its nodes.\<close>

lemma dll_rotate:
  "dll h l (xs @ y # ys) \<Longrightarrow> dll h y (ys @ l # xs)"
  by (auto simp: dll_def)

lemma dll_links:
  assumes "dll h l xs"
  shows "l \<noteq> 0" "ForwardLink (h l) \<noteq> 0" "BackLink (h l) \<noteq> 0"
proof -
  show "l \<noteq> 0" using assms by (simp add: dll_def)
  show "ForwardLink (h l) \<noteq> 0" using assms by (cases xs) (auto simp: dll_def)
  show "BackLink (h l) \<noteq> 0"
    using assms dlseg_ends(2)[of h l xs l] by (cases xs rule: rev_cases) (auto simp: dll_def)
qed

lemma count_loop_seg:
  assumes "dlseg h p xs l" "l \<notin> set xs" "c + length xs < maxlen"
  shows "count_node_loop maxlen h l p c = Suc (c + length xs)"
  using assms
proof (induction xs arbitrary: p c)
  case Nil then show ?case by (simp add: count_node_loop.simps[of _ _ _ p])
next
  case (Cons x xs)
  then show ?case by (simp add: count_node_loop.simps[of _ _ _ p])
qed

lemma count_loop_sat:
  assumes "dlseg h p xs l" "l \<notin> set xs" "maxlen \<le> c + length xs" "c < maxlen"
  shows "count_node_loop maxlen h l p c = maxlen"
  using assms
proof (induction xs arbitrary: p c)
  case Nil then show ?case by simp
next
  case (Cons x xs)
  then show ?case by (cases "Suc c < maxlen") (auto simp: count_node_loop.simps[of _ _ _ p])
qed

lemma find_loop_hit:
  assumes "dlseg h p xs n" "set xs \<inter> {l, n} = {}" "maxlen = 0 \<or> Suc (c + length xs) < maxlen"
  shows "find_node_loop maxlen h l n p c = Some (n, if maxlen > 0 then Suc (c + length xs) else c)"
  using assms
proof (induction xs arbitrary: p c)
  case Nil then show ?case by (auto simp: find_node_loop.simps[of _ _ _ _ p])
next
  case (Cons x xs)
  then show ?case by (auto simp: find_node_loop.simps[of _ _ _ _ p])
qed

lemma isnode_unverified:
  assumes "dll h l xs" "maxlen = 0 \<or> Suc (length xs) < maxlen" "n \<noteq> 0"
  shows "InternalBaseLibIsNodeInList maxlen v h l n False = Some True"
  using assms dll_links[OF assms(1)] count_loop_seg[of h l xs l 0 maxlen]
  by (auto simp: InternalBaseLibIsNodeInList_def assert_simps dll_def)

lemma isnode_member:
  assumes d: "dll h l (as @ n # bs)" and len: "maxlen = 0 \<or> length as + length bs + 2 < maxlen"
  shows "InternalBaseLibIsNodeInList maxlen v h l n True = Some True"
proof (cases v)
  case False
  then show ?thesis using d len dll_links[OF d] count_loop_seg[of h l "as @ n # bs" l 0 maxlen]
    by (auto simp: InternalBaseLibIsNodeInList_def assert_simps dll_def)
next
  case True
  have "find_node_loop maxlen h l n l 0 = Some (n, if maxlen > 0 then Suc (length as) else 0)"
    using find_loop_hit[of h l as n l maxlen 0] d len by (auto simp: dll_def)
  then show ?thesis using True d len dll_links[OF d] count_loop_seg[of h n bs l "Suc (length as)" maxlen]
    by (auto simp: InternalBaseLibIsNodeInList_def assert_simps dll_def)
qed

lemma InsertHeadList_dll:
  assumes "dll h l xs" "e \<notin> set (l # xs)" "e \<noteq> 0" "maxlen = 0 \<or> Suc (length xs) < maxlen"
  shows "\<exists>h'. InsertHeadList maxlen v h l e = Some (h', l) \<and> dll h' l (e # xs)
           \<and> (\<forall>a. a \<notin> set (l # e # xs) \<longrightarrow> h' a = h a)"
proof -
  note ok = isnode_unverified[OF assms(1,4,3), of v]
  show ?thesis
  proof (cases xs)
    case Nil
    with assms ok show ?thesis by (auto simp: InsertHeadList_def Let_def dll_def set_frame)
  next
    case (Cons x ys)
    with assms ok show ?thesis by (auto simp: InsertHeadList_def Let_def dll_def set_frame)
  qed
qed

lemma InsertTailList_dll:
  assumes "dll h l xs" "e \<notin> set (l # xs)" "e \<noteq> 0" "maxlen = 0 \<or> Suc (length xs) < maxlen"
  shows "\<exists>h'. InsertTailList maxlen v h l e = Some (h', l) \<and> dll h' l (xs @ [e])
           \<and> (\<forall>a. a \<notin> set (l # e # xs) \<longrightarrow> h' a = h a)"
proof -
  note ok = isnode_unverified[OF assms(1,4,3), of v]
  show ?thesis
  proof (cases xs rule: rev_cases)
    case Nil
    with assms ok show ?thesis by (auto simp: InsertTailList_def Let_def dll_def set_frame)
  next
    case (snoc ys x)
    with assms ok show ?thesis by (auto simp: InsertTailList_def Let_def dll_def set_frame)
  qed
qed

lemma IsListEmpty_dll:
  assumes "dll h l xs" "maxlen = 0 \<or> Suc (length xs) < maxlen"
  shows "IsListEmpty maxlen v h l = Some (xs = [])"
  using assms isnode_unverified[OF assms, of l v] dll_links(1)[OF assms(1)]
  by (cases xs) (auto simp: IsListEmpty_def dll_def)

lemma RemoveEntryList_dll:
  assumes d: "dll h l (as @ e # bs)" and len: "maxlen = 0 \<or> length as + length bs + 2 < maxlen"
  shows "\<exists>h'. RemoveEntryList maxlen v h e = Some (h', hd (bs @ [l])) \<and> dll h' l (as @ bs)
           \<and> (\<forall>a. a \<notin> set (l # as @ e # bs) \<longrightarrow> h' a = h a) \<and> h' e = h e"
proof -
  from dll_rotate[OF d] have "IsListEmpty maxlen v h e = Some (bs @ l # as = [])"
    by (rule IsListEmpty_dll) (use len in auto)
  then have ne: "IsListEmpty maxlen v h e = Some False" by simp
  show ?thesis
  proof (cases as rule: rev_cases)
    case Nil
    with d ne show ?thesis
      by (cases bs) (auto simp: RemoveEntryList_def Let_def dll_def set_frame)
  next
    case (snoc ys x)
    with d ne show ?thesis
      by (cases bs) (auto simp: RemoveEntryList_def Let_def dll_def set_frame)
  qed
qed


lemma SwapListEntries_cycle:
  assumes d: "dll h a (xs @ b # ys)" and len: "maxlen = 0 \<or> length xs + length ys + 2 < maxlen"
  shows "\<exists>h'. SwapListEntries maxlen v h a b = Some (h', b) \<and> dll h' b (xs @ a # ys)"
proof -
  from d have ne: "a \<noteq> b" "a \<noteq> 0" "b \<noteq> 0" and fresh: "a \<notin> set (b # ys @ xs)"
    by (auto simp: dll_def)
  note ok = isnode_member[OF d len, of v]
  from dll_rotate[OF d] have db: "dll h b (ys @ a # xs)" .
  from RemoveEntryList_dll[OF db, of maxlen v] len obtain h1
    where r1: "RemoveEntryList maxlen v h a = Some (h1, hd (xs @ [b]))" and d1: "dll h1 b (ys @ xs)"
    by auto
  have bk: "BackLink (h1 (hd (xs @ [b]))) = last (b # ys)"
    using d1 dlseg_ends(2)[of h1 b ys b] dlseg_ends(2)[of h1 b ys "hd xs"]
    by (cases xs) (auto simp: dll_def)
  show ?thesis
  proof (cases ys)
    case Nil
    from InsertTailList_dll[OF d1, of a maxlen v] fresh ne len Nil obtain h2
      where "InsertTailList maxlen v h1 b a = Some (h2, b)" "dll h2 b (xs @ [a])" by auto
    with ne ok r1 bk Nil show ?thesis by (auto simp: SwapListEntries_def)
  next
    case (Cons y ys')
    from d1 Cons have "last (b # ys) \<noteq> b" by (auto simp: dll_def)
    with bk have nb: "BackLink (h1 (hd (xs @ [b]))) \<noteq> b" by simp
    from InsertHeadList_dll[OF d1, of a maxlen v] fresh ne len obtain h2
      where i2: "InsertHeadList maxlen v h1 b a = Some (h2, b)" and d2: "dll h2 b (a # ys @ xs)"
      by auto
    show ?thesis
    proof (cases xs)
      case Nil
      with ne ok r1 nb i2 d2 show ?thesis by (auto simp: SwapListEntries_def)
    next
      case (Cons x xs')
      from d have "x \<noteq> b" using Cons by (auto simp: dll_def)
      from d2 Cons have "dll h2 x (xs' @ b # a # ys)" using dll_rotate[of h2 b "a # ys" x xs'] by simp
      from RemoveEntryList_dll[OF this, of maxlen v] len Cons obtain h3
        where r3: "RemoveEntryList maxlen v h2 b = Some (h3, a)" and d3: "dll h3 x (xs' @ a # ys)"
        by auto
      have "b \<notin> set (x # xs' @ a # ys)" using d Cons by (auto simp: dll_def)
      with InsertTailList_dll[OF d3, of b maxlen v] ne len Cons obtain h4
        where i4: "InsertTailList maxlen v h3 x b = Some (h4, x)" and d4: "dll h4 x ((xs' @ a # ys) @ [b])"
        by auto
      from dll_rotate[of h4 x "xs' @ a # ys" b "[]"] d4 have "dll h4 b (x # xs' @ a # ys)" by simp
      with ne ok r1 nb i2 r3 i4 \<open>x \<noteq> b\<close> Cons show ?thesis by (auto simp: SwapListEntries_def)
    qed
  qed
qed

text \<open>
  The membership check when Node is the head itself: the first loop already walks the whole
  cycle, and the second one continues its Count, so every node is counted twice.
\<close>

lemma isnode_head:
  assumes d: "dll h l xs" and m: "0 < maxlen" "Suc (length xs) < maxlen"
  shows "InternalBaseLibIsNodeInList maxlen True h l l True =
           (if 2 * Suc (length xs) < maxlen then Some True else None)"
proof -
  have f: "find_node_loop maxlen h l l l 0 = Some (l, Suc (length xs))"
    using find_loop_hit[of h l xs l l maxlen 0] d m by (auto simp: dll_def)
  have "count_node_loop maxlen h l l (Suc (length xs)) = min maxlen (2 * Suc (length xs))"
  proof (cases "Suc (length xs) + length xs < maxlen")
    case True
    then show ?thesis using count_loop_seg[of h l xs l "Suc (length xs)" maxlen] d
      by (auto simp: dll_def)
  next
    case False
    then show ?thesis using count_loop_sat[of h l xs l maxlen "Suc (length xs)"] d m
      by (auto simp: dll_def)
  qed
  with f d m dll_links[OF d] show ?thesis
    by (auto simp: InternalBaseLibIsNodeInList_def assert_simps)
qed

subsection \<open>The contract the clients use\<close>

text \<open>
  What the queues of the core rely on: a representation of a list of nodes, with insertion at
  both ends, removal of any node and a test for emptiness.  fits says which lengths
  (head included) the length check admits.
\<close>

locale intrusive_list =
  fixes rep :: "'h \<Rightarrow> 'a \<Rightarrow> 'a list \<Rightarrow> bool"
    and valid :: "'a \<Rightarrow> bool"
    and fits :: "nat \<Rightarrow> bool"
    and ins_tail :: "'h \<Rightarrow> 'a \<Rightarrow> 'a \<Rightarrow> ('h \<times> 'a) option"
    and rem :: "'h \<Rightarrow> 'a \<Rightarrow> ('h \<times> 'a) option"
    and is_empty :: "'h \<Rightarrow> 'a \<Rightarrow> bool option"
    and first :: "'h \<Rightarrow> 'a \<Rightarrow> 'a"
  assumes fits_mono: "fits n \<Longrightarrow> m \<le> n \<Longrightarrow> fits m"
    and rep_distinct: "rep h l xs \<Longrightarrow> distinct (l # xs)"
    and rep_valid: "rep h l xs \<Longrightarrow> x \<in> set xs \<Longrightarrow> valid x"
    and ins_tail_rep: "rep h l xs \<Longrightarrow> valid e \<Longrightarrow> e \<notin> set (l # xs) \<Longrightarrow> fits (Suc (length xs)) \<Longrightarrow>
           \<exists>h'. ins_tail h l e = Some (h', l) \<and> rep h' l (xs @ [e])"
    and rem_rep: "rep h l (as @ e # bs) \<Longrightarrow> fits (length as + length bs + 2) \<Longrightarrow>
           \<exists>h'. rem h e = Some (h', hd (bs @ [l])) \<and> rep h' l (as @ bs)"
    and is_empty_rep: "rep h l xs \<Longrightarrow> fits (Suc (length xs)) \<Longrightarrow> is_empty h l = Some (xs = [])"
    and first_rep: "rep h l xs \<Longrightarrow> first h l = hd (xs @ [l])"
begin

text \<open>Removing a queued node and queueing it again at the tail (CoreNotifyEvent).\<close>

lemma requeue:
  assumes r: "rep h l (as @ e # bs)" and f: "fits (length as + length bs + 2)"
  shows "\<exists>h'. Option.bind (rem h e) (\<lambda>(h, _). ins_tail h l e) = Some (h', l)
           \<and> rep h' l (as @ bs @ [e])"
proof -
  from rem_rep[OF r f] obtain h1
    where h1: "rem h e = Some (h1, hd (bs @ [l]))" "rep h1 l (as @ bs)" by blast
  from rep_distinct[OF r] have fresh: "e \<notin> set (l # as @ bs)" by auto
  from rep_valid[OF r] have "valid e" by simp
  from ins_tail_rep[OF h1(2) this fresh] fits_mono[OF f] obtain h2
    where "ins_tail h1 l e = Some (h2, l)" "rep h2 l ((as @ bs) @ [e])" by auto
  with h1(1) show ?thesis by auto
qed

text \<open>Taking the first node off a queue that is not empty (CoreDispatchEventNotifies).\<close>

lemma dequeue:
  assumes r: "rep h l (x # xs)" and f: "fits (length xs + 2)"
  shows "is_empty h l = Some False \<and> first h l = x
           \<and> (\<exists>h'. rem h (first h l) = Some (h', hd (xs @ [l])) \<and> rep h' l xs)"
  using rem_rep[of h l "[]" x xs] is_empty_rep[OF r] first_rep[OF r] r f by auto

text \<open>Queueing a list of fresh nodes one after the other keeps their order.\<close>

fun fill :: "'h \<Rightarrow> 'a \<Rightarrow> 'a list \<Rightarrow> 'h option" where
  "fill h l [] = Some h"
| "fill h l (e # es) = Option.bind (ins_tail h l e) (\<lambda>(h, _). fill h l es)"

lemma fill_rep:
  assumes "rep h l xs" "distinct (l # xs @ es)" "\<forall>e \<in> set es. valid e"
    "fits (length xs + length es)"
  shows "\<exists>h'. fill h l es = Some h' \<and> rep h' l (xs @ es)"
  using assms
proof (induction es arbitrary: h xs)
  case Nil
  then show ?case by simp
next
  case (Cons e es)
  from Cons.prems have "fits (Suc (length xs))" by (auto intro: fits_mono)
  with Cons.prems ins_tail_rep[of h l xs e] obtain h1
    where "ins_tail h l e = Some (h1, l)" "rep h1 l (xs @ [e])" by auto
  with Cons.IH[of h1 "xs @ [e]"] Cons.prems show ?case by auto
qed

end

interpretation dl: intrusive_list dll "\<lambda>e. e \<noteq> 0" "\<lambda>n. maxlen = 0 \<or> n < maxlen"
  "InsertTailList maxlen v" "RemoveEntryList maxlen v" "IsListEmpty maxlen v"
  "\<lambda>h l. ForwardLink (h l)" for maxlen :: nat and v :: bool
proof
  show "\<exists>h'. InsertTailList maxlen v h l e = Some (h', l) \<and> dll h' l (xs @ [e])"
    if "dll h l xs" "e \<noteq> 0" "e \<notin> set (l # xs)" "maxlen = 0 \<or> Suc (length xs) < maxlen"
    for h l xs e using InsertTailList_dll[OF that(1,3,2,4), of v] by blast
  show "\<exists>h'. RemoveEntryList maxlen v h e = Some (h', hd (bs @ [l])) \<and> dll h' l (as @ bs)"
    if "dll h l (as @ e # bs)" "maxlen = 0 \<or> length as + length bs + 2 < maxlen"
    for h l as e bs using RemoveEntryList_dll[OF that, of v] by blast
  show "ForwardLink (h l) = hd (xs @ [l])" if "dll h l xs" for h l xs
    using that dlseg_ends(1) by (auto simp: dll_def)
  show "x \<noteq> 0" if "dll h l xs" "x \<in> set xs" for h l xs and x :: addr
    using that by (cases x) (auto simp: dll_def)
qed (auto simp: dll_def IsListEmpty_dll[unfolded dll_def])

subsection \<open>Properties\<close>

text \<open>On a well-formed ring that the length check admits, InsertHeadList and InsertTailList
  put the entry at the front and at the back of the represented list and return the head, and
  IsListEmpty tells whether the list is empty; no memory outside of the ring and the entry
  changes.\<close>

theorem list_insert_refines:
  assumes "dll h l xs" "e \<notin> set (l # xs)" "e \<noteq> 0" "maxlen = 0 \<or> Suc (length xs) < maxlen"
  shows "\<exists>h1 h2. InsertHeadList maxlen verify h l e = Some (h1, l) \<and> dll h1 l (e # xs) \<and>
    InsertTailList maxlen verify h l e = Some (h2, l) \<and> dll h2 l (xs @ [e]) \<and>
    (\<forall>a. a \<notin> set (l # e # xs) \<longrightarrow> h1 a = h a \<and> h2 a = h a) \<and>
    IsListEmpty maxlen verify h l = Some (xs = [])"
proof -
  obtain h1 where "InsertHeadList maxlen verify h l e = Some (h1, l)" "dll h1 l (e # xs)"
    "\<forall>a. a \<notin> set (l # e # xs) \<longrightarrow> h1 a = h a"
    using InsertHeadList_dll[OF assms, of verify] by blast
  moreover obtain h2 where "InsertTailList maxlen verify h l e = Some (h2, l)" "dll h2 l (xs @ [e])"
    "\<forall>a. a \<notin> set (l # e # xs) \<longrightarrow> h2 a = h a"
    using InsertTailList_dll[OF assms, of verify] by blast
  moreover have "IsListEmpty maxlen verify h l = Some (xs = [])"
    by (rule dl.is_empty_rep[OF assms(1,4)])
  ultimately show ?thesis by blast
qed

definition sample_heap :: heap where
  "sample_heap a = (if a = 1 then \<lparr>ForwardLink = 2, BackLink = 3\<rparr>
     else if a = 2 then \<lparr>ForwardLink = 3, BackLink = 1\<rparr>
     else if a = 3 then \<lparr>ForwardLink = 1, BackLink = 2\<rparr> else \<lparr>ForwardLink = 0, BackLink = 0\<rparr>)"

lemma sample_heap_dll: "dll sample_heap 1 [2, 3]"
  by (simp add: dll_def sample_heap_def)

theorem list_insert_refines_witness:
  "\<exists>h1 h2. InsertHeadList 100 True sample_heap 1 4 = Some (h1, 1) \<and> dll h1 1 [4, 2, 3] \<and>
     InsertTailList 100 True sample_heap 1 4 = Some (h2, 1) \<and> dll h2 1 [2, 3, 4]"
  using list_insert_refines[OF sample_heap_dll, of 4 100 True] by auto

text \<open>C40: RemoveEntryList takes exactly the given entry out of the ring, wherever it is,
  returns the node that followed it and changes nothing outside of the ring; inserting the
  entry again at the tail moves it behind the others (what CoreNotifyEvent relies on).\<close>

theorem list_remove_refines:
  assumes "dll h l (as @ e # bs)" "maxlen = 0 \<or> length as + length bs + 2 < maxlen"
  shows "\<exists>h1 h2. RemoveEntryList maxlen verify h e = Some (h1, hd (bs @ [l])) \<and> dll h1 l (as @ bs) \<and>
    (\<forall>a. a \<notin> set (l # as @ e # bs) \<longrightarrow> h1 a = h a) \<and> h1 e = h e \<and>
    InsertTailList maxlen verify h1 l e = Some (h2, l) \<and> dll h2 l (as @ bs @ [e])"
proof -
  obtain h1 where 1: "RemoveEntryList maxlen verify h e = Some (h1, hd (bs @ [l]))" "dll h1 l (as @ bs)"
    "\<forall>a. a \<notin> set (l # as @ e # bs) \<longrightarrow> h1 a = h a" "h1 e = h e"
    using RemoveEntryList_dll[OF assms, of verify] by blast
  with dl.requeue[OF assms(1), of maxlen verify] assms(2) show ?thesis by auto
qed

theorem list_remove_refines_witness:
  "\<exists>h1 h2. RemoveEntryList 0 True sample_heap 2 = Some (h1, 3) \<and> dll h1 1 [3] \<and>
     InsertTailList 0 True h1 1 2 = Some (h2, 1) \<and> dll h2 1 [3, 2]"
  using list_remove_refines[of sample_heap 1 "[]" 2 "[3]" 0 True] sample_heap_dll by auto

text \<open>SwapListEntries exchanges the places of two nodes of a ring, whether they are
  adjacent or not and whichever of them is the head: seen from the second node, the ring
  afterwards is the ring before, with the two nodes exchanged.\<close>

theorem swap_entries_refines:
  assumes "dll h a (xs @ b # ys)" "maxlen = 0 \<or> length xs + length ys + 2 < maxlen"
  shows "\<exists>h'. SwapListEntries maxlen verify h a b = Some (h', b) \<and> dll h' b (xs @ a # ys) \<and>
    dll h' a (ys @ b # xs)"
  using SwapListEntries_cycle[OF assms, of verify] dll_rotate by blast

theorem swap_entries_refines_witness:
  "\<exists>h'. SwapListEntries 0 False sample_heap 1 3 = Some (h', 3) \<and> dll h' 3 [2, 1] \<and> dll h' 1 [3, 2]"
  using swap_entries_refines[of sample_heap 1 "[2]" 3 "[]" 0 False] sample_heap_dll by auto

text \<open>With the membership check enabled, a node that is the list itself is counted twice:
  IsNull (List, List), the end test of every traversal, asserts on a well-formed list as soon
  as twice its number of nodes reaches PcdMaximumLinkedListLength.\<close>

theorem IsNull_head_counts_twice:
  assumes "dll h l xs" "0 < maxlen" "Suc (length xs) < maxlen"
  shows "IsNull maxlen True h l l = (if 2 * Suc (length xs) < maxlen then Some True else None)"
  using isnode_head[OF assms] by (simp add: IsNull_def assert_simps)

theorem IsNull_head_counts_twice_witness:
  "IsNull 5 True sample_heap 1 1 = None"
  using IsNull_head_counts_twice[OF sample_heap_dll, of 5] by simp

end
