(* ===== verification/Bit_Field.thy ===== *)
theory Bit_Field
  imports Efi_Prelude
begin

text \<open>
  MdePkg/Library/BaseLib/BitField.c with the shift wrappers of LShiftU64.c, RShiftU64.c and
  Math64.c it uses: reading, writing, OR-ing and AND-ing the bit field StartBit..EndBit of an
  8, 16, 32 or 64 bit operand.  UINTN is the 64-bit word of the X64 build; bit ordinals are
  naturals.  None is a failing ASSERT.  The locale bit_field is the contract of one width; it
  is interpreted on the functions of all four widths.
\<close>

unbundle bit_operations_syntax

subsection \<open>Shifts\<close>

definition InternalMathLShiftU64 :: "u64 \<Rightarrow> nat \<Rightarrow> u64" where
  "InternalMathLShiftU64 Operand Count = push_bit Count Operand"

definition InternalMathRShiftU64 :: "u64 \<Rightarrow> nat \<Rightarrow> u64" where
  "InternalMathRShiftU64 Operand Count = drop_bit Count Operand"

definition LShiftU64 :: "u64 \<Rightarrow> nat \<Rightarrow> u64 option" where
  "LShiftU64 Operand Count = do {
     ASSERT (Count < 64);
     Some (InternalMathLShiftU64 Operand Count)
   }"

definition RShiftU64 :: "u64 \<Rightarrow> nat \<Rightarrow> u64 option" where
  "RShiftU64 Operand Count = do {
     ASSERT (Count < 64);
     Some (InternalMathRShiftU64 Operand Count)
   }"

subsection \<open>The workers on UINTN\<close>

definition InternalBaseLibBitFieldReadUint :: "u64 \<Rightarrow> nat \<Rightarrow> nat \<Rightarrow> u64" where
  "InternalBaseLibBitFieldReadUint Operand StartBit EndBit =
     drop_bit StartBit (Operand AND NOT (push_bit EndBit (- 2)))"

definition InternalBaseLibBitFieldOrUint :: "u64 \<Rightarrow> nat \<Rightarrow> nat \<Rightarrow> u64 \<Rightarrow> u64 option" where
  "InternalBaseLibBitFieldOrUint Operand StartBit EndBit OrData = do {
     ASSERT (drop_bit (EndBit - StartBit) OrData = (drop_bit (EndBit - StartBit) OrData AND 1));
     Some (Operand OR (push_bit StartBit OrData AND NOT (push_bit EndBit (- 2))))
   }"

definition InternalBaseLibBitFieldAndUint :: "u64 \<Rightarrow> nat \<Rightarrow> nat \<Rightarrow> u64 \<Rightarrow> u64 option" where
  "InternalBaseLibBitFieldAndUint Operand StartBit EndBit AndData = do {
     ASSERT (drop_bit (EndBit - StartBit) AndData = (drop_bit (EndBit - StartBit) AndData AND 1));
     Some (Operand AND NOT (push_bit StartBit (NOT AndData) AND NOT (push_bit EndBit (- 2))))
   }"

subsection \<open>8-bit operands\<close>

definition BitFieldRead8 :: "u8 \<Rightarrow> nat \<Rightarrow> nat \<Rightarrow> u8 option" where
  "BitFieldRead8 Operand StartBit EndBit = do {
     ASSERT (EndBit < 8);
     ASSERT (StartBit \<le> EndBit);
     Some (ucast (InternalBaseLibBitFieldReadUint (ucast Operand) StartBit EndBit))
   }"

definition BitFieldOr8 :: "u8 \<Rightarrow> nat \<Rightarrow> nat \<Rightarrow> u8 \<Rightarrow> u8 option" where
  "BitFieldOr8 Operand StartBit EndBit OrData = do {
     ASSERT (EndBit < 8);
     ASSERT (StartBit \<le> EndBit);
     r \<leftarrow> InternalBaseLibBitFieldOrUint (ucast Operand) StartBit EndBit (ucast OrData);
     Some (ucast r)
   }"

definition BitFieldAnd8 :: "u8 \<Rightarrow> nat \<Rightarrow> nat \<Rightarrow> u8 \<Rightarrow> u8 option" where
  "BitFieldAnd8 Operand StartBit EndBit AndData = do {
     ASSERT (EndBit < 8);
     ASSERT (StartBit \<le> EndBit);
     r \<leftarrow> InternalBaseLibBitFieldAndUint (ucast Operand) StartBit EndBit (ucast AndData);
     Some (ucast r)
   }"

definition BitFieldAndThenOr8 :: "u8 \<Rightarrow> nat \<Rightarrow> nat \<Rightarrow> u8 \<Rightarrow> u8 \<Rightarrow> u8 option" where
  "BitFieldAndThenOr8 Operand StartBit EndBit AndData OrData = do {
     ASSERT (EndBit < 8);
     ASSERT (StartBit \<le> EndBit);
     r \<leftarrow> BitFieldAnd8 Operand StartBit EndBit AndData;
     BitFieldOr8 r StartBit EndBit OrData
   }"

definition BitFieldWrite8 :: "u8 \<Rightarrow> nat \<Rightarrow> nat \<Rightarrow> u8 \<Rightarrow> u8 option" where
  "BitFieldWrite8 Operand StartBit EndBit Value = do {
     ASSERT (EndBit < 8);
     ASSERT (StartBit \<le> EndBit);
     BitFieldAndThenOr8 Operand StartBit EndBit 0 Value
   }"

subsection \<open>16-bit operands\<close>

definition BitFieldRead16 :: "u16 \<Rightarrow> nat \<Rightarrow> nat \<Rightarrow> u16 option" where
  "BitFieldRead16 Operand StartBit EndBit = do {
     ASSERT (EndBit < 16);
     ASSERT (StartBit \<le> EndBit);
     Some (ucast (InternalBaseLibBitFieldReadUint (ucast Operand) StartBit EndBit))
   }"

definition BitFieldOr16 :: "u16 \<Rightarrow> nat \<Rightarrow> nat \<Rightarrow> u16 \<Rightarrow> u16 option" where
  "BitFieldOr16 Operand StartBit EndBit OrData = do {
     ASSERT (EndBit < 16);
     ASSERT (StartBit \<le> EndBit);
     r \<leftarrow> InternalBaseLibBitFieldOrUint (ucast Operand) StartBit EndBit (ucast OrData);
     Some (ucast r)
   }"

definition BitFieldAnd16 :: "u16 \<Rightarrow> nat \<Rightarrow> nat \<Rightarrow> u16 \<Rightarrow> u16 option" where
  "BitFieldAnd16 Operand StartBit EndBit AndData = do {
     ASSERT (EndBit < 16);
     ASSERT (StartBit \<le> EndBit);
     r \<leftarrow> InternalBaseLibBitFieldAndUint (ucast Operand) StartBit EndBit (ucast AndData);
     Some (ucast r)
   }"

definition BitFieldAndThenOr16 :: "u16 \<Rightarrow> nat \<Rightarrow> nat \<Rightarrow> u16 \<Rightarrow> u16 \<Rightarrow> u16 option" where
  "BitFieldAndThenOr16 Operand StartBit EndBit AndData OrData = do {
     ASSERT (EndBit < 16);
     ASSERT (StartBit \<le> EndBit);
     r \<leftarrow> BitFieldAnd16 Operand StartBit EndBit AndData;
     BitFieldOr16 r StartBit EndBit OrData
   }"

definition BitFieldWrite16 :: "u16 \<Rightarrow> nat \<Rightarrow> nat \<Rightarrow> u16 \<Rightarrow> u16 option" where
  "BitFieldWrite16 Operand StartBit EndBit Value = do {
     ASSERT (EndBit < 16);
     ASSERT (StartBit \<le> EndBit);
     BitFieldAndThenOr16 Operand StartBit EndBit 0 Value
   }"

subsection \<open>32-bit operands\<close>

definition BitFieldRead32 :: "u32 \<Rightarrow> nat \<Rightarrow> nat \<Rightarrow> u32 option" where
  "BitFieldRead32 Operand StartBit EndBit = do {
     ASSERT (EndBit < 32);
     ASSERT (StartBit \<le> EndBit);
     Some (ucast (InternalBaseLibBitFieldReadUint (ucast Operand) StartBit EndBit))
   }"

definition BitFieldOr32 :: "u32 \<Rightarrow> nat \<Rightarrow> nat \<Rightarrow> u32 \<Rightarrow> u32 option" where
  "BitFieldOr32 Operand StartBit EndBit OrData = do {
     ASSERT (EndBit < 32);
     ASSERT (StartBit \<le> EndBit);
     r \<leftarrow> InternalBaseLibBitFieldOrUint (ucast Operand) StartBit EndBit (ucast OrData);
     Some (ucast r)
   }"

definition BitFieldAnd32 :: "u32 \<Rightarrow> nat \<Rightarrow> nat \<Rightarrow> u32 \<Rightarrow> u32 option" where
  "BitFieldAnd32 Operand StartBit EndBit AndData = do {
     ASSERT (EndBit < 32);
     ASSERT (StartBit \<le> EndBit);
     r \<leftarrow> InternalBaseLibBitFieldAndUint (ucast Operand) StartBit EndBit (ucast AndData);
     Some (ucast r)
   }"

definition BitFieldAndThenOr32 :: "u32 \<Rightarrow> nat \<Rightarrow> nat \<Rightarrow> u32 \<Rightarrow> u32 \<Rightarrow> u32 option" where
  "BitFieldAndThenOr32 Operand StartBit EndBit AndData OrData = do {
     ASSERT (EndBit < 32);
     ASSERT (StartBit \<le> EndBit);
     r \<leftarrow> BitFieldAnd32 Operand StartBit EndBit AndData;
     BitFieldOr32 r StartBit EndBit OrData
   }"

definition BitFieldWrite32 :: "u32 \<Rightarrow> nat \<Rightarrow> nat \<Rightarrow> u32 \<Rightarrow> u32 option" where
  "BitFieldWrite32 Operand StartBit EndBit Value = do {
     ASSERT (EndBit < 32);
     ASSERT (StartBit \<le> EndBit);
     BitFieldAndThenOr32 Operand StartBit EndBit 0 Value
   }"

subsection \<open>64-bit operands\<close>

definition BitFieldRead64 :: "u64 \<Rightarrow> nat \<Rightarrow> nat \<Rightarrow> u64 option" where
  "BitFieldRead64 Operand StartBit EndBit = do {
     ASSERT (EndBit < 64);
     ASSERT (StartBit \<le> EndBit);
     m \<leftarrow> LShiftU64 (- 2) EndBit;
     RShiftU64 (Operand AND NOT m) StartBit
   }"

definition BitFieldOr64 :: "u64 \<Rightarrow> nat \<Rightarrow> nat \<Rightarrow> u64 \<Rightarrow> u64 option" where
  "BitFieldOr64 Operand StartBit EndBit OrData = do {
     ASSERT (EndBit < 64);
     ASSERT (StartBit \<le> EndBit);
     r \<leftarrow> RShiftU64 OrData (EndBit - StartBit);
     ASSERT (r = r AND 1);
     Value1 \<leftarrow> LShiftU64 OrData StartBit;
     Value2 \<leftarrow> LShiftU64 (- 2) EndBit;
     Some (Operand OR (Value1 AND NOT Value2))
   }"

definition BitFieldAnd64 :: "u64 \<Rightarrow> nat \<Rightarrow> nat \<Rightarrow> u64 \<Rightarrow> u64 option" where
  "BitFieldAnd64 Operand StartBit EndBit AndData = do {
     ASSERT (EndBit < 64);
     ASSERT (StartBit \<le> EndBit);
     r \<leftarrow> RShiftU64 AndData (EndBit - StartBit);
     ASSERT (r = r AND 1);
     Value1 \<leftarrow> LShiftU64 (NOT AndData) StartBit;
     Value2 \<leftarrow> LShiftU64 (- 2) EndBit;
     Some (Operand AND NOT (Value1 AND NOT Value2))
   }"

definition BitFieldAndThenOr64 :: "u64 \<Rightarrow> nat \<Rightarrow> nat \<Rightarrow> u64 \<Rightarrow> u64 \<Rightarrow> u64 option" where
  "BitFieldAndThenOr64 Operand StartBit EndBit AndData OrData = do {
     ASSERT (EndBit < 64);
     ASSERT (StartBit \<le> EndBit);
     r \<leftarrow> BitFieldAnd64 Operand StartBit EndBit AndData;
     BitFieldOr64 r StartBit EndBit OrData
   }"

definition BitFieldWrite64 :: "u64 \<Rightarrow> nat \<Rightarrow> nat \<Rightarrow> u64 \<Rightarrow> u64 option" where
  "BitFieldWrite64 Operand StartBit EndBit Value = do {
     ASSERT (EndBit < 64);
     ASSERT (StartBit \<le> EndBit);
     BitFieldAndThenOr64 Operand StartBit EndBit 0 Value
   }"

subsection \<open>Bit by bit\<close>

text \<open>A value fits a field of n + 1 bits when no bit above n is set.\<close>

definition fits_field :: "nat \<Rightarrow> 'a::len word \<Rightarrow> bool" where
  "fits_field n v \<longleftrightarrow> drop_bit (Suc n) v = 0"

lemma word_eq_bits: "(x :: 'a::len word) = y \<longleftrightarrow> (\<forall>k. bit x k \<longleftrightarrow> bit y k)"
  by (metis bit_word_eqI)

lemma fits_field_bits: "fits_field n v \<longleftrightarrow> (\<forall>k. n < k \<longrightarrow> \<not> bit v k)"
proof -
  have "fits_field n v \<longleftrightarrow> (\<forall>k. \<not> bit v (Suc n + k))"
    unfolding fits_field_def word_eq_bits by (simp add: bit_drop_bit_eq)
  also have "\<dots> \<longleftrightarrow> (\<forall>k. n < k \<longrightarrow> \<not> bit v k)"
    by (auto simp: less_iff_Suc_add)
  finally show ?thesis .
qed

lemma bit_one_iff: "bit (1 :: 'a::len word) k \<longleftrightarrow> k = 0"
  by (auto simp: bit_1_iff)

lemma assert_fits: "drop_bit n v = (drop_bit n v AND 1) \<longleftrightarrow> fits_field n (v :: 'a::len word)"
proof -
  have "drop_bit n v = (drop_bit n v AND 1) \<longleftrightarrow> (\<forall>k. bit v (n + k) \<longrightarrow> k = 0)"
    unfolding word_eq_bits by (auto simp: bit_drop_bit_eq bit_and_iff bit_one_iff)
  also have "\<dots> \<longleftrightarrow> (\<forall>k. \<not> bit v (n + Suc k))"
    by (metis not0_implies_Suc nat.distinct(1))
  also have "\<dots> \<longleftrightarrow> fits_field n v"
    unfolding fits_field_bits by (auto simp: less_iff_Suc_add)
  finally show ?thesis .
qed

lemma bit_ucast_widen [simp]:
  "LENGTH('a::len) \<le> LENGTH('b::len) \<Longrightarrow> bit (ucast (v :: 'a word) :: 'b word) k = bit v k"
  by (auto simp: bit_ucast_iff dest: bit_imp_le_length)

lemma fits_field_ucast [simp]:
  "LENGTH('a::len) \<le> LENGTH('b::len) \<Longrightarrow> fits_field n (ucast (v :: 'a word) :: 'b word) = fits_field n v"
  by (simp add: fits_field_bits)

lemma shifted_m2_bit: "bit (push_bit e (- 2 :: u64)) n \<longleftrightarrow> e < n \<and> n < 64"
proof -
  have "(- 2 :: u64) = NOT 1" by simp
  then show ?thesis by (simp only: bit_push_bit_iff bit_not_iff bit_one_iff) auto
qed

lemma field_mask_bit: "bit (NOT (push_bit e (- 2 :: u64))) n \<longleftrightarrow> n \<le> e \<and> n < 64"
  by (auto simp: bit_not_iff shifted_m2_bit simp del: bit_push_bit_iff)

lemma read_uint_bit:
  "bit (InternalBaseLibBitFieldReadUint x s e) n \<longleftrightarrow> bit x (s + n) \<and> s + n \<le> e"
  by (auto simp: InternalBaseLibBitFieldReadUint_def bit_drop_bit_eq bit_and_iff field_mask_bit
      dest: bit_imp_le_length)

lemma or_uint_bit:
  "e < 64 \<Longrightarrow> bit (x OR (push_bit s d AND NOT (push_bit e (- 2 :: u64)))) n \<longleftrightarrow>
     bit x n \<or> (s \<le> n \<and> n \<le> e \<and> bit d (n - s))"
  by (auto simp: bit_or_iff bit_and_iff bit_push_bit_iff field_mask_bit)

lemma shifted_not_bit: "bit (NOT (push_bit s (NOT d))) n \<longleftrightarrow>
    n < 64 \<and> (s \<le> n \<longrightarrow> bit (d :: u64) (n - s))"
  by (auto simp: bit_not_iff bit_push_bit_iff)

text \<open>The simplifier turns the mask expression of the AND worker into this form.\<close>

lemma and_uint_bit:
  "e < 64 \<Longrightarrow> bit (x AND (NOT (push_bit s (NOT d)) OR push_bit e (- 2 :: u64))) n \<longleftrightarrow>
     bit x n \<and> (s \<le> n \<and> n \<le> e \<longrightarrow> bit d (n - s))"
  by (simp only: bit_and_iff bit_or_iff shifted_not_bit shifted_m2_bit)
    (auto dest: bit_imp_le_length)

lemmas worker_defs = InternalBaseLibBitFieldOrUint_def InternalBaseLibBitFieldAndUint_def
  assert_simps assert_fits

subsection \<open>The contract of one width\<close>

locale bit_field =
  fixes W :: nat
    and rd :: "'w::len word \<Rightarrow> nat \<Rightarrow> nat \<Rightarrow> 'w word option"
    and por :: "'w word \<Rightarrow> nat \<Rightarrow> nat \<Rightarrow> 'w word \<Rightarrow> 'w word option"
    and pand :: "'w word \<Rightarrow> nat \<Rightarrow> nat \<Rightarrow> 'w word \<Rightarrow> 'w word option"
    and wr :: "'w word \<Rightarrow> nat \<Rightarrow> nat \<Rightarrow> 'w word \<Rightarrow> 'w word option"
  assumes width: "W = LENGTH('w)"
    and read_range: "rd x s e \<noteq> None \<Longrightarrow> s \<le> e \<and> e < W"
    and read_law: "s \<le> e \<Longrightarrow> e < W \<Longrightarrow>
          \<exists>r. rd x s e = Some r \<and> (\<forall>n. bit r n \<longleftrightarrow> bit x (s + n) \<and> s + n \<le> e)"
    and or_law: "s \<le> e \<Longrightarrow> e < W \<Longrightarrow> fits_field (e - s) d \<Longrightarrow>
          \<exists>r. por x s e d = Some r
            \<and> (\<forall>n. bit r n \<longleftrightarrow> bit x n \<or> (s \<le> n \<and> n \<le> e \<and> bit d (n - s)))"
    and and_law: "s \<le> e \<Longrightarrow> e < W \<Longrightarrow> fits_field (e - s) d \<Longrightarrow>
          \<exists>r. pand x s e d = Some r
            \<and> (\<forall>n. bit r n \<longleftrightarrow> bit x n \<and> (s \<le> n \<and> n \<le> e \<longrightarrow> bit d (n - s)))"
    and or_range: "por x s e d \<noteq> None \<Longrightarrow> fits_field (e - s) d"
    and write_seq: "s \<le> e \<Longrightarrow> e < W \<Longrightarrow>
          wr x s e v = Option.bind (pand x s e 0) (\<lambda>r. por r s e v)"
    and write_range: "wr x s e v \<noteq> None \<Longrightarrow> s \<le> e \<and> e < W"
begin

lemma write_bits:
  assumes "s \<le> e" "e < W" "fits_field (e - s) v"
  shows "\<exists>r. wr x s e v = Some r
           \<and> (\<forall>n. bit r n \<longleftrightarrow> (if s \<le> n \<and> n \<le> e then bit v (n - s) else bit x n))"
proof -
  have "fits_field (e - s) (0 :: 'w word)" by (simp add: fits_field_def)
  from and_law[OF assms(1,2) this, of x] obtain a where
    a: "pand x s e 0 = Some a" "\<And>n. bit a n \<longleftrightarrow> bit x n \<and> \<not> (s \<le> n \<and> n \<le> e)" by auto
  from or_law[OF assms, of a] obtain r where
    r: "por a s e v = Some r" "\<And>n. bit r n \<longleftrightarrow> bit a n \<or> (s \<le> n \<and> n \<le> e \<and> bit v (n - s))" by auto
  show ?thesis using write_seq[OF assms(1,2), of x v] a r by auto
qed

lemma write_defined: "wr x s e v \<noteq> None \<longleftrightarrow> s \<le> e \<and> e < W \<and> fits_field (e - s) v"
proof
  assume w: "wr x s e v \<noteq> None"
  then have "s \<le> e" "e < W" using write_range by auto
  with w write_seq[of s e x v] or_range show "s \<le> e \<and> e < W \<and> fits_field (e - s) v"
    by (cases "pand x s e 0") auto
next
  assume "s \<le> e \<and> e < W \<and> fits_field (e - s) v"
  then obtain r where "wr x s e v = Some r" using write_bits[of s e v x] by auto
  then show "wr x s e v \<noteq> None" by simp
qed

text \<open>What was written is rd back, and every disjoint field keeps its value.\<close>

lemma read_write:
  assumes w: "wr x s e v = Some y"
  shows "rd y s e = Some v \<and>
    (s' \<le> e' \<longrightarrow> e' < s \<or> (e < s' \<and> e' < W) \<longrightarrow> rd y s' e' = rd x s' e')"
proof -
  from w write_defined have d: "s \<le> e" "e < W" "fits_field (e - s) v" by blast+
  from write_bits[OF d, of x] w have
    y: "\<And>n. bit y n \<longleftrightarrow> (if s \<le> n \<and> n \<le> e then bit v (n - s) else bit x n)" by auto
  have "rd y s e = Some v"
  proof -
    from read_law[OF d(1,2), of y] obtain r where
      r: "rd y s e = Some r" "\<And>n. bit r n \<longleftrightarrow> bit y (s + n) \<and> s + n \<le> e" by auto
    have "bit v n \<Longrightarrow> n \<le> e - s" for n using d(3) by (metis fits_field_bits linorder_not_less)
    then have "r = v" unfolding word_eq_bits using d(1) by (force simp: r(2) y)
    with r show ?thesis by simp
  qed
  moreover have "rd y s' e' = rd x s' e'" if "s' \<le> e'" "e' < s \<or> (e < s' \<and> e' < W)"
  proof -
    from that d have "e' < W" by auto
    from read_law[OF that(1) this, of y] read_law[OF that(1) this, of x] obtain r r' where
      r: "rd y s' e' = Some r" "\<And>n. bit r n \<longleftrightarrow> bit y (s' + n) \<and> s' + n \<le> e'"
         "rd x s' e' = Some r'" "\<And>n. bit r' n \<longleftrightarrow> bit x (s' + n) \<and> s' + n \<le> e'" by auto
    have "r = r'" unfolding word_eq_bits using that by (auto simp: r y)
    with r show ?thesis by simp
  qed
  ultimately show ?thesis by blast
qed

lemma write_read:
  assumes r: "rd x s e = Some v"
  shows "wr x s e v = Some x"
proof -
  from r read_range have d: "s \<le> e" "e < W" by blast+
  from read_law[OF d, of x] r have v: "\<And>n. bit v n \<longleftrightarrow> bit x (s + n) \<and> s + n \<le> e" by auto
  have "fits_field (e - s) v" using d by (auto simp: fits_field_bits v)
  from write_bits[OF d this, of x] obtain y where y: "wr x s e v = Some y"
    "\<And>n. bit y n \<longleftrightarrow> (if s \<le> n \<and> n \<le> e then bit v (n - s) else bit x n)" by auto
  have "y = x" unfolding word_eq_bits by (auto simp: y v)
  with y show ?thesis by simp
qed

end

interpretation bf8: bit_field 8 BitFieldRead8 BitFieldOr8 BitFieldAnd8 BitFieldWrite8
proof
  show "\<exists>r. BitFieldRead8 x s e = Some r \<and> (\<forall>n. bit r n \<longleftrightarrow> bit x (s + n) \<and> s + n \<le> e)"
    if "s \<le> e" "e < 8" for x s e
    using that by (auto simp: BitFieldRead8_def bit_ucast_iff read_uint_bit)
  show "\<exists>r. BitFieldOr8 x s e d = Some r
      \<and> (\<forall>n. bit r n \<longleftrightarrow> bit x n \<or> (s \<le> n \<and> n \<le> e \<and> bit d (n - s)))"
    if "s \<le> e" "e < 8" "fits_field (e - s) d" for x s e d
    using that by (auto simp: BitFieldOr8_def worker_defs bit_ucast_iff or_uint_bit dest: bit_imp_le_length)
  show "\<exists>r. BitFieldAnd8 x s e d = Some r
      \<and> (\<forall>n. bit r n \<longleftrightarrow> bit x n \<and> (s \<le> n \<and> n \<le> e \<longrightarrow> bit d (n - s)))"
    if "s \<le> e" "e < 8" "fits_field (e - s) d" for x s e d
    using that by (auto simp: BitFieldAnd8_def worker_defs bit_ucast_iff and_uint_bit dest: bit_imp_le_length)
qed (auto simp: BitFieldRead8_def BitFieldOr8_def BitFieldWrite8_def BitFieldAndThenOr8_def
      worker_defs split: if_splits)

interpretation bf16: bit_field 16 BitFieldRead16 BitFieldOr16 BitFieldAnd16 BitFieldWrite16
proof
  show "\<exists>r. BitFieldRead16 x s e = Some r \<and> (\<forall>n. bit r n \<longleftrightarrow> bit x (s + n) \<and> s + n \<le> e)"
    if "s \<le> e" "e < 16" for x s e
    using that by (auto simp: BitFieldRead16_def bit_ucast_iff read_uint_bit)
  show "\<exists>r. BitFieldOr16 x s e d = Some r
      \<and> (\<forall>n. bit r n \<longleftrightarrow> bit x n \<or> (s \<le> n \<and> n \<le> e \<and> bit d (n - s)))"
    if "s \<le> e" "e < 16" "fits_field (e - s) d" for x s e d
    using that by (auto simp: BitFieldOr16_def worker_defs bit_ucast_iff or_uint_bit dest: bit_imp_le_length)
  show "\<exists>r. BitFieldAnd16 x s e d = Some r
      \<and> (\<forall>n. bit r n \<longleftrightarrow> bit x n \<and> (s \<le> n \<and> n \<le> e \<longrightarrow> bit d (n - s)))"
    if "s \<le> e" "e < 16" "fits_field (e - s) d" for x s e d
    using that by (auto simp: BitFieldAnd16_def worker_defs bit_ucast_iff and_uint_bit dest: bit_imp_le_length)
qed (auto simp: BitFieldRead16_def BitFieldOr16_def BitFieldWrite16_def BitFieldAndThenOr16_def
      worker_defs split: if_splits)

interpretation bf32: bit_field 32 BitFieldRead32 BitFieldOr32 BitFieldAnd32 BitFieldWrite32
proof
  show "\<exists>r. BitFieldRead32 x s e = Some r \<and> (\<forall>n. bit r n \<longleftrightarrow> bit x (s + n) \<and> s + n \<le> e)"
    if "s \<le> e" "e < 32" for x s e
    using that by (auto simp: BitFieldRead32_def bit_ucast_iff read_uint_bit)
  show "\<exists>r. BitFieldOr32 x s e d = Some r
      \<and> (\<forall>n. bit r n \<longleftrightarrow> bit x n \<or> (s \<le> n \<and> n \<le> e \<and> bit d (n - s)))"
    if "s \<le> e" "e < 32" "fits_field (e - s) d" for x s e d
    using that by (auto simp: BitFieldOr32_def worker_defs bit_ucast_iff or_uint_bit dest: bit_imp_le_length)
  show "\<exists>r. BitFieldAnd32 x s e d = Some r
      \<and> (\<forall>n. bit r n \<longleftrightarrow> bit x n \<and> (s \<le> n \<and> n \<le> e \<longrightarrow> bit d (n - s)))"
    if "s \<le> e" "e < 32" "fits_field (e - s) d" for x s e d
    using that by (auto simp: BitFieldAnd32_def worker_defs bit_ucast_iff and_uint_bit dest: bit_imp_le_length)
qed (auto simp: BitFieldRead32_def BitFieldOr32_def BitFieldWrite32_def BitFieldAndThenOr32_def
      worker_defs split: if_splits)

lemmas worker64_defs = LShiftU64_def RShiftU64_def InternalMathLShiftU64_def
  InternalMathRShiftU64_def assert_simps assert_fits

interpretation bf64: bit_field 64 BitFieldRead64 BitFieldOr64 BitFieldAnd64 BitFieldWrite64
proof
  show "\<exists>r. BitFieldRead64 x s e = Some r \<and> (\<forall>n. bit r n \<longleftrightarrow> bit x (s + n) \<and> s + n \<le> e)"
    if "s \<le> e" "e < 64" for x s e
    using that read_uint_bit[of x s e]
    by (auto simp: BitFieldRead64_def worker64_defs InternalBaseLibBitFieldReadUint_def)
  show "\<exists>r. BitFieldOr64 x s e d = Some r
      \<and> (\<forall>n. bit r n \<longleftrightarrow> bit x n \<or> (s \<le> n \<and> n \<le> e \<and> bit d (n - s)))"
    if "s \<le> e" "e < 64" "fits_field (e - s) d" for x s e d
    using that by (auto simp: BitFieldOr64_def worker64_defs or_uint_bit)
  show "\<exists>r. BitFieldAnd64 x s e d = Some r
      \<and> (\<forall>n. bit r n \<longleftrightarrow> bit x n \<and> (s \<le> n \<and> n \<le> e \<longrightarrow> bit d (n - s)))"
    if "s \<le> e" "e < 64" "fits_field (e - s) d" for x s e d
    using that by (auto simp: BitFieldAnd64_def worker64_defs and_uint_bit)
qed (auto simp: BitFieldRead64_def BitFieldOr64_def BitFieldWrite64_def BitFieldAndThenOr64_def
      worker64_defs split: if_splits)

lemma fits_field_unat: "fits_field n v \<longleftrightarrow> unat v < 2 ^ (n + 1)"
proof -
  have "fits_field n v \<longleftrightarrow> unat v div 2 ^ Suc n = 0"
    using unat_drop_bit_eq[of "Suc n" v] unat_eq_0[of "drop_bit (Suc n) v"]
    by (simp only: fits_field_def drop_bit_eq_div)
  then show ?thesis by (simp only: div_eq_0_iff) simp
qed

subsection \<open>Properties\<close>

lemma bit_field_write_then_read_facts:
  shows "BitFieldWrite8 x8 s e v8 = Some y8 \<Longrightarrow> BitFieldRead8 y8 s e = Some v8 \<and>
      (s' \<le> e' \<longrightarrow> e' < s \<or> (e < s' \<and> e' < 8) \<longrightarrow> BitFieldRead8 y8 s' e' = BitFieldRead8 x8 s' e')"
    and "BitFieldWrite16 x16 s e v16 = Some y16 \<Longrightarrow> BitFieldRead16 y16 s e = Some v16 \<and>
      (s' \<le> e' \<longrightarrow> e' < s \<or> (e < s' \<and> e' < 16) \<longrightarrow> BitFieldRead16 y16 s' e' = BitFieldRead16 x16 s' e')"
    and "BitFieldWrite32 x32 s e v32 = Some y32 \<Longrightarrow> BitFieldRead32 y32 s e = Some v32 \<and>
      (s' \<le> e' \<longrightarrow> e' < s \<or> (e < s' \<and> e' < 32) \<longrightarrow> BitFieldRead32 y32 s' e' = BitFieldRead32 x32 s' e')"
    and "BitFieldWrite64 x64 s e v64 = Some y64 \<Longrightarrow> BitFieldRead64 y64 s e = Some v64 \<and>
      (s' \<le> e' \<longrightarrow> e' < s \<or> (e < s' \<and> e' < 64) \<longrightarrow> BitFieldRead64 y64 s' e' = BitFieldRead64 x64 s' e')"
  by (rule bf8.read_write bf16.read_write bf32.read_write bf64.read_write, assumption)+

text \<open>For all four widths, a successful field write is read back unchanged and every
  field that does not overlap it keeps its value.\<close>

theorem bit_field_write_then_read:
  "(BitFieldWrite8 x8 s e v8 = Some y8 \<longrightarrow> BitFieldRead8 y8 s e = Some v8 \<and>
      (s' \<le> e' \<longrightarrow> e' < s \<or> (e < s' \<and> e' < 8) \<longrightarrow> BitFieldRead8 y8 s' e' = BitFieldRead8 x8 s' e')) \<and>
   (BitFieldWrite16 x16 s e v16 = Some y16 \<longrightarrow> BitFieldRead16 y16 s e = Some v16 \<and>
      (s' \<le> e' \<longrightarrow> e' < s \<or> (e < s' \<and> e' < 16) \<longrightarrow> BitFieldRead16 y16 s' e' = BitFieldRead16 x16 s' e')) \<and>
   (BitFieldWrite32 x32 s e v32 = Some y32 \<longrightarrow> BitFieldRead32 y32 s e = Some v32 \<and>
      (s' \<le> e' \<longrightarrow> e' < s \<or> (e < s' \<and> e' < 32) \<longrightarrow> BitFieldRead32 y32 s' e' = BitFieldRead32 x32 s' e')) \<and>
   (BitFieldWrite64 x64 s e v64 = Some y64 \<longrightarrow> BitFieldRead64 y64 s e = Some v64 \<and>
      (s' \<le> e' \<longrightarrow> e' < s \<or> (e < s' \<and> e' < 64) \<longrightarrow> BitFieldRead64 y64 s' e' = BitFieldRead64 x64 s' e'))"
  by (intro conjI) (rule impI, erule bit_field_write_then_read_facts)+

theorem bit_field_write_then_read_witness:
  "\<exists>y. BitFieldWrite8 0xF5 4 6 2 = Some y \<and> BitFieldRead8 y 4 6 = Some 2 \<and>
     BitFieldRead8 y 0 3 = BitFieldRead8 0xF5 0 3"
proof -
  have "BitFieldWrite8 0xF5 4 6 2 = Some 0xA5" by code_simp
  with bit_field_write_then_read[of "0xF5" 4 6 2 "0xA5" 0 3] show ?thesis by simp
qed

lemma bit_field_write_domain_facts:
  "BitFieldWrite8 x8 s e v8 \<noteq> None \<longleftrightarrow> s \<le> e \<and> e < 8 \<and> unat v8 < 2 ^ (e - s + 1)"
  "BitFieldWrite16 x16 s e v16 \<noteq> None \<longleftrightarrow> s \<le> e \<and> e < 16 \<and> unat v16 < 2 ^ (e - s + 1)"
  "BitFieldWrite32 x32 s e v32 \<noteq> None \<longleftrightarrow> s \<le> e \<and> e < 32 \<and> unat v32 < 2 ^ (e - s + 1)"
  "BitFieldWrite64 x64 s e v64 \<noteq> None \<longleftrightarrow> s \<le> e \<and> e < 64 \<and> unat v64 < 2 ^ (e - s + 1)"
  "BitFieldRead8 x8 s e = Some v8 \<Longrightarrow> BitFieldWrite8 x8 s e v8 = Some x8"
  "BitFieldRead16 x16 s e = Some v16 \<Longrightarrow> BitFieldWrite16 x16 s e v16 = Some x16"
  "BitFieldRead32 x32 s e = Some v32 \<Longrightarrow> BitFieldWrite32 x32 s e v32 = Some x32"
  "BitFieldRead64 x64 s e = Some v64 \<Longrightarrow> BitFieldWrite64 x64 s e v64 = Some x64"
  by (simp_all only: bf8.write_defined bf16.write_defined bf32.write_defined bf64.write_defined
      fits_field_unat bf8.write_read bf16.write_read bf32.write_read bf64.write_read)

text \<open>A field write ASSERTs exactly when the bit range is not StartBit \<le> EndBit \<le> width - 1
  or the value does not fit into the field, and writing back what was read changes nothing.\<close>

theorem bit_field_write_domain:
  "(BitFieldWrite8 x8 s e v8 \<noteq> None \<longleftrightarrow> s \<le> e \<and> e < 8 \<and> unat v8 < 2 ^ (e - s + 1)) \<and>
   (BitFieldWrite16 x16 s e v16 \<noteq> None \<longleftrightarrow> s \<le> e \<and> e < 16 \<and> unat v16 < 2 ^ (e - s + 1)) \<and>
   (BitFieldWrite32 x32 s e v32 \<noteq> None \<longleftrightarrow> s \<le> e \<and> e < 32 \<and> unat v32 < 2 ^ (e - s + 1)) \<and>
   (BitFieldWrite64 x64 s e v64 \<noteq> None \<longleftrightarrow> s \<le> e \<and> e < 64 \<and> unat v64 < 2 ^ (e - s + 1)) \<and>
   (BitFieldRead8 x8 s e = Some v8 \<longrightarrow> BitFieldWrite8 x8 s e v8 = Some x8) \<and>
   (BitFieldRead16 x16 s e = Some v16 \<longrightarrow> BitFieldWrite16 x16 s e v16 = Some x16) \<and>
   (BitFieldRead32 x32 s e = Some v32 \<longrightarrow> BitFieldWrite32 x32 s e v32 = Some x32) \<and>
   (BitFieldRead64 x64 s e = Some v64 \<longrightarrow> BitFieldWrite64 x64 s e v64 = Some x64)"
  by (intro conjI impI bit_field_write_domain_facts)

theorem bit_field_write_domain_witness:
  "BitFieldWrite16 0x1234 4 11 0x23 = Some 0x1234"
proof -
  have "BitFieldRead16 0x1234 4 11 = Some 0x23" by code_simp
  with bit_field_write_domain[where ?x16.0 = "0x1234" and s = 4 and e = 11 and ?v16.0 = "0x23"]
  show ?thesis by (simp only: simp_thms)
qed

end
