(* ===== verification/Math_Lib.thy ===== *)
theory Math_Lib
  imports Bit_Field "HOL-Library.Signed_Division"
begin

text \<open>
  The integer helpers of MdePkg/Library/BaseLib: rotations, arithmetic shift, byte swaps,
  highest and lowest set bit, greatest power of two, and division (ARShiftU64.c, LRotU32.c,
  LRotU64.c, RRotU32.c, RRotU64.c, SwapBytes16.c, SwapBytes32.c, SwapBytes64.c,
  HighBitSet32.c, HighBitSet64.c, LowBitSet32.c, LowBitSet64.c, GetPowerOfTwo32.c,
  GetPowerOfTwo64.c, MultU64x32.c, MultU64x64.c, MultS64x64.c, DivU64x32.c, ModU64x32.c,
  DivU64x32Remainder.c, DivU64x64Remainder.c, DivS64x64Remainder.c, Math64.c).

  Signed values are words in two's complement.  A C shift by the width of its operand or more is undefined: c_shl and c_shr give None
  there.  A loop that does not end, and a signed quotient that does not fit, are None too.
\<close>

unbundle bit_operations_syntax

definition c_shl :: "'a::len word \<Rightarrow> nat \<Rightarrow> 'a word option" where
  "c_shl x n = (if n < LENGTH('a) then Some (push_bit n x) else None)"

definition c_shr :: "'a::len word \<Rightarrow> nat \<Rightarrow> 'a word option" where
  "c_shr x n = (if n < LENGTH('a) then Some (drop_bit n x) else None)"

subsection \<open>Rotations and the arithmetic shift\<close>

definition LRotU32 :: "u32 \<Rightarrow> nat \<Rightarrow> u32 option" where
  "LRotU32 Operand Count = do {
     ASSERT (Count < 32);
     a \<leftarrow> c_shl Operand Count;
     b \<leftarrow> c_shr Operand (32 - Count);
     Some (a OR b)
   }"

definition RRotU32 :: "u32 \<Rightarrow> nat \<Rightarrow> u32 option" where
  "RRotU32 Operand Count = do {
     ASSERT (Count < 32);
     a \<leftarrow> c_shr Operand Count;
     b \<leftarrow> c_shl Operand (32 - Count);
     Some (a OR b)
   }"

definition InternalMathLRotU64 :: "u64 \<Rightarrow> nat \<Rightarrow> u64 option" where
  "InternalMathLRotU64 Operand Count = do {
     a \<leftarrow> c_shl Operand Count;
     b \<leftarrow> c_shr Operand (64 - Count);
     Some (a OR b)
   }"

definition InternalMathRRotU64 :: "u64 \<Rightarrow> nat \<Rightarrow> u64 option" where
  "InternalMathRRotU64 Operand Count = do {
     a \<leftarrow> c_shr Operand Count;
     b \<leftarrow> c_shl Operand (64 - Count);
     Some (a OR b)
   }"

definition LRotU64 :: "u64 \<Rightarrow> nat \<Rightarrow> u64 option" where
  "LRotU64 Operand Count = do {
     ASSERT (Count < 64);
     InternalMathLRotU64 Operand Count
   }"

definition RRotU64 :: "u64 \<Rightarrow> nat \<Rightarrow> u64 option" where
  "RRotU64 Operand Count = do {
     ASSERT (Count < 64);
     InternalMathRRotU64 Operand Count
   }"

text \<open>
  The first branch tests whether the compiler's >> on a negative INT64 keeps the sign; the
  test value is (INTN)((INT64)(1ULL << 63) >> 63), computed here with the sign kept or not
  (arith).  The second branch builds the same result from the logical shift.
\<close>

definition InternalMathARShiftU64 :: "bool \<Rightarrow> u64 \<Rightarrow> nat \<Rightarrow> u64" where
  "InternalMathARShiftU64 arith Operand Count =
     (let TestValue = (if arith then signed_drop_bit 63 (push_bit 63 (1 :: u64))
                       else drop_bit 63 (push_bit 63 1))
      in if TestValue = - 1
         then (if arith then signed_drop_bit Count Operand else drop_bit Count Operand)
         else drop_bit Count Operand OR
              (if sint Operand < 0 then NOT (drop_bit Count (- 1)) else 0))"

definition ARShiftU64 :: "bool \<Rightarrow> u64 \<Rightarrow> nat \<Rightarrow> u64 option" where
  "ARShiftU64 arith Operand Count = do {
     ASSERT (Count < 64);
     Some (InternalMathARShiftU64 arith Operand Count)
   }"

subsection \<open>Byte swaps\<close>

definition SwapBytes16 :: "u16 \<Rightarrow> u16" where
  "SwapBytes16 Value = push_bit 8 Value OR drop_bit 8 Value"

definition SwapBytes32 :: "u32 \<Rightarrow> u32" where
  "SwapBytes32 Value =
     (let LowerBytes = ucast (SwapBytes16 (ucast Value)) :: u32;
          HigherBytes = ucast (SwapBytes16 (ucast (drop_bit 16 Value)))
      in push_bit 16 LowerBytes OR HigherBytes)"

definition InternalMathSwapBytes64 :: "u64 \<Rightarrow> u64" where
  "InternalMathSwapBytes64 Operand =
     (let LowerBytes = ucast (SwapBytes32 (ucast Operand)) :: u64;
          HigherBytes = ucast (SwapBytes32 (ucast (drop_bit 32 Operand)))
      in push_bit 32 LowerBytes OR HigherBytes)"

definition SwapBytes64 :: "u64 \<Rightarrow> u64" where
  "SwapBytes64 Value = InternalMathSwapBytes64 Value"

subsection \<open>Highest and lowest set bit\<close>

lemma sint_neg_bit: "sint (x :: 'a::len word) < 0 \<longleftrightarrow> bit x (LENGTH('a) - 1)"
  using bit_last_iff[of x] by simp

lemma sint_pos_bit: "0 < sint (x :: 'a::len word) \<longleftrightarrow> x \<noteq> 0 \<and> \<not> bit x (LENGTH('a) - 1)"
  using sint_neg_bit[of x] signed_eq_0_iff[of x, where ?'a = int] by linarith

lemma unat_drop: "unat (drop_bit n x) = unat x div 2 ^ n"
  unfolding unat_drop_bit_eq by (rule drop_bit_eq_div)

lemma not_last_bit_less: "\<not> bit (x :: u32) 31 \<Longrightarrow> unat x < 2 ^ 31"
proof -
  assume "\<not> bit x 31"
  then have "drop_bit 31 x = 0" using drop_bit_eq_zero_iff_not_bit_last[of x] by simp
  then have "unat x div 2 ^ 31 = 0" using unat_drop[of 31 x] by simp
  then show ?thesis by (simp add: div_eq_0_iff)
qed

lemma unat_shl1_less:
  assumes "0 < sint (x :: u32)"
  shows "unat x < unat (push_bit 1 x)"
proof -
  from assms have x: "x \<noteq> 0" and lt: "unat x < 2 ^ 31"
    using not_last_bit_less by (auto simp: sint_pos_bit)
  have "push_bit 1 x = x * 2" by (simp add: push_bit_eq_mult)
  then have "unat (push_bit 1 x) = unat x * 2" using lt by (simp add: unat_word_ariths)
  moreover have "0 < unat x" using x by (simp add: unat_gt_0)
  ultimately show ?thesis by simp
qed

function high_bit_loop :: "u32 \<Rightarrow> int \<Rightarrow> int" where
  "high_bit_loop Operand BitIndex =
     (if 0 < sint Operand then high_bit_loop (push_bit 1 Operand) (BitIndex - 1) else BitIndex)"
  by pat_completeness auto
termination
proof (relation "measure (\<lambda>(x, i). 2 ^ 32 - unat x)", goal_cases)
  case (2 x i)
  then show ?case using unat_shl1_less[of x] unsigned_less[of "push_bit 1 x", where ?'a = nat] by simp
qed simp

declare high_bit_loop.simps [simp del]

definition HighBitSet32 :: "u32 \<Rightarrow> int" where
  "HighBitSet32 Operand = (if Operand = 0 then - 1 else high_bit_loop Operand 31)"

definition HighBitSet64 :: "u64 \<Rightarrow> int" where
  "HighBitSet64 Operand =
     (if Operand = ucast (ucast Operand :: u32) then HighBitSet32 (ucast Operand)
      else HighBitSet32 (ucast (InternalMathRShiftU64 Operand 32)) + 32)"

partial_function (option) low_bit_loop :: "'a::len word \<Rightarrow> int \<Rightarrow> int option" where
  "low_bit_loop Operand BitIndex =
     (if Operand AND 1 = 0 then low_bit_loop (drop_bit 1 Operand) (BitIndex + 1)
      else Some BitIndex)"

definition LowBitSet32 :: "u32 \<Rightarrow> int option" where
  "LowBitSet32 Operand = (if Operand = 0 then Some (- 1) else low_bit_loop Operand 0)"

definition LowBitSet64 :: "u64 \<Rightarrow> int option" where
  "LowBitSet64 Operand = (if Operand = 0 then Some (- 1) else low_bit_loop Operand 0)"

definition GetPowerOfTwo32 :: "u32 \<Rightarrow> u32" where
  "GetPowerOfTwo32 Operand = (if 0 = Operand then 0 else push_bit (nat (HighBitSet32 Operand)) 1)"

definition GetPowerOfTwo64 :: "u64 \<Rightarrow> u64 option" where
  "GetPowerOfTwo64 Operand = (if Operand = 0 then Some 0 else LShiftU64 1 (nat (HighBitSet64 Operand)))"

subsection \<open>Division\<close>

definition InternalMathDivU64x32 :: "u64 \<Rightarrow> u32 \<Rightarrow> u64" where
  "InternalMathDivU64x32 Dividend Divisor = Dividend div ucast Divisor"

definition InternalMathModU64x32 :: "u64 \<Rightarrow> u32 \<Rightarrow> u32" where
  "InternalMathModU64x32 Dividend Divisor = ucast (Dividend mod ucast Divisor)"

text \<open>The optional Remainder: None is a NULL pointer, Some r the cell it points to.\<close>

definition InternalMathDivRemU64x32 :: "u64 \<Rightarrow> u32 \<Rightarrow> u32 option \<Rightarrow> u64 \<times> u32 option" where
  "InternalMathDivRemU64x32 Dividend Divisor Remainder =
     (Dividend div ucast Divisor,
      if Remainder \<noteq> None then Some (ucast (Dividend mod ucast Divisor)) else None)"

definition DivU64x32 :: "u64 \<Rightarrow> u32 \<Rightarrow> u64 option" where
  "DivU64x32 Dividend Divisor = do {
     ASSERT (Divisor \<noteq> 0);
     Some (InternalMathDivU64x32 Dividend Divisor)
   }"

definition ModU64x32 :: "u64 \<Rightarrow> u32 \<Rightarrow> u32 option" where
  "ModU64x32 Dividend Divisor = do {
     ASSERT (Divisor \<noteq> 0);
     Some (InternalMathModU64x32 Dividend Divisor)
   }"

definition DivU64x32Remainder :: "u64 \<Rightarrow> u32 \<Rightarrow> u32 option \<Rightarrow> (u64 \<times> u32 option) option" where
  "DivU64x32Remainder Dividend Divisor Remainder = do {
     ASSERT (Divisor \<noteq> 0);
     Some (InternalMathDivRemU64x32 Dividend Divisor Remainder)
   }"

definition InternalMathDivRemU64x64 :: "u64 \<Rightarrow> u64 \<Rightarrow> u64 option \<Rightarrow> u64 \<times> u64 option" where
  "InternalMathDivRemU64x64 Dividend Divisor Remainder =
     (Dividend div Divisor, if Remainder \<noteq> None then Some (Dividend mod Divisor) else None)"

definition DivU64x64Remainder :: "u64 \<Rightarrow> u64 \<Rightarrow> u64 option \<Rightarrow> (u64 \<times> u64 option) option" where
  "DivU64x64Remainder Dividend Divisor Remainder = do {
     ASSERT (Divisor \<noteq> 0);
     Some (InternalMathDivRemU64x64 Dividend Divisor Remainder)
   }"

text \<open>Signed division rounds to zero; MIN_INT64 / -1 is undefined.\<close>

definition InternalMathDivRemS64x64 :: "u64 \<Rightarrow> u64 \<Rightarrow> u64 option \<Rightarrow> (u64 \<times> u64 option) option" where
  "InternalMathDivRemS64x64 Dividend Divisor Remainder =
     (if Dividend = 0x8000000000000000 \<and> Divisor = - 1 then None
      else Some (word_of_int (sint Dividend sdiv sint Divisor),
        if Remainder \<noteq> None then Some (word_of_int (sint Dividend smod sint Divisor)) else None))"

definition DivS64x64Remainder :: "u64 \<Rightarrow> u64 \<Rightarrow> u64 option \<Rightarrow> (u64 \<times> u64 option) option" where
  "DivS64x64Remainder Dividend Divisor Remainder = do {
     ASSERT (Divisor \<noteq> 0);
     InternalMathDivRemS64x64 Dividend Divisor Remainder
   }"

subsection \<open>Multiplication\<close>

definition InternalMathMultU64x32 :: "u64 \<Rightarrow> u32 \<Rightarrow> u64" where
  "InternalMathMultU64x32 Multiplicand Multiplier = Multiplicand * ucast Multiplier"

definition InternalMathMultU64x64 :: "u64 \<Rightarrow> u64 \<Rightarrow> u64" where
  "InternalMathMultU64x64 Multiplicand Multiplier = Multiplicand * Multiplier"

definition MultU64x32 :: "u64 \<Rightarrow> u32 \<Rightarrow> u64" where
  "MultU64x32 Multiplicand Multiplier = InternalMathMultU64x32 Multiplicand Multiplier"

definition MultU64x64 :: "u64 \<Rightarrow> u64 \<Rightarrow> u64" where
  "MultU64x64 Multiplicand Multiplier = InternalMathMultU64x64 Multiplicand Multiplier"

definition MultS64x64 :: "u64 \<Rightarrow> u64 \<Rightarrow> u64" where
  "MultS64x64 Multiplicand Multiplier = MultU64x64 Multiplicand Multiplier"

subsection \<open>What the loops compute\<close>

text \<open>The highest set bit of a word.\<close>

definition high_bit :: "'a::len word \<Rightarrow> nat \<Rightarrow> bool" where
  "high_bit x k \<longleftrightarrow> bit x k \<and> (\<forall>m. k < m \<longrightarrow> \<not> bit x m)"

lemma high_bit_exists: "x \<noteq> 0 \<Longrightarrow> \<exists>k < LENGTH('a). high_bit (x :: 'a::len word) k"
proof -
  assume "x \<noteq> 0"
  then obtain i where i: "bit x i" using word_eq_bits[of x 0] by auto
  let ?S = "{k. bit x k}"
  have fin: "finite ?S" by (rule finite_subset[of _ "{..<LENGTH('a)}"]) (auto dest: bit_imp_le_length)
  have "Max ?S \<in> ?S" using fin i by (intro Max_in) auto
  then have m: "bit x (Max ?S)" by simp
  have "\<forall>m. Max ?S < m \<longrightarrow> \<not> bit x m"
  proof (intro allI impI notI)
    fix m assume "Max ?S < m" "bit x m"
    moreover from \<open>bit x m\<close> have "m \<le> Max ?S" by (intro Max_ge[OF fin]) simp
    ultimately show False by simp
  qed
  with m have "high_bit x (Max ?S)" unfolding high_bit_def by blast
  with bit_imp_le_length[OF m] show ?thesis by blast
qed

lemma high_bit_loop_eq:
  "high_bit x k \<Longrightarrow> k < 32 \<Longrightarrow> high_bit_loop x i = i - (31 - int k)"
proof (induction "31 - k" arbitrary: x k i)
  case 0
  then have "k = 31" by simp
  with 0 have "bit x 31" by (simp add: high_bit_def)
  then have "\<not> 0 < sint x" using sint_pos_bit[of x] by simp
  with 0 show ?case by (simp add: high_bit_loop.simps[of x])
next
  case (Suc n)
  then have "x \<noteq> 0" "\<not> bit x 31" by (auto simp: high_bit_def)
  then have "0 < sint x" using sint_pos_bit[of x] by simp
  moreover have "high_bit (push_bit 1 x) (Suc k)"
    using Suc.prems Suc.hyps(2) unfolding high_bit_def bit_push_bit_iff by auto
  ultimately show ?case
    using Suc.hyps(1)[of "Suc k" "push_bit 1 x" "i - 1"] Suc.hyps(2) Suc.prems
    by (simp add: high_bit_loop.simps[of x])
qed

lemma HighBitSet32_high: "high_bit x k \<Longrightarrow> HighBitSet32 x = int k"
  using high_bit_loop_eq[of x k 31] by (auto simp: HighBitSet32_def high_bit_def dest: bit_imp_le_length)

lemma HighBitSet64_high:
  assumes h: "high_bit x k"
  shows "HighBitSet64 x = int k"
proof (cases "k < 32")
  case True
  from h have "bit x m \<Longrightarrow> m \<le> k" for m by (meson high_bit_def not_less)
  with True have "bit x m \<Longrightarrow> m < 32" for m by (meson le_less_trans)
  then have "x = ucast (ucast x :: u32)"
    unfolding word_eq_bits by (auto simp: bit_ucast_iff dest: bit_imp_le_length)
  moreover have "high_bit (ucast x :: u32) k" using h True by (auto simp: high_bit_def bit_ucast_iff)
  ultimately show ?thesis by (simp add: HighBitSet64_def HighBitSet32_high)
next
  case False
  from h have "bit x k" "k < 64" by (auto simp: high_bit_def dest: bit_imp_le_length)
  with False have "x \<noteq> ucast (ucast x :: u32)"
    unfolding word_eq_bits by (auto simp: bit_ucast_iff)
  moreover have "high_bit (ucast (drop_bit 32 x) :: u32) (k - 32)"
    using h False \<open>k < 64\<close> by (auto simp: high_bit_def bit_ucast_iff bit_drop_bit_eq)
  ultimately show ?thesis using False
    by (simp add: HighBitSet64_def InternalMathRShiftU64_def HighBitSet32_high)
qed

lemma low_bit_loop_eq:
  "bit x k \<Longrightarrow> (\<forall>m < k. \<not> bit x m) \<Longrightarrow> low_bit_loop (x :: 'a::len word) i = Some (i + int k)"
proof (induction k arbitrary: x i)
  case 0
  then show ?case by (simp add: low_bit_loop.simps[of x] and_one_eq bit_0 odd_iff_mod_2_eq_one)
next
  case (Suc k)
  then have "x AND 1 = 0" by (auto simp: and_one_eq bit_0 even_iff_mod_2_eq_zero)
  moreover from Suc have "low_bit_loop (drop_bit 1 x) (i + 1) = Some (i + 1 + int k)"
    by (intro Suc.IH) (auto simp: bit_drop_bit_eq)
  ultimately show ?case by (simp add: low_bit_loop.simps[of x])
qed

lemma power_of_two_bound:
  assumes "high_bit (x :: 'a::len word) k"
  shows "2 ^ k \<le> unat x" "unat x < 2 ^ Suc k"
proof -
  have "drop_bit (Suc k) x = 0"
    using assms unfolding word_eq_bits by (simp add: bit_drop_bit_eq high_bit_def)
  then have "unat x div 2 ^ Suc k = 0" using unat_drop[of "Suc k" x] by simp
  then show "unat x < 2 ^ Suc k" by (simp only: div_eq_0_iff) auto
  have "bit (drop_bit k x) 0" using assms by (simp add: bit_drop_bit_eq high_bit_def)
  then have "drop_bit k x \<noteq> 0" by (metis bit_0_eq bot_apply bot_bool_def)
  then have "unat x div 2 ^ k \<noteq> 0" using unat_drop[of k x] by (metis unat_eq_0)
  then show "2 ^ k \<le> unat x" by (simp only: div_eq_0_iff) auto
qed

subsection \<open>What the rotations and swaps compute\<close>

lemmas rot_defs = c_shl_def c_shr_def InternalMathLRotU64_def InternalMathRRotU64_def assert_simps

lemma long_bit: "64 \<le> n \<Longrightarrow> \<not> bit (x :: u64) n" "32 \<le> n \<Longrightarrow> \<not> bit (y :: u32) n"
  "16 \<le> n \<Longrightarrow> \<not> bit (z :: u16) n"
  using bit_imp_le_length[of x n] bit_imp_le_length[of y n] bit_imp_le_length[of z n] by auto

lemma rot_bit:
  assumes "c < 64"
  shows "bit (push_bit c x OR drop_bit (64 - c) (x :: u64)) n \<longleftrightarrow>
    n < 64 \<and> bit x (if c \<le> n then n - c else n + (64 - c))"
proof (cases "c \<le> n")
  case True
  then have "\<not> bit x (64 - c + n)" using assms by (intro long_bit) auto
  with True show ?thesis by (simp add: bit_or_iff bit_push_bit_iff bit_drop_bit_eq)
next
  case False
  with assms show ?thesis by (simp add: bit_or_iff bit_push_bit_iff bit_drop_bit_eq add.commute)
qed

lemma LRotU64_eq: "0 < c \<Longrightarrow> c < 64 \<Longrightarrow> LRotU64 x c = Some (push_bit c x OR drop_bit (64 - c) x)"
  by (simp add: LRotU64_def rot_defs)

lemma RRotU64_eq: "0 < c \<Longrightarrow> c < 64 \<Longrightarrow>
    RRotU64 x c = Some (push_bit (64 - c) x OR drop_bit (64 - (64 - c)) x)"
  by (simp add: RRotU64_def rot_defs or.commute)

lemma rot_inverse:
  assumes c: "0 < c" "c < 64"
  shows "Option.bind (LRotU64 x c) (\<lambda>y. RRotU64 y c) = Some x"
proof -
  let ?y = "push_bit c x OR drop_bit (64 - c) x"
  have "push_bit (64 - c) ?y OR drop_bit (64 - (64 - c)) ?y = x"
    unfolding word_eq_bits
  proof
    fix n
    have "bit (push_bit (64 - c) ?y OR drop_bit (64 - (64 - c)) ?y) n \<longleftrightarrow>
      n < 64 \<and> bit ?y (if 64 - c \<le> n then n - (64 - c) else n + c)"
      using rot_bit[of "64 - c" ?y n] c by simp
    also have "\<dots> \<longleftrightarrow> n < 64 \<and> bit x n"
      using c by (cases "n < 64"; cases "64 - c \<le> n") (auto simp: rot_bit)
    also have "\<dots> \<longleftrightarrow> bit x n" using long_bit(1)[of n x] by linarith
    finally show "bit (push_bit (64 - c) ?y OR drop_bit (64 - (64 - c)) ?y) n \<longleftrightarrow> bit x n" .
  qed
  with c show ?thesis by (simp add: LRotU64_eq RRotU64_eq)
qed

lemma SwapBytes16_bit: "bit (SwapBytes16 x) n \<longleftrightarrow> n < 16 \<and> bit x (if n < 8 then n + 8 else n - 8)"
  using long_bit(3)[of "n + 8" x]
  by (cases "n < 8") (auto simp: SwapBytes16_def bit_or_iff bit_push_bit_iff bit_drop_bit_eq add.commute)

lemma SwapBytes32_bit:
  "bit (SwapBytes32 x) n \<longleftrightarrow> n < 32 \<and> bit x (if n < 8 then n + 24 else if n < 16 then n + 8
     else if n < 24 then n - 8 else n - 24)"
proof -
  consider "n < 8" | m where "n = 8 + m" "m < 8" | m where "n = 16 + m" "m < 8"
    | m where "n = 24 + m" "m < 8" | m where "n = 32 + m"
    by (cases "n < 8"; cases "n < 16"; cases "n < 24"; cases "n < 32") (auto simp: not_less le_iff_add)
  then show ?thesis
    by cases (simp_all add: SwapBytes32_def Let_def bit_or_iff bit_push_bit_iff bit_drop_bit_eq
        bit_ucast_iff SwapBytes16_bit add.commute)
qed

lemma SwapBytes64_bit:
  "bit (SwapBytes64 x) n \<longleftrightarrow> n < 64 \<and> bit x (8 * (7 - n div 8) + n mod 8)"
proof -
  have split: "bit (SwapBytes64 x) n \<longleftrightarrow> n < 64 \<and>
      (if n < 32 then bit (SwapBytes32 (ucast (drop_bit 32 x))) n
       else bit (SwapBytes32 (ucast x)) (n - 32))"
    by (auto simp: SwapBytes64_def InternalMathSwapBytes64_def Let_def bit_or_iff
        bit_push_bit_iff bit_ucast_iff SwapBytes32_bit)
  have "n < 64 \<Longrightarrow> n = 8 * (n div 8) + n mod 8" "n < 64 \<Longrightarrow> n div 8 < 8" by auto
  define q r where "q = n div 8" and "r = n mod 8"
  have n: "n = 8 * q + r" "r < 8" by (simp_all add: q_def r_def)
  consider "q = 0" | "q = 1" | "q = 2" | "q = 3" | "q = 4" | "q = 5" | "q = 6" | "q = 7" | "8 \<le> q"
    by linarith
  then have "n < 64 \<and> (if n < 32 then bit (SwapBytes32 (ucast (drop_bit 32 x))) n
       else bit (SwapBytes32 (ucast x)) (n - 32)) \<longleftrightarrow> n < 64 \<and> bit x (8 * (7 - q) + r)"
    by cases (use n in \<open>simp_all add: SwapBytes32_bit bit_ucast_iff bit_drop_bit_eq add.commute\<close>)
  with split show ?thesis by (simp add: q_def r_def)
qed

lemma SwapBytes64_involution: "SwapBytes64 (SwapBytes64 x) = x"
  unfolding word_eq_bits
proof
  fix n :: nat
  show "bit (SwapBytes64 (SwapBytes64 x)) n \<longleftrightarrow> bit x n"
  proof (cases "n < 64")
    case True
    define q r where "q = n div 8" and "r = n mod 8"
    have n: "n = 8 * q + r" "r < 8" "q < 8" using True by (auto simp: q_def r_def)
    have "8 * (7 - q) + r < 64" using n by linarith
    with n show ?thesis by (simp add: SwapBytes64_bit)
  next
    case False
    then show ?thesis using long_bit(1)[of n x] by (simp add: SwapBytes64_bit)
  qed
qed

subsection \<open>Properties\<close>

lemma GetPowerOfTwo64_correct_facts:
  "x \<noteq> 0 \<Longrightarrow> \<exists>k p. HighBitSet64 x = int k \<and> k < 64 \<and> GetPowerOfTwo64 x = Some p \<and>
     unat p = 2 ^ k \<and> unat p \<le> unat x \<and> unat x < 2 * unat p"
  "HighBitSet64 0 = - 1" "GetPowerOfTwo64 0 = Some 0"
proof -
  assume "x \<noteq> 0"
  then obtain k where k: "k < 64" "high_bit x k" using high_bit_exists[of x] by auto
  have h: "HighBitSet64 x = int k" by (rule HighBitSet64_high[OF k(2)])
  have "unat (push_bit k 1 :: u64) = 2 ^ k"
  proof -
    have "unat (push_bit k 1 :: u64) = take_bit 64 (push_bit k 1)"
      using unsigned_push_bit_eq[of k "1 :: u64", where ?'a = nat] by simp
    moreover have "(2 :: nat) ^ k < 2 ^ 64" using k(1) by (intro power_strict_increasing) auto
    ultimately show ?thesis by (simp only: push_bit_eq_mult mult_1 take_bit_nat_eq_self)
  qed
  moreover have "GetPowerOfTwo64 x = Some (push_bit k 1)"
    using h k(1) \<open>x \<noteq> 0\<close> by (simp add: GetPowerOfTwo64_def LShiftU64_def InternalMathLShiftU64_def assert_simps)
  ultimately show "\<exists>k p. HighBitSet64 x = int k \<and> k < 64 \<and> GetPowerOfTwo64 x = Some p \<and>
     unat p = 2 ^ k \<and> unat p \<le> unat x \<and> unat x < 2 * unat p"
    using h k(1) power_of_two_bound[OF k(2)] by auto
qed (simp_all add: HighBitSet64_def HighBitSet32_def GetPowerOfTwo64_def)

text \<open>HighBitSet64 and GetPowerOfTwo64 are exact: for a nonzero operand the first is the
  logarithm rounded down and the second, which never asserts, the largest power of two that is
  not above the operand; for zero they return -1 and 0.\<close>

theorem GetPowerOfTwo64_correct:
  "(x \<noteq> 0 \<longrightarrow> (\<exists>k p. HighBitSet64 x = int k \<and> k < 64 \<and> GetPowerOfTwo64 x = Some p \<and>
     unat p = 2 ^ k \<and> unat p \<le> unat x \<and> unat x < 2 * unat p)) \<and>
   HighBitSet64 0 = - 1 \<and> GetPowerOfTwo64 0 = Some 0"
  using GetPowerOfTwo64_correct_facts by blast

theorem GetPowerOfTwo64_correct_witness:
  "\<exists>k p. HighBitSet64 0x1234567890 = int k \<and> GetPowerOfTwo64 0x1234567890 = Some p \<and>
     unat p \<le> 0x1234567890 \<and> 0x1234567890 < 2 * unat p"
  using GetPowerOfTwo64_correct[of "0x1234567890"] by auto

lemma LowBitSet_correct_facts:
  "bit x k \<Longrightarrow> \<forall>m < k. \<not> bit x m \<Longrightarrow> LowBitSet64 x = Some (int k)"
  "bit y k \<Longrightarrow> \<forall>m < k. \<not> bit y m \<Longrightarrow> LowBitSet32 y = Some (int k)"
  "LowBitSet64 x \<noteq> None" "LowBitSet32 y \<noteq> None" "LowBitSet64 0 = Some (- 1)" "LowBitSet32 0 = Some (- 1)"
proof -
  show 64: "LowBitSet64 x = Some (int k)" if "bit x k" "\<forall>m < k. \<not> bit x m" for x k
    using low_bit_loop_eq[OF that, of 0] that(1) by (auto simp: LowBitSet64_def)
  show 32: "LowBitSet32 y = Some (int k)" if "bit y k" "\<forall>m < k. \<not> bit y m" for y k
    using low_bit_loop_eq[OF that, of 0] that(1) by (auto simp: LowBitSet32_def)
  show 0: "LowBitSet64 0 = Some (- 1)" "LowBitSet32 0 = Some (- 1)"
    by (simp_all add: LowBitSet64_def LowBitSet32_def)
  show "LowBitSet64 x \<noteq> None"
  proof (cases "x = 0")
    case False
    then obtain i where "bit x i" using word_eq_bits[of x 0] by auto
    then show ?thesis by (metis 64 LeastI_ex not_less_Least option.simps(3))
  qed (simp add: 0)
  show "LowBitSet32 y \<noteq> None"
  proof (cases "y = 0")
    case False
    then obtain i where "bit y i" using word_eq_bits[of y 0] by auto
    then show ?thesis by (metis 32 LeastI_ex not_less_Least option.simps(3))
  qed (simp add: 0)
qed

text \<open>LowBitSet32 and LowBitSet64 end on every operand and return the index of the lowest
  set bit, or -1 when there is none.\<close>

theorem LowBitSet_correct:
  "(bit x k \<and> (\<forall>m < k. \<not> bit x m) \<longrightarrow> LowBitSet64 x = Some (int k)) \<and>
   (bit y k \<and> (\<forall>m < k. \<not> bit y m) \<longrightarrow> LowBitSet32 y = Some (int k)) \<and>
   LowBitSet64 x \<noteq> None \<and> LowBitSet32 y \<noteq> None \<and> LowBitSet64 0 = Some (- 1) \<and> LowBitSet32 0 = Some (- 1)"
  using LowBitSet_correct_facts by blast

theorem LowBitSet_correct_witness: "LowBitSet64 0xF000 = Some 12"
proof -
  have "bit (0xF000 :: u64) 12" "\<forall>m < 12. \<not> bit (0xF000 :: u64) m" by code_simp+
  with LowBitSet_correct[of "0xF000" 12] show ?thesis by simp
qed

lemma rotations_inverse_and_zero_undefined_facts:
  "0 < c \<Longrightarrow> c < 64 \<Longrightarrow> Option.bind (LRotU64 x c) (\<lambda>y. RRotU64 y c) = Some x"
  "LRotU64 x 0 = None" "RRotU64 x 0 = None" "LRotU32 z 0 = None" "RRotU32 z 0 = None"
  using rot_inverse[of c x] by (simp_all add: LRotU64_def RRotU64_def LRotU32_def RRotU32_def rot_defs)

text \<open>The 64-bit rotations are inverse to each other for every count from 1 to 63, and the
  count 0, which their documentation and their ASSERT admit, shifts by the width of the
  operand, which C leaves undefined; the 32-bit rotations have the same hole.\<close>

theorem rotations_inverse_and_zero_undefined:
  "(0 < c \<and> c < 64 \<longrightarrow> Option.bind (LRotU64 x c) (\<lambda>y. RRotU64 y c) = Some x) \<and>
   LRotU64 x 0 = None \<and> RRotU64 x 0 = None \<and> LRotU32 z 0 = None \<and> RRotU32 z 0 = None"
  using rotations_inverse_and_zero_undefined_facts by blast

theorem rotations_inverse_and_zero_undefined_witness:
  "Option.bind (LRotU64 0x123456789ABCDEF0 12) (\<lambda>y. RRotU64 y 12) = Some 0x123456789ABCDEF0"
  using rotations_inverse_and_zero_undefined[of 12 "0x123456789ABCDEF0"] by simp

lemma SwapBytes_reverse_facts:
  "k < 8 \<Longrightarrow> j < 8 \<Longrightarrow> bit (SwapBytes64 x) (8 * k + j) = bit x (8 * (7 - k) + j)"
  "k < 4 \<Longrightarrow> j < 8 \<Longrightarrow> bit (SwapBytes32 y) (8 * k + j) = bit y (8 * (3 - k) + j)"
  "k < 2 \<Longrightarrow> j < 8 \<Longrightarrow> bit (SwapBytes16 z) (8 * k + j) = bit z (8 * (1 - k) + j)"
  "SwapBytes64 (SwapBytes64 x) = x"
proof -
  show "SwapBytes64 (SwapBytes64 x) = x" by (rule SwapBytes64_involution)
  show "bit (SwapBytes64 x) (8 * k + j) = bit x (8 * (7 - k) + j)" if "k < 8" "j < 8"
    using that by (simp add: SwapBytes64_bit)
  show "bit (SwapBytes32 y) (8 * k + j) = bit y (8 * (3 - k) + j)" if "k < 4" "j < 8"
  proof -
    consider "k = 0" | "k = 1" | "k = 2" | "k = 3" using \<open>k < 4\<close> by linarith
    then show ?thesis by cases (use \<open>j < 8\<close> in \<open>simp_all add: SwapBytes32_bit add.commute\<close>)
  qed
  show "bit (SwapBytes16 z) (8 * k + j) = bit z (8 * (1 - k) + j)" if "k < 2" "j < 8"
  proof -
    consider "k = 0" | "k = 1" using \<open>k < 2\<close> by linarith
    then show ?thesis by cases (use \<open>j < 8\<close> in \<open>simp_all add: SwapBytes16_bit add.commute\<close>)
  qed
qed

text \<open>SwapBytes64 reverses the order of the eight bytes, and swapping twice is the identity;
  SwapBytes32 and SwapBytes16 move the bytes likewise.\<close>

theorem SwapBytes_reverse:
  "(k < 8 \<and> j < 8 \<longrightarrow> bit (SwapBytes64 x) (8 * k + j) = bit x (8 * (7 - k) + j)) \<and>
   (k < 4 \<and> j < 8 \<longrightarrow> bit (SwapBytes32 y) (8 * k + j) = bit y (8 * (3 - k) + j)) \<and>
   (k < 2 \<and> j < 8 \<longrightarrow> bit (SwapBytes16 z) (8 * k + j) = bit z (8 * (1 - k) + j)) \<and>
   SwapBytes64 (SwapBytes64 x) = x"
  using SwapBytes_reverse_facts by blast

theorem SwapBytes_reverse_witness:
  "bit (SwapBytes64 0x80) 63"
  using SwapBytes_reverse[of 7 7 "0x80"] by simp

lemma div_mod_u64x32_facts:
  "d \<noteq> 0 \<Longrightarrow> \<exists>q r. DivU64x32 n d = Some q \<and> ModU64x32 n d = Some r \<and>
     unat n = unat q * unat d + unat r \<and> unat r < unat d \<and>
     DivU64x32Remainder n d (Some old) = Some (q, Some r) \<and> DivU64x32Remainder n d None = Some (q, None)"
  "DivU64x32 n 0 = None" "ModU64x32 n 0 = None" "DivU64x32Remainder n 0 p = None"
proof -
  assume d: "d \<noteq> 0"
  have "unat d < 2 ^ 64" using unsigned_less[of d, where ?'a = nat] by simp
  then have ud: "unat (ucast d :: u64) = unat d" by (simp add: unsigned_ucast_eq take_bit_nat_eq_self)
  then have tb: "take_bit 64 (unat d) = unat d" by (simp add: unsigned_ucast_eq)
  have lt: "unat n mod unat d < unat d" using d by (simp add: unat_gt_0)
  have "unat n mod unat d < 2 ^ 32" using lt unsigned_less[of d, where ?'a = nat] by simp
  then have r: "unat (ucast (n mod ucast d) :: u32) = unat n mod unat d"
    unfolding unsigned_ucast_eq[where ?'a = nat] unat_mod
    by (simp add: take_bit_nat_eq_self tb)
  have q: "unat (n div ucast d) = unat n div unat d" by (simp add: unat_div ud)
  show "\<exists>q r. DivU64x32 n d = Some q \<and> ModU64x32 n d = Some r \<and>
     unat n = unat q * unat d + unat r \<and> unat r < unat d \<and>
     DivU64x32Remainder n d (Some old) = Some (q, Some r) \<and> DivU64x32Remainder n d None = Some (q, None)"
    using d q r lt by (simp add: DivU64x32_def ModU64x32_def DivU64x32Remainder_def
        InternalMathDivU64x32_def InternalMathModU64x32_def InternalMathDivRemU64x32_def)
qed (simp_all add: DivU64x32_def ModU64x32_def DivU64x32Remainder_def)

text \<open>The division services assert on a zero divisor, and otherwise quotient and remainder
  satisfy the division identity with a remainder below the divisor, also in
  DivU64x32Remainder, which writes the remainder only where a pointer is given.\<close>

theorem div_mod_u64x32:
  "(d \<noteq> 0 \<longrightarrow> (\<exists>q r. DivU64x32 n d = Some q \<and> ModU64x32 n d = Some r \<and>
     unat n = unat q * unat d + unat r \<and> unat r < unat d \<and>
     DivU64x32Remainder n d (Some old) = Some (q, Some r) \<and> DivU64x32Remainder n d None = Some (q, None))) \<and>
   DivU64x32 n 0 = None \<and> ModU64x32 n 0 = None \<and> DivU64x32Remainder n 0 p = None"
  by (intro conjI impI div_mod_u64x32_facts)

theorem div_mod_u64x32_witness:
  "\<exists>q r. DivU64x32 100 7 = Some q \<and> ModU64x32 100 7 = Some r \<and> unat r < 7"
  using div_mod_u64x32[of 7 100] by auto


text \<open>The products are those of the integers modulo 2 ^ 64, signed ones too.\<close>

lemma sint_mod: "sint (w :: u64) mod 2 ^ 64 = uint w"
  by (simp add: uint_sint take_bit_eq_mod)

theorem mult_modulo:
  "uint (MultU64x32 a c) = uint a * uint c mod 2 ^ 64" "uint (MultU64x64 a b) = uint a * uint b mod 2 ^ 64"
  "sint (MultS64x64 a b) mod 2 ^ 64 = sint a * sint b mod 2 ^ 64"
proof -
  have u: "uint (ucast c :: u64) = uint c" by (simp add: unsigned_ucast_eq take_bit_int_eq_self_iff)
    (use uint_lt2p[of c] in simp)
  show "uint (MultU64x32 a c) = uint a * uint c mod 2 ^ 64"
    by (simp add: MultU64x32_def InternalMathMultU64x32_def uint_word_ariths u)
  show m: "uint (MultU64x64 a b) = uint a * uint b mod 2 ^ 64"
    by (simp add: MultU64x64_def InternalMathMultU64x64_def uint_word_ariths)
  have "sint a * sint b mod 2 ^ 64 = (sint a mod 2 ^ 64) * (sint b mod 2 ^ 64) mod 2 ^ 64"
    by (simp add: mod_mult_eq)
  also have "\<dots> = uint (MultS64x64 a b)" by (simp only: sint_mod MultS64x64_def m)
  finally show "sint (MultS64x64 a b) mod 2 ^ 64 = sint a * sint b mod 2 ^ 64" by (simp only: sint_mod)
qed

lemma sint_range: "- (2 ^ 63) \<le> sint (w :: u64)" "sint w < 2 ^ 63"
  using sint_ge[of w] sint_lt[of w] by simp_all

lemma sint_of_int_id:
  assumes "- (2 ^ 63) \<le> k" "k < 2 ^ 63"
  shows "sint (word_of_int k :: u64) = k"
  using assms by (simp add: signed_of_int signed_take_bit_int_eq_self)

lemma sint_eq_minus_one: "sint (w :: u64) = - 1 \<longleftrightarrow> w = - 1"
  by (metis sint_n1 signed_word_eqI)

lemma sint_eq_min: "sint (w :: u64) = - (2 ^ 63) \<longleftrightarrow> w = 0x8000000000000000"
proof -
  have "sint (0x8000000000000000 :: u64) = - (2 ^ 63)" by simp
  then show ?thesis by (metis signed_word_eqI)
qed

lemma sdiv_fits:
  fixes a b :: int
  assumes "- (2 ^ 63) \<le> a" "a < 2 ^ 63" "b \<noteq> 0" "\<not> (a = - (2 ^ 63) \<and> b = - 1)"
  shows "- (2 ^ 63) \<le> a sdiv b \<and> a sdiv b < 2 ^ 63"
proof (cases "b = - 1 \<or> b = 1")
  case True
  then show ?thesis using assms by (auto simp: sgn_mult_abs signed_divide_int_def)
next
  case False
  then have b: "2 \<le> \<bar>b\<bar>" using assms(3) by linarith
  have "\<bar>a\<bar> div \<bar>b\<bar> \<le> \<bar>a\<bar> div 2" by (rule zdiv_mono2) (use b in auto)
  moreover have "\<bar>a\<bar> \<le> 2 ^ 63" using assms(1,2) by linarith
  ultimately have d: "0 \<le> \<bar>a\<bar> div \<bar>b\<bar>" "\<bar>a\<bar> div \<bar>b\<bar> \<le> 2 ^ 62" using b by (auto simp: pos_imp_zdiv_nonneg_iff)
  have "\<bar>a sdiv b\<bar> \<le> \<bar>a\<bar> div \<bar>b\<bar>" using d(1)
    by (auto simp: signed_divide_int_def abs_mult abs_sgn_eq)
  then have "\<bar>a sdiv b\<bar> \<le> 2 ^ 62" using d(2) by (rule order_trans)
  then show ?thesis by (simp add: abs_le_iff)
qed

lemma smod_fits:
  fixes a b :: int
  assumes "b \<noteq> 0"
  shows "\<bar>a smod b\<bar> < \<bar>b\<bar>" "a smod b = 0 \<or> sgn (a smod b) = sgn a"
proof -
  have m: "a smod b = sgn a * (\<bar>a\<bar> mod \<bar>b\<bar>)" by (rule smod_int_alt_def)
  have r: "0 \<le> \<bar>a\<bar> mod \<bar>b\<bar>" "\<bar>a\<bar> mod \<bar>b\<bar> < \<bar>b\<bar>" using assms by simp_all
  show "\<bar>a smod b\<bar> < \<bar>b\<bar>" using r assms by (auto simp: m abs_mult abs_sgn_eq)
  show "a smod b = 0 \<or> sgn (a smod b) = sgn a" using r by (auto simp: m sgn_mult)
qed

text \<open>Division of 64 bit values. Signed division asserts on a zero divisor, is undefined for
  the one quotient that does not fit, and otherwise satisfies the division identity with a
  remainder that is smaller than the divisor and has the sign of the dividend; unsigned division
  likewise.\<close>

theorem div_mod_64x64:
  "(d \<noteq> 0 \<longrightarrow> (\<exists>q r. DivU64x64Remainder n d (Some old) = Some (q, Some r) \<and>
      uint n = uint q * uint d + uint r \<and> uint r < uint d)) \<and>
   (d \<noteq> 0 \<and> \<not> (n = 0x8000000000000000 \<and> d = - 1) \<longrightarrow>
     (\<exists>q r. DivS64x64Remainder n d (Some old) = Some (q, Some r) \<and>
      sint n = sint q * sint d + sint r \<and> \<bar>sint r\<bar> < \<bar>sint d\<bar> \<and> (sint r = 0 \<or> sgn (sint r) = sgn (sint n)))) \<and>
   DivU64x64Remainder n 0 p = None \<and> DivS64x64Remainder n 0 p = None \<and>
   DivS64x64Remainder 0x8000000000000000 (- 1) p = None"
proof (intro conjI impI)
  assume d: "d \<noteq> 0"
  have "uint d \<noteq> 0" using d by (simp add: uint_0_iff)
  then have "uint d > 0" using uint_ge_0[of d] by linarith
  then have "uint n = uint (n div d) * uint d + uint (n mod d) \<and> uint (n mod d) < uint d"
    by (simp add: uint_div uint_mod)
  then show "\<exists>q r. DivU64x64Remainder n d (Some old) = Some (q, Some r) \<and>
      uint n = uint q * uint d + uint r \<and> uint r < uint d"
    using d by (simp add: DivU64x64Remainder_def InternalMathDivRemU64x64_def assert_simps)
next
  assume d: "d \<noteq> 0 \<and> \<not> (n = 0x8000000000000000 \<and> d = - 1)"
  let ?q = "sint n sdiv sint d" and ?r = "sint n smod sint d"
  have nz: "sint d \<noteq> 0" using d by (metis signed_0 signed_word_eqI)
  have q: "sint (word_of_int ?q :: u64) = ?q"
    using sdiv_fits[OF sint_range(1,2)[of n] nz] d sint_eq_minus_one[of d] sint_eq_min[of n]
    by (intro sint_of_int_id) auto
  note R = smod_fits[OF nz, of "sint n"]
  have r: "sint (word_of_int ?r :: u64) = ?r"
    using R(1) sint_range[of d] by (intro sint_of_int_id) linarith+
  have "sint n = ?q * sint d + ?r" by (simp add: sdiv_mult_smod_eq)
  then show "\<exists>q r. DivS64x64Remainder n d (Some old) = Some (q, Some r) \<and>
      sint n = sint q * sint d + sint r \<and> \<bar>sint r\<bar> < \<bar>sint d\<bar> \<and> (sint r = 0 \<or> sgn (sint r) = sgn (sint n))"
    using d q r R by (intro exI[of _ "word_of_int ?q"] exI[of _ "word_of_int ?r"])
      (auto simp: DivS64x64Remainder_def InternalMathDivRemS64x64_def assert_simps)
qed (simp_all add: DivU64x64Remainder_def DivS64x64Remainder_def InternalMathDivRemS64x64_def assert_simps)


theorem div_mod_64x64_witness:
  "\<exists>q r. DivS64x64Remainder (- 7) 2 (Some 0) = Some (q, Some r) \<and> - 7 = sint q * 2 + sint r \<and> \<bar>sint r\<bar> < 2"
proof -
  have h: "(2 :: u64) \<noteq> 0 \<and> \<not> ((- 7 :: u64) = 0x8000000000000000 \<and> (2 :: u64) = - 1)" by simp
  have v: "sint (- 7 :: u64) = - 7" "sint (2 :: u64) = 2" by simp_all
  from div_mod_64x64[of 2 "- 7" 0 None] h
  obtain q r where "DivS64x64Remainder (- 7) 2 (Some 0) = Some (q, Some r)"
    "sint (- 7 :: u64) = sint q * sint (2 :: u64) + sint r" "\<bar>sint r\<bar> < \<bar>sint (2 :: u64)\<bar>" by blast
  then show ?thesis unfolding v by simp
qed

end
