(* ===== verification/Check_Sum.thy ===== *)
theory Check_Sum
  imports Efi_Prelude
begin

text \<open>
  MdePkg/Library/BaseLib/CheckSum.c: sums and two's complement checksums of a buffer in units
  of 8, 16, 32 and 64 bits.  The memory is a map from addresses to bytes, read little endian
  as the X64 build does; Buffer and Length are UINTN values as naturals, MAX_ADDRESS is
  2^64 - 1.  A failing ASSERT is None.
\<close>

unbundle bit_operations_syntax

type_synonym mem = "nat \<Rightarrow> u8"

definition load16 :: "mem \<Rightarrow> nat \<Rightarrow> u16" where
  "load16 m a = ucast (m a) OR push_bit 8 (ucast (m (a + 1)))"

definition load32 :: "mem \<Rightarrow> nat \<Rightarrow> u32" where
  "load32 m a = ucast (load16 m a) OR push_bit 16 (ucast (load16 m (a + 2)))"

definition load64 :: "mem \<Rightarrow> nat \<Rightarrow> u64" where
  "load64 m a = ucast (load32 m a) OR push_bit 32 (ucast (load32 m (a + 4)))"

definition MAX_ADDRESS :: nat where
  "MAX_ADDRESS = 0xFFFFFFFFFFFFFFFF"

text \<open>for (Sum = 0, Count = 0; Count < Total; Count++) Sum = Sum + *(Buffer + Count);\<close>

function sum_loop :: "(nat \<Rightarrow> 'a::len word) \<Rightarrow> nat \<Rightarrow> nat \<Rightarrow> 'a word \<Rightarrow> 'a word" where
  "sum_loop element Totl Count Sm =
     (if Count < Totl then sum_loop element Totl (Suc Count) (Sm + element Count) else Sm)"
  by pat_completeness auto
termination
  by (relation "measure (\<lambda>(element, Totl, Count, Sm). Totl - Count)") auto

declare sum_loop.simps [simp del]

definition CalculateSum8 :: "mem \<Rightarrow> nat \<Rightarrow> nat \<Rightarrow> u8 option" where
  "CalculateSum8 m Buffer Length = do {
     ASSERT (Buffer \<noteq> 0);
     ASSERT (Length \<le> MAX_ADDRESS - Buffer + 1);
     Some (sum_loop (\<lambda>i. m (Buffer + i)) Length 0 0)
   }"

definition CalculateCheckSum8 :: "mem \<Rightarrow> nat \<Rightarrow> nat \<Rightarrow> u8 option" where
  "CalculateCheckSum8 m Buffer Length = do {
     CheckSum \<leftarrow> CalculateSum8 m Buffer Length;
     Some (ucast (0x100 - (ucast CheckSum :: u32)))
   }"

definition CalculateSum16 :: "mem \<Rightarrow> nat \<Rightarrow> nat \<Rightarrow> u16 option" where
  "CalculateSum16 m Buffer Length = do {
     ASSERT (Buffer \<noteq> 0);
     ASSERT (Buffer mod 2 = 0);
     ASSERT (Length mod 2 = 0);
     ASSERT (Length \<le> MAX_ADDRESS - Buffer + 1);
     let Totl = Length div 2;
     Some (sum_loop (\<lambda>i. load16 m (Buffer + 2 * i)) Totl 0 0)
   }"

definition CalculateCheckSum16 :: "mem \<Rightarrow> nat \<Rightarrow> nat \<Rightarrow> u16 option" where
  "CalculateCheckSum16 m Buffer Length = do {
     CheckSum \<leftarrow> CalculateSum16 m Buffer Length;
     Some (ucast (0x10000 - (ucast CheckSum :: u32)))
   }"

definition CalculateSum32 :: "mem \<Rightarrow> nat \<Rightarrow> nat \<Rightarrow> u32 option" where
  "CalculateSum32 m Buffer Length = do {
     ASSERT (Buffer \<noteq> 0);
     ASSERT (Buffer mod 4 = 0);
     ASSERT (Length mod 4 = 0);
     ASSERT (Length \<le> MAX_ADDRESS - Buffer + 1);
     let Totl = Length div 4;
     Some (sum_loop (\<lambda>i. load32 m (Buffer + 4 * i)) Totl 0 0)
   }"

definition CalculateCheckSum32 :: "mem \<Rightarrow> nat \<Rightarrow> nat \<Rightarrow> u32 option" where
  "CalculateCheckSum32 m Buffer Length = do {
     CheckSum \<leftarrow> CalculateSum32 m Buffer Length;
     Some (- 1 - CheckSum + 1)
   }"

definition CalculateSum64 :: "mem \<Rightarrow> nat \<Rightarrow> nat \<Rightarrow> u64 option" where
  "CalculateSum64 m Buffer Length = do {
     ASSERT (Buffer \<noteq> 0);
     ASSERT (Buffer mod 8 = 0);
     ASSERT (Length mod 8 = 0);
     ASSERT (Length \<le> MAX_ADDRESS - Buffer + 1);
     let Totl = Length div 8;
     Some (sum_loop (\<lambda>i. load64 m (Buffer + 8 * i)) Totl 0 0)
   }"

definition CalculateCheckSum64 :: "mem \<Rightarrow> nat \<Rightarrow> nat \<Rightarrow> u64 option" where
  "CalculateCheckSum64 m Buffer Length = do {
     CheckSum \<leftarrow> CalculateSum64 m Buffer Length;
     Some (- 1 - CheckSum + 1)
   }"

subsection \<open>Sums\<close>

lemma sum_loop_eq: "sum_loop f n c s = s + (\<Sum>i = c..<n. f i)"
proof (induction f n c s rule: sum_loop.induct)
  case (1 f n c s)
  then show ?case
    by (cases "c < n") (simp_all add: sum_loop.simps[of f n c s] sum.atLeast_Suc_lessThan add.assoc)
qed

lemma word_of_int_mod:
  "LENGTH('a::len) \<le> LENGTH('b::len) \<Longrightarrow> (word_of_int (z mod 2 ^ LENGTH('b)) :: 'a word) = word_of_int z"
  by transfer (simp add: take_bit_eq_mod mod_mod_cancel le_imp_power_dvd)

lemma ucast_diff_down:
  assumes "LENGTH('a::len) \<le> LENGTH('b::len)"
  shows "(ucast (a - b :: 'b word) :: 'a word) = ucast a - ucast b"
proof -
  have "(ucast (a - b) :: 'a word) = word_of_int ((uint a - uint b) mod 2 ^ LENGTH('b))"
    by (simp only: ucast_eq uint_word_ariths)
  also have "\<dots> = word_of_int (uint a - uint b)" by (rule word_of_int_mod[OF assms])
  also have "\<dots> = ucast a - ucast b" by (simp only: ucast_eq wi_hom_sub)
  finally show ?thesis .
qed

lemma ucast_back: "LENGTH('a::len) \<le> LENGTH('b::len) \<Longrightarrow> (ucast (ucast (c :: 'a word) :: 'b word) :: 'a word) = c"
  by transfer (simp add: min_def)

lemma check_eq [simp]:
  "ucast (0x100 - (ucast (c :: u8) :: u32)) = - c"
  "ucast (0x10000 - (ucast (d :: u16) :: u32)) = - d"
proof -
  have "(0x100 :: u8) = 0" "(0x10000 :: u16) = 0" by simp_all
  then show "ucast (0x100 - (ucast (c :: u8) :: u32)) = - c"
    and "ucast (0x10000 - (ucast (d :: u16) :: u32)) = - d"
    by (simp_all add: ucast_diff_down ucast_back)
qed

text \<open>
  What the checksum is for: a zero element of the buffer, replaced by the checksum of the
  buffer, makes the sum of the buffer zero.
\<close>

lemma sum_upd:
  fixes f g :: "nat \<Rightarrow> 'a::len word"
  assumes "k < n" "f k = 0" "\<And>i. i \<noteq> k \<Longrightarrow> g i = f i"
  shows "(\<Sum>i = 0..<n. g i) = g k + (\<Sum>i = 0..<n. f i)"
proof -
  have "(\<Sum>i = 0..<n. h i) = h k + (\<Sum>i \<in> {0..<n} - {k}. h i)" for h :: "nat \<Rightarrow> 'a word"
    by (rule sum.remove) (use assms(1) in auto)
  from this[of f] this[of g] assms(2,3) show ?thesis by simp
qed

lemma checksum_patch8:
  assumes "CalculateCheckSum8 m b n = Some c" "k < n" "m (b + k) = 0"
  shows "CalculateSum8 (m(b + k := c)) b n = Some 0"
proof -
  from assms(1) have r: "b \<noteq> 0" "n \<le> MAX_ADDRESS - b + 1"
    and c: "c = - (\<Sum>i = 0..<n. m (b + i))"
    by (auto simp: CalculateCheckSum8_def CalculateSum8_def assert_simps sum_loop_eq split: if_splits)
  have "(\<Sum>i = 0..<n. (m(b + k := c)) (b + i)) = c + (\<Sum>i = 0..<n. m (b + i))"
    using sum_upd[of k n "\<lambda>i. m (b + i)" "\<lambda>i. (m(b + k := c)) (b + i)"] assms(2,3) by simp
  with r c show ?thesis by (simp add: CalculateSum8_def sum_loop_eq)
qed

subsection \<open>Properties\<close>

text \<open>The byte checksum does what tables need it for: when a byte of the buffer that is zero
  is replaced by the checksum of the buffer, the sum of the buffer is zero.\<close>

theorem checksum8_patches:
  assumes "CalculateCheckSum8 m b n = Some c" "k < n" "m (b + k) = 0"
  shows "CalculateSum8 (m(b + k := c)) b n = Some 0"
  using assms by (rule checksum_patch8)

definition sample_mem :: mem where
  "sample_mem a = (if a = 101 then 0 else word_of_nat a)"

theorem checksum8_patches_witness:
  "\<exists>c. CalculateCheckSum8 sample_mem 100 4 = Some c \<and> CalculateSum8 (sample_mem(101 := c)) 100 4 = Some 0"
proof -
  have "CalculateCheckSum8 sample_mem 100 4 \<noteq> None"
    by (simp add: CalculateCheckSum8_def CalculateSum8_def MAX_ADDRESS_def)
  then obtain c where "CalculateCheckSum8 sample_mem 100 4 = Some c" by blast
  with checksum8_patches[OF this, of 1] show ?thesis by (simp add: sample_mem_def)
qed

lemma checksum_negates_sum_facts:
  "CalculateCheckSum8 m b n = map_option uminus (CalculateSum8 m b n)"
  "CalculateCheckSum16 m b n = map_option uminus (CalculateSum16 m b n)"
  "CalculateCheckSum32 m b n = map_option uminus (CalculateSum32 m b n)"
  "CalculateCheckSum64 m b n = map_option uminus (CalculateSum64 m b n)"
  "CalculateSum8 m b n \<noteq> None \<longleftrightarrow> b \<noteq> 0 \<and> n \<le> MAX_ADDRESS - b + 1"
  "CalculateSum16 m b n \<noteq> None \<longleftrightarrow> b \<noteq> 0 \<and> b mod 2 = 0 \<and> n mod 2 = 0 \<and> n \<le> MAX_ADDRESS - b + 1"
  "CalculateSum32 m b n \<noteq> None \<longleftrightarrow> b \<noteq> 0 \<and> b mod 4 = 0 \<and> n mod 4 = 0 \<and> n \<le> MAX_ADDRESS - b + 1"
  "CalculateSum64 m b n \<noteq> None \<longleftrightarrow> b \<noteq> 0 \<and> b mod 8 = 0 \<and> n mod 8 = 0 \<and> n \<le> MAX_ADDRESS - b + 1"
proof -
  show "CalculateCheckSum8 m b n = map_option uminus (CalculateSum8 m b n)"
    by (cases "CalculateSum8 m b n") (simp_all add: CalculateCheckSum8_def)
  show "CalculateCheckSum16 m b n = map_option uminus (CalculateSum16 m b n)"
    by (cases "CalculateSum16 m b n") (simp_all add: CalculateCheckSum16_def)
  show "CalculateCheckSum32 m b n = map_option uminus (CalculateSum32 m b n)"
    by (cases "CalculateSum32 m b n") (simp_all add: CalculateCheckSum32_def)
  show "CalculateCheckSum64 m b n = map_option uminus (CalculateSum64 m b n)"
    by (cases "CalculateSum64 m b n") (simp_all add: CalculateCheckSum64_def)
qed (simp_all add: CalculateSum8_def CalculateSum16_def CalculateSum32_def CalculateSum64_def ASSERT_bind_if)

text \<open>At every width the checksum is the two's complement of the sum, and sum and checksum
  assert exactly on a NULL or misaligned buffer, on a length that is no multiple of the unit
  and on a buffer that runs over the end of the address space.\<close>

theorem checksum_negates_sum:
  "CalculateCheckSum8 m b n = map_option uminus (CalculateSum8 m b n) \<and>
   CalculateCheckSum16 m b n = map_option uminus (CalculateSum16 m b n) \<and>
   CalculateCheckSum32 m b n = map_option uminus (CalculateSum32 m b n) \<and>
   CalculateCheckSum64 m b n = map_option uminus (CalculateSum64 m b n) \<and>
   (CalculateSum8 m b n \<noteq> None \<longleftrightarrow> b \<noteq> 0 \<and> n \<le> MAX_ADDRESS - b + 1) \<and>
   (CalculateSum16 m b n \<noteq> None \<longleftrightarrow> b \<noteq> 0 \<and> b mod 2 = 0 \<and> n mod 2 = 0 \<and> n \<le> MAX_ADDRESS - b + 1) \<and>
   (CalculateSum32 m b n \<noteq> None \<longleftrightarrow> b \<noteq> 0 \<and> b mod 4 = 0 \<and> n mod 4 = 0 \<and> n \<le> MAX_ADDRESS - b + 1) \<and>
   (CalculateSum64 m b n \<noteq> None \<longleftrightarrow> b \<noteq> 0 \<and> b mod 8 = 0 \<and> n mod 8 = 0 \<and> n \<le> MAX_ADDRESS - b + 1)"
  by (intro conjI checksum_negates_sum_facts)

end
