(* ===== verification/Depex.thy ===== *)
theory Depex
  imports Efi_Prelude
begin

text \<open>
  The dependency expression evaluators: MdeModulePkg/Core/Dxe/Dispatcher/Dependency.c (the
  Boolean stack GrowDepexStack, PushBool, PopBool; CorePreProcessDepex and
  CoreIsSchedulable) and MdeModulePkg/Core/PiSmmCore/Dependency.c (SmmIsSchedulable, on the same
  stack functions).  The PEI evaluator is in Pei_Depex.

  A dependency expression is the list of the bytes of its buffer and an Iterator is an offset
  into it.  The result None is a fired ASSERT or a read past the end of the buffer.  Whether
  a protocol is found is a parameter, a predicate on the 16 bytes of its GUID, and
  so is AllocatePool, which returns NULL or the contents of the new block.  DEBUG output is
  left out.
\<close>

subsection \<open>Opcodes (MdePkg/Include/Pi/PiDependency.h)\<close>

abbreviation EFI_DEP_BEFORE :: u8 where "EFI_DEP_BEFORE \<equiv> 0"
abbreviation EFI_DEP_AFTER :: u8 where "EFI_DEP_AFTER \<equiv> 1"
abbreviation EFI_DEP_PUSH :: u8 where "EFI_DEP_PUSH \<equiv> 2"
abbreviation EFI_DEP_AND :: u8 where "EFI_DEP_AND \<equiv> 3"
abbreviation EFI_DEP_OR :: u8 where "EFI_DEP_OR \<equiv> 4"
abbreviation EFI_DEP_NOT :: u8 where "EFI_DEP_NOT \<equiv> 5"
abbreviation EFI_DEP_TRUE :: u8 where "EFI_DEP_TRUE \<equiv> 6"
abbreviation EFI_DEP_FALSE :: u8 where "EFI_DEP_FALSE \<equiv> 7"
abbreviation EFI_DEP_END :: u8 where "EFI_DEP_END \<equiv> 8"
abbreviation EFI_DEP_SOR :: u8 where "EFI_DEP_SOR \<equiv> 9"
abbreviation EFI_DEP_REPLACE_TRUE :: u8 where "EFI_DEP_REPLACE_TRUE \<equiv> 0xff"

abbreviation DEPEX_STACK_SIZE_INCREMENT :: nat where
  "DEPEX_STACK_SIZE_INCREMENT \<equiv> 0x1000"

text \<open>CopyMem (&Guid, p, sizeof (EFI_GUID)) from offset i of a buffer.\<close>

definition read_guid :: "u8 list \<Rightarrow> nat \<Rightarrow> guid option" where
  "read_guid bs i = (if i + 16 \<le> length bs then Some (take 16 (drop i bs)) else None)"

text \<open>*Iterator: one byte of the buffer.\<close>

definition read_byte :: "u8 list \<Rightarrow> nat \<Rightarrow> u8 option" where
  "read_byte bs i = (if i < length bs then Some (bs ! i) else None)"

subsection \<open>The Boolean stack\<close>

text \<open>
  smem is the memory between mDepexEvaluationStack and mDepexEvaluationStackEnd, sptr is
  mDepexEvaluationStackPointer - mDepexEvaluationStack; the three NULL pointers are the
  empty memory.
\<close>

record depex_stack =
  smem :: "bool list"
  sptr :: nat

type_synonym allocator = "nat \<Rightarrow> (nat \<Rightarrow> bool) option"

definition GrowDepexStack :: "allocator \<Rightarrow> depex_stack \<Rightarrow> efi_status \<times> depex_stack" where
  "GrowDepexStack AllocatePool s =
     (let Size = DEPEX_STACK_SIZE_INCREMENT + length (smem s)
      in case AllocatePool Size of
           None \<Rightarrow> (EFI_OUT_OF_RESOURCES, s)
         | Some raw \<Rightarrow>
             (EFI_SUCCESS, s\<lparr>smem := smem s @ map raw [length (smem s)..<Size]\<rparr>))"

definition PushBool :: "allocator \<Rightarrow> bool \<Rightarrow> depex_stack \<Rightarrow> efi_status \<times> depex_stack" where
  "PushBool AllocatePool Value s =
     (let (Status, s) =
        (if sptr s = length (smem s) then GrowDepexStack AllocatePool s else (EFI_SUCCESS, s))
      in if EFI_ERROR Status then (Status, s)
         else (EFI_SUCCESS, s\<lparr>smem := (smem s)[sptr s := Value], sptr := sptr s + 1\<rparr>))"

text \<open>PopBool returns the status, the popped value where there is one, and the stack.\<close>

definition PopBool :: "depex_stack \<Rightarrow> efi_status \<times> bool \<times> depex_stack" where
  "PopBool s =
     (if sptr s = 0 then (EFI_ACCESS_DENIED, False, s)
      else (EFI_SUCCESS, smem s ! (sptr s - 1), s\<lparr>sptr := sptr s - 1\<rparr>))"

subsection \<open>The driver entry\<close>

record driver_entry =
  Depex :: "u8 list option"
  DepexSize :: nat
  Before :: bool
  After :: bool
  Unrequested :: bool
  Dependent :: bool
  BeforeAfterGuid :: guid

definition CorePreProcessDepex :: "driver_entry \<Rightarrow> driver_entry option" where
  "CorePreProcessDepex d = do {
     bs \<leftarrow> Depex d;
     op \<leftarrow> read_byte bs 0;
     let d = (if op = EFI_DEP_SOR then d\<lparr>Unrequested := True\<rparr> else d\<lparr>Dependent := True\<rparr>);
     let d = (if op = EFI_DEP_BEFORE then d\<lparr>Before := True\<rparr>
              else if op = EFI_DEP_AFTER then d\<lparr>After := True\<rparr> else d);
     if Before d \<or> After d
     then do { g \<leftarrow> read_guid bs 1; Some (d\<lparr>BeforeAfterGuid := g\<rparr>) }
     else Some d
   }"

subsection \<open>One pass of the evaluation loop\<close>

text \<open>
  ebytes is the buffer DriverEntry->Depex (the evaluator patches it), eiter is
  Iterator - DriverEntry->Depex.
\<close>

record eval_state =
  ebytes :: "u8 list"
  eiter :: nat
  estack :: depex_stack

datatype outcome = Continue eval_state | Return bool eval_state

text \<open>
  The end of the cases that push: on an error the evaluation is FALSE, otherwise Iterator
  goes over the operand (skip bytes) and over the opcode.
\<close>

definition push_and_go :: "allocator \<Rightarrow> bool \<Rightarrow> nat \<Rightarrow> eval_state \<Rightarrow> outcome" where
  "push_and_go AllocatePool v skip e =
     (let (Status, s) = PushBool AllocatePool v (estack e); e = e\<lparr>estack := s\<rparr>
      in if EFI_ERROR Status then Return False e
         else Continue (e\<lparr>eiter := eiter e + skip + 1\<rparr>))"

text \<open>AND and OR: two pops, then the push of f Operator Operator2.\<close>

definition pop2_and_push ::
  "allocator \<Rightarrow> (bool \<Rightarrow> bool \<Rightarrow> bool) \<Rightarrow> eval_state \<Rightarrow> outcome" where
  "pop2_and_push AllocatePool f e =
     (let (Status, Operator, s) = PopBool (estack e); e = e\<lparr>estack := s\<rparr>
      in if EFI_ERROR Status then Return False e
         else let (Status, Operator2, s) = PopBool (estack e); e = e\<lparr>estack := s\<rparr>
              in if EFI_ERROR Status then Return False e
                 else push_and_go AllocatePool (f Operator Operator2) 0 e)"

definition pop_and_push :: "allocator \<Rightarrow> (bool \<Rightarrow> bool) \<Rightarrow> eval_state \<Rightarrow> outcome" where
  "pop_and_push AllocatePool f e =
     (let (Status, Operator, s) = PopBool (estack e); e = e\<lparr>estack := s\<rparr>
      in if EFI_ERROR Status then Return False e
         else push_and_go AllocatePool (f Operator) 0 e)"

definition pop_and_return :: "eval_state \<Rightarrow> outcome" where
  "pop_and_return e =
     (let (Status, Operator, s) = PopBool (estack e); e = e\<lparr>estack := s\<rparr>
      in if EFI_ERROR Status then Return False e else Return Operator e)"

text \<open>PUSH: a GUID that is located is pushed as TRUE and its opcode is patched.\<close>

definition push_guid :: "allocator \<Rightarrow> (guid \<Rightarrow> bool) \<Rightarrow> eval_state \<Rightarrow> outcome option" where
  "push_guid AllocatePool located e = do {
     DriverGuid \<leftarrow> read_guid (ebytes e) (eiter e + 1);
     Some (if located DriverGuid
           then push_and_go AllocatePool True 16
                  (e\<lparr>ebytes := (ebytes e)[eiter e := EFI_DEP_REPLACE_TRUE]\<rparr>)
           else push_and_go AllocatePool False 16 e)
   }"

text \<open>REPLACE_TRUE copies the GUID too (for the DEBUG message) before it pushes TRUE.\<close>

definition push_replaced :: "allocator \<Rightarrow> eval_state \<Rightarrow> outcome option" where
  "push_replaced AllocatePool e = do {
     DriverGuid \<leftarrow> read_guid (ebytes e) (eiter e + 1);
     Some (push_and_go AllocatePool True 16 e)
   }"

text \<open>The body of the while loop of CoreIsSchedulable.\<close>

definition CoreDepexStep ::
  "allocator \<Rightarrow> (guid \<Rightarrow> bool) \<Rightarrow> nat \<Rightarrow> eval_state \<Rightarrow> outcome option" where
  "CoreDepexStep AllocatePool CoreLocateProtocol dsize e =
     (if eiter e \<ge> dsize then Some (Return False e)
      else do {
        op \<leftarrow> read_byte (ebytes e) (eiter e);
        if op = EFI_DEP_BEFORE \<or> op = EFI_DEP_AFTER then None
        else if op = EFI_DEP_SOR then
          Some (if eiter e \<noteq> 0 then Return False e else Continue (e\<lparr>eiter := eiter e + 1\<rparr>))
        else if op = EFI_DEP_PUSH then push_guid AllocatePool CoreLocateProtocol e
        else if op = EFI_DEP_AND then Some (pop2_and_push AllocatePool (\<and>) e)
        else if op = EFI_DEP_OR then Some (pop2_and_push AllocatePool (\<or>) e)
        else if op = EFI_DEP_NOT then Some (pop_and_push AllocatePool Not e)
        else if op = EFI_DEP_TRUE then Some (push_and_go AllocatePool True 0 e)
        else if op = EFI_DEP_FALSE then Some (push_and_go AllocatePool False 0 e)
        else if op = EFI_DEP_END then Some (pop_and_return e)
        else if op = EFI_DEP_REPLACE_TRUE then push_replaced AllocatePool e
        else Some (Return False e)
      })"

text \<open>
  The body of the while loop of SmmIsSchedulable: there is no SOR, and a protocol that the
  SMM database does not have is looked up in the UEFI one.
\<close>

definition SmmDepexStep ::
  "allocator \<Rightarrow> (guid \<Rightarrow> bool) \<Rightarrow> (guid \<Rightarrow> bool) \<Rightarrow> nat \<Rightarrow> eval_state \<Rightarrow> outcome option" where
  "SmmDepexStep AllocatePool SmmLocateProtocol LocateProtocol dsize e =
     (if eiter e \<ge> dsize then Some (Return False e)
      else do {
        op \<leftarrow> read_byte (ebytes e) (eiter e);
        if op = EFI_DEP_BEFORE \<or> op = EFI_DEP_AFTER then None
        else if op = EFI_DEP_PUSH then
          push_guid AllocatePool (\<lambda>g. if \<not> SmmLocateProtocol g then LocateProtocol g else True) e
        else if op = EFI_DEP_AND then Some (pop2_and_push AllocatePool (\<and>) e)
        else if op = EFI_DEP_OR then Some (pop2_and_push AllocatePool (\<or>) e)
        else if op = EFI_DEP_NOT then Some (pop_and_push AllocatePool Not e)
        else if op = EFI_DEP_TRUE then Some (push_and_go AllocatePool True 0 e)
        else if op = EFI_DEP_FALSE then Some (push_and_go AllocatePool False 0 e)
        else if op = EFI_DEP_END then Some (pop_and_return e)
        else if op = EFI_DEP_REPLACE_TRUE then push_replaced AllocatePool e
        else Some (Return False e)
      })"

subsection \<open>The loops\<close>

lemma push_and_go_advances:
  "push_and_go a v k e = Continue e' \<Longrightarrow> eiter e < eiter e'"
  by (auto simp: push_and_go_def Let_def split: prod.splits if_splits)

lemma pop_push_advances:
  "pop2_and_push a f e = Continue e' \<Longrightarrow> eiter e < eiter e'"
  "pop_and_push a g e = Continue e' \<Longrightarrow> eiter e < eiter e'"
  by (auto simp: pop2_and_push_def pop_and_push_def Let_def split: prod.splits if_splits
      dest!: push_and_go_advances)

lemma push_guid_advances:
  "push_guid a loc e = Some (Continue e') \<Longrightarrow> eiter e < eiter e'"
  "push_replaced a e = Some (Continue e') \<Longrightarrow> eiter e < eiter e'"
  by (auto simp: push_guid_def push_replaced_def bind_eq_Some_conv
      split: if_splits dest!: push_and_go_advances)

lemma pop_and_return_stops: "pop_and_return e \<noteq> Continue e'"
  by (auto simp: pop_and_return_def Let_def split: prod.splits)

lemmas advances =
  push_and_go_advances pop_push_advances push_guid_advances

lemma CoreDepexStep_advances:
  "CoreDepexStep a loc dsize e = Some (Continue e') \<Longrightarrow> eiter e < dsize \<and> eiter e < eiter e'"
  by (auto simp: CoreDepexStep_def bind_eq_Some_conv pop_and_return_stops
      split: if_splits dest!: advances)

lemma SmmDepexStep_advances:
  "SmmDepexStep a loc bs dsize e = Some (Continue e') \<Longrightarrow> eiter e < dsize \<and> eiter e < eiter e'"
  by (auto simp: SmmDepexStep_def bind_eq_Some_conv pop_and_return_stops
      split: if_splits dest!: advances)

function CoreDepexLoop ::
  "allocator \<Rightarrow> (guid \<Rightarrow> bool) \<Rightarrow> nat \<Rightarrow> eval_state \<Rightarrow> (bool \<times> eval_state) option" where
  "CoreDepexLoop AllocatePool loc dsize e =
     (case CoreDepexStep AllocatePool loc dsize e of
        None \<Rightarrow> None
      | Some (Return b e') \<Rightarrow> Some (b, e')
      | Some (Continue e') \<Rightarrow> CoreDepexLoop AllocatePool loc dsize e')"
  by pat_completeness auto
termination
  by (relation "measure (\<lambda>(_, _, dsize, e). dsize - eiter e)")
    (auto dest!: CoreDepexStep_advances)

function SmmDepexLoop ::
  "allocator \<Rightarrow> (guid \<Rightarrow> bool) \<Rightarrow> (guid \<Rightarrow> bool) \<Rightarrow> nat \<Rightarrow> eval_state \<Rightarrow>
     (bool \<times> eval_state) option" where
  "SmmDepexLoop AllocatePool loc bs dsize e =
     (case SmmDepexStep AllocatePool loc bs dsize e of
        None \<Rightarrow> None
      | Some (Return b e') \<Rightarrow> Some (b, e')
      | Some (Continue e') \<Rightarrow> SmmDepexLoop AllocatePool loc bs dsize e')"
  by pat_completeness auto
termination
  by (relation "measure (\<lambda>(_, _, _, dsize, e). dsize - eiter e)")
    (auto dest!: SmmDepexStep_advances)

declare CoreDepexLoop.simps [simp del] SmmDepexLoop.simps [simp del]

text \<open>
  The whole functions: the result, the driver entry with its patched expression and the
  evaluation stack.  CoreAllEfiServicesAvailable (Dxe/DxeMain/DxeProtocolNotify.c) walks a
  table of the platform and is a parameter.
\<close>

definition CoreIsSchedulable ::
  "allocator \<Rightarrow> (guid \<Rightarrow> bool) \<Rightarrow> efi_status \<Rightarrow> driver_entry \<Rightarrow> depex_stack \<Rightarrow>
     (bool \<times> driver_entry \<times> depex_stack) option" where
  "CoreIsSchedulable AllocatePool CoreLocateProtocol services d s =
     (if After d \<or> Before d then Some (False, d, s)
      else case Depex d of
        None \<Rightarrow> Some (\<not> EFI_ERROR services, d, s)
      | Some bs \<Rightarrow> do {
          (b, e) \<leftarrow> CoreDepexLoop AllocatePool CoreLocateProtocol (DepexSize d)
                     \<lparr>ebytes = bs, eiter = 0, estack = s\<lparr>sptr := 0\<rparr>\<rparr>;
          Some (b, d\<lparr>Depex := Some (ebytes e)\<rparr>, estack e)
        })"

definition SmmIsSchedulable ::
  "allocator \<Rightarrow> (guid \<Rightarrow> bool) \<Rightarrow> (guid \<Rightarrow> bool) \<Rightarrow> driver_entry \<Rightarrow> depex_stack \<Rightarrow>
     (bool \<times> driver_entry \<times> depex_stack) option" where
  "SmmIsSchedulable AllocatePool SmmLocateProtocol LocateProtocol d s =
     (if After d \<or> Before d then Some (False, d, s)
      else case Depex d of
        None \<Rightarrow> None
      | Some bs \<Rightarrow> do {
          (b, e) \<leftarrow> SmmDepexLoop AllocatePool SmmLocateProtocol LocateProtocol (DepexSize d)
                     \<lparr>ebytes = bs, eiter = 0, estack = s\<lparr>sptr := 0\<rparr>\<rparr>;
          Some (b, d\<lparr>Depex := Some (ebytes e)\<rparr>, estack e)
        })"

subsection \<open>Dependency expressions and their meaning\<close>

text \<open>
  A leaf Push r g is PUSH g, or REPLACE_TRUE g when r holds (an earlier evaluation has found
  the protocol).
\<close>

datatype depex_expr =
    Push bool guid
  | And depex_expr depex_expr
  | Or depex_expr depex_expr
  | Not_op depex_expr
  | True_op
  | False_op

primrec encode :: "depex_expr \<Rightarrow> u8 list" where
  "encode (Push r g) = (if r then EFI_DEP_REPLACE_TRUE else EFI_DEP_PUSH) # g"
| "encode (And a b) = encode a @ encode b @ [EFI_DEP_AND]"
| "encode (Or a b) = encode a @ encode b @ [EFI_DEP_OR]"
| "encode (Not_op a) = encode a @ [EFI_DEP_NOT]"
| "encode True_op = [EFI_DEP_TRUE]"
| "encode False_op = [EFI_DEP_FALSE]"

primrec meaning :: "(guid \<Rightarrow> bool) \<Rightarrow> depex_expr \<Rightarrow> bool" where
  "meaning found (Push r g) = (r \<or> found g)"
| "meaning found (And a b) = (meaning found a \<and> meaning found b)"
| "meaning found (Or a b) = (meaning found a \<or> meaning found b)"
| "meaning found (Not_op a) = (\<not> meaning found a)"
| "meaning found True_op = True"
| "meaning found False_op = False"

text \<open>GUIDs of 16 bytes; leaves no evaluation has patched; the expression after one.\<close>

primrec wf_expr :: "depex_expr \<Rightarrow> bool" where
  "wf_expr (Push r g) = (length g = 16)"
| "wf_expr (And a b) = (wf_expr a \<and> wf_expr b)"
| "wf_expr (Or a b) = (wf_expr a \<and> wf_expr b)"
| "wf_expr (Not_op a) = wf_expr a"
| "wf_expr True_op = True"
| "wf_expr False_op = True"

primrec unpatched :: "depex_expr \<Rightarrow> bool" where
  "unpatched (Push r g) = (\<not> r)"
| "unpatched (And a b) = (unpatched a \<and> unpatched b)"
| "unpatched (Or a b) = (unpatched a \<and> unpatched b)"
| "unpatched (Not_op a) = unpatched a"
| "unpatched True_op = True"
| "unpatched False_op = True"

primrec patch :: "(guid \<Rightarrow> bool) \<Rightarrow> depex_expr \<Rightarrow> depex_expr" where
  "patch found (Push r g) = Push (r \<or> found g) g"
| "patch found (And a b) = And (patch found a) (patch found b)"
| "patch found (Or a b) = Or (patch found a) (patch found b)"
| "patch found (Not_op a) = Not_op (patch found a)"
| "patch found True_op = True_op"
| "patch found False_op = False_op"

text \<open>The stack cells the evaluation of an expression needs.\<close>

primrec depth :: "depex_expr \<Rightarrow> nat" where
  "depth (Push r g) = 1"
| "depth (And a b) = max (depth a) (1 + depth b)"
| "depth (Or a b) = max (depth a) (1 + depth b)"
| "depth (Not_op a) = depth a"
| "depth True_op = 1"
| "depth False_op = 1"

lemma length_encode_patch [simp]: "length (encode (patch f e)) = length (encode e)"
  by (induction e) auto

lemma wf_expr_patch [simp]: "wf_expr (patch f e) = wf_expr e"
  by (induction e) auto

lemma patch_none [simp]: "patch (\<lambda>_. False) e = e"
  by (induction e) auto

lemma meaning_patch:
  assumes "\<And>g. found g \<Longrightarrow> found' g"
  shows "meaning found' (patch found e) = meaning found' e"
  using assms by (induction e) auto

subsection \<open>The contract of a postfix evaluator\<close>

text \<open>
  What one opcode does to the stack of truth values, and the opcode it leaves behind in the
  buffer (patching evaluators replace a PUSH whose GUID is found).
\<close>

definition op_effect ::
  "(guid \<Rightarrow> bool) \<Rightarrow> bool \<Rightarrow> u8 \<Rightarrow> u8 list \<Rightarrow> bool list \<Rightarrow> (bool list \<times> u8) option" where
  "op_effect found patching op arg st =
     (if op = EFI_DEP_PUSH then
        (if length arg = 16
         then Some (st @ [found arg], if patching \<and> found arg then EFI_DEP_REPLACE_TRUE else op)
         else None)
      else if op = EFI_DEP_REPLACE_TRUE then
        (if patching \<and> length arg = 16 then Some (st @ [True], op) else None)
      else if arg \<noteq> [] then None
      else if op = EFI_DEP_TRUE then Some (st @ [True], op)
      else if op = EFI_DEP_FALSE then Some (st @ [False], op)
      else if op = EFI_DEP_NOT then
        (if st = [] then None else Some (butlast st @ [\<not> last st], op))
      else if op = EFI_DEP_AND then
        (if length st < 2 then None
         else Some (butlast (butlast st) @ [last (butlast st) \<and> last st], op))
      else if op = EFI_DEP_OR then
        (if length st < 2 then None
         else Some (butlast (butlast st) @ [last (butlast st) \<or> last st], op))
      else None)"

text \<open>
  An evaluator is a loop run on states with a view (buffer, iterator, stack of truth values)
  that executes each opcode as op_effect says, or gives up (failed) on a push.  may_fail and
  must_fail say at which stack heights a push can, and has to, give up.
\<close>

locale postfix_evaluator =
  fixes run :: "'s \<Rightarrow> 'r"
    and bytes :: "'s \<Rightarrow> u8 list"
    and iter :: "'s \<Rightarrow> nat"
    and stack :: "'s \<Rightarrow> bool list"
    and ok :: "'s \<Rightarrow> bool"
    and found :: "guid \<Rightarrow> bool"
    and patching :: bool
    and limit :: nat
    and failed :: "'r \<Rightarrow> bool"
    and may_fail :: "nat \<Rightarrow> bool"
    and must_fail :: "nat \<Rightarrow> bool"
  assumes exec_op:
    "ok s \<Longrightarrow> bytes s = pre @ op # arg @ post \<Longrightarrow> iter s = length pre \<Longrightarrow>
     length pre + 1 + length arg \<le> limit \<Longrightarrow>
     op_effect found patching op arg (stack s) = Some (st', op') \<Longrightarrow>
     (\<exists>s'. run s = run s' \<and> ok s' \<and> bytes s' = pre @ op' # arg @ post \<and>
        iter s' = length pre + 1 + length arg \<and> stack s' = st' \<and>
        (length (stack s) < length st' \<longrightarrow> \<not> must_fail (length (stack s)))) \<or>
     (failed (run s) \<and> length (stack s) < length st' \<and> may_fail (length (stack s)))"
begin

definition evaluates :: "'s \<Rightarrow> u8 list \<Rightarrow> nat \<Rightarrow> bool list \<Rightarrow> nat \<Rightarrow> bool" where
  "evaluates s bs i st d \<longleftrightarrow>
     (\<exists>s'. run s = run s' \<and> ok s' \<and> bytes s' = bs \<and> iter s' = i \<and> stack s' = st \<and>
        (\<forall>n. length (stack s) \<le> n \<and> n < length (stack s) + d \<longrightarrow> \<not> must_fail n)) \<or>
     (failed (run s) \<and>
        (\<exists>n. length (stack s) \<le> n \<and> n < length (stack s) + d \<and> may_fail n))"

lemma evaluates_push:
  assumes "ok s" "bytes s = pre @ op # arg @ post" "iter s = length pre"
    "length pre + 1 + length arg \<le> limit"
    "op_effect found patching op arg (stack s) = Some (stack s @ [v], op')"
  shows "evaluates s (pre @ op' # arg @ post) (length pre + 1 + length arg) (stack s @ [v]) 1"
  using exec_op[OF assms] unfolding evaluates_def
  by (auto simp: less_Suc_eq_le le_less_Suc_eq antisym_conv)

lemma exec_pure_op:
  assumes "ok s" "bytes s = pre @ op # post" "iter s = length pre" "length pre + 1 \<le> limit"
    "op_effect found patching op [] (stack s) = Some (st', op)" "length st' \<le> length (stack s)"
  obtains s' where "run s = run s'" "ok s'" "bytes s' = pre @ op # post"
    "iter s' = length pre + 1" "stack s' = st'"
  using exec_op[of s pre op "[]" post st' op] assms by auto

lemma evaluates_unary:
  assumes ev: "evaluates s (pre @ x @ op # post) (length pre + length x) st1 d"
    and lim: "length pre + length x + 1 \<le> limit"
    and eff: "op_effect found patching op [] st1 = Some (st2, op)" "length st2 \<le> length st1"
  shows "evaluates s (pre @ (x @ [op]) @ post) (length pre + length (x @ [op])) st2 d"
proof (cases "failed (run s) \<and> (\<exists>n. length (stack s) \<le> n \<and> n < length (stack s) + d \<and> may_fail n)")
  case True
  then show ?thesis by (simp add: evaluates_def)
next
  case False
  with ev obtain s1 where s1: "run s = run s1" "ok s1" "bytes s1 = (pre @ x) @ op # post"
      "iter s1 = length (pre @ x)" "stack s1 = st1"
      "\<forall>n. length (stack s) \<le> n \<and> n < length (stack s) + d \<longrightarrow> \<not> must_fail n"
    unfolding evaluates_def by auto
  have e: "op_effect found patching op [] (stack s1) = Some (st2, op)"
    using eff(1) s1(5) by simp
  obtain s2 where "run s1 = run s2" "ok s2" "bytes s2 = (pre @ x) @ op # post"
      "iter s2 = length (pre @ x) + 1" "stack s2 = st2"
    by (rule exec_pure_op[OF s1(2,3,4) _ e]) (use lim s1(5) eff(2) in auto)
  with s1(1,6) show ?thesis unfolding evaluates_def by auto
qed

lemma evaluates_seq:
  assumes ev1: "evaluates s bs1 i1 (stack s @ [v]) d1" and d1: "0 < d1"
    and ev2: "\<And>s1. ok s1 \<Longrightarrow> bytes s1 = bs1 \<Longrightarrow> iter s1 = i1 \<Longrightarrow> stack s1 = stack s @ [v] \<Longrightarrow>
      evaluates s1 bs2 i2 (stack s @ [v, w]) d2"
  shows "evaluates s bs2 i2 (stack s @ [v, w]) (max d1 (1 + d2))"
proof (cases "failed (run s) \<and> (\<exists>n. length (stack s) \<le> n \<and> n < length (stack s) + d1 \<and> may_fail n)")
  case True
  then show ?thesis
    unfolding evaluates_def by (meson less_le_trans nat_add_left_cancel_le max.cobounded1)
next
  case False
  with ev1 obtain s1 where s1: "run s = run s1" "ok s1" "bytes s1 = bs1" "iter s1 = i1"
      "stack s1 = stack s @ [v]"
      "\<forall>n. length (stack s) \<le> n \<and> n < length (stack s) + d1 \<longrightarrow> \<not> must_fail n"
    unfolding evaluates_def by auto
  have split: "n < length (stack s) + max d1 (1 + d2) \<Longrightarrow> length (stack s) \<le> n \<Longrightarrow>
      n < length (stack s) + d1 \<or> (length (stack s1) \<le> n \<and> n < length (stack s1) + d2)" for n
    using d1 s1(5) by (auto simp: max_def split: if_splits)
  have bound: "length (stack s1) \<le> n \<Longrightarrow> n < length (stack s1) + d2 \<Longrightarrow>
      length (stack s) \<le> n \<and> n < length (stack s) + max d1 (1 + d2)" for n
    using s1(5) by auto
  show ?thesis
    using ev2[OF s1(2-5)] s1(6) split bound unfolding evaluates_def s1(1) by blast
qed

lemma evaluates_binary:
  assumes ev1: "evaluates s (pre @ x @ y @ op # post) (length pre + length x) (stack s @ [v]) d1"
    and d1: "0 < d1"
    and ev2: "\<And>s1. ok s1 \<Longrightarrow> bytes s1 = (pre @ x) @ y @ op # post \<Longrightarrow>
      iter s1 = length (pre @ x) \<Longrightarrow> stack s1 = stack s @ [v] \<Longrightarrow>
      evaluates s1 ((pre @ x) @ z @ op # post) (length (pre @ x) + length z)
        (stack s1 @ [w]) d2"
    and lim: "length pre + length x + length z + 1 \<le> limit"
    and eff: "op_effect found patching op [] (stack s @ [v, w]) = Some (stack s @ [u], op)"
  shows "evaluates s (pre @ (x @ z @ [op]) @ post) (length pre + length (x @ z @ [op]))
    (stack s @ [u]) (max d1 (1 + d2))"
proof -
  have 1: "evaluates s (pre @ (x @ z) @ op # post) (length pre + length (x @ z))
      ((stack s @ [v]) @ [w]) (max d1 (1 + d2))"
    using evaluates_seq[OF ev1 d1, of "(pre @ x) @ z @ op # post" "length (pre @ x) + length z" w d2]
      ev2 by (simp add: add.assoc)
  have "evaluates s (pre @ ((x @ z) @ [op]) @ post) (length pre + length ((x @ z) @ [op]))
      (stack s @ [u]) (max d1 (1 + d2))"
    by (rule evaluates_unary[OF 1]) (use lim eff in auto)
  then show ?thesis by simp
qed

lemma depth_pos [simp]: "0 < depth e"
  by (induction e) auto

abbreviation patched :: "depex_expr \<Rightarrow> depex_expr" where
  "patched \<equiv> patch (\<lambda>g. patching \<and> found g)"

text \<open>Every expression: its value is pushed, and its PUSH opcodes are patched.\<close>

theorem evaluates_expr:
  assumes "wf_expr e" "patching \<or> unpatched e" "ok s" "bytes s = pre @ encode e @ post"
    "iter s = length pre" "length pre + length (encode e) \<le> limit"
  shows "evaluates s (pre @ encode (patched e) @ post)
    (length pre + length (encode e)) (stack s @ [meaning found e]) (depth e)"
  using assms
proof (induction e arbitrary: s pre post)
  case (Push r g)
  have "op_effect found patching (hd (encode (Push r g))) g (stack s) =
      Some (stack s @ [meaning found (Push r g)], hd (encode (patched (Push r g))))"
    using Push.prems(1,2) by (auto simp: op_effect_def)
  then show ?case
    using evaluates_push[OF Push.prems(3), of pre "hd (encode (Push r g))" g post] Push.prems(4-6)
    by simp
next
  case (And a b)
  have lim: "length pre + length (encode a) \<le> limit" using And.prems(6) by simp
  have ea: "evaluates s (pre @ encode (patched a) @ encode b @ EFI_DEP_AND # post)
      (length pre + length (encode (patched a))) (stack s @ [meaning found a]) (depth a)"
    using And.IH(1)[of s pre "encode b @ EFI_DEP_AND # post"] And.prems lim by auto
  have eb: "evaluates s1 ((pre @ encode (patched a)) @ encode (patched b) @ EFI_DEP_AND # post)
      (length (pre @ encode (patched a)) + length (encode (patched b)))
      (stack s1 @ [meaning found b]) (depth b)"
    if "ok s1" "bytes s1 = (pre @ encode (patched a)) @ encode b @ EFI_DEP_AND # post"
      "iter s1 = length (pre @ encode (patched a))" for s1
    using And.IH(2)[OF _ _ that] And.prems by auto
  have eff: "op_effect found patching EFI_DEP_AND [] (stack s @ [meaning found a, meaning found b])
      = Some (stack s @ [meaning found (And a b)], EFI_DEP_AND)"
    by (simp add: op_effect_def butlast_append)
  show ?case
    using evaluates_binary[OF ea depth_pos eb _ eff] And.prems(6) by simp
next
  case (Or a b)
  have lim: "length pre + length (encode a) \<le> limit" using Or.prems(6) by simp
  have ea: "evaluates s (pre @ encode (patched a) @ encode b @ EFI_DEP_OR # post)
      (length pre + length (encode (patched a))) (stack s @ [meaning found a]) (depth a)"
    using Or.IH(1)[of s pre "encode b @ EFI_DEP_OR # post"] Or.prems lim by auto
  have eb: "evaluates s1 ((pre @ encode (patched a)) @ encode (patched b) @ EFI_DEP_OR # post)
      (length (pre @ encode (patched a)) + length (encode (patched b)))
      (stack s1 @ [meaning found b]) (depth b)"
    if "ok s1" "bytes s1 = (pre @ encode (patched a)) @ encode b @ EFI_DEP_OR # post"
      "iter s1 = length (pre @ encode (patched a))" for s1
    using Or.IH(2)[OF _ _ that] Or.prems by auto
  have eff: "op_effect found patching EFI_DEP_OR [] (stack s @ [meaning found a, meaning found b])
      = Some (stack s @ [meaning found (Or a b)], EFI_DEP_OR)"
    by (simp add: op_effect_def butlast_append)
  show ?case
    using evaluates_binary[OF ea depth_pos eb _ eff] Or.prems(6) by simp
next
  case (Not_op a)
  have ea: "evaluates s (pre @ encode (patched a) @ EFI_DEP_NOT # post)
      (length pre + length (encode (patched a))) (stack s @ [meaning found a]) (depth a)"
    using Not_op.IH[of s pre "EFI_DEP_NOT # post"] Not_op.prems by simp
  have eff: "op_effect found patching EFI_DEP_NOT [] (stack s @ [meaning found a])
      = Some (stack s @ [meaning found (Not_op a)], EFI_DEP_NOT)"
    by (simp add: op_effect_def butlast_append)
  show ?case
    using evaluates_unary[OF ea _ eff] Not_op.prems(6) by simp
next
  case True_op
  then show ?case
    using evaluates_push[OF True_op(3), of pre "EFI_DEP_TRUE" "[]" post True]
    by (simp add: op_effect_def)
next
  case False_op
  then show ?case
    using evaluates_push[OF False_op(3), of pre "EFI_DEP_FALSE" "[]" post False]
    by (simp add: op_effect_def)
qed

end

subsection \<open>The stack functions refine a list\<close>

definition stack_list :: "depex_stack \<Rightarrow> bool list" where
  "stack_list s = take (sptr s) (smem s)"

definition stack_ok :: "depex_stack \<Rightarrow> bool" where
  "stack_ok s \<longleftrightarrow> sptr s \<le> length (smem s)"

lemma length_stack_list [simp]: "stack_ok s \<Longrightarrow> length (stack_list s) = sptr s"
  by (simp add: stack_ok_def stack_list_def)

lemma GrowDepexStack_cases:
  assumes "GrowDepexStack a s = (st, s')" "stack_ok s"
  shows "st = EFI_SUCCESS \<and> stack_ok s' \<and> stack_list s' = stack_list s \<and> sptr s' = sptr s \<and>
      sptr s' < length (smem s') \<or>
    st = EFI_OUT_OF_RESOURCES \<and> s' = s \<and> a (DEPEX_STACK_SIZE_INCREMENT + length (smem s)) = None"
  using assms by (auto simp: GrowDepexStack_def Let_def stack_ok_def stack_list_def
      split: option.splits)

lemma PushBool_cases:
  assumes "PushBool a v s = (st, s')" "stack_ok s"
  shows "st = EFI_SUCCESS \<and> stack_ok s' \<and> stack_list s' = stack_list s @ [v] \<or>
    st = EFI_OUT_OF_RESOURCES \<and> s' = s \<and> (\<exists>n. a n = None)"
proof (cases "sptr s = length (smem s)")
  case False
  with assms show ?thesis
    by (auto simp: PushBool_def stack_ok_def stack_list_def take_Suc_conv_app_nth)
next
  case True
  obtain st1 s1 where g: "GrowDepexStack a s = (st1, s1)" by fastforce
  from GrowDepexStack_cases[OF g assms(2)] assms(1) True g show ?thesis
    by (auto simp: PushBool_def stack_ok_def stack_list_def take_Suc_conv_app_nth)
qed

lemma PopBool_cases:
  assumes "stack_ok s"
  shows "PopBool s = (if stack_list s = [] then (EFI_ACCESS_DENIED, False, s)
    else (EFI_SUCCESS, last (stack_list s), s\<lparr>sptr := sptr s - 1\<rparr>))"
    "stack_ok (s\<lparr>sptr := sptr s - 1\<rparr>)"
    "stack_list (s\<lparr>sptr := sptr s - 1\<rparr>) = butlast (stack_list s)"
  using assms
  by (auto simp: PopBool_def stack_ok_def stack_list_def last_conv_nth butlast_take min_def)

subsection \<open>The cases of the loop\<close>

lemma push_and_go_cases:
  assumes "stack_ok (estack e)"
  shows "(\<exists>e'. push_and_go a v k e = Continue e' \<and> stack_ok (estack e') \<and>
      stack_list (estack e') = stack_list (estack e) @ [v] \<and> eiter e' = eiter e + k + 1 \<and>
      ebytes e' = ebytes e) \<or>
    ((\<exists>n. a n = None) \<and> push_and_go a v k e = Return False e)"
proof -
  obtain st s' where p: "PushBool a v (estack e) = (st, s')" by fastforce
  from PushBool_cases[OF p assms] show ?thesis by (auto simp: push_and_go_def p)
qed

lemma push_after_pop:
  assumes "stack_ok (estack e)" "sptr (estack e) < length (smem (estack e))"
  obtains e' where "push_and_go a v 0 e = Continue e'" "stack_ok (estack e')"
    "stack_list (estack e') = stack_list (estack e) @ [v]" "eiter e' = eiter e + 1"
    "ebytes e' = ebytes e"
  using assms by (auto simp: push_and_go_def PushBool_def stack_ok_def stack_list_def
      take_Suc_conv_app_nth)

lemma pop_and_push_list:
  assumes "stack_ok (estack e)" "stack_list (estack e) \<noteq> []"
  obtains e' where "pop_and_push a f e = Continue e'" "stack_ok (estack e')"
    "stack_list (estack e') = butlast (stack_list (estack e)) @ [f (last (stack_list (estack e)))]"
    "eiter e' = eiter e + 1" "ebytes e' = ebytes e"
proof -
  let ?e = "e\<lparr>estack := estack e\<lparr>sptr := sptr (estack e) - 1\<rparr>\<rparr>"
  have room: "sptr (estack e) - 1 < length (smem (estack e))"
    using assms by (auto simp: stack_ok_def stack_list_def)
  show ?thesis
    using push_after_pop[of ?e a "f (last (stack_list (estack e)))"] PopBool_cases[OF assms(1)]
      assms(2) room that
    by (fastforce simp: pop_and_push_def)
qed

lemma pop2_and_push_list:
  assumes "stack_ok (estack e)" "2 \<le> length (stack_list (estack e))"
  obtains e' where "pop2_and_push a f e = Continue e'" "stack_ok (estack e')"
    "stack_list (estack e') = butlast (butlast (stack_list (estack e))) @
       [f (last (stack_list (estack e))) (last (butlast (stack_list (estack e))))]"
    "eiter e' = eiter e + 1" "ebytes e' = ebytes e"
proof -
  let ?e = "e\<lparr>estack := estack e\<lparr>sptr := sptr (estack e) - 1\<rparr>\<rparr>"
  have ne: "stack_list (estack e) \<noteq> []" "stack_list (estack ?e) \<noteq> []"
    using assms by (auto simp: stack_ok_def stack_list_def)
  have ok: "stack_ok (estack ?e)" using PopBool_cases(2)[OF assms(1)] by simp
  obtain e' where "pop_and_push a (f (last (stack_list (estack e)))) ?e = Continue e'"
    "stack_ok (estack e')"
    "stack_list (estack e') = butlast (stack_list (estack ?e)) @
       [f (last (stack_list (estack e))) (last (stack_list (estack ?e)))]"
    "eiter e' = eiter ?e + 1" "ebytes e' = ebytes ?e"
    by (rule pop_and_push_list[OF ok ne(2)])
  moreover have "pop2_and_push a f e = pop_and_push a (f (last (stack_list (estack e)))) ?e"
    using PopBool_cases(1)[OF assms(1)] ne(1)
    by (simp add: pop2_and_push_def pop_and_push_def Let_def)
  ultimately show ?thesis using that PopBool_cases(3)[OF assms(1)] by simp
qed

lemma read_at:
  assumes "bs = pre @ op # arg @ post" "i = length pre"
  shows "read_byte bs i = Some op" "length arg = 16 \<Longrightarrow> read_guid bs (Suc i) = Some arg"
    "bs[i := op'] = pre @ op' # arg @ post"
  using assms by (auto simp: read_byte_def read_guid_def)

lemma CoreDepexLoop_Continue:
  assumes "CoreDepexStep a loc dsize e = Some (Continue e')"
  shows "CoreDepexLoop a loc dsize e = CoreDepexLoop a loc dsize e'"
  using assms by (subst CoreDepexLoop.simps) simp

lemma CoreDepexLoop_Return:
  assumes "CoreDepexStep a loc dsize e = Some (Return b e')"
  shows "CoreDepexLoop a loc dsize e = Some (b, e')"
  using assms by (subst CoreDepexLoop.simps) simp

lemma SmmDepexLoop_Continue:
  assumes "SmmDepexStep a loc bs dsize e = Some (Continue e')"
  shows "SmmDepexLoop a loc bs dsize e = SmmDepexLoop a loc bs dsize e'"
  using assms by (subst SmmDepexLoop.simps) simp

lemma SmmDepexLoop_Return:
  assumes "SmmDepexStep a loc bs dsize e = Some (Return b e')"
  shows "SmmDepexLoop a loc bs dsize e = Some (b, e')"
  using assms by (subst SmmDepexLoop.simps) simp

text \<open>The SMM step is the DXE one over both databases, except on an SOR opcode.\<close>

lemma SmmDepexStep_eq:
  assumes "read_byte (ebytes e) (eiter e) \<noteq> Some EFI_DEP_SOR"
  shows "SmmDepexStep a smm uefi dsize e = CoreDepexStep a (\<lambda>g. smm g \<or> uefi g) dsize e"
proof -
  have "(\<lambda>g. if \<not> smm g then uefi g else True) = (\<lambda>g. smm g \<or> uefi g)" by auto
  then show ?thesis
    using assms unfolding SmmDepexStep_def CoreDepexStep_def
    by (cases "read_byte (ebytes e) (eiter e)") simp_all
qed

text \<open>The step executes op_effect.\<close>

lemma CoreDepexStep_effect:
  assumes ok: "stack_ok (estack e)" and bs: "ebytes e = pre @ op # arg @ post"
    and it: "eiter e = length pre" and lim: "length pre + 1 + length arg \<le> dsize"
    and eff: "op_effect loc True op arg (stack_list (estack e)) = Some (st', op')"
  shows "(\<exists>e'. CoreDepexStep a loc dsize e = Some (Continue e') \<and> stack_ok (estack e') \<and>
      ebytes e' = pre @ op' # arg @ post \<and> eiter e' = length pre + 1 + length arg \<and>
      stack_list (estack e') = st') \<or>
    (\<exists>e'. CoreDepexStep a loc dsize e = Some (Return False e') \<and>
       length (stack_list (estack e)) < length st' \<and> (\<exists>n. a n = None))"
proof -
  note rd = read_at[OF bs it]
  have lt: "\<not> dsize \<le> eiter e" using it lim by simp
  have step: "CoreDepexStep a loc dsize e = (
        if op = EFI_DEP_PUSH then push_guid a loc e
        else if op = EFI_DEP_AND then Some (pop2_and_push a (\<and>) e)
        else if op = EFI_DEP_OR then Some (pop2_and_push a (\<or>) e)
        else if op = EFI_DEP_NOT then Some (pop_and_push a Not e)
        else if op = EFI_DEP_TRUE then Some (push_and_go a True 0 e)
        else if op = EFI_DEP_FALSE then Some (push_and_go a False 0 e)
        else push_replaced a e)"
    using eff lt rd(1) unfolding CoreDepexStep_def op_effect_def
    by (auto split: if_splits)
  consider "op = EFI_DEP_PUSH" | "op = EFI_DEP_REPLACE_TRUE" | "op = EFI_DEP_AND"
    | "op = EFI_DEP_OR" | "op = EFI_DEP_NOT" | "op = EFI_DEP_TRUE" | "op = EFI_DEP_FALSE"
    using eff by (auto simp: op_effect_def split: if_splits)
  then show ?thesis
  proof cases
    case 1
    then have g: "length arg = 16" "st' = stack_list (estack e) @ [loc arg]"
      "op' = (if loc arg then EFI_DEP_REPLACE_TRUE else EFI_DEP_PUSH)"
      using eff by (auto simp: op_effect_def split: if_splits)
    let ?e = "if loc arg then e\<lparr>ebytes := (ebytes e)[eiter e := EFI_DEP_REPLACE_TRUE]\<rparr> else e"
    have "CoreDepexStep a loc dsize e = Some (push_and_go a (loc arg) 16 ?e)"
      using step 1 rd(2)[OF g(1)] by (simp add: push_guid_def)
    then show ?thesis
      using push_and_go_cases[of ?e a "loc arg" 16] 1 ok g bs it rd(3)
      by (auto split: if_splits)
  next
    case 2
    then show ?thesis
      using push_and_go_cases[OF ok, of a True 16] step rd(2) bs it eff
      by (auto simp: op_effect_def push_replaced_def split: if_splits)
  next
    case 3
    with eff have arg: "arg = []" and len: "2 \<le> length (stack_list (estack e))"
      by (auto simp: op_effect_def split: if_splits)
    obtain e' where e': "pop2_and_push a (\<and>) e = Continue e'" "stack_ok (estack e')"
      "stack_list (estack e') = butlast (butlast (stack_list (estack e))) @
         [(\<and>) (last (stack_list (estack e))) (last (butlast (stack_list (estack e))))]"
      "eiter e' = eiter e + 1" "ebytes e' = ebytes e"
      by (rule pop2_and_push_list[OF ok len])
    have st: "st' = stack_list (estack e')" "op' = op"
      using eff 3 arg len e'(3) by (auto simp: op_effect_def)
    show ?thesis
      using e' st step 3 arg bs it by simp
  next
    case 4
    with eff have arg: "arg = []" and len: "2 \<le> length (stack_list (estack e))"
      by (auto simp: op_effect_def split: if_splits)
    obtain e' where e': "pop2_and_push a (\<or>) e = Continue e'" "stack_ok (estack e')"
      "stack_list (estack e') = butlast (butlast (stack_list (estack e))) @
         [(\<or>) (last (stack_list (estack e))) (last (butlast (stack_list (estack e))))]"
      "eiter e' = eiter e + 1" "ebytes e' = ebytes e"
      by (rule pop2_and_push_list[OF ok len])
    have st: "st' = stack_list (estack e')" "op' = op"
      using eff 4 arg len e'(3) by (auto simp: op_effect_def)
    show ?thesis
      using e' st step 4 arg bs it by simp
  next
    case 5
    with eff have arg: "arg = []" and ne: "stack_list (estack e) \<noteq> []"
      by (auto simp: op_effect_def split: if_splits)
    obtain e' where e': "pop_and_push a Not e = Continue e'" "stack_ok (estack e')"
      "stack_list (estack e') =
         butlast (stack_list (estack e)) @ [\<not> last (stack_list (estack e))]"
      "eiter e' = eiter e + 1" "ebytes e' = ebytes e"
      by (rule pop_and_push_list[OF ok ne])
    have st: "st' = stack_list (estack e')" "op' = op"
      using eff 5 arg ne e'(3) by (auto simp: op_effect_def)
    show ?thesis
      using e' st step 5 arg bs it by simp
  next
    case 6
    then show ?thesis
      using push_and_go_cases[OF ok, of a True 0] step bs it eff
      by (auto simp: op_effect_def split: if_splits)
  next
    case 7
    then show ?thesis
      using push_and_go_cases[OF ok, of a False 0] step bs it eff
      by (auto simp: op_effect_def split: if_splits)
  qed
qed

lemma op_effect_not_SOR:
  assumes "op_effect found patching op arg st = Some r"
  shows "op \<noteq> EFI_DEP_SOR" "op \<noteq> EFI_DEP_END"
  using assms by (auto simp: op_effect_def split: if_splits)

definition is_failure :: "(bool \<times> eval_state) option \<Rightarrow> bool" where
  "is_failure r \<longleftrightarrow> (\<exists>e. r = Some (False, e))"

interpretation dxe: postfix_evaluator
  "CoreDepexLoop a loc dsize" ebytes eiter "\<lambda>e. stack_list (estack e)" "\<lambda>e. stack_ok (estack e)"
  loc True dsize is_failure "\<lambda>_. \<exists>n. a n = None" "\<lambda>_. False" for a loc dsize
proof (unfold_locales, goal_cases)
  case (1 e pre op arg post st' op')
  from CoreDepexStep_effect[OF 1(1-5), where a = a] show ?case
    by (auto simp: is_failure_def dest!: CoreDepexLoop_Continue CoreDepexLoop_Return)
qed

interpretation smm: postfix_evaluator
  "SmmDepexLoop a smm uefi dsize" ebytes eiter "\<lambda>e. stack_list (estack e)"
  "\<lambda>e. stack_ok (estack e)" "\<lambda>g. smm g \<or> uefi g" True dsize is_failure
  "\<lambda>_. \<exists>n. a n = None" "\<lambda>_. False" for a smm uefi dsize
proof (unfold_locales, goal_cases)
  case (1 e pre op arg post st' op')
  have "read_byte (ebytes e) (eiter e) \<noteq> Some EFI_DEP_SOR"
    using read_at(1)[OF 1(2,3)] op_effect_not_SOR(1)[OF 1(5)] by simp
  from CoreDepexStep_effect[OF 1(1-5), where a = a, folded SmmDepexStep_eq[OF this]] show ?case
    by (auto simp: is_failure_def dest!: SmmDepexLoop_Continue SmmDepexLoop_Return)
qed

text \<open>END returns the top of the stack.\<close>

lemma CoreDepexStep_END:
  assumes "stack_ok (estack e)" "ebytes e = pre @ EFI_DEP_END # post" "eiter e = length pre"
    "length pre < dsize" "stack_list (estack e) = st @ [v]"
  shows "\<exists>s. CoreDepexStep a loc dsize e = Some (Return v (e\<lparr>estack := s\<rparr>))"
  using assms read_at(1)[of "ebytes e" pre EFI_DEP_END "[]" post "eiter e"]
    PopBool_cases(1)[OF assms(1)]
  by (auto simp: CoreDepexStep_def pop_and_return_def)

subsection \<open>The loops on an expression\<close>

lemma CoreDepexLoop_expr:
  assumes "wf_expr x" "stack_ok (estack e)" "ebytes e = pre @ encode x @ EFI_DEP_END # post"
    "eiter e = length pre" "length pre + length (encode x) < dsize"
  shows "(\<exists>e'. CoreDepexLoop a loc dsize e = Some (meaning loc x, e') \<and>
      ebytes e' = pre @ encode (patch loc x) @ EFI_DEP_END # post) \<or>
    ((\<exists>n. a n = None) \<and> (\<exists>e'. CoreDepexLoop a loc dsize e = Some (False, e')))"
proof -
  have "dxe.evaluates a loc dsize e (pre @ encode (patch loc x) @ EFI_DEP_END # post)
      (length pre + length (encode x)) (stack_list (estack e) @ [meaning loc x]) (depth x)"
    using dxe.evaluates_expr[OF assms(1) _ assms(2-4)] assms(5) by simp
  then show ?thesis
    using CoreDepexStep_END[of _ "pre @ encode (patch loc x)" post dsize] assms(5)
    unfolding dxe.evaluates_def is_failure_def
    by (fastforce dest: CoreDepexLoop_Return)
qed

lemma SmmDepexLoop_expr:
  assumes "wf_expr x" "stack_ok (estack e)" "ebytes e = pre @ encode x @ EFI_DEP_END # post"
    "eiter e = length pre" "length pre + length (encode x) < dsize"
  shows "(\<exists>e'. SmmDepexLoop a smm uefi dsize e = Some (meaning (\<lambda>g. smm g \<or> uefi g) x, e') \<and>
      ebytes e' = pre @ encode (patch (\<lambda>g. smm g \<or> uefi g) x) @ EFI_DEP_END # post) \<or>
    ((\<exists>n. a n = None) \<and> (\<exists>e'. SmmDepexLoop a smm uefi dsize e = Some (False, e')))"
proof -
  let ?f = "\<lambda>g. smm g \<or> uefi g"
  have ev: "smm.evaluates a smm uefi dsize e (pre @ encode (patch ?f x) @ EFI_DEP_END # post)
      (length pre + length (encode x)) (stack_list (estack e) @ [meaning ?f x]) (depth x)"
    using smm.evaluates_expr[OF assms(1) _ assms(2-4)] assms(5) by simp
  have fin: "\<exists>s. SmmDepexStep a smm uefi dsize e' = Some (Return v (e'\<lparr>estack := s\<rparr>))"
    if "stack_ok (estack e')" "ebytes e' = (pre @ encode (patch ?f x)) @ EFI_DEP_END # post"
      "eiter e' = length (pre @ encode (patch ?f x))" "stack_list (estack e') = st @ [v]"
    for e' v st
    using CoreDepexStep_END[OF that(1-3) _ that(4), of dsize a ?f] assms(5)
      read_at(1)[of "ebytes e'" "pre @ encode (patch ?f x)" EFI_DEP_END "[]" post "eiter e'"] that(2,3)
    by (simp add: SmmDepexStep_eq)
  show ?thesis
    using ev fin unfolding smm.evaluates_def is_failure_def
    by (fastforce dest: SmmDepexLoop_Return)
qed

subsection \<open>The functions on an expression\<close>

text \<open>The bytes of a well-formed dependency section: an optional SOR, the expression, END.\<close>

definition depex_bytes :: "bool \<Rightarrow> depex_expr \<Rightarrow> u8 list \<Rightarrow> u8 list" where
  "depex_bytes sor x post = (if sor then [EFI_DEP_SOR] else []) @ encode x @ EFI_DEP_END # post"

definition depex_fits :: "bool \<Rightarrow> depex_expr \<Rightarrow> nat \<Rightarrow> bool" where
  "depex_fits sor x dsize \<longleftrightarrow> (if sor then 1 else 0) + length (encode x) + 1 \<le> dsize"

lemma stack_ok_reset [simp]: "stack_ok (s\<lparr>sptr := 0\<rparr>)"
  by (simp add: stack_ok_def)

lemma CoreDepexStep_SOR:
  assumes "ebytes e = EFI_DEP_SOR # rest" "eiter e = 0" "0 < dsize"
  shows "CoreDepexStep a loc dsize e = Some (Continue (e\<lparr>eiter := 1\<rparr>))"
  using assms by (simp add: CoreDepexStep_def read_byte_def)

lemma CoreDepexLoop_bytes:
  assumes wf: "wf_expr x" and fits: "depex_fits sor x dsize" and ok: "stack_ok s"
  shows "(\<exists>e'. CoreDepexLoop a loc dsize \<lparr>ebytes = depex_bytes sor x post, eiter = 0, estack = s\<rparr>
      = Some (meaning loc x, e') \<and> ebytes e' = depex_bytes sor (patch loc x) post) \<or>
    ((\<exists>n. a n = None) \<and>
     (\<exists>e'. CoreDepexLoop a loc dsize \<lparr>ebytes = depex_bytes sor x post, eiter = 0, estack = s\<rparr>
      = Some (False, e')))"
proof (cases sor)
  case False
  then show ?thesis
    using CoreDepexLoop_expr[OF wf, of "\<lparr>ebytes = depex_bytes sor x post, eiter = 0, estack = s\<rparr>"
        "[]" post dsize a loc] fits ok
    by (simp add: depex_bytes_def depex_fits_def)
next
  case True
  let ?e = "\<lparr>ebytes = depex_bytes sor x post, eiter = 0, estack = s\<rparr>"
  have "CoreDepexLoop a loc dsize ?e = CoreDepexLoop a loc dsize (?e\<lparr>eiter := 1\<rparr>)"
    using CoreDepexStep_SOR[of ?e "encode x @ EFI_DEP_END # post" dsize a loc] fits True
    by (intro CoreDepexLoop_Continue) (simp add: depex_bytes_def depex_fits_def)
  then show ?thesis
    using CoreDepexLoop_expr[OF wf, of "?e\<lparr>eiter := 1\<rparr>" "[EFI_DEP_SOR]" post dsize a loc]
      fits ok True
    by (simp add: depex_bytes_def depex_fits_def)
qed

text \<open>A buffer that ends before END: the evaluation runs into DepexSize.\<close>

lemma CoreDepexLoop_truncated:
  assumes "wf_expr x" "stack_ok s"
  shows "\<exists>e'. CoreDepexLoop a loc (length (encode x)) \<lparr>ebytes = encode x @ post, eiter = 0, estack = s\<rparr>
    = Some (False, e')"
proof -
  let ?e = "\<lparr>ebytes = encode x @ post, eiter = 0, estack = s\<rparr>"
  have "dxe.evaluates a loc (length (encode x)) ?e (encode (patch loc x) @ post)
      (length (encode x)) (stack_list s @ [meaning loc x]) (depth x)"
    using dxe.evaluates_expr[OF assms(1), where s = ?e and pre = "[]" and post = post
        and dsize = "length (encode x)" and loc = loc and a = a] assms(2) by simp
  moreover have "CoreDepexStep a loc (length (encode x)) e' = Some (Return False e')"
    if "eiter e' = length (encode x)" for e'
    using that by (simp add: CoreDepexStep_def)
  ultimately show ?thesis
    unfolding dxe.evaluates_def is_failure_def by (fastforce dest: CoreDepexLoop_Return)
qed

text \<open>C1: The DXE evaluator is correct: on a well-formed dependency section whose memory
  requests succeed, CoreIsSchedulable returns the value of the Boolean expression over the
  protocols that are installed, whatever stack the previous evaluations left, and patches
  exactly the PUSH opcodes of the protocols it found.\<close>

theorem CoreIsSchedulable_correct:
  assumes "wf_expr x" "depex_fits sor x (DepexSize d)" "Depex d = Some (depex_bytes sor x post)"
    "\<not> After d" "\<not> Before d" "\<forall>n. AllocatePool n \<noteq> None"
  shows "\<exists>s'. CoreIsSchedulable AllocatePool located services d s =
    Some (meaning located x, d\<lparr>Depex := Some (depex_bytes sor (patch located x) post)\<rparr>, s')"
  using CoreDepexLoop_bytes[OF assms(1,2), of "s\<lparr>sptr := 0\<rparr>" AllocatePool located post] assms(3-6)
  by (auto simp: CoreIsSchedulable_def)

definition guid_A :: guid where "guid_A = replicate 16 0xA"
definition guid_B :: guid where "guid_B = replicate 16 0xB"

definition sample_expr :: depex_expr where
  "sample_expr = And (Push False guid_A) (Not_op (Push False guid_B))"

definition sample_driver :: "bool \<Rightarrow> driver_entry" where
  "sample_driver sor = \<lparr>Depex = Some (depex_bytes sor sample_expr []), DepexSize = 38,
     Before = False, After = False, Unrequested = False, Dependent = True,
     BeforeAfterGuid = []\<rparr>"

lemma sample_wf [simp]:
  "wf_expr sample_expr" "depex_fits sor sample_expr 38"
  by (simp_all add: sample_expr_def guid_A_def guid_B_def depex_fits_def)

lemma sample_driver_simps [simp]:
  "Depex (sample_driver sor) = Some (depex_bytes sor sample_expr [])"
  "DepexSize (sample_driver sor) = 38" "\<not> After (sample_driver sor)" "\<not> Before (sample_driver sor)"
  by (simp_all add: sample_driver_def)

theorem CoreIsSchedulable_correct_witness:
  "\<exists>s'. CoreIsSchedulable (\<lambda>n. Some (\<lambda>i. True)) (\<lambda>g. g = guid_A) EFI_SUCCESS (sample_driver True)
      \<lparr>smem = [], sptr = 0\<rparr> =
    Some (True, (sample_driver True)\<lparr>Depex := Some (depex_bytes True
      (And (Push True guid_A) (Not_op (Push False guid_B))) [])\<rparr>, s')"
  using CoreIsSchedulable_correct[of sample_expr True "sample_driver True" "[]"
      "\<lambda>n. Some (\<lambda>i. True)" "\<lambda>g. g = guid_A" EFI_SUCCESS "\<lparr>smem = [], sptr = 0\<rparr>"]
  by (simp add: sample_expr_def guid_A_def guid_B_def depex_fits_def numeral_eq_Suc)

text \<open>C2: A driver is never scheduled too early: whatever memory requests fail during the
  evaluation, the function returns, and when it returns TRUE the dependency expression holds
  of the installed protocols.\<close>

theorem CoreIsSchedulable_never_early:
  assumes "wf_expr x" "depex_fits sor x (DepexSize d)" "Depex d = Some (depex_bytes sor x post)"
  shows "\<exists>b d' s'. CoreIsSchedulable AllocatePool located services d s = Some (b, d', s') \<and>
    (b \<longrightarrow> meaning located x)"
  using CoreDepexLoop_bytes[OF assms(1,2), of "s\<lparr>sptr := 0\<rparr>" AllocatePool located post] assms(3)
  by (auto simp: CoreIsSchedulable_def)

theorem CoreIsSchedulable_never_early_witness:
  "\<exists>b d' s'. CoreIsSchedulable (\<lambda>n. None) (\<lambda>g. g = guid_B) EFI_SUCCESS (sample_driver False)
      \<lparr>smem = [], sptr = 0\<rparr> = Some (b, d', s') \<and> \<not> b"
proof -
  have "\<not> meaning (\<lambda>g. g = guid_B) sample_expr" by (simp add: sample_expr_def)
  then show ?thesis
    using CoreIsSchedulable_never_early[of sample_expr False "sample_driver False" "[]"
        "\<lambda>n. None" "\<lambda>g. g = guid_B" EFI_SUCCESS "\<lparr>smem = [], sptr = 0\<rparr>"]
    by fastforce
qed

text \<open>Patching is transparent: a driver that is evaluated a second time, on the
  expression the first evaluation patched and with at least the protocols of then, gets the
  value the original expression has now.\<close>

theorem CoreIsSchedulable_reevaluation:
  assumes "wf_expr x" "depex_fits sor x (DepexSize d)" "Depex d = Some (depex_bytes sor x post)"
    "\<not> After d" "\<not> Before d" "\<forall>n. AllocatePool n \<noteq> None"
    "\<forall>g. located g \<longrightarrow> located' g"
    "CoreIsSchedulable AllocatePool located services d s = Some (b, d1, s1)"
  shows "\<exists>d2 s2. CoreIsSchedulable AllocatePool located' services d1 s1 =
    Some (meaning located' x, d2, s2)"
proof -
  have d1: "d1 = d\<lparr>Depex := Some (depex_bytes sor (patch located x) post)\<rparr>"
    using CoreDepexLoop_bytes[OF assms(1,2), of "s\<lparr>sptr := 0\<rparr>" AllocatePool located post] assms(3-6,8)
    by (auto simp: CoreIsSchedulable_def)
  have fits: "depex_fits sor (patch located x) (DepexSize d)"
    using assms(2) by (simp add: depex_fits_def)
  have "meaning located' (patch located x) = meaning located' x"
    using assms(7) by (intro meaning_patch) simp
  then show ?thesis
    using CoreDepexLoop_bytes[OF _ fits, of "s1\<lparr>sptr := 0\<rparr>" AllocatePool located' post]
      assms(1,4-6) d1
    by (auto simp: CoreIsSchedulable_def)
qed

text \<open>The stack pointer left by the first evaluation of the sample: any value will do.\<close>

theorem CoreIsSchedulable_reevaluation_witness:
  "\<exists>b d1 s1 d2 s2.
     CoreIsSchedulable (\<lambda>n. Some (\<lambda>i. True)) (\<lambda>g. False) EFI_SUCCESS (sample_driver True)
      \<lparr>smem = [], sptr = 0\<rparr> = Some (b, d1, s1) \<and>
     CoreIsSchedulable (\<lambda>n. Some (\<lambda>i. True)) (\<lambda>g. g = guid_A) EFI_SUCCESS d1 s1 =
      Some (True, d2, s2)"
proof -
  have "\<exists>b d1 s1. CoreIsSchedulable (\<lambda>n. Some (\<lambda>i. True)) (\<lambda>g. False) EFI_SUCCESS
      (sample_driver True) \<lparr>smem = [], sptr = 0\<rparr> = Some (b, d1, s1)"
    using CoreDepexLoop_bytes[OF sample_wf, where s = "\<lparr>smem = [], sptr = 0\<rparr>" and sor = True
        and a = "\<lambda>n. Some (\<lambda>i. True)" and loc = "\<lambda>g. False" and post = "[]"]
    by (auto simp: CoreIsSchedulable_def stack_ok_def)
  then obtain b d1 s1 where 1: "CoreIsSchedulable (\<lambda>n. Some (\<lambda>i. True)) (\<lambda>g. False) EFI_SUCCESS
      (sample_driver True) \<lparr>smem = [], sptr = 0\<rparr> = Some (b, d1, s1)" by blast
  have "meaning (\<lambda>g. g = guid_A) sample_expr"
    by (simp add: sample_expr_def guid_A_def guid_B_def numeral_eq_Suc)
  with 1 CoreIsSchedulable_reevaluation[of sample_expr True "sample_driver True" "[]"
      "\<lambda>n. Some (\<lambda>i. True)" "\<lambda>g. False" "\<lambda>g. g = guid_A" EFI_SUCCESS _ b d1 s1] show ?thesis
    by fastforce
qed

lemma SmmIsSchedulable_expr:
  assumes "wf_expr x" "depex_fits False x (DepexSize d)" "Depex d = Some (depex_bytes False x post)"
    "\<not> After d" "\<not> Before d"
  shows "\<exists>b d' s'. SmmIsSchedulable AllocatePool smm uefi d s = Some (b, d', s') \<and>
    (b \<longrightarrow> meaning (\<lambda>g. smm g \<or> uefi g) x) \<and>
    ((\<forall>n. AllocatePool n \<noteq> None) \<longrightarrow> b = meaning (\<lambda>g. smm g \<or> uefi g) x \<and>
      Depex d' = Some (depex_bytes False (patch (\<lambda>g. smm g \<or> uefi g) x) post))"
proof -
  let ?e = "\<lparr>ebytes = depex_bytes False x post, eiter = 0, estack = s\<lparr>sptr := 0\<rparr>\<rparr>"
  let ?f = "\<lambda>g. smm g \<or> uefi g"
  have "(\<exists>e'. SmmDepexLoop AllocatePool smm uefi (DepexSize d) ?e = Some (meaning ?f x, e') \<and>
      ebytes e' = depex_bytes False (patch ?f x) post) \<or>
    ((\<exists>n. AllocatePool n = None) \<and>
     (\<exists>e'. SmmDepexLoop AllocatePool smm uefi (DepexSize d) ?e = Some (False, e')))"
    using SmmDepexLoop_expr[OF assms(1), of ?e "[]" post "DepexSize d" AllocatePool smm uefi] assms(2)
    by (simp add: depex_bytes_def depex_fits_def)
  then consider e' where "SmmDepexLoop AllocatePool smm uefi (DepexSize d) ?e = Some (meaning ?f x, e')"
      "ebytes e' = depex_bytes False (patch ?f x) post"
    | n e' where "AllocatePool n = None"
      "SmmDepexLoop AllocatePool smm uefi (DepexSize d) ?e = Some (False, e')"
    by blast
  then show ?thesis
  proof cases
    case 1
    then show ?thesis using assms(3-5) by (simp add: SmmIsSchedulable_def)
  next
    case 2
    have "SmmIsSchedulable AllocatePool smm uefi d s =
        Some (False, d\<lparr>Depex := Some (ebytes e')\<rparr>, estack e')"
      using 2(2) assms(3-5) by (simp add: SmmIsSchedulable_def)
    then show ?thesis using 2(1) by (metis)
  qed
qed

text \<open>The SMM evaluator gives a dependency expression (SMM drivers have no SOR) the
  value it has over the union of the SMM protocol database and the UEFI one, and never
  returns TRUE for an expression that does not hold, even when memory runs out.\<close>

theorem SmmIsSchedulable_correct:
  assumes "wf_expr x" "depex_fits False x (DepexSize d)" "Depex d = Some (depex_bytes False x post)"
    "\<not> After d" "\<not> Before d"
  shows "\<exists>b d' s'. SmmIsSchedulable AllocatePool smm uefi d s = Some (b, d', s') \<and>
    (b \<longrightarrow> meaning (\<lambda>g. smm g \<or> uefi g) x) \<and>
    ((\<forall>n. AllocatePool n \<noteq> None) \<longrightarrow> b = meaning (\<lambda>g. smm g \<or> uefi g) x \<and>
      Depex d' = Some (depex_bytes False (patch (\<lambda>g. smm g \<or> uefi g) x) post))"
  using assms by (rule SmmIsSchedulable_expr)

theorem SmmIsSchedulable_correct_witness:
  "\<exists>d' s'. SmmIsSchedulable (\<lambda>n. Some (\<lambda>i. True)) (\<lambda>g. False) (\<lambda>g. g = guid_A)
      (sample_driver False) \<lparr>smem = [], sptr = 0\<rparr> = Some (True, d', s')"
proof -
  have "meaning (\<lambda>g. False \<or> g = guid_A) sample_expr"
    by (simp add: sample_expr_def guid_A_def guid_B_def numeral_eq_Suc)
  then show ?thesis
    using SmmIsSchedulable_correct[of sample_expr "sample_driver False" "[]"
        "\<lambda>n. Some (\<lambda>i. True)" "\<lambda>g. False" "\<lambda>g. g = guid_A" "\<lparr>smem = [], sptr = 0\<rparr>"]
    by fastforce
qed

text \<open>Malformed sections are refused: an expression without END runs into DepexSize
  and evaluates to FALSE; an expression whose first opcode pops (AND, OR, NOT, END)
  underflows the stack and evaluates to FALSE, and so does an unknown opcode.\<close>

theorem CoreIsSchedulable_malformed:
  assumes "Depex d = Some bs" "\<not> After d" "\<not> Before d"
    "(\<exists>x post. wf_expr x \<and> bs = encode x @ post \<and> DepexSize d = length (encode x)) \<or>
     (\<exists>op rest. bs = op # rest \<and>
        (op \<in> {EFI_DEP_AND, EFI_DEP_OR, EFI_DEP_NOT, EFI_DEP_END} \<or>
         op > EFI_DEP_SOR \<and> op \<noteq> EFI_DEP_REPLACE_TRUE))"
  shows "\<exists>d' s'. CoreIsSchedulable AllocatePool located services d s = Some (False, d', s')"
  using assms(4)
proof (elim disjE exE conjE)
  fix x post assume "wf_expr x" "bs = encode x @ post" "DepexSize d = length (encode x)"
  then show ?thesis
    using CoreDepexLoop_truncated[of x "s\<lparr>sptr := 0\<rparr>" AllocatePool located post] assms(1-3)
    by (auto simp: CoreIsSchedulable_def)
next
  fix op rest
  assume bs: "bs = op # rest"
    and op: "op \<in> {EFI_DEP_AND, EFI_DEP_OR, EFI_DEP_NOT, EFI_DEP_END}"
  have "\<exists>e'. CoreDepexStep AllocatePool located (DepexSize d)
      \<lparr>ebytes = bs, eiter = 0, estack = s\<lparr>sptr := 0\<rparr>\<rparr> = Some (Return False e')"
    using op by (auto simp: CoreDepexStep_def bs read_byte_def pop2_and_push_def pop_and_push_def
        pop_and_return_def PopBool_def)
  then show ?thesis
    using assms(1-3) by (auto simp: CoreIsSchedulable_def dest!: CoreDepexLoop_Return)
next
  fix op rest
  assume bs: "bs = op # rest" and op: "op > EFI_DEP_SOR" "op \<noteq> EFI_DEP_REPLACE_TRUE"
  have "op \<noteq> EFI_DEP_BEFORE" "op \<noteq> EFI_DEP_AFTER" "op \<noteq> EFI_DEP_PUSH" "op \<noteq> EFI_DEP_AND"
    "op \<noteq> EFI_DEP_OR" "op \<noteq> EFI_DEP_NOT" "op \<noteq> EFI_DEP_TRUE" "op \<noteq> EFI_DEP_FALSE"
    "op \<noteq> EFI_DEP_END" "op \<noteq> EFI_DEP_SOR"
    using op(1) by auto
  then have "\<exists>e'. CoreDepexStep AllocatePool located (DepexSize d)
      \<lparr>ebytes = bs, eiter = 0, estack = s\<lparr>sptr := 0\<rparr>\<rparr> = Some (Return False e')"
    using op(2) by (auto simp: CoreDepexStep_def bs read_byte_def)
  then show ?thesis
    using assms(1-3) by (auto simp: CoreIsSchedulable_def dest!: CoreDepexLoop_Return)
qed

theorem CoreIsSchedulable_malformed_witness:
  "\<exists>d' s'. CoreIsSchedulable (\<lambda>n. None) (\<lambda>g. True) EFI_SUCCESS
      ((sample_driver False)\<lparr>Depex := Some [EFI_DEP_AND]\<rparr>) \<lparr>smem = [True], sptr = 1\<rparr>
      = Some (False, d', s')"
  using CoreIsSchedulable_malformed[of "(sample_driver False)\<lparr>Depex := Some [EFI_DEP_AND]\<rparr>"
      "[EFI_DEP_AND]" "\<lambda>n. None" "\<lambda>g. True" EFI_SUCCESS "\<lparr>smem = [True], sptr = 1\<rparr>"]
  by simp

text \<open>The bound check of the loop covers the opcode only: a PUSH within the last sixteen
  bytes of a section whose buffer has exactly DepexSize bytes makes the evaluator copy its
  GUID from beyond the end of the buffer.\<close>

theorem CoreIsSchedulable_guid_overread:
  assumes "Depex d = Some (encode x @ EFI_DEP_PUSH # g)" "length g < 16"
    "DepexSize d = length (encode x @ EFI_DEP_PUSH # g)" "wf_expr x" "\<not> After d" "\<not> Before d"
    "\<forall>n. AllocatePool n \<noteq> None"
  shows "CoreIsSchedulable AllocatePool located services d s = None"
proof -
  let ?e = "\<lparr>ebytes = encode x @ EFI_DEP_PUSH # g, eiter = 0, estack = s\<lparr>sptr := 0\<rparr>\<rparr>"
  have "dxe.evaluates AllocatePool located (DepexSize d) ?e
      (encode (patch located x) @ EFI_DEP_PUSH # g)
      (length (encode x)) (stack_list (s\<lparr>sptr := 0\<rparr>) @ [meaning located x]) (depth x)"
    using dxe.evaluates_expr[OF assms(4), where s = ?e and pre = "[]" and post = "EFI_DEP_PUSH # g"
        and dsize = "DepexSize d" and loc = located and a = AllocatePool] assms(3) by simp
  then obtain e where e: "CoreDepexLoop AllocatePool located (DepexSize d) ?e =
      CoreDepexLoop AllocatePool located (DepexSize d) e"
      "ebytes e = encode (patch located x) @ EFI_DEP_PUSH # g" "eiter e = length (encode x)"
    using assms(7) unfolding dxe.evaluates_def by auto
  have "read_byte (ebytes e) (eiter e) = Some EFI_DEP_PUSH"
    using e(2,3) by (intro read_at(1)[of _ "encode (patch located x)" _ "[]" g]) simp_all
  then have "CoreDepexStep AllocatePool located (DepexSize d) e = None"
    using e(2,3) assms(2,3) by (simp add: CoreDepexStep_def push_guid_def read_guid_def)
  then show ?thesis
    using assms(1,5,6) e(1) by (simp add: CoreIsSchedulable_def CoreDepexLoop.simps[of _ _ _ e])
qed

theorem CoreIsSchedulable_guid_overread_witness:
  "CoreIsSchedulable (\<lambda>n. Some (\<lambda>i. True)) (\<lambda>g. True) EFI_SUCCESS
     \<lparr>Depex = Some [EFI_DEP_TRUE, EFI_DEP_PUSH, 1, 2], DepexSize = 4, Before = False, After = False,
      Unrequested = False, Dependent = True, BeforeAfterGuid = []\<rparr> \<lparr>smem = [], sptr = 0\<rparr> = None"
  by (rule CoreIsSchedulable_guid_overread[of _ True_op "[1, 2]"]) simp_all

text \<open>CorePreProcessDepex classifies every section by its first opcode: SOR makes the
  driver unrequested, everything else dependent; BEFORE and AFTER record the GUID that
  follows, and from then on the driver is never schedulable by evaluation.\<close>

theorem CorePreProcessDepex_classifies:
  assumes "Depex d = Some (op # g @ rest)" "length g = 16" "\<not> Before d" "\<not> After d"
  shows "\<exists>d'. CorePreProcessDepex d = Some d' \<and> Depex d' = Depex d \<and>
    Unrequested d' = (Unrequested d \<or> op = EFI_DEP_SOR) \<and>
    Dependent d' = (Dependent d \<or> op \<noteq> EFI_DEP_SOR) \<and>
    Before d' = (op = EFI_DEP_BEFORE) \<and> After d' = (op = EFI_DEP_AFTER) \<and>
    BeforeAfterGuid d' =
      (if op = EFI_DEP_BEFORE \<or> op = EFI_DEP_AFTER then g else BeforeAfterGuid d) \<and>
    (op = EFI_DEP_BEFORE \<or> op = EFI_DEP_AFTER \<longrightarrow>
      CoreIsSchedulable AllocatePool located services d' s = Some (False, d', s))"
proof -
  have "read_byte (op # g @ rest) 0 = Some op" "read_guid (op # g @ rest) 1 = Some g"
    using assms(2) by (simp_all add: read_byte_def read_guid_def)
  then show ?thesis
    using assms by (auto simp: CorePreProcessDepex_def Let_def CoreIsSchedulable_def)
qed

theorem CorePreProcessDepex_classifies_witness:
  "\<exists>d'. CorePreProcessDepex ((sample_driver False)\<lparr>Depex := Some (EFI_DEP_AFTER # guid_A)\<rparr>) = Some d' \<and>
    After d' \<and> BeforeAfterGuid d' = guid_A \<and>
    CoreIsSchedulable (\<lambda>n. None) (\<lambda>g. True) EFI_SUCCESS d' \<lparr>smem = [], sptr = 0\<rparr>
      = Some (False, d', \<lparr>smem = [], sptr = 0\<rparr>)"
  using CorePreProcessDepex_classifies[of "(sample_driver False)\<lparr>Depex := Some (EFI_DEP_AFTER # guid_A)\<rparr>"
      EFI_DEP_AFTER guid_A "[]" "\<lambda>n. None" "\<lambda>g. True" EFI_SUCCESS "\<lparr>smem = [], sptr = 0\<rparr>"]
  by (auto simp: guid_A_def)
end
