(* ===== verification/Pei_Depex.thy ===== *)
theory Pei_Depex
  imports Depex
begin

text \<open>
  The PEI evaluator of dependency expressions, MdeModulePkg/Core/Pei/Dependency/Dependency.c:
  IsPpiInstalled and PeimDispatchReadiness.  Its stack is an array of 64 entries that hold a
  truth value or a pointer to a GUID of the expression, which is looked up only when the
  value is needed.  A GUID pointer is the offset of the GUID in the expression, None is NULL.
  PeiServicesLocatePpi is a parameter; DEBUG output is left out.

  The last part relates it to the DXE evaluator: both are postfix evaluators in the sense of
  the locale of Depex, so both compute the meaning of an expression.
\<close>

record eval_stack_entry =
  Result :: bool
  Operator :: "nat option"

abbreviation MAX_GRAMMAR_SIZE :: nat where "MAX_GRAMMAR_SIZE \<equiv> 64"

record pei_state =
  pbytes :: "u8 list"
  piter :: nat
  EvalStack :: "eval_stack_entry list"
  StackPtr :: nat

datatype pei_outcome = PContinue pei_state | PReturn bool

definition IsPpiInstalled ::
  "(guid \<Rightarrow> bool) \<Rightarrow> u8 list \<Rightarrow> eval_stack_entry \<Rightarrow> bool option" where
  "IsPpiInstalled PeiServicesLocatePpi bs entry =
     (case Operator entry of
        None \<Rightarrow> Some (Result entry)
      | Some p \<Rightarrow> do { PpiGuid \<leftarrow> read_guid bs p; Some (PeiServicesLocatePpi PpiGuid) })"

text \<open>The AND and OR case: the top is evaluated; only when it decides the result, the entry
  below it is overwritten.\<close>

definition PeimAndOr :: "(guid \<Rightarrow> bool) \<Rightarrow> u8 \<Rightarrow> pei_state \<Rightarrow> pei_outcome option" where
  "PeimAndOr loc op e =
     (if StackPtr e < 2 then Some (PReturn False)
      else do {
        let e = e\<lparr>StackPtr := StackPtr e - 1\<rparr>;
        top \<leftarrow> IsPpiInstalled loc (pbytes e) (EvalStack e ! StackPtr e);
        Some (PContinue
          (if op = EFI_DEP_AND
           then (if \<not> top
                 then e\<lparr>EvalStack := (EvalStack e)[StackPtr e - 1 := \<lparr>Result = False, Operator = None\<rparr>]\<rparr>
                 else e)
           else (if top
                 then e\<lparr>EvalStack := (EvalStack e)[StackPtr e - 1 := \<lparr>Result = True, Operator = None\<rparr>]\<rparr>
                 else e)))
      })"

text \<open>The body of the loop: switch (*(Iterator++)).\<close>

definition PeimStep :: "(guid \<Rightarrow> bool) \<Rightarrow> pei_state \<Rightarrow> pei_outcome option" where
  "PeimStep loc e = do {
     op \<leftarrow> read_byte (pbytes e) (piter e);
     let e = e\<lparr>piter := piter e + 1\<rparr>;
     if op = EFI_DEP_PUSH then
       Some (if StackPtr e > MAX_GRAMMAR_SIZE - 1 then PReturn False
             else PContinue (e\<lparr>
               EvalStack := (EvalStack e)[StackPtr e := (EvalStack e ! StackPtr e)\<lparr>Operator := Some (piter e)\<rparr>],
               piter := piter e + 16, StackPtr := StackPtr e + 1\<rparr>))
     else if op = EFI_DEP_AND \<or> op = EFI_DEP_OR then PeimAndOr loc op e
     else if op = EFI_DEP_END then
       (if int (StackPtr e) - 1 \<noteq> 0 then Some (PReturn False)
        else do { r \<leftarrow> IsPpiInstalled loc (pbytes e) (EvalStack e ! 0); Some (PReturn r) })
     else if op = EFI_DEP_NOT then
       (if StackPtr e < 1 then Some (PReturn False)
        else do {
          r \<leftarrow> IsPpiInstalled loc (pbytes e) (EvalStack e ! (StackPtr e - 1));
          Some (PContinue (e\<lparr>
            EvalStack := (EvalStack e)[StackPtr e - 1 := \<lparr>Result = \<not> r, Operator = None\<rparr>]\<rparr>))
        })
     else if op = EFI_DEP_TRUE \<or> op = EFI_DEP_FALSE then
       Some (if StackPtr e > MAX_GRAMMAR_SIZE - 1 then PReturn False
             else PContinue (e\<lparr>
               EvalStack := (EvalStack e)[StackPtr e := \<lparr>Result = (op = EFI_DEP_TRUE), Operator = None\<rparr>],
               StackPtr := StackPtr e + 1\<rparr>))
     else Some (PReturn False)
   }"

lemma PeimStep_advances:
  "PeimStep loc e = Some (PContinue e') \<Longrightarrow>
     piter e < length (pbytes e) \<and> piter e < piter e' \<and> pbytes e' = pbytes e"
  by (auto simp: PeimStep_def PeimAndOr_def Let_def bind_eq_Some_conv read_byte_def
      split: if_splits)

function PeimLoop :: "(guid \<Rightarrow> bool) \<Rightarrow> pei_state \<Rightarrow> bool option" where
  "PeimLoop loc e =
     (case PeimStep loc e of
        None \<Rightarrow> None
      | Some (PReturn b) \<Rightarrow> Some b
      | Some (PContinue e') \<Rightarrow> PeimLoop loc e')"
  by pat_completeness auto
termination
proof (relation "measure (\<lambda>(_, e). length (pbytes e) - piter e)", goal_cases)
  case (2 loc e x e')
  then show ?case using PeimStep_advances[of loc e e'] by auto
qed simp

declare PeimLoop.simps [simp del]

text \<open>The array is not initialised: its first contents are an argument.\<close>

definition PeimDispatchReadiness ::
  "(guid \<Rightarrow> bool) \<Rightarrow> eval_stack_entry list \<Rightarrow> u8 list \<Rightarrow> bool option" where
  "PeimDispatchReadiness PeiServicesLocatePpi EvalStack0 DependencyExpression =
     PeimLoop PeiServicesLocatePpi
       \<lparr>pbytes = DependencyExpression, piter = 0, EvalStack = EvalStack0, StackPtr = 0\<rparr>"

subsection \<open>The lazy stack as a list of truth values\<close>

definition entry_ok :: "u8 list \<Rightarrow> eval_stack_entry \<Rightarrow> bool" where
  "entry_ok bs x \<longleftrightarrow> (\<forall>p. Operator x = Some p \<longrightarrow> p + 16 \<le> length bs)"

definition entry_value :: "(guid \<Rightarrow> bool) \<Rightarrow> u8 list \<Rightarrow> eval_stack_entry \<Rightarrow> bool" where
  "entry_value loc bs x =
     (case Operator x of None \<Rightarrow> Result x | Some p \<Rightarrow> loc (take 16 (drop p bs)))"

definition pei_ok :: "pei_state \<Rightarrow> bool" where
  "pei_ok e \<longleftrightarrow> length (EvalStack e) = MAX_GRAMMAR_SIZE \<and> StackPtr e \<le> MAX_GRAMMAR_SIZE \<and>
     (\<forall>x \<in> set (take (StackPtr e) (EvalStack e)). entry_ok (pbytes e) x)"

definition pei_stack :: "(guid \<Rightarrow> bool) \<Rightarrow> pei_state \<Rightarrow> bool list" where
  "pei_stack loc e = map (entry_value loc (pbytes e)) (take (StackPtr e) (EvalStack e))"

lemma IsPpiInstalled_value:
  "entry_ok bs x \<Longrightarrow> IsPpiInstalled loc bs x = Some (entry_value loc bs x)"
  by (auto simp: IsPpiInstalled_def entry_ok_def entry_value_def read_guid_def split: option.splits)

lemma constant_entry [simp]:
  "entry_ok bs \<lparr>Result = b, Operator = None\<rparr>"
  "entry_value loc bs \<lparr>Result = b, Operator = None\<rparr> = b"
  by (simp_all add: entry_ok_def entry_value_def)

lemma length_pei_stack: "pei_ok e \<Longrightarrow> length (pei_stack loc e) = StackPtr e"
  by (simp add: pei_ok_def pei_stack_def)

text \<open>A state is a list of entries below the stack pointer and an unused rest.\<close>

lemma pei_ok_split:
  assumes "pei_ok e"
  obtains xs ys where "EvalStack e = xs @ ys" "length xs = StackPtr e"
    "length xs + length ys = MAX_GRAMMAR_SIZE" "\<forall>x \<in> set xs. entry_ok (pbytes e) x"
    "pei_stack loc e = map (entry_value loc (pbytes e)) xs"
proof
  show "EvalStack e = take (StackPtr e) (EvalStack e) @ drop (StackPtr e) (EvalStack e)" by simp
qed (use assms in \<open>auto simp: pei_ok_def pei_stack_def\<close>)

lemma pei_ok_append:
  assumes "EvalStack e = xs @ ys" "length xs = StackPtr e"
  shows "pei_ok e \<longleftrightarrow> length xs + length ys = MAX_GRAMMAR_SIZE \<and> (\<forall>x \<in> set xs. entry_ok (pbytes e) x)"
    "pei_stack loc e = map (entry_value loc (pbytes e)) xs"
  using assms by (auto simp: pei_ok_def pei_stack_def)

text \<open>The step executes op_effect, and gives up exactly on a push at height 64.\<close>

definition pei_effect ::
  "(guid \<Rightarrow> bool) \<Rightarrow> pei_state \<Rightarrow> u8 list \<Rightarrow> nat \<Rightarrow> bool list \<Rightarrow> bool" where
  "pei_effect loc e bs i st \<longleftrightarrow> (\<exists>e'. PeimStep loc e = Some (PContinue e') \<and> pei_ok e' \<and>
     pbytes e' = bs \<and> piter e' = i \<and> pei_stack loc e' = st)"

lemma PeimStep_push:
  assumes ok: "pei_ok e" and sp: "StackPtr e < MAX_GRAMMAR_SIZE"
    and step: "PeimStep loc e = Some (PContinue
      (e\<lparr>piter := i, EvalStack := (EvalStack e)[StackPtr e := x], StackPtr := StackPtr e + 1\<rparr>))"
    and x: "entry_ok (pbytes e) x" "entry_value loc (pbytes e) x = v"
  shows "pei_effect loc e (pbytes e) i (pei_stack loc e @ [v])"
proof -
  obtain xs ys where e: "EvalStack e = xs @ ys" "length xs = StackPtr e"
    "length xs + length ys = MAX_GRAMMAR_SIZE" "\<forall>x \<in> set xs. entry_ok (pbytes e) x"
    "pei_stack loc e = map (entry_value loc (pbytes e)) xs"
    by (rule pei_ok_split[OF ok])
  obtain y ys' where ys: "ys = y # ys'" using sp e(2,3) by (cases ys) auto
  let ?e = "e\<lparr>piter := i, EvalStack := (EvalStack e)[StackPtr e := x], StackPtr := StackPtr e + 1\<rparr>"
  have "EvalStack ?e = (xs @ [x]) @ ys'" "length (xs @ [x]) = StackPtr ?e"
    using e(1,2) ys by (simp_all flip: e(2))
  note * = pei_ok_append[OF this]
  show ?thesis
    unfolding pei_effect_def using step *(1) *(2)[of loc] e(3,4,5) x ys
    by (intro exI[of _ ?e]) simp
qed

text \<open>The pops: the entries below the stack pointer become xs'.\<close>

lemma pei_effect_intro:
  assumes "PeimStep loc e = Some (PContinue e')" "EvalStack e' = xs' @ ys'"
    "length xs' = StackPtr e'" "length xs' + length ys' = MAX_GRAMMAR_SIZE"
    "\<forall>x \<in> set xs'. entry_ok (pbytes e) x" "pbytes e' = pbytes e"
  shows "pei_effect loc e (pbytes e) (piter e') (map (entry_value loc (pbytes e)) xs')"
  using assms pei_ok_append[OF assms(2,3)] unfolding pei_effect_def by auto

lemma PeimStep_not:
  assumes ok: "pei_ok e" and op: "read_byte (pbytes e) (piter e) = Some EFI_DEP_NOT"
    and ne: "pei_stack loc e \<noteq> []"
  shows "pei_effect loc e (pbytes e) (piter e + 1)
    (butlast (pei_stack loc e) @ [\<not> last (pei_stack loc e)])"
proof -
  obtain xs ys where e: "EvalStack e = xs @ ys" "length xs = StackPtr e"
    "length xs + length ys = MAX_GRAMMAR_SIZE" "\<forall>x \<in> set xs. entry_ok (pbytes e) x"
    "pei_stack loc e = map (entry_value loc (pbytes e)) xs"
    by (rule pei_ok_split[OF ok])
  obtain zs x where xs: "xs = zs @ [x]" using ne e(5) by (cases xs rule: rev_cases) auto
  let ?c = "\<lparr>Result = \<not> entry_value loc (pbytes e) x, Operator = None\<rparr>"
  let ?e' = "e\<lparr>piter := piter e + 1, EvalStack := (zs @ [?c]) @ ys\<rparr>"
  have sp: "StackPtr e = Suc (length zs)" using e(2) xs by simp
  have "PeimStep loc e = Some (PContinue ?e')"
    using op e(1,4) xs sp IsPpiInstalled_value[of "pbytes e" x]
    by (simp add: PeimStep_def nth_append list_update_append)
  from pei_effect_intro[OF this, of "zs @ [?c]" ys] show ?thesis
    using e(3,4,5) xs sp by (simp add: butlast_append)
qed

lemma PeimStep_and_or:
  assumes ok: "pei_ok e" and op: "read_byte (pbytes e) (piter e) = Some op"
      "op = EFI_DEP_AND \<and> f = (\<and>) \<or> op = EFI_DEP_OR \<and> f = (\<or>)"
    and ge: "2 \<le> length (pei_stack loc e)"
  shows "pei_effect loc e (pbytes e) (piter e + 1) (butlast (butlast (pei_stack loc e)) @
    [f (last (butlast (pei_stack loc e))) (last (pei_stack loc e))])"
proof -
  obtain xs ys where e: "EvalStack e = xs @ ys" "length xs = StackPtr e"
    "length xs + length ys = MAX_GRAMMAR_SIZE" "\<forall>x \<in> set xs. entry_ok (pbytes e) x"
    "pei_stack loc e = map (entry_value loc (pbytes e)) xs"
    by (rule pei_ok_split[OF ok])
  obtain us y where us: "xs = us @ [y]" using ge e(5) by (cases xs rule: rev_cases) auto
  obtain zs x where zs: "us = zs @ [x]" using ge e(5) us by (cases us rule: rev_cases) auto
  let ?v = "entry_value loc (pbytes e)"
  let ?c = "if ?v y = (op = EFI_DEP_AND) then x
    else \<lparr>Result = (op \<noteq> EFI_DEP_AND), Operator = None\<rparr>"
  let ?e' = "e\<lparr>piter := piter e + 1, StackPtr := StackPtr e - 1, EvalStack := (zs @ [?c]) @ y # ys\<rparr>"
  have sp: "StackPtr e = Suc (Suc (length zs))" using e(2) us zs by simp
  have step: "PeimStep loc e = Some (PContinue ?e')"
    using op e(1,4) us zs sp IsPpiInstalled_value[of "pbytes e" y]
    by (auto simp: PeimStep_def PeimAndOr_def Let_def nth_append list_update_append)
  have "pei_effect loc e (pbytes e) (piter e + 1) (map ?v (zs @ [?c]))"
    using pei_effect_intro[OF step, of "zs @ [?c]" "y # ys"] e(3,4) us zs sp by simp
  moreover have "?v ?c = f (?v x) (?v y)" using op(2) by auto
  ultimately show ?thesis using e(5) us zs by (simp add: butlast_append)
qed

lemma PeimStep_effect:
  assumes ok: "pei_ok e" and bs: "pbytes e = pre @ op # arg @ post"
    and it: "piter e = length pre"
    and eff: "op_effect loc False op arg (pei_stack loc e) = Some (st', op')"
  shows "(length (pei_stack loc e) < length st' \<and> 64 \<le> length (pei_stack loc e) \<and>
       PeimStep loc e = Some (PReturn False)) \<or>
    (\<not> (length (pei_stack loc e) < length st' \<and> 64 \<le> length (pei_stack loc e)) \<and>
       pei_effect loc e (pre @ op' # arg @ post) (length pre + 1 + length arg) st')"
proof -
  note rd = read_at(1)[OF bs it]
  have len: "length (pei_stack loc e) = StackPtr e" by (rule length_pei_stack[OF ok])
  consider "op = EFI_DEP_PUSH" | "op = EFI_DEP_NOT" | "op = EFI_DEP_AND \<or> op = EFI_DEP_OR"
    | "op = EFI_DEP_TRUE \<or> op = EFI_DEP_FALSE"
    using eff by (auto simp: op_effect_def split: if_splits)
  then show ?thesis
  proof cases
    case 1
    then have g: "length arg = 16" "st' = pei_stack loc e @ [loc arg]" "op' = op"
      using eff by (auto simp: op_effect_def split: if_splits)
    show ?thesis
    proof (cases "StackPtr e < 64")
      case True
      have "PeimStep loc e = Some (PContinue (e\<lparr>piter := piter e + 17,
          EvalStack := (EvalStack e)[StackPtr e := (EvalStack e ! StackPtr e)\<lparr>Operator := Some (piter e + 1)\<rparr>],
          StackPtr := StackPtr e + 1\<rparr>))"
        using rd 1 True by (simp add: PeimStep_def)
      from PeimStep_push[OF ok True this, of "loc arg"] show ?thesis
        using True g len bs it by (simp add: entry_ok_def entry_value_def add.commute)
    next
      case False
      then show ?thesis using rd 1 g len by (simp add: PeimStep_def)
    qed
  next
    case 2
    then show ?thesis
      using PeimStep_not[OF ok, of loc] rd eff bs it by (auto simp: op_effect_def split: if_splits)
  next
    case 3
    define f where "f = (if op = EFI_DEP_AND then (\<and>) else (\<or>))"
    have *: "op = EFI_DEP_AND \<and> f = (\<and>) \<or> op = EFI_DEP_OR \<and> f = (\<or>)"
      using 3 by (auto simp: f_def)
    have **: "2 \<le> length (pei_stack loc e)" "arg = []" "op' = op"
      "st' = butlast (butlast (pei_stack loc e)) @
        [f (last (butlast (pei_stack loc e))) (last (pei_stack loc e))]"
      using eff * by (auto simp: op_effect_def split: if_splits)
    have "\<not> length (pei_stack loc e) < length st'" using **(1,4) by simp
    with PeimStep_and_or[OF ok rd * **(1)] show ?thesis
      using **(2-4) bs it by simp
  next
    case 4
    then have g: "arg = []" "st' = pei_stack loc e @ [op = EFI_DEP_TRUE]" "op' = op"
      using eff by (auto simp: op_effect_def split: if_splits)
    show ?thesis
    proof (cases "StackPtr e < 64")
      case True
      have "PeimStep loc e = Some (PContinue (e\<lparr>piter := piter e + 1,
          EvalStack := (EvalStack e)[StackPtr e := \<lparr>Result = (op = EFI_DEP_TRUE), Operator = None\<rparr>],
          StackPtr := StackPtr e + 1\<rparr>))"
        using rd 4 True by (auto simp: PeimStep_def)
      from PeimStep_push[OF ok True this, of "op = EFI_DEP_TRUE"] show ?thesis
        using True g len bs it by simp
    next
      case False
      then show ?thesis using rd 4 g len by (auto simp: PeimStep_def)
    qed
  qed
qed

lemma PeimLoop_step:
  "PeimStep loc e = Some (PContinue e') \<Longrightarrow> PeimLoop loc e = PeimLoop loc e'"
  "PeimStep loc e = Some (PReturn b) \<Longrightarrow> PeimLoop loc e = Some b"
  by (simp_all add: PeimLoop.simps[of loc e])

interpretation pei: postfix_evaluator
  "PeimLoop loc" pbytes piter "pei_stack loc" pei_ok loc False lim "\<lambda>r. r = Some False"
  "\<lambda>n. 64 \<le> n" "\<lambda>n. 64 \<le> n" for loc lim
proof (unfold_locales, goal_cases)
  case (1 e pre op arg post st' op')
  from PeimStep_effect[OF 1(1-3,5)] show ?case
    unfolding pei_effect_def by (auto dest: PeimLoop_step)
qed

lemma PeimStep_END:
  assumes "pei_ok e" "pbytes e = pre @ EFI_DEP_END # post" "piter e = length pre"
    "pei_stack loc e = [v]"
  shows "PeimStep loc e = Some (PReturn v)"
proof -
  obtain xs ys where e: "EvalStack e = xs @ ys" "length xs = StackPtr e"
    "\<forall>x \<in> set xs. entry_ok (pbytes e) x" "pei_stack loc e = map (entry_value loc (pbytes e)) xs"
    by (rule pei_ok_split[OF assms(1)])
  obtain x where xs: "xs = [x]" "entry_value loc (pbytes e) x = v" using e(4) assms(4) by auto
  moreover have "StackPtr e = 1" using e(2) xs by simp
  ultimately show ?thesis
    using e(1,3) read_at(1)[of "pbytes e" pre EFI_DEP_END "[]" post "piter e"] assms(2,3)
      IsPpiInstalled_value[of "pbytes e" x loc]
    by (simp add: PeimStep_def)
qed

lemma PeimDispatchReadiness_expr:
  assumes "wf_expr x" "unpatched x" "length stack0 = 64"
  shows "PeimDispatchReadiness installed stack0 (encode x @ EFI_DEP_END # post) =
    Some (depth x \<le> 64 \<and> meaning installed x)"
proof -
  let ?e = "\<lparr>pbytes = encode x @ EFI_DEP_END # post, piter = 0, EvalStack = stack0, StackPtr = 0\<rparr>"
  have ok: "pei_ok ?e" and st: "pei_stack installed ?e = []"
    using assms(3) by (simp_all add: pei_ok_def pei_stack_def)
  have "pei.evaluates installed ?e (encode x @ EFI_DEP_END # post) (length (encode x))
      [meaning installed x] (depth x)"
    using pei.evaluates_expr[OF assms(1), where s = ?e and pre = "[]" and post = "EFI_DEP_END # post"
        and loc = installed and lim = "length (encode x)"] assms(2) ok st by simp
  then consider e' where "PeimLoop installed ?e = PeimLoop installed e'" "pei_ok e'"
      "pbytes e' = encode x @ EFI_DEP_END # post" "piter e' = length (encode x)"
      "pei_stack installed e' = [meaning installed x]" "\<forall>n < depth x. \<not> 64 \<le> n"
    | n where "PeimLoop installed ?e = Some False" "n < depth x" "64 \<le> n"
    unfolding pei.evaluates_def st by auto
  then show ?thesis
  proof cases
    case 1
    have "\<not> 64 < depth x" using 1(6) by auto
    with 1 PeimStep_END[OF 1(2-5)] show ?thesis
      by (simp add: PeimDispatchReadiness_def PeimLoop_step(2))
  qed (simp add: PeimDispatchReadiness_def)
qed

text \<open>C21: The PEI evaluator returns TRUE exactly for the expressions that hold of the
  installed PPIs and whose evaluation needs at most 64 stack entries (MAX_GRAMMAR_SIZE);
  deeper ones evaluate to FALSE.  The lazily evaluated entries do not change the value, and
  neither does the uninitialised array.\<close>

theorem PeimDispatchReadiness_correct:
  assumes "wf_expr x" "unpatched x" "length stack0 = 64"
  shows "PeimDispatchReadiness installed stack0 (encode x @ EFI_DEP_END # post) =
    Some (depth x \<le> 64 \<and> meaning installed x)"
  using assms by (rule PeimDispatchReadiness_expr)

theorem PeimDispatchReadiness_correct_witness:
  "PeimDispatchReadiness (\<lambda>g. g = guid_A) (replicate 64 \<lparr>Result = True, Operator = Some 7\<rparr>)
     (encode sample_expr @ [EFI_DEP_END]) = Some True"
proof -
  have "depth sample_expr \<le> 64" "meaning (\<lambda>g. g = guid_A) sample_expr" "unpatched sample_expr"
    by (simp_all add: sample_expr_def guid_A_def guid_B_def numeral_eq_Suc)
  then show ?thesis
    using PeimDispatchReadiness_correct[of sample_expr "replicate 64 \<lparr>Result = True, Operator = Some 7\<rparr>"
        "\<lambda>g. g = guid_A" "[]"] by simp
qed

text \<open>The three evaluators agree: on a fresh expression of depth at most 64 the lazy PEI
  evaluator returns what the DXE evaluator returns over the same set of installed GUIDs.\<close>

theorem pei_dxe_agree:
  assumes "wf_expr x" "unpatched x" "depth x \<le> 64" "length stack0 = 64"
    "Depex d = Some (depex_bytes False x post)" "depex_fits False x (DepexSize d)"
    "\<not> After d" "\<not> Before d" "\<forall>n. AllocatePool n \<noteq> None"
  shows "PeimDispatchReadiness installed stack0 (depex_bytes False x post) =
    map_option fst (CoreIsSchedulable AllocatePool installed services d s)"
proof -
  have "PeimDispatchReadiness installed stack0 (depex_bytes False x post) =
      Some (meaning installed x)"
    using PeimDispatchReadiness_expr[OF assms(1,2,4)] assms(3) by (simp add: depex_bytes_def)
  then show ?thesis
    using CoreDepexLoop_bytes[OF assms(1,6), of "s\<lparr>sptr := 0\<rparr>" AllocatePool installed post]
      assms(5,7-9)
    by (auto simp: CoreIsSchedulable_def)
qed

theorem pei_dxe_agree_witness:
  "PeimDispatchReadiness (\<lambda>g. g = guid_B) (replicate 64 \<lparr>Result = True, Operator = None\<rparr>)
     (depex_bytes False sample_expr []) =
   map_option fst (CoreIsSchedulable (\<lambda>n. Some (\<lambda>i. True)) (\<lambda>g. g = guid_B) EFI_SUCCESS
     (sample_driver False) \<lparr>smem = [], sptr = 0\<rparr>)"
  by (rule pei_dxe_agree) (simp_all add: sample_expr_def guid_A_def guid_B_def depex_fits_def)

end
