(* ===== verification/Smm_Smi.thy ===== *)
theory Smm_Smi
  imports Efi_Prelude
begin

text \<open>
  The SMI handler registry of the SMM core, MdeModulePkg/Core/PiSmmCore/Smi.c:
  SmmCoreFindSmiEntry, SmiManage, SmiHandlerRegister, SmiHandlerUnRegister.

  SMI_ENTRY and SMI_HANDLER objects live in maps from their addresses; a LIST_ENTRY ring is
  the list of the addresses of its elements (Linked_List proves that the ring operations
  compute these list operations).  The n-th memory request fails when oom n holds, and
  otherwise returns the address n, so a freed address is never reused.  &mRootSmiEntry is
  address 0.  None is an access to an object that is not there (the CR macro asserts on its
  signature), the FreePool of something that was not allocated, or a fired ASSERT.

  The handlers are external code: invoke gives what the call of a handler returns and how it
  changes the registry and the rest of the system, so it may register and unregister
  handlers while SmiManage walks the list.
\<close>

subsection \<open>State\<close>

record smi_entry =
  HandlerType :: guid
  SmiHandlers :: "nat list"

record 'h smi_handler =
  Handler :: 'h
  SmiEntry :: "nat option"

record 'h smi_state =
  mSmiEntryList :: "nat list"
  entries :: "nat \<Rightarrow> smi_entry option"
  handlers :: "nat \<Rightarrow> 'h smi_handler option"
  fresh :: nat

abbreviation mRootSmiEntry :: nat where "mRootSmiEntry \<equiv> 0"

text \<open>AllocatePool: the address, or None for NULL.\<close>

definition AllocatePool :: "(nat \<Rightarrow> bool) \<Rightarrow> 'h smi_state \<Rightarrow> nat option \<times> 'h smi_state" where
  "AllocatePool oom s =
     (if oom (fresh s) then None else Some (fresh s), s\<lparr>fresh := fresh s + 1\<rparr>)"

subsection \<open>SmmCoreFindSmiEntry\<close>

definition search_entry :: "(nat \<Rightarrow> smi_entry option) \<Rightarrow> guid \<Rightarrow> nat list \<Rightarrow> nat option option" where
  "search_entry es g = walk es (\<lambda>Item. Some (HandlerType Item = g))"

definition SmmCoreFindSmiEntry ::
  "(nat \<Rightarrow> bool) \<Rightarrow> guid \<Rightarrow> bool \<Rightarrow> 'h smi_state \<Rightarrow> (nat option \<times> 'h smi_state) option" where
  "SmmCoreFindSmiEntry oom g Create s = do {
     found \<leftarrow> search_entry (entries s) g (mSmiEntryList s);
     if found = None \<and> Create then
       (let (p, s) = AllocatePool oom s
        in Some (case p of
             None \<Rightarrow> (None, s)
           | Some p \<Rightarrow>
               (Some p, s\<lparr>entries := (entries s)(p \<mapsto> \<lparr>HandlerType = g, SmiHandlers = []\<rparr>),
                          mSmiEntryList := mSmiEntryList s @ [p]\<rparr>)))
     else Some (found, s)
   }"

subsection \<open>SmiManage\<close>

type_synonym ('h, 'e) invoker =
  "'h \<Rightarrow> nat \<Rightarrow> 'e \<Rightarrow> 'h smi_state \<Rightarrow> efi_status \<times> 'e \<times> 'h smi_state"

text \<open>Link->ForwardLink in the ring of an entry's handlers: Some None is its head.\<close>

definition next_link :: "'h smi_state \<Rightarrow> nat \<Rightarrow> nat \<Rightarrow> nat option option" where
  "next_link s p h = do {
     _ \<leftarrow> handlers s h;
     e \<leftarrow> entries s p;
     forward_link h (SmiHandlers e)
   }"

partial_function (option) SmiManage_loop ::
  "('h, 'e) invoker \<Rightarrow> bool \<Rightarrow> nat \<Rightarrow> nat option \<Rightarrow> efi_status \<Rightarrow> bool \<Rightarrow> 'e \<Rightarrow> 'h smi_state \<Rightarrow>
     (efi_status \<times> 'e \<times> 'h smi_state) option" where
  "SmiManage_loop invoke typed p Link Status SuccessReturn env s =
     (case Link of
        None \<Rightarrow> Some (if SuccessReturn then EFI_SUCCESS else Status, env, s)
      | Some h \<Rightarrow> Option.bind (handlers s h) (\<lambda>SmiHandler.
          (let (Status, env, s) = invoke (Handler SmiHandler) h env s
           in if Status = EFI_INTERRUPT_PENDING then
                (if typed then Some (EFI_INTERRUPT_PENDING, env, s)
                 else Option.bind (next_link s p h)
                   (\<lambda>l. SmiManage_loop invoke typed p l Status SuccessReturn env s))
              else if Status = EFI_SUCCESS then
                (if typed then Some (EFI_SUCCESS, env, s)
                 else Option.bind (next_link s p h)
                   (\<lambda>l. SmiManage_loop invoke typed p l Status True env s))
              else if Status = EFI_WARN_INTERRUPT_SOURCE_QUIESCED then
                Option.bind (next_link s p h)
                  (\<lambda>l. SmiManage_loop invoke typed p l Status True env s)
              else if Status = EFI_WARN_INTERRUPT_SOURCE_PENDING then
                Option.bind (next_link s p h)
                  (\<lambda>l. SmiManage_loop invoke typed p l Status SuccessReturn env s)
              else None)))"

definition first_link :: "smi_entry \<Rightarrow> nat option" where
  "first_link e = (case SmiHandlers e of [] \<Rightarrow> None | h # hs \<Rightarrow> Some h)"

definition SmiManage ::
  "('h, 'e) invoker \<Rightarrow> guid option \<Rightarrow> 'e \<Rightarrow> 'h smi_state \<Rightarrow>
     (efi_status \<times> 'e \<times> 'h smi_state) option" where
  "SmiManage invoke ty env s =
     (case ty of
        None \<Rightarrow> do {
          e \<leftarrow> entries s mRootSmiEntry;
          SmiManage_loop invoke False mRootSmiEntry (first_link e) EFI_NOT_FOUND False env s
        }
      | Some g \<Rightarrow> do {
          (entry, s) \<leftarrow> SmmCoreFindSmiEntry (\<lambda>_. True) g False s;
          case entry of
            None \<Rightarrow> Some (EFI_NOT_FOUND, env, s)
          | Some p \<Rightarrow> do {
              e \<leftarrow> entries s p;
              SmiManage_loop invoke True p (first_link e) EFI_NOT_FOUND False env s
            }
        })"

subsection \<open>SmiHandlerRegister, SmiHandlerUnRegister\<close>

text \<open>
  A NULL Handler is None; want is whether DispatchHandle is not NULL.  The result is the
  status, *DispatchHandle where it is written, and the registry.  CallerAddr, the return
  address kept for debugging, is left out.
\<close>

definition SmiHandlerRegister ::
  "(nat \<Rightarrow> bool) \<Rightarrow> 'h option \<Rightarrow> guid option \<Rightarrow> bool \<Rightarrow> 'h smi_state \<Rightarrow>
     (efi_status \<times> nat option \<times> 'h smi_state) option" where
  "SmiHandlerRegister oom fn ty want s =
     (case fn of
        None \<Rightarrow> Some (EFI_INVALID_PARAMETER, None, s)
      | Some code \<Rightarrow>
        if \<not> want then Some (EFI_INVALID_PARAMETER, None, s)
        else let (SmiHandler, s) = AllocatePool oom s
          in case SmiHandler of
               None \<Rightarrow> Some (EFI_OUT_OF_RESOURCES, None, s)
             | Some h \<Rightarrow> do {
                 let s = s\<lparr>handlers := (handlers s)(h \<mapsto> \<lparr>Handler = code, SmiEntry = None\<rparr>)\<rparr>;
                 (entry, s) \<leftarrow> (case ty of
                     None \<Rightarrow> Some (Some mRootSmiEntry, s)
                   | Some g \<Rightarrow> SmmCoreFindSmiEntry oom g True s);
                 case entry of
                   None \<Rightarrow> Some (EFI_OUT_OF_RESOURCES, None, s)
                 | Some p \<Rightarrow> do {
                     e \<leftarrow> entries s p;
                     Some (EFI_SUCCESS, Some h,
                       s\<lparr>handlers := (handlers s)(h \<mapsto> \<lparr>Handler = code, SmiEntry = Some p\<rparr>),
                         entries := (entries s)(p \<mapsto> e\<lparr>SmiHandlers := SmiHandlers e @ [h]\<rparr>)\<rparr>)
                   }
               })"

text \<open>
  The handle is None for NULL.  sig h tells whether the memory at an address h that holds no
  SMI_HANDLER, or no longer holds one, carries SMI_HANDLER_SIGNATURE: nothing clears the
  signature before FreePool, so a released handle may still pass the test.  Then the code
  unlinks and frees memory that is not its own, and the result is None.  A handler whose SmiEntry is NULL is in no ring here (its Link is zero):
  RemoveEntryList would follow a NULL pointer, so the result is None.  FreePool of the
  static mRootSmiEntry is None.
\<close>

definition SmiHandlerUnRegister ::
  "(nat \<Rightarrow> bool) \<Rightarrow> nat option \<Rightarrow> 'h smi_state \<Rightarrow> (efi_status \<times> 'h smi_state) option" where
  "SmiHandlerUnRegister sig DispatchHandle s =
     (case DispatchHandle of
        None \<Rightarrow> Some (EFI_INVALID_PARAMETER, s)
      | Some h \<Rightarrow>
        (case handlers s h of
           None \<Rightarrow> if sig h then None else Some (EFI_INVALID_PARAMETER, s)
         | Some SmiHandler \<Rightarrow> do {
             p \<leftarrow> SmiEntry SmiHandler;
             e \<leftarrow> entries s p;
             ASSERT (h \<in> set (SmiHandlers e));
             let e = e\<lparr>SmiHandlers := remove1 h (SmiHandlers e)\<rparr>;
             let s = s\<lparr>entries := (entries s)(p \<mapsto> e), handlers := (handlers s)(h := None)\<rparr>;
             if SmiHandlers e = [] then
               (if p = mRootSmiEntry then None
                else Some (EFI_SUCCESS, s\<lparr>mSmiEntryList := remove1 p (mSmiEntryList s),
                                        entries := (entries s)(p := None)\<rparr>))
             else Some (EFI_SUCCESS, s)
           }))"

subsection \<open>The registry as a map\<close>

text \<open>The handlers of a type (None: root), with their handles, in the order they are called.\<close>

definition handlers_at :: "'h smi_state \<Rightarrow> nat \<Rightarrow> (nat \<times> 'h) list" where
  "handlers_at s p = map (\<lambda>h. (h, Handler (the (handlers s h)))) (SmiHandlers (the (entries s p)))"

definition type_at :: "'h smi_state \<Rightarrow> nat \<Rightarrow> guid" where
  "type_at s p = HandlerType (the (entries s p))"

definition ring_at :: "'h smi_state \<Rightarrow> nat \<Rightarrow> nat list" where
  "ring_at s p = SmiHandlers (the (entries s p))"

definition entry_of :: "'h smi_state \<Rightarrow> guid option \<Rightarrow> nat option" where
  "entry_of s ty =
     (case ty of
        None \<Rightarrow> Some mRootSmiEntry
      | Some g \<Rightarrow> find (\<lambda>p. type_at s p = g) (mSmiEntryList s))"

definition registered :: "'h smi_state \<Rightarrow> guid option \<Rightarrow> (nat \<times> 'h) list" where
  "registered s ty = (case entry_of s ty of None \<Rightarrow> [] | Some p \<Rightarrow> handlers_at s p)"

definition live :: "'h smi_state \<Rightarrow> nat \<Rightarrow> bool" where
  "live s p \<longleftrightarrow> p = mRootSmiEntry \<or> p \<in> set (mSmiEntryList s)"

text \<open>
  The invariant, with a set of entries that may have no handler (the entry a registration has
  just created): the entries of the list are allocated, have different types and a handler;
  a handler is in the ring of the entry it names and in no other, once.
\<close>

definition entries_ok :: "nat set \<Rightarrow> 'h smi_state \<Rightarrow> bool" where
  "entries_ok P s \<longleftrightarrow>
     mRootSmiEntry \<notin> set (mSmiEntryList s) \<and> distinct (mSmiEntryList s) \<and>
     (\<forall>p. live s p \<longrightarrow> entries s p \<noteq> None \<and> p < fresh s) \<and>
     (\<forall>p \<in> set (mSmiEntryList s) - P. ring_at s p \<noteq> []) \<and>
     inj_on (type_at s) (set (mSmiEntryList s))"

definition handlers_ok :: "'h smi_state \<Rightarrow> bool" where
  "handlers_ok s \<longleftrightarrow>
     (\<forall>p. live s p \<longrightarrow> distinct (ring_at s p)) \<and>
     (\<forall>p h. live s p \<and> h \<in> set (ring_at s p) \<longrightarrow>
        (\<exists>x. handlers s h = Some x \<and> SmiEntry x = Some p)) \<and>
     (\<forall>h x. handlers s h = Some x \<longrightarrow> h < fresh s \<and>
        (\<forall>p. SmiEntry x = Some p \<longrightarrow> live s p \<and> h \<in> set (ring_at s p)))"

definition smi_inv :: "'h smi_state \<Rightarrow> bool" where
  "smi_inv s \<longleftrightarrow> entries_ok {} s \<and> handlers_ok s"

subsection \<open>Looking up an entry\<close>

lemma search_entry_find:
  "\<forall>p \<in> set ps. es p \<noteq> None \<Longrightarrow>
     search_entry es g ps = Some (find (\<lambda>p. HandlerType (the (es p)) = g) ps)"
  unfolding search_entry_def by (rule walk_find) auto

lemma search_entry_of:
  "entries_ok P s \<Longrightarrow> search_entry (entries s) g (mSmiEntryList s) = Some (entry_of s (Some g))"
  by (simp add: search_entry_find entries_ok_def live_def entry_of_def type_at_def)

lemma entry_of_live: "entry_of s ty = Some p \<Longrightarrow> live s p"
  by (auto simp: entry_of_def live_def find_Some_iff split: option.splits)

lemma entry_of_Some:
  assumes "entries_ok P s"
  shows "entry_of s (Some g) = Some p \<longleftrightarrow> p \<in> set (mSmiEntryList s) \<and> type_at s p = g"
  using assms by (simp add: entry_of_def find_unique entries_ok_def)

lemma entry_of_inj:
  assumes "entries_ok P s" "entry_of s ty = Some p" "entry_of s ty' = Some p"
  shows "ty = ty'"
proof (cases ty; cases ty')
  fix g g' assume "ty = Some g" "ty' = Some g'"
  then show ?thesis using assms entry_of_Some[OF assms(1)] by auto
next
  fix g assume t: "ty = None" "ty' = Some g"
  then have "p = mRootSmiEntry" using assms(2) by (simp add: entry_of_def)
  then show ?thesis using t assms entry_of_Some[OF assms(1), of g p] by (auto simp: entries_ok_def)
next
  fix g assume t: "ty = Some g" "ty' = None"
  then have "p = mRootSmiEntry" using assms(3) by (simp add: entry_of_def)
  then show ?thesis using t assms entry_of_Some[OF assms(1), of g p] by (auto simp: entries_ok_def)
qed simp

subsection \<open>The steps of a registration\<close>

lemma registered_cong:
  assumes "entry_of s' = entry_of s" "\<And>p. live s p \<Longrightarrow> handlers_at s' p = handlers_at s p"
  shows "registered s' = registered s"
  using assms by (auto simp: fun_eq_iff registered_def entry_of_live split: option.splits)

lemma ring_handler_old:
  assumes "handlers_ok s" "live s p" "h \<in> set (ring_at s p)"
  shows "h < fresh s" "handlers s h \<noteq> None" "SmiEntry (the (handlers s h)) = Some p"
  using assms unfolding handlers_ok_def by fastforce+

text \<open>The allocation of a handler that is in no ring yet.\<close>

lemma alloc_handler_ok:
  assumes inv: "smi_inv s"
    and s': "s' = s\<lparr>fresh := fresh s + 1,
      handlers := (handlers s)(fresh s \<mapsto> \<lparr>Handler = code, SmiEntry = None\<rparr>)\<rparr>"
  shows "smi_inv s'" "registered s' = registered s"
proof -
  have ok: "handlers_ok s" using inv by (simp add: smi_inv_def)
  have same: "live s' = live s" "ring_at s' = ring_at s" "type_at s' = type_at s"
    "mSmiEntryList s' = mSmiEntryList s" "entries s' = entries s" "fresh s' = fresh s + 1"
    by (auto simp: s' live_def ring_at_def type_at_def fun_eq_iff)
  have h: "handlers s' h = (if h = fresh s then Some \<lparr>Handler = code, SmiEntry = None\<rparr> else handlers s h)" for h
    by (simp add: s')
  have old: "h \<noteq> fresh s" if "live s p" "h \<in> set (ring_at s p)" for p h
    using ring_handler_old(1)[OF ok that] by simp
  have "entries_ok {} s'"
    using inv unfolding smi_inv_def entries_ok_def same by (auto simp: less_Suc_eq)
  moreover have "handlers_ok s'"
    using ok old unfolding handlers_ok_def same h by (auto simp: less_Suc_eq split: if_splits)
  ultimately show "smi_inv s'" by (simp add: smi_inv_def)
  show "registered s' = registered s"
    using old by (intro registered_cong)
      (auto simp: fun_eq_iff entry_of_def same h handlers_at_def simp flip: ring_at_def
        split: option.splits)
qed

text \<open>A new entry without handlers at the end of the entry list.\<close>

lemma new_entry_ok:
  assumes inv: "smi_inv s" and none: "entry_of s (Some g) = None"
    and s': "s' = s\<lparr>fresh := fresh s + 1,
      entries := (entries s)(fresh s \<mapsto> \<lparr>HandlerType = g, SmiHandlers = []\<rparr>),
      mSmiEntryList := mSmiEntryList s @ [fresh s]\<rparr>"
  shows "entries_ok {fresh s} s'" "handlers_ok s'" "registered s' = registered s"
    "entry_of s' (Some g) = Some (fresh s)"
proof -
  have ok: "handlers_ok s" and eok: "entries_ok {} s" using inv by (simp_all add: smi_inv_def)
  have lt: "p < fresh s" if "live s p" for p using eok that by (simp add: entries_ok_def)
  have nin: "fresh s \<notin> set (mSmiEntryList s)" "fresh s \<noteq> 0"
    using lt[of "fresh s"] lt[of 0] by (auto simp: live_def)
  have live: "live s' p \<longleftrightarrow> p = fresh s \<or> live s p" for p
    by (auto simp: s' live_def)
  have ring: "ring_at s' p = (if p = fresh s then [] else ring_at s p)"
    and ty: "type_at s' p = (if p = fresh s then g else type_at s p)" for p
    by (simp_all add: s' ring_at_def type_at_def)
  have ty_ne: "type_at s p \<noteq> g" if "p \<in> set (mSmiEntryList s)" for p
    using none that by (auto simp: entry_of_def find_None_iff)
  have inj: "inj_on (type_at s') (set (mSmiEntryList s'))"
  proof -
    have "inj_on (type_at s') (set (mSmiEntryList s))"
      using eok nin ty by (auto simp: entries_ok_def inj_on_def)
    moreover have "g \<notin> type_at s ` set (mSmiEntryList s)" using ty_ne by auto
    ultimately show ?thesis using nin ty ty_ne by (auto simp: s' inj_on_def)
  qed
  have fresh: "fresh s' = fresh s + 1" "handlers s' = handlers s" by (simp_all add: s')
  have es: "entries s' p \<noteq> None" if "live s' p" for p
    using eok that live[of p] by (auto simp: s' entries_ok_def)
  have lst: "mSmiEntryList s' = mSmiEntryList s @ [fresh s]" by (simp add: s')
  have nonempty: "ring_at s p \<noteq> []" if "p \<in> set (mSmiEntryList s)" for p
    using eok that by (simp add: entries_ok_def)
  have dist: "0 \<notin> set (mSmiEntryList s)" "distinct (mSmiEntryList s)"
    using eok by (simp_all add: entries_ok_def)
  show "entries_ok {fresh s} s'"
    using nin inj es dist nonempty lt by (auto simp: entries_ok_def lst fresh ring live less_Suc_eq)
  show "handlers_ok s'"
    using ok nin lt unfolding handlers_ok_def fresh live ring
    by (auto simp: less_Suc_eq split: if_splits) (metis less_irrefl)+
  show eq: "entry_of s' (Some g) = Some (fresh s)"
  proof -
    have "find (\<lambda>p. type_at s' p = g) (mSmiEntryList s) = None"
      using ty_ne nin ty by (auto simp: find_None_iff)
    then show ?thesis using ty by (simp add: entry_of_def lst find_append_list)
  qed
  have at: "handlers_at s' p = handlers_at s p" if "live s p" for p
    using lt[OF that] by (simp add: handlers_at_def s')
  have other: "entry_of s' t = entry_of s t" if "t \<noteq> Some g" for t
  proof (cases t)
    case (Some g')
    have "find (\<lambda>p. type_at s' p = g') (mSmiEntryList s) = find (\<lambda>p. type_at s p = g') (mSmiEntryList s)"
      using nin ty by (intro find_cong) auto
    with Some that show ?thesis
      using nin ty by (auto simp: entry_of_def lst find_append_list split: option.splits)
  qed (simp add: entry_of_def)
  show "registered s' = registered s"
  proof
    fix t show "registered s' t = registered s t"
    proof (cases "t = Some g")
      case True
      then show ?thesis using none eq by (simp add: registered_def handlers_at_def s')
    next
      case False
      then show ?thesis
        using other[OF False] at entry_of_live[of s t]
        by (auto simp: registered_def split: option.splits)
    qed
  qed
qed

text \<open>The insertion of a handler that is in no ring at the end of the ring of entry p.\<close>

lemma insert_handler_ok:
  assumes "entries_ok {p} s" "handlers_ok s" "live s p" "entries s p = Some e"
    "handlers s h = Some x" "SmiEntry x = None"
    and s': "s' = s\<lparr>handlers := (handlers s)(h \<mapsto> \<lparr>Handler = code, SmiEntry = Some p\<rparr>),
      entries := (entries s)(p \<mapsto> e\<lparr>SmiHandlers := SmiHandlers e @ [h]\<rparr>)\<rparr>"
  shows "smi_inv s'"
    "registered s' ty = (if entry_of s ty = Some p then registered s ty @ [(h, code)] else registered s ty)"
proof -
  have nin: "h \<notin> set (ring_at s q)" if "live s q" for q
    using ring_handler_old(3)[OF assms(2) that, of h] assms(5,6) by auto
  have live: "live s' = live s" by (auto simp: s' live_def fun_eq_iff)
  have ring: "ring_at s' q = (if q = p then ring_at s p @ [h] else ring_at s q)"
    and ty: "type_at s' q = type_at s q" for q
    using assms(4) by (auto simp: s' ring_at_def type_at_def)
  have simps: "mSmiEntryList s' = mSmiEntryList s" "fresh s' = fresh s"
    "entries s' q \<noteq> None \<longleftrightarrow> q = p \<or> entries s q \<noteq> None"
    "handlers s' k = (if k = h then Some \<lparr>Handler = code, SmiEntry = Some p\<rparr> else handlers s k)" for q k
    by (auto simp: s')
  have "entries_ok {} s'"
    using assms(1) unfolding entries_ok_def live simps
    by (auto simp: ring ty inj_on_def)
  moreover have "handlers_ok s'"
    using assms(2,3,5,6) nin unfolding handlers_ok_def live simps ring
    by (auto split: if_splits)
  ultimately show "smi_inv s'" by (simp add: smi_inv_def)
  have at: "handlers_at s' q = (if q = p then handlers_at s p @ [(h, code)] else handlers_at s q)"
    if "live s q" for q
    using nin[OF that] assms(3) by (auto simp: handlers_at_def ring simps simp flip: ring_at_def)
  have "entry_of s' ty = entry_of s ty"
    by (auto simp: entry_of_def simps \<open>\<And>q. type_at s' q = type_at s q\<close> split: option.splits)
  then show "registered s' ty = (if entry_of s ty = Some p then registered s ty @ [(h, code)] else registered s ty)"
    using at entry_of_live[of s ty] by (auto simp: registered_def split: option.splits)
qed

lemma registered_insert:
  assumes "entries_ok {p} s" "entry_of s ty = Some p"
    "\<And>t. r t = (if entry_of s t = Some p then registered s t @ [x] else registered s t)"
  shows "r = (registered s)(ty := registered s ty @ [x])"
proof
  fix t show "r t = ((registered s)(ty := registered s ty @ [x])) t"
  proof (cases "t = ty")
    case True
    then show ?thesis using assms(2) assms(3)[of t] by simp
  next
    case False
    then have "entry_of s t \<noteq> Some p" using entry_of_inj[OF assms(1,2), of t] by blast
    then show ?thesis using False assms(3)[of t] by simp
  qed
qed

subsection \<open>Registration\<close>

lemma entries_ok_mono: "entries_ok P s \<Longrightarrow> P \<subseteq> Q \<Longrightarrow> entries_ok Q s"
  by (auto simp: entries_ok_def)

lemma SmmCoreFindSmiEntry_found:
  assumes "entries_ok P s" "entry_of s (Some g) = Some p"
  shows "SmmCoreFindSmiEntry oom g c s = Some (Some p, s)"
  using assms by (simp add: SmmCoreFindSmiEntry_def search_entry_of)

lemma SmmCoreFindSmiEntry_absent:
  assumes "entries_ok P s" "entry_of s (Some g) = None"
  shows "SmmCoreFindSmiEntry oom g False s = Some (None, s)"
    "SmmCoreFindSmiEntry oom g True s = Some
      (if oom (fresh s) then (None, s\<lparr>fresh := fresh s + 1\<rparr>)
       else (Some (fresh s), s\<lparr>fresh := fresh s + 1,
         entries := (entries s)(fresh s \<mapsto> \<lparr>HandlerType = g, SmiHandlers = []\<rparr>),
         mSmiEntryList := mSmiEntryList s @ [fresh s]\<rparr>))"
  using assms by (simp_all add: SmmCoreFindSmiEntry_def search_entry_of AllocatePool_def)

lemma fresh_only:
  "smi_inv s \<Longrightarrow> smi_inv (s\<lparr>fresh := fresh s + n\<rparr>) \<and> registered (s\<lparr>fresh := fresh s + n\<rparr>) = registered s"
proof (intro conjI)
  assume inv: "smi_inv s"
  have same: "live (s\<lparr>fresh := fresh s + n\<rparr>) = live s" "ring_at (s\<lparr>fresh := fresh s + n\<rparr>) = ring_at s"
    "type_at (s\<lparr>fresh := fresh s + n\<rparr>) = type_at s"
    by (auto simp: live_def ring_at_def type_at_def fun_eq_iff)
  show "smi_inv (s\<lparr>fresh := fresh s + n\<rparr>)"
    using inv unfolding smi_inv_def entries_ok_def handlers_ok_def same
    by (auto simp: trans_less_add1)
  show "registered (s\<lparr>fresh := fresh s + n\<rparr>) = registered s"
    by (rule registered_cong) (auto simp: fun_eq_iff entry_of_def same handlers_at_def split: option.splits)
qed

text \<open>
  A registration with a handler and a DispatchHandle: it succeeds and appends the handler to
  those of its type, or a memory request fails and the registry stays what it was.
\<close>

lemma SmiHandlerRegister_cases:
  assumes inv: "smi_inv s"
  obtains (success) s' where
      "SmiHandlerRegister oom (Some code) ty True s = Some (EFI_SUCCESS, Some (fresh s), s')"
      "smi_inv s'" "registered s' = (registered s)(ty := registered s ty @ [(fresh s, code)])"
      "\<not> oom (fresh s)" "ty \<noteq> None \<and> entry_of s ty = None \<longrightarrow> \<not> oom (fresh s + 1)"
  | (failure) s' where
      "SmiHandlerRegister oom (Some code) ty True s = Some (EFI_OUT_OF_RESOURCES, None, s')"
      "smi_inv s'" "registered s' = registered s"
      "oom (fresh s) \<or> ty \<noteq> None \<and> entry_of s ty = None \<and> oom (fresh s + 1)"
      "\<not> oom (fresh s) \<longrightarrow> handlers s' (fresh s) = Some \<lparr>Handler = code, SmiEntry = None\<rparr>"
proof (cases "oom (fresh s)")
  case True
  then have "SmiHandlerRegister oom (Some code) ty True s =
      Some (EFI_OUT_OF_RESOURCES, None, s\<lparr>fresh := fresh s + 1\<rparr>)"
    by (simp add: SmiHandlerRegister_def AllocatePool_def)
  then show ?thesis using True fresh_only[OF inv, of 1] failure by blast
next
  case False
  let ?h = "fresh s"
  let ?x = "\<lparr>Handler = code, SmiEntry = None\<rparr>"
  let ?s1 = "s\<lparr>fresh := ?h + 1, handlers := (handlers s)(?h \<mapsto> ?x)\<rparr>"
  note ok1 = alloc_handler_ok[OF inv refl, of code]
  have eok1: "entries_ok {} ?s1" "handlers_ok ?s1" using ok1(1) by (simp_all add: smi_inv_def)
  have e1: "entry_of ?s1 t = entry_of s t" for t
    by (simp add: entry_of_def type_at_def split: option.splits)
  have ins: "smi_inv s'" "registered s' = (registered s2)(ty := registered s2 ty @ [(?h, code)])"
    if "entries_ok {p} s2" "handlers_ok s2" "entry_of s2 ty = Some p" "entries s2 p = Some e"
      "handlers s2 ?h = Some ?x"
      "s' = s2\<lparr>handlers := (handlers s2)(?h \<mapsto> \<lparr>Handler = code, SmiEntry = Some p\<rparr>),
        entries := (entries s2)(p \<mapsto> e\<lparr>SmiHandlers := SmiHandlers e @ [?h]\<rparr>)\<rparr>"
    for s2 p e s'
    using insert_handler_ok[OF that(1,2) entry_of_live[OF that(3)] that(4,5) _ that(6)]
      registered_insert[OF that(1,3), of "registered s'" "(?h, code)"] by auto
  show ?thesis
  proof (cases "entry_of s ty")
    case (Some p)
    have p: "entry_of ?s1 ty = Some p" using Some e1 by simp
    obtain e where e: "entries ?s1 p = Some e"
      using eok1(1) entry_of_live[OF p] unfolding entries_ok_def by fastforce
    have "SmiHandlerRegister oom (Some code) ty True s = Some (EFI_SUCCESS, Some ?h,
        ?s1\<lparr>handlers := (handlers ?s1)(?h \<mapsto> \<lparr>Handler = code, SmiEntry = Some p\<rparr>),
          entries := (entries ?s1)(p \<mapsto> e\<lparr>SmiHandlers := SmiHandlers e @ [?h]\<rparr>)\<rparr>)"
      using False e SmmCoreFindSmiEntry_found[OF eok1(1), of _ p oom True] p
      by (cases ty) (simp_all add: SmiHandlerRegister_def AllocatePool_def entry_of_def[of _ None])
    from success[OF this] ins[OF entries_ok_mono[OF eok1(1)] eok1(2) p e _ refl] ok1(2) False Some
    show ?thesis by simp
  next
    case None
    then obtain g where g: "ty = Some g" by (cases ty) (auto simp: entry_of_def)
    note abs = SmmCoreFindSmiEntry_absent(2)[OF eok1(1), of g oom]
    show ?thesis
    proof (cases "oom (?h + 1)")
      case True
      let ?s' = "s\<lparr>fresh := ?h + 2, handlers := (handlers s)(?h \<mapsto> ?x)\<rparr>"
      have "SmiHandlerRegister oom (Some code) ty True s = Some (EFI_OUT_OF_RESOURCES, None, ?s')"
        using False True abs None e1 g by (simp add: SmiHandlerRegister_def AllocatePool_def)
      moreover have eq: "?s' = ?s1\<lparr>fresh := fresh ?s1 + 1\<rparr>" by simp
      moreover have "smi_inv ?s'" "registered ?s' = registered s"
        using fresh_only[OF ok1(1), of 1] ok1(2) unfolding eq by simp_all
      ultimately show ?thesis
        using failure[of ?s'] None True g by simp
    next
      case nf: False
      let ?s2 = "?s1\<lparr>fresh := fresh ?s1 + 1,
        entries := (entries ?s1)(fresh ?s1 \<mapsto> \<lparr>HandlerType = g, SmiHandlers = []\<rparr>),
        mSmiEntryList := mSmiEntryList ?s1 @ [fresh ?s1]\<rparr>"
      have ng: "entry_of ?s1 (Some g) = None" using None e1 g by simp
      note new = new_entry_ok[OF ok1(1) ng refl]
      let ?e = "\<lparr>HandlerType = g, SmiHandlers = []\<rparr>"
      have "SmiHandlerRegister oom (Some code) ty True s = Some (EFI_SUCCESS, Some ?h,
          ?s2\<lparr>handlers := (handlers ?s2)(?h \<mapsto> \<lparr>Handler = code, SmiEntry = Some (fresh ?s1)\<rparr>),
            entries := (entries ?s2)(fresh ?s1 \<mapsto> ?e\<lparr>SmiHandlers := SmiHandlers ?e @ [?h]\<rparr>)\<rparr>)"
        using False nf abs ng g by (simp add: SmiHandlerRegister_def AllocatePool_def)
      from success[OF this] ins[OF new(1,2), of ?e, OF _ _ _ refl] new(3,4) ok1(2) False nf g
      show ?thesis by simp
    qed
  qed
qed

subsection \<open>Unregistration\<close>

lemma remove_handler_ok:
  assumes inv: "smi_inv s" and x: "handlers s h = Some x" "SmiEntry x = Some p"
    and e: "entries s p = Some e"
    and s': "s' = s\<lparr>entries := (entries s)(p \<mapsto> e\<lparr>SmiHandlers := remove1 h (SmiHandlers e)\<rparr>),
      handlers := (handlers s)(h := None)\<rparr>"
  shows "entries_ok {p} s'" "handlers_ok s'" "live s p" "h \<in> set (SmiHandlers e)"
    "registered s' ty = filter (\<lambda>(k, _). k \<noteq> h) (registered s ty)"
proof -
  have ok: "handlers_ok s" and eok: "entries_ok {} s" using inv by (simp_all add: smi_inv_def)
  have h: "live s p \<and> h \<in> set (ring_at s p)" using ok x unfolding handlers_ok_def by blast
  then show "live s p" "h \<in> set (SmiHandlers e)" using e by (simp_all add: ring_at_def)
  have other: "h \<notin> set (ring_at s q)" if "live s q" "q \<noteq> p" for q
    using ring_handler_old(3)[OF ok that(1), of h] x that(2) by auto
  have live: "live s' = live s" by (auto simp: s' live_def fun_eq_iff)
  have ring: "ring_at s' q = (if q = p then remove1 h (ring_at s p) else ring_at s q)"
    and ty: "type_at s' q = type_at s q" for q
    using e by (auto simp: s' ring_at_def type_at_def)
  have simps: "mSmiEntryList s' = mSmiEntryList s" "fresh s' = fresh s"
    "entries s' q \<noteq> None \<longleftrightarrow> q = p \<or> entries s q \<noteq> None"
    "handlers s' k = (if k = h then None else handlers s k)" for q k
    by (auto simp: s')
  show "entries_ok {p} s'"
    using eok unfolding entries_ok_def live simps by (auto simp: ring ty inj_on_def)
  have dist: "distinct (ring_at s q)" if "live s q" for q
    using ok that by (simp add: handlers_ok_def)
  show "handlers_ok s'"
    using ok other dist unfolding handlers_ok_def live simps ring
    by (auto simp: set_remove1_eq split: if_splits)
  have rem: "remove1 h xs = filter (\<lambda>k. k \<noteq> h) xs" if "distinct xs" for xs :: "nat list"
    using that by (rule distinct_remove1_removeAll[THEN trans]) (simp add: removeAll_filter_not_eq neq_commute)
  have at: "handlers_at s' q = filter (\<lambda>(k, _). k \<noteq> h) (handlers_at s q)" if "live s q" for q
  proof -
    have "ring_at s' q = filter (\<lambda>k. k \<noteq> h) (ring_at s q)"
      using other[OF that] rem[OF dist[OF that]] by (metis ring remove1_idem)
    then show ?thesis
      by (auto simp: handlers_at_def simps filter_map o_def simp flip: ring_at_def intro!: map_cong)
  qed
  have "entry_of s' ty = entry_of s ty"
    by (auto simp: entry_of_def simps \<open>\<And>q. type_at s' q = type_at s q\<close> split: option.splits)
  then show "registered s' ty = filter (\<lambda>(k, _). k \<noteq> h) (registered s ty)"
    using at entry_of_live[of s ty] by (auto simp: registered_def split: option.splits)
qed

text \<open>The removal of an entry that has no handler any more.\<close>

lemma drop_entry_ok:
  assumes "entries_ok {p} s" "handlers_ok s" "p \<in> set (mSmiEntryList s)" "ring_at s p = []"
    and s': "s' = s\<lparr>mSmiEntryList := remove1 p (mSmiEntryList s), entries := (entries s)(p := None)\<rparr>"
  shows "smi_inv s'" "registered s' = registered s"
proof -
  have p0: "p \<noteq> 0" "distinct (mSmiEntryList s)" using assms(1,3) unfolding entries_ok_def by metis+
  have lst: "set (mSmiEntryList s') = set (mSmiEntryList s) - {p}"
    using p0 by (simp add: s')
  have live: "live s' q \<longleftrightarrow> live s q \<and> q \<noteq> p" for q
    using p0 lst by (auto simp: live_def)
  have at: "ring_at s' q = ring_at s q" "type_at s' q = type_at s q" "entries s' q = entries s q"
    "handlers_at s' q = handlers_at s q" if "q \<noteq> p" for q
    using that by (auto simp: s' ring_at_def type_at_def handlers_at_def)
  have simps: "fresh s' = fresh s" "handlers s' = handlers s" by (simp_all add: s')
  have "distinct (mSmiEntryList s')" using p0(2) by (simp add: s')
  then have "entries_ok {} s'"
    using assms(1) unfolding entries_ok_def live lst simps
    by (auto simp: at inj_on_def)
  moreover have "handlers_ok s'"
  proof -
    have ne: "q \<noteq> p" if "handlers s h = Some x" "SmiEntry x = Some q" for h x q
      using assms(2,4) that by (fastforce simp: handlers_ok_def)
    show ?thesis
      using assms(2) unfolding handlers_ok_def live simps by (auto simp: at dest: ne) (metis at(1) ne)+
  qed
  ultimately show "smi_inv s'" by (simp add: smi_inv_def)
  note uni = entry_of_Some[OF assms(1)] entry_of_Some[OF \<open>entries_ok {} s'\<close>]
  show "registered s' = registered s"
  proof
    fix ty show "registered s' ty = registered s ty"
    proof (cases ty)
      case None
      then show ?thesis using p0 at(4)[of 0] by (simp add: registered_def entry_of_def)
    next
      case (Some g)
      have *: "entry_of s' (Some g) = Some q \<longleftrightarrow> entry_of s (Some g) = Some q \<and> q \<noteq> p" for q
        unfolding uni lst using at(2) by auto
      show ?thesis
      proof (cases "entry_of s (Some g)")
        case None
        then have "entry_of s' (Some g) = None" using * by (metis option.exhaust option.simps(3))
        then show ?thesis using None Some by (simp add: registered_def)
      next
        case a: (Some a)
        show ?thesis
        proof (cases "a = p")
          case True
          then have "entry_of s' (Some g) = None" using * a by (metis option.exhaust option.inject)
          then show ?thesis
            using a True Some assms(4) by (simp add: registered_def handlers_at_def flip: ring_at_def)
        next
          case False
          then have "entry_of s' (Some g) = Some a" using *[of a] a by simp
          then show ?thesis using a False Some at(4) by (simp add: registered_def)
        qed
      qed
    qed
  qed
qed

lemma SmiHandlerUnRegister_cases:
  assumes inv: "smi_inv s" and x: "handlers s h = Some x" "SmiEntry x = Some p"
  obtains (root) "p = mRootSmiEntry" "ring_at s p = [h]" "SmiHandlerUnRegister sig (Some h) s = None"
  | (success) s' where "\<not> (p = mRootSmiEntry \<and> ring_at s p = [h])"
      "SmiHandlerUnRegister sig (Some h) s = Some (EFI_SUCCESS, s')" "smi_inv s'"
      "\<And>ty. registered s' ty = filter (\<lambda>(k, _). k \<noteq> h) (registered s ty)" "handlers s' h = None"
proof -
  have "live s p" using inv x by (auto simp: smi_inv_def handlers_ok_def)
  then obtain e where e: "entries s p = Some e"
    using inv by (fastforce simp: smi_inv_def entries_ok_def)
  let ?s1 = "s\<lparr>entries := (entries s)(p \<mapsto> e\<lparr>SmiHandlers := remove1 h (SmiHandlers e)\<rparr>),
      handlers := (handlers s)(h := None)\<rparr>"
  note rem = remove_handler_ok[OF inv x e refl]
  have ring: "ring_at s p = SmiHandlers e" "ring_at ?s1 p = remove1 h (SmiHandlers e)"
    using e by (simp_all add: ring_at_def)
  have un: "SmiHandlerUnRegister sig (Some h) s =
      (if remove1 h (SmiHandlers e) = [] then
         (if p = mRootSmiEntry then None
          else Some (EFI_SUCCESS, ?s1\<lparr>mSmiEntryList := remove1 p (mSmiEntryList s),
                                  entries := (entries ?s1)(p := None)\<rparr>))
       else Some (EFI_SUCCESS, ?s1))"
    using x e rem(4) by (simp add: SmiHandlerUnRegister_def)
  show ?thesis
  proof (cases "remove1 h (SmiHandlers e) = []")
    case False
    have "entries_ok {} ?s1" using rem(1) False ring(2) by (auto simp: entries_ok_def)
    then have "smi_inv ?s1" using rem(2) by (simp add: smi_inv_def)
    moreover have "SmiHandlerUnRegister sig (Some h) s = Some (EFI_SUCCESS, ?s1)"
      using un False by simp
    moreover have "ring_at s p \<noteq> [h]" using False ring by auto
    ultimately show ?thesis using success[of ?s1] rem(5) by simp
  next
    case True
    then have single: "SmiHandlers e = [h]" using rem(4) by (cases "SmiHandlers e") (auto split: if_splits)
    show ?thesis
    proof (cases "p = mRootSmiEntry")
      case True
      then show ?thesis using root un single ring by simp
    next
      case False
      then have p: "p \<in> set (mSmiEntryList ?s1)" using rem(3) by (simp add: live_def)
      let ?s2 = "?s1\<lparr>mSmiEntryList := remove1 p (mSmiEntryList ?s1), entries := (entries ?s1)(p := None)\<rparr>"
      have "ring_at ?s1 p = []" using ring single by simp
      note drop = drop_entry_ok[OF rem(1,2) p this refl]
      have "SmiHandlerUnRegister sig (Some h) s = Some (EFI_SUCCESS, ?s2)"
        using un single False by simp
      then show ?thesis using success[of ?s2] drop rem(5) False by simp
    qed
  qed
qed

subsection \<open>Dispatch to handlers that leave the handlers of the type alone\<close>

definition smi_statuses :: "efi_status set" where
  "smi_statuses = {EFI_INTERRUPT_PENDING, EFI_SUCCESS, EFI_WARN_INTERRUPT_SOURCE_QUIESCED,
    EFI_WARN_INTERRUPT_SOURCE_PENDING}"

text \<open>The registry may change, but not the handlers of the type ty.\<close>

definition kept :: "guid option \<Rightarrow> 'h smi_state \<Rightarrow> 'h smi_state \<Rightarrow> bool" where
  "kept ty s s' \<longleftrightarrow> smi_inv s' \<and> registered s' ty = registered s ty \<and> entry_of s' ty = entry_of s ty"

text \<open>The handlers hs of the type answer with one of the four statuses, and whatever else they
  do to the registry they keep the handlers of the type.  This says something only of these
  handlers, in a consistent registry where they are the handlers of the type.\<close>

definition gentle :: "('h, 'e) invoker \<Rightarrow> guid option \<Rightarrow> (nat \<times> 'h) list \<Rightarrow> bool" where
  "gentle invoke ty hs \<longleftrightarrow> (\<forall>code h env s. smi_inv s \<and> registered s ty = hs \<and> (h, code) \<in> set hs \<longrightarrow>
     fst (invoke code h env s) \<in> smi_statuses \<and> kept ty s (snd (snd (invoke code h env s))))"

lemma gentleD:
  assumes "gentle invoke ty (registered s ty)" "smi_inv s" "(h, code) \<in> set (registered s ty)"
    "invoke code h env s = (st, env', s')"
  shows "st \<in> smi_statuses" "kept ty s s'"
  using assms unfolding gentle_def by (metis fst_conv snd_conv)+

text \<open>The handlers that are served, in order, and what they answer: for a typed interrupt
  the first EFI_SUCCESS or EFI_INTERRUPT_PENDING is the last.\<close>

fun served ::
  "('h, 'e) invoker \<Rightarrow> bool \<Rightarrow> (nat \<times> 'h) list \<Rightarrow> 'e \<Rightarrow> 'h smi_state \<Rightarrow>
     efi_status list \<times> 'e \<times> 'h smi_state" where
  "served invoke typed [] env s = ([], env, s)"
| "served invoke typed ((h, code) # hs) env s =
     (let (st, env, s) = invoke code h env s
      in if typed \<and> (st = EFI_SUCCESS \<or> st = EFI_INTERRUPT_PENDING) then ([st], env, s)
         else let (sts, env, s) = served invoke typed hs env s in (st # sts, env, s))"

text \<open>The status of SmiManage, from what the served handlers answered.\<close>

definition smi_result :: "bool \<Rightarrow> efi_status list \<Rightarrow> efi_status" where
  "smi_result typed sts =
     (if sts = [] then EFI_NOT_FOUND
      else if typed \<and> last sts = EFI_INTERRUPT_PENDING then EFI_INTERRUPT_PENDING
      else if EFI_SUCCESS \<in> set sts \<or> EFI_WARN_INTERRUPT_SOURCE_QUIESCED \<in> set sts then EFI_SUCCESS
      else last sts)"

text \<open>The loop from any element of the ring on.\<close>

definition smi_result_from :: "bool \<Rightarrow> efi_status \<Rightarrow> bool \<Rightarrow> efi_status list \<Rightarrow> efi_status" where
  "smi_result_from typed st succ sts =
     (if sts \<noteq> [] \<and> typed \<and> last sts = EFI_INTERRUPT_PENDING then EFI_INTERRUPT_PENDING
      else if succ \<or> EFI_SUCCESS \<in> set sts \<or> EFI_WARN_INTERRUPT_SOURCE_QUIESCED \<in> set sts
      then EFI_SUCCESS
      else if sts = [] then st else last sts)"

lemma smi_result_from_Cons:
  assumes "st \<in> smi_statuses" "\<not> (typed \<and> (st = EFI_SUCCESS \<or> st = EFI_INTERRUPT_PENDING))"
  shows "smi_result_from typed st0 succ (st # sts) =
    smi_result_from typed st
      (succ \<or> st = EFI_SUCCESS \<or> st = EFI_WARN_INTERRUPT_SOURCE_QUIESCED) sts"
  using assms by (auto simp: smi_result_from_def smi_statuses_def)

text \<open>The link of the first of some handlers.\<close>

definition link_of :: "(nat \<times> 'h) list \<Rightarrow> nat option" where
  "link_of hs = (case hs of [] \<Rightarrow> None | x # _ \<Rightarrow> Some (fst x))"

lemma registered_handler:
  assumes "smi_inv s" "(h, code) \<in> set (registered s ty)"
  obtains x p where "handlers s h = Some x" "Handler x = code" "entry_of s ty = Some p"
    "SmiEntry x = Some p"
proof -
  have ok: "handlers_ok s" using assms(1) by (simp add: smi_inv_def)
  obtain p where p: "entry_of s ty = Some p" "(h, code) \<in> set (handlers_at s p)"
    using assms(2) by (cases "entry_of s ty") (auto simp: registered_def)
  then have "h \<in> set (ring_at s p)" "Handler (the (handlers s h)) = code"
    by (auto simp: handlers_at_def ring_at_def)
  with that p(1) ring_handler_old[OF ok entry_of_live[OF p(1)]] show ?thesis by fastforce
qed

lemma registered_next:
  assumes "smi_inv s" "entry_of s ty = Some p" "registered s ty = ps @ (h, code) # qs"
  shows "next_link s p h = Some (link_of qs)"
proof -
  obtain x where x: "handlers s h = Some x"
    by (rule registered_handler[OF assms(1), of h code ty]) (use assms(3) in auto)
  have live: "live s p" by (rule entry_of_live[OF assms(2)])
  then obtain e where e: "entries s p = Some e"
    using assms(1) by (fastforce simp: smi_inv_def entries_ok_def)
  have "map fst (handlers_at s p) = map fst ps @ h # map fst qs"
    using assms(2,3) by (simp add: registered_def)
  then have ring: "SmiHandlers e = map fst ps @ h # map fst qs"
    using e by (simp add: handlers_at_def o_def)
  moreover have "distinct (SmiHandlers e)"
    using assms(1) live e by (auto simp: smi_inv_def handlers_ok_def ring_at_def)
  ultimately show ?thesis
    using x e forward_link_split[of "map fst ps" h "map fst qs"]
    by (cases qs) (simp_all add: next_link_def link_of_def)
qed

lemma SmiManage_loop_ring:
  assumes "gentle invoke ty (registered s ty)" "smi_inv s" "entry_of s ty = Some p"
    "registered s ty = ps @ qs"
  shows "SmiManage_loop invoke typed p (link_of qs) st0 succ env s =
      (let (sts, env', s') = served invoke typed qs env s
       in Some (smi_result_from typed st0 succ sts, env', s')) \<and>
    kept ty s (snd (snd (served invoke typed qs env s)))"
  using assms
proof (induction qs arbitrary: ps st0 succ env s)
  case Nil
  then show ?case by (simp add: SmiManage_loop.simps smi_result_from_def link_of_def kept_def)
next
  case (Cons q qs)
  obtain h code where hq: "q = (h, code)" by fastforce
  have mem: "(h, code) \<in> set (registered s ty)" using Cons.prems(4) hq by simp
  obtain x where x: "handlers s h = Some x" "Handler x = code"
    by (rule registered_handler[OF Cons.prems(2) mem])
  obtain st1 env1 s1 where inv: "invoke code h env s = (st1, env1, s1)"
    by (cases "invoke code h env s") auto
  note st1 = gentleD(1)[OF Cons.prems(1,2) mem inv] and kept = gentleD(2)[OF Cons.prems(1,2) mem inv]
  have s1: "smi_inv s1" "entry_of s1 ty = Some p" "registered s1 ty = ps @ (h, code) # qs"
    using kept Cons.prems hq by (simp_all add: kept_def)
  note nxt = registered_next[OF s1]
  have link: "link_of (q # qs) = Some h" by (simp add: link_of_def hq)
  show ?case
  proof (cases "typed \<and> (st1 = EFI_SUCCESS \<or> st1 = EFI_INTERRUPT_PENDING)")
    case True
    then show ?thesis
      unfolding link using kept
      by (subst SmiManage_loop.simps) (auto simp: x inv hq smi_result_from_def)
  next
    case False
    have loop: "SmiManage_loop invoke typed p (Some h) st0 succ env s =
        SmiManage_loop invoke typed p (link_of qs) st1
          (succ \<or> st1 = EFI_SUCCESS \<or> st1 = EFI_WARN_INTERRUPT_SOURCE_QUIESCED) env1 s1"
      using False st1 by (subst SmiManage_loop.simps) (auto simp: x inv nxt smi_statuses_def)
    have ring: "registered s1 ty = (ps @ [q]) @ qs" using s1(3) hq by simp
    have "gentle invoke ty (registered s1 ty)"
      using Cons.prems(1) kept by (simp add: kept_def)
    note IH = Cons.IH[OF this s1(1,2) ring, of st1 _ env1]
    obtain sts env2 s2 where sv: "served invoke typed qs env1 s1 = (sts, env2, s2)"
      by (cases "served invoke typed qs env1 s1") auto
    have "kept ty s s2" using IH kept sv by (simp add: kept_def)
    then show ?thesis
      unfolding link loop
      using IH False smi_result_from_Cons[OF st1 False] by (auto simp: hq inv sv)
  qed
qed

lemma SmiManage_served:
  assumes inv: "smi_inv s" and g: "gentle invoke ty (registered s ty)"
  shows "SmiManage invoke ty env s =
      (let (sts, env', s') = served invoke (ty \<noteq> None) (registered s ty) env s
       in Some (smi_result (ty \<noteq> None) sts, env', s')) \<and>
    kept ty s (snd (snd (served invoke (ty \<noteq> None) (registered s ty) env s)))"
proof -
  have eok: "entries_ok {} s" using inv by (simp add: smi_inv_def)
  have res: "smi_result_from typed EFI_NOT_FOUND False sts = smi_result typed sts" for typed sts
    by (auto simp: smi_result_from_def smi_result_def)
  show ?thesis
  proof (cases "entry_of s ty")
    case None
    then obtain t where "ty = Some t" by (cases ty) (auto simp: entry_of_def)
    then show ?thesis
      using None inv SmmCoreFindSmiEntry_absent(1)[OF eok, of t]
      by (simp add: SmiManage_def registered_def smi_result_def kept_def)
  next
    case (Some p)
    obtain e where e: "entries s p = Some e"
      using eok entry_of_live[OF Some] by (fastforce simp: entries_ok_def)
    have "first_link e = link_of (registered s ty)"
      using Some e by (cases "SmiHandlers e")
        (simp_all add: registered_def handlers_at_def first_link_def link_of_def)
    then show ?thesis
      using Some e SmiManage_loop_ring[OF g inv Some, of "[]" _ "ty \<noteq> None" EFI_NOT_FOUND False env]
        SmmCoreFindSmiEntry_found[OF eok, of _ p]
      by (cases ty) (simp_all add: SmiManage_def entry_of_def[of _ None] res)
  qed
qed

subsection \<open>Handlers that register and unregister\<close>

lemma SmiHandlerRegister_frame:
  "SmiHandlerRegister oom fn ty want s = Some (st, d, s') \<Longrightarrow> k \<noteq> fresh s \<Longrightarrow> handlers s' k = handlers s k"
  by (auto simp: SmiHandlerRegister_def SmmCoreFindSmiEntry_def AllocatePool_def Let_def
      split: option.splits if_splits bind_splits)

lemma SmiHandlerUnRegister_frame:
  "SmiHandlerUnRegister sig (Some h) s = Some (st, s') \<Longrightarrow> k \<noteq> h \<Longrightarrow> handlers s' k = handlers s k"
  by (auto simp: SmiHandlerUnRegister_def Let_def split: option.splits if_splits bind_splits)

text \<open>A call that keeps what is registered for the type, and the entry of one of its handlers.\<close>

lemma kept_by_handler:
  assumes "smi_inv s" "smi_inv s'" "(h, code) \<in> set (registered s ty)"
    "registered s' ty = registered s ty" "handlers s' h = handlers s h"
  shows "kept ty s s'"
proof -
  obtain x p where x: "handlers s h = Some x" "entry_of s ty = Some p" "SmiEntry x = Some p"
    using registered_handler[OF assms(1,3)] by metis
  obtain x' p' where x': "handlers s' h = Some x'" "entry_of s' ty = Some p'" "SmiEntry x' = Some p'"
    using registered_handler[OF assms(2), of h code ty] assms(3,4) by metis
  show ?thesis using x x' assms(2,4,5) by (simp add: kept_def)
qed

lemma kept_refl: "smi_inv s \<Longrightarrow> kept ty s s"
  by (simp add: kept_def)

lemma kept_trans: "kept ty s s1 \<Longrightarrow> kept ty s1 s2 \<Longrightarrow> kept ty s s2"
  by (simp add: kept_def)

text \<open>A handler may register handlers for other types and unregister handlers of other types.\<close>

lemma SmiHandlerRegister_kept:
  assumes inv: "smi_inv s" and h: "(h, code) \<in> set (registered s ty)" and ne: "ty' \<noteq> ty"
  obtains st d s' where "SmiHandlerRegister oom fn ty' want s = Some (st, d, s')" "kept ty s s'"
proof (cases "fn = None \<or> \<not> want")
  case True
  then have "SmiHandlerRegister oom fn ty' want s = Some (EFI_INVALID_PARAMETER, None, s)"
    by (cases fn) (auto simp: SmiHandlerRegister_def)
  then show ?thesis using that kept_refl[OF inv] by blast
next
  case False
  then obtain c where fn: "fn = Some c" "want" by auto
  have lt: "h \<noteq> fresh s"
    by (rule registered_handler[OF inv h]) (use inv in \<open>auto simp: smi_inv_def handlers_ok_def\<close>)
  show ?thesis
  proof (rule SmiHandlerRegister_cases[OF inv, of oom c ty'])
    fix s'
    assume r: "SmiHandlerRegister oom (Some c) ty' True s = Some (EFI_SUCCESS, Some (fresh s), s')"
      "smi_inv s'" "registered s' = (registered s)(ty' := registered s ty' @ [(fresh s, c)])"
    have "kept ty s s'"
      using kept_by_handler[OF inv r(2) h _ SmiHandlerRegister_frame[OF r(1) lt]] r(3) ne by simp
    then show ?thesis using that r(1) fn by simp
  next
    fix s'
    assume r: "SmiHandlerRegister oom (Some c) ty' True s = Some (EFI_OUT_OF_RESOURCES, None, s')"
      "smi_inv s'" "registered s' = registered s"
    have "kept ty s s'"
      using kept_by_handler[OF inv r(2) h _ SmiHandlerRegister_frame[OF r(1) lt]] r(3) by simp
    then show ?thesis using that r(1) fn by simp
  qed
qed

lemma SmiHandlerUnRegister_kept:
  assumes inv: "smi_inv s" and h: "(h, code) \<in> set (registered s ty)"
    and k: "k \<notin> fst ` set (registered s ty)"
    and un: "SmiHandlerUnRegister sig (Some k) s = Some (st, s')"
  shows "kept ty s s'"
proof (cases "handlers s k")
  case None
  then show ?thesis using un kept_refl[OF inv] by (auto simp: SmiHandlerUnRegister_def split: if_splits)
next
  case (Some x)
  obtain p where p: "SmiEntry x = Some p"
    using un Some by (cases "SmiEntry x") (auto simp: SmiHandlerUnRegister_def)
  have same: "filter (\<lambda>(j, _). j \<noteq> k) (registered s ty) = registered s ty"
    using k by (force intro: filter_True)
  have "h \<noteq> k" using h k by force
  note fr = SmiHandlerUnRegister_frame[OF un this]
  show ?thesis
    by (rule SmiHandlerUnRegister_cases[OF inv Some p, where sig = sig])
      (use un kept_by_handler[OF inv _ h _ fr] same in auto)
qed

subsection \<open>Properties\<close>

text \<open>The registry at load time.\<close>

definition smi_init :: "'h smi_state" where
  "smi_init = \<lparr>mSmiEntryList = [], entries = [mRootSmiEntry \<mapsto> \<lparr>HandlerType = replicate 16 0, SmiHandlers = []\<rparr>],
     handlers = Map.empty, fresh = 1\<rparr>"

lemma smi_init_ok: "smi_inv smi_init" "registered smi_init ty = []"
  by (auto simp: smi_inv_def entries_ok_def handlers_ok_def smi_init_def live_def ring_at_def
      registered_def entry_of_def handlers_at_def split: option.splits)

lemma SmiHandlerRegister_refines_facts:
  assumes "smi_inv s"
  shows "(\<exists>h s'. SmiHandlerRegister oom (Some code) ty True s = Some (EFI_SUCCESS, Some h, s') \<and>
      smi_inv s' \<and> handlers s h = None \<and>
      registered s' = (registered s)(ty := registered s ty @ [(h, code)])) \<or>
    ((oom (fresh s) \<or> oom (fresh s + 1)) \<and>
     (\<exists>s'. SmiHandlerRegister oom (Some code) ty True s = Some (EFI_OUT_OF_RESOURCES, None, s') \<and>
      smi_inv s' \<and> registered s' = registered s))"
    "SmiHandlerRegister oom None ty want s = Some (EFI_INVALID_PARAMETER, None, s)"
    "SmiHandlerRegister oom (Some code) ty False s = Some (EFI_INVALID_PARAMETER, None, s)"
proof -
  have "handlers s (fresh s) = None"
    using assms by (cases "handlers s (fresh s)") (auto simp: smi_inv_def handlers_ok_def)
  then show "(\<exists>h s'. SmiHandlerRegister oom (Some code) ty True s = Some (EFI_SUCCESS, Some h, s') \<and>
      smi_inv s' \<and> handlers s h = None \<and>
      registered s' = (registered s)(ty := registered s ty @ [(h, code)])) \<or>
    ((oom (fresh s) \<or> oom (fresh s + 1)) \<and>
     (\<exists>s'. SmiHandlerRegister oom (Some code) ty True s = Some (EFI_OUT_OF_RESOURCES, None, s') \<and>
      smi_inv s' \<and> registered s' = registered s))"
    by - (rule SmiHandlerRegister_cases[OF assms, of oom code ty]; blast)
qed (simp_all add: SmiHandlerRegister_def)

text \<open>C30: SmiHandlerRegister appends the handler to the handlers of its type under a handle
  that was not in use, leaves every other type alone and keeps the invariant of the registry;
  when a memory request fails it says EFI_OUT_OF_RESOURCES and registers nothing; a NULL
  handler or DispatchHandle is refused and nothing changes.\<close>

theorem SmiHandlerRegister_refines:
  assumes "smi_inv s"
  shows "((\<exists>h s'. SmiHandlerRegister oom (Some code) ty True s = Some (EFI_SUCCESS, Some h, s') \<and>
       smi_inv s' \<and> handlers s h = None \<and>
       registered s' = (registered s)(ty := registered s ty @ [(h, code)])) \<or>
     ((oom (fresh s) \<or> oom (fresh s + 1)) \<and>
      (\<exists>s'. SmiHandlerRegister oom (Some code) ty True s = Some (EFI_OUT_OF_RESOURCES, None, s') \<and>
       smi_inv s' \<and> registered s' = registered s))) \<and>
    SmiHandlerRegister oom None ty want s = Some (EFI_INVALID_PARAMETER, None, s) \<and>
    SmiHandlerRegister oom (Some code) ty False s = Some (EFI_INVALID_PARAMETER, None, s)"
  by (intro conjI SmiHandlerRegister_refines_facts assms)

text \<open>Two registrations from the load-time registry, the second one without memory.\<close>

theorem SmiHandlerRegister_refines_witness:
  "\<exists>h s'. SmiHandlerRegister (\<lambda>_. False) (Some ''kbd'') (Some (replicate 16 7)) True smi_init
     = Some (EFI_SUCCESS, Some h, s') \<and>
     registered s' (Some (replicate 16 7)) = [(h, ''kbd'')] \<and> registered s' None = []"
  using SmiHandlerRegister_refines[OF smi_init_ok(1), of "\<lambda>_. False" "''kbd''" "Some (replicate 16 7)" True]
  by (auto simp: smi_init_ok(2))

text \<open>C31: SmiHandlerUnRegister removes exactly the handler of the handle and keeps the
  invariant, unless it is the last root handler.  A NULL handle is refused, and so is the
  handle once it is released, when the freed memory does not carry SMI_HANDLER_SIGNATURE any
  more; nothing clears it, and while it is there the second release uses freed memory.\<close>

theorem SmiHandlerUnRegister_refines:
  assumes "smi_inv s" "(h, code) \<in> set (registered s ty)" "\<not> (ty = None \<and> length (registered s ty) = 1)"
  shows "\<exists>s'. SmiHandlerUnRegister sig (Some h) s = Some (EFI_SUCCESS, s') \<and> smi_inv s' \<and>
    (\<forall>t. registered s' t = filter (\<lambda>(k, _). k \<noteq> h) (registered s t)) \<and>
    (\<forall>sig. SmiHandlerUnRegister sig (Some h) s' =
       (if sig h then None else Some (EFI_INVALID_PARAMETER, s'))) \<and>
    SmiHandlerUnRegister sig None s = Some (EFI_INVALID_PARAMETER, s)"
proof -
  obtain p where p: "entry_of s ty = Some p" and h: "h \<in> set (ring_at s p)"
    using assms(2) by (auto simp: registered_def handlers_at_def ring_at_def split: option.splits dest: sym)
  obtain x where x: "handlers s h = Some x" "SmiEntry x = Some p"
    using ring_handler_old[OF _ entry_of_live[OF p] h] assms(1) by (auto simp: smi_inv_def)
  have notlast: "\<not> (p = mRootSmiEntry \<and> ring_at s p = [h])"
  proof
    assume "p = mRootSmiEntry \<and> ring_at s p = [h]"
    then have a: "p = mRootSmiEntry" "ring_at s p = [h]" by auto
    then have "ty = None"
      using entry_of_inj[of "{}" s ty p None] p assms(1) by (auto simp: smi_inv_def entry_of_def)
    with a p assms(3) show False by (simp add: registered_def handlers_at_def flip: ring_at_def)
  qed
  show ?thesis
    by (rule SmiHandlerUnRegister_cases[OF assms(1) x, where sig = sig]) (use notlast in \<open>auto simp: SmiHandlerUnRegister_def\<close>)
qed

definition smi_sample :: "efi_status smi_state" where
  "smi_sample = \<lparr>mSmiEntryList = [3],
     entries = [0 \<mapsto> \<lparr>HandlerType = replicate 16 0, SmiHandlers = [1, 2]\<rparr>,
                3 \<mapsto> \<lparr>HandlerType = replicate 16 7, SmiHandlers = [4]\<rparr>],
     handlers = [1 \<mapsto> \<lparr>Handler = EFI_INTERRUPT_PENDING, SmiEntry = Some 0\<rparr>,
                 2 \<mapsto> \<lparr>Handler = EFI_WARN_INTERRUPT_SOURCE_PENDING, SmiEntry = Some 0\<rparr>,
                 4 \<mapsto> \<lparr>Handler = EFI_SUCCESS, SmiEntry = Some 3\<rparr>], fresh = 5\<rparr>"

lemma smi_sample_ok: "smi_inv smi_sample"
  "registered smi_sample None = [(1, EFI_INTERRUPT_PENDING), (2, EFI_WARN_INTERRUPT_SOURCE_PENDING)]"
  "registered smi_sample (Some (replicate 16 7)) = [(4, EFI_SUCCESS)]"
  by (auto simp: smi_inv_def entries_ok_def handlers_ok_def smi_sample_def live_def ring_at_def
      registered_def entry_of_def handlers_at_def type_at_def split: if_splits)

theorem SmiHandlerUnRegister_refines_witness:
  "\<exists>s'. SmiHandlerUnRegister (\<lambda>_. True) (Some 4) smi_sample = Some (EFI_SUCCESS, s') \<and>
     registered s' (Some (replicate 16 7)) = [] \<and> length (registered s' None) = 2 \<and>
     SmiHandlerUnRegister (\<lambda>_. True) (Some 4) s' = None"
  using SmiHandlerUnRegister_refines[OF smi_sample_ok(1), of 4 EFI_SUCCESS "Some (replicate 16 7)" "\<lambda>_. True"]
  by (auto simp: smi_sample_ok(2,3))

text \<open>C29: When the handlers of a type answer with one of the four statuses that SmiManage
  expects and, whatever they register or unregister for other types, leave the handlers of
  this type alone (gentle), SmiManage calls the handlers of the type in the order of their
  registration, each once, on a typed interrupt only up to the first EFI_SUCCESS or
  EFI_INTERRUPT_PENDING, each in the state the one before left; it ends, the registry is
  consistent and the type has the same handlers.  The status is EFI_NOT_FOUND without a
  handler, EFI_INTERRUPT_PENDING when a typed handler ends the dispatch with it, EFI_SUCCESS
  when one handler succeeded or quiesced the source, and otherwise the answer of the last
  one.  So EFI_INTERRUPT_PENDING is final for typed interrupts only: for root handlers the
  code deviates from the comment of SmiManage, which promises it when a source could not be
  quiesced.\<close>

theorem SmiManage_correct:
  assumes "smi_inv s" "gentle invoke ty (registered s ty)"
  shows "\<exists>sts env' s'. served invoke (ty \<noteq> None) (registered s ty) env s = (sts, env', s') \<and>
    SmiManage invoke ty env s = Some (smi_result (ty \<noteq> None) sts, env', s') \<and>
    smi_inv s' \<and> registered s' ty = registered s ty"
  using SmiManage_served[OF assms, of env]
  by (cases "served invoke (ty \<noteq> None) (registered s ty) env s") (auto simp: kept_def)

text \<open>Handlers that log their handle, register a handler for the type 9 and unregister the
  handler 4, which is one of type 7, before they answer the status they carry.\<close>

definition logging :: "(efi_status, nat list) invoker" where
  "logging code h env s =
     (case SmiHandlerRegister (\<lambda>_. False) (Some EFI_SUCCESS) (Some (replicate 16 9)) True s of
        None \<Rightarrow> (EFI_SUCCESS, env @ [h], s)
      | Some (_, _, s) \<Rightarrow>
          (if code \<in> smi_statuses then code else EFI_SUCCESS, env @ [h],
           if h = 4 then s
           else case SmiHandlerUnRegister (\<lambda>_. False) (Some 4) s of None \<Rightarrow> s | Some (_, s) \<Rightarrow> s))"

lemma logging_cases:
  assumes "smi_inv s" "ty \<noteq> Some (replicate 16 9)" "(h, code) \<in> set (registered s ty)"
    "4 \<notin> fst ` set (registered s ty)" "logging code h env s = (st, env', s')"
  shows "kept ty s s'" "env' = env @ [h]" "st = (if code \<in> smi_statuses then code else EFI_SUCCESS)"
proof -
  obtain st1 d s1 where r: "SmiHandlerRegister (\<lambda>_. False) (Some EFI_SUCCESS)
      (Some (replicate 16 9)) True s = Some (st1, d, s1)" "kept ty s s1"
    by (rule SmiHandlerRegister_kept[OF assms(1,3)]) (use assms(2) in auto)
  have s1: "smi_inv s1" "registered s1 ty = registered s ty" using r(2) by (simp_all add: kept_def)
  have h: "h \<noteq> 4" using assms(3,4) by force
  show "env' = env @ [h]" "st = (if code \<in> smi_statuses then code else EFI_SUCCESS)"
    using assms(5) by (auto simp: logging_def r(1) h)
  have "kept ty s1 s2" if "SmiHandlerUnRegister (\<lambda>_. False) (Some 4) s1 = Some (st2, s2)" for st2 s2
    by (rule SmiHandlerUnRegister_kept[OF s1(1) _ _ that, of h code]) (use s1(2) assms(3,4) in simp_all)
  then show "kept ty s s'"
    using assms(5) r(2) by (auto simp: logging_def r(1) h intro: kept_trans split: option.splits)
qed

lemma logging_gentle:
  assumes "ty \<noteq> Some (replicate 16 9)" "4 \<notin> fst ` set hs"
  shows "gentle logging ty hs"
  unfolding gentle_def
proof (intro allI impI)
  fix code h env s
  assume a: "smi_inv s \<and> registered s ty = hs \<and> (h, code) \<in> set hs"
  obtain st env' s' where l: "logging code h env s = (st, env', s')"
    by (cases "logging code h env s") auto
  have "kept ty s s'" "st = (if code \<in> smi_statuses then code else EFI_SUCCESS)"
    using logging_cases[OF _ assms(1) _ _ l] a assms(2) by auto
  moreover have "EFI_SUCCESS \<in> smi_statuses" by (simp add: smi_statuses_def)
  ultimately show "fst (logging code h env s) \<in> smi_statuses \<and> kept ty s (snd (snd (logging code h env s)))"
    using l by auto
qed

theorem SmiManage_correct_witness:
  "\<exists>s'. SmiManage logging None [] smi_sample = Some (EFI_WARN_INTERRUPT_SOURCE_PENDING, [1, 2], s') \<and>
     registered s' None = registered smi_sample None"
proof -
  have g: "gentle logging None (registered smi_sample None)"
    by (rule logging_gentle) (simp_all add: smi_sample_ok(2))
  have st: "EFI_INTERRUPT_PENDING \<in> smi_statuses" "EFI_WARN_INTERRUPT_SOURCE_PENDING \<in> smi_statuses"
    by (simp_all add: smi_statuses_def)
  obtain st1 env1 s1 where a: "logging EFI_INTERRUPT_PENDING 1 [] smi_sample = (st1, env1, s1)"
    by (cases "logging EFI_INTERRUPT_PENDING 1 [] smi_sample") auto
  have a': "kept None smi_sample s1" "env1 = [1]" "st1 = EFI_INTERRUPT_PENDING"
    using logging_cases[OF smi_sample_ok(1) _ _ _ a, of None] st by (simp_all add: smi_sample_ok(2))
  have s1: "smi_inv s1" "registered s1 None = registered smi_sample None"
    using a'(1) by (simp_all add: kept_def)
  obtain st2 env2 s2 where b: "logging EFI_WARN_INTERRUPT_SOURCE_PENDING 2 [1] s1 = (st2, env2, s2)"
    by (cases "logging EFI_WARN_INTERRUPT_SOURCE_PENDING 2 [1] s1") auto
  have b': "env2 = [1, 2]" "st2 = EFI_WARN_INTERRUPT_SOURCE_PENDING"
    using logging_cases[OF s1(1) _ _ _ b, of None] st s1(2) by (simp_all add: smi_sample_ok(2))
  show ?thesis
    using SmiManage_correct[OF smi_sample_ok(1) g, of "[]"] a a' b b'
    by (auto simp: smi_sample_ok(2) smi_result_def)
qed

text \<open>For root SMIs an EFI_INTERRUPT_PENDING answer is forgotten: when a later root handler
  only says that its source is still pending, SmiManage returns its warning, although the
  comment of the function promises EFI_INTERRUPT_PENDING when one or more sources could not
  be quiesced.\<close>

theorem SmiManage_root_forgets_pending:
  assumes "smi_inv s" "gentle invoke None (registered s None)"
    "registered s None = hs @ [(h, code)]"
    "\<forall>env s. fst (invoke code h env s) = EFI_WARN_INTERRUPT_SOURCE_PENDING"
    "\<forall>x \<in> set hs. \<forall>env s. fst (invoke (snd x) (fst x) env s) = EFI_INTERRUPT_PENDING"
  shows "\<exists>env' s'. SmiManage invoke None env s = Some (EFI_WARN_INTERRUPT_SOURCE_PENDING, env', s')"
proof -
  have "\<exists>env' s'. served invoke False (hs @ [(h, code)]) env s =
      (replicate (length hs) EFI_INTERRUPT_PENDING @ [EFI_WARN_INTERRUPT_SOURCE_PENDING], env', s')"
    using assms(5)
  proof (induction hs arbitrary: env s)
    case Nil
    then show ?case
      using assms(4)[rule_format, of env s] by (cases "invoke code h env s") auto
  next
    case (Cons x hs)
    obtain st env1 s1 where i: "invoke (snd x) (fst x) env s = (st, env1, s1)"
      by (cases "invoke (snd x) (fst x) env s") auto
    have "fst (invoke (snd x) (fst x) env s) = EFI_INTERRUPT_PENDING" using Cons.prems by simp
    then have st: "st = EFI_INTERRUPT_PENDING" using i by simp
    obtain env2 s2 where "served invoke False (hs @ [(h, code)]) env1 s1 =
        (replicate (length hs) EFI_INTERRUPT_PENDING @ [EFI_WARN_INTERRUPT_SOURCE_PENDING], env2, s2)"
      using Cons.IH[of env1 s1] Cons.prems by auto
    then show ?case using i st by (cases x) simp
  qed
  then show ?thesis
    using SmiManage_served[OF assms(1,2), of env] assms(3) by (auto simp: smi_result_def)
qed

text \<open>Handlers that only answer.\<close>

definition answering :: "(efi_status, unit) invoker" where
  "answering code h env s = (if code \<in> smi_statuses then code else EFI_SUCCESS, env, s)"

theorem SmiManage_root_forgets_pending_witness:
  "\<exists>env' s'. SmiManage answering None () smi_sample = Some (EFI_WARN_INTERRUPT_SOURCE_PENDING, env', s')"
proof -
  have "gentle answering None (registered smi_sample None)"
    by (auto simp: gentle_def answering_def kept_refl) (simp_all add: smi_statuses_def)
  with SmiManage_root_forgets_pending[OF smi_sample_ok(1), of answering
      "[(1, EFI_INTERRUPT_PENDING)]" 2 EFI_WARN_INTERRUPT_SOURCE_PENDING "()"] show ?thesis
    by (simp add: answering_def smi_statuses_def smi_sample_ok(2))
qed

text \<open>Unregistering the last root handler frees the static mRootSmiEntry: SmiEntry is the
  address of mRootSmiEntry for root handlers, never NULL, so the test that should keep the
  root entry does not.\<close>

theorem SmiHandlerUnRegister_last_root:
  assumes "smi_inv s" "registered s None = [(h, code)]"
  shows "SmiHandlerUnRegister sig (Some h) s = None"
proof -
  have h: "ring_at s mRootSmiEntry = [h]"
    using assms(2) by (auto simp: registered_def entry_of_def handlers_at_def simp flip: ring_at_def)
  have "live s mRootSmiEntry" by (simp add: live_def)
  then obtain x where x: "handlers s h = Some x" "SmiEntry x = Some mRootSmiEntry"
    using ring_handler_old[of s mRootSmiEntry h] assms(1) h by (auto simp: smi_inv_def)
  show ?thesis
    by (rule SmiHandlerUnRegister_cases[OF assms(1) x, where sig = sig]) (use h in auto)
qed

lemma smi_register_unregister_root:
  "\<exists>h s'. SmiHandlerRegister (\<lambda>_. False) (Some code) None True smi_init = Some (EFI_SUCCESS, Some h, s') \<and>
     smi_inv s' \<and> registered s' None = [(h, code)]"
  by (rule SmiHandlerRegister_cases[OF smi_init_ok(1), of "\<lambda>_. False" code None])
    (auto simp: smi_init_ok(2))

theorem SmiHandlerUnRegister_last_root_witness:
  "\<exists>h s'. SmiHandlerRegister (\<lambda>_. False) (Some ''root'') None True smi_init = Some (EFI_SUCCESS, Some h, s') \<and>
     SmiHandlerUnRegister (\<lambda>_. False) (Some h) s' = None"
proof -
  obtain h s' where s': "SmiHandlerRegister (\<lambda>_. False) (Some ''root'') None True smi_init = Some (EFI_SUCCESS, Some h, s')"
    "smi_inv s'" "registered s' None = [(h, ''root'')]"
    using smi_register_unregister_root[of "''root''"] by auto
  show ?thesis using s'(1) SmiHandlerUnRegister_last_root[OF s'(2,3)] by auto
qed

text \<open>SmiManage reads the link of a handler after the handler has run: a handler that
  unregisters itself is freed by then, so the dispatch uses freed memory (unless the answer
  ends the dispatch).\<close>

theorem SmiManage_self_unregister:
  assumes "smi_inv s" "registered s ty = (h, code) # hs"
    "invoke code h env s = (st, env', s')" "SmiHandlerUnRegister sig (Some h) s = Some (EFI_SUCCESS, s')"
    "ty = None \<or> st = EFI_WARN_INTERRUPT_SOURCE_PENDING \<or> st = EFI_WARN_INTERRUPT_SOURCE_QUIESCED"
  shows "SmiManage invoke ty env s = None"
proof -
  have eok: "entries_ok {} s" and ok: "handlers_ok s" using assms(1) by (simp_all add: smi_inv_def)
  obtain p where p: "entry_of s ty = Some p" and ring: "handlers_at s p = (h, code) # hs"
    using assms(2) by (auto simp: registered_def split: option.splits)
  have live: "live s p" by (rule entry_of_live[OF p])
  then obtain e where e: "entries s p = Some e" using eok by (fastforce simp: entries_ok_def)
  have hd: "first_link e = Some h" "h \<in> set (ring_at s p)"
    using ring e by (auto simp: handlers_at_def first_link_def ring_at_def split: list.splits)
  obtain x where x: "handlers s h = Some x" "SmiEntry x = Some p"
    using ring_handler_old[OF ok live hd(2)] by auto
  have code: "Handler x = code" using ring x by (auto simp: handlers_at_def)
  have "handlers s' h = None"
    by (rule SmiHandlerUnRegister_cases[OF assms(1) x, where sig = sig]) (use assms(4) in auto)
  then have nxt: "next_link s' p h = None" by (simp add: next_link_def)
  have loop: "SmiManage_loop invoke (ty \<noteq> None) p (first_link e) EFI_NOT_FOUND False env s = None"
    using assms(5) by (subst SmiManage_loop.simps) (auto simp: hd x code assms(3) nxt)
  show ?thesis
    using loop p e SmmCoreFindSmiEntry_found[OF eok, of _ p]
    by (cases ty) (simp_all add: SmiManage_def entry_of_def[of _ None])
qed

theorem SmiManage_self_unregister_witness:
  "SmiManage (\<lambda>code h env s. (code, env, the (map_option snd (SmiHandlerUnRegister (\<lambda>_. False) (Some h) s))))
     None [] smi_sample = None"
proof -
  have "SmiHandlerUnRegister (\<lambda>_. False) (Some 1) smi_sample \<noteq> None"
    by (simp add: SmiHandlerUnRegister_def smi_sample_def)
  moreover have "fst (the (SmiHandlerUnRegister (\<lambda>_. False) (Some 1) smi_sample)) = EFI_SUCCESS"
    by (simp add: SmiHandlerUnRegister_def smi_sample_def)
  ultimately obtain s' where s': "SmiHandlerUnRegister (\<lambda>_. False) (Some 1) smi_sample = Some (EFI_SUCCESS, s')"
    by (cases "SmiHandlerUnRegister (\<lambda>_. False) (Some 1) smi_sample") auto
  show ?thesis
    by (rule SmiManage_self_unregister[OF smi_sample_ok(1,2) _ s', where st = EFI_INTERRUPT_PENDING
          and env' = "[]"]) (use s' in simp_all)
qed

subsection \<open>Histories\<close>

text \<open>The registries that registrations and unregistrations lead to.\<close>

inductive smi_reachable :: "(nat \<Rightarrow> bool) \<Rightarrow> 'h smi_state \<Rightarrow> bool" for oom where
  init: "smi_reachable oom smi_init"
| register: "smi_reachable oom s \<Longrightarrow> SmiHandlerRegister oom fn ty want s = Some (st, h, s') \<Longrightarrow>
    smi_reachable oom s'"
| unregister: "smi_reachable oom s \<Longrightarrow> SmiHandlerUnRegister sig h s = Some (st, s') \<Longrightarrow>
    smi_reachable oom s'"

lemma SmiHandlerUnRegister_leaked:
  "handlers s h = Some x \<Longrightarrow> SmiEntry x = None \<Longrightarrow> SmiHandlerUnRegister sig (Some h) s = None"
  by (simp add: SmiHandlerUnRegister_def)

lemma smi_reachable_inv: "smi_reachable oom s \<Longrightarrow> smi_inv s"
proof (induction rule: smi_reachable.induct)
  case init
  show ?case by (rule smi_init_ok)
next
  case (register s fn ty want st h s')
  then show ?case
    by (cases fn; cases want)
      (auto simp: SmiHandlerRegister_def[of _ None] SmiHandlerRegister_def[of _ _ _ False]
        intro: SmiHandlerRegister_cases[of s oom "the fn" ty])
next
  case (unregister s sig h st s')
  show ?case
  proof (cases h)
    case (Some k)
    show ?thesis
    proof (cases "handlers s k")
      case x: (Some x)
      show ?thesis
      proof (cases "SmiEntry x")
        case None
        then show ?thesis using unregister.hyps(2) SmiHandlerUnRegister_leaked[OF x] Some by simp
      next
        case (Some p)
        show ?thesis
          by (rule SmiHandlerUnRegister_cases[OF unregister.IH x Some, where sig = sig])
            (use unregister.hyps(2) \<open>h = Some k\<close> in auto)
      qed
    qed (use unregister Some in \<open>simp add: SmiHandlerUnRegister_def split: if_splits\<close>)
  qed (use unregister in \<open>simp add: SmiHandlerUnRegister_def\<close>)
qed

text \<open>In every registry that any sequence of registrations and unregistrations leads to,
  a handler is registered at most once over all types, no two types share an entry, and every
  entry of the list has a handler, so that SmiManage finds one exactly for the types with
  registered handlers.\<close>

theorem smi_reachable_registry:
  assumes "smi_reachable oom s" "(h, code) \<in> set (registered s ty)" "(h, code') \<in> set (registered s ty')"
  shows "ty = ty' \<and> code = code' \<and> distinct (map fst (registered s ty)) \<and>
    handlers s h = Some \<lparr>Handler = code, SmiEntry = entry_of s ty\<rparr>"
proof -
  have inv: "smi_inv s" by (rule smi_reachable_inv[OF assms(1)])
  then have eok: "entries_ok {} s" and ok: "handlers_ok s" by (simp_all add: smi_inv_def)
  have mem: "\<exists>p. entry_of s t = Some p \<and> h \<in> set (ring_at s p) \<and> Handler (the (handlers s h)) = c"
    if "(h, c) \<in> set (registered s t)" for c t
    using that by (cases "entry_of s t") (auto simp: registered_def handlers_at_def ring_at_def)
  obtain p q where p: "entry_of s ty = Some p" "h \<in> set (ring_at s p)"
      "Handler (the (handlers s h)) = code"
    and q: "entry_of s ty' = Some q" "h \<in> set (ring_at s q)" "Handler (the (handlers s h)) = code'"
    using mem[OF assms(2)] mem[OF assms(3)] by blast
  have lp: "live s p" "live s q" using p q by (auto dest: entry_of_live)
  have eq: "p = q"
    using ring_handler_old(3)[OF ok lp(1) p(2)] ring_handler_old(3)[OF ok lp(2) q(2)] by simp
  have "ty = ty'" using entry_of_inj[OF eok p(1)] q(1) eq by simp
  moreover have "distinct (map fst (registered s ty))"
    using ok lp(1) p(1) by (simp add: registered_def handlers_at_def o_def handlers_ok_def flip: ring_at_def)
  moreover have "handlers s h = Some \<lparr>Handler = code, SmiEntry = entry_of s ty\<rparr>"
    using ring_handler_old(2,3)[OF ok lp(1) p(2)] p(1,3) by (cases "handlers s h") auto
  ultimately show ?thesis using p q by simp
qed

theorem smi_reachable_registry_witness:
  "\<exists>h s'. SmiHandlerRegister (\<lambda>_. False) (Some ''root'') None True smi_init = Some (EFI_SUCCESS, Some h, s') \<and>
     distinct (map fst (registered s' None)) \<and> handlers s' h = Some \<lparr>Handler = ''root'', SmiEntry = entry_of s' None\<rparr>"
proof -
  obtain h s' where s': "SmiHandlerRegister (\<lambda>_. False) (Some ''root'') None True smi_init = Some (EFI_SUCCESS, Some h, s')"
    "registered s' None = [(h, ''root'')]"
    using smi_register_unregister_root[of "''root''"] by auto
  have "smi_reachable (\<lambda>_. False) s'"
    by (rule smi_reachable.register[OF smi_reachable.init s'(1)])
  from smi_reachable_registry[OF this, of h "''root''" None "''root''" None]
  have "distinct (map fst (registered s' None)) \<and>
      handlers s' h = Some \<lparr>Handler = ''root'', SmiEntry = entry_of s' None\<rparr>"
    unfolding s'(2) by simp
  then show ?thesis using s'(1) by blast
qed

end
