(* ===== verification/Protocol_Db.thy ===== *)
theory Protocol_Db
  imports Efi_Prelude
begin

text \<open>
  The SMM protocol database: MdeModulePkg/Core/PiSmmCore/Handle.c, Notify.c and Locate.c.

  The four kinds of objects (PROTOCOL_ENTRY, IHANDLE, PROTOCOL_INTERFACE, PROTOCOL_NOTIFY)
  live in maps from their addresses; their LIST_ENTRY rings are lists of addresses in ring
  order.  The n-th memory request fails when oom n holds, and otherwise returns the address
  n.  None is the use of an object that is not there (CR and the signature ASSERTs) or a
  fired ASSERT.  An interface is a number, 0 is NULL; optional pointer arguments are options.
  Notification functions are external: invoke gives the effect of a call on the rest of the
  system and on the database itself.
\<close>

subsection \<open>State (PiSmmCore.h)\<close>

record ihandle =
  hProtocols :: "nat list"
  LocateRequest :: u64

record protocol_entry =
  ProtocolID :: guid
  eProtocols :: "nat list"
  eNotify :: "nat list"

record protocol_interface =
  iHandle :: nat
  iProtocol :: nat
  Interface :: nat

text \<open>Position is a link of the ring of the entry's interfaces (None: its head).\<close>

record 'f protocol_notify =
  nProtocol :: nat
  Function :: 'f
  Position :: "nat option"

record 'f pdb =
  mProtocolDatabase :: "nat list"
  gHandleList :: "nat list"
  ents :: "nat \<Rightarrow> protocol_entry option"
  hnds :: "nat \<Rightarrow> ihandle option"
  pifs :: "nat \<Rightarrow> protocol_interface option"
  nots :: "nat \<Rightarrow> 'f protocol_notify option"
  mEfiLocateHandleRequest :: u64
  next_addr :: nat

definition pdb_init :: "'f pdb" where
  "pdb_init = \<lparr>mProtocolDatabase = [], gHandleList = [], ents = Map.empty, hnds = Map.empty,
     pifs = Map.empty, nots = Map.empty, mEfiLocateHandleRequest = 0, next_addr = 1\<rparr>"

definition Allocate :: "(nat \<Rightarrow> bool) \<Rightarrow> 'f pdb \<Rightarrow> nat option \<times> 'f pdb" where
  "Allocate oom s =
     (if oom (next_addr s) then None else Some (next_addr s), s\<lparr>next_addr := next_addr s + 1\<rparr>)"

subsection \<open>Handle.c: lookups\<close>

definition SmmValidateHandle :: "'f pdb \<Rightarrow> nat option \<Rightarrow> efi_status" where
  "SmmValidateHandle s UserHandle =
     (case UserHandle of
        None \<Rightarrow> EFI_INVALID_PARAMETER
      | Some h \<Rightarrow> if hnds s h = None then EFI_INVALID_PARAMETER else EFI_SUCCESS)"

definition SmmFindProtocolEntry ::
  "(nat \<Rightarrow> bool) \<Rightarrow> guid \<Rightarrow> bool \<Rightarrow> 'f pdb \<Rightarrow> (nat option \<times> 'f pdb) option" where
  "SmmFindProtocolEntry oom Protocol Create s = do {
     ProtEntry \<leftarrow> walk (ents s) (\<lambda>Item. Some (ProtocolID Item = Protocol)) (mProtocolDatabase s);
     if ProtEntry = None \<and> Create then
       (let (p, s) = Allocate oom s
        in case p of
             None \<Rightarrow> Some (None, s)
           | Some p \<Rightarrow>
               Some (Some p, s\<lparr>
                 ents := (ents s)(p \<mapsto> \<lparr>ProtocolID = Protocol, eProtocols = [], eNotify = []\<rparr>),
                 mProtocolDatabase := mProtocolDatabase s @ [p]\<rparr>))
     else Some (ProtEntry, s)
   }"

text \<open>With Create = FALSE the database is not changed and no memory is requested.\<close>

definition lookup_entry :: "'f pdb \<Rightarrow> guid \<Rightarrow> nat option option" where
  "lookup_entry s Protocol = map_option fst (SmmFindProtocolEntry (\<lambda>_. True) Protocol False s)"

definition SmmFindProtocolInterface ::
  "'f pdb \<Rightarrow> nat \<Rightarrow> guid \<Rightarrow> nat \<Rightarrow> nat option option" where
  "SmmFindProtocolInterface s Handle Protocol iface = do {
     ProtEntry \<leftarrow> lookup_entry s Protocol;
     case ProtEntry of
       None \<Rightarrow> Some None
     | Some p \<Rightarrow> do {
         h \<leftarrow> hnds s Handle;
         walk (pifs s) (\<lambda>Prot. Some (Interface Prot = iface \<and> iProtocol Prot = p)) (hProtocols h)
       }
   }"

definition SmmGetProtocolInterface :: "'f pdb \<Rightarrow> nat option \<Rightarrow> guid \<Rightarrow> nat option option" where
  "SmmGetProtocolInterface s UserHandle Protocol =
     (if EFI_ERROR (SmmValidateHandle s UserHandle) then Some None
      else do {
        Handle \<leftarrow> UserHandle;
        h \<leftarrow> hnds s Handle;
        walk (pifs s)
          (\<lambda>Prot. do { ProtEntry \<leftarrow> ents s (iProtocol Prot); Some (ProtocolID ProtEntry = Protocol) })
          (hProtocols h)
      })"

text \<open>The second result is what is written to *Interface, None where nothing is written.\<close>

definition SmmHandleProtocol ::
  "'f pdb \<Rightarrow> nat option \<Rightarrow> guid option \<Rightarrow> bool \<Rightarrow> (efi_status \<times> nat option) option" where
  "SmmHandleProtocol s UserHandle Protocol want =
     (case Protocol of
        None \<Rightarrow> Some (EFI_INVALID_PARAMETER, None)
      | Some g \<Rightarrow>
        if \<not> want then Some (EFI_INVALID_PARAMETER, None)
        else let Status = SmmValidateHandle s UserHandle
          in if EFI_ERROR Status then Some (Status, Some 0)
             else do {
               Prot \<leftarrow> SmmGetProtocolInterface s UserHandle g;
               case Prot of
                 None \<Rightarrow> Some (EFI_UNSUPPORTED, Some 0)
               | Some i \<Rightarrow> do { p \<leftarrow> pifs s i; Some (EFI_SUCCESS, Some (Interface p)) }
             })"

subsection \<open>Notify.c\<close>

type_synonym ('f, 'e) notifier =
  "'f \<Rightarrow> guid \<Rightarrow> nat \<Rightarrow> nat \<Rightarrow> 'e \<Rightarrow> 'f pdb \<Rightarrow> ('e \<times> 'f pdb) option"

text \<open>
  The loop of SmmNotifyProtocol at a link of the ring of notifications of entry e: Prot->Interface
  and Prot->Handle are read for every call, Link->ForwardLink after it.
\<close>

partial_function (option) notify_loop ::
  "('f, 'e) notifier \<Rightarrow> nat \<Rightarrow> nat \<Rightarrow> nat option \<Rightarrow> 'e \<Rightarrow> 'f pdb \<Rightarrow> ('e \<times> 'f pdb) option" where
  "notify_loop invoke e Prot Link env s =
     (case Link of
        None \<Rightarrow> Some (env, s)
      | Some n \<Rightarrow>
        Option.bind (nots s n) (\<lambda>ProtNotify.
        Option.bind (ents s e) (\<lambda>ProtEntry.
        Option.bind (pifs s Prot) (\<lambda>p.
        Option.bind (invoke (Function ProtNotify) (ProtocolID ProtEntry) (Interface p) (iHandle p) env s) (\<lambda>(env, s).
        Option.bind (nots s n) (\<lambda>_.
        Option.bind (ents s e) (\<lambda>ProtEntry.
        Option.bind (forward_link n (eNotify ProtEntry)) (\<lambda>Link.
          notify_loop invoke e Prot Link env s))))))))"

definition SmmNotifyProtocol ::
  "('f, 'e) notifier \<Rightarrow> nat \<Rightarrow> 'e \<Rightarrow> 'f pdb \<Rightarrow> ('e \<times> 'f pdb) option" where
  "SmmNotifyProtocol invoke Prot env s = do {
     p \<leftarrow> pifs s Prot;
     ProtEntry \<leftarrow> ents s (iProtocol p);
     notify_loop invoke (iProtocol p) Prot (first_of (eNotify ProtEntry)) env s
   }"

text \<open>The loop that backs up the positions that point to a removed interface.\<close>

fun back_up :: "nat \<Rightarrow> nat list \<Rightarrow> nat list \<Rightarrow> (nat \<Rightarrow> 'f protocol_notify option) \<Rightarrow>
    (nat \<Rightarrow> 'f protocol_notify option) option" where
  "back_up Prot ring [] ns = Some ns"
| "back_up Prot ring (n # Links) ns = do {
     ProtNotify \<leftarrow> ns n;
     if Position ProtNotify = Some Prot
     then do {
       b \<leftarrow> back_link None Prot ring;
       back_up Prot ring Links (ns(n \<mapsto> ProtNotify\<lparr>Position := b\<rparr>))
     }
     else back_up Prot ring Links ns
   }"

definition SmmRemoveInterfaceFromProtocol ::
  "nat \<Rightarrow> guid \<Rightarrow> nat \<Rightarrow> 'f pdb \<Rightarrow> (nat option \<times> 'f pdb) option" where
  "SmmRemoveInterfaceFromProtocol Handle Protocol iface s = do {
     Prot \<leftarrow> SmmFindProtocolInterface s Handle Protocol iface;
     case Prot of
       None \<Rightarrow> Some (None, s)
     | Some i \<Rightarrow> do {
         p \<leftarrow> pifs s i;
         ProtEntry \<leftarrow> ents s (iProtocol p);
         ns \<leftarrow> back_up i (eProtocols ProtEntry) (eNotify ProtEntry) (nots s);
         ASSERT (i \<in> set (eProtocols ProtEntry));
         Some (Some i, s\<lparr>nots := ns,
           ents := (ents s)(iProtocol p \<mapsto> ProtEntry\<lparr>eProtocols := remove1 i (eProtocols ProtEntry)\<rparr>)\<rparr>)
       }
   }"

text \<open>
  Registration: reg is None for a NULL pointer, Some r where *Registration is r.  The results
  are the status, *Registration where it is written, and the database.
\<close>

definition SmmRegisterProtocolNotify ::
  "(nat \<Rightarrow> bool) \<Rightarrow> guid option \<Rightarrow> 'f option \<Rightarrow> nat option option \<Rightarrow> 'f pdb \<Rightarrow>
     (efi_status \<times> nat option \<times> 'f pdb) option" where
  "SmmRegisterProtocolNotify oom Protocol fn reg s =
     (case (Protocol, reg) of
        (None, _) \<Rightarrow> Some (EFI_INVALID_PARAMETER, None, s)
      | (_, None) \<Rightarrow> Some (EFI_INVALID_PARAMETER, None, s)
      | (Some g, Some r) \<Rightarrow>
        (case fn of
           None \<Rightarrow> do {
             ProtEntry \<leftarrow> lookup_entry s g;
             case ProtEntry of
               None \<Rightarrow> Some (EFI_NOT_FOUND, None, s)
             | Some e \<Rightarrow> do {
                 ent \<leftarrow> ents s e;
                 found \<leftarrow> walk (\<lambda>n. if nots s n = None then None else Some n) (\<lambda>n. Some (r = Some n)) (eNotify ent);
                 case found of
                   None \<Rightarrow> Some (EFI_NOT_FOUND, None, s)
                 | Some n \<Rightarrow>
                     Some (EFI_SUCCESS, None, s\<lparr>nots := (nots s)(n := None),
                       ents := (ents s)(e \<mapsto> ent\<lparr>eNotify := remove1 n (eNotify ent)\<rparr>)\<rparr>)
               }
           }
         | Some f \<Rightarrow> do {
             (ProtEntry, s) \<leftarrow> SmmFindProtocolEntry oom g True s;
             case ProtEntry of
               None \<Rightarrow> Some (EFI_OUT_OF_RESOURCES, None, s)
             | Some e \<Rightarrow> do {
                 ent \<leftarrow> ents s e;
                 found \<leftarrow> walk (nots s)
                   (\<lambda>ProtNotify. do {
                      p \<leftarrow> ents s (nProtocol ProtNotify);
                      Some (ProtocolID p = g \<and> Function ProtNotify = f)
                    }) (eNotify ent);
                 case found of
                   Some n \<Rightarrow> Some (EFI_SUCCESS, Some n, s)
                 | None \<Rightarrow>
                     (let (p, s) = Allocate oom s
                      in case p of
                           None \<Rightarrow> Some (EFI_OUT_OF_RESOURCES, None, s)
                         | Some n \<Rightarrow>
                             Some (EFI_SUCCESS, Some n, s\<lparr>
                               nots := (nots s)(n \<mapsto> \<lparr>nProtocol = e, Function = f,
                                                       Position = last_of (eProtocols ent)\<rparr>),
                               ents := (ents s)(e \<mapsto> ent\<lparr>eNotify := eNotify ent @ [n]\<rparr>)\<rparr>))
               }
           }))"

subsection \<open>Handle.c: installation\<close>

text \<open>
  UserHandle is None for a NULL pointer and Some u where *UserHandle is u.  native is whether
  InterfaceType is EFI_NATIVE_INTERFACE.  The results are the status, *UserHandle afterwards,
  the rest of the system and the database.  A new PROTOCOL_INTERFACE becomes an object when
  its signature is written; freeing it before leaves no trace.
\<close>

definition SmmInstallProtocolInterfaceNotify ::
  "(nat \<Rightarrow> bool) \<Rightarrow> ('f, 'e) notifier \<Rightarrow> nat option option \<Rightarrow> guid option \<Rightarrow> bool \<Rightarrow> nat \<Rightarrow> bool \<Rightarrow>
     'e \<Rightarrow> 'f pdb \<Rightarrow> (efi_status \<times> nat option \<times> 'e \<times> 'f pdb) option" where
  "SmmInstallProtocolInterfaceNotify oom invoke UserHandle Protocol native iface notify env s =
     (case (UserHandle, Protocol) of
        (None, _) \<Rightarrow> Some (EFI_INVALID_PARAMETER, None, env, s)
      | (Some u, None) \<Rightarrow> Some (EFI_INVALID_PARAMETER, u, env, s)
      | (Some u, Some g) \<Rightarrow>
        if \<not> native then Some (EFI_INVALID_PARAMETER, u, env, s)
        else do {
          Status \<leftarrow> (if u \<noteq> None then map_option fst (SmmHandleProtocol s u (Some g) True)
                     else Some EFI_OUT_OF_RESOURCES);
          if u \<noteq> None \<and> \<not> EFI_ERROR Status then Some (EFI_INVALID_PARAMETER, u, env, s)
          else do {
            (ProtEntry, s) \<leftarrow> SmmFindProtocolEntry oom g True s;
            case ProtEntry of
              None \<Rightarrow> Some (Status, u, env, s)
            | Some e \<Rightarrow>
              (let (Prot, s) = Allocate oom s
               in case Prot of
                    None \<Rightarrow> Some (EFI_OUT_OF_RESOURCES, u, env, s)
                  | Some i \<Rightarrow>
                    (let (Handle, s) =
                       (case u of
                          Some h \<Rightarrow> (Some h, s)
                        | None \<Rightarrow>
                            (let (h, s) = Allocate oom s
                             in case h of
                                  None \<Rightarrow> (None, s)
                                | Some h \<Rightarrow> (Some h, s\<lparr>
                                    hnds := (hnds s)(h \<mapsto> \<lparr>hProtocols = [], LocateRequest = 0\<rparr>),
                                    gHandleList := gHandleList s @ [h]\<rparr>)))
                     in case Handle of
                          None \<Rightarrow> Some (EFI_OUT_OF_RESOURCES, u, env, s)
                        | Some h \<Rightarrow>
                          if EFI_ERROR (SmmValidateHandle s (Some h))
                          then Some (SmmValidateHandle s (Some h), u, env, s)
                          else do {
                            clash \<leftarrow> SmmFindProtocolInterface s h g iface;
                            ASSERT (clash = None);
                            hr \<leftarrow> hnds s h;
                            ent \<leftarrow> ents s e;
                            let s = s\<lparr>pifs := (pifs s)(i \<mapsto> \<lparr>iHandle = h, iProtocol = e, Interface = iface\<rparr>),
                                      hnds := (hnds s)(h \<mapsto> hr\<lparr>hProtocols := i # hProtocols hr\<rparr>),
                                      ents := (ents s)(e \<mapsto> ent\<lparr>eProtocols := eProtocols ent @ [i]\<rparr>)\<rparr>;
                            (env, s) \<leftarrow> (if notify then SmmNotifyProtocol invoke i env s else Some (env, s));
                            Some (EFI_SUCCESS, Some h, env, s)
                          }))
          }
        })"

definition SmmInstallProtocolInterface ::
  "(nat \<Rightarrow> bool) \<Rightarrow> ('f, 'e) notifier \<Rightarrow> nat option option \<Rightarrow> guid option \<Rightarrow> bool \<Rightarrow> nat \<Rightarrow>
     'e \<Rightarrow> 'f pdb \<Rightarrow> (efi_status \<times> nat option \<times> 'e \<times> 'f pdb) option" where
  "SmmInstallProtocolInterface oom invoke UserHandle Protocol native iface env s =
     SmmInstallProtocolInterfaceNotify oom invoke UserHandle Protocol native iface True env s"

definition SmmUninstallProtocolInterface ::
  "nat option \<Rightarrow> guid option \<Rightarrow> nat \<Rightarrow> 'f pdb \<Rightarrow> (efi_status \<times> 'f pdb) option" where
  "SmmUninstallProtocolInterface UserHandle Protocol iface s =
     (case Protocol of
        None \<Rightarrow> Some (EFI_INVALID_PARAMETER, s)
      | Some g \<Rightarrow>
        let Status = SmmValidateHandle s UserHandle
        in if EFI_ERROR Status then Some (Status, s)
           else do {
             h \<leftarrow> UserHandle;
             Prot \<leftarrow> SmmFindProtocolInterface s h g iface;
             case Prot of
               None \<Rightarrow> Some (EFI_NOT_FOUND, s)
             | Some _ \<Rightarrow> do {
                 (Prot, s) \<leftarrow> SmmRemoveInterfaceFromProtocol h g iface s;
                 hr \<leftarrow> hnds s h;
                 let (Status, hr, s) =
                   (case Prot of
                      None \<Rightarrow> (EFI_NOT_FOUND, hr, s)
                    | Some i \<Rightarrow>
                        (let hr = hr\<lparr>hProtocols := remove1 i (hProtocols hr)\<rparr>
                         in (EFI_SUCCESS, hr, s\<lparr>hnds := (hnds s)(h \<mapsto> hr), pifs := (pifs s)(i := None)\<rparr>)));
                 Some (if hProtocols hr = []
                       then (Status, s\<lparr>gHandleList := remove1 h (gHandleList s), hnds := (hnds s)(h := None)\<rparr>)
                       else (Status, s))
               }
           })"

subsection \<open>Locate.c\<close>

text \<open>
  LOCATE_POSITION.Position is represented by the elements of its ring that are still ahead of
  it: Position->ForwardLink is the first of them, or the head when there is none.  No ring
  changes during a search.
\<close>

datatype search = AllHandles | ByRegisterNotify | ByProtocol | OtherSearch

record locate_position =
  SearchKey :: "nat option"
  ahead :: "nat list"

text \<open>Each of the three functions returns the handle (None: NULL), *Interface, the position
  and the database.\<close>

definition SmmGetNextLocateAllHandles ::
  "locate_position \<Rightarrow> 'f pdb \<Rightarrow> (nat option \<times> nat \<times> locate_position \<times> 'f pdb) option" where
  "SmmGetNextLocateAllHandles pos s =
     (case ahead pos of
        [] \<Rightarrow> Some (None, 0, pos, s)
      | h # hs \<Rightarrow> do { _ \<leftarrow> hnds s h; Some (Some h, 0, pos\<lparr>ahead := hs\<rparr>, s) })"

definition SmmGetNextLocateByRegisterNotify ::
  "locate_position \<Rightarrow> 'f pdb \<Rightarrow> (nat option \<times> nat \<times> locate_position \<times> 'f pdb) option" where
  "SmmGetNextLocateByRegisterNotify pos s =
     (case SearchKey pos of
        None \<Rightarrow> Some (None, 0, pos, s)
      | Some n \<Rightarrow> do {
          ProtNotify \<leftarrow> nots s n;
          ent \<leftarrow> ents s (nProtocol ProtNotify);
          Link \<leftarrow> (case Position ProtNotify of
                     None \<Rightarrow> Some (first_of (eProtocols ent))
                   | Some i \<Rightarrow> forward_link i (eProtocols ent));
          case Link of
            None \<Rightarrow> Some (None, 0, pos\<lparr>SearchKey := None\<rparr>, s)
          | Some i \<Rightarrow> do {
              Prot \<leftarrow> pifs s i;
              Some (Some (iHandle Prot), Interface Prot, pos\<lparr>SearchKey := None\<rparr>, s)
            }
        })"

fun next_by_protocol ::
  "nat list \<Rightarrow> nat \<Rightarrow> 'f pdb \<Rightarrow> (nat option \<times> nat \<times> nat list \<times> 'f pdb) option" where
  "next_by_protocol [] iface s = Some (None, iface, [], s)"
| "next_by_protocol (i # is) iface s = do {
     Prot \<leftarrow> pifs s i;
     h \<leftarrow> hnds s (iHandle Prot);
     if LocateRequest h \<noteq> mEfiLocateHandleRequest s
     then Some (Some (iHandle Prot), Interface Prot, is,
            s\<lparr>hnds := (hnds s)(iHandle Prot \<mapsto> h\<lparr>LocateRequest := mEfiLocateHandleRequest s\<rparr>)\<rparr>)
     else next_by_protocol is (Interface Prot) s
   }"

definition SmmGetNextLocateByProtocol ::
  "locate_position \<Rightarrow> 'f pdb \<Rightarrow> (nat option \<times> nat \<times> locate_position \<times> 'f pdb) option" where
  "SmmGetNextLocateByProtocol pos s = do {
     (h, iface, rest, s) \<leftarrow> next_by_protocol (ahead pos) 0 s;
     Some (h, iface, pos\<lparr>ahead := rest\<rparr>, s)
   }"

text \<open>ProtNotify->Position = ProtNotify->Position->ForwardLink;\<close>

definition advance_position :: "nat \<Rightarrow> 'f pdb \<Rightarrow> 'f pdb option" where
  "advance_position n s = do {
     ProtNotify \<leftarrow> nots s n;
     ent \<leftarrow> ents s (nProtocol ProtNotify);
     Link \<leftarrow> (case Position ProtNotify of
                None \<Rightarrow> Some (first_of (eProtocols ent))
              | Some i \<Rightarrow> forward_link i (eProtocols ent));
     Some (s\<lparr>nots := (nots s)(n \<mapsto> ProtNotify\<lparr>Position := Link\<rparr>)\<rparr>)
   }"

text \<open>The second result is *Interface where it is written.\<close>

definition SmmLocateProtocol ::
  "guid option \<Rightarrow> nat option \<Rightarrow> bool \<Rightarrow> 'f pdb \<Rightarrow> (efi_status \<times> nat option \<times> 'f pdb) option" where
  "SmmLocateProtocol Protocol Registration want s =
     (if \<not> want then Some (EFI_INVALID_PARAMETER, None, s)
      else case Protocol of
        None \<Rightarrow> Some (EFI_NOT_FOUND, None, s)
      | Some g \<Rightarrow>
        (let s = s\<lparr>mEfiLocateHandleRequest := mEfiLocateHandleRequest s + 1\<rparr>
         in case Registration of
              None \<Rightarrow> do {
                ProtEntry \<leftarrow> lookup_entry s g;
                case ProtEntry of
                  None \<Rightarrow> Some (EFI_NOT_FOUND, Some 0, s)
                | Some e \<Rightarrow> do {
                    ent \<leftarrow> ents s e;
                    (Handle, iface, _, s) \<leftarrow>
                      SmmGetNextLocateByProtocol \<lparr>SearchKey = None, ahead = eProtocols ent\<rparr> s;
                    Some (if Handle = None then EFI_NOT_FOUND else EFI_SUCCESS, Some iface, s)
                  }
              }
            | Some n \<Rightarrow> do {
                (Handle, iface, _, s) \<leftarrow>
                  SmmGetNextLocateByRegisterNotify \<lparr>SearchKey = Some n, ahead = gHandleList s\<rparr> s;
                if Handle = None then Some (EFI_NOT_FOUND, Some iface, s)
                else do { s \<leftarrow> advance_position n s; Some (EFI_SUCCESS, Some iface, s) }
              }))"

definition GetNext ::
  "search \<Rightarrow> locate_position \<Rightarrow> 'f pdb \<Rightarrow> (nat option \<times> nat \<times> locate_position \<times> 'f pdb) option" where
  "GetNext SearchType =
     (case SearchType of
        AllHandles \<Rightarrow> SmmGetNextLocateAllHandles
      | ByRegisterNotify \<Rightarrow> SmmGetNextLocateByRegisterNotify
      | _ \<Rightarrow> SmmGetNextLocateByProtocol)"

lemma next_by_protocol_shorter:
  "next_by_protocol is i s = Some (Some h, i', rest, s') \<Longrightarrow> length rest < length is"
  by (induction "is" arbitrary: i) (auto simp: bind_eq_Some_conv split: if_splits, force)

lemma GetNext_shorter:
  assumes "GetNext st pos s = Some (Some h, i, pos', s')"
  shows "length (ahead pos') + (if SearchKey pos' = None then 0 else 1)
    < length (ahead pos) + (if SearchKey pos = None then 0 else 1)"
  using assms
  by (cases st)
    (auto simp: GetNext_def SmmGetNextLocateAllHandles_def SmmGetNextLocateByRegisterNotify_def
      SmmGetNextLocateByProtocol_def bind_eq_Some_conv dest!: next_by_protocol_shorter
      split: list.splits option.splits)

text \<open>The enumeration loop of SmmLocateHandle; a handle is 8 bytes.\<close>

function locate_loop ::
  "search \<Rightarrow> nat \<Rightarrow> locate_position \<Rightarrow> nat \<Rightarrow> nat list \<Rightarrow> 'f pdb \<Rightarrow> (nat \<times> nat list \<times> 'f pdb) option" where
  "locate_loop st BufferSize pos ResultSize ResultBuffer s =
     (case GetNext st pos s of
        None \<Rightarrow> None
      | Some (None, _, _, s) \<Rightarrow> Some (ResultSize, ResultBuffer, s)
      | Some (Some h, _, pos', s') \<Rightarrow>
          locate_loop st BufferSize pos' (ResultSize + 8)
            (if ResultSize + 8 \<le> BufferSize then ResultBuffer @ [h] else ResultBuffer) s')"
  by pat_completeness auto
termination
proof (relation "measure (\<lambda>(st, b, pos, r). length (ahead pos) + (if SearchKey pos = None then 0 else 1))",
    goal_cases)
  case (2 st b pos r rb s x y z w v pos' s')
  then show ?case using GetNext_shorter[of st pos s] by fastforce
qed simp

declare locate_loop.simps [simp del]

text \<open>
  BufferSize is None for a NULL pointer; buffer is whether Buffer is not NULL.  The results
  are the status, *BufferSize, the handles written to Buffer and the database.
\<close>

definition SmmLocateHandle ::
  "search \<Rightarrow> guid option \<Rightarrow> nat option \<Rightarrow> nat option \<Rightarrow> bool \<Rightarrow> 'f pdb \<Rightarrow>
     (efi_status \<times> nat option \<times> nat list \<times> 'f pdb) option" where
  "SmmLocateHandle SearchType Protocol key BufferSize buffer s =
     (case BufferSize of
        None \<Rightarrow> Some (EFI_INVALID_PARAMETER, None, [], s)
      | Some bs \<Rightarrow>
        if bs > 0 \<and> \<not> buffer then Some (EFI_INVALID_PARAMETER, Some bs, [], s)
        else do {
          (Status, ring) \<leftarrow> (case SearchType of
              AllHandles \<Rightarrow> Some (EFI_SUCCESS, gHandleList s)
            | ByRegisterNotify \<Rightarrow>
                Some (if key = None then EFI_INVALID_PARAMETER else EFI_SUCCESS, gHandleList s)
            | ByProtocol \<Rightarrow>
                (case Protocol of
                   None \<Rightarrow> Some (EFI_INVALID_PARAMETER, gHandleList s)
                 | Some g \<Rightarrow> do {
                     ProtEntry \<leftarrow> lookup_entry s g;
                     case ProtEntry of
                       None \<Rightarrow> Some (EFI_NOT_FOUND, gHandleList s)
                     | Some e \<Rightarrow> do { ent \<leftarrow> ents s e; Some (EFI_SUCCESS, eProtocols ent) }
                   })
            | OtherSearch \<Rightarrow> Some (EFI_INVALID_PARAMETER, gHandleList s));
          if EFI_ERROR Status then Some (Status, Some bs, [], s)
          else do {
            let s = s\<lparr>mEfiLocateHandleRequest := mEfiLocateHandleRequest s + 1\<rparr>;
            (ResultSize, ResultBuffer, s) \<leftarrow>
              locate_loop SearchType bs \<lparr>SearchKey = key, ahead = ring\<rparr> 0 [] s;
            if ResultSize = 0 then Some (EFI_NOT_FOUND, Some bs, ResultBuffer, s)
            else do {
              let Status = (if ResultSize > bs then EFI_BUFFER_TOO_SMALL else Status);
              s \<leftarrow> (if SearchType = ByRegisterNotify \<and> \<not> EFI_ERROR Status
                   then do { n \<leftarrow> key; advance_position n s } else Some s);
              Some (Status, Some ResultSize, ResultBuffer, s)
            }
          }
        })"

text \<open>
  nums and want are whether NumberHandles and Buffer are not NULL.  The results are the
  status, *NumberHandles, the contents of the allocated buffer (None: *Buffer is NULL) and the
  database.
\<close>

definition SmmLocateHandleBuffer ::
  "(nat \<Rightarrow> bool) \<Rightarrow> search \<Rightarrow> guid option \<Rightarrow> nat option \<Rightarrow> bool \<Rightarrow> bool \<Rightarrow> 'f pdb \<Rightarrow>
     (efi_status \<times> nat \<times> nat list option \<times> 'f pdb) option" where
  "SmmLocateHandleBuffer oom SearchType Protocol key nums want s =
     (if \<not> nums \<or> \<not> want then Some (EFI_INVALID_PARAMETER, 0, None, s)
      else do {
        (Status, BufferSize, _, s) \<leftarrow> SmmLocateHandle SearchType Protocol key (Some 0) False s;
        if EFI_ERROR Status \<and> Status \<noteq> EFI_BUFFER_TOO_SMALL
        then Some (if Status \<noteq> EFI_INVALID_PARAMETER then EFI_NOT_FOUND else Status, 0, None, s)
        else (let (p, s) = Allocate oom s
          in case p of
               None \<Rightarrow> Some (EFI_OUT_OF_RESOURCES, 0, None, s)
             | Some _ \<Rightarrow> do {
                 (Status, BufferSize, written, s) \<leftarrow> SmmLocateHandle SearchType Protocol key BufferSize True s;
                 bs \<leftarrow> BufferSize;
                 Some (Status, if EFI_ERROR Status then 0 else bs div 8, Some written, s)
               })
      })"

subsection \<open>Invariant\<close>

text \<open>
  The entries of the database have different protocols; every object is in the ring it
  belongs to, once, and rings hold only objects that name them; an interface's handle has no
  second interface of the same protocol; the position of a notification is a link of its
  protocol's ring; no handle carries a request number that has not been given out.
\<close>

definition ents_ok :: "'f pdb \<Rightarrow> bool" where
  "ents_ok s \<longleftrightarrow>
     distinct (mProtocolDatabase s) \<and> set (mProtocolDatabase s) = dom (ents s) \<and>
     inj_on (\<lambda>e. ProtocolID (the (ents s e))) (dom (ents s)) \<and>
     (\<forall>e ent. ents s e = Some ent \<longrightarrow> distinct (eProtocols ent) \<and> distinct (eNotify ent) \<and>
        (\<forall>i. i \<in> set (eProtocols ent) \<longleftrightarrow> (\<exists>p. pifs s i = Some p \<and> iProtocol p = e)) \<and>
        (\<forall>n. n \<in> set (eNotify ent) \<longleftrightarrow> (\<exists>nt. nots s n = Some nt \<and> nProtocol nt = e)))"

definition hnds_ok :: "'f pdb \<Rightarrow> bool" where
  "hnds_ok s \<longleftrightarrow>
     distinct (gHandleList s) \<and> set (gHandleList s) = dom (hnds s) \<and>
     (\<forall>h hr. hnds s h = Some hr \<longrightarrow> hProtocols hr \<noteq> [] \<and> distinct (hProtocols hr) \<and>
        LocateRequest hr \<le> mEfiLocateHandleRequest s \<and>
        (\<forall>i. i \<in> set (hProtocols hr) \<longleftrightarrow> (\<exists>p. pifs s i = Some p \<and> iHandle p = h)))"

definition objs_ok :: "'f pdb \<Rightarrow> bool" where
  "objs_ok s \<longleftrightarrow>
     (\<forall>i p. pifs s i = Some p \<longrightarrow> iHandle p \<in> dom (hnds s) \<and> iProtocol p \<in> dom (ents s)) \<and>
     inj_on (\<lambda>i. (iHandle (the (pifs s i)), iProtocol (the (pifs s i)))) (dom (pifs s)) \<and>
     (\<forall>n nt. nots s n = Some nt \<longrightarrow> (\<exists>ent. ents s (nProtocol nt) = Some ent \<and>
        (\<forall>i. Position nt = Some i \<longrightarrow> i \<in> set (eProtocols ent))))"

definition addrs_ok :: "'f pdb \<Rightarrow> bool" where
  "addrs_ok s \<longleftrightarrow> dom (ents s) \<union> dom (hnds s) \<union> dom (pifs s) \<union> dom (nots s) \<subseteq> {..<next_addr s}"

definition pdb_inv :: "'f pdb \<Rightarrow> bool" where
  "pdb_inv s \<longleftrightarrow> ents_ok s \<and> hnds_ok s \<and> objs_ok s \<and> addrs_ok s"

lemma pdb_init_inv: "pdb_inv pdb_init"
  by (simp add: pdb_inv_def ents_ok_def hnds_ok_def objs_ok_def addrs_ok_def pdb_init_def)

subsection \<open>What the database means\<close>

text \<open>The handles and interfaces of a protocol, in the order of their installation.\<close>

definition entry_of :: "'f pdb \<Rightarrow> guid \<Rightarrow> nat option" where
  "entry_of s g = find (\<lambda>e. ProtocolID (the (ents s e)) = g) (mProtocolDatabase s)"

definition pair_of :: "'f pdb \<Rightarrow> nat \<Rightarrow> nat \<times> nat" where
  "pair_of s i = (iHandle (the (pifs s i)), Interface (the (pifs s i)))"

definition ring_of :: "'f pdb \<Rightarrow> nat \<Rightarrow> nat list" where
  "ring_of s e = eProtocols (the (ents s e))"

definition provides :: "'f pdb \<Rightarrow> guid \<Rightarrow> (nat \<times> nat) list" where
  "provides s g = (case entry_of s g of None \<Rightarrow> [] | Some e \<Rightarrow> map (pair_of s) (ring_of s e))"

text \<open>The interfaces a registration has not been given yet.\<close>

definition after :: "nat option \<Rightarrow> nat list \<Rightarrow> nat list" where
  "after pos xs = (case pos of None \<Rightarrow> xs | Some i \<Rightarrow> tl (dropWhile (\<lambda>j. j \<noteq> i) xs))"

definition pending :: "'f pdb \<Rightarrow> nat \<Rightarrow> (nat \<times> nat) list" where
  "pending s n = (case nots s n of None \<Rightarrow> []
     | Some nt \<Rightarrow> map (pair_of s) (after (Position nt) (ring_of s (nProtocol nt))))"

lemma after_split: "distinct (as @ i # bs) \<Longrightarrow> after (Some i) (as @ i # bs) = bs"
proof -
  assume "distinct (as @ i # bs)"
  then have "dropWhile (\<lambda>j. j \<noteq> i) (as @ i # bs) = i # bs"
    by (induction as) auto
  then show ?thesis by (simp add: after_def)
qed

lemma after_append:
  assumes "\<And>i. pos = Some i \<Longrightarrow> i \<in> set xs"
  shows "after pos (xs @ ys) = after pos xs @ ys"
proof (cases pos)
  case (Some i)
  then have "i \<in> set xs" using assms by simp
  then have "dropWhile (\<lambda>j. j \<noteq> i) (xs @ ys) = dropWhile (\<lambda>j. j \<noteq> i) xs @ ys"
    "dropWhile (\<lambda>j. j \<noteq> i) xs \<noteq> []"
    by (auto simp: dropWhile_eq_Nil_conv)
  then show ?thesis using Some by (simp add: after_def)
qed (simp add: after_def)

lemma set_after: "set (after pos xs) \<subseteq> set xs"
proof (cases pos)
  case (Some i)
  have "set (tl ys) \<subseteq> set ys" for ys :: "nat list" by (cases ys) auto
  then show ?thesis
    using Some set_dropWhileD[of _ "\<lambda>j. j \<noteq> i" xs] by (fastforce simp: after_def)
qed (simp add: after_def)

lemma after_last: "distinct xs \<Longrightarrow> after (last_of xs) xs = []"
  by (cases xs rule: rev_cases) (auto simp: after_split[of _ _ "[]"], simp add: after_def)

text \<open>The next link of a position, and the position after it.\<close>

definition link_after :: "nat option \<Rightarrow> nat list \<Rightarrow> nat option option" where
  "link_after pos xs = (case pos of None \<Rightarrow> Some (first_of xs) | Some i \<Rightarrow> forward_link i xs)"

lemma link_after_pending:
  assumes "distinct xs" "\<And>i. pos = Some i \<Longrightarrow> i \<in> set xs"
  shows "link_after pos xs = Some (first_of (after pos xs))"
    "after pos xs = y # ys \<Longrightarrow> after (Some y) xs = ys \<and> y \<in> set xs"
proof -
  have *: "\<exists>as. xs = as @ after pos xs \<and> link_after pos xs = Some (first_of (after pos xs))"
  proof (cases pos)
    case None
    then show ?thesis by (intro exI[of _ "[]"]) (simp add: after_def link_after_def)
  next
    case (Some i)
    then obtain as bs where xs: "xs = as @ i # bs" using assms(2) by (auto dest: split_list)
    then show ?thesis
      using Some assms(1) after_split[of as i bs] forward_link_split[of as i bs]
      by (intro exI[of _ "as @ [i]"]) (auto simp: link_after_def first_of_def)
  qed
  then show "link_after pos xs = Some (first_of (after pos xs))" by blast
  show "after (Some y) xs = ys \<and> y \<in> set xs" if "after pos xs = y # ys"
  proof -
    obtain as where "xs = as @ after pos xs" using * by blast
    then have "xs = as @ y # ys" by (simp only: that)
    then show ?thesis using assms(1) after_split[of as y ys] by auto
  qed
qed

text \<open>Removing an element from the ring after backing up the positions at it removes it from
  what is pending.\<close>

lemma after_remove:
  assumes "distinct (as @ i # bs)" "\<And>j. pos = Some j \<Longrightarrow> j \<in> set (as @ i # bs)"
  shows "after (if pos = Some i then (if as = [] then None else Some (last as)) else pos) (as @ bs) =
    filter (\<lambda>j. j \<noteq> i) (after pos (as @ i # bs))"
proof -
  have keep: "filter (\<lambda>j. j \<noteq> i) bs = bs" and keepa: "filter (\<lambda>j. j \<noteq> i) as = as"
    using assms(1) by (auto simp: filter_id_conv)
  show ?thesis
  proof (cases "pos = Some i")
    case True
    have "after (if as = [] then None else Some (last as)) (as @ bs) = bs"
    proof (cases as rule: rev_cases)
      case (snoc cs c)
      then show ?thesis using assms(1) after_split[of cs c bs] by simp
    qed (simp add: after_def)
    then show ?thesis using True after_split[OF assms(1)] keep by simp
  next
    case False
    show ?thesis
    proof (cases pos)
      case None
      then show ?thesis using keep keepa by (simp add: after_def)
    next
      case (Some j)
      then have j: "j \<in> set as \<or> j \<in> set bs" using assms(2) False by auto
      then show ?thesis
      proof
        assume "j \<in> set as"
        then obtain cs ds where as: "as = cs @ j # ds" by (auto dest: split_list)
        have "after (Some j) (as @ bs) = ds @ bs" "after (Some j) (as @ i # bs) = ds @ i # bs"
          using assms(1) as after_split[of cs j "ds @ bs"] after_split[of cs j "ds @ i # bs"] by auto
        moreover have "filter (\<lambda>j. j \<noteq> i) ds = ds" using assms(1) as by (auto simp: filter_id_conv)
        ultimately show ?thesis using Some False keep by simp
      next
        assume "j \<in> set bs"
        then obtain cs ds where bs: "bs = cs @ j # ds" by (auto dest: split_list)
        have "after (Some j) (as @ bs) = ds" "after (Some j) (as @ i # bs) = ds"
          using assms(1) bs after_split[of "as @ cs" j ds] after_split[of "as @ i # cs" j ds] by auto
        moreover have "filter (\<lambda>j. j \<noteq> i) ds = ds" using assms(1) bs by (auto simp: filter_id_conv)
        ultimately show ?thesis using Some False by simp
      qed
    qed
  qed
qed

subsection \<open>Lookups under the invariant\<close>

lemma entry_of_iff:
  assumes "ents_ok s"
  shows "entry_of s g = Some e \<longleftrightarrow> (\<exists>ent. ents s e = Some ent \<and> ProtocolID ent = g)"
proof -
  have "inj_on (\<lambda>e. ProtocolID (the (ents s e))) (set (mProtocolDatabase s))"
    "set (mProtocolDatabase s) = dom (ents s)"
    using assms by (simp_all add: ents_ok_def)
  then show ?thesis unfolding entry_of_def by (subst find_unique) auto
qed

lemma entry_of_None:
  assumes "ents_ok s" "entry_of s g = None"
  shows "ents s e = Some ent \<Longrightarrow> ProtocolID ent \<noteq> g"
  using entry_of_iff[OF assms(1), of g e] assms(2) by auto

lemma walk_entries:
  assumes "ents_ok s"
  shows "walk (ents s) (\<lambda>Item. Some (ProtocolID Item = g)) (mProtocolDatabase s) = Some (entry_of s g)"
  unfolding entry_of_def using assms by (intro walk_find) (auto simp: ents_ok_def)

lemma lookup_entry_of: "ents_ok s \<Longrightarrow> lookup_entry s g = Some (entry_of s g)"
  by (simp add: lookup_entry_def SmmFindProtocolEntry_def walk_entries)

lemma ring_of_mem:
  assumes "ents_ok s" "ents s e = Some ent"
  shows "i \<in> set (ring_of s e) \<longleftrightarrow> (\<exists>p. pifs s i = Some p \<and> iProtocol p = e)" "distinct (ring_of s e)"
  using assms by (auto simp: ents_ok_def ring_of_def)

lemma provides_mem:
  assumes "ents_ok s"
  shows "(h, x) \<in> set (provides s g) \<longleftrightarrow>
    (\<exists>i p. pifs s i = Some p \<and> iHandle p = h \<and> Interface p = x \<and> entry_of s g = Some (iProtocol p))"
proof (cases "entry_of s g")
  case None
  then show ?thesis by (simp add: provides_def)
next
  case (Some e)
  then obtain ent where "ents s e = Some ent" using entry_of_iff[OF assms] by blast
  from ring_of_mem(1)[OF assms this] Some show ?thesis
    by (auto simp: provides_def pair_of_def image_iff) (metis option.sel)+
qed

text \<open>A handle has at most one interface of a protocol.\<close>

lemma interface_unique:
  assumes "pdb_inv s" "pifs s i = Some p" "pifs s j = Some q" "iHandle p = iHandle q"
    "iProtocol p = iProtocol q"
  shows "i = j"
proof -
  have "inj_on (\<lambda>i. (iHandle (the (pifs s i)), iProtocol (the (pifs s i)))) (dom (pifs s))"
    using assms(1) by (simp add: pdb_inv_def objs_ok_def)
  then show ?thesis by (rule inj_onD) (use assms in auto)
qed

lemma provides_functional:
  assumes "pdb_inv s"
  shows "distinct (map fst (provides s g))"
proof (cases "entry_of s g")
  case None
  then show ?thesis by (simp add: provides_def)
next
  case (Some e)
  have eok: "ents_ok s" using assms by (simp add: pdb_inv_def)
  obtain ent where ent: "ents s e = Some ent" using entry_of_iff[OF eok] Some by blast
  have "inj_on (\<lambda>i. iHandle (the (pifs s i))) (set (ring_of s e))"
  proof (rule inj_onI)
    fix i j assume "i \<in> set (ring_of s e)" "j \<in> set (ring_of s e)"
      and eq: "iHandle (the (pifs s i)) = iHandle (the (pifs s j))"
    then obtain p q where pq: "pifs s i = Some p" "pifs s j = Some q" "iProtocol p = e" "iProtocol q = e"
      using ring_of_mem(1)[OF eok ent] by blast
    show "i = j" by (rule interface_unique[OF assms pq(1,2)]) (use eq pq in simp_all)
  qed
  with ring_of_mem(2)[OF eok ent] Some show ?thesis
    by (simp add: provides_def pair_of_def o_def distinct_map)
qed

lemma find_by_protocol:
  assumes inv: "pdb_inv s" and h: "hnds s h = Some hr" and e: "entry_of s g = Some e"
  shows "find (\<lambda>i. iProtocol (the (pifs s i)) = e) (hProtocols hr) = Some i \<longleftrightarrow>
    (\<exists>p. pifs s i = Some p \<and> iHandle p = h \<and> iProtocol p = e)"
proof -
  have mem: "i \<in> set (hProtocols hr) \<longleftrightarrow> (\<exists>p. pifs s i = Some p \<and> iHandle p = h)" for i
    using inv h by (simp add: pdb_inv_def hnds_ok_def)
  show ?thesis
  proof
    assume "find (\<lambda>i. iProtocol (the (pifs s i)) = e) (hProtocols hr) = Some i"
    then show "\<exists>p. pifs s i = Some p \<and> iHandle p = h \<and> iProtocol p = e"
      using mem[of i] by (auto dest!: find_Some_in)
  next
    assume "\<exists>p. pifs s i = Some p \<and> iHandle p = h \<and> iProtocol p = e"
    then obtain p where p: "pifs s i = Some p" "iHandle p = h" "iProtocol p = e" by blast
    then have i: "i \<in> set (hProtocols hr)" using mem by blast
    show "find (\<lambda>i. iProtocol (the (pifs s i)) = e) (hProtocols hr) = Some i"
    proof (cases "find (\<lambda>i. iProtocol (the (pifs s i)) = e) (hProtocols hr)")
      case None
      then show ?thesis using i p by (auto simp: find_None_iff)
    next
      case (Some j)
      then obtain q where "pifs s j = Some q" "iHandle q = h" "iProtocol q = e"
        using mem[of j] by (auto dest!: find_Some_in)
      with interface_unique[OF inv p(1), of j q] p Some show ?thesis by simp
    qed
  qed
qed

text \<open>The interface object of a protocol on a handle.\<close>

lemma SmmGetProtocolInterface_eq:
  assumes inv: "pdb_inv s" and h: "hnds s h = Some hr"
  shows "\<exists>r. SmmGetProtocolInterface s (Some h) g = Some r \<and>
    (\<forall>i. r = Some i \<longleftrightarrow> (\<exists>p. pifs s i = Some p \<and> iHandle p = h \<and> entry_of s g = Some (iProtocol p)))"
proof -
  have eok: "ents_ok s" using inv by (simp add: pdb_inv_def)
  have mem: "i \<in> set (hProtocols hr) \<longleftrightarrow> (\<exists>p. pifs s i = Some p \<and> iHandle p = h)" for i
    using inv h by (simp add: pdb_inv_def hnds_ok_def)
  have "walk (pifs s)
      (\<lambda>Prot. do { ProtEntry \<leftarrow> ents s (iProtocol Prot); Some (ProtocolID ProtEntry = g) })
      (hProtocols hr) = Some (find (\<lambda>i. entry_of s g = Some (iProtocol (the (pifs s i)))) (hProtocols hr))"
  proof (rule walk_find)
    fix i assume "i \<in> set (hProtocols hr)"
    then obtain p where p: "pifs s i = Some p" using mem by blast
    obtain ent where ent: "ents s (iProtocol p) = Some ent"
      using inv p unfolding pdb_inv_def objs_ok_def by blast
    have "entry_of s g = Some (iProtocol p) \<longleftrightarrow> ProtocolID ent = g"
      using entry_of_iff[OF eok, of g "iProtocol p"] ent by simp
    then show "\<exists>x. pifs s i = Some x \<and>
        Option.bind (ents s (iProtocol x)) (\<lambda>ProtEntry. Some (ProtocolID ProtEntry = g)) =
        Some (entry_of s g = Some (iProtocol (the (pifs s i))))"
      using p ent by simp
  qed
  then have get: "SmmGetProtocolInterface s (Some h) g =
      Some (find (\<lambda>i. entry_of s g = Some (iProtocol (the (pifs s i)))) (hProtocols hr))"
    using h by (simp add: SmmGetProtocolInterface_def SmmValidateHandle_def)
  show ?thesis
  proof (cases "entry_of s g")
    case None
    then show ?thesis using get by (intro exI[of _ None]) (auto simp: find_None_iff)
  next
    case (Some e)
    then have "find (\<lambda>i. entry_of s g = Some (iProtocol (the (pifs s i)))) (hProtocols hr) =
        find (\<lambda>i. iProtocol (the (pifs s i)) = e) (hProtocols hr)"
      by (intro find_cong) auto
    then show ?thesis using get find_by_protocol[OF inv h Some] Some by auto
  qed
qed

subsection \<open>Steps that keep the invariant\<close>

lemma pdb_invD:
  assumes "pdb_inv s"
  shows "ents_ok s" "hnds_ok s" "objs_ok s" "addrs_ok s"
  using assms by (simp_all add: pdb_inv_def)

lemma fresh_addr:
  assumes "pdb_inv s" "next_addr s \<le> a"
  shows "ents s a = None" "hnds s a = None" "pifs s a = None" "nots s a = None"
  using pdb_invD(4)[OF assms(1)] assms(2) by (auto simp: addrs_ok_def dom_def subset_iff not_le)

lemma obj_links:
  assumes "pdb_inv s"
  shows "pifs s i = Some p \<Longrightarrow> \<exists>hr. hnds s (iHandle p) = Some hr"
    "pifs s i = Some p \<Longrightarrow> \<exists>ent. ents s (iProtocol p) = Some ent"
    "nots s n = Some nt \<Longrightarrow> \<exists>ent. ents s (nProtocol nt) = Some ent \<and>
       (\<forall>i. Position nt = Some i \<longrightarrow> i \<in> set (eProtocols ent))"
  using pdb_invD(3)[OF assms] unfolding objs_ok_def by blast+

text \<open>Only the counters change.\<close>

lemma provides_cong:
  assumes "ents s' = ents s" "mProtocolDatabase s' = mProtocolDatabase s" "pifs s' = pifs s"
  shows "provides s' = provides s" "entry_of s' = entry_of s" "nots s' = nots s \<Longrightarrow> pending s' = pending s"
  using assms
  by (auto simp: provides_def entry_of_def ring_of_def pair_of_def pending_def fun_eq_iff
      split: option.splits)

lemma alloc_ok:
  assumes "pdb_inv s"
  shows "pdb_inv (s\<lparr>next_addr := next_addr s + n\<rparr>)"
  using assms unfolding pdb_inv_def ents_ok_def hnds_ok_def objs_ok_def addrs_ok_def
  by (auto simp: subset_iff intro: less_le_trans)

lemma Allocate_cases:
  obtains "oom (next_addr s)" "Allocate oom s = (None, s\<lparr>next_addr := next_addr s + 1\<rparr>)"
  | "\<not> oom (next_addr s)" "Allocate oom s = (Some (next_addr s), s\<lparr>next_addr := next_addr s + 1\<rparr>)"
  by (cases "oom (next_addr s)") (simp_all add: Allocate_def)

lemma pdb_new_entry_ok:
  assumes inv: "pdb_inv s" and none: "entry_of s g = None"
    and s': "s' = s\<lparr>next_addr := next_addr s + 1,
      ents := (ents s)(next_addr s \<mapsto> \<lparr>ProtocolID = g, eProtocols = [], eNotify = []\<rparr>),
      mProtocolDatabase := mProtocolDatabase s @ [next_addr s]\<rparr>"
  shows "pdb_inv s'" "entry_of s' g = Some (next_addr s)" "provides s' = provides s"
    "pending s' = pending s"
proof -
  let ?p = "next_addr s"
  note ok = pdb_invD[OF inv]
  note fr = fresh_addr[OF inv order_refl]
  have ents: "ents s' e = (if e = ?p then Some \<lparr>ProtocolID = g, eProtocols = [], eNotify = []\<rparr> else ents s e)" for e
    by (simp add: s')
  have same: "hnds s' = hnds s" "pifs s' = pifs s" "nots s' = nots s" "gHandleList s' = gHandleList s"
    "mEfiLocateHandleRequest s' = mEfiLocateHandleRequest s" "next_addr s' = Suc ?p"
    "mProtocolDatabase s' = mProtocolDatabase s @ [?p]"
    by (simp_all add: s')
  have nop: "iProtocol p \<noteq> ?p" if "pifs s i = Some p" for i p
    using obj_links(2)[OF inv that] fr(1) by auto
  have non: "nProtocol nt \<noteq> ?p" if "nots s n = Some nt" for n nt
    using obj_links(3)[OF inv that] fr(1) by auto
  have id: "ProtocolID ent \<noteq> g" if "ents s e = Some ent" for e ent
    using entry_of_None[OF ok(1) none that] .
  have dom: "dom (ents s') = insert ?p (dom (ents s))" by (auto simp: ents dom_def)
  have inj: "inj_on (\<lambda>e. ProtocolID (the (ents s' e))) (dom (ents s'))"
  proof -
    have "inj_on (\<lambda>e. ProtocolID (the (ents s' e))) (dom (ents s)) \<longleftrightarrow>
        inj_on (\<lambda>e. ProtocolID (the (ents s e))) (dom (ents s))"
      using fr(1) by (intro inj_on_cong) (auto simp: ents)
    moreover have "inj_on (\<lambda>e. ProtocolID (the (ents s e))) (dom (ents s))"
      using ok(1) by (simp add: ents_ok_def)
    ultimately show ?thesis
      unfolding dom inj_on_insert by (auto simp: ents image_iff dest: id)
  qed
  have old: "distinct (eProtocols ent) \<and> distinct (eNotify ent) \<and>
      (\<forall>i. i \<in> set (eProtocols ent) \<longleftrightarrow> (\<exists>p. pifs s i = Some p \<and> iProtocol p = e)) \<and>
      (\<forall>n. n \<in> set (eNotify ent) \<longleftrightarrow> (\<exists>nt. nots s n = Some nt \<and> nProtocol nt = e))"
    if "ents s e = Some ent" for e ent
    using ok(1) that unfolding ents_ok_def by blast
  have lst: "distinct (mProtocolDatabase s)" "set (mProtocolDatabase s) = dom (ents s)"
    using ok(1) by (simp_all add: ents_ok_def)
  have "ents_ok s'"
    unfolding ents_ok_def dom same
  proof (intro conjI allI impI)
    show "distinct (mProtocolDatabase s @ [?p])" using lst fr(1) by auto
    show "set (mProtocolDatabase s @ [?p]) = insert ?p (dom (ents s))" using lst by auto
    show "inj_on (\<lambda>e. ProtocolID (the (ents s' e))) (insert ?p (dom (ents s)))"
      using inj unfolding dom .
  qed (use old nop non in \<open>auto simp: ents split: if_splits\<close>)
  moreover have "hnds_ok s'" using ok(2) by (simp add: hnds_ok_def same)
  moreover have "objs_ok s'"
    unfolding objs_ok_def same dom
  proof (intro conjI allI impI)
    show "inj_on (\<lambda>i. (iHandle (the (pifs s i)), iProtocol (the (pifs s i)))) (dom (pifs s))"
      using ok(3) by (simp add: objs_ok_def)
  next
    fix n nt assume nt: "nots s n = Some nt"
    then show "\<exists>ent. ents s' (nProtocol nt) = Some ent \<and>
        (\<forall>i. Position nt = Some i \<longrightarrow> i \<in> set (eProtocols ent))"
      using obj_links(3)[OF inv nt] non[OF nt] by (simp add: ents)
  qed (use obj_links(1,2)[OF inv] in \<open>auto simp: dom_def\<close>)
  moreover have "addrs_ok s'" using ok(4) unfolding addrs_ok_def same dom by auto
  ultimately show inv': "pdb_inv s'" by (simp add: pdb_inv_def)
  note iff' = entry_of_iff[OF pdb_invD(1)[OF inv']] and iff = entry_of_iff[OF ok(1)]
  show g: "entry_of s' g = Some ?p" unfolding iff' by (simp add: ents)
  have other: "entry_of s' g' = entry_of s g'" if "g' \<noteq> g" for g'
  proof -
    have "entry_of s' g' = Some e \<longleftrightarrow> entry_of s g' = Some e" for e
      unfolding iff iff' using that fr(1) by (auto simp: ents)
    then show ?thesis by (metis option.exhaust)
  qed
  have ring: "ring_of s' e = (if e = ?p then [] else ring_of s e)" "pair_of s' = pair_of s" for e
    by (auto simp: ring_of_def pair_of_def ents same fun_eq_iff)
  have "provides s' g' = provides s g'" for g'
  proof (cases "g' = g")
    case True
    then show ?thesis using none g ring by (simp add: provides_def)
  next
    case False
    have "entry_of s g' \<noteq> Some ?p" using fr(1) unfolding iff by simp
    then show ?thesis using other[OF False] ring by (auto simp: provides_def split: option.splits)
  qed
  then show "provides s' = provides s" by (rule ext)
  show "pending s' = pending s"
    using non by (auto simp: fun_eq_iff pending_def same ring split: option.splits)
qed

text \<open>
  A new interface on a handle that has none of its protocol: the handle exists, or it is new
  and goes to the end of the handle list.
\<close>

lemma add_interface_ok:
  assumes inv: "pdb_inv s" and ent: "ents s e = Some ent" and i: "pifs s i = None" "i < next_addr s"
    and hnd: "hnds s h = Some hr \<and> gl = gHandleList s \<or>
      hnds s h = None \<and> hr = \<lparr>hProtocols = [], LocateRequest = 0\<rparr> \<and> gl = gHandleList s @ [h] \<and> h < next_addr s"
    and others: "\<forall>j p. pifs s j = Some p \<longrightarrow> \<not> (iHandle p = h \<and> iProtocol p = e)"
    and s': "s' = s\<lparr>gHandleList := gl,
      pifs := (pifs s)(i \<mapsto> \<lparr>iHandle = h, iProtocol = e, Interface = x\<rparr>),
      hnds := (hnds s)(h \<mapsto> hr\<lparr>hProtocols := i # hProtocols hr\<rparr>),
      ents := (ents s)(e \<mapsto> ent\<lparr>eProtocols := eProtocols ent @ [i]\<rparr>)\<rparr>"
  shows "pdb_inv s'" "provides s' = (provides s)(ProtocolID ent := provides s (ProtocolID ent) @ [(h, x)])"
    "pending s' n = (if (\<exists>nt. nots s n = Some nt \<and> nProtocol nt = e) then pending s n @ [(h, x)] else pending s n)"
proof -
  note new = others[rule_format]
  note ok = pdb_invD[OF inv]
  have pifs: "pifs s' j = (if j = i then Some \<lparr>iHandle = h, iProtocol = e, Interface = x\<rparr> else pifs s j)"
    and hnds: "hnds s' k = (if k = h then Some (hr\<lparr>hProtocols := i # hProtocols hr\<rparr>) else hnds s k)"
    and ents: "ents s' d = (if d = e then Some (ent\<lparr>eProtocols := eProtocols ent @ [i]\<rparr>) else ents s d)" for j k d
    by (simp_all add: s')
  have same: "nots s' = nots s" "gHandleList s' = gl" "mEfiLocateHandleRequest s' = mEfiLocateHandleRequest s"
    "next_addr s' = next_addr s" "mProtocolDatabase s' = mProtocolDatabase s"
    by (simp_all add: s')
  have dome: "dom (ents s') = dom (ents s)" using ent by (auto simp: ents dom_def)
  have pid: "ProtocolID (the (ents s' d)) = ProtocolID (the (ents s d))" for d using ent by (simp add: ents)
  have entD: "distinct (eProtocols ent') \<and> distinct (eNotify ent') \<and>
      (\<forall>i. i \<in> set (eProtocols ent') \<longleftrightarrow> (\<exists>p. pifs s i = Some p \<and> iProtocol p = d)) \<and>
      (\<forall>n. n \<in> set (eNotify ent') \<longleftrightarrow> (\<exists>nt. nots s n = Some nt \<and> nProtocol nt = d))"
    if "ents s d = Some ent'" for d ent'
    using ok(1) that unfolding ents_ok_def by blast
  have "ents_ok s'"
    unfolding ents_ok_def dome same pid
  proof (intro conjI allI impI)
    show "distinct (mProtocolDatabase s)" "set (mProtocolDatabase s) = dom (ents s)"
      "inj_on (\<lambda>d. ProtocolID (the (ents s d))) (dom (ents s))"
      using ok(1) by (simp_all add: ents_ok_def)
  qed (use entD i entD[OF ent] in \<open>auto simp: ents pifs split: if_splits\<close>)
  moreover have "hnds_ok s'"
  proof -
    have memh: "\<forall>j. j \<in> set (hProtocols hr) \<longleftrightarrow> (\<exists>p. pifs s j = Some p \<and> iHandle p = h)"
      "distinct (hProtocols hr)" "LocateRequest hr \<le> mEfiLocateHandleRequest s"
      using hnd ok(2) obj_links(1)[OF inv] by (fastforce simp: hnds_ok_def)+
    have lst: "distinct gl" "set gl = insert h (dom (hnds s))"
      using hnd ok(2) by (auto simp: hnds_ok_def)
    have domh: "dom (hnds s') = insert h (dom (hnds s))" by (auto simp: hnds dom_def)
    have old: "hProtocols h2 \<noteq> [] \<and> distinct (hProtocols h2) \<and> LocateRequest h2 \<le> mEfiLocateHandleRequest s \<and>
        (\<forall>i. i \<in> set (hProtocols h2) \<longleftrightarrow> (\<exists>p. pifs s i = Some p \<and> iHandle p = k))"
      if "hnds s k = Some h2" for k h2
      using ok(2) that unfolding hnds_ok_def by blast
    show ?thesis
      unfolding hnds_ok_def same domh using lst
    proof (intro conjI allI impI)
    qed (use memh i old in \<open>auto simp: hnds pifs split: if_splits\<close>)
  qed
  moreover have "objs_ok s'"
  proof -
    have domp: "dom (pifs s') = insert i (dom (pifs s))" by (auto simp: pifs dom_def)
    have "inj_on (\<lambda>i. (iHandle (the (pifs s' i)), iProtocol (the (pifs s' i)))) (dom (pifs s)) \<longleftrightarrow>
        inj_on (\<lambda>i. (iHandle (the (pifs s i)), iProtocol (the (pifs s i)))) (dom (pifs s))"
      using i by (intro inj_on_cong) (auto simp: pifs)
    moreover have "inj_on (\<lambda>i. (iHandle (the (pifs s i)), iProtocol (the (pifs s i)))) (dom (pifs s))"
      using ok(3) by (simp add: objs_ok_def)
    ultimately have inj: "inj_on (\<lambda>i. (iHandle (the (pifs s' i)), iProtocol (the (pifs s' i)))) (dom (pifs s'))"
      using i unfolding domp inj_on_insert by (auto simp: pifs image_iff dest: new)
    show ?thesis
      unfolding objs_ok_def same dome
    proof (intro conjI allI impI inj)
      fix j p assume "pifs s' j = Some p"
      then show "iHandle p \<in> dom (hnds s')" "iProtocol p \<in> dom (ents s)"
        using obj_links(1,2)[OF inv, of j p] ent by (auto simp: pifs hnds dom_def split: if_splits)
    next
      fix n nt assume "nots s n = Some nt"
      then show "\<exists>ent. ents s' (nProtocol nt) = Some ent \<and>
          (\<forall>i. Position nt = Some i \<longrightarrow> i \<in> set (eProtocols ent))"
        using obj_links(3)[OF inv, of n nt] ent by (auto simp: ents)
    qed
  qed
  moreover have "addrs_ok s'"
  proof -
    have "dom (pifs s') = insert i (dom (pifs s))" "dom (hnds s') = insert h (dom (hnds s))"
      by (auto simp: pifs hnds dom_def)
    moreover have "h < next_addr s" using hnd ok(4) by (auto simp: addrs_ok_def)
    ultimately show ?thesis using ok(4) i(2) by (simp add: addrs_ok_def same dome)
  qed
  ultimately show "pdb_inv s'" by (simp add: pdb_inv_def)
  have eo: "entry_of s' = entry_of s" by (simp add: fun_eq_iff entry_of_def same pid)
  have ring: "ring_of s' d = (if d = e then ring_of s e @ [i] else ring_of s d)" for d
    using ent by (simp add: ring_of_def ents)
  have notin: "i \<notin> set (ring_of s d)" if "ents s d \<noteq> None" for d
    using that ring_of_mem(1)[OF ok(1), of d] i by auto
  have pair: "map (pair_of s') xs = map (pair_of s) xs" if "i \<notin> set xs" for xs
    using that by (auto simp: pair_of_def pifs)
  have pairi: "pair_of s' i = (h, x)" by (simp add: pair_of_def pifs)
  show "provides s' = (provides s)(ProtocolID ent := provides s (ProtocolID ent) @ [(h, x)])"
  proof
    fix g
    show "provides s' g = ((provides s)(ProtocolID ent := provides s (ProtocolID ent) @ [(h, x)])) g"
    proof (cases "entry_of s g")
      case None
      then have "g \<noteq> ProtocolID ent" using entry_of_None[OF ok(1) _ ent] by auto
      then show ?thesis using None by (simp add: provides_def eo)
    next
      case (Some d)
      then obtain ent' where d: "ents s d = Some ent'" "ProtocolID ent' = g"
        using entry_of_iff[OF ok(1)] by blast
      have eq: "d = e \<longleftrightarrow> g = ProtocolID ent"
        using entry_of_iff[OF ok(1), of g e] unfolding Some by (simp add: ent) metis
      have old: "map (pair_of s') (ring_of s d) = map (pair_of s) (ring_of s d)"
        using notin[of d] d(1) by (intro pair) simp
      show ?thesis
      proof (cases "d = e")
        case True
        then show ?thesis using Some eq old pairi by (simp add: provides_def eo ring)
      next
        case False
        then show ?thesis using Some eq old by (simp add: provides_def eo ring)
      qed
    qed
  qed
  show "pending s' n = (if (\<exists>nt. nots s n = Some nt \<and> nProtocol nt = e) then pending s n @ [(h, x)] else pending s n)"
  proof (cases "nots s n")
    case None
    then show ?thesis by (simp add: pending_def same)
  next
    case (Some nt)
    obtain ent' where e': "ents s (nProtocol nt) = Some ent'"
      "\<forall>i. Position nt = Some i \<longrightarrow> i \<in> set (ring_of s (nProtocol nt))"
      using obj_links(3)[OF inv Some] by (auto simp: ring_of_def)
    have old: "map (pair_of s') (after (Position nt) (ring_of s (nProtocol nt))) =
        map (pair_of s) (after (Position nt) (ring_of s (nProtocol nt)))"
      using notin[of "nProtocol nt"] e'(1) set_after[of "Position nt" "ring_of s (nProtocol nt)"]
      by (intro pair) auto
    have "after (Position nt) (ring_of s (nProtocol nt) @ [i]) = after (Position nt) (ring_of s (nProtocol nt)) @ [i]"
      using e'(2) by (intro after_append) auto
    then show ?thesis
      using Some old pairi by (cases "nProtocol nt = e") (simp_all add: pending_def same ring)
  qed
qed

end
