(* ===== verification/Protocol_Ops.thy ===== *)
theory Protocol_Ops
  imports Protocol_Db
begin

text \<open>
  What the operations of the SMM protocol database do to the handles and interfaces it
  provides and to the interfaces its registrations still have to be given.
\<close>

subsection \<open>Removing an interface\<close>

lemma back_up_eq:
  assumes "distinct Links" "\<And>n. n \<in> set Links \<Longrightarrow> ns n \<noteq> None" "back_link None Prot ring = Some b"
  shows "back_up Prot ring Links ns = Some (\<lambda>n.
    case ns n of None \<Rightarrow> None
    | Some nt \<Rightarrow> Some (if n \<in> set Links \<and> Position nt = Some Prot then nt\<lparr>Position := b\<rparr> else nt))"
  using assms(1,2)
proof (induction Links arbitrary: ns)
  case Nil
  then show ?case by (auto simp: fun_eq_iff split: option.splits)
next
  case (Cons m Links)
  obtain nt where nt: "ns m = Some nt" using Cons.prems(2)[of m] by auto
  let ?ns = "if Position nt = Some Prot then ns(m \<mapsto> nt\<lparr>Position := b\<rparr>) else ns"
  have "back_up Prot ring (m # Links) ns = back_up Prot ring Links ?ns"
    using nt assms(3) by simp
  also have "\<dots> = Some (\<lambda>n. case ?ns n of None \<Rightarrow> None
      | Some nt \<Rightarrow> Some (if n \<in> set Links \<and> Position nt = Some Prot then nt\<lparr>Position := b\<rparr> else nt))"
    using Cons.prems by (intro Cons.IH) auto
  also have "\<dots> = Some (\<lambda>n. case ns n of None \<Rightarrow> None
      | Some nt \<Rightarrow> Some (if n \<in> set (m # Links) \<and> Position nt = Some Prot then nt\<lparr>Position := b\<rparr> else nt))"
    using nt Cons.prems(1) by (auto simp: fun_eq_iff split: option.splits)
  finally show ?case .
qed

text \<open>The state after an interface object is taken out of its rings and freed.\<close>

definition without :: "'f pdb \<Rightarrow> nat \<Rightarrow> 'f pdb" where
  "without s i =
     (let p = the (pifs s i); e = iProtocol p; h = iHandle p; ent = the (ents s e); hr = the (hnds s h);
          b = the (back_link None i (eProtocols ent)); left = remove1 i (hProtocols hr)
      in s\<lparr>pifs := (pifs s)(i := None),
           ents := (ents s)(e \<mapsto> ent\<lparr>eProtocols := remove1 i (eProtocols ent)\<rparr>),
           nots := (\<lambda>n. case nots s n of None \<Rightarrow> None
              | Some nt \<Rightarrow> Some (if Position nt = Some i then nt\<lparr>Position := b\<rparr> else nt)),
           hnds := (if left = [] then (hnds s)(h := None) else (hnds s)(h \<mapsto> hr\<lparr>hProtocols := left\<rparr>)),
           gHandleList := (if left = [] then remove1 h (gHandleList s) else gHandleList s)\<rparr>)"


lemma remove1_neq: "distinct xs \<Longrightarrow> remove1 x xs = filter (\<lambda>y. y \<noteq> x) xs"
  by (induction xs) (auto simp: filter_id_conv intro!: filter_True[symmetric])

lemma without_ok:
  assumes inv: "pdb_inv s" and p: "pifs s i = Some p"
  shows "pdb_inv (without s i)"
    "entry_of s g = Some (iProtocol p) \<Longrightarrow>
       provides (without s i) = (provides s)(g := filter (\<lambda>q. fst q \<noteq> iHandle p) (provides s g))"
    "pending (without s i) n = (if (\<exists>nt. nots s n = Some nt \<and> nProtocol nt = iProtocol p)
       then filter (\<lambda>q. fst q \<noteq> iHandle p) (pending s n) else pending s n)"
proof -
  let ?s = "without s i" and ?e = "iProtocol p" and ?h = "iHandle p"
  note ok = pdb_invD[OF inv]
  obtain ent hr where ent: "ents s ?e = Some ent" and hr: "hnds s ?h = Some hr"
    using obj_links(1,2)[OF inv p] by blast
  have entD: "distinct (eProtocols ent') \<and> distinct (eNotify ent') \<and>
      (\<forall>i. i \<in> set (eProtocols ent') \<longleftrightarrow> (\<exists>p. pifs s i = Some p \<and> iProtocol p = d)) \<and>
      (\<forall>n. n \<in> set (eNotify ent') \<longleftrightarrow> (\<exists>nt. nots s n = Some nt \<and> nProtocol nt = d))"
    if "ents s d = Some ent'" for d ent'
    using ok(1) that unfolding ents_ok_def by blast
  have hrD: "hProtocols h2 \<noteq> [] \<and> distinct (hProtocols h2) \<and> LocateRequest h2 \<le> mEfiLocateHandleRequest s \<and>
      (\<forall>i. i \<in> set (hProtocols h2) \<longleftrightarrow> (\<exists>p. pifs s i = Some p \<and> iHandle p = k))"
    if "hnds s k = Some h2" for k h2
    using ok(2) that unfolding hnds_ok_def by blast
  have "i \<in> set (eProtocols ent)" using entD[OF ent] p by blast
  then obtain as bs where ring: "eProtocols ent = as @ i # bs" by (auto dest: split_list)
  have dist: "distinct (as @ i # bs)" using entD[OF ent] by (simp add: ring)
  let ?b = "if as = [] then None else Some (last as)"
  have b: "back_link None i (eProtocols ent) = Some ?b"
    unfolding ring by (rule back_link_split[OF dist])
  let ?left = "filter (\<lambda>j. j \<noteq> i) (hProtocols hr)"
  have left: "remove1 i (hProtocols hr) = ?left"
    using hrD[OF hr] by (intro remove1_neq) simp
  have cut: "remove1 i (eProtocols ent) = as @ bs" using dist by (simp add: ring)
  note w = without_def[of s i, unfolded Let_def p option.sel ent hr b left cut]
  have pifs: "pifs ?s = (pifs s)(i := None)"
    and ents: "ents ?s = (ents s)(?e \<mapsto> ent\<lparr>eProtocols := as @ bs\<rparr>)"
    and hnds: "hnds ?s = (if ?left = [] then (hnds s)(?h := None) else (hnds s)(?h \<mapsto> hr\<lparr>hProtocols := ?left\<rparr>))"
    and gl: "gHandleList ?s = (if ?left = [] then remove1 ?h (gHandleList s) else gHandleList s)"
    and nots: "nots ?s = (\<lambda>n. case nots s n of None \<Rightarrow> None
              | Some nt \<Rightarrow> Some (if Position nt = Some i then nt\<lparr>Position := ?b\<rparr> else nt))"
    and same: "mEfiLocateHandleRequest ?s = mEfiLocateHandleRequest s"
    "next_addr ?s = next_addr s" "mProtocolDatabase ?s = mProtocolDatabase s"
    by (simp_all add: w)
  have nots_iff: "(\<exists>nt. nots ?s n = Some nt \<and> nProtocol nt = d) \<longleftrightarrow> (\<exists>nt. nots s n = Some nt \<and> nProtocol nt = d)" for n d
    by (auto simp: nots split: option.splits)
  have domn: "dom (nots ?s) = dom (nots s)" by (auto simp: nots dom_def split: option.splits)
  have dome: "dom (ents ?s) = dom (ents s)" using ent by (auto simp: ents)
  have pid: "ProtocolID (the (ents ?s d)) = ProtocolID (the (ents s d))" for d using ent by (simp add: ents)
  have "ents_ok ?s"
    unfolding ents_ok_def dome same pid nots_iff
  proof (intro conjI allI impI)
    show "distinct (mProtocolDatabase s)" "set (mProtocolDatabase s) = dom (ents s)"
      "inj_on (\<lambda>d. ProtocolID (the (ents s d))) (dom (ents s))"
      using ok(1) by (simp_all add: ents_ok_def)
  next
    fix d ent' assume d: "ents ?s d = Some ent'"
    then obtain ent0 where ent0: "ents s d = Some ent0" "eNotify ent' = eNotify ent0"
      "eProtocols ent' = filter (\<lambda>j. j \<noteq> i) (eProtocols ent0)"
    proof (cases "d = ?e")
      case True
      have "as @ bs = filter (\<lambda>j. j \<noteq> i) (eProtocols ent)"
        unfolding cut[symmetric] using dist by (intro remove1_neq) (simp add: ring)
      then show ?thesis using that[of ent] True d ent by (auto simp: ents)
    next
      case False
      then have "ents s d = Some ent'" using d by (simp add: ents)
      moreover have "i \<notin> set (eProtocols ent')" using entD[OF calculation] p False by auto
      then have "filter (\<lambda>j. j \<noteq> i) (eProtocols ent') = eProtocols ent'" by (auto simp: filter_id_conv)
      ultimately show ?thesis using that[of ent'] by simp
    qed
    show "distinct (eProtocols ent')" "distinct (eNotify ent')"
      "n \<in> set (eNotify ent') \<longleftrightarrow> (\<exists>nt. nots s n = Some nt \<and> nProtocol nt = d)" for n
      using entD[OF ent0(1)] ent0(2,3) by simp_all
    show "j \<in> set (eProtocols ent') \<longleftrightarrow> (\<exists>p. pifs ?s j = Some p \<and> iProtocol p = d)" for j
      using entD[OF ent0(1)] ent0(3) by (simp add: pifs)
  qed
  moreover have "hnds_ok ?s"
    unfolding hnds_ok_def same
  proof (intro conjI allI impI)
    have lst: "distinct (gHandleList s)" "set (gHandleList s) = dom (hnds s)"
      using ok(2) by (simp_all add: hnds_ok_def)
    show "distinct (gHandleList ?s)" using lst by (simp add: gl distinct_remove1)
    show "set (gHandleList ?s) = dom (hnds ?s)"
      using lst hr by (auto simp: gl hnds)
  next
    fix k h2 assume k: "hnds ?s k = Some h2"
    then obtain h0 where h0: "hnds s k = Some h0" "hProtocols h2 = filter (\<lambda>j. j \<noteq> i) (hProtocols h0)"
      "hProtocols h2 \<noteq> []" "LocateRequest h2 = LocateRequest h0"
    proof (cases "k = ?h")
      case True
      then show ?thesis using that[of hr] k hr by (auto simp: hnds split: if_splits)
    next
      case False
      then have k': "hnds s k = Some h2" using k by (simp add: hnds split: if_splits)
      have "i \<notin> set (hProtocols h2)" using hrD[OF k'] p False by auto
      then have "filter (\<lambda>j. j \<noteq> i) (hProtocols h2) = hProtocols h2" by (auto simp: filter_id_conv)
      then show ?thesis using that[of h2] k' hrD[OF k'] by simp
    qed
    show "hProtocols h2 \<noteq> []" by (rule h0(3))
    show "distinct (hProtocols h2)" "LocateRequest h2 \<le> mEfiLocateHandleRequest s"
      using hrD[OF h0(1)] h0 by simp_all
    show "j \<in> set (hProtocols h2) \<longleftrightarrow> (\<exists>p. pifs ?s j = Some p \<and> iHandle p = k)" for j
      using hrD[OF h0(1)] h0(2) by (simp add: pifs)
  qed
  moreover have "objs_ok ?s"
    unfolding objs_ok_def dome
  proof (intro conjI allI impI)
    have "inj_on (\<lambda>j. (iHandle (the (pifs s j)), iProtocol (the (pifs s j)))) (dom (pifs s))"
      using ok(3) by (simp add: objs_ok_def)
    then have "inj_on (\<lambda>j. (iHandle (the (pifs s j)), iProtocol (the (pifs s j)))) (dom (pifs s) - {i})"
      by (rule inj_on_subset) auto
    moreover have "dom (pifs ?s) = dom (pifs s) - {i}" by (auto simp: pifs)
    moreover have "inj_on (\<lambda>j. (iHandle (the (pifs ?s j)), iProtocol (the (pifs ?s j)))) (dom (pifs s) - {i}) \<longleftrightarrow>
        inj_on (\<lambda>j. (iHandle (the (pifs s j)), iProtocol (the (pifs s j)))) (dom (pifs s) - {i})"
      by (intro inj_on_cong) (simp add: pifs)
    ultimately show "inj_on (\<lambda>j. (iHandle (the (pifs ?s j)), iProtocol (the (pifs ?s j)))) (dom (pifs ?s))"
      by simp
  next
    fix j q assume "pifs ?s j = Some q"
    then have j: "pifs s j = Some q" "j \<noteq> i" by (auto simp: pifs split: if_splits)
    then show "iProtocol q \<in> dom (ents s)" using obj_links(2)[OF inv j(1)] by auto
    show "iHandle q \<in> dom (hnds ?s)"
    proof (cases "iHandle q = ?h")
      case True
      then have "j \<in> set (hProtocols hr)" using hrD[OF hr] j by auto
      then have "?left \<noteq> []" using j(2) by (auto simp: filter_empty_conv)
      then show ?thesis using True by (simp add: hnds)
    next
      case False
      then show ?thesis using obj_links(1)[OF inv j(1)] by (auto simp: hnds)
    qed
  next
    fix n nt assume "nots ?s n = Some nt"
    then obtain n0 where n0: "nots s n = Some n0" "nProtocol nt = nProtocol n0"
      "Position nt = (if Position n0 = Some i then ?b else Position n0)"
      by (auto simp: nots split: option.splits)
    obtain ent0 where ent0: "ents s (nProtocol n0) = Some ent0"
      "\<And>j. Position n0 = Some j \<Longrightarrow> j \<in> set (eProtocols ent0)"
      using obj_links(3)[OF inv n0(1)] by blast
    show "\<exists>ent. ents ?s (nProtocol nt) = Some ent \<and> (\<forall>j. Position nt = Some j \<longrightarrow> j \<in> set (eProtocols ent))"
    proof (cases "nProtocol n0 = ?e")
      case True
      then have "eProtocols ent0 = as @ i # bs" using ent0(1) ent ring by simp
      then show ?thesis using True n0 ent0(2) by (auto simp: ents split: if_splits)
    next
      case False
      then have "Position n0 \<noteq> Some i" using ent0 entD[OF ent0(1)] p by auto
      then show ?thesis using False n0 ent0 by (simp add: ents)
    qed
  qed
  moreover have "addrs_ok ?s"
  proof -
    have "dom (pifs ?s) \<subseteq> dom (pifs s)" "dom (hnds ?s) \<subseteq> dom (hnds s)"
      using hr by (auto simp: pifs hnds split: if_splits)
    then show ?thesis using ok(4) unfolding addrs_ok_def dome domn same by blast
  qed
  ultimately show "pdb_inv ?s" by (simp add: pdb_inv_def)
  have eo: "entry_of ?s = entry_of s" by (simp add: fun_eq_iff entry_of_def same pid)
  have ringr: "ring_of ?s d = (if d = ?e then as @ bs else ring_of s d)" "ring_of s ?e = as @ i # bs" for d
    using ent ring by (simp_all add: ring_of_def ents)
  have pair: "map (pair_of ?s) xs = map (pair_of s) xs" if "i \<notin> set xs" for xs
    using that by (auto simp: pair_of_def pifs)
  have other: "fst (pair_of s j) \<noteq> ?h \<longleftrightarrow> j \<noteq> i" if "j \<in> set (as @ i # bs)" for j
  proof -
    have "j \<in> set (eProtocols ent)" using that ring by simp
    then obtain q where q: "pifs s j = Some q" "iProtocol q = ?e" using entD[OF ent] by blast
    show ?thesis using interface_unique[OF inv q(1) p] q p by (auto simp: pair_of_def)
  qed
  have filt: "filter (\<lambda>q. fst q \<noteq> ?h) (map (pair_of s) xs) = map (pair_of s) (filter (\<lambda>j. j \<noteq> i) xs)"
    if "set xs \<subseteq> set (as @ i # bs)" for xs
  proof -
    have "filter ((\<lambda>q. fst q \<noteq> ?h) \<circ> pair_of s) xs = filter (\<lambda>j. j \<noteq> i) xs"
      using that other by (intro filter_cong) auto
    then show ?thesis by (simp add: filter_map)
  qed
  have ab: "filter (\<lambda>j. j \<noteq> i) (as @ i # bs) = as @ bs"
    using remove1_neq[OF dist, of i] dist by simp
  show "provides ?s = (provides s)(g := filter (\<lambda>q. fst q \<noteq> ?h) (provides s g))"
    if g: "entry_of s g = Some ?e"
  proof
    fix g'
    show "provides ?s g' = ((provides s)(g := filter (\<lambda>q. fst q \<noteq> ?h) (provides s g))) g'"
    proof (cases "entry_of s g'")
      case None
      then show ?thesis using g by (auto simp: provides_def eo)
    next
      case (Some d)
      have eq: "d = ?e \<longleftrightarrow> g' = g"
        using entry_of_iff[OF ok(1), of g' ?e] entry_of_iff[OF ok(1), of g ?e] Some g ent by auto
      show ?thesis
      proof (cases "d = ?e")
        case True
        have "filter (\<lambda>q. fst q \<noteq> ?h) (map (pair_of s) (as @ i # bs)) = map (pair_of s) (as @ bs)"
          using filt[of "as @ i # bs"] unfolding ab by simp
        moreover have "map (pair_of ?s) (as @ bs) = map (pair_of s) (as @ bs)" using dist by (intro pair) simp
        ultimately show ?thesis
          using True eq Some g ringr by (simp add: provides_def eo)
      next
        case False
        obtain ent0 where "ents s d = Some ent0" using entry_of_iff[OF ok(1)] Some by blast
        then have "i \<notin> set (ring_of s d)" using ring_of_mem(1)[OF ok(1)] p False by auto
        then show ?thesis using False eq Some ringr pair by (simp add: provides_def eo)
      qed
    qed
  qed
  show "pending ?s n = (if (\<exists>nt. nots s n = Some nt \<and> nProtocol nt = ?e)
       then filter (\<lambda>q. fst q \<noteq> ?h) (pending s n) else pending s n)"
  proof (cases "nots s n")
    case None
    then show ?thesis by (simp add: pending_def nots)
  next
    case (Some nt)
    obtain ent0 where ent0: "ents s (nProtocol nt) = Some ent0"
      "\<And>j. Position nt = Some j \<Longrightarrow> j \<in> set (ring_of s (nProtocol nt))"
      using obj_links(3)[OF inv Some] by (auto simp: ring_of_def)
    show ?thesis
    proof (cases "nProtocol nt = ?e")
      case True
      let ?pos = "Position nt"
      have pos: "\<And>j. ?pos = Some j \<Longrightarrow> j \<in> set (as @ i # bs)" using ent0(2) True ringr(2) by simp
      have "after (if ?pos = Some i then ?b else ?pos) (as @ bs) = filter (\<lambda>j. j \<noteq> i) (after ?pos (as @ i # bs))"
        by (rule after_remove[OF dist pos])
      moreover have "map (pair_of ?s) (filter (\<lambda>j. j \<noteq> i) (after ?pos (as @ i # bs))) =
          map (pair_of s) (filter (\<lambda>j. j \<noteq> i) (after ?pos (as @ i # bs)))"
        by (intro pair) simp
      moreover have "\<dots> = filter (\<lambda>q. fst q \<noteq> ?h) (map (pair_of s) (after ?pos (as @ i # bs)))"
        using set_after[of ?pos "as @ i # bs"] by (intro filt[symmetric]) auto
      ultimately show ?thesis using True Some ringr by (auto simp: pending_def nots)
    next
      case False
      have "i \<notin> set (ring_of s (nProtocol nt))"
        using ring_of_mem(1)[OF ok(1) ent0(1)] p False by auto
      moreover have "Position nt \<noteq> Some i" using ent0(2) calculation by auto
      moreover have "i \<notin> set (after (Position nt) (ring_of s (nProtocol nt)))"
        using calculation(1) set_after by blast
      ultimately show ?thesis using False Some ringr pair by (simp add: pending_def nots)
    qed
  qed
qed


subsection \<open>Lookups\<close>

lemma SmmFindProtocolInterface_eq:
  assumes inv: "pdb_inv s" and h: "hnds s h = Some hr"
  shows "\<exists>r. SmmFindProtocolInterface s h g x = Some r \<and>
    (\<forall>i. r = Some i \<longleftrightarrow> (\<exists>p. pifs s i = Some p \<and> iHandle p = h \<and> Interface p = x \<and>
       entry_of s g = Some (iProtocol p)))"
proof (cases "entry_of s g")
  case None
  then show ?thesis
    using inv by (intro exI[of _ None]) (simp add: SmmFindProtocolInterface_def lookup_entry_of pdb_invD)
next
  case (Some e)
  let ?Q = "\<lambda>i. Interface (the (pifs s i)) = x \<and> iProtocol (the (pifs s i)) = e"
  have mem: "i \<in> set (hProtocols hr) \<longleftrightarrow> (\<exists>p. pifs s i = Some p \<and> iHandle p = h)" for i
    using pdb_invD(2)[OF inv] h by (simp add: hnds_ok_def)
  have "walk (pifs s) (\<lambda>Prot. Some (Interface Prot = x \<and> iProtocol Prot = e)) (hProtocols hr) =
      Some (find ?Q (hProtocols hr))"
    using mem by (intro walk_find) auto
  then have eq: "SmmFindProtocolInterface s h g x = Some (find ?Q (hProtocols hr))"
    using Some h inv by (simp add: SmmFindProtocolInterface_def lookup_entry_of pdb_invD)
  have "find ?Q (hProtocols hr) = Some i \<longleftrightarrow>
      (\<exists>p. pifs s i = Some p \<and> iHandle p = h \<and> Interface p = x \<and> iProtocol p = e)" for i
  proof
    assume "find ?Q (hProtocols hr) = Some i"
    then show "\<exists>p. pifs s i = Some p \<and> iHandle p = h \<and> Interface p = x \<and> iProtocol p = e"
      using mem[of i] by (auto dest!: find_Some_in)
  next
    assume "\<exists>p. pifs s i = Some p \<and> iHandle p = h \<and> Interface p = x \<and> iProtocol p = e"
    then obtain p where p: "pifs s i = Some p" "iHandle p = h" "Interface p = x" "iProtocol p = e" by blast
    then have i: "i \<in> set (hProtocols hr)" using mem by blast
    show "find ?Q (hProtocols hr) = Some i"
    proof (cases "find ?Q (hProtocols hr)")
      case None
      have "?Q i" using p by simp
      with None i show ?thesis unfolding find_None_iff by blast
    next
      case (Some j)
      then obtain q where "pifs s j = Some q" "iHandle q = h" "iProtocol q = e"
        using mem[of j] by (auto dest!: find_Some_in)
      with interface_unique[OF inv p(1), of j q] p Some show ?thesis by simp
    qed
  qed
  then show ?thesis using eq Some by (intro exI[of _ "find ?Q (hProtocols hr)"]) (simp add: eq_commute[of e])
qed

lemma provides_handle:
  assumes "pdb_inv s" "(h, x) \<in> set (provides s g)"
  shows "\<exists>hr. hnds s h = Some hr"
proof -
  obtain i p where "pifs s i = Some p" "iHandle p = h"
    using provides_mem[OF pdb_invD(1)[OF assms(1)]] assms(2) by blast
  then show ?thesis using obj_links(1)[OF assms(1)] by blast
qed

lemma provides_map_of:
  assumes "pdb_inv s"
  shows "map_of (provides s g) h = Some x \<longleftrightarrow> (h, x) \<in> set (provides s g)"
  using provides_functional[OF assms] by (simp add: map_of_eq_Some_iff)

lemma SmmHandleProtocol_eq:
  assumes inv: "pdb_inv s"
  shows "SmmHandleProtocol s (Some h) (Some g) True =
    Some (if hnds s h = None then (EFI_INVALID_PARAMETER, Some 0)
          else case map_of (provides s g) h of None \<Rightarrow> (EFI_UNSUPPORTED, Some 0)
            | Some x \<Rightarrow> (EFI_SUCCESS, Some x))"
proof (cases "hnds s h")
  case None
  then show ?thesis by (simp add: SmmHandleProtocol_def SmmValidateHandle_def)
next
  case (Some hr)
  obtain r where r: "SmmGetProtocolInterface s (Some h) g = Some r"
    "\<And>i. r = Some i \<longleftrightarrow> (\<exists>p. pifs s i = Some p \<and> iHandle p = h \<and> entry_of s g = Some (iProtocol p))"
    using SmmGetProtocolInterface_eq[OF inv Some] by blast
  show ?thesis
  proof (cases r)
    case None
    have "(h, x) \<notin> set (provides s g)" for x
      using None r(2) unfolding provides_mem[OF pdb_invD(1)[OF inv]] by blast
    then have "map_of (provides s g) h = None" by (auto simp: map_of_eq_None_iff)
    then show ?thesis using r(1) None Some by (simp add: SmmHandleProtocol_def SmmValidateHandle_def)
  next
    case (Some i)
    then obtain p where p: "pifs s i = Some p" "iHandle p = h" "entry_of s g = Some (iProtocol p)"
      using r(2) by blast
    then have "map_of (provides s g) h = Some (Interface p)"
      using provides_mem[OF pdb_invD(1)[OF inv], of h "Interface p" g] by (auto simp: provides_map_of[OF inv])
    then show ?thesis using r(1) Some p \<open>hnds s h = Some hr\<close>
      by (simp add: SmmHandleProtocol_def SmmValidateHandle_def)
  qed
qed

text \<open>A handle is in the database exactly while it has a protocol.\<close>

lemma live_handles:
  assumes inv: "pdb_inv s"
  shows "set (gHandleList s) = {h. \<exists>g x. (h, x) \<in> set (provides s g)}"
proof -
  note ok = pdb_invD[OF inv]
  have "(\<exists>g x. (h, x) \<in> set (provides s g)) \<longleftrightarrow> hnds s h \<noteq> None" for h
  proof
    assume "hnds s h \<noteq> None"
    then obtain hr where hr: "hnds s h = Some hr" by auto
    then obtain i p where p: "pifs s i = Some p" "iHandle p = h"
      using ok(2) unfolding hnds_ok_def by (metis list.set_intros(1) neq_Nil_conv)
    obtain ent where "ents s (iProtocol p) = Some ent" using obj_links(2)[OF inv p(1)] by blast
    then have "entry_of s (ProtocolID ent) = Some (iProtocol p)" by (simp add: entry_of_iff[OF ok(1)])
    then show "\<exists>g x. (h, x) \<in> set (provides s g)" using provides_mem[OF ok(1)] p by blast
  qed (use provides_handle[OF inv] in auto)
  then show ?thesis using ok(2) by (auto simp: hnds_ok_def dom_def)
qed

subsection \<open>Uninstallation\<close>

lemma without_step:
  assumes inv: "pdb_inv s" and i: "pifs s i = Some p" and g: "entry_of s g = Some (iProtocol p)"
  shows "SmmUninstallProtocolInterface (Some (iHandle p)) (Some g) (Interface p) s = Some (EFI_SUCCESS, without s i)"
proof -
  note ok = pdb_invD[OF inv]
  let ?e = "iProtocol p" and ?h = "iHandle p"
  obtain ent hr where ent: "ents s ?e = Some ent" and hr: "hnds s ?h = Some hr"
    using obj_links(1,2)[OF inv i] by blast
  have entD: "distinct (eProtocols ent) \<and> distinct (eNotify ent) \<and> i \<in> set (eProtocols ent) \<and>
      (\<forall>n. n \<in> set (eNotify ent) \<longleftrightarrow> (\<exists>nt. nots s n = Some nt \<and> nProtocol nt = ?e))"
    using ok(1) ent i unfolding ents_ok_def by blast
  obtain as bs where ring: "eProtocols ent = as @ i # bs" using entD by (auto dest: split_list)
  have b: "back_link None i (eProtocols ent) = Some (if as = [] then None else Some (last as))"
    unfolding ring using entD by (intro back_link_split) (simp add: ring)
  have find: "SmmFindProtocolInterface s ?h g (Interface p) = Some (Some i)"
  proof -
    obtain r where "SmmFindProtocolInterface s ?h g (Interface p) = Some r"
      "\<And>i. r = Some i \<longleftrightarrow> (\<exists>q. pifs s i = Some q \<and> iHandle q = ?h \<and> Interface q = Interface p \<and>
         entry_of s g = Some (iProtocol q))"
      using SmmFindProtocolInterface_eq[OF inv hr, of g "Interface p"] by blast
    moreover have "r = Some i" using calculation(2)[of i] i g by blast
    ultimately show ?thesis by simp
  qed
  let ?ns = "\<lambda>n. case nots s n of None \<Rightarrow> None
      | Some nt \<Rightarrow> Some (if Position nt = Some i then nt\<lparr>Position := the (back_link None i (eProtocols ent))\<rparr> else nt)"
  have "back_up i (eProtocols ent) (eNotify ent) (nots s) = Some (\<lambda>n. case nots s n of None \<Rightarrow> None
      | Some nt \<Rightarrow> Some (if n \<in> set (eNotify ent) \<and> Position nt = Some i
          then nt\<lparr>Position := the (back_link None i (eProtocols ent))\<rparr> else nt))"
    using entD b by (intro back_up_eq) auto
  also have "\<dots> = Some ?ns"
  proof -
    have "nProtocol nt = ?e" if nt: "nots s n = Some nt" and pos: "Position nt = Some i" for n nt
    proof -
      obtain ent0 where "ents s (nProtocol nt) = Some ent0" "i \<in> set (eProtocols ent0)"
        using obj_links(3)[OF inv nt] pos by blast
      then show ?thesis using ok(1) i unfolding ents_ok_def by fastforce
    qed
    then show ?thesis using entD by (auto simp: fun_eq_iff split: option.splits)
  qed
  finally have "SmmRemoveInterfaceFromProtocol ?h g (Interface p) s = Some (Some i, s\<lparr>nots := ?ns,
      ents := (ents s)(?e \<mapsto> ent\<lparr>eProtocols := remove1 i (eProtocols ent)\<rparr>)\<rparr>)"
    using find i ent entD by (simp add: SmmRemoveInterfaceFromProtocol_def)
  then show ?thesis
    using find hr ent i
    by (auto simp: SmmUninstallProtocolInterface_def SmmValidateHandle_def without_def Let_def
        intro!: pdb.equality cong: if_cong option.case_cong)
qed

definition registered :: "'f pdb \<Rightarrow> nat \<Rightarrow> guid \<Rightarrow> bool" where
  "registered s n g \<longleftrightarrow> (\<exists>nt. nots s n = Some nt \<and> entry_of s g = Some (nProtocol nt))"

lemma pending_provides:
  assumes "pdb_inv s" "registered s n g"
  shows "set (pending s n) \<subseteq> set (provides s g)"
proof -
  obtain nt where nt: "nots s n = Some nt" "entry_of s g = Some (nProtocol nt)"
    using assms(2) by (auto simp: registered_def)
  then show ?thesis using set_after[of "Position nt"] by (auto simp: pending_def provides_def)
qed

lemma SmmUninstallProtocolInterface_eq:
  assumes inv: "pdb_inv s"
  shows "\<exists>s'. SmmUninstallProtocolInterface (Some h) (Some g) x s =
      Some (if hnds s h = None then EFI_INVALID_PARAMETER
            else if (h, x) \<in> set (provides s g) then EFI_SUCCESS else EFI_NOT_FOUND, s') \<and>
    pdb_inv s' \<and> provides s' = (provides s)(g := filter (\<lambda>q. q \<noteq> (h, x)) (provides s g)) \<and>
    (\<forall>n. pending s' n = (if registered s n g then filter (\<lambda>q. q \<noteq> (h, x)) (pending s n) else pending s n))"
proof (cases "(h, x) \<in> set (provides s g)")
  case False
  then have keep: "filter (\<lambda>q. q \<noteq> (h, x)) (provides s g) = provides s g" by (auto simp: filter_id_conv)
  have keepn: "filter (\<lambda>q. q \<noteq> (h, x)) (pending s n) = pending s n" if "registered s n g" for n
    using False pending_provides[OF inv that] by (auto simp: filter_id_conv)
  have "SmmUninstallProtocolInterface (Some h) (Some g) x s =
      Some (if hnds s h = None then EFI_INVALID_PARAMETER else EFI_NOT_FOUND, s)"
  proof (cases "hnds s h")
    case (Some hr)
    obtain r where r: "SmmFindProtocolInterface s h g x = Some r"
      "\<And>i. r = Some i \<longleftrightarrow> (\<exists>p. pifs s i = Some p \<and> iHandle p = h \<and> Interface p = x \<and> entry_of s g = Some (iProtocol p))"
      using SmmFindProtocolInterface_eq[OF inv Some] by blast
    have "r = None"
      using r(2) False provides_mem[OF pdb_invD(1)[OF inv], of h x g] by (cases r) auto
    then show ?thesis using r(1) Some by (simp add: SmmUninstallProtocolInterface_def SmmValidateHandle_def)
  qed (simp add: SmmUninstallProtocolInterface_def SmmValidateHandle_def)
  then show ?thesis using inv False keep keepn by auto
next
  case True
  then obtain i p where p: "pifs s i = Some p" "iHandle p = h" "Interface p = x" "entry_of s g = Some (iProtocol p)"
    using provides_mem[OF pdb_invD(1)[OF inv], of h x g] by blast
  obtain hr where hr: "hnds s h = Some hr" using provides_handle[OF inv True] by blast
  have uni: "q \<noteq> (h, x) \<longleftrightarrow> fst q \<noteq> h" if "q \<in> set (provides s g)" for q
  proof -
    have "inj_on fst (set (provides s g))" using provides_functional[OF inv] by (simp add: distinct_map)
    then have "fst q = fst (h, x) \<longleftrightarrow> q = (h, x)" using that True by (rule inj_on_eq_iff)
    then show ?thesis by simp
  qed
  have f1: "filter (\<lambda>q. q \<noteq> (h, x)) (provides s g) = filter (\<lambda>q. fst q \<noteq> h) (provides s g)"
    using uni by (intro filter_cong) auto
  have reg: "(\<exists>nt. nots s n = Some nt \<and> nProtocol nt = iProtocol p) \<longleftrightarrow> registered s n g" for n
    using p(4) by (auto simp: registered_def)
  have f2: "filter (\<lambda>q. q \<noteq> (h, x)) (pending s n) = filter (\<lambda>q. fst q \<noteq> h) (pending s n)"
    if "registered s n g" for n
    using uni pending_provides[OF inv that] by (intro filter_cong) auto
  show ?thesis
    using without_step[OF inv p(1,4)] without_ok[OF inv p(1)] True hr p f1 f2 reg
    by (intro exI[of _ "without s i"]) auto
qed

end
