(* ===== verification/Protocol_Props.thy ===== *)
theory Protocol_Props
  imports Protocol_Ops
begin

text \<open>
  Installation, notification and search in the SMM protocol database, and the properties of
  the database.
\<close>

subsection \<open>Notification\<close>

text \<open>A notifier whose functions do not use the database themselves.\<close>

definition quiet :: "('f, 'e) notifier \<Rightarrow> bool" where
  "quiet invoke \<longleftrightarrow> (\<forall>f g x h env s. \<exists>env'. invoke f g x h env s = Some (env', s))"

text \<open>Every notification of the protocol is called once, in the order of registration.\<close>

definition told :: "('f, 'e) notifier \<Rightarrow> 'f pdb \<Rightarrow> guid \<Rightarrow> nat \<Rightarrow> nat \<Rightarrow> 'e \<Rightarrow> 'e" where
  "told invoke s g h x env =
     (case entry_of s g of None \<Rightarrow> env
      | Some e \<Rightarrow> fold (\<lambda>n env. fst (the (invoke (Function (the (nots s n))) g x h env s))) (eNotify (the (ents s e))) env)"

lemma notify_loop_quiet:
  assumes "quiet invoke" "ents s e = Some ent" "pifs s i = Some p" "distinct (eNotify ent)"
    "\<And>n. n \<in> set (eNotify ent) \<Longrightarrow> nots s n \<noteq> None"
  shows "eNotify ent = pre @ post \<Longrightarrow> notify_loop invoke e i (first_of post) env s =
    Some (fold (\<lambda>n env. fst (the (invoke (Function (the (nots s n))) (ProtocolID ent) (Interface p) (iHandle p) env s))) post env, s)"
proof (induction post arbitrary: pre env)
  case Nil
  then show ?case by (simp add: notify_loop.simps)
next
  case (Cons n post)
  obtain nt where nt: "nots s n = Some nt" using assms(5)[of n] Cons.prems by auto
  obtain env' where call: "invoke (Function nt) (ProtocolID ent) (Interface p) (iHandle p) env s = Some (env', s)"
    using assms(1) unfolding quiet_def by blast
  have "forward_link n (eNotify ent) = Some (first_of post)"
    unfolding Cons.prems using forward_link_split[of pre n post] assms(4)
    by (simp add: Cons.prems first_of_def)
  then have "notify_loop invoke e i (first_of (n # post)) env s = notify_loop invoke e i (first_of post) env' s"
    using nt call assms(2,3) by (subst notify_loop.simps) simp
  then show ?case using Cons.IH[of "pre @ [n]" env'] Cons.prems nt call by simp
qed

lemma SmmNotifyProtocol_quiet:
  assumes inv: "pdb_inv s" and q: "quiet invoke" and p: "pifs s i = Some p" and g: "entry_of s g = Some (iProtocol p)"
  shows "SmmNotifyProtocol invoke i env s = Some (told invoke s g (iHandle p) (Interface p) env, s)"
proof -
  obtain ent where ent: "ents s (iProtocol p) = Some ent" "ProtocolID ent = g"
    using g entry_of_iff[OF pdb_invD(1)[OF inv]] by blast
  have "distinct (eNotify ent)" "\<And>n. n \<in> set (eNotify ent) \<Longrightarrow> nots s n \<noteq> None"
    using pdb_invD(1)[OF inv] ent(1) unfolding ents_ok_def by fastforce+
  from notify_loop_quiet[OF q ent(1) p this, of "[]" "eNotify ent" env]
  show ?thesis using p g ent by (simp add: SmmNotifyProtocol_def told_def)
qed

subsection \<open>Installation\<close>

lemma SmmFindProtocolEntry_create:
  assumes inv: "pdb_inv s"
  obtains (found) e where "SmmFindProtocolEntry oom g True s = Some (Some e, s)" "entry_of s g = Some e"
  | (oom) "SmmFindProtocolEntry oom g True s = Some (None, s\<lparr>next_addr := next_addr s + 1\<rparr>)"
      "entry_of s g = None" "oom (next_addr s)"
  | (new) e s' where "SmmFindProtocolEntry oom g True s = Some (Some e, s')" "entry_of s' g = Some e"
      "pdb_inv s'" "provides s' = provides s" "pending s' = pending s" "hnds s' = hnds s" "nots s' = nots s"
      "gHandleList s' = gHandleList s" "pifs s' = pifs s" "ents s e = None" "entry_of s g = None"
proof (cases "entry_of s g")
  case (Some e)
  then show ?thesis
    using found walk_entries[OF pdb_invD(1)[OF inv], of g] by (simp add: SmmFindProtocolEntry_def)
next
  case None
  note w = walk_entries[OF pdb_invD(1)[OF inv], of g]
  show ?thesis
  proof (cases "oom (next_addr s)")
    case True
    then show ?thesis using oom None w by (simp add: SmmFindProtocolEntry_def Allocate_def)
  next
    case False
    let ?s = "s\<lparr>next_addr := next_addr s + 1,
      ents := (ents s)(next_addr s \<mapsto> \<lparr>ProtocolID = g, eProtocols = [], eNotify = []\<rparr>),
      mProtocolDatabase := mProtocolDatabase s @ [next_addr s]\<rparr>"
    note ok = pdb_new_entry_ok[OF inv None refl]
    have "SmmFindProtocolEntry oom g True s = Some (Some (next_addr s), ?s)"
      using None w False by (simp add: SmmFindProtocolEntry_def Allocate_def)
    from new[OF this ok(2,1,3,4)] fresh_addr(1)[OF inv order_refl] None show ?thesis by simp
  qed
qed

text \<open>The last part of an installation: the new interface is linked.\<close>

definition install_link :: "guid \<Rightarrow> nat \<Rightarrow> nat \<Rightarrow> nat \<Rightarrow> nat \<Rightarrow> 'f pdb \<Rightarrow> 'f pdb option" where
  "install_link g x e i h t = do {
      clash \<leftarrow> SmmFindProtocolInterface t h g x;
      ASSERT (clash = None);
      hr \<leftarrow> hnds t h;
      ent \<leftarrow> ents t e;
      Some (t\<lparr>pifs := (pifs t)(i \<mapsto> \<lparr>iHandle = h, iProtocol = e, Interface = x\<rparr>),
              hnds := (hnds t)(h \<mapsto> hr\<lparr>hProtocols := i # hProtocols hr\<rparr>),
              ents := (ents t)(e \<mapsto> ent\<lparr>eProtocols := eProtocols ent @ [i]\<rparr>)\<rparr>)
    }"

lemma install_last:
  assumes inv: "pdb_inv s" and g: "entry_of s g = Some e"
    and i: "pifs s i = None" "i < next_addr s"
    and hnd: "hnds s h = Some hr \<and> gl = gHandleList s \<or>
      hnds s h = None \<and> hr = \<lparr>hProtocols = [], LocateRequest = 0\<rparr> \<and> gl = gHandleList s @ [h] \<and> h < next_addr s"
    and free: "\<And>x. (h, x) \<notin> set (provides s g)"
    and t: "t = s\<lparr>hnds := (hnds s)(h \<mapsto> hr), gHandleList := gl\<rparr>"
  shows "\<exists>s'. install_link g x e i h t = Some s' \<and> pdb_inv s' \<and>
    provides s' = (provides s)(g := provides s g @ [(h, x)]) \<and>
    (\<forall>n. pending s' n = (if registered s n g then pending s n @ [(h, x)] else pending s n)) \<and>
    pifs s' i = Some \<lparr>iHandle = h, iProtocol = e, Interface = x\<rparr> \<and> entry_of s' g = Some e"
proof -
  note ok = pdb_invD[OF inv]
  obtain ent where ent: "ents s e = Some ent" "ProtocolID ent = g" using entry_of_iff[OF ok(1)] g by blast
  have eot: "entry_of t = entry_of s" by (simp add: t entry_of_def fun_eq_iff)
  have clash: "SmmFindProtocolInterface t h g x = Some None"
  proof (cases "hnds s h")
    case None
    have "ents_ok t" using ok(1) by (simp add: t ents_ok_def)
    then show ?thesis
      using None hnd g eot by (simp add: SmmFindProtocolInterface_def lookup_entry_of) (simp add: t)
  next
    case (Some hr')
    then have ts: "t = s" using hnd by (auto simp: t intro!: pdb.equality)
    obtain r where r: "SmmFindProtocolInterface s h g x = Some r"
      "\<And>i. r = Some i \<longleftrightarrow> (\<exists>p. pifs s i = Some p \<and> iHandle p = h \<and> Interface p = x \<and> entry_of s g = Some (iProtocol p))"
      using SmmFindProtocolInterface_eq[OF inv Some] by blast
    have "r = None" using r(2) free[of x] provides_mem[OF ok(1), of h x g] by (cases r) auto
    then show ?thesis using r(1) ts by simp
  qed
  have new: "\<forall>j p. pifs s j = Some p \<longrightarrow> \<not> (iHandle p = h \<and> iProtocol p = e)"
    using free g unfolding provides_mem[OF ok(1)] by blast
  let ?s = "s\<lparr>gHandleList := gl,
      pifs := (pifs s)(i \<mapsto> \<lparr>iHandle = h, iProtocol = e, Interface = x\<rparr>),
      hnds := (hnds s)(h \<mapsto> hr\<lparr>hProtocols := i # hProtocols hr\<rparr>),
      ents := (ents s)(e \<mapsto> ent\<lparr>eProtocols := eProtocols ent @ [i]\<rparr>)\<rparr>"
  note add = add_interface_ok[where x = x, OF inv ent(1) i hnd new refl]
  have reg: "registered s n g \<longleftrightarrow> (\<exists>nt. nots s n = Some nt \<and> nProtocol nt = e)" for n
    using g by (auto simp: registered_def)
  have eg: "entry_of ?s g = Some e"
    using g ent entry_of_iff[OF pdb_invD(1)[OF add(1)], of g e] by simp
  have upd: "t\<lparr>pifs := (pifs t)(i \<mapsto> \<lparr>iHandle = h, iProtocol = e, Interface = x\<rparr>),
                hnds := (hnds t)(h \<mapsto> hr\<lparr>hProtocols := i # hProtocols hr\<rparr>),
                ents := (ents t)(e \<mapsto> ent\<lparr>eProtocols := eProtocols ent @ [i]\<rparr>)\<rparr> = ?s"
    by (simp add: t)
  have here: "hnds t h = Some hr" "ents t e = Some ent" using ent(1) by (simp_all add: t)
  show ?thesis
    using add eg ent(2) reg clash here upd by (simp add: install_link_def)
qed

text \<open>
  The contract of an installation up to the call of SmmNotifyProtocol: it fails and changes nothing a client
  sees, because memory ran out, the handle is not valid or it has the protocol already; or the pair is
  appended to what the protocol provides and to what its registrations have to be given.
\<close>

definition installed ::
  "(nat \<Rightarrow> bool) \<Rightarrow> nat option \<Rightarrow> guid \<Rightarrow> nat \<Rightarrow> 'f pdb \<Rightarrow> efi_status \<times> nat option \<times> 'f pdb \<Rightarrow> bool" where
  "installed oom u g x s r \<longleftrightarrow> (case r of (st, u', s') \<Rightarrow>
     pdb_inv s' \<and>
     (if EFI_ERROR st
      then u' = u \<and> provides s' = provides s \<and> pending s' = pending s \<and>
        ((\<exists>a. oom a) \<or> (\<exists>h. u = Some h \<and> (hnds s h = None \<or> (\<exists>y. (h, y) \<in> set (provides s g)))))
      else st = EFI_SUCCESS \<and> (\<exists>h. u' = Some h \<and>
        (case u of None \<Rightarrow> hnds s h = None | Some h0 \<Rightarrow> h = h0 \<and> hnds s h \<noteq> None) \<and>
        (\<forall>y. (h, y) \<notin> set (provides s g)) \<and>
        provides s' = (provides s)(g := provides s g @ [(h, x)]) \<and>
        (\<forall>n. pending s' n = (if registered s n g then pending s n @ [(h, x)] else pending s n)))))"

text \<open>i is the new interface, which SmmNotifyProtocol announces.\<close>

definition announces :: "guid \<Rightarrow> nat \<Rightarrow> efi_status \<times> nat option \<times> nat \<times> 'f pdb \<Rightarrow> bool" where
  "announces g x r \<longleftrightarrow> (case r of (st, u', i, s') \<Rightarrow> EFI_ERROR st \<or>
     (\<exists>p. pifs s' i = Some p \<and> u' = Some (iHandle p) \<and> entry_of s' g = Some (iProtocol p) \<and> Interface p = x))"

definition outcome :: "('f, 'e) notifier \<Rightarrow> bool \<Rightarrow> 'e \<Rightarrow> efi_status \<times> nat option \<times> nat \<times> 'f pdb \<Rightarrow>
    (efi_status \<times> nat option \<times> 'e \<times> 'f pdb) option" where
  "outcome invoke notify env r = (case r of (st, u', i, s') \<Rightarrow>
     if EFI_ERROR st \<or> \<not> notify then Some (st, u', env, s')
     else map_option (\<lambda>(env, s). (st, u', env, s)) (SmmNotifyProtocol invoke i env s'))"

text \<open>What an installation does, for any notification functions.\<close>

definition installs :: "(nat \<Rightarrow> bool) \<Rightarrow> ('f, 'e) notifier \<Rightarrow> bool \<Rightarrow> nat option \<Rightarrow> guid \<Rightarrow> nat \<Rightarrow> 'e \<Rightarrow> 'f pdb \<Rightarrow>
    (efi_status \<times> nat option \<times> 'e \<times> 'f pdb) option \<Rightarrow> bool" where
  "installs oom invoke notify u g x env s run \<longleftrightarrow> (\<exists>st u' i s'. installed oom u g x s (st, u', s') \<and>
     announces g x (st, u', i, s') \<and> run = outcome invoke notify env (st, u', i, s'))"

lemma installs_error:
  assumes "EFI_ERROR st" "pdb_inv s'" "provides s' = provides s" "pending s' = pending s"
    "(\<exists>a. oom a) \<or> (\<exists>h. u = Some h \<and> (hnds s h = None \<or> (\<exists>y. (h, y) \<in> set (provides s g))))"
  shows "installs oom invoke notify u g x env s (Some (st, u, env, s'))"
proof -
  have "installed oom u g x s (st, u, s')" unfolding installed_def prod.case if_P[OF assms(1)] using assms(2-5) by blast
  moreover have "announces g x (st, u, i, s')" "outcome invoke notify env (st, u, i, s') = Some (st, u, env, s')" for i
    using assms(1) by (simp_all add: announces_def outcome_def)
  ultimately show ?thesis unfolding installs_def by metis
qed

lemma installs_links:
  assumes "install_link g x e i h t = Some s'" "pdb_inv s'" "provides s' = (provides s)(g := provides s g @ [(h, x)])"
    "\<forall>n. pending s' n = (if registered s n g then pending s n @ [(h, x)] else pending s n)"
    "pifs s' i = Some \<lparr>iHandle = h, iProtocol = e, Interface = x\<rparr>" "entry_of s' g = Some e"
    "case u of None \<Rightarrow> hnds s h = None | Some h0 \<Rightarrow> h = h0 \<and> hnds s h \<noteq> None" "\<forall>y. (h, y) \<notin> set (provides s g)"
  shows "installs oom invoke notify u g x env s (do {
      t \<leftarrow> install_link g x e i h t;
      (env, t) \<leftarrow> (if notify then SmmNotifyProtocol invoke i env t else Some (env, t));
      Some (EFI_SUCCESS, Some h, env, t)
    })"
proof -
  have "installed oom u g x s (EFI_SUCCESS, Some h, s')" using assms(2-4,7,8) by (simp add: installed_def)
  moreover have "announces g x (EFI_SUCCESS, Some h, i, s')" using assms(5,6) by (simp add: announces_def)
  moreover have "do {
      t \<leftarrow> install_link g x e i h t;
      (env, t) \<leftarrow> (if notify then SmmNotifyProtocol invoke i env t else Some (env, t));
      Some (EFI_SUCCESS, Some h, env, t)
    } = outcome invoke notify env (EFI_SUCCESS, Some h, i, s')"
    using assms(1) by (cases notify; cases "SmmNotifyProtocol invoke i env s'") (auto simp: outcome_def)
  ultimately show ?thesis unfolding installs_def by blast
qed

text \<open>What an installation does once the protocol has an entry.\<close>

lemma install_known:
  assumes inv: "pdb_inv s" and g: "entry_of s g = Some e"
    and free: "\<And>h x. u = Some h \<Longrightarrow> (h, x) \<notin> set (provides s g)"
    and s0: "SmmFindProtocolEntry oom g True s0 = Some (Some e, s)"
    and st0: "case u of None \<Rightarrow> True | Some h \<Rightarrow> EFI_ERROR st0 \<and>
      SmmHandleProtocol s0 (Some h) (Some g) True = Some (st0, y)"
  shows "installs oom invoke notify u g x env s (SmmInstallProtocolInterfaceNotify oom invoke (Some u) (Some g) True x notify env s0)"
proof -
  let ?i = "next_addr s"
  let ?t = "\<lambda>k. s\<lparr>next_addr := ?i + k\<rparr>"
  have tok: "pdb_inv (?t k)" "provides (?t k) = provides s" "pending (?t k) = pending s"
    "entry_of (?t k) = entry_of s" "registered (?t k) = registered s" for k
    using alloc_ok[OF inv] provides_cong[of "?t k" s] by (auto simp: registered_def fun_eq_iff)
  note tok1 = tok[of 1, simplified] and tok2 = tok[of 2, simplified]
  have start: "SmmInstallProtocolInterfaceNotify oom invoke (Some u) (Some g) True x notify env s0 = X"
    if "(if oom ?i then Some (EFI_OUT_OF_RESOURCES, u, env, ?t 1)
        else let s = ?t 1; (Handle, s) = (case u of Some h \<Rightarrow> (Some h, s)
            | None \<Rightarrow> (let (h, s) = Allocate oom s
                 in case h of None \<Rightarrow> (None, s)
                    | Some h \<Rightarrow> (Some h, s\<lparr>hnds := (hnds s)(h \<mapsto> \<lparr>hProtocols = [], LocateRequest = 0\<rparr>),
                                    gHandleList := gHandleList s @ [h]\<rparr>)))
          in case Handle of None \<Rightarrow> Some (EFI_OUT_OF_RESOURCES, u, env, s)
            | Some h \<Rightarrow> if EFI_ERROR (SmmValidateHandle s (Some h))
                then Some (SmmValidateHandle s (Some h), u, env, s)
                else do {
                  t \<leftarrow> install_link g x e ?i h s;
                  (env, t) \<leftarrow> (if notify then SmmNotifyProtocol invoke ?i env t else Some (env, t));
                  Some (EFI_SUCCESS, Some h, env, t)
                }) = X" for X
  proof (cases u)
    case None
    then show ?thesis
      unfolding that[symmetric] using s0 by (cases notify) (simp_all add: SmmInstallProtocolInterfaceNotify_def Allocate_def Let_def install_link_def)
  next
    case (Some h)
    then have "EFI_ERROR st0" "SmmHandleProtocol s0 (Some h) (Some g) True = Some (st0, y)"
      using st0 by simp_all
    with Some s0 show ?thesis
      unfolding that[symmetric]
      by (cases notify) (simp_all add: SmmInstallProtocolInterfaceNotify_def Allocate_def Let_def install_link_def)
  qed
  have freshi: "pifs (?t k) ?i = None" "0 < k \<Longrightarrow> ?i < next_addr (?t k)" for k
    using fresh_addr(3)[OF inv order_refl] by simp_all
  show ?thesis
  proof (cases "oom ?i")
    case True
    then show ?thesis
      using tok1 by (subst start[OF refl]) (auto intro!: installs_error)
  next
    case False
    note oom = this
    show ?thesis
    proof (cases u)
      case (Some h)
      show ?thesis
      proof (cases "hnds s h")
        case None
        then show ?thesis using Some oom tok1
          by (subst start[OF refl]) (auto simp: SmmValidateHandle_def intro!: installs_error)
      next
        case (Some hr)
        note h = this
        have sup: "?t 1 = (?t 1)\<lparr>hnds := (hnds (?t 1))(h \<mapsto> hr), gHandleList := gHandleList (?t 1)\<rparr>"
          using h by (auto intro!: pdb.equality)
        have "\<exists>s'. install_link g x e ?i h (?t 1) = Some s' \<and> pdb_inv s' \<and>
            provides s' = (provides s)(g := provides s g @ [(h, x)]) \<and>
            (\<forall>n. pending s' n = (if registered s n g then pending s n @ [(h, x)] else pending s n)) \<and>
            pifs s' ?i = Some \<lparr>iHandle = h, iProtocol = e, Interface = x\<rparr> \<and> entry_of s' g = Some e"
          using install_last[where g = g and e = e and x = x,
              OF tok(1)[of 1] _ freshi(1)[of 1] freshi(2)[of 1] _ _ sup, unfolded tok(2-5)] g h free \<open>u = Some h\<close> by simp
        then obtain s' where s': "install_link g x e ?i h (?t 1) = Some s'" "pdb_inv s'"
            "provides s' = (provides s)(g := provides s g @ [(h, x)])"
            "\<forall>n. pending s' n = (if registered s n g then pending s n @ [(h, x)] else pending s n)"
            "pifs s' ?i = Some \<lparr>iHandle = h, iProtocol = e, Interface = x\<rparr>" "entry_of s' g = Some e" by blast
        have c: "case u of None \<Rightarrow> hnds s h = None | Some h0 \<Rightarrow> h = h0 \<and> hnds s h \<noteq> None" "\<forall>y. (h, y) \<notin> set (provides s g)"
          using h free \<open>u = Some h\<close> by simp_all
        show ?thesis
          using installs_links[OF s' c, of oom invoke notify env] oom h \<open>u = Some h\<close>
          by (subst start[OF refl]) (simp add: SmmValidateHandle_def)
      qed
    next
      case None
      let ?h = "?i + 1"
      have nh: "hnds s ?h = None" "hnds s ?i = None" using fresh_addr(2)[OF inv] by simp_all
      show ?thesis
      proof (cases "oom ?h")
        case True
        then show ?thesis using None oom tok2
          by (subst start[OF refl]) (auto simp: Allocate_def intro!: installs_error)
      next
        case False
        let ?hr = "\<lparr>hProtocols = [], LocateRequest = 0\<rparr>"
        let ?tt = "(?t 2)\<lparr>hnds := (hnds (?t 2))(?h \<mapsto> ?hr), gHandleList := gHandleList (?t 2) @ [?h]\<rparr>"
        have nf: "(?h, y) \<notin> set (provides s g)" for y using provides_handle[OF inv, of ?h y g] nh(1) by auto
        have "\<exists>s'. install_link g x e ?i ?h ?tt = Some s' \<and> pdb_inv s' \<and>
            provides s' = (provides s)(g := provides s g @ [(?h, x)]) \<and>
            (\<forall>n. pending s' n = (if registered s n g then pending s n @ [(?h, x)] else pending s n)) \<and>
            pifs s' ?i = Some \<lparr>iHandle = ?h, iProtocol = e, Interface = x\<rparr> \<and> entry_of s' g = Some e"
          using install_last[where g = g and e = e and x = x and h = ?h and hr = ?hr and gl = "gHandleList s @ [?h]",
              OF tok(1)[of 2] _ freshi(1)[of 2] freshi(2)[of 2] _ _ refl, unfolded tok(2-5)] g nh nf by simp
        then obtain s' where s': "install_link g x e ?i ?h ?tt = Some s'" "pdb_inv s'"
            "provides s' = (provides s)(g := provides s g @ [(?h, x)])"
            "\<forall>n. pending s' n = (if registered s n g then pending s n @ [(?h, x)] else pending s n)"
            "pifs s' ?i = Some \<lparr>iHandle = ?h, iProtocol = e, Interface = x\<rparr>" "entry_of s' g = Some e" by blast
        have c: "case u of None \<Rightarrow> hnds s ?h = None | Some h0 \<Rightarrow> ?h = h0 \<and> hnds s ?h \<noteq> None" "\<forall>y. (?h, y) \<notin> set (provides s g)"
          using nh nf None by simp_all
        show ?thesis
          using installs_links[OF s' c, of oom invoke notify env] None oom False
          by (subst start[OF refl]) (simp add: SmmValidateHandle_def Allocate_def)
      qed
    qed
  qed
qed

lemma install_installs:
  assumes inv: "pdb_inv s"
  shows "installs oom invoke notify u g x env s (SmmInstallProtocolInterfaceNotify oom invoke (Some u) (Some g) True x notify env s)"
    (is "?P")
proof -
  have hp: "SmmHandleProtocol s (Some h) (Some g) True =
      Some (if hnds s h = None then (EFI_INVALID_PARAMETER, Some 0)
          else case map_of (provides s g) h of None \<Rightarrow> (EFI_UNSUPPORTED, Some 0)
            | Some x \<Rightarrow> (EFI_SUCCESS, Some x))" for h
    by (rule SmmHandleProtocol_eq[OF inv])
  show ?P
  proof (cases "\<exists>h y. u = Some h \<and> (h, y) \<in> set (provides s g)")
    case True
    then obtain h y where u: "u = Some h" "(h, y) \<in> set (provides s g)" by blast
    then obtain hr where "map_of (provides s g) h = Some y" "hnds s h = Some hr"
      using provides_map_of[OF inv] provides_handle[OF inv u(2)] by auto
    then have "SmmInstallProtocolInterfaceNotify oom invoke (Some u) (Some g) True x notify env s =
        Some (EFI_INVALID_PARAMETER, u, env, s)"
      using u hp[of h] by (simp add: SmmInstallProtocolInterfaceNotify_def)
    moreover have "installs oom invoke notify u g x env s (Some (EFI_INVALID_PARAMETER, u, env, s))"
      using inv u by (intro installs_error) auto
    ultimately show ?P by simp
  next
    case False
    then have free: "\<And>h y. u = Some h \<Longrightarrow> (h, y) \<notin> set (provides s g)" by blast
    obtain st0 y where st0: "case u of None \<Rightarrow> True | Some h \<Rightarrow> EFI_ERROR st0 \<and>
        SmmHandleProtocol s (Some h) (Some g) True = Some (st0, y)"
    proof (cases u)
      case (Some h)
      then have "map_of (provides s g) h = None" using free by (auto simp: map_of_eq_None_iff)
      then show ?thesis using that hp[of h] Some by (cases "hnds s h") auto
    qed (use that in auto)
    show ?P
    proof (rule SmmFindProtocolEntry_create[OF inv, of oom g])
      fix e assume found: "SmmFindProtocolEntry oom g True s = Some (Some e, s)" "entry_of s g = Some e"
      show ?P
        by (rule install_known[OF inv found(2) free found(1) st0])
    next
      assume oom: "SmmFindProtocolEntry oom g True s = Some (None, s\<lparr>next_addr := next_addr s + 1\<rparr>)"
        "entry_of s g = None" "oom (next_addr s)"
      then have "\<exists>st. SmmInstallProtocolInterfaceNotify oom invoke (Some u) (Some g) True x notify env s =
          Some (st, u, env, s\<lparr>next_addr := next_addr s + 1\<rparr>) \<and> EFI_ERROR st"
        using st0 by (cases u) (auto simp: SmmInstallProtocolInterfaceNotify_def)
      moreover have "pdb_inv (s\<lparr>next_addr := next_addr s + 1\<rparr>)" by (rule alloc_ok[OF inv])
      ultimately show ?P
        using provides_cong[of "s\<lparr>next_addr := next_addr s + 1\<rparr>" s] oom(3)
        by (auto intro!: installs_error exI[of _ "next_addr s"])
    next
      fix e s1
      assume new: "SmmFindProtocolEntry oom g True s = Some (Some e, s1)" "entry_of s1 g = Some e"
        "pdb_inv s1" "provides s1 = provides s" "pending s1 = pending s" "hnds s1 = hnds s" "nots s1 = nots s"
        "gHandleList s1 = gHandleList s" "pifs s1 = pifs s" "ents s e = None" "entry_of s g = None"
      have reg: "registered s1 n g = registered s n g" for n
      proof -
        have "\<not> registered s1 n g"
          using obj_links(3)[OF inv, of n] new(2,7,10) by (auto simp: registered_def)
        moreover have "\<not> registered s n g" using new(11) by (simp add: registered_def)
        ultimately show ?thesis by simp
      qed
      have same: "installs oom invoke notify u g x env s1 = installs oom invoke notify u g x env s"
        unfolding fun_eq_iff installs_def installed_def new(4-6) reg by blast
      show ?P
        using install_known[OF new(3,2) _ new(1) st0, of invoke notify x env] free unfolding new(4) same .
    qed
  qed
qed

lemma installs_quietly:
  assumes "installs oom invoke notify u g x env s run" "quiet invoke"
  shows "\<exists>st u' s'. installed oom u g x s (st, u', s') \<and>
    run = Some (st, u', if EFI_ERROR st \<or> \<not> notify then env else told invoke s' g (the u') x env, s')"
proof -
  obtain st u' i s' where r: "installed oom u g x s (st, u', s')" "announces g x (st, u', i, s')"
    "run = outcome invoke notify env (st, u', i, s')" using assms(1) by (auto simp: installs_def)
  have inv: "pdb_inv s'" using r(1) by (simp add: installed_def)
  show ?thesis
  proof (cases "EFI_ERROR st \<or> \<not> notify")
    case True
    then show ?thesis using r by (auto simp: outcome_def)
  next
    case False
    then obtain p where "pifs s' i = Some p" "u' = Some (iHandle p)" "entry_of s' g = Some (iProtocol p)" "Interface p = x"
      using r(2) by (auto simp: announces_def)
    then show ?thesis using False r(1,3) SmmNotifyProtocol_quiet[OF inv assms(2)] by (auto simp: outcome_def)
  qed
qed

text \<open>What every notification function keeps, SmmNotifyProtocol and an installation keep.\<close>

definition keeps :: "('f pdb \<Rightarrow> bool) \<Rightarrow> ('f, 'e) notifier \<Rightarrow> bool" where
  "keeps I invoke \<longleftrightarrow> (\<forall>f g x h env s env' s'. I s \<longrightarrow> invoke f g x h env s = Some (env', s') \<longrightarrow> I s')"

lemma notify_loop_keeps:
  fixes invoke :: "('f, 'e) notifier"
  shows "notify_loop invoke e i l env s = Some r \<Longrightarrow> keeps I invoke \<longrightarrow> I s \<longrightarrow> I (snd r)"
proof (rule notify_loop.raw_induct[where P = "\<lambda>invoke e i l env s r. keeps I invoke \<longrightarrow> I s \<longrightarrow> I (snd r)"])
  fix loop :: "('f, 'e) notifier \<Rightarrow> nat \<Rightarrow> nat \<Rightarrow> nat option \<Rightarrow> 'e \<Rightarrow> 'f pdb \<Rightarrow> ('e \<times> 'f pdb) option"
    and invoke :: "('f, 'e) notifier" and e i l env s r
  assume IH: "\<And>invoke e i l env s r. loop invoke e i l env s = Some r \<Longrightarrow> keeps I invoke \<longrightarrow> I s \<longrightarrow> I (snd r)"
  assume run: "(case l of None \<Rightarrow> Some (env, s)
      | Some n \<Rightarrow>
        Option.bind (nots s n) (\<lambda>ProtNotify.
        Option.bind (ents s e) (\<lambda>ProtEntry.
        Option.bind (pifs s i) (\<lambda>p.
        Option.bind (invoke (Function ProtNotify) (ProtocolID ProtEntry) (Interface p) (iHandle p) env s) (\<lambda>(env, s).
        Option.bind (nots s n) (\<lambda>_.
        Option.bind (ents s e) (\<lambda>ProtEntry.
        Option.bind (forward_link n (eNotify ProtEntry)) (\<lambda>Link.
          loop invoke e i Link env s)))))))) = Some r"
  show "keeps I invoke \<longrightarrow> I s \<longrightarrow> I (snd r)"
  proof (intro impI)
    assume k: "keeps I invoke" and s: "I s"
    show "I (snd r)"
    proof (cases l)
      case None
      then show ?thesis using run s by auto
    next
      case (Some n)
      then obtain f g x h env1 s1 l1 where "invoke f g x h env s = Some (env1, s1)"
        "loop invoke e i l1 env1 s1 = Some r" using run by (auto simp: bind_eq_Some_conv)
      moreover from this(1) have "I s1" using k s unfolding keeps_def by blast
      ultimately show ?thesis using IH k by blast
    qed
  qed
qed

lemma SmmNotifyProtocol_keeps:
  assumes "keeps I invoke" "I s" "SmmNotifyProtocol invoke i env s = Some (env', s')"
  shows "I s'"
  using assms notify_loop_keeps[of invoke _ i _ env s "(env', s')" I] by (auto simp: SmmNotifyProtocol_def bind_eq_Some_conv)

lemma installs_keeps:
  assumes "installs oom invoke notify u g x env s (Some (st, u', env', s'))" "keeps pdb_inv invoke"
  shows "pdb_inv s'"
  using assms SmmNotifyProtocol_keeps[OF assms(2)]
  by (auto simp: installs_def installed_def outcome_def map_option_case split: if_splits option.splits)

subsection \<open>Registration\<close>

lemma add_notify_ok:
  assumes inv: "pdb_inv s" and ent: "ents s e = Some ent" and n: "nots s n = None" "n < next_addr s"
    and s': "s' = s\<lparr>nots := (nots s)(n \<mapsto> \<lparr>nProtocol = e, Function = f, Position = last_of (eProtocols ent)\<rparr>),
      ents := (ents s)(e \<mapsto> ent\<lparr>eNotify := eNotify ent @ [n]\<rparr>)\<rparr>"
  shows "pdb_inv s'" "provides s' = provides s" "pending s' = (pending s)(n := [])" "entry_of s' = entry_of s"
proof -
  note ok = pdb_invD[OF inv]
  have ents: "ents s' d = (if d = e then Some (ent\<lparr>eNotify := eNotify ent @ [n]\<rparr>) else ents s d)"
    and nots: "nots s' m = (if m = n then Some \<lparr>nProtocol = e, Function = f, Position = last_of (eProtocols ent)\<rparr> else nots s m)" for d m
    by (simp_all add: s')
  have same: "pifs s' = pifs s" "hnds s' = hnds s" "gHandleList s' = gHandleList s"
    "mEfiLocateHandleRequest s' = mEfiLocateHandleRequest s" "next_addr s' = next_addr s"
    "mProtocolDatabase s' = mProtocolDatabase s"
    by (simp_all add: s')
  have dome: "dom (ents s') = dom (ents s)" using ent by (auto simp: ents dom_def)
  have pid: "ProtocolID (the (ents s' d)) = ProtocolID (the (ents s d))" for d using ent by (simp add: ents)
  have entD: "distinct (eProtocols ent') \<and> distinct (eNotify ent') \<and>
      (\<forall>i. i \<in> set (eProtocols ent') \<longleftrightarrow> (\<exists>p. pifs s i = Some p \<and> iProtocol p = d)) \<and>
      (\<forall>n. n \<in> set (eNotify ent') \<longleftrightarrow> (\<exists>nt. nots s n = Some nt \<and> nProtocol nt = d))"
    if "ents s d = Some ent'" for d ent'
    using ok(1) that unfolding ents_ok_def by blast
  have "ents_ok s'"
    unfolding ents_ok_def dome same pid
  proof (intro conjI allI impI)
    show "distinct (mProtocolDatabase s)" "set (mProtocolDatabase s) = dom (ents s)"
      "inj_on (\<lambda>d. ProtocolID (the (ents s d))) (dom (ents s))"
      using ok(1) by (simp_all add: ents_ok_def)
  qed (use entD n entD[OF ent] in \<open>auto simp: ents nots split: if_splits\<close>)
  moreover have "hnds_ok s'" using ok(2) by (simp add: hnds_ok_def same)
  moreover have "objs_ok s'"
    unfolding objs_ok_def dome same
  proof (intro conjI allI impI)
    show "inj_on (\<lambda>i. (iHandle (the (pifs s i)), iProtocol (the (pifs s i)))) (dom (pifs s))"
      using ok(3) by (simp add: objs_ok_def)
  next
    fix m nt assume m: "nots s' m = Some nt"
    show "\<exists>ent. ents s' (nProtocol nt) = Some ent \<and> (\<forall>i. Position nt = Some i \<longrightarrow> i \<in> set (eProtocols ent))"
    proof (cases "m = n")
      case True
      then show ?thesis using m by (auto simp: nots ents last_of_def split: if_splits)
    next
      case False
      then show ?thesis using m obj_links(3)[OF inv, of m nt] ent by (auto simp: nots ents)
    qed
  qed (use obj_links(1,2)[OF inv] in \<open>auto simp: dom_def\<close>)
  moreover have "addrs_ok s'"
  proof -
    have "dom (nots s') = insert n (dom (nots s))" by (auto simp: nots dom_def)
    then show ?thesis using ok(4) n(2) by (simp add: addrs_ok_def same dome)
  qed
  ultimately show "pdb_inv s'" by (simp add: pdb_inv_def)
  show eo: "entry_of s' = entry_of s" by (simp add: fun_eq_iff entry_of_def same pid)
  have ring: "ring_of s' = ring_of s" "pair_of s' = pair_of s"
    using ent by (auto simp: ring_of_def pair_of_def ents same fun_eq_iff)
  show "provides s' = provides s" by (simp add: fun_eq_iff provides_def eo ring split: option.splits)
  have "after (last_of (ring_of s e)) (ring_of s e) = []"
    using ring_of_mem(2)[OF ok(1) ent] by (rule after_last)
  then show "pending s' = (pending s)(n := [])"
    using ent by (simp add: fun_eq_iff pending_def nots ring cong: option.case_cong) (simp add: ring_of_def)
qed

lemma del_notify_ok:
  assumes inv: "pdb_inv s" and ent: "ents s e = Some ent" and n: "n \<in> set (eNotify ent)"
    and s': "s' = s\<lparr>nots := (nots s)(n := None), ents := (ents s)(e \<mapsto> ent\<lparr>eNotify := remove1 n (eNotify ent)\<rparr>)\<rparr>"
  shows "pdb_inv s'" "provides s' = provides s" "pending s' = (pending s)(n := [])"
proof -
  note ok = pdb_invD[OF inv]
  have ents: "ents s' d = (if d = e then Some (ent\<lparr>eNotify := remove1 n (eNotify ent)\<rparr>) else ents s d)"
    and nots: "nots s' m = (if m = n then None else nots s m)" for d m
    by (simp_all add: s')
  have same: "pifs s' = pifs s" "hnds s' = hnds s" "gHandleList s' = gHandleList s"
    "mEfiLocateHandleRequest s' = mEfiLocateHandleRequest s" "next_addr s' = next_addr s"
    "mProtocolDatabase s' = mProtocolDatabase s"
    by (simp_all add: s')
  have dome: "dom (ents s') = dom (ents s)" using ent by (auto simp: ents dom_def)
  have pid: "ProtocolID (the (ents s' d)) = ProtocolID (the (ents s d))" for d using ent by (simp add: ents)
  have entD: "distinct (eProtocols ent') \<and> distinct (eNotify ent') \<and>
      (\<forall>i. i \<in> set (eProtocols ent') \<longleftrightarrow> (\<exists>p. pifs s i = Some p \<and> iProtocol p = d)) \<and>
      (\<forall>n. n \<in> set (eNotify ent') \<longleftrightarrow> (\<exists>nt. nots s n = Some nt \<and> nProtocol nt = d))"
    if "ents s d = Some ent'" for d ent'
    using ok(1) that unfolding ents_ok_def by blast
  have home: "nProtocol nt = e" if "nots s n = Some nt" for nt
    using entD[OF ent] n that by auto
  have "ents_ok s'"
    unfolding ents_ok_def dome same pid
  proof (intro conjI allI impI)
    show "distinct (mProtocolDatabase s)" "set (mProtocolDatabase s) = dom (ents s)"
      "inj_on (\<lambda>d. ProtocolID (the (ents s d))) (dom (ents s))"
      using ok(1) by (simp_all add: ents_ok_def)
  next
    fix d ent' assume d: "ents s' d = Some ent'"
    then obtain ent0 where ent0: "ents s d = Some ent0" "eProtocols ent' = eProtocols ent0"
      "eNotify ent' = (if d = e then remove1 n (eNotify ent) else eNotify ent0)" "d = e \<Longrightarrow> ent0 = ent"
      using ent by (cases "d = e") (auto simp: ents)
    show "distinct (eProtocols ent')" using entD[OF ent0(1)] ent0(2) by simp
    show "distinct (eNotify ent')" using entD[OF ent0(1)] entD[OF ent] ent0(3) by (simp add: distinct_remove1)
    show "j \<in> set (eProtocols ent') \<longleftrightarrow> (\<exists>p. pifs s j = Some p \<and> iProtocol p = d)" for j
      using entD[OF ent0(1)] ent0(2) by simp
    have old: "m \<in> set (eNotify ent0) \<longleftrightarrow> (\<exists>nt. nots s m = Some nt \<and> nProtocol nt = d)" for m
      using entD[OF ent0(1)] by blast
    show "m \<in> set (eNotify ent') \<longleftrightarrow> (\<exists>nt. nots s' m = Some nt \<and> nProtocol nt = d)" for m
    proof (cases "m = n")
      case True
      have "n \<notin> set (eNotify ent')"
      proof (cases "d = e")
        case True
        then show ?thesis using ent0(3) entD[OF ent] by simp
      next
        case False
        then show ?thesis using ent0(3) old[of n] home by auto
      qed
      then show ?thesis using True by (simp add: nots)
    next
      case False
      then have "m \<in> set (eNotify ent') \<longleftrightarrow> m \<in> set (eNotify ent0)"
        using ent0(3,4) by (cases "d = e") simp_all
      then show ?thesis using old[of m] False by (simp add: nots)
    qed
  qed
  moreover have "hnds_ok s'" using ok(2) by (simp add: hnds_ok_def same)
  moreover have "objs_ok s'"
    unfolding objs_ok_def dome same
  proof (intro conjI allI impI)
    show "inj_on (\<lambda>i. (iHandle (the (pifs s i)), iProtocol (the (pifs s i)))) (dom (pifs s))"
      using ok(3) by (simp add: objs_ok_def)
  next
    fix m nt assume m: "nots s' m = Some nt"
    then show "\<exists>ent. ents s' (nProtocol nt) = Some ent \<and> (\<forall>i. Position nt = Some i \<longrightarrow> i \<in> set (eProtocols ent))"
      using obj_links(3)[OF inv, of m nt] ent by (auto simp: nots ents split: if_splits)
  qed (use obj_links(1,2)[OF inv] in \<open>auto simp: dom_def\<close>)
  moreover have "addrs_ok s'"
  proof -
    have "dom (nots s') \<subseteq> dom (nots s)" by (auto simp: nots dom_def split: if_splits)
    then show ?thesis using ok(4) unfolding addrs_ok_def same dome by blast
  qed
  ultimately show "pdb_inv s'" by (simp add: pdb_inv_def)
  have eo: "entry_of s' = entry_of s" by (simp add: fun_eq_iff entry_of_def same pid)
  have ring: "ring_of s' = ring_of s" "pair_of s' = pair_of s"
    using ent by (auto simp: ring_of_def pair_of_def ents same fun_eq_iff)
  show "provides s' = provides s" by (simp add: fun_eq_iff provides_def eo ring split: option.splits)
  show "pending s' = (pending s)(n := [])"
    by (simp add: fun_eq_iff pending_def nots ring cong: option.case_cong)
qed

end
