(* ===== verification/Protocol_Search.thy ===== *)
theory Protocol_Search
  imports Protocol_Props
begin

text \<open>Searches of the SMM protocol database, and the properties of the database.\<close>

subsection \<open>States a search leaves\<close>

text \<open>What clients see of two states is the same.\<close>

definition same_view :: "'f pdb \<Rightarrow> 'f pdb \<Rightarrow> bool" where
  "same_view s s' \<longleftrightarrow> provides s' = provides s \<and> pending s' = pending s \<and>
     gHandleList s' = gHandleList s \<and> (\<forall>n g. registered s' n g = registered s n g)"

lemma same_view_refl [simp]: "same_view s s" by (simp add: same_view_def)

text \<open>After request c has visited the handles of H.\<close>

definition sweep :: "'f pdb \<Rightarrow> u64 \<Rightarrow> nat set \<Rightarrow> 'f pdb" where
  "sweep s c H = s\<lparr>mEfiLocateHandleRequest := c,
     hnds := (\<lambda>k. if k \<in> H then map_option (\<lambda>hr. hr\<lparr>LocateRequest := c\<rparr>) (hnds s k) else hnds s k)\<rparr>"

lemma sweep_empty: "sweep s c {} = s\<lparr>mEfiLocateHandleRequest := c\<rparr>"
  by (simp add: sweep_def)

lemma sweep_fields [simp]:
  "ents (sweep s c H) = ents s" "pifs (sweep s c H) = pifs s" "nots (sweep s c H) = nots s"
  "mProtocolDatabase (sweep s c H) = mProtocolDatabase s" "gHandleList (sweep s c H) = gHandleList s"
  "next_addr (sweep s c H) = next_addr s" "mEfiLocateHandleRequest (sweep s c H) = c"
  by (simp_all add: sweep_def)

lemma sweep_view: "same_view s (sweep s c H)"
  using provides_cong[of "sweep s c H" s] by (simp add: same_view_def registered_def)

lemma sweep_ok:
  assumes inv: "pdb_inv s" and c: "mEfiLocateHandleRequest s \<le> c"
  shows "pdb_inv (sweep s c H)"
proof -
  note ok = pdb_invD[OF inv]
  have dom: "dom (hnds (sweep s c H)) = dom (hnds s)"
    by (auto simp: sweep_def dom_def split: if_splits)
  have hr: "\<exists>h0. hnds s k = Some h0 \<and> hProtocols hr = hProtocols h0 \<and> LocateRequest hr \<le> c"
    if "hnds (sweep s c H) k = Some hr" for k hr
  proof (cases "k \<in> H")
    case True
    then show ?thesis using that by (auto simp: sweep_def)
  next
    case False
    then have "hnds s k = Some hr" using that by (simp add: sweep_def)
    moreover have "LocateRequest hr \<le> mEfiLocateHandleRequest s"
      using ok(2) calculation unfolding hnds_ok_def by blast
    ultimately show ?thesis using c by (auto intro: order_trans)
  qed
  have "hnds_ok (sweep s c H)"
    unfolding hnds_ok_def dom
  proof (intro conjI allI impI)
    show "distinct (gHandleList (sweep s c H))" "set (gHandleList (sweep s c H)) = dom (hnds s)"
      using ok(2) by (simp_all add: hnds_ok_def)
  next
    fix k hr assume "hnds (sweep s c H) k = Some hr"
    then obtain h0 where h0: "hnds s k = Some h0" "hProtocols hr = hProtocols h0" "LocateRequest hr \<le> c"
      using hr by blast
    have "hProtocols h0 \<noteq> [] \<and> distinct (hProtocols h0) \<and>
        (\<forall>i. i \<in> set (hProtocols h0) \<longleftrightarrow> (\<exists>p. pifs s i = Some p \<and> iHandle p = k))"
      using ok(2) h0(1) unfolding hnds_ok_def by blast
    then show "hProtocols hr \<noteq> []" "distinct (hProtocols hr)"
      "i \<in> set (hProtocols hr) \<longleftrightarrow> (\<exists>p. pifs (sweep s c H) i = Some p \<and> iHandle p = k)" for i
      using h0(2) by simp_all
    show "LocateRequest hr \<le> mEfiLocateHandleRequest (sweep s c H)" using h0(3) by simp
  qed
  moreover have "ents_ok (sweep s c H)" using ok(1) by (simp add: ents_ok_def)
  moreover have "objs_ok (sweep s c H)" using ok(3) unfolding objs_ok_def dom sweep_fields .
  moreover have "addrs_ok (sweep s c H)" using ok(4) unfolding addrs_ok_def dom sweep_fields .
  ultimately show ?thesis by (simp add: pdb_inv_def)
qed

lemma max_request: "unat (- 1 :: u64) = 2 ^ 64 - 1"
  by (simp add: unsigned_minus_1_eq_mask mask_eq_exp_minus_1)

lemma next_request:
  fixes c :: u64
  assumes "c \<noteq> - 1"
  shows "unat (c + 1) = unat c + 1" "c < c + 1"
proof -
  have "unat c \<noteq> unat (- 1 :: u64)" using assms by (simp add: word_unat_eq_iff)
  moreover have "unat c < 2 ^ 64" by (rule order_less_le_trans[OF unsigned_less]) simp
  ultimately have "unat c + 1 < 2 ^ 64" using max_request by simp
  then show "unat (c + 1) = unat c + 1" by (simp add: unat_word_ariths)
  then show "c < c + 1" by (simp add: word_less_nat_alt)
qed

text \<open>A handle the request has not visited yet is taken.\<close>

lemma next_by_protocol_step:
  assumes inv: "pdb_inv s" and c: "mEfiLocateHandleRequest s < c" and i: "pifs s i = Some p" and h: "iHandle p \<notin> H"
  shows "next_by_protocol (i # is) y (sweep s c H) =
    Some (Some (iHandle p), Interface p, is, sweep s c (insert (iHandle p) H))"
proof -
  obtain hr where hr: "hnds s (iHandle p) = Some hr" using obj_links(1)[OF inv i] by blast
  then have "LocateRequest hr \<le> mEfiLocateHandleRequest s"
    using pdb_invD(2)[OF inv] unfolding hnds_ok_def by blast
  then have "LocateRequest hr \<noteq> c" using c by auto
  moreover have "hnds (sweep s c H) (iHandle p) = Some hr" using hr h by (simp add: sweep_def)
  moreover have "(sweep s c H)\<lparr>hnds := (hnds (sweep s c H))(iHandle p \<mapsto> hr\<lparr>LocateRequest := c\<rparr>)\<rparr> =
      sweep s c (insert (iHandle p) H)"
    using hr by (auto simp: sweep_def fun_eq_iff intro!: pdb.equality)
  ultimately show ?thesis using i by simp
qed

lemma written_take:
  "(if rs + 8 \<le> bs then rb @ [h] else rb) @ take ((bs - (rs + 8)) div 8) hs = rb @ take ((bs - rs) div 8) (h # hs)"
  for rs bs :: nat
proof (cases "rs + 8 \<le> bs")
  case True
  then have "(bs - rs) div 8 = Suc ((bs - (rs + 8)) div 8)" by auto
  then show ?thesis using True by simp
qed simp

lemma locate_loop_ByProtocol:
  assumes inv: "pdb_inv s" and c: "mEfiLocateHandleRequest s < c"
  shows "\<lbrakk>\<forall>i \<in> set is. pifs s i \<noteq> None; distinct (map (fst \<circ> pair_of s) is); set (map (fst \<circ> pair_of s) is) \<inter> H = {}\<rbrakk> \<Longrightarrow>
    locate_loop ByProtocol bs \<lparr>SearchKey = k, ahead = is\<rparr> rs rb (sweep s c H) =
      Some (rs + 8 * length is, rb @ take ((bs - rs) div 8) (map (fst \<circ> pair_of s) is),
        sweep s c (H \<union> set (map (fst \<circ> pair_of s) is)))"
proof (induction "is" arbitrary: rs rb H)
  case Nil
  then show ?case by (simp add: locate_loop.simps GetNext_def SmmGetNextLocateByProtocol_def)
next
  case (Cons i "is")
  obtain p where p: "pifs s i = Some p" using Cons.prems(1) by auto
  then have h: "(fst \<circ> pair_of s) i = iHandle p" by (simp add: pair_of_def)
  have "next_by_protocol (i # is) 0 (sweep s c H) =
      Some (Some (iHandle p), Interface p, is, sweep s c (insert (iHandle p) H))"
    using next_by_protocol_step[OF inv c p] Cons.prems(3) h by simp
  then have "GetNext ByProtocol \<lparr>SearchKey = k, ahead = i # is\<rparr> (sweep s c H) =
      Some (Some (iHandle p), Interface p, \<lparr>SearchKey = k, ahead = is\<rparr>, sweep s c (insert (iHandle p) H))"
    by (simp add: GetNext_def SmmGetNextLocateByProtocol_def)
  then have "locate_loop ByProtocol bs \<lparr>SearchKey = k, ahead = i # is\<rparr> rs rb (sweep s c H) =
      locate_loop ByProtocol bs \<lparr>SearchKey = k, ahead = is\<rparr> (rs + 8)
        (if rs + 8 \<le> bs then rb @ [iHandle p] else rb) (sweep s c (insert (iHandle p) H))"
    by (subst locate_loop.simps) simp
  also have "\<dots> = Some (rs + 8 + 8 * length is,
        (if rs + 8 \<le> bs then rb @ [iHandle p] else rb) @ take ((bs - (rs + 8)) div 8) (map (fst \<circ> pair_of s) is),
        sweep s c (insert (iHandle p) H \<union> set (map (fst \<circ> pair_of s) is)))"
    using Cons.prems h by (intro Cons.IH) auto
  also have "\<dots> = Some (rs + 8 * length (i # is), rb @ take ((bs - rs) div 8) (map (fst \<circ> pair_of s) (i # is)),
        sweep s c (H \<union> set (map (fst \<circ> pair_of s) (i # is))))"
    unfolding written_take using h by (simp add: insert_commute)
  finally show ?case .
qed

lemma locate_loop_AllHandles:
  "\<forall>h \<in> set hs. hnds s h \<noteq> None \<Longrightarrow>
    locate_loop AllHandles bs \<lparr>SearchKey = k, ahead = hs\<rparr> rs rb s =
      Some (rs + 8 * length hs, rb @ take ((bs - rs) div 8) hs, s)"
proof (induction hs arbitrary: rs rb)
  case Nil
  then show ?case by (simp add: locate_loop.simps GetNext_def SmmGetNextLocateAllHandles_def)
next
  case (Cons h hs)
  then obtain hr where "hnds s h = Some hr" by auto
  then have "locate_loop AllHandles bs \<lparr>SearchKey = k, ahead = h # hs\<rparr> rs rb s =
      locate_loop AllHandles bs \<lparr>SearchKey = k, ahead = hs\<rparr> (rs + 8) (if rs + 8 \<le> bs then rb @ [h] else rb) s"
    by (subst locate_loop.simps) (simp add: GetNext_def SmmGetNextLocateAllHandles_def)
  also have "\<dots> = Some (rs + 8 + 8 * length hs,
      (if rs + 8 \<le> bs then rb @ [h] else rb) @ take ((bs - (rs + 8)) div 8) hs, s)"
    using Cons by (intro Cons.IH) simp
  finally show ?case unfolding written_take by simp
qed

text \<open>The handles a search by type finds.\<close>

definition found :: "'f pdb \<Rightarrow> search \<Rightarrow> guid \<Rightarrow> nat list" where
  "found s st g = (if st = AllHandles then gHandleList s else map fst (provides s g))"

lemma locate_eq:
  assumes inv: "pdb_inv s" and c: "mEfiLocateHandleRequest s \<noteq> - 1" and st: "st = AllHandles \<or> st = ByProtocol"
    and buf: "bs > 0 \<longrightarrow> buffer"
  shows "\<exists>s'. SmmLocateHandle st (Some g) key (Some bs) buffer s =
      Some (if found s st g = [] then EFI_NOT_FOUND
            else if 8 * length (found s st g) > bs then EFI_BUFFER_TOO_SMALL else EFI_SUCCESS,
          Some (if found s st g = [] then bs else 8 * length (found s st g)), take (bs div 8) (found s st g), s') \<and>
    pdb_inv s' \<and> same_view s s' \<and> next_addr s' = next_addr s \<and>
    (mEfiLocateHandleRequest s' = mEfiLocateHandleRequest s + 1 \<or> s' = s)"
proof -
  note ok = pdb_invD[OF inv]
  let ?c = "mEfiLocateHandleRequest s + 1"
  have lt: "mEfiLocateHandleRequest s < ?c" by (rule next_request(2)[OF c])
  have buf: "bs = 0 \<or> buffer" using buf by auto
  show ?thesis
  proof (cases "st = AllHandles")
    case True
    have "\<forall>h \<in> set (gHandleList s). hnds (sweep s ?c {}) h \<noteq> None"
      using ok(2) by (auto simp: hnds_ok_def sweep_def)
    from locate_loop_AllHandles[OF this, of bs key 0 "[]"] True buf
    have "SmmLocateHandle st (Some g) key (Some bs) buffer s =
        Some (if gHandleList s = [] then EFI_NOT_FOUND
            else if 8 * length (gHandleList s) > bs then EFI_BUFFER_TOO_SMALL else EFI_SUCCESS,
          Some (if gHandleList s = [] then bs else 8 * length (gHandleList s)), take (bs div 8) (gHandleList s), sweep s ?c {})"
      by (simp add: SmmLocateHandle_def sweep_empty)
    then show ?thesis
      using True sweep_ok[OF inv less_imp_le[OF lt]] sweep_view by (auto simp: found_def)
  next
    case False
    then have st: "st = ByProtocol" using assms(3) by simp
    show ?thesis
    proof (cases "entry_of s g")
      case None
      then have "SmmLocateHandle st (Some g) key (Some bs) buffer s = Some (EFI_NOT_FOUND, Some bs, [], s)"
        using st buf by (simp add: SmmLocateHandle_def lookup_entry_of[OF ok(1)])
      then show ?thesis using None st inv by (auto simp: found_def provides_def)
    next
      case (Some e)
      obtain ent where ent: "ents s e = Some ent" using entry_of_iff[OF ok(1)] Some by blast
      let ?hs = "map (fst \<circ> pair_of s) (eProtocols ent)"
      have hs: "found s st g = ?hs" using Some ent st by (simp add: found_def provides_def ring_of_def)
      have d: "distinct ?hs" using provides_functional[OF inv, of g] hs st by (simp add: found_def)
      have "\<forall>i \<in> set (eProtocols ent). pifs s i \<noteq> None"
        using ring_of_mem(1)[OF ok(1) ent] ent by (auto simp: ring_of_def)
      from locate_loop_ByProtocol[OF inv lt this d, of "{}" bs key 0 "[]"] Some ent st buf
      have "SmmLocateHandle st (Some g) key (Some bs) buffer s =
        Some (if ?hs = [] then EFI_NOT_FOUND
            else if 8 * length ?hs > bs then EFI_BUFFER_TOO_SMALL else EFI_SUCCESS,
          Some (if ?hs = [] then bs else 8 * length ?hs), take (bs div 8) ?hs, sweep s ?c (set ?hs))"
        by (simp add: SmmLocateHandle_def lookup_entry_of[OF ok(1)] sweep_empty)
      then show ?thesis
        unfolding hs using sweep_ok[OF inv less_imp_le[OF lt]] sweep_view
        by (intro exI[of _ "sweep s ?c (set ?hs)"]) auto
    qed
  qed
qed

lemma locate_buffer_eq:
  assumes inv: "pdb_inv s" and c: "unat (mEfiLocateHandleRequest s) + 2 < 2 ^ 64" and st: "st = AllHandles \<or> st = ByProtocol"
  shows "\<exists>s'. SmmLocateHandleBuffer oom st (Some g) key True True s =
      Some (if found s st g = [] then (EFI_NOT_FOUND, 0, None, s')
            else if oom (next_addr s) then (EFI_OUT_OF_RESOURCES, 0, None, s')
            else (EFI_SUCCESS, length (found s st g), Some (found s st g), s')) \<and>
    pdb_inv s' \<and> same_view s s'"
proof -
  have c0: "mEfiLocateHandleRequest s \<noteq> - 1"
  proof
    assume "mEfiLocateHandleRequest s = - 1"
    then show False using c max_request by simp
  qed
  obtain s1 where s1: "SmmLocateHandle st (Some g) key (Some 0) False s =
      Some (if found s st g = [] then EFI_NOT_FOUND
            else if 8 * length (found s st g) > 0 then EFI_BUFFER_TOO_SMALL else EFI_SUCCESS,
          Some (if found s st g = [] then 0 else 8 * length (found s st g)), [], s1)"
    "pdb_inv s1" "same_view s s1" "next_addr s1 = next_addr s"
    "mEfiLocateHandleRequest s1 = mEfiLocateHandleRequest s + 1 \<or> s1 = s"
    using locate_eq[OF inv c0 st, of 0 False g key] by auto
  show ?thesis
  proof (cases "found s st g = []")
    case True
    then show ?thesis using s1 by (auto simp: SmmLocateHandleBuffer_def)
  next
    case False
    let ?s = "s1\<lparr>next_addr := next_addr s1 + 1\<rparr>"
    have inv': "pdb_inv ?s" by (rule alloc_ok[OF s1(2)])
    have view: "same_view s ?s"
      using s1(3) provides_cong[of ?s s1] by (simp add: same_view_def registered_def)
    show ?thesis
    proof (cases "oom (next_addr s)")
      case True
      then show ?thesis
        using False s1 inv' view by (auto simp: SmmLocateHandleBuffer_def Allocate_def)
    next
      case oom: False
      have "unat (mEfiLocateHandleRequest s1) < 2 ^ 64 - 1"
        using s1(5) c next_request(1)[OF c0] by (elim disjE) simp_all
      then have c1: "mEfiLocateHandleRequest ?s \<noteq> - 1" using max_request by auto
      have fd: "found ?s st g = found s st g" using view by (simp add: found_def same_view_def)
      have "0 < 8 * length (found s st g) \<longrightarrow> True" by simp
      from locate_eq[OF inv' c1 st this, of g key] False
      obtain s2 where s2: "SmmLocateHandle st (Some g) key (Some (8 * length (found s st g))) True ?s =
          Some (EFI_SUCCESS, Some (8 * length (found s st g)), found s st g, s2)"
        "pdb_inv s2" "same_view ?s s2"
        unfolding fd by auto
      have "same_view s s2" using view s2(3) by (simp add: same_view_def)
      then show ?thesis
        using False oom s1 s2 by (auto simp: SmmLocateHandleBuffer_def Allocate_def)
    qed
  qed
qed

subsection \<open>The first interface of a protocol, and the next one of a registration\<close>

lemma locate_protocol_eq:
  assumes inv: "pdb_inv s" and c: "mEfiLocateHandleRequest s \<noteq> - 1"
  shows "\<exists>s'. SmmLocateProtocol (Some g) None True s =
      Some (case provides s g of [] \<Rightarrow> (EFI_NOT_FOUND, Some 0, s') | q # _ \<Rightarrow> (EFI_SUCCESS, Some (snd q), s')) \<and>
    pdb_inv s' \<and> same_view s s'"
proof -
  note ok = pdb_invD[OF inv]
  let ?c = "mEfiLocateHandleRequest s + 1"
  have lt: "mEfiLocateHandleRequest s < ?c" by (rule next_request(2)[OF c])
  have lk: "lookup_entry (s\<lparr>mEfiLocateHandleRequest := ?c\<rparr>) g = Some (entry_of s g)"
    using lookup_entry_of[OF ok(1), of g]
    by (simp add: lookup_entry_def SmmFindProtocolEntry_def walk_entries[OF ok(1)])
  have s0: "pdb_inv (sweep s ?c {})" "same_view s (sweep s ?c {})"
    using sweep_ok[OF inv less_imp_le[OF lt]] sweep_view by auto
  show ?thesis
  proof (cases "entry_of s g")
    case None
    then show ?thesis
      using lk s0 by (intro exI[of _ "sweep s ?c {}"]) (simp add: SmmLocateProtocol_def provides_def sweep_empty)
  next
    case (Some e)
    obtain ent where ent: "ents s e = Some ent" using entry_of_iff[OF ok(1)] Some by blast
    have pr: "provides s g = map (pair_of s) (eProtocols ent)" using Some ent by (simp add: provides_def ring_of_def)
    show ?thesis
    proof (cases "eProtocols ent")
      case Nil
      then show ?thesis
        using lk s0 Some ent pr
        by (intro exI[of _ "sweep s ?c {}"])
          (simp add: SmmLocateProtocol_def SmmGetNextLocateByProtocol_def sweep_empty)
    next
      case (Cons i "is")
      then obtain p where p: "pifs s i = Some p"
        using ring_of_mem(1)[OF ok(1) ent, of i] ent by (auto simp: ring_of_def)
      have "next_by_protocol (i # is) 0 (sweep s ?c {}) =
          Some (Some (iHandle p), Interface p, is, sweep s ?c {iHandle p})"
        by (rule next_by_protocol_step[OF inv lt p]) simp
      then have "SmmLocateProtocol (Some g) None True s = Some (EFI_SUCCESS, Some (Interface p), sweep s ?c {iHandle p})"
        using lk Some ent Cons
        by (simp add: SmmLocateProtocol_def SmmGetNextLocateByProtocol_def sweep_empty del: next_by_protocol.simps)
      then show ?thesis
        using pr Cons p sweep_ok[OF inv less_imp_le[OF lt]] sweep_view by (auto simp: pair_of_def)
    qed
  qed
qed

text \<open>The step of ProtNotify->Position.\<close>

lemma advance_ok:
  assumes inv: "pdb_inv s" and nt: "nots s n = Some nt"
  shows "\<exists>s'. advance_position n s = Some s' \<and> (pending s n \<noteq> [] \<longrightarrow> pdb_inv s' \<and> provides s' = provides s \<and>
      pending s' = (pending s)(n := tl (pending s n)) \<and> gHandleList s' = gHandleList s \<and>
      mEfiLocateHandleRequest s' = mEfiLocateHandleRequest s \<and> dom (nots s') = dom (nots s))"
    "SmmGetNextLocateByRegisterNotify \<lparr>SearchKey = Some n, ahead = hs\<rparr> s =
      Some (case pending s n of [] \<Rightarrow> None | q # _ \<Rightarrow> Some (fst q), case pending s n of [] \<Rightarrow> 0 | q # _ \<Rightarrow> snd q,
        \<lparr>SearchKey = None, ahead = hs\<rparr>, s)"
proof -
  note ok = pdb_invD[OF inv]
  obtain ent where ent: "ents s (nProtocol nt) = Some ent"
    "\<And>i. Position nt = Some i \<Longrightarrow> i \<in> set (eProtocols ent)"
    using obj_links(3)[OF inv nt] by blast
  have d: "distinct (eProtocols ent)" using ring_of_mem(2)[OF ok(1) ent(1)] ent(1) by (simp add: ring_of_def)
  let ?rest = "after (Position nt) (eProtocols ent)"
  have link: "link_after (Position nt) (eProtocols ent) = Some (first_of ?rest)"
    by (rule link_after_pending(1)[OF d ent(2)])
  let ?s = "s\<lparr>nots := (nots s)(n \<mapsto> nt\<lparr>Position := first_of ?rest\<rparr>)\<rparr>"
  have pend: "pending s n = map (pair_of s) ?rest" using nt ent(1) by (simp add: pending_def ring_of_def)
  have run: "advance_position n s = Some ?s"
    using nt ent(1) link by (simp add: advance_position_def link_after_def)
  have obj: "\<exists>p. pifs s i = Some p" if "i \<in> set (eProtocols ent)" for i
    using ring_of_mem(1)[OF ok(1) ent(1), of i] ent(1) that by (auto simp: ring_of_def)
  show "SmmGetNextLocateByRegisterNotify \<lparr>SearchKey = Some n, ahead = hs\<rparr> s =
      Some (case pending s n of [] \<Rightarrow> None | q # _ \<Rightarrow> Some (fst q), case pending s n of [] \<Rightarrow> 0 | q # _ \<Rightarrow> snd q,
        \<lparr>SearchKey = None, ahead = hs\<rparr>, s)"
  proof (cases ?rest)
    case Nil
    then show ?thesis using nt ent(1) link pend by (simp add: SmmGetNextLocateByRegisterNotify_def link_after_def)
  next
    case (Cons i "is")
    then obtain p where "pifs s i = Some p" using link_after_pending(2)[OF d ent(2) Cons] obj by blast
    then show ?thesis using nt ent(1) link pend Cons
      by (simp add: SmmGetNextLocateByRegisterNotify_def link_after_def pair_of_def)
  qed
  have "pdb_inv ?s \<and> provides ?s = provides s \<and> pending ?s = (pending s)(n := tl (pending s n))"
    if ne: "pending s n \<noteq> []"
  proof -
    obtain i "is" where rest: "?rest = i # is" using ne pend by (cases ?rest) auto
    have i: "i \<in> set (eProtocols ent)" and next_pos: "after (Some i) (eProtocols ent) = is"
      using link_after_pending(2)[OF d ent(2) rest] by auto
    have same: "entry_of ?s = entry_of s" "ring_of ?s = ring_of s" "pair_of ?s = pair_of s"
      by (simp_all add: entry_of_def ring_of_def pair_of_def fun_eq_iff)
    have domn: "dom (nots ?s) = dom (nots s)" using nt by auto
    have nots_iff: "(\<exists>nt. nots ?s m = Some nt \<and> nProtocol nt = d) \<longleftrightarrow> (\<exists>nt. nots s m = Some nt \<and> nProtocol nt = d)" for m d
      using nt by auto
    have "ents_ok ?s" using ok(1) unfolding ents_ok_def nots_iff by (simp cong: conj_cong)
    moreover have "hnds_ok ?s" using ok(2) by (simp add: hnds_ok_def)
    moreover have "objs_ok ?s"
      unfolding objs_ok_def
    proof (intro conjI allI impI)
      fix m nt' assume "nots ?s m = Some nt'"
      then show "\<exists>ent. ents ?s (nProtocol nt') = Some ent \<and> (\<forall>i. Position nt' = Some i \<longrightarrow> i \<in> set (eProtocols ent))"
        using obj_links(3)[OF inv, of m nt'] ent(1) i rest by (auto split: if_splits)
    qed (use ok(3) in \<open>auto simp: objs_ok_def\<close>)
    moreover have "addrs_ok ?s" using ok(4) unfolding addrs_ok_def domn by simp
    ultimately have "pdb_inv ?s" by (simp add: pdb_inv_def)
    moreover have "pending ?s m = ((pending s)(n := tl (pending s n))) m" for m
    proof (cases "m = n")
      case True
      have "ring_of s (nProtocol nt) = eProtocols ent" using ent(1) by (simp add: ring_of_def)
      moreover have "pending ?s n = map (pair_of s) (after (Some i) (ring_of s (nProtocol nt)))"
        unfolding same(2,3)[symmetric] pending_def by (simp add: rest)
      ultimately show ?thesis using True pend rest next_pos by simp
    next
      case False
      then show ?thesis by (simp add: pending_def same cong: option.case_cong)
    qed
    moreover have "provides ?s = provides s" by (simp add: provides_def same fun_eq_iff cong: option.case_cong)
    ultimately show ?thesis by auto
  qed
  then show "\<exists>s'. advance_position n s = Some s' \<and> (pending s n \<noteq> [] \<longrightarrow> pdb_inv s' \<and> provides s' = provides s \<and>
      pending s' = (pending s)(n := tl (pending s n)) \<and> gHandleList s' = gHandleList s \<and>
      mEfiLocateHandleRequest s' = mEfiLocateHandleRequest s \<and> dom (nots s') = dom (nots s))"
    using run nt by (intro exI[of _ ?s]) auto
qed

lemma request_step:
  assumes inv: "pdb_inv s" and c: "mEfiLocateHandleRequest s \<noteq> - 1"
    and s1: "s1 = s\<lparr>mEfiLocateHandleRequest := mEfiLocateHandleRequest s + 1\<rparr>"
  shows "pdb_inv s1" "provides s1 = provides s" "pending s1 = pending s" "gHandleList s1 = gHandleList s"
    "nots s1 = nots s" "mEfiLocateHandleRequest s1 = mEfiLocateHandleRequest s + 1"
proof -
  show "pdb_inv s1"
    using sweep_ok[OF inv less_imp_le[OF next_request(2)[OF c]], of "{}"] by (simp add: s1 sweep_empty)
  show "provides s1 = provides s" "pending s1 = pending s"
    using provides_cong[of s1 s] by (simp_all add: s1)
qed (simp_all add: s1)

lemma locate_registration_eq:
  assumes inv: "pdb_inv s" and c: "mEfiLocateHandleRequest s \<noteq> - 1" and n: "nots s n \<noteq> None"
  shows "\<exists>s'. SmmLocateProtocol (Some g) (Some n) True s =
      Some (case pending s n of [] \<Rightarrow> (EFI_NOT_FOUND, Some 0, s') | q # _ \<Rightarrow> (EFI_SUCCESS, Some (snd q), s')) \<and>
    pdb_inv s' \<and> provides s' = provides s \<and> pending s' = (pending s)(n := tl (pending s n)) \<and>
    mEfiLocateHandleRequest s' = mEfiLocateHandleRequest s + 1 \<and> nots s' n \<noteq> None"
proof -
  let ?s = "s\<lparr>mEfiLocateHandleRequest := mEfiLocateHandleRequest s + 1\<rparr>"
  note rq = request_step[OF inv c refl]
  obtain nt where nt: "nots ?s n = Some nt" using n by auto
  note adv = advance_ok[OF rq(1) nt]
  show ?thesis
  proof (cases "pending s n")
    case Nil
    then have "SmmLocateProtocol (Some g) (Some n) True s = Some (EFI_NOT_FOUND, Some 0, ?s)"
      using adv(2) rq(3) by (simp add: SmmLocateProtocol_def)
    then show ?thesis using rq Nil n by (intro exI[of _ ?s]) (simp add: fun_upd_idem)
  next
    case (Cons q qs)
    then obtain s' where s': "advance_position n ?s = Some s'" "pdb_inv s'" "provides s' = provides s"
      "pending s' = (pending s)(n := tl (pending s n))"
      "mEfiLocateHandleRequest s' = mEfiLocateHandleRequest s + 1" "dom (nots s') = dom (nots s)"
      using adv(1) rq(2,3) by auto
    then have "SmmLocateProtocol (Some g) (Some n) True s = Some (EFI_SUCCESS, Some (snd q), s')"
      using adv(2) rq(3) Cons by (simp add: SmmLocateProtocol_def)
    then show ?thesis using s' Cons n by (intro exI[of _ s']) auto
  qed
qed

text \<open>A search by registration finds one handle, and keeps the position when the buffer is too small.\<close>

lemma locate_handle_registration_eq:
  assumes inv: "pdb_inv s" and c: "mEfiLocateHandleRequest s \<noteq> - 1" and n: "nots s n \<noteq> None"
    and buf: "bs > 0 \<longrightarrow> buffer"
  shows "\<exists>s'. SmmLocateHandle ByRegisterNotify Protocol (Some n) (Some bs) buffer s =
      Some (case pending s n of [] \<Rightarrow> (EFI_NOT_FOUND, Some bs, [], s')
        | q # _ \<Rightarrow> if bs < 8 then (EFI_BUFFER_TOO_SMALL, Some 8, [], s') else (EFI_SUCCESS, Some 8, [fst q], s')) \<and>
    pdb_inv s' \<and> provides s' = provides s \<and> gHandleList s' = gHandleList s \<and>
    pending s' = (if bs < 8 then pending s else (pending s)(n := tl (pending s n)))"
proof -
  let ?s = "s\<lparr>mEfiLocateHandleRequest := mEfiLocateHandleRequest s + 1\<rparr>"
  note rq = request_step[OF inv c refl]
  obtain nt where nt: "nots ?s n = Some nt" using n by auto
  note adv = advance_ok[OF rq(1) nt]
  have buf: "bs = 0 \<or> buffer" using buf by auto
  have last: "locate_loop ByRegisterNotify bs \<lparr>SearchKey = None, ahead = hs\<rparr> r rb ?s = Some (r, rb, ?s)" for hs r rb
    by (subst locate_loop.simps) (simp add: GetNext_def SmmGetNextLocateByRegisterNotify_def)
  have loop: "locate_loop ByRegisterNotify bs \<lparr>SearchKey = Some n, ahead = gHandleList s\<rparr> 0 [] ?s =
      Some (case pending s n of [] \<Rightarrow> (0, [], ?s) | q # _ \<Rightarrow> (8, if 8 \<le> bs then [fst q] else [], ?s))"
    using adv(2)[of "gHandleList s"] rq(3) last
    by (subst locate_loop.simps) (simp add: GetNext_def split: list.splits)
  show ?thesis
  proof (cases "pending s n")
    case Nil
    then show ?thesis using loop rq buf n
      by (intro exI[of _ ?s]) (auto simp: SmmLocateHandle_def fun_upd_idem)
  next
    case (Cons q qs)
    show ?thesis
    proof (cases "bs < 8")
      case True
      then show ?thesis using loop rq buf Cons
        by (intro exI[of _ ?s]) (auto simp: SmmLocateHandle_def)
    next
      case False
      obtain s' where s': "advance_position n ?s = Some s'" "pdb_inv s'" "provides s' = provides s"
        "pending s' = (pending s)(n := tl (pending s n))" "gHandleList s' = gHandleList s"
        using adv(1) rq(2-4) Cons by auto
      then show ?thesis using loop False buf Cons
        by (intro exI[of _ s']) (auto simp: SmmLocateHandle_def)
    qed
  qed
qed

subsection \<open>Registrations\<close>

text \<open>
  The contract of a registration: a function that is registered already keeps its registration,
  a new registration has nothing pending, and when memory runs out nothing a client sees changes.
\<close>

definition registration ::
  "(nat \<Rightarrow> bool) \<Rightarrow> guid \<Rightarrow> 'f \<Rightarrow> 'f pdb \<Rightarrow> efi_status \<times> nat option \<times> 'f pdb \<Rightarrow> bool" where
  "registration oom g f s r \<longleftrightarrow> (case r of (st, r, s') \<Rightarrow>
     pdb_inv s' \<and> provides s' = provides s \<and>
     (if EFI_ERROR st then st = EFI_OUT_OF_RESOURCES \<and> r = None \<and> (\<exists>a. oom a) \<and> pending s' = pending s
      else st = EFI_SUCCESS \<and> (\<exists>n. r = Some n \<and> registered s' n g \<and> Function (the (nots s' n)) = f \<and>
        (if \<exists>m. registered s m g \<and> Function (the (nots s m)) = f then pending s' = pending s \<and> registered s n g
         else nots s n = None \<and> pending s' = (pending s)(n := [])))))"

lemma register_known:
  assumes inv: "pdb_inv s" and g: "entry_of s g = Some e"
    and s0: "SmmFindProtocolEntry oom g True s0 = Some (Some e, s)"
  shows "\<exists>r. SmmRegisterProtocolNotify oom (Some g) (Some f) (Some r0) s0 = Some r \<and> registration oom g f s r"
proof -
  note ok = pdb_invD[OF inv]
  obtain ent where ent: "ents s e = Some ent" "ProtocolID ent = g" using entry_of_iff[OF ok(1)] g by blast
  have mem: "n \<in> set (eNotify ent) \<longleftrightarrow> (\<exists>nt. nots s n = Some nt \<and> nProtocol nt = e)" for n
    using ok(1) ent(1) unfolding ents_ok_def by blast
  have reg: "registered s n g \<longleftrightarrow> n \<in> set (eNotify ent)" for n
    using g by (simp add: registered_def mem) blast
  let ?Q = "\<lambda>n. Function (the (nots s n)) = f"
  have w: "walk (nots s) (\<lambda>ProtNotify. Option.bind (ents s (nProtocol ProtNotify))
      (\<lambda>p. Some (ProtocolID p = g \<and> Function ProtNotify = f))) (eNotify ent) = Some (find ?Q (eNotify ent))"
    using mem ent by (intro walk_find) auto
  show ?thesis
  proof (cases "find ?Q (eNotify ent)")
    case (Some n)
    then have n: "n \<in> set (eNotify ent)" "?Q n" by (auto dest!: find_Some_in)
    have "SmmRegisterProtocolNotify oom (Some g) (Some f) (Some r0) s0 = Some (EFI_SUCCESS, Some n, s)"
      using s0 ent w Some by (simp add: SmmRegisterProtocolNotify_def)
    moreover have "\<exists>m. registered s m g \<and> ?Q m" using n reg by blast
    ultimately show ?thesis
      by (intro exI[of _ "(EFI_SUCCESS, Some n, s)"]) (use n reg inv in \<open>simp add: registration_def\<close>)
  next
    case None
    then have no: "\<not> (\<exists>m. registered s m g \<and> ?Q m)" unfolding reg find_None_iff by blast
    let ?n = "next_addr s"
    let ?s = "s\<lparr>next_addr := ?n + 1\<rparr>"
    have inv': "pdb_inv ?s" by (rule alloc_ok[OF inv])
    have v: "provides ?s = provides s" "pending ?s = pending s" "entry_of ?s = entry_of s"
      using provides_cong[of ?s s] by simp_all
    show ?thesis
    proof (cases "oom ?n")
      case True
      then have "SmmRegisterProtocolNotify oom (Some g) (Some f) (Some r0) s0 = Some (EFI_OUT_OF_RESOURCES, None, ?s)"
        using s0 ent w None by (simp add: SmmRegisterProtocolNotify_def Allocate_def)
      then show ?thesis using True inv' v by (auto simp: registration_def)
    next
      case False
      define t where "t = ?s\<lparr>nots := (nots ?s)(?n \<mapsto> \<lparr>nProtocol = e, Function = f, Position = last_of (eProtocols ent)\<rparr>),
        ents := (ents ?s)(e \<mapsto> ent\<lparr>eNotify := eNotify ent @ [?n]\<rparr>)\<rparr>"
      have fr: "nots s ?n = None" using fresh_addr(4)[OF inv order_refl] .
      have "ents ?s e = Some ent" "nots ?s ?n = None" "?n < next_addr ?s" using ent(1) fr by simp_all
      note add = add_notify_ok[OF inv' this t_def]
      have "SmmRegisterProtocolNotify oom (Some g) (Some f) (Some r0) s0 = Some (EFI_SUCCESS, Some ?n, t)"
        using s0 ent w None False by (simp add: SmmRegisterProtocolNotify_def Allocate_def t_def)
      moreover have nt: "nots t ?n = Some \<lparr>nProtocol = e, Function = f, Position = last_of (eProtocols ent)\<rparr>"
        by (simp add: t_def)
      moreover have "registered t ?n g" using add(4) v(3) g nt by (simp add: registered_def)
      ultimately show ?thesis
        using add(1-3) v no fr by (intro exI[of _ "(EFI_SUCCESS, Some ?n, t)"]) (auto simp: registration_def)
    qed
  qed
qed

lemma register_eq:
  assumes inv: "pdb_inv s"
  shows "\<exists>r. SmmRegisterProtocolNotify oom (Some g) (Some f) (Some r0) s = Some r \<and> registration oom g f s r"
    (is ?P)
proof (rule SmmFindProtocolEntry_create[OF inv, of oom g])
  fix e assume found: "SmmFindProtocolEntry oom g True s = Some (Some e, s)" "entry_of s g = Some e"
  show ?P by (rule register_known[OF inv found(2,1)])
next
  assume oom: "SmmFindProtocolEntry oom g True s = Some (None, s\<lparr>next_addr := next_addr s + 1\<rparr>)"
    "entry_of s g = None" "oom (next_addr s)"
  have "SmmRegisterProtocolNotify oom (Some g) (Some f) (Some r0) s =
      Some (EFI_OUT_OF_RESOURCES, None, s\<lparr>next_addr := next_addr s + 1\<rparr>)"
    using oom(1) by (simp add: SmmRegisterProtocolNotify_def)
  then show ?P
    using alloc_ok[OF inv, of 1] provides_cong[of "s\<lparr>next_addr := next_addr s + 1\<rparr>" s] oom(3)
    by (auto simp: registration_def)
next
  fix e s1
  assume new: "SmmFindProtocolEntry oom g True s = Some (Some e, s1)" "entry_of s1 g = Some e"
    "pdb_inv s1" "provides s1 = provides s" "pending s1 = pending s" "hnds s1 = hnds s" "nots s1 = nots s"
    "gHandleList s1 = gHandleList s" "pifs s1 = pifs s" "ents s e = None" "entry_of s g = None"
  have none: "\<not> registered s m g" for m using new(11) by (simp add: registered_def)
  have none1: "\<not> registered s1 m g" for m
    using obj_links(3)[OF inv, of m] new(2,7,10) by (auto simp: registered_def)
  have "registration oom g f s1 = registration oom g f s"
    by (intro ext) (simp only: registration_def new(4,5,7) none none1)
  then show ?P using register_known[OF new(3,2,1), of f r0] by simp
qed

lemma unregister_eq:
  assumes inv: "pdb_inv s"
  shows "\<exists>s'. SmmRegisterProtocolNotify oom (Some g) None (Some r0) s =
      Some (if (\<exists>n. r0 = Some n \<and> registered s n g) then EFI_SUCCESS else EFI_NOT_FOUND, None, s') \<and>
    pdb_inv s' \<and> provides s' = provides s \<and>
    (\<forall>n. pending s' n = (if r0 = Some n \<and> registered s n g then [] else pending s n)) \<and>
    (\<forall>n. nots s' n \<noteq> None \<longleftrightarrow> nots s n \<noteq> None \<and> \<not> (r0 = Some n \<and> registered s n g))"
proof -
  note ok = pdb_invD[OF inv]
  show ?thesis
  proof (cases "entry_of s g")
    case None
    then show ?thesis
      using inv by (intro exI[of _ s]) (simp add: SmmRegisterProtocolNotify_def lookup_entry_of[OF ok(1)] registered_def)
  next
    case (Some e)
    obtain ent where ent: "ents s e = Some ent" using entry_of_iff[OF ok(1)] Some by blast
    have mem: "n \<in> set (eNotify ent) \<longleftrightarrow> (\<exists>nt. nots s n = Some nt \<and> nProtocol nt = e)" for n
      using ok(1) ent unfolding ents_ok_def by blast
    have reg: "registered s n g \<longleftrightarrow> n \<in> set (eNotify ent)" for n
      using Some by (simp add: registered_def mem) blast
    have w: "walk (\<lambda>n. if nots s n = None then None else Some n) (\<lambda>n. Some (r0 = Some n)) (eNotify ent) =
        Some (find (\<lambda>n. r0 = Some n) (eNotify ent))"
      using mem by (intro walk_find) auto
    show ?thesis
    proof (cases "find (\<lambda>n. r0 = Some n) (eNotify ent)")
      case None
      then have "\<not> (\<exists>n. r0 = Some n \<and> registered s n g)" by (auto simp: find_None_iff reg)
      moreover have "SmmRegisterProtocolNotify oom (Some g) None (Some r0) s = Some (EFI_NOT_FOUND, None, s)"
        using Some ent w None by (simp add: SmmRegisterProtocolNotify_def lookup_entry_of[OF ok(1)])
      ultimately show ?thesis using inv by auto
    next
      case (Some n)
      then have n: "n \<in> set (eNotify ent)" "r0 = Some n" by (auto dest!: find_Some_in)
      let ?t = "s\<lparr>nots := (nots s)(n := None), ents := (ents s)(e \<mapsto> ent\<lparr>eNotify := remove1 n (eNotify ent)\<rparr>)\<rparr>"
      have "SmmRegisterProtocolNotify oom (Some g) None (Some r0) s = Some (EFI_SUCCESS, None, ?t)"
        using \<open>entry_of s g = Some e\<close> ent w Some by (simp add: SmmRegisterProtocolNotify_def lookup_entry_of[OF ok(1)])
      then show ?thesis
        using del_notify_ok[OF inv ent n(1) refl] n reg by (intro exI[of _ ?t]) auto
    qed
  qed
qed

end
