(* ===== verification/Protocol_Nest.thy ===== *)
theory Protocol_Nest
  imports Protocol_Search
begin

text \<open>
  Notification functions that use the services of the SMM protocol database, with notifications within
  notifications to any depth, and the databases that calls of the services reach.
\<close>

subsection \<open>What the services keep\<close>

lemma install_inv:
  assumes "pdb_inv s" "keeps pdb_inv invoke"
    "SmmInstallProtocolInterfaceNotify oom invoke u g native x notify env s = Some (st, u', env', s')"
  shows "pdb_inv s'"
proof (cases "u \<noteq> None \<and> g \<noteq> None \<and> native")
  case True
  then obtain v g' where g: "u = Some v" "g = Some g'" "native" by auto
  then show ?thesis
    using installs_keeps[OF _ assms(2)] install_installs[OF assms(1), of oom invoke notify v g' x env] assms(3) by auto
next
  case False
  then have "s' = s" using assms(3)
    by (auto simp: SmmInstallProtocolInterfaceNotify_def split: option.splits)
  then show ?thesis using assms(1) by simp
qed

lemma uninstall_inv:
  assumes "pdb_inv s" "SmmUninstallProtocolInterface u g x s = Some (st, s')"
  shows "pdb_inv s'"
proof (cases "u \<noteq> None \<and> g \<noteq> None")
  case True
  then obtain h g' where "u = Some h" "g = Some g'" by auto
  then show ?thesis using SmmUninstallProtocolInterface_eq[OF assms(1), of h g' x] assms(2) by auto
next
  case False
  then have "s' = s" using assms(2)
    by (auto simp: SmmUninstallProtocolInterface_def SmmValidateHandle_def split: option.splits)
  then show ?thesis using assms(1) by simp
qed

lemma register_inv:
  assumes "pdb_inv s" "SmmRegisterProtocolNotify oom g fn reg s = Some (st, reg', s')"
  shows "pdb_inv s'"
proof (cases "g \<noteq> None \<and> reg \<noteq> None")
  case True
  then obtain g' r where g: "g = Some g'" "reg = Some r" by auto
  show ?thesis
  proof (cases fn)
    case None
    then show ?thesis using unregister_eq[OF assms(1), of oom g' r] assms(2) g by auto
  next
    case (Some f)
    then show ?thesis using register_eq[OF assms(1), of oom g' f r] assms(2) g by (auto simp: registration_def)
  qed
next
  case False
  then have "s' = s" using assms(2) by (auto simp: SmmRegisterProtocolNotify_def split: option.splits)
  then show ?thesis using assms(1) by simp
qed

lemma locate_inv:
  assumes "pdb_inv s" "mEfiLocateHandleRequest s \<noteq> - 1" "SmmLocateProtocol g reg want s = Some (st, x, s')"
  shows "pdb_inv s'"
proof (cases "want \<and> g \<noteq> None")
  case True
  then obtain g' where g: "want" "g = Some g'" by auto
  show ?thesis
  proof (cases reg)
    case None
    then show ?thesis using locate_protocol_eq[OF assms(1,2), of g'] assms(3) g
      by (cases "provides s g'") auto
  next
    case (Some n)
    have "nots s n \<noteq> None"
    proof
      assume "nots s n = None"
      then show False using assms(3) Some g
        by (simp add: SmmLocateProtocol_def SmmGetNextLocateByRegisterNotify_def)
    qed
    then show ?thesis using locate_registration_eq[OF assms(1,2), of n g'] assms(3) g Some
      by (cases "pending s n") auto
  qed
next
  case False
  then have "s' = s" using assms(3) by (auto simp: SmmLocateProtocol_def split: if_splits)
  then show ?thesis using assms(1) by simp
qed

lemma locate_handle_inv:
  assumes inv: "pdb_inv s" and c: "mEfiLocateHandleRequest s \<noteq> - 1"
    and run: "SmmLocateHandle search g key bs buffer s = Some (st, n, hs, s')"
  shows "pdb_inv s'"
proof (cases "bs \<noteq> None \<and> (the bs > 0 \<longrightarrow> buffer)")
  case False
  then have "s' = s" using run by (auto simp: SmmLocateHandle_def split: option.splits)
  then show ?thesis using inv by simp
next
  case True
  then obtain b where b: "bs = Some b" "b > 0 \<longrightarrow> buffer" by auto
  show ?thesis
  proof (cases search)
    case AllHandles
    have "SmmLocateHandle AllHandles g key (Some b) buffer s = SmmLocateHandle AllHandles (Some []) key (Some b) buffer s"
      by (simp add: SmmLocateHandle_def)
    then show ?thesis using locate_eq[OF inv c _ b(2), of AllHandles "[]" key] run b AllHandles by auto
  next
    case ByRegisterNotify
    show ?thesis
    proof (cases key)
      case None
      then have "s' = s" using run b ByRegisterNotify by (auto simp: SmmLocateHandle_def)
      then show ?thesis using inv by simp
    next
      case (Some k)
      have "nots s k \<noteq> None"
      proof
        assume "nots s k = None"
        then have "locate_loop ByRegisterNotify b \<lparr>SearchKey = Some k, ahead = gHandleList s\<rparr> 0 []
            (s\<lparr>mEfiLocateHandleRequest := mEfiLocateHandleRequest s + 1\<rparr>) = None"
          by (subst locate_loop.simps) (simp add: GetNext_def SmmGetNextLocateByRegisterNotify_def)
        then show False using run b Some ByRegisterNotify by (auto simp: SmmLocateHandle_def split: if_splits)
      qed
      then show ?thesis
        using locate_handle_registration_eq[OF inv c _ b(2), of k g] run b Some ByRegisterNotify
        by (cases "pending s k") (auto split: if_splits)
    qed
  next
    case ByProtocol
    show ?thesis
    proof (cases g)
      case None
      then have "s' = s" using run b ByProtocol by (auto simp: SmmLocateHandle_def)
      then show ?thesis using inv by simp
    next
      case (Some g')
      then show ?thesis using locate_eq[OF inv c _ b(2), of ByProtocol g' key] run b ByProtocol by auto
    qed
  next
    case OtherSearch
    then have "s' = s" using run b by (auto simp: SmmLocateHandle_def)
    then show ?thesis using inv by simp
  qed
qed

subsection \<open>Notification functions\<close>

datatype ('f, 'e) smm_service =
    InstallProtocol "nat option option" "guid option" bool nat bool
  | UninstallProtocol "nat option" "guid option" nat
  | RegisterNotify "guid option" "'f option" "nat option option"
  | LocateOne "guid option" "nat option" bool
  | LocateHandles search "guid option" "nat option" "nat option" bool
  | Elsewhere "'e \<Rightarrow> 'e"

text \<open>The status, the handle, registration, interface or size, and the handles.  Elsewhere is what a function does
  to the rest of the system.  A search at the last value of the counter of searches is not followed.\<close>

type_synonym smm_answer = "efi_status \<times> nat option \<times> nat list"

fun call_service :: "(nat \<Rightarrow> bool) \<Rightarrow> ('f, 'e) notifier \<Rightarrow> ('f, 'e) smm_service \<Rightarrow> 'e \<times> 'f pdb \<Rightarrow>
    (smm_answer \<times> 'e \<times> 'f pdb) option" where
  "call_service oom invoke (InstallProtocol u g native x notify) (env, s) = do {
     (st, u, env, s) \<leftarrow> SmmInstallProtocolInterfaceNotify oom invoke u g native x notify env s;
     Some ((st, u, []), env, s) }"
| "call_service oom invoke (UninstallProtocol u g x) (env, s) = do {
     (st, s) \<leftarrow> SmmUninstallProtocolInterface u g x s;
     Some ((st, None, []), env, s) }"
| "call_service oom invoke (RegisterNotify g fn reg) (env, s) = do {
     (st, reg, s) \<leftarrow> SmmRegisterProtocolNotify oom g fn reg s;
     Some ((st, reg, []), env, s) }"
| "call_service oom invoke (LocateOne g reg want) (env, s) =
     (if mEfiLocateHandleRequest s = - 1 then None
      else do { (st, x, s) \<leftarrow> SmmLocateProtocol g reg want s; Some ((st, x, []), env, s) })"
| "call_service oom invoke (LocateHandles search g key bs buffer) (env, s) =
     (if mEfiLocateHandleRequest s = - 1 then None
      else do { (st, n, hs, s) \<leftarrow> SmmLocateHandle search g key bs buffer s; Some ((st, n, hs), env, s) })"
| "call_service oom invoke (Elsewhere u) (env, s) = Some ((EFI_SUCCESS, None, []), u env, s)"

primrec smm_nested :: "nat \<Rightarrow> (nat \<Rightarrow> bool) \<Rightarrow>
    ('f \<Rightarrow> guid \<Rightarrow> nat \<Rightarrow> nat \<Rightarrow> (('f, 'e) smm_service, smm_answer, 'e \<times> 'f pdb) program) \<Rightarrow> ('f, 'e) notifier" where
  "smm_nested 0 oom behaviour = (\<lambda>f g x h env s. None)"
| "smm_nested (Suc n) oom behaviour =
     (\<lambda>f g x h env s. run_program (call_service oom (smm_nested n oom behaviour)) (behaviour f g x h) (env, s))"

lemma call_service_inv:
  assumes k: "keeps pdb_inv invoke" and s: "pdb_inv s" and run: "call_service oom invoke c (env, s) = Some (r, env', s')"
  shows "pdb_inv s'"
  using run s
  by (cases c) (auto simp: bind_eq_Some_conv split: if_splits intro: install_inv[OF s k] uninstall_inv[OF s] register_inv[OF s]
      locate_inv[OF s] locate_handle_inv[OF s])

lemma smm_nested_keeps: "keeps pdb_inv (smm_nested n oom behaviour)"
proof (induction n)
  case 0
  show ?case by (simp add: keeps_def)
next
  case (Suc n)
  show ?case
    unfolding keeps_def smm_nested.simps
  proof (intro allI impI)
    fix f g x h env s env' s'
    assume s: "pdb_inv s"
      and run: "run_program (call_service oom (smm_nested n oom behaviour)) (behaviour f g x h) (env, s) = Some (env', s')"
    have call: "pdb_inv (snd t') \<and> True"
      if "pdb_inv (snd t)" "call_service oom (smm_nested n oom behaviour) c t = Some (r, t')" for c t r t'
      using call_service_inv[OF Suc, of "snd t" oom c "fst t" r "fst t'" "snd t'"] that by simp
    show "pdb_inv s'"
      using run_program_keeps[where P = "\<lambda>_. True" and I = "\<lambda>t. pdb_inv (snd t)" and G = "\<lambda>_ _. True", OF call _ _ _ _ run] s
      by simp
  qed
qed

subsection \<open>Reachable databases\<close>

inductive pdb_reach :: "(nat \<Rightarrow> bool) \<Rightarrow> ('f, 'e) notifier \<Rightarrow> 'f pdb \<Rightarrow> bool" for oom invoke where
  init: "pdb_reach oom invoke pdb_init"
| call: "pdb_reach oom invoke s \<Longrightarrow> call_service oom invoke c (env, s) = Some (r, env', s') \<Longrightarrow> pdb_reach oom invoke s'"

lemma pdb_reach_inv: "pdb_reach oom invoke s \<Longrightarrow> keeps pdb_inv invoke \<Longrightarrow> pdb_inv s"
  by (induction rule: pdb_reach.induct) (auto intro: pdb_init_inv call_service_inv)

end
