(* ===== verification/Protocol_Spec.thy ===== *)
theory Protocol_Spec
  imports Protocol_Nest
begin

text \<open>
  The contract of the SMM protocol database: what each operation
  promises in terms of the handles and interfaces the database provides.
\<close>

subsection \<open>An example database\<close>

text \<open>
  Function 7 is registered for the protocol [1]; then an interface 5 of the protocol is
  installed on a new handle.  The functions log their calls.
\<close>

definition log_call :: "(nat, (nat \<times> nat \<times> nat) list) notifier" where
  "log_call f g x h env s = Some (env @ [(f, x, h)], s)"

lemma quiet_log_call: "quiet log_call"
  by (simp add: quiet_def log_call_def)

lemma quiet_keeps: "quiet invoke \<Longrightarrow> keeps I invoke"
  unfolding quiet_def keeps_def by (metis option.sel prod.sel(2))

definition demo0 :: "nat pdb" where
  "demo0 = snd (snd (the (SmmRegisterProtocolNotify (\<lambda>_. False) (Some [1]) (Some 7) (Some None) pdb_init)))"

definition demo :: "nat pdb" where
  "demo = snd (snd (snd (the (SmmInstallProtocolInterfaceNotify (\<lambda>_. False) log_call (Some None) (Some [1]) True 5 True [] demo0))))"

lemma demo0_val: "SmmRegisterProtocolNotify (\<lambda>_. False) (Some [1]) (Some 7) (Some None) pdb_init =
    Some (EFI_SUCCESS, Some 2, demo0)"
    "demo0 = \<lparr>mProtocolDatabase = [1], gHandleList = [],
      ents = [1 \<mapsto> \<lparr>ProtocolID = [1], eProtocols = [], eNotify = [2]\<rparr>], hnds = Map.empty, pifs = Map.empty,
      nots = [2 \<mapsto> \<lparr>nProtocol = 1, Function = 7, Position = None\<rparr>], mEfiLocateHandleRequest = 0, next_addr = 3\<rparr>"
  by (simp_all add: demo0_def pdb_init_def SmmRegisterProtocolNotify_def SmmFindProtocolEntry_def Allocate_def
      numeral_2_eq_2)

lemma demo_val: "SmmInstallProtocolInterfaceNotify (\<lambda>_. False) log_call (Some None) (Some [1]) True 5 True [] demo0 =
    Some (EFI_SUCCESS, Some 4, [(7, 5, 4)], demo)"
    "demo = \<lparr>mProtocolDatabase = [1], gHandleList = [4],
      ents = [1 \<mapsto> \<lparr>ProtocolID = [1], eProtocols = [3], eNotify = [2]\<rparr>],
      hnds = [4 \<mapsto> \<lparr>hProtocols = [3], LocateRequest = 0\<rparr>],
      pifs = [3 \<mapsto> \<lparr>iHandle = 4, iProtocol = 1, Interface = 5\<rparr>],
      nots = [2 \<mapsto> \<lparr>nProtocol = 1, Function = 7, Position = None\<rparr>], mEfiLocateHandleRequest = 0, next_addr = 5\<rparr>"
  by (simp_all add: demo_def demo0_val(2) SmmInstallProtocolInterfaceNotify_def SmmFindProtocolEntry_def Allocate_def
      SmmValidateHandle_def SmmFindProtocolInterface_def lookup_entry_def SmmNotifyProtocol_def
      notify_loop.simps[of _ _ _ None] notify_loop.simps[of _ _ _ "Some n" for n] log_call_def)

lemma demo_reach: "pdb_reach (\<lambda>_. False) log_call demo"
proof -
  have "pdb_reach (\<lambda>_. False) log_call demo0"
    by (rule pdb_reach.call[OF pdb_reach.init, of _ _ "RegisterNotify (Some [1]) (Some 7) (Some None)" "[]"]) (simp add: demo0_val(1))
  then show ?thesis
    by (rule pdb_reach.call[of _ _ _ "InstallProtocol (Some None) (Some [1]) True 5 True" "[]"]) (simp add: demo_val(1))
qed

lemmas demo_inv = pdb_reach_inv[OF demo_reach quiet_keeps[OF quiet_log_call]]

text \<open>Function 7 as a function that logs and installs the protocol [2] on the handle.\<close>

definition busy :: "(nat, (nat \<times> nat \<times> nat) list) notifier" where
  "busy = smm_nested 1 (\<lambda>_. False) (\<lambda>f g x h. Call (Elsewhere (\<lambda>env. env @ [(f, x, h)]))
     (\<lambda>r. Call (InstallProtocol (Some (Some h)) (Some [2]) True 9 True) (\<lambda>r. Finish)))"

definition busy_demo :: "nat pdb" where
  "busy_demo = snd (snd (snd (the (SmmInstallProtocolInterfaceNotify (\<lambda>_. False) busy (Some None) (Some [1]) True 5 True [] demo0))))"

lemmas service_defs = SmmInstallProtocolInterfaceNotify_def SmmFindProtocolEntry_def Allocate_def
  SmmValidateHandle_def SmmFindProtocolInterface_def lookup_entry_def SmmNotifyProtocol_def SmmHandleProtocol_def
  SmmGetProtocolInterface_def notify_loop.simps[of _ _ _ None] notify_loop.simps[of _ _ _ "Some n" for n]

lemma busy_demo_val: "SmmInstallProtocolInterfaceNotify (\<lambda>_. False) busy (Some None) (Some [1]) True 5 True [] demo0 =
    Some (EFI_SUCCESS, Some 4, [(7, 5, 4)], busy_demo)"
    "busy_demo = \<lparr>mProtocolDatabase = [1, 5], gHandleList = [4],
      ents = [1 \<mapsto> \<lparr>ProtocolID = [1], eProtocols = [3], eNotify = [2]\<rparr>, 5 \<mapsto> \<lparr>ProtocolID = [2], eProtocols = [6], eNotify = []\<rparr>],
      hnds = [4 \<mapsto> \<lparr>hProtocols = [6, 3], LocateRequest = 0\<rparr>],
      pifs = [3 \<mapsto> \<lparr>iHandle = 4, iProtocol = 1, Interface = 5\<rparr>, 6 \<mapsto> \<lparr>iHandle = 4, iProtocol = 5, Interface = 9\<rparr>],
      nots = [2 \<mapsto> \<lparr>nProtocol = 1, Function = 7, Position = None\<rparr>], mEfiLocateHandleRequest = 0, next_addr = 7\<rparr>"
  by (simp_all add: busy_demo_def demo0_val(2) service_defs busy_def)

lemma busy_demo_reach: "pdb_reach (\<lambda>_. False) busy busy_demo"
proof -
  have "pdb_reach (\<lambda>_. False) busy demo0"
    by (rule pdb_reach.call[OF pdb_reach.init, of _ _ "RegisterNotify (Some [1]) (Some 7) (Some None)" "[]"]) (simp add: demo0_val(1))
  then show ?thesis
    by (rule pdb_reach.call[of _ _ _ "InstallProtocol (Some None) (Some [1]) True 5 True" "[]"]) (simp add: busy_demo_val(1))
qed

lemma demo_view:
  "provides demo g = (if g = [1] then [(4, 5)] else [])" "pending demo 2 = [(4, 5)]"
  "registered demo n g \<longleftrightarrow> n = 2 \<and> g = [1]" "found demo AllHandles g = [4]"
  "gHandleList demo = [4]"
  by (auto simp: demo_val(2) provides_def entry_of_def ring_of_def pair_of_def pending_def after_def registered_def found_def)

subsection \<open>Properties\<close>

text \<open>C18: Well-formedness of the SMM protocol database. In every database reachable from the empty one by any
  sequence of installations, removals, registrations and searches, whatever memory requests fail, with
  notification functions that are programs over the same services, notifications within notifications
  to any depth n (fewer than 2^64 - 1 searches, so that their counter does not wrap): every reference
  between handles, interfaces, protocol entries and registrations is resolved, a handle has at most
  one interface of a protocol, the handle list holds each handle once and exactly the handles that
  have a protocol, and a registration waits only for interfaces that are installed.\<close>

theorem protocol_database_well_formed:
  assumes "pdb_reach oom (smm_nested n out behaviour) s"
  shows "(\<forall>i p. pifs s i = Some p \<longrightarrow> hnds s (iHandle p) \<noteq> None \<and> ents s (iProtocol p) \<noteq> None) \<and>
    (\<forall>n nt. nots s n = Some nt \<longrightarrow> ents s (nProtocol nt) \<noteq> None \<and>
       (\<forall>i. Position nt = Some i \<longrightarrow> (\<exists>p. pifs s i = Some p \<and> iProtocol p = nProtocol nt))) \<and>
    (\<forall>g. distinct (map fst (provides s g))) \<and>
    distinct (gHandleList s) \<and> set (gHandleList s) = {h. \<exists>g x. (h, x) \<in> set (provides s g)} \<and>
    (\<forall>n g. registered s n g \<longrightarrow> set (pending s n) \<subseteq> set (provides s g))"
proof -
  have inv: "pdb_inv s" by (rule pdb_reach_inv[OF assms smm_nested_keeps])
  have 1: "hnds s (iHandle p) \<noteq> None \<and> ents s (iProtocol p) \<noteq> None" if "pifs s i = Some p" for i p
    using obj_links(1,2)[OF inv that] by auto
  have 2: "ents s (nProtocol nt) \<noteq> None \<and>
      (\<forall>i. Position nt = Some i \<longrightarrow> (\<exists>p. pifs s i = Some p \<and> iProtocol p = nProtocol nt))"
    if "nots s n = Some nt" for n nt
    using obj_links(3)[OF inv that] ring_of_mem(1)[OF pdb_invD(1)[OF inv]] by (fastforce simp: ring_of_def)
  have 3: "distinct (gHandleList s)" using pdb_invD(2)[OF inv] by (simp add: hnds_ok_def)
  show ?thesis
    using 1 2 3 provides_functional[OF inv] live_handles[OF inv] pending_provides[OF inv] by blast
qed

theorem protocol_database_well_formed_witness:
  "set (gHandleList busy_demo) = {h. \<exists>g x. (h, x) \<in> set (provides busy_demo g)} \<and> gHandleList busy_demo = [4] \<and>
    provides busy_demo [2] = [(4, 9)]"
  using protocol_database_well_formed[OF busy_demo_reach[unfolded busy_def]]
  by (simp add: busy_demo_val(2) provides_def entry_of_def ring_of_def pair_of_def)

text \<open>C15: Installation meets its contract. For any notification functions, SmmInstallProtocolInterface up to the call of
  SmmNotifyProtocol: on success the pair of the (given or new) handle and the interface is appended to
  what the protocol provides and to what each registration of the protocol waits for, and exactly this
  interface is announced by SmmNotifyProtocol; an error changes nothing a client sees, announces nothing, and
  happens only when memory runs out, the handle is not valid or the handle has the protocol already
  (which status it is, is not claimed: Handle.c:256 does not return EFI_OUT_OF_RESOURCES for a new
  protocol entry that cannot be allocated). When the notification functions return and leave the
  database alone, every one of the protocol is called once in the order of registration and the database
  is the one announced; when they keep the database well formed, it is well formed after the call.\<close>

theorem SmmInstallProtocolInterface_contract:
  assumes "pdb_inv s"
  shows "(\<exists>st u' i s'. installed oom u g x s (st, u', s') \<and> announces g x (st, u', i, s') \<and>
      SmmInstallProtocolInterface oom invoke (Some u) (Some g) True x env s =
        (if EFI_ERROR st then Some (st, u', env, s')
         else map_option (\<lambda>(env, s). (st, u', env, s)) (SmmNotifyProtocol invoke i env s')) \<and>
      (quiet invoke \<longrightarrow> SmmInstallProtocolInterface oom invoke (Some u) (Some g) True x env s =
        Some (st, u', if EFI_ERROR st then env else told invoke s' g (the u') x env, s'))) \<and>
    (keeps pdb_inv invoke \<longrightarrow> (\<forall>st u' env' s'.
      SmmInstallProtocolInterface oom invoke (Some u) (Some g) True x env s = Some (st, u', env', s') \<longrightarrow> pdb_inv s'))"
proof -
  note run = install_installs[OF assms, of oom invoke True u g x env, folded SmmInstallProtocolInterface_def]
  then obtain st u' i s' where r: "installed oom u g x s (st, u', s')" "announces g x (st, u', i, s')"
    "SmmInstallProtocolInterface oom invoke (Some u) (Some g) True x env s = outcome invoke True env (st, u', i, s')"
    by (auto simp: installs_def)
  have "SmmInstallProtocolInterface oom invoke (Some u) (Some g) True x env s =
      Some (st, u', if EFI_ERROR st then env else told invoke s' g (the u') x env, s')" if q: "quiet invoke"
  proof (cases "EFI_ERROR st")
    case True
    then show ?thesis using r(3) by (simp add: outcome_def)
  next
    case False
    then obtain p where p: "pifs s' i = Some p" "u' = Some (iHandle p)" "entry_of s' g = Some (iProtocol p)" "Interface p = x"
      using r(2) by (auto simp: announces_def)
    have "pdb_inv s'" using r(1) by (simp add: installed_def)
    from SmmNotifyProtocol_quiet[OF this q p(1,3)] show ?thesis using False r(3) p(2,4) by (simp add: outcome_def)
  qed
  moreover have "pdb_inv t" if "keeps pdb_inv invoke"
    "SmmInstallProtocolInterface oom invoke (Some u) (Some g) True x env s = Some (st, v, env', t)" for st v env' t
    using installs_keeps[OF _ that(1)] run that(2) by simp
  ultimately show ?thesis using r by (auto simp: outcome_def)
qed

theorem SmmInstallProtocolInterface_contract_witness:
  "\<exists>env' s'. SmmInstallProtocolInterface (\<lambda>_. False) log_call (Some (Some 4)) (Some [2]) True 9 [] demo =
      Some (EFI_SUCCESS, Some 4, env', s') \<and> provides s' [2] = [(4, 9)]"
proof -
  obtain st u' i s' where r: "installed (\<lambda>_. False) (Some 4) [2] 9 demo (st, u', s')"
    "SmmInstallProtocolInterface (\<lambda>_. False) log_call (Some (Some 4)) (Some [2]) True 9 [] demo =
      Some (st, u', if EFI_ERROR st then [] else told log_call s' [2] (the u') 9 [], s')"
    using SmmInstallProtocolInterface_contract[OF demo_inv, of "\<lambda>_. False" "Some 4" "[2]" 9 log_call "[]"] quiet_log_call by blast
  have "hnds demo 4 \<noteq> None" by (simp add: demo_val(2))
  then have "st = EFI_SUCCESS" "u' = Some 4" "provides s' [2] = [(4, 9)]"
    using r(1) by (auto simp: installed_def demo_view split: if_splits)
  then show ?thesis using r(2) by simp
qed

text \<open>C16: Removal meets its contract. SmmUninstallProtocolInterface takes exactly the given
  handle and interface out of what the protocol provides and out of what its registrations
  wait for, wherever their positions are, reports EFI_NOT_FOUND or EFI_INVALID_PARAMETER
  otherwise, and frees the handle exactly when it has no protocol left.\<close>

theorem SmmUninstallProtocolInterface_contract:
  assumes "pdb_inv s"
  shows "\<exists>s'. SmmUninstallProtocolInterface (Some h) (Some g) x s =
      Some (if h \<notin> set (gHandleList s) then EFI_INVALID_PARAMETER
            else if (h, x) \<in> set (provides s g) then EFI_SUCCESS else EFI_NOT_FOUND, s') \<and>
    pdb_inv s' \<and> provides s' = (provides s)(g := filter (\<lambda>q. q \<noteq> (h, x)) (provides s g)) \<and>
    (\<forall>n. pending s' n = (if registered s n g then filter (\<lambda>q. q \<noteq> (h, x)) (pending s n) else pending s n)) \<and>
    (h \<in> set (gHandleList s') \<longleftrightarrow> (\<exists>g' y. (h, y) \<in> set (provides s g') \<and> (g', y) \<noteq> (g, x)))"
proof -
  have live: "hnds s h = None \<longleftrightarrow> h \<notin> set (gHandleList s)"
    using pdb_invD(2)[OF assms] by (auto simp: hnds_ok_def)
  obtain s' where s': "SmmUninstallProtocolInterface (Some h) (Some g) x s =
      Some (if hnds s h = None then EFI_INVALID_PARAMETER
            else if (h, x) \<in> set (provides s g) then EFI_SUCCESS else EFI_NOT_FOUND, s')"
    "pdb_inv s'" "provides s' = (provides s)(g := filter (\<lambda>q. q \<noteq> (h, x)) (provides s g))"
    "\<forall>n. pending s' n = (if registered s n g then filter (\<lambda>q. q \<noteq> (h, x)) (pending s n) else pending s n)"
    using SmmUninstallProtocolInterface_eq[OF assms, of h g x] by blast
  have "h \<in> set (gHandleList s') \<longleftrightarrow> (\<exists>g' y. (h, y) \<in> set (provides s g') \<and> (g', y) \<noteq> (g, x))"
    unfolding live_handles[OF s'(2)] s'(3) by (auto split: if_splits)
  then show ?thesis using s' unfolding live by blast
qed

theorem SmmUninstallProtocolInterface_contract_witness:
  "\<exists>s'. SmmUninstallProtocolInterface (Some 4) (Some [1]) 5 demo = Some (EFI_SUCCESS, s') \<and>
    provides s' [1] = [] \<and> pending s' 2 = [] \<and> 4 \<notin> set (gHandleList s')"
  using SmmUninstallProtocolInterface_contract[OF demo_inv, of 4 "[1]" 5]
  by (auto simp: demo_view)

text \<open>SmmHandleProtocol is the lookup in the installed pairs: EFI_INVALID_PARAMETER for a
  handle that does not exist, EFI_UNSUPPORTED for a handle without the protocol, and otherwise
  the interface; the interface pointer is NULL in the error cases.\<close>

theorem SmmHandleProtocol_is_lookup:
  assumes "pdb_inv s"
  shows "SmmHandleProtocol s (Some h) (Some g) True =
    Some (if h \<notin> set (gHandleList s) then (EFI_INVALID_PARAMETER, Some 0)
          else case map_of (provides s g) h of None \<Rightarrow> (EFI_UNSUPPORTED, Some 0)
            | Some x \<Rightarrow> (EFI_SUCCESS, Some x))"
proof -
  have "hnds s h = None \<longleftrightarrow> h \<notin> set (gHandleList s)"
    using pdb_invD(2)[OF assms] by (auto simp: hnds_ok_def)
  then show ?thesis using SmmHandleProtocol_eq[OF assms, of h g] by simp
qed

theorem SmmHandleProtocol_is_lookup_witness:
  "SmmHandleProtocol demo (Some 4) (Some [1]) True = Some (EFI_SUCCESS, Some 5)"
  using SmmHandleProtocol_is_lookup[OF demo_inv, of 4 "[1]"] by (simp add: demo_view)

text \<open>Searches are complete. SmmLocateHandle returns every handle (of the protocol) once, in
  the order of installation, reports the size it needs and writes no more handles than the
  buffer holds; SmmLocateHandleBuffer, which asks for the size and then allocates, returns all of
  them unless memory runs out; SmmLocateProtocol returns the first interface. A search changes
  nothing a client sees.\<close>

theorem SmmLocate_complete:
  assumes "pdb_inv s" "unat (mEfiLocateHandleRequest s) + 2 < 2 ^ 64" "st = AllHandles \<or> st = ByProtocol"
    "bs > 0 \<longrightarrow> buffer"
  shows "(\<exists>s'. SmmLocateHandle st (Some g) key (Some bs) buffer s =
      Some (if found s st g = [] then EFI_NOT_FOUND
            else if 8 * length (found s st g) > bs then EFI_BUFFER_TOO_SMALL else EFI_SUCCESS,
          Some (if found s st g = [] then bs else 8 * length (found s st g)), take (bs div 8) (found s st g), s') \<and>
      pdb_inv s' \<and> same_view s s') \<and>
    (\<exists>s'. SmmLocateHandleBuffer oom st (Some g) key True True s =
      Some (if found s st g = [] then (EFI_NOT_FOUND, 0, None, s')
            else if oom (next_addr s) then (EFI_OUT_OF_RESOURCES, 0, None, s')
            else (EFI_SUCCESS, length (found s st g), Some (found s st g), s')) \<and>
      pdb_inv s' \<and> same_view s s') \<and>
    (\<exists>s'. SmmLocateProtocol (Some g) None True s =
      Some (case provides s g of [] \<Rightarrow> (EFI_NOT_FOUND, Some 0, s') | q # _ \<Rightarrow> (EFI_SUCCESS, Some (snd q), s')) \<and>
      pdb_inv s' \<and> same_view s s')"
proof -
  have c: "mEfiLocateHandleRequest s \<noteq> - 1" using assms(2) max_request by auto
  show ?thesis
    using locate_eq[OF assms(1) c assms(3,4), of g key] locate_buffer_eq[OF assms(1-3), of oom g key]
      locate_protocol_eq[OF assms(1) c, of g] by blast
qed

theorem SmmLocate_complete_witness:
  "\<exists>s'. SmmLocateHandleBuffer (\<lambda>_. False) AllHandles (Some [1]) None True True demo =
    Some (EFI_SUCCESS, 1, Some [4], s') \<and> same_view demo s'"
proof -
  have "unat (mEfiLocateHandleRequest demo) + 2 < 2 ^ 64" by (simp add: demo_val(2))
  from SmmLocate_complete[OF demo_inv this, of AllHandles 0 False "[1]" None "\<lambda>_. False"]
  show ?thesis by (auto simp: demo_view)
qed

text \<open>A client that asks k times.\<close>

fun poll :: "nat \<Rightarrow> guid \<Rightarrow> nat \<Rightarrow> 'f pdb \<Rightarrow> ((efi_status \<times> nat option) list \<times> 'f pdb) option" where
  "poll 0 g n s = Some ([], s)"
| "poll (Suc k) g n s = do {
     (st, x, s) \<leftarrow> SmmLocateProtocol (Some g) (Some n) True s;
     (rs, s) \<leftarrow> poll k g n s;
     Some ((st, x) # rs, s)
   }"

lemma poll_pending:
  "\<lbrakk>pdb_inv s; unat (mEfiLocateHandleRequest s) + length (pending s n) + 1 < 2 ^ 64; nots s n \<noteq> None\<rbrakk> \<Longrightarrow>
    \<exists>s'. poll (length (pending s n) + 1) g n s =
        Some (map (\<lambda>q. (EFI_SUCCESS, Some (snd q))) (pending s n) @ [(EFI_NOT_FOUND, Some 0)], s') \<and>
      pdb_inv s' \<and> provides s' = provides s \<and> pending s' = (pending s)(n := [])"
proof (induction "pending s n" arbitrary: s)
  case Nil
  have c: "mEfiLocateHandleRequest s \<noteq> - 1" using Nil.prems(2) max_request by auto
  show ?case using locate_registration_eq[OF Nil.prems(1) c Nil.prems(3), of g] Nil.hyps[symmetric]
    by auto
next
  case (Cons q qs)
  have c: "mEfiLocateHandleRequest s \<noteq> - 1" using Cons.prems(2) max_request by auto
  obtain s1 where s1: "SmmLocateProtocol (Some g) (Some n) True s = Some (EFI_SUCCESS, Some (snd q), s1)"
    "pdb_inv s1" "provides s1 = provides s" "pending s1 = (pending s)(n := qs)"
    "mEfiLocateHandleRequest s1 = mEfiLocateHandleRequest s + 1" "nots s1 n \<noteq> None"
    using locate_registration_eq[OF Cons.prems(1) c Cons.prems(3), of g] Cons.hyps(2)[symmetric] by auto
  have "unat (mEfiLocateHandleRequest s1) + length (pending s1 n) + 1 < 2 ^ 64"
    using Cons.prems(2) Cons.hyps(2)[symmetric] next_request(1)[OF c] s1(4,5) by simp
  from Cons.hyps(1)[OF _ s1(2) this s1(6)] s1(3,4)
  obtain s' where s': "poll (length qs + 1) g n s1 =
        Some (map (\<lambda>q. (EFI_SUCCESS, Some (snd q))) qs @ [(EFI_NOT_FOUND, Some 0)], s')"
      "pdb_inv s'" "provides s' = provides s" "pending s' = (pending s)(n := [])"
    by auto
  have "poll (Suc (length qs + 1)) g n s =
      Some (map (\<lambda>q. (EFI_SUCCESS, Some (snd q))) (q # qs) @ [(EFI_NOT_FOUND, Some 0)], s')"
    by (simp only: poll.simps s1(1) s' Option.bind.bind_lunit prod.case list.map append_Cons)
  then show ?case using s'(2-4) Cons.hyps(2)[symmetric] by simp
qed

text \<open>C17: Delivery. A client that registered for a protocol and asks SmmLocateProtocol with the
  registration again and again is given every interface it waits for, once and in the order of
  installation, and then EFI_NOT_FOUND; what the protocol provides and what other registrations
  wait for does not change.\<close>

theorem registration_delivers:
  assumes "pdb_inv s" "unat (mEfiLocateHandleRequest s) + length (pending s n) + 1 < 2 ^ 64" "registered s n g'"
  shows "\<exists>s'. poll (length (pending s n) + 1) g n s =
        Some (map (\<lambda>q. (EFI_SUCCESS, Some (snd q))) (pending s n) @ [(EFI_NOT_FOUND, Some 0)], s') \<and>
      pdb_inv s' \<and> provides s' = provides s \<and> pending s' = (pending s)(n := [])"
  using poll_pending[OF assms(1,2)] assms(3) by (auto simp: registered_def)

theorem registration_delivers_witness:
  "\<exists>s'. poll 2 [1] 2 demo = Some ([(EFI_SUCCESS, Some 5), (EFI_NOT_FOUND, Some 0)], s') \<and> pending s' 2 = []"
proof -
  have "unat (mEfiLocateHandleRequest demo) + length (pending demo 2) + 1 < 2 ^ 64" "registered demo 2 [1]"
    by (simp_all add: demo_view) (simp add: demo_val(2))
  from registration_delivers[OF demo_inv this, of "[1]", unfolded demo_view(2)] show ?thesis
    by (auto simp: numeral_2_eq_2 simp del: poll.simps)
qed

text \<open>Registration meets its contract. Registering a function for a protocol returns the
  registration it has already, or a new one with nothing to wait for, and fails only when memory
  runs out; unregistering removes exactly the given registration, and only if it is one of the
  given protocol.\<close>

theorem SmmRegisterProtocolNotify_contract:
  assumes "pdb_inv s"
  shows "(\<exists>r. SmmRegisterProtocolNotify oom (Some g) (Some f) (Some r0) s = Some r \<and> registration oom g f s r) \<and>
    (\<exists>s'. SmmRegisterProtocolNotify oom (Some g) None (Some r0) s =
       Some (if (\<exists>n. r0 = Some n \<and> registered s n g) then EFI_SUCCESS else EFI_NOT_FOUND, None, s') \<and>
     pdb_inv s' \<and> provides s' = provides s \<and>
     (\<forall>n. pending s' n = (if r0 = Some n \<and> registered s n g then [] else pending s n)) \<and>
     (\<forall>n. nots s' n \<noteq> None \<longleftrightarrow> nots s n \<noteq> None \<and> \<not> (r0 = Some n \<and> registered s n g)))"
  using register_eq[OF assms, of oom g f r0] unregister_eq[OF assms, of oom g r0] by blast

theorem SmmRegisterProtocolNotify_contract_witness:
  "\<exists>s'. SmmRegisterProtocolNotify (\<lambda>_. False) (Some [1]) None (Some (Some 2)) demo = Some (EFI_SUCCESS, None, s') \<and>
    nots s' 2 = None"
proof -
  have "registered demo 2 [1]" by (simp add: demo_view)
  then show ?thesis
    using SmmRegisterProtocolNotify_contract[OF demo_inv, of "\<lambda>_. False" "[1]" 7 "Some 2"] by auto
qed

end
