(* ===== verification/Event_Tpl.thy ===== *)
theory Event_Tpl
  imports Math_Lib
begin

text \<open>
  Events, task priorities and timers of the DXE core: MdeModulePkg/Core/Dxe/Event/Event.c,
  Tpl.c and Timer.c, and the locks of Library/Library.c.

  IEVENT objects live in a map from their addresses; the rings (gEventQueue,
  gEventSignalQueue, mEfiTimerList, gRuntime->EventHead) are lists of addresses in ring order.
  The ForwardLink of NotifyLink and Timer.Link is NULL exactly when the event is not in the
  ring: AllocateZeroPool clears it, insertion sets it, and the code clears it on every
  removal.  An address without an object has no EVENT_SIGNATURE.

  CoreRestoreTpl, the dispatcher and everything that releases a lock call each other: here
  they take the CoreRestoreTpl they call as an argument, and CoreRestoreTpl itself recurses
  on fuel, which also bounds its loops.  None is a fired ASSERT, the use of an object that is
  not there, or fuel that ran out.

  Notification functions are CoreCheckTimers, EfiEventEmptyFunction or external ones (with
  their contexts): invoke gives the effect of a call of those on the rest of the system and on
  the state of the event services, which they may use.  Ticks that interrupt a service are not
  modelled: CoreTimerTick is called between services.
\<close>

unbundle bit_operations_syntax

subsection \<open>Constants (UefiSpec.h)\<close>

definition EVT_TIMER :: u32 where "EVT_TIMER = 0x80000000"
definition EVT_RUNTIME :: u32 where "EVT_RUNTIME = 0x40000000"
definition EVT_NOTIFY_WAIT :: u32 where "EVT_NOTIFY_WAIT = 0x00000100"
definition EVT_NOTIFY_SIGNAL :: u32 where "EVT_NOTIFY_SIGNAL = 0x00000200"
definition EVT_SIGNAL_EXIT_BOOT_SERVICES :: u32 where "EVT_SIGNAL_EXIT_BOOT_SERVICES = 0x00000201"
definition EVT_SIGNAL_VIRTUAL_ADDRESS_CHANGE :: u32 where "EVT_SIGNAL_VIRTUAL_ADDRESS_CHANGE = 0x60000202"

definition TPL_APPLICATION :: nat where "TPL_APPLICATION = 4"
definition TPL_CALLBACK :: nat where "TPL_CALLBACK = 8"
definition TPL_NOTIFY :: nat where "TPL_NOTIFY = 16"
definition TPL_HIGH_LEVEL :: nat where "TPL_HIGH_LEVEL = 31"

lemmas evt_consts = EVT_TIMER_def EVT_RUNTIME_def EVT_NOTIFY_WAIT_def EVT_NOTIFY_SIGNAL_def
  EVT_SIGNAL_EXIT_BOOT_SERVICES_def EVT_SIGNAL_VIRTUAL_ADDRESS_CHANGE_def
lemmas tpl_consts = TPL_APPLICATION_def TPL_CALLBACK_def TPL_NOTIFY_def TPL_HIGH_LEVEL_def

text \<open>The GUIDs of MdePkg.dec and MdeModulePkg.dec, as their bytes.\<close>

definition gEfiEventExitBootServicesGuid :: guid where
  "gEfiEventExitBootServicesGuid =
     [0x55, 0xF0, 0xAB, 0x27, 0xB8, 0xB1, 0x26, 0x4C, 0x80, 0x48, 0x74, 0x8F, 0x37, 0xBA, 0xA2, 0xDF]"
definition gEfiEventVirtualAddressChangeGuid :: guid where
  "gEfiEventVirtualAddressChangeGuid =
     [0x98, 0x76, 0xFA, 0x13, 0x31, 0xC8, 0xC7, 0x49, 0x87, 0xEA, 0x8F, 0x43, 0xFC, 0xC2, 0x51, 0x96]"
definition gIdleLoopEventGuid :: guid where
  "gIdleLoopEventGuid =
     [0x4C, 0x29, 0x8D, 0x3C, 0xC3, 0x5F, 0x51, 0x44, 0xBB, 0x31, 0xC4, 0xC0, 0x32, 0x29, 0x5E, 0x6C]"

definition mEventTable :: "u32 list" where
  "mEventTable = [EVT_TIMER OR EVT_NOTIFY_SIGNAL, EVT_TIMER, EVT_NOTIFY_WAIT, EVT_NOTIFY_SIGNAL,
     EVT_SIGNAL_EXIT_BOOT_SERVICES, EVT_SIGNAL_VIRTUAL_ADDRESS_CHANGE, 0, EVT_TIMER OR EVT_NOTIFY_WAIT]"

subsection \<open>State\<close>

datatype lock_state = EfiLockUninitialized | EfiLockReleased | EfiLockAcquired

record efi_lock =
  Tpl :: nat
  OwnerTpl :: nat
  Lock :: lock_state

datatype lock_id = gEventQueueLock | mEfiTimerLock | mEfiSystemTimeLock

datatype 'f notify = CheckTimers | EmptyFunction | External 'f

text \<open>
  EventGroup is None without EVT_EXFLAG_EVENT_GROUP, where the GUID of the event is zero;
  ProtocolNotify is the other ExFlag.
\<close>

record 'f ievent =
  Type :: u32
  SignalCount :: u32
  NotifyTpl :: nat
  NotifyFunction :: "'f notify option"
  EventGroup :: "guid option"
  ProtocolNotify :: bool
  TriggerTime :: u64
  Period :: u64

record 'f ev_state =
  gEfiCurrentTpl :: nat
  locks :: "lock_id \<Rightarrow> efi_lock"
  gEventQueue :: "nat \<Rightarrow> nat list"
  gEventPending :: u64
  gEventSignalQueue :: "nat list"
  gIdleLoopEvent :: "nat option"
  mEfiTimerList :: "nat list"
  mEfiCheckTimerEvent :: "nat option"
  mEfiSystemTime :: u64
  EventHead :: "nat list"
  events :: "nat \<Rightarrow> 'f ievent option"
  Interrupts :: bool
  next_event :: nat

text \<open>EFI_INITIALIZE_LOCK_VARIABLE (Priority).\<close>

definition init_lock :: "nat \<Rightarrow> efi_lock" where
  "init_lock Priority = \<lparr>Tpl = Priority, OwnerTpl = TPL_APPLICATION, Lock = EfiLockReleased\<rparr>"

definition ev_init :: "bool \<Rightarrow> 'f ev_state" where
  "ev_init intr = \<lparr>gEfiCurrentTpl = TPL_APPLICATION,
     locks = (\<lambda>l. case l of gEventQueueLock \<Rightarrow> init_lock TPL_HIGH_LEVEL
        | mEfiTimerLock \<Rightarrow> init_lock (TPL_HIGH_LEVEL - 1) | mEfiSystemTimeLock \<Rightarrow> init_lock TPL_HIGH_LEVEL),
     gEventQueue = (\<lambda>_. []), gEventPending = 0, gEventSignalQueue = [], gIdleLoopEvent = None,
     mEfiTimerList = [], mEfiCheckTimerEvent = None, mEfiSystemTime = 0, EventHead = [],
     events = Map.empty, Interrupts = intr, next_event = 1\<rparr>"

text \<open>
  The rest of the platform: whether gCpu is there, gSmmBase2 (with what InSmm returns), and the
  period gTimer->GetTimerPeriod returns.
\<close>

record platform =
  gCpu :: bool
  gSmmBase2 :: "(efi_status \<times> bool) option"
  GetTimerPeriod :: u64

type_synonym ('f, 'e) invoker = "'f \<Rightarrow> nat \<Rightarrow> 'e \<Rightarrow> 'f ev_state \<Rightarrow> ('e \<times> 'f ev_state) option"
type_synonym ('f, 'e) restorer = "nat \<Rightarrow> 'e \<Rightarrow> 'f ev_state \<Rightarrow> ('e \<times> 'f ev_state) option"

text \<open>(UINTN)(1 << n) and -2 << n: the shifts are of int.\<close>

definition tpl_bit :: "nat \<Rightarrow> u64" where
  "tpl_bit n = scast (push_bit n (1 :: u32))"

definition tpl_mask :: "nat \<Rightarrow> u64" where
  "tpl_mask n = scast (push_bit n (- 2 :: u32))"

subsection \<open>Tpl.c and Library.c\<close>

definition CoreSetInterruptState :: "platform \<Rightarrow> bool \<Rightarrow> 'f ev_state \<Rightarrow> 'f ev_state" where
  "CoreSetInterruptState pf Enable s =
     (if \<not> gCpu pf then s
      else if \<not> Enable then s\<lparr>Interrupts := False\<rparr>
      else case gSmmBase2 pf of
             None \<Rightarrow> s\<lparr>Interrupts := True\<rparr>
           | Some (Status, InSmm) \<Rightarrow>
               if \<not> EFI_ERROR Status \<and> \<not> InSmm then s\<lparr>Interrupts := True\<rparr> else s)"

definition CoreRaiseTpl :: "platform \<Rightarrow> nat \<Rightarrow> 'f ev_state \<Rightarrow> (nat \<times> 'f ev_state) option" where
  "CoreRaiseTpl pf NewTpl s = do {
     let OldTpl = gEfiCurrentTpl s;
     ASSERT (\<not> OldTpl > NewTpl);
     ASSERT (NewTpl \<le> TPL_HIGH_LEVEL);
     let s = (if NewTpl \<ge> TPL_HIGH_LEVEL \<and> OldTpl < TPL_HIGH_LEVEL then CoreSetInterruptState pf False s else s);
     Some (OldTpl, s\<lparr>gEfiCurrentTpl := NewTpl\<rparr>)
   }"

definition CoreAcquireLockOrFail :: "platform \<Rightarrow> lock_id \<Rightarrow> 'f ev_state \<Rightarrow> (efi_status \<times> 'f ev_state) option" where
  "CoreAcquireLockOrFail pf l s = do {
     ASSERT (Lock (locks s l) \<noteq> EfiLockUninitialized);
     if Lock (locks s l) = EfiLockAcquired then Some (EFI_ACCESS_DENIED, s)
     else do {
       (t, s) \<leftarrow> CoreRaiseTpl pf (Tpl (locks s l)) s;
       Some (EFI_SUCCESS, s\<lparr>locks := (locks s)(l := (locks s l)\<lparr>OwnerTpl := t, Lock := EfiLockAcquired\<rparr>)\<rparr>)
     }
   }"

definition CoreAcquireLock :: "platform \<Rightarrow> lock_id \<Rightarrow> 'f ev_state \<Rightarrow> 'f ev_state option" where
  "CoreAcquireLock pf l s = do {
     ASSERT (Lock (locks s l) = EfiLockReleased);
     (t, s) \<leftarrow> CoreRaiseTpl pf (Tpl (locks s l)) s;
     Some (s\<lparr>locks := (locks s)(l := (locks s l)\<lparr>OwnerTpl := t, Lock := EfiLockAcquired\<rparr>)\<rparr>)
   }"

definition CoreReleaseLock ::
  "('f, 'e) restorer \<Rightarrow> lock_id \<Rightarrow> 'e \<Rightarrow> 'f ev_state \<Rightarrow> ('e \<times> 'f ev_state) option" where
  "CoreReleaseLock restore l env s = do {
     ASSERT (Lock (locks s l) = EfiLockAcquired);
     let t = OwnerTpl (locks s l);
     restore t env (s\<lparr>locks := (locks s)(l := (locks s l)\<lparr>Lock := EfiLockReleased\<rparr>)\<rparr>)
   }"

definition CoreAcquireEventLock :: "platform \<Rightarrow> 'f ev_state \<Rightarrow> 'f ev_state option" where
  "CoreAcquireEventLock pf s = CoreAcquireLock pf gEventQueueLock s"

definition CoreReleaseEventLock ::
  "('f, 'e) restorer \<Rightarrow> 'e \<Rightarrow> 'f ev_state \<Rightarrow> ('e \<times> 'f ev_state) option" where
  "CoreReleaseEventLock restore env s = CoreReleaseLock restore gEventQueueLock env s"

subsection \<open>Signalling\<close>

definition CoreNotifyEvent :: "nat \<Rightarrow> 'f ev_state \<Rightarrow> 'f ev_state option" where
  "CoreNotifyEvent e s = do {
     ASSERT (Lock (locks s gEventQueueLock) = EfiLockAcquired);
     Event \<leftarrow> events s e;
     let t = NotifyTpl Event;
     let queue = (if e \<in> set (gEventQueue s t) then remove1 e (gEventQueue s t) else gEventQueue s t);
     Some (s\<lparr>gEventQueue := (gEventQueue s)(t := queue @ [e]),
             gEventPending := gEventPending s OR tpl_bit t\<rparr>)
   }"

definition group_guid :: "'f ievent \<Rightarrow> guid" where
  "group_guid Event = (case EventGroup Event of None \<Rightarrow> replicate 16 0 | Some g \<Rightarrow> g)"

lemma group_guid_count [simp]: "group_guid (ev\<lparr>SignalCount := n\<rparr>) = group_guid ev"
  by (simp add: group_guid_def)

text \<open>The loop of CoreNotifySignalList; nothing in it changes gEventSignalQueue.\<close>

fun notify_group :: "guid \<Rightarrow> nat list \<Rightarrow> 'f ev_state \<Rightarrow> 'f ev_state option" where
  "notify_group g [] s = Some s"
| "notify_group g (e # es) s = do {
     Event \<leftarrow> events s e;
     s \<leftarrow> (if group_guid Event = g then CoreNotifyEvent e s else Some s);
     notify_group g es s
   }"

definition CoreNotifySignalList ::
  "platform \<Rightarrow> ('f, 'e) restorer \<Rightarrow> guid \<Rightarrow> 'e \<Rightarrow> 'f ev_state \<Rightarrow> ('e \<times> 'f ev_state) option" where
  "CoreNotifySignalList pf restore g env s = do {
     s \<leftarrow> CoreAcquireEventLock pf s;
     s \<leftarrow> notify_group g (gEventSignalQueue s) s;
     CoreReleaseEventLock restore env s
   }"

text \<open>
  UserEvent is None for NULL.  The group is read from the event again after the lock has been
  released: pending notifications may have run in between.
\<close>

definition CoreSignalEvent ::
  "platform \<Rightarrow> ('f, 'e) restorer \<Rightarrow> nat option \<Rightarrow> 'e \<Rightarrow> 'f ev_state \<Rightarrow> (efi_status \<times> 'e \<times> 'f ev_state) option" where
  "CoreSignalEvent pf restore UserEvent env s =
     (case UserEvent of
        None \<Rightarrow> Some (EFI_INVALID_PARAMETER, env, s)
      | Some e \<Rightarrow>
        if events s e = None then Some (EFI_INVALID_PARAMETER, env, s)
        else do {
          s \<leftarrow> CoreAcquireEventLock pf s;
          Event \<leftarrow> events s e;
          (env, s) \<leftarrow>
            (if SignalCount Event = 0 then
               (let s = s\<lparr>events := (events s)(e \<mapsto> Event\<lparr>SignalCount := SignalCount Event + 1\<rparr>)\<rparr>
                in if Type Event AND EVT_NOTIFY_SIGNAL \<noteq> 0 then
                     (if EventGroup Event \<noteq> None then do {
                        (env, s) \<leftarrow> CoreReleaseEventLock restore env s;
                        Event \<leftarrow> events s e;
                        g \<leftarrow> EventGroup Event;
                        (env, s) \<leftarrow> CoreNotifySignalList pf restore g env s;
                        s \<leftarrow> CoreAcquireEventLock pf s;
                        Some (env, s)
                      }
                      else do { s \<leftarrow> CoreNotifyEvent e s; Some (env, s) })
                   else Some (env, s))
             else Some (env, s));
          (env, s) \<leftarrow> CoreReleaseEventLock restore env s;
          Some (EFI_SUCCESS, env, s)
        })"

definition CoreCheckEvent ::
  "platform \<Rightarrow> ('f, 'e) restorer \<Rightarrow> nat option \<Rightarrow> 'e \<Rightarrow> 'f ev_state \<Rightarrow> (efi_status \<times> 'e \<times> 'f ev_state) option" where
  "CoreCheckEvent pf restore UserEvent env s =
     (case UserEvent of
        None \<Rightarrow> Some (EFI_INVALID_PARAMETER, env, s)
      | Some e \<Rightarrow>
        (case events s e of
           None \<Rightarrow> Some (EFI_INVALID_PARAMETER, env, s)
         | Some Event \<Rightarrow>
           if Type Event AND EVT_NOTIFY_SIGNAL \<noteq> 0 then Some (EFI_INVALID_PARAMETER, env, s)
           else do {
             (env, s) \<leftarrow>
               (if SignalCount Event = 0 \<and> Type Event AND EVT_NOTIFY_WAIT \<noteq> 0 then do {
                  s \<leftarrow> CoreAcquireEventLock pf s;
                  Event \<leftarrow> events s e;
                  s \<leftarrow> (if SignalCount Event = 0 then CoreNotifyEvent e s else Some s);
                  CoreReleaseEventLock restore env s
                } else Some (env, s));
             Event \<leftarrow> events s e;
             if SignalCount Event \<noteq> 0 then do {
               s \<leftarrow> CoreAcquireEventLock pf s;
               Event \<leftarrow> events s e;
               let (Status, s) =
                 (if SignalCount Event \<noteq> 0
                  then (EFI_SUCCESS, s\<lparr>events := (events s)(e \<mapsto> Event\<lparr>SignalCount := 0\<rparr>)\<rparr>)
                  else (EFI_NOT_READY, s));
               (env, s) \<leftarrow> CoreReleaseEventLock restore env s;
               Some (Status, env, s)
             }
             else Some (EFI_NOT_READY, env, s)
           }))"

text \<open>
  The inner loop of CoreWaitForEvent: the status, and the index of the event where it is
  not EFI_NOT_READY.
\<close>

fun wait_scan ::
  "platform \<Rightarrow> ('f, 'e) restorer \<Rightarrow> nat \<Rightarrow> nat option list \<Rightarrow> 'e \<Rightarrow> 'f ev_state \<Rightarrow>
     ((efi_status \<times> nat) option \<times> 'e \<times> 'f ev_state) option" where
  "wait_scan pf restore Index [] env s = Some (None, env, s)"
| "wait_scan pf restore Index (ue # ues) env s = do {
     (Status, env, s) \<leftarrow> CoreCheckEvent pf restore ue env s;
     if Status \<noteq> EFI_NOT_READY then Some (Some (Status, Index), env, s)
     else wait_scan pf restore (Index + 1) ues env s
   }"

fun wait_loop ::
  "nat \<Rightarrow> platform \<Rightarrow> ('f, 'e) restorer \<Rightarrow> nat option list \<Rightarrow> 'e \<Rightarrow> 'f ev_state \<Rightarrow>
     (efi_status \<times> nat \<times> 'e \<times> 'f ev_state) option" where
  "wait_loop 0 pf restore ues env s = None"
| "wait_loop (Suc n) pf restore ues env s = do {
     (r, env, s) \<leftarrow> wait_scan pf restore 0 ues env s;
     case r of
       Some (Status, Index) \<Rightarrow> Some (Status, Index, env, s)
     | None \<Rightarrow> do {
         (_, env, s) \<leftarrow> CoreSignalEvent pf restore (gIdleLoopEvent s) env s;
         wait_loop n pf restore ues env s
       }
   }"

text \<open>
  UserEvents is None for NULL; the array has at least NumberOfEvents elements.  The second
  result is what is written to *UserIndex.
\<close>

definition CoreWaitForEvent ::
  "nat \<Rightarrow> platform \<Rightarrow> ('f, 'e) restorer \<Rightarrow> nat \<Rightarrow> nat option list option \<Rightarrow> 'e \<Rightarrow> 'f ev_state \<Rightarrow>
     (efi_status \<times> nat option \<times> 'e \<times> 'f ev_state) option" where
  "CoreWaitForEvent fuel pf restore NumberOfEvents UserEvents env s =
     (if gEfiCurrentTpl s \<noteq> TPL_APPLICATION then Some (EFI_UNSUPPORTED, None, env, s)
      else if NumberOfEvents = 0 then Some (EFI_INVALID_PARAMETER, None, env, s)
      else case UserEvents of
             None \<Rightarrow> Some (EFI_INVALID_PARAMETER, None, env, s)
           | Some ues \<Rightarrow> do {
               ASSERT (NumberOfEvents \<le> length ues);
               (Status, Index, env, s) \<leftarrow> wait_loop fuel pf restore (take NumberOfEvents ues) env s;
               Some (Status, Some Index, env, s)
             })"

subsection \<open>Timer.c\<close>

text \<open>The list with the event inserted before the first timer with a later trigger time.\<close>

fun insert_timer ::
  "(nat \<Rightarrow> 'f ievent option) \<Rightarrow> nat \<Rightarrow> u64 \<Rightarrow> nat list \<Rightarrow> nat list option" where
  "insert_timer evs e t [] = Some [e]"
| "insert_timer evs e t (x # xs) = do {
     Event2 \<leftarrow> evs x;
     if TriggerTime Event2 > t then Some (e # x # xs)
     else do { ys \<leftarrow> insert_timer evs e t xs; Some (x # ys) }
   }"

definition CoreInsertEventTimer :: "nat \<Rightarrow> 'f ev_state \<Rightarrow> 'f ev_state option" where
  "CoreInsertEventTimer e s = do {
     ASSERT (Lock (locks s mEfiTimerLock) = EfiLockAcquired);
     Event \<leftarrow> events s e;
     timers \<leftarrow> insert_timer (events s) e (TriggerTime Event) (mEfiTimerList s);
     Some (s\<lparr>mEfiTimerList := timers\<rparr>)
   }"

definition CoreCurrentSystemTime ::
  "platform \<Rightarrow> ('f, 'e) restorer \<Rightarrow> 'e \<Rightarrow> 'f ev_state \<Rightarrow> (u64 \<times> 'e \<times> 'f ev_state) option" where
  "CoreCurrentSystemTime pf restore env s = do {
     s \<leftarrow> CoreAcquireLock pf mEfiSystemTimeLock s;
     let SystemTime = mEfiSystemTime s;
     (env, s) \<leftarrow> CoreReleaseLock restore mEfiSystemTimeLock env s;
     Some (SystemTime, env, s)
   }"

text \<open>One round of the loop of CoreCheckTimers; the flag is whether there is another one.\<close>

definition check_timers_round ::
  "platform \<Rightarrow> ('f, 'e) restorer \<Rightarrow> u64 \<Rightarrow> 'e \<Rightarrow> 'f ev_state \<Rightarrow> (bool \<times> 'e \<times> 'f ev_state) option" where
  "check_timers_round pf restore SystemTime env s =
     (case mEfiTimerList s of
        [] \<Rightarrow> Some (False, env, s)
      | e # es \<Rightarrow> do {
          Event \<leftarrow> events s e;
          if TriggerTime Event > SystemTime then Some (False, env, s)
          else do {
            let s = s\<lparr>mEfiTimerList := es\<rparr>;
            (_, env, s) \<leftarrow> CoreSignalEvent pf restore (Some e) env s;
            Event \<leftarrow> events s e;
            if Period Event \<noteq> 0 then do {
              let t = TriggerTime Event + Period Event;
              (env, s) \<leftarrow>
                (if t \<le> SystemTime then do {
                   let s = s\<lparr>events := (events s)(e \<mapsto> Event\<lparr>TriggerTime := SystemTime\<rparr>)\<rparr>;
                   (_, env, s) \<leftarrow> CoreSignalEvent pf restore (mEfiCheckTimerEvent s) env s;
                   Some (env, s)
                 }
                 else Some (env, s\<lparr>events := (events s)(e \<mapsto> Event\<lparr>TriggerTime := t\<rparr>)\<rparr>));
              s \<leftarrow> CoreInsertEventTimer e s;
              Some (True, env, s)
            }
            else Some (True, env, s)
          }
        })"

fun check_timers_loop ::
  "nat \<Rightarrow> platform \<Rightarrow> ('f, 'e) restorer \<Rightarrow> u64 \<Rightarrow> 'e \<Rightarrow> 'f ev_state \<Rightarrow> ('e \<times> 'f ev_state) option" where
  "check_timers_loop 0 pf restore SystemTime env s = None"
| "check_timers_loop (Suc n) pf restore SystemTime env s = do {
     (more, env, s) \<leftarrow> check_timers_round pf restore SystemTime env s;
     if more then check_timers_loop n pf restore SystemTime env s else Some (env, s)
   }"

definition CoreCheckTimers ::
  "nat \<Rightarrow> platform \<Rightarrow> ('f, 'e) restorer \<Rightarrow> 'e \<Rightarrow> 'f ev_state \<Rightarrow> ('e \<times> 'f ev_state) option" where
  "CoreCheckTimers fuel pf restore env s = do {
     s \<leftarrow> CoreAcquireLock pf mEfiTimerLock s;
     (SystemTime, env, s) \<leftarrow> CoreCurrentSystemTime pf restore env s;
     (env, s) \<leftarrow> check_timers_loop fuel pf restore SystemTime env s;
     CoreReleaseLock restore mEfiTimerLock env s
   }"

definition CoreTimerTick ::
  "platform \<Rightarrow> ('f, 'e) restorer \<Rightarrow> u64 \<Rightarrow> 'e \<Rightarrow> 'f ev_state \<Rightarrow> ('e \<times> 'f ev_state) option" where
  "CoreTimerTick pf restore Duration env s = do {
     s \<leftarrow> CoreAcquireLock pf mEfiSystemTimeLock s;
     let s = s\<lparr>mEfiSystemTime := mEfiSystemTime s + Duration\<rparr>;
     (env, s) \<leftarrow>
       (case mEfiTimerList s of
          [] \<Rightarrow> Some (env, s)
        | e # es \<Rightarrow> do {
            Event \<leftarrow> events s e;
            if TriggerTime Event \<le> mEfiSystemTime s then do {
              (_, env, s) \<leftarrow> CoreSignalEvent pf restore (mEfiCheckTimerEvent s) env s;
              Some (env, s)
            }
            else Some (env, s)
          });
     CoreReleaseLock restore mEfiSystemTimeLock env s
   }"

datatype timer_delay = TimerCancel | TimerPeriodic | TimerRelative | OtherDelay

definition CoreSetTimer ::
  "platform \<Rightarrow> ('f, 'e) restorer \<Rightarrow> nat option \<Rightarrow> timer_delay \<Rightarrow> u64 \<Rightarrow> 'e \<Rightarrow> 'f ev_state \<Rightarrow>
     (efi_status \<times> 'e \<times> 'f ev_state) option" where
  "CoreSetTimer pf restore UserEvent delay Trigger env s =
     (case UserEvent of
        None \<Rightarrow> Some (EFI_INVALID_PARAMETER, env, s)
      | Some e \<Rightarrow>
        (case events s e of
           None \<Rightarrow> Some (EFI_INVALID_PARAMETER, env, s)
         | Some Event \<Rightarrow>
           if delay = OtherDelay \<or> Type Event AND EVT_TIMER = 0 then Some (EFI_INVALID_PARAMETER, env, s)
           else do {
             s \<leftarrow> CoreAcquireLock pf mEfiTimerLock s;
             Event \<leftarrow> events s e;
             let s = s\<lparr>mEfiTimerList := (if e \<in> set (mEfiTimerList s) then remove1 e (mEfiTimerList s) else mEfiTimerList s),
                       events := (events s)(e \<mapsto> Event\<lparr>TriggerTime := 0, Period := 0\<rparr>)\<rparr>;
             (env, s) \<leftarrow>
               (if delay \<noteq> TimerCancel then do {
                  let t = (if delay = TimerPeriodic \<and> Trigger = 0 then GetTimerPeriod pf else Trigger);
                  Event \<leftarrow> events s e;
                  let s = s\<lparr>events := (events s)(e \<mapsto> Event\<lparr>Period := (if delay = TimerPeriodic then t else 0)\<rparr>)\<rparr>;
                  (now, env, s) \<leftarrow> CoreCurrentSystemTime pf restore env s;
                  Event \<leftarrow> events s e;
                  let s = s\<lparr>events := (events s)(e \<mapsto> Event\<lparr>TriggerTime := now + t\<rparr>)\<rparr>;
                  s \<leftarrow> CoreInsertEventTimer e s;
                  (env, s) \<leftarrow>
                    (if t = 0 then do {
                       (_, env, s) \<leftarrow> CoreSignalEvent pf restore (mEfiCheckTimerEvent s) env s;
                       Some (env, s)
                     }
                     else Some (env, s));
                  Some (env, s)
                }
                else Some (env, s));
             (env, s) \<leftarrow> CoreReleaseLock restore mEfiTimerLock env s;
             Some (EFI_SUCCESS, env, s)
           }))"

subsection \<open>Creation and removal\<close>

text \<open>
  want is whether the result pointer is not NULL; the second result is what it is set to.  oom
  tells which memory requests fail.
\<close>

definition CoreCreateEventInternal ::
  "platform \<Rightarrow> ('f, 'e) restorer \<Rightarrow> (nat \<Rightarrow> bool) \<Rightarrow> u32 \<Rightarrow> nat \<Rightarrow> 'f notify option \<Rightarrow> guid option \<Rightarrow> bool \<Rightarrow>
     'e \<Rightarrow> 'f ev_state \<Rightarrow> (efi_status \<times> nat option \<times> 'e \<times> 'f ev_state) option" where
  "CoreCreateEventInternal pf restore oom ty tpl fn egroup want env s =
     (if \<not> want then Some (EFI_INVALID_PARAMETER, None, env, s)
      else if ty \<notin> set mEventTable then Some (EFI_INVALID_PARAMETER, None, env, s)
      else if egroup \<noteq> None \<and> (ty = EVT_SIGNAL_EXIT_BOOT_SERVICES \<or> ty = EVT_SIGNAL_VIRTUAL_ADDRESS_CHANGE)
      then Some (EFI_INVALID_PARAMETER, None, env, s)
      else
        let (ty, egroup) =
          (case egroup of
             Some g \<Rightarrow>
               (if g = gEfiEventExitBootServicesGuid then EVT_SIGNAL_EXIT_BOOT_SERVICES
                else if g = gEfiEventVirtualAddressChangeGuid then EVT_SIGNAL_VIRTUAL_ADDRESS_CHANGE
                else ty, Some g)
           | None \<Rightarrow>
               (ty, if ty = EVT_SIGNAL_EXIT_BOOT_SERVICES then Some gEfiEventExitBootServicesGuid
                    else if ty = EVT_SIGNAL_VIRTUAL_ADDRESS_CHANGE then Some gEfiEventVirtualAddressChangeGuid
                    else None));
          is_notify = (ty AND (EVT_NOTIFY_WAIT OR EVT_NOTIFY_SIGNAL) \<noteq> 0)
        in if is_notify \<and> (fn = None \<or> tpl \<le> TPL_APPLICATION \<or> tpl \<ge> TPL_HIGH_LEVEL)
           then Some (EFI_INVALID_PARAMETER, None, env, s)
           else if oom (next_event s) then Some (EFI_OUT_OF_RESOURCES, None, env, s\<lparr>next_event := next_event s + 1\<rparr>)
           else do {
             let e = next_event s;
             let Event = \<lparr>Type = ty, SignalCount = 0, NotifyTpl = (if is_notify then tpl else 0),
               NotifyFunction = (if is_notify then fn else None), EventGroup = egroup,
               ProtocolNotify = False, TriggerTime = 0, Period = 0\<rparr>;
             let s = s\<lparr>next_event := e + 1, events := (events s)(e \<mapsto> Event),
               EventHead := (if ty AND EVT_RUNTIME \<noteq> 0 then EventHead s @ [e] else EventHead s)\<rparr>;
             s \<leftarrow> CoreAcquireEventLock pf s;
             let s = (if ty AND EVT_NOTIFY_SIGNAL \<noteq> 0 then s\<lparr>gEventSignalQueue := e # gEventSignalQueue s\<rparr> else s);
             (env, s) \<leftarrow> CoreReleaseEventLock restore env s;
             Some (EFI_SUCCESS, Some e, env, s)
           })"

definition CoreCreateEventEx ::
  "platform \<Rightarrow> ('f, 'e) restorer \<Rightarrow> (nat \<Rightarrow> bool) \<Rightarrow> u32 \<Rightarrow> nat \<Rightarrow> 'f notify option \<Rightarrow> guid option \<Rightarrow> bool \<Rightarrow>
     'e \<Rightarrow> 'f ev_state \<Rightarrow> (efi_status \<times> nat option \<times> 'e \<times> 'f ev_state) option" where
  "CoreCreateEventEx pf restore oom ty tpl fn egroup want env s =
     (if ty AND (EVT_NOTIFY_WAIT OR EVT_NOTIFY_SIGNAL) \<noteq> 0 \<and>
         tpl \<noteq> TPL_APPLICATION \<and> tpl \<noteq> TPL_CALLBACK \<and> tpl \<noteq> TPL_NOTIFY
      then Some (EFI_INVALID_PARAMETER, None, env, s)
      else CoreCreateEventInternal pf restore oom ty tpl fn egroup want env s)"

definition CoreCreateEvent ::
  "platform \<Rightarrow> ('f, 'e) restorer \<Rightarrow> (nat \<Rightarrow> bool) \<Rightarrow> u32 \<Rightarrow> nat \<Rightarrow> 'f notify option \<Rightarrow> bool \<Rightarrow>
     'e \<Rightarrow> 'f ev_state \<Rightarrow> (efi_status \<times> nat option \<times> 'e \<times> 'f ev_state) option" where
  "CoreCreateEvent pf restore oom ty tpl fn want env s =
     CoreCreateEventEx pf restore oom ty tpl fn None want env s"

text \<open>unregister is the effect of CoreUnregisterProtocolNotify on the rest of the system.\<close>

definition CoreCloseEvent ::
  "platform \<Rightarrow> ('f, 'e) restorer \<Rightarrow> (nat \<Rightarrow> 'e \<Rightarrow> 'e) \<Rightarrow> nat option \<Rightarrow> 'e \<Rightarrow> 'f ev_state \<Rightarrow>
     (efi_status \<times> 'e \<times> 'f ev_state) option" where
  "CoreCloseEvent pf restore unregister UserEvent env s =
     (case UserEvent of
        None \<Rightarrow> Some (EFI_INVALID_PARAMETER, env, s)
      | Some e \<Rightarrow>
        (case events s e of
           None \<Rightarrow> Some (EFI_INVALID_PARAMETER, env, s)
         | Some Event \<Rightarrow> do {
             (env, s) \<leftarrow> (if Type Event AND EVT_TIMER \<noteq> 0
               then do { (_, env, s) \<leftarrow> CoreSetTimer pf restore (Some e) TimerCancel 0 env s; Some (env, s) }
               else Some (env, s));
             s \<leftarrow> CoreAcquireEventLock pf s;
             Event \<leftarrow> events s e;
             let s = s\<lparr>EventHead := remove1 e (EventHead s),
                       gEventQueue := (gEventQueue s)(NotifyTpl Event := remove1 e (gEventQueue s (NotifyTpl Event))),
                       gEventSignalQueue := remove1 e (gEventSignalQueue s)\<rparr>;
             (env, s) \<leftarrow> CoreReleaseEventLock restore env s;
             Event \<leftarrow> events s e;
             let env = (if ProtocolNotify Event then unregister e env else env);
             Some (EFI_SUCCESS, env, s\<lparr>events := (events s)(e := None)\<rparr>)
           }))"

subsection \<open>Dispatch\<close>

definition call_notify ::
  "nat \<Rightarrow> platform \<Rightarrow> ('f, 'e) restorer \<Rightarrow> ('f, 'e) invoker \<Rightarrow> 'f notify \<Rightarrow> nat \<Rightarrow> 'e \<Rightarrow> 'f ev_state \<Rightarrow>
     ('e \<times> 'f ev_state) option" where
  "call_notify fuel pf restore invoke fn e env s =
     (case fn of
        CheckTimers \<Rightarrow> CoreCheckTimers fuel pf restore env s
      | EmptyFunction \<Rightarrow> Some (env, s)
      | External f \<Rightarrow> invoke f e env s)"

text \<open>The loop of CoreDispatchEventNotifies, entered with the lock held.\<close>

fun dispatch_loop ::
  "nat \<Rightarrow> platform \<Rightarrow> ('f, 'e) restorer \<Rightarrow> ('f, 'e) invoker \<Rightarrow> nat \<Rightarrow> nat \<Rightarrow> 'e \<Rightarrow> 'f ev_state \<Rightarrow>
     ('e \<times> 'f ev_state) option" where
  "dispatch_loop 0 pf restore invoke fuel Priority env s = None"
| "dispatch_loop (Suc n) pf restore invoke fuel Priority env s =
     (case gEventQueue s Priority of
        [] \<Rightarrow> Some (env, s)
      | e # es \<Rightarrow> do {
          Event \<leftarrow> events s e;
          let s = s\<lparr>gEventQueue := (gEventQueue s)(Priority := es)\<rparr>;
          let s = (if Type Event AND EVT_NOTIFY_SIGNAL \<noteq> 0
                   then s\<lparr>events := (events s)(e \<mapsto> Event\<lparr>SignalCount := 0\<rparr>)\<rparr> else s);
          (env, s) \<leftarrow> CoreReleaseEventLock restore env s;
          Event \<leftarrow> events s e;
          fn \<leftarrow> NotifyFunction Event;
          (env, s) \<leftarrow> call_notify fuel pf restore invoke fn e env s;
          s \<leftarrow> CoreAcquireEventLock pf s;
          dispatch_loop n pf restore invoke fuel Priority env s
        })"

definition CoreDispatchEventNotifies ::
  "nat \<Rightarrow> platform \<Rightarrow> ('f, 'e) restorer \<Rightarrow> ('f, 'e) invoker \<Rightarrow> nat \<Rightarrow> 'e \<Rightarrow> 'f ev_state \<Rightarrow>
     ('e \<times> 'f ev_state) option" where
  "CoreDispatchEventNotifies fuel pf restore invoke Priority env s = do {
     s \<leftarrow> CoreAcquireEventLock pf s;
     ASSERT (OwnerTpl (locks s gEventQueueLock) = Priority);
     (env, s) \<leftarrow> dispatch_loop fuel pf restore invoke fuel Priority env s;
     CoreReleaseEventLock restore env (s\<lparr>gEventPending := gEventPending s AND NOT (tpl_bit Priority)\<rparr>)
   }"

text \<open>The loop of CoreRestoreTpl.\<close>

fun restore_loop ::
  "nat \<Rightarrow> platform \<Rightarrow> ('f, 'e) restorer \<Rightarrow> ('f, 'e) invoker \<Rightarrow> nat \<Rightarrow> nat \<Rightarrow> 'e \<Rightarrow> 'f ev_state \<Rightarrow>
     ('e \<times> 'f ev_state) option" where
  "restore_loop 0 pf restore invoke fuel NewTpl env s = None"
| "restore_loop (Suc n) pf restore invoke fuel NewTpl env s =
     (if tpl_mask NewTpl AND gEventPending s \<noteq> 0 then do {
        let s = s\<lparr>gEfiCurrentTpl := nat (HighBitSet64 (gEventPending s))\<rparr>;
        let s = (if gEfiCurrentTpl s < TPL_HIGH_LEVEL then CoreSetInterruptState pf True s else s);
        (env, s) \<leftarrow> CoreDispatchEventNotifies fuel pf restore invoke (gEfiCurrentTpl s) env s;
        restore_loop n pf restore invoke fuel NewTpl env s
      }
      else Some (env, s))"

primrec CoreRestoreTpl :: "nat \<Rightarrow> platform \<Rightarrow> ('f, 'e) invoker \<Rightarrow> ('f, 'e) restorer" where
  "CoreRestoreTpl 0 pf invoke = (\<lambda>NewTpl env s. None)"
| "CoreRestoreTpl (Suc n) pf invoke = (\<lambda>NewTpl env s. do {
     let OldTpl = gEfiCurrentTpl s;
     ASSERT (\<not> NewTpl > OldTpl);
     ASSERT (NewTpl \<le> TPL_HIGH_LEVEL);
     let s = (if OldTpl \<ge> TPL_HIGH_LEVEL \<and> NewTpl < TPL_HIGH_LEVEL
              then s\<lparr>gEfiCurrentTpl := TPL_HIGH_LEVEL\<rparr> else s);
     (env, s) \<leftarrow> restore_loop n pf (CoreRestoreTpl n pf invoke) invoke n NewTpl env s;
     let s = s\<lparr>gEfiCurrentTpl := NewTpl\<rparr>;
     Some (env, if gEfiCurrentTpl s < TPL_HIGH_LEVEL then CoreSetInterruptState pf True s else s)
   })"

text \<open>
  CoreInitializeEventServices and CoreInitializeTimer; the status of the creation of the idle
  event is ignored.
\<close>

definition CoreInitializeTimer ::
  "platform \<Rightarrow> ('f, 'e) restorer \<Rightarrow> (nat \<Rightarrow> bool) \<Rightarrow> 'e \<Rightarrow> 'f ev_state \<Rightarrow> ('e \<times> 'f ev_state) option" where
  "CoreInitializeTimer pf restore oom env s = do {
     (Status, e, env, s) \<leftarrow> CoreCreateEventInternal pf restore oom EVT_NOTIFY_SIGNAL (TPL_HIGH_LEVEL - 1)
       (Some CheckTimers) None True env s;
     ASSERT (\<not> EFI_ERROR Status);
     Some (env, s\<lparr>mEfiCheckTimerEvent := e\<rparr>)
   }"

definition CoreInitializeEventServices ::
  "platform \<Rightarrow> ('f, 'e) restorer \<Rightarrow> (nat \<Rightarrow> bool) \<Rightarrow> 'e \<Rightarrow> 'f ev_state \<Rightarrow> (efi_status \<times> 'e \<times> 'f ev_state) option" where
  "CoreInitializeEventServices pf restore oom env s = do {
     let s = s\<lparr>gEventQueue := (\<lambda>Index. if Index \<le> TPL_HIGH_LEVEL then [] else gEventQueue s Index)\<rparr>;
     (env, s) \<leftarrow> CoreInitializeTimer pf restore oom env s;
     (_, e, env, s) \<leftarrow> CoreCreateEventEx pf restore oom EVT_NOTIFY_SIGNAL TPL_NOTIFY
       (Some EmptyFunction) (Some gIdleLoopEventGuid) True env s;
     Some (EFI_SUCCESS, env, case e of None \<Rightarrow> s | Some e \<Rightarrow> s\<lparr>gIdleLoopEvent := Some e\<rparr>)
   }"

end
