(* ===== verification/Event_Inv.thy ===== *)
theory Event_Inv
  imports Event_Tpl
begin

text \<open>
  The invariant of the event services, and that every service and every dispatched
  notification keeps it.
\<close>

unbundle bit_operations_syntax

subsection \<open>The priority bits\<close>

lemma bit_tpl_bit: "n < 31 \<Longrightarrow> bit (tpl_bit n) j \<longleftrightarrow> j = n"
  by (auto simp: tpl_bit_def bit_signed_iff bit_push_bit_iff bit_1_iff bit_exp_iff min_def dest: bit_imp_le_length)

lemma bit_tpl_mask:
  assumes "n \<le> 31" "j < 64"
  shows "bit (tpl_mask n) j \<longleftrightarrow> n < j \<and> n < 31"
proof -
  have two: "bit (- 2 :: u32) k \<longleftrightarrow> 0 < k \<and> k < 32" for k
  proof -
    have "(- 2 :: u32) = NOT 1" by simp
    then show ?thesis by (simp only: bit_not_iff) (auto simp: bit_1_iff)
  qed
  show ?thesis
    using assms by (auto simp: tpl_mask_def bit_signed_iff bit_push_bit_iff two min_def)
qed

lemma mask_pending:
  assumes "n \<le> 31" "\<And>p. bit w p \<Longrightarrow> p < 31"
  shows "tpl_mask n AND w \<noteq> 0 \<longleftrightarrow> (\<exists>p > n. bit w p)"
proof -
  have iff: "bit (tpl_mask n AND w) p \<longleftrightarrow> n < p \<and> bit w p" for p
    using assms(2)[of p] bit_tpl_mask[OF assms(1), of p] by (auto simp: bit_and_iff)
  have "tpl_mask n AND w \<noteq> 0 \<longleftrightarrow> (\<exists>p. bit (tpl_mask n AND w) p)"
    unfolding word_eq_bits by simp
  then show ?thesis unfolding iff by blast
qed

lemma high_bit_pending:
  assumes "w \<noteq> (0 :: u64)"
  shows "bit w (nat (HighBitSet64 w))" "bit w p \<Longrightarrow> p \<le> nat (HighBitSet64 w)"
proof -
  obtain k where k: "high_bit w k" using high_bit_exists[OF assms] by blast
  then have "nat (HighBitSet64 w) = k" by (simp add: HighBitSet64_high)
  with k show "bit w (nat (HighBitSet64 w))" "bit w p \<Longrightarrow> p \<le> nat (HighBitSet64 w)"
    by (auto simp: high_bit_def not_less[symmetric])
qed

subsection \<open>The invariant\<close>

text \<open>
  Every queued event exists, is in the queue of its priority once, and the bit of that
  priority is pending; the priorities that are pending lie between TPL_APPLICATION and
  TPL_HIGH_LEVEL; the signal queue holds the events with a signal notification; events with a
  notification have a function and a valid priority; the timer list holds timer events in the
  order of their trigger times.
\<close>

definition notifies :: "'f ievent \<Rightarrow> bool" where
  "notifies ev \<longleftrightarrow> NotifyFunction ev \<noteq> None \<and> TPL_APPLICATION < NotifyTpl ev \<and> NotifyTpl ev < TPL_HIGH_LEVEL"

definition queues_ok :: "'f ev_state \<Rightarrow> bool" where
  "queues_ok s \<longleftrightarrow> (\<forall>p. distinct (gEventQueue s p) \<and> (\<forall>e \<in> set (gEventQueue s p).
     bit (gEventPending s) p \<and> (\<exists>ev. events s e = Some ev \<and> NotifyTpl ev = p \<and> notifies ev)))"

definition pending_ok :: "'f ev_state \<Rightarrow> bool" where
  "pending_ok s \<longleftrightarrow> (\<forall>p. bit (gEventPending s) p \<longrightarrow> TPL_APPLICATION < p \<and> p < TPL_HIGH_LEVEL)"

definition signals_ok :: "'f ev_state \<Rightarrow> bool" where
  "signals_ok s \<longleftrightarrow> distinct (gEventSignalQueue s) \<and>
     (\<forall>e. e \<in> set (gEventSignalQueue s) \<longleftrightarrow> (\<exists>ev. events s e = Some ev \<and> Type ev AND EVT_NOTIFY_SIGNAL \<noteq> 0))"

definition events_ok :: "'f ev_state \<Rightarrow> bool" where
  "events_ok s \<longleftrightarrow> dom (events s) \<subseteq> {..<next_event s} \<and>
     (\<forall>ev \<in> ran (events s). Type ev AND (EVT_NOTIFY_WAIT OR EVT_NOTIFY_SIGNAL) \<noteq> 0 \<longrightarrow> notifies ev)"

definition timers_ok :: "'f ev_state \<Rightarrow> bool" where
  "timers_ok s \<longleftrightarrow> distinct (mEfiTimerList s) \<and>
     (\<forall>e \<in> set (mEfiTimerList s). \<exists>ev. events s e = Some ev \<and> Type ev AND EVT_TIMER \<noteq> 0) \<and>
     sorted (map (\<lambda>e. TriggerTime (the (events s e))) (mEfiTimerList s))"

definition locks_ok :: "'f ev_state \<Rightarrow> bool" where
  "locks_ok s \<longleftrightarrow> Tpl (locks s gEventQueueLock) = 31 \<and> Tpl (locks s mEfiTimerLock) = 30 \<and>
     Tpl (locks s mEfiSystemTimeLock) = 31 \<and> (\<forall>l. Lock (locks s l) \<noteq> EfiLockUninitialized)"

definition ev_inv :: "'f ev_state \<Rightarrow> bool" where
  "ev_inv s \<longleftrightarrow> queues_ok s \<and> pending_ok s \<and> signals_ok s \<and> events_ok s \<and> timers_ok s \<and> locks_ok s"

lemmas ev_inv_defs = ev_inv_def queues_ok_def pending_ok_def signals_ok_def events_ok_def timers_ok_def locks_ok_def

lemma ev_invD:
  assumes "ev_inv s"
  shows "queues_ok s" "pending_ok s" "signals_ok s" "events_ok s" "timers_ok s" "locks_ok s"
  using assms by (simp_all add: ev_inv_def)

lemma events_okD:
  assumes "ev_inv s" "events s e = Some ev"
  shows "e < next_event s" "Type ev AND (EVT_NOTIFY_WAIT OR EVT_NOTIFY_SIGNAL) \<noteq> 0 \<Longrightarrow> notifies ev"
  using ev_invD(4)[OF assms(1)] assms(2) by (auto simp: events_ok_def intro: ranI)

lemma ev_inv_tpl [simp]:
  "ev_inv (s\<lparr>gEfiCurrentTpl := t\<rparr>) = ev_inv s" "ev_inv (s\<lparr>Interrupts := b\<rparr>) = ev_inv s"
  "ev_inv (s\<lparr>mEfiSystemTime := time\<rparr>) = ev_inv s"
  by (simp_all add: ev_inv_defs)

lemma ev_inv_lock:
  assumes "ev_inv s" "x \<noteq> EfiLockUninitialized"
  shows "ev_inv (s\<lparr>locks := (locks s)(l := (locks s l)\<lparr>OwnerTpl := t, Lock := x\<rparr>)\<rparr>)"
    "ev_inv (s\<lparr>locks := (locks s)(l := (locks s l)\<lparr>Lock := x\<rparr>)\<rparr>)"
  using assms by (auto simp: ev_inv_defs)

text \<open>
  States at a priority that lets every held lock be held, and with nothing pending above the
  current priority.
\<close>

definition may_run :: "nat \<Rightarrow> 'f ev_state \<Rightarrow> bool" where
  "may_run t s \<longleftrightarrow> (\<forall>l. Lock (locks s l) = EfiLockAcquired \<longrightarrow> Tpl (locks s l) \<le> t)"

definition calm :: "nat \<Rightarrow> 'f ev_state \<Rightarrow> bool" where
  "calm t s \<longleftrightarrow> (\<forall>p. bit (gEventPending s) p \<longrightarrow> p \<le> t)"

definition ready :: "'f ev_state \<Rightarrow> bool" where
  "ready s \<longleftrightarrow> ev_inv s \<and> may_run (gEfiCurrentTpl s) s \<and> calm (gEfiCurrentTpl s) s"

definition keeps_locks :: "'f ev_state \<Rightarrow> 'f ev_state \<Rightarrow> bool" where
  "keeps_locks s s' \<longleftrightarrow> (\<forall>l. Lock (locks s' l) = Lock (locks s l) \<and> Tpl (locks s' l) = Tpl (locks s l) \<and>
     (Lock (locks s l) = EfiLockAcquired \<longrightarrow> OwnerTpl (locks s' l) = OwnerTpl (locks s l)))"

text \<open>What a service leaves behind when it returns.\<close>

definition settles :: "'f ev_state \<Rightarrow> 'f ev_state \<Rightarrow> bool" where
  "settles s s' \<longleftrightarrow> ready s' \<and> gEfiCurrentTpl s' = gEfiCurrentTpl s \<and> keeps_locks s s'"

lemma keeps_locks_refl [simp]: "keeps_locks s s"
  by (simp add: keeps_locks_def)

lemma keeps_locks_trans: "keeps_locks s s1 \<Longrightarrow> keeps_locks s1 s2 \<Longrightarrow> keeps_locks s s2"
  by (simp add: keeps_locks_def)

lemma keeps_locks_may_run: "keeps_locks s s' \<Longrightarrow> may_run t s' = may_run t s"
  by (simp add: keeps_locks_def may_run_def)

lemma settles_refl: "ready s \<Longrightarrow> settles s s"
  by (simp add: settles_def)

lemma settles_trans: "settles s s1 \<Longrightarrow> settles s1 s2 \<Longrightarrow> settles s s2"
  by (auto simp: settles_def intro: keeps_locks_trans)

lemma settlesD: "settles s s' \<Longrightarrow> ready s'" "settles s s' \<Longrightarrow> ev_inv s'"
  "settles s s' \<Longrightarrow> gEfiCurrentTpl s' = gEfiCurrentTpl s" "settles s s' \<Longrightarrow> keeps_locks s s'"
  by (auto simp: settles_def ready_def)

lemma readyD: "ready s \<Longrightarrow> ev_inv s" "ready s \<Longrightarrow> may_run (gEfiCurrentTpl s) s" "ready s \<Longrightarrow> calm (gEfiCurrentTpl s) s"
  by (simp_all add: ready_def)

text \<open>At TPL_HIGH_LEVEL - 1 and above nothing can be pending above the current priority.\<close>

lemma calm_high: "ev_inv s \<Longrightarrow> 30 \<le> t \<Longrightarrow> calm t s"
  by (auto simp: calm_def dest!: ev_invD(2)) (auto simp: pending_ok_def tpl_consts)

text \<open>
  The contract of CoreRestoreTpl: the priority is the given one, the locks are as before, and
  nothing above the priority is pending any more; when nothing was, nothing else happens.
\<close>

definition restores :: "('f, 'e) restorer \<Rightarrow> bool" where
  "restores R \<longleftrightarrow> (\<forall>t env s env' s'. R t env s = Some (env', s') \<longrightarrow>
     (ev_inv s \<and> may_run t s \<longrightarrow> ready s' \<and> gEfiCurrentTpl s' = t \<and> keeps_locks s s') \<and>
     (pending_ok s \<and> calm t s \<longrightarrow> env' = env \<and> (\<exists>b. s' = s\<lparr>gEfiCurrentTpl := t, Interrupts := b\<rparr>)))"

lemma restores_idle:
  assumes "restores R" "R t env s = Some (env', s')" "pending_ok s" "calm t s"
  shows "env' = env \<and> (\<exists>b. s' = s\<lparr>gEfiCurrentTpl := t, Interrupts := b\<rparr>)"
  using assms unfolding restores_def by blast

lemma restoresD:
  assumes "restores R" "R t env s = Some (env', s')" "ev_inv s" "may_run t s"
  shows "ready s'" "gEfiCurrentTpl s' = t" "keeps_locks s s'"
    "calm t s \<Longrightarrow> env' = env \<and> (\<exists>b. s' = s\<lparr>gEfiCurrentTpl := t, Interrupts := b\<rparr>)"
  using assms(1,2,3,4) restores_idle[OF assms(1,2) ev_invD(2)[OF assms(3)]] unfolding restores_def by blast+

subsection \<open>Locks\<close>

lemma CoreSetInterruptState_eq: "\<exists>b. CoreSetInterruptState pf en s = s\<lparr>Interrupts := b\<rparr>"
proof -
  have "CoreSetInterruptState pf en s = s\<lparr>Interrupts := Interrupts (CoreSetInterruptState pf en s)\<rparr>"
    by (simp add: CoreSetInterruptState_def split: option.split)
  then show ?thesis ..
qed

lemma CoreRaiseTpl_eq:
  assumes "CoreRaiseTpl pf t s = Some (old, s1)"
  shows "old = gEfiCurrentTpl s \<and> gEfiCurrentTpl s \<le> t \<and> t \<le> 31 \<and>
    (\<exists>b. s1 = s\<lparr>gEfiCurrentTpl := t, Interrupts := b\<rparr>)"
proof (cases "t \<ge> TPL_HIGH_LEVEL \<and> gEfiCurrentTpl s < TPL_HIGH_LEVEL")
  case True
  obtain b where "CoreSetInterruptState pf False s = s\<lparr>Interrupts := b\<rparr>"
    using CoreSetInterruptState_eq by blast
  then have "old = gEfiCurrentTpl s" "gEfiCurrentTpl s \<le> t" "t \<le> 31"
      "s1 = s\<lparr>gEfiCurrentTpl := t, Interrupts := b\<rparr>"
    using assms True by (auto simp: CoreRaiseTpl_def Let_def assert_simps TPL_HIGH_LEVEL_def split: if_splits)
  then show ?thesis by blast
next
  case False
  then have "old = gEfiCurrentTpl s" "gEfiCurrentTpl s \<le> t" "t \<le> 31" "s1 = s\<lparr>gEfiCurrentTpl := t\<rparr>"
    using assms by (auto simp: CoreRaiseTpl_def Let_def assert_simps TPL_HIGH_LEVEL_def split: if_splits)
  then show ?thesis by (intro conjI exI[of _ "Interrupts s"]) simp_all
qed

lemma CoreAcquireLock_eq:
  assumes "CoreAcquireLock pf l s = Some s1"
  shows "Lock (locks s l) = EfiLockReleased \<and> gEfiCurrentTpl s \<le> Tpl (locks s l) \<and> Tpl (locks s l) \<le> 31 \<and>
    (\<exists>b. s1 = s\<lparr>gEfiCurrentTpl := Tpl (locks s l), Interrupts := b,
      locks := (locks s)(l := (locks s l)\<lparr>OwnerTpl := gEfiCurrentTpl s, Lock := EfiLockAcquired\<rparr>)\<rparr>)"
proof -
  obtain old s0 where r: "CoreRaiseTpl pf (Tpl (locks s l)) s = Some (old, s0)"
    "Lock (locks s l) = EfiLockReleased"
    "s1 = s0\<lparr>locks := (locks s0)(l := (locks s0 l)\<lparr>OwnerTpl := old, Lock := EfiLockAcquired\<rparr>)\<rparr>"
    using assms by (auto simp: CoreAcquireLock_def bind_eq_Some_conv assert_simps split: if_splits)
  obtain b where "old = gEfiCurrentTpl s" "gEfiCurrentTpl s \<le> Tpl (locks s l)" "Tpl (locks s l) \<le> 31"
    "s0 = s\<lparr>gEfiCurrentTpl := Tpl (locks s l), Interrupts := b\<rparr>"
    using CoreRaiseTpl_eq[OF r(1)] by blast
  then show ?thesis using r(2,3) by (intro conjI exI[of _ b]) simp_all
qed

text \<open>A lock is taken, the state under it is changed, and the lock is released.\<close>

lemma acquire_ready:
  assumes "ready s" "CoreAcquireLock pf l s = Some s1"
  shows "ready s1" "gEfiCurrentTpl s1 = Tpl (locks s l)" "Lock (locks s1 l) = EfiLockAcquired"
    "OwnerTpl (locks s1 l) = gEfiCurrentTpl s" "Lock (locks s l) = EfiLockReleased"
    "\<And>k. k \<noteq> l \<Longrightarrow> locks s1 k = locks s k" "Tpl (locks s1 l) = Tpl (locks s l)"
    "gEventQueue s1 = gEventQueue s" "gEventPending s1 = gEventPending s"
    "gEventSignalQueue s1 = gEventSignalQueue s" "events s1 = events s" "mEfiTimerList s1 = mEfiTimerList s"
    "mEfiSystemTime s1 = mEfiSystemTime s" "mEfiCheckTimerEvent s1 = mEfiCheckTimerEvent s"
    "EventHead s1 = EventHead s" "next_event s1 = next_event s" "gIdleLoopEvent s1 = gIdleLoopEvent s"
proof -
  from CoreAcquireLock_eq[OF assms(2)] obtain b
    where s1: "s1 = s\<lparr>gEfiCurrentTpl := Tpl (locks s l), Interrupts := b,
        locks := (locks s)(l := (locks s l)\<lparr>OwnerTpl := gEfiCurrentTpl s, Lock := EfiLockAcquired\<rparr>)\<rparr>"
      and le: "gEfiCurrentTpl s \<le> Tpl (locks s l)" and rel: "Lock (locks s l) = EfiLockReleased"
    by blast
  have inv: "ev_inv s" "may_run (gEfiCurrentTpl s) s" using assms(1) by (simp_all add: ready_def)
  have "ev_inv s1"
  proof -
    have "s1 = s\<lparr>locks := (locks s)(l := (locks s l)\<lparr>OwnerTpl := gEfiCurrentTpl s, Lock := EfiLockAcquired\<rparr>)\<rparr>
        \<lparr>gEfiCurrentTpl := Tpl (locks s l), Interrupts := b\<rparr>" by (simp add: s1)
    then show ?thesis using ev_inv_lock(1)[OF inv(1)] by simp
  qed
  moreover have "may_run (gEfiCurrentTpl s1) s1"
    using inv(2) le by (auto simp: s1 may_run_def intro: order_trans)
  moreover have "calm (gEfiCurrentTpl s1) s1"
  proof -
    have "30 \<le> Tpl (locks s l)" using ev_invD(6)[OF inv(1)] by (cases l) (simp_all add: locks_ok_def)
    then show ?thesis using calm_high[OF \<open>ev_inv s1\<close>] by (simp add: s1)
  qed
  ultimately show "ready s1" by (simp add: ready_def)
  show "gEfiCurrentTpl s1 = Tpl (locks s l)" "Lock (locks s1 l) = EfiLockAcquired"
    "OwnerTpl (locks s1 l) = gEfiCurrentTpl s" "Lock (locks s l) = EfiLockReleased"
    "\<And>k. k \<noteq> l \<Longrightarrow> locks s1 k = locks s k" "Tpl (locks s1 l) = Tpl (locks s l)"
    "gEventQueue s1 = gEventQueue s" "gEventPending s1 = gEventPending s"
    "gEventSignalQueue s1 = gEventSignalQueue s" "events s1 = events s" "mEfiTimerList s1 = mEfiTimerList s"
    "mEfiSystemTime s1 = mEfiSystemTime s" "mEfiCheckTimerEvent s1 = mEfiCheckTimerEvent s"
    "EventHead s1 = EventHead s" "next_event s1 = next_event s" "gIdleLoopEvent s1 = gIdleLoopEvent s"
    by (simp_all add: s1 rel)
qed

text \<open>Two states that differ in their priority, locks and interrupt state only.\<close>

definition same_events :: "'f ev_state \<Rightarrow> 'f ev_state \<Rightarrow> bool" where
  "same_events s s' \<longleftrightarrow> (\<exists>t L b. s' = s\<lparr>gEfiCurrentTpl := t, locks := L, Interrupts := b\<rparr>)"

lemma same_events_iff:
  "same_events s s' \<longleftrightarrow> gEventQueue s' = gEventQueue s \<and> gEventPending s' = gEventPending s \<and>
    gEventSignalQueue s' = gEventSignalQueue s \<and> gIdleLoopEvent s' = gIdleLoopEvent s \<and>
    mEfiTimerList s' = mEfiTimerList s \<and> mEfiCheckTimerEvent s' = mEfiCheckTimerEvent s \<and>
    mEfiSystemTime s' = mEfiSystemTime s \<and> EventHead s' = EventHead s \<and> events s' = events s \<and>
    next_event s' = next_event s"
proof
  assume r: "gEventQueue s' = gEventQueue s \<and> gEventPending s' = gEventPending s \<and>
    gEventSignalQueue s' = gEventSignalQueue s \<and> gIdleLoopEvent s' = gIdleLoopEvent s \<and>
    mEfiTimerList s' = mEfiTimerList s \<and> mEfiCheckTimerEvent s' = mEfiCheckTimerEvent s \<and>
    mEfiSystemTime s' = mEfiSystemTime s \<and> EventHead s' = EventHead s \<and> events s' = events s \<and>
    next_event s' = next_event s"
  have "s' = s\<lparr>gEfiCurrentTpl := gEfiCurrentTpl s', locks := locks s', Interrupts := Interrupts s'\<rparr>"
    by (rule ev_state.equality) (use r in simp_all)
  then show "same_events s s'" unfolding same_events_def by blast
qed (auto simp: same_events_def)

lemma same_events_trans: "same_events s s1 \<Longrightarrow> same_events s1 s2 \<Longrightarrow> same_events s s2"
  by (simp add: same_events_iff)

text \<open>A lock is taken, the state under it is changed, and the lock is released.\<close>

lemma release_settles:
  assumes R: "restores R" and s: "ready s" and acq: "CoreAcquireLock pf l s = Some s1"
    and s2: "ev_inv s2" "keeps_locks s1 s2" and rel: "CoreReleaseLock R l env s2 = Some (env', s')"
  shows "settles s s'" "calm (gEfiCurrentTpl s) s2 \<Longrightarrow> env' = env \<and> same_events s2 s'"
proof -
  note a = acquire_ready[OF s acq]
  let ?s = "s2\<lparr>locks := (locks s2)(l := (locks s2 l)\<lparr>Lock := EfiLockReleased\<rparr>)\<rparr>"
  have own: "OwnerTpl (locks s2 l) = gEfiCurrentTpl s" using s2(2) a(3,4) by (simp add: keeps_locks_def)
  have run: "R (gEfiCurrentTpl s) env ?s = Some (env', s')"
    using rel own by (simp add: CoreReleaseLock_def assert_simps split: if_splits)
  have inv: "ev_inv ?s" by (rule ev_inv_lock(2)[OF s2(1)]) simp
  have k: "Lock (locks ?s j) = Lock (locks s j)" "Tpl (locks ?s j) = Tpl (locks s j)"
    "Lock (locks s j) = EfiLockAcquired \<Longrightarrow> OwnerTpl (locks ?s j) = OwnerTpl (locks s j)" for j
    using s2(2) a(5,6,7) by (cases "j = l"; simp add: keeps_locks_def)+
  have "may_run (gEfiCurrentTpl s) ?s"
    using s k(1,2) by (simp add: ready_def may_run_def)
  note r = restoresD[OF R run inv this]
  have "keeps_locks s ?s" using k by (simp add: keeps_locks_def)
  then show "settles s s'" using r(1-3) by (auto simp: settles_def intro: keeps_locks_trans)
  show "env' = env \<and> same_events s2 s'" if "calm (gEfiCurrentTpl s) s2"
  proof -
    have "calm (gEfiCurrentTpl s) ?s" using that by (simp add: calm_def)
    from r(4)[OF this] show ?thesis by (auto simp: same_events_iff)
  qed
qed

lemma release_idle:
  assumes R: "restores R" and s: "ready s" and acq: "CoreAcquireLock pf l s = Some s1"
    and s2: "keeps_locks s1 s2" "pending_ok s2" "calm (gEfiCurrentTpl s) s2"
    and rel: "CoreReleaseLock R l env s2 = Some (env', s')"
  shows "env' = env" "same_events s2 s'" "gEfiCurrentTpl s' = gEfiCurrentTpl s" "keeps_locks s s'"
proof -
  note a = acquire_ready[OF s acq]
  let ?s = "s2\<lparr>locks := (locks s2)(l := (locks s2 l)\<lparr>Lock := EfiLockReleased\<rparr>)\<rparr>"
  have own: "OwnerTpl (locks s2 l) = gEfiCurrentTpl s" using s2(1) a(3,4) by (simp add: keeps_locks_def)
  have run: "R (gEfiCurrentTpl s) env ?s = Some (env', s')"
    using rel own by (simp add: CoreReleaseLock_def assert_simps split: if_splits)
  have "pending_ok ?s" "calm (gEfiCurrentTpl s) ?s" using s2(2,3) by (simp_all add: pending_ok_def calm_def)
  from restores_idle[OF R run this] obtain b where
    r: "env' = env" "s' = ?s\<lparr>gEfiCurrentTpl := gEfiCurrentTpl s, Interrupts := b\<rparr>" by blast
  then show "env' = env" "same_events s2 s'" "gEfiCurrentTpl s' = gEfiCurrentTpl s"
    by (auto simp: same_events_iff)
  have "Lock (locks ?s j) = Lock (locks s j)" "Tpl (locks ?s j) = Tpl (locks s j)"
    "Lock (locks s j) = EfiLockAcquired \<Longrightarrow> OwnerTpl (locks ?s j) = OwnerTpl (locks s j)" for j
    using s2(1) a(5,6,7) by (cases "j = l"; simp add: keeps_locks_def)+
  then show "keeps_locks s s'" by (simp add: keeps_locks_def r(2))
qed

lemma same_events_ev_inv:
  assumes "same_events s s'" "ev_inv s" "locks_ok s'"
  shows "ev_inv s'"
  using assms unfolding ev_inv_def queues_ok_def pending_ok_def signals_ok_def events_ok_def timers_ok_def
    same_events_iff by simp

lemma release_run:
  assumes "CoreReleaseLock R l env s = Some r"
  shows "R (OwnerTpl (locks s l)) env (s\<lparr>locks := (locks s)(l := (locks s l)\<lparr>Lock := EfiLockReleased\<rparr>)\<rparr>) = Some r"
  using assms by (simp add: CoreReleaseLock_def assert_simps split: if_splits)

subsection \<open>Changes of events and queues\<close>

lemma ev_inv_upd:
  assumes inv: "ev_inv s" and e: "events s e = Some ev"
    and same: "Type ev' = Type ev" "NotifyTpl ev' = NotifyTpl ev" "NotifyFunction ev' = NotifyFunction ev"
    and time: "e \<in> set (mEfiTimerList s) \<longrightarrow> TriggerTime ev' = TriggerTime ev"
  shows "ev_inv (s\<lparr>events := (events s)(e \<mapsto> ev')\<rparr>)"
proof -
  note D = ev_invD[OF inv]
  let ?s = "s\<lparr>events := (events s)(e \<mapsto> ev')\<rparr>"
  have n: "notifies ev' = notifies ev" by (simp add: notifies_def same)
  have "queues_ok ?s" using D(1) e same(2) n by (fastforce simp: queues_ok_def)
  moreover have "pending_ok ?s" using D(2) by (simp add: pending_ok_def)
  moreover have "signals_ok ?s" using D(3) e same(1) by (auto simp: signals_ok_def)
  moreover have "events_ok ?s"
    using D(4) e events_okD[OF inv e] same(1) n by (auto simp: events_ok_def ran_def)
  moreover have "timers_ok ?s"
  proof -
    have "map (\<lambda>x. TriggerTime (the (events ?s x))) (mEfiTimerList s) =
        map (\<lambda>x. TriggerTime (the (events s x))) (mEfiTimerList s)"
      using e time by auto
    then have "sorted (map (\<lambda>x. TriggerTime (the (events ?s x))) (mEfiTimerList s))"
      using D(5) by (simp only: timers_ok_def)
    then show ?thesis using D(5) e same(1) by (auto simp: timers_ok_def)
  qed
  moreover have "locks_ok ?s" using D(6) by (simp add: locks_ok_def)
  ultimately show ?thesis by (simp add: ev_inv_def)
qed

definition queue_event :: "nat \<Rightarrow> 'f ev_state \<Rightarrow> 'f ev_state" where
  "queue_event e s =
     (let t = NotifyTpl (the (events s e))
      in s\<lparr>gEventQueue := (gEventQueue s)(t := remove1 e (gEventQueue s t) @ [e]),
           gEventPending := gEventPending s OR tpl_bit t\<rparr>)"

lemma queue_event_fields [simp]:
  "events (queue_event e s) = events s" "gEventSignalQueue (queue_event e s) = gEventSignalQueue s"
  "mEfiTimerList (queue_event e s) = mEfiTimerList s" "locks (queue_event e s) = locks s"
  "gEfiCurrentTpl (queue_event e s) = gEfiCurrentTpl s" "next_event (queue_event e s) = next_event s"
  "mEfiSystemTime (queue_event e s) = mEfiSystemTime s" "Interrupts (queue_event e s) = Interrupts s"
  "mEfiCheckTimerEvent (queue_event e s) = mEfiCheckTimerEvent s" "EventHead (queue_event e s) = EventHead s"
  "gIdleLoopEvent (queue_event e s) = gIdleLoopEvent s"
  by (simp_all add: queue_event_def Let_def)

lemma queue_event_same:
  assumes "same_events s s'"
  shows "same_events (queue_event e s) (queue_event e s')"
  using assms by (simp add: same_events_iff queue_event_def Let_def)

lemma queue_event_inv:
  assumes inv: "ev_inv s" and ev: "events s e = Some ev" "notifies ev"
  shows "ev_inv (queue_event e s)"
proof -
  let ?t = "NotifyTpl ev"
  have t: "4 < ?t" "?t < 31" using ev(2) by (simp_all add: notifies_def tpl_consts)
  note D = ev_invD[OF inv]
  have s': "queue_event e s = s\<lparr>gEventQueue := (gEventQueue s)(?t := remove1 e (gEventQueue s ?t) @ [e]),
      gEventPending := gEventPending s OR tpl_bit ?t\<rparr>"
    using ev(1) by (simp add: queue_event_def Let_def)
  have "queues_ok (queue_event e s)"
    using D(1) ev bit_tpl_bit[OF t(2)]
    by (auto simp: s' queues_ok_def bit_or_iff distinct_remove1 dest: notin_set_remove1)
  moreover have "pending_ok (queue_event e s)"
    using D(2) t bit_tpl_bit[OF t(2)] by (auto simp: s' pending_ok_def bit_or_iff tpl_consts)
  moreover have "signals_ok (queue_event e s)" using D(3) by (simp add: signals_ok_def)
  moreover have "events_ok (queue_event e s)" using D(4) unfolding events_ok_def queue_event_fields .
  moreover have "timers_ok (queue_event e s)" "locks_ok (queue_event e s)"
    using D(5,6) by (simp_all add: timers_ok_def locks_ok_def)
  ultimately show ?thesis by (simp add: ev_inv_def)
qed

lemma CoreNotifyEvent_eq:
  assumes "CoreNotifyEvent e s = Some s'"
  shows "s' = queue_event e s"
  using assms
  by (auto simp: CoreNotifyEvent_def queue_event_def Let_def assert_simps bind_eq_Some_conv remove1_idem
      split: if_splits)

subsection \<open>Signalling\<close>

definition in_group :: "guid \<Rightarrow> 'f ev_state \<Rightarrow> nat list" where
  "in_group g s = filter (\<lambda>e. group_guid (the (events s e)) = g) (gEventSignalQueue s)"

lemma queue_events_fields [simp]:
  "events (fold queue_event es s) = events s" "gEventSignalQueue (fold queue_event es s) = gEventSignalQueue s"
  "mEfiTimerList (fold queue_event es s) = mEfiTimerList s" "locks (fold queue_event es s) = locks s"
  "gEfiCurrentTpl (fold queue_event es s) = gEfiCurrentTpl s" "next_event (fold queue_event es s) = next_event s"
  "mEfiSystemTime (fold queue_event es s) = mEfiSystemTime s" "Interrupts (fold queue_event es s) = Interrupts s"
  "mEfiCheckTimerEvent (fold queue_event es s) = mEfiCheckTimerEvent s" "EventHead (fold queue_event es s) = EventHead s"
  "gIdleLoopEvent (fold queue_event es s) = gIdleLoopEvent s"
  by (induction es arbitrary: s) auto

lemma queue_events_same: "same_events s s' \<Longrightarrow> same_events (fold queue_event es s) (fold queue_event es s')"
  by (induction es arbitrary: s s') (simp_all add: queue_event_same)

lemma queue_events_inv:
  assumes "ev_inv s" "\<And>e. e \<in> set es \<Longrightarrow> \<exists>ev. events s e = Some ev \<and> notifies ev"
  shows "ev_inv (fold queue_event es s)"
  using assms
proof (induction es arbitrary: s)
  case (Cons e es)
  obtain ev where "events s e = Some ev" "notifies ev" using Cons.prems(2)[of e] by auto
  then have "ev_inv (queue_event e s)" by (rule queue_event_inv[OF Cons.prems(1)])
  then show ?case using Cons.IH[of "queue_event e s"] Cons.prems(2) by simp
qed simp

lemma notify_group_eq:
  "notify_group g es s = Some s' \<Longrightarrow>
     s' = fold queue_event (filter (\<lambda>e. group_guid (the (events s e)) = g) es) s"
proof (induction es arbitrary: s)
  case (Cons e es)
  obtain Event where e: "events s e = Some Event" using Cons.prems by (auto simp: bind_eq_Some_conv)
  show ?case
  proof (cases "group_guid Event = g")
    case True
    then obtain s1 where "CoreNotifyEvent e s = Some s1" "notify_group g es s1 = Some s'"
      using Cons.prems e by (auto simp: bind_eq_Some_conv)
    then have "notify_group g es (queue_event e s) = Some s'" using CoreNotifyEvent_eq by blast
    from Cons.IH[OF this] show ?thesis using True e by simp
  next
    case False
    then have "notify_group g es s = Some s'" using Cons.prems e by simp
    from Cons.IH[OF this] show ?thesis using False e by simp
  qed
qed simp

lemma signal_queue_notifies:
  assumes "ev_inv s" "e \<in> set (gEventSignalQueue s)"
  shows "\<exists>ev. events s e = Some ev \<and> notifies ev"
proof -
  obtain ev where ev: "events s e = Some ev" "Type ev AND EVT_NOTIFY_SIGNAL \<noteq> 0"
    using ev_invD(3)[OF assms(1)] assms(2) by (auto simp: signals_ok_def)
  have "Type ev AND (EVT_NOTIFY_WAIT OR EVT_NOTIFY_SIGNAL) \<noteq> 0"
  proof
    assume z: "Type ev AND (EVT_NOTIFY_WAIT OR EVT_NOTIFY_SIGNAL) = 0"
    have "Type ev AND EVT_NOTIFY_SIGNAL = 0"
      by (rule bit_eqI) (use z in \<open>auto simp: bit_eq_iff bit_and_iff bit_or_iff\<close>)
    then show False using ev(2) by simp
  qed
  then show ?thesis using events_okD(2)[OF assms(1) ev(1)] ev(1) by blast
qed

lemma CoreNotifySignalList_settles:
  assumes R: "restores R" and s: "ready s" and run: "CoreNotifySignalList pf R g env s = Some (env', s')"
  shows "settles s s'"
    "calm (gEfiCurrentTpl s) (fold queue_event (in_group g s) s) \<Longrightarrow>
       env' = env \<and> same_events (fold queue_event (in_group g s) s) s'"
proof -
  obtain s1 s2 where a: "CoreAcquireLock pf gEventQueueLock s = Some s1"
    and n: "notify_group g (gEventSignalQueue s1) s1 = Some s2"
    and r: "CoreReleaseLock R gEventQueueLock env s2 = Some (env', s')"
    using run by (auto simp: CoreNotifySignalList_def CoreAcquireEventLock_def CoreReleaseEventLock_def bind_eq_Some_conv)
  note acq = acquire_ready[OF s a]
  have s2: "s2 = fold queue_event (in_group g s1) s1" using notify_group_eq[OF n] by (simp add: in_group_def)
  have ig: "in_group g s1 = in_group g s" by (simp add: in_group_def acq)
  have "ev_inv s2"
    unfolding s2 using readyD(1)[OF acq(1)] signal_queue_notifies[OF readyD(1)[OF acq(1)]]
    by (intro queue_events_inv) (auto simp: in_group_def)
  moreover have "keeps_locks s1 s2" by (simp add: s2 keeps_locks_def)
  ultimately have rs: "settles s s'" "calm (gEfiCurrentTpl s) s2 \<Longrightarrow> env' = env \<and> same_events s2 s'"
    using release_settles[OF R s a _ _ r] by blast+
  show "settles s s'" by (rule rs(1))
  have "same_events s s1" by (simp add: same_events_iff acq)
  then have q: "same_events (fold queue_event (in_group g s) s) s2" unfolding s2 ig by (rule queue_events_same)
  then have "calm t s2 = calm t (fold queue_event (in_group g s) s)" for t
    by (simp add: calm_def same_events_iff)
  then show "env' = env \<and> same_events (fold queue_event (in_group g s) s) s'"
    if "calm (gEfiCurrentTpl s) (fold queue_event (in_group g s) s)"
    using rs(2) that same_events_trans[OF q] by simp
qed

text \<open>What signalling an event does before the priority is restored.\<close>

definition signalled :: "nat \<Rightarrow> 'f ev_state \<Rightarrow> 'f ev_state" where
  "signalled e s =
     (let ev = the (events s e)
      in if SignalCount ev \<noteq> 0 then s
         else let s = s\<lparr>events := (events s)(e \<mapsto> ev\<lparr>SignalCount := 1\<rparr>)\<rparr>
              in if Type ev AND EVT_NOTIFY_SIGNAL = 0 then s
                 else case EventGroup ev of
                        Some g \<Rightarrow> fold queue_event (in_group g s) s
                      | None \<Rightarrow> queue_event e s)"

lemma signalled_same:
  assumes "same_events s s'"
  shows "same_events (signalled e s) (signalled e s')"
proof -
  let ?c = "\<lambda>s. s\<lparr>events := (events s)(e \<mapsto> (the (events s e))\<lparr>SignalCount := 1\<rparr>)\<rparr>"
  have c: "same_events (?c s) (?c s')" using assms by (simp add: same_events_iff)
  have "in_group g (?c s') = in_group g (?c s)" for g using assms by (simp add: in_group_def same_events_iff)
  moreover have "events s' e = events s e" using assms by (simp add: same_events_iff)
  ultimately show ?thesis
    using assms queue_events_same[OF c] queue_event_same[OF c] c
    by (auto simp: signalled_def Let_def split: option.splits)
qed

lemma signalled_inv:
  assumes inv: "ev_inv s" and e: "events s e = Some ev"
  shows "ev_inv (signalled e s)"
proof -
  let ?c = "s\<lparr>events := (events s)(e \<mapsto> ev\<lparr>SignalCount := 1\<rparr>)\<rparr>"
  have c: "ev_inv ?c" by (rule ev_inv_upd[OF inv e]) simp_all
  have "ev_inv (fold queue_event (in_group g ?c) ?c)" for g
    using signal_queue_notifies[OF c] by (intro queue_events_inv[OF c]) (auto simp: in_group_def)
  moreover have "ev_inv (queue_event e ?c)" if "Type ev AND EVT_NOTIFY_SIGNAL \<noteq> 0"
  proof -
    have "e \<in> set (gEventSignalQueue ?c)" using ev_invD(3)[OF inv] e that by (auto simp: signals_ok_def)
    from signal_queue_notifies[OF c this] show ?thesis using queue_event_inv[OF c] by blast
  qed
  ultimately show ?thesis using inv c e by (auto simp: signalled_def Let_def split: option.splits)
qed

lemma signalled_fields [simp]:
  "mEfiTimerList (signalled e s) = mEfiTimerList s" "locks (signalled e s) = locks s"
  "gEfiCurrentTpl (signalled e s) = gEfiCurrentTpl s" "mEfiSystemTime (signalled e s) = mEfiSystemTime s"
  "mEfiCheckTimerEvent (signalled e s) = mEfiCheckTimerEvent s" "EventHead (signalled e s) = EventHead s"
  "gEventSignalQueue (signalled e s) = gEventSignalQueue s" "next_event (signalled e s) = next_event s"
  by (auto simp: signalled_def Let_def split: option.split)

lemma signalled_events:
  "events s e = Some ev \<Longrightarrow>
     events (signalled e s) = (if SignalCount ev = 0 then (events s)(e \<mapsto> ev\<lparr>SignalCount := 1\<rparr>) else events s)"
  by (auto simp: signalled_def Let_def split: option.split)

lemma keeps_locks_same: "locks s' = locks s \<Longrightarrow> keeps_locks s s'"
  by (simp add: keeps_locks_def)

lemma same_events_calm: "same_events s s' \<Longrightarrow> calm t s' = calm t s"
  by (simp add: same_events_iff calm_def)

text \<open>
  A signal settles, and when it leaves nothing pending above the priority it does nothing but
  signalled.
\<close>

lemma CoreSignalEvent_settles:
  assumes R: "restores R" and s: "ready s" and run: "CoreSignalEvent pf R ue env s = Some (st, env', s')"
  shows "settles s s'"
    "ue = Some e \<Longrightarrow> events s e = Some ev \<Longrightarrow> calm (gEfiCurrentTpl s) (signalled e s) \<Longrightarrow>
       st = EFI_SUCCESS \<and> env' = env \<and> same_events (signalled e s) s'"
proof -
  have main: "settles s s' \<and> (calm (gEfiCurrentTpl s) (signalled e s) \<longrightarrow>
      st = EFI_SUCCESS \<and> env' = env \<and> same_events (signalled e s) s')"
    if ue: "ue = Some e" and e: "events s e = Some ev" for e ev
  proof -
    obtain s1 where a: "CoreAcquireLock pf gEventQueueLock s = Some s1"
      using run ue e by (auto simp: CoreSignalEvent_def CoreAcquireEventLock_def bind_eq_Some_conv)
    note acq = acquire_ready[OF s a]
    have same1: "same_events s s1" by (simp add: same_events_iff acq)
    let ?c = "s1\<lparr>events := (events s1)(e \<mapsto> ev\<lparr>SignalCount := 1\<rparr>)\<rparr>"
    have c: "ev_inv ?c" by (rule ev_inv_upd[OF readyD(1)[OF acq(1)], of e ev]) (use e acq in simp_all)
    have kc: "keeps_locks s1 ?c" by (simp add: keeps_locks_def)
    have end1: ?thesis
      if r: "CoreReleaseLock R gEventQueueLock env s2 = Some (env', s')" and st: "st = EFI_SUCCESS"
        and s2: "s2 = signalled e s1" for s2
    proof -
      have "ev_inv s2" unfolding s2 by (rule signalled_inv[OF readyD(1)[OF acq(1)]]) (use e acq in simp)
      moreover have "keeps_locks s1 s2" by (rule keeps_locks_same) (simp add: s2)
      moreover have q: "same_events (signalled e s) s2" unfolding s2 by (rule signalled_same[OF same1])
      ultimately show ?thesis
        using release_settles[OF R s a _ _ r] st same_events_calm[OF q] same_events_trans[OF q] by blast
    qed
    show ?thesis
    proof (cases "SignalCount ev = 0 \<and> Type ev AND EVT_NOTIFY_SIGNAL \<noteq> 0 \<and> EventGroup ev \<noteq> None")
      case False
      have "CoreReleaseLock R gEventQueueLock env (signalled e s1) = Some (env', s') \<and> st = EFI_SUCCESS"
        using run ue e a False acq(11)
        by (auto simp: CoreSignalEvent_def CoreAcquireEventLock_def CoreReleaseEventLock_def bind_eq_Some_conv
            signalled_def Let_def split: if_splits dest!: CoreNotifyEvent_eq)
      then show ?thesis using end1 by blast
    next
      case True
      then obtain g where g: "EventGroup ev = Some g" by auto
      obtain env2 s2 ev2 g2 env3 s3 s4 where
        r2: "CoreReleaseLock R gEventQueueLock env ?c = Some (env2, s2)"
        and ev2: "events s2 e = Some ev2" "EventGroup ev2 = Some g2"
        and r3: "CoreNotifySignalList pf R g2 env2 s2 = Some (env3, s3)"
        and a4: "CoreAcquireLock pf gEventQueueLock s3 = Some s4"
        and r4: "CoreReleaseLock R gEventQueueLock env3 s4 = Some (env', s')" and st: "st = EFI_SUCCESS"
        using run ue e a True acq(11)
        by (auto simp: CoreSignalEvent_def CoreAcquireEventLock_def CoreReleaseEventLock_def bind_eq_Some_conv
            Let_def split: if_splits)
      have calm: "calm (gEfiCurrentTpl s) ?c" using readyD(3)[OF s] by (simp add: calm_def acq)
      note S2 = release_settles(1)[OF R s a c kc r2]
      have c2: "env2 = env" "same_events ?c s2" using release_settles(2)[OF R s a c kc r2 calm] by auto
      have g2: "g2 = g" using c2(2) ev2 g by (auto simp: same_events_iff)
      note S3 = CoreNotifySignalList_settles[OF R settlesD(1)[OF S2] r3]
      note acq4 = acquire_ready[OF settlesD(1)[OF S3(1)] a4]
      note S4 = release_settles[OF R settlesD(1)[OF S3(1)] a4 readyD(1)[OF acq4(1)] keeps_locks_refl r4]
      have "settles s s'" using S2 S3(1) S4(1) settles_trans by blast
      moreover have "env' = env \<and> same_events (signalled e s) s'" if C: "calm (gEfiCurrentTpl s) (signalled e s)"
      proof -
        let ?d = "s\<lparr>events := (events s)(e \<mapsto> ev\<lparr>SignalCount := 1\<rparr>)\<rparr>"
        have sg: "signalled e s = fold queue_event (in_group g ?d) ?d"
          using e True g by (simp add: signalled_def Let_def)
        have "same_events ?d ?c" using same1 by (simp add: same_events_iff)
        then have q0: "same_events ?d s2" using c2(2) by (rule same_events_trans)
        have ig: "in_group g2 s2 = in_group g ?d" using q0 g2 by (simp add: in_group_def same_events_iff)
        have q: "same_events (signalled e s) (fold queue_event (in_group g2 s2) s2)"
          unfolding sg ig by (rule queue_events_same[OF q0])
        have "calm (gEfiCurrentTpl s2) (fold queue_event (in_group g2 s2) s2)"
          using C same_events_calm[OF q] settlesD(3)[OF S2] by simp
        from S3(2)[OF this] have s3: "env3 = env2" "same_events (signalled e s) s3"
          using same_events_trans[OF q] by auto
        have "calm (gEfiCurrentTpl s3) s4"
          using readyD(3)[OF settlesD(1)[OF S3(1)]] by (simp add: calm_def acq4)
        from S4(2)[OF this] have "env' = env3" "same_events s4 s'" by auto
        moreover have "same_events s3 s4" by (simp add: same_events_iff acq4)
        ultimately show ?thesis using s3 c2(1) same_events_trans by metis
      qed
      ultimately show ?thesis using st by blast
    qed
  qed
  show "st = EFI_SUCCESS \<and> env' = env \<and> same_events (signalled e s) s'"
    if "ue = Some e" "events s e = Some ev" "calm (gEfiCurrentTpl s) (signalled e s)"
    using main[OF that(1,2)] that(3) by blast
  show "settles s s'"
  proof (cases "\<exists>e ev. ue = Some e \<and> events s e = Some ev")
    case True
    then show ?thesis using main by blast
  next
    case False
    then have "s' = s" using run by (auto simp: CoreSignalEvent_def split: option.splits if_splits)
    then show ?thesis using settles_refl[OF s] by simp
  qed
qed

end
