(* ===== verification/Event_Svc.thy ===== *)
theory Event_Svc
  imports Event_Inv
begin

text \<open>
  Every service of the event component and every dispatched notification keeps the invariant of
  Event_Inv, restores the priority and the locks, and leaves nothing pending above the priority.
\<close>

unbundle bit_operations_syntax

subsection \<open>Under a lock\<close>

lemma lock_tpl: "ev_inv s \<Longrightarrow> 30 \<le> Tpl (locks s l)"
  by (cases l) (simp_all add: ev_inv_def locks_ok_def)

lemma locked_settles:
  assumes "ready s" "30 \<le> gEfiCurrentTpl s" "ev_inv s'" "locks s' = locks s" "gEfiCurrentTpl s' = gEfiCurrentTpl s"
  shows "settles s s'"
proof -
  have "keeps_locks s s'" by (rule keeps_locks_same) (rule assms(4))
  moreover have "may_run (gEfiCurrentTpl s') s'" using readyD(2)[OF assms(1)] assms(4,5) by (simp add: may_run_def)
  moreover have "calm (gEfiCurrentTpl s') s'" using assms by (intro calm_high) simp_all
  ultimately show ?thesis using assms by (simp add: settles_def ready_def)
qed

lemma acquire_high: "ready s \<Longrightarrow> CoreAcquireLock pf l s = Some s1 \<Longrightarrow> 30 \<le> gEfiCurrentTpl s1"
  using acquire_ready(2)[of s pf l s1] lock_tpl[OF readyD(1)] by simp

lemma acquire_same: "ready s \<Longrightarrow> CoreAcquireLock pf l s = Some s1 \<Longrightarrow> same_events s s1"
  by (simp add: same_events_iff acquire_ready)

lemma lock_section:
  assumes "restores R" "ready s" "CoreAcquireLock pf l s = Some s1" "settles s1 s2"
    "CoreReleaseLock R l env s2 = Some (env', s')"
  shows "settles s s'" "calm (gEfiCurrentTpl s) s2 \<Longrightarrow> env' = env \<and> same_events s2 s'"
  using release_settles[OF assms(1,2,3) settlesD(2)[OF assms(4)] settlesD(4)[OF assms(4)] assms(5)] by blast+

lemma ready_calm_same: "ready s \<Longrightarrow> same_events s s1 \<Longrightarrow> calm (gEfiCurrentTpl s) s1"
  using readyD(3)[of s] same_events_calm by blast

lemma CoreCurrentSystemTime_settles:
  assumes R: "restores R" and s: "ready s" and run: "CoreCurrentSystemTime pf R env s = Some (t, env', s')"
  shows "settles s s'" "t = mEfiSystemTime s" "env' = env" "same_events s s'"
proof -
  obtain s1 where a: "CoreAcquireLock pf mEfiSystemTimeLock s = Some s1" "t = mEfiSystemTime s1"
    and r: "CoreReleaseLock R mEfiSystemTimeLock env s1 = Some (env', s')"
    using run by (auto simp: CoreCurrentSystemTime_def bind_eq_Some_conv)
  note same = acquire_same[OF s a(1)]
  note sec = lock_section[OF R s a(1) settles_refl[OF acquire_ready(1)[OF s a(1)]] r]
  show "settles s s'" by (rule sec(1))
  show "t = mEfiSystemTime s" using a(2) same by (simp add: same_events_iff)
  show "env' = env" "same_events s s'"
    using sec(2)[OF ready_calm_same[OF s same]] same_events_trans[OF same] by auto
qed

text \<open>At a priority where nothing can be pending above it, a signal only counts and queues.\<close>

lemma CoreSignalEvent_high:
  assumes R: "restores R" and s: "ready s" "30 \<le> gEfiCurrentTpl s"
    and run: "CoreSignalEvent pf R ue env s = Some (st, env', s')"
  shows "settles s s' \<and> env' = env \<and>
    same_events (case ue of Some e \<Rightarrow> if events s e = None then s else signalled e s | None \<Rightarrow> s) s'"
proof -
  have "settles s s'" by (rule CoreSignalEvent_settles(1)[OF R s(1) run])
  moreover have "env' = env \<and>
      same_events (case ue of Some e \<Rightarrow> if events s e = None then s else signalled e s | None \<Rightarrow> s) s'"
  proof (cases "\<exists>e ev. ue = Some e \<and> events s e = Some ev")
    case True
    then obtain e ev where e: "ue = Some e" "events s e = Some ev" by blast
    have "calm (gEfiCurrentTpl s) (signalled e s)"
      by (rule calm_high[OF signalled_inv[OF readyD(1)[OF s(1)] e(2)] s(2)])
    from CoreSignalEvent_settles(2)[OF R s(1) run e this] show ?thesis using e by simp
  next
    case False
    then have "s' = s \<and> env' = env"
      using run by (auto simp: CoreSignalEvent_def split: option.splits if_splits)
    then show ?thesis using False by (auto simp: same_events_iff split: option.split)
  qed
  ultimately show ?thesis by blast
qed

definition uncounted :: "(nat \<Rightarrow> 'f ievent option) \<Rightarrow> nat \<Rightarrow> 'f ievent option" where
  "uncounted evs x = map_option (\<lambda>ev. ev\<lparr>SignalCount := 0\<rparr>) (evs x)"

lemma uncounted_signalled:
  assumes "events s e \<noteq> None"
  shows "uncounted (events (signalled e s)) = uncounted (events s)"
proof
  obtain ev where "events s e = Some ev" using assms by auto
  then show "uncounted (events (signalled e s)) x = uncounted (events s) x" for x
    by (simp add: uncounted_def signalled_events)
qed

lemma uncountedD:
  assumes "uncounted evs' x = uncounted evs x" "evs x = Some ev"
  obtains ev' where "evs' x = Some ev'" "Type ev' = Type ev" "TriggerTime ev' = TriggerTime ev"
    "Period ev' = Period ev" "NotifyTpl ev' = NotifyTpl ev" "NotifyFunction ev' = NotifyFunction ev"
    "EventGroup ev' = EventGroup ev"
proof -
  obtain ev' where e: "evs' x = Some ev'" "ev'\<lparr>SignalCount := 0\<rparr> = ev\<lparr>SignalCount := 0\<rparr>"
    using assms by (auto simp: uncounted_def)
  from e(2) have "Type ev' = Type ev" "TriggerTime ev' = TriggerTime ev" "Period ev' = Period ev"
    "NotifyTpl ev' = NotifyTpl ev" "NotifyFunction ev' = NotifyFunction ev" "EventGroup ev' = EventGroup ev"
    by (cases ev, cases ev', simp)+
  with e(1) that show ?thesis by blast
qed

lemma CoreSignalEvent_high_timers:
  assumes "restores R" "ready s" "30 \<le> gEfiCurrentTpl s" "CoreSignalEvent pf R ue env s = Some (st, env', s')"
  shows "settles s s'" "env' = env" "mEfiTimerList s' = mEfiTimerList s" "mEfiSystemTime s' = mEfiSystemTime s"
    "mEfiCheckTimerEvent s' = mEfiCheckTimerEvent s" "uncounted (events s') = uncounted (events s)"
  using CoreSignalEvent_high[OF assms] uncounted_signalled[of s]
  by (auto simp: same_events_iff split: option.splits if_splits)

subsection \<open>The timer list\<close>

lemma insert_timer_set: "insert_timer evs e t xs = Some ys \<Longrightarrow> set ys = insert e (set xs)"
  by (induction xs arbitrary: ys) (auto simp: bind_eq_Some_conv split: if_splits)

lemma insert_timer_distinct:
  "insert_timer evs e t xs = Some ys \<Longrightarrow> distinct xs \<Longrightarrow> e \<notin> set xs \<Longrightarrow> distinct ys"
  by (induction xs arbitrary: ys) (auto simp: bind_eq_Some_conv insert_timer_set split: if_splits)

lemma insert_timer_sorted:
  assumes "insert_timer evs e t xs = Some ys" "sorted (map (\<lambda>e. TriggerTime (the (evs e))) xs)"
    "TriggerTime (the (evs e)) = t"
  shows "sorted (map (\<lambda>e. TriggerTime (the (evs e))) ys)"
  using assms
proof (induction xs arbitrary: ys)
  case (Cons x xs)
  obtain ev where x: "evs x = Some ev" using Cons.prems(1) by (auto simp: bind_eq_Some_conv)
  show ?case
  proof (cases "TriggerTime ev > t")
    case True
    have "t \<le> TriggerTime (the (evs z))" if "z \<in> set (x # xs)" for z
    proof -
      have "TriggerTime ev \<le> TriggerTime (the (evs z))" using Cons.prems(2) x that by auto
      then show ?thesis using True by simp
    qed
    then show ?thesis using Cons.prems x True by auto
  next
    case False
    then obtain zs where zs: "insert_timer evs e t xs = Some zs" "ys = x # zs"
      using Cons.prems(1) x by (auto simp: bind_eq_Some_conv)
    have "sorted (map (\<lambda>e. TriggerTime (the (evs e))) zs)" using Cons zs(1) by simp
    then show ?thesis using Cons.prems x False zs(2) insert_timer_set[OF zs(1)] by auto
  qed
qed simp

lemma CoreInsertEventTimer_inv:
  assumes inv: "ev_inv s" and e: "events s e = Some ev" "Type ev AND EVT_TIMER \<noteq> 0" "e \<notin> set (mEfiTimerList s)"
    and run: "CoreInsertEventTimer e s = Some s'"
  shows "ev_inv s' \<and> (\<exists>ys. s' = s\<lparr>mEfiTimerList := ys\<rparr> \<and> insert_timer (events s) e (TriggerTime ev) (mEfiTimerList s) = Some ys)"
proof -
  obtain ys where ys: "insert_timer (events s) e (TriggerTime ev) (mEfiTimerList s) = Some ys"
    "s' = s\<lparr>mEfiTimerList := ys\<rparr>"
    using run e(1) by (auto simp: CoreInsertEventTimer_def bind_eq_Some_conv assert_simps split: if_splits)
  note D = ev_invD[OF inv]
  have "timers_ok s'"
    using D(5) e insert_timer_set[OF ys(1)] insert_timer_distinct[OF ys(1)] insert_timer_sorted[OF ys(1)]
    unfolding timers_ok_def by (auto simp: ys(2))
  moreover have "queues_ok s'" "pending_ok s'" "signals_ok s'" "events_ok s'" "locks_ok s'"
    using D by (simp_all add: ys(2) queues_ok_def pending_ok_def signals_ok_def events_ok_def locks_ok_def)
  ultimately show ?thesis using ys by (simp add: ev_inv_def)
qed

lemma ev_inv_timers:
  assumes inv: "ev_inv s" and sub: "distinct xs" "set xs \<subseteq> set (mEfiTimerList s)"
    "sorted (map (\<lambda>e. TriggerTime (the (events s e))) xs)"
  shows "ev_inv (s\<lparr>mEfiTimerList := xs\<rparr>)"
proof -
  note D = ev_invD[OF inv]
  have "timers_ok (s\<lparr>mEfiTimerList := xs\<rparr>)" using D(5) sub by (auto simp: timers_ok_def)
  then show ?thesis
    using D by (simp add: ev_inv_def queues_ok_def pending_ok_def signals_ok_def events_ok_def locks_ok_def)
qed

lemma timers_ok_remove1:
  assumes "ev_inv s"
  shows "ev_inv (s\<lparr>mEfiTimerList := remove1 e (mEfiTimerList s)\<rparr>)" "e \<notin> set (remove1 e (mEfiTimerList s))"
proof -
  have t: "distinct (mEfiTimerList s)" "sorted (map (\<lambda>e. TriggerTime (the (events s e))) (mEfiTimerList s))"
    using ev_invD(5)[OF assms] by (simp_all add: timers_ok_def)
  have "sorted (map (\<lambda>e. TriggerTime (the (events s e))) (remove1 e (mEfiTimerList s)))"
    by (rule sorted_map_remove1[OF t(2)])
  then show "ev_inv (s\<lparr>mEfiTimerList := remove1 e (mEfiTimerList s)\<rparr>)"
    using assms t(1) by (intro ev_inv_timers) (auto dest: notin_set_remove1)
  show "e \<notin> set (remove1 e (mEfiTimerList s))" using t(1) by simp
qed


lemma remove1_if: "(if e \<in> set xs then remove1 e xs else xs) = remove1 e xs"
  by (simp add: remove1_idem)

text \<open>A timer without its entry, and a timer armed for a trigger time.\<close>

definition cancelled :: "nat \<Rightarrow> 'f ev_state \<Rightarrow> 'f ev_state" where
  "cancelled e s = s\<lparr>mEfiTimerList := remove1 e (mEfiTimerList s),
     events := (events s)(e \<mapsto> (the (events s e))\<lparr>TriggerTime := 0, Period := 0\<rparr>)\<rparr>"

lemma cancelled_inv:
  assumes "ev_inv s" "events s e = Some ev"
  shows "ev_inv (cancelled e s)" "e \<notin> set (mEfiTimerList (cancelled e s))"
proof -
  note r = timers_ok_remove1[OF assms(1), of e]
  have "ev_inv ((s\<lparr>mEfiTimerList := remove1 e (mEfiTimerList s)\<rparr>)
      \<lparr>events := (events s)(e \<mapsto> ev\<lparr>TriggerTime := 0, Period := 0\<rparr>)\<rparr>)"
    using ev_inv_upd[OF r(1), of e ev "ev\<lparr>TriggerTime := 0, Period := 0\<rparr>"] assms(2) r(2) by simp
  then show "ev_inv (cancelled e s)" using assms(2) by (simp add: cancelled_def)
  show "e \<notin> set (mEfiTimerList (cancelled e s))" using r(2) by (simp add: cancelled_def)
qed

lemma cancelled_fields [simp]:
  "locks (cancelled e s) = locks s" "gEfiCurrentTpl (cancelled e s) = gEfiCurrentTpl s"
  "gEventQueue (cancelled e s) = gEventQueue s" "gEventPending (cancelled e s) = gEventPending s"
  "gEventSignalQueue (cancelled e s) = gEventSignalQueue s" "mEfiSystemTime (cancelled e s) = mEfiSystemTime s"
  "events (cancelled e s) = (events s)(e \<mapsto> (the (events s e))\<lparr>TriggerTime := 0, Period := 0\<rparr>)"
  "EventHead (cancelled e s) = EventHead s" "next_event (cancelled e s) = next_event s"
  by (simp_all add: cancelled_def)

lemma same_events_cancelled: "same_events s s' \<Longrightarrow> same_events (cancelled e s) (cancelled e s')"
  by (auto simp: same_events_iff cancelled_def)

lemma CoreSetTimer_cancel:
  assumes R: "restores R" and s: "ready s" and e: "events s e = Some ev" "Type ev AND EVT_TIMER \<noteq> 0"
    and run: "CoreSetTimer pf R (Some e) TimerCancel Trig env s = Some (st, env', s')"
  shows "st = EFI_SUCCESS \<and> settles s s' \<and> env' = env \<and> same_events (cancelled e s) s'"
proof -
  obtain s1 where a: "CoreAcquireLock pf mEfiTimerLock s = Some s1"
    and r: "CoreReleaseLock R mEfiTimerLock env (cancelled e s1) = Some (env', s')" and st: "st = EFI_SUCCESS"
    using run e acquire_ready(11)[OF s]
    by (auto simp: CoreSetTimer_def bind_eq_Some_conv cancelled_def remove1_idem split: if_splits)
  note same = acquire_same[OF s a]
  have e1: "events s1 e = Some ev" using same e(1) by (simp add: same_events_iff)
  note acq = acquire_ready[OF s a]
  have "settles s1 (cancelled e s1)"
    by (rule locked_settles[OF acq(1) acquire_high[OF s a] cancelled_inv(1)[OF readyD(1)[OF acq(1)] e1]]) simp_all
  note sec = lock_section[OF R s a this r]
  have "calm (gEfiCurrentTpl s) (cancelled e s1)" using readyD(3)[OF s] acq by (simp add: calm_def)
  from sec(2)[OF this] show ?thesis
    using sec(1) st same_events_trans[OF same_events_cancelled[OF same]] by blast
qed

text \<open>The rest of CoreSetTimer, under the timer lock.\<close>

lemma set_timer_settles:
  assumes R: "restores R" and s: "ready s" "30 \<le> gEfiCurrentTpl s"
    and e: "events s e = Some ev" "Type ev AND EVT_TIMER \<noteq> 0" "e \<notin> set (mEfiTimerList s)"
    and run: "CoreCurrentSystemTime pf R env (s\<lparr>events := (events s)(e \<mapsto> ev\<lparr>Period := p\<rparr>)\<rparr>) = Some (now, env1, s1)"
      "events s1 e = Some ev1" "CoreInsertEventTimer e (s1\<lparr>events := (events s1)(e \<mapsto> ev1\<lparr>TriggerTime := now + t\<rparr>)\<rparr>) = Some s2"
  shows "settles s s2" "env1 = env"
    "events s2 = (events s)(e \<mapsto> ev\<lparr>Period := p, TriggerTime := mEfiSystemTime s + t\<rparr>)"
    "e \<in> set (mEfiTimerList s2)"
proof -
  let ?s = "s\<lparr>events := (events s)(e \<mapsto> ev\<lparr>Period := p\<rparr>)\<rparr>"
  let ?s1 = "s1\<lparr>events := (events s1)(e \<mapsto> ev1\<lparr>TriggerTime := now + t\<rparr>)\<rparr>"
  have "ev_inv ?s" by (rule ev_inv_upd[OF readyD(1)[OF s(1)] e(1)]) simp_all
  then have S: "settles s ?s" by (rule locked_settles[OF s]) simp_all
  note time = CoreCurrentSystemTime_settles[OF R settlesD(1)[OF S] run(1)]
  have s1: "settles s s1" "30 \<le> gEfiCurrentTpl s1"
    using settles_trans[OF S time(1)] s(2) settlesD(3) by metis+
  have ev1: "ev1 = ev\<lparr>Period := p\<rparr>" "e \<notin> set (mEfiTimerList s1)" "events s1 = (events s)(e \<mapsto> ev1)"
    using time(4) run(2) e(3) by (auto simp: same_events_iff)
  have inv: "ev_inv ?s1"
    by (rule ev_inv_upd[OF settlesD(2)[OF s1(1)] run(2)]) (use ev1 in simp_all)
  have ty: "events ?s1 e = Some (ev1\<lparr>TriggerTime := now + t\<rparr>)" "Type (ev1\<lparr>TriggerTime := now + t\<rparr>) AND EVT_TIMER \<noteq> 0"
    "e \<notin> set (mEfiTimerList ?s1)" using ev1 e(2) by simp_all
  from CoreInsertEventTimer_inv[OF inv ty run(3)] obtain ys where
    ys: "ev_inv s2" "s2 = ?s1\<lparr>mEfiTimerList := ys\<rparr>" "e \<in> set ys" using insert_timer_set by blast
  have "settles s1 s2"
    by (rule locked_settles[OF settlesD(1)[OF s1(1)] s1(2) ys(1)]) (simp_all add: ys(2))
  then show "settles s s2" by (rule settles_trans[OF s1(1)])
  show "env1 = env" by (rule time(3))
  show "events s2 = (events s)(e \<mapsto> ev\<lparr>Period := p, TriggerTime := mEfiSystemTime s + t\<rparr>)"
    using time(2) by (simp add: ys(2) ev1)
  show "e \<in> set (mEfiTimerList s2)" using ys by simp
qed

lemma CoreSetTimer_settles:
  assumes R: "restores R" and s: "ready s" and run: "CoreSetTimer pf R ue delay Trig env s = Some (st, env', s')"
  shows "settles s s'"
proof (cases "\<exists>e ev. ue = Some e \<and> events s e = Some ev \<and> delay \<noteq> OtherDelay \<and> Type ev AND EVT_TIMER \<noteq> 0")
  case False
  then have "s' = s" using run by (auto simp: CoreSetTimer_def split: option.splits if_splits)
  then show ?thesis using settles_refl[OF s] by simp
next
  case True
  then obtain e ev where ue: "ue = Some e" and e: "events s e = Some ev" "Type ev AND EVT_TIMER \<noteq> 0"
    and d: "delay \<noteq> OtherDelay" by blast
  show ?thesis
  proof (cases "delay = TimerCancel")
    case True
    then show ?thesis using CoreSetTimer_cancel[OF R s e] run ue by blast
  next
    case False
    define T where "T = (if delay = TimerPeriodic \<and> Trig = 0 then GetTimerPeriod pf else Trig)"
    note run' = run[unfolded CoreSetTimer_def Let_def remove1_if, folded T_def]
    obtain s1 where a: "CoreAcquireLock pf mEfiTimerLock s = Some s1"
      using run ue e d by (auto simp: CoreSetTimer_def bind_eq_Some_conv)
    note acq = acquire_ready[OF s a]
    have e1: "events s1 e = Some ev" using e acq by simp
    let ?s = "cancelled e s1" and ?ev = "ev\<lparr>TriggerTime := 0, Period := 0\<rparr>"
    let ?p = "if delay = TimerPeriodic then T else 0"
    obtain now env1 s2 ev2 s3 env4 s4 where
      t: "CoreCurrentSystemTime pf R env (?s\<lparr>events := (events ?s)(e \<mapsto> ?ev\<lparr>Period := ?p\<rparr>)\<rparr>) = Some (now, env1, s2)"
        "events s2 e = Some ev2"
        "CoreInsertEventTimer e (s2\<lparr>events := (events s2)(e \<mapsto> ev2\<lparr>TriggerTime := now + T\<rparr>)\<rparr>) = Some s3"
      and g: "(if T = 0 then do {
                 (_, env, s) \<leftarrow> CoreSignalEvent pf R (mEfiCheckTimerEvent s3) env1 s3; Some (env, s) }
               else Some (env1, s3)) = Some (env4, s4)"
      and r: "CoreReleaseLock R mEfiTimerLock env4 s4 = Some (env', s')"
      using run' ue e d False a acq(11) by (auto simp: bind_eq_Some_conv cancelled_def)
    have "settles s1 ?s"
      by (rule locked_settles[OF acq(1) acquire_high[OF s a] cancelled_inv(1)[OF readyD(1)[OF acq(1)] e1]]) simp_all
    note S1 = this
    have h: "30 \<le> gEfiCurrentTpl ?s" using acquire_high[OF s a] by simp
    have ev: "events ?s e = Some ?ev" "Type ?ev AND EVT_TIMER \<noteq> 0" "e \<notin> set (mEfiTimerList ?s)"
      using e1 e(2) cancelled_inv(2)[OF readyD(1)[OF acq(1)] e1] by simp_all
    note S2 = set_timer_settles(1)[OF R settlesD(1)[OF S1] h ev t]
    have S3: "settles s3 s4"
      using g CoreSignalEvent_settles(1)[OF R settlesD(1)[OF S2]] settles_refl[OF settlesD(1)[OF S2]]
      by (auto simp: bind_eq_Some_conv split: if_splits)
    show ?thesis
      using lock_section(1)[OF R s a settles_trans[OF S1 settles_trans[OF S2 S3]] r] .
  qed
qed


subsection \<open>Expired timers\<close>

text \<open>
  A round of CoreCheckTimers leaves the list alone when its head is not due, and otherwise takes
  the head off, signals it and, when it is periodic, arms it again.
\<close>

lemma timers_head:
  assumes "ev_inv s" "mEfiTimerList s = e # es"
  shows "ev_inv (s\<lparr>mEfiTimerList := es\<rparr>)" "e \<notin> set es"
    "\<exists>ev. events s e = Some ev \<and> Type ev AND EVT_TIMER \<noteq> 0"
  using ev_invD(5)[OF assms(1)] assms(2) ev_inv_timers[OF assms(1), of es]
  by (auto simp: timers_ok_def)

definition rearmed :: "u64 \<Rightarrow> 'f ievent \<Rightarrow> u64" where
  "rearmed now ev = (if TriggerTime ev + Period ev \<le> now then now else TriggerTime ev + Period ev)"

lemma uncounted_upd [simp]: "uncounted (evs(e \<mapsto> ev)) = (uncounted evs)(e \<mapsto> ev\<lparr>SignalCount := 0\<rparr>)"
  by (rule ext) (simp add: uncounted_def)

lemma set_time_settles:
  assumes "ready s" "30 \<le> gEfiCurrentTpl s" "events s e = Some ev" "e \<notin> set (mEfiTimerList s)"
  shows "settles s (s\<lparr>events := (events s)(e \<mapsto> ev\<lparr>TriggerTime := t\<rparr>)\<rparr>)"
  using assms ev_inv_upd[OF readyD(1)[OF assms(1)] assms(3), of "ev\<lparr>TriggerTime := t\<rparr>"]
  by (intro locked_settles) simp_all

lemma insert_settles:
  assumes s: "ready s" "30 \<le> gEfiCurrentTpl s"
    and e: "events s e = Some ev" "Type ev AND EVT_TIMER \<noteq> 0" "e \<notin> set (mEfiTimerList s)"
    and ins: "CoreInsertEventTimer e s = Some s'"
  shows "settles s s' \<and> s' = s\<lparr>mEfiTimerList := mEfiTimerList s'\<rparr> \<and>
    insert_timer (events s) e (TriggerTime ev) (mEfiTimerList s) = Some (mEfiTimerList s')"
proof -
  from CoreInsertEventTimer_inv[OF readyD(1)[OF s(1)] e ins] obtain ys where
    ys: "ev_inv s'" "s' = s\<lparr>mEfiTimerList := ys\<rparr>" "insert_timer (events s) e (TriggerTime ev) (mEfiTimerList s) = Some ys"
    by blast
  have "settles s s'" by (rule locked_settles[OF s ys(1)]) (simp_all add: ys(2))
  then show ?thesis using ys(2,3) by simp
qed

text \<open>A periodic timer that was taken off the list and signalled is armed again.\<close>

lemma rearm_settles:
  assumes R: "restores R" and s: "ready s" "30 \<le> gEfiCurrentTpl s"
    and e: "events s e = Some ev" "Type ev AND EVT_TIMER \<noteq> 0" "e \<notin> set (mEfiTimerList s)"
    and run: "(if TriggerTime ev + Period ev \<le> now then do {
        (_, env, s) \<leftarrow> CoreSignalEvent pf R (mEfiCheckTimerEvent s) env
          (s\<lparr>events := (events s)(e \<mapsto> ev\<lparr>TriggerTime := now\<rparr>)\<rparr>); Some (env, s) }
      else Some (env, s\<lparr>events := (events s)(e \<mapsto> ev\<lparr>TriggerTime := TriggerTime ev + Period ev\<rparr>)\<rparr>)) = Some (env', s1)"
    and ins: "CoreInsertEventTimer e s1 = Some s'"
  shows "settles s s' \<and> env' = env \<and> mEfiSystemTime s' = mEfiSystemTime s \<and>
    mEfiCheckTimerEvent s' = mEfiCheckTimerEvent s \<and>
    insert_timer (events s') e (rearmed now ev) (mEfiTimerList s) = Some (mEfiTimerList s') \<and>
    uncounted (events s') = (uncounted (events s))(e \<mapsto> ev\<lparr>TriggerTime := rearmed now ev, SignalCount := 0\<rparr>)"
proof -
  let ?s = "s\<lparr>events := (events s)(e \<mapsto> ev\<lparr>TriggerTime := rearmed now ev\<rparr>)\<rparr>"
  have S: "settles s ?s" by (rule set_time_settles[OF s e(1,3)])
  have s1: "settles ?s s1 \<and> env' = env \<and> mEfiTimerList s1 = mEfiTimerList ?s \<and>
      mEfiSystemTime s1 = mEfiSystemTime ?s \<and> mEfiCheckTimerEvent s1 = mEfiCheckTimerEvent ?s \<and>
      uncounted (events s1) = uncounted (events ?s)"
  proof (cases "TriggerTime ev + Period ev \<le> now")
    case True
    then obtain st where g: "CoreSignalEvent pf R (mEfiCheckTimerEvent s) env ?s = Some (st, env', s1)"
      using run by (auto simp: rearmed_def bind_eq_Some_conv)
    have "30 \<le> gEfiCurrentTpl ?s" using s(2) by simp
    from CoreSignalEvent_high_timers[OF R settlesD(1)[OF S] this g] show ?thesis by blast
  next
    case False
    then show ?thesis using run settles_refl[OF settlesD(1)[OF S]] by (simp add: rearmed_def)
  qed
  have "uncounted (events s1) e = uncounted (events ?s) e" using s1 by simp
  from uncountedD[OF this, of "ev\<lparr>TriggerTime := rearmed now ev\<rparr>"] obtain ev1 where
    ev1: "events s1 e = Some ev1" "Type ev1 = Type ev" "TriggerTime ev1 = rearmed now ev" by auto
  have "30 \<le> gEfiCurrentTpl s1" using s(2) settlesD(3)[OF conjunct1[OF s1]] by simp
  note I = insert_settles[OF settlesD(1)[OF conjunct1[OF s1]] this ev1(1) _ _ ins]
  have I': "settles s1 s'" "s' = s1\<lparr>mEfiTimerList := mEfiTimerList s'\<rparr>"
    "insert_timer (events s1) e (rearmed now ev) (mEfiTimerList s1) = Some (mEfiTimerList s')"
    using I ev1 e(2,3) s1 by simp_all
  have f: "events s' = events s1" "mEfiSystemTime s' = mEfiSystemTime s1" "mEfiCheckTimerEvent s' = mEfiCheckTimerEvent s1"
    by (subst I'(2), simp)+
  show ?thesis using settles_trans[OF S settles_trans[OF conjunct1[OF s1] I'(1)]] I'(3) s1 f by simp
qed

definition round_done :: "u64 \<Rightarrow> bool \<Rightarrow> 'f ev_state \<Rightarrow> 'f ev_state \<Rightarrow> bool" where
  "round_done now again s s' \<longleftrightarrow>
    (case mEfiTimerList s of
       [] \<Rightarrow> \<not> again \<and> s' = s
     | e # es \<Rightarrow> \<exists>ev. events s e = Some ev \<and>
         (if TriggerTime ev > now then \<not> again \<and> s' = s
          else again \<and>
            (if Period ev = 0 then mEfiTimerList s' = es \<and> uncounted (events s') = uncounted (events s)
             else insert_timer (events s') e (rearmed now ev) es = Some (mEfiTimerList s') \<and>
               uncounted (events s') = (uncounted (events s))(e \<mapsto> ev\<lparr>TriggerTime := rearmed now ev, SignalCount := 0\<rparr>))))"

lemma check_timers_round_done:
  assumes R: "restores R" and s: "ready s" "30 \<le> gEfiCurrentTpl s"
    and run: "check_timers_round pf R now env s = Some (again, env', s')"
  shows "settles s s' \<and> env' = env \<and> mEfiSystemTime s' = mEfiSystemTime s \<and>
    mEfiCheckTimerEvent s' = mEfiCheckTimerEvent s \<and> round_done now again s s'"
proof (cases "mEfiTimerList s")
  case Nil
  then show ?thesis using run settles_refl[OF s(1)] by (simp add: check_timers_round_def round_done_def)
next
  case (Cons e es)
  note H = timers_head[OF readyD(1)[OF s(1)] Cons]
  then obtain ev where ev: "events s e = Some ev" "Type ev AND EVT_TIMER \<noteq> 0" by blast
  show ?thesis
  proof (cases "TriggerTime ev > now")
    case True
    then show ?thesis using run Cons ev settles_refl[OF s(1)] by (simp add: check_timers_round_def round_done_def)
  next
    case False
    let ?s = "s\<lparr>mEfiTimerList := es\<rparr>"
    have S0: "settles s ?s" by (rule locked_settles[OF s H(1)]) simp_all
    obtain st env1 s1 ev1 where g: "CoreSignalEvent pf R (Some e) env ?s = Some (st, env1, s1)"
      and ev1: "events s1 e = Some ev1"
      using run Cons ev False by (auto simp: check_timers_round_def bind_eq_Some_conv Let_def)
    have "30 \<le> gEfiCurrentTpl ?s" using s(2) by simp
    note G = CoreSignalEvent_high_timers[OF R settlesD(1)[OF S0] this g]
    have S1: "settles s s1" by (rule settles_trans[OF S0 G(1)])
    have "uncounted (events s1) e = uncounted (events s) e" using G(6) by simp
    with ev1 ev(1) have z: "ev1\<lparr>SignalCount := 0\<rparr> = ev\<lparr>SignalCount := 0\<rparr>" by (simp add: uncounted_def)
    then have same: "Type ev1 = Type ev" "TriggerTime ev1 = TriggerTime ev" "Period ev1 = Period ev"
      by (cases ev, cases ev1, simp)+
    show ?thesis
    proof (cases "Period ev = 0")
      case True
      then have "again \<and> env' = env1 \<and> s' = s1"
        using run Cons ev False g ev1 same by (simp add: check_timers_round_def Let_def)
      then show ?thesis using True S1 G Cons ev False by (simp add: round_done_def)
    next
      case per: False
      have h1: "30 \<le> gEfiCurrentTpl s1" using s(2) settlesD(3)[OF S1] by simp
      have e1: "Type ev1 AND EVT_TIMER \<noteq> 0" "e \<notin> set (mEfiTimerList s1)" using ev(2) H(2) same G(3) by simp_all
      obtain env2 s2 where
        b: "(if TriggerTime ev1 + Period ev1 \<le> now then do {
            (_, env, s) \<leftarrow> CoreSignalEvent pf R (mEfiCheckTimerEvent s1) env1
              (s1\<lparr>events := (events s1)(e \<mapsto> ev1\<lparr>TriggerTime := now\<rparr>)\<rparr>); Some (env, s) }
          else Some (env1, s1\<lparr>events := (events s1)(e \<mapsto> ev1\<lparr>TriggerTime := TriggerTime ev1 + Period ev1\<rparr>)\<rparr>)) =
            Some (env2, s2)"
        and ins: "CoreInsertEventTimer e s2 = Some s'" "again" "env' = env2"
        using run[unfolded check_timers_round_def Let_def] Cons ev False g ev1 per[folded same(3)]
        by (auto simp: bind_eq_Some_conv cong: if_cong)
      have r: "rearmed now ev1 = rearmed now ev" by (simp add: rearmed_def same)
      have t: "ev1\<lparr>TriggerTime := x, SignalCount := 0\<rparr> = ev\<lparr>TriggerTime := x, SignalCount := 0\<rparr>" for x
        using z by (cases ev, cases ev1) simp
      from rearm_settles[OF R settlesD(1)[OF S1] h1 ev1 e1 b ins(1)] show ?thesis
        using S1 G Cons ev False per ins(2,3) settles_trans[OF S1, of s']
        by (simp add: round_done_def r t)
    qed
  qed
qed

lemma check_timers_loop_settles:
  assumes R: "restores R"
  shows "ready s \<Longrightarrow> 30 \<le> gEfiCurrentTpl s \<Longrightarrow> check_timers_loop n pf R now env s = Some (env', s') \<Longrightarrow> settles s s'"
proof (induction n arbitrary: env s)
  case (Suc n)
  obtain again env1 s1 where r: "check_timers_round pf R now env s = Some (again, env1, s1)"
    using Suc.prems(3) by (auto simp: bind_eq_Some_conv)
  then have S: "settles s s1" using check_timers_round_done[OF R Suc.prems(1,2)] by blast
  show ?case
  proof (cases again)
    case True
    then have "check_timers_loop n pf R now env1 s1 = Some (env', s')" using Suc.prems(3) r by simp
    then have "settles s1 s'" using Suc.IH[OF settlesD(1)[OF S]] Suc.prems(2) settlesD(3)[OF S] by simp
    with S show ?thesis by (rule settles_trans)
  next
    case False
    then show ?thesis using Suc.prems(3) r S by simp
  qed
qed simp

lemma CoreCheckTimers_settles:
  assumes R: "restores R" and s: "ready s" and run: "CoreCheckTimers n pf R env s = Some (env', s')"
  shows "settles s s'"
proof -
  obtain s1 now env2 s2 env3 s3 where a: "CoreAcquireLock pf mEfiTimerLock s = Some s1"
    and t: "CoreCurrentSystemTime pf R env s1 = Some (now, env2, s2)"
    and l: "check_timers_loop n pf R now env2 s2 = Some (env3, s3)"
    and r: "CoreReleaseLock R mEfiTimerLock env3 s3 = Some (env', s')"
    using run by (auto simp: CoreCheckTimers_def bind_eq_Some_conv)
  note S1 = CoreCurrentSystemTime_settles(1)[OF R acquire_ready(1)[OF s a] t]
  have "30 \<le> gEfiCurrentTpl s2" using acquire_high[OF s a] settlesD(3)[OF S1] by simp
  note S2 = check_timers_loop_settles[OF R settlesD(1)[OF S1] this l]
  show ?thesis by (rule lock_section(1)[OF R s a settles_trans[OF S1 S2] r])
qed

lemma CoreTimerTick_settles:
  assumes R: "restores R" and s: "ready s" and run: "CoreTimerTick pf R d env s = Some (env', s')"
  shows "settles s s'"
proof -
  obtain s1 where a: "CoreAcquireLock pf mEfiSystemTimeLock s = Some s1"
    using run by (auto simp: CoreTimerTick_def bind_eq_Some_conv)
  let ?s = "s1\<lparr>mEfiSystemTime := mEfiSystemTime s1 + d\<rparr>"
  note acq = acquire_ready[OF s a]
  have S: "settles s1 ?s"
    by (rule locked_settles[OF acq(1) acquire_high[OF s a]]) (simp_all add: readyD(1)[OF acq(1)])
  obtain env2 s2 where b: "settles ?s s2" and r: "CoreReleaseLock R mEfiSystemTimeLock env2 s2 = Some (env', s')"
    using run a CoreSignalEvent_settles(1)[OF R settlesD(1)[OF S]] settles_refl[OF settlesD(1)[OF S]]
    by (fastforce simp: CoreTimerTick_def bind_eq_Some_conv Let_def split: list.splits if_splits)
  show ?thesis by (rule lock_section(1)[OF R s a settles_trans[OF S b] r])
qed

end
