(* ===== verification/Event_Run.thy ===== *)
theory Event_Run
  imports Event_Svc
begin

text \<open>
  Checks, creation and removal of events, and the dispatch of notifications by CoreRestoreTpl,
  which keeps its contract at every depth.
\<close>

unbundle bit_operations_syntax

subsection \<open>Checking and waiting\<close>

lemma wait_notifies:
  assumes "ev_inv s" "events s e = Some ev" "Type ev AND EVT_NOTIFY_WAIT \<noteq> 0"
  shows "notifies ev"
proof (rule events_okD(2)[OF assms(1,2)])
  show "Type ev AND (EVT_NOTIFY_WAIT OR EVT_NOTIFY_SIGNAL) \<noteq> 0"
  proof
    assume z: "Type ev AND (EVT_NOTIFY_WAIT OR EVT_NOTIFY_SIGNAL) = 0"
    have "Type ev AND EVT_NOTIFY_WAIT = 0"
      by (rule bit_eqI) (use z in \<open>auto simp: bit_eq_iff bit_and_iff bit_or_iff\<close>)
    then show False using assms(3) by simp
  qed
qed

lemma queue_event_settles:
  assumes "ready s" "30 \<le> gEfiCurrentTpl s" "events s e = Some ev" "notifies ev"
  shows "settles s (queue_event e s)"
  using assms queue_event_inv[OF readyD(1)[OF assms(1)] assms(3,4)] by (intro locked_settles) simp_all

lemma set_count_settles:
  assumes "ready s" "30 \<le> gEfiCurrentTpl s" "events s e = Some ev"
  shows "settles s (s\<lparr>events := (events s)(e \<mapsto> ev\<lparr>SignalCount := n\<rparr>)\<rparr>)"
  using assms ev_inv_upd[OF readyD(1)[OF assms(1)] assms(3), of "ev\<lparr>SignalCount := n\<rparr>"]
  by (intro locked_settles) simp_all

lemma check_notify_settles:
  assumes R: "restores R" and s: "ready s" and e: "events s e = Some ev" "Type ev AND EVT_NOTIFY_WAIT \<noteq> 0"
    and run: "do { s \<leftarrow> CoreAcquireEventLock pf s; Event \<leftarrow> events s e;
        s \<leftarrow> (if SignalCount Event = 0 then CoreNotifyEvent e s else Some s);
        CoreReleaseEventLock R env s } = Some (env', s')"
  shows "settles s s'"
proof -
  obtain s1 s2 where a: "CoreAcquireLock pf gEventQueueLock s = Some s1"
    and n: "(if SignalCount ev = 0 then CoreNotifyEvent e s1 else Some s1) = Some s2"
    and r: "CoreReleaseLock R gEventQueueLock env s2 = Some (env', s')"
    using run e acquire_ready(11)[OF s]
    by (auto simp: CoreAcquireEventLock_def CoreReleaseEventLock_def bind_eq_Some_conv)
  note acq = acquire_ready[OF s a]
  have e1: "events s1 e = Some ev" using e acq by simp
  have "settles s1 s2"
    using n queue_event_settles[OF acq(1) acquire_high[OF s a] e1 wait_notifies[OF readyD(1)[OF acq(1)] e1 e(2)]]
      settles_refl[OF acq(1)] by (auto split: if_splits dest: CoreNotifyEvent_eq)
  then show ?thesis by (rule lock_section(1)[OF R s a _ r])
qed

lemma check_clear_settles:
  assumes R: "restores R" and s: "ready s" and a: "CoreAcquireLock pf gEventQueueLock s = Some s1"
    and e: "events s1 e = Some ev"
    and r: "CoreReleaseLock R gEventQueueLock env
      (if SignalCount ev \<noteq> 0 then s1\<lparr>events := (events s1)(e \<mapsto> ev\<lparr>SignalCount := 0\<rparr>)\<rparr> else s1) = Some (env', s')"
  shows "settles s s'"
proof -
  note acq = acquire_ready[OF s a]
  have "settles s1 (if SignalCount ev \<noteq> 0 then s1\<lparr>events := (events s1)(e \<mapsto> ev\<lparr>SignalCount := 0\<rparr>)\<rparr> else s1)"
    using set_count_settles[OF acq(1) acquire_high[OF s a] e] settles_refl[OF acq(1)] by simp
  then show ?thesis by (rule lock_section(1)[OF R s a _ r])
qed

lemma CoreCheckEvent_settles:
  assumes R: "restores R" and s: "ready s" and run: "CoreCheckEvent pf R ue env s = Some (st, env', s')"
  shows "settles s s'"
proof (cases "\<exists>e ev. ue = Some e \<and> events s e = Some ev \<and> Type ev AND EVT_NOTIFY_SIGNAL = 0")
  case False
  then have "s' = s" using run by (auto simp: CoreCheckEvent_def split: option.splits if_splits)
  then show ?thesis using settles_refl[OF s] by simp
next
  case True
  then obtain e ev where ue: "ue = Some e" and e: "events s e = Some ev" "Type ev AND EVT_NOTIFY_SIGNAL = 0" by blast
  obtain env1 s1 ev1 where
    n: "(if SignalCount ev = 0 \<and> Type ev AND EVT_NOTIFY_WAIT \<noteq> 0 then do {
          s \<leftarrow> CoreAcquireEventLock pf s; Event \<leftarrow> events s e;
          s \<leftarrow> (if SignalCount Event = 0 then CoreNotifyEvent e s else Some s);
          CoreReleaseEventLock R env s } else Some (env, s)) = Some (env1, s1)"
    and ev1: "events s1 e = Some ev1"
    and rest: "(if SignalCount ev1 \<noteq> 0 then do {
          s \<leftarrow> CoreAcquireEventLock pf s1; Event \<leftarrow> events s e;
          let (Status, s) = (if SignalCount Event \<noteq> 0
            then (EFI_SUCCESS, s\<lparr>events := (events s)(e \<mapsto> Event\<lparr>SignalCount := 0\<rparr>)\<rparr>) else (EFI_NOT_READY, s));
          (env, s) \<leftarrow> CoreReleaseEventLock R env1 s;
          Some (Status, env, s) } else Some (EFI_NOT_READY, env1, s1)) = Some (st, env', s')"
    using run[unfolded CoreCheckEvent_def] ue e by (auto simp: bind_eq_Some_conv)
  have S1: "settles s s1"
    using n check_notify_settles[OF R s e(1)] settles_refl[OF s] by (auto split: if_splits)
  have "settles s1 s'"
  proof (cases "SignalCount ev1 = 0")
    case True
    then show ?thesis using rest settles_refl[OF settlesD(1)[OF S1]] by simp
  next
    case False
    then obtain s2 ev2 where a: "CoreAcquireLock pf gEventQueueLock s1 = Some s2" and ev2: "events s2 e = Some ev2"
      and r: "CoreReleaseLock R gEventQueueLock env1
        (if SignalCount ev2 \<noteq> 0 then s2\<lparr>events := (events s2)(e \<mapsto> ev2\<lparr>SignalCount := 0\<rparr>)\<rparr> else s2) = Some (env', s')"
      using rest by (auto simp: CoreAcquireEventLock_def CoreReleaseEventLock_def bind_eq_Some_conv split: if_splits)
    show ?thesis by (rule check_clear_settles[OF R settlesD(1)[OF S1] a ev2 r])
  qed
  with S1 show ?thesis by (rule settles_trans)
qed

lemma wait_scan_settles:
  assumes R: "restores R"
  shows "ready s \<Longrightarrow> wait_scan pf R i ues env s = Some (r, env', s') \<Longrightarrow> settles s s'"
proof (induction ues arbitrary: i env s)
  case Nil
  then show ?case using settles_refl by simp
next
  case (Cons ue ues)
  obtain st env1 s1 where c: "CoreCheckEvent pf R ue env s = Some (st, env1, s1)"
    using Cons.prems(2) by (auto simp: bind_eq_Some_conv)
  note S = CoreCheckEvent_settles[OF R Cons.prems(1) c]
  show ?case
  proof (cases "st = EFI_NOT_READY")
    case True
    then have "wait_scan pf R (i + 1) ues env1 s1 = Some (r, env', s')" using Cons.prems(2) c by simp
    from settles_trans[OF S Cons.IH[OF settlesD(1)[OF S] this]] show ?thesis .
  next
    case False
    then show ?thesis using Cons.prems(2) c S by simp
  qed
qed

lemma wait_loop_settles:
  assumes R: "restores R"
  shows "ready s \<Longrightarrow> wait_loop n pf R ues env s = Some (st, i, env', s') \<Longrightarrow> settles s s'"
proof (induction n arbitrary: env s)
  case (Suc n)
  obtain r env1 s1 where w: "wait_scan pf R 0 ues env s = Some (r, env1, s1)"
    using Suc.prems(2) by (auto simp: bind_eq_Some_conv)
  note S = wait_scan_settles[OF R Suc.prems(1) w]
  show ?case
  proof (cases r)
    case None
    then obtain st2 env2 s2 where g: "CoreSignalEvent pf R (gIdleLoopEvent s1) env1 s1 = Some (st2, env2, s2)"
      and l: "wait_loop n pf R ues env2 s2 = Some (st, i, env', s')"
      using Suc.prems(2) w by (auto simp: bind_eq_Some_conv)
    note S2 = CoreSignalEvent_settles(1)[OF R settlesD(1)[OF S] g]
    from settles_trans[OF S settles_trans[OF S2 Suc.IH[OF settlesD(1)[OF S2] l]]] show ?thesis .
  next
    case (Some p)
    then show ?thesis using Suc.prems(2) w S by (cases p) simp
  qed
qed simp

lemma CoreWaitForEvent_settles:
  assumes R: "restores R" and s: "ready s" and run: "CoreWaitForEvent n pf R k ues env s = Some (st, i, env', s')"
  shows "settles s s'"
  using run settles_refl[OF s] wait_loop_settles[OF R s]
  by (fastforce simp: CoreWaitForEvent_def bind_eq_Some_conv assert_simps split: if_splits option.splits)

subsection \<open>Creation and removal\<close>

lemma CoreAcquireLock_upd:
  "CoreAcquireLock pf l (s\<lparr>events := E, next_event := n, EventHead := H\<rparr>) =
     map_option (\<lambda>s. s\<lparr>events := E, next_event := n, EventHead := H\<rparr>) (CoreAcquireLock pf l s)"
  by (simp add: CoreAcquireLock_def CoreRaiseTpl_def CoreSetInterruptState_def Let_def assert_simps
      split: option.split)

text \<open>A new event under the lock.\<close>

definition add_event :: "'f ievent \<Rightarrow> 'f ev_state \<Rightarrow> 'f ev_state" where
  "add_event ev s =
     (let e = next_event s
      in s\<lparr>events := (events s)(e \<mapsto> ev), next_event := e + 1,
           EventHead := (if Type ev AND EVT_RUNTIME \<noteq> 0 then EventHead s @ [e] else EventHead s),
           gEventSignalQueue :=
             (if Type ev AND EVT_NOTIFY_SIGNAL \<noteq> 0 then e # gEventSignalQueue s else gEventSignalQueue s)\<rparr>)"

lemma add_event_alt:
  "add_event ev s =
     (let e = next_event s;
          s = s\<lparr>events := (events s)(e \<mapsto> ev), next_event := e + 1,
                EventHead := (if Type ev AND EVT_RUNTIME \<noteq> 0 then EventHead s @ [e] else EventHead s)\<rparr>
      in if Type ev AND EVT_NOTIFY_SIGNAL \<noteq> 0 then s\<lparr>gEventSignalQueue := e # gEventSignalQueue s\<rparr> else s)"
  by (rule ev_state.equality) (simp_all add: add_event_def Let_def)

lemma add_event_inv:
  assumes inv: "ev_inv s" and n: "Type ev AND (EVT_NOTIFY_WAIT OR EVT_NOTIFY_SIGNAL) \<noteq> 0 \<longrightarrow> notifies ev"
  shows "ev_inv (add_event ev s)"
proof -
  note D = ev_invD[OF inv]
  let ?e = "next_event s"
  have new: "events s ?e = None" using D(4) by (auto simp: events_ok_def)
  have q: "?e \<notin> set (gEventQueue s p)" "?e \<notin> set (gEventSignalQueue s)" "?e \<notin> set (mEfiTimerList s)" for p
    using D(1) D(3) D(5) new by (fastforce simp: queues_ok_def signals_ok_def timers_ok_def)+
  have "queues_ok (add_event ev s)" using D(1) q(1) unfolding queues_ok_def add_event_def Let_def by (auto; metis)
  moreover have "pending_ok (add_event ev s)" using D(2) by (simp add: pending_ok_def add_event_def Let_def)
  moreover have "signals_ok (add_event ev s)" using D(3) q(2) new by (auto simp: signals_ok_def add_event_def Let_def)
  moreover have "events_ok (add_event ev s)"
    using D(4) n new by (auto simp: events_ok_def add_event_def Let_def ran_def less_Suc_eq)
  moreover have "timers_ok (add_event ev s)"
  proof -
    have "map (\<lambda>x. TriggerTime (the (events (add_event ev s) x))) (mEfiTimerList s) =
        map (\<lambda>x. TriggerTime (the (events s x))) (mEfiTimerList s)"
      using q(3) by (auto simp: add_event_def Let_def)
    then have "sorted (map (\<lambda>x. TriggerTime (the (events (add_event ev s) x))) (mEfiTimerList s))"
      using D(5) by (simp only: timers_ok_def)
    then show ?thesis using D(5) q(3) unfolding timers_ok_def by (auto simp: add_event_def Let_def; metis)
  qed
  moreover have "locks_ok (add_event ev s)" using D(6) by (simp add: locks_ok_def add_event_def Let_def)
  ultimately show ?thesis by (simp add: ev_inv_def)
qed

lemma add_event_fields [simp]:
  "locks (add_event ev s) = locks s" "gEfiCurrentTpl (add_event ev s) = gEfiCurrentTpl s"
  "gEventPending (add_event ev s) = gEventPending s" "gEventQueue (add_event ev s) = gEventQueue s"
  "events (add_event ev s) = (events s)(next_event s \<mapsto> ev)" "next_event (add_event ev s) = next_event s + 1"
  by (simp_all add: add_event_def Let_def)

text \<open>The end of CoreCreateEventInternal: the new event is published.\<close>

definition publish ::
  "platform \<Rightarrow> ('f, 'e) restorer \<Rightarrow> 'f ievent \<Rightarrow> 'e \<Rightarrow> 'f ev_state \<Rightarrow> (efi_status \<times> nat option \<times> 'e \<times> 'f ev_state) option" where
  "publish pf R ev env s = do {
     let e = next_event s;
     s \<leftarrow> CoreAcquireEventLock pf (s\<lparr>next_event := e + 1, events := (events s)(e \<mapsto> ev),
       EventHead := (if Type ev AND EVT_RUNTIME \<noteq> 0 then EventHead s @ [e] else EventHead s)\<rparr>);
     let s = (if Type ev AND EVT_NOTIFY_SIGNAL \<noteq> 0 then s\<lparr>gEventSignalQueue := e # gEventSignalQueue s\<rparr> else s);
     (env, s) \<leftarrow> CoreReleaseEventLock R env s;
     Some (EFI_SUCCESS, Some e, env, s)
   }"

lemma publish_settles:
  assumes R: "restores R" and s: "ready s"
    and n: "Type ev AND (EVT_NOTIFY_WAIT OR EVT_NOTIFY_SIGNAL) \<noteq> 0 \<longrightarrow> notifies ev"
    and run: "publish pf R ev env s = Some (st, r, env', s')"
  shows "st = EFI_SUCCESS \<and> r = Some (next_event s) \<and> settles s s' \<and> env' = env \<and> same_events (add_event ev s) s'"
proof -
  let ?s = "s\<lparr>events := (events s)(next_event s \<mapsto> ev), next_event := next_event s + 1,
      EventHead := (if Type ev AND EVT_RUNTIME \<noteq> 0 then EventHead s @ [next_event s] else EventHead s)\<rparr>"
  have upd: "s\<lparr>next_event := next_event s + 1, events := (events s)(next_event s \<mapsto> ev),
      EventHead := (if Type ev AND EVT_RUNTIME \<noteq> 0 then EventHead s @ [next_event s] else EventHead s)\<rparr> = ?s" by simp
  obtain s0 where a: "CoreAcquireLock pf gEventQueueLock s = Some s0"
    using run unfolding publish_def Let_def CoreAcquireEventLock_def upd CoreAcquireLock_upd
    by (auto simp: bind_eq_Some_conv)
  note acq = acquire_ready[OF s a]
  have r: "CoreReleaseLock R gEventQueueLock env (add_event ev s0) = Some (env', s')"
    and st: "st = EFI_SUCCESS" "r = Some (next_event s)"
    using run a acq(10,11,15,16)
    unfolding publish_def Let_def CoreAcquireEventLock_def upd CoreAcquireLock_upd CoreReleaseEventLock_def
    by (auto simp: bind_eq_Some_conv add_event_alt Let_def split: if_splits)
  note same = acquire_same[OF s a]
  have "settles s0 (add_event ev s0)"
    by (rule locked_settles[OF acq(1) acquire_high[OF s a] add_event_inv[OF readyD(1)[OF acq(1)] n]]) simp_all
  note sec = lock_section[OF R s a this r]
  have sa: "same_events (add_event ev s) (add_event ev s0)"
    using same by (simp add: same_events_iff add_event_def Let_def)
  have "calm (gEfiCurrentTpl s) (add_event ev s0)" using readyD(3)[OF s] acq by (simp add: calm_def)
  then show ?thesis using sec same_events_trans[OF sa] st by blast
qed

text \<open>The type and group an event is created with, and whether they are accepted.\<close>

definition event_kind :: "u32 \<Rightarrow> guid option \<Rightarrow> u32 \<times> guid option" where
  "event_kind ty g =
     (if g = Some gEfiEventExitBootServicesGuid then (EVT_SIGNAL_EXIT_BOOT_SERVICES, g)
      else if g = Some gEfiEventVirtualAddressChangeGuid then (EVT_SIGNAL_VIRTUAL_ADDRESS_CHANGE, g)
      else if g = None \<and> ty = EVT_SIGNAL_EXIT_BOOT_SERVICES then (ty, Some gEfiEventExitBootServicesGuid)
      else if g = None \<and> ty = EVT_SIGNAL_VIRTUAL_ADDRESS_CHANGE then (ty, Some gEfiEventVirtualAddressChangeGuid)
      else (ty, g))"

definition notify_type :: "u32 \<Rightarrow> bool" where
  "notify_type ty \<longleftrightarrow> ty AND (EVT_NOTIFY_WAIT OR EVT_NOTIFY_SIGNAL) \<noteq> 0"

definition accepted :: "u32 \<Rightarrow> nat \<Rightarrow> 'f notify option \<Rightarrow> guid option \<Rightarrow> bool" where
  "accepted ty tpl fn g \<longleftrightarrow> ty \<in> set mEventTable \<and>
     (g \<noteq> None \<longrightarrow> ty \<noteq> EVT_SIGNAL_EXIT_BOOT_SERVICES \<and> ty \<noteq> EVT_SIGNAL_VIRTUAL_ADDRESS_CHANGE) \<and>
     (notify_type (fst (event_kind ty g)) \<longrightarrow> fn \<noteq> None \<and> TPL_APPLICATION < tpl \<and> tpl < TPL_HIGH_LEVEL)"

definition new_event :: "u32 \<Rightarrow> nat \<Rightarrow> 'f notify option \<Rightarrow> guid option \<Rightarrow> 'f ievent" where
  "new_event ty tpl fn g =
     (let (ty, g) = event_kind ty g
      in \<lparr>Type = ty, SignalCount = 0, NotifyTpl = (if notify_type ty then tpl else 0),
          NotifyFunction = (if notify_type ty then fn else None), EventGroup = g, ProtocolNotify = False,
          TriggerTime = 0, Period = 0\<rparr>)"

lemma new_event_notifies:
  assumes "accepted ty tpl fn g"
  shows "Type (new_event ty tpl fn g) AND (EVT_NOTIFY_WAIT OR EVT_NOTIFY_SIGNAL) \<noteq> 0 \<longrightarrow> notifies (new_event ty tpl fn g)"
  using assms by (auto simp: new_event_def accepted_def notifies_def notify_type_def Let_def split: prod.splits)

lemma CoreCreateEventInternal_eq:
  "CoreCreateEventInternal pf R oom ty tpl fn g want env s =
    (if \<not> want \<or> \<not> accepted ty tpl fn g then Some (EFI_INVALID_PARAMETER, None, env, s)
     else if oom (next_event s) then Some (EFI_OUT_OF_RESOURCES, None, env, s\<lparr>next_event := next_event s + 1\<rparr>)
     else publish pf R (new_event ty tpl fn g) env s)"
proof -
  have kind: "(case g of
      Some g \<Rightarrow> (if g = gEfiEventExitBootServicesGuid then EVT_SIGNAL_EXIT_BOOT_SERVICES
         else if g = gEfiEventVirtualAddressChangeGuid then EVT_SIGNAL_VIRTUAL_ADDRESS_CHANGE else ty, Some g)
    | None \<Rightarrow> (ty, if ty = EVT_SIGNAL_EXIT_BOOT_SERVICES then Some gEfiEventExitBootServicesGuid
         else if ty = EVT_SIGNAL_VIRTUAL_ADDRESS_CHANGE then Some gEfiEventVirtualAddressChangeGuid else None)) =
      event_kind ty g"
    by (simp add: event_kind_def split: option.split)
  obtain ty' g' where k: "event_kind ty g = (ty', g')" by (cases "event_kind ty g")
  have neg: "fn = None \<or> tpl \<le> TPL_APPLICATION \<or> tpl \<ge> TPL_HIGH_LEVEL \<longleftrightarrow>
      \<not> (fn \<noteq> None \<and> TPL_APPLICATION < tpl \<and> tpl < TPL_HIGH_LEVEL)" by auto
  have ev: "new_event ty tpl fn g = \<lparr>Type = ty', SignalCount = 0, NotifyTpl = (if notify_type ty' then tpl else 0),
      NotifyFunction = (if notify_type ty' then fn else None), EventGroup = g', ProtocolNotify = False,
      TriggerTime = 0, Period = 0\<rparr>" by (simp add: new_event_def k)
  show ?thesis
    unfolding CoreCreateEventInternal_def kind k accepted_def ev neg notify_type_def[symmetric] publish_def Let_def
      prod.case fst_conv
    by (cases want; cases "ty \<in> set mEventTable"; cases "g = None"; cases "notify_type ty'"; simp)
qed

lemma next_event_settles: "ready s \<Longrightarrow> settles s (s\<lparr>next_event := next_event s + 1\<rparr>)"
  by (auto simp: settles_def ready_def keeps_locks_def may_run_def calm_def ev_inv_defs less_SucI)

lemma CoreCreateEventInternal_settles:
  assumes R: "restores R" and s: "ready s"
    and run: "CoreCreateEventInternal pf R oom ty tpl fn g want env s = Some (st, r, env', s')"
  shows "settles s s'"
    "want \<and> accepted ty tpl fn g \<and> \<not> oom (next_event s) \<Longrightarrow> st = EFI_SUCCESS \<and> r = Some (next_event s) \<and> env' = env \<and>
       same_events (add_event (new_event ty tpl fn g) s) s'"
proof -
  have ok: "st = EFI_SUCCESS \<and> r = Some (next_event s) \<and> settles s s' \<and> env' = env \<and>
      same_events (add_event (new_event ty tpl fn g) s) s'" if w: "want \<and> accepted ty tpl fn g \<and> \<not> oom (next_event s)"
  proof -
    have n: "Type (new_event ty tpl fn g) AND (EVT_NOTIFY_WAIT OR EVT_NOTIFY_SIGNAL) \<noteq> 0 \<longrightarrow> notifies (new_event ty tpl fn g)"
      using w new_event_notifies by blast
    have "publish pf R (new_event ty tpl fn g) env s = Some (st, r, env', s')"
      using run w by (simp add: CoreCreateEventInternal_eq)
    then show ?thesis using publish_settles[OF R s n] by blast
  qed
  show "want \<and> accepted ty tpl fn g \<and> \<not> oom (next_event s) \<Longrightarrow> st = EFI_SUCCESS \<and> r = Some (next_event s) \<and> env' = env \<and>
       same_events (add_event (new_event ty tpl fn g) s) s'" using ok by blast
  show "settles s s'"
    using ok run settles_refl[OF s] next_event_settles[OF s]
    by (auto simp: CoreCreateEventInternal_eq split: if_splits)
qed


text \<open>An event without its entries, and then without the event.\<close>

definition unlinked :: "nat \<Rightarrow> 'f ev_state \<Rightarrow> 'f ev_state" where
  "unlinked e s =
     (let t = NotifyTpl (the (events s e))
      in s\<lparr>EventHead := remove1 e (EventHead s),
           gEventQueue := (gEventQueue s)(t := remove1 e (gEventQueue s t)),
           gEventSignalQueue := remove1 e (gEventSignalQueue s)\<rparr>)"

lemma unlinked_fields [simp]:
  "locks (unlinked e s) = locks s" "gEfiCurrentTpl (unlinked e s) = gEfiCurrentTpl s"
  "gEventPending (unlinked e s) = gEventPending s" "events (unlinked e s) = events s"
  "mEfiTimerList (unlinked e s) = mEfiTimerList s" "next_event (unlinked e s) = next_event s"
  by (simp_all add: unlinked_def Let_def)

lemma unlinked_inv:
  assumes inv: "ev_inv s" and e: "events s e = Some ev" "e \<notin> set (mEfiTimerList s)"
  shows "ev_inv ((unlinked e s)\<lparr>events := (events s)(e := None)\<rparr>)" (is "ev_inv ?s")
proof -
  note D = ev_invD[OF inv]
  have "queues_ok ?s"
    unfolding queues_ok_def
  proof (intro allI conjI ballI)
    fix p
    show "distinct (gEventQueue ?s p)"
      using D(1) by (simp add: queues_ok_def unlinked_def Let_def distinct_remove1)
    fix x assume x: "x \<in> set (gEventQueue ?s p)"
    then have "x \<in> set (gEventQueue s p)"
      using set_remove1_subset by (fastforce simp: unlinked_def Let_def split: if_splits)
    then have q: "bit (gEventPending s) p" "\<exists>ev. events s x = Some ev \<and> NotifyTpl ev = p \<and> notifies ev" "distinct (gEventQueue s p)"
      using D(1) by (auto simp: queues_ok_def)
    have "x \<noteq> e"
    proof
      assume "x = e"
      then show False using x q(2,3) e(1) by (auto simp: unlinked_def Let_def)
    qed
    then show "bit (gEventPending ?s) p" "\<exists>ev. events ?s x = Some ev \<and> NotifyTpl ev = p \<and> notifies ev"
      using q by simp_all
  qed
  moreover have "pending_ok ?s" using D(2) by (simp add: pending_ok_def)
  moreover have "signals_ok ?s" using D(3) by (auto simp: signals_ok_def unlinked_def Let_def)
  moreover have "events_ok ?s" using D(4) by (auto simp: events_ok_def ran_def)
  moreover have "timers_ok ?s"
  proof -
    have "map (\<lambda>x. TriggerTime (the (events ?s x))) (mEfiTimerList s) =
        map (\<lambda>x. TriggerTime (the (events s x))) (mEfiTimerList s)"
      using e(2) by auto
    then have "sorted (map (\<lambda>x. TriggerTime (the (events ?s x))) (mEfiTimerList s))"
      using D(5) by (simp only: timers_ok_def)
    then show ?thesis using D(5) e(2) by (auto simp: timers_ok_def)
  qed
  moreover have "locks_ok ?s" using D(6) by (simp add: locks_ok_def)
  ultimately show ?thesis by (simp add: ev_inv_def)
qed

lemma CoreCloseEvent_settles:
  assumes R: "restores R" and s: "ready s" and run: "CoreCloseEvent pf R u ue env s = Some (st, env', s')"
  shows "settles s s'"
    "ue = Some e \<Longrightarrow> events s e \<noteq> None \<Longrightarrow> st = EFI_SUCCESS \<and> events s' = (events s)(e := None)"
proof -
  have main: "st = EFI_SUCCESS \<and> settles s s' \<and> events s' = (events s)(e := None)"
    if ue: "ue = Some e" and e: "events s e = Some ev" for e ev
  proof -
    obtain env1 s1 s2 ev2 env3 s3 where
      t: "(if Type ev AND EVT_TIMER \<noteq> 0
            then do { (_, env, s) \<leftarrow> CoreSetTimer pf R (Some e) TimerCancel 0 env s; Some (env, s) }
            else Some (env, s)) = Some (env1, s1)"
      and a: "CoreAcquireLock pf gEventQueueLock s1 = Some s2"
      and r: "CoreReleaseLock R gEventQueueLock env1 (unlinked e s2) = Some (env3, s3)"
      and fin: "st = EFI_SUCCESS" "s' = s3\<lparr>events := (events s3)(e := None)\<rparr>" and ev2: "events s2 e = Some ev2"
      using run[unfolded CoreCloseEvent_def Let_def] ue e
      by (auto simp: CoreAcquireEventLock_def CoreReleaseEventLock_def bind_eq_Some_conv unlinked_def Let_def)
    have S1: "settles s s1 \<and> (events s1)(e := None) = (events s)(e := None) \<and> e \<notin> set (mEfiTimerList s1)"
    proof (cases "Type ev AND EVT_TIMER = 0")
      case True
      then have "e \<notin> set (mEfiTimerList s)" using ev_invD(5)[OF readyD(1)[OF s]] e by (auto simp: timers_ok_def)
      then show ?thesis using t True settles_refl[OF s] by simp
    next
      case False
      then obtain st2 where c: "CoreSetTimer pf R (Some e) TimerCancel 0 env s = Some (st2, env1, s1)"
        using t by (auto simp: bind_eq_Some_conv)
      have "settles s s1" "same_events (cancelled e s) s1"
        using CoreSetTimer_cancel[OF R s e False c] by simp_all
      moreover have "e \<notin> set (mEfiTimerList (cancelled e s))" by (rule cancelled_inv(2)[OF readyD(1)[OF s] e])
      ultimately show ?thesis by (auto simp: same_events_iff)
    qed
    note S = conjunct1[OF S1]
    note acq = acquire_ready[OF settlesD(1)[OF S] a]
    have "keeps_locks s2 (unlinked e s2)" by (rule keeps_locks_same) simp
    moreover have "pending_ok (unlinked e s2)" using ev_invD(2)[OF readyD(1)[OF acq(1)]] by (simp add: pending_ok_def)
    moreover have "calm (gEfiCurrentTpl s1) (unlinked e s2)"
      using readyD(3)[OF settlesD(1)[OF S]] acq by (simp add: calm_def)
    ultimately have R3: "same_events (unlinked e s2) s3" "gEfiCurrentTpl s3 = gEfiCurrentTpl s1" "keeps_locks s1 s3"
      using release_idle[OF R settlesD(1)[OF S] a _ _ _ r] by blast+
    have inv: "ev_inv ((unlinked e s2)\<lparr>events := (events s2)(e := None)\<rparr>)"
      using unlinked_inv[OF readyD(1)[OF acq(1)] ev2] S1 acq(12) by simp
    have k: "keeps_locks s1 s'" using R3(3) by (simp add: keeps_locks_def fin(2))
    have "locks_ok s1" by (rule ev_invD(6)[OF settlesD(2)[OF S]])
    then have "locks_ok s'" using k by (simp add: locks_ok_def keeps_locks_def)
    moreover have "same_events ((unlinked e s2)\<lparr>events := (events s2)(e := None)\<rparr>) s'"
      using R3(1) by (simp add: same_events_iff fin(2))
    ultimately have inv': "ev_inv s'" using same_events_ev_inv inv by blast
    have "may_run (gEfiCurrentTpl s1) s'" using readyD(2)[OF settlesD(1)[OF S]] keeps_locks_may_run[OF k] by simp
    moreover have "calm (gEfiCurrentTpl s1) s'"
      using readyD(3)[OF settlesD(1)[OF S]] R3(1) acq by (simp add: calm_def fin(2) same_events_iff)
    ultimately have "settles s1 s'" using inv' k R3(2) by (simp add: settles_def ready_def fin(2))
    then have "settles s s'" by (rule settles_trans[OF S])
    moreover have "events s' = (events s)(e := None)"
      using R3(1) S1 acq(11) by (simp add: fin(2) same_events_iff)
    ultimately show ?thesis using fin(1) by blast
  qed
  show "ue = Some e \<Longrightarrow> events s e \<noteq> None \<Longrightarrow> st = EFI_SUCCESS \<and> events s' = (events s)(e := None)"
    using main by blast
  show "settles s s'"
  proof (cases "\<exists>e ev. ue = Some e \<and> events s e = Some ev")
    case True
    then show ?thesis using main by blast
  next
    case False
    then have "s' = s" using run by (auto simp: CoreCloseEvent_def split: option.splits)
    then show ?thesis using settles_refl[OF s] by simp
  qed
qed


subsection \<open>Dispatch\<close>

text \<open>What the notification functions of other components keep.\<close>

definition calls_ok :: "('f, 'e) invoker \<Rightarrow> bool" where
  "calls_ok invoke \<longleftrightarrow> (\<forall>f e env s env' s'. ready s \<and> invoke f e env s = Some (env', s') \<longrightarrow> settles s s')"

lemma call_notify_settles:
  assumes "restores R" "calls_ok invoke" "ready s" "call_notify n pf R invoke fn e env s = Some (env', s')"
  shows "settles s s'"
  using assms CoreCheckTimers_settles[OF assms(1,3)] settles_refl[OF assms(3)]
  by (auto simp: call_notify_def calls_ok_def split: notify.splits)

lemma dequeue_inv:
  assumes inv: "ev_inv s" and q: "gEventQueue s p = e # es" and e: "events s e = Some ev"
  shows "ev_inv (s\<lparr>gEventQueue := (gEventQueue s)(p := es)\<rparr>)"
    "ev_inv (s\<lparr>gEventQueue := (gEventQueue s)(p := es), events := (events s)(e \<mapsto> ev\<lparr>SignalCount := 0\<rparr>)\<rparr>)"
proof -
  note D = ev_invD[OF inv]
  let ?s = "s\<lparr>gEventQueue := (gEventQueue s)(p := es)\<rparr>"
  have "distinct (e # es)" "\<forall>x \<in> set (e # es). bit (gEventPending s) p \<and>
      (\<exists>ev. events s x = Some ev \<and> NotifyTpl ev = p \<and> notifies ev)"
    using D(1) q unfolding queues_ok_def by metis+
  then have "queues_ok ?s" using D(1) unfolding queues_ok_def by simp
  then show i: "ev_inv ?s"
    using D by (simp add: ev_inv_def pending_ok_def signals_ok_def events_ok_def timers_ok_def locks_ok_def)
  show "ev_inv (s\<lparr>gEventQueue := (gEventQueue s)(p := es), events := (events s)(e \<mapsto> ev\<lparr>SignalCount := 0\<rparr>)\<rparr>)"
    using ev_inv_upd[OF i, of e ev "ev\<lparr>SignalCount := 0\<rparr>"] e by simp
qed

text \<open>What a notification's dispatch does to the event services before its function is called.\<close>

definition taken :: "nat \<Rightarrow> nat \<Rightarrow> nat list \<Rightarrow> 'f ievent \<Rightarrow> 'f ev_state \<Rightarrow> 'f ev_state" where
  "taken p e es ev s =
     (let s = s\<lparr>gEventQueue := (gEventQueue s)(p := es)\<rparr>
      in if Type ev AND EVT_NOTIFY_SIGNAL \<noteq> 0 then s\<lparr>events := (events s)(e \<mapsto> ev\<lparr>SignalCount := 0\<rparr>)\<rparr> else s)"

lemma taken_fields [simp]:
  "locks (taken p e es ev s) = locks s" "gEfiCurrentTpl (taken p e es ev s) = gEfiCurrentTpl s"
  "gEventPending (taken p e es ev s) = gEventPending s" "gEventQueue (taken p e es ev s) = (gEventQueue s)(p := es)"
  by (simp_all add: taken_def Let_def)

lemma taken_settles:
  assumes "ready s" "30 \<le> gEfiCurrentTpl s" "gEventQueue s p = e # es" "events s e = Some ev"
  shows "settles s (taken p e es ev s)"
  using assms dequeue_inv[OF readyD(1)[OF assms(1)] assms(3,4)]
  by (intro locked_settles) (simp_all add: taken_def Let_def)

lemma dispatch_loop_step:
  assumes "dispatch_loop (Suc n) pf R invoke m p env s = Some (env', s')" "gEventQueue s p = e # es"
  obtains ev env1 s1 ev1 fn env2 s2 s3 where "events s e = Some ev"
    "CoreReleaseLock R gEventQueueLock env (taken p e es ev s) = Some (env1, s1)"
    "events s1 e = Some ev1" "NotifyFunction ev1 = Some fn"
    "call_notify m pf R invoke fn e env1 s1 = Some (env2, s2)"
    "CoreAcquireLock pf gEventQueueLock s2 = Some s3"
    "dispatch_loop n pf R invoke m p env2 s3 = Some (env', s')"
  using assms
  by (auto simp: bind_eq_Some_conv CoreReleaseEventLock_def CoreAcquireEventLock_def taken_def Let_def)

lemma dispatch_loop_settles:
  assumes R: "restores R" and I: "calls_ok invoke"
  shows "ready s \<Longrightarrow> CoreAcquireLock pf gEventQueueLock s = Some s1 \<Longrightarrow>
    dispatch_loop n pf R invoke m p env s1 = Some (env', s2) \<Longrightarrow>
    \<exists>s'. settles s s' \<and> CoreAcquireLock pf gEventQueueLock s' = Some s2 \<and> gEventQueue s2 p = []"
proof (induction n arbitrary: s s1 env)
  case (Suc n)
  show ?case
  proof (cases "gEventQueue s1 p")
    case Nil
    then have "s2 = s1" using Suc.prems(3) by simp
    then show ?thesis using Suc.prems Nil settles_refl by blast
  next
    case (Cons e es)
    note acq = acquire_ready[OF Suc.prems(1,2)]
    from Suc.prems(3) Cons obtain ev env1 t1 ev1 fn env2 t2 t3 where
      e: "events s1 e = Some ev"
      and r: "CoreReleaseLock R gEventQueueLock env (taken p e es ev s1) = Some (env1, t1)"
      and c: "call_notify m pf R invoke fn e env1 t1 = Some (env2, t2)"
      and a: "CoreAcquireLock pf gEventQueueLock t2 = Some t3"
      and l: "dispatch_loop n pf R invoke m p env2 t3 = Some (env', s2)"
      by (rule dispatch_loop_step)
    note T = taken_settles[OF acq(1) acquire_high[OF Suc.prems(1,2)] Cons e]
    note S1 = lock_section(1)[OF R Suc.prems(1,2) T r]
    note S2 = call_notify_settles[OF R I settlesD(1)[OF S1] c]
    from Suc.IH[OF settlesD(1)[OF S2] a l] show ?thesis using settles_trans[OF S1 S2] settles_trans by blast
  qed
qed simp

lemma bit_unpend: "p < 31 \<Longrightarrow> bit (w AND NOT (tpl_bit p)) j \<longleftrightarrow> bit w j \<and> j \<noteq> p"
  by (cases "j < 64") (auto simp: bit_and_iff bit_not_iff bit_tpl_bit dest: bit_imp_le_length)

lemma unpend_settles:
  assumes "ready s" "30 \<le> gEfiCurrentTpl s" "gEventQueue s p = []" "p < 31"
  shows "settles s (s\<lparr>gEventPending := gEventPending s AND NOT (tpl_bit p)\<rparr>)" (is "settles s ?s")
proof -
  note D = ev_invD[OF readyD(1)[OF assms(1)]]
  have "queues_ok ?s"
    unfolding queues_ok_def
  proof (intro allI conjI ballI)
    fix q show "distinct (gEventQueue ?s q)" using D(1) by (simp add: queues_ok_def)
    fix e assume e: "e \<in> set (gEventQueue ?s q)"
    then show "\<exists>ev. events ?s e = Some ev \<and> NotifyTpl ev = q \<and> notifies ev"
      using D(1) by (auto simp: queues_ok_def)
    have "bit (gEventPending s) q" "q \<noteq> p" using D(1) e assms(3) by (auto simp: queues_ok_def)
    then show "bit (gEventPending ?s) q" by (simp add: bit_unpend[OF assms(4)])
  qed
  moreover have "pending_ok ?s" using D(2) by (simp add: pending_ok_def bit_unpend[OF assms(4)])
  ultimately have "ev_inv ?s"
    using D by (simp add: ev_inv_def signals_ok_def events_ok_def timers_ok_def locks_ok_def)
  then show ?thesis using assms(1,2) by (intro locked_settles) simp_all
qed

text \<open>After the dispatch of a priority nothing at it or above it is pending.\<close>

lemma CoreDispatchEventNotifies_settles:
  assumes R: "restores R" and I: "calls_ok invoke" and s: "ready s" "gEfiCurrentTpl s < 31"
    and run: "CoreDispatchEventNotifies n pf R invoke p env s = Some (env', s')"
  shows "settles s s'" "p = gEfiCurrentTpl s"
proof -
  obtain s1 s2 env2 where a: "CoreAcquireLock pf gEventQueueLock s = Some s1"
    and o: "OwnerTpl (locks s1 gEventQueueLock) = p"
    and l: "dispatch_loop n pf R invoke n p env s1 = Some (env2, s2)"
    and r: "CoreReleaseLock R gEventQueueLock env2 (s2\<lparr>gEventPending := gEventPending s2 AND NOT (tpl_bit p)\<rparr>) = Some (env', s')"
    using run by (auto simp: CoreDispatchEventNotifies_def CoreAcquireEventLock_def CoreReleaseEventLock_def
        bind_eq_Some_conv assert_simps split: if_splits)
  show p: "p = gEfiCurrentTpl s" using acquire_ready(4)[OF s(1) a] o by simp
  from dispatch_loop_settles[OF R I s(1) a l] obtain t where
    t: "settles s t" "CoreAcquireLock pf gEventQueueLock t = Some s2" "gEventQueue s2 p = []" by blast
  note acq = acquire_ready(1)[OF settlesD(1)[OF t(1)] t(2)]
  have "settles s2 (s2\<lparr>gEventPending := gEventPending s2 AND NOT (tpl_bit p)\<rparr>)"
    by (rule unpend_settles[OF acq acquire_high[OF settlesD(1)[OF t(1)] t(2)] t(3)]) (use s(2) p in simp)
  from lock_section(1)[OF R settlesD(1)[OF t(1)] t(2) this r] show "settles s s'"
    by (rule settles_trans[OF t(1)])
qed

lemma may_run_mono: "may_run t s \<Longrightarrow> t \<le> t' \<Longrightarrow> may_run t' s"
  by (auto simp: may_run_def intro: order_trans)

lemma may_run_raise [simp]:
  "may_run t (s\<lparr>gEfiCurrentTpl := u\<rparr>) = may_run t s" "may_run t (s\<lparr>Interrupts := b\<rparr>) = may_run t s"
  "calm t (s\<lparr>gEfiCurrentTpl := u\<rparr>) = calm t s" "calm t (s\<lparr>Interrupts := b\<rparr>) = calm t s"
  by (simp_all add: may_run_def calm_def)

lemma keeps_locks_raise [simp]:
  "keeps_locks (s\<lparr>gEfiCurrentTpl := u\<rparr>) s' = keeps_locks s s'" "keeps_locks (s\<lparr>Interrupts := b\<rparr>) s' = keeps_locks s s'"
  "keeps_locks s (s'\<lparr>gEfiCurrentTpl := u\<rparr>) = keeps_locks s s'" "keeps_locks s (s'\<lparr>Interrupts := b\<rparr>) = keeps_locks s s'"
  by (simp_all add: keeps_locks_def)

lemma pending_iff:
  assumes "pending_ok s" "t \<le> 31"
  shows "tpl_mask t AND gEventPending s \<noteq> 0 \<longleftrightarrow> \<not> calm t s"
proof -
  have "p < 31" if "bit (gEventPending s) p" for p using assms(1) that by (auto simp: pending_ok_def tpl_consts)
  from mask_pending[OF assms(2) this] show ?thesis by (auto simp: calm_def not_le)
qed

text \<open>One pass of the loop of CoreRestoreTpl: the highest pending priority is dispatched.\<close>

definition top_pending :: "'f ev_state \<Rightarrow> nat" where
  "top_pending s = nat (HighBitSet64 (gEventPending s))"

lemma top_pendingD:
  assumes "pending_ok s" "\<not> calm t s"
  shows "t < top_pending s" "top_pending s < 31" "calm (top_pending s) s" "bit (gEventPending s) (top_pending s)"
proof -
  have nz: "gEventPending s \<noteq> 0" using assms(2) by (auto simp: calm_def)
  note H = high_bit_pending[OF nz, folded top_pending_def]
  show "bit (gEventPending s) (top_pending s)" "calm (top_pending s) s" using H by (auto simp: calm_def)
  show "top_pending s < 31" using H(1) assms(1) by (auto simp: pending_ok_def tpl_consts)
  show "t < top_pending s" using assms(2) H(2) by (auto simp: calm_def not_le intro: less_le_trans)
qed

lemma restore_loop_step:
  assumes run: "restore_loop (Suc n) pf R invoke m t env s = Some (env', s')"
    and s: "pending_ok s" "t \<le> 31" "\<not> calm t s"
  obtains b env1 s1 where
    "CoreDispatchEventNotifies m pf R invoke (top_pending s) env (s\<lparr>gEfiCurrentTpl := top_pending s, Interrupts := b\<rparr>) = Some (env1, s1)"
    "restore_loop n pf R invoke m t env1 s1 = Some (env', s')"
proof -
  let ?s = "s\<lparr>gEfiCurrentTpl := top_pending s\<rparr>"
  have lt: "top_pending s < TPL_HIGH_LEVEL" using top_pendingD(2)[OF s(1,3)] by (simp add: tpl_consts)
  obtain b where b: "CoreSetInterruptState pf True ?s = ?s\<lparr>Interrupts := b\<rparr>" using CoreSetInterruptState_eq by blast
  have "tpl_mask t AND gEventPending s \<noteq> 0" using pending_iff[OF s(1,2)] s(3) by simp
  then obtain env1 s1 where
    "CoreDispatchEventNotifies m pf R invoke (top_pending s) env (?s\<lparr>Interrupts := b\<rparr>) = Some (env1, s1)"
    "restore_loop n pf R invoke m t env1 s1 = Some (env', s')"
    using run lt b by (auto simp: bind_eq_Some_conv Let_def top_pending_def)
  then show ?thesis by (rule that)
qed

lemma restore_loop_settles:
  assumes R: "restores R" and I: "calls_ok invoke" and t: "t \<le> 31"
  shows "ev_inv s \<Longrightarrow> may_run t s \<Longrightarrow> restore_loop n pf R invoke m t env s = Some (env', s') \<Longrightarrow>
    ev_inv s' \<and> may_run t s' \<and> calm t s' \<and> keeps_locks s s'"
proof (induction n arbitrary: s env)
  case (Suc n)
  note pend = pending_iff[OF ev_invD(2)[OF Suc.prems(1)] t]
  show ?case
  proof (cases "calm t s")
    case True
    then show ?thesis using Suc.prems pend by simp
  next
    case False
    note top = top_pendingD[OF ev_invD(2)[OF Suc.prems(1)] False]
    from restore_loop_step[OF Suc.prems(3) ev_invD(2)[OF Suc.prems(1)] t False] obtain b env1 s1 where
      d: "CoreDispatchEventNotifies m pf R invoke (top_pending s) env (s\<lparr>gEfiCurrentTpl := top_pending s, Interrupts := b\<rparr>) = Some (env1, s1)"
      and l: "restore_loop n pf R invoke m t env1 s1 = Some (env', s')" .
    have "ready (s\<lparr>gEfiCurrentTpl := top_pending s, Interrupts := b\<rparr>)"
      using Suc.prems(1,2) top may_run_mono[OF Suc.prems(2), of "top_pending s"] by (simp add: ready_def)
    from CoreDispatchEventNotifies_settles(1)[OF R I this _ d] top(2)
    have S: "settles (s\<lparr>gEfiCurrentTpl := top_pending s, Interrupts := b\<rparr>) s1" by simp
    have k: "keeps_locks s s1" using settlesD(4)[OF S] by simp
    have "may_run t s1" using Suc.prems(2) keeps_locks_may_run[OF k] by simp
    from Suc.IH[OF settlesD(2)[OF S] this l] show ?thesis using keeps_locks_trans[OF k] by blast
  qed
qed simp

theorem CoreRestoreTpl_restores:
  assumes I: "calls_ok invoke"
  shows "restores (CoreRestoreTpl n pf invoke)"
proof (induction n)
  case 0
  then show ?case by (simp add: restores_def)
next
  case (Suc n)
  show ?case
    unfolding restores_def
  proof (intro allI impI)
    fix t env s env' s'
    assume run: "CoreRestoreTpl (Suc n) pf invoke t env s = Some (env', s')"
    define s0 where "s0 = (if gEfiCurrentTpl s \<ge> TPL_HIGH_LEVEL \<and> t < TPL_HIGH_LEVEL
      then s\<lparr>gEfiCurrentTpl := TPL_HIGH_LEVEL\<rparr> else s)"
    have same: "\<exists>u. s0 = s\<lparr>gEfiCurrentTpl := u\<rparr>"
      by (rule exI[of _ "gEfiCurrentTpl s0"]) (simp add: s0_def)
    then obtain u where s0: "s0 = s\<lparr>gEfiCurrentTpl := u\<rparr>" ..
    obtain s1 where t: "t \<le> 31"
      and l: "restore_loop n pf (CoreRestoreTpl n pf invoke) invoke n t env s0 = Some (env', s1)"
      and s': "s' = (if t < TPL_HIGH_LEVEL then CoreSetInterruptState pf True (s1\<lparr>gEfiCurrentTpl := t\<rparr>)
        else s1\<lparr>gEfiCurrentTpl := t\<rparr>)"
      using run by (auto simp: Let_def assert_simps bind_eq_Some_conv TPL_HIGH_LEVEL_def s0_def split: if_splits)
    obtain b where "s' = s1\<lparr>gEfiCurrentTpl := t, Interrupts := b\<rparr>"
    proof (cases "t < TPL_HIGH_LEVEL")
      case True
      then show ?thesis using s' that CoreSetInterruptState_eq[of pf True "s1\<lparr>gEfiCurrentTpl := t\<rparr>"] by auto
    next
      case False
      then show ?thesis using s' that[of "Interrupts s1"] by simp
    qed
    note s'b = this
    show "(ev_inv s \<and> may_run t s \<longrightarrow> ready s' \<and> gEfiCurrentTpl s' = t \<and> keeps_locks s s') \<and>
      (pending_ok s \<and> calm t s \<longrightarrow> env' = env \<and> (\<exists>b. s' = s\<lparr>gEfiCurrentTpl := t, Interrupts := b\<rparr>))"
    proof (intro conjI impI; elim conjE)
      assume "ev_inv s" "may_run t s"
      then have "ev_inv s0" "may_run t s0" by (simp_all add: s0)
      from restore_loop_settles[OF Suc.IH I t this l]
      have "ev_inv s1" "may_run t s1" "calm t s1" "keeps_locks s s1" by (simp_all add: s0)
      then show "ready s'" "gEfiCurrentTpl s' = t" "keeps_locks s s'" by (simp_all add: s'b ready_def)
    next
      assume p: "pending_ok s" "calm t s"
      then have "tpl_mask t AND gEventPending s0 = 0" using pending_iff[of s t] t by (simp add: s0)
      moreover obtain k where "n = Suc k" using l by (cases n) simp_all
      ultimately have "env' = env \<and> s1 = s0" using l by simp
      then show "env' = env" "\<exists>b. s' = s\<lparr>gEfiCurrentTpl := t, Interrupts := b\<rparr>"
        by (auto simp: s'b s0)
    qed
  qed
qed

end
