(* ===== verification/Event_Total.thy ===== *)
theory Event_Total
  imports Event_Run
begin

text \<open>
  The services return: the cases in which no ASSERT fires and no loop runs on, and what they
  compute there.
\<close>

unbundle bit_operations_syntax

subsection \<open>Locks and queues\<close>

definition answers :: "('f, 'e) restorer \<Rightarrow> bool" where
  "answers R \<longleftrightarrow> (\<forall>t env s. pending_ok s \<and> calm t s \<and> t \<le> gEfiCurrentTpl s \<and> t \<le> 31 \<longrightarrow> R t env s \<noteq> None)"

lemma CoreRestoreTpl_idle:
  assumes "pending_ok s" "calm t s" "t \<le> gEfiCurrentTpl s" "t \<le> 31"
  shows "CoreRestoreTpl (Suc (Suc n)) pf invoke t env s \<noteq> None"
proof -
  have "tpl_mask t AND gEventPending s = 0" using pending_iff[OF assms(1,4)] assms(2) by simp
  then show ?thesis using assms(3,4) by (simp add: Let_def assert_simps tpl_consts)
qed

lemma CoreRestoreTpl_answers: "answers (CoreRestoreTpl (Suc (Suc n)) pf invoke)"
  unfolding answers_def by (intro allI impI CoreRestoreTpl_idle) (elim conjE, assumption)+

definition free_at :: "lock_id \<Rightarrow> 'f ev_state \<Rightarrow> bool" where
  "free_at l s \<longleftrightarrow> Lock (locks s l) = EfiLockReleased \<and> gEfiCurrentTpl s \<le> Tpl (locks s l)"

lemma lock_max: "ev_inv s \<Longrightarrow> Tpl (locks s l) \<le> 31"
  by (cases l) (simp_all add: ev_inv_def locks_ok_def)

lemma acquire_total:
  assumes "ready s" "free_at l s"
  obtains s1 where "CoreAcquireLock pf l s = Some s1"
proof -
  have "CoreAcquireLock pf l s \<noteq> None"
    using assms lock_max[OF readyD(1)[OF assms(1)], of l]
    by (auto simp: CoreAcquireLock_def CoreRaiseTpl_def free_at_def assert_simps Let_def TPL_HIGH_LEVEL_def)
  then show ?thesis using that by blast
qed

lemma release_total:
  assumes A: "answers R" and s: "ready s" "free_at l s" and acq: "CoreAcquireLock pf l s = Some s1"
    and s2: "keeps_locks s1 s2" "pending_ok s2" "calm (gEfiCurrentTpl s) s2" "gEfiCurrentTpl s2 = gEfiCurrentTpl s1"
  obtains env' s' where "CoreReleaseLock R l env s2 = Some (env', s')"
proof -
  note a = acquire_ready[OF s(1) acq]
  let ?s = "s2\<lparr>locks := (locks s2)(l := (locks s2 l)\<lparr>Lock := EfiLockReleased\<rparr>)\<rparr>"
  have "pending_ok ?s" "calm (gEfiCurrentTpl s) ?s" using s2(2,3) by (simp_all add: pending_ok_def calm_def)
  moreover have "gEfiCurrentTpl s \<le> gEfiCurrentTpl ?s" "gEfiCurrentTpl s \<le> 31"
    using s(2) s2(4) a(2) lock_max[OF readyD(1)[OF s(1)], of l] by (auto simp: free_at_def)
  ultimately have "R (gEfiCurrentTpl s) env ?s \<noteq> None" using A unfolding answers_def by blast
  moreover have "OwnerTpl (locks s2 l) = gEfiCurrentTpl s" "Lock (locks s2 l) = EfiLockAcquired"
    using s2(1) a(3,4) by (simp_all add: keeps_locks_def)
  ultimately have "CoreReleaseLock R l env s2 \<noteq> None"
    unfolding CoreReleaseLock_def by (simp add: assert_simps)
  then show ?thesis using that by auto
qed

lemma free_at_settles: "settles s s' \<Longrightarrow> free_at l s' = free_at l s"
  by (auto simp: free_at_def settles_def keeps_locks_def)

lemma CoreNotifyEvent_total:
  assumes "Lock (locks s gEventQueueLock) = EfiLockAcquired" "events s e \<noteq> None"
  shows "CoreNotifyEvent e s = Some (queue_event e s)"
  using assms CoreNotifyEvent_eq[of e s] by (auto simp: CoreNotifyEvent_def assert_simps Let_def)

lemma notify_group_total:
  assumes "Lock (locks s gEventQueueLock) = EfiLockAcquired" "\<And>e. e \<in> set es \<Longrightarrow> events s e \<noteq> None"
  shows "notify_group g es s \<noteq> None"
  using assms
proof (induction es arbitrary: s)
  case (Cons e es)
  obtain ev where "events s e = Some ev" using Cons.prems(2)[of e] by auto
  moreover have "notify_group g es (queue_event e s) \<noteq> None" "notify_group g es s \<noteq> None"
    using Cons.prems by (simp_all only: Cons.IH queue_event_fields list.set insert_iff simp_thms)
  ultimately show ?case using CoreNotifyEvent_total[OF Cons.prems(1), of e] by simp
qed simp

lemma CoreNotifySignalList_total:
  assumes R: "restores R" "answers R" and s: "ready s" "free_at gEventQueueLock s"
    and c: "calm (gEfiCurrentTpl s) (fold queue_event (in_group g s) s)"
  obtains env' s' where "CoreNotifySignalList pf R g env s = Some (env', s')"
proof -
  obtain s1 where a: "CoreAcquireLock pf gEventQueueLock s = Some s1" using acquire_total[OF s] .
  note acq = acquire_ready[OF s(1) a]
  have "notify_group g (gEventSignalQueue s1) s1 \<noteq> None"
    using signal_queue_notifies[OF readyD(1)[OF acq(1)]] by (intro notify_group_total[OF acq(3)]) auto
  then obtain s2 where n: "notify_group g (gEventSignalQueue s1) s1 = Some s2" by auto
  have s2: "s2 = fold queue_event (in_group g s1) s1" using notify_group_eq[OF n] by (simp add: in_group_def)
  have inv: "ev_inv s2"
    unfolding s2 using readyD(1)[OF acq(1)] signal_queue_notifies[OF readyD(1)[OF acq(1)]]
    by (intro queue_events_inv) (auto simp: in_group_def)
  have "in_group g s1 = in_group g s" by (simp add: in_group_def acq)
  then have "same_events (fold queue_event (in_group g s) s) s2"
    unfolding s2 by (simp add: queue_events_same[OF acquire_same[OF s(1) a]])
  then have calm: "calm (gEfiCurrentTpl s) s2" using c same_events_calm by blast
  obtain env' s' where "CoreReleaseLock R gEventQueueLock env s2 = Some (env', s')"
  proof (rule release_total[OF R(2) s a])
    show "keeps_locks s1 s2" by (simp add: s2 keeps_locks_def)
  qed (use inv calm in \<open>simp_all add: s2 ev_inv_def\<close>)
  then show ?thesis using that a n
    by (simp add: CoreNotifySignalList_def CoreAcquireEventLock_def CoreReleaseEventLock_def)
qed

text \<open>A signal that leaves nothing pending above the priority does signalled and returns.\<close>

lemma CoreSignalEvent_total:
  assumes R: "restores R" "answers R" and s: "ready s" "free_at gEventQueueLock s"
    and e: "events s e = Some ev" and c: "calm (gEfiCurrentTpl s) (signalled e s)"
  obtains s' where "CoreSignalEvent pf R (Some e) env s = Some (EFI_SUCCESS, env, s')"
    "same_events (signalled e s) s'" "settles s s'"
proof -
  obtain s1 where a: "CoreAcquireLock pf gEventQueueLock s = Some s1" using acquire_total[OF s] .
  note acq = acquire_ready[OF s(1) a]
  have e1: "events s1 e = Some ev" using e acq by simp
  note same1 = acquire_same[OF s(1) a]
  let ?c = "s1\<lparr>events := (events s1)(e \<mapsto> ev\<lparr>SignalCount := 1\<rparr>)\<rparr>"
  have "CoreSignalEvent pf R (Some e) env s \<noteq> None"
  proof (cases "SignalCount ev = 0 \<and> Type ev AND EVT_NOTIFY_SIGNAL \<noteq> 0 \<and> EventGroup ev \<noteq> None")
    case False
    obtain env' s' where r: "CoreReleaseLock R gEventQueueLock env (signalled e s1) = Some (env', s')"
    proof (rule release_total[OF R(2) s a])
      show "keeps_locks s1 (signalled e s1)" by (rule keeps_locks_same) simp
      show "pending_ok (signalled e s1)" by (rule ev_invD(2)[OF signalled_inv[OF readyD(1)[OF acq(1)] e1]])
      show "calm (gEfiCurrentTpl s) (signalled e s1)" using c same_events_calm[OF signalled_same[OF same1]] by blast
    qed simp_all
    have "CoreNotifyEvent e ?c = Some (queue_event e ?c)" by (rule CoreNotifyEvent_total) (simp_all add: acq(3))
    then show ?thesis
      using e a r False e1
      by (auto simp: CoreSignalEvent_def CoreAcquireEventLock_def CoreReleaseEventLock_def signalled_def Let_def
          split: if_splits)
  next
    case True
    then obtain g where g: "EventGroup ev = Some g" by auto
    have inv: "ev_inv ?c" by (rule ev_inv_upd[OF readyD(1)[OF acq(1)] e1]) simp_all
    have calm: "calm (gEfiCurrentTpl s) ?c" using readyD(3)[OF s(1)] by (simp add: calm_def acq)
    have k: "keeps_locks s1 ?c" by (rule keeps_locks_same) simp
    obtain env2 s2 where r2: "CoreReleaseLock R gEventQueueLock env ?c = Some (env2, s2)"
      using release_total[OF R(2) s a k _ calm] inv by (auto simp: ev_inv_def)
    note S2 = release_settles[OF R(1) s(1) a inv k r2]
    have c2: "env2 = env" "same_events ?c s2" using S2(2)[OF calm] by auto
    let ?d = "s\<lparr>events := (events s)(e \<mapsto> ev\<lparr>SignalCount := 1\<rparr>)\<rparr>"
    have sg: "signalled e s = fold queue_event (in_group g ?d) ?d"
      using e True g by (simp add: signalled_def Let_def)
    have "same_events ?d ?c" using same1 by (simp add: same_events_iff)
    then have q0: "same_events ?d s2" using c2(2) by (rule same_events_trans)
    have ig: "in_group g s2 = in_group g ?d" using q0 by (simp add: in_group_def same_events_iff)
    have q: "same_events (signalled e s) (fold queue_event (in_group g s2) s2)"
      unfolding sg ig by (rule queue_events_same[OF q0])
    have c3: "calm (gEfiCurrentTpl s2) (fold queue_event (in_group g s2) s2)"
      using c same_events_calm[OF q] settlesD(3)[OF S2(1)] by simp
    have s2: "ready s2" "free_at gEventQueueLock s2"
      using settlesD(1)[OF S2(1)] free_at_settles[OF S2(1)] s(2) by simp_all
    obtain env3 s3 where r3: "CoreNotifySignalList pf R g env2 s2 = Some (env3, s3)"
      using CoreNotifySignalList_total[OF R s2 c3] .
    note S3 = CoreNotifySignalList_settles(1)[OF R(1) s2(1) r3]
    have s3: "ready s3" "free_at gEventQueueLock s3"
      using settlesD(1)[OF S3] free_at_settles[OF S3] s2(2) by simp_all
    obtain s4 where a4: "CoreAcquireLock pf gEventQueueLock s3 = Some s4" using acquire_total[OF s3] .
    note acq4 = acquire_ready[OF s3(1) a4]
    have "calm (gEfiCurrentTpl s3) s4" using readyD(3)[OF s3(1)] by (simp add: calm_def acq4)
    then obtain env5 s5 where r5: "CoreReleaseLock R gEventQueueLock env3 s4 = Some (env5, s5)"
      using release_total[OF R(2) s3 a4 keeps_locks_refl ev_invD(2)[OF readyD(1)[OF acq4(1)]]] by auto
    have "events s2 e = Some (ev\<lparr>SignalCount := 1\<rparr>)" using c2(2) by (simp add: same_events_iff)
    then show ?thesis
      using e a e1 True g r2 r3 a4 r5
      by (simp add: CoreSignalEvent_def CoreAcquireEventLock_def CoreReleaseEventLock_def Let_def)
  qed
  then obtain st env' s' where run: "CoreSignalEvent pf R (Some e) env s = Some (st, env', s')" by auto
  from CoreSignalEvent_settles[OF R(1) s(1) run] e c
  have "st = EFI_SUCCESS" "env' = env" "same_events (signalled e s) s'" "settles s s'" by auto
  then show ?thesis using run that by blast
qed

lemma CoreCurrentSystemTime_total:
  assumes R: "restores R" "answers R" and s: "ready s" "free_at mEfiSystemTimeLock s"
  obtains s' where "CoreCurrentSystemTime pf R env s = Some (mEfiSystemTime s, env, s')" "settles s s'" "same_events s s'"
proof -
  obtain s1 where a: "CoreAcquireLock pf mEfiSystemTimeLock s = Some s1" using acquire_total[OF s] .
  note acq = acquire_ready[OF s(1) a]
  obtain env' s' where r: "CoreReleaseLock R mEfiSystemTimeLock env s1 = Some (env', s')"
    using release_total[OF R(2) s a keeps_locks_refl ev_invD(2)[OF readyD(1)[OF acq(1)]]]
      ready_calm_same[OF s(1) acquire_same[OF s(1) a]] by auto
  then have run: "CoreCurrentSystemTime pf R env s = Some (mEfiSystemTime s1, env', s')"
    using a by (simp add: CoreCurrentSystemTime_def)
  note S = CoreCurrentSystemTime_settles[OF R(1) s(1) run]
  then show ?thesis using that run by simp
qed

lemma insert_timer_total: "(\<And>x. x \<in> set xs \<Longrightarrow> evs x \<noteq> None) \<Longrightarrow> insert_timer evs e t xs \<noteq> None"
proof (induction xs)
  case (Cons x xs)
  obtain ev where "evs x = Some ev" using Cons.prems[of x] by auto
  then show ?case using Cons by auto
qed simp

lemma CoreInsertEventTimer_total:
  assumes "ev_inv s" "Lock (locks s mEfiTimerLock) = EfiLockAcquired" "events s e \<noteq> None"
  shows "CoreInsertEventTimer e s \<noteq> None"
proof -
  obtain ev where e: "events s e = Some ev" using assms(3) by auto
  have "insert_timer (events s) e (TriggerTime ev) (mEfiTimerList s) \<noteq> None"
    using ev_invD(5)[OF assms(1)] by (intro insert_timer_total) (auto simp: timers_ok_def)
  then show ?thesis using assms(2) e by (auto simp: CoreInsertEventTimer_def assert_simps)
qed

end
