(* ===== verification/Event_Order.thy ===== *)
theory Event_Order
  imports Event_Total
begin

text \<open>
  The order of notifications: when the notification functions leave the event services alone,
  CoreRestoreTpl calls those queued above the new priority, the higher priorities first and each
  queue from its front.
\<close>

unbundle bit_operations_syntax

definition quiet :: "('f, 'e) invoker \<Rightarrow> ('f \<Rightarrow> nat \<Rightarrow> 'e \<Rightarrow> 'e) \<Rightarrow> bool" where
  "quiet invoke eff \<longleftrightarrow> (\<forall>f e env s. invoke f e env s = Some (eff f e env, s))"

lemma quiet_calls_ok: "quiet invoke eff \<Longrightarrow> calls_ok invoke"
  by (auto simp: quiet_def calls_ok_def settles_refl)

text \<open>The functions of the events, which a dispatch never changes.\<close>

definition function_of :: "'f ev_state \<Rightarrow> nat \<Rightarrow> 'f notify option" where
  "function_of s e = (case events s e of None \<Rightarrow> None | Some ev \<Rightarrow> NotifyFunction ev)"

definition external :: "nat \<Rightarrow> 'f ev_state \<Rightarrow> bool" where
  "external t s \<longleftrightarrow> (\<forall>p > t. \<forall>e \<in> set (gEventQueue s p). \<exists>f. function_of s e = Some (External f))"

definition call :: "('f \<Rightarrow> nat \<Rightarrow> 'e \<Rightarrow> 'e) \<Rightarrow> (nat \<Rightarrow> 'f notify option) \<Rightarrow> nat \<Rightarrow> 'e \<Rightarrow> 'e" where
  "call eff fns e env = (case fns e of Some (External f) \<Rightarrow> eff f e env | _ \<Rightarrow> env)"

lemma function_of_same: "same_events s s' \<Longrightarrow> function_of s' = function_of s"
  by (rule ext) (simp add: function_of_def same_events_iff)

lemma function_of_taken:
  "events s e = Some ev \<Longrightarrow> function_of (taken p e es ev s) = function_of s"
  by (rule ext) (simp add: function_of_def taken_def Let_def)

lemma dispatch_loop_quiet:
  assumes R: "restores R" "answers R" and I: "quiet invoke eff"
  shows "ready s \<Longrightarrow> free_at gEventQueueLock s \<Longrightarrow> CoreAcquireLock pf gEventQueueLock s = Some s1 \<Longrightarrow>
    gEventQueue s p = es \<Longrightarrow> \<forall>e \<in> set es. \<exists>f. function_of s e = Some (External f) \<Longrightarrow> length es < n \<Longrightarrow>
    \<exists>s2 s'. dispatch_loop n pf R invoke m p env s1 = Some (fold (call eff (function_of s)) es env, s2) \<and>
      settles s s' \<and> CoreAcquireLock pf gEventQueueLock s' = Some s2 \<and>
      gEventQueue s' = (gEventQueue s)(p := []) \<and> gEventPending s' = gEventPending s \<and> function_of s' = function_of s"
proof (induction es arbitrary: s s1 n env)
  case Nil
  note acq = acquire_ready[OF Nil.prems(1,3)]
  obtain k where n: "n = Suc k" using Nil.prems(6) by (cases n) auto
  have "gEventQueue s1 p = []" using acq(8) Nil.prems(4) by simp
  then have "dispatch_loop n pf R invoke m p env s1 = Some (env, s1)" by (simp add: n)
  moreover have "gEventQueue s = (gEventQueue s)(p := [])" using Nil.prems(4) by auto
  ultimately show ?case using Nil.prems(3) settles_refl[OF Nil.prems(1)] by auto
next
  case (Cons e es)
  note s = Cons.prems(1,2) and a = Cons.prems(3)
  note acq = acquire_ready[OF s(1) a]
  have q: "gEventQueue s1 p = e # es" using acq(8) Cons.prems(4) by simp
  obtain f ev where ev: "events s e = Some ev" "NotifyFunction ev = Some (External f)" "function_of s e = Some (External f)"
    using Cons.prems(5) by (auto simp: function_of_def split: option.splits)
  have e1: "events s1 e = Some ev" using ev(1) acq(11) by simp
  let ?t = "taken p e es ev s1"
  note T = taken_settles[OF acq(1) acquire_high[OF s(1) a] q e1]
  have calm: "calm (gEfiCurrentTpl s) ?t" using readyD(3)[OF s(1)] acq(9) by (simp add: calm_def)
  obtain env2 s2 where r: "CoreReleaseLock R gEventQueueLock env ?t = Some (env2, s2)"
    using release_total[OF R(2) s a settlesD(4)[OF T] ev_invD(2)[OF settlesD(2)[OF T]] calm settlesD(3)[OF T]] .
  note sec = lock_section[OF R(1) s(1) a T r]
  have q2: "env2 = env" "same_events ?t s2" using sec(2)[OF calm] by auto
  have fs: "function_of s2 = function_of s"
    using function_of_same[OF q2(2)] function_of_taken[OF e1] function_of_same[OF acquire_same[OF s(1) a]] by simp
  have s2: "ready s2" "free_at gEventQueueLock s2"
    using settlesD(1)[OF sec(1)] free_at_settles[OF sec(1)] s(2) by simp_all
  obtain s3 where a3: "CoreAcquireLock pf gEventQueueLock s2 = Some s3" using acquire_total[OF s2] .
  have q3: "gEventQueue s2 p = es" "gEventQueue s2 = (gEventQueue s)(p := es)" "gEventPending s2 = gEventPending s"
    using q2(2) acq(8,9) by (simp_all add: same_events_iff)
  obtain k where n: "n = Suc k" "length es < k" using Cons.prems(6) by (cases n) auto
  have ex: "\<forall>e \<in> set es. \<exists>f. function_of s2 e = Some (External f)" using Cons.prems(5) fs by simp
  from Cons.IH[OF s2 a3 q3(1) ex n(2)] obtain s4 s' where
    IH: "dispatch_loop k pf R invoke m p (eff f e env) s3 = Some (fold (call eff (function_of s2)) es (eff f e env), s4)"
      "settles s2 s'" "CoreAcquireLock pf gEventQueueLock s' = Some s4" "gEventQueue s' = (gEventQueue s2)(p := [])"
      "gEventPending s' = gEventPending s2" "function_of s' = function_of s2" by blast
  obtain ev2 where ev2: "events s2 e = Some ev2" "NotifyFunction ev2 = Some (External f)"
    using ev(3) fs by (auto simp: function_of_def fun_eq_iff split: option.splits dest!: spec[of _ e])
  have "dispatch_loop n pf R invoke m p env s1 = Some (fold (call eff (function_of s)) (e # es) env, s4)"
    using q e1 r ev2 q2(1) a3 IH(1) I fs ev(3)
    by (simp add: n CoreReleaseEventLock_def CoreAcquireEventLock_def taken_def Let_def call_notify_def quiet_def call_def)
  moreover have "settles s s'" by (rule settles_trans[OF sec(1) IH(2)])
  moreover have "gEventQueue s' = (gEventQueue s)(p := [])" "gEventPending s' = gEventPending s" "function_of s' = function_of s"
    using IH(4-6) q3 fs by simp_all
  ultimately show ?case using IH(3) by blast
qed

lemma CoreDispatchEventNotifies_quiet:
  assumes R: "restores R" "answers R" and I: "quiet invoke eff"
    and s: "ready s" "free_at gEventQueueLock s" "gEfiCurrentTpl s = p" "p < 31"
    and q: "\<forall>e \<in> set (gEventQueue s p). \<exists>f. function_of s e = Some (External f)" "length (gEventQueue s p) < m"
  obtains s' where "CoreDispatchEventNotifies m pf R invoke p env s =
      Some (fold (call eff (function_of s)) (gEventQueue s p) env, s')" "settles s s'"
    "gEventQueue s' = (gEventQueue s)(p := [])" "gEventPending s' = gEventPending s AND NOT (tpl_bit p)"
    "function_of s' = function_of s"
proof -
  obtain s1 where a: "CoreAcquireLock pf gEventQueueLock s = Some s1" using acquire_total[OF s(1,2)] .
  from dispatch_loop_quiet[OF R I s(1,2) a refl q] obtain s2 t where
    d: "dispatch_loop m pf R invoke m p env s1 = Some (fold (call eff (function_of s)) (gEventQueue s p) env, s2)"
    and t: "settles s t" "CoreAcquireLock pf gEventQueueLock t = Some s2" "gEventQueue t = (gEventQueue s)(p := [])"
      "gEventPending t = gEventPending s" "function_of t = function_of s" by blast
  have rt: "ready t" "free_at gEventQueueLock t" "gEfiCurrentTpl t = p"
    using settlesD(1,3)[OF t(1)] free_at_settles[OF t(1)] s(2,3) by simp_all
  note acq = acquire_ready[OF rt(1) t(2)]
  let ?s = "s2\<lparr>gEventPending := gEventPending s2 AND NOT (tpl_bit p)\<rparr>"
  have "gEventQueue s2 p = []" using acq(8) t(3) by simp
  note U = unpend_settles[OF acq(1) acquire_high[OF rt(1) t(2)] this s(4)]
  have calm: "calm (gEfiCurrentTpl t) ?s"
    using readyD(3)[OF rt(1)] acq(9) s(4) by (simp add: calm_def bit_unpend)
  obtain env' s' where r: "CoreReleaseLock R gEventQueueLock (fold (call eff (function_of s)) (gEventQueue s p) env) ?s = Some (env', s')"
    using release_total[OF R(2) rt(1,2) t(2) settlesD(4)[OF U] ev_invD(2)[OF settlesD(2)[OF U]] calm settlesD(3)[OF U]] .
  note sec = lock_section[OF R(1) rt(1) t(2) U r]
  have e: "env' = fold (call eff (function_of s)) (gEventQueue s p) env" "same_events ?s s'" using sec(2)[OF calm] by simp_all
  have "OwnerTpl (locks s1 gEventQueueLock) = p" using acquire_ready(4)[OF s(1) a] s(3) by simp
  then have "CoreDispatchEventNotifies m pf R invoke p env s = Some (fold (call eff (function_of s)) (gEventQueue s p) env, s')"
    using a d r e(1) by (simp add: CoreDispatchEventNotifies_def CoreAcquireEventLock_def CoreReleaseEventLock_def assert_simps)
  moreover have "function_of s' = function_of s"
  proof -
    have "function_of s' = function_of ?s" by (rule function_of_same[OF e(2)])
    also have "\<dots> = function_of s2" by (rule ext) (simp add: function_of_def)
    also have "\<dots> = function_of t" by (rule function_of_same[OF acquire_same[OF rt(1) t(2)]])
    finally show ?thesis using t(5) by simp
  qed
  moreover have "gEventQueue s' = (gEventQueue s)(p := [])" "gEventPending s' = gEventPending s AND NOT (tpl_bit p)"
    using e(2) acq(8,9) t(3,4) by (simp_all add: same_events_iff)
  ultimately show ?thesis using that settles_trans[OF t(1) sec(1)] by blast
qed

text \<open>The queued notifications above a priority in the order of their calls.\<close>

definition order_above :: "nat \<Rightarrow> (nat \<Rightarrow> nat list) \<Rightarrow> nat list" where
  "order_above t Q = concat (map Q (rev [Suc t..<31]))"

lemma order_above_empty: "(\<And>p. t < p \<Longrightarrow> Q p = []) \<Longrightarrow> order_above t Q = []"
  by (auto simp: order_above_def)

lemma order_above_pop:
  assumes "t < p" "p < 31" "\<And>q. p < q \<Longrightarrow> Q q = []"
  shows "order_above t Q = Q p @ order_above t (Q(p := []))"
proof -
  have "[Suc t..<31] = [Suc t..<p] @ p # [Suc p..<31]"
    using assms(1,2) upt_add_eq_append[of "Suc t" p "31 - p"] upt_conv_Cons[OF assms(2)] by simp
  then have "rev [Suc t..<31] = rev [Suc p..<31] @ p # rev [Suc t..<p]" by simp
  then have split: "order_above t F = concat (map F (rev [Suc p..<31])) @ F p @ concat (map F (rev [Suc t..<p]))" for F
    by (simp only: order_above_def map_append concat_append list.map concat.simps)
  have "concat (map Q (rev [Suc p..<31])) = []" "concat (map (Q(p := [])) (rev [Suc p..<31])) = []"
    using assms(3) by (auto simp: Suc_le_eq)
  moreover have "map (Q(p := [])) (rev [Suc t..<p]) = map Q (rev [Suc t..<p])" by auto
  ultimately show ?thesis unfolding split by (simp only: append_Nil fun_upd_same)
qed

lemma free_at_raise:
  assumes "ev_inv s" "Lock (locks s gEventQueueLock) = EfiLockReleased" "p \<le> 31"
  shows "free_at gEventQueueLock (s\<lparr>gEfiCurrentTpl := p, Interrupts := b\<rparr>)"
  using assms by (simp add: free_at_def ev_inv_def locks_ok_def)

lemma restore_loop_quiet:
  assumes R: "restores R" "answers R" and I: "quiet invoke eff" and t: "t \<le> 31"
  shows "ev_inv s \<Longrightarrow> may_run t s \<Longrightarrow> Lock (locks s gEventQueueLock) = EfiLockReleased \<Longrightarrow> external t s \<Longrightarrow>
    \<forall>p. length (gEventQueue s p) < m \<Longrightarrow> \<forall>p. bit (gEventPending s) p \<longrightarrow> p < t + n \<Longrightarrow> 0 < n \<Longrightarrow>
    \<exists>s'. restore_loop n pf R invoke m t env s = Some (fold (call eff (function_of s)) (order_above t (gEventQueue s)) env, s') \<and>
      (\<forall>p. gEventQueue s' p = (if t < p then [] else gEventQueue s p))"
proof (induction n arbitrary: s env)
  case (Suc n)
  note pend = pending_iff[OF ev_invD(2)[OF Suc.prems(1)] t]
  have qb: "gEventQueue s p = []" if "\<not> bit (gEventPending s) p" for p
    using ev_invD(1)[OF Suc.prems(1)] that by (auto simp: queues_ok_def) (metis list.set_intros(1) neq_Nil_conv)
  show ?case
  proof (cases "calm t s")
    case True
    then have e: "gEventQueue s p = []" if "t < p" for p using qb[of p] True that by (auto simp: calm_def not_less[symmetric])
    then have "order_above t (gEventQueue s) = []" by (rule order_above_empty)
    then show ?thesis using True pend e by auto
  next
    case False
    let ?p = "top_pending s"
    note top = top_pendingD[OF ev_invD(2)[OF Suc.prems(1)] False]
    have lt: "?p < TPL_HIGH_LEVEL" using top(2) by (simp add: tpl_consts)
    obtain b where b: "CoreSetInterruptState pf True (s\<lparr>gEfiCurrentTpl := ?p\<rparr>) = s\<lparr>gEfiCurrentTpl := ?p, Interrupts := b\<rparr>"
      using CoreSetInterruptState_eq by blast
    let ?s = "s\<lparr>gEfiCurrentTpl := ?p, Interrupts := b\<rparr>"
    have rs: "ready ?s"
      using Suc.prems(1,2) top may_run_mono[OF Suc.prems(2), of ?p] by (simp add: ready_def)
    have fo: "function_of ?s = function_of s" by (rule ext) (simp add: function_of_def)
    have f: "free_at gEventQueueLock ?s" using free_at_raise[OF Suc.prems(1,3)] top(2) by simp
    have q: "\<forall>e \<in> set (gEventQueue ?s ?p). \<exists>f. function_of ?s e = Some (External f)" "length (gEventQueue ?s ?p) < m"
      using Suc.prems(4,5) top(1) by (simp_all add: external_def fo)
    obtain s1 where d: "CoreDispatchEventNotifies m pf R invoke ?p env ?s =
        Some (fold (call eff (function_of s)) (gEventQueue s ?p) env, s1)"
      and s1: "settles ?s s1" "gEventQueue s1 = (gEventQueue s)(?p := [])"
        "gEventPending s1 = gEventPending s AND NOT (tpl_bit ?p)" "function_of s1 = function_of s"
      using CoreDispatchEventNotifies_quiet[OF R I rs f _ top(2) q] fo by auto
    have bits: "bit (gEventPending s1) p \<longleftrightarrow> bit (gEventPending s) p \<and> p \<noteq> ?p" for p
      using top(2) by (simp add: s1(3) bit_unpend)
    have k: "keeps_locks s s1" using settlesD(4)[OF s1(1)] by simp
    have "may_run t s1" "Lock (locks s1 gEventQueueLock) = EfiLockReleased"
      using Suc.prems(2,3) keeps_locks_may_run[OF k] k by (simp_all add: keeps_locks_def)
    moreover have "external t s1" using Suc.prems(4) by (auto simp: external_def s1(2,4))
    moreover have "\<forall>p. length (gEventQueue s1 p) < m" using Suc.prems(5) by (auto simp: s1(2))
    moreover have "\<forall>p. bit (gEventPending s1) p \<longrightarrow> p < t + n"
    proof (intro allI impI)
      fix p assume "bit (gEventPending s1) p"
      then have "p < ?p" using bits top(3) by (auto simp: calm_def order_less_le)
      then show "p < t + n" using Suc.prems(6) top(4) by fastforce
    qed
    moreover have "0 < n" using Suc.prems(6) top(1,4) by fastforce
    ultimately obtain s' where
      l: "restore_loop n pf R invoke m t (fold (call eff (function_of s)) (gEventQueue s ?p) env) s1 =
        Some (fold (call eff (function_of s1)) (order_above t (gEventQueue s1)) (fold (call eff (function_of s)) (gEventQueue s ?p) env), s')"
      and s': "\<forall>p. gEventQueue s' p = (if t < p then [] else gEventQueue s1 p)"
      using Suc.IH[OF settlesD(2)[OF s1(1)]] by blast
    have "order_above t (gEventQueue s) = gEventQueue s ?p @ order_above t (gEventQueue s1)"
      unfolding s1(2) using top(1,2,3) qb by (intro order_above_pop) (auto simp: calm_def not_le[symmetric])
    moreover have "tpl_mask t AND gEventPending s \<noteq> 0" using pend False by simp
    ultimately show ?thesis
      using lt b d l s' s1(2,4) top(1) by (simp add: Let_def top_pending_def)
  qed
qed simp

lemma CoreRestoreTpl_quiet:
  assumes I: "quiet invoke eff" and s: "ev_inv s" "may_run t s" "Lock (locks s gEventQueueLock) = EfiLockReleased"
    and t: "t \<le> gEfiCurrentTpl s" "t \<le> 31" and ext: "external t s"
    and n: "31 \<le> n" "\<forall>p. length (gEventQueue s p) < n"
  obtains s' where "CoreRestoreTpl (Suc n) pf invoke t env s =
      Some (fold (call eff (function_of s)) (order_above t (gEventQueue s)) env, s')"
    "gEfiCurrentTpl s' = t" "ready s'" "\<forall>p. gEventQueue s' p = (if t < p then [] else gEventQueue s p)"
proof -
  let ?R = "CoreRestoreTpl n pf invoke"
  have c: "calls_ok invoke" by (rule quiet_calls_ok[OF I])
  have k: "Suc (Suc (n - 2)) = n" using n(1) by simp
  have R: "restores ?R" "answers ?R"
    using CoreRestoreTpl_restores[OF c] CoreRestoreTpl_answers[of "n - 2", unfolded k] by blast+
  define s0 where "s0 = (if gEfiCurrentTpl s \<ge> TPL_HIGH_LEVEL \<and> t < TPL_HIGH_LEVEL
    then s\<lparr>gEfiCurrentTpl := TPL_HIGH_LEVEL\<rparr> else s)"
  have s0: "ev_inv s0" "may_run t s0" "Lock (locks s0 gEventQueueLock) = EfiLockReleased" "external t s0"
    "gEventQueue s0 = gEventQueue s" "gEventPending s0 = gEventPending s" "function_of s0 = function_of s"
    using s ext by (simp_all add: s0_def external_def function_of_def fun_eq_iff)
  have "\<forall>p. bit (gEventPending s0) p \<longrightarrow> p < t + n" "0 < n"
    using ev_invD(2)[OF s0(1)] n(1) by (auto simp: pending_ok_def tpl_consts)
  note B = this
  have "\<forall>p. length (gEventQueue s0 p) < n" using n(2) s0(5) by simp
  from restore_loop_quiet[OF R I t(2) s0(1-4) this B, of pf env] s0(5,7) obtain s1 where
    l: "restore_loop n pf ?R invoke n t env s0 = Some (fold (call eff (function_of s)) (order_above t (gEventQueue s)) env, s1)"
    and q: "\<forall>p. gEventQueue s1 p = (if t < p then [] else gEventQueue s p)" by auto
  let ?s = "if t < TPL_HIGH_LEVEL then CoreSetInterruptState pf True (s1\<lparr>gEfiCurrentTpl := t\<rparr>) else s1\<lparr>gEfiCurrentTpl := t\<rparr>"
  have run: "CoreRestoreTpl (Suc n) pf invoke t env s = Some (fold (call eff (function_of s)) (order_above t (gEventQueue s)) env, ?s)"
    using l t by (simp add: Let_def assert_simps TPL_HIGH_LEVEL_def s0_def del: restore_loop.simps)
  note D = restoresD(1,2)[OF CoreRestoreTpl_restores[OF c] run s(1,2)]
  have "gEventQueue ?s = gEventQueue s1"
    using CoreSetInterruptState_eq[of pf True "s1\<lparr>gEfiCurrentTpl := t\<rparr>"] by auto
  then show ?thesis using that[OF run] D q by simp
qed

end
