(* ===== verification/Event_Timer.thy ===== *)
theory Event_Timer
  imports Event_Total "HOL-Library.Multiset"
begin

text \<open>
  CoreCheckTimers: when no trigger time overflows it returns, with every timer that was due
  signalled and every periodic one armed for a time to come; a periodic timer whose next trigger
  time overflows keeps it from returning.
\<close>

unbundle bit_operations_syntax

subsection \<open>A round returns\<close>

lemma CoreSignalEvent_high_total:
  assumes R: "restores R" "answers R" and s: "ready s" "30 \<le> gEfiCurrentTpl s" "free_at gEventQueueLock s"
  obtains st s' where "CoreSignalEvent pf R ue env s = Some (st, env, s')"
proof (cases "\<exists>e ev. ue = Some e \<and> events s e = Some ev")
  case True
  then obtain e ev where e: "ue = Some e" "events s e = Some ev" by blast
  have "calm (gEfiCurrentTpl s) (signalled e s)"
    by (rule calm_high[OF signalled_inv[OF readyD(1)[OF s(1)] e(2)] s(2)])
  from CoreSignalEvent_total[OF R s(1,3) e(2) this] e(1) that show ?thesis by blast
next
  case False
  then have "CoreSignalEvent pf R ue env s = Some (EFI_INVALID_PARAMETER, env, s)"
    by (auto simp: CoreSignalEvent_def split: option.split)
  then show ?thesis by (rule that)
qed

lemma settles_lock: "settles s s' \<Longrightarrow> Lock (locks s' l) = Lock (locks s l)"
  by (simp add: settles_def keeps_locks_def)

text \<open>The timer lock is held by CoreCheckTimers and the event lock is free.\<close>

definition in_check :: "'f ev_state \<Rightarrow> bool" where
  "in_check s \<longleftrightarrow> ready s \<and> 30 \<le> gEfiCurrentTpl s \<and> free_at gEventQueueLock s \<and>
     Lock (locks s mEfiTimerLock) = EfiLockAcquired"

lemma in_check_settles: "in_check s \<Longrightarrow> settles s s' \<Longrightarrow> in_check s'"
  using free_at_settles[of s s'] settles_lock[of s s'] by (simp add: in_check_def settles_def)

lemma in_checkD: "in_check s \<Longrightarrow> ready s" "in_check s \<Longrightarrow> 30 \<le> gEfiCurrentTpl s"
  "in_check s \<Longrightarrow> free_at gEventQueueLock s" "in_check s \<Longrightarrow> ev_inv s"
  by (simp_all add: in_check_def ready_def)

lemma check_timers_round_total:
  assumes R: "restores R" "answers R" and s: "in_check s"
  obtains again s' where "check_timers_round pf R now env s = Some (again, env, s')"
proof (cases "mEfiTimerList s")
  case Nil
  then show ?thesis using that[of False s] by (simp add: check_timers_round_def)
next
  case (Cons e es)
  note H = timers_head[OF in_checkD(4)[OF s] Cons]
  then obtain ev where ev: "events s e = Some ev" "Type ev AND EVT_TIMER \<noteq> 0" by blast
  show ?thesis
  proof (cases "TriggerTime ev > now")
    case True
    then show ?thesis using that Cons ev by (simp add: check_timers_round_def)
  next
    case False
    let ?s = "s\<lparr>mEfiTimerList := es\<rparr>"
    have "settles s ?s" by (rule locked_settles[OF in_checkD(1,2)[OF s] H(1)]) simp_all
    then have c0: "in_check ?s" by (rule in_check_settles[OF s])
    obtain st s1 where g: "CoreSignalEvent pf R (Some e) env ?s = Some (st, env, s1)"
      using CoreSignalEvent_high_total[OF R in_checkD(1-3)[OF c0]] .
    note G = CoreSignalEvent_high_timers[OF R(1) in_checkD(1,2)[OF c0] g]
    have c1: "in_check s1" by (rule in_check_settles[OF c0 G(1)])
    have "uncounted (events s1) e = uncounted (events s) e" using G(6) by simp
    from uncountedD[OF this ev(1)] obtain ev1 where ev1: "events s1 e = Some ev1" by auto
    show ?thesis
    proof (cases "Period ev1 = 0")
      case True
      then show ?thesis using that Cons ev False g ev1 by (simp add: check_timers_round_def Let_def)
    next
      case per: False
      have nt: "e \<notin> set (mEfiTimerList s1)" using H(2) G(3) by simp
      have set: "in_check (s1\<lparr>events := (events s1)(e \<mapsto> ev1\<lparr>TriggerTime := t\<rparr>)\<rparr>)" for t
        by (rule in_check_settles[OF c1 set_time_settles[OF in_checkD(1,2)[OF c1] ev1 nt]])
      let ?t = "\<lambda>t. s1\<lparr>events := (events s1)(e \<mapsto> ev1\<lparr>TriggerTime := t\<rparr>)\<rparr>"
      obtain s2 where b: "(if TriggerTime ev1 + Period ev1 \<le> now then do {
            (_, env, s) \<leftarrow> CoreSignalEvent pf R (mEfiCheckTimerEvent s1) env (?t now); Some (env, s) }
          else Some (env, ?t (TriggerTime ev1 + Period ev1))) = Some (env, s2)"
        and c2: "in_check s2" and e2: "events s2 e \<noteq> None"
      proof (cases "TriggerTime ev1 + Period ev1 \<le> now")
        case True
        obtain st s2 where g2: "CoreSignalEvent pf R (mEfiCheckTimerEvent s1) env (?t now) = Some (st, env, s2)"
          using CoreSignalEvent_high_total[OF R in_checkD(1-3)[OF set]] .
        note G2 = CoreSignalEvent_high_timers[OF R(1) in_checkD(1,2)[OF set] g2]
        have "uncounted (events s2) e \<noteq> None" using G2(6) by simp
        then show ?thesis using that True g2 in_check_settles[OF set G2(1)] by (simp add: uncounted_def)
      next
        case False
        then show ?thesis using that set by simp
      qed
      have "CoreInsertEventTimer e s2 \<noteq> None"
        using CoreInsertEventTimer_total[OF in_checkD(4)[OF c2] _ e2] c2 by (simp add: in_check_def)
      then obtain s3 where "CoreInsertEventTimer e s2 = Some s3" by auto
      then have "check_timers_round pf R now env s = Some (True, env, s3)"
        using b Cons ev False g ev1 per
        by (simp add: check_timers_round_def Let_def cong: if_cong)
      then show ?thesis by (rule that)
    qed
  qed
qed

text \<open>Signals that were counted stay counted while the timers are checked.\<close>

definition counted :: "'f ev_state \<Rightarrow> nat \<Rightarrow> bool" where
  "counted s x \<longleftrightarrow> (\<exists>ev. events s x = Some ev \<and> SignalCount ev \<noteq> 0)"

lemma CoreSignalEvent_high_counted:
  assumes R: "restores R" and s: "ready s" "30 \<le> gEfiCurrentTpl s"
    and run: "CoreSignalEvent pf R ue env s = Some (st, env', s')"
  shows "counted s x \<Longrightarrow> counted s' x" "ue = Some e \<Longrightarrow> events s e = Some ev \<Longrightarrow> counted s' e"
proof -
  have q: "same_events (case ue of Some e \<Rightarrow> if events s e = None then s else signalled e s | None \<Rightarrow> s) s'"
    using CoreSignalEvent_high[OF R s run] by blast
  have sig: "counted (signalled e s) x \<longleftrightarrow> counted s x \<or> x = e" if "events s e = Some ev" for x e ev
    using that by (auto simp: counted_def signalled_events)
  show "counted s' x" if "counted s x"
    using q that sig by (auto simp: counted_def same_events_iff split: option.splits if_splits)
  show "counted s' e" if "ue = Some e" "events s e = Some ev"
    using q that sig[OF that(2), of e] by (auto simp: counted_def same_events_iff)
qed

lemma check_timers_round_counts:
  assumes R: "restores R" and s: "ready s" "30 \<le> gEfiCurrentTpl s"
    and run: "check_timers_round pf R now env s = Some (again, env', s')"
  shows "counted s x \<Longrightarrow> counted s' x" "again \<Longrightarrow> mEfiTimerList s = e # es \<Longrightarrow> counted s' e"
proof -
  have *: "(counted s x \<longrightarrow> counted s' x) \<and> (again \<longrightarrow> counted s' e)" if Cons: "mEfiTimerList s = e # es" for x e es
  proof (cases again)
    case False
    then have "s' = s" using run Cons by (auto simp: check_timers_round_def bind_eq_Some_conv Let_def split: if_splits)
    then show ?thesis using False by simp
  next
    case True
    note H = timers_head[OF readyD(1)[OF s(1)] Cons]
    then obtain ev where ev: "events s e = Some ev" "Type ev AND EVT_TIMER \<noteq> 0" by blast
    have due: "\<not> TriggerTime ev > now" using run Cons ev True by (auto simp: check_timers_round_def)
    let ?s = "s\<lparr>mEfiTimerList := es\<rparr>"
    have S0: "settles s ?s" by (rule locked_settles[OF s H(1)]) simp_all
    obtain st env1 s1 ev1 where g: "CoreSignalEvent pf R (Some e) env ?s = Some (st, env1, s1)"
      and ev1: "events s1 e = Some ev1"
      using run Cons ev due by (auto simp: check_timers_round_def bind_eq_Some_conv Let_def)
    have h: "30 \<le> gEfiCurrentTpl ?s" using s(2) by simp
    note G = CoreSignalEvent_high_timers[OF R settlesD(1)[OF S0] h g]
    note C = CoreSignalEvent_high_counted[OF R settlesD(1)[OF S0] h g]
    have c: "counted s x \<Longrightarrow> counted s1 x" "counted s1 e" using C(1)[of x] C(2)[of e ev] ev(1) by (simp_all add: counted_def)
    show ?thesis
    proof (cases "Period ev1 = 0")
      case True
      then have "s' = s1" using run Cons ev due g ev1 by (simp add: check_timers_round_def Let_def)
      then show ?thesis using c by simp
    next
      case per: False
      let ?t = "\<lambda>t. s1\<lparr>events := (events s1)(e \<mapsto> ev1\<lparr>TriggerTime := t\<rparr>)\<rparr>"
      have t: "counted (?t t) x = counted s1 x" for t x using ev1 by (simp add: counted_def)
      have nt: "e \<notin> set (mEfiTimerList s1)" using H(2) G(3) by simp
      have h1: "30 \<le> gEfiCurrentTpl s1" using h settlesD(3)[OF G(1)] by simp
      note T = settlesD(1)[OF set_time_settles[OF settlesD(1)[OF G(1)] h1 ev1 nt]]
      have ht: "30 \<le> gEfiCurrentTpl (?t t)" for t using h1 by simp
      obtain env2 s2 where b: "(if TriggerTime ev1 + Period ev1 \<le> now then do {
            (_, env, s) \<leftarrow> CoreSignalEvent pf R (mEfiCheckTimerEvent s1) env1 (?t now); Some (env, s) }
          else Some (env1, ?t (TriggerTime ev1 + Period ev1))) = Some (env2, s2)"
        and i: "CoreInsertEventTimer e s2 = Some s'"
        using run[unfolded check_timers_round_def Let_def] Cons ev due g ev1 per
        by (auto simp: bind_eq_Some_conv cong: if_cong)
      have "counted s1 y \<Longrightarrow> counted s2 y" for y
      proof (cases "TriggerTime ev1 + Period ev1 \<le> now")
        case True
        then obtain st2 where "CoreSignalEvent pf R (mEfiCheckTimerEvent s1) env1 (?t now) = Some (st2, env2, s2)"
          using b by (auto simp: bind_eq_Some_conv)
        from CoreSignalEvent_high_counted(1)[OF R T ht this, of y] show "counted s1 y \<Longrightarrow> counted s2 y" by (simp add: t)
      next
        case False
        then have "s2 = ?t (TriggerTime ev1 + Period ev1)" using b by simp
        then show "counted s1 y \<Longrightarrow> counted s2 y" using t by metis
      qed
      moreover have "events s' = events s2"
        using i by (auto simp: CoreInsertEventTimer_def bind_eq_Some_conv assert_simps split: if_splits)
      ultimately show ?thesis using c by (simp add: counted_def)
    qed
  qed
  show "counted s x \<Longrightarrow> counted s' x"
  proof (cases "mEfiTimerList s")
    case Nil
    then show "counted s x \<Longrightarrow> counted s' x" using run by (simp add: check_timers_round_def)
  next
    case (Cons e es)
    then show "counted s x \<Longrightarrow> counted s' x" using * by blast
  qed
  show "again \<Longrightarrow> mEfiTimerList s = e # es \<Longrightarrow> counted s' e" using * by blast
qed


subsection \<open>All rounds\<close>

text \<open>When a timer fires next, how many rounds it takes, and when its times do not overflow.\<close>

definition final :: "u64 \<Rightarrow> 'f ievent \<Rightarrow> u64" where
  "final now ev =
     (if TriggerTime ev > now \<or> Period ev = 0 then TriggerTime ev
      else if TriggerTime ev + Period ev > now then TriggerTime ev + Period ev else now + Period ev)"

definition rank :: "u64 \<Rightarrow> 'f ievent \<Rightarrow> nat" where
  "rank now ev = (if TriggerTime ev > now then 0
     else if Period ev = 0 \<or> TriggerTime ev + Period ev > now then 1 else 2)"

definition no_wrap :: "u64 \<Rightarrow> 'f ievent \<Rightarrow> bool" where
  "no_wrap now ev \<longleftrightarrow> Period ev = 0 \<or> now + Period ev > now"

lemma uncount_simps [simp]:
  "final now (ev\<lparr>SignalCount := n\<rparr>) = final now ev" "rank now (ev\<lparr>SignalCount := n\<rparr>) = rank now ev"
  "no_wrap now (ev\<lparr>SignalCount := n\<rparr>) = no_wrap now ev"
  by (simp_all add: final_def rank_def no_wrap_def)

lemma rearmed_facts:
  assumes "TriggerTime ev \<le> now" "Period ev \<noteq> 0" "no_wrap now ev"
  shows "final now (ev\<lparr>TriggerTime := rearmed now ev\<rparr>) = final now ev"
    "Suc (rank now (ev\<lparr>TriggerTime := rearmed now ev\<rparr>)) = rank now ev"
  using assms by (auto simp: final_def rank_def no_wrap_def rearmed_def not_le)

definition tm :: "'f ev_state \<Rightarrow> nat \<Rightarrow> 'f ievent" where
  "tm s x = the (uncounted (events s) x)"

lemma tm_simp: "events s x = Some ev \<Longrightarrow> tm s x = ev\<lparr>SignalCount := 0\<rparr>"
  by (simp add: tm_def uncounted_def)

definition work :: "u64 \<Rightarrow> 'f ev_state \<Rightarrow> nat" where
  "work now s = sum_mset (image_mset (\<lambda>x. rank now (tm s x)) (mset (mEfiTimerList s)))"

lemma insert_timer_mset: "insert_timer evs e t xs = Some ys \<Longrightarrow> mset ys = add_mset e (mset xs)"
  by (induction xs arbitrary: ys) (auto simp: bind_eq_Some_conv split: if_splits)

lemma work_bound: "work now s \<le> 2 * length (mEfiTimerList s)"
proof -
  have "sum_mset (image_mset (\<lambda>x. rank now (tm s x)) (mset xs)) \<le> 2 * length xs" for xs
    by (induction xs) (auto simp: rank_def)
  then show ?thesis by (simp add: work_def)
qed

definition timers_no_wrap :: "u64 \<Rightarrow> 'f ev_state \<Rightarrow> bool" where
  "timers_no_wrap now s \<longleftrightarrow> (\<forall>x \<in> set (mEfiTimerList s). no_wrap now (tm s x))"

text \<open>What the rounds so far have kept and reached, since the first.\<close>

definition checked :: "u64 \<Rightarrow> 'f ev_state \<Rightarrow> 'f ev_state \<Rightarrow> bool" where
  "checked now s0 s \<longleftrightarrow> set (mEfiTimerList s) \<subseteq> set (mEfiTimerList s0) \<and>
     (\<forall>x. final now (tm s x) = final now (tm s0 x) \<and> Period (tm s x) = Period (tm s0 x)) \<and>
     (\<forall>x \<in> set (mEfiTimerList s0). x \<in> set (mEfiTimerList s) \<or> final now (tm s0 x) \<le> now) \<and>
     (\<forall>x \<in> set (mEfiTimerList s0). TriggerTime (tm s0 x) \<le> now \<longrightarrow>
        counted s x \<or> x \<in> set (mEfiTimerList s) \<and> TriggerTime (tm s x) \<le> now)"

lemma checked_refl: "checked now s s"
  by (auto simp: checked_def)

lemma round_again:
  assumes R: "restores R" and s: "in_check s"
    and run: "check_timers_round pf R now env s = Some (True, env', s')"
  obtains e es ev where "mEfiTimerList s = e # es" "events s e = Some ev" "TriggerTime ev \<le> now"
    "if Period ev = 0 then mset (mEfiTimerList s') = mset es \<and> tm s' = tm s
     else mset (mEfiTimerList s') = mset (mEfiTimerList s) \<and>
       tm s' = (tm s)(e := ev\<lparr>TriggerTime := rearmed now ev, SignalCount := 0\<rparr>)"
    "e \<notin> set es" "counted s' e" "\<forall>x. counted s x \<longrightarrow> counted s' x"
proof -
  have D: "round_done now True s s'" using check_timers_round_done[OF R in_checkD(1,2)[OF s] run] by blast
  then obtain e es where l: "mEfiTimerList s = e # es" by (cases "mEfiTimerList s") (auto simp: round_done_def)
  note H = timers_head[OF in_checkD(4)[OF s] l]
  obtain ev where ev: "events s e = Some ev" "TriggerTime ev \<le> now"
    "if Period ev = 0 then mEfiTimerList s' = es \<and> uncounted (events s') = uncounted (events s)
     else insert_timer (events s') e (rearmed now ev) es = Some (mEfiTimerList s') \<and>
       uncounted (events s') = (uncounted (events s))(e \<mapsto> ev\<lparr>TriggerTime := rearmed now ev, SignalCount := 0\<rparr>)"
    using D l by (auto simp: round_done_def not_less split: if_splits)
  have "if Period ev = 0 then mset (mEfiTimerList s') = mset es \<and> tm s' = tm s
     else mset (mEfiTimerList s') = mset (mEfiTimerList s) \<and>
       tm s' = (tm s)(e := ev\<lparr>TriggerTime := rearmed now ev, SignalCount := 0\<rparr>)"
    using ev(3) insert_timer_mset l by (auto simp: tm_def fun_eq_iff split: if_splits)
  moreover note C = check_timers_round_counts[OF R in_checkD(1,2)[OF s] run]
  ultimately show ?thesis using that[OF l ev(1,2) _ H(2)] C(1) C(2)[OF _ l] by blast
qed

lemma round_progress:
  assumes R: "restores R" and s: "in_check s" "timers_no_wrap now s"
    and run: "check_timers_round pf R now env s = Some (True, env', s')"
  shows "work now s' < work now s" "timers_no_wrap now s'" "checked now s0 s \<Longrightarrow> checked now s0 s'"
proof -
  from round_again[OF R s(1) run] obtain e es ev where l: "mEfiTimerList s = e # es" and e: "events s e = Some ev" "TriggerTime ev \<le> now"
    and r: "if Period ev = 0 then mset (mEfiTimerList s') = mset es \<and> tm s' = tm s
     else mset (mEfiTimerList s') = mset (mEfiTimerList s) \<and>
       tm s' = (tm s)(e := ev\<lparr>TriggerTime := rearmed now ev, SignalCount := 0\<rparr>)"
    and n: "e \<notin> set es" and c: "counted s' e" "\<forall>x. counted s x \<longrightarrow> counted s' x" .
  have nw: "no_wrap now ev" using s(2) l e(1) by (simp add: timers_no_wrap_def tm_simp)
  have tme: "tm s e = ev\<lparr>SignalCount := 0\<rparr>" by (rule tm_simp[OF e(1)])
  have "work now s' < work now s \<and> timers_no_wrap now s' \<and> (checked now s0 s \<longrightarrow> checked now s0 s')"
  proof (cases "Period ev = 0")
    case True
    then have m: "mset (mEfiTimerList s') = mset es" "tm s' = tm s" using r by simp_all
    have set: "set (mEfiTimerList s') = set es" using mset_eq_setD[OF m(1)] .
    have "rank now ev = 1" using True e(2) by (simp add: rank_def not_less)
    then have "work now s' < work now s" using l tme m by (simp add: work_def)
    moreover have "timers_no_wrap now s'" using s(2) l set m(2) by (simp add: timers_no_wrap_def)
    moreover have "checked now s0 s'" if C: "checked now s0 s"
    proof -
      have "final now (tm s0 e) = final now (tm s e)" using C by (simp add: checked_def)
      then have "final now (tm s0 e) \<le> now" using True e(2) tme by (simp add: final_def)
      then show ?thesis using C l set m(2) c n unfolding checked_def by auto
    qed
    ultimately show ?thesis by blast
  next
    case False
    then have m: "mset (mEfiTimerList s') = mset (mEfiTimerList s)"
      "tm s' = (tm s)(e := ev\<lparr>TriggerTime := rearmed now ev, SignalCount := 0\<rparr>)" using r by simp_all
    have set: "set (mEfiTimerList s') = set (mEfiTimerList s)" using mset_eq_setD[OF m(1)] .
    note F = rearmed_facts[OF e(2) False nw]
    have f: "final now (tm s' x) = final now (tm s x)" "Period (tm s' x) = Period (tm s x)" for x
      using F(1) tme by (simp_all add: m(2))
    have "image_mset (\<lambda>x. rank now (tm s' x)) (mset es) = image_mset (\<lambda>x. rank now (tm s x)) (mset es)"
      by (rule image_mset_cong) (use n in \<open>auto simp: m(2)\<close>)
    moreover have "Suc (rank now (tm s' e)) = rank now (tm s e)" using F(2) tme by (simp add: m(2))
    ultimately have "work now s' < work now s" unfolding work_def m(1) using l by simp
    moreover have "timers_no_wrap now s'" using s(2) set f(2) by (simp add: timers_no_wrap_def no_wrap_def)
    moreover have "checked now s0 s'" if C: "checked now s0 s"
      unfolding checked_def
    proof (intro conjI ballI impI)
      show "set (mEfiTimerList s') \<subseteq> set (mEfiTimerList s0)" using C set by (simp add: checked_def)
      show "\<forall>x. final now (tm s' x) = final now (tm s0 x) \<and> Period (tm s' x) = Period (tm s0 x)"
        using C f by (simp add: checked_def)
      fix x assume x: "x \<in> set (mEfiTimerList s0)"
      then show "x \<in> set (mEfiTimerList s') \<or> final now (tm s0 x) \<le> now" using C set by (simp add: checked_def)
      assume "TriggerTime (tm s0 x) \<le> now"
      then have "counted s x \<or> x \<in> set (mEfiTimerList s) \<and> TriggerTime (tm s x) \<le> now"
        using C x by (simp add: checked_def)
      then show "counted s' x \<or> x \<in> set (mEfiTimerList s') \<and> TriggerTime (tm s' x) \<le> now"
        using c set by (cases "x = e") (auto simp: m(2))
    qed
    ultimately show ?thesis by blast
  qed
  then show "work now s' < work now s" "timers_no_wrap now s'" "checked now s0 s \<Longrightarrow> checked now s0 s'" by blast+
qed

lemma check_timers_loop_total:
  assumes R: "restores R" "answers R"
  shows "in_check s \<Longrightarrow> timers_no_wrap now s \<Longrightarrow> checked now s0 s \<Longrightarrow> work now s < n \<Longrightarrow>
    \<exists>s'. check_timers_loop n pf R now env s = Some (env, s') \<and> settles s s' \<and> checked now s0 s' \<and>
      (\<forall>x \<in> set (mEfiTimerList s'). TriggerTime (tm s' x) > now)"
proof (induction n arbitrary: s)
  case (Suc n)
  obtain again s1 where r: "check_timers_round pf R now env s = Some (again, env, s1)"
    using check_timers_round_total[OF R Suc.prems(1)] .
  note D = check_timers_round_done[OF R(1) in_checkD(1,2)[OF Suc.prems(1)] r]
  show ?case
  proof (cases again)
    case True
    have "check_timers_round pf R now env s = Some (True, env, s1)" using r True by simp
    note P = round_progress[OF R(1) Suc.prems(1,2) this]
    have S: "settles s s1" using D by blast
    from Suc.IH[OF in_check_settles[OF Suc.prems(1) S] P(2) P(3)[OF Suc.prems(3)]] P(1) Suc.prems(4)
    obtain s' where "check_timers_loop n pf R now env s1 = Some (env, s')" "settles s1 s'" "checked now s0 s'"
      "\<forall>x \<in> set (mEfiTimerList s'). TriggerTime (tm s' x) > now" by auto
    then show ?thesis using r True settles_trans[OF S] by auto
  next
    case False
    have E: "\<forall>x \<in> set (mEfiTimerList s). TriggerTime (tm s x) > now" and s1: "s1 = s"
    proof -
      have rd: "round_done now False s s1" using D False by simp
      show "s1 = s" using rd by (auto simp: round_done_def split: list.splits if_splits)
      show "\<forall>x \<in> set (mEfiTimerList s). TriggerTime (tm s x) > now"
      proof (cases "mEfiTimerList s")
        case (Cons e es)
        then obtain ev where e: "events s e = Some ev" "TriggerTime ev > now"
          using rd by (auto simp: round_done_def split: if_splits)
        have t: "sorted (map (\<lambda>e. TriggerTime (the (events s e))) (e # es))"
          "\<forall>x \<in> set (e # es). \<exists>ev. events s x = Some ev"
          using ev_invD(5)[OF in_checkD(4)[OF Suc.prems(1)]] Cons by (auto simp: timers_ok_def)
        show ?thesis
        proof
          fix x assume "x \<in> set (mEfiTimerList s)"
          then obtain ex where x: "events s x = Some ex" "TriggerTime ev \<le> TriggerTime ex"
            using t e(1) Cons by fastforce
          then show "TriggerTime (tm s x) > now" using e(2) by (simp add: tm_simp)
        qed
      qed simp
    qed
    then show ?thesis using r False Suc.prems(3) settles_refl[OF in_checkD(1)[OF Suc.prems(1)]] by auto
  qed
qed simp


subsection \<open>The whole check\<close>

lemma tm_same: "same_events s s' \<Longrightarrow> tm s' = tm s"
  by (rule ext) (simp add: same_events_iff tm_def)

lemma CoreCheckTimers_enter:
  assumes R: "restores R" "answers R" and s: "ready s" "gEfiCurrentTpl s = 30" "\<forall>l. Lock (locks s l) = EfiLockReleased"
  obtains s1 s2 where "CoreAcquireLock pf mEfiTimerLock s = Some s1" "in_check s1"
    "CoreCurrentSystemTime pf R env s1 = Some (mEfiSystemTime s, env, s2)" "settles s1 s2" "same_events s s2" "in_check s2"
proof -
  have f: "free_at l s" for l using s lock_tpl[OF readyD(1)[OF s(1)], of l] by (simp add: free_at_def)
  obtain s1 where a: "CoreAcquireLock pf mEfiTimerLock s = Some s1" using acquire_total[OF s(1) f] .
  note acq = acquire_ready[OF s(1) a]
  have T: "Tpl (locks s gEventQueueLock) = 31" "Tpl (locks s mEfiSystemTimeLock) = 31" "Tpl (locks s mEfiTimerLock) = 30"
    using ev_invD(6)[OF readyD(1)[OF s(1)]] by (simp_all add: locks_ok_def)
  have c: "in_check s1" and ft: "free_at mEfiSystemTimeLock s1"
    using acq(1,2,3) acq(6)[of gEventQueueLock] acq(6)[of mEfiSystemTimeLock] s(3) T
    by (simp_all add: in_check_def free_at_def)
  obtain s2 where t: "CoreCurrentSystemTime pf R env s1 = Some (mEfiSystemTime s1, env, s2)" "settles s1 s2" "same_events s1 s2"
    using CoreCurrentSystemTime_total[OF R in_checkD(1)[OF c] ft] .
  show ?thesis
    using that[OF a c _ t(2) same_events_trans[OF acquire_same[OF s(1) a] t(3)] in_check_settles[OF c t(2)]] t(1) acq(13) by simp
qed

lemma CoreCheckTimers_total:
  assumes R: "restores R" "answers R" and s: "ready s" "gEfiCurrentTpl s = 30" "\<forall>l. Lock (locks s l) = EfiLockReleased"
    and w: "timers_no_wrap (mEfiSystemTime s) s" and n: "2 * length (mEfiTimerList s) < n"
  obtains s' where "CoreCheckTimers n pf R env s = Some (env, s')" "settles s s'" "checked (mEfiSystemTime s) s s'"
    "\<forall>x \<in> set (mEfiTimerList s'). TriggerTime (tm s' x) > mEfiSystemTime s"
proof -
  obtain s1 s2 where a: "CoreAcquireLock pf mEfiTimerLock s = Some s1" "in_check s1"
    and t: "CoreCurrentSystemTime pf R env s1 = Some (mEfiSystemTime s, env, s2)" "settles s1 s2" "same_events s s2" "in_check s2"
    using CoreCheckTimers_enter[OF R s] .
  have l2: "mEfiTimerList s2 = mEfiTimerList s" using t(3) by (simp add: same_events_iff)
  have "timers_no_wrap (mEfiSystemTime s) s2" using w l2 tm_same[OF t(3)] by (simp add: timers_no_wrap_def)
  moreover have "work (mEfiSystemTime s) s2 < n" using work_bound[of "mEfiSystemTime s" s2] n l2 by simp
  ultimately obtain s3 where l: "check_timers_loop n pf R (mEfiSystemTime s) env s2 = Some (env, s3)" "settles s2 s3"
    "checked (mEfiSystemTime s) s2 s3" "\<forall>x \<in> set (mEfiTimerList s3). TriggerTime (tm s3 x) > mEfiSystemTime s"
    using check_timers_loop_total[OF R t(4) _ checked_refl] by blast
  note S = settles_trans[OF t(2) l(2)]
  have fr: "free_at mEfiTimerLock s" using s lock_tpl[OF readyD(1)[OF s(1)], of mEfiTimerLock] by (simp add: free_at_def)
  have calm: "calm (gEfiCurrentTpl s) s3" by (rule calm_high[OF settlesD(2)[OF S]]) (simp add: s(2))
  obtain env' s' where r: "CoreReleaseLock R mEfiTimerLock env s3 = Some (env', s')"
    using release_total[OF R(2) s(1) fr a(1) settlesD(4)[OF S] ev_invD(2)[OF settlesD(2)[OF S]] calm settlesD(3)[OF S]] .
  note sec = lock_section[OF R(1) s(1) a(1) S r]
  have q: "env' = env" "same_events s3 s'" using sec(2)[OF calm] by simp_all
  have "CoreCheckTimers n pf R env s = Some (env, s')" using a t l r q by (simp add: CoreCheckTimers_def)
  moreover have "mEfiTimerList s' = mEfiTimerList s3" "tm s' = tm s3" "counted s' = counted s3"
    using q(2) tm_same[OF q(2)] by (simp_all add: same_events_iff counted_def fun_eq_iff)
  moreover have "tm s2 = tm s" by (rule tm_same[OF t(3)])
  ultimately show ?thesis using that sec(1) l(3,4) l2 by (simp add: checked_def)
qed

subsection \<open>Periods that overflow\<close>

text \<open>A due timer whose next trigger time, also counted from now, wraps around to before now.\<close>

definition wraps :: "u64 \<Rightarrow> 'f ievent \<Rightarrow> bool" where
  "wraps now ev \<longleftrightarrow> Period ev \<noteq> 0 \<and> TriggerTime ev \<le> now \<and> TriggerTime ev + Period ev \<le> now \<and> now + Period ev \<le> now"

definition stuck :: "u64 \<Rightarrow> 'f ev_state \<Rightarrow> bool" where
  "stuck now s \<longleftrightarrow> (\<exists>x \<in> set (mEfiTimerList s). wraps now (tm s x))"

lemma stuck_round:
  assumes R: "restores R" "answers R" and s: "in_check s" "stuck now s"
  obtains s' where "check_timers_round pf R now env s = Some (True, env, s')" "in_check s'" "stuck now s'"
proof -
  obtain x where x: "x \<in> set (mEfiTimerList s)" "wraps now (tm s x)" using s(2) by (auto simp: stuck_def)
  obtain again s' where r: "check_timers_round pf R now env s = Some (again, env, s')"
    using check_timers_round_total[OF R s(1)] .
  note D = check_timers_round_done[OF R(1) in_checkD(1,2)[OF s(1)] r]
  have c: "in_check s'" using D in_check_settles[OF s(1)] by blast
  have "again"
  proof (rule ccontr)
    assume na: "\<not> again"
    obtain e es where l: "mEfiTimerList s = e # es" using x(1) by (cases "mEfiTimerList s") auto
    then obtain ev where e: "events s e = Some ev" "TriggerTime ev > now"
      using D na by (auto simp: round_done_def split: if_splits)
    have t: "sorted (map (\<lambda>e. TriggerTime (the (events s e))) (e # es))" "\<exists>ex. events s x = Some ex"
      using ev_invD(5)[OF in_checkD(4)[OF s(1)]] l x(1) by (auto simp: timers_ok_def)
    then obtain ex where ex: "events s x = Some ex" "TriggerTime ev \<le> TriggerTime ex"
      using e(1) l x(1) by fastforce
    have "TriggerTime ex \<le> now" using x(2) ex(1) by (simp add: wraps_def tm_simp)
    then show False using e(2) ex(2) by simp
  qed
  then have r': "check_timers_round pf R now env s = Some (True, env, s')" using r by simp
  from round_again[OF R(1) s(1) r'] obtain e es ev where l: "mEfiTimerList s = e # es" and e: "events s e = Some ev" "TriggerTime ev \<le> now"
    and u: "if Period ev = 0 then mset (mEfiTimerList s') = mset es \<and> tm s' = tm s
     else mset (mEfiTimerList s') = mset (mEfiTimerList s) \<and>
       tm s' = (tm s)(e := ev\<lparr>TriggerTime := rearmed now ev, SignalCount := 0\<rparr>)"
    and "e \<notin> set es" "counted s' e" "\<forall>x. counted s x \<longrightarrow> counted s' x" .
  have tme: "tm s e = ev\<lparr>SignalCount := 0\<rparr>" by (rule tm_simp[OF e(1)])
  have "stuck now s'"
  proof (cases "x = e")
    case True
    then have w: "wraps now ev" using x(2) tme by (simp add: wraps_def)
    then have m: "mset (mEfiTimerList s') = mset (mEfiTimerList s)"
      "tm s' e = ev\<lparr>TriggerTime := now, SignalCount := 0\<rparr>" using u by (simp_all add: wraps_def rearmed_def)
    have "e \<in> set (mEfiTimerList s')" using mset_eq_setD[OF m(1)] l by simp
    then show ?thesis using w m(2) unfolding stuck_def wraps_def by (intro bexI[of _ e]) simp_all
  next
    case False
    have "mset (mEfiTimerList s') = mset es \<or> mset (mEfiTimerList s') = mset (mEfiTimerList s)"
      using u by (auto split: if_splits)
    then have "set (mEfiTimerList s') = set es \<or> set (mEfiTimerList s') = set (mEfiTimerList s)"
      using mset_eq_setD by blast
    then have "x \<in> set (mEfiTimerList s')" using x(1) l False by auto
    then have "x \<in> set (mEfiTimerList s') \<and> tm s' x = tm s x" using u False by (auto split: if_splits)
    then show ?thesis using x(2) unfolding stuck_def by (intro bexI[of _ x]) simp_all
  qed
  then show ?thesis using that r' c by blast
qed

lemma stuck_loop:
  assumes R: "restores R" "answers R"
  shows "in_check s \<Longrightarrow> stuck now s \<Longrightarrow> check_timers_loop n pf R now env s = None"
proof (induction n arbitrary: s)
  case (Suc n)
  obtain s' where "check_timers_round pf R now env s = Some (True, env, s')" "in_check s'" "stuck now s'"
    using stuck_round[OF R Suc.prems] .
  then show ?case using Suc.IH by simp
qed simp

text \<open>The states after the rounds.\<close>

fun rounds :: "nat \<Rightarrow> platform \<Rightarrow> ('f, 'e) restorer \<Rightarrow> u64 \<Rightarrow> 'e \<Rightarrow> 'f ev_state \<Rightarrow> (bool \<times> 'e \<times> 'f ev_state) option" where
  "rounds 0 pf R now env s = Some (True, env, s)"
| "rounds (Suc n) pf R now env s = do {
     (again, env, s) \<leftarrow> check_timers_round pf R now env s;
     if again then rounds n pf R now env s else Some (False, env, s)
   }"

lemma stuck_rounds:
  assumes R: "restores R" "answers R"
  shows "in_check s \<Longrightarrow> stuck now s \<Longrightarrow> \<exists>s'. rounds n pf R now env s = Some (True, env, s')"
proof (induction n arbitrary: s)
  case (Suc n)
  obtain s' where "check_timers_round pf R now env s = Some (True, env, s')" "in_check s'" "stuck now s'"
    using stuck_round[OF R Suc.prems] .
  then show ?case using Suc.IH by simp
qed simp

end
