(* ===== verification/Event_Nest.thy ===== *)
theory Event_Nest
  imports Event_Order Event_Timer
begin

text \<open>
  Notification functions that use the event services: programs that read the state, change the rest of
  the system, call the services, and raise the priority for a part of their work.  They keep what the
  services keep, with notifications within notifications to any depth.
\<close>

datatype 'f ev_service =
    CreateEvent u32 nat "'f notify option" "guid option" bool
  | SignalEvent "nat option"
  | CheckEvent "nat option"
  | WaitForEvent nat "nat option list option"
  | SetTimer "nat option" timer_delay u64
  | CloseEvent "nat option"
  | TimerTick u64

text \<open>The status, with the event that was created or the index of the event that was signalled.\<close>

type_synonym ev_answer = "efi_status \<times> nat option"

definition answer :: "efi_status \<times> 'e \<times> 'f ev_state \<Rightarrow> ev_answer \<times> 'e \<times> 'f ev_state" where
  "answer r = (case r of (st, env, s) \<Rightarrow> ((st, None), env, s))"

definition answer_with :: "efi_status \<times> nat option \<times> 'e \<times> 'f ev_state \<Rightarrow> ev_answer \<times> 'e \<times> 'f ev_state" where
  "answer_with r = (case r of (st, x, env, s) \<Rightarrow> ((st, x), env, s))"

text \<open>oom and unregister are what the services rely on: whether memory runs out, and what a protocol
  notification that is closed does to the protocol database.  TimerTick is the timer interrupt.\<close>

fun call_service ::
  "platform \<Rightarrow> ('f, 'e) restorer \<Rightarrow> (nat \<Rightarrow> bool) \<Rightarrow> (nat \<Rightarrow> 'e \<Rightarrow> 'e) \<Rightarrow> nat \<Rightarrow> 'f ev_service \<Rightarrow> 'e \<Rightarrow> 'f ev_state \<Rightarrow>
     (ev_answer \<times> 'e \<times> 'f ev_state) option" where
  "call_service pf R oom unregister n (CreateEvent ty tpl fn g want) env s =
     map_option answer_with (CoreCreateEventEx pf R oom ty tpl fn g want env s)"
| "call_service pf R oom unregister n (SignalEvent e) env s = map_option answer (CoreSignalEvent pf R e env s)"
| "call_service pf R oom unregister n (CheckEvent e) env s = map_option answer (CoreCheckEvent pf R e env s)"
| "call_service pf R oom unregister n (WaitForEvent k es) env s =
     map_option answer_with (CoreWaitForEvent n pf R k es env s)"
| "call_service pf R oom unregister n (SetTimer e delay Trigger) env s =
     map_option answer (CoreSetTimer pf R e delay Trigger env s)"
| "call_service pf R oom unregister n (CloseEvent e) env s = map_option answer (CoreCloseEvent pf R unregister e env s)"
| "call_service pf R oom unregister n (TimerTick d) env s =
     map_option (\<lambda>(env, s). ((EFI_SUCCESS, None), env, s)) (CoreTimerTick pf R d env s)"

text \<open>AtTpl t p q is p between CoreRaiseTpl to t and CoreRestoreTpl to the priority before, and then q.\<close>

datatype ('f, 'e) notification =
    Done
  | Inspect "'e \<Rightarrow> 'f ev_state \<Rightarrow> ('f, 'e) notification"
  | Update "'e \<Rightarrow> 'e" "('f, 'e) notification"
  | Use "'f ev_service" "ev_answer \<Rightarrow> ('f, 'e) notification"
  | AtTpl nat "('f, 'e) notification" "('f, 'e) notification"

primrec run_notification ::
  "platform \<Rightarrow> ('f, 'e) restorer \<Rightarrow> ('f ev_service \<Rightarrow> 'e \<Rightarrow> 'f ev_state \<Rightarrow> (ev_answer \<times> 'e \<times> 'f ev_state) option) \<Rightarrow>
     ('f, 'e) notification \<Rightarrow> 'e \<Rightarrow> 'f ev_state \<Rightarrow> ('e \<times> 'f ev_state) option" where
  "run_notification pf R exec Done env s = Some (env, s)"
| "run_notification pf R exec (Inspect k) env s = run_notification pf R exec (k env s) env s"
| "run_notification pf R exec (Update u p) env s = run_notification pf R exec p (u env) s"
| "run_notification pf R exec (Use c k) env s =
     (case exec c env s of None \<Rightarrow> None | Some (r, env, s) \<Rightarrow> run_notification pf R exec (k r) env s)"
| "run_notification pf R exec (AtTpl t p q) env s =
     (case CoreRaiseTpl pf t s of
        None \<Rightarrow> None
      | Some (old, s) \<Rightarrow>
          (case run_notification pf R exec p env s of
             None \<Rightarrow> None
           | Some (env, s) \<Rightarrow>
               (case R old env s of None \<Rightarrow> None | Some (env, s) \<Rightarrow> run_notification pf R exec q env s)))"

text \<open>The functions of the events, with at most n notifications within each other.\<close>

primrec ev_nested ::
  "nat \<Rightarrow> platform \<Rightarrow> (nat \<Rightarrow> bool) \<Rightarrow> (nat \<Rightarrow> 'e \<Rightarrow> 'e) \<Rightarrow> ('f \<Rightarrow> nat \<Rightarrow> ('f, 'e) notification) \<Rightarrow> ('f, 'e) invoker" where
  "ev_nested 0 pf oom unregister behaviour = (\<lambda>f e env s. None)"
| "ev_nested (Suc n) pf oom unregister behaviour = (\<lambda>f e env s.
     let R = CoreRestoreTpl n pf (ev_nested n pf oom unregister behaviour)
     in run_notification pf R (call_service pf R oom unregister n) (behaviour f e) env s)"

subsection \<open>What the services keep\<close>

lemma CoreCreateEventEx_settles:
  assumes "restores R" "ready s" "CoreCreateEventEx pf R oom ty tpl fn g want env s = Some (st, r, env', s')"
  shows "settles s s'"
  using assms(3) CoreCreateEventInternal_settles(1)[OF assms(1,2)] settles_refl[OF assms(2)]
  by (auto simp: CoreCreateEventEx_def split: if_splits)

lemma call_service_settles:
  assumes R: "restores R" and s: "ready s" and run: "call_service pf R oom unregister n c env s = Some (r, env', s')"
  shows "settles s s'"
  using run
  by (cases c) (auto simp: answer_def answer_with_def split: prod.splits intro: CoreCreateEventEx_settles[OF R s]
      CoreSignalEvent_settles(1)[OF R s] CoreCheckEvent_settles[OF R s] CoreWaitForEvent_settles[OF R s]
      CoreSetTimer_settles[OF R s] CoreCloseEvent_settles(1)[OF R s] CoreTimerTick_settles[OF R s])

lemma raise_ready:
  assumes "ready s" "CoreRaiseTpl pf t s = Some (old, s')"
  shows "ready s'" "old = gEfiCurrentTpl s" "keeps_locks s s'"
proof -
  obtain b where r: "old = gEfiCurrentTpl s" "gEfiCurrentTpl s \<le> t" "s' = s\<lparr>gEfiCurrentTpl := t, Interrupts := b\<rparr>"
    using CoreRaiseTpl_eq[OF assms(2)] by blast
  have "calm t s" using assms(1) r(2) by (auto simp: ready_def calm_def intro: order_trans)
  moreover have "may_run t s" using assms(1) r(2) may_run_mono by (auto simp: ready_def)
  ultimately show "ready s'" using assms(1) by (simp add: r(3) ready_def)
  show "old = gEfiCurrentTpl s" "keeps_locks s s'" using r by simp_all
qed

lemma run_notification_settles:
  assumes R: "restores R" and exec: "\<And>c env s r env' s'. ready s \<Longrightarrow> exec c env s = Some (r, env', s') \<Longrightarrow> settles s s'"
  shows "ready s \<Longrightarrow> run_notification pf R exec p env s = Some (env', s') \<Longrightarrow> settles s s'"
proof (induction p arbitrary: env s env' s')
  case (Use c k)
  then obtain r env1 s1 where c: "exec c env s = Some (r, env1, s1)" "run_notification pf R exec (k r) env1 s1 = Some (env', s')"
    by (auto split: option.splits)
  have "settles s s1" by (rule exec[OF Use.prems(1) c(1)])
  then show ?case using Use.IH[OF _ _ c(2)] settles_trans settlesD(1) by blast
next
  case (Inspect k)
  then show ?case using Inspect.IH[OF rangeI rangeI] by simp
next
  case (AtTpl t p q)
  from AtTpl.prems(2) obtain old s1 env2 s2 env3 s3 where run: "CoreRaiseTpl pf t s = Some (old, s1)"
    "run_notification pf R exec p env s1 = Some (env2, s2)" "R old env2 s2 = Some (env3, s3)"
    "run_notification pf R exec q env3 s3 = Some (env', s')" by (auto split: option.splits)
  note r = raise_ready[OF AtTpl.prems(1) run(1)]
  have s2: "settles s1 s2" by (rule AtTpl.IH(1)[OF r(1) run(2)])
  have k: "keeps_locks s s2" using keeps_locks_trans[OF r(3) settlesD(4)[OF s2]] .
  have "may_run old s2" using AtTpl.prems(1) keeps_locks_may_run[OF k] by (simp add: r(2) ready_def)
  note D = restoresD(1-3)[OF R run(3) settlesD(2)[OF s2] this]
  have "settles s s3" using D keeps_locks_trans[OF k D(3)] by (simp add: settles_def r(2))
  moreover have "settles s3 s'" by (rule AtTpl.IH(2)[OF D(1) run(4)])
  ultimately show ?case by (rule settles_trans)
qed (auto intro: settles_refl)

text \<open>So the functions need not be assumed to keep anything.\<close>

lemma ev_nested_ok: "calls_ok (ev_nested n pf oom unregister behaviour)"
proof (induction n)
  case 0
  show ?case by (simp add: calls_ok_def)
next
  case (Suc n)
  let ?R = "CoreRestoreTpl n pf (ev_nested n pf oom unregister behaviour)"
  have R: "restores ?R" by (rule CoreRestoreTpl_restores[OF Suc])
  show ?case
    unfolding calls_ok_def ev_nested.simps Let_def
    using run_notification_settles[OF R, of "call_service pf ?R oom unregister n"] call_service_settles[OF R] by blast
qed

end
