(* ===== verification/Event_Spec.thy ===== *)
theory Event_Spec
  imports Event_Nest
begin

text \<open>
  What the event services promise: the invariant of every reachable state, the order of
  notifications, the effect of a signal, of a removal and of the creation types, and when the
  check of the timers returns.
\<close>

unbundle bit_operations_syntax

subsection \<open>Reachable states\<close>

definition released :: "'f ev_state \<Rightarrow> bool" where
  "released s \<longleftrightarrow> (\<forall>l. Lock (locks s l) = EfiLockReleased)"

text \<open>A call of a service by code that runs between notifications; env is the rest of the system.\<close>

inductive ev_step :: "platform \<Rightarrow> ('f, 'e) invoker \<Rightarrow> 'e \<times> 'f ev_state \<Rightarrow> 'e \<times> 'f ev_state \<Rightarrow> bool"
  for pf :: platform and invoke :: "('f, 'e) invoker" where
  create: "CoreCreateEventEx pf (CoreRestoreTpl n pf invoke) oom ty tpl fn g want env s = Some (st, r, env', s') \<Longrightarrow>
    ev_step pf invoke (env, s) (env', s')"
| signal: "CoreSignalEvent pf (CoreRestoreTpl n pf invoke) ue env s = Some (st, env', s') \<Longrightarrow>
    ev_step pf invoke (env, s) (env', s')"
| check: "CoreCheckEvent pf (CoreRestoreTpl n pf invoke) ue env s = Some (st, env', s') \<Longrightarrow>
    ev_step pf invoke (env, s) (env', s')"
| wait: "CoreWaitForEvent m pf (CoreRestoreTpl n pf invoke) k ues env s = Some (st, i, env', s') \<Longrightarrow>
    ev_step pf invoke (env, s) (env', s')"
| set_timer: "CoreSetTimer pf (CoreRestoreTpl n pf invoke) ue delay Trigger env s = Some (st, env', s') \<Longrightarrow>
    ev_step pf invoke (env, s) (env', s')"
| close: "CoreCloseEvent pf (CoreRestoreTpl n pf invoke) unregister ue env s = Some (st, env', s') \<Longrightarrow>
    ev_step pf invoke (env, s) (env', s')"
| tick: "CoreTimerTick pf (CoreRestoreTpl n pf invoke) Duration env s = Some (env', s') \<Longrightarrow>
    ev_step pf invoke (env, s) (env', s')"
| raise_tpl: "CoreRaiseTpl pf t s = Some (old, s') \<Longrightarrow> ev_step pf invoke (env, s) (env, s')"
| restore_tpl: "CoreRestoreTpl n pf invoke t env s = Some (env', s') \<Longrightarrow> ev_step pf invoke (env, s) (env', s')"

definition idle_state :: "'f ev_state \<Rightarrow> bool" where
  "idle_state s \<longleftrightarrow> ready s \<and> released s \<and> gEfiCurrentTpl s \<le> 31"

lemma idle_settles: "idle_state s \<Longrightarrow> settles s s' \<Longrightarrow> idle_state s'"
  using settles_lock[of s s'] by (simp add: idle_state_def settles_def released_def)

lemma ev_init_ready: "idle_state (ev_init intr)"
  by (auto simp: idle_state_def released_def ready_def may_run_def calm_def ev_inv_defs ev_init_def init_lock_def tpl_consts
      split: lock_id.splits)

lemma ev_inv_pointers [simp]:
  "ev_inv (s\<lparr>mEfiCheckTimerEvent := x\<rparr>) = ev_inv s" "ev_inv (s\<lparr>gIdleLoopEvent := x\<rparr>) = ev_inv s"
  by (simp_all add: ev_inv_defs)

lemma idle_pointers [simp]:
  "idle_state (s\<lparr>mEfiCheckTimerEvent := x\<rparr>) = idle_state s" "idle_state (s\<lparr>gIdleLoopEvent := x\<rparr>) = idle_state s"
  by (simp_all add: idle_state_def ready_def released_def may_run_def calm_def)

lemma CoreInitializeEventServices_idle:
  assumes R: "restores R" and run: "CoreInitializeEventServices pf R oom env (ev_init intr) = Some (st, env', s')"
  shows "idle_state s'"
proof -
  have q: "ev_init intr\<lparr>gEventQueue := (\<lambda>Index. if Index \<le> TPL_HIGH_LEVEL then [] else gEventQueue (ev_init intr) Index)\<rparr> = ev_init intr"
    by (auto simp: ev_init_def cong: if_cong)
  obtain st1 e1 env1 s1 st2 e2 s2 where
    c1: "CoreCreateEventInternal pf R oom EVT_NOTIFY_SIGNAL (TPL_HIGH_LEVEL - 1) (Some CheckTimers) None True env (ev_init intr) =
      Some (st1, e1, env1, s1)"
    and c2: "CoreCreateEventEx pf R oom EVT_NOTIFY_SIGNAL TPL_NOTIFY (Some EmptyFunction) (Some gIdleLoopEventGuid) True env1
      (s1\<lparr>mEfiCheckTimerEvent := e1\<rparr>) = Some (st2, e2, env', s2)"
    and s': "s' = (case e2 of None \<Rightarrow> s2 | Some e \<Rightarrow> s2\<lparr>gIdleLoopEvent := Some e\<rparr>)"
    using run[unfolded CoreInitializeEventServices_def CoreInitializeTimer_def Let_def q]
    by (auto simp: bind_eq_Some_conv assert_simps split: if_splits)
  note i = ev_init_ready[of intr]
  have "idle_state s1"
    using idle_settles[OF i CoreCreateEventInternal_settles(1)[OF R _ c1]] i by (auto simp: idle_state_def)
  then have j: "idle_state (s1\<lparr>mEfiCheckTimerEvent := e1\<rparr>)" by simp
  have "idle_state s2" using idle_settles[OF j CoreCreateEventEx_settles[OF R _ c2]] j by (auto simp: idle_state_def)
  then show ?thesis by (simp add: s' split: option.split)
qed

lemma CoreRaiseTpl_idle:
  assumes "idle_state s" "CoreRaiseTpl pf t s = Some (old, s')"
  shows "idle_state s'"
proof -
  obtain b where r: "gEfiCurrentTpl s \<le> t" "t \<le> 31" "s' = s\<lparr>gEfiCurrentTpl := t, Interrupts := b\<rparr>"
    using CoreRaiseTpl_eq[OF assms(2)] by blast
  have "calm t s'" using assms(1) r(1,3) by (auto simp: idle_state_def ready_def calm_def intro: order_trans)
  then show ?thesis using assms(1) r by (auto simp: idle_state_def ready_def released_def may_run_def)
qed

lemma CoreRestoreTpl_idle_state:
  assumes R: "restores R" and s: "idle_state s" "t \<le> 31" and run: "R t env s = Some (env', s')"
  shows "idle_state s'"
proof -
  have "may_run t s" using s(1) by (simp add: may_run_def idle_state_def released_def)
  from restoresD(1-3)[OF R run _ this] s show ?thesis
    by (auto simp: idle_state_def ready_def released_def keeps_locks_def)
qed

lemma CoreRestoreTpl_max: "CoreRestoreTpl n pf invoke t env s = Some r \<Longrightarrow> t \<le> 31"
  by (cases n) (auto simp: assert_simps Let_def TPL_HIGH_LEVEL_def split: if_splits)

lemma ev_step_idle:
  assumes I: "calls_ok invoke" and step: "ev_step pf invoke c c'" and s: "idle_state (snd c)"
  shows "idle_state (snd c')"
proof -
  note R = CoreRestoreTpl_restores[OF I]
  have r: "ready (snd c)" using s by (simp add: idle_state_def)
  from step s r show ?thesis
  proof cases
    case (restore_tpl n t env s env' s')
    then show ?thesis using CoreRestoreTpl_idle_state[OF R _ CoreRestoreTpl_max] s by simp
  next
    case (raise_tpl t s old s' env)
    then show ?thesis using CoreRaiseTpl_idle s by simp
  qed (use s r in \<open>auto intro: idle_settles CoreCreateEventEx_settles[OF R] CoreSignalEvent_settles(1)[OF R]
      CoreCheckEvent_settles[OF R] CoreWaitForEvent_settles[OF R] CoreSetTimer_settles[OF R]
      CoreCloseEvent_settles(1)[OF R] CoreTimerTick_settles[OF R]\<close>)
qed

lemma ev_reach_idle:
  assumes I: "calls_ok invoke" and reach: "(ev_step pf invoke)\<^sup>*\<^sup>* c c'" and s: "idle_state (snd c)"
  shows "idle_state (snd c')"
  using reach s by (induction rule: rtranclp_induct) (auto intro: ev_step_idle[OF I])


subsection \<open>Signals\<close>

definition priority :: "'f ev_state \<Rightarrow> nat \<Rightarrow> nat" where
  "priority s x = NotifyTpl (the (events s x))"

lemma priority_queue_event [simp]: "priority (queue_event e s) = priority s"
  by (rule ext) (simp add: priority_def)

lemma queue_events_queue:
  assumes "distinct es" "\<And>p. distinct (gEventQueue s p)"
    "\<And>e p. e \<in> set es \<Longrightarrow> e \<in> set (gEventQueue s p) \<Longrightarrow> priority s e = p"
  shows "gEventQueue (fold queue_event es s) p =
    filter (\<lambda>x. x \<notin> set es) (gEventQueue s p) @ filter (\<lambda>x. priority s x = p) es"
  using assms
proof (induction es arbitrary: s)
  case (Cons e es)
  have q: "gEventQueue (queue_event e s) p =
      (if p = priority s e then filter (\<lambda>x. x \<noteq> e) (gEventQueue s p) @ [e] else gEventQueue s p)" for p
    using Cons.prems(2)[of p] by (auto simp: queue_event_def priority_def Let_def distinct_remove1_removeAll removeAll_filter_not_eq neq_commute)
  have "e \<notin> set (gEventQueue s p)" if "p \<noteq> priority s e" for p
    using Cons.prems(3)[of e p] that by auto
  then have n: "filter (\<lambda>x. x \<noteq> e) (gEventQueue s p) = gEventQueue s p" if "p \<noteq> priority s e" for p
    using that by (auto simp: filter_id_conv)
  have "distinct (gEventQueue (queue_event e s) p)" for p using Cons.prems(2)[of p] by (auto simp: q)
  moreover have "priority s x = p" if "x \<in> set es" "x \<in> set (gEventQueue (queue_event e s) p)" for x p
    using Cons.prems(1) Cons.prems(3)[of x p] that by (auto simp: q split: if_splits)
  ultimately have IH: "gEventQueue (fold queue_event es (queue_event e s)) p =
      filter (\<lambda>x. x \<notin> set es) (gEventQueue (queue_event e s) p) @ filter (\<lambda>x. priority s x = p) es"
    using Cons.IH[of "queue_event e s"] Cons.prems(1) by simp
  have f: "filter (\<lambda>x. x \<notin> set (e # es)) xs = filter (\<lambda>x. x \<notin> set es) (filter (\<lambda>x. x \<noteq> e) xs)" for xs
    by (simp add: conj_commute)
  show ?case unfolding f using IH q[of p] n[of p] Cons.prems(1) by (cases "p = priority s e") auto
qed simp

lemma queue_events_pending:
  assumes "\<And>e. e \<in> set es \<Longrightarrow> priority s e < 31"
  shows "bit (gEventPending (fold queue_event es s)) p \<longleftrightarrow> bit (gEventPending s) p \<or> (\<exists>e \<in> set es. priority s e = p)"
  using assms
proof (induction es arbitrary: s)
  case (Cons e es)
  have "bit (gEventPending (queue_event e s)) p \<longleftrightarrow> bit (gEventPending s) p \<or> p = priority s e"
    using Cons.prems[of e] by (simp add: queue_event_def Let_def bit_or_iff bit_tpl_bit priority_def)
  then show ?case using Cons.IH[of "queue_event e s"] Cons.prems by auto
qed simp

text \<open>The events a signal of e notifies: the members of its group, or e itself.\<close>

definition notified :: "nat \<Rightarrow> 'f ev_state \<Rightarrow> nat list" where
  "notified e s =
     (let ev = the (events s e)
      in if SignalCount ev \<noteq> 0 \<or> Type ev AND EVT_NOTIFY_SIGNAL = 0 then []
         else case EventGroup ev of
                None \<Rightarrow> [e]
              | Some g \<Rightarrow> filter (\<lambda>x. group_guid (the (events s x)) = g) (gEventSignalQueue s))"

lemma signalled_notified:
  assumes "events s e = Some ev"
  shows "signalled e s = fold queue_event (notified e s)
    (s\<lparr>events := (events s)(e \<mapsto> ev\<lparr>SignalCount := (if SignalCount ev = 0 then 1 else SignalCount ev)\<rparr>)\<rparr>)"
proof -
  have "in_group g (s\<lparr>events := (events s)(e \<mapsto> ev\<lparr>SignalCount := 1\<rparr>)\<rparr>) =
      filter (\<lambda>x. group_guid (the (events s x)) = g) (gEventSignalQueue s)" for g
    using assms by (auto simp: in_group_def intro!: filter_cong)
  then show ?thesis
    using assms by (auto simp: signalled_def notified_def Let_def fun_upd_idem split: option.splits)
qed

lemma notified_facts:
  assumes inv: "ev_inv s" and e: "events s e = Some ev"
  shows "distinct (notified e s)" "x \<in> set (notified e s) \<Longrightarrow> \<exists>ev. events s x = Some ev \<and> notifies ev"
proof -
  have d: "distinct (gEventSignalQueue s)" using ev_invD(3)[OF inv] by (simp add: signals_ok_def)
  show "distinct (notified e s)" using d by (simp add: notified_def Let_def split: option.split)
  have "e \<in> set (gEventSignalQueue s)" if "Type ev AND EVT_NOTIFY_SIGNAL \<noteq> 0"
    using ev_invD(3)[OF inv] e that by (auto simp: signals_ok_def)
  then have "set (notified e s) \<subseteq> set (gEventSignalQueue s)"
    using e by (auto simp: notified_def Let_def split: option.splits if_splits)
  then show "x \<in> set (notified e s) \<Longrightarrow> \<exists>ev. events s x = Some ev \<and> notifies ev"
    using signal_queue_notifies[OF inv] by blast
qed

lemma signalled_queue:
  assumes inv: "ev_inv s" and e: "events s e = Some ev"
  shows "gEventQueue (signalled e s) p =
      filter (\<lambda>x. x \<notin> set (notified e s)) (gEventQueue s p) @ filter (\<lambda>x. priority s x = p) (notified e s)"
    "bit (gEventPending (signalled e s)) p \<longleftrightarrow> bit (gEventPending s) p \<or> (\<exists>x \<in> set (notified e s). priority s x = p)"
proof -
  let ?s = "s\<lparr>events := (events s)(e \<mapsto> ev\<lparr>SignalCount := (if SignalCount ev = 0 then 1 else SignalCount ev)\<rparr>)\<rparr>"
  have pr: "priority ?s = priority s" using e by (auto simp: priority_def fun_eq_iff)
  note N = notified_facts[OF inv e]
  have "priority s x = p" if "x \<in> set (gEventQueue s p)" for x p
    using ev_invD(1)[OF inv] that by (fastforce simp: queues_ok_def priority_def)
  moreover have "distinct (gEventQueue s p)" for p using ev_invD(1)[OF inv] by (simp add: queues_ok_def)
  ultimately show "gEventQueue (signalled e s) p =
      filter (\<lambda>x. x \<notin> set (notified e s)) (gEventQueue s p) @ filter (\<lambda>x. priority s x = p) (notified e s)"
    using queue_events_queue[of "notified e s" ?s p] N(1) by (simp add: signalled_notified[OF e] pr)
  have "priority ?s x < 31" if "x \<in> set (notified e s)" for x
    using N(2)[OF that] by (auto simp: pr priority_def notifies_def tpl_consts)
  from queue_events_pending[of "notified e s" ?s p, OF this]
  show "bit (gEventPending (signalled e s)) p \<longleftrightarrow> bit (gEventPending s) p \<or> (\<exists>x \<in> set (notified e s). priority s x = p)"
    by (simp add: signalled_notified[OF e] pr)
qed


subsection \<open>Concrete states\<close>

text \<open>
  A platform, callbacks that only log their event, and the state with one event: a timer with
  the given period, due at the given time.
\<close>

definition demo_pf :: platform where
  "demo_pf = \<lparr>gCpu = True, gSmmBase2 = None, GetTimerPeriod = 100000\<rparr>"

definition log_call :: "(nat, nat list) invoker" where
  "log_call f e env s = Some (env @ [e], s)"

definition demo_event :: "u64 \<Rightarrow> u64 \<Rightarrow> nat ievent" where
  "demo_event trigger per = \<lparr>Type = EVT_TIMER OR EVT_NOTIFY_SIGNAL, SignalCount = 0, NotifyTpl = 8,
     NotifyFunction = Some (External 7), EventGroup = None, ProtocolNotify = False,
     TriggerTime = trigger, Period = per\<rparr>"

definition demo_events :: "u64 \<Rightarrow> u64 \<Rightarrow> nat ev_state" where
  "demo_events trigger per = (add_event (demo_event trigger per) (ev_init True))\<lparr>mEfiSystemTime := 100, mEfiTimerList := [1], gEfiCurrentTpl := 30\<rparr>"

lemma log_call_quiet: "quiet log_call (\<lambda>f e env. env @ [e])"
  by (simp add: quiet_def log_call_def)

lemma log_call_ok: "calls_ok log_call"
  by (rule quiet_calls_ok[OF log_call_quiet])

lemma demo_event_fields [simp]:
  "events (demo_events a b) = [1 \<mapsto> demo_event a b]" "mEfiTimerList (demo_events a b) = [1]"
  "gEfiCurrentTpl (demo_events a b) = 30" "mEfiSystemTime (demo_events a b) = 100"
  "gEventPending (demo_events a b) = 0"
  "gEventQueue (demo_events a b) p = []" "gEventSignalQueue (demo_events a b) = [1]"
  by (simp_all add: demo_events_def add_event_def ev_init_def Let_def demo_event_def evt_consts)

lemma demo_locks [simp]: "locks (demo_events a b) = locks (ev_init True :: nat ev_state)"
  by (simp add: demo_events_def)

lemma demo_types:
  "Type (demo_event a b) AND EVT_TIMER \<noteq> 0" "Type (demo_event a b) AND EVT_NOTIFY_SIGNAL \<noteq> 0"
  "notifies (demo_event a b)"
  by (simp_all add: demo_event_def evt_consts notifies_def tpl_consts)

lemma demo_idle: "idle_state (demo_events a b)"
proof -
  have i: "idle_state (ev_init True :: nat ev_state)" by (rule ev_init_ready)
  have "ev_inv (add_event (demo_event a b) (ev_init True))"
    using i demo_types(3) by (intro add_event_inv) (auto simp: idle_state_def ready_def)
  note D = ev_invD[OF this]
  have "timers_ok (demo_events a b)" using demo_types by (auto simp: timers_ok_def)
  then have "ev_inv (demo_events a b)"
    using D by (simp add: ev_inv_def demo_events_def queues_ok_def pending_ok_def signals_ok_def events_ok_def locks_ok_def)
  then show ?thesis using i by (simp add: idle_state_def ready_def released_def may_run_def calm_def)
qed

lemma services_keep_events:
  assumes "calls_ok invoke"
    and "CoreInitializeEventServices pf (CoreRestoreTpl n pf invoke) oom env0 (ev_init intr) = Some (st, env1, s1)"
    and "(ev_step pf invoke)\<^sup>*\<^sup>* (env1, s1) (env, s)"
  shows "(\<forall>p. distinct (gEventQueue s p) \<and> (gEventQueue s p \<noteq> [] \<longrightarrow> p \<le> gEfiCurrentTpl s)) \<and>
    (\<forall>p. \<forall>e \<in> set (gEventQueue s p). \<exists>ev. events s e = Some ev \<and> NotifyTpl ev = p \<and> NotifyFunction ev \<noteq> None) \<and>
    distinct (gEventSignalQueue s) \<and>
    set (gEventSignalQueue s) = {e. \<exists>ev. events s e = Some ev \<and> Type ev AND EVT_NOTIFY_SIGNAL \<noteq> 0} \<and>
    distinct (mEfiTimerList s) \<and> sorted (map (\<lambda>e. TriggerTime (the (events s e))) (mEfiTimerList s)) \<and>
    (\<forall>e \<in> set (mEfiTimerList s). \<exists>ev. events s e = Some ev \<and> Type ev AND EVT_TIMER \<noteq> 0) \<and>
    (\<forall>l. Lock (locks s l) = EfiLockReleased)"
proof -
  have "idle_state s1" by (rule CoreInitializeEventServices_idle[OF CoreRestoreTpl_restores[OF assms(1)] assms(2)])
  with ev_reach_idle[OF assms(1,3)] have "idle_state s" by simp
  then have "ev_inv s" "calm (gEfiCurrentTpl s) s" "released s" by (simp_all add: idle_state_def ready_def)
  note D = ev_invD[OF this(1)] and c = this(2,3)
  have "p \<le> gEfiCurrentTpl s" if "gEventQueue s p \<noteq> []" for p
  proof -
    have "hd (gEventQueue s p) \<in> set (gEventQueue s p)" using that by simp
    then have "bit (gEventPending s) p" using D(1) unfolding queues_ok_def by blast
    then show ?thesis using c(1) by (simp add: calm_def)
  qed
  moreover have "\<forall>p. \<forall>e \<in> set (gEventQueue s p). \<exists>ev. events s e = Some ev \<and> NotifyTpl ev = p \<and> NotifyFunction ev \<noteq> None"
    using D(1) unfolding queues_ok_def notifies_def by metis
  moreover have "set (gEventSignalQueue s) = {e. \<exists>ev. events s e = Some ev \<and> Type ev AND EVT_NOTIFY_SIGNAL \<noteq> 0}"
    using D(3) by (auto simp: signals_ok_def)
  ultimately show ?thesis
    using D(1,3,5) c(2) by (simp add: queues_ok_def signals_ok_def timers_ok_def released_def)
qed

subsection \<open>The properties\<close>

text \<open>C3: Safety of the event services, for notification functions that are programs over the services: they
  read the state, create, signal, check, wait for, arm and close events, are interrupted by the timer,
  raise the priority and restore it, and change the rest of the system, with notifications within
  notifications to any depth m. In every state that calls of the services reach from the initialized
  services: every queued event exists, is in the queue of its own priority only, once, and has a
  function; the signal queue holds exactly the events with a signal notification; the timer list
  holds timer events sorted by trigger time; no lock is held; and no event is queued above the
  current priority.\<close>

theorem event_services_safe:
  assumes "CoreInitializeEventServices pf (CoreRestoreTpl n pf (ev_nested m pf out unregister behaviour)) oom env0 (ev_init intr) =
      Some (st, env1, s1)"
    and "(ev_step pf (ev_nested m pf out unregister behaviour))\<^sup>*\<^sup>* (env1, s1) (env, s)"
  shows "(\<forall>p. distinct (gEventQueue s p) \<and> (gEventQueue s p \<noteq> [] \<longrightarrow> p \<le> gEfiCurrentTpl s)) \<and>
    (\<forall>p. \<forall>e \<in> set (gEventQueue s p). \<exists>ev. events s e = Some ev \<and> NotifyTpl ev = p \<and> NotifyFunction ev \<noteq> None) \<and>
    distinct (gEventSignalQueue s) \<and>
    set (gEventSignalQueue s) = {e. \<exists>ev. events s e = Some ev \<and> Type ev AND EVT_NOTIFY_SIGNAL \<noteq> 0} \<and>
    distinct (mEfiTimerList s) \<and> sorted (map (\<lambda>e. TriggerTime (the (events s e))) (mEfiTimerList s)) \<and>
    (\<forall>e \<in> set (mEfiTimerList s). \<exists>ev. events s e = Some ev \<and> Type ev AND EVT_TIMER \<noteq> 0) \<and>
    (\<forall>l. Lock (locks s l) = EfiLockReleased)"
  by (rule services_keep_events[OF ev_nested_ok assms])

text \<open>Two events of TPL_CALLBACK.  The function 1 of the first raises the priority, signals the second and
  arms it as a timer, and logs; the function of the second logs only.\<close>

definition demo_behaviour :: "nat \<Rightarrow> nat \<Rightarrow> (nat, nat list) notification" where
  "demo_behaviour f e = Update (\<lambda>env. env @ [f])
     (if f = 1 then AtTpl 16 (Use (SignalEvent (Some 4)) (\<lambda>r. Use (SetTimer (Some 4) TimerRelative 50) (\<lambda>r. Done))) Done else Done)"

definition demo_invoke :: "(nat, nat list) invoker" where
  "demo_invoke = ev_nested (Suc (Suc (Suc 0))) demo_pf (\<lambda>_. False) (\<lambda>_ env. env) demo_behaviour"

definition demo_init :: "(efi_status \<times> nat list \<times> nat ev_state) option" where
  "demo_init = CoreInitializeEventServices demo_pf (CoreRestoreTpl (Suc (Suc (Suc (Suc 0)))) demo_pf demo_invoke) (\<lambda>_. False) [] (ev_init True)"

definition demo_create :: "nat \<Rightarrow> nat list \<times> nat ev_state \<Rightarrow> (efi_status \<times> nat option \<times> nat list \<times> nat ev_state) option" where
  "demo_create f c = (case c of (env, s) \<Rightarrow> CoreCreateEventEx demo_pf (CoreRestoreTpl (Suc (Suc (Suc (Suc 0)))) demo_pf demo_invoke) (\<lambda>_. False)
     (EVT_TIMER OR EVT_NOTIFY_SIGNAL) 8 (Some (External f)) None True env s)"

definition demo_run :: "(nat list \<times> nat ev_state) option" where
  "demo_run = do {
     (st, env, s) \<leftarrow> demo_init;
     (st, e1, env, s) \<leftarrow> demo_create 1 (env, s);
     (st, e2, env, s) \<leftarrow> demo_create 2 (env, s);
     (st, env, s) \<leftarrow> CoreSignalEvent demo_pf (CoreRestoreTpl (Suc (Suc (Suc (Suc 0)))) demo_pf demo_invoke) e1 env s;
     Some (env, s)
   }"

text \<open>The run, one call at a time: the continuation of a call is left alone until the call has returned.\<close>

lemma bind_weak: "x = y \<Longrightarrow> Option.bind x f = Option.bind y f"
  by simp

lemma let_weak: "x = y \<Longrightarrow> Let x f = Let y f"
  by simp

lemma CoreRestoreTpl_run:
  "CoreRestoreTpl (Suc n) pf invoke NewTpl env s = do {
     let OldTpl = gEfiCurrentTpl s;
     ASSERT (\<not> NewTpl > OldTpl);
     ASSERT (NewTpl \<le> TPL_HIGH_LEVEL);
     let s = (if OldTpl \<ge> TPL_HIGH_LEVEL \<and> NewTpl < TPL_HIGH_LEVEL
              then s\<lparr>gEfiCurrentTpl := TPL_HIGH_LEVEL\<rparr> else s);
     (env, s) \<leftarrow> restore_loop n pf (CoreRestoreTpl n pf invoke) invoke n NewTpl env s;
     let s = s\<lparr>gEfiCurrentTpl := NewTpl\<rparr>;
     Some (env, if gEfiCurrentTpl s < TPL_HIGH_LEVEL then CoreSetInterruptState pf True s else s)
   }"
  by simp

lemma ev_nested_run:
  "ev_nested (Suc n) pf oom unregister behaviour f e env s =
     run_notification pf (CoreRestoreTpl n pf (ev_nested n pf oom unregister behaviour))
       (call_service pf (CoreRestoreTpl n pf (ev_nested n pf oom unregister behaviour)) oom unregister n) (behaviour f e) env s"
  by (simp add: Let_def)

lemmas service_defs = CoreInitializeEventServices_def CoreInitializeTimer_def CoreCreateEventInternal_def CoreCreateEventEx_def
  CoreAcquireLock_def CoreAcquireLockOrFail_def CoreReleaseLock_def CoreAcquireEventLock_def CoreReleaseEventLock_def
  CoreNotifyEvent_def CoreNotifySignalList_def CoreSignalEvent_def CoreSetTimer_def CoreInsertEventTimer_def
  CoreCurrentSystemTime_def CoreRaiseTpl_def CoreSetInterruptState_def CoreDispatchEventNotifies_def call_notify_def
  evt_consts tpl_consts Let_def assert_simps group_guid_def tpl_bit_def tpl_mask_def init_lock_def mEventTable_def

lemmas demo_defs = demo_run_def demo_create_def demo_init_def ev_init_def demo_pf_def demo_invoke_def demo_behaviour_def answer_def

lemma demo_values:
  "HighBitSet64 256 = 8" "gIdleLoopEventGuid \<noteq> gEfiEventVirtualAddressChangeGuid" "gIdleLoopEventGuid \<noteq> gEfiEventExitBootServicesGuid"
  by code_simp+

lemma demo_run_log: "\<exists>s. demo_run = Some ([1, 2], s) \<and> mEfiTimerList s = [4]"
  by (simp add: demo_defs CoreRestoreTpl_run ev_nested_run service_defs demo_values
    del: CoreRestoreTpl.simps ev_nested.simps cong: bind_weak let_weak)

lemma demo_run_reach:
  assumes "demo_run = Some (env, s)"
  shows "\<exists>st env1 s1. demo_init = Some (st, env1, s1) \<and> (ev_step demo_pf demo_invoke)\<^sup>*\<^sup>* (env1, s1) (env, s)"
proof -
  obtain st env1 s1 st2 e1 env2 s2 st3 e2 env3 s3 st4 where r: "demo_init = Some (st, env1, s1)"
    "demo_create 1 (env1, s1) = Some (st2, e1, env2, s2)" "demo_create 2 (env2, s2) = Some (st3, e2, env3, s3)"
    "CoreSignalEvent demo_pf (CoreRestoreTpl (Suc (Suc (Suc (Suc 0)))) demo_pf demo_invoke) e1 env3 s3 = Some (st4, env, s)"
    using assms by (auto simp: demo_run_def bind_eq_Some_conv simp del: CoreRestoreTpl.simps)
  have "ev_step demo_pf demo_invoke (env1, s1) (env2, s2)" "ev_step demo_pf demo_invoke (env2, s2) (env3, s3)"
    "ev_step demo_pf demo_invoke (env3, s3) (env, s)"
    using r(2-4) unfolding demo_create_def prod.case by (blast intro: ev_step.intros)+
  then show ?thesis using r(1) by (blast intro: rtranclp.intros)
qed

theorem event_services_safe_witness:
  "\<exists>s. demo_run = Some ([1, 2], s) \<and> mEfiTimerList s = [4] \<and> distinct (gEventSignalQueue s) \<and>
    (\<forall>l. Lock (locks s l) = EfiLockReleased)"
proof -
  obtain s where s: "demo_run = Some ([1, 2], s)" "mEfiTimerList s = [4]" using demo_run_log by blast
  from demo_run_reach[OF s(1)] obtain st env1 s1 where "demo_init = Some (st, env1, s1)"
    "(ev_step demo_pf demo_invoke)\<^sup>*\<^sup>* (env1, s1) ([1, 2], s)" by blast
  from event_services_safe[OF this[unfolded demo_init_def demo_invoke_def]] show ?thesis using s by (intro exI[of _ s]) simp
qed

text \<open>C4: The order of notifications. When the notification functions leave the event services
  alone, CoreRestoreTpl returns and calls exactly the notifications queued above the new
  priority, higher priorities first and each priority in the order of its queue, and leaves the
  other queues as they were.\<close>

theorem CoreRestoreTpl_order:
  assumes "\<forall>f e env s. invoke f e env s = Some (eff f e env, s)"
    and "ev_inv s" "\<forall>l. Lock (locks s l) = EfiLockReleased" "t \<le> gEfiCurrentTpl s" "t \<le> 31"
    and "\<forall>p > t. \<forall>e \<in> set (gEventQueue s p). \<exists>ev f. events s e = Some ev \<and> NotifyFunction ev = Some (External f)"
    and "31 \<le> n" "\<forall>p. length (gEventQueue s p) < n"
  shows "\<exists>s'. CoreRestoreTpl (Suc n) pf invoke t env s =
        Some (fold (\<lambda>e. case NotifyFunction (the (events s e)) of Some (External f) \<Rightarrow> eff f e | _ \<Rightarrow> id)
          (concat (map (gEventQueue s) (rev [Suc t..<31]))) env, s') \<and>
      gEfiCurrentTpl s' = t \<and> (\<forall>p. gEventQueue s' p = (if t < p then [] else gEventQueue s p))"
proof -
  have q: "quiet invoke eff" using assms(1) by (simp add: quiet_def)
  have m: "may_run t s" using assms(3) by (simp add: may_run_def)
  have x: "external t s" using assms(6) by (fastforce simp: external_def function_of_def)
  obtain s' where s': "CoreRestoreTpl (Suc n) pf invoke t env s =
      Some (fold (call eff (function_of s)) (order_above t (gEventQueue s)) env, s')"
    "gEfiCurrentTpl s' = t" "\<forall>p. gEventQueue s' p = (if t < p then [] else gEventQueue s p)"
    using CoreRestoreTpl_quiet[OF q assms(2) m _ assms(4,5) x assms(7,8)] assms(3) by blast
  have "fold (call eff (function_of s)) (order_above t (gEventQueue s)) env =
      fold (\<lambda>e. case NotifyFunction (the (events s e)) of Some (External f) \<Rightarrow> eff f e | _ \<Rightarrow> id)
        (order_above t (gEventQueue s)) env"
  proof (rule fold_cong[OF refl refl], rule ext)
    fix e env assume "e \<in> set (order_above t (gEventQueue s))"
    then obtain p where "Suc t \<le> p" "e \<in> set (gEventQueue s p)" by (auto simp: order_above_def)
    then have "t < p" "e \<in> set (gEventQueue s p)" by simp_all
    then have "\<exists>ev. events s e = Some ev" using assms(6) by blast
    then show "call eff (function_of s) e env =
        (case NotifyFunction (the (events s e)) of Some (External f) \<Rightarrow> eff f e | _ \<Rightarrow> id) env"
      by (auto simp: call_def function_of_def split: option.splits notify.splits)
  qed
  then show ?thesis using s' by (auto simp: order_above_def)
qed

theorem CoreRestoreTpl_order_witness:
  "\<exists>s'. CoreRestoreTpl 32 demo_pf log_call 4 [] (queue_event 1 (demo_events 0 0)) = Some ([1], s')"
proof -
  let ?s = "queue_event 1 (demo_events 0 0)"
  have i: "ev_inv (demo_events 0 0)" using demo_idle by (simp add: idle_state_def ready_def)
  have e: "events (demo_events 0 0) 1 = Some (demo_event 0 0)" by simp
  have Q: "gEventQueue ?s = (\<lambda>_. [])(8 := [1])" by (auto simp: queue_event_def Let_def demo_event_def fun_eq_iff)
  have l: "\<forall>l. Lock (locks ?s l) = EfiLockReleased"
    using demo_idle[of 0 0] by (simp add: idle_state_def released_def)
  have x: "\<forall>p > 4. \<forall>e \<in> set (gEventQueue ?s p). \<exists>ev f. events ?s e = Some ev \<and> NotifyFunction ev = Some (External f)"
    unfolding Q by (simp add: demo_event_def)
  have n: "\<forall>p. length (gEventQueue ?s p) < 31" unfolding Q by simp
  have o: "concat (map (gEventQueue ?s) (rev [Suc 4..<31])) = [1]" unfolding Q by code_simp
  have "\<exists>s'. CoreRestoreTpl (Suc 31) demo_pf log_call 4 [] ?s =
      Some (fold (\<lambda>e. case NotifyFunction (the (events ?s e)) of Some (External f) \<Rightarrow> (\<lambda>env. env @ [e]) | _ \<Rightarrow> id)
          (concat (map (gEventQueue ?s) (rev [Suc 4..<31]))) [], s') \<and>
      gEfiCurrentTpl s' = 4 \<and> (\<forall>p. gEventQueue s' p = (if 4 < p then [] else gEventQueue ?s p))"
    by (rule CoreRestoreTpl_order[of log_call "\<lambda>f e env. env @ [e]" ?s 4 31 demo_pf "[]"])
      (use l x n queue_event_inv[OF i e demo_types(3)] in \<open>simp_all add: log_call_def\<close>)
  then obtain s' where "CoreRestoreTpl (Suc 31) demo_pf log_call 4 [] ?s =
      Some (fold (\<lambda>e. case NotifyFunction (the (events ?s e)) of Some (External f) \<Rightarrow> (\<lambda>env. env @ [e]) | _ \<Rightarrow> id) [1] [], s')"
    unfolding o by blast
  moreover have "NotifyFunction (the (events ?s 1)) = Some (External 7)" by (simp add: demo_event_def)
  moreover have "Suc 31 = 32" by simp
  ultimately show ?thesis by (auto simp del: CoreRestoreTpl.simps)
qed


lemma tpl_restores: "calls_ok invoke \<Longrightarrow> restores (CoreRestoreTpl n pf invoke)"
  by (rule CoreRestoreTpl_restores)

lemma idle_free: "idle_state s \<Longrightarrow> free_at gEventQueueLock s"
  by (simp add: idle_state_def released_def free_at_def ready_def ev_inv_def locks_ok_def)

lemma signalled_calm:
  assumes "idle_state s" "events s e = Some ev" "\<forall>x \<in> set (notified e s). priority s x \<le> gEfiCurrentTpl s"
  shows "calm (gEfiCurrentTpl s) (signalled e s)"
  using assms signalled_queue(2)[OF _ assms(2)] by (auto simp: calm_def idle_state_def ready_def)

text \<open>C19: A signal. When the events it notifies are not above the current priority,
  CoreSignalEvent succeeds without running anything: the event is counted once, each notified
  event (the members of the group in the order of the signal queue, or the event itself; none if
  the event was counted already or has no signal notification) moves to the end of the queue of
  its priority, which becomes pending, and nothing else is queued.\<close>

theorem CoreSignalEvent_queues:
  assumes "calls_ok invoke" "idle_state s" "events s e = Some ev"
    and "\<forall>x \<in> set (notified e s). NotifyTpl (the (events s x)) \<le> gEfiCurrentTpl s"
  shows "\<exists>s'. CoreSignalEvent pf (CoreRestoreTpl (Suc (Suc n)) pf invoke) (Some e) env s = Some (EFI_SUCCESS, env, s') \<and>
      events s' = (events s)(e \<mapsto> ev\<lparr>SignalCount := (if SignalCount ev = 0 then 1 else SignalCount ev)\<rparr>) \<and>
      (\<forall>p. gEventQueue s' p = filter (\<lambda>x. x \<notin> set (notified e s)) (gEventQueue s p) @
         filter (\<lambda>x. NotifyTpl (the (events s x)) = p) (notified e s)) \<and>
      (\<forall>p. bit (gEventPending s') p \<longleftrightarrow>
         bit (gEventPending s) p \<or> (\<exists>x \<in> set (notified e s). NotifyTpl (the (events s x)) = p)) \<and>
      mEfiTimerList s' = mEfiTimerList s \<and> gEfiCurrentTpl s' = gEfiCurrentTpl s \<and> idle_state s'"
proof -
  have r: "ready s" and inv: "ev_inv s" using assms(2) by (simp_all add: idle_state_def ready_def)
  have c: "calm (gEfiCurrentTpl s) (signalled e s)"
    using signalled_calm[OF assms(2,3)] assms(4) by (simp add: priority_def)
  obtain s' where s': "CoreSignalEvent pf (CoreRestoreTpl (Suc (Suc n)) pf invoke) (Some e) env s = Some (EFI_SUCCESS, env, s')"
    "same_events (signalled e s) s'" "settles s s'"
    using CoreSignalEvent_total[OF tpl_restores[OF assms(1)] CoreRestoreTpl_answers r idle_free[OF assms(2)] assms(3) c] .
  have "events s' = (events s)(e \<mapsto> ev\<lparr>SignalCount := (if SignalCount ev = 0 then 1 else SignalCount ev)\<rparr>)"
    using s'(2) assms(3) by (auto simp: same_events_iff signalled_events)
  then show ?thesis
    using s' idle_settles[OF assms(2) s'(3)] settlesD(3)[OF s'(3)] signalled_queue[OF inv assms(3)]
    by (simp add: same_events_iff priority_def del: CoreRestoreTpl.simps)
qed

theorem CoreSignalEvent_queues_witness:
  "\<exists>s'. CoreSignalEvent demo_pf (CoreRestoreTpl 4 demo_pf log_call) (Some 1) [] (demo_events 0 0) =
      Some (EFI_SUCCESS, [], s') \<and> gEventQueue s' 8 = [1] \<and> bit (gEventPending s') 8"
proof -
  have n: "notified 1 (demo_events 0 0) = [1]" by (simp add: notified_def Let_def demo_event_def evt_consts)
  have p: "NotifyTpl (the (events (demo_events 0 0) 1)) = 8" by (simp add: demo_event_def)
  have "\<forall>x \<in> set (notified 1 (demo_events 0 0)). NotifyTpl (the (events (demo_events 0 0) x)) \<le> gEfiCurrentTpl (demo_events 0 0)"
    unfolding n by (simp add: demo_event_def)
  from CoreSignalEvent_queues[OF log_call_ok demo_idle _ this, of "demo_event 0 0" demo_pf 2 "[]"] obtain s' where
    s': "CoreSignalEvent demo_pf (CoreRestoreTpl (Suc (Suc 2)) demo_pf log_call) (Some 1) [] (demo_events 0 0) = Some (EFI_SUCCESS, [], s')"
    "\<forall>p. gEventQueue s' p = filter (\<lambda>x. x \<notin> set (notified 1 (demo_events 0 0))) (gEventQueue (demo_events 0 0) p) @
       filter (\<lambda>x. NotifyTpl (the (events (demo_events 0 0) x)) = p) (notified 1 (demo_events 0 0))"
    "\<forall>p. bit (gEventPending s') p \<longleftrightarrow> bit (gEventPending (demo_events 0 0)) p \<or>
       (\<exists>x \<in> set (notified 1 (demo_events 0 0)). NotifyTpl (the (events (demo_events 0 0) x)) = p)"
    by auto
  have "gEventQueue s' 8 = [1]" using spec[OF s'(2), of 8] unfolding n by (simp add: demo_event_def)
  moreover have "bit (gEventPending s') 8" using spec[OF s'(3), of 8] unfolding n by (simp add: demo_event_def)
  moreover have "Suc (Suc 2) = 4" by simp
  ultimately show ?thesis using s'(1) by (metis (no_types))
qed

text \<open>Removal. A closed event is gone: it is in no notification queue, in the signal queue, or
  in the timer list, every other event is as before, and a later signal, check or SetTimer of it
  is refused with EFI_INVALID_PARAMETER.\<close>

theorem CoreCloseEvent_removes:
  assumes "calls_ok invoke" "ready s" "events s e = Some ev"
    and "CoreCloseEvent pf (CoreRestoreTpl n pf invoke) unregister (Some e) env s = Some (st, env', s')"
  shows "st = EFI_SUCCESS \<and> events s' = (events s)(e := None) \<and> (\<forall>p. e \<notin> set (gEventQueue s' p)) \<and>
    e \<notin> set (gEventSignalQueue s') \<and> e \<notin> set (mEfiTimerList s') \<and>
    CoreSignalEvent pf R (Some e) env2 s' = Some (EFI_INVALID_PARAMETER, env2, s') \<and>
    CoreCheckEvent pf R (Some e) env2 s' = Some (EFI_INVALID_PARAMETER, env2, s') \<and>
    CoreSetTimer pf R (Some e) delay Trigger env2 s' = Some (EFI_INVALID_PARAMETER, env2, s')"
proof -
  note C = CoreCloseEvent_settles[OF tpl_restores[OF assms(1)] assms(2,4)]
  have ev: "st = EFI_SUCCESS" "events s' = (events s)(e := None)" using C(2)[of e] assms(3) by simp_all
  note D = ev_invD[OF settlesD(2)[OF C(1)]]
  have gone: "events s' e = None" using ev(2) by simp
  then have "\<forall>p. e \<notin> set (gEventQueue s' p)" using D(1) unfolding queues_ok_def by fastforce
  moreover have "e \<notin> set (gEventSignalQueue s')" "e \<notin> set (mEfiTimerList s')"
    using D(3,5) gone by (auto simp: signals_ok_def timers_ok_def)
  ultimately show ?thesis using ev gone by (simp add: CoreSignalEvent_def CoreCheckEvent_def CoreSetTimer_def)
qed

theorem CoreCloseEvent_removes_witness:
  "\<exists>env' s'. CoreCloseEvent demo_pf (CoreRestoreTpl 4 demo_pf log_call) (\<lambda>_ env. env) (Some 1) [] (demo_events 200 0) =
      Some (EFI_SUCCESS, env', s') \<and> mEfiTimerList s' = [] \<and> events s' 1 = None"
proof -
  have "CoreCloseEvent demo_pf (CoreRestoreTpl 4 demo_pf log_call) (\<lambda>_ env. env) (Some 1) [] (demo_events 200 0) \<noteq> None"
    by code_simp
  then obtain st env' s' where
    run: "CoreCloseEvent demo_pf (CoreRestoreTpl 4 demo_pf log_call) (\<lambda>_ env. env) (Some 1) [] (demo_events 200 0) = Some (st, env', s')"
    by auto
  have r: "ready (demo_events 200 0)" using demo_idle by (simp add: idle_state_def)
  have e: "events (demo_events 200 0) 1 = Some (demo_event 200 0)" by simp
  note C = CoreCloseEvent_removes[OF log_call_ok r e run, of "CoreRestoreTpl 4 demo_pf log_call" "[]" TimerCancel 0]
  have "ev_inv s'" by (rule settlesD(2)[OF CoreCloseEvent_settles(1)[OF tpl_restores[OF log_call_ok] r run]])
  from ev_invD(5)[OF this] C have "set (mEfiTimerList s') = {}" by (auto simp: timers_ok_def split: if_splits)
  then show ?thesis using run C by simp
qed

text \<open>The legacy event types. EVT_SIGNAL_EXIT_BOOT_SERVICES and
  EVT_SIGNAL_VIRTUAL_ADDRESS_CHANGE without a group are the same as any other accepted event type
  with the group of that name, on every path and for every caller, except that the bits of the
  type itself do not enter.\<close>

theorem legacy_types_are_groups:
  assumes "ty \<in> set mEventTable" "ty \<noteq> EVT_SIGNAL_EXIT_BOOT_SERVICES" "ty \<noteq> EVT_SIGNAL_VIRTUAL_ADDRESS_CHANGE"
  shows "CoreCreateEventInternal pf R oom ty tpl fn (Some gEfiEventExitBootServicesGuid) want env s =
      CoreCreateEventInternal pf R oom EVT_SIGNAL_EXIT_BOOT_SERVICES tpl fn None want env s \<and>
    CoreCreateEventInternal pf R oom ty tpl fn (Some gEfiEventVirtualAddressChangeGuid) want env s =
      CoreCreateEventInternal pf R oom EVT_SIGNAL_VIRTUAL_ADDRESS_CHANGE tpl fn None want env s"
proof -
  have g: "gEfiEventExitBootServicesGuid \<noteq> gEfiEventVirtualAddressChangeGuid" by code_simp
  have k: "event_kind ty (Some gEfiEventExitBootServicesGuid) = event_kind EVT_SIGNAL_EXIT_BOOT_SERVICES None"
    "event_kind ty (Some gEfiEventVirtualAddressChangeGuid) = event_kind EVT_SIGNAL_VIRTUAL_ADDRESS_CHANGE None"
    using g by (simp_all add: event_kind_def evt_consts)
  have t: "EVT_SIGNAL_EXIT_BOOT_SERVICES \<in> set mEventTable" "EVT_SIGNAL_VIRTUAL_ADDRESS_CHANGE \<in> set mEventTable"
    by (simp_all add: mEventTable_def)
  have a: "accepted ty tpl fn (Some gEfiEventExitBootServicesGuid) = accepted EVT_SIGNAL_EXIT_BOOT_SERVICES tpl fn None"
    "accepted ty tpl fn (Some gEfiEventVirtualAddressChangeGuid) = accepted EVT_SIGNAL_VIRTUAL_ADDRESS_CHANGE tpl fn None"
    using assms t k by (simp_all add: accepted_def)
  have n: "new_event ty tpl fn (Some gEfiEventExitBootServicesGuid) = new_event EVT_SIGNAL_EXIT_BOOT_SERVICES tpl fn None"
    "new_event ty tpl fn (Some gEfiEventVirtualAddressChangeGuid) = new_event EVT_SIGNAL_VIRTUAL_ADDRESS_CHANGE tpl fn None"
    using k by (simp_all add: new_event_def)
  show ?thesis unfolding CoreCreateEventInternal_eq a n by simp
qed

theorem legacy_types_are_groups_witness:
  "CoreCreateEventInternal demo_pf (CoreRestoreTpl 4 demo_pf log_call) (\<lambda>_. False) EVT_NOTIFY_SIGNAL 8 (Some EmptyFunction)
      (Some gEfiEventExitBootServicesGuid) True [] (demo_events 0 0) =
    CoreCreateEventInternal demo_pf (CoreRestoreTpl 4 demo_pf log_call) (\<lambda>_. False) EVT_SIGNAL_EXIT_BOOT_SERVICES 8
      (Some EmptyFunction) None True [] (demo_events 0 0)"
proof -
  have "EVT_NOTIFY_SIGNAL \<in> set mEventTable" "EVT_NOTIFY_SIGNAL \<noteq> EVT_SIGNAL_EXIT_BOOT_SERVICES"
    "EVT_NOTIFY_SIGNAL \<noteq> EVT_SIGNAL_VIRTUAL_ADDRESS_CHANGE" by code_simp+
  from legacy_types_are_groups[OF this] show ?thesis by (rule conjunct1)
qed

text \<open>C20: The check of the timers returns. When no next trigger time overflows, CoreCheckTimers, run
  at the priority of its event, returns after at most two rounds for each timer: every timer that
  was due is counted as signalled, one-shot timers that were due are off the list and all others
  are on it, and each timer on the list fires after now, at its old time, one period later, or,
  when that is past too, one period from now.\<close>

theorem CoreCheckTimers_returns:
  assumes "calls_ok invoke" "ready s" "gEfiCurrentTpl s = 30" "\<forall>l. Lock (locks s l) = EfiLockReleased"
    and "\<forall>x \<in> set (mEfiTimerList s). Period (the (events s x)) = 0 \<or>
      mEfiSystemTime s < mEfiSystemTime s + Period (the (events s x))"
    and "2 * length (mEfiTimerList s) < fuel"
  shows "\<exists>s'. CoreCheckTimers fuel pf (CoreRestoreTpl (Suc (Suc n)) pf invoke) env s = Some (env, s') \<and>
      set (mEfiTimerList s') = {x \<in> set (mEfiTimerList s).
        TriggerTime (the (events s x)) > mEfiSystemTime s \<or> Period (the (events s x)) \<noteq> 0} \<and>
      (\<forall>x \<in> set (mEfiTimerList s). TriggerTime (the (events s x)) \<le> mEfiSystemTime s \<longrightarrow>
        (\<exists>ev. events s' x = Some ev \<and> SignalCount ev \<noteq> 0)) \<and>
      (\<forall>x \<in> set (mEfiTimerList s'). TriggerTime (the (events s' x)) > mEfiSystemTime s \<and>
        TriggerTime (the (events s' x)) =
          (let t = TriggerTime (the (events s x)); p = Period (the (events s x)); now = mEfiSystemTime s
           in if t > now then t else if t + p > now then t + p else now + p)) \<and>
      sorted (map (\<lambda>x. TriggerTime (the (events s' x))) (mEfiTimerList s'))"
proof -
  let ?now = "mEfiSystemTime s"
  have ex: "\<exists>ev. events s x = Some ev" if "x \<in> set (mEfiTimerList s)" for x
    using ev_invD(5)[OF readyD(1)[OF assms(2)]] that by (auto simp: timers_ok_def)
  have tm: "TriggerTime (tm s x) = TriggerTime (the (events s x))" "Period (tm s x) = Period (the (events s x))"
    if "x \<in> set (mEfiTimerList s)" for x using ex[OF that] by (auto simp: tm_simp)
  have "timers_no_wrap ?now s" using assms(5) tm by (simp add: timers_no_wrap_def no_wrap_def)
  then obtain s' where s': "CoreCheckTimers fuel pf (CoreRestoreTpl (Suc (Suc n)) pf invoke) env s = Some (env, s')"
    "settles s s'" "checked ?now s s'" "\<forall>x \<in> set (mEfiTimerList s'). TriggerTime (tm s' x) > ?now"
    using CoreCheckTimers_total[OF tpl_restores[OF assms(1)] CoreRestoreTpl_answers assms(2-4) _ assms(6)] by blast
  have t': "timers_ok s'" by (rule ev_invD(5)[OF settlesD(2)[OF s'(2)]])
  have tm': "TriggerTime (tm s' x) = TriggerTime (the (events s' x))" if "x \<in> set (mEfiTimerList s')" for x
    using t' that by (auto simp: timers_ok_def tm_simp)
  have sub: "set (mEfiTimerList s') \<subseteq> set (mEfiTimerList s)" using s'(3) by (simp add: checked_def)
  have fin: "TriggerTime (tm s' x) = final ?now (tm s x)" if "x \<in> set (mEfiTimerList s')" for x
  proof -
    have "final ?now (tm s' x) = TriggerTime (tm s' x)" using s'(4) that by (simp add: final_def)
    then show ?thesis using s'(3) by (simp add: checked_def)
  qed
  have later: "final ?now (tm s x) > ?now \<longleftrightarrow> TriggerTime (the (events s x)) > ?now \<or> Period (the (events s x)) \<noteq> 0"
    if x: "x \<in> set (mEfiTimerList s)" for x
    using assms(5) tm[OF x] x by (auto simp: final_def)
  have "set (mEfiTimerList s') = {x \<in> set (mEfiTimerList s).
      TriggerTime (the (events s x)) > ?now \<or> Period (the (events s x)) \<noteq> 0}"
  proof (intro equalityI subsetI)
    fix x assume x: "x \<in> set (mEfiTimerList s')"
    then have "final ?now (tm s x) > ?now" using s'(4) fin by metis
    then show "x \<in> {x \<in> set (mEfiTimerList s). TriggerTime (the (events s x)) > ?now \<or> Period (the (events s x)) \<noteq> 0}"
      using later sub x by auto
  next
    fix x assume "x \<in> {x \<in> set (mEfiTimerList s). TriggerTime (the (events s x)) > ?now \<or> Period (the (events s x)) \<noteq> 0}"
    then have "x \<in> set (mEfiTimerList s)" "\<not> final ?now (tm s x) \<le> ?now" using later by (auto simp: not_le)
    then show "x \<in> set (mEfiTimerList s')" using s'(3) by (auto simp: checked_def)
  qed
  moreover have "\<exists>ev. events s' x = Some ev \<and> SignalCount ev \<noteq> 0"
    if "x \<in> set (mEfiTimerList s)" "TriggerTime (the (events s x)) \<le> ?now" for x
  proof -
    have "counted s' x \<or> x \<in> set (mEfiTimerList s') \<and> TriggerTime (tm s' x) \<le> ?now"
      using s'(3) that tm by (simp add: checked_def)
    then show ?thesis using s'(4) by (auto simp: counted_def)
  qed
  moreover have "TriggerTime (the (events s' x)) > ?now \<and> TriggerTime (the (events s' x)) =
      (let t = TriggerTime (the (events s x)); p = Period (the (events s x)); now = ?now
       in if t > now then t else if t + p > now then t + p else now + p)" if x: "x \<in> set (mEfiTimerList s')" for x
  proof -
    have g: "final ?now (tm s x) > ?now" using s'(4) fin x by metis
    then have "TriggerTime (the (events s x)) > ?now \<or> Period (the (events s x)) \<noteq> 0" using later sub x by auto
    then show ?thesis
      using g fin[OF x] tm'[OF x] tm[of x] sub x by (auto simp: Let_def final_def)
  qed
  moreover have "sorted (map (\<lambda>x. TriggerTime (the (events s' x))) (mEfiTimerList s'))"
    using t' by (simp add: timers_ok_def)
  ultimately show ?thesis using s'(1) by blast
qed

theorem CoreCheckTimers_returns_witness:
  "\<exists>s'. CoreCheckTimers 3 demo_pf (CoreRestoreTpl 2 demo_pf log_call) [] (demo_events 5 10) = Some ([], s') \<and>
      mEfiTimerList s' = [1] \<and> TriggerTime (the (events s' 1)) = 110"
proof -
  have i: "ready (demo_events 5 10)" "\<forall>l. Lock (locks (demo_events 5 10) l) = EfiLockReleased"
    using demo_idle[of 5 10] by (simp_all add: idle_state_def released_def)
  have p: "\<forall>x \<in> set (mEfiTimerList (demo_events 5 10)). Period (the (events (demo_events 5 10) x)) = 0 \<or>
      mEfiSystemTime (demo_events 5 10) < mEfiSystemTime (demo_events 5 10) + Period (the (events (demo_events 5 10) x))"
    by (simp add: demo_event_def)
  have l: "2 * length (mEfiTimerList (demo_events 5 10)) < 3" "gEfiCurrentTpl (demo_events 5 10) = 30" by simp_all
  from CoreCheckTimers_returns[OF log_call_ok i(1) l(2) i(2) p l(1), of demo_pf 0 "[]"] obtain s' where
    s': "CoreCheckTimers 3 demo_pf (CoreRestoreTpl (Suc (Suc 0)) demo_pf log_call) [] (demo_events 5 10) = Some ([], s')"
    "set (mEfiTimerList s') = {x \<in> set (mEfiTimerList (demo_events 5 10)).
        TriggerTime (the (events (demo_events 5 10) x)) > mEfiSystemTime (demo_events 5 10) \<or> Period (the (events (demo_events 5 10) x)) \<noteq> 0}"
    "\<forall>x \<in> set (mEfiTimerList s'). TriggerTime (the (events s' x)) =
        (let t = TriggerTime (the (events (demo_events 5 10) x)); p = Period (the (events (demo_events 5 10) x)); now = mEfiSystemTime (demo_events 5 10)
           in if t > now then t else if t + p > now then t + p else now + p)"
    by (auto simp del: CoreRestoreTpl.simps)
  have "ev_inv s'"
    using settlesD(2)[OF CoreCheckTimers_settles[OF tpl_restores[OF log_call_ok] i(1) s'(1)]] .
  then have d: "distinct (mEfiTimerList s')" using ev_invD(5) by (auto simp: timers_ok_def)
  have s: "set (mEfiTimerList s') = {1}" using s'(2) by (auto simp: demo_event_def)
  then have "mEfiTimerList s' = [1]" using d by (cases "mEfiTimerList s'") (auto simp: subset_singleton_iff)
  moreover have "TriggerTime (the (events s' 1)) = 110" using s'(3) s by (simp add: demo_event_def)
  moreover have "Suc (Suc 0) = 2" by simp
  ultimately show ?thesis using s'(1) by (metis (no_types))
qed

text \<open>The check of the timers can run forever. When a due timer's period is so long that its
  next trigger time wraps around to before now, also when it is counted from now, every round of
  CoreCheckTimers returns and asks for another one: it never returns, whatever bound the loop
  has, and the system stays at the priority of the timers.\<close>

theorem CoreCheckTimers_hangs:
  assumes "calls_ok invoke" "ready s" "gEfiCurrentTpl s = 30" "\<forall>l. Lock (locks s l) = EfiLockReleased"
    and "x \<in> set (mEfiTimerList s)" "events s x = Some ev" "Period ev \<noteq> 0" "TriggerTime ev \<le> mEfiSystemTime s"
    and "TriggerTime ev + Period ev \<le> mEfiSystemTime s" "mEfiSystemTime s + Period ev \<le> mEfiSystemTime s"
  shows "CoreCheckTimers fuel pf (CoreRestoreTpl (Suc (Suc n)) pf invoke) env s = None \<and>
    (\<exists>s1 s2. CoreAcquireLock pf mEfiTimerLock s = Some s1 \<and>
      CoreCurrentSystemTime pf (CoreRestoreTpl (Suc (Suc n)) pf invoke) env s1 = Some (mEfiSystemTime s, env, s2) \<and>
      (\<forall>k. \<exists>s3. rounds k pf (CoreRestoreTpl (Suc (Suc n)) pf invoke) (mEfiSystemTime s) env s2 = Some (True, env, s3)))"
proof -
  let ?R = "CoreRestoreTpl (Suc (Suc n)) pf invoke"
  note R = tpl_restores[OF assms(1), of "Suc (Suc n)" pf] CoreRestoreTpl_answers[of n pf invoke]
  obtain s1 s2 where a: "CoreAcquireLock pf mEfiTimerLock s = Some s1"
    "CoreCurrentSystemTime pf ?R env s1 = Some (mEfiSystemTime s, env, s2)" "same_events s s2" "in_check s2"
    using CoreCheckTimers_enter[OF R assms(2-4)] .
  have "stuck (mEfiSystemTime s) s2"
    unfolding stuck_def using a(3) assms(5-10) tm_same[OF a(3)]
    by (intro bexI[of _ x]) (simp_all add: wraps_def tm_simp same_events_iff)
  note L = stuck_loop[OF R a(4) this] and K = stuck_rounds[OF R a(4) this]
  have "CoreCheckTimers fuel pf ?R env s = None"
    using a(1,2) L by (simp add: CoreCheckTimers_def del: CoreRestoreTpl.simps)
  then show ?thesis using a(1,2) K by blast
qed

theorem CoreCheckTimers_hangs_witness:
  "CoreCheckTimers 1000 demo_pf (CoreRestoreTpl 2 demo_pf log_call) [] (demo_events 5 0xFFFFFFFFFFFFFFFF) = None"
proof -
  let ?s = "demo_events 5 0xFFFFFFFFFFFFFFFF"
  have i: "ready ?s" "\<forall>l. Lock (locks ?s l) = EfiLockReleased" "gEfiCurrentTpl ?s = 30"
    using demo_idle[of 5 "0xFFFFFFFFFFFFFFFF"] by (simp_all add: idle_state_def released_def)
  have "1 \<in> set (mEfiTimerList ?s)" "events ?s 1 = Some (demo_event 5 0xFFFFFFFFFFFFFFFF)" by simp_all
  note h = CoreCheckTimers_hangs[OF log_call_ok i(1,3,2) this, of 1000 demo_pf 0 "[]"]
  have "CoreCheckTimers 1000 demo_pf (CoreRestoreTpl (Suc (Suc 0)) demo_pf log_call) [] ?s = None"
    by (rule conjunct1[OF h]) (simp_all add: demo_event_def)
  moreover have "Suc (Suc 0) = 2" by simp
  ultimately show ?thesis by (simp only:)
qed

end
