(* ===== verification/Rb_Tree.thy ===== *)
theory Rb_Tree
  imports Efi_Prelude
begin

text \<open>
  The ordered collection of MdePkg/Library/BaseOrderedCollectionRedBlackTreeLib: a red-black
  tree of nodes with parent pointers.

  The nodes live in a map from their addresses; NULL is None.  None as a result is a fired
  ASSERT, the use of a node that is not there (NULL or freed), or a loop that does not end.
  The second branches of the loops of insertion and deletion are the mirror images of the first
  ones ("Symmetrical to the other branch", "Mirrors the other branch"): a direction stands for
  the branch, so that child d is Left in the first branch and Right in the second.
\<close>

datatype color = RedBlackTreeRed | RedBlackTreeBlack

record 'u rb_node =
  UserStruct :: 'u
  Parent :: "nat option"
  Left :: "nat option"
  Right :: "nat option"
  Color :: color

type_synonym 'u rb_heap = "nat \<Rightarrow> 'u rb_node option"

record ('u, 'k) rb_tree =
  Root :: "nat option"
  UserStructCompare :: "'u \<Rightarrow> 'u \<Rightarrow> int"
  KeyCompare :: "'k \<Rightarrow> 'u \<Rightarrow> int"

definition upd :: "nat \<Rightarrow> ('u rb_node \<Rightarrow> 'u rb_node) \<Rightarrow> 'u rb_heap \<Rightarrow> 'u rb_heap option" where
  "upd x f h = (case h x of None \<Rightarrow> None | Some N \<Rightarrow> Some (h(x \<mapsto> f N)))"

subsection \<open>Lookup and iteration\<close>

definition OrderedCollectionUserStruct :: "'u rb_heap \<Rightarrow> nat \<Rightarrow> 'u option" where
  "OrderedCollectionUserStruct h Node = map_option UserStruct (h Node)"

definition OrderedCollectionIsEmpty :: "('u, 'k) rb_tree \<Rightarrow> bool" where
  "OrderedCollectionIsEmpty Tree \<longleftrightarrow> Root Tree = None"

text \<open>The result is whether the tree may be freed (the ASSERT holds).\<close>

definition OrderedCollectionUninit :: "('u, 'k) rb_tree \<Rightarrow> unit option" where
  "OrderedCollectionUninit Tree = ASSERT (OrderedCollectionIsEmpty Tree)"

text \<open>The loop of OrderedCollectionFind, with the comparison of the key.\<close>

partial_function (option) find_loop :: "('u \<Rightarrow> int) \<Rightarrow> 'u rb_heap \<Rightarrow> nat option \<Rightarrow> nat option option" where
  "find_loop cmp h Node =
     (case Node of
        None \<Rightarrow> Some None
      | Some x \<Rightarrow> do {
          N \<leftarrow> h x;
          let Result = cmp (UserStruct N);
          if Result = 0 then Some (Some x)
          else find_loop cmp h (if Result < 0 then Left N else Right N)
        })"

declare find_loop.simps [code]

definition OrderedCollectionFind :: "('u, 'k) rb_tree \<Rightarrow> 'u rb_heap \<Rightarrow> 'k \<Rightarrow> nat option option" where
  "OrderedCollectionFind Tree h StandaloneKey = find_loop (KeyCompare Tree StandaloneKey) h (Root Tree)"

text \<open>Directions: the left branch of the code and its mirror image.\<close>

datatype dir = DirL | DirR

fun other :: "dir \<Rightarrow> dir" where
  "other DirL = DirR"
| "other DirR = DirL"

fun child :: "dir \<Rightarrow> 'u rb_node \<Rightarrow> nat option" where
  "child DirL N = Left N"
| "child DirR N = Right N"

text \<open>while (Node->Left != NULL) Node = Node->Left; and its mirror image.\<close>

partial_function (option) extreme :: "dir \<Rightarrow> 'u rb_heap \<Rightarrow> nat \<Rightarrow> nat option" where
  "extreme d h x = do {
     N \<leftarrow> h x;
     case child d N of None \<Rightarrow> Some x | Some y \<Rightarrow> extreme d h y
   }"

declare extreme.simps [code]

definition OrderedCollectionMin :: "('u, 'k) rb_tree \<Rightarrow> 'u rb_heap \<Rightarrow> nat option option" where
  "OrderedCollectionMin Tree h =
     (case Root Tree of None \<Rightarrow> Some None | Some x \<Rightarrow> map_option Some (extreme DirL h x))"

definition OrderedCollectionMax :: "('u, 'k) rb_tree \<Rightarrow> 'u rb_heap \<Rightarrow> nat option option" where
  "OrderedCollectionMax Tree h =
     (case Root Tree of None \<Rightarrow> Some None | Some x \<Rightarrow> map_option Some (extreme DirR h x))"

text \<open>while (Walk != NULL && Child == Walk->Right) {Child = Walk; Walk = Child->Parent;}\<close>

partial_function (option) ascend :: "dir \<Rightarrow> 'u rb_heap \<Rightarrow> nat \<Rightarrow> nat option \<Rightarrow> nat option option" where
  "ascend d h Child Walk =
     (case Walk of
        None \<Rightarrow> Some None
      | Some w \<Rightarrow> do {
          W \<leftarrow> h w;
          if child d W = Some Child then ascend d h w (Parent W) else Some (Some w)
        })"

declare ascend.simps [code]

definition OrderedCollectionNext :: "'u rb_heap \<Rightarrow> nat option \<Rightarrow> nat option option" where
  "OrderedCollectionNext h Node =
     (case Node of
        None \<Rightarrow> Some None
      | Some x \<Rightarrow> do {
          N \<leftarrow> h x;
          case Right N of
            Some w \<Rightarrow> map_option Some (extreme DirL h w)
          | None \<Rightarrow> ascend DirR h x (Parent N)
        })"

definition OrderedCollectionPrev :: "'u rb_heap \<Rightarrow> nat option \<Rightarrow> nat option option" where
  "OrderedCollectionPrev h Node =
     (case Node of
        None \<Rightarrow> Some None
      | Some x \<Rightarrow> do {
          N \<leftarrow> h x;
          case Left N of
            Some w \<Rightarrow> map_option Some (extreme DirR h w)
          | None \<Rightarrow> ascend DirL h x (Parent N)
        })"

subsection \<open>Rotations\<close>

definition RedBlackTreeRotateRight ::
  "nat \<Rightarrow> 'u rb_heap \<times> nat option \<Rightarrow> ('u rb_heap \<times> nat option) option" where
  "RedBlackTreeRotateRight Pivot = (\<lambda>(h, NewRoot). do {
     P \<leftarrow> h Pivot;
     let Par = Parent P;
     LeftChild \<leftarrow> Left P;
     C \<leftarrow> h LeftChild;
     let LeftRightChild = Right C;
     h \<leftarrow> upd Pivot (\<lambda>N. N\<lparr>Left := LeftRightChild\<rparr>) h;
     h \<leftarrow> (case LeftRightChild of None \<Rightarrow> Some h | Some x \<Rightarrow> upd x (\<lambda>N. N\<lparr>Parent := Some Pivot\<rparr>) h);
     h \<leftarrow> upd LeftChild (\<lambda>N. N\<lparr>Parent := Par\<rparr>) h;
     (h, NewRoot) \<leftarrow>
       (case Par of
          None \<Rightarrow> Some (h, Some LeftChild)
        | Some p \<Rightarrow> do {
            h \<leftarrow> upd p (\<lambda>N. if Left N = Some Pivot then N\<lparr>Left := Some LeftChild\<rparr> else N\<lparr>Right := Some LeftChild\<rparr>) h;
            Some (h, NewRoot)
          });
     h \<leftarrow> upd LeftChild (\<lambda>N. N\<lparr>Right := Some Pivot\<rparr>) h;
     h \<leftarrow> upd Pivot (\<lambda>N. N\<lparr>Parent := Some LeftChild\<rparr>) h;
     Some (h, NewRoot)
   })"

definition RedBlackTreeRotateLeft ::
  "nat \<Rightarrow> 'u rb_heap \<times> nat option \<Rightarrow> ('u rb_heap \<times> nat option) option" where
  "RedBlackTreeRotateLeft Pivot = (\<lambda>(h, NewRoot). do {
     P \<leftarrow> h Pivot;
     let Par = Parent P;
     RightChild \<leftarrow> Right P;
     C \<leftarrow> h RightChild;
     let RightLeftChild = Left C;
     h \<leftarrow> upd Pivot (\<lambda>N. N\<lparr>Right := RightLeftChild\<rparr>) h;
     h \<leftarrow> (case RightLeftChild of None \<Rightarrow> Some h | Some x \<Rightarrow> upd x (\<lambda>N. N\<lparr>Parent := Some Pivot\<rparr>) h);
     h \<leftarrow> upd RightChild (\<lambda>N. N\<lparr>Parent := Par\<rparr>) h;
     (h, NewRoot) \<leftarrow>
       (case Par of
          None \<Rightarrow> Some (h, Some RightChild)
        | Some p \<Rightarrow> do {
            h \<leftarrow> upd p (\<lambda>N. if Left N = Some Pivot then N\<lparr>Left := Some RightChild\<rparr> else N\<lparr>Right := Some RightChild\<rparr>) h;
            Some (h, NewRoot)
          });
     h \<leftarrow> upd RightChild (\<lambda>N. N\<lparr>Left := Some Pivot\<rparr>) h;
     h \<leftarrow> upd Pivot (\<lambda>N. N\<lparr>Parent := Some RightChild\<rparr>) h;
     Some (h, NewRoot)
   })"

text \<open>The rotation of the first branches, which is to the left, and its mirror image.\<close>

fun rotate :: "dir \<Rightarrow> nat \<Rightarrow> 'u rb_heap \<times> nat option \<Rightarrow> ('u rb_heap \<times> nat option) option" where
  "rotate DirL = RedBlackTreeRotateLeft"
| "rotate DirR = RedBlackTreeRotateRight"

definition paint :: "color \<Rightarrow> nat \<Rightarrow> 'u rb_heap \<Rightarrow> 'u rb_heap option" where
  "paint c x h = upd x (\<lambda>N. N\<lparr>Color := c\<rparr>) h"

subsection \<open>Insertion\<close>

text \<open>The search for a collision: Tmp, Parent and Result after the loop.\<close>

partial_function (option) search_loop ::
  "('u \<Rightarrow> int) \<Rightarrow> 'u rb_heap \<Rightarrow> nat option \<Rightarrow> nat option \<Rightarrow> int \<Rightarrow> (nat option \<times> nat option \<times> int) option" where
  "search_loop cmp h Tmp Par Result =
     (case Tmp of
        None \<Rightarrow> Some (None, Par, Result)
      | Some x \<Rightarrow> do {
          N \<leftarrow> h x;
          let Result = cmp (UserStruct N);
          if Result = 0 then Some (Some x, Par, Result)
          else search_loop cmp h (if Result < 0 then Left N else Right N) (Some x) Result
        })"

text \<open>The body of the loop that restores property 3, for a parent p: Tmp and Parent after it.\<close>

definition insert_body ::
  "'u rb_heap \<Rightarrow> nat option \<Rightarrow> nat \<Rightarrow> nat \<Rightarrow> ('u rb_heap \<times> nat option \<times> nat \<times> nat option) option" where
  "insert_body h NewRoot Tmp p = do {
     P \<leftarrow> h p;
     GrandParent \<leftarrow> Parent P;
     G \<leftarrow> h GrandParent;
     let d = (if Left G = Some p then DirL else DirR);
     let Uncle = child (other d) G;
     red \<leftarrow> (case Uncle of None \<Rightarrow> Some None
             | Some u \<Rightarrow> do { U \<leftarrow> h u; Some (if Color U = RedBlackTreeRed then Some u else None) });
     case red of
       Some u \<Rightarrow> do {
         h \<leftarrow> paint RedBlackTreeBlack p h;
         h \<leftarrow> paint RedBlackTreeBlack u h;
         h \<leftarrow> paint RedBlackTreeRed GrandParent h;
         T \<leftarrow> h GrandParent;
         Some (h, NewRoot, GrandParent, Parent T)
       }
     | None \<Rightarrow> do {
         (h, NewRoot, Tmp, p) \<leftarrow>
           (if child (other d) P = Some Tmp then do {
              let Tmp = p;
              (h, NewRoot) \<leftarrow> rotate d Tmp (h, NewRoot);
              T \<leftarrow> h Tmp;
              p \<leftarrow> Parent T;
              P \<leftarrow> h p;
              ASSERT (Parent P = Some GrandParent);
              Some (h, NewRoot, Tmp, p)
            }
            else Some (h, NewRoot, Tmp, p));
         h \<leftarrow> paint RedBlackTreeBlack p h;
         h \<leftarrow> paint RedBlackTreeRed GrandParent h;
         (h, NewRoot) \<leftarrow> rotate (other d) GrandParent (h, NewRoot);
         Some (h, NewRoot, Tmp, Some p)
       }
   }"

partial_function (option) insert_loop ::
  "'u rb_heap \<Rightarrow> nat option \<Rightarrow> nat \<Rightarrow> nat option \<Rightarrow> ('u rb_heap \<times> nat option) option" where
  "insert_loop h NewRoot Tmp Par =
     (if Some Tmp = NewRoot then Some (h, NewRoot)
      else do {
        p \<leftarrow> Par;
        P \<leftarrow> h p;
        if Color P = RedBlackTreeRed then do {
          (h, NewRoot, Tmp, Par) \<leftarrow> insert_body h NewRoot Tmp p;
          insert_loop h NewRoot Tmp Par
        }
        else Some (h, NewRoot)
      })"

declare search_loop.simps [code] insert_loop.simps [code]

subsection \<open>Validation\<close>

definition NodeIsNullOrBlack :: "'u rb_heap \<Rightarrow> nat option \<Rightarrow> bool option" where
  "NodeIsNullOrBlack h Node =
     (case Node of None \<Rightarrow> Some True | Some x \<Rightarrow> do { N \<leftarrow> h x; Some (Color N = RedBlackTreeBlack) })"

partial_function (option) RedBlackTreeRecursiveCheck :: "'u rb_heap \<Rightarrow> nat option \<Rightarrow> u32 option" where
  "RedBlackTreeRecursiveCheck h Node =
     (case Node of
        None \<Rightarrow> Some 1
      | Some x \<Rightarrow> do {
          N \<leftarrow> h x;
          l \<leftarrow> (if Color N = RedBlackTreeRed then NodeIsNullOrBlack h (Left N) else Some True);
          ASSERT l;
          r \<leftarrow> (if Color N = RedBlackTreeRed then NodeIsNullOrBlack h (Right N) else Some True);
          ASSERT r;
          LeftHeight \<leftarrow> RedBlackTreeRecursiveCheck h (Left N);
          RightHeight \<leftarrow> RedBlackTreeRecursiveCheck h (Right N);
          ASSERT (LeftHeight = RightHeight);
          Some ((if Color N = RedBlackTreeBlack then 1 else 0) + LeftHeight)
        })"

text \<open>The loops of RedBlackTreeValidate: the step from Last, what its comparison must satisfy, and
  the count.\<close>

partial_function (option) validate_walk ::
  "(nat option \<Rightarrow> nat option option) \<Rightarrow> ('u \<Rightarrow> 'u \<Rightarrow> bool) \<Rightarrow> 'u rb_heap \<Rightarrow> nat option \<Rightarrow> u32 \<Rightarrow> u32 option" where
  "validate_walk step ok h Last Count = do {
     Node \<leftarrow> step Last;
     case Node of
       None \<Rightarrow> Some Count
     | Some x \<Rightarrow> do {
         last \<leftarrow> Last;
         A \<leftarrow> h last;
         B \<leftarrow> h x;
         ASSERT (ok (UserStruct A) (UserStruct B));
         validate_walk step ok h (Some x) (Count + 1)
       }
   }"

declare RedBlackTreeRecursiveCheck.simps [code] validate_walk.simps [code]

definition RedBlackTreeValidate :: "('u, 'k) rb_tree \<Rightarrow> 'u rb_heap \<Rightarrow> unit option" where
  "RedBlackTreeValidate Tree h = do {
     root_black \<leftarrow> NodeIsNullOrBlack h (Root Tree);
     ASSERT root_black;
     _ \<leftarrow> RedBlackTreeRecursiveCheck h (Root Tree);
     Last \<leftarrow> OrderedCollectionMin Tree h;
     ForwardCount \<leftarrow> validate_walk (OrderedCollectionNext h) (\<lambda>a b. UserStructCompare Tree a b < 0) h Last
       (if Last \<noteq> None then 1 else 0);
     Last \<leftarrow> OrderedCollectionMax Tree h;
     BackwardCount \<leftarrow> validate_walk (OrderedCollectionPrev h) (\<lambda>a b. UserStructCompare Tree a b > 0) h Last
       (if Last \<noteq> None then 1 else 0);
     ASSERT (ForwardCount = BackwardCount)
   }"

text \<open>PcdValidateOrderedCollection is an argument.\<close>

definition validate_if :: "bool \<Rightarrow> ('u, 'k) rb_tree \<Rightarrow> 'u rb_heap \<Rightarrow> unit option" where
  "validate_if pcd Tree h = (if pcd then RedBlackTreeValidate Tree h else Some ())"

text \<open>ok is whether AllocatePool gives memory for the structure.\<close>

definition OrderedCollectionInit ::
  "bool \<Rightarrow> bool \<Rightarrow> ('u \<Rightarrow> 'u \<Rightarrow> int) \<Rightarrow> ('k \<Rightarrow> 'u \<Rightarrow> int) \<Rightarrow> ('u, 'k) rb_tree option option" where
  "OrderedCollectionInit pcd ok ucmp kcmp =
     (if \<not> ok then Some None
      else do {
        let Tree = \<lparr>Root = None, UserStructCompare = ucmp, KeyCompare = kcmp\<rparr>;
        validate_if pcd Tree Map.empty;
        Some (Some Tree)
      })"

text \<open>
  AllocatePool is the address of the new node or None; the second result is what *Node is set to,
  None if it is not set.  RETURN_SUCCESS and the other codes are the EFI ones.
\<close>

definition OrderedCollectionInsert ::
  "bool \<Rightarrow> nat option \<Rightarrow> ('u, 'k) rb_tree \<Rightarrow> 'u rb_heap \<Rightarrow> 'u \<Rightarrow>
     (efi_status \<times> nat option \<times> ('u, 'k) rb_tree \<times> 'u rb_heap) option" where
  "OrderedCollectionInsert pcd AllocatePool Tree h User = do {
     (Tmp, Par, Result) \<leftarrow> search_loop (UserStructCompare Tree User) h (Root Tree) None 0;
     (Status, Node, Tree, h) \<leftarrow>
       (case Tmp of
          Some x \<Rightarrow> Some (EFI_ALREADY_STARTED, Some x, Tree, h)
        | None \<Rightarrow>
          (case AllocatePool of
             None \<Rightarrow> Some (EFI_OUT_OF_RESOURCES, None, Tree, h)
           | Some x \<Rightarrow>
             (case Par of
                None \<Rightarrow> Some (EFI_SUCCESS, Some x, Tree\<lparr>Root := Some x\<rparr>,
                  h(x \<mapsto> \<lparr>UserStruct = User, Parent = None, Left = None, Right = None, Color = RedBlackTreeBlack\<rparr>))
              | Some p \<Rightarrow> do {
                  let h = h(x \<mapsto> \<lparr>UserStruct = User, Parent = Some p, Left = None, Right = None, Color = RedBlackTreeRed\<rparr>);
                  h \<leftarrow> upd p (\<lambda>N. if Result < 0 then N\<lparr>Left := Some x\<rparr> else N\<lparr>Right := Some x\<rparr>) h;
                  (h, NewRoot) \<leftarrow> insert_loop h (Root Tree) x (Some p);
                  r \<leftarrow> NewRoot;
                  h \<leftarrow> paint RedBlackTreeBlack r h;
                  Some (EFI_SUCCESS, Some x, Tree\<lparr>Root := NewRoot\<rparr>, h)
                })));
     validate_if pcd Tree h;
     Some (Status, Node, Tree, h)
   }"

subsection \<open>Deletion\<close>

text \<open>Node's parent is made to point to another child.\<close>

definition replace_child ::
  "nat option \<Rightarrow> nat \<Rightarrow> nat option \<Rightarrow> 'u rb_heap \<times> nat option \<Rightarrow> ('u rb_heap \<times> nat option) option" where
  "replace_child OrigParent Node New = (\<lambda>(h, NewRoot).
     (case OrigParent of
        None \<Rightarrow> Some (h, New)
      | Some p \<Rightarrow> do {
          h \<leftarrow> upd p (\<lambda>N. if Left N = Some Node then N\<lparr>Left := New\<rparr> else N\<lparr>Right := New\<rparr>) h;
          Some (h, NewRoot)
        }))"

text \<open>
  The unlinking of a node with at most one child, and of a node with two: the heap, NewRoot, Child,
  Parent and ColorOfUnlinked.
\<close>

definition unlink_single ::
  "'u rb_heap \<Rightarrow> nat option \<Rightarrow> nat \<Rightarrow> 'u rb_node \<Rightarrow> ('u rb_heap \<times> nat option \<times> nat option \<times> nat option \<times> color) option" where
  "unlink_single h NewRoot Node N = do {
     let Child = (if Left N \<noteq> None then Left N else Right N);
     h \<leftarrow> (case Child of None \<Rightarrow> Some h | Some c \<Rightarrow> upd c (\<lambda>C. C\<lparr>Parent := Parent N\<rparr>) h);
     (h, NewRoot) \<leftarrow> replace_child (Parent N) Node Child (h, NewRoot);
     Some (h, NewRoot, Child, Parent N, Color N)
   }"

definition unlink_successor ::
  "'u rb_heap \<Rightarrow> nat option \<Rightarrow> nat \<Rightarrow> 'u rb_node \<Rightarrow> nat \<Rightarrow> nat \<Rightarrow>
     ('u rb_heap \<times> nat option \<times> nat option \<times> nat option \<times> color) option" where
  "unlink_successor h NewRoot Node N OrigLeftChild OrigRightChild = do {
     R \<leftarrow> h OrigRightChild;
     (h, ToRelink, Child, Par) \<leftarrow>
       (case Left R of
          None \<Rightarrow> Some (h, OrigRightChild, Right R, OrigRightChild)
        | Some l \<Rightarrow> do {
            ToRelink \<leftarrow> extreme DirL h l;
            T \<leftarrow> h ToRelink;
            Par \<leftarrow> Parent T;
            let Child = Right T;
            h \<leftarrow> upd Par (\<lambda>P. P\<lparr>Left := Child\<rparr>) h;
            h \<leftarrow> (case Child of None \<Rightarrow> Some h | Some c \<Rightarrow> upd c (\<lambda>C. C\<lparr>Parent := Some Par\<rparr>) h);
            h \<leftarrow> upd ToRelink (\<lambda>T. T\<lparr>Right := Some OrigRightChild\<rparr>) h;
            h \<leftarrow> upd OrigRightChild (\<lambda>R. R\<lparr>Parent := Some ToRelink\<rparr>) h;
            Some (h, ToRelink, Child, Par)
          });
     h \<leftarrow> upd ToRelink (\<lambda>T. T\<lparr>Left := Some OrigLeftChild\<rparr>) h;
     h \<leftarrow> upd OrigLeftChild (\<lambda>L. L\<lparr>Parent := Some ToRelink\<rparr>) h;
     T \<leftarrow> h ToRelink;
     let ColorOfUnlinked = Color T;
     h \<leftarrow> paint (Color N) ToRelink h;
     h \<leftarrow> upd ToRelink (\<lambda>T. T\<lparr>Parent := Parent N\<rparr>) h;
     (h, NewRoot) \<leftarrow> replace_child (Parent N) Node (Some ToRelink) (h, NewRoot);
     Some (h, NewRoot, Child, Some Par, ColorOfUnlinked)
   }"

text \<open>The body of the loop that moves the black-increment up, for a parent p.\<close>

definition delete_body ::
  "'u rb_heap \<Rightarrow> nat option \<Rightarrow> nat option \<Rightarrow> nat \<Rightarrow> ('u rb_heap \<times> nat option \<times> nat option \<times> nat option) option" where
  "delete_body h NewRoot Child p = do {
     P \<leftarrow> h p;
     let d = (if Left P = Child then DirL else DirR);
     Sibling \<leftarrow> child (other d) P;
     S \<leftarrow> h Sibling;
     (h, NewRoot, Sibling) \<leftarrow>
       (if Color S = RedBlackTreeRed then do {
          h \<leftarrow> paint RedBlackTreeBlack Sibling h;
          h \<leftarrow> paint RedBlackTreeRed p h;
          (h, NewRoot) \<leftarrow> rotate d p (h, NewRoot);
          P \<leftarrow> h p;
          Sibling \<leftarrow> child (other d) P;
          Some (h, NewRoot, Sibling)
        }
        else Some (h, NewRoot, Sibling));
     S \<leftarrow> h Sibling;
     ASSERT (Color S = RedBlackTreeBlack);
     let Near = child d S;
     let Far = child (other d) S;
     near \<leftarrow> NodeIsNullOrBlack h Near;
     far \<leftarrow> NodeIsNullOrBlack h Far;
     if near \<and> far then do {
       h \<leftarrow> paint RedBlackTreeRed Sibling h;
       P \<leftarrow> h p;
       Some (h, NewRoot, Some p, Parent P)
     }
     else do {
       (h, NewRoot, Sibling, Far) \<leftarrow>
         (if far then do {
            n \<leftarrow> Near;
            h \<leftarrow> paint RedBlackTreeBlack n h;
            h \<leftarrow> paint RedBlackTreeRed Sibling h;
            (h, NewRoot) \<leftarrow> rotate (other d) Sibling (h, NewRoot);
            P \<leftarrow> h p;
            Sibling \<leftarrow> child (other d) P;
            S \<leftarrow> h Sibling;
            Some (h, NewRoot, Sibling, child (other d) S)
          }
          else Some (h, NewRoot, Sibling, Far));
       f \<leftarrow> Far;
       F \<leftarrow> h f;
       ASSERT (Color F = RedBlackTreeRed);
       S \<leftarrow> h Sibling;
       ASSERT (Color S = RedBlackTreeBlack);
       P \<leftarrow> h p;
       h \<leftarrow> paint (Color P) Sibling h;
       h \<leftarrow> paint RedBlackTreeBlack p h;
       h \<leftarrow> paint RedBlackTreeBlack f h;
       (h, NewRoot) \<leftarrow> rotate d p (h, NewRoot);
       Some (h, NewRoot, NewRoot, Some p)
     }
   }"

partial_function (option) delete_loop ::
  "'u rb_heap \<Rightarrow> nat option \<Rightarrow> nat option \<Rightarrow> nat option \<Rightarrow> ('u rb_heap \<times> nat option \<times> nat option) option" where
  "delete_loop h NewRoot Child Par =
     (if Child = NewRoot then Some (h, NewRoot, Child)
      else do {
        black \<leftarrow> NodeIsNullOrBlack h Child;
        if black then do {
          p \<leftarrow> Par;
          (h, NewRoot, Child, Par) \<leftarrow> delete_body h NewRoot Child p;
          delete_loop h NewRoot Child Par
        }
        else Some (h, NewRoot, Child)
      })"

declare delete_loop.simps [code]

text \<open>The second result is what *UserStruct is set to.\<close>

definition OrderedCollectionDelete ::
  "bool \<Rightarrow> ('u, 'k) rb_tree \<Rightarrow> 'u rb_heap \<Rightarrow> nat \<Rightarrow> ('u \<times> ('u, 'k) rb_tree \<times> 'u rb_heap) option" where
  "OrderedCollectionDelete pcd Tree h Node = do {
     N \<leftarrow> h Node;
     (h, NewRoot, Child, Par, ColorOfUnlinked) \<leftarrow>
       (case (Left N, Right N) of
          (Some l, Some r) \<Rightarrow> unlink_successor h (Root Tree) Node N l r
        | _ \<Rightarrow> unlink_single h (Root Tree) Node N);
     let h = h(Node := None);
     (h, NewRoot) \<leftarrow>
       (if ColorOfUnlinked = RedBlackTreeBlack then do {
          (h, NewRoot, Child) \<leftarrow> delete_loop h NewRoot Child Par;
          h \<leftarrow> (case Child of None \<Rightarrow> Some h | Some c \<Rightarrow> paint RedBlackTreeBlack c h);
          Some (h, NewRoot)
        }
        else Some (h, NewRoot));
     let Tree = Tree\<lparr>Root := NewRoot\<rparr>;
     validate_if pcd Tree h;
     Some (UserStruct N, Tree, h)
   }"

end
