(* ===== verification/Rb_Rep.thy ===== *)
theory Rb_Rep
  imports Rb_Tree
begin

text \<open>
  The abstraction of the heap of Rb_Tree: binary trees of the nodes, the places in a tree
  (contexts), what it means that the heap holds a tree, and what reading, painting and rotating
  nodes does to the tree the heap holds.
\<close>

datatype 'u shape = Tip | Br "'u shape" "nat \<times> color \<times> 'u" "'u shape"

type_synonym 'u place = "(dir \<times> (nat \<times> color \<times> 'u) \<times> 'u shape) list"

fun root_of :: "'u shape \<Rightarrow> nat option" where
  "root_of Tip = None"
| "root_of (Br l (x, c, u) r) = Some x"

text \<open>The tree in its order: the nodes' addresses with the user structures they link.\<close>

fun items :: "'u shape \<Rightarrow> (nat \<times> 'u) list" where
  "items Tip = []"
| "items (Br l (x, c, u) r) = items l @ (x, u) # items r"

fun nodes :: "'u shape \<Rightarrow> nat set" where
  "nodes Tip = {}"
| "nodes (Br l (x, c, u) r) = insert x (nodes l \<union> nodes r)"

lemma nodes_items: "nodes t = fst ` set (items t)"
  by (induction t rule: items.induct) auto

lemma finite_nodes [simp]: "finite (nodes t)"
  by (simp add: nodes_items)

text \<open>A branch whose child in direction d is given first.\<close>

fun br :: "dir \<Rightarrow> 'u shape \<Rightarrow> nat \<times> color \<times> 'u \<Rightarrow> 'u shape \<Rightarrow> 'u shape" where
  "br DirL l x r = Br l x r"
| "br DirR l x r = Br r x l"

fun plug :: "'u shape \<Rightarrow> 'u place \<Rightarrow> 'u shape" where
  "plug t [] = t"
| "plug t ((d, x, s) # c) = plug (br d t x s) c"

fun above :: "'u place \<Rightarrow> nat option" where
  "above [] = None"
| "above ((d, (x, col, u), s) # c) = Some x"

fun items_before :: "'u place \<Rightarrow> (nat \<times> 'u) list" where
  "items_before [] = []"
| "items_before ((DirL, (x, col, u), s) # c) = items_before c"
| "items_before ((DirR, (x, col, u), s) # c) = items_before c @ items s @ [(x, u)]"

fun items_after :: "'u place \<Rightarrow> (nat \<times> 'u) list" where
  "items_after [] = []"
| "items_after ((DirL, (x, col, u), s) # c) = (x, u) # items s @ items_after c"
| "items_after ((DirR, (x, col, u), s) # c) = items_after c"

lemma other_other [simp]: "other (other d) = d"
  by (cases d) auto

lemma other_neq [simp]: "other d \<noteq> d" "d \<noteq> other d"
  by (cases d; simp)+

lemma br_other [simp]: "br (other d) l x r = br d r x l"
  by (cases d) auto

lemma root_of_br [simp]: "root_of (br d l (x, c, u) r) = Some x"
  by (cases d) auto

lemma items_plug: "items (plug t c) = items_before c @ items t @ items_after c"
proof (induction c arbitrary: t)
  case (Cons f c)
  obtain d x col u s where "f = (d, (x, col, u), s)" by (cases f) auto
  then show ?case using Cons by (cases d) auto
qed simp

lemma plug_append: "plug t (c @ c') = plug (plug t c) c'"
  by (induction t c rule: plug.induct) auto

lemma root_of_in_nodes: "root_of t = Some x \<Longrightarrow> x \<in> nodes t"
  by (cases t rule: items.cases) auto

lemma root_of_None [simp]: "root_of t = None \<longleftrightarrow> t = Tip"
  by (cases t rule: items.cases) auto

lemma root_of_plug_Cons: "root_of (plug t (f # c)) = root_of (plug t' (f # c))"
proof (induction c arbitrary: f t t')
  case Nil
  obtain d x col u s where "f = (d, (x, col, u), s)" by (cases f) auto
  then show ?case by simp
next
  case (Cons g c)
  obtain d x s where f: "f = (d, x, s)" by (cases f) auto
  show ?case unfolding f plug.simps(2)[of _ d x s "g # c"] by (rule Cons)
qed

lemma root_of_plug_cong: "root_of t = root_of t' \<Longrightarrow> root_of (plug t c) = root_of (plug t' c)"
  by (cases c) (simp, metis root_of_plug_Cons)

lemma nodes_br [simp]: "nodes (br d l (x, c, u) r) = insert x (nodes l \<union> nodes r)"
  by (cases d) auto

fun place_nodes :: "'u place \<Rightarrow> nat set" where
  "place_nodes [] = {}"
| "place_nodes ((d, (x, col, u), s) # c) = insert x (nodes s \<union> place_nodes c)"

lemma place_nodes_items: "place_nodes c = fst ` set (items_before c) \<union> fst ` set (items_after c)"
proof (induction c rule: place_nodes.induct)
  case (2 d x col u s c)
  then show ?case by (cases d) (auto simp: nodes_items)
qed simp

lemma nodes_plug: "nodes (plug t c) = nodes t \<union> place_nodes c"
  by (auto simp: nodes_items place_nodes_items items_plug)

text \<open>Different nodes at different addresses.\<close>

fun apart :: "'u shape \<Rightarrow> bool" where
  "apart Tip \<longleftrightarrow> True"
| "apart (Br l (x, c, u) r) \<longleftrightarrow> x \<notin> nodes l \<and> x \<notin> nodes r \<and> nodes l \<inter> nodes r = {} \<and> apart l \<and> apart r"

fun place_apart :: "'u place \<Rightarrow> bool" where
  "place_apart [] \<longleftrightarrow> True"
| "place_apart ((d, (x, c, u), s) # k) \<longleftrightarrow>
     x \<notin> nodes s \<and> x \<notin> place_nodes k \<and> nodes s \<inter> place_nodes k = {} \<and> apart s \<and> place_apart k"

lemma apart_br [simp]:
  "apart (br d l (x, c, u) r) \<longleftrightarrow> x \<notin> nodes l \<and> x \<notin> nodes r \<and> nodes l \<inter> nodes r = {} \<and> apart l \<and> apart r"
  by (cases d) auto

lemma apart_plug:
  "apart (plug t c) \<longleftrightarrow> apart t \<and> place_apart c \<and> nodes t \<inter> place_nodes c = {}"
proof (induction t c rule: plug.induct)
  case (2 t d x s c)
  obtain y col u where "x = (y, col, u)" by (cases x) auto
  then show ?case using 2 by auto
qed simp

lemma apart_distinct: "apart t \<longleftrightarrow> distinct (map fst (items t))"
  by (induction t rule: items.induct) (auto simp: nodes_items)

subsection \<open>The heap that holds a tree\<close>

fun rep :: "'u rb_heap \<Rightarrow> nat option \<Rightarrow> 'u shape \<Rightarrow> bool" where
  "rep h p Tip \<longleftrightarrow> True"
| "rep h p (Br l (x, c, u) r) \<longleftrightarrow>
     h x = Some \<lparr>UserStruct = u, Parent = p, Left = root_of l, Right = root_of r, Color = c\<rparr> \<and>
     rep h (Some x) l \<and> rep h (Some x) r"

definition node_at :: "dir \<Rightarrow> 'u \<Rightarrow> nat option \<Rightarrow> nat option \<Rightarrow> nat option \<Rightarrow> color \<Rightarrow> 'u rb_node" where
  "node_at d u p l r c =
     \<lparr>UserStruct = u, Parent = p, Left = (if d = DirL then l else r),
      Right = (if d = DirL then r else l), Color = c\<rparr>"

fun rep_place :: "'u rb_heap \<Rightarrow> nat option \<Rightarrow> 'u place \<Rightarrow> bool" where
  "rep_place h t [] \<longleftrightarrow> True"
| "rep_place h t ((d, (x, c, u), s) # k) \<longleftrightarrow>
     h x = Some (node_at d u (above k) t (root_of s) c) \<and> rep h (Some x) s \<and> rep_place h (Some x) k"

lemma node_at_sel [simp]:
  "UserStruct (node_at d u p l r c) = u"
  "Parent (node_at d u p l r c) = p"
  "Color (node_at d u p l r c) = c"
  "child d (node_at d u p l r c) = l"
  "child (other d) (node_at d u p l r c) = r"
  by (cases d; simp add: node_at_def)+

lemma node_at_other: "node_at (other d) u p l r c = node_at d u p r l c"
  by (cases d) (auto simp: node_at_def)

lemma node_at_Left: "Left (node_at d u p l r c) = (if d = DirL then l else r)"
  by (simp add: node_at_def)

lemma node_at_Right: "Right (node_at d u p l r c) = (if d = DirL then r else l)"
  by (simp add: node_at_def)

lemma rep_br [simp]:
  "rep h p (br d l (x, c, u) r) \<longleftrightarrow>
     h x = Some (node_at d u p (root_of l) (root_of r) c) \<and> rep h (Some x) l \<and> rep h (Some x) r"
  by (cases d) (auto simp: node_at_def)

lemma rep_plug: "rep h None (plug t c) \<longleftrightarrow> rep h (above c) t \<and> rep_place h (root_of t) c"
proof (induction t c rule: plug.induct)
  case (2 t d x s c)
  obtain y col u where "x = (y, col, u)" by (cases x) auto
  then show ?case using 2 by auto
qed simp

lemma rep_frame: "\<forall>a \<in> nodes t. h' a = h a \<Longrightarrow> rep h' p t \<longleftrightarrow> rep h p t"
  by (induction t arbitrary: p rule: items.induct) auto

lemma rep_place_frame: "\<forall>a \<in> place_nodes c. h' a = h a \<Longrightarrow> rep_place h' t c \<longleftrightarrow> rep_place h t c"
proof (induction h t c rule: rep_place.induct)
  case (2 h t d x c u s k)
  then show ?case using rep_frame[of s h' h "Some x"] by auto
qed simp

lemma rep_upd [simp]: "x \<notin> nodes t \<Longrightarrow> rep (h(x \<mapsto> N)) p t \<longleftrightarrow> rep h p t"
  by (rule rep_frame) auto

lemma rep_place_upd [simp]: "x \<notin> place_nodes c \<Longrightarrow> rep_place (h(x \<mapsto> N)) t c \<longleftrightarrow> rep_place h t c"
  by (rule rep_place_frame) auto

lemma rep_free [simp]: "x \<notin> nodes t \<Longrightarrow> rep (h(x := None)) p t \<longleftrightarrow> rep h p t"
  by (rule rep_frame) auto

lemma rep_place_free [simp]: "x \<notin> place_nodes c \<Longrightarrow> rep_place (h(x := None)) t c \<longleftrightarrow> rep_place h t c"
  by (rule rep_place_frame) auto

lemma upd_Some [simp]: "h x = Some N \<Longrightarrow> upd x f h = Some (h(x \<mapsto> f N))"
  by (simp add: upd_def)

text \<open>The parent pointer of a node, if there is one, is set.\<close>

definition reparent :: "nat option \<Rightarrow> nat option \<Rightarrow> 'u rb_heap \<Rightarrow> 'u rb_heap option" where
  "reparent p n h = (case n of None \<Rightarrow> Some h | Some x \<Rightarrow> upd x (\<lambda>N. N\<lparr>Parent := p\<rparr>) h)"

lemma reparent_rep:
  assumes "rep h q t" "apart t"
  shows "\<exists>h'. reparent p (root_of t) h = Some h' \<and> rep h' p t \<and> (\<forall>a. a \<notin> nodes t \<longrightarrow> h' a = h a)"
proof (cases t rule: items.cases)
  case (2 l x c u r)
  then show ?thesis using assms by (auto simp: reparent_def)
qed (simp add: reparent_def)

subsection \<open>States\<close>

text \<open>
  The heap h holds the tree T whose root is R, its nodes apart, and agrees with h0 off the tree.
\<close>

definition St :: "'u rb_heap \<Rightarrow> 'u rb_heap \<Rightarrow> nat option \<Rightarrow> 'u shape \<Rightarrow> bool" where
  "St h0 h R T \<longleftrightarrow> rep h None T \<and> apart T \<and> R = root_of T \<and> (\<forall>a. a \<notin> nodes T \<longrightarrow> h a = h0 a)"

lemma St_node:
  assumes "St h0 h R (plug (br d a (x, col, u) b) c)"
  shows "h x = Some (node_at d u (above c) (root_of a) (root_of b) col)"
  using assms by (auto simp: St_def rep_plug)

lemma St_apart: "St h0 h R T \<Longrightarrow> apart T"
  by (simp add: St_def)

lemma St_root: "St h0 h R T \<Longrightarrow> R = root_of T"
  by (simp add: St_def)

lemma St_paint:
  assumes "St h0 h R (plug (br d a (x, col, u) b) c)"
  shows "\<exists>h'. paint k x h = Some h' \<and> St h0 h' R (plug (br d a (x, k, u) b) c)"
proof -
  have tops: "root_of (plug (br d a (x, col, u) b) c) = root_of (plug (br d a (x, k, u) b) c)"
    by (rule root_of_plug_cong) simp
  have "node_at d u p l r col\<lparr>Color := k\<rparr> = node_at d u p l r k" for p l r
    by (simp add: node_at_def)
  then show ?thesis using assms tops
    by (auto simp: St_def paint_def rep_plug apart_plug nodes_plug)
qed

end
