(* ===== verification/Rb_Rot.thy ===== *)
theory Rb_Rot
  imports Rb_Rep
begin

text \<open>
  Rotations: what RedBlackTreeRotateLeft and RedBlackTreeRotateRight do to the tree the heap holds.
\<close>

lemma replace_child_rep:
  assumes "rep_place h (Some x) c" "place_apart c" "x \<notin> place_nodes c" "c = [] \<Longrightarrow> R' = root_of t"
    "c \<noteq> [] \<Longrightarrow> R' = R"
  shows "\<exists>h'. replace_child (above c) x (root_of t) (h, R) = Some (h', R') \<and> rep_place h' (root_of t) c \<and>
    (\<forall>a. a \<notin> place_nodes c \<longrightarrow> h' a = h a)"
proof (cases c rule: above.cases)
  case (2 d y col u s k)
  have "root_of s \<noteq> Some x" using assms(3) 2 root_of_in_nodes[of s x] by auto
  then show ?thesis using assms 2
    by (cases d) (auto simp: replace_child_def node_at_def)
qed (use assms in \<open>simp add: replace_child_def\<close>)

lemma rotate_form:
  "rotate d Pivot (h, R) = do {
     P \<leftarrow> h Pivot;
     C \<leftarrow> child (other d) P;
     N \<leftarrow> h C;
     h \<leftarrow> upd Pivot (\<lambda>P. P\<lparr>Left := if d = DirL then Left P else child d N,
                             Right := if d = DirL then child d N else Right P\<rparr>) h;
     h \<leftarrow> reparent (Some Pivot) (child d N) h;
     h \<leftarrow> upd C (\<lambda>N. N\<lparr>Parent := Parent P\<rparr>) h;
     (h, R) \<leftarrow> replace_child (Parent P) Pivot (Some C) (h, R);
     h \<leftarrow> upd C (\<lambda>N. N\<lparr>Left := if d = DirL then Some Pivot else Left N,
                          Right := if d = DirL then Right N else Some Pivot\<rparr>) h;
     h \<leftarrow> upd Pivot (\<lambda>N. N\<lparr>Parent := Some C\<rparr>) h;
     Some (h, R)
   }"
  by (cases d) (simp_all add: RedBlackTreeRotateLeft_def RedBlackTreeRotateRight_def
    replace_child_def reparent_def Let_def)

lemma rotate_nodes:
  "node_at d u p l r c\<lparr>Left := if d = DirL then Left (node_at d u p l r c) else q,
     Right := if d = DirL then q else Right (node_at d u p l r c)\<rparr> = node_at d u p l q c"
  "node_at d u p l r c\<lparr>Left := if d = DirL then q else Left (node_at d u p l r c),
     Right := if d = DirL then Right (node_at d u p l r c) else q\<rparr> = node_at d u p q r c"
  "node_at d u p l r c\<lparr>Parent := q\<rparr> = node_at d u q l r c"
  by (simp_all add: node_at_def)

lemma St_rotate:
  assumes "St h0 h R (plug (br d a (x, cx, ux) (br d b (y, cy, uy) r)) c)"
  shows "\<exists>h' R'. rotate d x (h, R) = Some (h', R') \<and>
    St h0 h' R' (plug (br d (br d a (x, cx, ux) b) (y, cy, uy) r) c)"
proof -
  let ?T = "plug (br d a (x, cx, ux) (br d b (y, cy, uy) r)) c"
  let ?T' = "plug (br d (br d a (x, cx, ux) b) (y, cy, uy) r) c"
  have R: "R = root_of ?T" and off: "\<And>z. z \<notin> nodes ?T \<Longrightarrow> h z = h0 z"
    using assms by (auto simp: St_def)
  have ap: "apart (br d a (x, cx, ux) (br d b (y, cy, uy) r))" "place_apart c"
    "nodes (br d a (x, cx, ux) (br d b (y, cy, uy) r)) \<inter> place_nodes c = {}"
    using assms by (auto simp: St_def apart_plug)
  have rp: "rep h (above c) (br d a (x, cx, ux) (br d b (y, cy, uy) r))" "rep_place h (Some x) c"
    using assms by (auto simp: St_def rep_plug)
  let ?h1 = "h(x \<mapsto> node_at d ux (above c) (root_of a) (root_of b) cx)"
  have "rep ?h1 (Some y) b" using ap rp by simp
  then obtain h2 where h2: "reparent (Some x) (root_of b) ?h1 = Some h2" "rep h2 (Some x) b"
    "\<forall>z. z \<notin> nodes b \<longrightarrow> h2 z = ?h1 z"
    using reparent_rep[of ?h1 "Some y" b "Some x"] ap by auto
  have h2x: "h2 x = Some (node_at d ux (above c) (root_of a) (root_of b) cx)"
    "h2 y = Some (node_at d uy (Some x) (root_of b) (root_of r) cy)"
    using h2(3) ap rp by auto
  let ?h3 = "h2(y \<mapsto> node_at d uy (above c) (root_of b) (root_of r) cy)"
  have sep: "\<And>z. z \<in> place_nodes c \<Longrightarrow> z \<notin> nodes b \<and> z \<noteq> x \<and> z \<noteq> y" using ap by fastforce
  have "\<forall>z \<in> place_nodes c. ?h3 z = h z" using h2(3) by (simp add: sep)
  then have "rep_place ?h3 (Some x) c" using rp(2) rep_place_frame by blast
  moreover have "c = [] \<Longrightarrow> root_of ?T' = Some y" by simp
  moreover have "c \<noteq> [] \<Longrightarrow> root_of ?T' = R" unfolding R by (cases c) (simp, metis root_of_plug_Cons)
  ultimately obtain h4 where h4: "replace_child (above c) x (Some y) (?h3, R) = Some (h4, root_of ?T')"
    "rep_place h4 (Some y) c" "\<forall>z. z \<notin> place_nodes c \<longrightarrow> h4 z = ?h3 z"
    using replace_child_rep[of ?h3 x c "root_of ?T'" "br d (br d a (x, cx, ux) b) (y, cy, uy) r" R] ap
    by auto
  let ?h5 = "h4(y \<mapsto> node_at d uy (above c) (Some x) (root_of r) cy)"
  let ?h6 = "?h5(x \<mapsto> node_at d ux (Some y) (root_of a) (root_of b) cx)"
  have same: "\<And>z. z \<notin> place_nodes c \<Longrightarrow> z \<notin> nodes b \<Longrightarrow> z \<noteq> x \<Longrightarrow> z \<noteq> y \<Longrightarrow> ?h6 z = h z"
    using h4(3) h2(3) by auto
  have xy: "x \<noteq> y" using ap by simp
  have hx: "h x = Some (node_at d ux (above c) (root_of a) (Some y) cx)"
    "h y = Some (node_at d uy (Some x) (root_of b) (root_of r) cy)"
    using rp(1) by simp_all
  have h45: "h4 y = Some (node_at d uy (above c) (root_of b) (root_of r) cy)"
    "h4 x = Some (node_at d ux (above c) (root_of a) (root_of b) cx)"
    using h4(3) h2x sep ap by auto
  have "rotate d x (h, R) = Some (?h6, root_of ?T')"
    unfolding rotate_form using hx h2(1) h2x h4(1) h45 xy
    by (simp add: rotate_nodes)
  moreover have "rep ?h6 (above c) (br d (br d a (x, cx, ux) b) (y, cy, uy) r)"
  proof -
    have "z \<notin> place_nodes c \<and> z \<notin> nodes b \<and> z \<noteq> x \<and> z \<noteq> y" if "z \<in> nodes a \<union> nodes r" for z
      using that ap(1,3) unfolding apart_br nodes_br by blast
    then have "\<forall>z \<in> nodes a. ?h6 z = h z" "\<forall>z \<in> nodes r. ?h6 z = h z" using same by blast+
    then have "rep ?h6 (Some x) a" "rep ?h6 (Some y) r"
      using rep_frame[of a ?h6 h] rep_frame[of r ?h6 h] rp(1) by simp_all
    moreover have "\<And>z. z \<in> nodes b \<Longrightarrow> z \<notin> place_nodes c \<and> z \<noteq> x \<and> z \<noteq> y"
      using ap(1,3) unfolding apart_br nodes_br by blast
    then have "\<forall>z \<in> nodes b. ?h6 z = h2 z" using h4(3) by simp
    then have "rep ?h6 (Some x) b" using rep_frame[of b ?h6 h2] h2(2) by simp
    ultimately show ?thesis using ap by simp
  qed
  moreover have "rep_place ?h6 (Some y) c" using h4(2) ap by simp
  moreover have "\<And>z. z \<notin> nodes ?T' \<Longrightarrow> ?h6 z = h0 z"
    using same off by (auto simp: nodes_plug)
  ultimately show ?thesis using ap by (auto simp: St_def rep_plug apart_plug)
qed

end
