(* ===== verification/Rb_Inv.thy ===== *)
theory Rb_Inv
  imports Rb_Rot
begin

text \<open>
  The red-black properties of the comments in OrderedCollectionInsert, on the trees a heap holds,
  and what they say about the two sides of a place in a tree.
\<close>

abbreviation "Red \<equiv> RedBlackTreeRed"
abbreviation "Black \<equiv> RedBlackTreeBlack"

lemma not_Red [simp]: "c \<noteq> Red \<longleftrightarrow> c = Black"
  by (cases c) auto

lemma not_Black [simp]: "c \<noteq> Black \<longleftrightarrow> c = Red"
  by (cases c) auto

text \<open>Property 2: a missing child is black.\<close>

fun black :: "'u shape \<Rightarrow> bool" where
  "black Tip \<longleftrightarrow> True"
| "black (Br l (x, c, u) r) \<longleftrightarrow> c = Black"

text \<open>The number of black nodes on the way down to a leaf, on the left edge.\<close>

fun bh :: "'u shape \<Rightarrow> nat" where
  "bh Tip = 0"
| "bh (Br l (x, c, u) r) = (if c = Black then Suc (bh l) else bh l)"

text \<open>Properties 3 and 4.\<close>

fun rb :: "'u shape \<Rightarrow> bool" where
  "rb Tip \<longleftrightarrow> True"
| "rb (Br l (x, c, u) r) \<longleftrightarrow> rb l \<and> rb r \<and> bh l = bh r \<and> (c = Red \<longrightarrow> black l \<and> black r)"

text \<open>With property 5.\<close>

definition red_black :: "'u shape \<Rightarrow> bool" where
  "red_black t \<longleftrightarrow> rb t \<and> black t"

text \<open>What a place demands of a subtree of black height n, apart from its colour.\<close>

fun black_above :: "'u place \<Rightarrow> bool" where
  "black_above [] \<longleftrightarrow> False"
| "black_above ((d, (x, c, u), s) # k) \<longleftrightarrow> c = Black"

fun rb_place :: "'u place \<Rightarrow> nat \<Rightarrow> bool" where
  "rb_place [] n \<longleftrightarrow> True"
| "rb_place ((d, (x, c, u), s) # k) n \<longleftrightarrow>
     rb s \<and> bh s = n \<and> (c = Red \<longrightarrow> black s \<and> black_above k) \<and> rb_place k (if c = Black then Suc n else n)"

lemma branch_cases: "t \<noteq> Tip \<Longrightarrow> \<exists>l x c u r. t = br d l (x, c, u) r"
proof (cases t rule: black.cases)
  case (2 l x c u r)
  then have "t = br d (if d = DirL then l else r) (x, c, u) (if d = DirL then r else l)" by (cases d) auto
  then show ?thesis by blast
qed simp

lemma black_br [simp]: "black (br d l (x, c, u) r) \<longleftrightarrow> c = Black"
  by (cases d) auto

lemma bh_br: "bh l = bh r \<Longrightarrow> bh (br d l (x, c, u) r) = (if c = Black then Suc (bh l) else bh l)"
  by (cases d) auto

lemma rb_br [simp]:
  "rb (br d l (x, c, u) r) \<longleftrightarrow> rb l \<and> rb r \<and> bh l = bh r \<and> (c = Red \<longrightarrow> black l \<and> black r)"
  by (cases d) auto

lemma red_black_plug:
  "red_black (plug t k) \<longleftrightarrow> rb t \<and> rb_place k (bh t) \<and> (black t \<or> black_above k)"
proof (induction t k rule: plug.induct)
  case (1 t)
  then show ?case by (auto simp: red_black_def)
next
  case (2 t d x s k)
  obtain y c u where x: "x = (y, c, u)" by (cases x) auto
  show ?case using 2 unfolding x by (cases "bh s = bh t") (auto simp: bh_br)
qed

lemma root_of_plug_eq:
  assumes "apart (plug t k)" "t \<noteq> Tip"
  shows "root_of t = root_of (plug t k) \<longleftrightarrow> k = []"
proof
  assume eq: "root_of t = root_of (plug t k)"
  show "k = []"
  proof (rule ccontr)
    assume "k \<noteq> []"
    then obtain f k' where "k = f # k'" by (cases k) auto
    then have "root_of (plug t k) = root_of (plug Tip k)" by (simp only: root_of_plug_Cons[of t f k' Tip])
    then obtain x where x: "root_of t = Some x" "root_of (plug Tip k) = Some x"
      using eq assms(2) by (metis not_None_eq root_of_None)
    then have "x \<in> nodes t" "x \<in> nodes (plug Tip k)" by (simp_all only: root_of_in_nodes)
    then show False using assms(1) by (auto simp: apart_plug nodes_plug)
  qed
qed simp

lemma root_of_plug_Tip: "root_of (plug Tip k) = None \<longleftrightarrow> k = []"
proof (cases k rule: above.cases)
  case (2 d x c u s k)
  have "plug Tip ((d, (x, c, u), s) # k) \<noteq> Tip"
  proof
    assume "plug Tip ((d, (x, c, u), s) # k) = Tip"
    moreover have "x \<in> nodes (plug Tip ((d, (x, c, u), s) # k))" by (simp add: nodes_plug)
    ultimately show False by simp
  qed
  then show ?thesis using 2 by simp
qed simp

text \<open>Whether a subtree is the whole tree, by its root.\<close>

lemma at_root:
  assumes "apart (plug t k)"
  shows "root_of t = root_of (plug t k) \<longleftrightarrow> k = []"
  using root_of_plug_eq[OF assms] root_of_plug_Tip[of k] by (cases "t = Tip") (auto simp del: root_of_None simp: eq_commute[of None])

lemma St_at_root: "St h0 h R (plug t k) \<Longrightarrow> root_of t = R \<longleftrightarrow> k = []"
  using at_root[of t k] by (simp add: St_def)

text \<open>Places of the same nodes and sides are interchangeable in what comes before and after.\<close>

lemma items_br: "items (br d l (x, c, u) r) = (if d = DirL then items l @ (x, u) # items r else items r @ (x, u) # items l)"
  by (cases d) auto

lemma items_plug_cong: "items t = items t' \<Longrightarrow> items (plug t k) = items (plug t' k)"
  by (simp add: items_plug)

end
