(* ===== verification/Rb_Insert.thy ===== *)
theory Rb_Insert
  imports Rb_Inv
begin

text \<open>
  Insertion: the loop that restores property 3 above a new red node.
\<close>

subsection \<open>The loop\<close>

lemma root_not_in: "p \<notin> nodes s \<Longrightarrow> root_of s \<noteq> Some p"
  using root_of_in_nodes by blast

lemma branch_dir:
  "p \<notin> nodes s \<Longrightarrow> (if Left (node_at d u q (Some p) (root_of s) c) = Some p then DirL else DirR) = d"
  by (cases d) (auto simp: node_at_def root_not_in)

lemma child_other_node:
  "child (other d) (node_at e u q l r c) = (if e = d then r else l)"
  by (cases d; cases e) (auto simp: node_at_def)

lemma child_dir_node:
  "child d (node_at e u q l r c) = (if e = d then l else r)"
  by (cases d; cases e) (auto simp: node_at_def)

fun blacken :: "'u shape \<Rightarrow> 'u shape" where
  "blacken Tip = Tip"
| "blacken (Br l (x, c, u) r) = Br l (x, Black, u) r"

lemma insert_body_red_uncle:
  assumes st: "St h0 h R (plug t ((d1, (p, Red, pu), s1) # (d, (g, cg, gu), s) # k))"
    and s: "s = br e sl (w, Red, wu) sr"
  shows "\<exists>h'. insert_body h R x p = Some (h', R, g, above k) \<and>
    St h0 h' R (plug (br d (br d1 t (p, Black, pu) s1) (g, Red, gu) (br e sl (w, Black, wu) sr)) k)"
proof -
  have ap: "p \<notin> nodes s" using st unfolding St_def apart_plug by simp
  have hp: "h p = Some (node_at d1 pu (Some g) (root_of t) (root_of s1) Red)"
    using St_node[of h0 h R d1 t p Red pu s1 "(d, (g, cg, gu), s) # k"] st by simp
  have hg: "h g = Some (node_at d gu (above k) (Some p) (root_of s) cg)"
    using St_node[of h0 h R d "br d1 t (p, Red, pu) s1" g cg gu s k] st by simp
  have hw: "h w = Some (node_at e wu (Some g) (root_of sl) (root_of sr) Red)"
    using St_node[of h0 h R e sl w Red wu sr "(other d, (g, cg, gu), br d1 t (p, Red, pu) s1) # k"] st s by simp
  obtain h1 where h1: "paint Black p h = Some h1"
    "St h0 h1 R (plug (br d1 t (p, Black, pu) s1) ((d, (g, cg, gu), s) # k))"
    using St_paint[of h0 h R d1 t p Red pu s1 "(d, (g, cg, gu), s) # k" Black] st by auto
  obtain h2 where h2: "paint Black w h1 = Some h2"
    "St h0 h2 R (plug (br e sl (w, Black, wu) sr) ((other d, (g, cg, gu), br d1 t (p, Black, pu) s1) # k))"
    using St_paint[of h0 h1 R e sl w Red wu sr "(other d, (g, cg, gu), br d1 t (p, Black, pu) s1) # k" Black] h1(2) s
    by auto
  obtain h3 where h3: "paint Red g h2 = Some h3"
    "St h0 h3 R (plug (br d (br d1 t (p, Black, pu) s1) (g, Red, gu) (br e sl (w, Black, wu) sr)) k)"
    using St_paint[of h0 h2 R d "br d1 t (p, Black, pu) s1" g cg gu "br e sl (w, Black, wu) sr" k Red] h2(2)
    by auto
  have "h3 g = Some (node_at d gu (above k) (Some p) (Some w) Red)"
    using St_node[OF h3(2)] by simp
  then show ?thesis using hp hg hw h1(1) h2(1) h3 ap branch_dir[of p s d gu "above k" cg] s
    by (simp add: insert_body_def Let_def)
qed

text \<open>The recolouring and the last rotation of the branches with a black uncle.\<close>

lemma insert_finish:
  assumes "St h0 h R (plug (br d t (p, Red, pu) s1) ((d, (g, cg, gu), s) # k))"
  shows "\<exists>h1 h2 h' R'. paint Black p h = Some h1 \<and> paint Red g h1 = Some h2 \<and>
    rotate (other d) g (h2, R) = Some (h', R') \<and>
    St h0 h' R' (plug (br d t (p, Black, pu) (br d s1 (g, Red, gu) s)) k)"
proof -
  obtain h1 where h1: "paint Black p h = Some h1"
    "St h0 h1 R (plug (br d t (p, Black, pu) s1) ((d, (g, cg, gu), s) # k))"
    using St_paint[OF assms, of Black] by auto
  obtain h2 where h2: "paint Red g h1 = Some h2"
    "St h0 h2 R (plug (br d (br d t (p, Black, pu) s1) (g, Red, gu) s) k)"
    using St_paint[of h0 h1 R d "br d t (p, Black, pu) s1" g cg gu s k Red] h1(2) by auto
  obtain h' R' where "rotate (other d) g (h2, R) = Some (h', R')"
    "St h0 h' R' (plug (br d t (p, Black, pu) (br d s1 (g, Red, gu) s)) k)"
    using St_rotate[of h0 h2 R "other d" s g Red gu s1 p Black pu t k] h2(2) by auto
  then show ?thesis using h1(1) h2(1) by blast
qed

lemma insert_body_start:
  assumes st: "St h0 h R (plug t ((d1, (p, Red, pu), s1) # (d, (g, cg, gu), s) # k))"
    and s: "black s" and x: "root_of t = Some x"
  shows "insert_body h R x p = do {
    (h, NewRoot, Tmp, p) \<leftarrow>
      (if d1 = d then Some (h, R, x, p)
       else do {
         (h, NewRoot) \<leftarrow> rotate d p (h, R);
         T \<leftarrow> h p;
         q \<leftarrow> Parent T;
         P \<leftarrow> h q;
         ASSERT (Parent P = Some g);
         Some (h, NewRoot, p, q)
       });
    h \<leftarrow> paint Black p h;
    h \<leftarrow> paint Red g h;
    (h, NewRoot) \<leftarrow> rotate (other d) g (h, NewRoot);
    Some (h, NewRoot, Tmp, Some p)
  }"
proof -
  have ap: "p \<notin> nodes s" "x \<notin> nodes s1"
    using st root_of_in_nodes[OF x] unfolding St_def apart_plug by auto
  have hp: "h p = Some (node_at d1 pu (Some g) (Some x) (root_of s1) Red)"
    using St_node[of h0 h R d1 t p Red pu s1 "(d, (g, cg, gu), s) # k"] st x by simp
  have hg: "h g = Some (node_at d gu (above k) (Some p) (root_of s) cg)"
    using St_node[of h0 h R d "br d1 t (p, Red, pu) s1" g cg gu s k] st by simp
  have d: "(if Left (node_at d gu (above k) (Some p) (root_of s) cg) = Some p then DirL else DirR) = d"
    using branch_dir ap(1) .
  have bent: "child (other d) (node_at d1 pu (Some g) (Some x) (root_of s1) Red) = Some x \<longleftrightarrow> d1 \<noteq> d"
    using root_not_in[OF ap(2)] by (simp add: child_other_node)
  have uncle: "(case root_of s of None \<Rightarrow> Some None
     | Some u \<Rightarrow> do { U \<leftarrow> h u; Some (if Color U = Red then Some u else None) }) = Some None"
  proof (cases s rule: black.cases)
    case (2 l w c wu r)
    then show ?thesis
      using s St_node[of h0 h R DirL l w Black wu r "(other d, (g, cg, gu), br d1 t (p, Red, pu) s1) # k"] st
      by simp
  qed simp
  show ?thesis
    by (simp add: insert_body_def hp hg d bent uncle Let_def cong: if_cong)
qed

lemma insert_body_straight:
  assumes st: "St h0 h R (plug t ((d, (p, Red, pu), s1) # (d, (g, cg, gu), s) # k))"
    and s: "black s" and x: "root_of t = Some x"
  shows "\<exists>h' R'. insert_body h R x p = Some (h', R', x, Some p) \<and>
    St h0 h' R' (plug (br d t (p, Black, pu) (br d s1 (g, Red, gu) s)) k)"
  using insert_finish[of h0 h R d t p pu s1 g cg gu s k] st insert_body_start[OF st s x] by auto

lemma insert_body_bent:
  assumes st: "St h0 h R (plug (br d a (x, Red, xu) b) ((other d, (p, Red, pu), s1) # (d, (g, cg, gu), s) # k))"
    and s: "black s"
  shows "\<exists>h' R'. insert_body h R x p = Some (h', R', p, Some x) \<and>
    St h0 h' R' (plug (br d (br d s1 (p, Red, pu) a) (x, Black, xu) (br d b (g, Red, gu) s)) k)"
proof -
  obtain h1 R1 where h1: "rotate d p (h, R) = Some (h1, R1)"
    "St h0 h1 R1 (plug (br d (br d s1 (p, Red, pu) a) (x, Red, xu) b) ((d, (g, cg, gu), s) # k))"
    using St_rotate[of h0 h R d s1 p Red pu a x Red xu b "(d, (g, cg, gu), s) # k"] st by auto
  have hp: "h1 p = Some (node_at d pu (Some x) (root_of s1) (root_of a) Red)"
    using St_node[of h0 h1 R1 d s1 p Red pu a "(d, (x, Red, xu), b) # (d, (g, cg, gu), s) # k"] h1(2)
    by simp
  have hx: "h1 x = Some (node_at d xu (Some g) (Some p) (root_of b) Red)"
    using St_node[OF h1(2)] by simp
  show ?thesis
    using insert_finish[OF h1(2)] insert_body_start[OF st s] h1(1) hp hx by auto
qed

text \<open>A red subtree with black children: the loop moves it up or puts it right.\<close>

lemma insert_loop_end:
  assumes "St h0 h R (plug t k)" "root_of t = Some x" "k = [] \<or> black_above k"
  shows "insert_loop h R x (above k) = Some (h, R)"
proof (cases "k = []")
  case True
  then show ?thesis using assms St_at_root[OF assms(1)] by (simp add: insert_loop.simps[of h R])
next
  case False
  then obtain d p pu s k' where k: "k = (d, (p, Black, pu), s) # k'"
    using assms(3) by (cases k rule: black_above.cases) auto
  have "h p = Some (node_at d pu (above k') (root_of t) (root_of s) Black)"
    using St_node[of h0 h R d t p Black pu s k'] assms(1) k by simp
  then show ?thesis by (simp add: insert_loop.simps[of h R] k)
qed

lemma red_branch:
  assumes "\<not> black t"
  shows "\<exists>l x u r. t = br d l (x, Red, u) r"
  using assms branch_cases[of t d] by fastforce

lemma insert_loop_rb:
  assumes "St h0 h R (plug t k)" "root_of t = Some x" "rb t" "\<not> black t" "rb_place k (bh t)"
  shows "\<exists>h' R' T. insert_loop h R x (above k) = Some (h', R') \<and> St h0 h' R' T \<and> rb T \<and>
    items T = items (plug t k)"
  using assms
proof (induction "length k" arbitrary: h R t k x rule: less_induct)
  case less
  consider (stop) "k = [] \<or> black_above k" "rb (plug t k)"
    | (red) d1 p pu s1 d g gu s k' where "k = (d1, (p, Red, pu), s1) # (d, (g, Black, gu), s) # k'"
    using less.prems red_black_plug[of t k] 
    by (cases k rule: black_above.cases; cases "tl k" rule: black_above.cases) (auto simp: red_black_def)
  then show ?case
  proof cases
    case stop
    then show ?thesis using less.prems insert_loop_end by blast
  next
    case red
    let ?k2 = "(d, (g, Black, gu), s) # k'"
    have wf: "rb s1" "bh s1 = bh t" "black s1" "rb s" "bh s = bh t" "rb_place k' (Suc (bh t))"
      using less.prems red by auto
    have hp: "h p = Some (node_at d1 pu (Some g) (Some x) (root_of s1) Red)"
      using St_node[of h0 h R d1 t p Red pu s1 ?k2] less.prems(1,2) red by simp
    have run: "insert_loop h R x (above k) = do {
        (h, NewRoot, Tmp, Par) \<leftarrow> insert_body h R x p;
        insert_loop h NewRoot Tmp Par }"
      using St_at_root[OF less.prems(1)] less.prems(2) red hp by (simp add: insert_loop.simps[of h R])
    have x: "x \<in> nodes t" using root_of_in_nodes[OF less.prems(2)] .
    show ?thesis
    proof (cases "black s")
      case False
      obtain sl w wu sr where s: "s = br DirL sl (w, Red, wu) sr" using red_branch[OF False] by blast
      let ?t = "br d (br d1 t (p, Black, pu) s1) (g, Red, gu) (br DirL sl (w, Black, wu) sr)"
      obtain h1 where h1: "insert_body h R x p = Some (h1, R, g, above k')" "St h0 h1 R (plug ?t k')"
        using insert_body_red_uncle[OF _ s] less.prems(1) red by blast
      have "rb ?t" "bh ?t = Suc (bh t)" using wf s less.prems(3) by (auto simp: bh_br)
      then obtain h' R' T where T: "insert_loop h1 R g (above k') = Some (h', R')" "St h0 h' R' T" "rb T"
          "items T = items (plug ?t k')"
        using less.hyps[of k' h1 R ?t g] h1(2) wf(6) red by auto
      moreover have "items (plug ?t k') = items (plug t k)"
        by (simp add: red s items_plug items_br)
      ultimately show ?thesis using run h1(1) by auto
    next
      case black: True
      have "\<exists>h' R' z y t'. insert_body h R x p = Some (h', R', z, Some y) \<and>
        St h0 h' R' (plug t' k') \<and> insert_loop h' R' z (Some y) = Some (h', R') \<and>
        red_black (plug t' k') \<and> items (plug t' k') = items (plug t k)"
      proof (cases "d1 = d")
        case True
        let ?t = "br d t (p, Black, pu) (br d s1 (g, Red, gu) s)"
        obtain h1 R1 where h1: "insert_body h R x p = Some (h1, R1, x, Some p)" "St h0 h1 R1 (plug ?t k')"
          using insert_body_straight[OF _ black less.prems(2)] less.prems(1) red True by blast
        have "insert_loop h1 R1 x (Some p) = Some (h1, R1)"
          using insert_loop_end[of h0 h1 R1 t "(d, (p, Black, pu), br d s1 (g, Red, gu) s) # k'" x]
            h1(2) less.prems(2) by simp
        moreover have "red_black (plug ?t k')"
          using wf black less.prems(3) by (simp add: red_black_plug bh_br)
        moreover have "items (plug ?t k') = items (plug t k)"
          by (simp add: red True items_plug items_br)
        ultimately show ?thesis using h1 by blast
      next
        case False
        then have d1: "d1 = other d" by (cases d; cases d1) auto
        obtain a xu b where t: "t = br d a (x, Red, xu) b"
          using red_branch[OF less.prems(4), of d] less.prems(2) by auto
        let ?t = "br d (br d s1 (p, Red, pu) a) (x, Black, xu) (br d b (g, Red, gu) s)"
        obtain h1 R1 where h1: "insert_body h R x p = Some (h1, R1, p, Some x)" "St h0 h1 R1 (plug ?t k')"
          using insert_body_bent[OF _ black] less.prems(1) red d1 t by blast
        have "insert_loop h1 R1 p (Some x) = Some (h1, R1)"
          using insert_loop_end[of h0 h1 R1 "br d s1 (p, Red, pu) a" "(d, (x, Black, xu), br d b (g, Red, gu) s) # k'" p]
            h1(2) by simp
        moreover have "red_black (plug ?t k')"
          using wf black less.prems(3) t by (auto simp: red_black_plug bh_br)
        moreover have "items (plug ?t k') = items (plug t k)"
          by (cases d) (simp_all add: red d1 t items_plug items_br)
        ultimately show ?thesis using h1 by blast
      qed
      then show ?thesis using run by (auto simp: red_black_def)
    qed
  qed
qed

end
