(* ===== verification/Rb_Walk.thy ===== *)
theory Rb_Walk
  imports Rb_Inv
begin

text \<open>
  Reading the tree: minimum and maximum, the iteration with OrderedCollectionNext and
  OrderedCollectionPrev, and the lookup of a key.
\<close>

definition first_node :: "(nat \<times> 'u) list \<Rightarrow> nat option" where
  "first_node xs = (case xs of [] \<Rightarrow> None | p # ps \<Rightarrow> Some (fst p))"

lemma first_node_simps [simp]:
  "first_node [] = None"
  "first_node (p # ps) = Some (fst p)"
  by (simp_all add: first_node_def)

lemma first_node_append: "first_node (xs @ ys) = (if xs = [] then first_node ys else first_node xs)"
  by (cases xs) simp_all

lemma first_node_None [simp]: "first_node xs = None \<longleftrightarrow> xs = []"
  by (cases xs) simp_all

lemma items_Nil [simp]: "items t = [] \<longleftrightarrow> t = Tip"
  by (cases t rule: items.cases) simp_all

text \<open>The items in the order in which a walk in direction d meets them.\<close>

definition along :: "dir \<Rightarrow> (nat \<times> 'u) list \<Rightarrow> (nat \<times> 'u) list" where
  "along d xs = (if d = DirL then xs else rev xs)"

lemma along_Nil [simp]: "along d xs = [] \<longleftrightarrow> xs = []"
  by (simp add: along_def)

lemma along_items_br: "along d (items (br d l (x, c, u) r)) = along d (items l) @ (x, u) # along d (items r)"
  by (cases d) (simp_all add: along_def)

definition beyond :: "dir \<Rightarrow> 'u place \<Rightarrow> (nat \<times> 'u) list" where
  "beyond d k = (if d = DirL then items_after k else rev (items_before k))"

lemma beyond_simps [simp]:
  "beyond d [] = []"
  "beyond d ((e, (x, c, u), s) # k) = (if e = d then (x, u) # along d (items s) @ beyond d k else beyond d k)"
  by (cases d; cases e; simp add: beyond_def along_def)+

lemma along_simp [simp]: "along d [] = []"
  by (simp add: along_def)

lemma extreme_rep:
  assumes "rep h p t" "root_of t = Some x"
  shows "extreme d h x = first_node (along d (items t))"
  using assms
proof (induction t arbitrary: p x rule: measure_induct_rule[where f = "\<lambda>t. length (items t)"])
  case (less t)
  have "t \<noteq> Tip" using less.prems by auto
  then obtain l y c u r where t: "t = br d l (y, c, u) r" using branch_cases[of t d] by blast
  have hx: "x = y" "h x = Some (node_at d u p (root_of l) (root_of r) c)" "rep h (Some x) l"
    using less.prems by (auto simp: t)
  show ?case
  proof (cases "root_of l")
    case None
    then show ?thesis using hx t by (simp add: extreme.simps[of d h y] along_items_br)
  next
    case (Some z)
    have "length (items l) < length (items t)" by (cases d) (simp_all add: t)
    then have "extreme d h z = first_node (along d (items l))" using less.IH[of l "Some x" z] hx Some by auto
    then show ?thesis using hx Some
      by (auto simp: t extreme.simps[of d h y] along_items_br first_node_append)
  qed
qed

lemma ascend_rep:
  assumes "rep_place h (root_of t) k" "root_of t = Some x" "apart (plug t k)"
  shows "ascend (other d) h x (above k) = Some (first_node (beyond d k))"
  using assms
proof (induction k arbitrary: t x)
  case Nil
  then show ?case by (simp add: ascend.simps[of "other d" h x])
next
  case (Cons f k)
  obtain e y c u s where f: "f = (e, (y, c, u), s)" by (cases f) auto
  have hy: "h y = Some (node_at e u (above k) (Some x) (root_of s) c)" using Cons.prems f by simp
  have "x \<in> nodes t" using root_of_in_nodes Cons.prems by blast
  then have "x \<notin> nodes s" using Cons.prems f by (auto simp: apart_plug)
  then have ch: "child (other d) (node_at e u (above k) (Some x) (root_of s) c) = Some x \<longleftrightarrow> e \<noteq> d"
    using root_of_in_nodes[of s x] by (cases d; cases e) (auto simp: node_at_def)
  have "ascend (other d) h y (above k) = Some (first_node (beyond d k))"
    using Cons.IH[of "br e t (y, c, u) s" y] Cons.prems f by simp
  then show ?case using hy ch f by (auto simp: ascend.simps[of "other d" h x])
qed

lemma step_rep:
  assumes "rep h None (plug (br d l (x, c, u) r) k)" "apart (plug (br d l (x, c, u) r) k)"
  shows "(case root_of r of Some w \<Rightarrow> map_option Some (extreme d h w)
          | None \<Rightarrow> ascend (other d) h x (above k)) =
         Some (first_node (along d (items r) @ beyond d k))"
proof (cases "root_of r")
  case None
  then show ?thesis using assms ascend_rep[of h "br d l (x, c, u) r" k x d]
    by (simp add: rep_plug along_def)
next
  case (Some w)
  then have "extreme d h w = first_node (along d (items r))" using assms extreme_rep[of h "Some x" r w d]
    by (simp add: rep_plug)
  then show ?thesis using Some by (auto simp: first_node_append first_node_def split: list.splits)
qed

lemma place_of:
  assumes "(x, u) \<in> set (items t)"
  shows "\<exists>l c r k. t = plug (br d l (x, c, u) r) k"
  using assms
proof (induction t rule: items.induct)
  case (2 l y c v r)
  consider "(x, u) \<in> set (items l)" | "(x, u) = (y, v)" | "(x, u) \<in> set (items r)" using 2 by auto
  then show ?case
  proof cases
    case 1
    then obtain l' c' r' k' where "l = plug (br d l' (x, c', u) r') k'" using 2(1) by blast
    then have "Br l (y, c, v) r = plug (br d l' (x, c', u) r') (k' @ [(DirL, (y, c, v), r)])"
      by (simp add: plug_append)
    then show ?thesis by blast
  next
    case here: 2
    have "Br l (y, c, v) r = plug (br d (if d = DirL then l else r) (x, c, u) (if d = DirL then r else l)) []"
      using here by (cases d) auto
    then show ?thesis by blast
  next
    case 3
    then obtain l' c' r' k' where "r = plug (br d l' (x, c', u) r') k'" using 2(2) by blast
    then have "Br l (y, c, v) r = plug (br d l' (x, c', u) r') (k' @ [(DirR, (y, c, v), l)])"
      by (simp add: plug_append)
    then show ?thesis by blast
  qed
qed simp

lemma split_place:
  assumes "items T = pre @ (x, u) # post" "apart T"
  shows "\<exists>l c r k. T = plug (br d l (x, c, u) r) k \<and>
    along d (items r) @ beyond d k = (if d = DirL then post else rev pre)"
proof -
  obtain l c r k where T: "T = plug (br d l (x, c, u) r) k"
    using place_of[of x u T d] assms(1) by auto
  have d: "distinct (map fst (items T))" using assms(2) apart_distinct by blast
  have "items T = (items_before k @ items (if d = DirL then l else r)) @ (x, u) # items (if d = DirL then r else l) @ items_after k"
    by (cases d) (simp_all add: T items_plug)
  then have eq: "pre @ (x, u) # post = (items_before k @ items (if d = DirL then l else r)) @ (x, u) #
      items (if d = DirL then r else l) @ items_after k"
    using assms(1) by simp
  have "(x, u) \<notin> set pre" "(x, u) \<notin> set post" using d assms(1) by force+
  from append_Cons_eq_iff[OF this] have "pre = items_before k @ items (if d = DirL then l else r) \<and>
    post = items (if d = DirL then r else l) @ items_after k"
    using eq by blast
  then show ?thesis using T by (cases d) (auto simp: along_def beyond_def)
qed

subsection \<open>Iteration\<close>

lemma Min_rep: "rep h None T \<Longrightarrow> Root Tree = root_of T \<Longrightarrow> OrderedCollectionMin Tree h = Some (first_node (items T))"
  using extreme_rep[of h None T _ DirL]
  by (auto simp: OrderedCollectionMin_def along_def first_node_def split: option.splits list.splits)

lemma Max_rep: "rep h None T \<Longrightarrow> Root Tree = root_of T \<Longrightarrow> OrderedCollectionMax Tree h = Some (first_node (rev (items T)))"
  using extreme_rep[of h None T _ DirR]
  by (auto simp: OrderedCollectionMax_def along_def first_node_def split: option.splits list.splits)

lemma Next_rep:
  assumes "rep h None T" "apart T" "items T = pre @ (x, u) # post"
  shows "OrderedCollectionNext h (Some x) = Some (first_node post)"
proof -
  obtain l c r k where T: "T = plug (br DirL l (x, c, u) r) k"
    "along DirL (items r) @ beyond DirL k = post"
    using split_place[OF assms(3,2), of DirL] by auto
  have "h x = Some (node_at DirL u (above k) (root_of l) (root_of r) c)"
    using assms(1) T(1) rep_br[of h "above k" DirL] by (simp only: rep_plug)
  then show ?thesis using step_rep[of h DirL l x c u r k] assms T
    by (auto simp: OrderedCollectionNext_def node_at_def split: option.splits)
qed

lemma Prev_rep:
  assumes "rep h None T" "apart T" "items T = pre @ (x, u) # post"
  shows "OrderedCollectionPrev h (Some x) = Some (first_node (rev pre))"
proof -
  obtain l c r k where T: "T = plug (br DirR l (x, c, u) r) k"
    "along DirR (items r) @ beyond DirR k = rev pre"
    using split_place[OF assms(3,2), of DirR] by auto
  have "h x = Some (node_at DirR u (above k) (root_of l) (root_of r) c)"
    using assms(1) T(1) rep_br[of h "above k" DirR] by (simp only: rep_plug)
  then show ?thesis using step_rep[of h DirR l x c u r k] assms T
    by (auto simp: OrderedCollectionPrev_def node_at_def split: option.splits)
qed

lemma user_of:
  assumes "rep h p T" "(x, u) \<in> set (items T)"
  shows "\<exists>N. h x = Some N \<and> UserStruct N = u"
  using assms by (induction h p T rule: rep.induct) auto

subsection \<open>Lookup\<close>

text \<open>A comparison that agrees with the order of a list of items: what follows an item that is not
  before the key is behind it.\<close>

definition guides :: "('u \<Rightarrow> int) \<Rightarrow> (nat \<times> 'u) list \<Rightarrow> bool" where
  "guides cmp its \<longleftrightarrow> sorted_wrt (\<lambda>p q. cmp (snd p) \<le> 0 \<longrightarrow> cmp (snd q) < 0) its"

definition matching :: "('u \<Rightarrow> int) \<Rightarrow> (nat \<times> 'u) list \<Rightarrow> nat option" where
  "matching cmp its = map_option fst (find (\<lambda>p. cmp (snd p) = 0) its)"

lemma find_none_append: "\<forall>p \<in> set xs. \<not> P p \<Longrightarrow> find P (xs @ ys) = find P ys"
  by (induction xs) auto

lemma find_none_end: "\<forall>p \<in> set ys. \<not> P p \<Longrightarrow> find P (xs @ ys) = find P xs"
  by (induction xs) (auto simp: find_None_iff)

lemma guides_br:
  assumes "guides cmp (items (Br l (x, c, u) r))"
  shows "guides cmp (items l)" "guides cmp (items r)"
    "cmp u \<le> 0 \<Longrightarrow> q \<in> set (items r) \<Longrightarrow> cmp (snd q) < 0"
    "0 \<le> cmp u \<Longrightarrow> q \<in> set (items l) \<Longrightarrow> 0 < cmp (snd q)"
  using assms by (fastforce simp: guides_def sorted_wrt_append)+

lemma find_loop_rep:
  assumes "rep h p t" "guides cmp (items t)"
  shows "find_loop cmp h (root_of t) = Some (matching cmp (items t))"
  using assms
proof (induction t arbitrary: p rule: items.induct)
  case 1
  then show ?case by (simp add: find_loop.simps matching_def)
next
  case (2 l x c u r)
  note g = guides_br[OF 2(4)]
  have hx: "h x = Some \<lparr>UserStruct = u, Parent = p, Left = root_of l, Right = root_of r, Color = c\<rparr>"
    and sub: "rep h (Some x) l" "rep h (Some x) r" using 2(3) by auto
  consider "cmp u = 0" | "cmp u < 0" | "0 < cmp u" by linarith
  then show ?case
  proof cases
    case 1
    then have "\<forall>q \<in> set (items l). cmp (snd q) \<noteq> 0" using g(4) by fastforce
    then show ?thesis using 1 hx
      by (simp add: find_loop.simps[of cmp h "Some x"] matching_def find_none_append)
  next
    case 2
    then have "\<forall>q \<in> set ((x, u) # items r). cmp (snd q) \<noteq> 0" using g(3) by fastforce
    then have "matching cmp (items (Br l (x, c, u) r)) = matching cmp (items l)"
      unfolding matching_def items.simps by (subst find_none_end) auto
    then show ?thesis using 2 hx "2.IH"(1)[OF sub(1) g(1)]
      by (simp add: find_loop.simps[of cmp h "Some x"])
  next
    case 3
    then have "\<forall>q \<in> set (items l @ [(x, u)]). cmp (snd q) \<noteq> 0" using g(4) by fastforce
    then have "matching cmp (items (Br l (x, c, u) r)) = matching cmp (items r)"
      unfolding matching_def using find_none_append[of "items l @ [(x, u)]" "\<lambda>p. cmp (snd p) = 0" "items r"] by simp
    then show ?thesis using 3 hx "2.IH"(2)[OF sub(2) g(2)]
      by (simp add: find_loop.simps[of cmp h "Some x"])
  qed
qed

end
