(* ===== verification/Rb_Valid.thy ===== *)
theory Rb_Valid
  imports Rb_Walk
begin

text \<open>
  RedBlackTreeValidate: none of its ASSERTs fires exactly on the ordered red-black trees of fewer
  than 2^32 - 1 nodes.
\<close>

subsection \<open>The black heights\<close>

lemma bh_bound: "bh t \<le> length (items t)"
  by (induction t rule: items.induct) auto

lemma NodeIsNullOrBlack_rep: "rep h p t \<Longrightarrow> NodeIsNullOrBlack h (root_of t) = Some (black t)"
  by (cases t rule: black.cases) (auto simp: NodeIsNullOrBlack_def)

lemma height_eq:
  assumes "a < 2 ^ 32 - 1" "b < 2 ^ 32 - 1"
  shows "(word_of_nat (Suc a) :: u32) = word_of_nat (Suc b) \<longleftrightarrow> a = b"
  using assms by (subst word_of_nat_eq_iff) (simp add: take_bit_nat_eq_self)

lemma RecursiveCheck_rep:
  assumes "rep h p t" "length (items t) < 2 ^ 32 - 1"
  shows "RedBlackTreeRecursiveCheck h (root_of t) = (if rb t then Some (word_of_nat (Suc (bh t))) else None)"
  using assms
proof (induction t arbitrary: p rule: items.induct)
  case 1
  then show ?case by (simp add: RedBlackTreeRecursiveCheck.simps)
next
  case (2 l x c u r)
  have hx: "h x = Some \<lparr>UserStruct = u, Parent = p, Left = root_of l, Right = root_of r, Color = c\<rparr>"
    and sub: "rep h (Some x) l" "rep h (Some x) r" using 2(3) by auto
  have n: "length (items l) < 2 ^ 32 - 1" "length (items r) < 2 ^ 32 - 1" using 2(4) by simp_all
  have ih: "RedBlackTreeRecursiveCheck h (root_of l) = (if rb l then Some (word_of_nat (Suc (bh l))) else None)"
    "RedBlackTreeRecursiveCheck h (root_of r) = (if rb r then Some (word_of_nat (Suc (bh r))) else None)"
    using 2(1,2) sub n by blast+
  have eq: "(word_of_nat (Suc (bh l)) :: u32) = word_of_nat (Suc (bh r)) \<longleftrightarrow> bh l = bh r"
    using height_eq bh_bound[of l] bh_bound[of r] n by simp
  show ?case
    using hx ih eq NodeIsNullOrBlack_rep[OF sub(1)] NodeIsNullOrBlack_rep[OF sub(2)]
    by (simp add: RedBlackTreeRecursiveCheck.simps[of h "Some x"] assert_simps del: of_nat_Suc)
      (simp add: algebra_simps)
qed

subsection \<open>The two walks\<close>

lemma walk_rep:
  assumes "\<And>pre p post. xs = pre @ p # post \<Longrightarrow> step (Some (fst p)) = Some (first_node post)"
    "\<forall>(x, u) \<in> set xs. \<exists>N. h x = Some N \<and> UserStruct N = u" "xs \<noteq> []"
  shows "validate_walk step ok h (first_node xs) n =
    (if successively (\<lambda>p q. ok (snd p) (snd q)) xs then Some (n + word_of_nat (length xs - 1)) else None)"
  using assms
proof (induction xs arbitrary: n rule: induct_list012)
  case (2 p)
  then show ?case using 2(1)[of "[]" p "[]"] by (simp add: validate_walk.simps)
next
  case (3 p q ps)
  have s: "step (Some (fst p)) = Some (Some (fst q))" using 3(3)[of "[]" p "q # ps"] by simp
  have tl: "\<And>pre p' post. q # ps = pre @ p' # post \<Longrightarrow> step (Some (fst p')) = Some (first_node post)"
    using 3(3) by (metis append_Cons)
  obtain N M where "h (fst p) = Some N" "UserStruct N = snd p" "h (fst q) = Some M" "UserStruct M = snd q"
    using 3(4) by (cases p; cases q) auto
  then show ?case using s 3(2)[OF tl] 3(4)
    by (simp add: validate_walk.simps[of step ok h "Some (fst p)"] assert_simps)
qed simp

text \<open>The comparison of two user structures is that of a total order.\<close>

definition total_order :: "('u \<Rightarrow> 'u \<Rightarrow> int) \<Rightarrow> bool" where
  "total_order cmp \<longleftrightarrow>
     (\<forall>a b. sgn (cmp b a) = - sgn (cmp a b)) \<and>
     (\<forall>a b c. cmp a b \<le> 0 \<longrightarrow> cmp b c \<le> 0 \<longrightarrow> cmp a c \<le> 0)"

lemma total_order_sym:
  assumes "total_order cmp"
  shows "cmp b a < 0 \<longleftrightarrow> 0 < cmp a b" "cmp b a = 0 \<longleftrightarrow> cmp a b = 0"
proof -
  have "sgn (cmp b a) = - sgn (cmp a b)" using assms unfolding total_order_def by blast
  then show "cmp b a < 0 \<longleftrightarrow> 0 < cmp a b" "cmp b a = 0 \<longleftrightarrow> cmp a b = 0"
    by (metis neg_less_0_iff_less sgn_greater sgn_less, metis neg_equal_0_iff_equal sgn_eq_0_iff)
qed

lemma total_order_trans:
  assumes "total_order cmp"
  shows "cmp a b \<le> 0 \<Longrightarrow> cmp b c < 0 \<Longrightarrow> cmp a c < 0" "cmp a b < 0 \<Longrightarrow> cmp b c \<le> 0 \<Longrightarrow> cmp a c < 0"
proof -
  have le: "cmp a b \<le> 0 \<Longrightarrow> cmp b c \<le> 0 \<Longrightarrow> cmp a c \<le> 0" for a b c
    using assms unfolding total_order_def by blast
  show "cmp a b \<le> 0 \<Longrightarrow> cmp b c < 0 \<Longrightarrow> cmp a c < 0"
    using le[of c a b] total_order_sym(1)[OF assms, of b c] total_order_sym(1)[OF assms, of a c] by linarith
  show "cmp a b < 0 \<Longrightarrow> cmp b c \<le> 0 \<Longrightarrow> cmp a c < 0"
    using le[of b c a] total_order_sym(1)[OF assms, of a b] total_order_sym(1)[OF assms, of a c] by linarith
qed

text \<open>The items of a collection: in strictly ascending order.\<close>

definition ascending :: "('u \<Rightarrow> 'u \<Rightarrow> int) \<Rightarrow> (nat \<times> 'u) list \<Rightarrow> bool" where
  "ascending cmp its \<longleftrightarrow> sorted_wrt (\<lambda>p q. cmp (snd p) (snd q) < 0) its"

lemma ascending_successively:
  assumes "total_order cmp"
  shows "successively (\<lambda>p q. cmp (snd p) (snd q) < 0) its \<longleftrightarrow> ascending cmp its"
proof -
  have "transp (\<lambda>p q :: nat \<times> 'a. cmp (snd p) (snd q) < 0)"
    by (rule transpI) (use total_order_trans[OF assms] in \<open>auto intro: order.strict_implies_order\<close>)
  then show ?thesis by (simp add: ascending_def successively_conv_sorted_wrt)
qed

lemma RedBlackTreeValidate_rep:
  assumes "rep h None T" "apart T" "Root Tree = root_of T" "total_order (UserStructCompare Tree)"
    "length (items T) < 2 ^ 32 - 1"
  shows "RedBlackTreeValidate Tree h =
    (if red_black T \<and> ascending (UserStructCompare Tree) (items T) then Some () else None)"
proof (cases "items T = []")
  case True
  then have "T = Tip" by simp
  then show ?thesis using assms
    by (simp add: RedBlackTreeValidate_def NodeIsNullOrBlack_def RedBlackTreeRecursiveCheck.simps
      OrderedCollectionMin_def OrderedCollectionMax_def validate_walk.simps[of _ _ h None]
      OrderedCollectionNext_def OrderedCollectionPrev_def red_black_def ascending_def)
next
  case False
  let ?less = "\<lambda>a b. UserStructCompare Tree a b < 0" and ?gt = "\<lambda>a b. 0 < UserStructCompare Tree a b"
  have users: "\<forall>(x, u) \<in> set (items T). \<exists>N. h x = Some N \<and> UserStruct N = u"
    using user_of[OF assms(1)] by blast
  have fwd: "validate_walk (OrderedCollectionNext h) ?less h (first_node (items T)) 1 =
      (if ascending (UserStructCompare Tree) (items T) then Some (1 + word_of_nat (length (items T) - 1)) else None)"
    using walk_rep[of "items T" "OrderedCollectionNext h" h ?less 1] Next_rep[OF assms(1,2)] users False
      ascending_successively[OF assms(4)] by auto
  have "successively (\<lambda>p q. ?gt (snd p) (snd q)) (rev (items T)) \<longleftrightarrow>
      successively (\<lambda>p q. ?less (snd p) (snd q)) (items T)"
    using total_order_sym(1)[OF assms(4)] by (simp add: successively_rev)
  then have bwd: "validate_walk (OrderedCollectionPrev h) ?gt h (first_node (rev (items T))) 1 =
      (if ascending (UserStructCompare Tree) (items T) then Some (1 + word_of_nat (length (items T) - 1)) else None)"
    using walk_rep[of "rev (items T)" "OrderedCollectionPrev h" h ?gt 1] Prev_rep[OF assms(1,2)] users False
      ascending_successively[OF assms(4)] by (auto simp: rev_eq_append_conv)
  show ?thesis
    using assms(3) NodeIsNullOrBlack_rep[OF assms(1)] RecursiveCheck_rep[OF assms(1,5)] False
      Min_rep[OF assms(1,3)] Max_rep[OF assms(1,3)] fwd bwd
    by (simp add: RedBlackTreeValidate_def assert_simps red_black_def del: of_nat_Suc)
qed

lemma validate_if_rep:
  assumes "rep h None T" "apart T" "Root Tree = root_of T" "total_order (UserStructCompare Tree)"
    "length (items T) < 2 ^ 32 - 1" "red_black T" "ascending (UserStructCompare Tree) (items T)"
  shows "validate_if pcd Tree h = Some ()"
  using RedBlackTreeValidate_rep[OF assms(1-5)] assms(6,7) by (simp add: validate_if_def)

end
