(* ===== verification/Rb_Put.thy ===== *)
theory Rb_Put
  imports Rb_Insert Rb_Valid
begin

text \<open>
  OrderedCollectionInsert as a whole: the collection as its items in order, and the insertion of an
  item into it.
\<close>

text \<open>The heap holds a red-black tree of these nodes and user structures in ascending order.\<close>

definition collection :: "('u, 'k) rb_tree \<Rightarrow> 'u rb_heap \<Rightarrow> (nat \<times> 'u) list \<Rightarrow> bool" where
  "collection Tree h its \<longleftrightarrow>
     (\<exists>T. rep h None T \<and> apart T \<and> red_black T \<and> Root Tree = root_of T \<and> items T = its) \<and>
     ascending (UserStructCompare Tree) its"

lemma collectionE:
  assumes "collection Tree h its"
  obtains T where "St h h (Root Tree) T" "red_black T" "items T = its" "ascending (UserStructCompare Tree) its"
  using assms by (auto simp: collection_def St_def)

lemma collectionI:
  "St h0 h R T \<Longrightarrow> red_black T \<Longrightarrow> ascending (UserStructCompare Tree) (items T) \<Longrightarrow> Root Tree = R \<Longrightarrow>
    collection Tree h (items T)"
  by (auto simp: collection_def St_def)

lemma collection_validates:
  assumes "collection Tree h its" "total_order (UserStructCompare Tree)" "length its < 2 ^ 32 - 1"
  shows "validate_if pcd Tree h = Some ()"
  using assms(1) by (rule collectionE) (use assms(2,3) validate_if_rep in \<open>auto simp: St_def\<close>)

text \<open>A user structure is a key.\<close>

lemma ascending_guides:
  assumes "ascending cmp its" "total_order cmp"
  shows "guides (cmp User) its"
  unfolding guides_def
  by (rule sorted_wrt_mono_rel[OF _ assms(1)[unfolded ascending_def]]) (use total_order_trans(1)[OF assms(2)] in blast)

lemma ascending_insert:
  assumes "ascending cmp its" "total_order cmp"
  shows "ascending cmp (filter (\<lambda>p. 0 < cmp User (snd p)) its @ (x, User) # filter (\<lambda>p. cmp User (snd p) < 0) its)"
proof -
  have before: "cmp (snd p) User < 0" if "0 < cmp User (snd p)" for p
    using total_order_sym(1)[OF assms(2), of "snd p" User] that by simp
  have "sorted_wrt (\<lambda>p q. cmp (snd p) (snd q) < 0) (filter P its)" for P
    using assms(1) by (simp add: ascending_def sorted_wrt_filter)
  moreover have "cmp (snd p) (snd q) < 0" if "0 < cmp User (snd p)" "cmp User (snd q) < 0" for p q
    using total_order_trans(2)[OF assms(2) before[OF that(1)]] that(2) by (simp add: order.strict_implies_order)
  ultimately show ?thesis using before by (auto simp: ascending_def sorted_wrt_append)
qed

subsection \<open>The search\<close>

lemma search_found:
  assumes "rep h p t" "guides cmp (items t)" "matching cmp (items t) = Some b"
  shows "\<exists>par res. search_loop cmp h (root_of t) q n = Some (Some b, par, res)"
  using assms
proof (induction t arbitrary: p q n rule: items.induct)
  case 1
  then show ?case by (simp add: matching_def)
next
  case (2 l x c u r)
  note g = guides_br[OF 2(4)]
  have hx: "h x = Some \<lparr>UserStruct = u, Parent = p, Left = root_of l, Right = root_of r, Color = c\<rparr>"
    and sub: "rep h (Some x) l" "rep h (Some x) r" using 2(3) by auto
  have run: "search_loop cmp h (root_of (Br l (x, c, u) r)) q n =
    (if cmp u = 0 then Some (Some x, q, cmp u)
     else search_loop cmp h (if cmp u < 0 then root_of l else root_of r) (Some x) (cmp u))"
    using hx by (simp add: search_loop.simps[of cmp h "Some x"] Let_def)
  consider "cmp u = 0" | "cmp u < 0" | "0 < cmp u" by linarith
  then show ?case
  proof cases
    case 1
    then have "\<forall>q \<in> set (items l). cmp (snd q) \<noteq> 0" using g(4) by fastforce
    then show ?thesis using 1 2(5) run by (simp add: matching_def find_none_append)
  next
    case 2
    then have "\<forall>q \<in> set ((x, u) # items r). cmp (snd q) \<noteq> 0" using g(3) by fastforce
    then have "matching cmp (items l) = Some b"
      using "2.prems"(3) unfolding matching_def items.simps by (subst (asm) find_none_end) auto
    then show ?thesis using 2 run "2.IH"(1)[OF sub(1) g(1)] by simp
  next
    case 3
    then have "\<forall>q \<in> set (items l @ [(x, u)]). cmp (snd q) \<noteq> 0" using g(4) by fastforce
    then have "matching cmp (items r) = Some b"
      using "2.prems"(3) find_none_append[of "items l @ [(x, u)]" "\<lambda>p. cmp (snd p) = 0" "items r"]
      by (simp add: matching_def)
    then show ?thesis using 3 run "2.IH"(2)[OF sub(2) g(2)] by simp
  qed
qed

text \<open>Without a match the search ends at the place where the key belongs.\<close>

definition side_of :: "'u place \<Rightarrow> int \<Rightarrow> bool" where
  "side_of k n \<longleftrightarrow> (case k of [] \<Rightarrow> True | (d, x, s) # k' \<Rightarrow> (n < 0) = (d = DirL))"

lemma search_missing:
  assumes "rep h (above k) t" "guides cmp (items t)" "\<forall>p \<in> set (items t). cmp (snd p) \<noteq> 0" "side_of k n"
  shows "\<exists>k' n'. search_loop cmp h (root_of t) (above k) n = Some (None, above k', n') \<and> side_of k' n' \<and>
    plug Tip k' = plug t k \<and>
    items_before k' = items_before k @ filter (\<lambda>p. 0 < cmp (snd p)) (items t) \<and>
    items_after k' = filter (\<lambda>p. cmp (snd p) < 0) (items t) @ items_after k"
  using assms
proof (induction t arbitrary: k n rule: items.induct)
  case 1
  then show ?case by (auto simp: search_loop.simps[of cmp h None])
next
  case (2 l x c u r)
  note g = guides_br[OF 2(4)]
  have hx: "h x = Some \<lparr>UserStruct = u, Parent = above k, Left = root_of l, Right = root_of r, Color = c\<rparr>"
    and sub: "rep h (Some x) l" "rep h (Some x) r" using 2(3) by auto
  have run: "search_loop cmp h (root_of (Br l (x, c, u) r)) (above k) n =
    (if cmp u = 0 then Some (Some x, above k, cmp u)
     else search_loop cmp h (if cmp u < 0 then root_of l else root_of r) (Some x) (cmp u))"
    using hx by (simp add: search_loop.simps[of cmp h "Some x"] Let_def)
  have nz: "\<forall>p \<in> set (items l). cmp (snd p) \<noteq> 0" "\<forall>p \<in> set (items r). cmp (snd p) \<noteq> 0" "cmp u \<noteq> 0"
    using "2.prems"(3) by auto
  show ?case
  proof (cases "cmp u < 0")
    case True
    have "filter (\<lambda>p. 0 < cmp (snd p)) (items r) = []" "filter (\<lambda>p. cmp (snd p) < 0) (items r) = items r"
      using g(3) True by (fastforce simp: filter_empty_conv filter_id_conv)+
    then show ?thesis
      using "2.IH"(1)[of "(DirL, (x, c, u), r) # k" "cmp u"] sub(1) g(1) nz run True by (simp add: side_of_def)
  next
    case False
    have "filter (\<lambda>p. cmp (snd p) < 0) (items l) = []" "filter (\<lambda>p. 0 < cmp (snd p)) (items l) = items l"
      using g(4) False by (fastforce simp: filter_empty_conv filter_id_conv)+
    then show ?thesis
      using "2.IH"(2)[of "(DirR, (x, c, u), l) # k" "cmp u"] sub(2) g(2) nz run False by (simp add: side_of_def)
  qed
qed

subsection \<open>The new node\<close>

lemma link_child:
  assumes "rep h None (plug Tip k)" "apart (plug Tip k)" "x \<notin> nodes (plug Tip k)"
    "k = (d, (p, c, v), s) # k'" "(n < 0) = (d = DirL)"
  shows "\<exists>h'. upd p (\<lambda>N. if n < 0 then N\<lparr>Left := Some x\<rparr> else N\<lparr>Right := Some x\<rparr>)
      (h(x \<mapsto> \<lparr>UserStruct = u, Parent = Some p, Left = None, Right = None, Color = Red\<rparr>)) = Some h' \<and>
    St h h' (root_of (plug Tip k)) (plug (Br Tip (x, Red, u) Tip) k)"
proof -
  let ?h1 = "h(x \<mapsto> \<lparr>UserStruct = u, Parent = Some p, Left = None, Right = None, Color = Red\<rparr>)"
  let ?h2 = "?h1(p \<mapsto> node_at d v (above k') (Some x) (root_of s) c)"
  have ap: "p \<noteq> x" "x \<notin> nodes s" "x \<notin> place_nodes k'" "p \<notin> nodes s" "p \<notin> place_nodes k'"
    "nodes s \<inter> place_nodes k' = {}" "apart s" "place_apart k'"
    using assms(2,3) by (auto simp: assms(4) apart_plug nodes_plug)
  have hp: "h p = Some (node_at d v (above k') None (root_of s) c)" "rep h (Some p) s" "rep_place h (Some p) k'"
    using assms(1) by (simp_all add: assms(4) rep_plug)
  have "upd p (\<lambda>N. if n < 0 then N\<lparr>Left := Some x\<rparr> else N\<lparr>Right := Some x\<rparr>) ?h1 = Some ?h2"
    using hp(1) ap(1) assms(5) by (auto simp: node_at_def)
  moreover have "St h ?h2 (root_of (plug Tip k)) (plug (Br Tip (x, Red, u) Tip) k)"
    using ap hp root_of_plug_Cons[of Tip _ k' "Br Tip (x, Red, u) Tip"]
    unfolding St_def assms(4) rep_plug apart_plug nodes_plug by auto
  ultimately show ?thesis by blast
qed

lemma paint_root:
  assumes "St h0 h R T" "rb T" "T \<noteq> Tip"
  shows "\<exists>r h' T'. R = Some r \<and> paint Black r h = Some h' \<and> St h0 h' R T' \<and> red_black T' \<and> items T' = items T"
proof -
  obtain l x c u r where T: "T = br DirL l (x, c, u) r" using branch_cases[OF assms(3)] by blast
  then show ?thesis using St_paint[of h0 h R DirL l x c u r "[]" Black] assms St_root[OF assms(1)]
    by (fastforce simp: red_black_def)
qed

lemma collection_root:
  assumes "St h0 h R T" "red_black T" "ascending (UserStructCompare Tree) (items T)"
    "total_order (UserStructCompare Tree)" "length (items T) < 2 ^ 32 - 1"
  shows "collection (Tree\<lparr>Root := R\<rparr>) h (items T)" "validate_if pcd (Tree\<lparr>Root := R\<rparr>) h = Some ()"
proof -
  show "collection (Tree\<lparr>Root := R\<rparr>) h (items T)" using collectionI[OF assms(1,2), of "Tree\<lparr>Root := R\<rparr>"] assms(3) by simp
  then show "validate_if pcd (Tree\<lparr>Root := R\<rparr>) h = Some ()" using collection_validates assms(4,5) by fastforce
qed

lemma search_root:
  assumes "St h h R T" "ascending cmp its" "total_order cmp" "\<forall>p \<in> set its. cmp User (snd p) \<noteq> 0" "items T = its"
  shows "\<exists>k n. search_loop (cmp User) h R None 0 = Some (None, above k, n) \<and> side_of k n \<and> plug Tip k = T \<and>
    items_before k = filter (\<lambda>p. 0 < cmp User (snd p)) its \<and> items_after k = filter (\<lambda>p. cmp User (snd p) < 0) its"
  using search_missing[of h "[]" T "cmp User" 0] assms ascending_guides[OF assms(2,3), of User]
  by (simp add: St_def side_of_def)

lemma Insert_new:
  assumes c: "collection Tree h its" and o: "total_order (UserStructCompare Tree)"
    and len: "length its < 2 ^ 32 - 2" and x: "h x = None"
    and none: "\<forall>p \<in> set its. UserStructCompare Tree User (snd p) \<noteq> 0"
  defines "its' \<equiv> filter (\<lambda>p. 0 < UserStructCompare Tree User (snd p)) its @ (x, User) #
    filter (\<lambda>p. UserStructCompare Tree User (snd p) < 0) its"
  shows "\<exists>R h'. OrderedCollectionInsert pcd (Some x) Tree h User = Some (EFI_SUCCESS, Some x, Tree\<lparr>Root := R\<rparr>, h') \<and>
    collection (Tree\<lparr>Root := R\<rparr>) h' its' \<and> (\<forall>a. a \<notin> insert x (fst ` set its) \<longrightarrow> h' a = h a)"
proof -
  obtain T where T: "St h h (Root Tree) T" "red_black T" "items T = its" "ascending (UserStructCompare Tree) its"
    using c by (rule collectionE)
  have rT: "rep h None T" "apart T" "Root Tree = root_of T" using T(1) by (simp_all add: St_def)
  obtain k n where "search_loop (UserStructCompare Tree User) h (Root Tree) None 0 = Some (None, above k, n)"
    "side_of k n" "plug Tip k = T"
    "items_before k = filter (\<lambda>p. 0 < UserStructCompare Tree User (snd p)) its"
    "items_after k = filter (\<lambda>p. UserStructCompare Tree User (snd p) < 0) its"
    using search_root[OF T(1,4) o none T(3)] by blast
  then obtain k n where k: "search_loop (UserStructCompare Tree User) h (Root Tree) None 0 = Some (None, above k, n)"
    "side_of k n" "plug Tip k = T" "items_before k @ (x, User) # items_after k = its'"
    by (auto simp: its'_def)
  have fresh: "x \<notin> nodes T"
  proof
    assume "x \<in> nodes T"
    then obtain u where "(x, u) \<in> set (items T)" by (auto simp: nodes_items)
    from user_of[OF rT(1) this] show False using x by simp
  qed
  have its': "items (plug (Br Tip (x, c, User) Tip) k) = its'" for c using k(4) by (simp add: items_plug)
  have "length its' \<le> Suc (length its)"
    using T(3) k(3) its'[of Red] by (auto simp: items_plug)
  then have len': "length its' < 2 ^ 32 - 1" using len by simp
  have asc: "ascending (UserStructCompare Tree) its'" unfolding its'_def by (rule ascending_insert[OF T(4) o])
  have nodes': "fst ` set its' = insert x (fst ` set its)"
    using its'[of Red] T(3) k(3) by (metis insert_is_Un items.simps nodes.simps nodes_items nodes_plug sup_bot_left)
  show ?thesis
  proof (cases k rule: above.cases)
    case 1
    let ?h = "h(x \<mapsto> \<lparr>UserStruct = User, Parent = None, Left = None, Right = None, Color = Black\<rparr>)"
    have st: "St h ?h (Some x) (Br Tip (x, Black, User) Tip)" by (simp add: St_def)
    have it: "items (Br Tip (x, Black, User) Tip) = its'" using its'[of Black] 1 by simp
    have "OrderedCollectionInsert pcd (Some x) Tree h User = Some (EFI_SUCCESS, Some x, Tree\<lparr>Root := Some x\<rparr>, ?h)"
      using k(1) 1 collection_root(2)[OF st _ _ o] asc len' it
      by (simp add: OrderedCollectionInsert_def red_black_def)
    then show ?thesis using collection_root(1)[OF st _ _ o] asc len' it 1 by (auto simp: red_black_def)
  next
    case (2 d p cp v s k')
    have "(n < 0) = (d = DirL)" using k(2) 2 by (simp add: side_of_def)
    then obtain h1 where h1: "upd p (\<lambda>N. if n < 0 then N\<lparr>Left := Some x\<rparr> else N\<lparr>Right := Some x\<rparr>)
        (h(x \<mapsto> \<lparr>UserStruct = User, Parent = Some p, Left = None, Right = None, Color = Red\<rparr>)) = Some h1"
      "St h h1 (Root Tree) (plug (Br Tip (x, Red, User) Tip) k)"
      using link_child[of h k x d p cp v s k' n User] rT fresh k(3) 2 by auto
    have "rb_place k 0" using T(2) red_black_plug[of Tip k] k(3) by simp
    then obtain h2 R T2 where h2: "insert_loop h1 (Root Tree) x (above k) = Some (h2, R)" "St h h2 R T2" "rb T2"
      "items T2 = its'"
      using insert_loop_rb[OF h1(2), of x] its' by auto
    have "T2 \<noteq> Tip" using h2(4) by (auto simp: its'_def)
    then obtain r h3 T3 where h3: "R = Some r" "paint Black r h2 = Some h3" "St h h3 R T3" "red_black T3" "items T3 = its'"
      using paint_root[OF h2(2,3)] h2(4) by auto
    have fin: "collection (Tree\<lparr>Root := R\<rparr>) h3 its'" "validate_if pcd (Tree\<lparr>Root := R\<rparr>) h3 = Some ()"
      using collection_root[OF h3(3,4) _ o] asc len' h3(5) by auto
    have "OrderedCollectionInsert pcd (Some x) Tree h User = Some (EFI_SUCCESS, Some x, Tree\<lparr>Root := R\<rparr>, h3)"
      using k(1) 2 h1(1) h2(1) h3 fin(2) by (simp add: OrderedCollectionInsert_def Let_def)
    moreover have "\<forall>a. a \<notin> insert x (fst ` set its) \<longrightarrow> h3 a = h a"
      using h3(3,5) nodes' by (auto simp: St_def nodes_items)
    ultimately show ?thesis using fin(1) by blast
  qed
qed

lemma Insert_old:
  assumes c: "collection Tree h its" and o: "total_order (UserStructCompare Tree)" and len: "length its < 2 ^ 32 - 1"
    and m: "matching (UserStructCompare Tree User) its = Some b"
  shows "OrderedCollectionInsert pcd a Tree h User = Some (EFI_ALREADY_STARTED, Some b, Tree, h)"
proof -
  obtain T where T: "St h h (Root Tree) T" "red_black T" "items T = its" "ascending (UserStructCompare Tree) its"
    using c by (rule collectionE)
  then obtain par res where "search_loop (UserStructCompare Tree User) h (Root Tree) None 0 = Some (Some b, par, res)"
    using search_found[of h None T "UserStructCompare Tree User" b None 0] ascending_guides[OF T(4) o] m by (auto simp: St_def)
  then show ?thesis using collection_validates[OF c o len] by (simp add: OrderedCollectionInsert_def)
qed

lemma Insert_no_memory:
  assumes c: "collection Tree h its" and o: "total_order (UserStructCompare Tree)" and len: "length its < 2 ^ 32 - 1"
    and none: "\<forall>p \<in> set its. UserStructCompare Tree User (snd p) \<noteq> 0"
  shows "OrderedCollectionInsert pcd None Tree h User = Some (EFI_OUT_OF_RESOURCES, None, Tree, h)"
proof -
  obtain T where T: "St h h (Root Tree) T" "red_black T" "items T = its" "ascending (UserStructCompare Tree) its"
    using c by (rule collectionE)
  obtain k n where "search_loop (UserStructCompare Tree User) h (Root Tree) None 0 = Some (None, above k, n)" "plug Tip k = T"
    using search_root[OF T(1,4) o none T(3)] by blast
  then show ?thesis using collection_validates[OF c o len]
    by (simp add: OrderedCollectionInsert_def)
qed

end
