(* ===== verification/Rb_Delete.thy ===== *)
theory Rb_Delete
  imports Rb_Insert Rb_Valid
begin

text \<open>
  Deletion: the loop that moves the black-increment of an unlinked node up.
\<close>

text \<open>The body of the loop after the branch for a red sibling.\<close>

definition delete_rest ::
  "dir \<Rightarrow> 'u rb_heap \<Rightarrow> nat option \<Rightarrow> nat \<Rightarrow> nat \<Rightarrow> ('u rb_heap \<times> nat option \<times> nat option \<times> nat option) option" where
  "delete_rest d h NewRoot p Sibling = do {
     S \<leftarrow> h Sibling;
     ASSERT (Color S = RedBlackTreeBlack);
     near \<leftarrow> NodeIsNullOrBlack h (child d S);
     far \<leftarrow> NodeIsNullOrBlack h (child (other d) S);
     if near \<and> far then do {
       h \<leftarrow> paint RedBlackTreeRed Sibling h;
       P \<leftarrow> h p;
       Some (h, NewRoot, Some p, Parent P)
     }
     else do {
       (h, NewRoot, Sibling, Far) \<leftarrow>
         (if far then do {
            n \<leftarrow> child d S;
            h \<leftarrow> paint RedBlackTreeBlack n h;
            h \<leftarrow> paint RedBlackTreeRed Sibling h;
            (h, NewRoot) \<leftarrow> rotate (other d) Sibling (h, NewRoot);
            P \<leftarrow> h p;
            Sibling \<leftarrow> child (other d) P;
            S \<leftarrow> h Sibling;
            Some (h, NewRoot, Sibling, child (other d) S)
          }
          else Some (h, NewRoot, Sibling, child (other d) S));
       f \<leftarrow> Far;
       F \<leftarrow> h f;
       ASSERT (Color F = RedBlackTreeRed);
       S \<leftarrow> h Sibling;
       ASSERT (Color S = RedBlackTreeBlack);
       P \<leftarrow> h p;
       h \<leftarrow> paint (Color P) Sibling h;
       h \<leftarrow> paint RedBlackTreeBlack p h;
       h \<leftarrow> paint RedBlackTreeBlack f h;
       (h, NewRoot) \<leftarrow> rotate d p (h, NewRoot);
       Some (h, NewRoot, NewRoot, Some p)
     }
   }"

lemma delete_body_form:
  "delete_body h NewRoot Child p = do {
     P \<leftarrow> h p;
     let d = (if Left P = Child then DirL else DirR);
     Sibling \<leftarrow> child (other d) P;
     S \<leftarrow> h Sibling;
     (h, NewRoot, Sibling) \<leftarrow>
       (if Color S = RedBlackTreeRed then do {
          h \<leftarrow> paint RedBlackTreeBlack Sibling h;
          h \<leftarrow> paint RedBlackTreeRed p h;
          (h, NewRoot) \<leftarrow> rotate d p (h, NewRoot);
          P \<leftarrow> h p;
          Sibling \<leftarrow> child (other d) P;
          Some (h, NewRoot, Sibling)
        }
        else Some (h, NewRoot, Sibling));
     delete_rest d h NewRoot p Sibling
   }"
  by (simp only: delete_body_def delete_rest_def Let_def)

lemma delete_body_start:
  assumes "h p = Some P" "(if Left P = Child then DirL else DirR) = d" "child (other d) P = Some y" "h y = Some S"
  shows "delete_body h R Child p =
    (if Color S = RedBlackTreeRed then do {
       h \<leftarrow> paint RedBlackTreeBlack y h;
       h \<leftarrow> paint RedBlackTreeRed p h;
       (h, NewRoot) \<leftarrow> rotate d p (h, R);
       P \<leftarrow> h p;
       Sibling \<leftarrow> child (other d) P;
       delete_rest d h NewRoot p Sibling
     }
     else delete_rest d h R p y)"
  unfolding delete_body_form assms(1) Let_def Option.bind_lunit assms(2) assms(3) assms(4)
  by (simp add: split_def)

lemma blacken_br [simp]: "blacken (br d l (x, c, u) r) = br d l (x, Black, u) r"
  by (cases d) auto

lemma blacken_black: "black t \<Longrightarrow> blacken t = t"
  by (cases t rule: black.cases) auto

lemma items_blacken [simp]: "items (blacken t) = items t"
  by (cases t rule: black.cases) auto

text \<open>Reading a child of the sibling.\<close>

lemma St_black:
  assumes "St h0 h R (plug t k)"
  shows "NodeIsNullOrBlack h (root_of t) = Some (black t)"
  using assms NodeIsNullOrBlack_rep by (auto simp: St_def rep_plug)

lemma St_sibling:
  assumes "St h0 h R (plug t ((d, (p, c, u), br d e (y, cy, yu) f) # k))"
  shows "h p = Some (node_at d u (above k) (root_of t) (Some y) c)"
    "h y = Some (node_at d yu (Some p) (root_of e) (root_of f) cy)"
    "NodeIsNullOrBlack h (root_of e) = Some (black e)"
    "NodeIsNullOrBlack h (root_of f) = Some (black f)"
proof -
  let ?k = "(other d, (p, c, u), t) # k"
  have st: "St h0 h R (plug (br d e (y, cy, yu) f) ?k)" using assms by simp
  show "h p = Some (node_at d u (above k) (root_of t) (Some y) c)"
    using St_node[of h0 h R d t p c u _ k] assms by simp
  show "h y = Some (node_at d yu (Some p) (root_of e) (root_of f) cy)"
    using St_node[OF st] by simp
  show "NodeIsNullOrBlack h (root_of e) = Some (black e)"
    using St_black[of h0 h R e "(d, (y, cy, yu), f) # ?k"] st by simp
  show "NodeIsNullOrBlack h (root_of f) = Some (black f)"
    using St_black[of h0 h R f "(other d, (y, cy, yu), e) # ?k"] st by simp
qed

lemma delete_recolour:
  assumes st: "St h0 h R (plug t ((d, (p, pc, pu), br d e (y, Black, yu) f) # k))"
    and b: "black e" "black f"
  shows "\<exists>h'. delete_rest d h R p y = Some (h', R, Some p, above k) \<and>
    St h0 h' R (plug (br d t (p, pc, pu) (br d e (y, Red, yu) f)) k)"
proof -
  note s = St_sibling[OF st]
  obtain h1 where h1: "paint Red y h = Some h1"
    "St h0 h1 R (plug t ((d, (p, pc, pu), br d e (y, Red, yu) f) # k))"
    using St_paint[of h0 h R d e y Black yu f "(other d, (p, pc, pu), t) # k" Red] st by auto
  show ?thesis using s b h1 St_sibling(1)[OF h1(2)] by (simp add: delete_rest_def)
qed

lemma delete_finish:
  assumes st: "St h0 h R (plug t ((d, (p, pc, pu), br d e (y, cy, yu) (br d f1 (w, cw, wu) f2)) # k))"
  shows "\<exists>h1 h2 h3 h' R'. paint pc y h = Some h1 \<and> paint Black p h1 = Some h2 \<and> paint Black w h2 = Some h3 \<and>
    rotate d p (h3, R) = Some (h', R') \<and>
    St h0 h' R' (plug (br d (br d t (p, Black, pu) e) (y, pc, yu) (br d f1 (w, Black, wu) f2)) k)"
proof -
  obtain h1 where h1: "paint pc y h = Some h1"
    "St h0 h1 R (plug t ((d, (p, pc, pu), br d e (y, pc, yu) (br d f1 (w, cw, wu) f2)) # k))"
    using St_paint[of h0 h R d e y cy yu "br d f1 (w, cw, wu) f2" "(other d, (p, pc, pu), t) # k" pc] st by auto
  obtain h2 where h2: "paint Black p h1 = Some h2"
    "St h0 h2 R (plug t ((d, (p, Black, pu), br d e (y, pc, yu) (br d f1 (w, cw, wu) f2)) # k))"
    using St_paint[of h0 h1 R d t p pc pu _ k Black] h1(2) by auto
  obtain h3 where h3: "paint Black w h2 = Some h3"
    "St h0 h3 R (plug t ((d, (p, Black, pu), br d e (y, pc, yu) (br d f1 (w, Black, wu) f2)) # k))"
    using St_paint[of h0 h2 R d f1 w cw wu f2 "(other d, (y, pc, yu), e) # (other d, (p, Black, pu), t) # k" Black] h2(2)
    by auto
  obtain h' R' where "rotate d p (h3, R) = Some (h', R')"
    "St h0 h' R' (plug (br d (br d t (p, Black, pu) e) (y, pc, yu) (br d f1 (w, Black, wu) f2)) k)"
    using St_rotate[of h0 h3 R d t p Black pu e y pc yu "br d f1 (w, Black, wu) f2" k] h3(2) by auto
  then show ?thesis using h1(1) h2(1) h3(1) by blast
qed

lemma delete_far:
  assumes st: "St h0 h R (plug t ((d, (p, pc, pu), br d e (y, Black, yu) (br d f1 (w, Red, wu) f2)) # k))"
  shows "\<exists>h' R'. delete_rest d h R p y = Some (h', R', R', Some p) \<and>
    St h0 h' R' (plug (br d (br d t (p, Black, pu) e) (y, pc, yu) (br d f1 (w, Black, wu) f2)) k)"
proof -
  note s = St_sibling[OF st]
  have w: "h w = Some (node_at d wu (Some y) (root_of f1) (root_of f2) Red)"
    using St_node[of h0 h R d f1 w Red wu f2 "(other d, (y, Black, yu), e) # (other d, (p, pc, pu), t) # k"] st
    by simp
  obtain h1 h2 h3 h' R' where fin: "paint pc y h = Some h1" "paint Black p h1 = Some h2" "paint Black w h2 = Some h3"
    "rotate d p (h3, R) = Some (h', R')"
    "St h0 h' R' (plug (br d (br d t (p, Black, pu) e) (y, pc, yu) (br d f1 (w, Black, wu) f2)) k)"
    using delete_finish[OF st] by blast
  show ?thesis using s w fin by (simp add: delete_rest_def)
qed

lemma delete_near:
  assumes st: "St h0 h R (plug t ((d, (p, pc, pu), br d (br d e1 (z, Red, zu) e2) (y, Black, yu) f) # k))"
    and f: "black f"
  shows "\<exists>h' R'. delete_rest d h R p y = Some (h', R', R', Some p) \<and>
    St h0 h' R' (plug (br d (br d t (p, Black, pu) e1) (z, pc, zu) (br d e2 (y, Black, yu) f)) k)"
proof -
  let ?k = "(other d, (p, pc, pu), t) # k"
  note s = St_sibling[OF st]
  obtain h1 where h1: "paint Black z h = Some h1"
    "St h0 h1 R (plug (br d (br d e1 (z, Black, zu) e2) (y, Black, yu) f) ?k)"
    using St_paint[of h0 h R d e1 z Red zu e2 "(d, (y, Black, yu), f) # ?k" Black] st by auto
  obtain h2 where h2: "paint Red y h1 = Some h2"
    "St h0 h2 R (plug (br d (br d e1 (z, Black, zu) e2) (y, Red, yu) f) ?k)"
    using St_paint[OF h1(2), of Red] by auto
  obtain h3 R3 where h3: "rotate (other d) y (h2, R) = Some (h3, R3)"
    "St h0 h3 R3 (plug t ((d, (p, pc, pu), br d e1 (z, Black, zu) (br d e2 (y, Red, yu) f)) # k))"
    using St_rotate[of h0 h2 R "other d" f y Red yu e2 z Black zu e1 ?k] h2(2) by auto
  note s3 = St_sibling[OF h3(2)]
  have y3: "h3 y = Some (node_at d yu (Some z) (root_of e2) (root_of f) Red)"
    using St_node[of h0 h3 R3 d e2 y Red yu f "(other d, (z, Black, zu), e1) # ?k"] h3(2) by simp
  obtain h4 h5 h6 h' R' where fin: "paint pc z h3 = Some h4" "paint Black p h4 = Some h5" "paint Black y h5 = Some h6"
    "rotate d p (h6, R3) = Some (h', R')"
    "St h0 h' R' (plug (br d (br d t (p, Black, pu) e1) (z, pc, zu) (br d e2 (y, Black, yu) f)) k)"
    using delete_finish[OF h3(2)] by blast
  show ?thesis using s f h1(1) h2(1) h3(1) s3 y3 fin by (simp add: delete_rest_def)
qed

text \<open>A child one black node short, with a black sibling.\<close>

lemma delete_rest_rb:
  assumes st: "St h0 h R (plug t ((d, (p, pc, pu), s) # k))" and y: "root_of s = Some y"
    and t: "rb t" "black t" and s: "black s" and k: "rb_place ((d, (p, pc, pu), s) # k) (Suc (bh t))"
  shows "\<exists>h' R' t' par. delete_rest d h R p y = Some (h', R', root_of t', par) \<and>
    (St h0 h' R' (plug t' k) \<and> par = above k \<and> rb (blacken t') \<and> rb_place k (Suc (bh t')) \<and> (pc = Red \<longrightarrow> \<not> black t') \<and>
       items t' = items (br d t (p, pc, pu) s) \<or>
     St h0 h' R' t' \<and> red_black t' \<and> items t' = items (plug t ((d, (p, pc, pu), s) # k)))"
proof -
  have "s \<noteq> Tip" using y by auto
  then obtain e c yu f where s': "s = br d e (y, Black, yu) f" using branch_cases[of s d] y s by fastforce
  have wf: "rb e" "rb f" "bh e = bh t" "bh f = bh t" "pc = Red \<longrightarrow> black_above k"
    "rb_place k (if pc = Black then Suc (Suc (bh t)) else Suc (bh t))"
    using k s' by (auto simp: bh_br)
  show ?thesis
  proof (cases "black e \<and> black f")
    case True
    let ?t = "br d t (p, pc, pu) (br d e (y, Red, yu) f)"
    obtain h' where "delete_rest d h R p y = Some (h', R, root_of ?t, above k)" "St h0 h' R (plug ?t k)"
      using delete_recolour[of h0 h R t d p pc pu e y yu f k] st s' True by auto
    moreover have "rb (blacken ?t)" "rb_place k (Suc (bh ?t))" "pc = Red \<longrightarrow> \<not> black ?t"
      using wf t True by (auto simp: bh_br)
    moreover have "items ?t = items (br d t (p, pc, pu) s)" by (simp add: s' items_br)
    ultimately show ?thesis by blast
  next
    case red: False
    have "\<exists>h' R' t'. delete_rest d h R p y = Some (h', R', R', Some p) \<and> St h0 h' R' (plug t' k) \<and>
      red_black (plug t' k) \<and> items t' = items (br d t (p, pc, pu) s)"
    proof (cases "black f")
      case False
      obtain f1 w wu f2 where f: "f = br d f1 (w, Red, wu) f2" using red_branch[OF False] by blast
      let ?t = "br d (br d t (p, Black, pu) e) (y, pc, yu) (br d f1 (w, Black, wu) f2)"
      obtain h' R' where "delete_rest d h R p y = Some (h', R', R', Some p)" "St h0 h' R' (plug ?t k)"
        using delete_far[of h0 h R t d p pc pu e y yu f1 w wu f2 k] st s' f by auto
      moreover have "red_black (plug ?t k)"
        using wf t f by (auto simp: red_black_plug bh_br split: if_splits)
      moreover have "items ?t = items (br d t (p, pc, pu) s)" by (simp add: s' f items_br)
      ultimately show ?thesis by blast
    next
      case True
      then obtain e1 z zu e2 where e: "e = br d e1 (z, Red, zu) e2" using red red_branch by blast
      let ?t = "br d (br d t (p, Black, pu) e1) (z, pc, zu) (br d e2 (y, Black, yu) f)"
      obtain h' R' where "delete_rest d h R p y = Some (h', R', R', Some p)" "St h0 h' R' (plug ?t k)"
        using delete_near[of h0 h R t d p pc pu e1 z zu e2 y yu f k] st s' e True by auto
      moreover have "red_black (plug ?t k)"
        using wf t e True by (auto simp: red_black_plug bh_br split: if_splits)
      moreover have "items ?t = items (br d t (p, pc, pu) s)" by (simp add: s' e items_br)
      ultimately show ?thesis by blast
    qed
    then obtain h' R' t' where t': "delete_rest d h R p y = Some (h', R', R', Some p)" "St h0 h' R' (plug t' k)"
      "red_black (plug t' k)" "items t' = items (br d t (p, pc, pu) s)" by blast
    have "items (plug t' k) = items (plug t ((d, (p, pc, pu), s) # k))" using t'(4) by (simp add: items_plug)
    then show ?thesis using t' St_root[OF t'(2)] by blast
  qed
qed

lemma branch_dir_sibling:
  assumes "s \<noteq> Tip" "nodes t \<inter> nodes s = {}"
  shows "(if Left (node_at d u q (root_of t) (root_of s) c) = root_of t then DirL else DirR) = d"
proof -
  have "root_of s \<noteq> root_of t"
  proof
    assume eq: "root_of s = root_of t"
    obtain x where "root_of s = Some x" using assms(1) by (metis not_None_eq root_of_None)
    then show False using eq assms(2) root_of_in_nodes[of s x] root_of_in_nodes[of t x] by auto
  qed
  then show ?thesis by (cases d) (auto simp: node_at_def)
qed

lemma delete_body_rb:
  assumes st: "St h0 h R (plug t ((d, (p, pc, pu), s) # k))"
    and t: "rb t" "black t" and k: "rb_place ((d, (p, pc, pu), s) # k) (Suc (bh t))"
  shows "\<exists>h' R' t' k' par. delete_body h R (root_of t) p = Some (h', R', root_of t', par) \<and>
    (St h0 h' R' (plug t' k') \<and> par = above k' \<and> rb (blacken t') \<and> rb_place k' (Suc (bh t')) \<and>
       (k' = k \<or> \<not> black t') \<and> items (plug t' k') = items (plug t ((d, (p, pc, pu), s) # k)) \<or>
     St h0 h' R' t' \<and> red_black t' \<and> items t' = items (plug t ((d, (p, pc, pu), s) # k)))"
proof -
  have "s \<noteq> Tip" using k by auto
  then obtain e y cy yu f where s: "s = br d e (y, cy, yu) f" using branch_cases by blast
  have "nodes t \<inter> nodes s = {}" using st by (simp add: St_def apart_plug)
  note d = branch_dir_sibling[OF \<open>s \<noteq> Tip\<close> this]
  have hs: "h p = Some (node_at d pu (above k) (root_of t) (root_of s) pc)"
    "h y = Some (node_at d yu (Some p) (root_of e) (root_of f) cy)"
    using St_sibling(1,2)[of h0 h R t d p pc pu e y cy yu f k] st s by auto
  show ?thesis
  proof (cases cy)
    case RedBlackTreeBlack
    then have "delete_body h R (root_of t) p = delete_rest d h R p y"
      using delete_body_start[OF hs(1) d _ hs(2)] s by simp
    then show ?thesis
      using delete_rest_rb[OF st _ t _ k, of y] s RedBlackTreeBlack by (fastforce simp: items_plug)
  next
    case RedBlackTreeRed
    have wf: "pc = Black" "black e" "rb e" "bh e = Suc (bh t)" "rb f" "bh f = Suc (bh t)" "black f"
      "rb_place k (Suc (Suc (bh t)))"
      using k s RedBlackTreeRed by (auto simp: bh_br split: if_splits)
    obtain h1 where h1: "paint Black y h = Some h1"
      "St h0 h1 R (plug (br d e (y, Black, yu) f) ((other d, (p, pc, pu), t) # k))"
      using St_paint[of h0 h R d e y cy yu f "(other d, (p, pc, pu), t) # k" Black] st s by auto
    obtain h2 where h2: "paint Red p h1 = Some h2"
      "St h0 h2 R (plug (br d t (p, Red, pu) (br d e (y, Black, yu) f)) k)"
      using St_paint[of h0 h1 R d t p pc pu "br d e (y, Black, yu) f" k Red] h1(2) by auto
    let ?k = "(d, (y, Black, yu), f) # k"
    obtain h3 R3 where h3: "rotate d p (h2, R) = Some (h3, R3)"
      "St h0 h3 R3 (plug t ((d, (p, Red, pu), e) # ?k))"
      using St_rotate[OF h2(2)] by auto
    have hp: "h3 p = Some (node_at d pu (Some y) (root_of t) (root_of e) Red)"
      using St_node[of h0 h3 R3 d t p Red pu e ?k] h3(2) by simp
    have "e \<noteq> Tip" using wf(4) by auto
    then obtain z where z: "root_of e = Some z" by (metis not_None_eq root_of_None)
    have body: "delete_body h R (root_of t) p = delete_rest d h3 R3 p z"
      using delete_body_start[OF hs(1) d _ hs(2)] s RedBlackTreeRed h1(1) h2(1) h3(1) hp z by simp
    have k2: "rb_place ((d, (p, Red, pu), e) # ?k) (Suc (bh t))" using wf by simp
    have it: "items (plug t ((d, (p, Red, pu), e) # ?k)) = items (plug t ((d, (p, pc, pu), s) # k))"
      by (simp add: items_plug items_br s)
    obtain h' R' t' par where "delete_rest d h3 R3 p z = Some (h', R', root_of t', par)"
      "St h0 h' R' (plug t' ?k) \<and> par = above ?k \<and> rb (blacken t') \<and> rb_place ?k (Suc (bh t')) \<and> \<not> black t' \<and>
         items t' = items (br d t (p, Red, pu) e) \<or>
       St h0 h' R' t' \<and> red_black t' \<and> items t' = items (plug t ((d, (p, Red, pu), e) # ?k))"
      using delete_rest_rb[OF h3(2) z t wf(2) k2] by blast
    moreover have "items t' = items (br d t (p, Red, pu) e) \<Longrightarrow>
        items (plug t' ?k) = items (plug t ((d, (p, pc, pu), s) # k))" for t'
      using it by (cases d) (simp_all add: items_plug)
    ultimately show ?thesis using it body by metis
  qed
qed

lemma delete_loop_end:
  assumes "St h0 h R (plug t k)" "k = [] \<or> \<not> black t"
  shows "delete_loop h R (root_of t) (above k) = Some (h, R, root_of t)"
  using assms St_at_root[OF assms(1)] St_black[OF assms(1)] by (auto simp: delete_loop.simps[of h R])

lemma red_black_blacken:
  assumes "rb (blacken t)" "rb_place k (Suc (bh t))" "k = [] \<or> \<not> black t"
  shows "red_black (plug (blacken t) k)"
proof (cases "black t")
  case True
  then show ?thesis using assms blacken_black[OF True] by (simp add: red_black_def)
next
  case False
  then obtain l x u r where "t = br DirL l (x, Red, u) r" using red_branch by blast
  then show ?thesis using assms(1,2) by (simp only: red_black_plug) (auto simp: bh_br)
qed

lemma delete_loop_rb:
  assumes "St h0 h R (plug t k)" "rb (blacken t)" "rb_place k (Suc (bh t))"
  shows "\<exists>h' R' t' k'. delete_loop h R (root_of t) (above k) = Some (h', R', root_of t') \<and>
    St h0 h' R' (plug t' k') \<and> red_black (plug (blacken t') k') \<and> items (plug t' k') = items (plug t k)"
  using assms
proof (induction "length k" arbitrary: h R t k rule: less_induct)
  case less
  have stop: ?case if "k = [] \<or> \<not> black t"
  proof -
    have "red_black (plug (blacken t) k)" using that less.prems red_black_blacken by blast
    then show ?thesis using delete_loop_end[OF less.prems(1) that] less.prems(1) by blast
  qed
  show ?case
  proof (cases "k = [] \<or> \<not> black t")
    case True
    then show ?thesis by (rule stop)
  next
    case False
    then obtain d p pc pu s k1 where k: "k = (d, (p, pc, pu), s) # k1" by (cases k rule: above.cases) auto
    have t: "rb t" "black t" using False less.prems(2) blacken_black[of t] by auto
    obtain h1 R1 t1 k2 par where body: "delete_body h R (root_of t) p = Some (h1, R1, root_of t1, par)"
      and cont: "St h0 h1 R1 (plug t1 k2) \<and> par = above k2 \<and> rb (blacken t1) \<and> rb_place k2 (Suc (bh t1)) \<and>
         (k2 = k1 \<or> \<not> black t1) \<and> items (plug t1 k2) = items (plug t k) \<or>
       St h0 h1 R1 t1 \<and> red_black t1 \<and> items t1 = items (plug t k)"
      using delete_body_rb[of h0 h R t d p pc pu s k1] less.prems k t by blast
    have run: "delete_loop h R (root_of t) (above k) = delete_loop h1 R1 (root_of t1) par"
      using St_at_root[OF less.prems(1)] St_black[OF less.prems(1)] False k body
      by (simp add: delete_loop.simps[of h R])
    from cont show ?thesis
    proof
      assume c: "St h0 h1 R1 (plug t1 k2) \<and> par = above k2 \<and> rb (blacken t1) \<and> rb_place k2 (Suc (bh t1)) \<and>
         (k2 = k1 \<or> \<not> black t1) \<and> items (plug t1 k2) = items (plug t k)"
      show ?thesis
      proof (cases "black t1")
        case True
        then show ?thesis using less.hyps[of k1 h1 R1 t1] c k run by auto
      next
        case False
        have "red_black (plug (blacken t1) k2)" using c False red_black_blacken by blast
        then show ?thesis using delete_loop_end[of h0 h1 R1 t1 k2] c False run by auto
      qed
    next
      assume c: "St h0 h1 R1 t1 \<and> red_black t1 \<and> items t1 = items (plug t k)"
      then have "blacken t1 = t1" "R1 = root_of t1" using blacken_black by (auto simp: red_black_def St_def)
      then have "delete_loop h1 R1 (root_of t1) par = Some (h1, R1, root_of t1)" "red_black (plug (blacken t1) [])"
        using c by (simp_all add: delete_loop.simps[of h1 "root_of t1"])
      then show ?thesis using c run by (metis plug.simps(1))
    qed
  qed
qed

end
