(* ===== verification/Rb_Unlink.thy ===== *)
theory Rb_Unlink
  imports Rb_Delete
begin

text \<open>
  Deletion: unlinking a node with at most one child, and putting the successor of a node with two
  children into its place.
\<close>

lemma rep_place_same: "rep_place h t k \<Longrightarrow> \<forall>a. a \<in> place_nodes k \<longrightarrow> h' a = h a \<Longrightarrow> rep_place h' t k"
  using rep_place_frame[of k h' h t] by blast

lemma rep_same: "rep h p t \<Longrightarrow> \<forall>a. a \<in> nodes t \<longrightarrow> h' a = h a \<Longrightarrow> rep h' p t"
  using rep_frame[of t h' h p] by blast

text \<open>The parent of a node gets another subtree, whose parent pointer has been set.\<close>

lemma relink:
  assumes "rep h (above k) t" "rep_place h (Some x) k" "apart (plug t k)" "x \<notin> place_nodes k"
    "root_of s = Some x" "R = root_of (plug s k)"
  shows "\<exists>h'. replace_child (above k) x (root_of t) (h, R) = Some (h', root_of (plug t k)) \<and>
    rep h' None (plug t k) \<and> (\<forall>a. a \<notin> place_nodes k \<longrightarrow> h' a = h a)"
proof -
  have ap: "place_apart k" "nodes t \<inter> place_nodes k = {}" using assms(3) by (simp_all add: apart_plug)
  have root: "root_of (plug t k) = R" if "k \<noteq> []" using that assms(6) by (cases k) (simp, metis root_of_plug_Cons)
  obtain h' where h': "replace_child (above k) x (root_of t) (h, R) = Some (h', root_of (plug t k))"
    "rep_place h' (root_of t) k" "\<forall>a. a \<notin> place_nodes k \<longrightarrow> h' a = h a"
    using replace_child_rep[OF assms(2) ap(1) assms(4), of "root_of (plug t k)" t R] root by auto
  have "rep h' (above k) t" using rep_same[OF assms(1)] h'(3) ap(2) by blast
  then show ?thesis using h' by (auto simp: rep_plug)
qed

lemma unlink_single_rep:
  assumes r: "rep h None (plug (Br l (x, c, u) r) k)" and ap: "apart (plug (Br l (x, c, u) r) k)"
    and R: "R = root_of (plug (Br l (x, c, u) r) k)" and tip: "l = Tip \<or> r = Tip"
    and N: "h x = Some N"
  defines "t \<equiv> (if l = Tip then r else l)"
  shows "\<exists>h'. unlink_single h R x N = Some (h', root_of (plug t k), root_of t, above k, c) \<and>
    rep h' None (plug t k) \<and> apart (plug t k) \<and> (\<forall>a. a \<notin> nodes (plug t k) \<longrightarrow> h' a = h a)"
proof -
  have N': "N = \<lparr>UserStruct = u, Parent = above k, Left = root_of l, Right = root_of r, Color = c\<rparr>"
    using r N by (simp add: rep_plug)
  have rt: "rep h (Some x) t" "rep_place h (Some x) k" using r by (auto simp: rep_plug t_def)
  have ap': "apart t" "place_apart k" "nodes t \<inter> place_nodes k = {}" "x \<notin> place_nodes k"
    using ap by (auto simp: apart_plug t_def)
  obtain h1 where h1: "reparent (above k) (root_of t) h = Some h1" "rep h1 (above k) t"
    "\<forall>a. a \<notin> nodes t \<longrightarrow> h1 a = h a"
    using reparent_rep[OF rt(1) ap'(1), of "above k"] by blast
  have "rep_place h1 (Some x) k" using rep_place_same[OF rt(2)] h1(3) ap'(3) by blast
  then obtain h' where h': "replace_child (above k) x (root_of t) (h1, R) = Some (h', root_of (plug t k))"
    "rep h' None (plug t k)" "\<forall>a. a \<notin> place_nodes k \<longrightarrow> h' a = h1 a"
    using relink[of h1 k t x "Br l (x, c, u) r" R] h1(2) ap' R by (auto simp: apart_plug)
  have child: "(if Left N \<noteq> None then Left N else Right N) = root_of t" using N' tip by (auto simp: t_def)
  have sel: "Parent N = above k" "Color N = c" using N' by simp_all
  have "unlink_single h R x N = Some (h', root_of (plug t k), root_of t, above k, c)"
    using h1(1) h'(1) unfolding unlink_single_def child sel by (simp add: reparent_def Let_def del: root_of_None)
  then show ?thesis using h' h1(3) ap' by (auto simp: apart_plug nodes_plug)
qed

text \<open>The successor m is ready to take the place of x.\<close>

lemma replace_node:
  assumes x: "rep h (Some x) l" "rep_place h (Some x) k" "l \<noteq> Tip"
    and m: "h m = Some M" "Right M = root_of r" "rep h (Some m) r"
    and ap: "apart (plug (Br l (m, c, UserStruct M) r) k)" and xk: "x \<notin> place_nodes k"
    and R: "R = root_of (plug (Br l (x, cx, u) r') k)"
  shows "\<exists>h1 h2 h3 h4 h'. upd m (\<lambda>T. T\<lparr>Left := root_of l\<rparr>) h = Some h1 \<and>
    reparent (Some m) (root_of l) h1 = Some h2 \<and> h2 m = Some (M\<lparr>Left := root_of l\<rparr>) \<and> paint c m h2 = Some h3 \<and>
    upd m (\<lambda>T. T\<lparr>Parent := above k\<rparr>) h3 = Some h4 \<and>
    replace_child (above k) x (Some m) (h4, R) = Some (h', root_of (plug (Br l (m, c, UserStruct M) r) k)) \<and>
    rep h' None (plug (Br l (m, c, UserStruct M) r) k) \<and>
    (\<forall>a. a \<notin> insert m (nodes l \<union> place_nodes k) \<longrightarrow> h' a = h a)"
proof -
  let ?t = "Br l (m, c, UserStruct M) r"
  have ap': "apart l" "m \<notin> nodes l" "m \<notin> nodes r" "nodes l \<inter> nodes r = {}" "m \<notin> place_nodes k"
    "nodes l \<inter> place_nodes k = {}" "nodes r \<inter> place_nodes k = {}"
    using ap unfolding apart_plug by auto
  let ?h1 = "h(m \<mapsto> M\<lparr>Left := root_of l\<rparr>)"
  have "rep ?h1 (Some x) l" using x(1) ap'(2) by simp
  then obtain h2 where h2: "reparent (Some m) (root_of l) ?h1 = Some h2" "rep h2 (Some m) l"
    "\<forall>a. a \<notin> nodes l \<longrightarrow> h2 a = ?h1 a"
    using reparent_rep[OF _ ap'(1), of ?h1 "Some x" "Some m"] by blast
  have h2m: "h2 m = Some (M\<lparr>Left := root_of l\<rparr>)" using h2(3) ap'(2) by simp
  let ?h3 = "h2(m \<mapsto> M\<lparr>Left := root_of l, Color := c\<rparr>)"
  let ?h4 = "?h3(m \<mapsto> M\<lparr>Left := root_of l, Color := c, Parent := above k\<rparr>)"
  have h4: "\<forall>a. a \<notin> nodes l \<longrightarrow> a \<noteq> m \<longrightarrow> ?h4 a = h a" using h2(3) by simp
  have "rep ?h4 (Some m) l" using h2(2) ap'(2) by simp
  moreover have "rep ?h4 (Some m) r" using rep_same[OF m(3)] h4 ap'(3,4) by blast
  moreover have "M\<lparr>Left := root_of l, Color := c, Parent := above k\<rparr> =
      \<lparr>UserStruct = UserStruct M, Parent = above k, Left = root_of l, Right = root_of r, Color = c\<rparr>"
    using m(2) by (simp add: rb_node.equality)
  ultimately have t: "rep ?h4 (above k) ?t" by simp
  have k: "rep_place ?h4 (Some x) k" using rep_place_same[OF x(2)] h4 ap'(5,6) by blast
  obtain h' where h': "replace_child (above k) x (root_of ?t) (?h4, R) = Some (h', root_of (plug ?t k))"
    "rep h' None (plug ?t k)" "\<forall>a. a \<notin> place_nodes k \<longrightarrow> h' a = ?h4 a"
    using relink[OF t k ap xk, of "Br l (x, cx, u) r'" R] R by auto
  have "\<forall>a. a \<notin> insert m (nodes l \<union> place_nodes k) \<longrightarrow> h' a = h a" using h'(3) h4 by simp
  moreover have "upd m (\<lambda>T. T\<lparr>Left := root_of l\<rparr>) h = Some ?h1" using m(1) by simp
  moreover have "paint c m h2 = Some ?h3" using h2m by (simp add: paint_def)
  moreover have "upd m (\<lambda>T. T\<lparr>Parent := above k\<rparr>) ?h3 = Some ?h4" by simp
  ultimately show ?thesis using h2(1) h2m h'(1,2) by (simp only: root_of.simps) blast
qed

text \<open>The subtree below a leftmost node goes up to its parent.\<close>

lemma cut_leftmost:
  assumes r: "rep h None (plug (Br Tip (m, c, u) t) ((DirL, (q, cq, uq), s) # k))"
    and ap: "apart (plug (Br Tip (m, c, u) t) ((DirL, (q, cq, uq), s) # k))"
  shows "\<exists>h1 h2. upd q (\<lambda>P. P\<lparr>Left := root_of t\<rparr>) h = Some h1 \<and> reparent (Some q) (root_of t) h1 = Some h2 \<and>
    rep h2 None (plug t ((DirL, (q, cq, uq), s) # k)) \<and>
    (\<forall>a. a \<notin> insert q (nodes t) \<longrightarrow> h2 a = h a)"
proof -
  have ap': "q \<notin> nodes t" "q \<notin> nodes s" "q \<notin> place_nodes k" "nodes t \<inter> nodes s = {}" "nodes t \<inter> place_nodes k = {}"
    "apart t" using ap unfolding apart_plug by auto
  have rr: "h q = Some (node_at DirL uq (above k) (Some m) (root_of s) cq)" "rep h (Some q) s"
    "rep_place h (Some q) k" "rep h (Some m) t" using r unfolding rep_plug by auto
  let ?h1 = "h(q \<mapsto> node_at DirL uq (above k) (root_of t) (root_of s) cq)"
  have "rep ?h1 (Some m) t" using rr(4) ap'(1) by simp
  then obtain h2 where h2: "reparent (Some q) (root_of t) ?h1 = Some h2" "rep h2 (Some q) t"
    "\<forall>a. a \<notin> nodes t \<longrightarrow> h2 a = ?h1 a"
    using reparent_rep[OF _ ap'(6), of ?h1 "Some m" "Some q"] by blast
  have off: "\<forall>a. a \<notin> nodes t \<longrightarrow> a \<noteq> q \<longrightarrow> h2 a = h a" using h2(3) by simp
  have "rep h2 (Some q) s" using rep_same[OF rr(2)] off ap'(2,4) by blast
  moreover have "rep_place h2 (Some q) k" using rep_place_same[OF rr(3)] off ap'(3,5) by blast
  moreover have "h2 q = Some (node_at DirL uq (above k) (root_of t) (root_of s) cq)" using h2(3) ap'(1) by simp
  ultimately have "rep h2 None (plug t ((DirL, (q, cq, uq), s) # k))" using h2(2) unfolding rep_plug by simp
  moreover have "upd q (\<lambda>P. P\<lparr>Left := root_of t\<rparr>) h = Some ?h1" using rr(1) by (simp add: node_at_def)
  ultimately show ?thesis using h2(1) off by blast
qed

lemma place_nodes_append: "place_nodes (k @ k') = place_nodes k \<union> place_nodes k'"
  by (induction k rule: place_nodes.induct) auto

definition leftmost :: "'u place \<Rightarrow> bool" where
  "leftmost k \<longleftrightarrow> (\<forall>(d, x, s) \<in> set k. d = DirL)"

lemma leftmost_before: "leftmost k \<Longrightarrow> items_before k = []"
  by (induction k rule: items_before.induct) (auto simp: leftmost_def)

lemma leftmost_exists:
  assumes "t \<noteq> Tip"
  shows "\<exists>m c u r k. t = plug (Br Tip (m, c, u) r) k \<and> leftmost k"
  using assms
proof (induction t rule: items.induct)
  case (2 l x c u r)
  show ?case
  proof (cases "l = Tip")
    case True
    have "Br l (x, c, u) r = plug (Br Tip (x, c, u) r) [] \<and> leftmost []" by (simp add: True leftmost_def)
    then show ?thesis by blast
  next
    case False
    then obtain m c' u' r' k where "l = plug (Br Tip (m, c', u') r') k" "leftmost k" using 2(1) by blast
    then have "Br l (x, c, u) r = plug (Br Tip (m, c', u') r') (k @ [(DirL, (x, c, u), r)]) \<and>
        leftmost (k @ [(DirL, (x, c, u), r)])"
      by (auto simp: plug_append leftmost_def)
    then show ?thesis by blast
  qed
qed simp

lemma above_append: "above (k @ k') = (if k = [] then above k' else above k)"
  by (cases k rule: above.cases) auto

lemma successor_result:
  assumes x: "rep h2 (Some x) l" "rep_place h2 (Some x) k" "l \<noteq> Tip"
    and m: "h2 m = Some M" "Right M = root_of r" "rep h2 (Some m) r"
    and ap: "apart (plug (Br l (m, Color N, UserStruct M) r) k)" and xk: "x \<notin> place_nodes k"
    and R: "R = root_of (plug (Br l (x, cx, u) r') k)" and N: "Parent N = above k"
    and start: "Left N = root_of l" "root_of l = Some ol"
    and run: "unlink_successor h R x N ol rc = do {
       h \<leftarrow> upd m (\<lambda>T. T\<lparr>Left := Some ol\<rparr>) h2;
       h \<leftarrow> upd ol (\<lambda>L. L\<lparr>Parent := Some m\<rparr>) h;
       T \<leftarrow> h m;
       let ColorOfUnlinked = Color T;
       h \<leftarrow> paint (Color N) m h;
       h \<leftarrow> upd m (\<lambda>T. T\<lparr>Parent := Parent N\<rparr>) h;
       (h, NewRoot) \<leftarrow> replace_child (Parent N) x (Some m) (h, R);
       Some (h, NewRoot, Child, Some Par, ColorOfUnlinked)
     }"
  shows "\<exists>h'. unlink_successor h R x N ol rc =
      Some (h', root_of (plug (Br l (m, Color N, UserStruct M) r) k), Child, Some Par, Color M) \<and>
    rep h' None (plug (Br l (m, Color N, UserStruct M) r) k) \<and>
    (\<forall>a. a \<notin> insert m (nodes l \<union> place_nodes k) \<longrightarrow> h' a = h2 a)"
proof -
  obtain h3 h4 h5 h6 h' where h: "upd m (\<lambda>T. T\<lparr>Left := root_of l\<rparr>) h2 = Some h3"
    "reparent (Some m) (root_of l) h3 = Some h4" "h4 m = Some (M\<lparr>Left := root_of l\<rparr>)"
    "paint (Color N) m h4 = Some h5" "upd m (\<lambda>T. T\<lparr>Parent := above k\<rparr>) h5 = Some h6"
    "replace_child (above k) x (Some m) (h6, R) = Some (h', root_of (plug (Br l (m, Color N, UserStruct M) r) k))"
    "rep h' None (plug (Br l (m, Color N, UserStruct M) r) k)"
    "\<forall>a. a \<notin> insert m (nodes l \<union> place_nodes k) \<longrightarrow> h' a = h2 a"
    using replace_node[OF x m ap xk R] by blast
  have "upd ol (\<lambda>L. L\<lparr>Parent := Some m\<rparr>) h3 = Some h4" using h(2) start(2) by (simp add: reparent_def)
  then have "unlink_successor h R x N ol rc =
      Some (h', root_of (plug (Br l (m, Color N, UserStruct M) r) k), Child, Some Par, Color M)"
    unfolding run N using h(1,3-6) start(2) by simp
  then show ?thesis using h(7,8) by blast
qed

lemma successor_search:
  assumes "rep h p (plug (Br Tip (m, c, u) t) (f # j))" "leftmost (f # j)"
    "root_of (plug (Br Tip (m, c, u) t) (f # j)) = Some y"
  shows "\<exists>Y l. h y = Some Y \<and> Left Y = Some l \<and> extreme DirL h l = Some m"
proof -
  obtain j0 g where j: "f # j = j0 @ [g]" by (metis rev_exhaust list.distinct(1))
  then have "g \<in> set (f # j)" by simp
  then obtain b cb ub s where g: "g = (DirL, (b, cb, ub), s)" using assms(2) by (cases g) (auto simp: leftmost_def)
  let ?l = "plug (Br Tip (m, c, u) t) j0"
  have T: "plug (Br Tip (m, c, u) t) (f # j) = Br ?l (b, cb, ub) s" unfolding j g plug_append by simp
  have "leftmost j0" using assms(2) unfolding j by (auto simp: leftmost_def)
  then have "first_node (items ?l) = Some m" by (simp add: items_plug leftmost_before)
  moreover obtain l where l: "root_of ?l = Some l"
    using calculation by (metis first_node_simps(1) items.simps(1) not_None_eq root_of_None option.distinct(1))
  ultimately have "extreme DirL h l = Some m"
    using extreme_rep[of h "Some b" ?l l DirL] assms(1) unfolding T by (simp add: along_def)
  then show ?thesis using assms(1,3) l unfolding T by simp
qed

lemma unlink_successor_rep:
  assumes r: "rep h None (plug (Br l (x, c, u) (plug (Br Tip (m, mc, mu) t) j)) k)"
    and ap: "apart (plug (Br l (x, c, u) (plug (Br Tip (m, mc, mu) t) j)) k)"
    and R: "R = root_of (plug (Br l (x, c, u) (plug (Br Tip (m, mc, mu) t) j)) k)"
    and l: "root_of l = Some ol" and j: "leftmost j" and N: "h x = Some N"
    and rc: "root_of (plug (Br Tip (m, mc, mu) t) j) = Some rc"
  defines "k' \<equiv> j @ (DirR, (m, c, mu), l) # k"
  shows "\<exists>h'. unlink_successor h R x N ol rc = Some (h', root_of (plug t k'), root_of t, above k', mc) \<and>
    rep h' None (plug t k') \<and> apart (plug t k') \<and> (\<forall>a. a \<notin> nodes (plug t k') \<longrightarrow> h' a = h a)"
proof -
  let ?K = "j @ (DirR, (x, c, u), l) # k"
  have T: "plug (Br l (x, c, u) (plug (Br Tip (m, mc, mu) t) j)) k = plug (Br Tip (m, mc, mu) t) ?K"
    by (simp add: plug_append)
  have k': "plug t k' = plug (Br l (m, c, mu) (plug t j)) k" by (simp add: k'_def plug_append)
  have N': "N = \<lparr>UserStruct = u, Parent = above k, Left = root_of l, Right = Some rc, Color = c\<rparr>"
    using r N rc by (simp add: rep_plug)
  have ap1: "apart (Br l (x, c, u) (plug (Br Tip (m, mc, mu) t) j))" "x \<notin> place_nodes k"
    using ap unfolding apart_plug by auto
  have apt: "apart (plug t k')" "m \<noteq> x" "m \<notin> nodes l" "m \<notin> place_nodes k"
    using ap unfolding k' by (auto simp: apart_plug nodes_plug)
  have lk: "rep h (Some x) l" "rep_place h (Some x) k" using r unfolding rep_plug by auto
  have "l \<noteq> Tip" using l by auto
  have sel: "Parent N = above k" "Left N = root_of l" "Color N = c" using N' by simp_all
  show ?thesis
  proof (cases j rule: above.cases)
    case 1
    have m: "h m = Some \<lparr>UserStruct = mu, Parent = Some x, Left = None, Right = root_of t, Color = mc\<rparr>"
      and t: "rep h (Some m) t" and om: "rc = m"
      using r rc unfolding rep_plug by (auto simp: 1)
    let ?M = "\<lparr>UserStruct = mu, Parent = Some x, Left = None, Right = root_of t, Color = mc\<rparr>"
    have "\<exists>h'. unlink_successor h R x N ol rc =
        Some (h', root_of (plug (Br l (m, Color N, UserStruct ?M) t) k), root_of t, Some m, Color ?M) \<and>
      rep h' None (plug (Br l (m, Color N, UserStruct ?M) t) k) \<and>
      (\<forall>a. a \<notin> insert m (nodes l \<union> place_nodes k) \<longrightarrow> h' a = h a)"
      by (rule successor_result[OF lk \<open>l \<noteq> Tip\<close> m _ t _ ap1(2) R sel(1,2) l])
        (use apt k' m sel in \<open>simp_all add: 1 unlink_successor_def om Let_def\<close>)
    then show ?thesis using apt(1) sel(3) k' by (auto simp: 1 k'_def nodes_plug)
  next
    case (2 d q cq uq s j')
    then have d: "d = DirL" using j by (simp add: leftmost_def)
    let ?K' = "j' @ (DirR, (x, c, u), l) # k"
    have T': "?K = (DirL, (q, cq, uq), s) # ?K'" by (simp add: 2 d)
    have rm: "h m = Some \<lparr>UserStruct = mu, Parent = Some q, Left = None, Right = root_of t, Color = mc\<rparr>"
      using r unfolding T T' rep_plug by simp
    obtain h1 h2 where h2: "upd q (\<lambda>P. P\<lparr>Left := root_of t\<rparr>) h = Some h1" "reparent (Some q) (root_of t) h1 = Some h2"
      "rep h2 None (plug t ?K)" "\<forall>a. a \<notin> insert q (nodes t) \<longrightarrow> h2 a = h a"
      using cut_leftmost[of h m mc mu t q cq uq s ?K'] r ap unfolding T T' by blast
    let ?r = "plug t j"
    have ap2: "m \<notin> nodes ?r" "m \<notin> insert q (nodes t)"
      using ap unfolding T by (auto simp: 2 apart_plug nodes_plug place_nodes_append)
    have apr: "apart ?r" using apt(1) unfolding k' by (simp add: apart_plug[of _ k])
    have rr: "rep h2 (Some x) ?r" "rep h2 (Some x) l" "rep_place h2 (Some x) k"
      using h2(3) by (auto simp: plug_append rep_plug)
    have m2: "h2 m = Some \<lparr>UserStruct = mu, Parent = Some q, Left = None, Right = root_of t, Color = mc\<rparr>"
      using rm h2(4) ap2(2) by simp
    have rrc: "root_of ?r = Some rc" using rc root_of_plug_Cons[of t "(d, (q, cq, uq), s)" j'] by (simp add: 2) metis
    let ?M = "\<lparr>UserStruct = mu, Parent = Some q, Left = None, Right = Some rc, Color = mc\<rparr>"
    let ?h3 = "h2(m \<mapsto> ?M)"
    have "rep ?h3 (Some x) ?r" using rr(1) ap2(1) by simp
    then obtain h4 where h4: "reparent (Some m) (root_of ?r) ?h3 = Some h4" "rep h4 (Some m) ?r"
      "\<forall>a. a \<notin> nodes ?r \<longrightarrow> h4 a = ?h3 a"
      using reparent_rep[OF _ apr, of ?h3 "Some x" "Some m"] by blast
    have disj: "nodes l \<inter> nodes ?r = {}" "place_nodes k \<inter> nodes ?r = {}"
      using apt(1) unfolding k' apart_plug by auto
    have off: "\<And>a. a \<notin> nodes ?r \<Longrightarrow> a \<noteq> m \<Longrightarrow> h4 a = h2 a" using h4(3) by simp
    have "\<forall>a. a \<in> nodes l \<longrightarrow> h4 a = h2 a" using off disj(1) apt(3) by blast
    then have l4: "rep h4 (Some x) l" using rep_same[OF rr(2)] by blast
    have "\<forall>a. a \<in> place_nodes k \<longrightarrow> h4 a = h2 a" using off disj(2) apt(4) by blast
    then have k4: "rep_place h4 (Some x) k" using rep_place_same[OF rr(3)] by blast
    have m4: "h4 m = Some ?M" using h4(3) ap2(1) by simp
    have "\<exists>h'. unlink_successor h R x N ol rc =
        Some (h', root_of (plug (Br l (m, Color N, UserStruct ?M) ?r) k), root_of t, Some q, Color ?M) \<and>
      rep h' None (plug (Br l (m, Color N, UserStruct ?M) ?r) k) \<and>
      (\<forall>a. a \<notin> insert m (nodes l \<union> place_nodes k) \<longrightarrow> h' a = h4 a)"
    proof (rule successor_result[OF l4 k4 \<open>l \<noteq> Tip\<close> m4 _ _ _ ap1(2) R sel(1,2) l])
      obtain Rn l' where first: "h rc = Some Rn" "Left Rn = Some l'" "extreme DirL h l' = Some m"
        using successor_search[of h "Some x" m mc mu t "(d, (q, cq, uq), s)" j' rc] r j rc unfolding rep_plug by (auto simp: 2)
      have "upd m (\<lambda>T. T\<lparr>Right := Some rc\<rparr>) h2 = Some ?h3" using m2 by simp
      moreover have "upd rc (\<lambda>R. R\<lparr>Parent := Some m\<rparr>) ?h3 = Some h4" using h4(1) rrc by (simp add: reparent_def)
      ultimately show "unlink_successor h R x N ol rc = do {
         h \<leftarrow> upd m (\<lambda>T. T\<lparr>Left := Some ol\<rparr>) h4;
         h \<leftarrow> upd ol (\<lambda>L. L\<lparr>Parent := Some m\<rparr>) h;
         T \<leftarrow> h m;
         let ColorOfUnlinked = Color T;
         h \<leftarrow> paint (Color N) m h;
         h \<leftarrow> upd m (\<lambda>T. T\<lparr>Parent := Parent N\<rparr>) h;
         (h, NewRoot) \<leftarrow> replace_child (Parent N) x (Some m) (h, R);
         Some (h, NewRoot, root_of t, Some q, ColorOfUnlinked)
       }"
        using first rm h2(1,2) by (simp add: unlink_successor_def Let_def flip: reparent_def)
    qed (use h4(2) rrc apt(1) k' sel(3) in simp_all)
    moreover have "\<forall>a. a \<notin> nodes (plug t k') \<longrightarrow> h4 a = h a"
      using h4(3) h2(4) unfolding k' nodes_plug by (auto simp: 2 nodes_plug)
    moreover have "above k' = Some q" by (simp add: k'_def 2)
    moreover have "place_nodes k' = place_nodes j \<union> insert m (nodes l \<union> place_nodes k)"
      by (simp add: k'_def place_nodes_append)
    ultimately show ?thesis using apt(1) sel(3) k' unfolding nodes_plug by auto
  qed
qed

end
