(* ===== verification/Rb_Remove.thy ===== *)
theory Rb_Remove
  imports Rb_Put Rb_Unlink
begin

text \<open>
  OrderedCollectionDelete as a whole: the item of the deleted node leaves the collection.
\<close>

lemma rb_place_swap:
  "rb_place (j @ (d, (x, c, u), s) # k) n = rb_place (j @ (d, (y, c, v), s) # k) n"
  "black_above (j @ (d, (x, c, u), s) # k) = black_above (j @ (d, (y, c, v), s) # k)"
proof -
  have b: "black_above (j @ (d, (x, c, u), s) # k) = black_above (j @ (d, (y, c, v), s) # k)" for j
    by (cases j rule: above.cases) auto
  show "rb_place (j @ (d, (x, c, u), s) # k) n = rb_place (j @ (d, (y, c, v), s) # k) n"
    by (induction j n rule: rb_place.induct) (auto simp: b)
  show "black_above (j @ (d, (x, c, u), s) # k) = black_above (j @ (d, (y, c, v), s) # k)" by (rule b)
qed

lemma rb_blacken: "rb t \<Longrightarrow> rb (blacken t)"
  by (cases t rule: black.cases) auto

text \<open>What is below the unlinked node: one black node short, or nothing is broken.\<close>

lemma unlinked_rb:
  assumes "red_black (plug (Br l (x, c, u) r) k)" "l = Tip \<or> r = Tip"
  defines "t \<equiv> (if l = Tip then r else l)"
  shows "rb t" "c = Black \<Longrightarrow> rb_place k (Suc (bh t))" "c = Red \<Longrightarrow> red_black (plug t k)"
proof -
  have "rb (Br l (x, c, u) r)" "rb_place k (bh (Br l (x, c, u) r))" using assms(1) by (simp_all only: red_black_plug)
  then show "rb t" "c = Black \<Longrightarrow> rb_place k (Suc (bh t))" "c = Red \<Longrightarrow> red_black (plug t k)"
    using assms(2) by (auto simp: t_def red_black_plug)
qed

text \<open>The two cases of unlinking: the tree below the place of the unlinked node.\<close>

lemma unlink_rb:
  assumes T: "St h h R T" "red_black T" "items T = pre @ (x, u) # post" and N: "h x = Some N"
  shows "\<exists>h' R' t k c. (case (Left N, Right N) of
      (Some l, Some r) \<Rightarrow> unlink_successor h R x N l r | _ \<Rightarrow> unlink_single h R x N) =
    Some (h', R', root_of t, above k, c) \<and>
    St (h(x := None)) (h'(x := None)) R' (plug t k) \<and> items (plug t k) = pre @ post \<and> rb t \<and>
    (c = Black \<longrightarrow> rb_place k (Suc (bh t))) \<and> (c = Red \<longrightarrow> red_black (plug t k))"
proof -
  have r: "rep h None T" "apart T" "R = root_of T" using T(1) by (simp_all add: St_def)
  obtain l c r k where p: "T = plug (Br l (x, c, u) r) k"
    "along DirL (items r) @ beyond DirL k = post"
    using split_place[OF T(3) r(2), of DirL] by auto
  have post: "items r @ items_after k = post" using p(2) by (simp add: along_def beyond_def)
  have pre: "items_before k @ items l = pre" using T(3) p(1) post by (simp add: items_plug)
  have N': "N = \<lparr>UserStruct = u, Parent = above k, Left = root_of l, Right = root_of r, Color = c\<rparr>"
    using r(1) N by (simp add: p(1) rep_plug)
  have x: "x \<notin> nodes l" "x \<notin> nodes r" "x \<notin> place_nodes k" using r(2) unfolding p(1) apart_plug by auto
  note ra = r(1)[unfolded p(1)] r(2)[unfolded p(1)] r(3)[unfolded p(1)]
  have st: "St (h(x := None)) (h'(x := None)) R' (plug t k')"
    if "rep h' None (plug t k')" "apart (plug t k')" "\<forall>a. a \<notin> nodes (plug t k') \<longrightarrow> h' a = h a"
      "R' = root_of (plug t k')" "x \<notin> nodes (plug t k')" for h' R' t k'
    using that by (simp add: St_def)
  show ?thesis
  proof (cases "l = Tip \<or> r = Tip")
    case True
    let ?t = "if l = Tip then r else l"
    obtain h' where h': "unlink_single h R x N = Some (h', root_of (plug ?t k), root_of ?t, above k, c)"
      "rep h' None (plug ?t k)" "apart (plug ?t k)" "\<forall>a. a \<notin> nodes (plug ?t k) \<longrightarrow> h' a = h a"
      using unlink_single_rep[OF ra True N] by blast
    have "x \<notin> nodes (plug ?t k)" using x by (simp add: nodes_plug)
    note st[OF h'(2-4) refl this]
    moreover have "items (plug ?t k) = pre @ post" using True pre post by (auto simp: items_plug)
    moreover have "(case (Left N, Right N) of
        (Some l, Some r) \<Rightarrow> unlink_successor h R x N l r | _ \<Rightarrow> unlink_single h R x N) = unlink_single h R x N"
      using True N' by (auto split: option.splits)
    ultimately show ?thesis
      using h'(1) unlinked_rb[OF T(2)[unfolded p(1)] True] by metis
  next
    case False
    obtain m mc mu t j where j: "r = plug (Br Tip (m, mc, mu) t) j" "leftmost j"
      using leftmost_exists[of r] False by blast
    obtain ol rc where roots: "root_of l = Some ol" "root_of r = Some rc"
      using False by (metis not_None_eq root_of_None)
    let ?k = "j @ (DirR, (m, c, mu), l) # k"
    obtain h' where h': "unlink_successor h R x N ol rc = Some (h', root_of (plug t ?k), root_of t, above ?k, mc)"
      "rep h' None (plug t ?k)" "apart (plug t ?k)" "\<forall>a. a \<notin> nodes (plug t ?k) \<longrightarrow> h' a = h a"
      using unlink_successor_rep[OF ra[unfolded j(1)] roots(1) j(2) N roots(2)[unfolded j(1)]] by blast
    have "x \<noteq> m" "x \<notin> nodes t" "x \<notin> place_nodes j" using x(2) by (auto simp: j(1) nodes_plug)
    then have "x \<notin> nodes (plug t ?k)" using x by (simp add: nodes_plug place_nodes_append)
    note st[OF h'(2-4) refl this]
    moreover have "items (plug t ?k) = pre @ post"
      using pre post leftmost_before[OF j(2)] by (auto simp: plug_append items_plug j(1))
    moreover have "red_black (plug (Br Tip (m, mc, mu) t) (j @ (DirR, (x, c, u), l) # k))"
      using T(2) by (simp add: p(1) j(1) plug_append)
    then have "red_black (plug (Br Tip (m, mc, mu) t) ?k)"
      unfolding red_black_plug
      using rb_place_swap(1)[of j DirR x c u l k _ m mu] rb_place_swap(2)[of j DirR x c u l k m mu] by simp
    note unlinked_rb[OF this]
    moreover have "(case (Left N, Right N) of
        (Some l, Some r) \<Rightarrow> unlink_successor h R x N l r | _ \<Rightarrow> unlink_single h R x N) = unlink_successor h R x N ol rc"
      using roots N' by simp
    moreover have "(if Tip = Tip then t else Tip) = t" by simp
    ultimately show ?thesis using h'(1) by (intro exI[of _ h'] exI[of _ "root_of (plug t ?k)"] exI[of _ t]
      exI[of _ ?k] exI[of _ mc]) simp
  qed
qed

lemma ascending_remove: "ascending cmp (pre @ p # post) \<Longrightarrow> ascending cmp (pre @ post)"
  by (auto simp: ascending_def sorted_wrt_append)

lemma Delete_rb:
  assumes c: "collection Tree h (pre @ (x, u) # post)" and o: "total_order (UserStructCompare Tree)"
    and len: "length (pre @ post) < 2 ^ 32 - 1"
  shows "\<exists>R h'. OrderedCollectionDelete pcd Tree h x = Some (u, Tree\<lparr>Root := R\<rparr>, h') \<and>
    collection (Tree\<lparr>Root := R\<rparr>) h' (pre @ post) \<and> h' x = None \<and>
    (\<forall>a. a \<notin> fst ` set (pre @ (x, u) # post) \<longrightarrow> h' a = h a)"
proof -
  obtain T where T: "St h h (Root Tree) T" "red_black T" "items T = pre @ (x, u) # post"
    "ascending (UserStructCompare Tree) (pre @ (x, u) # post)"
    using c by (rule collectionE)
  have asc: "ascending (UserStructCompare Tree) (pre @ post)" using ascending_remove[OF T(4)] .
  have "rep h None T" using T(1) by (simp add: St_def)
  from user_of[OF this, of x u] T(3) obtain N where N: "h x = Some N" "UserStruct N = u" by auto
  obtain h1 R1 t k cu where u: "(case (Left N, Right N) of
      (Some l, Some r) \<Rightarrow> unlink_successor h (Root Tree) x N l r | _ \<Rightarrow> unlink_single h (Root Tree) x N) =
      Some (h1, R1, root_of t, above k, cu)"
    "St (h(x := None)) (h1(x := None)) R1 (plug t k)" "items (plug t k) = pre @ post" "rb t"
    "cu = Black \<longrightarrow> rb_place k (Suc (bh t))" "cu = Red \<longrightarrow> red_black (plug t k)"
    using unlink_rb[OF T(1-3) N(1)] by blast
  define rest where "rest = (if cu = Black then do {
          (h, NewRoot, Child) \<leftarrow> delete_loop (h1(x := None)) R1 (root_of t) (above k);
          h \<leftarrow> (case Child of None \<Rightarrow> Some h | Some c \<Rightarrow> paint Black c h);
          Some (h, NewRoot)
        }
        else Some (h1(x := None), R1))"
  have run: "OrderedCollectionDelete pcd Tree h x = do {
      (h, NewRoot) \<leftarrow> rest;
      let Tree = Tree\<lparr>Root := NewRoot\<rparr>;
      validate_if pcd Tree h;
      Some (u, Tree, h) }"
    unfolding OrderedCollectionDelete_def N(1) Option.bind_lunit u(1) rest_def N(2) by (simp add: Let_def)
  have "\<exists>h' R' T'. rest = Some (h', R') \<and> St (h(x := None)) h' R' T' \<and> red_black T' \<and> items T' = pre @ post"
  proof (cases cu)
    case RedBlackTreeRed
    then show ?thesis using u by (auto simp: rest_def)
  next
    case RedBlackTreeBlack
    then obtain h2 R2 t2 k2 where l: "delete_loop (h1(x := None)) R1 (root_of t) (above k) = Some (h2, R2, root_of t2)"
      "St (h(x := None)) h2 R2 (plug t2 k2)" "red_black (plug (blacken t2) k2)" "items (plug t2 k2) = pre @ post"
      using delete_loop_rb[OF u(2) rb_blacken[OF u(4)]] u(3,5) by auto
    have "\<exists>h3. (case root_of t2 of None \<Rightarrow> Some h2 | Some c \<Rightarrow> paint Black c h2) = Some h3 \<and>
      St (h(x := None)) h3 R2 (plug (blacken t2) k2)"
    proof (cases t2 rule: black.cases)
      case (2 a y cy v b)
      then show ?thesis using St_paint[of _ h2 R2 DirL a y cy v b k2 Black] l(2) by auto
    qed (use l(2) in simp)
    then obtain h3 where "(case root_of t2 of None \<Rightarrow> Some h2 | Some c \<Rightarrow> paint Black c h2) = Some h3"
      "St (h(x := None)) h3 R2 (plug (blacken t2) k2)" by blast
    moreover have "items (plug (blacken t2) k2) = pre @ post" using l(4) by (simp add: items_plug)
    ultimately show ?thesis using l(1,3) RedBlackTreeBlack by (auto simp: rest_def)
  qed
  then obtain h' R' T' where e: "rest = Some (h', R')" "St (h(x := None)) h' R' T'" "red_black T'" "items T' = pre @ post"
    by blast
  have fin: "collection (Tree\<lparr>Root := R'\<rparr>) h' (pre @ post)" "validate_if pcd (Tree\<lparr>Root := R'\<rparr>) h' = Some ()"
    using collection_root(1)[OF e(2,3) _ o] collection_root(2)[OF e(2,3) _ o, of pcd] asc len e(4) by auto
  have "distinct (map fst (pre @ (x, u) # post))" using T(1,3) apart_distinct by (metis St_apart)
  then have nx: "x \<notin> nodes T'" using e(4) by (auto simp: nodes_items)
  have "\<forall>a. a \<notin> nodes T' \<longrightarrow> h' a = (h(x := None)) a" using e(2) by (simp add: St_def)
  then have "h' x = None" "\<forall>a. a \<notin> fst ` set (pre @ (x, u) # post) \<longrightarrow> h' a = h a"
    using nx e(4) by (auto simp: nodes_items)
  then show ?thesis using run e(1) fin by auto
qed

end
