(* ===== verification/Rb_Spec.thy ===== *)
theory Rb_Spec
  imports Rb_Remove
begin

text \<open>
  The contract of MdePkg/Include/Library/OrderedCollectionLib.h: the collection is the list of its
  nodes with their user structures in ascending order; the operations on the red-black tree are
  those on the list, no ASSERT fires and no loop runs forever.
\<close>

lemma first_node_nth: "first_node xs = (if xs = [] then None else Some (fst (xs ! 0)))"
  by (cases xs) auto

subsection \<open>Insertion, deletion, lookup\<close>

text \<open>C7: inserting an item whose equal is in the collection reports that node, and otherwise links a
  new node at its place in the order, or changes nothing when there is no memory; the heap outside
  of the collection is unchanged and the tree stays a red-black tree.
\<close>

theorem OrderedCollectionInsert_refines:
  assumes "collection Tree h its" "total_order (UserStructCompare Tree)" "length its < 2 ^ 32 - 2"
    "\<And>x. AllocatePool = Some x \<Longrightarrow> h x = None"
  shows "case find (\<lambda>p. UserStructCompare Tree User (snd p) = 0) its of
      Some p \<Rightarrow> OrderedCollectionInsert pcd AllocatePool Tree h User =
        Some (EFI_ALREADY_STARTED, Some (fst p), Tree, h)
    | None \<Rightarrow>
      (case AllocatePool of
         None \<Rightarrow> OrderedCollectionInsert pcd AllocatePool Tree h User = Some (EFI_OUT_OF_RESOURCES, None, Tree, h)
       | Some x \<Rightarrow> \<exists>R h'.
           OrderedCollectionInsert pcd AllocatePool Tree h User = Some (EFI_SUCCESS, Some x, Tree\<lparr>Root := R\<rparr>, h') \<and>
           collection (Tree\<lparr>Root := R\<rparr>) h'
             (filter (\<lambda>p. 0 < UserStructCompare Tree User (snd p)) its @ (x, User) #
              filter (\<lambda>p. UserStructCompare Tree User (snd p) < 0) its) \<and>
           (\<forall>a. a \<notin> insert x (fst ` set its) \<longrightarrow> h' a = h a))"
proof (cases "find (\<lambda>p. UserStructCompare Tree User (snd p) = 0) its")
  case None
  then have none: "\<forall>p \<in> set its. UserStructCompare Tree User (snd p) \<noteq> 0" by (auto simp: find_None_iff)
  show ?thesis
  proof (cases AllocatePool)
    case (Some x)
    from assms(4)[OF this] have "h x = None" .
    from Insert_new[OF assms(1,2,3) this none] show ?thesis using None Some by auto
  qed (use None Insert_no_memory[OF assms(1,2) _ none] assms(3) in simp)
next
  case (Some p)
  then have m: "matching (UserStructCompare Tree User) its = Some (fst p)" by (simp add: matching_def)
  have "length its < 2 ^ 32 - 1" using assms(3) by simp
  from Insert_old[OF assms(1,2) this m] show ?thesis using Some by simp
qed

definition demo_tree :: "(int, int) rb_tree" where
  "demo_tree = \<lparr>Root = Some 10, UserStructCompare = (\<lambda>a b. a - b), KeyCompare = (\<lambda>a b. a - b)\<rparr>"

definition demo_heap :: "int rb_heap" where
  "demo_heap = [10 \<mapsto> \<lparr>UserStruct = 5, Parent = None, Left = None, Right = Some 20, Color = Black\<rparr>,
                20 \<mapsto> \<lparr>UserStruct = 7, Parent = Some 10, Left = None, Right = None, Color = Red\<rparr>]"

lemma demo_rep: "rep demo_heap None (Br Tip (10, Black, 5) (Br Tip (20, Red, 7) Tip))"
  by (simp add: demo_heap_def)

lemma demo_order: "total_order (\<lambda>a b :: int. a - b)"
  by (simp add: total_order_def sgn_if)

lemma demo_sel [simp]:
  "Root demo_tree = Some 10" "UserStructCompare demo_tree = (\<lambda>a b. a - b)" "KeyCompare demo_tree = (\<lambda>a b. a - b)"
  by (simp_all add: demo_tree_def)

lemma demo_collection: "collection demo_tree demo_heap [(10, 5), (20, 7)]"
  unfolding collection_def
  by (intro conjI exI[of _ "Br Tip (10, Black, 5) (Br Tip (20, Red, 7) Tip)"] demo_rep)
    (simp_all add: red_black_def ascending_def)

theorem OrderedCollectionInsert_refines_witness:
  "\<exists>R h'. OrderedCollectionInsert True (Some 30) demo_tree demo_heap 6 =
     Some (EFI_SUCCESS, Some 30, demo_tree\<lparr>Root := R\<rparr>, h') \<and>
     collection (demo_tree\<lparr>Root := R\<rparr>) h' [(10, 5), (30, 6), (20, 7)]"
  using OrderedCollectionInsert_refines[where Tree = demo_tree and h = demo_heap and its = "[(10, 5), (20, 7)]"
    and AllocatePool = "Some 30" and User = 6 and pcd = True] demo_collection demo_order
  by (auto simp: demo_heap_def)

text \<open>C8: deleting a node returns its user structure, frees the node and takes exactly its item out of
  the collection; the tree stays a red-black tree.
\<close>

theorem OrderedCollectionDelete_refines:
  assumes "collection Tree h (pre @ (x, u) # post)" "total_order (UserStructCompare Tree)"
    "length (pre @ post) < 2 ^ 32 - 1"
  shows "\<exists>R h'. OrderedCollectionDelete pcd Tree h x = Some (u, Tree\<lparr>Root := R\<rparr>, h') \<and>
    collection (Tree\<lparr>Root := R\<rparr>) h' (pre @ post) \<and> h' x = None \<and>
    (\<forall>a. a \<notin> fst ` set (pre @ (x, u) # post) \<longrightarrow> h' a = h a)"
  by (rule Delete_rb[OF assms])

theorem OrderedCollectionDelete_refines_witness:
  "\<exists>R h'. OrderedCollectionDelete True demo_tree demo_heap 10 = Some (5, demo_tree\<lparr>Root := R\<rparr>, h') \<and>
     collection (demo_tree\<lparr>Root := R\<rparr>) h' [(20, 7)] \<and> h' 10 = None"
  using OrderedCollectionDelete_refines[of demo_tree demo_heap "[]" 10 5 "[(20, 7)]" True] demo_collection demo_order
  by auto

text \<open>The comparison with a key agrees with the order of the user structures.\<close>

definition key_consistent :: "('u, 'k) rb_tree \<Rightarrow> 'k \<Rightarrow> bool" where
  "key_consistent Tree k \<longleftrightarrow>
     (\<forall>v w. UserStructCompare Tree v w < 0 \<longrightarrow> KeyCompare Tree k v \<le> 0 \<longrightarrow> KeyCompare Tree k w < 0)"

lemma collection_guides:
  assumes "collection Tree h its" "key_consistent Tree k"
  shows "guides (KeyCompare Tree k) its"
proof -
  have "sorted_wrt (\<lambda>p q. UserStructCompare Tree (snd p) (snd q) < 0) its"
    using assms(1) by (simp add: collection_def ascending_def)
  then show ?thesis unfolding guides_def
    by (rule sorted_wrt_mono_rel[rotated]) (use assms(2) in \<open>unfold key_consistent_def, blast\<close>)
qed

lemma guides_unique:
  "guides cmp its \<Longrightarrow> distinct (map fst its) \<Longrightarrow>
    matching cmp its = Some b \<longleftrightarrow> (\<exists>u. (b, u) \<in> set its \<and> cmp u = 0)"
  by (induction its) (force simp: guides_def matching_def)+

lemma found_in_collection:
  assumes "collection Tree h its" "key_consistent Tree k"
  shows "\<exists>r. OrderedCollectionFind Tree h k = Some r \<and>
    (\<forall>x. r = Some x \<longleftrightarrow> (\<exists>u. (x, u) \<in> set its \<and> KeyCompare Tree k u = 0))"
proof -
  obtain T where T: "St h h (Root Tree) T" "red_black T" "items T = its" using assms(1) by (rule collectionE)
  have g: "guides (KeyCompare Tree k) its" using collection_guides[OF assms] .
  have "distinct (map fst its)" using T(1,3) apart_distinct St_apart by metis
  moreover have "OrderedCollectionFind Tree h k = Some (matching (KeyCompare Tree k) its)"
    using find_loop_rep[of h None T "KeyCompare Tree k"] T g by (simp add: OrderedCollectionFind_def St_def)
  ultimately show ?thesis using guides_unique[OF g] by blast
qed

lemma guides_parts:
  assumes "guides cmp its" "\<forall>p \<in> set its. cmp (snd p) \<noteq> 0"
  shows "filter (\<lambda>p. 0 < cmp (snd p)) its @ filter (\<lambda>p. cmp (snd p) < 0) its = its"
  using assms
proof (induction its)
  case (Cons p its)
  show ?case
  proof (cases "0 < cmp (snd p)")
    case False
    then have "\<forall>q \<in> set its. cmp (snd q) < 0" using Cons.prems by (auto simp: guides_def)
    then show ?thesis using False Cons.prems by (auto simp: filter_id_conv filter_empty_conv)
  qed (use Cons in \<open>simp add: guides_def\<close>)
qed simp

text \<open>OrderedCollectionFind returns the node whose user structure compares equal to the key, and
  NULL exactly when there is none.
\<close>

theorem OrderedCollectionFind_correct:
  assumes "collection Tree h its" "key_consistent Tree k"
  shows "\<exists>r. OrderedCollectionFind Tree h k = Some r \<and>
    (\<forall>x. r = Some x \<longleftrightarrow> (\<exists>u. (x, u) \<in> set its \<and> KeyCompare Tree k u = 0))"
  by (rule found_in_collection[OF assms])

theorem OrderedCollectionFind_correct_witness:
  "OrderedCollectionFind demo_tree demo_heap 7 = Some (Some 20) \<and>
   OrderedCollectionFind demo_tree demo_heap 6 = Some None"
proof -
  have key: "key_consistent demo_tree k" for k by (simp add: key_consistent_def)
  obtain r s where r: "OrderedCollectionFind demo_tree demo_heap 7 = Some r"
    "\<forall>x. r = Some x \<longleftrightarrow> (\<exists>u. (x, u) \<in> set [(10, 5), (20, 7)] \<and> KeyCompare demo_tree 7 u = 0)"
    and s: "OrderedCollectionFind demo_tree demo_heap 6 = Some s"
    "\<forall>x. s = Some x \<longleftrightarrow> (\<exists>u. (x, u) \<in> set [(10, 5), (20, 7)] \<and> KeyCompare demo_tree 6 u = 0)"
    using OrderedCollectionFind_correct[OF demo_collection key, of 7]
      OrderedCollectionFind_correct[OF demo_collection key, of 6] by blast
  have "r = Some 20" using r(2) by simp
  moreover have "s = None" using s(2) by (cases s) auto
  ultimately show ?thesis using r(1) s(1) by simp
qed

text \<open>a new item is found by its key and deleting its node gives back the collection there was,
  with the node freed and nothing else changed.
\<close>

theorem insert_find_delete:
  assumes "collection Tree h its" "total_order (UserStructCompare Tree)" "length its < 2 ^ 32 - 2" "h x = None"
    "\<forall>(y, u) \<in> set its. UserStructCompare Tree User u \<noteq> 0" "key_consistent Tree k" "KeyCompare Tree k User = 0"
  shows "\<exists>R1 h1 R2 h2.
    OrderedCollectionInsert pcd (Some x) Tree h User = Some (EFI_SUCCESS, Some x, Tree\<lparr>Root := R1\<rparr>, h1) \<and>
    OrderedCollectionFind (Tree\<lparr>Root := R1\<rparr>) h1 k = Some (Some x) \<and>
    OrderedCollectionDelete pcd (Tree\<lparr>Root := R1\<rparr>) h1 x = Some (User, Tree\<lparr>Root := R2\<rparr>, h2) \<and>
    collection (Tree\<lparr>Root := R2\<rparr>) h2 its \<and> (\<forall>a. a \<notin> fst ` set its \<longrightarrow> h2 a = h a)"
proof -
  let ?cmp = "UserStructCompare Tree User"
  let ?pre = "filter (\<lambda>p. 0 < ?cmp (snd p)) its" and ?post = "filter (\<lambda>p. ?cmp (snd p) < 0) its"
  have none: "\<forall>p \<in> set its. ?cmp (snd p) \<noteq> 0" using assms(5) by auto
  obtain R1 h1 where i: "OrderedCollectionInsert pcd (Some x) Tree h User = Some (EFI_SUCCESS, Some x, Tree\<lparr>Root := R1\<rparr>, h1)"
    "collection (Tree\<lparr>Root := R1\<rparr>) h1 (?pre @ (x, User) # ?post)" "\<forall>a. a \<notin> insert x (fst ` set its) \<longrightarrow> h1 a = h a"
    using Insert_new[OF assms(1-4) none] by blast
  have pp: "?pre @ ?post = its" using guides_parts[OF ascending_guides[OF _ assms(2)] none] assms(1)
    by (simp add: collection_def)
  have all: "fst ` set (?pre @ (x, User) # ?post) = insert x (fst ` set its)"
    using arg_cong[OF pp, of set] by auto
  have "\<exists>R h'. OrderedCollectionDelete pcd (Tree\<lparr>Root := R1\<rparr>) h1 x = Some (User, Tree\<lparr>Root := R1\<rparr>\<lparr>Root := R\<rparr>, h') \<and>
    collection (Tree\<lparr>Root := R1\<rparr>\<lparr>Root := R\<rparr>) h' (?pre @ ?post) \<and> h' x = None \<and>
    (\<forall>a. a \<notin> fst ` set (?pre @ (x, User) # ?post) \<longrightarrow> h' a = h1 a)"
    by (rule Delete_rb[OF i(2)]) (use assms(2,3) in \<open>simp, simp add: pp\<close>)
  then obtain R2 h2 where d: "OrderedCollectionDelete pcd (Tree\<lparr>Root := R1\<rparr>) h1 x = Some (User, Tree\<lparr>Root := R2\<rparr>, h2)"
    "collection (Tree\<lparr>Root := R2\<rparr>) h2 its" "h2 x = None" "\<forall>a. a \<notin> insert x (fst ` set its) \<longrightarrow> h2 a = h1 a"
    unfolding all pp by auto
  have "\<exists>r. OrderedCollectionFind (Tree\<lparr>Root := R1\<rparr>) h1 k = Some r \<and>
    (\<forall>y. r = Some y \<longleftrightarrow> (\<exists>u. (y, u) \<in> set (?pre @ (x, User) # ?post) \<and> KeyCompare (Tree\<lparr>Root := R1\<rparr>) k u = 0))"
    by (rule found_in_collection[OF i(2)]) (use assms(6) in \<open>simp add: key_consistent_def\<close>)
  then have "OrderedCollectionFind (Tree\<lparr>Root := R1\<rparr>) h1 k = Some (Some x)" using assms(7) by auto
  then show ?thesis using i d assms(4) by (metis insertE)
qed

theorem insert_find_delete_witness:
  "\<exists>R1 h1 R2 h2.
    OrderedCollectionInsert True (Some 30) demo_tree demo_heap 6 = Some (EFI_SUCCESS, Some 30, demo_tree\<lparr>Root := R1\<rparr>, h1) \<and>
    OrderedCollectionFind (demo_tree\<lparr>Root := R1\<rparr>) h1 6 = Some (Some 30) \<and>
    OrderedCollectionDelete True (demo_tree\<lparr>Root := R1\<rparr>) h1 30 = Some (6, demo_tree\<lparr>Root := R2\<rparr>, h2) \<and>
    collection (demo_tree\<lparr>Root := R2\<rparr>) h2 [(10, 5), (20, 7)]"
proof -
  have "\<exists>R1 h1 R2 h2.
    OrderedCollectionInsert True (Some 30) demo_tree demo_heap 6 = Some (EFI_SUCCESS, Some 30, demo_tree\<lparr>Root := R1\<rparr>, h1) \<and>
    OrderedCollectionFind (demo_tree\<lparr>Root := R1\<rparr>) h1 6 = Some (Some 30) \<and>
    OrderedCollectionDelete True (demo_tree\<lparr>Root := R1\<rparr>) h1 30 = Some (6, demo_tree\<lparr>Root := R2\<rparr>, h2) \<and>
    collection (demo_tree\<lparr>Root := R2\<rparr>) h2 [(10, 5), (20, 7)] \<and>
    (\<forall>a. a \<notin> fst ` set [(10, 5 :: int), (20, 7)] \<longrightarrow> h2 a = demo_heap a)"
    by (rule insert_find_delete[OF demo_collection])
      (use demo_order in \<open>simp_all add: demo_heap_def key_consistent_def\<close>)
  then show ?thesis by blast
qed

subsection \<open>Iteration and validation\<close>

text \<open>C37: OrderedCollectionMin and OrderedCollectionNext visit the items in ascending order,
  OrderedCollectionMax and OrderedCollectionPrev in descending order, and both end with NULL.
\<close>

theorem iteration_in_order:
  assumes "collection Tree h its"
  shows "OrderedCollectionMin Tree h = Some (if its = [] then None else Some (fst (its ! 0))) \<and>
    OrderedCollectionMax Tree h = Some (if its = [] then None else Some (fst (its ! (length its - 1)))) \<and>
    (\<forall>i < length its.
       OrderedCollectionNext h (Some (fst (its ! i))) =
         Some (if Suc i < length its then Some (fst (its ! Suc i)) else None) \<and>
       OrderedCollectionPrev h (Some (fst (its ! i))) =
         Some (if 0 < i then Some (fst (its ! (i - 1))) else None))"
proof -
  obtain T where T: "St h h (Root Tree) T" "red_black T" "items T = its" using assms by (rule collectionE)
  have r: "rep h None T" "apart T" "Root Tree = root_of T" using T(1) by (simp_all add: St_def)
  have "first_node its = (if its = [] then None else Some (fst (its ! 0)))"
    "first_node (rev its) = (if its = [] then None else Some (fst (its ! (length its - 1))))"
    by (simp_all add: first_node_nth rev_nth)
  moreover have "OrderedCollectionNext h (Some (fst (its ! i))) =
         Some (if Suc i < length its then Some (fst (its ! Suc i)) else None) \<and>
       OrderedCollectionPrev h (Some (fst (its ! i))) =
         Some (if 0 < i then Some (fst (its ! (i - 1))) else None)" if "i < length its" for i
  proof -
    obtain x u where xu: "its ! i = (x, u)" by (cases "its ! i")
    have "items T = take i its @ (x, u) # drop (Suc i) its" using id_take_nth_drop[OF that] T(3) xu by simp
    from Next_rep[OF r(1,2) this] Prev_rep[OF r(1,2) this] show ?thesis
      using that xu by (simp add: first_node_nth rev_nth min_def)
  qed
  ultimately show ?thesis using Min_rep[OF r(1,3)] Max_rep[OF r(1,3)] T(3) by auto
qed

theorem iteration_in_order_witness:
  "OrderedCollectionMin demo_tree demo_heap = Some (Some 10) \<and>
   OrderedCollectionNext demo_heap (Some 10) = Some (Some 20) \<and>
   OrderedCollectionNext demo_heap (Some 20) = Some None"
  using iteration_in_order[OF demo_collection] by (simp add: All_less_Suc2)

text \<open>C36: on any binary tree of fewer than 2^32 - 1 nodes with consistent parent pointers,
  RedBlackTreeValidate runs through without a fired ASSERT exactly when the tree has the five
  red-black properties and its user structures are in strictly ascending order.
\<close>

theorem RedBlackTreeValidate_exact:
  assumes "rep h None T" "apart T" "Root Tree = root_of T" "total_order (UserStructCompare Tree)"
    "length (items T) < 2 ^ 32 - 1"
  shows "RedBlackTreeValidate Tree h = Some () \<longleftrightarrow>
    red_black T \<and> ascending (UserStructCompare Tree) (items T)"
  using RedBlackTreeValidate_rep[OF assms] by simp

theorem RedBlackTreeValidate_exact_witness:
  "RedBlackTreeValidate demo_tree demo_heap = Some () \<and>
   RedBlackTreeValidate demo_tree (demo_heap(20 \<mapsto> \<lparr>UserStruct = 7, Parent = Some 10, Left = None, Right = None, Color = Black\<rparr>)) \<noteq> Some ()"
  using RedBlackTreeValidate_exact[OF demo_rep, of demo_tree]
    RedBlackTreeValidate_exact[of "demo_heap(20 \<mapsto> \<lparr>UserStruct = 7, Parent = Some 10, Left = None, Right = None, Color = Black\<rparr>)"
      "Br Tip (10, Black, 5) (Br Tip (20, Black, 7) Tip)" demo_tree] demo_order
  by (simp add: demo_heap_def red_black_def ascending_def)

subsection \<open>Every collection a client can build\<close>

text \<open>
  A client creates a collection, inserts user structures with memory that is free (or none) and
  deletes nodes of the collection.
\<close>

inductive client :: "bool \<Rightarrow> ('u \<Rightarrow> 'u \<Rightarrow> int) \<Rightarrow> ('k \<Rightarrow> 'u \<Rightarrow> int) \<Rightarrow> ('u, 'k) rb_tree \<Rightarrow> 'u rb_heap \<Rightarrow> bool"
  for pcd ucmp kcmp where
  init: "OrderedCollectionInit pcd True ucmp kcmp = Some (Some Tree) \<Longrightarrow> client pcd ucmp kcmp Tree Map.empty"
| insert: "client pcd ucmp kcmp Tree h \<Longrightarrow> card (dom h) < 2 ^ 32 - 2 \<Longrightarrow> (\<And>x. a = Some x \<Longrightarrow> h x = None) \<Longrightarrow>
    OrderedCollectionInsert pcd a Tree h User = Some (s, n, Tree', h') \<Longrightarrow> client pcd ucmp kcmp Tree' h'"
| delete: "client pcd ucmp kcmp Tree h \<Longrightarrow> h x \<noteq> None \<Longrightarrow>
    OrderedCollectionDelete pcd Tree h x = Some (u, Tree', h') \<Longrightarrow> client pcd ucmp kcmp Tree' h'"

lemma collection_dom:
  assumes "collection Tree h its" "\<forall>a. a \<notin> fst ` set its \<longrightarrow> h a = None"
  shows "dom h = fst ` set its" "card (dom h) = length its"
proof -
  obtain T where T: "St h h (Root Tree) T" "red_black T" "items T = its" using assms(1) by (rule collectionE)
  have "\<forall>(x, u) \<in> set its. h x \<noteq> None"
    using user_of[of h None T] T(1,3) by (fastforce simp: St_def)
  then show d: "dom h = fst ` set its" using assms(2) by force
  have "distinct (map fst its)" using T(1,3) apart_distinct St_apart by metis
  then show "card (dom h) = length its" using d by (metis distinct_card length_map set_map)
qed

definition held :: "('u \<Rightarrow> 'u \<Rightarrow> int) \<Rightarrow> ('u, 'k) rb_tree \<Rightarrow> 'u rb_heap \<Rightarrow> bool" where
  "held ucmp Tree h \<longleftrightarrow> UserStructCompare Tree = ucmp \<and>
     (\<exists>its. collection Tree h its \<and> fst ` set its = dom h \<and> length its < 2 ^ 32 - 1)"

lemma heldI:
  assumes "collection Tree h its" "\<forall>a. a \<notin> fst ` set its \<longrightarrow> h a = None" "length its < 2 ^ 32 - 1"
    "UserStructCompare Tree = ucmp"
  shows "held ucmp Tree h"
  using assms collection_dom(1)[OF assms(1,2)] by (auto simp: held_def)

lemma held_init:
  assumes "OrderedCollectionInit pcd True ucmp kcmp = Some (Some Tree)" "total_order ucmp"
  shows "held ucmp Tree Map.empty"
proof -
  have "validate_if pcd \<lparr>Root = None, UserStructCompare = ucmp, KeyCompare = kcmp\<rparr> Map.empty = Some ()"
    using validate_if_rep[of Map.empty Tip "\<lparr>Root = None, UserStructCompare = ucmp, KeyCompare = kcmp\<rparr>"] assms(2)
    by (simp add: red_black_def ascending_def)
  then have "Tree = \<lparr>Root = None, UserStructCompare = ucmp, KeyCompare = kcmp\<rparr>"
    using assms(1) by (simp add: OrderedCollectionInit_def Let_def)
  moreover have "collection \<lparr>Root = None, UserStructCompare = ucmp, KeyCompare = kcmp\<rparr> Map.empty []"
    unfolding collection_def by (intro conjI exI[of _ Tip]) (simp_all add: red_black_def ascending_def)
  ultimately show ?thesis by (intro heldI[of _ _ "[]"]) simp_all
qed

lemma held_insert:
  assumes h: "held ucmp Tree h" and o: "total_order ucmp" and card: "card (dom h) < 2 ^ 32 - 2"
    and a: "\<And>x. a = Some x \<Longrightarrow> h x = None"
  shows "\<exists>s n Tree' h'. OrderedCollectionInsert pcd a Tree h User = Some (s, n, Tree', h') \<and> held ucmp Tree' h'"
proof -
  obtain its where its: "collection Tree h its" "fst ` set its = dom h" "UserStructCompare Tree = ucmp"
    "length its < 2 ^ 32 - 1"
    using h by (auto simp: held_def)
  have ord: "total_order (UserStructCompare Tree)" using o its(3) by simp
  have off: "\<forall>b. b \<notin> fst ` set its \<longrightarrow> h b = None" using its(2) by auto
  have len: "length its < 2 ^ 32 - 2" using collection_dom(2)[OF its(1) off] card by simp
  let ?cmp = "UserStructCompare Tree User"
  consider (old) b where "matching ?cmp its = Some b"
    | (none) "\<forall>p \<in> set its. ?cmp (snd p) \<noteq> 0" "a = None"
    | (new) x where "\<forall>p \<in> set its. ?cmp (snd p) \<noteq> 0" "a = Some x" "h x = None"
    using a by (cases "find (\<lambda>p. ?cmp (snd p) = 0) its"; cases a) (fastforce simp: matching_def find_None_iff)+
  then show ?thesis
  proof cases
    case old
    then show ?thesis using Insert_old[OF its(1) ord its(4)] h by blast
  next
    case none
    then show ?thesis using Insert_no_memory[OF its(1) ord its(4)] h by blast
  next
    case new
    let ?pre = "filter (\<lambda>p. 0 < ?cmp (snd p)) its" and ?post = "filter (\<lambda>p. ?cmp (snd p) < 0) its"
    from Insert_new[OF its(1) ord len new(3,1), of pcd] obtain R k where
      k: "OrderedCollectionInsert pcd (Some x) Tree h User = Some (EFI_SUCCESS, Some x, Tree\<lparr>Root := R\<rparr>, k)"
      "collection (Tree\<lparr>Root := R\<rparr>) k (?pre @ (x, User) # ?post)" "\<forall>b. b \<notin> Set.insert x (fst ` set its) \<longrightarrow> k b = h b"
      by blast
    have parts: "?pre @ ?post = its"
      using guides_parts[OF ascending_guides[OF _ ord] new(1)] its(1) by (simp add: collection_def)
    have "length (?pre @ (x, User) # ?post) = Suc (length its)"
      "fst ` set (?pre @ (x, User) # ?post) = Set.insert x (fst ` set its)"
      using arg_cong[OF parts, of length] arg_cong[OF parts, of set] by auto
    then have "held ucmp (Tree\<lparr>Root := R\<rparr>) k"
      using k(3) len off its(3) by (intro heldI[OF k(2)]) simp_all
    then show ?thesis using k(1) new(2) by blast
  qed
qed

lemma held_delete:
  assumes h: "held ucmp Tree h" and o: "total_order ucmp" and x: "h x \<noteq> None"
  shows "\<exists>u Tree' h'. OrderedCollectionDelete pcd Tree h x = Some (u, Tree', h') \<and> held ucmp Tree' h'"
proof -
  obtain its where its: "collection Tree h its" "fst ` set its = dom h" "UserStructCompare Tree = ucmp"
    "length its < 2 ^ 32 - 1"
    using h by (auto simp: held_def)
  have "x \<in> fst ` set its" using its(2) x by auto
  then obtain v where "(x, v) \<in> set its" by auto
  then obtain pre post where sp: "its = pre @ (x, v) # post" by (meson split_list)
  have "length (pre @ post) < 2 ^ 32 - 1" using its(4) sp by simp
  with Delete_rb[of Tree h pre x v post pcd] its(1,3) o obtain R k where
    k: "OrderedCollectionDelete pcd Tree h x = Some (v, Tree\<lparr>Root := R\<rparr>, k)"
    "collection (Tree\<lparr>Root := R\<rparr>) k (pre @ post)" "k x = None"
    "\<forall>a. a \<notin> fst ` set (pre @ (x, v) # post) \<longrightarrow> k a = h a"
    unfolding sp by blast
  have "k a = None" if "a \<notin> fst ` set (pre @ post)" for a
  proof (cases "a = x")
    case False
    then have "a \<notin> fst ` set (pre @ (x, v) # post)" using that by auto
    then show ?thesis using k(4) its(2) unfolding sp by (metis domIff)
  qed (simp add: k(3))
  then have "held ucmp (Tree\<lparr>Root := R\<rparr>) k"
    using its(3,4) sp by (intro heldI[OF k(2)]) auto
  then show ?thesis using k(1) by blast
qed

lemma client_held: "client pcd ucmp kcmp Tree h \<Longrightarrow> total_order ucmp \<Longrightarrow> held ucmp Tree h"
proof (induction rule: client.induct)
  case (init Tree)
  then show ?case using held_init by blast
next
  case (insert Tree h a User s n Tree' h')
  then show ?case using held_insert[OF insert.IH[OF insert.prems] insert.prems insert.hyps(2), where a = a and pcd = pcd and User = User]
    by auto
next
  case (delete Tree h x u Tree' h')
  then show ?case using held_delete[OF delete.IH[OF delete.prems] delete.prems delete.hyps(2), where pcd = pcd] by auto
qed

text \<open>C14: whatever a client does, the heap holds exactly the nodes of one ascending red-black tree, and
  each further insertion or deletion returns: no ASSERT fires, no loop runs forever, no node leaks.
\<close>

theorem client_collection:
  assumes "client pcd ucmp kcmp Tree h" "total_order ucmp" "card (dom h) < 2 ^ 32 - 2"
  shows "(\<exists>its. collection Tree h its \<and> fst ` set its = dom h) \<and>
    (\<forall>a User. (\<forall>x. a = Some x \<longrightarrow> h x = None) \<longrightarrow> OrderedCollectionInsert pcd a Tree h User \<noteq> None) \<and>
    (\<forall>x. h x \<noteq> None \<longrightarrow> OrderedCollectionDelete pcd Tree h x \<noteq> None)"
proof (intro conjI allI impI)
  note held = client_held[OF assms(1,2)]
  show "\<exists>its. collection Tree h its \<and> fst ` set its = dom h" using held by (auto simp: held_def)
  show "OrderedCollectionInsert pcd a Tree h User \<noteq> None" if "\<forall>x. a = Some x \<longrightarrow> h x = None" for a User
    using held_insert[OF held assms(2,3), where a = a and pcd = pcd and User = User] that by auto
  show "OrderedCollectionDelete pcd Tree h x \<noteq> None" if "h x \<noteq> None" for x
    using held_delete[OF held assms(2) that, where pcd = pcd] by auto
qed

lemma demo_init:
  "OrderedCollectionInit False True (\<lambda>a b :: int. a - b) (\<lambda>a b :: int. a - b) =
    Some (Some \<lparr>Root = None, UserStructCompare = (\<lambda>a b. a - b), KeyCompare = (\<lambda>a b. a - b)\<rparr>)"
  by (simp add: OrderedCollectionInit_def validate_if_def Let_def)

theorem client_collection_witness:
  "OrderedCollectionInsert False (Some 10) \<lparr>Root = None, UserStructCompare = (\<lambda>a b. a - b), KeyCompare = (\<lambda>a b :: int. a - b)\<rparr>
     Map.empty (5 :: int) \<noteq> None"
  using client_collection[OF client.init[OF demo_init] demo_order] by simp

end
