(* ===== verification/Smm_Runs.thy ===== *)
theory Smm_Runs
  imports Main
begin

text \<open>
  Runs of pages of one type: what a list of runs says about each page, the lists in which no run is
  empty and no two neighbours could be one run, and putting a run into such a list.  Such a list is
  determined by what it says of the pages, which relates the two maps of the SMM page allocator.
\<close>

type_synonym 't run = "'t \<times> nat \<times> nat"

definition apart_runs :: "'t run \<Rightarrow> 't run \<Rightarrow> bool" where
  "apart_runs r q \<longleftrightarrow> snd (snd r) \<le> fst (snd q) \<and> (fst r = fst q \<longrightarrow> snd (snd r) < fst (snd q))"

definition canonical :: "'t run list \<Rightarrow> bool" where
  "canonical rs \<longleftrightarrow> (\<forall>r \<in> set rs. fst (snd r) < snd (snd r)) \<and> sorted_wrt apart_runs rs"

definition view :: "'t run list \<Rightarrow> nat \<Rightarrow> 't option" where
  "view rs p = map_option fst (find (\<lambda>r. fst (snd r) \<le> p \<and> p < snd (snd r)) rs)"

lemma apart_runs_simp [simp]: "apart_runs (t, l, h) (t', l', h') \<longleftrightarrow> h \<le> l' \<and> (t = t' \<longrightarrow> h < l')"
  by (simp add: apart_runs_def)

lemma canonical_Nil [simp]: "canonical []"
  by (simp add: canonical_def)

lemma canonical_Cons [simp]:
  "canonical (r # rs) \<longleftrightarrow> fst (snd r) < snd (snd r) \<and> (\<forall>q \<in> set rs. apart_runs r q) \<and> canonical rs"
  by (auto simp: canonical_def)

lemma canonical_append:
  "canonical (rs @ qs) \<longleftrightarrow> canonical rs \<and> canonical qs \<and> (\<forall>r \<in> set rs. \<forall>q \<in> set qs. apart_runs r q)"
  by (auto simp: canonical_def sorted_wrt_append)

lemma view_Nil [simp]: "view [] p = None"
  by (simp add: view_def)

lemma view_Cons [simp]: "view ((t, l, h) # rs) p = (if l \<le> p \<and> p < h then Some t else view rs p)"
  by (simp add: view_def)

lemma view_append: "view (rs @ qs) p = (case view rs p of None \<Rightarrow> view qs p | Some t \<Rightarrow> Some t)"
  by (induction rs) (auto simp: view_def)

lemma view_None_iff: "view rs p = None \<longleftrightarrow> (\<forall>(t, l, h) \<in> set rs. \<not> (l \<le> p \<and> p < h))"
proof (induction rs)
  case (Cons r rs)
  then show ?case by (cases r) auto
qed simp

lemma view_Some: "view rs p = Some t \<Longrightarrow> \<exists>l h. (t, l, h) \<in> set rs \<and> l \<le> p \<and> p < h"
proof (induction rs)
  case (Cons r rs)
  obtain t' l' h' where r: "r = (t', l', h')" by (cases r)
  show ?case
  proof (cases "l' \<le> p \<and> p < h'")
    case True
    then show ?thesis using Cons.prems r by auto
  next
    case False
    then have "view rs p = Some t" using Cons.prems unfolding r view_Cons by (simp only: if_False)
    then show ?thesis using Cons.IH by auto
  qed
qed simp

lemma view_at:
  assumes "canonical rs" "(t, l, h) \<in> set rs" "l \<le> p" "p < h"
  shows "view rs p = Some t"
  using assms by (induction rs) (fastforce simp: apart_runs_def)+

lemma view_from:
  assumes "\<forall>r \<in> set rs. b \<le> fst (snd r)" "p < b"
  shows "view rs p = None"
  using assms by (induction rs) auto

lemma view_upto:
  assumes "\<forall>r \<in> set rs. snd (snd r) \<le> b" "b \<le> p"
  shows "view rs p = None"
  using assms by (induction rs) auto

lemma canonical_from:
  assumes "canonical ((t, l, h) # rs)"
  shows "\<forall>r \<in> set rs. h \<le> fst (snd r)"
  using assms by (auto simp: apart_runs_def)

lemma view_end:
  assumes "canonical ((t, l, h) # rs)"
  shows "view rs h \<noteq> Some t"
proof
  assume "view rs h = Some t"
  then obtain a b where ab: "(t, a, b) \<in> set rs" "a \<le> h" using view_Some[of rs h t] by blast
  moreover have "apart_runs (t, l, h) (t, a, b)"
    using assms ab(1) unfolding canonical_Cons by blast
  ultimately show False by simp
qed

lemma canonical_unique:
  assumes "canonical rs" "canonical qs" "view rs = view qs"
  shows "rs = qs"
  using assms
proof (induction rs arbitrary: qs)
  case Nil
  show ?case
  proof (cases qs)
    case (Cons q qs')
    obtain t l h where q: "q = (t, l, h)" by (cases q)
    have "l < h" using Nil.prems(2) Cons q by simp
    moreover have "view qs l = view [] l" using fun_cong[OF Nil.prems(3), of l] by simp
    ultimately show ?thesis using Cons q by simp
  qed simp
next
  case (Cons r rs)
  obtain t l h where r: "r = (t, l, h)" by (cases r)
  have lh: "l < h" using Cons.prems(1) r by simp
  show ?case
  proof (cases qs)
    case Nil
    then show ?thesis using fun_cong[OF Cons.prems(3), of l] r lh by simp
  next
    case q': (Cons q qs')
    obtain t' l' h' where q: "q = (t', l', h')" by (cases q)
    have lh': "l' < h'" using Cons.prems(2) q' q by simp
    have v: "view ((t, l, h) # rs) p = view ((t', l', h') # qs') p" for p
      using fun_cong[OF Cons.prems(3), of p] r q q' by simp
    note c = Cons.prems(1)[unfolded r] Cons.prems(2)[unfolded q' q]
    have nl: "p < h \<Longrightarrow> view rs p = None" and nl': "p < h' \<Longrightarrow> view qs' p = None" for p
      using view_from[OF canonical_from[OF c(1)]] view_from[OF canonical_from[OF c(2)]] by auto
    have "l = l'"
      using v[of l] v[of l'] lh lh' nl[of l'] nl'[of l] by (auto split: if_splits)
    moreover from this have "t = t'" using v[of l] lh lh' by simp
    moreover have "h = h'"
    proof (rule ccontr)
      assume "h \<noteq> h'"
      then consider "h < h'" | "h' < h" by linarith
      then show False
        using v[of h] v[of h'] lh lh' \<open>l = l'\<close> \<open>t = t'\<close> view_end[OF c(1)] view_end[OF c(2)] by cases auto
    qed
    moreover have "view rs = view qs'"
    proof
      fix p
      show "view rs p = view qs' p"
        using v[of p] nl[of p] nl'[of p] \<open>l = l'\<close> \<open>h = h'\<close> by (cases "p < h") (auto split: if_splits)
    qed
    ultimately show ?thesis using Cons.IH[of qs'] c r q q' by simp
  qed
qed

lemma canonical_filter: "canonical rs \<Longrightarrow> canonical (filter P rs)"
  by (auto simp: canonical_def sorted_wrt_filter)

lemma view_filter:
  assumes "canonical rs"
  shows "view (filter (\<lambda>r. P (fst r)) rs) p = (case view rs p of None \<Rightarrow> None | Some t \<Rightarrow> if P t then Some t else None)"
  using assms
proof (induction rs)
  case (Cons r rs)
  obtain t l h where r: "r = (t, l, h)" by (cases r)
  have c: "\<forall>r \<in> set (filter (\<lambda>r. P (fst r)) rs). h \<le> fst (snd r)"
    using canonical_from[of t l h rs] Cons.prems unfolding r by simp
  have n: "p < h \<Longrightarrow> view (filter (\<lambda>r. P (fst r)) rs) p = None" by (rule view_from[OF c])
  have IH: "view (filter (\<lambda>r. P (fst r)) rs) p =
      (case view rs p of None \<Rightarrow> None | Some t \<Rightarrow> if P t then Some t else None)"
    using Cons by simp
  show ?case
  proof (cases "l \<le> p \<and> p < h")
    case True
    then show ?thesis using n by (simp add: r)
  next
    case False
    then show ?thesis using IH by (auto simp: r)
  qed
qed simp

text \<open>Putting a run between two lists, joined to its neighbours of the same type.\<close>

fun join_right :: "'t run \<Rightarrow> 't run list \<Rightarrow> 't run list" where
  "join_right (t, l, h) [] = [(t, l, h)]"
| "join_right (t, l, h) ((t', l', h') # rs) =
     (if t = t' \<and> h = l' then (t, l, h') # rs else (t, l, h) # (t', l', h') # rs)"

definition join_left :: "'t run list \<Rightarrow> 't run list \<Rightarrow> 't run list" where
  "join_left rs qs =
     (case (rev rs, qs) of
        ((t, l, h) # rs', (t', l', h') # qs') \<Rightarrow>
          if t = t' \<and> h = l' then rev rs' @ (t, l, h') # qs' else rs @ qs
      | _ \<Rightarrow> rs @ qs)"

lemma join_right_all:
  assumes "canonical rs" "l < h" "\<forall>r \<in> set rs. h \<le> fst (snd r)"
  shows "canonical (join_right (t, l, h) rs) \<and>
    view (join_right (t, l, h) rs) p = (if l \<le> p \<and> p < h then Some t else view rs p) \<and>
    (\<exists>h' rs'. join_right (t, l, h) rs = (t, l, h') # rs')"
proof (cases rs)
  case Nil
  then show ?thesis using assms by simp
next
  case (Cons q qs)
  obtain t' l' h' where q: "q = (t', l', h')" by (cases q)
  have lq: "l' < h'" "h \<le> l'" "canonical qs" using assms Cons q by auto
  have m: "\<forall>r \<in> set qs. h' \<le> fst (snd r)" using canonical_from assms(1) unfolding Cons q .
  show ?thesis
  proof (cases "t = t' \<and> h = l'")
    case True
    then show ?thesis using assms Cons q lq by (auto simp: apart_runs_def)
  next
    case False
    have "apart_runs (t, l, h) r" if "r \<in> set qs" for r
      using m that lq by (cases r) fastforce
    then show ?thesis using assms Cons q lq False by auto
  qed
qed

lemma join_right_canonical:
  assumes "canonical rs" "l < h" "\<forall>r \<in> set rs. h \<le> fst (snd r)"
  shows "canonical (join_right (t, l, h) rs)"
    "view (join_right (t, l, h) rs) p = (if l \<le> p \<and> p < h then Some t else view rs p)"
    "\<exists>h' rs'. join_right (t, l, h) rs = (t, l, h') # rs'"
  using join_right_all[OF assms] by blast+

lemma join_left_canonical:
  assumes "canonical rs" "canonical ((t, l, h) # qs)" "\<forall>r \<in> set rs. snd (snd r) \<le> l"
  shows "canonical (join_left rs ((t, l, h) # qs))"
    "view (join_left rs ((t, l, h) # qs)) p = view (rs @ (t, l, h) # qs) p"
proof -
  have "canonical (join_left rs ((t, l, h) # qs)) \<and>
    view (join_left rs ((t, l, h) # qs)) p = view (rs @ (t, l, h) # qs) p"
  proof (cases rs rule: rev_cases)
    case (snoc rs' r)
    obtain t' l' h' where r: "r = (t', l', h')" by (cases r)
    have c: "canonical rs'" "l' < h'" "\<forall>r \<in> set rs'. apart_runs r (t', l', h')" "h' \<le> l"
      using assms snoc r by (auto simp: canonical_append)
    have lh: "l < h" "canonical qs" "\<forall>q \<in> set qs. apart_runs (t, l, h) q" using assms(2) by auto
    show ?thesis
    proof (cases "t' = t \<and> h' = l")
      case True
      have "canonical (rs' @ (t', l', h) # qs)"
        unfolding canonical_append using c lh True by (fastforce simp: apart_runs_def)
      moreover have "view (rs' @ (t', l', h) # qs) p = view (rs @ (t, l, h) # qs) p"
        using True c(2) lh(1) by (auto simp: snoc r view_append split: option.splits)
      ultimately show ?thesis using True by (simp add: join_left_def snoc r)
    next
      case False
      have "apart_runs q' q" if "q' \<in> set rs" "q \<in> set ((t, l, h) # qs)" for q' q
        using that snoc r False c lh by (fastforce simp: apart_runs_def)
      then have "canonical (rs @ (t, l, h) # qs)" using assms(1,2) unfolding canonical_append by blast
      then show ?thesis using False by (auto simp: join_left_def snoc r)
    qed
  qed (use assms in \<open>simp add: join_left_def\<close>)
  then show "canonical (join_left rs ((t, l, h) # qs))"
    "view (join_left rs ((t, l, h) # qs)) p = view (rs @ (t, l, h) # qs) p" by blast+
qed

definition place_run :: "'t run list \<Rightarrow> 't run \<Rightarrow> 't run list \<Rightarrow> 't run list" where
  "place_run rs r qs = join_left rs (join_right r qs)"

lemma place_run_canonical:
  assumes "canonical rs" "canonical qs" "l < h" "\<forall>r \<in> set rs. snd (snd r) \<le> l" "\<forall>r \<in> set qs. h \<le> fst (snd r)"
  shows "canonical (place_run rs (t, l, h) qs)"
    "view (place_run rs (t, l, h) qs) p = (if l \<le> p \<and> p < h then Some t else view (rs @ qs) p)"
proof -
  obtain h' qs' where j: "join_right (t, l, h) qs = (t, l, h') # qs'"
    using join_right_canonical(3)[OF assms(2,3,5)] by blast
  have c: "canonical ((t, l, h') # qs')" using join_right_canonical(1)[OF assms(2,3,5), of t] j by simp
  show "canonical (place_run rs (t, l, h) qs)"
    unfolding place_run_def j using join_left_canonical(1)[OF assms(1) c assms(4)] .
  have "view rs p = None" if "l \<le> p" using view_upto[OF assms(4) that] .
  then show "view (place_run rs (t, l, h) qs) p = (if l \<le> p \<and> p < h then Some t else view (rs @ qs) p)"
    unfolding place_run_def j using join_left_canonical(2)[OF assms(1) c assms(4), of p]
      join_right_canonical(2)[OF assms(2,3,5), of t p] j
    by (auto simp: view_append split: option.splits)
qed

text \<open>A part of a run, and taking pages out of a run.\<close>

definition piece :: "'t run \<Rightarrow> 't run list" where
  "piece r = (if fst (snd r) < snd (snd r) then [r] else [])"

lemma piece_simps [simp]:
  "l < h \<Longrightarrow> piece (t, l, h) = [(t, l, h)]"
  "\<not> l < h \<Longrightarrow> piece (t, l, h) = []"
  by (simp_all add: piece_def)

lemma canonical_pieces:
  assumes "canonical (rs @ (t, l, h) # qs)" "l \<le> a" "a < b" "b \<le> h"
  shows "canonical (rs @ piece (t, l, a))" "canonical (piece (t, b, h) @ qs)"
proof -
  have c: "canonical rs" "canonical qs" "\<forall>r \<in> set rs. apart_runs r (t, l, h)" "\<forall>q \<in> set qs. apart_runs (t, l, h) q"
    using assms(1) by (auto simp: canonical_append)
  have "\<forall>r \<in> set rs. apart_runs r (t, l, a)" using c(3) by (auto simp: apart_runs_def)
  then show "canonical (rs @ piece (t, l, a))" using c(1) by (cases "l < a") (simp_all add: canonical_append)
  have "\<forall>q \<in> set qs. apart_runs (t, b, h) q" using c(4) by (auto simp: apart_runs_def)
  then show "canonical (piece (t, b, h) @ qs)" using c(2) by (cases "b < h") simp_all
qed

lemma canonical_cut:
  assumes "canonical (rs @ (t, l, h) # qs)" "l \<le> a" "a < b" "b \<le> h"
  shows "canonical (rs @ piece (t, l, a) @ piece (t, b, h) @ qs)"
    "view (rs @ piece (t, l, a) @ piece (t, b, h) @ qs) p =
      (if a \<le> p \<and> p < b then None else view (rs @ (t, l, h) # qs) p)"
proof -
  note P = canonical_pieces[OF assms]
  have c: "\<forall>r \<in> set rs. apart_runs r (t, l, h)" "\<forall>q \<in> set qs. apart_runs (t, l, h) q"
      "\<forall>r \<in> set rs. \<forall>q \<in> set qs. apart_runs r q"
    using assms(1) by (auto simp: canonical_append)
  have "apart_runs r q" if r: "r \<in> set (rs @ piece (t, l, a))" and q: "q \<in> set (piece (t, b, h) @ qs)" for r q
  proof -
    obtain rt rl rh qt ql qh where e: "r = (rt, rl, rh)" "q = (qt, ql, qh)" by (cases r, cases q)
    have "r \<in> set rs \<or> r = (t, l, a)" "q \<in> set qs \<or> q = (t, b, h)"
      using r q by (auto simp: piece_def split: if_splits)
    then show ?thesis using c assms(2-4) unfolding e by fastforce
  qed
  then show "canonical (rs @ piece (t, l, a) @ piece (t, b, h) @ qs)"
    using P canonical_append[of "rs @ piece (t, l, a)" "piece (t, b, h) @ qs"] by auto
  have rs: "view rs p = None" if "l \<le> p" using view_upto[of rs l p] c(1) that by (auto simp: apart_runs_def)
  have qs: "view qs p = None" if "p < h" using view_from[of qs h p] c(2) that by (auto simp: apart_runs_def)
  show "view (rs @ piece (t, l, a) @ piece (t, b, h) @ qs) p =
      (if a \<le> p \<and> p < b then None else view (rs @ (t, l, h) # qs) p)"
    using rs qs assms(2-4) by (auto simp: view_append piece_def split: option.splits)
qed

text \<open>All pages from a to b are of the type t: then they are in one run.\<close>

definition covers :: "'t run list \<Rightarrow> 't \<Rightarrow> nat \<Rightarrow> nat \<Rightarrow> bool" where
  "covers rs t a b \<longleftrightarrow> (\<forall>p \<in> {a..<b}. view rs p = Some t)"

lemma canonical_pair:
  assumes "canonical rs" "r \<in> set rs" "q \<in> set rs"
  shows "r = q \<or> apart_runs r q \<or> apart_runs q r"
  using assms by (induction rs) auto

lemma covers_run:
  assumes "canonical rs" "a < b"
  shows "covers rs t a b \<longleftrightarrow> (\<exists>l h. (t, l, h) \<in> set rs \<and> l \<le> a \<and> b \<le> h)"
proof
  assume c: "covers rs t a b"
  then have "view rs a = Some t" using assms(2) by (simp add: covers_def)
  then obtain l h where r: "(t, l, h) \<in> set rs" "l \<le> a" "a < h" using view_Some by metis
  have "b \<le> h"
  proof (rule ccontr)
    assume "\<not> b \<le> h"
    then have "view rs h = Some t" using c r(3) by (simp add: covers_def)
    then obtain l' h' where q: "(t, l', h') \<in> set rs" "l' \<le> h" "h < h'" using view_Some by metis
    then show False using canonical_pair[OF assms(1) r(1) q(1)] r by auto
  qed
  then show "\<exists>l h. (t, l, h) \<in> set rs \<and> l \<le> a \<and> b \<le> h" using r by blast
next
  assume "\<exists>l h. (t, l, h) \<in> set rs \<and> l \<le> a \<and> b \<le> h"
  then show "covers rs t a b" using view_at[OF assms(1)] unfolding covers_def by fastforce
qed

text \<open>A range that has a page in a list of runs.\<close>

definition meets :: "'t run list \<Rightarrow> nat \<Rightarrow> nat \<Rightarrow> bool" where
  "meets rs a b \<longleftrightarrow> (\<exists>p \<in> {a..<b}. view rs p \<noteq> None)"

lemma meets_iff:
  assumes "canonical rs" "a < b"
  shows "meets rs a b \<longleftrightarrow> (\<exists>r \<in> set rs. fst (snd r) < b \<and> a < snd (snd r))"
proof
  assume "meets rs a b"
  then obtain p t where p: "a \<le> p" "p < b" "view rs p = Some t" by (auto simp: meets_def)
  obtain l h where "(t, l, h) \<in> set rs" "l \<le> p" "p < h" using view_Some[OF p(3)] by blast
  then show "\<exists>r \<in> set rs. fst (snd r) < b \<and> a < snd (snd r)" using p by (intro bexI[of _ "(t, l, h)"]) auto
next
  assume "\<exists>r \<in> set rs. fst (snd r) < b \<and> a < snd (snd r)"
  then obtain t l h where r: "(t, l, h) \<in> set rs" "l < b" "a < h" by force
  have "l < h" using assms(1) r(1) by (force simp: canonical_def)
  then have "view rs (max a l) = Some t" "max a l < b" using view_at[OF assms(1) r(1)] r assms(2) by auto
  then show "meets rs a b" unfolding meets_def by (intro bexI[of _ "max a l"]) auto
qed

lemma canonical_last: "canonical rs \<Longrightarrow> r \<in> set rs \<Longrightarrow> snd (snd r) \<le> snd (snd (last rs))"
  by (induction rs rule: rev_induct) (fastforce simp: canonical_append apart_runs_def)+

lemma canonical_hd: "canonical rs \<Longrightarrow> r \<in> set rs \<Longrightarrow> fst (snd (hd rs)) \<le> fst (snd r)"
  by (cases rs) (fastforce simp: apart_runs_def)+

end
