(* ===== verification/Smm_Page.thy ===== *)
theory Smm_Page
  imports Efi_Prelude
begin

text \<open>
  The page allocator of the SMM core, MdeModulePkg/Core/PiSmmCore/Page.c.

  mSmmMemoryMap is the ring of the free page nodes: a node lives in the first of its free pages, so
  it is its address with its NumberOfPages.  gMemoryMap is the ring of MEMORY_MAP descriptors; a
  descriptor is a slot of the array mMapStack or an entry of a page that was allocated for
  descriptors.  linked i is whether the ForwardLink of slot i is not NULL; its use while the slot is
  not in the ring (RemoveEntryList leaves the links as they are) is None, as is a fired ASSERT, the
  insertion of a node into itself, and a loop that does not end.  UINTN and the addresses are words
  of 64 bits, RUNTIME_PAGE_ALLOCATION_GRANULARITY is the 4 KB of X64.
\<close>

unbundle bit_operations_syntax

datatype efi_memory_type =
    EfiReservedMemoryType | EfiLoaderCode | EfiLoaderData | EfiBootServicesCode
  | EfiBootServicesData | EfiRuntimeServicesCode | EfiRuntimeServicesData
  | EfiConventionalMemory | EfiUnusableMemory | EfiACPIReclaimMemory | EfiACPIMemoryNVS
  | EfiMemoryMappedIO | EfiMemoryMappedIOPortSpace | EfiPalCode | EfiPersistentMemory
  | EfiMaxMemoryType

datatype efi_allocate_type = AllocateAnyPages | AllocateMaxAddress | AllocateAddress | MaxAllocateType

datatype map_ptr = OnStack nat | OnHeap u64 nat

record memory_map =
  FromStack :: bool
  Type :: efi_memory_type
  Start :: u64
  End :: u64

type_synonym free_node = "u64 \<times> u64"

record page_state =
  mSmmMemoryMap :: "free_node list"
  gMemoryMap :: "map_ptr list"
  maps :: "map_ptr \<Rightarrow> memory_map"
  mMapDepth :: nat
  linked :: "nat \<Rightarrow> bool"
  mFreeMapStack :: nat
  mFreeMemoryMapEntryList :: "map_ptr list"

text \<open>EFI_PAGES_TO_SIZE, TRUNCATE_TO_PAGES and EFI_PAGE_MASK, with sizeof (MEMORY_MAP) = 48.\<close>

definition EFI_PAGES_TO_SIZE :: "u64 \<Rightarrow> u64" where
  "EFI_PAGES_TO_SIZE n = push_bit 12 n"

definition TRUNCATE_TO_PAGES :: "u64 \<Rightarrow> u64" where
  "TRUNCATE_TO_PAGES a = drop_bit 12 a"

definition EFI_PAGE_MASK :: u64 where
  "EFI_PAGE_MASK = 0xFFF"

definition MAX_MAP_DEPTH :: nat where
  "MAX_MAP_DEPTH = 6"

definition descriptors_per_page :: nat where
  "descriptors_per_page = 0x1000 div 48"

text \<open>Neighbours in a ring; None is the head of the ring.\<close>

definition next_in :: "'a \<Rightarrow> 'a list \<Rightarrow> 'a option" where
  "next_in p ring = (case dropWhile (\<lambda>q. q \<noteq> p) ring of _ # q # _ \<Rightarrow> Some q | _ \<Rightarrow> None)"

definition insert_before :: "'a \<Rightarrow> 'a \<Rightarrow> 'a list \<Rightarrow> 'a list" where
  "insert_before q p ring = takeWhile (\<lambda>r. r \<noteq> q) ring @ p # dropWhile (\<lambda>r. r \<noteq> q) ring"

definition insert_after :: "'a \<Rightarrow> 'a \<Rightarrow> 'a list \<Rightarrow> 'a list" where
  "insert_after q p ring = takeWhile (\<lambda>r. r \<noteq> q) ring @ q # p # tl (dropWhile (\<lambda>r. r \<noteq> q) ring)"

subsection \<open>Descriptors\<close>

text \<open>Link is a descriptor of the ring or None, its head (before which is the end of the ring).\<close>

definition InsertNewEntry ::
  "map_ptr option \<Rightarrow> u64 \<Rightarrow> u64 \<Rightarrow> efi_memory_type \<Rightarrow> bool \<Rightarrow> page_state \<Rightarrow> page_state option" where
  "InsertNewEntry Link Start' End' Type' Next s = do {
     let d = mMapDepth s;
     let p = OnStack d;
     ASSERT (d + 1 < MAX_MAP_DEPTH);
     Some (s\<lparr>mMapDepth := d + 1,
       maps := (maps s)(p := \<lparr>FromStack = True, Type = Type', Start = Start', End = End'\<rparr>),
       linked := (linked s)(d := True),
       gMemoryMap := (case Link of
           None \<Rightarrow> (if Next then p # gMemoryMap s else gMemoryMap s @ [p])
         | Some q \<Rightarrow> (if Next then insert_after q p (gMemoryMap s) else insert_before q p (gMemoryMap s)))\<rparr>)
   }"

definition RemoveOldEntry :: "map_ptr \<Rightarrow> page_state \<Rightarrow> page_state" where
  "RemoveOldEntry p s = s\<lparr>gMemoryMap := remove1 p (gMemoryMap s),
     mFreeMemoryMapEntryList :=
       (if FromStack (maps s p) then mFreeMemoryMapEntryList s else mFreeMemoryMapEntryList s @ [p])\<rparr>"

text \<open>The two checks of the neighbours of an updated entry.\<close>

definition merge_next :: "map_ptr \<Rightarrow> page_state \<Rightarrow> page_state" where
  "merge_next p s =
     (case next_in p (gMemoryMap s) of
        None \<Rightarrow> s
      | Some q \<Rightarrow>
          if Type (maps s p) = Type (maps s q) \<and> End (maps s p) + 1 = Start (maps s q)
          then RemoveOldEntry q (s\<lparr>maps := (maps s)(p := (maps s p)\<lparr>End := End (maps s q)\<rparr>)\<rparr>)
          else s)"

definition merge_previous :: "map_ptr \<Rightarrow> page_state \<Rightarrow> page_state" where
  "merge_previous p s =
     (case next_in p (rev (gMemoryMap s)) of
        None \<Rightarrow> s
      | Some q \<Rightarrow>
          if Type (maps s q) = Type (maps s p) \<and> End (maps s q) + 1 = Start (maps s p)
          then RemoveOldEntry p (s\<lparr>maps := (maps s)(q := (maps s q)\<lparr>End := End (maps s p)\<rparr>)\<rparr>)
          else s)"

text \<open>The branch of ConvertSmmMemoryMapEntry for an entry p of another type that covers the range.\<close>

definition convert_inside ::
  "efi_memory_type \<Rightarrow> u64 \<Rightarrow> u64 \<Rightarrow> map_ptr \<Rightarrow> page_state \<Rightarrow> page_state option" where
  "convert_inside Type' Start' End' p s = do {
     s \<leftarrow> (if Start (maps s p) < Start'
           then InsertNewEntry (Some p) (Start (maps s p)) (Start' - 1) (Type (maps s p)) False s else Some s);
     s \<leftarrow> (if End (maps s p) > End'
           then InsertNewEntry (Some p) (End' + 1) (End (maps s p)) (Type (maps s p)) True s else Some s);
     let s = s\<lparr>maps := (maps s)(p := (maps s p)\<lparr>Type := Type', Start := Start', End := End'\<rparr>)\<rparr>;
     Some (merge_previous p (merge_next p s))
   }"

text \<open>The loop; None when it goes through the ring without a return.\<close>

fun convert_loop ::
  "efi_memory_type \<Rightarrow> u64 \<Rightarrow> u64 \<Rightarrow> map_ptr list \<Rightarrow> page_state \<Rightarrow> page_state option option" where
  "convert_loop Type' Start' End' [] s = None"
| "convert_loop Type' Start' End' (p # ps) s =
     (if Start (maps s p) > End' then
        Some (if Start (maps s p) = End' + 1 \<and> Type (maps s p) = Type'
              then Some (s\<lparr>maps := (maps s)(p := (maps s p)\<lparr>Start := Start'\<rparr>)\<rparr>)
              else InsertNewEntry (Some p) Start' End' Type' False s)
      else if Start (maps s p) \<le> Start' \<and> End (maps s p) \<ge> End' then
        Some (if Type (maps s p) \<noteq> Type' then convert_inside Type' Start' End' p s else Some s)
      else convert_loop Type' Start' End' ps s)"

definition ConvertSmmMemoryMapEntry ::
  "efi_memory_type \<Rightarrow> u64 \<Rightarrow> u64 \<Rightarrow> page_state \<Rightarrow> page_state option" where
  "ConvertSmmMemoryMapEntry Type' Memory NumberOfPages s =
     (let Start' = Memory; End' = Memory + EFI_PAGES_TO_SIZE NumberOfPages - 1 in
      case convert_loop Type' Start' End' (gMemoryMap s) s of
        Some r \<Rightarrow> r
      | None \<Rightarrow>
          (case rev (gMemoryMap s) of
             p # _ \<Rightarrow>
               if End (maps s p) + 1 = Start' \<and> Type (maps s p) = Type'
               then Some (s\<lparr>maps := (maps s)(p := (maps s p)\<lparr>End := End'\<rparr>)\<rparr>)
               else InsertNewEntry None Start' End' Type' False s
           | [] \<Rightarrow> InsertNewEntry None Start' End' Type' False s))"

definition GetSmmMemoryMapEntryCount :: "page_state \<Rightarrow> nat" where
  "GetSmmMemoryMapEntryCount s = length (gMemoryMap s)"

definition SmmMemoryMapConsistencyCheckRange :: "u64 \<Rightarrow> u64 \<Rightarrow> page_state \<Rightarrow> bool" where
  "SmmMemoryMapConsistencyCheckRange Base Length s \<longleftrightarrow>
     (\<exists>p \<in> set (gMemoryMap s). Type (maps s p) = EfiConventionalMemory \<and>
        Start (maps s p) = Base \<and> End (maps s p) = Base + Length - 1)"

definition SmmMemoryMapConsistencyCheck :: "page_state \<Rightarrow> unit option" where
  "SmmMemoryMapConsistencyCheck s =
     ASSERT (\<forall>(Pages, n) \<in> set (mSmmMemoryMap s). SmmMemoryMapConsistencyCheckRange Pages (EFI_PAGES_TO_SIZE n) s)"

subsection \<open>Free pages\<close>

text \<open>The nodes that take the place of a node, and the address of the allocated pages.\<close>

definition InternalAllocPagesOnOneNode ::
  "free_node \<Rightarrow> u64 \<Rightarrow> u64 \<Rightarrow> (free_node list \<times> u64) option" where
  "InternalAllocPagesOnOneNode node NumberOfPages MaxAddress = do {
     let (Pages, k) = node;
     let Top = TRUNCATE_TO_PAGES (MaxAddress + 1 - Pages);
     let Top = (if Top > k then k else Top);
     let Bottom = Top - NumberOfPages;
     ASSERT (\<not> (Top < k \<and> Top = 0));
     let upper = (if Top < k then [(Pages + EFI_PAGES_TO_SIZE Top, k - Top)] else []);
     let lower = (if Bottom > 0 then [(Pages, Bottom)] else []);
     Some (lower @ upper, Pages + EFI_PAGES_TO_SIZE Bottom)
   }"

text \<open>The loops run from the end of the ring: the nodes before the current one, in reverse, and those
  after it.\<close>

fun alloc_max_loop ::
  "u64 \<Rightarrow> u64 \<Rightarrow> free_node list \<Rightarrow> free_node list \<Rightarrow> (u64 \<times> free_node list) option" where
  "alloc_max_loop NumberOfPages MaxAddress [] rest = Some (- 1, rest)"
| "alloc_max_loop NumberOfPages MaxAddress ((Pages, k) # below) rest =
     (if k \<ge> NumberOfPages \<and> Pages + EFI_PAGES_TO_SIZE NumberOfPages - 1 \<le> MaxAddress then do {
        (nodes, a) \<leftarrow> InternalAllocPagesOnOneNode (Pages, k) NumberOfPages MaxAddress;
        Some (a, rev below @ nodes @ rest)
      }
      else alloc_max_loop NumberOfPages MaxAddress below ((Pages, k) # rest))"

definition InternalAllocMaxAddress :: "free_node list \<Rightarrow> u64 \<Rightarrow> u64 \<Rightarrow> (u64 \<times> free_node list) option" where
  "InternalAllocMaxAddress ring NumberOfPages MaxAddress = alloc_max_loop NumberOfPages MaxAddress (rev ring) []"

fun alloc_address_loop ::
  "u64 \<Rightarrow> u64 \<Rightarrow> u64 \<Rightarrow> free_node list \<Rightarrow> free_node list \<Rightarrow> (u64 \<times> free_node list) option" where
  "alloc_address_loop NumberOfPages Address EndAddress [] rest = Some (NOT Address, rest)"
| "alloc_address_loop NumberOfPages Address EndAddress ((Pages, k) # below) rest =
     (if Pages \<le> Address then
        (if Pages + EFI_PAGES_TO_SIZE k < EndAddress then Some (NOT Address, rev below @ (Pages, k) # rest)
         else do {
           (nodes, a) \<leftarrow> InternalAllocPagesOnOneNode (Pages, k) NumberOfPages EndAddress;
           Some (a, rev below @ nodes @ rest)
         })
      else alloc_address_loop NumberOfPages Address EndAddress below ((Pages, k) # rest))"

definition InternalAllocAddress :: "free_node list \<Rightarrow> u64 \<Rightarrow> u64 \<Rightarrow> (u64 \<times> free_node list) option" where
  "InternalAllocAddress ring NumberOfPages Address =
     (if Address AND EFI_PAGE_MASK \<noteq> 0 then Some (NOT Address, ring)
      else alloc_address_loop NumberOfPages Address (Address + EFI_PAGES_TO_SIZE NumberOfPages) (rev ring) [])"

text \<open>The part of SmmInternalAllocatePagesEx without the release of the stack (AddRegion): the
  status and what *Memory is set to.\<close>

definition allocate_pages ::
  "efi_allocate_type \<Rightarrow> efi_memory_type \<Rightarrow> u64 \<Rightarrow> u64 \<Rightarrow> page_state \<Rightarrow> (efi_status \<times> u64 \<times> page_state) option" where
  "allocate_pages Type' MemoryType NumberOfPages Memory s =
     (if MemoryType \<noteq> EfiRuntimeServicesCode \<and> MemoryType \<noteq> EfiRuntimeServicesData
      then Some (EFI_INVALID_PARAMETER, Memory, s)
      else if NumberOfPages > TRUNCATE_TO_PAGES (- 1) + 1 then Some (EFI_OUT_OF_RESOURCES, Memory, s)
      else
        (case Type' of
           MaxAllocateType \<Rightarrow> Some (EFI_INVALID_PARAMETER, Memory, s)
         | AllocateAddress \<Rightarrow> do {
             (a, ring) \<leftarrow> InternalAllocAddress (mSmmMemoryMap s) NumberOfPages Memory;
             if a \<noteq> Memory then Some (EFI_NOT_FOUND, a, s\<lparr>mSmmMemoryMap := ring\<rparr>)
             else do {
               s \<leftarrow> ConvertSmmMemoryMapEntry MemoryType a NumberOfPages (s\<lparr>mSmmMemoryMap := ring\<rparr>);
               Some (EFI_SUCCESS, a, s)
             }
           }
         | _ \<Rightarrow> do {
             (a, ring) \<leftarrow> InternalAllocMaxAddress (mSmmMemoryMap s) NumberOfPages
               (if Type' = AllocateAnyPages then - 1 else Memory);
             if a = - 1 then Some (EFI_OUT_OF_RESOURCES, a, s\<lparr>mSmmMemoryMap := ring\<rparr>)
             else do {
               s \<leftarrow> ConvertSmmMemoryMapEntry MemoryType a NumberOfPages (s\<lparr>mSmmMemoryMap := ring\<rparr>);
               Some (EFI_SUCCESS, a, s)
             }
           }))"

text \<open>The result is the entry; a failed allocation of a page for descriptors fires the ASSERT.\<close>

definition AllocateMemoryMapEntry :: "page_state \<Rightarrow> (map_ptr \<times> page_state) option" where
  "AllocateMemoryMapEntry s = do {
     s \<leftarrow> (if mFreeMemoryMapEntryList s = [] then do {
             (Status, Mem, s) \<leftarrow> allocate_pages AllocateAnyPages EfiRuntimeServicesData 1 0 s;
             ASSERT (\<not> EFI_ERROR Status);
             Some (s\<lparr>mFreeMemoryMapEntryList :=
               mFreeMemoryMapEntryList s @ map (OnHeap Mem) [0..<descriptors_per_page]\<rparr>)
           }
           else Some s);
     case mFreeMemoryMapEntryList s of
       [] \<Rightarrow> None
     | Entry # rest \<Rightarrow> Some (Entry, s\<lparr>mFreeMemoryMapEntryList := rest\<rparr>)
   }"

text \<open>The loop of CoreFreeMemoryMapStack.\<close>

partial_function (option) free_stack_loop :: "page_state \<Rightarrow> page_state option" where
  "free_stack_loop s =
     (if mMapDepth s = 0 then Some s
      else do {
        (Entry, s) \<leftarrow> AllocateMemoryMapEntry s;
        let d = mMapDepth s - 1;
        let s = s\<lparr>mMapDepth := d\<rparr>;
        s \<leftarrow> (if linked s d then do {
                ASSERT (OnStack d \<in> set (gMemoryMap s));
                Some (s\<lparr>maps := (maps s)(Entry := (maps s (OnStack d))\<lparr>FromStack := False\<rparr>),
                  gMemoryMap := map (\<lambda>p. if p = OnStack d then Entry else p) (gMemoryMap s),
                  linked := (linked s)(d := False)\<rparr>)
              }
              else Some s);
        free_stack_loop s
      })"

declare free_stack_loop.simps [code]

definition CoreFreeMemoryMapStack :: "page_state \<Rightarrow> page_state option" where
  "CoreFreeMemoryMapStack s = do {
     ASSERT (mFreeMapStack s = 0);
     s \<leftarrow> free_stack_loop (s\<lparr>mFreeMapStack := mFreeMapStack s + 1\<rparr>);
     Some (s\<lparr>mFreeMapStack := mFreeMapStack s - 1\<rparr>)
   }"

definition SmmInternalAllocatePagesEx ::
  "efi_allocate_type \<Rightarrow> efi_memory_type \<Rightarrow> u64 \<Rightarrow> u64 \<Rightarrow> bool \<Rightarrow> page_state \<Rightarrow>
     (efi_status \<times> u64 \<times> page_state) option" where
  "SmmInternalAllocatePagesEx Type' MemoryType NumberOfPages Memory AddRegion s = do {
     (Status, a, s) \<leftarrow> allocate_pages Type' MemoryType NumberOfPages Memory s;
     s \<leftarrow> (if Status = EFI_SUCCESS \<and> \<not> AddRegion then CoreFreeMemoryMapStack s else Some s);
     Some (Status, a, s)
   }"

definition SmmInternalAllocatePages ::
  "efi_allocate_type \<Rightarrow> efi_memory_type \<Rightarrow> u64 \<Rightarrow> u64 \<Rightarrow> page_state \<Rightarrow> (efi_status \<times> u64 \<times> page_state) option" where
  "SmmInternalAllocatePages Type' MemoryType NumberOfPages Memory s =
     SmmInternalAllocatePagesEx Type' MemoryType NumberOfPages Memory False s"

text \<open>Two nodes that follow each other, and what takes their place.\<close>

definition InternalMergeNodes :: "free_node \<Rightarrow> free_node \<Rightarrow> free_node list option" where
  "InternalMergeNodes First Next = do {
     ASSERT (TRUNCATE_TO_PAGES (fst Next - fst First) \<ge> snd First);
     Some (if TRUNCATE_TO_PAGES (fst Next - fst First) = snd First
           then [(fst First, snd First + snd Next)] else [First, Next])
   }"

definition SmmInternalFreePagesEx ::
  "u64 \<Rightarrow> u64 \<Rightarrow> bool \<Rightarrow> page_state \<Rightarrow> (efi_status \<times> page_state) option" where
  "SmmInternalFreePagesEx Memory NumberOfPages AddRegion s =
     (if Memory AND EFI_PAGE_MASK \<noteq> 0 \<or> Memory = 0 \<or> NumberOfPages = 0 then Some (EFI_INVALID_PARAMETER, s)
      else
        let below = takeWhile (\<lambda>(Pages, k). \<not> Memory < Pages) (mSmmMemoryMap s);
            aloft = dropWhile (\<lambda>(Pages, k). \<not> Memory < Pages) (mSmmMemoryMap s) in
        if aloft \<noteq> [] \<and> Memory + EFI_PAGES_TO_SIZE NumberOfPages > fst (hd aloft)
        then Some (EFI_INVALID_PARAMETER, s)
        else if below \<noteq> [] \<and> fst (last below) + EFI_PAGES_TO_SIZE (snd (last below)) > Memory
        then Some (EFI_INVALID_PARAMETER, s)
        else do {
          low \<leftarrow> (if below \<noteq> [] then InternalMergeNodes (last below) (Memory, NumberOfPages)
                  else Some [(Memory, NumberOfPages)]);
          high \<leftarrow> (if aloft \<noteq> [] then InternalMergeNodes (last low) (hd aloft) else Some [last low]);
          s \<leftarrow> ConvertSmmMemoryMapEntry EfiConventionalMemory Memory NumberOfPages
            (s\<lparr>mSmmMemoryMap := butlast below @ butlast low @ high @ tl aloft\<rparr>);
          s \<leftarrow> (if \<not> AddRegion then CoreFreeMemoryMapStack s else Some s);
          Some (EFI_SUCCESS, s)
        })"

definition SmmInternalFreePages :: "u64 \<Rightarrow> u64 \<Rightarrow> page_state \<Rightarrow> (efi_status \<times> page_state) option" where
  "SmmInternalFreePages Memory NumberOfPages s = SmmInternalFreePagesEx Memory NumberOfPages False s"

text \<open>Attributes is whether one of EFI_ALLOCATED, EFI_NEEDS_TESTING, EFI_NEEDS_ECC_INITIALIZATION is
  set; Type is replaced in any case.\<close>

definition SmmAddMemoryRegion :: "u64 \<Rightarrow> u64 \<Rightarrow> bool \<Rightarrow> page_state \<Rightarrow> page_state option" where
  "SmmAddMemoryRegion MemBase MemLength Attributes s = do {
     let AlignedMemBase = (MemBase + EFI_PAGE_MASK) AND NOT EFI_PAGE_MASK;
     let MemLength = MemLength - (AlignedMemBase - MemBase);
     s \<leftarrow> (if \<not> Attributes
           then map_option snd (SmmInternalFreePagesEx AlignedMemBase (TRUNCATE_TO_PAGES MemLength) True s)
           else ConvertSmmMemoryMapEntry EfiRuntimeServicesData AlignedMemBase (TRUNCATE_TO_PAGES MemLength) s);
     CoreFreeMemoryMapStack s
   }"

text \<open>One descriptor of the copy of the map, and the service: the size written to *MemoryMapSize and the
  descriptors; DescriptorSize is 48.\<close>

definition memory_descriptor :: "memory_map \<Rightarrow> efi_memory_type \<times> u64 \<times> u64" where
  "memory_descriptor E = (Type E, Start E, drop_bit 12 (End E - Start E + 1))"

definition SmmCoreGetMemoryMap ::
  "u64 \<Rightarrow> bool \<Rightarrow> page_state \<Rightarrow> efi_status \<times> u64 \<times> (efi_memory_type \<times> u64 \<times> u64) list" where
  "SmmCoreGetMemoryMap MemoryMapSize has_buffer s =
     (let BufferSize = 48 * word_of_nat (GetSmmMemoryMapEntryCount s) in
      if MemoryMapSize < BufferSize then (EFI_BUFFER_TOO_SMALL, BufferSize, [])
      else if \<not> has_buffer then (EFI_INVALID_PARAMETER, BufferSize, [])
      else (EFI_SUCCESS, BufferSize, map (\<lambda>p. memory_descriptor (maps s p)) (gMemoryMap s)))"

definition page_init :: page_state where
  "page_init = \<lparr>mSmmMemoryMap = [], gMemoryMap = [],
     maps = (\<lambda>_. \<lparr>FromStack = False, Type = EfiReservedMemoryType, Start = 0, End = 0\<rparr>),
     mMapDepth = 0, linked = (\<lambda>_. False), mFreeMapStack = 0, mFreeMemoryMapEntryList = []\<rparr>"

end
