(* ===== verification/Smm_Entry.thy ===== *)
theory Smm_Entry
  imports Smm_Runs Smm_Page
begin

text \<open>
  The runs of pages that descriptors and free nodes stand for.  page_start and page_end are the
  addresses of the first byte of a page and of the last byte before a page, for page numbers up to
  2 ^ 52; the comparisons the code makes of such addresses are those of the page numbers.
\<close>

definition page_start :: "nat \<Rightarrow> u64" where
  "page_start l = word_of_nat (4096 * l)"

definition page_end :: "nat \<Rightarrow> u64" where
  "page_end h = word_of_nat (4096 * h - 1)"

definition page_limit :: nat where
  "page_limit = 2 ^ 52"

lemma page_limit_eq: "page_limit = 4503599627370496"
  by (simp add: page_limit_def)

lemma unat_page_start: "l < page_limit \<Longrightarrow> unat (page_start l) = 4096 * l"
  unfolding page_start_def unat_of_nat page_limit_eq by simp

lemma unat_page_end: "h \<le> page_limit \<Longrightarrow> unat (page_end h) = 4096 * h - 1"
  by (simp add: page_end_def page_limit_eq unat_of_nat)

lemma page_start_le: "l < page_limit \<Longrightarrow> l' < page_limit \<Longrightarrow> page_start l \<le> page_start l' \<longleftrightarrow> l \<le> l'"
  by (simp add: word_le_nat_alt unat_page_start)

lemma page_start_less: "l < page_limit \<Longrightarrow> l' < page_limit \<Longrightarrow> page_start l < page_start l' \<longleftrightarrow> l < l'"
  by (simp add: word_less_nat_alt unat_page_start)

lemma page_end_le:
  "0 < h \<Longrightarrow> h \<le> page_limit \<Longrightarrow> 0 < h' \<Longrightarrow> h' \<le> page_limit \<Longrightarrow> page_end h \<le> page_end h' \<longleftrightarrow> h \<le> h'"
  by (simp add: word_le_nat_alt unat_page_end) linarith

lemma page_end_less:
  "0 < h \<Longrightarrow> h \<le> page_limit \<Longrightarrow> 0 < h' \<Longrightarrow> h' \<le> page_limit \<Longrightarrow> page_end h < page_end h' \<longleftrightarrow> h < h'"
  by (simp add: word_less_nat_alt unat_page_end) linarith

lemma page_end_start:
  "0 < h \<Longrightarrow> h \<le> page_limit \<Longrightarrow> l < page_limit \<Longrightarrow> page_end h < page_start l \<longleftrightarrow> h \<le> l"
  by (simp add: word_less_nat_alt unat_page_start unat_page_end) linarith

lemma page_end_plus: "0 < h \<Longrightarrow> page_end h + 1 = page_start h"
proof -
  assume "0 < h"
  then have "Suc (4096 * h - 1) = 4096 * h" by simp
  then show ?thesis unfolding page_end_def page_start_def by (metis of_nat_Suc add.commute)
qed

lemma page_start_minus: "0 < h \<Longrightarrow> page_start h - 1 = page_end h"
  using page_end_plus[of h] by (metis add_diff_cancel_right')

lemma page_start_eq:
  assumes "0 < l" "l < page_limit" "h \<le> page_limit"
  shows "page_start h = page_start l \<longleftrightarrow> h = l"
proof (cases "h = page_limit")
  case True
  have "page_start page_limit = 0" by (simp add: page_start_def page_limit_eq)
  then show ?thesis using assms True unat_page_start[of l] by auto
next
  case False
  then show ?thesis
    using assms unat_page_start[of l] unat_page_start[of h] by (auto simp: le_less)
qed

lemma page_adjacent:
  "0 < h \<Longrightarrow> h \<le> page_limit \<Longrightarrow> 0 < l \<Longrightarrow> l < page_limit \<Longrightarrow> page_end h + 1 = page_start l \<longleftrightarrow> h = l"
  by (simp add: page_end_plus page_start_eq)

lemma EFI_PAGES_TO_SIZE_nat: "EFI_PAGES_TO_SIZE n = word_of_nat (4096 * unat n)"
  by (simp add: EFI_PAGES_TO_SIZE_def push_bit_eq_mult mult.commute)

lemma page_start_plus: "page_start l + EFI_PAGES_TO_SIZE n = page_start (l + unat n)"
  by (simp add: EFI_PAGES_TO_SIZE_nat page_start_def distrib_left)

lemma page_range_end: "0 < l + unat n \<Longrightarrow> page_start l + EFI_PAGES_TO_SIZE n - 1 = page_end (l + unat n)"
  by (simp add: page_start_plus page_start_minus)

text \<open>Descriptors.\<close>

type_synonym map_run = "efi_memory_type run"

definition page_entry :: "memory_map \<Rightarrow> bool" where
  "page_entry E \<longleftrightarrow> 4096 dvd unat (Start E) \<and> 4096 dvd Suc (unat (End E)) \<and> Start E < End E"

definition run_of :: "memory_map \<Rightarrow> map_run" where
  "run_of E = (Type E, unat (Start E) div 4096, Suc (unat (End E)) div 4096)"

definition is_run :: "memory_map \<Rightarrow> map_run \<Rightarrow> bool" where
  "is_run E r \<longleftrightarrow> page_entry E \<and> run_of E = r"

lemma is_run_iff:
  "is_run E (t, l, h) \<longleftrightarrow>
     Type E = t \<and> Start E = page_start l \<and> End E = page_end h \<and> l < h \<and> h \<le> page_limit"
proof
  assume "is_run E (t, l, h)"
  then have E: "4096 dvd unat (Start E)" "4096 dvd Suc (unat (End E))" "Start E < End E" "Type E = t"
      "l = unat (Start E) div 4096" "h = Suc (unat (End E)) div 4096"
    by (auto simp: is_run_def page_entry_def run_of_def)
  have s: "unat (Start E) = 4096 * l" and e: "Suc (unat (End E)) = 4096 * h" using E by auto
  have lim: "unat (End E) < 2 ^ 64" using unsigned_less[of "End E"] by simp
  have "Start E = page_start l" unfolding page_start_def s[symmetric] by simp
  moreover have "End E = page_end h" unfolding page_end_def e[symmetric] by simp
  moreover have "l < h" using E(3) s e by (simp add: word_less_nat_alt)
  moreover have "h \<le> page_limit" using e lim by (simp add: page_limit_eq)
  ultimately show "Type E = t \<and> Start E = page_start l \<and> End E = page_end h \<and> l < h \<and> h \<le> page_limit"
    using E(4) by simp
next
  assume a: "Type E = t \<and> Start E = page_start l \<and> End E = page_end h \<and> l < h \<and> h \<le> page_limit"
  then have s: "unat (Start E) = 4096 * l" and e: "Suc (unat (End E)) = 4096 * h"
    using unat_page_start[of l] unat_page_end[of h] by auto
  then show "is_run E (t, l, h)"
    using a by (simp add: is_run_def page_entry_def run_of_def word_less_nat_alt)
qed

lemma page_entry_is_run: "page_entry E \<Longrightarrow> is_run E (run_of E)"
  by (simp add: is_run_def)

text \<open>Free nodes.\<close>

definition page_node :: "free_node \<Rightarrow> bool" where
  "page_node node \<longleftrightarrow> 4096 dvd unat (fst node) \<and> fst node \<noteq> 0 \<and> snd node \<noteq> 0 \<and>
     unat (fst node) + 4096 * unat (snd node) \<le> 4096 * page_limit"

definition node_run :: "free_node \<Rightarrow> map_run" where
  "node_run node =
     (EfiConventionalMemory, unat (fst node) div 4096, unat (fst node) div 4096 + unat (snd node))"

lemma page_nodeE:
  assumes "page_node (P, k)"
  obtains l where "P = page_start l" "0 < l" "0 < k" "l + unat k \<le> page_limit"
    "node_run (P, k) = (EfiConventionalMemory, l, l + unat k)"
proof -
  have a: "4096 dvd unat P" "P \<noteq> 0" "k \<noteq> 0" "unat P + 4096 * unat k \<le> 4096 * page_limit"
    using assms by (auto simp: page_node_def)
  then obtain l where l: "unat P = 4096 * l" by blast
  have "P = page_start l" unfolding page_start_def l[symmetric] by simp
  moreover have "0 < l" using a(2) l by (cases l) (auto simp: unat_eq_zero)
  moreover have "l + unat k \<le> page_limit" using a(4) l by simp
  ultimately show ?thesis using that a(3) l by (simp add: node_run_def word_gt_0)
qed

lemma page_nodeI:
  assumes "0 < l" "0 < k" "l + unat k \<le> page_limit"
  shows "page_node (page_start l, k)" "node_run (page_start l, k) = (EfiConventionalMemory, l, l + unat k)"
proof -
  have "0 < unat k" using assms(2) by (simp add: word_less_nat_alt)
  then have l: "unat (page_start l) = 4096 * l" using assms(3) by (simp add: unat_page_start)
  then show "page_node (page_start l, k)"
    using assms by (auto simp: page_node_def)
  show "node_run (page_start l, k) = (EfiConventionalMemory, l, l + unat k)"
    using l by (simp add: node_run_def)
qed

end
