(* ===== verification/Smm_Map.thy ===== *)
theory Smm_Map
  imports Smm_Entry
begin

text \<open>
  The ring of descriptors as a list of runs: what the insertion and the removal of a descriptor, the
  two merges and the conversion of a range inside one entry make of the runs.  A conversion puts the
  run of the range in the place of the part of the entry it covers (place_run).
\<close>

fun on_stack :: "map_ptr \<Rightarrow> bool" where
  "on_stack (OnStack i) = True"
| "on_stack (OnHeap a i) = False"

definition runs_of :: "page_state \<Rightarrow> map_ptr list \<Rightarrow> map_run list" where
  "runs_of s ps = map (\<lambda>p. run_of (maps s p)) ps"

definition map_runs :: "page_state \<Rightarrow> map_run list" where
  "map_runs s = runs_of s (gMemoryMap s)"

text \<open>The descriptors of a state: the stack slots below mMapDepth are the stack slots of the ring, and
  the ring and the free descriptors have nothing in common.\<close>

definition descs :: "page_state \<Rightarrow> bool" where
  "descs s \<longleftrightarrow> distinct (gMemoryMap s @ mFreeMemoryMapEntryList s) \<and>
     (\<forall>p \<in> set (mFreeMemoryMapEntryList s). \<not> on_stack p) \<and>
     (\<forall>i < mMapDepth s. OnStack i \<in> set (gMemoryMap s) \<and> linked s i) \<and>
     (\<forall>p \<in> set (gMemoryMap s). page_entry (maps s p) \<and>
        (case p of OnStack i \<Rightarrow> i < mMapDepth s \<and> FromStack (maps s p)
         | OnHeap a i \<Rightarrow> \<not> FromStack (maps s p)))"

definition ordered :: "map_run list \<Rightarrow> bool" where
  "ordered rs \<longleftrightarrow> sorted_wrt (\<lambda>r q. snd (snd r) \<le> fst (snd q)) rs"

definition same_rest :: "page_state \<Rightarrow> page_state \<Rightarrow> bool" where
  "same_rest s s' \<longleftrightarrow> mSmmMemoryMap s' = mSmmMemoryMap s \<and> mFreeMapStack s' = mFreeMapStack s"

lemma runs_of_simps [simp]:
  "runs_of s [] = []"
  "runs_of s (p # ps) = run_of (maps s p) # runs_of s ps"
  "runs_of s (ps @ qs) = runs_of s ps @ runs_of s qs"
  by (simp_all add: runs_of_def)

lemma runs_of_cong: "(\<And>p. p \<in> set ps \<Longrightarrow> maps s' p = maps s p) \<Longrightarrow> runs_of s' ps = runs_of s ps"
  by (simp add: runs_of_def)

lemma runs_of_update [simp]:
  "p \<notin> set ps \<Longrightarrow> runs_of (s\<lparr>maps := (maps s)(p := E)\<rparr>) ps = runs_of s ps"
  by (auto simp: runs_of_def)

lemma runs_of_other [simp]:
  "runs_of (s\<lparr>gMemoryMap := ring\<rparr>) ps = runs_of s ps"
  "runs_of (s\<lparr>mMapDepth := d\<rparr>) ps = runs_of s ps"
  "runs_of (s\<lparr>linked := f\<rparr>) ps = runs_of s ps"
  "runs_of (s\<lparr>mFreeMemoryMapEntryList := es\<rparr>) ps = runs_of s ps"
  "runs_of (s\<lparr>mSmmMemoryMap := ns\<rparr>) ps = runs_of s ps"
  "runs_of (s\<lparr>mFreeMapStack := m\<rparr>) ps = runs_of s ps"
  by (simp_all add: runs_of_def)

lemma same_rest_refl [simp]: "same_rest s s"
  by (simp add: same_rest_def)

lemma same_rest_trans: "same_rest s s' \<Longrightarrow> same_rest s' s'' \<Longrightarrow> same_rest s s''"
  by (simp add: same_rest_def)

subsection \<open>Neighbours\<close>

lemma takeWhile_upto: "q \<notin> set pre \<Longrightarrow> takeWhile (\<lambda>r. r \<noteq> q) (pre @ q # post) = pre"
  by (induction pre) auto

lemma dropWhile_upto: "q \<notin> set pre \<Longrightarrow> dropWhile (\<lambda>r. r \<noteq> q) (pre @ q # post) = q # post"
  by (induction pre) auto

lemma insert_before_at [simp]: "q \<notin> set pre \<Longrightarrow> insert_before q p (pre @ q # post) = pre @ p # q # post"
  by (simp add: insert_before_def takeWhile_upto dropWhile_upto)

lemma insert_after_at [simp]: "q \<notin> set pre \<Longrightarrow> insert_after q p (pre @ q # post) = pre @ q # p # post"
  by (simp add: insert_after_def takeWhile_upto dropWhile_upto)

lemma next_in_at: "q \<notin> set pre \<Longrightarrow> next_in q (pre @ q # post) = (case post of [] \<Rightarrow> None | r # _ \<Rightarrow> Some r)"
  by (auto simp: next_in_def dropWhile_upto split: list.splits)

lemma next_in_rev_at:
  assumes "q \<notin> set post"
  shows "next_in q (rev (pre @ q # post)) = (case rev pre of [] \<Rightarrow> None | r # _ \<Rightarrow> Some r)"
  using next_in_at[of q "rev post" "rev pre"] assms by simp

subsection \<open>Insertion, update and removal\<close>

definition add_entry :: "map_run \<Rightarrow> map_ptr list \<Rightarrow> map_ptr list \<Rightarrow> page_state \<Rightarrow> page_state" where
  "add_entry r pre post s =
     (let d = mMapDepth s in
      s\<lparr>mMapDepth := d + 1,
        maps := (maps s)(OnStack d := \<lparr>FromStack = True, Type = fst r, Start = page_start (fst (snd r)),
          End = page_end (snd (snd r))\<rparr>),
        linked := (linked s)(d := True),
        gMemoryMap := pre @ OnStack d # post\<rparr>)"

lemma InsertNewEntry_before:
  assumes "gMemoryMap s = pre @ q # post" "q \<notin> set pre" "mMapDepth s + 1 < MAX_MAP_DEPTH"
  shows "InsertNewEntry (Some q) (page_start l) (page_end h) t False s = Some (add_entry (t, l, h) pre (q # post) s)"
  using assms by (simp add: InsertNewEntry_def add_entry_def Let_def)

lemma InsertNewEntry_after:
  assumes "gMemoryMap s = pre @ q # post" "q \<notin> set pre" "mMapDepth s + 1 < MAX_MAP_DEPTH"
  shows "InsertNewEntry (Some q) (page_start l) (page_end h) t True s =
    Some (add_entry (t, l, h) (pre @ [q]) post s)"
  using assms by (simp add: InsertNewEntry_def add_entry_def Let_def)

lemma InsertNewEntry_end:
  assumes "gMemoryMap s = pre" "mMapDepth s + 1 < MAX_MAP_DEPTH"
  shows "InsertNewEntry None (page_start l) (page_end h) t False s = Some (add_entry (t, l, h) pre [] s)"
  using assms by (simp add: InsertNewEntry_def add_entry_def Let_def)

lemma descs_other [simp]:
  "descs (s\<lparr>mFreeMapStack := m\<rparr>) = descs s"
  "descs (s\<lparr>mSmmMemoryMap := ns\<rparr>) = descs s"
  unfolding descs_def by (simp_all cong: map_ptr.case_cong)

lemma descs_depth: "descs s \<Longrightarrow> OnStack (mMapDepth s) \<notin> set (gMemoryMap s)"
  by (force simp: descs_def)

lemma descs_free_depth: "descs s \<Longrightarrow> OnStack i \<notin> set (mFreeMemoryMapEntryList s)"
  by (force simp: descs_def)

lemma descs_ring:
  "descs s \<Longrightarrow> p \<in> set (gMemoryMap s) \<Longrightarrow> page_entry (maps s p) \<and>
    (case p of OnStack i \<Rightarrow> i < mMapDepth s \<and> FromStack (maps s p) | OnHeap a i \<Rightarrow> \<not> FromStack (maps s p))"
  unfolding descs_def by blast

lemma add_entry_descs:
  assumes "descs s" "gMemoryMap s = pre @ post" "l < h" "h \<le> page_limit"
  shows "descs (add_entry (t, l, h) pre post s)"
    "gMemoryMap (add_entry (t, l, h) pre post s) = pre @ OnStack (mMapDepth s) # post"
    "mMapDepth (add_entry (t, l, h) pre post s) = mMapDepth s + 1"
    "mFreeMemoryMapEntryList (add_entry (t, l, h) pre post s) = mFreeMemoryMapEntryList s"
    "maps (add_entry (t, l, h) pre post s) (OnStack (mMapDepth s)) =
      \<lparr>FromStack = True, Type = t, Start = page_start l, End = page_end h\<rparr>"
    "p \<noteq> OnStack (mMapDepth s) \<Longrightarrow> maps (add_entry (t, l, h) pre post s) p = maps s p"
    "same_rest s (add_entry (t, l, h) pre post s)"
proof -
  let ?d = "mMapDepth s" and ?s = "add_entry (t, l, h) pre post s"
  let ?E = "\<lparr>FromStack = True, Type = t, Start = page_start l, End = page_end h\<rparr>"
  have n: "OnStack ?d \<notin> set pre" "OnStack ?d \<notin> set post" using descs_depth[OF assms(1)] assms(2) by auto
  have f: "OnStack ?d \<notin> set (mFreeMemoryMapEntryList s)" using descs_free_depth[OF assms(1)] .
  have E: "page_entry ?E" using is_run_iff[of ?E t l h] assms(3,4) by (simp add: is_run_def)
  show g: "gMemoryMap ?s = pre @ OnStack ?d # post" and d: "mMapDepth ?s = ?d + 1"
    and fl: "mFreeMemoryMapEntryList ?s = mFreeMemoryMapEntryList s" and m: "maps ?s (OnStack ?d) = ?E"
    and "same_rest s ?s"
    by (simp_all add: add_entry_def Let_def same_rest_def)
  show o: "maps ?s p = maps s p" if "p \<noteq> OnStack ?d" for p
    using that by (simp add: add_entry_def Let_def)
  have dist: "distinct (gMemoryMap ?s @ mFreeMemoryMapEntryList ?s)"
    using assms(1,2) n f unfolding g fl descs_def by auto
  have link: "linked ?s i \<longleftrightarrow> i = ?d \<or> linked s i" for i by (simp add: add_entry_def Let_def)
  have slots: "\<forall>i < mMapDepth ?s. OnStack i \<in> set (gMemoryMap ?s) \<and> linked ?s i"
    using assms(1,2) unfolding g d link descs_def by (auto simp: less_Suc_eq)
  have ring: "\<forall>p \<in> set (gMemoryMap ?s). page_entry (maps ?s p) \<and>
      (case p of OnStack i \<Rightarrow> i < mMapDepth ?s \<and> FromStack (maps ?s p) | OnHeap a i \<Rightarrow> \<not> FromStack (maps ?s p))"
  proof
    fix p assume p: "p \<in> set (gMemoryMap ?s)"
    show "page_entry (maps ?s p) \<and>
      (case p of OnStack i \<Rightarrow> i < mMapDepth ?s \<and> FromStack (maps ?s p) | OnHeap a i \<Rightarrow> \<not> FromStack (maps ?s p))"
    proof (cases "p = OnStack ?d")
      case True
      then show ?thesis using m E d by simp
    next
      case False
      then have "p \<in> set (gMemoryMap s)" using p g assms(2) by auto
      note descs_ring[OF assms(1) this]
      then show ?thesis using o[OF False] d by (auto split: map_ptr.splits)
    qed
  qed
  show "descs ?s"
    using assms(1) dist slots ring fl unfolding descs_def by simp
qed

lemma add_entry_runs:
  assumes "descs s" "gMemoryMap s = pre @ post" "l < h" "h \<le> page_limit"
  shows "runs_of (add_entry (t, l, h) pre post s) pre = runs_of s pre"
    "runs_of (add_entry (t, l, h) pre post s) post = runs_of s post"
    "run_of (maps (add_entry (t, l, h) pre post s) (OnStack (mMapDepth s))) = (t, l, h)"
proof -
  note a = add_entry_descs[OF assms, where t = t]
  have n: "OnStack (mMapDepth s) \<notin> set pre" "OnStack (mMapDepth s) \<notin> set post"
    using descs_depth[OF assms(1)] assms(2) by auto
  show "runs_of (add_entry (t, l, h) pre post s) pre = runs_of s pre"
    "runs_of (add_entry (t, l, h) pre post s) post = runs_of s post"
    using n by (auto intro!: runs_of_cong a(6))
  let ?E = "\<lparr>FromStack = True, Type = t, Start = page_start l, End = page_end h\<rparr>"
  have "is_run ?E (t, l, h)" using is_run_iff assms(3,4) by simp
  then show "run_of (maps (add_entry (t, l, h) pre post s) (OnStack (mMapDepth s))) = (t, l, h)"
    unfolding a(5) by (simp add: is_run_def)
qed

lemma set_entry_descs:
  assumes "descs s" "is_run E r" "FromStack E = FromStack (maps s p)"
  shows "descs (s\<lparr>maps := (maps s)(p := E)\<rparr>)"
  using assms unfolding descs_def is_run_def by (auto split: map_ptr.splits)

lemma RemoveOldEntry_descs:
  assumes "descs s" "gMemoryMap s = pre @ p # post" "\<not> on_stack p"
  shows "descs (RemoveOldEntry p s)" "gMemoryMap (RemoveOldEntry p s) = pre @ post"
    "mFreeMemoryMapEntryList (RemoveOldEntry p s) = mFreeMemoryMapEntryList s @ [p]"
    "maps (RemoveOldEntry p s) = maps s" "mMapDepth (RemoveOldEntry p s) = mMapDepth s"
    "same_rest s (RemoveOldEntry p s)"
proof -
  have p: "p \<notin> set pre" "p \<notin> set post" "p \<notin> set (mFreeMemoryMapEntryList s)"
    using assms(1,2) unfolding descs_def by auto
  have nf: "\<not> FromStack (maps s p)" using assms unfolding descs_def by (cases p) auto
  show g: "gMemoryMap (RemoveOldEntry p s) = pre @ post"
    and f: "mFreeMemoryMapEntryList (RemoveOldEntry p s) = mFreeMemoryMapEntryList s @ [p]"
    and m: "maps (RemoveOldEntry p s) = maps s" and d: "mMapDepth (RemoveOldEntry p s) = mMapDepth s"
    and "same_rest s (RemoveOldEntry p s)"
    using assms(2) p nf by (simp_all add: RemoveOldEntry_def same_rest_def)
  have l: "linked (RemoveOldEntry p s) = linked s" by (simp add: RemoveOldEntry_def)
  have q: "OnStack i \<in> set (pre @ post)" if "OnStack i \<in> set (pre @ p # post)" for i
    using that assms(3) by auto
  show "descs (RemoveOldEntry p s)"
    using assms p q unfolding descs_def g f m d l assms(2) by auto
qed

end
