(* ===== verification/Smm_Convert.thy ===== *)
theory Smm_Convert
  imports Smm_Map
begin

text \<open>
  The merges of neighbours and the conversion of a range inside one entry.
\<close>

text \<open>No descriptor but those of s and stack slots.\<close>

definition old_heap :: "page_state \<Rightarrow> page_state \<Rightarrow> bool" where
  "old_heap s s' \<longleftrightarrow> (\<forall>q \<in> set (gMemoryMap s') \<union> set (mFreeMemoryMapEntryList s').
     q \<in> set (gMemoryMap s) \<union> set (mFreeMemoryMapEntryList s) \<or> on_stack q)"

lemma old_heap_refl [simp]: "old_heap s s"
  by (simp add: old_heap_def)

lemma old_heap_trans: "old_heap s s' \<Longrightarrow> old_heap s' s'' \<Longrightarrow> old_heap s s''"
  unfolding old_heap_def by blast

definition map_step :: "page_state \<Rightarrow> page_state \<Rightarrow> bool" where
  "map_step s s' \<longleftrightarrow> descs s' \<and> same_rest s s' \<and> mMapDepth s' = mMapDepth s \<and>
     length (mFreeMemoryMapEntryList s) \<le> length (mFreeMemoryMapEntryList s') \<and> old_heap s s'"

lemma map_step_refl: "descs s \<Longrightarrow> map_step s s"
  by (simp add: map_step_def)

lemma map_step_trans: "map_step s s' \<Longrightarrow> map_step s' s'' \<Longrightarrow> map_step s s''"
  unfolding map_step_def by (auto intro: same_rest_trans old_heap_trans)

lemma entry_run:
  assumes "descs s" "p \<in> set (gMemoryMap s)"
  obtains t l h where "run_of (maps s p) = (t, l, h)" "Type (maps s p) = t" "Start (maps s p) = page_start l"
    "End (maps s p) = page_end h" "l < h" "h \<le> page_limit"
proof -
  obtain t l h where r: "run_of (maps s p) = (t, l, h)" by (cases "run_of (maps s p)")
  have "is_run (maps s p) (t, l, h)"
    using descs_ring[OF assms] page_entry_is_run r by metis
  then show ?thesis using that r unfolding is_run_iff by blast
qed

lemma entry_same_type_heap:
  assumes "descs s" "p \<in> set (gMemoryMap s)" "\<not> on_stack p"
  shows "\<not> FromStack (maps s p)"
  using descs_ring[OF assms(1,2)] assms(3) by (auto split: map_ptr.splits)

lemma set_end_run:
  assumes "is_run E (t, l, h)" "h < h'" "h' \<le> page_limit"
  shows "is_run (E\<lparr>End := page_end h'\<rparr>) (t, l, h')"
  using assms unfolding is_run_iff by simp

lemma ordered_pair:
  assumes "ordered (rs @ (t, l, h) # (t', l', h') # qs)"
  shows "h \<le> l'"
  using assms by (auto simp: ordered_def sorted_wrt_append)

lemma runs_of_step:
  assumes "maps s' = (maps s)(p := E)" "p \<notin> set ps"
  shows "runs_of s' ps = runs_of s ps"
  using assms by (intro runs_of_cong) auto

lemma merge_next_runs:
  assumes d: "descs s" and ring: "gMemoryMap s = pre @ p # post" and o: "ordered (map_runs s)"
    and heap: "\<forall>q \<in> set post. Type (maps s q) = Type (maps s p) \<longrightarrow> \<not> on_stack q"
  shows "\<exists>post'. map_step s (merge_next p s) \<and> gMemoryMap (merge_next p s) = pre @ p # post' \<and>
    runs_of (merge_next p s) pre = runs_of s pre \<and>
    runs_of (merge_next p s) (p # post') = join_right (run_of (maps s p)) (runs_of s post)"
proof -
  have np: "p \<notin> set pre" "p \<notin> set post" using d ring unfolding descs_def by auto
  have pin: "p \<in> set (gMemoryMap s)" using ring by simp
  obtain t l h where P: "run_of (maps s p) = (t, l, h)" "Type (maps s p) = t" "Start (maps s p) = page_start l"
      "End (maps s p) = page_end h" "l < h" "h \<le> page_limit"
    using entry_run[OF d pin] by blast
  show ?thesis
  proof (cases post)
    case Nil
    then have "merge_next p s = s" using ring np by (simp add: merge_next_def next_in_at)
    then show ?thesis using Nil ring d P(1) by (intro exI[of _ "[]"]) (simp add: map_step_refl)
  next
    case (Cons q qs)
    have qin: "q \<in> set (gMemoryMap s)" using ring Cons by simp
    obtain t' l' h' where Q: "run_of (maps s q) = (t', l', h')" "Type (maps s q) = t'" "Start (maps s q) = page_start l'"
        "End (maps s q) = page_end h'" "l' < h'" "h' \<le> page_limit"
      using entry_run[OF d qin] by blast
    have le: "h \<le> l'"
      using o unfolding map_runs_def ring Cons by (simp add: P(1) Q(1)) (erule ordered_pair)
    have adj: "End (maps s p) + 1 = Start (maps s q) \<longleftrightarrow> h = l'"
      unfolding P(4) Q(3) using P(5,6) Q(5,6) le by (intro page_adjacent) auto
    have nx: "next_in p (gMemoryMap s) = Some q" using ring np Cons by (simp add: next_in_at)
    show ?thesis
    proof (cases "t = t' \<and> h = l'")
      case False
      then have "merge_next p s = s" using nx adj P(2) Q(2) by (auto simp: merge_next_def)
      then show ?thesis using False Cons ring d P(1) Q(1)
        by (intro exI[of _ post]) (auto simp: map_step_refl)
    next
      case True
      let ?E = "(maps s p)\<lparr>End := End (maps s q)\<rparr>"
      let ?s = "s\<lparr>maps := (maps s)(p := ?E)\<rparr>"
      have pr: "is_run (maps s p) (t, l, h)" using P unfolding is_run_iff by simp
      have E: "is_run ?E (t, l, h')"
        unfolding Q(4) using set_end_run[OF pr] True Q(5,6) by simp
      have ds: "descs ?s" using set_entry_descs[OF d E] by simp
      have qh: "\<not> on_stack q" using heap Cons True P(2) Q(2) by simp
      have rs: "gMemoryMap ?s = (pre @ [p]) @ q # qs" using ring Cons by simp
      note R = RemoveOldEntry_descs[OF ds rs qh]
      have m: "merge_next p s = RemoveOldEntry q ?s"
        using nx adj True P(2) Q(2) by (simp add: merge_next_def)
      have "map_step s (merge_next p s)"
        using R ring Cons unfolding m map_step_def same_rest_def old_heap_def by auto
      moreover have "gMemoryMap (merge_next p s) = pre @ p # qs" using R(2) m by simp
      moreover have "maps (merge_next p s) = (maps s)(p := ?E)" unfolding m R(4) by simp
      moreover have "run_of ?E = (t, l, h')" using E by (simp add: is_run_def)
      ultimately show ?thesis
        using np Cons True P(1) Q(1) runs_of_step[of "merge_next p s" s p ?E]
        by (intro exI[of _ qs]) auto
    qed
  qed
qed

lemma merge_previous_runs:
  assumes d: "descs s" and ring: "gMemoryMap s = pre @ p # post" and o: "ordered (map_runs s)"
    and heap: "\<not> on_stack p \<or> pre = [] \<or> Type (maps s (last pre)) \<noteq> Type (maps s p)"
  shows "map_step s (merge_previous p s) \<and>
    map_runs (merge_previous p s) = join_left (runs_of s pre) (runs_of s (p # post))"
proof -
  have np: "p \<notin> set pre" "p \<notin> set post" using d ring unfolding descs_def by auto
  have pin: "p \<in> set (gMemoryMap s)" using ring by simp
  obtain t l h where P: "run_of (maps s p) = (t, l, h)" "Type (maps s p) = t" "Start (maps s p) = page_start l"
      "End (maps s p) = page_end h" "l < h" "h \<le> page_limit"
    using entry_run[OF d pin] by blast
  show ?thesis
  proof (cases pre rule: rev_cases)
    case Nil
    then have "merge_previous p s = s" using ring np next_in_rev_at[of p post pre] by (simp add: merge_previous_def)
    then show ?thesis using Nil ring d by (simp add: map_step_refl map_runs_def join_left_def)
  next
    case (snoc qs q)
    have qin: "q \<in> set (gMemoryMap s)" using ring snoc by simp
    obtain t' l' h' where Q: "run_of (maps s q) = (t', l', h')" "Type (maps s q) = t'" "Start (maps s q) = page_start l'"
        "End (maps s q) = page_end h'" "l' < h'" "h' \<le> page_limit"
      using entry_run[OF d qin] by blast
    have le: "h' \<le> l"
      using o unfolding map_runs_def ring snoc by (simp add: P(1) Q(1)) (erule ordered_pair)
    have adj: "End (maps s q) + 1 = Start (maps s p) \<longleftrightarrow> h' = l"
      unfolding P(3) Q(4) using P(5,6) Q(5,6) le by (intro page_adjacent) auto
    have nx: "next_in p (rev (gMemoryMap s)) = Some q"
      using ring np snoc next_in_rev_at[of p post pre] by simp
    show ?thesis
    proof (cases "t' = t \<and> h' = l")
      case False
      then have "merge_previous p s = s" using nx adj P(2) Q(2) by (auto simp: merge_previous_def)
      then show ?thesis using False snoc ring d P(1) Q(1)
        by (auto simp: map_step_refl map_runs_def join_left_def)
    next
      case True
      let ?E = "(maps s q)\<lparr>End := End (maps s p)\<rparr>"
      let ?s = "s\<lparr>maps := (maps s)(q := ?E)\<rparr>"
      have qr: "is_run (maps s q) (t', l', h')" using Q unfolding is_run_iff by simp
      have E: "is_run ?E (t', l', h)"
        unfolding P(4) using set_end_run[OF qr] True P(5,6) by simp
      have ds: "descs ?s" using set_entry_descs[OF d E] by simp
      have rs: "gMemoryMap ?s = pre @ p # post" using ring by simp
      have "\<not> on_stack p" using heap snoc True P(2) Q(2) by simp
      note R = RemoveOldEntry_descs[OF ds rs this]
      have m: "merge_previous p s = RemoveOldEntry p ?s"
        using nx adj True P(2) Q(2) by (simp add: merge_previous_def)
      have "map_step s (merge_previous p s)"
        using R ring unfolding m map_step_def same_rest_def old_heap_def by auto
      moreover have "gMemoryMap (merge_previous p s) = qs @ q # post" using R(2) m snoc by simp
      moreover have "maps (merge_previous p s) = (maps s)(q := ?E)" unfolding m R(4) by simp
      moreover have "run_of ?E = (t', l', h)" using E by (simp add: is_run_def)
      moreover have "q \<notin> set qs" "q \<notin> set post" using d ring snoc unfolding descs_def by auto
      ultimately show ?thesis
        using np snoc True P(1) Q(1) runs_of_step[of "merge_previous p s" s q ?E]
        by (auto simp: map_runs_def join_left_def)
    qed
  qed
qed

subsection \<open>Conversion inside an entry\<close>

text \<open>The state s' has the descriptors of s and new ones on the stack, ns in all, of the type t.\<close>

definition grown :: "efi_memory_type \<Rightarrow> page_state \<Rightarrow> map_ptr list \<Rightarrow> page_state \<Rightarrow> bool" where
  "grown t s ns s' \<longleftrightarrow> descs s' \<and> same_rest s s' \<and> mMapDepth s' = mMapDepth s + length ns \<and>
     mFreeMemoryMapEntryList s' = mFreeMemoryMapEntryList s \<and>
     (\<forall>q \<in> set (gMemoryMap s). maps s' q = maps s q) \<and>
     (\<forall>q \<in> set ns. q \<notin> set (gMemoryMap s) \<and> on_stack q \<and> Type (maps s' q) = t)"

lemma grown_runs:
  assumes "grown t s ns s'" "set ps \<subseteq> set (gMemoryMap s)"
  shows "runs_of s' ps = runs_of s ps"
  using assms unfolding grown_def by (intro runs_of_cong) auto

lemma convert_left:
  assumes "descs s" "gMemoryMap s = pre @ p # post" "run_of (maps s p) = (t, l, h)" "l \<le> a" "a < page_limit"
    "mMapDepth s + 1 < MAX_MAP_DEPTH"
  shows "\<exists>s' ns. (if Start (maps s p) < page_start a
      then InsertNewEntry (Some p) (Start (maps s p)) (page_start a - 1) (Type (maps s p)) False s else Some s) = Some s' \<and>
    grown t s ns s' \<and> gMemoryMap s' = pre @ ns @ p # post \<and> runs_of s' ns = piece (t, l, a) \<and> length ns \<le> 1"
proof -
  have np: "p \<notin> set pre" using assms(1,2) unfolding descs_def by auto
  have pin: "p \<in> set (gMemoryMap s)" using assms(2) by simp
  have P: "Type (maps s p) = t" "Start (maps s p) = page_start l" "l < page_limit"
    using entry_run[OF assms(1) pin] assms(3) by fastforce+
  have c: "Start (maps s p) < page_start a \<longleftrightarrow> l < a"
    unfolding P(2) using page_start_less[OF P(3) assms(5)] .
  show ?thesis
  proof (cases "l < a")
    case False
    then show ?thesis using c assms(1,2) by (intro exI[of _ s] exI[of _ "[]"]) (simp add: grown_def)
  next
    case True
    have a: "a \<le> page_limit" using assms(5) by simp
    let ?s = "add_entry (t, l, a) pre (p # post) s" and ?n = "OnStack (mMapDepth s)"
    note A = add_entry_descs[OF assms(1,2) True a, where t = t]
    note R = add_entry_runs[OF assms(1,2) True a, where t = t]
    have "InsertNewEntry (Some p) (page_start l) (page_end a) t False s = Some ?s"
      by (rule InsertNewEntry_before[OF assms(2) np assms(6)])
    moreover have "page_start a - 1 = page_end a" using True page_start_minus by simp
    moreover have n: "?n \<notin> set (gMemoryMap s)" using descs_depth[OF assms(1)] .
    moreover have "maps ?s q = maps s q" if "q \<in> set (gMemoryMap s)" for q
      using A(6) that n by metis
    ultimately show ?thesis using True P c A(1,2,3,4,5,7) R(3)
      by (intro exI[of _ ?s] exI[of _ "[?n]"]) (simp add: grown_def)
  qed
qed

lemma convert_right:
  assumes "descs s" "gMemoryMap s = pre @ p # post" "run_of (maps s p) = (t, l, h)" "0 < b" "b \<le> h"
    "mMapDepth s + 1 < MAX_MAP_DEPTH"
  shows "\<exists>s' ns. (if End (maps s p) > page_end b
      then InsertNewEntry (Some p) (page_end b + 1) (End (maps s p)) (Type (maps s p)) True s else Some s) = Some s' \<and>
    grown t s ns s' \<and> gMemoryMap s' = pre @ p # ns @ post \<and> runs_of s' ns = piece (t, b, h) \<and> length ns \<le> 1"
proof -
  have np: "p \<notin> set pre" using assms(1,2) unfolding descs_def by auto
  have pin: "p \<in> set (gMemoryMap s)" using assms(2) by simp
  have P: "Type (maps s p) = t" "End (maps s p) = page_end h" "h \<le> page_limit" "0 < h"
    using entry_run[OF assms(1) pin] assms(3) by fastforce+
  have c: "End (maps s p) > page_end b \<longleftrightarrow> b < h"
    unfolding P(2) using page_end_less[of b h] P(3,4) assms(4,5) by simp
  show ?thesis
  proof (cases "b < h")
    case False
    then show ?thesis using c assms(1,2) by (intro exI[of _ s] exI[of _ "[]"]) (simp add: grown_def)
  next
    case True
    let ?s = "add_entry (t, b, h) (pre @ [p]) post s" and ?n = "OnStack (mMapDepth s)"
    have g: "gMemoryMap s = (pre @ [p]) @ post" using assms(2) by simp
    note A = add_entry_descs[OF assms(1) g True P(3), where t = t]
    note R = add_entry_runs[OF assms(1) g True P(3), where t = t]
    have "InsertNewEntry (Some p) (page_start b) (page_end h) t True s = Some ?s"
      by (rule InsertNewEntry_after[OF assms(2) np assms(6)])
    moreover have "page_end b + 1 = page_start b" using page_end_plus[OF assms(4)] .
    moreover have n: "?n \<notin> set (gMemoryMap s)" using descs_depth[OF assms(1)] .
    moreover have "maps ?s q = maps s q" if "q \<in> set (gMemoryMap s)" for q
      using A(6) that n by metis
    ultimately show ?thesis using True P c A(1,2,3,4,5,7) R(3)
      by (intro exI[of _ ?s] exI[of _ "[?n]"]) (simp add: grown_def)
  qed
qed

lemma ordered_split:
  assumes "ordered (rs @ (t, l, h) # qs)" "l \<le> a" "a < b" "b \<le> h"
  shows "ordered (rs @ piece (t, l, a) @ (t', a, b) # piece (t, b, h) @ qs)"
proof -
  have o: "sorted_wrt (\<lambda>r q. snd (snd r) \<le> fst (snd q)) rs" "sorted_wrt (\<lambda>r q. snd (snd r) \<le> fst (snd q)) qs"
    and rl: "\<forall>r \<in> set rs. snd (snd r) \<le> l" and hq: "\<forall>q \<in> set qs. h \<le> fst (snd q)"
    and rq: "\<forall>r \<in> set rs. \<forall>q \<in> set qs. snd (snd r) \<le> fst (snd q)"
    using assms(1) unfolding ordered_def sorted_wrt_append by auto
  have ra: "\<forall>r \<in> set rs. snd (snd r) \<le> a \<and> snd (snd r) \<le> b" using rl assms by fastforce
  have bq: "\<forall>q \<in> set qs. b \<le> fst (snd q) \<and> a \<le> fst (snd q)" using hq assms by fastforce
  show ?thesis
    using o rl hq rq ra bq assms by (cases "l < a"; cases "b < h") (simp_all add: ordered_def sorted_wrt_append)
qed

lemma canonical_ordered: "canonical rs \<Longrightarrow> ordered rs"
  unfolding canonical_def ordered_def by (auto elim!: sorted_wrt_mono_rel[rotated] simp: apart_runs_def)

lemma grown_trans:
  assumes "grown t s ns s1" "grown t s1 ns' s2" "set (gMemoryMap s1) = set (gMemoryMap s) \<union> set ns"
  shows "grown t s (ns @ ns') s2"
  using assms unfolding grown_def by (auto intro: same_rest_trans)

lemma merges_runs:
  assumes d: "descs s" and ring: "gMemoryMap s = pre @ p # post" and o: "ordered (map_runs s)"
    and heap: "\<forall>q \<in> set post. Type (maps s q) = Type (maps s p) \<longrightarrow> \<not> on_stack q"
    and hp: "\<not> on_stack p \<or> pre = [] \<or> Type (maps s (last pre)) \<noteq> Type (maps s p)"
    and c: "canonical (runs_of s pre)" "canonical (runs_of s post)"
    and P: "run_of (maps s p) = (t, l, h)"
  shows "map_step s (merge_previous p (merge_next p s)) \<and>
    map_runs (merge_previous p (merge_next p s)) = place_run (runs_of s pre) (t, l, h) (runs_of s post)"
proof -
  let ?s = "merge_next p s"
  obtain post' where M: "map_step s ?s" "gMemoryMap ?s = pre @ p # post'" "runs_of ?s pre = runs_of s pre"
      "runs_of ?s (p # post') = join_right (t, l, h) (runs_of s post)"
    using merge_next_runs[OF d ring o heap] P by auto
  have lh: "l < h" "\<forall>r \<in> set (runs_of s pre). snd (snd r) \<le> l" "\<forall>r \<in> set (runs_of s post). h \<le> fst (snd r)"
    using entry_run[OF d, of p] o ring P unfolding map_runs_def ring by (auto simp: ordered_def sorted_wrt_append)
  obtain h' qs where j: "join_right (t, l, h) (runs_of s post) = (t, l, h') # qs"
    using join_right_canonical(3)[OF c(2) lh(1,3)] by blast
  have cj: "canonical ((t, l, h') # qs)" using join_right_canonical(1)[OF c(2) lh(1,3)] j by metis
  have "ordered (runs_of s pre @ (t, l, h') # qs)"
    using canonical_ordered[OF c(1)] canonical_ordered[OF cj] lh(2) canonical_from[OF cj] cj
    by (fastforce simp: ordered_def sorted_wrt_append)
  then have o': "ordered (map_runs ?s)" using M(2-4) j unfolding map_runs_def by simp
  have d': "descs ?s" using M(1) unfolding map_step_def by blast
  have ty: "Type (maps u q) = fst (run_of (maps u q))" for u q by (simp add: run_of_def)
  have "pre \<noteq> [] \<Longrightarrow> Type (maps ?s (last pre)) = Type (maps s (last pre))"
    using M(3) unfolding ty runs_of_def by (metis last_in_set list.map_cong0 map_eq_conv)
  moreover have "Type (maps ?s p) = Type (maps s p)" using M(4) j P by (simp add: ty)
  ultimately have hp': "\<not> on_stack p \<or> pre = [] \<or> Type (maps ?s (last pre)) \<noteq> Type (maps ?s p)" using hp by auto
  have "map_step ?s (merge_previous p ?s) \<and>
    map_runs (merge_previous p ?s) = join_left (runs_of ?s pre) (runs_of ?s (p # post'))"
    by (rule merge_previous_runs[OF d' M(2) o' hp'])
  then show ?thesis using M map_step_trans unfolding place_run_def by auto
qed

lemma convert_inside_stack:
  assumes d: "descs s" and ring: "gMemoryMap s = pre @ p # post" and c: "canonical (map_runs s)"
    and P: "run_of (maps s p) = (t, l, h)" and lab: "l \<le> a" "a < b" "b \<le> h" and t: "t' \<noteq> t"
    and depth: "mMapDepth s + 2 < MAX_MAP_DEPTH"
    and hq: "\<forall>q \<in> set post. Type (maps s q) = t' \<longrightarrow> \<not> on_stack q" and hp: "\<not> on_stack p \<or> pre = [] \<or> l < a"
  shows "\<exists>s'. convert_inside t' (page_start a) (page_end b) p s = Some s' \<and> descs s' \<and> same_rest s s' \<and>
    old_heap s s' \<and> mMapDepth s' \<le> mMapDepth s + 2 \<and> length (mFreeMemoryMapEntryList s) \<le> length (mFreeMemoryMapEntryList s') \<and>
    map_runs s' = place_run (runs_of s pre @ piece (t, l, a)) (t', a, b) (piece (t, b, h) @ runs_of s post)"
proof -
  have pin: "p \<in> set (gMemoryMap s)" using ring by simp
  have lim: "h \<le> page_limit" "a < page_limit" "0 < b"
    using entry_run[OF d pin] P lab by fastforce+
  obtain s1 L where I1: "(if Start (maps s p) < page_start a
      then InsertNewEntry (Some p) (Start (maps s p)) (page_start a - 1) (Type (maps s p)) False s else Some s) = Some s1"
    and G1: "grown t s L s1" and r1: "gMemoryMap s1 = pre @ L @ p # post" "runs_of s1 L = piece (t, l, a)" "length L \<le> 1"
    using convert_left[OF d ring P lab(1) lim(2)] depth by auto
  have p1: "maps s1 p = maps s p" using G1 pin unfolding grown_def by blast
  have ring1: "gMemoryMap s1 = (pre @ L) @ p # post" using r1(1) by simp
  have d1: "descs s1" "mMapDepth s1 + 1 < MAX_MAP_DEPTH"
    using G1 depth r1(3) unfolding grown_def by auto
  have P1: "run_of (maps s1 p) = (t, l, h)" using P p1 by simp
  obtain s2 R where I2: "(if End (maps s1 p) > page_end b
      then InsertNewEntry (Some p) (page_end b + 1) (End (maps s1 p)) (Type (maps s1 p)) True s1 else Some s1) = Some s2"
    and G2: "grown t s1 R s2" and r2: "gMemoryMap s2 = (pre @ L) @ p # R @ post" "runs_of s2 R = piece (t, b, h)" "length R \<le> 1"
    using convert_right[OF d1(1) ring1 P1 lim(3) lab(3) d1(2)] by blast
  have G: "grown t s (L @ R) s2" using grown_trans[OF G1 G2] r1(1) ring by auto
  let ?E = "(maps s2 p)\<lparr>Type := t', Start := page_start a, End := page_end b\<rparr>"
  let ?s = "s2\<lparr>maps := (maps s2)(p := ?E)\<rparr>"
  have E: "is_run ?E (t', a, b)" using lab lim unfolding is_run_iff by simp
  have d2: "descs s2" using G unfolding grown_def by blast
  have ds: "descs ?s" using set_entry_descs[OF d2 E] by simp
  have ring2: "gMemoryMap ?s = (pre @ L) @ p # (R @ post)" using r2(1) by simp
  have np: "p \<notin> set (pre @ L)" "p \<notin> set (R @ post)" using d2 r2(1) unfolding descs_def by auto
  have sub: "set pre \<subseteq> set (gMemoryMap s)" "set post \<subseteq> set (gMemoryMap s)" "set L \<subseteq> set (gMemoryMap s1)"
    using ring r1(1) by auto
  have runs: "runs_of ?s (pre @ L) = runs_of s pre @ piece (t, l, a)" "runs_of ?s (R @ post) = piece (t, b, h) @ runs_of s post"
    using np grown_runs[OF G sub(1)] grown_runs[OF G sub(2)] grown_runs[OF G2 sub(3)] r1(2) r2(2) by simp_all
  have Ps: "run_of (maps ?s p) = (t', a, b)" using E by (simp add: is_run_def)
  have cs: "canonical (runs_of s pre @ (t, l, h) # runs_of s post)" using c P ring by (simp add: map_runs_def)
  note cp = canonical_pieces[OF cs lab]
  have "map_runs ?s = runs_of ?s (pre @ L) @ run_of (maps ?s p) # runs_of ?s (R @ post)"
    unfolding map_runs_def ring2 by simp
  then have "map_runs ?s = runs_of s pre @ piece (t, l, a) @ (t', a, b) # piece (t, b, h) @ runs_of s post"
    unfolding runs Ps by simp
  then have o: "ordered (map_runs ?s)"
    using ordered_split[OF canonical_ordered[OF cs] lab] by metis
  have Rt: "Type (maps s2 q) = t" if "q \<in> set L \<union> set R" for q using that G unfolding grown_def by auto
  have old: "maps s2 q = maps s q" if "q \<in> set (gMemoryMap s)" for q using that G unfolding grown_def by blast
  have tp: "Type (maps ?s p) = t'" "\<And>q. q \<noteq> p \<Longrightarrow> maps ?s q = maps s2 q" by simp_all
  have hq': "\<forall>q \<in> set (R @ post). Type (maps ?s q) = Type (maps ?s p) \<longrightarrow> \<not> on_stack q"
  proof
    fix q assume q: "q \<in> set (R @ post)"
    then have "q \<noteq> p" using np(2) by auto
    then show "Type (maps ?s q) = Type (maps ?s p) \<longrightarrow> \<not> on_stack q"
      unfolding tp(1) tp(2)[OF \<open>q \<noteq> p\<close>] using q Rt[of q] old[of q] sub(2) t hq by (cases "q \<in> set R") auto
  qed
  have hp': "\<not> on_stack p \<or> pre @ L = [] \<or> Type (maps ?s (last (pre @ L))) \<noteq> Type (maps ?s p)"
  proof (cases "L = []")
    case True
    then have "\<not> l < a" using r1(2) by (cases "l < a") auto
    then show ?thesis using hp True by auto
  next
    case False
    then have "last (pre @ L) \<in> set L" by simp
    moreover from this have "last (pre @ L) \<noteq> p" using np(1) by auto
    ultimately show ?thesis unfolding tp(1) using tp(2) Rt t by auto
  qed
  let ?s' = "merge_previous p (merge_next p ?s)"
  have M: "map_step ?s ?s'" "map_runs ?s' = place_run (runs_of s pre @ piece (t, l, a)) (t', a, b) (piece (t, b, h) @ runs_of s post)"
    using merges_runs[OF ds ring2 o hq' hp' _ _ Ps] cp runs by simp_all
  have "convert_inside t' (page_start a) (page_end b) p s = Some ?s'"
    using I1 I2 by (simp add: convert_inside_def Let_def)
  moreover have "old_heap s ?s'"
  proof -
    have "old_heap s ?s" using G ring r2(1) r1(1) unfolding grown_def old_heap_def by auto
    then show ?thesis using M(1) old_heap_trans unfolding map_step_def by blast
  qed
  moreover have "same_rest s ?s'" "mMapDepth ?s' \<le> mMapDepth s + 2"
      "length (mFreeMemoryMapEntryList s) \<le> length (mFreeMemoryMapEntryList ?s')"
    using M(1) G r1(3) r2(3) unfolding map_step_def grown_def same_rest_def by auto
  moreover have "descs ?s'" using M(1) unfolding map_step_def by blast
  ultimately show ?thesis using M(2) by blast
qed

lemma descs_heap: "descs s \<Longrightarrow> mMapDepth s = 0 \<Longrightarrow> q \<in> set (gMemoryMap s) \<Longrightarrow> \<not> on_stack q"
  using descs_ring[of s q] by (cases q) auto

lemma convert_inside_runs:
  assumes "descs s" "gMemoryMap s = pre @ p # post" "canonical (map_runs s)" "run_of (maps s p) = (t, l, h)"
    "l \<le> a" "a < b" "b \<le> h" "t' \<noteq> t" "mMapDepth s = 0"
  shows "\<exists>s'. convert_inside t' (page_start a) (page_end b) p s = Some s' \<and> descs s' \<and> same_rest s s' \<and>
    mMapDepth s' \<le> 2 \<and> length (mFreeMemoryMapEntryList s) \<le> length (mFreeMemoryMapEntryList s') \<and>
    map_runs s' = place_run (runs_of s pre @ piece (t, l, a)) (t', a, b) (piece (t, b, h) @ runs_of s post)"
  using convert_inside_stack[OF assms(1-8)] assms(9) descs_heap[OF assms(1,9)] assms(2)
  by (auto simp: MAX_MAP_DEPTH_def numeral_2_eq_2)

end
