(* ===== verification/Smm_Stack.thy ===== *)
theory Smm_Stack
  imports Smm_Convert
begin

text \<open>
  ConvertSmmMemoryMapEntry on a range inside one entry, and the release of the stack: with enough free
  descriptors it moves each stack slot to a free descriptor and leaves the runs as they are.
\<close>

lemma page_covers:
  assumes "l < h" "h \<le> page_limit" "a < b" "b \<le> page_limit"
  shows "page_start l > page_end b \<longleftrightarrow> b \<le> l" "page_start l \<le> page_start a \<longleftrightarrow> l \<le> a" "page_end h \<ge> page_end b \<longleftrightarrow> b \<le> h"
  using page_end_start[of b l] page_start_le[of l a] page_end_le[of b h] assms by auto

lemma convert_loop_at:
  assumes "\<forall>q \<in> set (pre @ p # post). page_entry (maps s q)" "ordered (runs_of s (pre @ p # post))"
    "run_of (maps s p) = (t, l, h)" "l \<le> a" "a < b" "b \<le> h"
  shows "convert_loop t' (page_start a) (page_end b) (pre @ p # post) s =
    Some (if t \<noteq> t' then convert_inside t' (page_start a) (page_end b) p s else Some s)"
  using assms
proof (induction pre)
  case Nil
  have "is_run (maps s p) (t, l, h)" using Nil.prems page_entry_is_run[of "maps s p"] by simp
  then show ?case using page_covers[of l h a b] Nil.prems(4-6) unfolding is_run_iff by auto
next
  case (Cons q pre)
  obtain t1 l1 h1 where r: "run_of (maps s q) = (t1, l1, h1)" by (cases "run_of (maps s q)")
  then have q: "is_run (maps s q) (t1, l1, h1)" using Cons.prems(1) page_entry_is_run[of "maps s q"] by simp
  have p: "is_run (maps s p) (t, l, h)" using Cons.prems(1,3) page_entry_is_run[of "maps s p"] by simp
  have "h1 \<le> l" using Cons.prems(2,3) r by (auto simp: ordered_def)
  moreover have "h \<le> page_limit" "l1 < h1" using p q unfolding is_run_iff by auto
  ultimately have "\<not> page_start l1 > page_end b" "\<not> page_end h1 \<ge> page_end b"
    using page_covers[of l1 h1 a b] Cons.prems(4-6) by auto
  then have "convert_loop t' (page_start a) (page_end b) ((q # pre) @ p # post) s =
      convert_loop t' (page_start a) (page_end b) (pre @ p # post) s"
    using q unfolding is_run_iff by simp
  also have "\<dots> = Some (if t \<noteq> t' then convert_inside t' (page_start a) (page_end b) p s else Some s)"
    using Cons.prems by (intro Cons.IH) (auto simp: ordered_def)
  finally show ?case .
qed

lemma runs_split:
  assumes "runs_of s ring = rs @ r # qs"
  obtains pre p post where "ring = pre @ p # post" "runs_of s pre = rs" "run_of (maps s p) = r" "runs_of s post = qs"
  using assms unfolding runs_of_def by (auto simp: map_eq_append_conv)

lemma ConvertSmmMemoryMapEntry_runs:
  assumes d: "descs s" and c: "canonical (map_runs s)" and depth: "mMapDepth s = 0"
    and m: "map_runs s = rs @ (t, l, h) # qs" and lab: "l \<le> a" "0 < n" "a + unat n \<le> h" and t: "t' \<noteq> t"
  shows "\<exists>s'. ConvertSmmMemoryMapEntry t' (page_start a) n s = Some s' \<and> descs s' \<and> same_rest s s' \<and>
    mMapDepth s' \<le> 2 \<and> length (mFreeMemoryMapEntryList s) \<le> length (mFreeMemoryMapEntryList s') \<and>
    map_runs s' = place_run (rs @ piece (t, l, a)) (t', a, a + unat n) (piece (t, a + unat n, h) @ qs)"
proof -
  obtain pre p post where ring: "gMemoryMap s = pre @ p # post" and rs: "runs_of s pre = rs"
      and P: "run_of (maps s p) = (t, l, h)" and qs: "runs_of s post = qs"
    using runs_split[OF m[unfolded map_runs_def]] by metis
  have n: "0 < unat n" using lab(2) by (simp add: word_less_nat_alt)
  then have ab: "a < a + unat n" by simp
  have e: "\<forall>q \<in> set (pre @ p # post). page_entry (maps s q)" using descs_ring[OF d] ring by auto
  have o: "ordered (runs_of s (pre @ p # post))" using canonical_ordered[OF c] ring by (simp add: map_runs_def)
  have "convert_loop t' (page_start a) (page_end (a + unat n)) (gMemoryMap s) s =
      Some (convert_inside t' (page_start a) (page_end (a + unat n)) p s)"
    using convert_loop_at[OF e o P lab(1) ab lab(3)] t ring by simp
  then have "ConvertSmmMemoryMapEntry t' (page_start a) n s =
      convert_inside t' (page_start a) (page_end (a + unat n)) p s"
    using n by (simp add: ConvertSmmMemoryMapEntry_def Let_def page_range_end)
  then show ?thesis
    using convert_inside_runs[OF d ring c P lab(1) ab lab(3) t depth] rs qs by metis
qed

subsection \<open>The stack\<close>

lemma stack_step:
  assumes d: "descs s" and depth: "mMapDepth s = Suc k" and f: "mFreeMemoryMapEntryList s = e # es"
  defines "s' \<equiv> s\<lparr>mFreeMemoryMapEntryList := es, mMapDepth := k,
      maps := (maps s)(e := (maps s (OnStack k))\<lparr>FromStack := False\<rparr>),
      gMemoryMap := map (\<lambda>p. if p = OnStack k then e else p) (gMemoryMap s), linked := (linked s)(k := False)\<rparr>"
  shows "free_stack_loop s = free_stack_loop s'" "descs s'" "map_runs s' = map_runs s"
proof -
  have k: "OnStack k \<in> set (gMemoryMap s)" "linked s k" using d depth unfolding descs_def by auto
  have e: "e \<notin> set (gMemoryMap s)" "e \<notin> set es" "\<not> on_stack e" using d f unfolding descs_def by auto
  have ne: "e \<noteq> OnStack i" for i using e(3) by auto
  show "free_stack_loop s = free_stack_loop s'"
    unfolding s'_def using k f depth
    by (subst free_stack_loop.simps) (simp add: AllocateMemoryMapEntry_def Let_def)
  let ?f = "\<lambda>p. if p = OnStack k then e else p"
  have inj: "inj_on ?f (set (gMemoryMap s))" using e(1) by (auto simp: inj_on_def)
  have m: "run_of (maps s' (?f p)) = run_of (maps s p)" if "p \<in> set (gMemoryMap s)" for p
    using that e(1) by (auto simp: s'_def run_of_def)
  then show "map_runs s' = map_runs s" by (auto simp: map_runs_def runs_of_def s'_def)
  have g: "gMemoryMap s' = map ?f (gMemoryMap s)" "mFreeMemoryMapEntryList s' = es" "mMapDepth s' = k"
    by (simp_all add: s'_def)
  have "distinct (gMemoryMap s' @ mFreeMemoryMapEntryList s')"
    using d f e inj unfolding g descs_def by (auto simp: distinct_map)
  moreover have "\<forall>p \<in> set es. \<not> on_stack p" using d f unfolding descs_def by auto
  moreover have "\<forall>i < k. OnStack i \<in> set (gMemoryMap s') \<and> linked s' i"
  proof (intro allI impI)
    fix i assume i: "i < k"
    then have "OnStack i \<in> set (gMemoryMap s)" "linked s i" using d depth unfolding descs_def by auto
    then show "OnStack i \<in> set (gMemoryMap s') \<and> linked s' i" using i by (force simp: s'_def)
  qed
  moreover have "page_entry (maps s' p) \<and>
      (case p of OnStack i \<Rightarrow> i < k \<and> FromStack (maps s' p) | OnHeap a i \<Rightarrow> \<not> FromStack (maps s' p))"
    if p: "p \<in> set (gMemoryMap s')" for p
  proof (cases "p = e")
    case True
    then show ?thesis using descs_ring[OF d k(1)] e(3) by (cases e) (simp_all add: s'_def page_entry_def)
  next
    case False
    then have "p \<in> set (gMemoryMap s)" "p \<noteq> OnStack k" using p e(3) ne unfolding g by auto
    then show ?thesis using descs_ring[OF d] False depth by (fastforce simp: s'_def less_Suc_eq split: map_ptr.splits)
  qed
  ultimately show "descs s'" unfolding descs_def g by auto
qed

lemma free_stack_loop_runs:
  assumes "descs s" "mMapDepth s \<le> length (mFreeMemoryMapEntryList s)"
  shows "\<exists>s'. free_stack_loop s = Some s' \<and> descs s' \<and> same_rest s s' \<and> mMapDepth s' = 0 \<and>
    map_runs s' = map_runs s \<and>
    length (mFreeMemoryMapEntryList s') + mMapDepth s = length (mFreeMemoryMapEntryList s)"
  using assms
proof (induction "mMapDepth s" arbitrary: s)
  case 0
  then show ?case by (subst free_stack_loop.simps) simp
next
  case (Suc k)
  obtain e es where f: "mFreeMemoryMapEntryList s = e # es"
    using Suc.prems(2) Suc.hyps(2) by (cases "mFreeMemoryMapEntryList s") auto
  let ?s = "s\<lparr>mFreeMemoryMapEntryList := es, mMapDepth := k,
      maps := (maps s)(e := (maps s (OnStack k))\<lparr>FromStack := False\<rparr>),
      gMemoryMap := map (\<lambda>p. if p = OnStack k then e else p) (gMemoryMap s), linked := (linked s)(k := False)\<rparr>"
  note S = stack_step[OF Suc.prems(1) Suc.hyps(2)[symmetric] f]
  obtain s' where s': "free_stack_loop ?s = Some s'" "descs s'" "same_rest ?s s'" "mMapDepth s' = 0"
      "map_runs s' = map_runs ?s"
      "length (mFreeMemoryMapEntryList s') + mMapDepth ?s = length (mFreeMemoryMapEntryList ?s)"
    using Suc.hyps(1)[of ?s] S(2) Suc.prems(2) Suc.hyps(2) f by auto
  have "same_rest s s'" using s'(3) by (simp add: same_rest_def)
  then show ?case using S(1,3) s' f Suc.hyps(2)[symmetric] by (intro exI[of _ s']) auto
qed

lemma CoreFreeMemoryMapStack_runs:
  assumes "descs s" "mMapDepth s \<le> length (mFreeMemoryMapEntryList s)" "mFreeMapStack s = 0"
  shows "\<exists>s'. CoreFreeMemoryMapStack s = Some s' \<and> descs s' \<and> same_rest s s' \<and> mMapDepth s' = 0 \<and>
    map_runs s' = map_runs s \<and>
    length (mFreeMemoryMapEntryList s') + mMapDepth s = length (mFreeMemoryMapEntryList s)"
proof -
  let ?s = "s\<lparr>mFreeMapStack := 1\<rparr>"
  have "descs ?s" using assms(1) by simp
  then obtain s' where s': "free_stack_loop ?s = Some s'" "descs s'" "same_rest ?s s'" "mMapDepth s' = 0"
      "map_runs s' = map_runs ?s"
      "length (mFreeMemoryMapEntryList s') + mMapDepth s = length (mFreeMemoryMapEntryList s)"
    using free_stack_loop_runs[of ?s] assms(2) by auto
  let ?r = "s'\<lparr>mFreeMapStack := 0\<rparr>"
  have "CoreFreeMemoryMapStack s = Some ?r"
    using s'(1,3) assms(3) by (simp add: CoreFreeMemoryMapStack_def same_rest_def)
  moreover have "descs ?r" using s'(2) by simp
  ultimately show ?thesis using s' assms(3)
    by (intro exI[of _ ?r]) (simp add: map_runs_def same_rest_def)
qed

end
