(* ===== verification/Smm_Free.thy ===== *)
theory Smm_Free
  imports Smm_Entry
begin

text \<open>
  The ring of free nodes as a list of runs: taking pages from one node, and the search for the node from
  the end of the ring.
\<close>

definition node_runs :: "free_node list \<Rightarrow> map_run list" where
  "node_runs ns = map node_run ns"

definition nodes_ok :: "free_node list \<Rightarrow> bool" where
  "nodes_ok ns \<longleftrightarrow> (\<forall>x \<in> set ns. page_node x) \<and> canonical (node_runs ns)"

lemma node_runs_simps [simp]:
  "node_runs [] = []" "node_runs (x # ns) = node_run x # node_runs ns"
  "node_runs (ns @ ms) = node_runs ns @ node_runs ms"
  by (simp_all add: node_runs_def)

lemma nodes_ok_append: "nodes_ok (ns @ ms) \<Longrightarrow> nodes_ok ns \<and> nodes_ok ms"
  by (auto simp: nodes_ok_def canonical_append)

text \<open>The page in which the byte after M lies, and the pages that are in a list of runs.\<close>

definition page_above :: "u64 \<Rightarrow> nat" where
  "page_above M = Suc (unat M) div 4096"

lemma unat_u64: "unat (M :: u64) < 18446744073709551616"
  by (rule order_less_le_trans[OF unsigned_less]) simp

lemma page_above_max: "page_above (- 1) = page_limit"
  by (simp add: page_above_def page_limit_eq unsigned_minus_1_eq_mask mask_eq_exp_minus_1)

lemma page_above_le: "page_above M \<le> page_limit"
  unfolding page_above_def page_limit_eq using unat_u64[of M] by linarith

lemma page_end_above: "0 < h \<Longrightarrow> h \<le> page_limit \<Longrightarrow> page_end h \<le> M \<longleftrightarrow> h \<le> page_above M"
  by (simp add: word_le_nat_alt unat_page_end page_above_def less_eq_div_iff_mult_less_eq) linarith

lemma unat_minus_page:
  assumes "4096 * l \<le> Suc (unat M)" "0 < l"
  shows "unat (M + 1 - page_start l) = Suc (unat M) - 4096 * l"
proof -
  have "l \<le> page_limit" using assms(1) unat_u64[of M] unfolding page_limit_eq by linarith
  have e: "M + 1 - page_start l = word_of_nat (Suc (unat M) - 4096 * l)"
    using assms(1) by (simp add: page_start_def of_nat_diff)
  have "Suc (unat M) - 4096 * l < 2 ^ 64" using assms(2) unat_u64[of M] by simp
  then show ?thesis unfolding e unat_of_nat by simp
qed

lemma unat_TRUNCATE: "unat (TRUNCATE_TO_PAGES a) = unat a div 4096"
  by (simp add: TRUNCATE_TO_PAGES_def drop_bit_eq_div unat_div_distrib)

lemma unat_top_page:
  assumes "l < page_above M" "0 < l"
  shows "unat (TRUNCATE_TO_PAGES (M + 1 - page_start l)) = page_above M - l"
proof -
  have "4096 * l \<le> Suc (unat M)" using assms(1) unfolding page_above_def by linarith
  then show ?thesis using unat_minus_page assms(2) unfolding unat_TRUNCATE page_above_def by simp
qed

subsection \<open>One node\<close>

definition node_fits :: "u64 \<Rightarrow> u64 \<Rightarrow> free_node \<Rightarrow> bool" where
  "node_fits n M node \<longleftrightarrow> snd node \<ge> n \<and> fst node + EFI_PAGES_TO_SIZE n - 1 \<le> M"

lemma node_fits_iff:
  assumes "node_run (page_start l, k) = (t, l, h)" "0 < l" "0 < n" "h \<le> page_limit"
  shows "node_fits n M (page_start l, k) \<longleftrightarrow> l + unat n \<le> h \<and> l + unat n \<le> page_above M"
proof -
  have n: "0 < unat n" using assms(3) by (simp add: word_less_nat_alt)
  have h: "h = l + unat k" using assms(1) by (auto simp: node_run_def)
  have "l + unat n \<le> h \<Longrightarrow> page_end (l + unat n) \<le> M \<longleftrightarrow> l + unat n \<le> page_above M"
    using n assms(4) by (intro page_end_above) auto
  then show ?thesis
    using n h by (auto simp: node_fits_def page_range_end word_le_nat_alt)
qed

definition node_cells :: "nat \<Rightarrow> nat \<Rightarrow> free_node list" where
  "node_cells l h = (if l < h then [(page_start l, word_of_nat (h - l))] else [])"

lemma node_cells_run:
  assumes "0 < l" "h \<le> page_limit"
  shows "\<forall>x \<in> set (node_cells l h). page_node x" "node_runs (node_cells l h) = (if l < h then [(EfiConventionalMemory, l, h)] else [])"
proof -
  have u: "unat (word_of_nat (h - l) :: u64) = h - l" using assms(2) unfolding unat_of_nat page_limit_eq by simp
  show "\<forall>x \<in> set (node_cells l h). page_node x" "node_runs (node_cells l h) = (if l < h then [(EfiConventionalMemory, l, h)] else [])"
    using page_nodeI[of l "word_of_nat (h - l)"] u assms by (auto simp: node_cells_def word_less_nat_alt)
qed

lemma AllocPagesOnOneNode:
  assumes "0 < l" "l + unat k \<le> page_limit" "0 < n" "l + unat n \<le> l + unat k" "l + unat n \<le> page_above M"
  defines "a \<equiv> min (l + unat k) (page_above M) - unat n"
  shows "InternalAllocPagesOnOneNode (page_start l, k) n M =
    Some (node_cells l a @ node_cells (a + unat n) (l + unat k), page_start a)"
proof -
  let ?t = "TRUNCATE_TO_PAGES (M + 1 - page_start l)"
  define T where "T = (if ?t > k then k else ?t)"
  have n: "0 < unat n" using assms(3) by (simp add: word_less_nat_alt)
  have t: "unat ?t = page_above M - l" using unat_top_page[of l M] assms(1,5) n by simp
  have T: "unat T = min (unat k) (page_above M - l)" using t by (auto simp: T_def word_less_nat_alt)
  have nT: "unat n \<le> unat T" using T assms(4,5) by simp
  have B: "unat (T - n) = unat T - unat n" using nT by (simp add: unat_sub word_le_nat_alt)
  have a: "a = l + unat (T - n)" "a + unat n = l + unat T" using T B nT assms(4,5) n unfolding a_def by (auto simp: min_def)
  have K: "T < k \<Longrightarrow> unat (k - T) = unat k - unat T" by (simp add: unat_sub)
  have "node_cells l a = (if T - n > 0 then [(page_start l, T - n)] else [])"
    unfolding node_cells_def a(1) by (simp add: word_less_nat_alt)
  moreover have "node_cells (a + unat n) (l + unat k) = (if T < k then [(page_start l + EFI_PAGES_TO_SIZE T, k - T)] else [])"
  proof (cases "T < k")
    case True
    then have "unat k - unat T = unat (k - T)" using K by simp
    then show ?thesis using True unfolding node_cells_def a(2) by (simp add: word_less_nat_alt page_start_plus)
  next
    case False
    then show ?thesis unfolding node_cells_def a(2) by (simp add: word_less_nat_alt)
  qed
  moreover have "T \<noteq> 0" using nT n by auto
  moreover have "page_start a = page_start l + EFI_PAGES_TO_SIZE (T - n)" unfolding a(1) page_start_plus ..
  moreover have "(if k < ?t then k else ?t) = T" by (simp add: T_def)
  ultimately show ?thesis by (simp add: InternalAllocPagesOnOneNode_def Let_def)
qed

end
