(* ===== verification/Smm_Alloc.thy ===== *)
theory Smm_Alloc
  imports Smm_Free
begin

text \<open>
  The two searches of the ring of free nodes.  InternalAllocMaxAddress finds the highest pages below the
  limit, InternalAllocAddress the given ones; the nodes that are left are the free pages without them.
\<close>

definition fits :: "free_node list \<Rightarrow> u64 \<Rightarrow> u64 \<Rightarrow> nat \<Rightarrow> bool" where
  "fits ns n M a \<longleftrightarrow>
     covers (node_runs ns) EfiConventionalMemory a (a + unat n) \<and> a + unat n \<le> page_above M"

definition taken :: "free_node list \<Rightarrow> nat \<Rightarrow> nat \<Rightarrow> free_node list \<Rightarrow> bool" where
  "taken ns a b ns' \<longleftrightarrow> nodes_ok ns' \<and>
     view (node_runs ns') = (\<lambda>p. if a \<le> p \<and> p < b then None else view (node_runs ns) p)"

lemma nodes_okE:
  assumes "nodes_ok ns" "x \<in> set ns"
  obtains l k where "x = (page_start l, k)" "0 < l" "0 < k" "l + unat k \<le> page_limit"
    "node_run x = (EfiConventionalMemory, l, l + unat k)"
proof -
  obtain P k where x: "x = (P, k)" by (cases x)
  have "page_node (P, k)" using assms x unfolding nodes_ok_def by blast
  then show ?thesis using page_nodeE[of P k] that x by metis
qed

lemma node_runs_in: "r \<in> set (node_runs ns) \<Longrightarrow> \<exists>x \<in> set ns. node_run x = r"
  by (auto simp: node_runs_def)

lemma fits_node:
  assumes "nodes_ok ns" "0 < n" "fits ns n M a"
  obtains l k where "(page_start l, k) \<in> set ns" "node_run (page_start l, k) = (EfiConventionalMemory, l, l + unat k)"
    "l \<le> a" "a + unat n \<le> l + unat k" "node_fits n M (page_start l, k)"
proof -
  have n: "0 < unat n" using assms(2) by (simp add: word_less_nat_alt)
  have c: "canonical (node_runs ns)" using assms(1) by (simp add: nodes_ok_def)
  obtain l h where r: "(EfiConventionalMemory, l, h) \<in> set (node_runs ns)" "l \<le> a" "a + unat n \<le> h"
    using assms(3) covers_run[OF c, of a "a + unat n" EfiConventionalMemory] n unfolding fits_def by auto
  obtain x where x: "x \<in> set ns" "node_run x = (EfiConventionalMemory, l, h)" using node_runs_in[OF r(1)] by blast
  obtain l' k where y: "x = (page_start l', k)" "0 < l'" "l' + unat k \<le> page_limit"
      "node_run x = (EfiConventionalMemory, l', l' + unat k)"
    using nodes_okE[OF assms(1) x(1)] by metis
  have "node_fits n M (page_start l', k)"
    using node_fits_iff[of l' k EfiConventionalMemory h n M] x y r assms(2,3) unfolding fits_def by auto
  then show ?thesis using that[of l' k] x y r by auto
qed

lemma alloc_max_loop_cases:
  "(\<forall>x \<in> set below. \<not> node_fits n M x) \<and> alloc_max_loop n M below rest = Some (- 1, rev below @ rest) \<or>
   (\<exists>pre x post. rev below = pre @ x # post \<and> node_fits n M x \<and> (\<forall>y \<in> set post. \<not> node_fits n M y) \<and>
      alloc_max_loop n M below rest =
        map_option (\<lambda>(nodes, a). (a, pre @ nodes @ post @ rest)) (InternalAllocPagesOnOneNode x n M))"
proof (induction below arbitrary: rest)
  case (Cons x below)
  obtain P k where x: "x = (P, k)" by (cases x)
  show ?case
  proof (cases "node_fits n M x")
    case True
    then have "alloc_max_loop n M (x # below) rest =
        map_option (\<lambda>(nodes, a). (a, rev below @ nodes @ [] @ rest)) (InternalAllocPagesOnOneNode x n M)"
      by (cases "InternalAllocPagesOnOneNode x n M") (auto simp: x node_fits_def)
    then show ?thesis using True by (intro disjI2 exI[of _ "rev below"] exI[of _ x] exI[of _ "[]"]) simp
  next
    case False
    then have e: "alloc_max_loop n M (x # below) rest = alloc_max_loop n M below (x # rest)"
      by (auto simp: x node_fits_def)
    from Cons.IH[of "x # rest"] show ?thesis
    proof (elim disjE exE conjE)
      assume "\<forall>y \<in> set below. \<not> node_fits n M y" "alloc_max_loop n M below (x # rest) = Some (- 1, rev below @ x # rest)"
      then show ?thesis using e False by simp
    next
      fix pre y post
      assume "rev below = pre @ y # post" "node_fits n M y" "\<forall>y \<in> set post. \<not> node_fits n M y"
        "alloc_max_loop n M below (x # rest) =
          map_option (\<lambda>(nodes, a). (a, pre @ nodes @ post @ x # rest)) (InternalAllocPagesOnOneNode y n M)"
      then show ?thesis using e False
        by (intro disjI2 exI[of _ pre] exI[of _ y] exI[of _ "post @ [x]"]) simp
    qed
  qed
qed simp

lemma node_cells_taken:
  assumes ok: "nodes_ok (pre @ (page_start l, k) # post)"
    and r: "node_run (page_start l, k) = (EfiConventionalMemory, l, l + unat k)" "0 < l" "l + unat k \<le> page_limit"
    and ab: "l \<le> a" "a < b" "b \<le> l + unat k"
  shows "taken (pre @ (page_start l, k) # post) a b (pre @ (node_cells l a @ node_cells b (l + unat k)) @ post)"
proof -
  let ?h = "l + unat k" and ?C = EfiConventionalMemory
  have c: "canonical (node_runs pre @ (?C, l, ?h) # node_runs post)" using ok r(1) by (simp add: nodes_ok_def)
  have cells: "node_runs (node_cells l a) = piece (?C, l, a)" "node_runs (node_cells b ?h) = piece (?C, b, ?h)"
      "\<forall>x \<in> set (node_cells l a @ node_cells b ?h). page_node x"
    using node_cells_run[of l a] node_cells_run[of b ?h] r ab by (auto simp: piece_def)
  note K = canonical_cut[OF c ab]
  have "nodes_ok (pre @ (node_cells l a @ node_cells b ?h) @ post)"
    using ok cells K(1) by (auto simp: nodes_ok_def)
  moreover have "view (node_runs (pre @ (node_cells l a @ node_cells b ?h) @ post)) =
      (\<lambda>p. if a \<le> p \<and> p < b then None else view (node_runs (pre @ (page_start l, k) # post)) p)"
    using K(2) cells r(1) by (intro ext) simp
  ultimately show ?thesis unfolding taken_def by blast
qed

lemma InternalAllocMaxAddress_spec:
  assumes ok: "nodes_ok ns" and n: "0 < n"
  shows "(\<forall>a. \<not> fits ns n M a) \<and> InternalAllocMaxAddress ns n M = Some (- 1, ns) \<or>
    (\<exists>a ns'. InternalAllocMaxAddress ns n M = Some (page_start a, ns') \<and> 0 < a \<and> fits ns n M a \<and>
       (\<forall>a'. fits ns n M a' \<longrightarrow> a' \<le> a) \<and> taken ns a (a + unat n) ns')"
  using alloc_max_loop_cases[of "rev ns" n M "[]"]
proof (elim disjE exE conjE)
  assume none: "\<forall>x \<in> set (rev ns). \<not> node_fits n M x"
    and e: "alloc_max_loop n M (rev ns) [] = Some (- 1, rev (rev ns) @ [])"
  have "\<not> fits ns n M a" for a
  proof
    assume "fits ns n M a"
    then obtain l k where "(page_start l, k) \<in> set ns" "node_fits n M (page_start l, k)"
      using fits_node[OF ok n] by metis
    then show False using none by simp
  qed
  then show ?thesis using e by (simp add: InternalAllocMaxAddress_def)
next
  fix pre x post
  assume e: "rev (rev ns) = pre @ x # post" and f: "node_fits n M x" and none: "\<forall>y \<in> set post. \<not> node_fits n M y"
    and r: "alloc_max_loop n M (rev ns) [] =
      map_option (\<lambda>(nodes, a). (a, pre @ nodes @ post @ [])) (InternalAllocPagesOnOneNode x n M)"
  have xin: "x \<in> set ns" and ns: "ns = pre @ x # post" using e by auto
  have n': "0 < unat n" using n by (simp add: word_less_nat_alt)
  obtain l k where x: "x = (page_start l, k)" "0 < l" "0 < k" "l + unat k \<le> page_limit"
      "node_run x = (EfiConventionalMemory, l, l + unat k)"
    using nodes_okE[OF ok xin] by metis
  let ?h = "l + unat k"
  define a where "a = min ?h (page_above M) - unat n"
  have lf: "l + unat n \<le> ?h" "l + unat n \<le> page_above M"
    using node_fits_iff[of l k EfiConventionalMemory ?h n M] f x n by auto
  have a: "l \<le> a" "a + unat n \<le> ?h" "a + unat n \<le> page_above M" "a < a + unat n"
    using lf n' unfolding a_def by auto
  have "InternalAllocPagesOnOneNode x n M = Some (node_cells l a @ node_cells (a + unat n) ?h, page_start a)"
    using AllocPagesOnOneNode[OF x(2,4) n lf] x(1) unfolding a_def by simp
  then have res: "InternalAllocMaxAddress ns n M =
      Some (page_start a, pre @ (node_cells l a @ node_cells (a + unat n) ?h) @ post)"
    using r by (simp add: InternalAllocMaxAddress_def)
  have c: "canonical (node_runs ns)" using ok by (simp add: nodes_ok_def)
  have xr: "(EfiConventionalMemory, l, ?h) \<in> set (node_runs ns)" using ns x(5) by simp
  have fa: "fits ns n M a"
    using covers_run[OF c a(4)] xr a unfolding fits_def by blast
  have top: "a' \<le> a" if fa': "fits ns n M a'" for a'
  proof -
    obtain l' k' where y: "(page_start l', k') \<in> set ns" "node_run (page_start l', k') = (EfiConventionalMemory, l', l' + unat k')"
        "l' \<le> a'" "a' + unat n \<le> l' + unat k'" "node_fits n M (page_start l', k')"
      using fits_node[OF ok n fa'] by metis
    have lim: "a' + unat n \<le> page_above M" using fa' unfolding fits_def by blast
    from y(1) consider "(page_start l', k') \<in> set pre" | "(page_start l', k') = x" | "(page_start l', k') \<in> set post"
      using ns by auto
    then show ?thesis
    proof cases
      case 1
      then have "apart_runs (EfiConventionalMemory, l', l' + unat k') (EfiConventionalMemory, l, ?h)"
        using c ns x(5) y(2) by (force simp: canonical_append node_runs_def)
      then show ?thesis using y(4) a(1) n' by simp
    next
      case 2
      then have "l' + unat k' = ?h" using y(2) x(5) by simp
      then show ?thesis using lim y(4) unfolding a_def by simp
    next
      case 3
      then show ?thesis using none y(5) by blast
    qed
  qed
  have "taken ns a (a + unat n) (pre @ (node_cells l a @ node_cells (a + unat n) ?h) @ post)"
    using node_cells_taken[of pre l k post a "a + unat n"] ok ns x a by simp
  then show ?thesis using res fa top a(1) x(2) by (intro disjI2) auto
qed

subsection \<open>A given address\<close>

lemma page_aligned: "page_start a AND EFI_PAGE_MASK = 0"
proof -
  have "page_start a = push_bit 12 (word_of_nat a)" by (simp add: page_start_def push_bit_eq_mult mult.commute)
  moreover have "EFI_PAGE_MASK = mask 12" by (simp add: EFI_PAGE_MASK_def mask_eq_exp_minus_1)
  moreover have "take_bit 12 (push_bit 12 (word_of_nat a :: u64)) = 0" by (simp add: take_bit_push_bit)
  ultimately show ?thesis by (simp add: take_bit_eq_mask)
qed

lemma aligned_page:
  assumes "A AND EFI_PAGE_MASK = 0"
  shows "A = page_start (unat A div 4096)" "unat A div 4096 < page_limit"
proof -
  have "EFI_PAGE_MASK = mask 12" by (simp add: EFI_PAGE_MASK_def mask_eq_exp_minus_1)
  then have "take_bit 12 A = 0" using assms by (simp add: take_bit_eq_mask)
  then have "take_bit 12 (unat A) = 0" by (metis unsigned_0 unsigned_take_bit_eq)
  then have "unat A mod 4096 = 0" by (simp add: take_bit_eq_mod)
  then have u: "4096 * (unat A div 4096) = unat A" by auto
  show "A = page_start (unat A div 4096)" unfolding page_start_def u by simp
  show "unat A div 4096 < page_limit" using unat_u64[of A] by (simp add: page_limit_eq)
qed

lemma alloc_address_loop_cases:
  "(\<forall>x \<in> set below. \<not> fst x \<le> A) \<and> alloc_address_loop n A E below rest = Some (NOT A, rev below @ rest) \<or>
   (\<exists>pre x post. rev below = pre @ x # post \<and> fst x \<le> A \<and> (\<forall>y \<in> set post. \<not> fst y \<le> A) \<and>
      alloc_address_loop n A E below rest =
        (if fst x + EFI_PAGES_TO_SIZE (snd x) < E then Some (NOT A, pre @ x # post @ rest)
         else map_option (\<lambda>(nodes, a). (a, pre @ nodes @ post @ rest)) (InternalAllocPagesOnOneNode x n E)))"
proof (induction below arbitrary: rest)
  case (Cons x below)
  obtain P k where x: "x = (P, k)" by (cases x)
  show ?case
  proof (cases "P \<le> A")
    case True
    then have "alloc_address_loop n A E (x # below) rest =
        (if fst x + EFI_PAGES_TO_SIZE (snd x) < E then Some (NOT A, rev below @ x # [] @ rest)
         else map_option (\<lambda>(nodes, a). (a, rev below @ nodes @ [] @ rest)) (InternalAllocPagesOnOneNode x n E))"
      by (cases "InternalAllocPagesOnOneNode x n E") (auto simp: x)
    then show ?thesis using True x by (intro disjI2 exI[of _ "rev below"] exI[of _ x] exI[of _ "[]"]) simp
  next
    case False
    then have e: "alloc_address_loop n A E (x # below) rest = alloc_address_loop n A E below (x # rest)"
      by (simp add: x)
    from Cons.IH[of "x # rest"] show ?thesis
    proof (elim disjE exE conjE)
      assume "\<forall>y \<in> set below. \<not> fst y \<le> A" "alloc_address_loop n A E below (x # rest) = Some (NOT A, rev below @ x # rest)"
      then show ?thesis using e False x by simp
    next
      fix pre y post
      assume "rev below = pre @ y # post" "fst y \<le> A" "\<forall>y \<in> set post. \<not> fst y \<le> A"
        "alloc_address_loop n A E below (x # rest) =
          (if fst y + EFI_PAGES_TO_SIZE (snd y) < E then Some (NOT A, pre @ y # post @ x # rest)
           else map_option (\<lambda>(nodes, a). (a, pre @ nodes @ post @ x # rest)) (InternalAllocPagesOnOneNode y n E))"
      then show ?thesis using e False x
        by (intro disjI2 exI[of _ pre] exI[of _ y] exI[of _ "post @ [x]"]) simp
    qed
  qed
qed simp

lemma page_above_start: "a < page_limit \<Longrightarrow> page_above (page_start a) = a"
  by (simp add: page_above_def unat_page_start)

lemma InternalAllocAddress_spec:
  assumes ok: "nodes_ok ns" and n: "0 < n" and lim: "a + unat n < page_limit"
    and below: "\<forall>r \<in> set (node_runs ns). snd (snd r) < page_limit"
  shows "if covers (node_runs ns) EfiConventionalMemory a (a + unat n)
    then \<exists>ns'. InternalAllocAddress ns n (page_start a) = Some (page_start a, ns') \<and> taken ns a (a + unat n) ns'
    else InternalAllocAddress ns n (page_start a) = Some (NOT (page_start a), ns)"
proof -
  let ?A = "page_start a" and ?b = "a + unat n" and ?C = EfiConventionalMemory
  have n': "0 < unat n" using n by (simp add: word_less_nat_alt)
  have c: "canonical (node_runs ns)" using ok by (simp add: nodes_ok_def)
  have run: "InternalAllocAddress ns n ?A = alloc_address_loop n ?A (page_start ?b) (rev ns) []"
    using page_aligned by (simp add: InternalAllocAddress_def page_start_plus)
  have at: "\<exists>l k. (page_start l, k) \<in> set ns \<and> node_run (page_start l, k) = (?C, l, l + unat k) \<and> l \<le> a \<and> ?b \<le> l + unat k"
    if cv: "covers (node_runs ns) ?C a ?b"
  proof -
    obtain l h where r: "(?C, l, h) \<in> set (node_runs ns)" "l \<le> a" "?b \<le> h"
      using cv covers_run[OF c, of a ?b ?C] n' by auto
    obtain x where x: "x \<in> set ns" "node_run x = (?C, l, h)" using node_runs_in[OF r(1)] by blast
    show ?thesis using nodes_okE[OF ok x(1)] x r by (metis fst_conv snd_conv)
  qed
  show ?thesis
    using alloc_address_loop_cases[of "rev ns" ?A n "page_start ?b" "[]"]
  proof (elim disjE exE conjE)
    assume none: "\<forall>x \<in> set (rev ns). \<not> fst x \<le> ?A"
      and e: "alloc_address_loop n ?A (page_start ?b) (rev ns) [] = Some (NOT ?A, rev (rev ns) @ [])"
    have "\<not> covers (node_runs ns) ?C a ?b"
    proof
      assume "covers (node_runs ns) ?C a ?b"
      then obtain l k where "(page_start l, k) \<in> set ns" "l \<le> a" using at by blast
      then show False using none lim page_start_le[of l a] by fastforce
    qed
    then show ?thesis using e run by simp
  next
    fix pre x post
    assume e: "rev (rev ns) = pre @ x # post" and f: "fst x \<le> ?A" and none: "\<forall>y \<in> set post. \<not> fst y \<le> ?A"
      and r: "alloc_address_loop n ?A (page_start ?b) (rev ns) [] =
        (if fst x + EFI_PAGES_TO_SIZE (snd x) < page_start ?b then Some (NOT ?A, pre @ x # post @ [])
         else map_option (\<lambda>(nodes, a). (a, pre @ nodes @ post @ [])) (InternalAllocPagesOnOneNode x n (page_start ?b)))"
    have xin: "x \<in> set ns" and ns: "ns = pre @ x # post" using e by auto
    obtain l k where x: "x = (page_start l, k)" "0 < l" "0 < k" "l + unat k \<le> page_limit"
        "node_run x = (?C, l, l + unat k)"
      using nodes_okE[OF ok xin] by metis
    let ?h = "l + unat k"
    have h: "?h < page_limit" using below ns x(5) by simp
    have k: "0 < unat k" using x(3) by (simp add: word_less_nat_alt)
    have la: "l \<le> a" using f x(1) lim h page_start_le[of l a] by simp
    have test: "fst x + EFI_PAGES_TO_SIZE (snd x) < page_start ?b \<longleftrightarrow> ?h < ?b"
      using h lim page_start_less[of ?h ?b] by (simp add: x(1) page_start_plus)
    show ?thesis
    proof (cases "?h < ?b")
      case True
      have "\<not> covers (node_runs ns) ?C a ?b"
      proof
        assume "covers (node_runs ns) ?C a ?b"
        then obtain l' k' where y: "(page_start l', k') \<in> set ns" "node_run (page_start l', k') = (?C, l', l' + unat k')"
            "l' \<le> a" "?b \<le> l' + unat k'" using at by blast
        from y(1) consider "(page_start l', k') \<in> set pre" | "(page_start l', k') = x" | "(page_start l', k') \<in> set post"
          using ns by auto
        then show False
        proof cases
          case 1
          then have "apart_runs (?C, l', l' + unat k') (?C, l, ?h)"
            using c ns x(5) y(2) by (force simp: canonical_append node_runs_def)
          then show ?thesis using y(4) la n' by simp
        next
          case 2
          then have "l' + unat k' = ?h" using y(2) x(5) by simp
          then show ?thesis using True y(4) by simp
        next
          case 3
          then have "\<not> page_start l' \<le> ?A" using none by force
          then show ?thesis using y(3) lim page_start_le[of l' a] by simp
        qed
      qed
      then show ?thesis using r run test True ns by simp
    next
      case False
      then have bh: "?b \<le> ?h" by simp
      have pa: "page_above (page_start ?b) = ?b" using page_above_start lim by simp
      have "InternalAllocPagesOnOneNode x n (page_start ?b) = Some (node_cells l a @ node_cells ?b ?h, page_start a)"
        using AllocPagesOnOneNode[OF x(2,4) n, of "page_start ?b"] x(1) la bh pa by (simp add: min_def)
      then have "InternalAllocAddress ns n ?A = Some (?A, pre @ (node_cells l a @ node_cells ?b ?h) @ post)"
        using r run test False by simp
      moreover have "taken ns a ?b (pre @ (node_cells l a @ node_cells ?b ?h) @ post)"
        using node_cells_taken[of pre l k post a ?b] ok ns x la bh n' by simp
      moreover have "covers (node_runs ns) ?C a ?b"
        using covers_run[OF c, of a ?b ?C] n' ns x(5) la bh by auto
      ultimately show ?thesis by auto
    qed
  qed
qed

lemma InternalAllocAddress_unaligned:
  "A AND EFI_PAGE_MASK \<noteq> 0 \<Longrightarrow> InternalAllocAddress ns n A = Some (NOT A, ns)"
  by (simp add: InternalAllocAddress_def)

end
