(* ===== verification/Smm_Release.thy ===== *)
theory Smm_Release
  imports Smm_Alloc
begin

text \<open>
  The other direction: a range that meets no free node is put into the ring of free nodes, joined to
  its neighbours.
\<close>

lemma page_nodeE2:
  assumes "page_node x" "node_run x = (t, l, h)"
  shows "x = (page_start l, word_of_nat (h - l))" "t = EfiConventionalMemory" "0 < l" "l < h" "h \<le> page_limit"
    "h = l + unat (snd x)"
proof -
  obtain P k where x: "x = (P, k)" by (cases x)
  obtain l' where P: "P = page_start l'" "0 < l'" "0 < k" "l' + unat k \<le> page_limit"
      "node_run (P, k) = (EfiConventionalMemory, l', l' + unat k)"
    using page_nodeE[of P k] assms(1) x by metis
  have k: "0 < unat k" using P(3) by (simp add: word_less_nat_alt)
  have "l' = l" "h = l + unat k" "t = EfiConventionalMemory" using P(5) assms(2) x by auto
  then show "x = (page_start l, word_of_nat (h - l))" "t = EfiConventionalMemory" "0 < l" "l < h" "h \<le> page_limit"
      "h = l + unat (snd x)"
    using x P k by auto
qed

lemma InternalMergeNodes_run:
  assumes x: "page_node x" "node_run x = (t, l, h)" and y: "page_node y" "node_run y = (t', l', h')" and le: "h \<le> l'"
  shows "\<exists>zs. InternalMergeNodes x y = Some zs \<and> zs \<noteq> [] \<and> (\<forall>z \<in> set zs. page_node z) \<and>
    zs = (if h = l' then [last zs] else [x, y]) \<and> node_runs zs = (if h = l' then [(t, l, h')] else [(t, l, h), (t', l', h')])"
proof -
  note X = page_nodeE2[OF x] and Y = page_nodeE2[OF y]
  let ?d = "page_start l' - page_start l"
  have "page_start l' = page_start l + page_start (l' - l)"
    using le X(4) by (simp add: page_start_def of_nat_diff)
  then have "?d = page_start (l' - l)" by simp
  then have "unat ?d = 4096 * (l' - l)" using unat_page_start[of "l' - l"] Y(4,5) by simp
  then have D: "unat (TRUNCATE_TO_PAGES ?d) = l' - l" by (simp add: unat_TRUNCATE)
  have px: "fst x = page_start l" "fst y = page_start l'" using X(1) Y(1) by (metis fst_conv)+
  have ge: "TRUNCATE_TO_PAGES (fst y - fst x) \<ge> snd x"
    unfolding word_le_nat_alt px D using le X(4,6) by simp
  have eq: "TRUNCATE_TO_PAGES (fst y - fst x) = snd x \<longleftrightarrow> h = l'"
    unfolding px word_unat_eq_iff D using le X(4,6) by auto
  show ?thesis
  proof (cases "h = l'")
    case False
    then show ?thesis using ge eq x y by (intro exI[of _ "[x, y]"]) (simp add: InternalMergeNodes_def)
  next
    case True
    have u: "unat (snd x + snd y) = h' - l"
      using X(4,5,6) Y(4,5,6) True by (subst unat_add_lem[THEN iffD1]) (auto simp: page_limit_eq)
    have "page_node (page_start l, snd x + snd y)" "node_run (page_start l, snd x + snd y) = (EfiConventionalMemory, l, h')"
      using page_nodeI[of l "snd x + snd y"] u X(3,4) Y(4,5) True by (auto simp: word_less_nat_alt)
    then show ?thesis using ge eq True X(2) px
      by (intro exI[of _ "[(page_start l, snd x + snd y)]"]) (simp add: InternalMergeNodes_def)
  qed
qed

text \<open>The nodes SmmInternalFreePagesEx leaves when the range meets no node.\<close>

definition put_node :: "free_node list \<Rightarrow> free_node \<Rightarrow> free_node list \<Rightarrow> free_node list option" where
  "put_node below x aloft = do {
     low \<leftarrow> (if below \<noteq> [] then InternalMergeNodes (last below) x else Some [x]);
     high \<leftarrow> (if aloft \<noteq> [] then InternalMergeNodes (last low) (hd aloft) else Some [last low]);
     Some (butlast below @ butlast low @ high @ tl aloft)
   }"

lemma put_node_low:
  assumes ok: "nodes_ok below" and x: "page_node x" "node_run x = (t, a, b)"
    and le: "\<forall>r \<in> set (node_runs below). snd (snd r) \<le> a"
  shows "\<exists>low y rs l. (if below \<noteq> [] then InternalMergeNodes (last below) x else Some [x]) = Some low \<and>
    low \<noteq> [] \<and> last low = y \<and> page_node y \<and> node_run y = (t, l, b) \<and> (\<forall>z \<in> set (butlast below @ butlast low). page_node z) \<and>
    node_runs (butlast below @ butlast low) = rs \<and>
    (\<forall>c qs. join_left (node_runs below) ((t, a, c) # qs) = rs @ (t, l, c) # qs)"
proof (cases below rule: rev_cases)
  case Nil
  then show ?thesis using x by (simp add: join_left_def)
next
  case (snoc xs w)
  obtain t' l' h' where w: "node_run w = (t', l', h')" by (cases "node_run w")
  have wn: "page_node w" "\<forall>z \<in> set xs. page_node z" using ok snoc by (auto simp: nodes_ok_def)
  have tt: "t' = t" using page_nodeE2(2)[OF wn(1) w] page_nodeE2(2)[OF x] by simp
  have "h' \<le> a" using le snoc w by auto
  then obtain zs where zs: "InternalMergeNodes w x = Some zs" "zs \<noteq> []" "\<forall>z \<in> set zs. page_node z"
      "zs = (if h' = a then [last zs] else [w, x])"
      "node_runs zs = (if h' = a then [(t', l', b)] else [(t', l', h'), (t, a, b)])"
    using InternalMergeNodes_run[OF wn(1) w x] by blast
  show ?thesis
  proof (cases "h' = a")
    case True
    then obtain z where z: "zs = [z]" using zs(4) by (metis (full_types))
    then show ?thesis using zs snoc True tt wn w by (simp add: join_left_def)
  next
    case False
    then have "zs = [w, x]" using zs(4) by simp
    then show ?thesis using zs snoc False tt wn w x by (simp add: join_left_def)
  qed
qed

lemma put_node_runs:
  assumes ok: "nodes_ok (below @ aloft)" and x: "page_node x" "node_run x = (t, a, b)"
    and le: "\<forall>r \<in> set (node_runs below). snd (snd r) \<le> a" and ge: "\<forall>r \<in> set (node_runs aloft). b \<le> fst (snd r)"
  shows "\<exists>ns'. put_node below x aloft = Some ns' \<and> (\<forall>z \<in> set ns'. page_node z) \<and>
    node_runs ns' = place_run (node_runs below) (t, a, b) (node_runs aloft)"
proof -
  have okb: "nodes_ok below" using nodes_ok_append[OF ok] by blast
  obtain low y rs l where L: "(if below \<noteq> [] then InternalMergeNodes (last below) x else Some [x]) = Some low"
      "low \<noteq> []" "last low = y" "page_node y" "node_run y = (t, l, b)" "\<forall>z \<in> set (butlast below @ butlast low). page_node z"
      "node_runs (butlast below @ butlast low) = rs"
      "\<forall>c qs. join_left (node_runs below) ((t, a, c) # qs) = rs @ (t, l, c) # qs"
    using put_node_low[OF okb x le] by blast
  show ?thesis
  proof (cases aloft)
    case Nil
    then have "put_node below x aloft = Some ((butlast below @ butlast low) @ [y])"
      using L(1,3) by (simp add: put_node_def)
    moreover have "node_runs ((butlast below @ butlast low) @ [y]) = place_run (node_runs below) (t, a, b) (node_runs aloft)"
      using L(5,7,8) Nil by (simp add: place_run_def)
    moreover have "\<forall>z \<in> set ((butlast below @ butlast low) @ [y]). page_node z" using L(4,6) by auto
    ultimately show ?thesis by blast
  next
    case (Cons w ws)
    obtain t' l' h' where w: "node_run w = (t', l', h')" by (cases "node_run w")
    have wn: "page_node w" "\<forall>z \<in> set ws. page_node z" using ok Cons by (auto simp: nodes_ok_def)
    have tt: "t' = t" using page_nodeE2(2)[OF wn(1) w] page_nodeE2(2)[OF x] by simp
    have "b \<le> l'" using ge Cons w by auto
    then obtain zs where zs: "InternalMergeNodes y w = Some zs" "\<forall>z \<in> set zs. page_node z"
        "node_runs zs = (if b = l' then [(t, l, h')] else [(t, l, b), (t', l', h')])"
      using InternalMergeNodes_run[OF L(4,5) wn(1) w] by blast
    have "put_node below x aloft = Some ((butlast below @ butlast low) @ zs @ ws)"
      using L(1,3) zs(1) Cons by (simp add: put_node_def)
    moreover have "node_runs ((butlast below @ butlast low) @ zs @ ws) = rs @ node_runs zs @ node_runs ws"
      using L(7) by simp
    then have "node_runs ((butlast below @ butlast low) @ zs @ ws) = place_run (node_runs below) (t, a, b) (node_runs aloft)"
      using L(8) zs(3) Cons w tt by (simp add: place_run_def)
    moreover have "\<forall>z \<in> set ((butlast below @ butlast low) @ zs @ ws). page_node z" using L(6) zs(2) wn(2) by auto
    ultimately show ?thesis by blast
  qed
qed

subsection \<open>The place of a range\<close>

definition below_nodes :: "u64 \<Rightarrow> free_node list \<Rightarrow> free_node list" where
  "below_nodes A ns = takeWhile (\<lambda>(Pages, k). \<not> A < Pages) ns"

definition aloft_nodes :: "u64 \<Rightarrow> free_node list \<Rightarrow> free_node list" where
  "aloft_nodes A ns = dropWhile (\<lambda>(Pages, k). \<not> A < Pages) ns"

lemma below_aloft: "below_nodes A ns @ aloft_nodes A ns = ns"
  by (simp add: below_nodes_def aloft_nodes_def)

lemma node_word:
  assumes "page_node x" "node_run x = (t, l, h)" "h < page_limit" "a < page_limit" "b < page_limit"
  shows "page_start a < fst x \<longleftrightarrow> a < l" "page_start b > fst x \<longleftrightarrow> l < b"
    "fst x + EFI_PAGES_TO_SIZE (snd x) > page_start a \<longleftrightarrow> a < h"
proof -
  note X = page_nodeE2[OF assms(1,2)]
  have px: "fst x = page_start l" using X(1) by (metis fst_conv)
  have "fst x + EFI_PAGES_TO_SIZE (snd x) = page_start h" using X(6) by (simp add: px page_start_plus)
  then show "page_start a < fst x \<longleftrightarrow> a < l" "page_start b > fst x \<longleftrightarrow> l < b"
    "fst x + EFI_PAGES_TO_SIZE (snd x) > page_start a \<longleftrightarrow> a < h"
    using page_start_less[of a l] page_start_less[of l b] page_start_less[of a h] px X(4) assms(3-5) by auto
qed

text \<open>The two tests of SmmInternalFreePagesEx say whether the range has a free page.\<close>

lemma node_below_limit:
  assumes "nodes_ok ns" "\<forall>r \<in> set (node_runs ns). snd (snd r) < page_limit" "x \<in> set ns"
  obtains t l h where "page_node x" "node_run x = (t, l, h)" "l < h" "h < page_limit"
proof -
  obtain t l h where x: "node_run x = (t, l, h)" by (cases "node_run x")
  have n: "page_node x" using assms(1,3) by (simp add: nodes_ok_def)
  have "(t, l, h) \<in> set (node_runs ns)" using assms(3) x by (force simp: node_runs_def)
  then have "h < page_limit" using assms(2) by auto
  then show ?thesis using that[OF n x] page_nodeE2(4)[OF n x] by blast
qed

lemma below_start:
  assumes "nodes_ok ns" "\<forall>r \<in> set (node_runs ns). snd (snd r) < page_limit" "a < page_limit"
    "r \<in> set (node_runs (below_nodes (page_start a) ns))"
  shows "fst (snd r) \<le> a"
proof -
  obtain x where x: "x \<in> set (below_nodes (page_start a) ns)" "node_run x = r" using node_runs_in[OF assms(4)] by blast
  have t: "\<not> page_start a < fst x" "x \<in> set ns"
    using x(1) unfolding below_nodes_def by (auto dest: set_takeWhileD)
  obtain t' l h where "page_node x" "node_run x = (t', l, h)" "l < h" "h < page_limit"
    using node_below_limit[OF assms(1,2) t(2)] by metis
  then show ?thesis using node_word(1)[of x t' l h a a] t(1) x(2) assms(3) by auto
qed

lemma aloft_start:
  assumes "nodes_ok ns" "\<forall>r \<in> set (node_runs ns). snd (snd r) < page_limit" "a < page_limit"
    "aloft_nodes (page_start a) ns \<noteq> []"
  shows "a < fst (snd (node_run (hd (aloft_nodes (page_start a) ns))))"
proof -
  let ?x = "hd (aloft_nodes (page_start a) ns)"
  have t: "page_start a < fst ?x"
    using hd_dropWhile[of "\<lambda>(Pages, k). \<not> page_start a < Pages" ns] assms(4)
    unfolding aloft_nodes_def by (auto simp: case_prod_unfold)
  have "?x \<in> set (aloft_nodes (page_start a) ns)" using assms(4) by simp
  then have "?x \<in> set ns" using below_aloft[of "page_start a" ns] by (metis Un_iff set_append)
  then obtain t' l h where "page_node ?x" "node_run ?x = (t', l, h)" "l < h" "h < page_limit"
    using node_below_limit[OF assms(1,2)] by metis
  then show ?thesis using node_word(1)[of ?x t' l h a a] t assms(3) by auto
qed

lemma free_tests:
  assumes ok: "nodes_ok ns" and lim: "\<forall>r \<in> set (node_runs ns). snd (snd r) < page_limit"
    and ab: "a < b" "b < page_limit"
    and bs: "bs = below_nodes (page_start a) ns" and as: "as = aloft_nodes (page_start a) ns"
  shows "(as \<noteq> [] \<and> page_start b > fst (hd as) \<or>
      bs \<noteq> [] \<and> fst (last bs) + EFI_PAGES_TO_SIZE (snd (last bs)) > page_start a) \<longleftrightarrow> meets (node_runs ns) a b"
proof -
  have ns: "ns = bs @ as" unfolding bs as using below_aloft[of "page_start a" ns] by simp
  have c: "canonical (node_runs bs)" "canonical (node_runs as)" "canonical (node_runs ns)"
    using ok nodes_ok_append[of bs as] ns by (auto simp: nodes_ok_def)
  have al: "a < page_limit" using ab by simp
  have t1: "page_start b > fst (hd as) \<longleftrightarrow> fst (snd (node_run (hd as))) < b"
    and h1: "node_run (hd as) \<in> set (node_runs as)" "node_run (hd as) = hd (node_runs as)" if "as \<noteq> []"
  proof -
    have "hd as \<in> set ns" using that ns by (cases as) auto
    then obtain t l h where "page_node (hd as)" "node_run (hd as) = (t, l, h)" "l < h" "h < page_limit"
      using node_below_limit[OF ok lim] by metis
    then show "page_start b > fst (hd as) \<longleftrightarrow> fst (snd (node_run (hd as))) < b"
      using node_word(2)[of "hd as" t l h a b] ab by auto
    show "node_run (hd as) \<in> set (node_runs as)" "node_run (hd as) = hd (node_runs as)"
      using that by (cases as; simp)+
  qed
  have t2: "fst (last bs) + EFI_PAGES_TO_SIZE (snd (last bs)) > page_start a \<longleftrightarrow> a < snd (snd (node_run (last bs)))"
    and h2: "node_run (last bs) \<in> set (node_runs bs)" "node_run (last bs) = last (node_runs bs)" if "bs \<noteq> []"
  proof -
    have "last bs \<in> set ns" using that ns by simp
    then obtain t l h where "page_node (last bs)" "node_run (last bs) = (t, l, h)" "l < h" "h < page_limit"
      using node_below_limit[OF ok lim] by metis
    then show "fst (last bs) + EFI_PAGES_TO_SIZE (snd (last bs)) > page_start a \<longleftrightarrow> a < snd (snd (node_run (last bs)))"
      using node_word(3)[of "last bs" t l h a b] ab by auto
    show "node_run (last bs) \<in> set (node_runs bs)" "node_run (last bs) = last (node_runs bs)"
      using that by (simp_all add: node_runs_def last_map)
  qed
  have b1: "fst (snd r) \<le> a" if "r \<in> set (node_runs bs)" for r
    using below_start[OF ok lim al] that bs by simp
  have a1: "a < snd (snd r)" if "r \<in> set (node_runs as)" for r
  proof -
    have n: "as \<noteq> []" using that by auto
    have "a < fst (snd (hd (node_runs as)))" using aloft_start[OF ok lim al] n as h1(2) by metis
    also have "\<dots> \<le> fst (snd r)" using canonical_hd[OF c(2) that] .
    also have "\<dots> < snd (snd r)" using c(2) that by (simp add: canonical_def)
    finally show ?thesis .
  qed
  have nr: "set (node_runs ns) = set (node_runs bs) \<union> set (node_runs as)" using ns by simp
  have b2: "fst (snd r) < b" if "r \<in> set (node_runs bs)" for r using b1[OF that] ab(1) by simp
  have "meets (node_runs ns) a b \<longleftrightarrow>
      (\<exists>r \<in> set (node_runs as). fst (snd r) < b) \<or> (\<exists>r \<in> set (node_runs bs). a < snd (snd r))"
    unfolding meets_iff[OF c(3) ab(1)] nr bex_Un using a1 b2 by blast
  also have "(\<exists>r \<in> set (node_runs as). fst (snd r) < b) \<longleftrightarrow> as \<noteq> [] \<and> fst (snd (node_run (hd as))) < b"
    using h1 canonical_hd[OF c(2)] by (cases "as = []") (auto simp: intro: le_less_trans)
  also have "(\<exists>r \<in> set (node_runs bs). a < snd (snd r)) \<longleftrightarrow> bs \<noteq> [] \<and> a < snd (snd (node_run (last bs)))"
    using h2 canonical_last[OF c(1)] by (cases "bs = []") (auto simp: intro: less_le_trans)
  finally show ?thesis using t1 t2 by blast
qed

lemma apart_from_range:
  assumes ok: "nodes_ok ns" and lim: "\<forall>r \<in> set (node_runs ns). snd (snd r) < page_limit"
    and ab: "a < b" "b < page_limit" and free: "\<not> meets (node_runs ns) a b"
  shows "\<forall>r \<in> set (node_runs (below_nodes (page_start a) ns)). snd (snd r) \<le> a"
    "\<forall>r \<in> set (node_runs (aloft_nodes (page_start a) ns)). b \<le> fst (snd r)"
proof -
  let ?bs = "below_nodes (page_start a) ns" and ?as = "aloft_nodes (page_start a) ns"
  have ns: "node_runs ns = node_runs ?bs @ node_runs ?as" using below_aloft[of "page_start a" ns] by (metis node_runs_simps(3))
  have c: "canonical (node_runs ns)" "canonical (node_runs ?as)" using ok ns by (auto simp: nodes_ok_def canonical_append)
  have n: "b \<le> fst (snd r) \<or> snd (snd r) \<le> a" if "r \<in> set (node_runs ns)" for r
    using free that unfolding meets_iff[OF c(1) ab(1)] by force
  have al: "a < page_limit" using ab by simp
  show "\<forall>r \<in> set (node_runs ?bs). snd (snd r) \<le> a"
    using n ns below_start[OF ok lim al] ab(1) by fastforce
  show "\<forall>r \<in> set (node_runs ?as). b \<le> fst (snd r)"
  proof
    fix r assume r: "r \<in> set (node_runs ?as)"
    then have "?as \<noteq> []" by auto
    then have "a < fst (snd (hd (node_runs ?as)))" using aloft_start[OF ok lim al] by (cases ?as) auto
    also have "\<dots> \<le> fst (snd r)" using canonical_hd[OF c(2) r] .
    also have "\<dots> < snd (snd r)" using c(2) r by (simp add: canonical_def)
    finally show "b \<le> fst (snd r)" using n r ns by fastforce
  qed
qed

text \<open>The nodes with a range that no node meets.\<close>

lemma put_range:
  assumes ok: "nodes_ok ns" "\<forall>r \<in> set (node_runs ns). snd (snd r) < page_limit"
    and a: "0 < a" and n: "0 < n" and lim: "a + unat n < page_limit"
    and nm: "\<not> meets (node_runs ns) a (a + unat n)"
  shows "\<exists>ns'. put_node (below_nodes (page_start a) ns) (page_start a, n) (aloft_nodes (page_start a) ns) = Some ns' \<and>
    nodes_ok ns' \<and> view (node_runs ns') = (\<lambda>p. if a \<le> p \<and> p < a + unat n
      then (if EfiConventionalMemory = EfiConventionalMemory then Some EfiConventionalMemory else None)
      else view (node_runs ns) p)"
proof -
  let ?b = "a + unat n" and ?A = "page_start a" and ?C = EfiConventionalMemory
  let ?bs = "below_nodes ?A ns" and ?as = "aloft_nodes ?A ns"
  have ab: "a < ?b" using n by (simp add: word_less_nat_alt)
  note apart = apart_from_range[OF ok ab lim nm]
  have x: "page_node (?A, n)" "node_run (?A, n) = (?C, a, ?b)" using page_nodeI[OF a n] lim by auto
  have ok2: "nodes_ok (?bs @ ?as)" using ok(1) below_aloft[of ?A ns] by simp
  obtain ns' where ns': "put_node ?bs (?A, n) ?as = Some ns'" "\<forall>z \<in> set ns'. page_node z"
      "node_runs ns' = place_run (node_runs ?bs) (?C, a, ?b) (node_runs ?as)"
    using put_node_runs[OF ok2 x apart] by blast
  have c: "canonical (node_runs ?bs)" "canonical (node_runs ?as)" using ok2 by (auto simp: nodes_ok_def canonical_append)
  note K = place_run_canonical[OF c ab apart, of ?C]
  have "view (node_runs ns') = (\<lambda>p. if a \<le> p \<and> p < ?b then (if ?C = ?C then Some ?C else None) else view (node_runs ns) p)"
    using K(2) ns'(3) below_aloft[of ?A ns] node_runs_simps(3)[of ?bs ?as] by auto
  moreover have "nodes_ok ns'" using K(1) ns' by (simp add: nodes_ok_def)
  ultimately show ?thesis using ns'(1) by blast
qed

end
