(* ===== verification/Smm_Mem.thy ===== *)
theory Smm_Mem
  imports Smm_Stack Smm_Release
begin

text \<open>
  The invariant of the page allocator, and what the two services make of the type of each page.  The
  ring of free nodes holds the runs of EfiConventionalMemory of the ring of descriptors.
\<close>

definition smm_ok :: "page_state \<Rightarrow> bool" where
  "smm_ok s \<longleftrightarrow> descs s \<and> mMapDepth s = 0 \<and> mFreeMapStack s = 0 \<and> canonical (map_runs s) \<and>
     (\<forall>r \<in> set (map_runs s). snd (snd r) < page_limit) \<and>
     (\<forall>x \<in> set (mSmmMemoryMap s). page_node x) \<and>
     node_runs (mSmmMemoryMap s) = filter (\<lambda>r. fst r = EfiConventionalMemory) (map_runs s)"

definition page_type :: "page_state \<Rightarrow> nat \<Rightarrow> efi_memory_type option" where
  "page_type s = view (map_runs s)"

definition set_pages ::
  "efi_memory_type \<Rightarrow> nat \<Rightarrow> nat \<Rightarrow> (nat \<Rightarrow> efi_memory_type option) \<Rightarrow> nat \<Rightarrow> efi_memory_type option" where
  "set_pages t a b m = (\<lambda>p. if a \<le> p \<and> p < b then Some t else m p)"

lemma smm_ok_nodes: "smm_ok s \<Longrightarrow> nodes_ok (mSmmMemoryMap s)"
  by (simp add: smm_ok_def nodes_ok_def canonical_filter)

lemma smm_ok_limit: "smm_ok s \<Longrightarrow> \<forall>r \<in> set (node_runs (mSmmMemoryMap s)). snd (snd r) < page_limit"
  by (simp add: smm_ok_def)

lemma free_view:
  assumes "smm_ok s"
  shows "view (node_runs (mSmmMemoryMap s)) p =
    (if page_type s p = Some EfiConventionalMemory then Some EfiConventionalMemory else None)"
  using view_filter[of "map_runs s" "\<lambda>t. t = EfiConventionalMemory" p] assms
  by (auto simp: smm_ok_def page_type_def split: option.splits)

lemma free_covers:
  assumes "smm_ok s"
  shows "covers (node_runs (mSmmMemoryMap s)) EfiConventionalMemory a b \<longleftrightarrow> covers (map_runs s) EfiConventionalMemory a b"
  using free_view[OF assms] unfolding covers_def page_type_def by (metis option.distinct(1))

lemma view_bound:
  assumes "canonical rs" "\<forall>p. L \<le> p \<longrightarrow> view rs p = None" "r \<in> set rs"
  shows "snd (snd r) \<le> L"
proof (rule ccontr)
  obtain t l h where r: "r = (t, l, h)" by (cases r)
  assume "\<not> snd (snd r) \<le> L"
  then have "L \<le> h - 1" "l \<le> h - 1" "h - 1 < h" using assms(1,3) r by (fastforce simp: canonical_def)+
  then show False using view_at[OF assms(1), of t l h "h - 1"] assms(2,3) r by simp
qed

lemma view_above:
  assumes "\<forall>r \<in> set rs. snd (snd r) < L" "L - 1 \<le> p"
  shows "view rs p = None"
  using assms view_upto[of rs "L - 1" p] by fastforce

text \<open>The invariant after a change of the type of a range.\<close>

lemma smm_ok_set:
  assumes ok: "smm_ok s" and b: "b < page_limit" and t: "descs s2" "mMapDepth s2 = 0" "mFreeMapStack s2 = 0"
    and c: "canonical (map_runs s2)" and v: "page_type s2 = set_pages t a b (page_type s)"
    and ns: "nodes_ok (mSmmMemoryMap s2)" "view (node_runs (mSmmMemoryMap s2)) = (\<lambda>p. if a \<le> p \<and> p < b
      then (if t = EfiConventionalMemory then Some EfiConventionalMemory else None)
      else view (node_runs (mSmmMemoryMap s)) p)"
  shows "smm_ok s2"
proof -
  let ?C = EfiConventionalMemory
  have lim: "\<forall>r \<in> set (map_runs s). snd (snd r) < page_limit" using ok by (simp add: smm_ok_def)
  have "view (map_runs s2) p = None" if "page_limit - 1 \<le> p" for p
    using fun_cong[OF v, of p] view_above[OF lim that] b that by (auto simp: page_type_def set_pages_def)
  then have lim2: "\<forall>r \<in> set (map_runs s2). snd (snd r) < page_limit"
    using view_bound[OF c, of "page_limit - 1"] by (fastforce simp: page_limit_eq)
  let ?cf = "filter (\<lambda>r. fst r = ?C) (map_runs s2)"
  have "view (node_runs (mSmmMemoryMap s2)) p = view ?cf p" for p
    using view_filter[OF c, of "\<lambda>t. t = ?C" p] free_view[OF ok, of p] fun_cong[OF v, of p] ns(2)
    by (auto simp: page_type_def set_pages_def split: option.splits)
  then have "node_runs (mSmmMemoryMap s2) = ?cf"
    using canonical_unique[of "node_runs (mSmmMemoryMap s2)" ?cf] ns(1) canonical_filter[OF c] by (auto simp: nodes_ok_def)
  then show ?thesis using t c lim2 ns(1) by (simp add: smm_ok_def nodes_ok_def)
qed

lemma convert_release:
  assumes ok: "smm_ok s" and t: "covers (map_runs s) t a (a + unat n)" "t' \<noteq> t" and n: "0 < n"
    and ns': "nodes_ok ns'" "view (node_runs ns') = (\<lambda>p. if a \<le> p \<and> p < a + unat n
      then (if t' = EfiConventionalMemory then Some EfiConventionalMemory else None)
      else view (node_runs (mSmmMemoryMap s)) p)"
    and f: "2 \<le> length (mFreeMemoryMapEntryList s)"
  shows "\<exists>s1 s2. ConvertSmmMemoryMapEntry t' (page_start a) n (s\<lparr>mSmmMemoryMap := ns'\<rparr>) = Some s1 \<and>
    CoreFreeMemoryMapStack s1 = Some s2 \<and> smm_ok s2 \<and> page_type s2 = set_pages t' a (a + unat n) (page_type s) \<and>
    length (mFreeMemoryMapEntryList s) \<le> length (mFreeMemoryMapEntryList s2) + 2"
proof -
  let ?b = "a + unat n" and ?s = "s\<lparr>mSmmMemoryMap := ns'\<rparr>"
  have n': "a < ?b" using n by (simp add: word_less_nat_alt)
  have d: "descs s" and c: "canonical (map_runs s)" and depth: "mMapDepth s = 0" and m0: "mFreeMapStack s = 0"
    and lim: "\<forall>r \<in> set (map_runs s). snd (snd r) < page_limit"
    using ok unfolding smm_ok_def by auto
  obtain l h where r: "(t, l, h) \<in> set (map_runs s)" "l \<le> a" "?b \<le> h"
    using t(1) covers_run[OF c n'] by blast
  obtain rs qs where m: "map_runs s = rs @ (t, l, h) # qs" using r(1) by (meson split_list)
  have ms: "map_runs ?s = map_runs s" by (simp add: map_runs_def)
  let ?left = "rs @ piece (t, l, a)" and ?right = "piece (t, ?b, h) @ qs"
  obtain s1 where s1: "ConvertSmmMemoryMapEntry t' (page_start a) n ?s = Some s1" "descs s1" "same_rest ?s s1"
      "mMapDepth s1 \<le> 2" "length (mFreeMemoryMapEntryList s) \<le> length (mFreeMemoryMapEntryList s1)"
      "map_runs s1 = place_run ?left (t', a, ?b) ?right"
    using ConvertSmmMemoryMapEntry_runs[of ?s rs t l h qs a n t'] d c depth m ms r n t(2) by auto
  have "mFreeMapStack s1 = 0" using s1(3) m0 by (simp add: same_rest_def)
  then obtain s2 where s2: "CoreFreeMemoryMapStack s1 = Some s2" "descs s2" "same_rest s1 s2" "mMapDepth s2 = 0"
      "map_runs s2 = map_runs s1"
      "length (mFreeMemoryMapEntryList s2) + mMapDepth s1 = length (mFreeMemoryMapEntryList s1)"
    using CoreFreeMemoryMapStack_runs[OF s1(2)] s1(4,5) f by auto
  have cm: "canonical (rs @ (t, l, h) # qs)" using c m by simp
  have "\<forall>r \<in> set rs. apart_runs r (t, l, h)" "\<forall>q \<in> set qs. apart_runs (t, l, h) q" using cm by (auto simp: canonical_append)
  then have ends: "\<forall>r \<in> set ?left. snd (snd r) \<le> a" "\<forall>r \<in> set ?right. ?b \<le> fst (snd r)"
    using r(2,3) by (auto simp: apart_runs_def piece_def)
  note K = place_run_canonical[OF canonical_pieces[OF cm r(2) n' r(3)] n' ends, of t']
  have v: "page_type s2 = set_pages t' a ?b (page_type s)"
    using K(2) canonical_cut(2)[OF cm r(2) n' r(3)] m s1(6) s2(5)
    by (intro ext) (simp add: page_type_def set_pages_def)
  have nodes: "mSmmMemoryMap s2 = ns'" "mFreeMapStack s2 = 0" using s1(3) s2(3) m0 by (simp_all add: same_rest_def)
  have "?b < page_limit" using lim r(1,3) by fastforce
  then have "smm_ok s2" using smm_ok_set[OF ok _ s2(2,4) nodes(2) _ v] K(1) s1(6) s2(5) ns' nodes(1) by simp
  then show ?thesis using s1(1,4,5) s2(1,6) v by auto
qed

subsection \<open>Allocation\<close>

text \<open>n pages from the page a are free and end at or below the address M.\<close>

definition room :: "page_state \<Rightarrow> u64 \<Rightarrow> u64 \<Rightarrow> nat \<Rightarrow> bool" where
  "room s n M a \<longleftrightarrow>
     (\<forall>p \<in> {a..<a + unat n}. page_type s p = Some EfiConventionalMemory) \<and> a + unat n \<le> page_above M"

definition changed :: "efi_memory_type \<Rightarrow> nat \<Rightarrow> nat \<Rightarrow> page_state \<Rightarrow> page_state \<Rightarrow> bool" where
  "changed t a b s s' \<longleftrightarrow> smm_ok s' \<and> page_type s' = set_pages t a b (page_type s) \<and>
     length (mFreeMemoryMapEntryList s) \<le> length (mFreeMemoryMapEntryList s') + 2"

definition smm_memory_types :: "efi_memory_type set" where
  "smm_memory_types = {EfiRuntimeServicesCode, EfiRuntimeServicesData}"

lemma smm_memory_types_not [simp]: "EfiConventionalMemory \<notin> smm_memory_types"
  by (simp add: smm_memory_types_def)

lemma room_fits:
  assumes "smm_ok s"
  shows "room s n M a \<longleftrightarrow> fits (mSmmMemoryMap s) n M a"
  using free_covers[OF assms] by (simp add: room_def fits_def covers_def page_type_def)

lemma page_start_not_max: "0 < a \<Longrightarrow> a < page_limit \<Longrightarrow> page_start a \<noteq> - 1"
  using page_above_start[of a] page_above_max by auto

lemma taken_changed:
  assumes ok: "smm_ok s" and f: "2 \<le> length (mFreeMemoryMapEntryList s)" and n: "0 < n"
    and r: "covers (map_runs s) EfiConventionalMemory a (a + unat n)" and t: "mt \<in> smm_memory_types"
    and ns': "taken (mSmmMemoryMap s) a (a + unat n) ns'"
  shows "\<exists>s1 s2. ConvertSmmMemoryMapEntry mt (page_start a) n (s\<lparr>mSmmMemoryMap := ns'\<rparr>) = Some s1 \<and>
    CoreFreeMemoryMapStack s1 = Some s2 \<and> changed mt a (a + unat n) s s2"
proof -
  have "mt \<noteq> EfiConventionalMemory" using t by auto
  then show ?thesis
    using convert_release[OF ok r _ n, of mt ns'] ns' f unfolding changed_def taken_def by simp
qed

lemma too_many_pages: "n > TRUNCATE_TO_PAGES (- 1) + 1 \<longleftrightarrow> page_limit < unat n"
proof -
  have "TRUNCATE_TO_PAGES (- 1) + 1 = (0x10000000000000 :: u64)"
    by (simp add: TRUNCATE_TO_PAGES_def mask_eq_exp_minus_1)
  then show ?thesis by (simp add: word_less_nat_alt page_limit_eq)
qed

lemma allocate_highest:
  assumes ok: "smm_ok s" and f: "2 \<le> length (mFreeMemoryMapEntryList s)" and n: "0 < n"
    and t: "mt \<in> smm_memory_types" and ty: "ty = AllocateAnyPages \<and> M = - 1 \<or> ty = AllocateMaxAddress \<and> M = Memory"
  shows "(\<forall>a. \<not> room s n M a) \<and> (\<exists>A. SmmInternalAllocatePages ty mt n Memory s = Some (EFI_OUT_OF_RESOURCES, A, s)) \<or>
    (\<exists>a s'. SmmInternalAllocatePages ty mt n Memory s = Some (EFI_SUCCESS, page_start a, s') \<and> room s n M a \<and>
       (\<forall>a'. room s n M a' \<longrightarrow> a' \<le> a) \<and> changed mt a (a + unat n) s s')"
proof -
  have mt: "\<not> (mt \<noteq> EfiRuntimeServicesCode \<and> mt \<noteq> EfiRuntimeServicesData)"
    using t by (auto simp: smm_memory_types_def)
  show ?thesis
  proof (cases "page_limit < unat n")
    case True
    then have "\<not> room s n M a" for a using page_above_le[of M] by (simp add: room_def)
    moreover have "SmmInternalAllocatePages ty mt n Memory s = Some (EFI_OUT_OF_RESOURCES, Memory, s)"
      unfolding SmmInternalAllocatePages_def SmmInternalAllocatePagesEx_def allocate_pages_def too_many_pages
      using True mt by simp
    ultimately show ?thesis by blast
  next
    case False
    have run: "allocate_pages ty mt n Memory s = do {
             (a, ring) \<leftarrow> InternalAllocMaxAddress (mSmmMemoryMap s) n M;
             if a = - 1 then Some (EFI_OUT_OF_RESOURCES, a, s\<lparr>mSmmMemoryMap := ring\<rparr>)
             else do {
               s \<leftarrow> ConvertSmmMemoryMapEntry mt a n (s\<lparr>mSmmMemoryMap := ring\<rparr>);
               Some (EFI_SUCCESS, a, s)
             }
           }"
      unfolding allocate_pages_def too_many_pages using False mt ty by auto
    from InternalAllocMaxAddress_spec[OF smm_ok_nodes[OF ok] n, of M]
    show ?thesis
    proof (elim disjE exE conjE)
      assume "\<forall>a. \<not> fits (mSmmMemoryMap s) n M a" "InternalAllocMaxAddress (mSmmMemoryMap s) n M = Some (- 1, mSmmMemoryMap s)"
      then show ?thesis
        using run room_fits[OF ok] by (simp add: SmmInternalAllocatePages_def SmmInternalAllocatePagesEx_def)
    next
      fix a ns'
      assume r: "InternalAllocMaxAddress (mSmmMemoryMap s) n M = Some (page_start a, ns')" "0 < a"
        "fits (mSmmMemoryMap s) n M a" "\<forall>a'. fits (mSmmMemoryMap s) n M a' \<longrightarrow> a' \<le> a"
        "taken (mSmmMemoryMap s) a (a + unat n) ns'"
      have "a + unat n \<le> page_limit" using r(3) page_above_le[of M] by (simp add: fits_def)
      then have na: "page_start a \<noteq> - 1" using n page_start_not_max[OF r(2)] by (simp add: word_less_nat_alt)
      have "covers (map_runs s) EfiConventionalMemory a (a + unat n)"
        using r(3) free_covers[OF ok] by (simp add: fits_def)
      then obtain s1 s2 where s: "ConvertSmmMemoryMapEntry mt (page_start a) n (s\<lparr>mSmmMemoryMap := ns'\<rparr>) = Some s1"
          "CoreFreeMemoryMapStack s1 = Some s2" "changed mt a (a + unat n) s s2"
        using taken_changed[OF ok f n _ t r(5)] by blast
      have "SmmInternalAllocatePages ty mt n Memory s = Some (EFI_SUCCESS, page_start a, s2)"
        using run r(1) s(1,2) na by (simp add: SmmInternalAllocatePages_def SmmInternalAllocatePagesEx_def)
      then show ?thesis using r(3,4) room_fits[OF ok] s(3) by blast
    qed
  qed
qed

lemma not_word_neq: "NOT (w :: u64) \<noteq> w"
proof
  assume "NOT w = w"
  then have "bit (NOT w) 0 \<longleftrightarrow> bit w 0" by simp
  then show False by (simp add: bit_not_iff)
qed

lemma allocate_address:
  assumes ok: "smm_ok s" and f: "2 \<le> length (mFreeMemoryMapEntryList s)" and n: "0 < n"
    and t: "mt \<in> smm_memory_types" and lim: "a + unat n < page_limit"
  shows "if \<forall>p \<in> {a..<a + unat n}. page_type s p = Some EfiConventionalMemory
    then \<exists>s'. SmmInternalAllocatePages AllocateAddress mt n (page_start a) s = Some (EFI_SUCCESS, page_start a, s') \<and>
      changed mt a (a + unat n) s s'
    else SmmInternalAllocatePages AllocateAddress mt n (page_start a) s = Some (EFI_NOT_FOUND, NOT (page_start a), s)"
proof -
  have mt: "\<not> (mt \<noteq> EfiRuntimeServicesCode \<and> mt \<noteq> EfiRuntimeServicesData)"
    using t by (auto simp: smm_memory_types_def)
  have run: "allocate_pages AllocateAddress mt n (page_start a) s = do {
             (A, ring) \<leftarrow> InternalAllocAddress (mSmmMemoryMap s) n (page_start a);
             if A \<noteq> page_start a then Some (EFI_NOT_FOUND, A, s\<lparr>mSmmMemoryMap := ring\<rparr>)
             else do {
               s \<leftarrow> ConvertSmmMemoryMapEntry mt A n (s\<lparr>mSmmMemoryMap := ring\<rparr>);
               Some (EFI_SUCCESS, A, s)
             }
           }"
    unfolding allocate_pages_def too_many_pages using lim mt by auto
  have cv: "covers (node_runs (mSmmMemoryMap s)) EfiConventionalMemory a (a + unat n) \<longleftrightarrow>
      (\<forall>p \<in> {a..<a + unat n}. page_type s p = Some EfiConventionalMemory)"
    using free_covers[OF ok] by (simp add: covers_def page_type_def)
  note A = InternalAllocAddress_spec[OF smm_ok_nodes[OF ok] n lim smm_ok_limit[OF ok], unfolded cv]
  show ?thesis
  proof (cases "\<forall>p \<in> {a..<a + unat n}. page_type s p = Some EfiConventionalMemory")
    case True
    then obtain ns' where ns': "InternalAllocAddress (mSmmMemoryMap s) n (page_start a) = Some (page_start a, ns')"
        "taken (mSmmMemoryMap s) a (a + unat n) ns'"
      using A by auto
    have "covers (map_runs s) EfiConventionalMemory a (a + unat n)"
      using True by (simp add: covers_def page_type_def)
    then obtain s1 s2 where s: "ConvertSmmMemoryMapEntry mt (page_start a) n (s\<lparr>mSmmMemoryMap := ns'\<rparr>) = Some s1"
        "CoreFreeMemoryMapStack s1 = Some s2" "changed mt a (a + unat n) s s2"
      using taken_changed[OF ok f n _ t ns'(2)] by blast
    have "SmmInternalAllocatePages AllocateAddress mt n (page_start a) s = Some (EFI_SUCCESS, page_start a, s2)"
      using run ns'(1) s(1,2) by (simp add: SmmInternalAllocatePages_def SmmInternalAllocatePagesEx_def)
    then show ?thesis using True s(3) by auto
  next
    case False
    then have "InternalAllocAddress (mSmmMemoryMap s) n (page_start a) = Some (NOT (page_start a), mSmmMemoryMap s)"
      using A by auto
    moreover have "NOT (page_start a) \<noteq> page_start a" by (rule not_word_neq)
    ultimately show ?thesis
      using False run by (simp add: SmmInternalAllocatePages_def SmmInternalAllocatePagesEx_def)
  qed
qed

subsection \<open>Release\<close>

lemma SmmInternalFreePages_nodes:
  assumes "Memory AND EFI_PAGE_MASK = 0" "Memory \<noteq> 0" "n \<noteq> 0"
  shows "SmmInternalFreePages Memory n s =
    (let below = below_nodes Memory (mSmmMemoryMap s); aloft = aloft_nodes Memory (mSmmMemoryMap s) in
     if aloft \<noteq> [] \<and> Memory + EFI_PAGES_TO_SIZE n > fst (hd aloft) \<or>
        below \<noteq> [] \<and> fst (last below) + EFI_PAGES_TO_SIZE (snd (last below)) > Memory
     then Some (EFI_INVALID_PARAMETER, s)
     else do {
       ns \<leftarrow> put_node below (Memory, n) aloft;
       s \<leftarrow> ConvertSmmMemoryMapEntry EfiConventionalMemory Memory n (s\<lparr>mSmmMemoryMap := ns\<rparr>);
       s \<leftarrow> CoreFreeMemoryMapStack s;
       Some (EFI_SUCCESS, s)
     })"
  using assms unfolding SmmInternalFreePages_def SmmInternalFreePagesEx_def put_node_def
    below_nodes_def[symmetric] aloft_nodes_def[symmetric]
  by (auto simp: Let_def)

lemma page_start_zero: "0 < a \<Longrightarrow> a < page_limit \<Longrightarrow> page_start a \<noteq> 0"
  using unat_page_start[of a] by auto

lemma free_pages:
  assumes ok: "smm_ok s" and n: "0 < n" and a: "0 < a" and lim: "a + unat n < page_limit"
  shows "\<exists>p \<in> {a..<a + unat n}. page_type s p = Some EfiConventionalMemory \<Longrightarrow>
      SmmInternalFreePages (page_start a) n s = Some (EFI_INVALID_PARAMETER, s)"
    "2 \<le> length (mFreeMemoryMapEntryList s) \<Longrightarrow> t \<noteq> EfiConventionalMemory \<Longrightarrow>
      \<forall>p \<in> {a..<a + unat n}. page_type s p = Some t \<Longrightarrow>
      \<exists>s'. SmmInternalFreePages (page_start a) n s = Some (EFI_SUCCESS, s') \<and>
        changed EfiConventionalMemory a (a + unat n) s s'"
proof -
  let ?b = "a + unat n" and ?A = "page_start a" and ?C = EfiConventionalMemory and ?ns = "mSmmMemoryMap s"
  let ?bs = "below_nodes ?A ?ns" and ?as = "aloft_nodes ?A ?ns"
  have ab: "a < ?b" using n by (simp add: word_less_nat_alt)
  have nodes: "nodes_ok ?ns" "\<forall>r \<in> set (node_runs ?ns). snd (snd r) < page_limit"
    using smm_ok_nodes[OF ok] smm_ok_limit[OF ok] .
  have nz: "?A AND EFI_PAGE_MASK = 0" "?A \<noteq> 0" "n \<noteq> 0"
    using page_aligned page_start_zero[OF a] lim n by auto
  note test = free_tests[OF nodes ab lim refl refl, unfolded page_start_plus[symmetric]]
  have meet: "meets (node_runs ?ns) a ?b \<longleftrightarrow> (\<exists>p \<in> {a..<?b}. page_type s p = Some ?C)"
    using free_view[OF ok] by (auto simp: meets_def)
  show "SmmInternalFreePages ?A n s = Some (EFI_INVALID_PARAMETER, s)" if "\<exists>p \<in> {a..<?b}. page_type s p = Some ?C"
    using that test meet unfolding SmmInternalFreePages_nodes[OF nz] Let_def by simp
  show "\<exists>s'. SmmInternalFreePages ?A n s = Some (EFI_SUCCESS, s') \<and> changed ?C a ?b s s'"
    if f: "2 \<le> length (mFreeMemoryMapEntryList s)" and t: "t \<noteq> ?C" and r: "\<forall>p \<in> {a..<?b}. page_type s p = Some t"
  proof -
    have nm: "\<not> meets (node_runs ?ns) a ?b" using r t meet by auto
    obtain ns' where ns': "put_node ?bs (?A, n) ?as = Some ns'" "nodes_ok ns'"
        "view (node_runs ns') = (\<lambda>p. if a \<le> p \<and> p < ?b then (if ?C = ?C then Some ?C else None) else view (node_runs ?ns) p)"
      using put_range[OF nodes a n lim nm] by blast
    have "covers (map_runs s) t a ?b" using r by (simp add: covers_def page_type_def)
    then obtain s1 s2 where s: "ConvertSmmMemoryMapEntry ?C ?A n (s\<lparr>mSmmMemoryMap := ns'\<rparr>) = Some s1"
        "CoreFreeMemoryMapStack s1 = Some s2" "changed ?C a ?b s s2"
      using convert_release[OF ok _ _ n ns'(2,3) f, of t] t unfolding changed_def by auto
    then have "SmmInternalFreePages ?A n s = Some (EFI_SUCCESS, s2)"
      using nm test ns'(1) unfolding SmmInternalFreePages_nodes[OF nz] Let_def by simp
    then show ?thesis using s(3) by blast
  qed
qed

end
