(* ===== verification/Smm_Region.thy ===== *)
theory Smm_Region
  imports Smm_Mem
begin

text \<open>
  The addition of a region that is not in the map yet.  The code joins the region to the entry that
  follows it, and to the entry before it only when it is the last one: for the others the region must
  not touch an entry of its type below it.
\<close>

lemma convert_loop_skip:
  assumes "\<forall>q \<in> set pre. page_entry (maps s q) \<and> snd (snd (run_of (maps s q))) \<le> a" "a < b" "b \<le> page_limit"
  shows "convert_loop t (page_start a) (page_end b) (pre @ post) s = convert_loop t (page_start a) (page_end b) post s"
  using assms
proof (induction pre)
  case (Cons q pre)
  obtain t1 l1 h1 where r: "run_of (maps s q) = (t1, l1, h1)" by (cases "run_of (maps s q)")
  then have q: "is_run (maps s q) (t1, l1, h1)" "h1 \<le> a"
    using Cons.prems(1) page_entry_is_run[of "maps s q"] by auto
  have lh: "l1 < h1" "h1 \<le> page_limit" using q(1) unfolding is_run_iff by auto
  have "\<not> page_start l1 > page_end b" "\<not> page_end h1 \<ge> page_end b"
    using page_covers[OF lh Cons.prems(2,3)] lh q(2) Cons.prems(2) by auto
  then have "convert_loop t (page_start a) (page_end b) ((q # pre) @ post) s =
      convert_loop t (page_start a) (page_end b) (pre @ post) s"
    using q(1) unfolding is_run_iff by simp
  then show ?case using Cons by simp
qed simp

definition gap_step :: "page_state \<Rightarrow> page_state \<Rightarrow> bool" where
  "gap_step s s' \<longleftrightarrow> descs s' \<and> same_rest s s' \<and> mMapDepth s' \<le> mMapDepth s + 1 \<and>
     mFreeMemoryMapEntryList s' = mFreeMemoryMapEntryList s"

lemma gap_step_set:
  assumes "descs s" "is_run E r" "FromStack E = FromStack (maps s p)"
  shows "gap_step s (s\<lparr>maps := (maps s)(p := E)\<rparr>)"
  using set_entry_descs[OF assms] by (simp add: gap_step_def same_rest_def)

lemma gap_step_add:
  assumes "descs s" "gMemoryMap s = pre @ post" "l < h" "h \<le> page_limit"
  shows "gap_step s (add_entry (t, l, h) pre post s)"
    "map_runs (add_entry (t, l, h) pre post s) = runs_of s pre @ (t, l, h) # runs_of s post"
proof -
  note A = add_entry_descs[OF assms, where t = t] and R = add_entry_runs[OF assms, where t = t]
  show "gap_step s (add_entry (t, l, h) pre post s)" using A(1,3,4,7) by (simp add: gap_step_def)
  show "map_runs (add_entry (t, l, h) pre post s) = runs_of s pre @ (t, l, h) # runs_of s post"
    by (simp only: map_runs_def A(2) runs_of_simps R)
qed

text \<open>Behind the last entry.\<close>

lemma gap_last:
  assumes d: "descs s" and depth: "mMapDepth s + 1 < MAX_MAP_DEPTH"
    and le: "\<forall>r \<in> set (map_runs s). snd (snd r) \<le> a" and ab: "a < b" "b < page_limit"
  shows "\<exists>s'. (case rev (gMemoryMap s) of
       p # _ \<Rightarrow>
         if End (maps s p) + 1 = page_start a \<and> Type (maps s p) = t
         then Some (s\<lparr>maps := (maps s)(p := (maps s p)\<lparr>End := page_end b\<rparr>)\<rparr>)
         else InsertNewEntry None (page_start a) (page_end b) t False s
     | [] \<Rightarrow> InsertNewEntry None (page_start a) (page_end b) t False s) = Some s' \<and>
    gap_step s s' \<and> map_runs s' = join_left (map_runs s) [(t, a, b)]"
proof -
  have bl: "b \<le> page_limit" and al: "a < page_limit" using ab by simp_all
  have ins: "InsertNewEntry None (page_start a) (page_end b) t False s = Some (add_entry (t, a, b) (gMemoryMap s) [] s)"
    using InsertNewEntry_end[OF refl depth] .
  have g: "gMemoryMap s = gMemoryMap s @ []" by simp
  note add = gap_step_add[OF d g ab(1) bl, where t = t]
  have add2: "map_runs (add_entry (t, a, b) (gMemoryMap s) [] s) = map_runs s @ [(t, a, b)]"
    using add(2) by (simp add: map_runs_def)
  show ?thesis
  proof (cases "gMemoryMap s" rule: rev_cases)
    case Nil
    then show ?thesis using ins add(1) add2 by (simp add: join_left_def map_runs_def)
  next
    case (snoc pre p)
    have pin: "p \<in> set (gMemoryMap s)" using snoc by simp
    obtain t' l h where P: "run_of (maps s p) = (t', l, h)" "Type (maps s p) = t'" "Start (maps s p) = page_start l"
        "End (maps s p) = page_end h" "l < h" "h \<le> page_limit"
      using entry_run[OF d pin] by metis
    have m: "map_runs s = runs_of s pre @ [(t', l, h)]" using snoc P(1) by (simp add: map_runs_def)
    have ha: "h \<le> a" using le m by simp
    have adj: "End (maps s p) + 1 = page_start a \<longleftrightarrow> h = a"
      unfolding P(4) using page_adjacent[of h a] P(5,6) ha al by auto
    show ?thesis
    proof (cases "h = a \<and> t' = t")
      case True
      let ?E = "(maps s p)\<lparr>End := page_end b\<rparr>"
      have "is_run (maps s p) (t', l, h)" using P unfolding is_run_iff by simp
      then have E: "is_run ?E (t', l, b)" using set_end_run[of "maps s p" t' l h b] True ab bl by simp
      have "p \<notin> set pre" using d snoc unfolding descs_def by auto
      then have "map_runs (s\<lparr>maps := (maps s)(p := ?E)\<rparr>) = join_left (map_runs s) [(t, a, b)]"
        using E True m snoc by (simp add: map_runs_def join_left_def is_run_def)
      then show ?thesis using gap_step_set[OF d E] snoc adj True P(2) by simp
    next
      case False
      then have "join_left (map_runs s) [(t, a, b)] = map_runs s @ [(t, a, b)]"
        using m by (auto simp: join_left_def)
      moreover have "\<not> (End (maps s p) + 1 = page_start a \<and> Type (maps s p) = t)" using False adj P(2) by simp
      ultimately show ?thesis using snoc ins add(1) add2 by auto
    qed
  qed
qed

text \<open>Before an entry p that lies above.\<close>

lemma gap_before:
  assumes d: "descs s" and ring: "gMemoryMap s = pre @ p # post" and depth: "mMapDepth s + 1 < MAX_MAP_DEPTH"
    and P: "run_of (maps s p) = (t', l, h)" and ab: "a < b" "b \<le> l"
  shows "\<exists>s'. (if Start (maps s p) = page_end b + 1 \<and> Type (maps s p) = t
       then Some (s\<lparr>maps := (maps s)(p := (maps s p)\<lparr>Start := page_start a\<rparr>)\<rparr>)
       else InsertNewEntry (Some p) (page_start a) (page_end b) t False s) = Some s' \<and>
    gap_step s s' \<and> map_runs s' = runs_of s pre @ join_right (t, a, b) (runs_of s (p # post))"
proof -
  have np: "p \<notin> set pre" "p \<notin> set post" using d ring unfolding descs_def by auto
  have pin: "p \<in> set (gMemoryMap s)" using ring by simp
  have Q: "Type (maps s p) = t'" "Start (maps s p) = page_start l" "End (maps s p) = page_end h" "l < h" "h \<le> page_limit"
    using entry_run[OF d pin] P by auto
  have bl: "b \<le> page_limit" "0 < b" using ab Q by auto
  have adj: "Start (maps s p) = page_end b + 1 \<longleftrightarrow> b = l"
    unfolding Q(2) using page_adjacent[OF bl(2,1), of l] Q(4,5) ab by auto
  show ?thesis
  proof (cases "b = l \<and> t' = t")
    case True
    let ?E = "(maps s p)\<lparr>Start := page_start a\<rparr>"
    have E: "is_run ?E (t', a, h)" using Q True ab unfolding is_run_iff by simp
    have "map_runs (s\<lparr>maps := (maps s)(p := ?E)\<rparr>) = runs_of s pre @ join_right (t, a, b) (runs_of s (p # post))"
      using E True P np ring by (simp add: map_runs_def is_run_def)
    then show ?thesis using gap_step_set[OF d E] adj True Q(1) by simp
  next
    case False
    note add = gap_step_add[OF d ring ab(1) bl(1), where t = t]
    have "\<not> (Start (maps s p) = page_end b + 1 \<and> Type (maps s p) = t)" using False adj Q(1) by auto
    moreover have "join_right (t, a, b) (runs_of s (p # post)) = (t, a, b) # runs_of s (p # post)"
      using False P by auto
    ultimately show ?thesis using InsertNewEntry_before[OF ring np(1) depth, of a b t] add by auto
  qed
qed

lemma convert_gap:
  assumes d: "descs s" and depth: "mMapDepth s + 1 < MAX_MAP_DEPTH" and m: "map_runs s = rs @ qs"
    and rs: "\<forall>r \<in> set rs. snd (snd r) \<le> a" and qs: "\<forall>r \<in> set qs. a + unat n \<le> fst (snd r)"
    and n: "0 < n" and lim: "a + unat n < page_limit"
    and j: "qs = [] \<or> (\<forall>r \<in> set rs. fst r = t \<longrightarrow> snd (snd r) < a)"
  shows "\<exists>s'. ConvertSmmMemoryMapEntry t (page_start a) n s = Some s' \<and> gap_step s s' \<and>
    map_runs s' = place_run rs (t, a, a + unat n) qs"
proof -
  let ?b = "a + unat n"
  have ab: "a < ?b" using n by (simp add: word_less_nat_alt)
  have bl: "?b \<le> page_limit" "0 < ?b" using lim ab by simp_all
  obtain pre post where ring: "gMemoryMap s = pre @ post" and rp: "runs_of s pre = rs" "runs_of s post = qs"
    using m unfolding map_runs_def runs_of_def map_eq_append_conv by blast
  have pre: "\<forall>q \<in> set pre. page_entry (maps s q) \<and> snd (snd (run_of (maps s q))) \<le> a"
    using rs rp(1) descs_ring[OF d] ring by (auto simp: runs_of_def)
  let ?last = "(case rev (gMemoryMap s) of
       p # _ \<Rightarrow>
         if End (maps s p) + 1 = page_start a \<and> Type (maps s p) = t
         then Some (s\<lparr>maps := (maps s)(p := (maps s p)\<lparr>End := page_end ?b\<rparr>)\<rparr>)
         else InsertNewEntry None (page_start a) (page_end ?b) t False s
     | [] \<Rightarrow> InsertNewEntry None (page_start a) (page_end ?b) t False s)"
  have loop: "convert_loop t (page_start a) (page_end ?b) (gMemoryMap s) s =
      convert_loop t (page_start a) (page_end ?b) post s"
    unfolding ring by (rule convert_loop_skip[OF pre ab bl(1)])
  have conv: "ConvertSmmMemoryMapEntry t (page_start a) n s =
      (case convert_loop t (page_start a) (page_end ?b) post s of Some r \<Rightarrow> r | None \<Rightarrow> ?last)"
    unfolding ConvertSmmMemoryMapEntry_def Let_def page_range_end[OF bl(2)] loop ..
  show ?thesis
  proof (cases post)
    case Nil
    have le: "\<forall>r \<in> set (map_runs s). snd (snd r) \<le> a" using rs m Nil rp(2) by simp
    have "ConvertSmmMemoryMapEntry t (page_start a) n s = ?last"
      unfolding conv Nil by (simp only: convert_loop.simps option.case)
    moreover have "place_run rs (t, a, ?b) qs = join_left (map_runs s) [(t, a, ?b)]"
      using m Nil rp(2) by (simp add: place_run_def)
    ultimately show ?thesis using gap_last[OF d depth le ab lim, of t] by metis
  next
    case (Cons p post')
    obtain t' l h where P: "run_of (maps s p) = (t', l, h)" by (cases "run_of (maps s p)")
    have g: "gMemoryMap s = pre @ p # post'" using ring Cons by simp
    have pin: "p \<in> set (gMemoryMap s)" using g by simp
    have Q: "Start (maps s p) = page_start l" "l < h" "h \<le> page_limit" using entry_run[OF d pin] P by auto
    have bl': "?b \<le> l" using qs rp(2) Cons P by auto
    have gt: "Start (maps s p) > page_end ?b" using page_covers(1)[OF Q(2,3) ab bl(1)] bl' Q(1) by simp
    have left: "join_left rs ((t, a, x) # ys) = rs @ (t, a, x) # ys" for x ys
    proof (cases rs rule: rev_cases)
      case (snoc rs' r)
      obtain t1 l1 h1 where r: "r = (t1, l1, h1)" by (cases r)
      have "qs \<noteq> []" using rp(2) Cons by auto
      then have "\<not> (t1 = t \<and> h1 = a)" using j snoc r by auto
      then show ?thesis using snoc r by (auto simp: join_left_def)
    qed (simp add: join_left_def)
    have q: "(t', l, h) # runs_of s post' = qs" using rp(2) Cons P by simp
    obtain h' ys where jr: "join_right (t, a, ?b) qs = (t, a, h') # ys"
      using q P by (cases "t = t' \<and> ?b = l") auto
    have q2: "runs_of s (p # post') = qs" using rp(2) Cons by simp
    have pl: "place_run rs (t, a, ?b) qs = runs_of s pre @ join_right (t, a, ?b) (runs_of s (p # post'))"
      unfolding q2 rp(1) place_run_def jr left ..
    have "ConvertSmmMemoryMapEntry t (page_start a) n s =
        (if Start (maps s p) = page_end ?b + 1 \<and> Type (maps s p) = t
         then Some (s\<lparr>maps := (maps s)(p := (maps s p)\<lparr>Start := page_start a\<rparr>)\<rparr>)
         else InsertNewEntry (Some p) (page_start a) (page_end ?b) t False s)"
      unfolding conv Cons convert_loop.simps using gt by (simp only: if_True option.case)
    then show ?thesis using gap_before[OF d g depth P ab bl', of t] unfolding pl by metis
  qed
qed

end
