(* ===== verification/Smm_Add.thy ===== *)
theory Smm_Add
  imports Smm_Region
begin

text \<open>
  SmmAddMemoryRegion: the region that is added to a map with free descriptors, and the first region.
\<close>

lemma runs_gap:
  assumes "canonical rs" "\<not> meets rs a b" "a < b"
  obtains ls us where "rs = ls @ us" "\<forall>r \<in> set ls. snd (snd r) \<le> a" "\<forall>r \<in> set us. b \<le> fst (snd r)"
proof -
  let ?P = "\<lambda>r. snd (snd r) \<le> a"
  let ?ls = "takeWhile ?P rs" and ?us = "dropWhile ?P rs"
  have e: "rs = ?ls @ ?us" by simp
  have apart: "b \<le> fst (snd r) \<or> ?P r" if "r \<in> set rs" for r
    using assms(2) that unfolding meets_iff[OF assms(1,3)] by force
  have "b \<le> fst (snd r)" if r: "r \<in> set ?us" for r
  proof -
    have n: "?us \<noteq> []" using r by (metis empty_iff empty_set)
    have c: "canonical ?us" using assms(1) e canonical_append by metis
    have hd: "hd ?us \<in> set rs" using n e by (metis Un_iff hd_in_set set_append)
    have "\<not> ?P (hd ?us)" using hd_dropWhile[OF n] .
    then have "b \<le> fst (snd (hd ?us))" using apart[OF hd] by simp
    also have "\<dots> \<le> fst (snd r)" using canonical_hd[OF c r] .
    finally show ?thesis .
  qed
  then show ?thesis using that[OF e] by (auto dest: set_takeWhileD)
qed

lemma gap_release:
  assumes ok: "smm_ok s" and n: "0 < n" and lim: "a + unat n < page_limit"
    and gap: "\<forall>p \<in> {a..<a + unat n}. page_type s p = None"
    and side: "(\<forall>p \<ge> a + unat n. page_type s p = None) \<or> a = 0 \<or> page_type s (a - 1) \<noteq> Some t"
    and ns': "nodes_ok ns'" "view (node_runs ns') = (\<lambda>p. if a \<le> p \<and> p < a + unat n
      then (if t = EfiConventionalMemory then Some EfiConventionalMemory else None)
      else view (node_runs (mSmmMemoryMap s)) p)"
    and f: "1 \<le> length (mFreeMemoryMapEntryList s)"
  shows "\<exists>s1 s2. ConvertSmmMemoryMapEntry t (page_start a) n (s\<lparr>mSmmMemoryMap := ns'\<rparr>) = Some s1 \<and>
    CoreFreeMemoryMapStack s1 = Some s2 \<and> changed t a (a + unat n) s s2"
proof -
  let ?b = "a + unat n" and ?s = "s\<lparr>mSmmMemoryMap := ns'\<rparr>"
  have ab: "a < ?b" using n by (simp add: word_less_nat_alt)
  have d: "descs ?s" and c: "canonical (map_runs s)" and depth: "mMapDepth ?s + 1 < MAX_MAP_DEPTH"
    and z: "mMapDepth s = 0" "mFreeMapStack s = 0"
    using ok unfolding smm_ok_def MAX_MAP_DEPTH_def by auto
  have "\<not> meets (map_runs s) a ?b" using gap by (auto simp: meets_def page_type_def)
  then obtain ls us where m: "map_runs s = ls @ us" and ends: "\<forall>r \<in> set ls. snd (snd r) \<le> a" "\<forall>r \<in> set us. ?b \<le> fst (snd r)"
    using runs_gap[OF c _ ab] by metis
  have ms: "map_runs ?s = ls @ us" using m by (simp add: map_runs_def)
  have cc: "canonical ls" "canonical us" using c m by (auto simp: canonical_append)
  have j: "us = [] \<or> (\<forall>r \<in> set ls. fst r = t \<longrightarrow> snd (snd r) < a)"
  proof (rule disjCI)
    assume nj: "\<not> (\<forall>r \<in> set ls. fst r = t \<longrightarrow> snd (snd r) < a)"
    then obtain l h where r: "(t, l, h) \<in> set ls" "\<not> h < a" by auto
    then have "h = a" "(t, l, h) \<in> set (map_runs s)" using ends(1) m by auto
    moreover have "l < h" using cc(1) r(1) by (force simp: canonical_def)
    ultimately have "a \<noteq> 0" "page_type s (a - 1) = Some t"
      using view_at[OF c, of t l h "a - 1"] by (auto simp: page_type_def)
    then have none: "\<forall>p \<ge> ?b. page_type s p = None" using side by blast
    show "us = []"
    proof (rule ccontr)
      assume "us \<noteq> []"
      then obtain t' l' h' where q: "(t', l', h') \<in> set us" by (metis hd_in_set prod_cases3)
      then have "l' < h'" "?b \<le> l'" using cc(2) ends(2) by (force simp: canonical_def)+
      then have "page_type s l' = Some t'" using view_at[OF c, of t' l' h' l'] q m by (simp add: page_type_def)
      then show False using none \<open>?b \<le> l'\<close> by simp
    qed
  qed
  obtain s1 where s1: "ConvertSmmMemoryMapEntry t (page_start a) n ?s = Some s1" "gap_step ?s s1"
      "map_runs s1 = place_run ls (t, a, ?b) us"
    using convert_gap[OF d depth ms ends n lim j] by blast
  have g: "descs s1" "mMapDepth s1 \<le> 1" "mFreeMapStack s1 = 0" "mSmmMemoryMap s1 = ns'"
      "mFreeMemoryMapEntryList s1 = mFreeMemoryMapEntryList s"
    using s1(2) z by (simp_all add: gap_step_def same_rest_def)
  obtain s2 where s2: "CoreFreeMemoryMapStack s1 = Some s2" "descs s2" "same_rest s1 s2" "mMapDepth s2 = 0"
      "map_runs s2 = map_runs s1"
      "length (mFreeMemoryMapEntryList s2) + mMapDepth s1 = length (mFreeMemoryMapEntryList s1)"
    using CoreFreeMemoryMapStack_runs[OF g(1) _ g(3)] g(2,5) f by auto
  note K = place_run_canonical[OF cc ab ends, of t]
  have v: "page_type s2 = set_pages t a ?b (page_type s)"
    using K(2) s1(3) s2(5) m by (intro ext) (simp add: page_type_def set_pages_def)
  have nodes: "mSmmMemoryMap s2 = ns'" "mFreeMapStack s2 = 0" using s2(3) g(3,4) by (simp_all add: same_rest_def)
  have "smm_ok s2" using smm_ok_set[OF ok lim s2(2,4) nodes(2) _ v] K(1) s1(3) s2(5) ns' nodes(1) by simp
  then show ?thesis using s1(1) s2(1,6) g(2,5) v by (auto simp: changed_def)
qed

subsection \<open>The service\<close>

lemma round_down: "x AND NOT EFI_PAGE_MASK = page_start (unat x div 4096)"
proof -
  have "x AND NOT (mask 12) = push_bit 12 (drop_bit 12 x)"
    by (rule bit_eqI) (auto simp: bit_simps)
  also have "\<dots> = page_start (unat (drop_bit 12 x))"
    by (simp add: page_start_def push_bit_eq_mult mult.commute)
  also have "unat (drop_bit 12 x) = unat x div 4096" using unat_TRUNCATE[of x] by (simp add: TRUNCATE_TO_PAGES_def)
  finally show ?thesis by (simp add: EFI_PAGE_MASK_def mask_eq_exp_minus_1)
qed

lemma pages_between: "((x :: nat) - 4096 * a) div 4096 = x div 4096 - a"
  by (cases "4096 * a \<le> x") (auto simp: le_div_geq div_le_mono elim!: le_Suc_ex[THEN exE])

text \<open>The whole pages of a region.\<close>

lemma region_pages:
  assumes "a = (unat Base + 4095) div 4096" "b = (unat Base + unat Len) div 4096" "a < b" "b < page_limit"
  shows "(Base + EFI_PAGE_MASK) AND NOT EFI_PAGE_MASK = page_start a"
    "unat (TRUNCATE_TO_PAGES (Len - (page_start a - Base))) = b - a"
proof -
  have al: "a < page_limit" using assms(3,4) by simp
  have ub: "unat Base + 4095 < 18446744073709551616" using assms(1) al unfolding page_limit_eq by linarith
  then have "unat (Base + EFI_PAGE_MASK) = unat Base + 4095"
    by (simp add: EFI_PAGE_MASK_def unat_add_lem[THEN iffD1])
  then show "(Base + EFI_PAGE_MASK) AND NOT EFI_PAGE_MASK = page_start a" using assms(1) by (simp add: round_down)
  have s: "unat (page_start a) = 4096 * a" using unat_page_start[OF al] .
  have le: "unat Base \<le> 4096 * a" "4096 * b \<le> unat Base + unat Len" using assms(1,2) by linarith+
  have gap: "unat (page_start a - Base) = 4096 * a - unat Base"
    using le(1) s by (simp add: unat_sub word_le_nat_alt)
  have "4096 * a < 4096 * b" using assms(3) by simp
  then have "page_start a - Base \<le> Len" unfolding word_le_nat_alt gap using le by linarith
  then have "unat (Len - (page_start a - Base)) = unat Len - (4096 * a - unat Base)" using gap by (simp add: unat_sub)
  also have "\<dots> = unat Base + unat Len - 4096 * a" using le(1) by simp
  finally show "unat (TRUNCATE_TO_PAGES (Len - (page_start a - Base))) = b - a"
    unfolding unat_TRUNCATE using assms(2) by (simp only: pages_between)
qed

lemma free_ex_nodes:
  assumes "Memory AND EFI_PAGE_MASK = 0" "Memory \<noteq> 0" "n \<noteq> 0"
  shows "SmmInternalFreePagesEx Memory n True s =
    (let below = below_nodes Memory (mSmmMemoryMap s); aloft = aloft_nodes Memory (mSmmMemoryMap s) in
     if aloft \<noteq> [] \<and> Memory + EFI_PAGES_TO_SIZE n > fst (hd aloft) \<or>
        below \<noteq> [] \<and> fst (last below) + EFI_PAGES_TO_SIZE (snd (last below)) > Memory
     then Some (EFI_INVALID_PARAMETER, s)
     else do {
       ns \<leftarrow> put_node below (Memory, n) aloft;
       s \<leftarrow> ConvertSmmMemoryMapEntry EfiConventionalMemory Memory n (s\<lparr>mSmmMemoryMap := ns\<rparr>);
       Some (EFI_SUCCESS, s)
     })"
  using assms unfolding SmmInternalFreePagesEx_def put_node_def below_nodes_def[symmetric] aloft_nodes_def[symmetric]
  by (auto simp: Let_def)

lemma SmmAddMemoryRegion_adds:
  assumes ok: "smm_ok s" and f: "1 \<le> length (mFreeMemoryMapEntryList s)"
    and ab: "a = (unat Base + 4095) div 4096" "b = (unat Base + unat Len) div 4096" "0 < a" "a < b" "b < page_limit"
    and gap: "\<forall>p \<in> {a..<b}. page_type s p = None"
    and t: "t = (if Attr then EfiRuntimeServicesData else EfiConventionalMemory)"
    and side: "(\<forall>p \<ge> b. page_type s p = None) \<or> page_type s (a - 1) \<noteq> Some t"
  shows "\<exists>s'. SmmAddMemoryRegion Base Len Attr s = Some s' \<and> changed t a b s s'"
proof -
  define n where "n = TRUNCATE_TO_PAGES (Len - (page_start a - Base))"
  note R = region_pages[OF ab(1,2,4,5)]
  have n: "unat n = b - a" using R(2) by (simp add: n_def)
  then have b: "a + unat n = b" and n0: "0 < n" using ab(4) by (simp_all add: word_less_nat_alt)
  have lim: "a + unat n < page_limit" using b ab(5) by simp
  have gap': "\<forall>p \<in> {a..<a + unat n}. page_type s p = None" using gap b by simp
  have side': "(\<forall>p \<ge> a + unat n. page_type s p = None) \<or> a = 0 \<or> page_type s (a - 1) \<noteq> Some t" using side unfolding b by blast
  have run: "SmmAddMemoryRegion Base Len Attr s = do {
       s \<leftarrow> (if \<not> Attr then map_option snd (SmmInternalFreePagesEx (page_start a) n True s)
             else ConvertSmmMemoryMapEntry EfiRuntimeServicesData (page_start a) n s);
       CoreFreeMemoryMapStack s
     }"
    unfolding SmmAddMemoryRegion_def Let_def R(1) n_def ..
  show ?thesis
  proof (cases Attr)
    case True
    have "view (node_runs (mSmmMemoryMap s)) = (\<lambda>p. if a \<le> p \<and> p < a + unat n
        then (if t = EfiConventionalMemory then Some EfiConventionalMemory else None)
        else view (node_runs (mSmmMemoryMap s)) p)"
      using t True gap' free_view[OF ok] by (intro ext) simp
    then show ?thesis
      using gap_release[OF ok n0 lim gap' side' smm_ok_nodes[OF ok] _ f] run t True b by auto
  next
    case False
    have nm: "\<not> meets (node_runs (mSmmMemoryMap s)) a (a + unat n)"
      using gap' free_view[OF ok] by (auto simp: meets_def)
    obtain ns' where ns': "put_node (below_nodes (page_start a) (mSmmMemoryMap s)) (page_start a, n)
          (aloft_nodes (page_start a) (mSmmMemoryMap s)) = Some ns'" "nodes_ok ns'"
        "view (node_runs ns') = (\<lambda>p. if a \<le> p \<and> p < a + unat n
          then (if EfiConventionalMemory = EfiConventionalMemory then Some EfiConventionalMemory else None)
          else view (node_runs (mSmmMemoryMap s)) p)"
      using put_range[OF smm_ok_nodes[OF ok] smm_ok_limit[OF ok] ab(3) n0 lim nm] by blast
    have t': "t = EfiConventionalMemory" using t False by simp
    obtain s1 s2 where s: "ConvertSmmMemoryMapEntry t (page_start a) n (s\<lparr>mSmmMemoryMap := ns'\<rparr>) = Some s1"
        "CoreFreeMemoryMapStack s1 = Some s2" "changed t a (a + unat n) s s2"
      using gap_release[OF ok n0 lim gap' side' ns'(2) _ f] ns'(3) t' by blast
    have nz: "page_start a AND EFI_PAGE_MASK = 0" "page_start a \<noteq> 0" "n \<noteq> 0"
      using page_aligned page_start_zero[OF ab(3)] ab(4,5) n0 by auto
    have abn: "a < a + unat n" using ab(4) b by simp
    note test = free_tests[OF smm_ok_nodes[OF ok] smm_ok_limit[OF ok] abn lim refl refl, unfolded page_start_plus[symmetric]]
    have "SmmInternalFreePagesEx (page_start a) n True s = Some (EFI_SUCCESS, s1)"
      using nm test ns'(1) s(1) t' unfolding free_ex_nodes[OF nz] Let_def by simp
    then show ?thesis using run False s(2,3) b by auto
  qed
qed

end
