(* ===== verification/Smm_First.thy ===== *)
theory Smm_First
  imports Smm_Add
begin

text \<open>
  The first region.  There is no free descriptor yet: the release of the stack allocates the last page
  of the region for descriptors.
\<close>

lemma refill:
  assumes "mFreeMemoryMapEntryList s = []" "mMapDepth s \<noteq> 0"
    "allocate_pages AllocateAnyPages EfiRuntimeServicesData 1 0 s = Some (EFI_SUCCESS, A, s3)"
    "mFreeMemoryMapEntryList s3 = []" "mMapDepth s3 \<noteq> 0"
  shows "free_stack_loop s =
    free_stack_loop (s3\<lparr>mFreeMemoryMapEntryList := map (OnHeap A) [0..<descriptors_per_page]\<rparr>)"
proof -
  let ?s = "s3\<lparr>mFreeMemoryMapEntryList := map (OnHeap A) [0..<descriptors_per_page]\<rparr>"
  have n: "map (OnHeap A) [0..<descriptors_per_page] \<noteq> []" by (simp add: descriptors_per_page_def)
  then have "AllocateMemoryMapEntry s = AllocateMemoryMapEntry ?s"
    using assms by (simp add: AllocateMemoryMapEntry_def)
  moreover have "mMapDepth ?s \<noteq> 0" using assms(5) by simp
  ultimately show ?thesis
    using assms(2) by (subst (1 2) free_stack_loop.simps) simp
qed

lemma top_page:
  assumes ok: "nodes_ok ns" and r: "node_runs ns = [(EfiConventionalMemory, a, b)]" and ab: "a < b" "b \<le> page_limit"
  shows "\<exists>ns'. InternalAllocMaxAddress ns 1 (- 1) = Some (page_start (b - 1), ns') \<and> taken ns (b - 1) b ns'"
proof -
  have fits: "fits ns 1 (- 1) x \<longleftrightarrow> a \<le> x \<and> x < b" for x
    using ab by (auto simp: fits_def covers_def r page_above_max)
  then have "fits ns 1 (- 1) (b - 1)" using ab by simp
  then obtain x ns' where x: "InternalAllocMaxAddress ns 1 (- 1) = Some (page_start x, ns')"
      "fits ns 1 (- 1) x" "\<forall>y. fits ns 1 (- 1) y \<longrightarrow> y \<le> x" "taken ns x (x + unat (1 :: u64)) ns'"
    using InternalAllocMaxAddress_spec[OF ok, of 1 "- 1"] by auto
  have "x = b - 1" using x(2,3) \<open>fits ns 1 (- 1) (b - 1)\<close> unfolding fits by fastforce
  moreover have "b - 1 + 1 = b" using ab by simp
  ultimately show ?thesis using x(1,4) by auto
qed

lemma first_page:
  assumes d: "descs s" and ring: "gMemoryMap s = [p]" and m: "run_of (maps s p) = (EfiConventionalMemory, a, b)"
    and depth: "mMapDepth s = 1" and ns: "nodes_ok (mSmmMemoryMap s)" "node_runs (mSmmMemoryMap s) = [(EfiConventionalMemory, a, b)]"
    and ab: "0 < a" "a + 1 < b" "b < page_limit"
  shows "\<exists>s3. allocate_pages AllocateAnyPages EfiRuntimeServicesData 1 0 s = Some (EFI_SUCCESS, page_start (b - 1), s3) \<and>
    descs s3 \<and> old_heap s s3 \<and> mFreeMapStack s3 = mFreeMapStack s \<and> mMapDepth s3 \<le> 3 \<and> taken (mSmmMemoryMap s) (b - 1) b (mSmmMemoryMap s3) \<and>
    map_runs s3 = [(EfiConventionalMemory, a, b - 1), (EfiRuntimeServicesData, b - 1, b)]"
proof -
  obtain ns' where ns': "InternalAllocMaxAddress (mSmmMemoryMap s) 1 (- 1) = Some (page_start (b - 1), ns')"
      "taken (mSmmMemoryMap s) (b - 1) b ns'"
    using top_page[OF ns] ab by auto
  let ?s = "s\<lparr>mSmmMemoryMap := ns'\<rparr>" and ?D = EfiRuntimeServicesData and ?C = EfiConventionalMemory
  have ds: "descs ?s" using d by simp
  have g: "gMemoryMap ?s = [] @ p # []" using ring by simp
  have ms: "run_of (maps ?s p) = (?C, a, b)" using m by simp
  have c: "canonical (map_runs ?s)" using ring m ab by (simp add: map_runs_def)
  have o: "ordered (runs_of ?s ([] @ p # []))" by (simp add: ordered_def)
  have e: "\<forall>q \<in> set ([] @ p # []). page_entry (maps ?s q)" using descs_ring[OF ds] ring by auto
  have lab: "a \<le> b - 1" "b - 1 < b" "b \<le> b" using ab by auto
  have dep: "mMapDepth ?s + 2 < MAX_MAP_DEPTH" using depth by (simp add: MAX_MAP_DEPTH_def)
  have pl: "a < b - 1" using ab by simp
  obtain s3 where s3: "convert_inside ?D (page_start (b - 1)) (page_end b) p ?s = Some s3" "descs s3" "same_rest ?s s3" "old_heap ?s s3"
      "mMapDepth s3 \<le> mMapDepth ?s + 2"
      "map_runs s3 = place_run (runs_of ?s [] @ piece (?C, a, b - 1)) (?D, b - 1, b) (piece (?C, b, b) @ runs_of ?s [])"
    using convert_inside_stack[OF ds g c ms lab, of ?D] dep pl by auto
  then have runs: "map_runs s3 = [(?C, a, b - 1), (?D, b - 1, b)]"
    using pl by (simp add: place_run_def join_left_def)
  have "convert_loop ?D (page_start (b - 1)) (page_end b) (gMemoryMap ?s) ?s = Some (Some s3)"
    using convert_loop_at[OF e o ms lab, of ?D] s3(1) g by simp
  moreover have "page_start (b - 1) + EFI_PAGES_TO_SIZE 1 - 1 = page_end b"
    using page_range_end[of "b - 1" 1] ab by simp
  ultimately have "ConvertSmmMemoryMapEntry ?D (page_start (b - 1)) 1 ?s = Some s3"
    by (simp add: ConvertSmmMemoryMapEntry_def Let_def)
  moreover have "page_start (b - 1) \<noteq> - 1" using page_start_not_max[of "b - 1"] ab by simp
  moreover have "\<not> 1 > TRUNCATE_TO_PAGES (- 1) + 1" unfolding too_many_pages by (simp add: page_limit_eq)
  ultimately have "allocate_pages AllocateAnyPages ?D 1 0 s = Some (EFI_SUCCESS, page_start (b - 1), s3)"
    using ns'(1) by (simp add: allocate_pages_def)
  then show ?thesis
    using s3(2-5) ns'(2) depth runs by (simp add: same_rest_def old_heap_def)
qed

lemma first_release:
  assumes d: "descs s" and ring: "gMemoryMap s = [OnStack 0]" and m: "run_of (maps s (OnStack 0)) = (EfiConventionalMemory, a, b)"
    and z: "mMapDepth s = 1" "mFreeMapStack s = 0" "mFreeMemoryMapEntryList s = []"
    and ns: "nodes_ok (mSmmMemoryMap s)" "node_runs (mSmmMemoryMap s) = [(EfiConventionalMemory, a, b)]"
    and ab: "0 < a" "a + 1 < b" "b < page_limit"
  shows "\<exists>s2. CoreFreeMemoryMapStack s = Some s2 \<and> smm_ok s2 \<and> 82 \<le> length (mFreeMemoryMapEntryList s2) \<and>
    map_runs s2 = [(EfiConventionalMemory, a, b - 1), (EfiRuntimeServicesData, b - 1, b)]"
proof -
  let ?s = "s\<lparr>mFreeMapStack := 1\<rparr>"
  have "descs ?s" "gMemoryMap ?s = [OnStack 0]" "run_of (maps ?s (OnStack 0)) = (EfiConventionalMemory, a, b)"
      "mMapDepth ?s = 1" "nodes_ok (mSmmMemoryMap ?s)" "node_runs (mSmmMemoryMap ?s) = [(EfiConventionalMemory, a, b)]"
    using d ring m z ns by simp_all
  then obtain s3 where s3: "allocate_pages AllocateAnyPages EfiRuntimeServicesData 1 0 ?s = Some (EFI_SUCCESS, page_start (b - 1), s3)"
      "descs s3" "old_heap ?s s3" "mFreeMapStack s3 = 1" "mMapDepth s3 \<le> 3" "taken (mSmmMemoryMap s) (b - 1) b (mSmmMemoryMap s3)"
      "map_runs s3 = [(EfiConventionalMemory, a, b - 1), (EfiRuntimeServicesData, b - 1, b)]"
    using first_page[of ?s "OnStack 0" a b] ab by auto
  have stack: "\<forall>q \<in> set (gMemoryMap s3) \<union> set (mFreeMemoryMapEntryList s3). on_stack q"
  proof
    fix q assume "q \<in> set (gMemoryMap s3) \<union> set (mFreeMemoryMapEntryList s3)"
    then have "q = OnStack 0 \<or> on_stack q" using s3(3) ring z(3) unfolding old_heap_def by auto
    then show "on_stack q" by auto
  qed
  have f3: "mFreeMemoryMapEntryList s3 = []"
    using stack s3(2) unfolding descs_def by (cases "mFreeMemoryMapEntryList s3") auto
  have "gMemoryMap s3 \<noteq> []" using s3(7) by (auto simp: map_runs_def)
  then have d3: "mMapDepth s3 \<noteq> 0"
    using stack descs_heap[OF s3(2)] by (metis Un_iff hd_in_set)
  let ?new = "map (OnHeap (page_start (b - 1))) [0..<descriptors_per_page]"
  let ?r = "s3\<lparr>mFreeMemoryMapEntryList := ?new\<rparr>"
  have loop: "free_stack_loop ?s = free_stack_loop ?r"
    using refill[OF _ _ s3(1) f3 d3] z by simp
  have "distinct ?new" "\<forall>q \<in> set ?new. \<not> on_stack q" by (auto simp: distinct_map inj_on_def)
  moreover have "set (gMemoryMap s3) \<inter> set ?new = {}" using stack by (metis UnI1 disjoint_iff calculation(2))
  ultimately have dr: "descs ?r" using s3(2) f3 unfolding descs_def by (auto cong: map_ptr.case_cong)
  have len: "length (mFreeMemoryMapEntryList ?r) = 85" by (simp add: descriptors_per_page_def)
  obtain s4 where s4: "free_stack_loop ?r = Some s4" "descs s4" "same_rest ?r s4" "mMapDepth s4 = 0"
      "map_runs s4 = map_runs ?r" "length (mFreeMemoryMapEntryList s4) + mMapDepth ?r = length (mFreeMemoryMapEntryList ?r)"
    using free_stack_loop_runs[OF dr] s3(5) len by auto
  let ?t = "s4\<lparr>mFreeMapStack := 0\<rparr>"
  have run: "CoreFreeMemoryMapStack s = Some ?t"
    using loop s4(1,3) s3(4) z(2) by (simp add: CoreFreeMemoryMapStack_def same_rest_def)
  have runs: "map_runs ?t = [(EfiConventionalMemory, a, b - 1), (EfiRuntimeServicesData, b - 1, b)]"
    using s4(5) s3(7) by (simp add: map_runs_def)
  have c: "canonical (map_runs ?t)" using runs ab by simp
  have nodes: "mSmmMemoryMap ?t = mSmmMemoryMap s3" using s4(3) by (simp add: same_rest_def)
  have nok: "nodes_ok (mSmmMemoryMap s3)" using s3(6) unfolding taken_def by blast
  have "view (node_runs (mSmmMemoryMap s3)) = view [(EfiConventionalMemory, a, b - 1)]"
    using s3(6) ns(2) ab unfolding taken_def by (auto simp: fun_eq_iff)
  then have "node_runs (mSmmMemoryMap s3) = [(EfiConventionalMemory, a, b - 1)]"
    using canonical_unique[of "node_runs (mSmmMemoryMap s3)"] nok ab by (simp add: nodes_ok_def)
  then have "smm_ok ?t"
    using s4(2,4) c runs nodes nok ab by (simp add: smm_ok_def nodes_ok_def)
  moreover have "82 \<le> length (mFreeMemoryMapEntryList ?t)" using s4(6) len s3(5) by simp
  ultimately show ?thesis using run runs by blast
qed

lemma SmmAddMemoryRegion_first:
  assumes ab: "a = (unat Base + 4095) div 4096" "b = (unat Base + unat Len) div 4096" "0 < a" "a + 1 < b" "b < page_limit"
  shows "\<exists>s'. SmmAddMemoryRegion Base Len False page_init = Some s' \<and> smm_ok s' \<and>
    82 \<le> length (mFreeMemoryMapEntryList s') \<and>
    map_runs s' = [(EfiConventionalMemory, a, b - 1), (EfiRuntimeServicesData, b - 1, b)]"
proof -
  define n where "n = TRUNCATE_TO_PAGES (Len - (page_start a - Base))"
  have ab4: "a < b" using ab(4) by simp
  note R = region_pages[OF ab(1,2) ab4 ab(5)]
  have n: "unat n = b - a" using R(2) by (simp add: n_def)
  then have b: "a + unat n = b" and n0: "0 < n" using ab4 by (simp_all add: word_less_nat_alt)
  have nz: "page_start a AND EFI_PAGE_MASK = 0" "page_start a \<noteq> 0" "n \<noteq> 0"
    using page_aligned page_start_zero[OF ab(3)] ab(5) ab4 n0 by auto
  let ?i = "page_init\<lparr>mSmmMemoryMap := [(page_start a, n)]\<rparr>"
  have di: "descs ?i" "gMemoryMap ?i = [] @ []" by (simp_all add: descs_def page_init_def)
  have bl: "b \<le> page_limit" using ab(5) by simp
  let ?s = "add_entry (EfiConventionalMemory, a, b) [] [] ?i"
  note A = add_entry_descs[OF di ab4 bl, where t = EfiConventionalMemory]
    and Q = add_entry_runs[OF di ab4 bl, where t = EfiConventionalMemory]
  have "InsertNewEntry None (page_start a) (page_end b) EfiConventionalMemory False ?i = Some ?s"
    by (rule InsertNewEntry_end) (simp_all add: page_init_def MAX_MAP_DEPTH_def)
  then have "ConvertSmmMemoryMapEntry EfiConventionalMemory (page_start a) n ?i = Some ?s"
    using b ab4 page_range_end[of a n] by (simp add: ConvertSmmMemoryMapEntry_def Let_def page_init_def)
  then have ex: "SmmInternalFreePagesEx (page_start a) n True page_init = Some (EFI_SUCCESS, ?s)"
    unfolding free_ex_nodes[OF nz] by (simp add: page_init_def below_nodes_def aloft_nodes_def put_node_def)
  have run: "SmmAddMemoryRegion Base Len False page_init = CoreFreeMemoryMapStack ?s"
    unfolding SmmAddMemoryRegion_def Let_def R(1) n_def[symmetric] using ex by simp
  have i0: "mMapDepth ?i = 0" "mFreeMapStack ?i = 0" "mFreeMemoryMapEntryList ?i = []" by (simp_all add: page_init_def)
  have lim: "a + unat n \<le> page_limit" using b bl by simp
  note N = page_nodeI[OF ab(3) n0 lim]
  have s: "gMemoryMap ?s = [OnStack 0]" "run_of (maps ?s (OnStack 0)) = (EfiConventionalMemory, a, b)"
      "mMapDepth ?s = 1" "mFreeMapStack ?s = 0" "mFreeMemoryMapEntryList ?s = []" "mSmmMemoryMap ?s = [(page_start a, n)]"
    using A Q i0 by (simp_all add: same_rest_def)
  have ns: "nodes_ok (mSmmMemoryMap ?s)" "node_runs (mSmmMemoryMap ?s) = [(EfiConventionalMemory, a, b)]"
    using N b ab4 s(6) by (simp_all add: nodes_ok_def)
  show ?thesis using first_release[OF A(1) s(1-5) ns ab(3-5)] run by simp
qed

end
