(* ===== verification/Smm_Calls.thy ===== *)
theory Smm_Calls
  imports Smm_First
begin

text \<open>
  Sequences of calls of the page services: the invariant, the consistency check of the code, and that a
  release undoes an allocation.
\<close>

lemma consistency_check:
  assumes "smm_ok s"
  shows "SmmMemoryMapConsistencyCheck s = Some ()"
proof -
  have "SmmMemoryMapConsistencyCheckRange (fst x) (EFI_PAGES_TO_SIZE (snd x)) s" if x: "x \<in> set (mSmmMemoryMap s)" for x
  proof -
    obtain l k where n: "x = (page_start l, k)" "0 < l" "0 < k" "l + unat k \<le> page_limit"
        "node_run x = (EfiConventionalMemory, l, l + unat k)"
      using nodes_okE[OF smm_ok_nodes[OF assms] x] by metis
    have "node_run x \<in> set (node_runs (mSmmMemoryMap s))" using x by (simp add: node_runs_def)
    then have "node_run x \<in> set (map_runs s)" using assms unfolding smm_ok_def by simp
    then obtain p where p: "p \<in> set (gMemoryMap s)" "run_of (maps s p) = (EfiConventionalMemory, l, l + unat k)"
      using n(5) by (auto simp: map_runs_def runs_of_def)
    have "descs s" using assms by (simp add: smm_ok_def)
    then have "Type (maps s p) = EfiConventionalMemory" "Start (maps s p) = page_start l" "End (maps s p) = page_end (l + unat k)"
      using entry_run[OF _ p(1)] p(2) by fastforce+
    then show ?thesis
      using p(1) n page_range_end[of l k] by (auto simp: SmmMemoryMapConsistencyCheckRange_def)
  qed
  then show ?thesis unfolding SmmMemoryMapConsistencyCheck_def ASSERT_def by auto
qed

lemma descriptor_run:
  assumes "is_run E (t, l, h)" "h < page_limit"
  shows "(\<lambda>(t, A, n). (t, unat A div 4096, unat A div 4096 + unat n)) (memory_descriptor E) = (t, l, h)"
proof -
  have E: "Type E = t" "Start E = page_start l" "End E = page_end h" "l < h" using assms(1) unfolding is_run_iff by auto
  have "page_end h + 1 = page_start l + page_start (h - l)"
    using E(4) page_end_plus[of h] by (simp add: page_start_def of_nat_diff)
  then have "End E - Start E + 1 = page_start (h - l)" unfolding E by (simp add: algebra_simps)
  moreover have "unat (page_start (h - l)) = 4096 * (h - l)" using unat_page_start assms(2) by simp
  ultimately have "unat (drop_bit 12 (End E - Start E + 1)) = h - l"
    using unat_TRUNCATE[of "page_start (h - l)"] by (simp add: TRUNCATE_TO_PAGES_def)
  moreover have "unat (Start E) = 4096 * l" using E(2,4) unat_page_start[of l] assms(2) by simp
  ultimately show ?thesis using E(1,4) by (simp add: memory_descriptor_def)
qed

lemma memory_map_runs:
  assumes "smm_ok s"
  shows "map (\<lambda>(t, A, n). (t, unat A div 4096, unat A div 4096 + unat n)) (snd (snd (SmmCoreGetMemoryMap (- 1) True s))) =
    map_runs s"
proof -
  have "(\<lambda>(t, A, n). (t, unat A div 4096, unat A div 4096 + unat n)) (memory_descriptor (maps s p)) = run_of (maps s p)"
    if p: "p \<in> set (gMemoryMap s)" for p
  proof -
    obtain t l h where r: "run_of (maps s p) = (t, l, h)" by (cases "run_of (maps s p)")
    have "(t, l, h) \<in> set (map_runs s)" using p r by (force simp: map_runs_def runs_of_def)
    then have h: "h < page_limit" using assms unfolding smm_ok_def by auto
    have d: "descs s" using assms by (simp add: smm_ok_def)
    have "page_entry (maps s p)" using descs_ring[OF d p] by blast
    then have "is_run (maps s p) (t, l, h)" using page_entry_is_run r by metis
    then show ?thesis unfolding r using h by (rule descriptor_run)
  qed
  moreover have "snd (snd (SmmCoreGetMemoryMap (- 1) True s)) = map (\<lambda>p. memory_descriptor (maps s p)) (gMemoryMap s)"
  proof -
    have "\<not> (- 1 :: u64) < 48 * word_of_nat (GetSmmMemoryMapEntryCount s)" by (simp only: not_less word_order.extremum)
    then show ?thesis unfolding SmmCoreGetMemoryMap_def Let_def by (simp only: if_False not_True_eq_False snd_conv)
  qed
  ultimately show ?thesis by (simp add: map_runs_def runs_of_def)
qed

text \<open>What a call of the allocation service returns: an error and no change, or a free range.\<close>

lemma allocate_gives:
  assumes ok: "smm_ok s" and f: "2 \<le> length (mFreeMemoryMapEntryList s)" and n: "0 < n"
    and addr: "ty = AllocateAddress \<longrightarrow> unat M div 4096 + unat n < page_limit"
  shows "(\<exists>st A. SmmInternalAllocatePages ty mt n M s = Some (st, A, s) \<and> EFI_ERROR st) \<or>
    (\<exists>a s'. SmmInternalAllocatePages ty mt n M s = Some (EFI_SUCCESS, page_start a, s') \<and> mt \<in> smm_memory_types \<and>
       (\<forall>p \<in> {a..<a + unat n}. page_type s p = Some EfiConventionalMemory) \<and> changed mt a (a + unat n) s s')"
proof (cases "mt \<in> smm_memory_types")
  case False
  then show ?thesis
    by (simp add: SmmInternalAllocatePages_def SmmInternalAllocatePagesEx_def allocate_pages_def smm_memory_types_def)
next
  case t: True
  have any: ?thesis if "ty = AllocateAnyPages \<and> M' = - 1 \<or> ty = AllocateMaxAddress \<and> M' = M" for M'
    using allocate_highest[OF ok f n t that] t unfolding room_def by force
  show ?thesis
  proof (cases ty)
    case AllocateAnyPages
    then show ?thesis using any[of "- 1"] by simp
  next
    case AllocateMaxAddress
    then show ?thesis using any[of M] by simp
  next
    case AllocateAddress
    show ?thesis
    proof (cases "M AND EFI_PAGE_MASK = 0")
      case True
      then have M: "M = page_start (unat M div 4096)" using aligned_page(1) by blast
      have "unat M div 4096 + unat n < page_limit" using addr AllocateAddress by simp
      note A = allocate_address[OF ok f n t this, folded M]
      show ?thesis
      proof (cases "\<forall>p \<in> {unat M div 4096..<unat M div 4096 + unat n}. page_type s p = Some EfiConventionalMemory")
        case True
        then show ?thesis using A[unfolded if_P[OF True]] AllocateAddress t M by metis
      next
        case False
        then show ?thesis using A[unfolded if_not_P[OF False]] AllocateAddress by simp
      qed
    next
      case False
      have "\<not> (mt \<noteq> EfiRuntimeServicesCode \<and> mt \<noteq> EfiRuntimeServicesData)"
        using t by (auto simp: smm_memory_types_def)
      moreover have "\<not> n > TRUNCATE_TO_PAGES (- 1) + 1" unfolding too_many_pages using addr AllocateAddress by simp
      ultimately show ?thesis using AllocateAddress InternalAllocAddress_unaligned[OF False] not_word_neq[of M]
        by (auto simp: SmmInternalAllocatePages_def SmmInternalAllocatePagesEx_def allocate_pages_def)
    qed
  next
    case MaxAllocateType
    then show ?thesis using t
      by (auto simp: SmmInternalAllocatePages_def SmmInternalAllocatePagesEx_def allocate_pages_def smm_memory_types_def)
  qed
qed

lemma allocate_total:
  assumes ok: "smm_ok s" and f: "2 \<le> length (mFreeMemoryMapEntryList s)" and n: "0 < n"
    and addr: "ty = AllocateAddress \<longrightarrow> unat M div 4096 + unat n < page_limit"
  shows "\<exists>st A s'. SmmInternalAllocatePages ty mt n M s = Some (st, A, s') \<and> smm_ok s' \<and>
    length (mFreeMemoryMapEntryList s) \<le> length (mFreeMemoryMapEntryList s') + 2 \<and> (st \<noteq> EFI_SUCCESS \<longrightarrow> s' = s)"
  using allocate_gives[OF assms, of mt] ok unfolding changed_def by force

lemma free_refused:
  "A AND EFI_PAGE_MASK \<noteq> 0 \<or> A = 0 \<or> n = 0 \<Longrightarrow> SmmInternalFreePages A n s = Some (EFI_INVALID_PARAMETER, s)"
  by (simp add: SmmInternalFreePages_def SmmInternalFreePagesEx_def)

lemma free_status: "SmmInternalFreePages A n s \<noteq> Some (EFI_NOT_FOUND, s')"
  by (auto simp: SmmInternalFreePages_def SmmInternalFreePagesEx_def Let_def split: bind_splits if_splits)

subsection \<open>Calls\<close>

text \<open>A range of allocated pages of one type, as a successful allocation returns it.\<close>

definition allocated :: "page_state \<Rightarrow> nat \<Rightarrow> nat \<Rightarrow> bool" where
  "allocated s a b \<longleftrightarrow> 0 < a \<and> a < b \<and> b < page_limit \<and>
     (\<exists>t \<in> smm_memory_types. \<forall>p \<in> {a..<b}. page_type s p = Some t)"

inductive page_calls :: "page_state \<Rightarrow> nat \<Rightarrow> page_state \<Rightarrow> bool" where
  none: "page_calls s 0 s"
| allocate: "page_calls s k s1 \<Longrightarrow> 0 < n \<Longrightarrow> (ty = AllocateAddress \<longrightarrow> unat M div 4096 + unat n < page_limit) \<Longrightarrow>
    SmmInternalAllocatePages ty mt n M s1 = Some (st, A, s2) \<Longrightarrow> page_calls s (Suc k) s2"
| free: "page_calls s k s1 \<Longrightarrow> allocated s1 a (a + unat n) \<Longrightarrow>
    SmmInternalFreePages (page_start a) n s1 = Some (st, s2) \<Longrightarrow> page_calls s (Suc k) s2"
| refused: "page_calls s k s1 \<Longrightarrow> A AND EFI_PAGE_MASK \<noteq> 0 \<or> A = 0 \<or> n = 0 \<Longrightarrow>
    SmmInternalFreePages A n s1 = Some (st, s2) \<Longrightarrow> page_calls s (Suc k) s2"

lemma free_allocated:
  assumes "smm_ok s" "2 \<le> length (mFreeMemoryMapEntryList s)" "allocated s a (a + unat n)"
  shows "\<exists>s'. SmmInternalFreePages (page_start a) n s = Some (EFI_SUCCESS, s') \<and>
    changed EfiConventionalMemory a (a + unat n) s s'"
proof -
  obtain t where t: "t \<in> smm_memory_types" "\<forall>p \<in> {a..<a + unat n}. page_type s p = Some t"
    and a: "0 < a" "a < a + unat n" "a + unat n < page_limit"
    using assms(3) unfolding allocated_def by blast
  have "0 < n" "t \<noteq> EfiConventionalMemory" using a(2) t(1) by (auto simp: word_less_nat_alt)
  then show ?thesis using free_pages(2)[OF assms(1) _ a(1,3) assms(2) _ t(2)] by blast
qed

lemma page_calls_ok:
  assumes "page_calls s k s'" "smm_ok s" "2 * k \<le> length (mFreeMemoryMapEntryList s)"
  shows "smm_ok s' \<and> length (mFreeMemoryMapEntryList s) \<le> length (mFreeMemoryMapEntryList s') + 2 * k"
  using assms
proof (induction rule: page_calls.induct)
  case (allocate s k s1 n ty M mt st A s2)
  then have ok: "smm_ok s1" "length (mFreeMemoryMapEntryList s) \<le> length (mFreeMemoryMapEntryList s1) + 2 * k"
    by simp_all
  have "2 \<le> length (mFreeMemoryMapEntryList s1)" using ok(2) allocate.prems(2) by simp
  from allocate_total[OF ok(1) this allocate.hyps(2,3), of mt] show ?case
    using ok(2) allocate.hyps(4) by auto
next
  case (free s k s1 a n st s2)
  then have ok: "smm_ok s1" "length (mFreeMemoryMapEntryList s) \<le> length (mFreeMemoryMapEntryList s1) + 2 * k"
    by simp_all
  have "2 \<le> length (mFreeMemoryMapEntryList s1)" using ok(2) free.prems(2) by simp
  from free_allocated[OF ok(1) this free.hyps(2)] show ?case
    using ok(2) free.hyps(3) by (auto simp: changed_def)
next
  case (refused s k s1 A n st s2)
  then show ?case using free_refused[of A n s1] by auto
qed simp

subsection \<open>An allocation undone\<close>

lemma conventional_page:
  assumes "smm_ok s" "page_type s p = Some EfiConventionalMemory"
  shows "0 < p" "p < page_limit - 1"
proof -
  have "view (node_runs (mSmmMemoryMap s)) p = Some EfiConventionalMemory" using free_view[OF assms(1)] assms(2) by simp
  then obtain l h where r: "(EfiConventionalMemory, l, h) \<in> set (node_runs (mSmmMemoryMap s))" "l \<le> p" "p < h"
    using view_Some by metis
  obtain x where x: "x \<in> set (mSmmMemoryMap s)" "node_run x = (EfiConventionalMemory, l, h)" using node_runs_in[OF r(1)] by blast
  have "page_node x" using assms(1) x(1) by (simp add: smm_ok_def)
  then have "0 < l" using page_nodeE2(3) x(2) by metis
  then show "0 < p" using r(2) by simp
  have "h < page_limit" using smm_ok_limit[OF assms(1)] r(1) by auto
  then show "p < page_limit - 1" using r(3) by simp
qed

lemma node_runs_inj:
  assumes "\<forall>x \<in> set ns. page_node x" "\<forall>x \<in> set ms. page_node x" "node_runs ns = node_runs ms"
  shows "ns = ms"
proof (rule map_inj_on)
  show "map node_run ns = map node_run ms" using assms(3) by (simp add: node_runs_def)
  show "inj_on node_run (set ns \<union> set ms)"
  proof (rule inj_onI)
    fix x y assume xy: "x \<in> set ns \<union> set ms" "y \<in> set ns \<union> set ms" "node_run x = node_run y"
    obtain t l h where r: "node_run y = (t, l, h)" by (cases "node_run y")
    show "x = y" using page_nodeE2(1)[of x t l h] page_nodeE2(1)[of y t l h] xy r assms(1,2) by auto
  qed
qed

lemma same_pages:
  assumes "smm_ok s" "smm_ok s'" "page_type s' = page_type s"
  shows "map_runs s' = map_runs s" "mSmmMemoryMap s' = mSmmMemoryMap s"
proof -
  show e: "map_runs s' = map_runs s"
    using canonical_unique[of "map_runs s'" "map_runs s"] assms by (simp add: smm_ok_def page_type_def)
  have "node_runs (mSmmMemoryMap s') = node_runs (mSmmMemoryMap s)" using assms(1,2) e by (simp add: smm_ok_def)
  then show "mSmmMemoryMap s' = mSmmMemoryMap s"
    using node_runs_inj[of "mSmmMemoryMap s'" "mSmmMemoryMap s"] assms(1,2) by (simp add: smm_ok_def)
qed

lemma allocate_free:
  assumes ok: "smm_ok s" and f: "4 \<le> length (mFreeMemoryMapEntryList s)" and n: "0 < n" and t: "mt \<in> smm_memory_types"
    and free: "\<forall>p \<in> {a..<a + unat n}. page_type s p = Some EfiConventionalMemory"
    and s': "changed mt a (a + unat n) s s'"
  shows "\<exists>s''. SmmInternalFreePages (page_start a) n s' = Some (EFI_SUCCESS, s'') \<and> smm_ok s'' \<and>
    map_runs s'' = map_runs s \<and> mSmmMemoryMap s'' = mSmmMemoryMap s"
proof -
  let ?b = "a + unat n"
  have ab: "a < ?b" using n by (simp add: word_less_nat_alt)
  have b1: "?b - 1 \<in> {a..<?b}" "a \<in> {a..<?b}" using ab by auto
  have lim: "0 < a" "?b < page_limit"
    using conventional_page[OF ok] free b1 ab by fastforce+
  have p': "page_type s' = set_pages mt a ?b (page_type s)" "smm_ok s'"
      "length (mFreeMemoryMapEntryList s) \<le> length (mFreeMemoryMapEntryList s') + 2"
    using s' by (simp_all add: changed_def)
  have "allocated s' a ?b" using lim ab t p'(1) by (auto simp: allocated_def set_pages_def)
  then obtain s'' where s'': "SmmInternalFreePages (page_start a) n s' = Some (EFI_SUCCESS, s'')"
      "changed EfiConventionalMemory a ?b s' s''"
    using free_allocated[OF p'(2)] p'(3) f by auto
  have "page_type s'' = page_type s"
    using s''(2) p'(1) free by (auto simp: changed_def set_pages_def fun_eq_iff)
  then show ?thesis using same_pages[OF ok, of s''] s'' by (auto simp: changed_def)
qed

subsection \<open>A release of pages that are not in the map\<close>

lemma free_unmapped:
  assumes ok: "smm_ok s" and f: "1 \<le> length (mFreeMemoryMapEntryList s)"
    and a: "0 < a" and n: "0 < n" and lim: "a + unat n < page_limit"
    and gap: "\<forall>p \<in> {a..<a + unat n}. page_type s p = None"
    and side: "(\<forall>p \<ge> a + unat n. page_type s p = None) \<or> page_type s (a - 1) \<noteq> Some EfiConventionalMemory"
  shows "\<exists>s'. SmmInternalFreePages (page_start a) n s = Some (EFI_SUCCESS, s') \<and>
    changed EfiConventionalMemory a (a + unat n) s s'"
proof -
  let ?C = EfiConventionalMemory and ?ns = "mSmmMemoryMap s"
  have ab: "a < a + unat n" using n by (simp add: word_less_nat_alt)
  have nz: "page_start a AND EFI_PAGE_MASK = 0" "page_start a \<noteq> 0" "n \<noteq> 0"
    using page_aligned page_start_zero[OF a] lim n by auto
  note nodes = smm_ok_nodes[OF ok] smm_ok_limit[OF ok]
  have nm: "\<not> meets (node_runs ?ns) a (a + unat n)" using gap free_view[OF ok] by (auto simp: meets_def)
  obtain ns' where ns': "put_node (below_nodes (page_start a) ?ns) (page_start a, n) (aloft_nodes (page_start a) ?ns) = Some ns'"
      "nodes_ok ns'" "view (node_runs ns') = (\<lambda>p. if a \<le> p \<and> p < a + unat n
        then (if ?C = ?C then Some ?C else None) else view (node_runs ?ns) p)"
    using put_range[OF nodes a n lim nm] by blast
  obtain s1 s2 where s: "ConvertSmmMemoryMapEntry ?C (page_start a) n (s\<lparr>mSmmMemoryMap := ns'\<rparr>) = Some s1"
      "CoreFreeMemoryMapStack s1 = Some s2" "changed ?C a (a + unat n) s s2"
    using gap_release[OF ok n lim gap _ ns'(2,3) f] side by blast
  note test = free_tests[OF nodes ab lim refl refl, unfolded page_start_plus[symmetric]]
  have "SmmInternalFreePages (page_start a) n s = Some (EFI_SUCCESS, s2)"
    using nm test ns'(1) s(1,2) unfolding SmmInternalFreePages_nodes[OF nz] Let_def by simp
  then show ?thesis using s(3) by blast
qed

end
