(* ===== verification/Smm_Mem_Spec.thy ===== *)
theory Smm_Mem_Spec
  imports Smm_Calls
begin

text \<open>
  What the page allocator of the SMM core promises: where it allocates, what a release accepts, that
  both keep the two maps consistent, that a release undoes an allocation, and how regions enter the map.
  changed t a b s s' says that the type of the pages from a to b is t in s', that the other pages have
  the types of s, and that the invariant holds again.
\<close>

text \<open>A map with one region of sixteen pages, the last of which holds descriptors.\<close>

definition small_region :: "page_state option" where
  "small_region = SmmAddMemoryRegion 0x100000 0x10000 False page_init"

lemma small_region_ok:
  obtains s where "small_region = Some s" "smm_ok s" "82 \<le> length (mFreeMemoryMapEntryList s)"
    "map_runs s = [(EfiConventionalMemory, 0x100, 0x10F), (EfiRuntimeServicesData, 0x10F, 0x110)]"
proof -
  have "(0x100 :: nat) = (unat (0x100000 :: u64) + 4095) div 4096"
    "(0x110 :: nat) = (unat (0x100000 :: u64) + unat (0x10000 :: u64)) div 4096"
    by simp_all
  then show ?thesis
    using SmmAddMemoryRegion_first[of "0x100" "0x100000" "0x110" "0x10000"] that
    by (auto simp: small_region_def page_limit_eq)
qed

lemma small_region_type:
  assumes "map_runs s = [(EfiConventionalMemory, 0x100, 0x10F), (EfiRuntimeServicesData, 0x10F, 0x110)]"
  shows "page_type s p = (if 0x100 \<le> p \<and> p < 0x10F then Some EfiConventionalMemory
    else if p = 0x10F then Some EfiRuntimeServicesData else None)"
  using assms by (auto simp: page_type_def)

section \<open>Properties\<close>

text \<open>C10: AllocateAnyPages and AllocateMaxAddress return the highest free range of the size below
  the limit, of which only the type changes, and EFI_OUT_OF_RESOURCES with nothing changed exactly when
  there is none.\<close>

theorem SmmInternalAllocatePages_highest:
  assumes "smm_ok s" "2 \<le> length (mFreeMemoryMapEntryList s)" "0 < n" "mt \<in> smm_memory_types"
    "ty \<in> {AllocateAnyPages, AllocateMaxAddress}" "M = (if ty = AllocateAnyPages then - 1 else Memory)"
  shows "if \<exists>a. room s n M a
    then \<exists>a s'. SmmInternalAllocatePages ty mt n Memory s = Some (EFI_SUCCESS, page_start a, s') \<and> room s n M a \<and>
      (\<forall>a'. room s n M a' \<longrightarrow> a' \<le> a) \<and> changed mt a (a + unat n) s s'
    else \<exists>A. SmmInternalAllocatePages ty mt n Memory s = Some (EFI_OUT_OF_RESOURCES, A, s)"
proof -
  have "ty = AllocateAnyPages \<and> M = - 1 \<or> ty = AllocateMaxAddress \<and> M = Memory" using assms(5,6) by auto
  from allocate_highest[OF assms(1-4) this] show ?thesis by (elim disjE conjE exE) (simp, auto)
qed

theorem SmmInternalAllocatePages_highest_witness:
  "\<exists>s s'. small_region = Some s \<and>
    SmmInternalAllocatePages AllocateAnyPages EfiRuntimeServicesCode 3 0 s = Some (EFI_SUCCESS, page_start 0x10C, s')"
proof -
  obtain s where s: "small_region = Some s" "smm_ok s" "82 \<le> length (mFreeMemoryMapEntryList s)"
      "map_runs s = [(EfiConventionalMemory, 0x100, 0x10F), (EfiRuntimeServicesData, 0x10F, 0x110)]"
    by (rule small_region_ok)
  have room: "room s 3 (- 1) a \<longleftrightarrow> 0x100 \<le> a \<and> a + 3 \<le> 0x10F" for a
  proof
    assume r: "room s 3 (- 1) a"
    then have "page_type s a = Some EfiConventionalMemory" "page_type s (a + 2) = Some EfiConventionalMemory"
      by (auto simp: room_def)
    then show "0x100 \<le> a \<and> a + 3 \<le> 0x10F"
      unfolding small_region_type[OF s(4)] by (auto split: if_splits)
  next
    assume "0x100 \<le> a \<and> a + 3 \<le> 0x10F"
    then show "room s 3 (- 1) a"
      by (auto simp: room_def small_region_type[OF s(4)] page_above_max page_limit_eq)
  qed
  have "\<exists>a. room s 3 (- 1) a" using room by auto
  moreover have "EfiRuntimeServicesCode \<in> smm_memory_types" by (simp add: smm_memory_types_def)
  ultimately obtain a s' where a: "SmmInternalAllocatePages AllocateAnyPages EfiRuntimeServicesCode 3 0 s = Some (EFI_SUCCESS, page_start a, s')"
      "room s 3 (- 1) a" "\<forall>a'. room s 3 (- 1) a' \<longrightarrow> a' \<le> a"
    using SmmInternalAllocatePages_highest[of s 3 EfiRuntimeServicesCode AllocateAnyPages "- 1" 0] s(2,3) by auto
  have "room s 3 (- 1) 0x10C" unfolding room by simp
  then have "0x10C \<le> a" using a(3) by blast
  moreover have "a \<le> 0x10C" using a(2) unfolding room by simp
  ultimately have "a = 0x10C" by simp
  then show ?thesis using s(1) a(1) by auto
qed



text \<open>C11: A range that is allocated becomes free, and nothing else changes, as long as two free descriptors
  are left for the memory map.  A range with a free page, an address that is zero or not on a page, and zero pages are
  refused with EFI_INVALID_PARAMETER, and nothing changes; no release returns EFI_NOT_FOUND.  For an
  aligned range the code so deviates from the comment of SmmInternalFreePages, which documents
  EFI_NOT_FOUND when no entry covers the range and EFI_INVALID_PARAMETER only for the arguments.\<close>

theorem SmmInternalFreePages_exact:
  assumes "smm_ok s" "0 < a" "0 < n" "a + unat n < page_limit"
  shows "(allocated s a (a + unat n) \<and> 2 \<le> length (mFreeMemoryMapEntryList s) \<longrightarrow>
      (\<exists>s'. SmmInternalFreePages (page_start a) n s = Some (EFI_SUCCESS, s') \<and>
         changed EfiConventionalMemory a (a + unat n) s s')) \<and>
    ((\<exists>p \<in> {a..<a + unat n}. page_type s p = Some EfiConventionalMemory) \<longrightarrow>
      SmmInternalFreePages (page_start a) n s = Some (EFI_INVALID_PARAMETER, s)) \<and>
    (\<forall>A k. A AND EFI_PAGE_MASK \<noteq> 0 \<or> A = 0 \<or> k = 0 \<longrightarrow>
      SmmInternalFreePages A k s = Some (EFI_INVALID_PARAMETER, s)) \<and>
    (\<forall>A k s'. SmmInternalFreePages A k s \<noteq> Some (EFI_NOT_FOUND, s'))"
proof (intro conjI allI impI)
  assume "allocated s a (a + unat n) \<and> 2 \<le> length (mFreeMemoryMapEntryList s)"
  then show "\<exists>s'. SmmInternalFreePages (page_start a) n s = Some (EFI_SUCCESS, s') \<and>
      changed EfiConventionalMemory a (a + unat n) s s'"
    using free_allocated[OF assms(1)] by blast
qed (use free_pages(1)[OF assms(1,3,2,4)] free_refused free_status in auto)

theorem SmmInternalFreePages_exact_witness:
  "\<exists>s s'. small_region = Some s \<and> SmmInternalFreePages (page_start 0x10F) 1 s = Some (EFI_SUCCESS, s') \<and>
    SmmInternalFreePages (page_start 0x10E) 2 s = Some (EFI_INVALID_PARAMETER, s)"
proof -
  obtain s where s: "small_region = Some s" "smm_ok s" "82 \<le> length (mFreeMemoryMapEntryList s)"
      "map_runs s = [(EfiConventionalMemory, 0x100, 0x10F), (EfiRuntimeServicesData, 0x10F, 0x110)]"
    by (rule small_region_ok)
  note ty = small_region_type[OF s(4)]
  have f: "2 \<le> length (mFreeMemoryMapEntryList s)" using s(3) by simp
  have "allocated s 0x10F (0x10F + unat (1 :: u64))"
    by (auto simp: allocated_def page_limit_eq smm_memory_types_def ty)
  moreover have "\<exists>p \<in> {0x10E..<0x10E + unat (2 :: u64)}. page_type s p = Some EfiConventionalMemory"
    by (auto simp: ty intro!: bexI[of _ "0x10E"])
  ultimately show ?thesis
    using SmmInternalFreePages_exact[OF s(2), of "0x10F" 1] SmmInternalFreePages_exact[OF s(2), of "0x10E" 2] s(1) f
    by (auto simp: page_limit_eq)
qed

text \<open>C35: Releasing what AllocateAnyPages or AllocateMaxAddress returned restores the free nodes and the
  runs of the memory map.\<close>

theorem allocate_then_free:
  assumes "smm_ok s" "4 \<le> length (mFreeMemoryMapEntryList s)" "0 < n" "mt \<in> smm_memory_types"
    "ty \<in> {AllocateAnyPages, AllocateMaxAddress}"
    "SmmInternalAllocatePages ty mt n Memory s = Some (EFI_SUCCESS, A, s')"
  shows "\<exists>s''. SmmInternalFreePages A n s' = Some (EFI_SUCCESS, s'') \<and> smm_ok s'' \<and>
    map_runs s'' = map_runs s \<and> mSmmMemoryMap s'' = mSmmMemoryMap s"
proof -
  define M where "M = (if ty = AllocateAnyPages then - 1 else Memory)"
  have ty: "ty = AllocateAnyPages \<and> M = - 1 \<or> ty = AllocateMaxAddress \<and> M = Memory" using assms(5) by (auto simp: M_def)
  have "2 \<le> length (mFreeMemoryMapEntryList s)" using assms(2) by simp
  from allocate_highest[OF assms(1) this assms(3,4) ty]
  obtain a where a: "A = page_start a" "room s n M a" "changed mt a (a + unat n) s s'" using assms(6) by auto
  then show ?thesis using allocate_free[OF assms(1-4) _ a(3)] by (simp add: room_def)
qed

theorem allocate_then_free_witness:
  "\<exists>s A s' s''. small_region = Some s \<and>
    SmmInternalAllocatePages AllocateAnyPages EfiRuntimeServicesCode 3 0 s = Some (EFI_SUCCESS, A, s') \<and>
    SmmInternalFreePages A 3 s' = Some (EFI_SUCCESS, s'') \<and> mSmmMemoryMap s'' = [(0x100000, 15)]"
proof -
  obtain s where s: "small_region = Some s" "smm_ok s" "82 \<le> length (mFreeMemoryMapEntryList s)"
      "map_runs s = [(EfiConventionalMemory, 0x100, 0x10F), (EfiRuntimeServicesData, 0x10F, 0x110)]"
    by (rule small_region_ok)
  have t: "EfiRuntimeServicesCode \<in> smm_memory_types" by (simp add: smm_memory_types_def)
  have "room s 3 (- 1) 0x100"
    by (auto simp: room_def small_region_type[OF s(4)] page_above_max page_limit_eq)
  then obtain A s' where A: "SmmInternalAllocatePages AllocateAnyPages EfiRuntimeServicesCode 3 0 s = Some (EFI_SUCCESS, A, s')"
    using allocate_highest[OF s(2) _ _ t, of 3 AllocateAnyPages "- 1" 0] s(3) by auto
  have "4 \<le> length (mFreeMemoryMapEntryList s)" using s(3) by simp
  from allocate_then_free[OF s(2) this _ t _ A]
  obtain s'' where s'': "SmmInternalFreePages A 3 s' = Some (EFI_SUCCESS, s'')" "mSmmMemoryMap s'' = mSmmMemoryMap s" by auto
  have "node_runs (mSmmMemoryMap s) = [(EfiConventionalMemory, 0x100, 0x10F)]" using s(2,4) by (simp add: smm_ok_def)
  moreover have "\<forall>x \<in> set (mSmmMemoryMap s). page_node x" using s(2) by (simp add: smm_ok_def)
  moreover have "node_runs [(0x100000, 15)] = [(EfiConventionalMemory, 0x100, 0x10F)]" "page_node (0x100000, 15)"
    by (simp_all add: node_run_def page_node_def page_limit_eq)
  ultimately have "mSmmMemoryMap s = [(0x100000, 15)]" by (intro node_runs_inj) auto
  then show ?thesis using s(1) A s'' by auto
qed

text \<open>C13: Whatever is allocated and whatever allocated ranges are released, as long as two free
  descriptors are left for each call no ASSERT fires, the two maps agree (the consistency check of the
  code passes) and the memory map that SmmCoreGetMemoryMap copies lists the runs of the pages.\<close>

theorem page_calls_consistent:
  assumes "page_calls s k s'" "smm_ok s" "2 * k + 2 \<le> length (mFreeMemoryMapEntryList s)"
  shows "smm_ok s' \<and> SmmMemoryMapConsistencyCheck s' = Some () \<and>
    map (\<lambda>(t, A, n). (t, unat A div 4096, unat A div 4096 + unat n)) (snd (snd (SmmCoreGetMemoryMap (- 1) True s'))) =
      map_runs s' \<and>
    (\<forall>ty mt n M. 0 < n \<and> (ty = AllocateAddress \<longrightarrow> unat M div 4096 + unat n < page_limit) \<longrightarrow>
      SmmInternalAllocatePages ty mt n M s' \<noteq> None) \<and>
    (\<forall>a n. allocated s' a (a + unat n) \<longrightarrow> SmmInternalFreePages (page_start a) n s' \<noteq> None)"
proof -
  have "2 * k \<le> length (mFreeMemoryMapEntryList s)" using assms(3) by simp
  from page_calls_ok[OF assms(1,2) this]
  have ok: "smm_ok s'" and f: "2 \<le> length (mFreeMemoryMapEntryList s')" using assms(3) by simp_all
  have "SmmInternalAllocatePages ty mt n M s' \<noteq> None"
    if "0 < n" "ty = AllocateAddress \<longrightarrow> unat M div 4096 + unat n < page_limit" for ty mt n M
    using allocate_total[OF ok f that, of mt] by force
  moreover have "SmmInternalFreePages (page_start a) n s' \<noteq> None" if "allocated s' a (a + unat n)" for a n
    using free_allocated[OF ok f that] by force
  ultimately show ?thesis using ok consistency_check[OF ok] memory_map_runs[OF ok] by blast
qed

theorem page_calls_consistent_witness:
  "\<exists>s s' A. small_region = Some s \<and>
    SmmInternalAllocatePages AllocateAnyPages EfiRuntimeServicesCode 3 0 s = Some (EFI_SUCCESS, A, s') \<and>
    SmmMemoryMapConsistencyCheck s' = Some ()"
proof -
  obtain s where s: "small_region = Some s" "smm_ok s" "82 \<le> length (mFreeMemoryMapEntryList s)"
      "map_runs s = [(EfiConventionalMemory, 0x100, 0x10F), (EfiRuntimeServicesData, 0x10F, 0x110)]"
    by (rule small_region_ok)
  have t: "EfiRuntimeServicesCode \<in> smm_memory_types" by (simp add: smm_memory_types_def)
  have "room s 3 (- 1) 0x100"
    by (auto simp: room_def small_region_type[OF s(4)] page_above_max page_limit_eq)
  then obtain A s' where A: "SmmInternalAllocatePages AllocateAnyPages EfiRuntimeServicesCode 3 0 s = Some (EFI_SUCCESS, A, s')"
    using allocate_highest[OF s(2) _ _ t, of 3 AllocateAnyPages "- 1" 0] s(3) by auto
  have "page_calls s (Suc 0) s'"
    by (rule page_calls.allocate[OF page_calls.none _ _ A]) simp_all
  then have "SmmMemoryMapConsistencyCheck s' = Some ()"
    using page_calls_consistent[of s "Suc 0" s'] s(2,3) by simp
  then show ?thesis using s(1) A by blast
qed

text \<open>The whole pages of a region become free pages, or EfiRuntimeServicesData for a region that is in
  use: of the first region, the last page holds descriptors; a further region must be new, and below the
  last entry it must not touch an entry of its type from above.\<close>

theorem SmmAddMemoryRegion_exact:
  assumes "a = (unat Base + 4095) div 4096" "b = (unat Base + unat Len) div 4096" "0 < a" "a + 1 < b" "b < page_limit"
  shows "(\<exists>s'. SmmAddMemoryRegion Base Len False page_init = Some s' \<and> smm_ok s' \<and> 82 \<le> length (mFreeMemoryMapEntryList s') \<and>
      map_runs s' = [(EfiConventionalMemory, a, b - 1), (EfiRuntimeServicesData, b - 1, b)]) \<and>
    (\<forall>s Attr t. smm_ok s \<and> 1 \<le> length (mFreeMemoryMapEntryList s) \<and> (\<forall>p \<in> {a..<b}. page_type s p = None) \<and>
      t = (if Attr then EfiRuntimeServicesData else EfiConventionalMemory) \<and>
      ((\<forall>p \<ge> b. page_type s p = None) \<or> page_type s (a - 1) \<noteq> Some t) \<longrightarrow>
      (\<exists>s'. SmmAddMemoryRegion Base Len Attr s = Some s' \<and> changed t a b s s'))"
proof -
  have ab: "a < b" using assms(4) by simp
  note first = SmmAddMemoryRegion_first[OF assms]
  have "\<exists>s'. SmmAddMemoryRegion Base Len Attr s = Some s' \<and> changed t a b s s'"
    if "smm_ok s" "1 \<le> length (mFreeMemoryMapEntryList s)" "\<forall>p \<in> {a..<b}. page_type s p = None"
      "t = (if Attr then EfiRuntimeServicesData else EfiConventionalMemory)"
      "(\<forall>p \<ge> b. page_type s p = None) \<or> page_type s (a - 1) \<noteq> Some t" for s Attr t
    by (rule SmmAddMemoryRegion_adds[OF that(1,2) assms(1-3) ab assms(5) that(3-5)])
  then show ?thesis using first by blast
qed

theorem SmmAddMemoryRegion_exact_witness:
  "\<exists>s s'. SmmAddMemoryRegion 0x300800 0x4800 False page_init = Some s \<and>
    SmmAddMemoryRegion 0x100000 0x2000 True s = Some s' \<and> page_type s' 0x101 = Some EfiRuntimeServicesData"
proof -
  have p: "(0x301 :: nat) = (unat (0x300800 :: u64) + 4095) div 4096"
    "(0x305 :: nat) = (unat (0x300800 :: u64) + unat (0x4800 :: u64)) div 4096"
    "(0x100 :: nat) = (unat (0x100000 :: u64) + 4095) div 4096"
    "(0x102 :: nat) = (unat (0x100000 :: u64) + unat (0x2000 :: u64)) div 4096"
    by simp_all
  obtain s where s: "SmmAddMemoryRegion 0x300800 0x4800 False page_init = Some s" "smm_ok s"
      "82 \<le> length (mFreeMemoryMapEntryList s)"
      "map_runs s = [(EfiConventionalMemory, 0x301, 0x304), (EfiRuntimeServicesData, 0x304, 0x305)]"
    using SmmAddMemoryRegion_exact[OF p(1,2)] by (auto simp: page_limit_eq)
  have f: "1 \<le> length (mFreeMemoryMapEntryList s)" using s(3) by simp
  have ty: "\<forall>p \<in> {0x100..<0x102}. page_type s p = None" "page_type s (0x100 - 1) \<noteq> Some EfiRuntimeServicesData"
    using s(4) by (auto simp: page_type_def)
  obtain s' where s': "SmmAddMemoryRegion 0x100000 0x2000 True s = Some s'" "changed EfiRuntimeServicesData 0x100 0x102 s s'"
  proof -
    have "(0 :: nat) < 0x100" "(0x100 :: nat) + 1 < 0x102" "0x102 < page_limit" by (simp_all add: page_limit_eq)
    note E = SmmAddMemoryRegion_exact[OF p(3,4) this, THEN conjunct2, rule_format, of s EfiRuntimeServicesData True]
    show ?thesis using E s(2) f ty that by (simp only: if_True) blast
  qed
  then have "page_type s' 0x101 = Some EfiRuntimeServicesData" by (auto simp: changed_def set_pages_def)
  then show ?thesis using s(1) s'(1) by blast
qed

text \<open>Memory that was never added to the map can be released: the call succeeds, and the foreign pages
  are free pages of the allocator from then on.\<close>

theorem SmmInternalFreePages_unmapped:
  assumes "smm_ok s" "1 \<le> length (mFreeMemoryMapEntryList s)" "0 < a" "0 < n" "a + unat n < page_limit"
    "\<forall>p \<in> {a..<a + unat n}. page_type s p = None"
    "(\<forall>p \<ge> a + unat n. page_type s p = None) \<or> page_type s (a - 1) \<noteq> Some EfiConventionalMemory"
  shows "\<exists>s'. SmmInternalFreePages (page_start a) n s = Some (EFI_SUCCESS, s') \<and>
    changed EfiConventionalMemory a (a + unat n) s s'"
  by (rule free_unmapped[OF assms])

theorem SmmInternalFreePages_unmapped_witness:
  "\<exists>s s'. small_region = Some s \<and> page_type s 0x205 = None \<and>
    SmmInternalFreePages (page_start 0x200) 0x10 s = Some (EFI_SUCCESS, s') \<and>
    page_type s' 0x205 = Some EfiConventionalMemory"
proof -
  obtain s where s: "small_region = Some s" "smm_ok s" "82 \<le> length (mFreeMemoryMapEntryList s)"
      "map_runs s = [(EfiConventionalMemory, 0x100, 0x10F), (EfiRuntimeServicesData, 0x10F, 0x110)]"
    by (rule small_region_ok)
  have f: "1 \<le> length (mFreeMemoryMapEntryList s)" using s(3) by simp
  have none: "page_type s p = None" if "0x200 \<le> p" for p using that by (simp add: small_region_type[OF s(4)])
  have "(0 :: nat) < 0x200" "(0 :: u64) < 0x10" "0x200 + unat (0x10 :: u64) < page_limit" by (simp_all add: page_limit_eq)
  from SmmInternalFreePages_unmapped[OF s(2) f this] none
  obtain s' where s': "SmmInternalFreePages (page_start 0x200) 0x10 s = Some (EFI_SUCCESS, s')"
      "changed EfiConventionalMemory 0x200 (0x200 + unat (0x10 :: u64)) s s'" by auto
  have "page_type s' 0x205 = Some EfiConventionalMemory" using s'(2) by (simp add: changed_def set_pages_def)
  then show ?thesis using s(1) s'(1) none[of "0x205"] by auto
qed

definition three_regions :: "page_state option" where
  "three_regions = do {
     s \<leftarrow> SmmAddMemoryRegion 0x300000 0x2000 False page_init;
     s \<leftarrow> SmmAddMemoryRegion 0x100000 0x2000 False s;
     SmmAddMemoryRegion 0x102000 0x2000 False s
   }"

text \<open>The condition on further regions is needed: a region that touches a free region below it, while
  there is an entry above it, is not joined to that entry; the consistency check of the code fails, and an
  allocation over the seam leaves descriptors of the memory map that overlap.\<close>

lemma SmmAddMemoryRegion_seam:
  "map_option (\<lambda>s. (mSmmMemoryMap s, SmmMemoryMapConsistencyCheck s)) three_regions =
     Some ([(0x100000, 4), (0x300000, 1)], None) \<and>
   map_option (\<lambda>(Status, A, s). (Status, A, snd (snd (SmmCoreGetMemoryMap (- 1) True s))))
     (Option.bind three_regions (SmmInternalAllocatePages AllocateAnyPages EfiRuntimeServicesData 3 0)) =
     Some (EFI_SUCCESS, 0x101000,
       [(EfiConventionalMemory, 0x100000, 2), (EfiConventionalMemory, 0x102000, 2),
        (EfiRuntimeServicesData, 0x101000, 3), (EfiConventionalMemory, 0x300000, 1),
        (EfiRuntimeServicesData, 0x301000, 1)])"
  by code_simp

end
