(* ===== verification/Smm_Pool.thy ===== *)
theory Smm_Pool
  imports Smm_Page Math_Lib
begin

text \<open>
  The pool allocator of the SMM core, MdeModulePkg/Core/PiSmmCore/Pool.c, on top of the page allocator.

  A block begins with a POOL_HEADER, which is at the address of the block, and ends with a POOL_TAIL; a
  free block is on the ring of its pool type and size, so a ring is a list of addresses.  headers and
  tails are the headers and tails in memory, by their addresses.  A fired ASSERT is None.  The buffer of
  a call that fails is not written; it is 0 here.
\<close>

unbundle bit_operations_syntax

datatype smm_pool_type = SmmPoolTypeCode | SmmPoolTypeData | SmmPoolTypeMax

record pool_header =
  Signature :: u32
  Available :: bool
  HeaderType :: efi_memory_type
  HeaderSize :: u64

record pool_tail =
  TailSignature :: u32
  TailSize :: u64

record pool_state =
  pages :: page_state
  mSmmPoolLists :: "smm_pool_type \<Rightarrow> nat \<Rightarrow> u64 list"
  headers :: "u64 \<Rightarrow> pool_header"
  tails :: "u64 \<Rightarrow> pool_tail"

definition MIN_POOL_SHIFT :: nat where "MIN_POOL_SHIFT = 6"
definition MIN_POOL_SIZE :: u64 where "MIN_POOL_SIZE = push_bit MIN_POOL_SHIFT 1"
definition MAX_POOL_SHIFT :: nat where "MAX_POOL_SHIFT = 11"
definition MAX_POOL_SIZE :: u64 where "MAX_POOL_SIZE = push_bit MAX_POOL_SHIFT 1"
definition MAX_POOL_INDEX :: nat where "MAX_POOL_INDEX = MAX_POOL_SHIFT - MIN_POOL_SHIFT + 1"
definition POOL_HEAD_SIGNATURE :: u32 where "POOL_HEAD_SIGNATURE = 0x30646870"
definition POOL_TAIL_SIGNATURE :: u32 where "POOL_TAIL_SIGNATURE = 0x6C617470"

text \<open>sizeof (POOL_HEADER) and sizeof (POOL_TAIL).\<close>

definition header_size :: u64 where "header_size = 24"
definition tail_size :: u64 where "tail_size = 16"
definition POOL_OVERHEAD :: u64 where "POOL_OVERHEAD = header_size + tail_size"

definition EFI_SIZE_TO_PAGES :: "u64 \<Rightarrow> u64" where
  "EFI_SIZE_TO_PAGES Size' = drop_bit 12 Size' + (if Size' AND EFI_PAGE_MASK \<noteq> 0 then 1 else 0)"

definition HEAD_TO_TAIL :: "u64 \<Rightarrow> pool_state \<Rightarrow> u64" where
  "HEAD_TO_TAIL Hdr s = Hdr + HeaderSize (headers s Hdr) - tail_size"

definition UefiMemoryTypeToSmmPoolType :: "efi_memory_type \<Rightarrow> smm_pool_type option" where
  "UefiMemoryTypeToSmmPoolType MemoryType =
     (case MemoryType of
        EfiRuntimeServicesCode \<Rightarrow> Some SmmPoolTypeCode
      | EfiRuntimeServicesData \<Rightarrow> Some SmmPoolTypeData
      | _ \<Rightarrow> None)"

text \<open>The two ways the header and the tail of a block are written.\<close>

definition set_free :: "u64 \<Rightarrow> pool_state \<Rightarrow> pool_state" where
  "set_free Hdr s =
     (let s = s\<lparr>headers := (headers s)(Hdr := (headers s Hdr)\<lparr>Signature := 0, Available := True,
           HeaderType := EfiReservedMemoryType\<rparr>)\<rparr> in
      s\<lparr>tails := (tails s)(HEAD_TO_TAIL Hdr s := \<lparr>TailSignature = 0, TailSize = 0\<rparr>)\<rparr>)"

definition set_used :: "u64 \<Rightarrow> efi_memory_type \<Rightarrow> u64 \<Rightarrow> pool_state \<Rightarrow> pool_state" where
  "set_used Hdr PoolType Size' s =
     (let s = s\<lparr>headers := (headers s)(Hdr := \<lparr>Signature = POOL_HEAD_SIGNATURE, Available = False,
           HeaderType = PoolType, HeaderSize = Size'\<rparr>)\<rparr> in
      s\<lparr>tails := (tails s)(HEAD_TO_TAIL Hdr s :=
           \<lparr>TailSignature = POOL_TAIL_SIGNATURE, TailSize = HeaderSize (headers s Hdr)\<rparr>)\<rparr>)"

definition insert_pool :: "smm_pool_type \<Rightarrow> nat \<Rightarrow> u64 \<Rightarrow> pool_state \<Rightarrow> pool_state" where
  "insert_pool T PoolIndex Hdr s =
     s\<lparr>mSmmPoolLists := (mSmmPoolLists s)(T := (mSmmPoolLists s T)(PoolIndex := Hdr # mSmmPoolLists s T PoolIndex))\<rparr>"

definition remove_first :: "smm_pool_type \<Rightarrow> nat \<Rightarrow> pool_state \<Rightarrow> pool_state" where
  "remove_first T PoolIndex s =
     s\<lparr>mSmmPoolLists := (mSmmPoolLists s)(T := (mSmmPoolLists s T)(PoolIndex := tl (mSmmPoolLists s T PoolIndex)))\<rparr>"

text \<open>The upper half of the block Hdr, whose lower half goes to the ring.\<close>

definition split_block :: "smm_pool_type \<Rightarrow> nat \<Rightarrow> u64 \<Rightarrow> pool_state \<Rightarrow> u64 \<times> pool_state" where
  "split_block T PoolIndex Hdr s =
     (let s = s\<lparr>headers := (headers s)(Hdr := (headers s Hdr)\<lparr>HeaderSize := drop_bit 1 (HeaderSize (headers s Hdr))\<rparr>)\<rparr>;
          s = set_free Hdr s;
          s = insert_pool T PoolIndex Hdr s in
      (Hdr + HeaderSize (headers s Hdr), s))"

function InternalAllocPoolByIndex ::
  "efi_memory_type \<Rightarrow> nat \<Rightarrow> pool_state \<Rightarrow> (efi_status \<times> u64 \<times> pool_state) option" where
  "InternalAllocPoolByIndex PoolType PoolIndex s =
     (case UefiMemoryTypeToSmmPoolType PoolType of
        None \<Rightarrow> None
      | Some T \<Rightarrow>
          if \<not> PoolIndex \<le> MAX_POOL_INDEX then None
          else do {
            (Status, Hdr, s) \<leftarrow>
              (if PoolIndex = MAX_POOL_INDEX then do {
                 (Status, Address, p) \<leftarrow> SmmInternalAllocatePages AllocateAnyPages PoolType
                   (EFI_SIZE_TO_PAGES (push_bit 1 MAX_POOL_SIZE)) 0 (pages s);
                 Some (if EFI_ERROR Status then EFI_OUT_OF_RESOURCES else EFI_SUCCESS, Address, s\<lparr>pages := p\<rparr>)
               }
               else if mSmmPoolLists s T PoolIndex \<noteq> [] then
                 Some (EFI_SUCCESS, hd (mSmmPoolLists s T PoolIndex), remove_first T PoolIndex s)
               else do {
                 (Status, Hdr, s) \<leftarrow> InternalAllocPoolByIndex PoolType (PoolIndex + 1) s;
                 if EFI_ERROR Status then Some (Status, Hdr, s)
                 else (let (Hdr, s) = split_block T PoolIndex Hdr s in Some (Status, Hdr, s))
               });
            if EFI_ERROR Status then Some (Status, 0, s)
            else Some (Status, Hdr, set_used Hdr PoolType (push_bit PoolIndex MIN_POOL_SIZE) s)
          })"
  by pat_completeness auto
termination by (relation "measure (\<lambda>(t, i, s). Suc MAX_POOL_INDEX - i)") auto

declare InternalAllocPoolByIndex.simps [simp del]

definition InternalFreePoolByIndex :: "u64 \<Rightarrow> pool_state \<Rightarrow> (efi_status \<times> pool_state) option" where
  "InternalFreePoolByIndex FreePoolHdr s = do {
     let h = headers s FreePoolHdr;
     ASSERT (HeaderSize h AND (HeaderSize h - 1) = 0);
     ASSERT (FreePoolHdr AND (HeaderSize h - 1) = 0);
     ASSERT (HeaderSize h \<ge> MIN_POOL_SIZE);
     T \<leftarrow> UefiMemoryTypeToSmmPoolType (HeaderType h);
     let PoolIndex = unat (word_of_int (HighBitSet32 (ucast (HeaderSize h)) - int MIN_POOL_SHIFT) :: u64);
     let s = set_free FreePoolHdr s;
     ASSERT (PoolIndex < MAX_POOL_INDEX);
     Some (EFI_SUCCESS, insert_pool T PoolIndex FreePoolHdr s)
   }"

definition SmmInternalAllocatePool :: "efi_memory_type \<Rightarrow> u64 \<Rightarrow> pool_state \<Rightarrow> (efi_status \<times> u64 \<times> pool_state) option" where
  "SmmInternalAllocatePool PoolType Size' s =
     (if PoolType \<noteq> EfiRuntimeServicesCode \<and> PoolType \<noteq> EfiRuntimeServicesData
      then Some (EFI_INVALID_PARAMETER, 0, s)
      else
        let Size' = Size' + POOL_OVERHEAD in
        if Size' > MAX_POOL_SIZE then do {
          let Size' = EFI_SIZE_TO_PAGES Size';
          (Status, Address, p) \<leftarrow> SmmInternalAllocatePages AllocateAnyPages PoolType Size' 0 (pages s);
          let s = s\<lparr>pages := p\<rparr>;
          if EFI_ERROR Status then Some (Status, 0, s)
          else Some (Status, Address + header_size, set_used Address PoolType (EFI_PAGES_TO_SIZE Size') s)
        }
        else do {
          let Size' = drop_bit MIN_POOL_SHIFT (Size' + MIN_POOL_SIZE - 1);
          let PoolIndex = (word_of_int (HighBitSet32 (ucast Size')) :: u64);
          let PoolIndex = (if Size' AND (Size' - 1) \<noteq> 0 then PoolIndex + 1 else PoolIndex);
          (Status, FreePoolHdr, s) \<leftarrow> InternalAllocPoolByIndex PoolType (unat PoolIndex) s;
          Some (Status, if EFI_ERROR Status then 0 else FreePoolHdr + header_size, s)
        })"

definition SmmInternalFreePool :: "u64 \<Rightarrow> pool_state \<Rightarrow> (efi_status \<times> pool_state) option" where
  "SmmInternalFreePool Buffer s =
     (if Buffer = 0 then Some (EFI_INVALID_PARAMETER, s)
      else do {
        let FreePoolHdr = Buffer - header_size;
        let h = headers s FreePoolHdr;
        ASSERT (Signature h = POOL_HEAD_SIGNATURE);
        ASSERT (\<not> Available h);
        let t = tails s (HEAD_TO_TAIL FreePoolHdr s);
        ASSERT (TailSignature t = POOL_TAIL_SIGNATURE);
        ASSERT (HeaderSize h = TailSize t);
        if HeaderSize h > MAX_POOL_SIZE then do {
          ASSERT (FreePoolHdr AND EFI_PAGE_MASK = 0);
          ASSERT (HeaderSize h AND EFI_PAGE_MASK = 0);
          (Status, p) \<leftarrow> SmmInternalFreePages FreePoolHdr (EFI_SIZE_TO_PAGES (HeaderSize h)) (pages s);
          Some (Status, s\<lparr>pages := p\<rparr>)
        }
        else InternalFreePoolByIndex FreePoolHdr s
      })"

text \<open>SmmInitializeMemoryServices without the lookup of the configuration table for fixed addresses,
  which only sets gLoadModuleAtFixAddressSmramBase.  A descriptor is its CpuStart and PhysicalSize with
  whether its RegionState says that it is in use.\<close>

fun add_regions :: "bool \<Rightarrow> (u64 \<times> u64 \<times> bool) list \<Rightarrow> page_state \<Rightarrow> page_state option" where
  "add_regions used [] p = Some p"
| "add_regions used ((CpuStart, PhysicalSize, State) # rs) p = do {
     p \<leftarrow> (if State \<noteq> used then Some p else SmmAddMemoryRegion CpuStart PhysicalSize State p);
     add_regions used rs p
   }"

definition SmmInitializeMemoryServices :: "(u64 \<times> u64 \<times> bool) list \<Rightarrow> pool_state \<Rightarrow> pool_state option" where
  "SmmInitializeMemoryServices SmramRanges s = do {
     let s = s\<lparr>mSmmPoolLists := (\<lambda>T i. [])\<rparr>;
     p \<leftarrow> add_regions False SmramRanges (pages s);
     p \<leftarrow> add_regions True SmramRanges p;
     Some (s\<lparr>pages := p\<rparr>)
   }"

end
