(* ===== verification/Smm_Pool_Inv.thy ===== *)
theory Smm_Pool_Inv
  imports Smm_Pool Smm_Calls
begin

text \<open>
  The invariant of the pool allocator: the free blocks are aligned to their sizes, lie in pages of the
  type of their ring and do not overlap.  held s t r says that the bytes r are in pages of the type t and
  in no free block: a client may own them.
\<close>

type_synonym byte_range = "nat \<times> nat"

definition block_size :: "nat \<Rightarrow> nat" where
  "block_size i = 64 * 2 ^ i"

definition range_at :: "u64 \<Rightarrow> nat \<Rightarrow> byte_range" where
  "range_at x n = (unat x, unat x + n)"

definition apart :: "byte_range \<Rightarrow> byte_range \<Rightarrow> bool" where
  "apart r q \<longleftrightarrow> snd r \<le> fst q \<or> snd q \<le> fst r"

definition in_pages :: "page_state \<Rightarrow> efi_memory_type \<Rightarrow> byte_range \<Rightarrow> bool" where
  "in_pages p t r \<longleftrightarrow> 4096 \<le> fst r \<and> fst r < snd r \<and>
     (\<forall>q \<in> {fst r div 4096..(snd r - 1) div 4096}. page_type p q = Some t)"

definition pool_ring :: "pool_state \<Rightarrow> efi_memory_type \<Rightarrow> nat \<Rightarrow> u64 list" where
  "pool_ring s t i = (case UefiMemoryTypeToSmmPoolType t of None \<Rightarrow> [] | Some T \<Rightarrow> mSmmPoolLists s T i)"

definition free_blocks :: "pool_state \<Rightarrow> (efi_memory_type \<times> nat \<times> u64) set" where
  "free_blocks s = {(t, i, x). t \<in> smm_memory_types \<and> i < MAX_POOL_INDEX \<and> x \<in> set (pool_ring s t i)}"

definition block_range :: "efi_memory_type \<times> nat \<times> u64 \<Rightarrow> byte_range" where
  "block_range b = range_at (snd (snd b)) (block_size (fst (snd b)))"

definition pool_ok :: "pool_state \<Rightarrow> bool" where
  "pool_ok s \<longleftrightarrow> smm_ok (pages s) \<and>
     (\<forall>b \<in> free_blocks s. block_size (fst (snd b)) dvd unat (snd (snd b)) \<and> in_pages (pages s) (fst b) (block_range b)) \<and>
     (\<forall>t \<in> smm_memory_types. \<forall>i < MAX_POOL_INDEX. distinct (pool_ring s t i)) \<and>
     (\<forall>b \<in> free_blocks s. \<forall>c \<in> free_blocks s. b \<noteq> c \<longrightarrow> apart (block_range b) (block_range c))"

definition held :: "pool_state \<Rightarrow> efi_memory_type \<Rightarrow> byte_range \<Rightarrow> bool" where
  "held s t r \<longleftrightarrow> t \<in> smm_memory_types \<and> in_pages (pages s) t r \<and> (\<forall>b \<in> free_blocks s. apart r (block_range b))"

lemma apart_sym: "apart r q \<longleftrightarrow> apart q r"
  by (auto simp: apart_def)

lemma apart_sub: "apart r q \<Longrightarrow> fst q \<le> fst q' \<Longrightarrow> snd q' \<le> snd q \<Longrightarrow> apart r q'"
  by (auto simp: apart_def)

lemma in_pages_sub: "in_pages p t r \<Longrightarrow> fst r \<le> fst q \<Longrightarrow> fst q < snd q \<Longrightarrow> snd q \<le> snd r \<Longrightarrow> in_pages p t q"
proof -
  assume a: "in_pages p t r" "fst r \<le> fst q" "fst q < snd q" "snd q \<le> snd r"
  have "fst r div 4096 \<le> fst q div 4096" "(snd q - 1) div 4096 \<le> (snd r - 1) div 4096"
    using a by (auto intro: div_le_mono)
  then show ?thesis using a by (auto simp: in_pages_def)
qed

lemma block_size_pos [simp]: "0 < block_size i"
  by (simp add: block_size_def)

lemma block_size_Suc: "block_size (Suc i) = 2 * block_size i"
  by (simp add: block_size_def)

text \<open>Pages keep their type when free pages change theirs.\<close>

lemma in_pages_changed:
  assumes "in_pages p t r" "t \<noteq> EfiConventionalMemory" "changed t' a b p p'"
    "\<forall>q \<in> {a..<b}. page_type p q = Some EfiConventionalMemory" "a < b"
  shows "in_pages p' t r" "apart r (4096 * a, 4096 * b)"
proof -
  have d: "q < a \<or> b \<le> q" if "q \<in> {fst r div 4096..(snd r - 1) div 4096}" for q
  proof -
    have "page_type p q = Some t" using assms(1) that unfolding in_pages_def by blast
    then show ?thesis using assms(2,4) by (cases "q \<in> {a..<b}") auto
  qed
  have "page_type p' q = page_type p q" if "q \<in> {fst r div 4096..(snd r - 1) div 4096}" for q
    using d[OF that] assms(3) unfolding changed_def set_pages_def by auto
  then show "in_pages p' t r" using assms(1) unfolding in_pages_def by simp
  have r: "fst r < snd r" using assms(1) by (simp add: in_pages_def)
  then have m: "fst r div 4096 \<le> (snd r - 1) div 4096" by (intro div_le_mono) simp
  show "apart r (4096 * a, 4096 * b)"
  proof (rule ccontr)
    assume "\<not> apart r (4096 * a, 4096 * b)"
    then have n: "4096 * a < snd r" "fst r < 4096 * b" by (auto simp: apart_def)
    have "a \<le> (snd r - 1) div 4096" using n(1) r by (simp add: less_eq_div_iff_mult_less_eq)
    moreover have "fst r div 4096 < b" using n(2) by (simp add: div_less_iff_less_mult mult.commute)
    ultimately have "max a (fst r div 4096) \<in> {fst r div 4096..(snd r - 1) div 4096}" "max a (fst r div 4096) < b"
      using m assms(5) by auto
    then show False using d by fastforce
  qed
qed

lemma in_pages_limit:
  assumes "smm_ok p" "in_pages p t r"
  shows "snd r < 4096 * page_limit"
proof -
  let ?q = "(snd r - 1) div 4096"
  have "fst r < snd r" "fst r div 4096 \<le> ?q" using assms(2) by (auto simp: in_pages_def intro: div_le_mono)
  then have "page_type p ?q = Some t" using assms(2) by (simp add: in_pages_def)
  then obtain l h where "(t, l, h) \<in> set (map_runs p)" "?q < h" unfolding page_type_def using view_Some by metis
  then have "?q < page_limit - 1" using assms(1) unfolding smm_ok_def by force
  then show ?thesis unfolding page_limit_eq by linarith
qed

subsection \<open>Headers and rings\<close>

lemma pool_ring_simps [simp]:
  "pool_ring (s\<lparr>pages := p\<rparr>) t i = pool_ring s t i"
  "pool_ring (s\<lparr>headers := f\<rparr>) t i = pool_ring s t i"
  "pool_ring (s\<lparr>tails := g\<rparr>) t i = pool_ring s t i"
  by (simp_all add: pool_ring_def cong: option.case_cong)

lemma smm_pool_type_of:
  assumes "t \<in> smm_memory_types"
  obtains T where "UefiMemoryTypeToSmmPoolType t = Some T"
    "\<And>t'. t' \<in> smm_memory_types \<Longrightarrow> UefiMemoryTypeToSmmPoolType t' = Some T \<longleftrightarrow> t' = t"
    "\<And>s i. pool_ring s t i = mSmmPoolLists s T i"
proof -
  from assms consider "t = EfiRuntimeServicesCode" | "t = EfiRuntimeServicesData"
    by (auto simp: smm_memory_types_def)
  then show ?thesis
  proof cases
    case 1
    show ?thesis
      by (rule that[of SmmPoolTypeCode]) (auto simp: 1 smm_memory_types_def UefiMemoryTypeToSmmPoolType_def pool_ring_def)
  next
    case 2
    show ?thesis
      by (rule that[of SmmPoolTypeData]) (auto simp: 2 smm_memory_types_def UefiMemoryTypeToSmmPoolType_def pool_ring_def)
  qed
qed

lemma set_used_frame:
  "pages (set_used Hdr t n s) = pages s"
  "pool_ring (set_used Hdr t n s) u i = pool_ring s u i"
  "headers (set_used Hdr t n s) =
    (headers s)(Hdr := \<lparr>Signature = POOL_HEAD_SIGNATURE, Available = False, HeaderType = t, HeaderSize = n\<rparr>)"
  "tails (set_used Hdr t n s) =
    (tails s)(Hdr + n - tail_size := \<lparr>TailSignature = POOL_TAIL_SIGNATURE, TailSize = n\<rparr>)"
  by (simp_all add: set_used_def Let_def pool_ring_def HEAD_TO_TAIL_def cong: option.case_cong)

lemma set_free_frame:
  "pages (set_free Hdr s) = pages s"
  "pool_ring (set_free Hdr s) u i = pool_ring s u i"
  "HeaderSize (headers (set_free Hdr s) Hdr) = HeaderSize (headers s Hdr)"
  "y \<noteq> Hdr \<Longrightarrow> headers (set_free Hdr s) y = headers s y"
  "y \<noteq> Hdr + HeaderSize (headers s Hdr) - tail_size \<Longrightarrow> tails (set_free Hdr s) y = tails s y"
  by (simp_all add: set_free_def Let_def pool_ring_def HEAD_TO_TAIL_def cong: option.case_cong)

lemma pool_ring_insert:
  assumes "t \<in> smm_memory_types" "u \<in> smm_memory_types" "UefiMemoryTypeToSmmPoolType t = Some T"
  shows "pool_ring (insert_pool T i x s) u j = (if u = t \<and> j = i then x # pool_ring s t i else pool_ring s u j)"
  using assms unfolding smm_memory_types_def
  by (auto simp: pool_ring_def insert_pool_def UefiMemoryTypeToSmmPoolType_def)

lemma pool_ring_remove:
  assumes "t \<in> smm_memory_types" "u \<in> smm_memory_types" "UefiMemoryTypeToSmmPoolType t = Some T"
  shows "pool_ring (remove_first T i s) u j = (if u = t \<and> j = i then tl (pool_ring s t i) else pool_ring s u j)"
  using assms unfolding smm_memory_types_def
  by (auto simp: pool_ring_def remove_first_def UefiMemoryTypeToSmmPoolType_def)

text \<open>The invariant and what is held depend on the pages and the rings only.\<close>

definition same_pool :: "pool_state \<Rightarrow> pool_state \<Rightarrow> bool" where
  "same_pool s s' \<longleftrightarrow> pages s' = pages s \<and> pool_ring s' = pool_ring s"

lemma same_pool_free: "same_pool s s' \<Longrightarrow> free_blocks s' = free_blocks s"
  by (simp add: same_pool_def free_blocks_def)

lemma same_pool_ok: "same_pool s s' \<Longrightarrow> pool_ok s' = pool_ok s"
  using same_pool_free[of s s'] unfolding pool_ok_def same_pool_def by simp

lemma same_pool_held: "same_pool s s' \<Longrightarrow> held s' t r = held s t r"
  using same_pool_free[of s s'] unfolding held_def same_pool_def by simp

lemma set_used_same: "same_pool s (set_used Hdr t n s)"
  by (simp add: same_pool_def set_used_frame fun_eq_iff)

lemma set_free_same: "same_pool s (set_free Hdr s)"
  by (simp add: same_pool_def set_free_frame fun_eq_iff)

text \<open>A block leaves its ring, and a held block enters a ring.\<close>

lemma free_blocks_remove:
  assumes "pool_ok s" "t \<in> smm_memory_types" "i < MAX_POOL_INDEX" "pool_ring s t i = x # xs"
    "UefiMemoryTypeToSmmPoolType t = Some T"
  shows "free_blocks (remove_first T i s) = free_blocks s - {(t, i, x)}"
proof -
  have "distinct (x # xs)" using assms(1-4) unfolding pool_ok_def by metis
  then show ?thesis
    using pool_ring_remove[OF assms(2) _ assms(5)] assms(4) unfolding free_blocks_def by (auto split: if_splits)
qed

lemma free_blocks_insert:
  assumes "t \<in> smm_memory_types" "i < MAX_POOL_INDEX" "UefiMemoryTypeToSmmPoolType t = Some T"
  shows "free_blocks (insert_pool T i x s) = insert (t, i, x) (free_blocks s)"
  using pool_ring_insert[OF assms(1) _ assms(3)] assms(1,2) unfolding free_blocks_def by (auto split: if_splits)

lemma remove_ok:
  assumes ok: "pool_ok s" and t: "t \<in> smm_memory_types" and i: "i < MAX_POOL_INDEX" and x: "pool_ring s t i = x # xs"
    and T: "UefiMemoryTypeToSmmPoolType t = Some T"
  shows "pool_ok (remove_first T i s)" "block_size i dvd unat x" "held (remove_first T i s) t (range_at x (block_size i))"
    "held s u r \<Longrightarrow> held (remove_first T i s) u r \<and> apart r (range_at x (block_size i))"
proof -
  let ?s = "remove_first T i s" and ?b = "(t, i, x)"
  note F = free_blocks_remove[OF assms]
  have b: "?b \<in> free_blocks s" using t i x by (simp add: free_blocks_def)
  have br: "block_range ?b = range_at x (block_size i)" by (simp add: block_range_def)
  have p: "pages ?s = pages s" by (simp add: remove_first_def)
  have "distinct (pool_ring ?s u j)" if "u \<in> smm_memory_types" "j < MAX_POOL_INDEX" for u j
    using pool_ring_remove[OF t that(1) T, of i s j] ok that unfolding pool_ok_def by (auto simp: distinct_tl)
  then show "pool_ok ?s" using ok unfolding pool_ok_def F p by blast
  show "block_size i dvd unat x" using ok b unfolding pool_ok_def by fastforce
  have "in_pages (pages s) t (block_range ?b)" using ok b unfolding pool_ok_def by fastforce
  moreover have "apart (block_range ?b) (block_range c)" if "c \<in> free_blocks s - {?b}" for c
    using ok b that unfolding pool_ok_def by (metis DiffE singletonI)
  ultimately show "held ?s t (range_at x (block_size i))"
    using t unfolding held_def F p br[symmetric] by (simp only: simp_thms) blast
  show "held s u r \<Longrightarrow> held ?s u r \<and> apart r (range_at x (block_size i))"
    using b br unfolding held_def F p by auto
qed

lemma insert_ok:
  assumes ok: "pool_ok s" and t: "t \<in> smm_memory_types" and i: "i < MAX_POOL_INDEX"
    and T: "UefiMemoryTypeToSmmPoolType t = Some T" and x: "block_size i dvd unat x" "held s t (range_at x (block_size i))"
  shows "pool_ok (insert_pool T i x s)"
    "held s u r \<Longrightarrow> apart r (range_at x (block_size i)) \<Longrightarrow> held (insert_pool T i x s) u r"
proof -
  let ?s = "insert_pool T i x s" and ?b = "(t, i, x)"
  note F = free_blocks_insert[OF t i T, of x s]
  have br: "block_range ?b = range_at x (block_size i)" by (simp add: block_range_def)
  have p: "pages ?s = pages s" by (simp add: insert_pool_def)
  have "fst (range_at x (block_size i)) < snd (range_at x (block_size i))" by (simp add: range_at_def)
  then have "?b \<notin> free_blocks s" using x(2) br unfolding held_def by (force simp: apart_def)
  then have "x \<notin> set (pool_ring s t i)" using t i by (simp add: free_blocks_def)
  then have "distinct (pool_ring ?s u j)" if "u \<in> smm_memory_types" "j < MAX_POOL_INDEX" for u j
    using pool_ring_insert[OF t that(1) T, of i x s j] ok that unfolding pool_ok_def by auto
  moreover have "\<forall>b \<in> free_blocks ?s. \<forall>c \<in> free_blocks ?s. b \<noteq> c \<longrightarrow> apart (block_range b) (block_range c)"
  proof (intro ballI impI)
    fix b c assume bc: "b \<in> free_blocks ?s" "c \<in> free_blocks ?s" "b \<noteq> c"
    have new: "apart (block_range ?b) (block_range d)" if "d \<in> free_blocks s" for d
      using x(2) that unfolding held_def br by blast
    show "apart (block_range b) (block_range c)"
      using bc new apart_sym ok unfolding F pool_ok_def by (cases "b = ?b"; cases "c = ?b") auto
  qed
  moreover have "\<forall>b \<in> free_blocks ?s. block_size (fst (snd b)) dvd unat (snd (snd b)) \<and>
      in_pages (pages ?s) (fst b) (block_range b)"
    using x ok unfolding F p pool_ok_def held_def br[symmetric] by auto
  ultimately show "pool_ok ?s" using ok unfolding pool_ok_def p by blast
  show "held s u r \<Longrightarrow> apart r (range_at x (block_size i)) \<Longrightarrow> held ?s u r"
    using br unfolding held_def F p by auto
qed

end
