(* ===== verification/Smm_Pool_Alloc.thy ===== *)
theory Smm_Pool_Alloc
  imports Smm_Pool_Inv
begin

text \<open>
  Allocation and release of blocks: what a call gives is in no range a client holds, and it leaves what
  clients hold, with the headers and tails there, as it is.
\<close>

definition block_at :: "pool_state \<Rightarrow> u64 \<Rightarrow> efi_memory_type \<Rightarrow> nat \<Rightarrow> bool" where
  "block_at s Hdr t n \<longleftrightarrow> held s t (range_at Hdr n) \<and>
     headers s Hdr = \<lparr>Signature = POOL_HEAD_SIGNATURE, Available = False, HeaderType = t, HeaderSize = word_of_nat n\<rparr> \<and>
     tails s (Hdr + word_of_nat n - tail_size) = \<lparr>TailSignature = POOL_TAIL_SIGNATURE, TailSize = word_of_nat n\<rparr> \<and>
     ((\<exists>i < MAX_POOL_INDEX. n = block_size i \<and> n dvd unat Hdr) \<or> 2048 < n \<and> 4096 dvd n \<and> 4096 dvd unat Hdr)"

definition keeps :: "pool_state \<Rightarrow> pool_state \<Rightarrow> byte_range \<Rightarrow> bool" where
  "keeps s s' q \<longleftrightarrow> (\<forall>t r. held s t r \<and> apart r q \<longrightarrow> held s' t r \<and>
     (\<forall>y. fst r \<le> unat y \<and> unat y < snd r \<longrightarrow> headers s' y = headers s y \<and> tails s' y = tails s y))"

definition fresh :: "pool_state \<Rightarrow> byte_range \<Rightarrow> bool" where
  "fresh s q \<longleftrightarrow> (\<forall>t r. held s t r \<longrightarrow> apart r q)"

lemma fresh_sub: "fresh s q \<Longrightarrow> fst q \<le> fst q' \<Longrightarrow> snd q' \<le> snd q \<Longrightarrow> fresh s q'"
  unfolding fresh_def using apart_sub by blast

lemma keepsD:
  "keeps s s' q \<Longrightarrow> held s t r \<Longrightarrow> apart r q \<Longrightarrow> held s' t r"
  "keeps s s' q \<Longrightarrow> held s t r \<Longrightarrow> apart r q \<Longrightarrow> fst r \<le> unat y \<Longrightarrow> unat y < snd r \<Longrightarrow>
    headers s' y = headers s y \<and> tails s' y = tails s y"
  unfolding keeps_def by blast+

lemma keeps_trans: "keeps s s' q \<Longrightarrow> keeps s' s'' q \<Longrightarrow> keeps s s'' q"
  unfolding keeps_def by metis

lemma keeps_sup: "keeps s s' q' \<Longrightarrow> fst q \<le> fst q' \<Longrightarrow> snd q' \<le> snd q \<Longrightarrow> keeps s s' q"
  unfolding keeps_def using apart_sub by blast

lemma held_sub:
  assumes "held s t r" "fst r \<le> fst q" "fst q < snd q" "snd q \<le> snd r"
  shows "held s t q"
  using assms in_pages_sub[of "pages s" t r q] apart_sub[of _ r q] apart_sym unfolding held_def by blast

lemma held_limit:
  assumes "pool_ok s" "held s t (range_at x n)"
  shows "unat x + n < 18446744073709551616" "0 < n"
  using assms in_pages_limit[of "pages s" t "range_at x n"]
  by (auto simp: pool_ok_def held_def range_at_def page_limit_eq in_pages_def)

lemma unat_plus:
  assumes "unat (x :: u64) + n < 18446744073709551616"
  shows "unat (x + word_of_nat n) = unat x + n" "unat (word_of_nat n :: u64) = n"
proof -
  show n: "unat (word_of_nat n :: u64) = n" using assms unfolding unat_of_nat by simp
  then show "unat (x + word_of_nat n) = unat x + n"
    using assms by (subst unat_add_lem[THEN iffD1]) simp_all
qed

text \<open>The address of the tail.\<close>

lemma tail_address:
  assumes "unat (x :: u64) + n < 18446744073709551616" "16 \<le> n"
  shows "x + word_of_nat n - tail_size = x + word_of_nat (n - 16)"
  using assms(2) by (simp add: tail_size_def of_nat_diff)

text \<open>Headers and tails of a block that is being given are not in what is held.\<close>

lemma keeps_set_used:
  assumes "unat Hdr + n < 18446744073709551616" "24 \<le> n"
  shows "keeps s (set_used Hdr t (word_of_nat n) s) (range_at Hdr n)"
proof -
  have "16 \<le> n" using assms(2) by simp
  note ta = tail_address[OF assms(1) this]
  have u: "unat (Hdr + word_of_nat (n - 16)) = unat Hdr + (n - 16)" using assms unat_plus(1)[of Hdr "n - 16"] by simp
  have out: "y \<noteq> Hdr \<and> y \<noteq> Hdr + word_of_nat n - tail_size"
    if "apart r (range_at Hdr n)" "fst r \<le> unat y" "unat y < snd r" for r y
    using that assms(2) u unfolding ta apart_def range_at_def by auto
  show ?thesis
    unfolding keeps_def
  proof (intro allI impI conjI)
    fix u r assume r: "held s u r \<and> apart r (range_at Hdr n)"
    then show "held (set_used Hdr t (word_of_nat n) s) u r" using same_pool_held[OF set_used_same] by blast
    fix y :: u64 assume "fst r \<le> unat y \<and> unat y < snd r"
    then have "y \<noteq> Hdr" "y \<noteq> Hdr + word_of_nat n - tail_size" using out r by blast+
    then show "headers (set_used Hdr t (word_of_nat n) s) y = headers s y" "tails (set_used Hdr t (word_of_nat n) s) y = tails s y"
      by (simp_all add: set_used_frame)
  qed
qed

lemma keeps_set_free:
  assumes "unat Hdr + n < 18446744073709551616" "24 \<le> n" "HeaderSize (headers s Hdr) = word_of_nat n"
  shows "keeps s (set_free Hdr s) (range_at Hdr n)"
proof -
  have "16 \<le> n" using assms(2) by simp
  note ta = tail_address[OF assms(1) this]
  have u: "unat (Hdr + word_of_nat (n - 16)) = unat Hdr + (n - 16)" using assms unat_plus(1)[of Hdr "n - 16"] by simp
  have out: "y \<noteq> Hdr \<and> y \<noteq> Hdr + HeaderSize (headers s Hdr) - tail_size"
    if "apart r (range_at Hdr n)" "fst r \<le> unat y" "unat y < snd r" for r y
    using that assms(2) u unfolding assms(3) ta apart_def range_at_def by auto
  show ?thesis
    unfolding keeps_def
  proof (intro allI impI conjI)
    fix u r assume r: "held s u r \<and> apart r (range_at Hdr n)"
    then show "held (set_free Hdr s) u r" using same_pool_held[OF set_free_same] by blast
    fix y :: u64 assume "fst r \<le> unat y \<and> unat y < snd r"
    then have y: "y \<noteq> Hdr" "y \<noteq> Hdr + HeaderSize (headers s Hdr) - tail_size" using out r by blast+
    show "headers (set_free Hdr s) y = headers s y" "tails (set_free Hdr s) y = tails s y"
      using set_free_frame(4)[OF y(1)] set_free_frame(5)[OF y(2)] by simp_all
  qed
qed

lemma set_used_block:
  assumes "held s t (range_at Hdr n)"
    "(\<exists>i < MAX_POOL_INDEX. n = block_size i \<and> n dvd unat Hdr) \<or> 2048 < n \<and> 4096 dvd n \<and> 4096 dvd unat Hdr"
  shows "block_at (set_used Hdr t (word_of_nat n) s) Hdr t n"
  using assms same_pool_held[OF set_used_same] by (simp add: block_at_def set_used_frame)

lemma block_size_ge: "64 \<le> block_size i"
  by (simp add: block_size_def)

lemma block_at_keeps:
  assumes ok: "pool_ok s" and b: "block_at s G u m" and k: "keeps s s' q" and a: "apart (range_at G m) q"
  shows "block_at s' G u m"
proof -
  have h: "held s u (range_at G m)" using b by (simp add: block_at_def)
  note lim = held_limit[OF ok h]
  from b have "(\<exists>i. m = block_size i) \<or> 2048 < m" unfolding block_at_def by blast
  then have m: "16 < m"
  proof (elim disjE exE)
    fix i assume "m = block_size i"
    then show ?thesis using block_size_ge[of i] by simp
  qed simp
  have ta: "G + word_of_nat m - tail_size = G + word_of_nat (m - 16)" using tail_address[OF lim(1)] m by simp
  have "unat (G + word_of_nat m - tail_size) = unat G + (m - 16)"
    unfolding ta using unat_plus(1)[of G "m - 16"] lim(1) by simp
  then have "fst (range_at G m) \<le> unat (G + word_of_nat m - tail_size)" "unat (G + word_of_nat m - tail_size) < snd (range_at G m)"
    using m by (simp_all add: range_at_def)
  then have "tails s' (G + word_of_nat m - tail_size) = tails s (G + word_of_nat m - tail_size)"
    using keepsD(2)[OF k h a] by blast
  moreover have "headers s' G = headers s G" using keepsD(2)[OF k h a, of G] lim(2) by (simp add: range_at_def)
  ultimately show ?thesis using b keepsD(1)[OF k h a] by (simp add: block_at_def)
qed

subsection \<open>A block of an index\<close>

text \<open>What a successful allocation of n bytes makes of the state.\<close>

definition given :: "pool_state \<Rightarrow> pool_state \<Rightarrow> u64 \<Rightarrow> efi_memory_type \<Rightarrow> nat \<Rightarrow> bool" where
  "given s s' Hdr t n \<longleftrightarrow> pool_ok s' \<and> block_at s' Hdr t n \<and> fresh s (range_at Hdr n) \<and> keeps s s' (range_at Hdr n) \<and>
     length (mFreeMemoryMapEntryList (pages s)) \<le> length (mFreeMemoryMapEntryList (pages s')) + 2"

text \<open>Pages for the pool.\<close>

lemma pool_pages_changed:
  assumes ok: "pool_ok s" and c: "changed t a b (pages s) p" and ab: "a < b"
    and free: "\<forall>q \<in> {a..<b}. page_type (pages s) q = Some EfiConventionalMemory"
  shows "pool_ok (s\<lparr>pages := p\<rparr>)" "fresh s (4096 * a, 4096 * b)" "keeps s (s\<lparr>pages := p\<rparr>) (4096 * a, 4096 * b)"
    "\<forall>c \<in> free_blocks (s\<lparr>pages := p\<rparr>). apart (4096 * a, 4096 * b) (block_range c)"
proof -
  let ?s = "s\<lparr>pages := p\<rparr>"
  have F: "free_blocks ?s = free_blocks s" by (simp add: free_blocks_def)
  have ip: "in_pages p u r" "apart r (4096 * a, 4096 * b)" if "in_pages (pages s) u r" "u \<in> smm_memory_types" for u r
  proof -
    have "u \<noteq> EfiConventionalMemory" using that(2) by auto
    from in_pages_changed[OF that(1) this c free ab] show "in_pages p u r" "apart r (4096 * a, 4096 * b)" .
  qed
  have bt: "fst c \<in> smm_memory_types" if "c \<in> free_blocks s" for c using that by (auto simp: free_blocks_def)
  have "in_pages p (fst c) (block_range c) \<and> block_size (fst (snd c)) dvd unat (snd (snd c))" if "c \<in> free_blocks s" for c
    using ip(1) bt[OF that] ok that unfolding pool_ok_def by blast
  then show "pool_ok ?s" using ok c unfolding pool_ok_def F changed_def by simp
  show "fresh s (4096 * a, 4096 * b)" unfolding fresh_def held_def using ip(2) by blast
  show "keeps s ?s (4096 * a, 4096 * b)" unfolding keeps_def held_def F using ip(1) by simp
  show "\<forall>c \<in> free_blocks ?s. apart (4096 * a, 4096 * b) (block_range c)"
    unfolding F using ip(2) bt ok apart_sym unfolding pool_ok_def by blast
qed

lemma last_page: "0 < b \<Longrightarrow> (4096 * b - 1) div 4096 = b - (1 :: nat)"
proof -
  assume "0 < b"
  then have "4096 * b - 1 = 4095 + (b - 1) * 4096" by (cases b) simp_all
  then show ?thesis by (simp only: div_mult_self1)
qed

text \<open>Pages that the page allocator gives are in no range a client holds.\<close>

lemma pages_given:
  assumes ok: "pool_ok s" and n: "0 < n" and t: "t \<in> smm_memory_types"
    and free: "\<forall>q \<in> {a..<a + unat n}. page_type (pages s) q = Some EfiConventionalMemory"
    and c: "changed t a (a + unat n) (pages s) p"
  defines "q \<equiv> range_at (page_start a) (4096 * unat n)"
  shows "unat (page_start a) = 4096 * a" "unat (page_start a) + 4096 * unat n < 18446744073709551616"
    "pool_ok (s\<lparr>pages := p\<rparr>)" "held (s\<lparr>pages := p\<rparr>) t q" "fresh s q" "keeps s (s\<lparr>pages := p\<rparr>) q"
proof -
  let ?s = "s\<lparr>pages := p\<rparr>" and ?b = "a + unat n"
  have okp: "smm_ok (pages s)" using ok by (simp add: pool_ok_def)
  have "0 < unat n" using n by (simp add: word_less_nat_alt)
  then have ab: "a < ?b" by simp
  note P = pool_pages_changed[OF ok c ab free]
  have "?b - 1 \<in> {a..<?b}" "a \<in> {a..<?b}" using ab by auto
  then have lim: "0 < a" "?b < page_limit" using conventional_page[OF okp] free ab by fastforce+
  show ua: "unat (page_start a) = 4096 * a" using unat_page_start lim by simp
  show "unat (page_start a) + 4096 * unat n < 18446744073709551616" using lim(2) unfolding ua page_limit_eq by simp
  have rg: "q = (4096 * a, 4096 * ?b)" by (simp add: q_def range_at_def ua algebra_simps)
  have "(4096 * ?b - 1) div 4096 = ?b - 1" using ab last_page[of ?b] by simp
  then have "in_pages p t (4096 * a, 4096 * ?b)"
    using c lim ab by (auto simp: in_pages_def changed_def set_pages_def)
  then show "held ?s t q" using P(4) t unfolding held_def rg by simp
  show "pool_ok ?s" "fresh s q" "keeps s ?s q" using P(1,2,3) unfolding rg by blast+
qed

lemma pool_pages_given:
  assumes ok: "pool_ok s" and f: "2 \<le> length (mFreeMemoryMapEntryList (pages s))" and n: "0 < n" and t: "t \<in> smm_memory_types"
    and big: "2048 < 4096 * unat n"
  shows "(\<exists>A. SmmInternalAllocatePages AllocateAnyPages t n 0 (pages s) = Some (EFI_OUT_OF_RESOURCES, A, pages s)) \<or>
    (\<exists>A p. SmmInternalAllocatePages AllocateAnyPages t n 0 (pages s) = Some (EFI_SUCCESS, A, p) \<and>
       given s (set_used A t (EFI_PAGES_TO_SIZE n) (s\<lparr>pages := p\<rparr>)) A t (4096 * unat n))"
proof -
  have okp: "smm_ok (pages s)" using ok by (simp add: pool_ok_def)
  have "AllocateAnyPages = AllocateAnyPages \<and> - 1 = (- 1 :: u64) \<or> AllocateAnyPages = AllocateMaxAddress \<and> - 1 = (0 :: u64)"
    by simp
  from allocate_highest[OF okp f n t this]
  show ?thesis
  proof (elim disjE conjE exE)
    fix a p assume r: "SmmInternalAllocatePages AllocateAnyPages t n 0 (pages s) = Some (EFI_SUCCESS, page_start a, p)"
      "room (pages s) n (- 1) a" "changed t a (a + unat n) (pages s) p"
    let ?s = "s\<lparr>pages := p\<rparr>" and ?n = "4096 * unat n"
    let ?u = "set_used (page_start a) t (word_of_nat ?n) ?s"
    have "\<forall>q \<in> {a..<a + unat n}. page_type (pages s) q = Some EfiConventionalMemory" using r(2) by (simp add: room_def)
    note P = pages_given[OF ok n t this r(3)]
    have sz: "EFI_PAGES_TO_SIZE n = word_of_nat ?n" by (simp add: EFI_PAGES_TO_SIZE_nat)
    have B: "block_at ?u (page_start a) t ?n" using set_used_block[OF P(4)] big P(1) by simp
    have "keeps ?s ?u (range_at (page_start a) ?n)" using keeps_set_used[OF P(2)] big by simp
    then have "keeps s ?u (range_at (page_start a) ?n)" using keeps_trans[OF P(6)] by blast
    moreover have "pool_ok ?u" using P(3) same_pool_ok[OF set_used_same] by blast
    ultimately have "given s ?u (page_start a) t ?n"
      using B P(5) r(3) by (simp add: given_def changed_def set_used_frame)
    then show ?thesis using r(1) unfolding sz by blast
  qed auto
qed

text \<open>The split of a block that has been given.\<close>

lemma split_given:
  assumes g: "given s s1 Hdr t (block_size (Suc i))" and t: "t \<in> smm_memory_types" "UefiMemoryTypeToSmmPoolType t = Some T"
    and i: "i < MAX_POOL_INDEX" and al: "block_size (Suc i) dvd unat Hdr" and s2: "split_block T i Hdr s1 = (Hdr', s2)"
  shows "given s (set_used Hdr' t (word_of_nat (block_size i)) s2) Hdr' t (block_size i)" "block_size i dvd unat Hdr'"
proof -
  let ?n = "block_size i" and ?m = "block_size (Suc i)"
  have m: "?m = 2 * ?n" by (rule block_size_Suc)
  have n64: "64 \<le> ?n" by (rule block_size_ge)
  have ok1: "pool_ok s1" and b1: "block_at s1 Hdr t ?m" and fr: "fresh s (range_at Hdr ?m)"
    and k1: "keeps s s1 (range_at Hdr ?m)"
    and f1: "length (mFreeMemoryMapEntryList (pages s)) \<le> length (mFreeMemoryMapEntryList (pages s1)) + 2"
    using g by (simp_all add: given_def)
  have h1: "held s1 t (range_at Hdr ?m)" using b1 by (simp add: block_at_def)
  have lim: "unat Hdr + ?m < 18446744073709551616" using held_limit[OF ok1 h1] by blast
  have half: "drop_bit 1 (word_of_nat ?m :: u64) = word_of_nat ?n"
  proof -
    have u: "unat (word_of_nat ?m :: u64) = ?m" "unat (word_of_nat ?n :: u64) = ?n"
      using lim m unat_plus(2)[of 0 ?m] unat_plus(2)[of 0 ?n] by simp_all
    have "unat (drop_bit 1 (word_of_nat ?m :: u64)) = ?m div 2"
      using u(1) by (simp add: drop_bit_eq_div unat_div_distrib)
    then show ?thesis using u(2) m by (simp add: word_unat_eq_iff)
  qed
  let ?a = "s1\<lparr>headers := (headers s1)(Hdr := (headers s1 Hdr)\<lparr>HeaderSize := word_of_nat ?n\<rparr>)\<rparr>"
  have hs: "HeaderSize (headers s1 Hdr) = word_of_nat ?m" using b1 by (simp add: block_at_def)
  have ha: "HeaderSize (headers ?a Hdr) = word_of_nat ?n" by simp
  have sb: "s2 = insert_pool T i Hdr (set_free Hdr ?a)" "Hdr' = Hdr + word_of_nat ?n"
    using s2 hs half by (simp_all add: split_block_def Let_def insert_pool_def set_free_frame)
  have pa: "same_pool s1 ?a" by (simp add: same_pool_def fun_eq_iff)
  have limn: "unat Hdr + ?n < 18446744073709551616" using lim m by simp
  note uH = unat_plus(1)[OF limn]
  have low: "fst (range_at Hdr ?m) \<le> fst (range_at Hdr ?n)" "snd (range_at Hdr ?n) \<le> snd (range_at Hdr ?m)"
    by (simp_all add: range_at_def m)
  have upp: "fst (range_at Hdr ?m) \<le> fst (range_at Hdr' ?n)" "snd (range_at Hdr' ?n) \<le> snd (range_at Hdr ?m)"
    "fst (range_at Hdr' ?n) < snd (range_at Hdr' ?n)"
    by (simp_all add: range_at_def m sb(2) uH)
  have lu: "apart (range_at Hdr' ?n) (range_at Hdr ?n)" by (simp add: apart_def range_at_def sb(2) uH)
  have ka: "keeps s1 ?a (range_at Hdr ?n)"
  proof -
    have "\<not> unat Hdr < z" if "apart (x, z) (range_at Hdr ?n)" "x \<le> unat Hdr" for x z
      using that n64 by (auto simp: apart_def range_at_def)
    then show ?thesis unfolding keeps_def using same_pool_held[OF pa] by auto
  qed
  have kf: "keeps ?a (set_free Hdr ?a) (range_at Hdr ?n)" using keeps_set_free[OF limn _ ha] n64 by simp
  let ?f = "set_free Hdr ?a"
  have pf: "same_pool s1 ?f" using pa set_free_same[of ?a Hdr] by (simp add: same_pool_def)
  have okf: "pool_ok ?f" using ok1 same_pool_ok[OF pf] by blast
  have dv: "?n dvd unat Hdr" using al m by (metis dvd_mult_right)
  have "fst (range_at Hdr ?n) < snd (range_at Hdr ?n)" using n64 by (simp add: range_at_def)
  then have hl: "held ?f t (range_at Hdr ?n)" using held_sub[OF h1 low(1) _ low(2)] same_pool_held[OF pf] by blast
  note I = insert_ok[OF okf t(1) i t(2) dv hl]
  have ki: "keeps ?f s2 (range_at Hdr ?n)"
    unfolding keeps_def sb(1) using I(2) by (auto simp: insert_pool_def)
  have k2: "keeps s1 s2 (range_at Hdr ?m)"
    using keeps_trans[OF keeps_trans[OF ka kf] ki] keeps_sup[OF _ low] by blast
  have hu: "held s2 t (range_at Hdr' ?n)"
    unfolding sb(1) using I(2)[OF _ lu] held_sub[OF h1 upp(1,3,2)] same_pool_held[OF pf] by blast
  have dv': "?n dvd unat Hdr'" using dv uH by (simp add: sb(2))
  have limu: "unat Hdr' + ?n < 18446744073709551616" using lim uH by (simp add: sb(2) m)
  let ?u = "set_used Hdr' t (word_of_nat ?n) s2"
  have "block_at ?u Hdr' t ?n" using set_used_block[OF hu] i dv' by blast
  moreover have "keeps s2 ?u (range_at Hdr' ?n)" using keeps_set_used[OF limu] n64 by simp
  then have ku: "keeps s2 ?u (range_at Hdr ?m)" using keeps_sup[OF _ upp(1,2)] by blast
  have "fresh s (range_at Hdr' ?n)" using fresh_sub[OF fr upp(1,2)] .
  moreover have "keeps s ?u (range_at Hdr ?m)" using keeps_trans[OF keeps_trans[OF k1 k2] ku] .
  then have "keeps s ?u (range_at Hdr' ?n)" using fr unfolding keeps_def fresh_def by blast
  moreover have "pool_ok ?u" using I(1) same_pool_ok[OF set_used_same] sb(1) by blast
  moreover have "pages ?u = pages s1" using pf by (simp add: sb(1) set_used_frame insert_pool_def same_pool_def)
  ultimately show "given s ?u Hdr' t ?n" using f1 by (simp add: given_def)
  show "?n dvd unat Hdr'" by (rule dv')
qed

text \<open>The search for a block, by the distance to the index of a page.\<close>

lemma one_pool_page: "EFI_SIZE_TO_PAGES (MAX_POOL_SIZE * 2) = 1"
  by (simp add: EFI_SIZE_TO_PAGES_def MAX_POOL_SIZE_def MAX_POOL_SHIFT_def EFI_PAGE_MASK_def)

lemma block_size_word: "push_bit i MIN_POOL_SIZE = word_of_nat (block_size i)"
  by (simp add: block_size_def MIN_POOL_SIZE_def MIN_POOL_SHIFT_def push_bit_eq_mult mult.commute)

lemma remove_first_given:
  assumes ok: "pool_ok s" and t: "t \<in> smm_memory_types" "UefiMemoryTypeToSmmPoolType t = Some T"
    and i: "i < MAX_POOL_INDEX" and x: "pool_ring s t i = x # xs"
  shows "given s (set_used x t (word_of_nat (block_size i)) (remove_first T i s)) x t (block_size i)"
    "block_size i dvd unat x"
proof -
  let ?s = "remove_first T i s" and ?n = "block_size i"
  note R = remove_ok[OF ok t(1) i x t(2)]
  have lim: "unat x + ?n < 18446744073709551616" using held_limit[OF R(1,3)] by blast
  let ?u = "set_used x t (word_of_nat ?n) ?s"
  have "block_at ?u x t ?n" using set_used_block[OF R(3)] i R(2) by blast
  moreover have "fresh s (range_at x ?n)" unfolding fresh_def using R(4) by blast
  moreover have "keeps s ?s (range_at x ?n)" unfolding keeps_def using R(4) by (simp add: remove_first_def)
  then have "keeps s ?u (range_at x ?n)" using keeps_trans keeps_set_used[OF lim] block_size_ge[of i] by simp
  moreover have "pool_ok ?u" using R(1) same_pool_ok[OF set_used_same] by blast
  moreover have "pages ?u = pages s" by (simp add: set_used_frame remove_first_def)
  ultimately show "given s ?u x t ?n" by (simp add: given_def)
  show "?n dvd unat x" by (rule R(2))
qed

lemma InternalAllocPoolByIndex_gives:
  assumes "pool_ok s" "2 \<le> length (mFreeMemoryMapEntryList (pages s))" "t \<in> smm_memory_types" "i \<le> MAX_POOL_INDEX"
  shows "InternalAllocPoolByIndex t i s = Some (EFI_OUT_OF_RESOURCES, 0, s) \<or>
    (\<exists>Hdr s'. InternalAllocPoolByIndex t i s = Some (EFI_SUCCESS, Hdr, s') \<and> given s s' Hdr t (block_size i) \<and>
       block_size i dvd unat Hdr)"
  using assms(4)
proof (induction "MAX_POOL_INDEX - i" arbitrary: i)
  case 0
  then have i: "i = MAX_POOL_INDEX" by simp
  obtain T where T: "UefiMemoryTypeToSmmPoolType t = Some T" using smm_pool_type_of[OF assms(3)] by metis
  have bs: "block_size i = 4096" by (simp add: i block_size_def MAX_POOL_INDEX_def MAX_POOL_SHIFT_def MIN_POOL_SHIFT_def)
  have one: "(0 :: u64) < 1" "2048 < 4096 * unat (1 :: u64)" by simp_all
  from pool_pages_given[OF assms(1,2) one(1) assms(3) one(2)]
  show ?case
  proof (elim disjE exE conjE)
    fix A assume a: "SmmInternalAllocatePages AllocateAnyPages t 1 0 (pages s) = Some (EFI_OUT_OF_RESOURCES, A, pages s)"
    then have "InternalAllocPoolByIndex t i s = Some (EFI_OUT_OF_RESOURCES, 0, s)"
      by (subst InternalAllocPoolByIndex.simps) (simp add: i T one_pool_page)
    then show ?case ..
  next
    fix A p assume a: "SmmInternalAllocatePages AllocateAnyPages t 1 0 (pages s) = Some (EFI_SUCCESS, A, p)"
      "given s (set_used A t (EFI_PAGES_TO_SIZE 1) (s\<lparr>pages := p\<rparr>)) A t (4096 * unat 1)"
    have "push_bit i MIN_POOL_SIZE = EFI_PAGES_TO_SIZE 1"
      unfolding block_size_word bs by (simp add: EFI_PAGES_TO_SIZE_def)
    then have "InternalAllocPoolByIndex t i s = Some (EFI_SUCCESS, A, set_used A t (EFI_PAGES_TO_SIZE 1) (s\<lparr>pages := p\<rparr>))"
      using a(1) by (subst InternalAllocPoolByIndex.simps) (simp add: i T one_pool_page)
    moreover have "4096 dvd unat A" using a(2) unfolding given_def block_at_def
      by (auto simp: block_size_def MAX_POOL_INDEX_def MAX_POOL_SHIFT_def MIN_POOL_SHIFT_def)
    ultimately show ?case using a(2) bs by auto
  qed
next
  case (Suc k)
  then have i: "i < MAX_POOL_INDEX" by simp
  obtain T where T: "UefiMemoryTypeToSmmPoolType t = Some T" and ring: "\<And>s i. pool_ring s t i = mSmmPoolLists s T i"
    using smm_pool_type_of[OF assms(3)] by metis
  show ?case
  proof (cases "pool_ring s t i")
    case (Cons x xs)
    note R = remove_first_given[OF assms(1,3) T i Cons]
    have "InternalAllocPoolByIndex t i s = Some (EFI_SUCCESS, x, set_used x t (word_of_nat (block_size i)) (remove_first T i s))"
      using i Cons by (subst InternalAllocPoolByIndex.simps) (simp add: T ring block_size_word)
    then show ?thesis using R by blast
  next
    case Nil
    have un: "InternalAllocPoolByIndex t i s = do {
        (Status, Hdr, s) \<leftarrow> InternalAllocPoolByIndex t (i + 1) s;
        (Status, Hdr, s) \<leftarrow> (if EFI_ERROR Status then Some (Status, Hdr, s)
          else (let (Hdr, s) = split_block T i Hdr s in Some (Status, Hdr, s)));
        if EFI_ERROR Status then Some (Status, 0, s)
        else Some (Status, Hdr, set_used Hdr t (word_of_nat (block_size i)) s)
      }"
      using i Nil by (subst InternalAllocPoolByIndex.simps)
        (simp add: T ring block_size_word split: bind_split prod.splits)
    have "k = MAX_POOL_INDEX - (i + 1)" "i + 1 \<le> MAX_POOL_INDEX" using Suc.hyps(2) i by simp_all
    from Suc.hyps(1)[OF this] show ?thesis
    proof (elim disjE exE conjE)
      assume "InternalAllocPoolByIndex t (i + 1) s = Some (EFI_OUT_OF_RESOURCES, 0, s)"
      then show ?thesis unfolding un by simp
    next
      fix Hdr s1 assume r: "InternalAllocPoolByIndex t (i + 1) s = Some (EFI_SUCCESS, Hdr, s1)"
        "given s s1 Hdr t (block_size (i + 1))" "block_size (i + 1) dvd unat Hdr"
      obtain Hdr' s2 where s2: "split_block T i Hdr s1 = (Hdr', s2)" by (cases "split_block T i Hdr s1")
      have "InternalAllocPoolByIndex t i s = Some (EFI_SUCCESS, Hdr', set_used Hdr' t (word_of_nat (block_size i)) s2)"
        unfolding un using r(1) s2 by simp
      then show ?thesis using split_given[OF _ assms(3) T i _ s2] r(2,3) by simp
    qed
  qed
qed

end
