(* ===== verification/Smm_Pool_Ops.thy ===== *)
theory Smm_Pool_Ops
  imports Smm_Pool_Alloc
begin

text \<open>
  The two services of the pool allocator: the index of the block for a size, large requests, and the
  release of a block.
\<close>

subsection \<open>Sizes\<close>

definition pool_index :: "u64 \<Rightarrow> u64" where
  "pool_index q = (let PoolIndex = word_of_int (HighBitSet32 (ucast q)) in
     if q AND (q - 1) \<noteq> 0 then PoolIndex + 1 else PoolIndex)"

definition size_index :: "u64 \<Rightarrow> nat" where
  "size_index Size' = unat (pool_index (drop_bit MIN_POOL_SHIFT (Size' + POOL_OVERHEAD + MIN_POOL_SIZE - 1)))"

lemma pool_index_table:
  "list_all (\<lambda>m. let i = unat (pool_index (word_of_nat m)) in
     i < MAX_POOL_INDEX \<and> m \<le> 2 ^ i \<and> (i = 0 \<or> 2 ^ (i - 1) < m)) [1..<33]"
  by code_simp

lemma size_index_range:
  assumes "unat Size' + 40 \<le> 2048"
  shows "size_index Size' < MAX_POOL_INDEX" "unat Size' + 40 \<le> block_size (size_index Size')"
    "size_index Size' = 0 \<or> block_size (size_index Size' - 1) < unat Size' + 40"
proof -
  let ?m = "(unat Size' + 103) div 64" and ?i = "size_index Size'"
  have e: "Size' + POOL_OVERHEAD + MIN_POOL_SIZE - 1 = Size' + word_of_nat 103"
    by (simp add: POOL_OVERHEAD_def header_size_def tail_size_def MIN_POOL_SIZE_def MIN_POOL_SHIFT_def)
  have "unat (Size' + word_of_nat 103) = unat Size' + 103" using unat_plus(1)[of Size' 103] assms by simp
  then have "unat (drop_bit MIN_POOL_SHIFT (Size' + POOL_OVERHEAD + MIN_POOL_SIZE - 1)) = ?m"
    unfolding e by (simp add: MIN_POOL_SHIFT_def drop_bit_eq_div unat_div_distrib)
  moreover have "x = word_of_nat (unat x)" for x :: u64 by simp
  ultimately have w: "drop_bit MIN_POOL_SHIFT (Size' + POOL_OVERHEAD + MIN_POOL_SIZE - 1) = word_of_nat ?m"
    by metis
  have "?m \<in> set [1..<33]" using assms by auto
  then have m: "?i < MAX_POOL_INDEX \<and> ?m \<le> 2 ^ ?i \<and> (?i = 0 \<or> 2 ^ (?i - 1) < ?m)"
    using pool_index_table unfolding list_all_iff size_index_def w Let_def by blast
  show "?i < MAX_POOL_INDEX" using m by blast
  have lo: "unat Size' + 40 \<le> 64 * ?m" by linarith
  have "64 * ?m \<le> 64 * 2 ^ ?i" using m by simp
  then show "unat Size' + 40 \<le> block_size ?i" unfolding block_size_def using lo by linarith
  have hi: "64 * ?m \<le> unat Size' + 103" by linarith
  have "64 * x < unat Size' + 40" if "x < ?m" for x
  proof -
    have "64 * x + 64 \<le> 64 * ?m" using that by simp
    from this hi have "64 * x + 64 \<le> unat Size' + 103" by (rule order_trans)
    then show ?thesis by simp
  qed
  then show "?i = 0 \<or> block_size (?i - 1) < unat Size' + 40"
    using m unfolding block_size_def by blast
qed

text \<open>The index is the least one whose blocks are large enough.\<close>

lemma size_index_least:
  assumes "unat Size' + 40 \<le> block_size i" "i < MAX_POOL_INDEX" "i = 0 \<or> block_size (i - 1) < unat Size' + 40"
  shows "size_index Size' = i"
proof -
  have mono: "block_size a \<le> block_size b" if "a \<le> b" for a b
    using that by (simp add: block_size_def power_increasing)
  have "i \<le> 5" using assms(2) by (simp add: MAX_POOL_INDEX_def MAX_POOL_SHIFT_def MIN_POOL_SHIFT_def)
  then have "unat Size' + 40 \<le> 2048" using mono[of i 5] assms(1) by (simp add: block_size_def)
  note R = size_index_range[OF this]
  show ?thesis
  proof (rule ccontr)
    assume "size_index Size' \<noteq> i"
    then consider "size_index Size' < i" | "i < size_index Size'" by linarith
    then show False
    proof cases
      case 1
      then have "block_size (size_index Size') \<le> block_size (i - 1)" by (intro mono) simp
      then show False using 1 R(2) assms(3) by auto
    next
      case 2
      then have "block_size i \<le> block_size (size_index Size' - 1)" by (intro mono) simp
      then show False using 2 R(3) assms(1) by auto
    qed
  qed
qed

lemma round_up_div: "((m :: nat) + 4095) div 4096 = m div 4096 + (if m mod 4096 = 0 then 0 else 1)"
proof -
  have "m + 4095 = (m mod 4096 + 4095) + m div 4096 * 4096" by simp
  then have e: "(m + 4095) div 4096 = m div 4096 + (m mod 4096 + 4095) div 4096" by (metis div_mult_self1 zero_neq_numeral)
  have "m mod 4096 < 4096" by simp
  then have "(m mod 4096 + 4095) div 4096 = 1" if "m mod 4096 \<noteq> 0" using that by (intro div_nat_eqI) auto
  then show ?thesis using e by auto
qed

lemma unat_size_to_pages:
  assumes "unat x + 4095 < 18446744073709551616"
  shows "unat (EFI_SIZE_TO_PAGES x) = (unat x + 4095) div 4096"
proof -
  have "EFI_PAGE_MASK = mask 12" by (simp add: EFI_PAGE_MASK_def mask_eq_exp_minus_1)
  then have "x AND EFI_PAGE_MASK = take_bit 12 x" by (simp add: take_bit_eq_mask)
  then have "unat (x AND EFI_PAGE_MASK) = take_bit 12 (unat x)" by (simp add: unsigned_take_bit_eq)
  then have "unat (x AND EFI_PAGE_MASK) = unat x mod 4096" by (simp add: take_bit_eq_mod)
  then have z: "x AND EFI_PAGE_MASK = 0 \<longleftrightarrow> unat x mod 4096 = 0" by (simp only: unat_eq_zero[symmetric])
  have d: "unat (drop_bit 12 x) = unat x div 4096" using unat_TRUNCATE[of x] by (simp add: TRUNCATE_TO_PAGES_def)
  show ?thesis
  proof (cases "unat x mod 4096 = 0")
    case True
    have "(unat x + 4095) div 4096 = unat x div 4096" using True round_up_div by simp
    moreover have "EFI_SIZE_TO_PAGES x = drop_bit 12 x" using True z unfolding EFI_SIZE_TO_PAGES_def by (simp only: if_False simp_thms add_0_right)
    ultimately show ?thesis using d by metis
  next
    case False
    have "(unat x + 4095) div 4096 = unat x div 4096 + 1" using False round_up_div by simp
    moreover have "unat (drop_bit 12 x) + 1 < 18446744073709551616" using d assms by linarith
    then have "unat (drop_bit 12 x + word_of_nat 1) = unat x div 4096 + 1" using unat_plus(1) d by metis
    moreover have "EFI_SIZE_TO_PAGES x = drop_bit 12 x + word_of_nat 1"
      using False z unfolding EFI_SIZE_TO_PAGES_def by (simp only: if_True simp_thms of_nat_1)
    ultimately show ?thesis by metis
  qed
qed

subsection \<open>Allocation\<close>

lemma size_words:
  assumes "unat Size' + 40 < 18446744073709551616"
  shows "unat (Size' + POOL_OVERHEAD) = unat Size' + 40"
    "Size' + POOL_OVERHEAD > MAX_POOL_SIZE \<longleftrightarrow> 2008 < unat Size'"
proof -
  have "POOL_OVERHEAD = word_of_nat 40" by (simp add: POOL_OVERHEAD_def header_size_def tail_size_def)
  then show u: "unat (Size' + POOL_OVERHEAD) = unat Size' + 40" using unat_plus(1)[of Size' 40] assms by simp
  have "unat MAX_POOL_SIZE = 2048" by (simp add: MAX_POOL_SIZE_def MAX_POOL_SHIFT_def)
  then show "Size' + POOL_OVERHEAD > MAX_POOL_SIZE \<longleftrightarrow> 2008 < unat Size'"
    by (auto simp: word_less_nat_alt u)
qed

lemma small_pool_request:
  assumes "t \<in> smm_memory_types" "\<not> Size' + POOL_OVERHEAD > MAX_POOL_SIZE"
  shows "SmmInternalAllocatePool t Size' s = do {
    (Status, FreePoolHdr, s) \<leftarrow> InternalAllocPoolByIndex t (size_index Size') s;
    Some (Status, if EFI_ERROR Status then 0 else FreePoolHdr + header_size, s)
  }"
proof -
  have tt: "\<not> (t \<noteq> EfiRuntimeServicesCode \<and> t \<noteq> EfiRuntimeServicesData)" using assms(1) by (auto simp: smm_memory_types_def)
  show ?thesis
    unfolding SmmInternalAllocatePool_def size_index_def pool_index_def Let_def if_not_P[OF tt] if_not_P[OF assms(2)] ..
qed

lemma large_pool_request:
  assumes "t \<in> smm_memory_types" "Size' + POOL_OVERHEAD > MAX_POOL_SIZE"
  shows "SmmInternalAllocatePool t Size' s = do {
    (Status, Address, p) \<leftarrow> SmmInternalAllocatePages AllocateAnyPages t (EFI_SIZE_TO_PAGES (Size' + POOL_OVERHEAD)) 0 (pages s);
    let s = s\<lparr>pages := p\<rparr>;
    if EFI_ERROR Status then Some (Status, 0, s)
    else Some (Status, Address + header_size,
      set_used Address t (EFI_PAGES_TO_SIZE (EFI_SIZE_TO_PAGES (Size' + POOL_OVERHEAD))) s)
  }"
proof -
  have tt: "\<not> (t \<noteq> EfiRuntimeServicesCode \<and> t \<noteq> EfiRuntimeServicesData)" using assms(1) by (auto simp: smm_memory_types_def)
  show ?thesis
    unfolding SmmInternalAllocatePool_def Let_def if_not_P[OF tt] if_P[OF assms(2)] ..
qed

lemma large_request_pages:
  assumes "unat Size' + 4136 < 18446744073709551616"
  shows "unat (EFI_SIZE_TO_PAGES (Size' + POOL_OVERHEAD)) = (unat Size' + 4135) div 4096"
    "0 < EFI_SIZE_TO_PAGES (Size' + POOL_OVERHEAD)"
proof -
  have "unat Size' + 40 < 18446744073709551616" using assms by simp
  from size_words(1)[OF this] show k: "unat (EFI_SIZE_TO_PAGES (Size' + POOL_OVERHEAD)) = (unat Size' + 4135) div 4096"
    using unat_size_to_pages[of "Size' + POOL_OVERHEAD"] assms by simp
  have "0 < unat (EFI_SIZE_TO_PAGES (Size' + POOL_OVERHEAD))" unfolding k by simp
  then show "0 < EFI_SIZE_TO_PAGES (Size' + POOL_OVERHEAD)" by (simp add: word_less_nat_alt)
qed

lemma SmmInternalAllocatePool_gives:
  assumes ok: "pool_ok s" and f: "2 \<le> length (mFreeMemoryMapEntryList (pages s))" and t: "t \<in> smm_memory_types"
    and sz: "unat Size' + 4136 < 18446744073709551616"
  shows "SmmInternalAllocatePool t Size' s = Some (EFI_OUT_OF_RESOURCES, 0, s) \<or>
    (\<exists>Hdr s' n. SmmInternalAllocatePool t Size' s = Some (EFI_SUCCESS, Hdr + header_size, s') \<and> given s s' Hdr t n \<and>
       unat Size' + 40 \<le> n)"
proof -
  have "unat Size' + 40 < 18446744073709551616" using sz by simp
  note W = size_words[OF this]
  show ?thesis
  proof (cases "2008 < unat Size'")
    case True
    let ?k = "EFI_SIZE_TO_PAGES (Size' + POOL_OVERHEAD)"
    note K = large_request_pages[OF sz]
    have k1: "unat Size' + 40 \<le> 4096 * unat ?k" unfolding K(1) by linarith
    then have k2: "2048 < 4096 * unat ?k" using True by linarith
    note run = large_pool_request[OF t, of Size' s]
    from pool_pages_given[OF ok f K(2) t k2] show ?thesis
    proof (elim disjE exE conjE)
      fix A assume "SmmInternalAllocatePages AllocateAnyPages t ?k 0 (pages s) = Some (EFI_OUT_OF_RESOURCES, A, pages s)"
      then show ?thesis using run W(2) True by (simp add: Let_def)
    next
      fix A p assume "SmmInternalAllocatePages AllocateAnyPages t ?k 0 (pages s) = Some (EFI_SUCCESS, A, p)"
        "given s (set_used A t (EFI_PAGES_TO_SIZE ?k) (s\<lparr>pages := p\<rparr>)) A t (4096 * unat ?k)"
      then show ?thesis using run W(2) True k1 by (auto simp: Let_def)
    qed
  next
    case False
    then have "unat Size' + 40 \<le> 2048" by simp
    note P = size_index_range[OF this]
    have un: "SmmInternalAllocatePool t Size' s = do {
        (Status, FreePoolHdr, s) \<leftarrow> InternalAllocPoolByIndex t (size_index Size') s;
        Some (Status, if EFI_ERROR Status then 0 else FreePoolHdr + header_size, s)
      }"
      using small_pool_request[OF t] W(2) False by simp
    have "size_index Size' \<le> MAX_POOL_INDEX" using P(1) by simp
    from InternalAllocPoolByIndex_gives[OF ok f t this] show ?thesis
      unfolding un using P(2) by (elim disjE exE conjE) auto
  qed
qed

subsection \<open>Release\<close>

lemma block_size_checks:
  "list_all (\<lambda>i. let n = (word_of_nat (block_size i) :: u64) in n AND (n - 1) = 0 \<and> n \<ge> MIN_POOL_SIZE \<and>
     n \<le> MAX_POOL_SIZE \<and> n - 1 = mask (6 + i) \<and>
     unat (word_of_int (HighBitSet32 (ucast n) - int MIN_POOL_SHIFT) :: u64) = i) [0..<6]"
  by code_simp

lemma block_size_check:
  assumes "i < MAX_POOL_INDEX"
  defines "n \<equiv> word_of_nat (block_size i) :: u64"
  shows "n AND (n - 1) = 0" "n \<ge> MIN_POOL_SIZE" "\<not> n > MAX_POOL_SIZE" "n - 1 = mask (6 + i)"
    "unat (word_of_int (HighBitSet32 (ucast n) - int MIN_POOL_SHIFT) :: u64) = i"
proof -
  have "i \<in> set [0..<6]" using assms(1) by (simp add: MAX_POOL_INDEX_def MAX_POOL_SHIFT_def MIN_POOL_SHIFT_def)
  then have "n AND (n - 1) = 0 \<and> n \<ge> MIN_POOL_SIZE \<and> n \<le> MAX_POOL_SIZE \<and> n - 1 = mask (6 + i) \<and>
     unat (word_of_int (HighBitSet32 (ucast n) - int MIN_POOL_SHIFT) :: u64) = i"
    using block_size_checks unfolding list_all_iff n_def Let_def by blast
  then show "n AND (n - 1) = 0" "n \<ge> MIN_POOL_SIZE" "\<not> n > MAX_POOL_SIZE" "n - 1 = mask (6 + i)"
    "unat (word_of_int (HighBitSet32 (ucast n) - int MIN_POOL_SHIFT) :: u64) = i"
    unfolding not_less by blast+
qed

lemma and_mask_dvd:
  assumes "2 ^ k dvd unat (x :: u64)"
  shows "x AND mask k = 0"
proof -
  have "take_bit k (unat x) = 0" using assms by (simp add: take_bit_eq_mod)
  then have "unat (take_bit k x) = 0" by (simp add: unsigned_take_bit_eq)
  then have "take_bit k x = 0" by (simp only: unat_eq_zero)
  then show ?thesis by (simp add: take_bit_eq_mask)
qed

definition released :: "pool_state \<Rightarrow> pool_state \<Rightarrow> byte_range \<Rightarrow> bool" where
  "released s s' q \<longleftrightarrow> pool_ok s' \<and> keeps s s' q \<and>
     length (mFreeMemoryMapEntryList (pages s)) \<le> length (mFreeMemoryMapEntryList (pages s')) + 2"

lemma release_block:
  assumes ok: "pool_ok s" and b: "block_at s Hdr t n" and t: "t \<in> smm_memory_types"
    and i: "i < MAX_POOL_INDEX" "n = block_size i" "n dvd unat Hdr"
  shows "\<exists>s'. InternalFreePoolByIndex Hdr s = Some (EFI_SUCCESS, s') \<and> released s s' (range_at Hdr n) \<and>
    pages s' = pages s \<and>
    (\<forall>u \<in> smm_memory_types. \<forall>j. pool_ring s' u j = (if u = t \<and> j = i then Hdr # pool_ring s t i else pool_ring s u j))"
proof -
  obtain T where T: "UefiMemoryTypeToSmmPoolType t = Some T" using smm_pool_type_of[OF t] by metis
  have h: "held s t (range_at Hdr n)" and hd: "HeaderSize (headers s Hdr) = word_of_nat n" "HeaderType (headers s Hdr) = t"
    using b by (simp_all add: block_at_def)
  have lim: "unat Hdr + n < 18446744073709551616" using held_limit[OF ok h] by blast
  have n64: "64 \<le> n" using block_size_ge i(2) by simp
  note C = block_size_check[OF i(1), folded i(2)]
  have "2 ^ (6 + i) = n" by (simp add: i(2) block_size_def power_add)
  then have al: "Hdr AND (word_of_nat n - 1) = 0" unfolding C(4) using and_mask_dvd i(3) by metis
  let ?f = "set_free Hdr s" and ?s = "insert_pool T i Hdr (set_free Hdr s)"
  have okf: "pool_ok ?f" using ok same_pool_ok[OF set_free_same] by blast
  have hf: "held ?f t (range_at Hdr (block_size i))" using h same_pool_held[OF set_free_same] i(2) by blast
  have dv: "block_size i dvd unat Hdr" using i(2,3) by simp
  note I = insert_ok[OF okf t i(1) T dv hf]
  have run: "InternalFreePoolByIndex Hdr s = Some (EFI_SUCCESS, ?s)"
    using C al i(1) T by (simp add: InternalFreePoolByIndex_def Let_def hd)
  have "keeps s ?f (range_at Hdr n)" using keeps_set_free[OF lim _ hd(1)] n64 by simp
  moreover have "keeps ?f ?s (range_at Hdr n)"
    unfolding keeps_def using I(2) i(2) by (auto simp: insert_pool_def)
  ultimately have "keeps s ?s (range_at Hdr n)" by (rule keeps_trans)
  moreover have p: "pages ?s = pages s" by (simp add: insert_pool_def set_free_frame)
  ultimately have "released s ?s (range_at Hdr n)" using I(1) by (simp add: released_def)
  moreover have "pool_ring ?s u j = (if u = t \<and> j = i then Hdr # pool_ring s t i else pool_ring s u j)"
    if "u \<in> smm_memory_types" for u j
    using pool_ring_insert[OF t that T] by (simp add: set_free_frame)
  ultimately show ?thesis using run p by blast
qed

end
