(* ===== verification/Smm_Pool_Free.thy ===== *)
theory Smm_Pool_Free
  imports Smm_Pool_Ops
begin

text \<open>
  The release of a block by SmmInternalFreePool: a small block goes to its ring, the pages of a large
  one become free pages.
\<close>

lemma in_pages_apart:
  assumes "in_pages p t r" "apart r (4096 * a, 4096 * b)" "changed t' a b p p'"
  shows "in_pages p' t r"
proof -
  have out: "q < a \<or> b \<le> q" if q: "fst r div 4096 \<le> q" "q \<le> (snd r - 1) div 4096" for q
  proof -
    from assms(2) consider "snd r \<le> 4096 * a" | "4096 * b \<le> fst r" by (auto simp: apart_def)
    then show ?thesis
    proof cases
      case 1
      have "fst r < snd r" using assms(1) by (simp add: in_pages_def)
      then have "(snd r - 1) div 4096 < a" using 1 by (simp add: div_less_iff_less_mult mult.commute)
      then show ?thesis using q(2) by simp
    next
      case 2
      then have "b \<le> fst r div 4096" by (simp add: less_eq_div_iff_mult_less_eq mult.commute)
      then show ?thesis using q(1) by simp
    qed
  qed
  have "page_type p' q = page_type p q" if "q \<in> {fst r div 4096..(snd r - 1) div 4096}" for q
  proof -
    have "q < a \<or> b \<le> q" using out that by simp
    then show ?thesis using assms(3) unfolding changed_def set_pages_def by auto
  qed
  then show ?thesis using assms(1) unfolding in_pages_def by simp
qed

text \<open>A range of whole pages.\<close>

lemma release_pages:
  assumes ok: "pool_ok s" and f: "2 \<le> length (mFreeMemoryMapEntryList (pages s))"
    and h: "held s t (range_at A (4096 * unat m))" and al: "4096 dvd unat A"
  shows "\<exists>p. SmmInternalFreePages A m (pages s) = Some (EFI_SUCCESS, p) \<and>
    released s (s\<lparr>pages := p\<rparr>) (range_at A (4096 * unat m)) \<and>
    page_type p = set_pages EfiConventionalMemory (unat A div 4096) (unat A div 4096 + unat m) (page_type (pages s))"
proof -
  let ?q = "range_at A (4096 * unat m)"
  obtain a where a: "unat A = 4096 * a" using al by (rule dvdE)
  have A: "A = page_start a" unfolding page_start_def a[symmetric] by simp
  let ?b = "a + unat m"
  have rg: "?q = (4096 * a, 4096 * ?b)" by (simp add: range_at_def a)
  have ip: "in_pages (pages s) t (4096 * a, 4096 * ?b)" and t: "t \<in> smm_memory_types"
    using h rg by (simp_all add: held_def)
  have okp: "smm_ok (pages s)" using ok by (simp add: pool_ok_def)
  from in_pages_limit[OF this ip] have lim: "?b < page_limit" by simp
  have a0: "0 < a" "0 < unat m" using ip by (auto simp: in_pages_def)
  have "(4096 * ?b - 1) div 4096 = ?b - 1" using a0 last_page[of ?b] by simp
  then have "\<forall>q \<in> {a..<?b}. page_type (pages s) q = Some t" using ip by (auto simp: in_pages_def)
  then have "allocated (pages s) a ?b" using a0 lim t by (auto simp: allocated_def)
  from free_allocated[OF okp f this] obtain p where p: "SmmInternalFreePages A m (pages s) = Some (EFI_SUCCESS, p)"
    "changed EfiConventionalMemory a ?b (pages s) p" unfolding A by auto
  let ?s = "s\<lparr>pages := p\<rparr>"
  have F: "free_blocks ?s = free_blocks s" by (simp add: free_blocks_def)
  note stay = in_pages_apart[OF _ _ p(2)]
  have "apart (block_range c) ?q" if "c \<in> free_blocks s" for c
    using h that apart_sym unfolding held_def by blast
  then have "in_pages p (fst c) (block_range c)" if "c \<in> free_blocks s" for c
    using stay ok that unfolding rg pool_ok_def by blast
  then have "pool_ok ?s" using ok p(2) unfolding pool_ok_def F changed_def by simp
  moreover have "keeps s ?s ?q" unfolding keeps_def held_def F rg using stay by simp
  ultimately have "released s ?s ?q" using p(2) by (simp add: released_def changed_def)
  moreover have "page_type p = set_pages EfiConventionalMemory (unat A div 4096) (unat A div 4096 + unat m) (page_type (pages s))"
    using p(2) by (simp add: changed_def a)
  ultimately show ?thesis using p(1) by blast
qed

text \<open>The pages of a large block.\<close>

lemma large_block:
  assumes ok: "pool_ok s" and h: "held s t (range_at Hdr n)" and al: "4096 dvd n"
  shows "4096 * unat (EFI_SIZE_TO_PAGES (word_of_nat n)) = n" "unat (word_of_nat n :: u64) = n"
proof -
  obtain k where k: "n = 4096 * k" using al by (rule dvdE)
  have "smm_ok (pages s)" "in_pages (pages s) t (range_at Hdr n)" using ok h by (simp_all add: pool_ok_def held_def)
  from in_pages_limit[OF this] have "unat Hdr + n < 4096 * page_limit" by (simp add: range_at_def)
  then have "k < page_limit" unfolding k by simp
  then have n: "n + 4095 < 18446744073709551616" unfolding k page_limit_eq by simp
  show un: "unat (word_of_nat n :: u64) = n" using unat_plus(2)[of 0 n] n by simp
  then have "unat (EFI_SIZE_TO_PAGES (word_of_nat n)) = (n + 4095) div 4096"
    using unat_size_to_pages[of "word_of_nat n"] n by simp
  then show "4096 * unat (EFI_SIZE_TO_PAGES (word_of_nat n)) = n" using round_up_div[of n] by (simp add: k)
qed

text \<open>The checks that the service makes on a block.\<close>

lemma block_buffer:
  assumes ok: "pool_ok s" and h: "held s t (range_at Hdr n)" and n: "24 \<le> n"
  shows "Hdr + header_size \<noteq> 0"
proof -
  have "unat Hdr + n < 18446744073709551616" using held_limit[OF ok h] by blast
  then have "unat (Hdr + word_of_nat 24) = unat Hdr + 24" using n unat_plus(1)[of Hdr 24] by simp
  then have "Hdr + word_of_nat 24 \<noteq> 0" by (metis add_is_0 unat_0 zero_neq_numeral)
  then show ?thesis by (simp add: header_size_def)
qed

lemma SmmInternalFreePool_block:
  assumes ok: "pool_ok s" and b: "block_at s Hdr t n"
  shows "SmmInternalFreePool (Hdr + header_size) s =
    (if word_of_nat n > MAX_POOL_SIZE then do {
       ASSERT (Hdr AND EFI_PAGE_MASK = 0);
       ASSERT (word_of_nat n AND EFI_PAGE_MASK = 0);
       (Status, p) \<leftarrow> SmmInternalFreePages Hdr (EFI_SIZE_TO_PAGES (word_of_nat n)) (pages s);
       Some (Status, s\<lparr>pages := p\<rparr>)
     }
     else InternalFreePoolByIndex Hdr s)"
proof -
  have h: "held s t (range_at Hdr n)" using b by (simp add: block_at_def)
  from b have "(\<exists>i. n = block_size i) \<or> 2048 < n" unfolding block_at_def by blast
  then have "24 \<le> n"
  proof (elim disjE exE)
    fix i assume "n = block_size i"
    then show ?thesis using block_size_ge[of i] by simp
  qed simp
  from block_buffer[OF ok h this] b show ?thesis
    by (simp add: SmmInternalFreePool_def Let_def block_at_def HEAD_TO_TAIL_def)
qed

text \<open>A small block goes to the head of the ring of its type and size, the pages of a large one become free.\<close>

lemma other_ring: "u \<notin> smm_memory_types \<Longrightarrow> pool_ring s u j = []"
  by (cases u) (auto simp: pool_ring_def UefiMemoryTypeToSmmPoolType_def smm_memory_types_def)

definition returned :: "pool_state \<Rightarrow> pool_state \<Rightarrow> u64 \<Rightarrow> efi_memory_type \<Rightarrow> nat \<Rightarrow> bool" where
  "returned s s' Hdr t n \<longleftrightarrow>
     (if n \<le> 2048 then
        pages s' = pages s \<and>
        (\<exists>i < MAX_POOL_INDEX. n = block_size i \<and>
           (\<forall>u j. pool_ring s' u j = (if u = t \<and> j = i then Hdr # pool_ring s t i else pool_ring s u j)))
      else
        pool_ring s' = pool_ring s \<and>
        page_type (pages s') =
          set_pages EfiConventionalMemory (unat Hdr div 4096) ((unat Hdr + n) div 4096) (page_type (pages s)))"

lemma block_size_small: "i < MAX_POOL_INDEX \<Longrightarrow> block_size i \<le> 2048"
  by (auto simp: block_size_def MAX_POOL_INDEX_def MAX_POOL_SHIFT_def MIN_POOL_SHIFT_def less_Suc_eq numeral_eq_Suc)

lemma SmmInternalFreePool_returns:
  assumes ok: "pool_ok s" and f: "2 \<le> length (mFreeMemoryMapEntryList (pages s))" and b: "block_at s Hdr t n"
  shows "\<exists>s'. SmmInternalFreePool (Hdr + header_size) s = Some (EFI_SUCCESS, s') \<and>
    released s s' (range_at Hdr n) \<and> returned s s' Hdr t n"
proof -
  have h: "held s t (range_at Hdr n)" using b by (simp add: block_at_def)
  have t: "t \<in> smm_memory_types" using h by (simp add: held_def)
  note run = SmmInternalFreePool_block[OF ok b]
  from b consider i where "i < MAX_POOL_INDEX" "n = block_size i" "n dvd unat Hdr"
    | "2048 < n" "4096 dvd n" "4096 dvd unat Hdr" unfolding block_at_def by blast
  then show ?thesis
  proof cases
    case 1
    have small: "\<not> word_of_nat n > MAX_POOL_SIZE" using block_size_check(3)[OF 1(1)] 1(2) by simp
    have n: "n \<le> 2048" using block_size_small[OF 1(1)] 1(2) by simp
    from release_block[OF ok b t 1] obtain s' where r: "InternalFreePoolByIndex Hdr s = Some (EFI_SUCCESS, s')"
      "released s s' (range_at Hdr n)" "pages s' = pages s"
      "\<forall>u \<in> smm_memory_types. \<forall>j. pool_ring s' u j = (if u = t \<and> j = i then Hdr # pool_ring s t i else pool_ring s u j)"
      by blast
    have "pool_ring s' u j = (if u = t \<and> j = i then Hdr # pool_ring s t i else pool_ring s u j)" for u j
      using r(4) t other_ring by (cases "u \<in> smm_memory_types") auto
    then have "returned s s' Hdr t n" using r(3) n 1(1,2) by (auto simp: returned_def)
    then show ?thesis using r(1,2) run small by simp
  next
    case 2
    note un = large_block[OF ok h 2(2)]
    then have big: "word_of_nat n > MAX_POOL_SIZE"
      using 2(1) by (simp add: word_less_nat_alt MAX_POOL_SIZE_def MAX_POOL_SHIFT_def)
    have "EFI_PAGE_MASK = mask 12" by (simp add: EFI_PAGE_MASK_def mask_eq_exp_minus_1)
    then have al: "Hdr AND EFI_PAGE_MASK = 0" "word_of_nat n AND EFI_PAGE_MASK = 0"
      using and_mask_dvd[of 12] 2(2,3) un(2) by simp_all
    let ?m = "EFI_SIZE_TO_PAGES (word_of_nat n)"
    have e: "unat Hdr div 4096 + unat ?m = (unat Hdr + n) div 4096"
      using 2(3) un(1) by (metis div_plus_div_distrib_dvd_left nonzero_mult_div_cancel_left zero_neq_numeral)
    from release_pages[OF ok f _ 2(3), of t ?m] h un(1) obtain p where
      p: "SmmInternalFreePages Hdr ?m (pages s) = Some (EFI_SUCCESS, p)" "released s (s\<lparr>pages := p\<rparr>) (range_at Hdr n)"
        "page_type p = set_pages EfiConventionalMemory (unat Hdr div 4096) ((unat Hdr + n) div 4096) (page_type (pages s))"
      unfolding e by auto
    have "returned s (s\<lparr>pages := p\<rparr>) Hdr t n" using p(3) 2(1) by (simp add: returned_def pool_ring_def fun_eq_iff split: option.splits)
    then show ?thesis using p(1,2) run big al by simp
  qed
qed

lemma SmmInternalFreePool_releases:
  assumes "pool_ok s" "2 \<le> length (mFreeMemoryMapEntryList (pages s))" "block_at s Hdr t n"
  shows "\<exists>s'. SmmInternalFreePool (Hdr + header_size) s = Some (EFI_SUCCESS, s') \<and> released s s' (range_at Hdr n)"
  using SmmInternalFreePool_returns[OF assms] by blast

text \<open>A returned block is nobody's: no client holds a byte of it.\<close>

lemma returned_not_held:
  assumes b: "block_at s Hdr t n" and r: "returned s s' Hdr t n"
    and o: "r = (x, y)" "x < y" "unat Hdr \<le> x" "y \<le> unat Hdr + n"
  shows "\<not> held s' u r"
proof (cases "n \<le> 2048")
  case True
  have t: "t \<in> smm_memory_types" using b by (simp add: block_at_def held_def)
  from r True obtain i where i: "i < MAX_POOL_INDEX" "n = block_size i" "pool_ring s' t i = Hdr # pool_ring s t i"
    by (auto simp: returned_def)
  then have "(t, i, Hdr) \<in> free_blocks s'" using t by (simp add: free_blocks_def)
  moreover have "\<not> apart r (block_range (t, i, Hdr))"
    using o i(2) by (auto simp: apart_def block_range_def range_at_def)
  ultimately show ?thesis unfolding held_def by blast
next
  case False
  have "n \<noteq> block_size i" if "i < MAX_POOL_INDEX" for i using False block_size_small[OF that] by simp
  then have large: "4096 dvd n" "4096 dvd unat Hdr" using b unfolding block_at_def by blast+
  then obtain a k where a: "unat Hdr = 4096 * a" "n = 4096 * k" by (auto elim!: dvdE)
  then have "a \<le> x div 4096" "x div 4096 < a + k" using o(2-4) div_le_mono[of "4096 * a" x 4096] less_mult_imp_div_less[of x "a + k" 4096] by simp_all
  moreover have "x div 4096 \<le> (y - 1) div 4096" using o(2) by (intro div_le_mono) simp
  ultimately have "page_type (pages s') (x div 4096) = Some EfiConventionalMemory"
    using r False a by (simp add: returned_def set_pages_def)
  then show ?thesis
    using o(1) \<open>x div 4096 \<le> (y - 1) div 4096\<close> unfolding held_def in_pages_def by (auto simp: smm_memory_types_def)
qed

end
