(* ===== verification/Smm_Client.thy ===== *)
theory Smm_Client
  imports Smm_Pool_Free
begin

text \<open>
  The two allocators of the SMM core as their clients see them.  The interface range_service is what a
  client of an allocator relies on; a client is a script of requests and of releases of what it holds.
  The interface is interpreted on the page and pool services together, which share the pages.
\<close>

section \<open>Scripts\<close>

datatype 'r client_call = Allocate 'r | Release nat

text \<open>live is what the client holds, with the requests; a request may be refused.\<close>

fun run_script :: "('r \<Rightarrow> 's \<Rightarrow> ('b option \<times> 's) option) \<Rightarrow> ('b \<Rightarrow> 's \<Rightarrow> 's option) \<Rightarrow>
    'r client_call list \<Rightarrow> ('r \<times> 'b) list \<Rightarrow> 's \<Rightarrow> (('r \<times> 'b) list \<times> 's) option" where
  "run_script alloc free [] live s = Some (live, s)"
| "run_script alloc free (Allocate r # cs) live s = do {
     (b, s) \<leftarrow> alloc r s;
     run_script alloc free cs (case b of None \<Rightarrow> live | Some b \<Rightarrow> (r, b) # live) s
   }"
| "run_script alloc free (Release i # cs) live s =
     (if i < length live then do {
        s \<leftarrow> free (snd (live ! i)) s;
        run_script alloc free cs (take i live @ drop (Suc i) live) s
      }
      else run_script alloc free cs live s)"

locale range_service =
  fixes alloc :: "'r \<Rightarrow> 's \<Rightarrow> ('b option \<times> 's) option"
    and free :: "'b \<Rightarrow> 's \<Rightarrow> 's option"
    and good :: "'s \<Rightarrow> bool"
    and budget :: "'s \<Rightarrow> nat"
    and valid :: "'r \<Rightarrow> bool"
    and answers :: "'r \<Rightarrow> 'b \<Rightarrow> bool"
    and owns :: "'s \<Rightarrow> 'b \<Rightarrow> bool"
    and space :: "'b \<Rightarrow> byte_range"
  assumes alloc_law: "good s \<Longrightarrow> 2 \<le> budget s \<Longrightarrow> valid r \<Longrightarrow> alloc r s = Some (None, s) \<or>
      (\<exists>b s'. alloc r s = Some (Some b, s') \<and> good s' \<and> budget s \<le> budget s' + 2 \<and> owns s' b \<and> answers r b \<and>
         (\<forall>c. owns s c \<longrightarrow> apart (space c) (space b) \<and> owns s' c))"
    and free_law: "good s \<Longrightarrow> 2 \<le> budget s \<Longrightarrow> owns s b \<Longrightarrow>
      \<exists>s'. free b s = Some s' \<and> good s' \<and> budget s \<le> budget s' + 2 \<and>
        (\<forall>c. owns s c \<and> apart (space c) (space b) \<longrightarrow> owns s' c)"
begin

definition holds :: "('r \<times> 'b) list \<Rightarrow> 's \<Rightarrow> bool" where
  "holds live s \<longleftrightarrow> (\<forall>x \<in> set live. owns s (snd x) \<and> answers (fst x) (snd x)) \<and>
     sorted_wrt (\<lambda>x y. apart (space (snd x)) (space (snd y))) live"

lemma holds_given:
  assumes "holds live s" "owns s' b" "answers r b" "\<forall>c. owns s c \<longrightarrow> apart (space c) (space b) \<and> owns s' c"
  shows "holds ((r, b) # live) s'"
proof -
  have "apart (space b) (space (snd x)) \<and> owns s' (snd x)" if "x \<in> set live" for x
    using assms(1,4) that apart_sym unfolding holds_def by blast
  then show ?thesis using assms(1-3) unfolding holds_def by auto
qed

lemma holds_released:
  assumes "holds live s" "i < length live"
    "\<forall>c. owns s c \<and> apart (space c) (space (snd (live ! i))) \<longrightarrow> owns s' c"
  shows "holds (take i live @ drop (Suc i) live) s'"
proof -
  let ?a = "take i live" and ?b = "drop (Suc i) live" and ?x = "live ! i"
  have l: "live = ?a @ ?x # ?b" by (rule id_take_nth_drop[OF assms(2)])
  have w: "sorted_wrt (\<lambda>x y. apart (space (snd x)) (space (snd y))) (?a @ ?x # ?b)"
    using assms(1) l unfolding holds_def by metis
  have o: "\<forall>x \<in> set (?a @ ?b). owns s (snd x) \<and> answers (fst x) (snd x)"
    using assms(1) unfolding holds_def by (metis Un_iff in_set_dropD in_set_takeD set_append)
  have "apart (space (snd y)) (space (snd ?x))" if "y \<in> set (?a @ ?b)" for y
    using w that apart_sym by (auto simp: sorted_wrt_append)
  then have "\<forall>x \<in> set (?a @ ?b). owns s' (snd x) \<and> answers (fst x) (snd x)" using o assms(3) by blast
  then show ?thesis using w unfolding holds_def by (simp add: sorted_wrt_append)
qed

lemma script_runs:
  assumes "good s" "holds live s" "2 * length cs \<le> budget s" "\<forall>r. Allocate r \<in> set cs \<longrightarrow> valid r"
  shows "\<exists>live' s'. run_script alloc free cs live s = Some (live', s') \<and> good s' \<and> holds live' s' \<and>
    budget s \<le> budget s' + 2 * length cs"
  using assms
proof (induction cs arbitrary: live s)
  case (Cons c cs)
  have two: "2 \<le> budget s" using Cons.prems(3) by simp
  have vs: "\<forall>r. Allocate r \<in> set cs \<longrightarrow> valid r" using Cons.prems(4) by simp
  show ?case
  proof (cases c)
    case (Allocate r)
    have "valid r" using Cons.prems(4) Allocate by simp
    from alloc_law[OF Cons.prems(1) two this] show ?thesis
    proof (elim disjE exE conjE)
      assume "alloc r s = Some (None, s)"
      then show ?thesis using Cons.IH[OF Cons.prems(1,2) _ vs] Cons.prems(3) Allocate by force
    next
      fix b s' assume r: "alloc r s = Some (Some b, s')" "good s'" "budget s \<le> budget s' + 2" "owns s' b" "answers r b"
        "\<forall>c. owns s c \<longrightarrow> apart (space c) (space b) \<and> owns s' c"
      have "2 * length cs \<le> budget s'" using r(3) Cons.prems(3) by simp
      from Cons.IH[OF r(2) holds_given[OF Cons.prems(2) r(4-6)] this vs]
      show ?thesis using r(1,3) Allocate by force
    qed
  next
    case (Release i)
    show ?thesis
    proof (cases "i < length live")
      case True
      then have "owns s (snd (live ! i))" using Cons.prems(2) by (auto simp: holds_def)
      from free_law[OF Cons.prems(1) two this]
      obtain s' where r: "free (snd (live ! i)) s = Some s'" "good s'" "budget s \<le> budget s' + 2"
        "\<forall>c. owns s c \<and> apart (space c) (space (snd (live ! i))) \<longrightarrow> owns s' c" by blast
      have "2 * length cs \<le> budget s'" using r(3) Cons.prems(3) by simp
      from Cons.IH[OF r(2) holds_released[OF Cons.prems(2) True r(4)] this vs]
      show ?thesis using r(1,3) Release True by force
    next
      case False
      then show ?thesis using Cons.IH[OF Cons.prems(1,2) _ vs] Cons.prems(3) Release by force
    qed
  qed
qed simp

end

section \<open>The page and pool services\<close>

text \<open>What a client holds: a block of the pool, by its header and size, or pages.\<close>

datatype smm_request =
    PoolRequest efi_memory_type u64
  | PageRequest efi_allocate_type efi_memory_type u64 u64

datatype smm_memory =
    PoolBlock u64 efi_memory_type nat
  | PageBlock u64 efi_memory_type u64

fun smm_alloc :: "smm_request \<Rightarrow> pool_state \<Rightarrow> (smm_memory option \<times> pool_state) option" where
  "smm_alloc (PoolRequest t Size') s = do {
     (Status, Buffer, s) \<leftarrow> SmmInternalAllocatePool t Size' s;
     Some (if EFI_ERROR Status then None
       else Some (PoolBlock (Buffer - header_size) t (unat (HeaderSize (headers s (Buffer - header_size))))), s)
   }"
| "smm_alloc (PageRequest ty t n Memory) s = do {
     (Status, A, p) \<leftarrow> SmmInternalAllocatePages ty t n Memory (pages s);
     Some (if EFI_ERROR Status then None else Some (PageBlock A t n), s\<lparr>pages := p\<rparr>)
   }"

fun smm_release :: "smm_memory \<Rightarrow> pool_state \<Rightarrow> pool_state option" where
  "smm_release (PoolBlock Hdr t n) s = map_option snd (SmmInternalFreePool (Hdr + header_size) s)"
| "smm_release (PageBlock A t n) s = do {
     (Status, p) \<leftarrow> SmmInternalFreePages A n (pages s);
     Some (s\<lparr>pages := p\<rparr>)
   }"

fun smm_valid :: "smm_request \<Rightarrow> bool" where
  "smm_valid (PoolRequest t Size') \<longleftrightarrow> unat Size' + 4136 < 18446744073709551616"
| "smm_valid (PageRequest ty t n Memory) \<longleftrightarrow> 0 < n \<and> (ty = AllocateAddress \<longrightarrow> unat Memory div 4096 + unat n < page_limit)"

text \<open>The bytes of a block of the pool hold its header, the requested size and its tail.\<close>

fun smm_answers :: "smm_request \<Rightarrow> smm_memory \<Rightarrow> bool" where
  "smm_answers (PoolRequest t Size') (PoolBlock Hdr t' n) \<longleftrightarrow> t' = t \<and> unat Size' + 40 \<le> n"
| "smm_answers (PageRequest ty t n Memory) (PageBlock A t' n') \<longleftrightarrow> t' = t \<and> n' = n"
| "smm_answers r b \<longleftrightarrow> False"

fun smm_owns :: "pool_state \<Rightarrow> smm_memory \<Rightarrow> bool" where
  "smm_owns s (PoolBlock Hdr t n) \<longleftrightarrow> block_at s Hdr t n"
| "smm_owns s (PageBlock A t n) \<longleftrightarrow> held s t (range_at A (4096 * unat n)) \<and> 4096 dvd unat A"

fun smm_space :: "smm_memory \<Rightarrow> byte_range" where
  "smm_space (PoolBlock Hdr t n) = range_at Hdr n"
| "smm_space (PageBlock A t n) = range_at A (4096 * unat n)"

definition free_descriptors :: "pool_state \<Rightarrow> nat" where
  "free_descriptors s = length (mFreeMemoryMapEntryList (pages s))"

lemma owns_held: "smm_owns s b \<Longrightarrow> \<exists>t. held s t (smm_space b)"
  by (cases b) (auto simp: block_at_def)

lemma owns_keeps:
  assumes "pool_ok s" "smm_owns s b" "keeps s s' q" "apart (smm_space b) q"
  shows "smm_owns s' b"
  using assms block_at_keeps[OF assms(1) _ assms(3)] keepsD(1)[OF assms(3)] by (cases b) auto

lemma owns_fresh:
  assumes "pool_ok s" "fresh s q" "keeps s s' q"
  shows "\<forall>c. smm_owns s c \<longrightarrow> apart (smm_space c) q \<and> smm_owns s' c"
  using assms owns_held owns_keeps unfolding fresh_def by blast

lemma smm_alloc_law:
  assumes ok: "pool_ok s" and f: "2 \<le> free_descriptors s" and v: "smm_valid r"
  shows "smm_alloc r s = Some (None, s) \<or>
    (\<exists>b s'. smm_alloc r s = Some (Some b, s') \<and> pool_ok s' \<and> free_descriptors s \<le> free_descriptors s' + 2 \<and>
       smm_owns s' b \<and> smm_answers r b \<and> (\<forall>c. smm_owns s c \<longrightarrow> apart (smm_space c) (smm_space b) \<and> smm_owns s' c))"
proof (cases r)
  case (PoolRequest t Size')
  show ?thesis
  proof (cases "t \<in> smm_memory_types")
    case False
    then show ?thesis by (simp add: PoolRequest SmmInternalAllocatePool_def smm_memory_types_def)
  next
    case t: True
    have "unat Size' + 4136 < 18446744073709551616" using v PoolRequest by simp
    from SmmInternalAllocatePool_gives[OF ok f[unfolded free_descriptors_def] t this] show ?thesis
    proof (elim disjE exE conjE)
      fix Hdr s' n assume r: "SmmInternalAllocatePool t Size' s = Some (EFI_SUCCESS, Hdr + header_size, s')"
        "given s s' Hdr t n" "unat Size' + 40 \<le> n"
      have g: "pool_ok s'" "block_at s' Hdr t n" "fresh s (range_at Hdr n)" "keeps s s' (range_at Hdr n)"
        "free_descriptors s \<le> free_descriptors s' + 2"
        using r(2) by (simp_all add: given_def free_descriptors_def)
      have "held s' t (range_at Hdr n)" using g(2) by (simp add: block_at_def)
      then have "unat (word_of_nat n :: u64) = n" using held_limit[OF g(1)] unat_plus(2)[of Hdr n] by blast
      then have "unat (HeaderSize (headers s' Hdr)) = n" using g(2) by (simp add: block_at_def)
      then have "smm_alloc r s = Some (Some (PoolBlock Hdr t n), s')" using r(1) by (simp add: PoolRequest)
      then show ?thesis using g(1,2,5) r(3) owns_fresh[OF ok g(3,4)] by (auto simp: PoolRequest)
    qed (simp add: PoolRequest)
  qed
next
  case (PageRequest ty t n M)
  have okp: "smm_ok (pages s)" using ok by (simp add: pool_ok_def)
  have v': "0 < n" "ty = AllocateAddress \<longrightarrow> unat M div 4096 + unat n < page_limit" using v PageRequest by simp_all
  from allocate_gives[OF okp f[unfolded free_descriptors_def] v', of t] show ?thesis
  proof (elim disjE exE conjE)
    fix a p assume r: "SmmInternalAllocatePages ty t n M (pages s) = Some (EFI_SUCCESS, page_start a, p)" "t \<in> smm_memory_types"
      "\<forall>q \<in> {a..<a + unat n}. page_type (pages s) q = Some EfiConventionalMemory" "changed t a (a + unat n) (pages s) p"
    note P = pages_given[OF ok v'(1) r(2-4)]
    have "smm_alloc r s = Some (Some (PageBlock (page_start a) t n), s\<lparr>pages := p\<rparr>)" using r(1) by (simp add: PageRequest)
    moreover have "free_descriptors s \<le> free_descriptors (s\<lparr>pages := p\<rparr>) + 2"
      using r(4) by (simp add: changed_def free_descriptors_def)
    ultimately show ?thesis using P(1,3,4) owns_fresh[OF ok P(5,6)] by (auto simp: PageRequest)
  qed (simp add: PageRequest)
qed

lemma smm_free_law:
  assumes ok: "pool_ok s" and f: "2 \<le> free_descriptors s" and o: "smm_owns s b"
  shows "\<exists>s'. smm_release b s = Some s' \<and> pool_ok s' \<and> free_descriptors s \<le> free_descriptors s' + 2 \<and>
    (\<forall>c. smm_owns s c \<and> apart (smm_space c) (smm_space b) \<longrightarrow> smm_owns s' c)"
proof -
  note f' = f[unfolded free_descriptors_def]
  have "\<exists>s'. smm_release b s = Some s' \<and> released s s' (smm_space b)"
  proof (cases b)
    case (PoolBlock Hdr t n)
    then show ?thesis using SmmInternalFreePool_releases[OF ok f', of Hdr t n] o by auto
  next
    case (PageBlock A t n)
    then show ?thesis using release_pages[OF ok f', of t A n] o by auto
  qed
  then show ?thesis using owns_keeps[OF ok] unfolding released_def free_descriptors_def by blast
qed

interpretation smm: range_service smm_alloc smm_release pool_ok free_descriptors smm_valid smm_answers smm_owns smm_space
  by unfold_locales (rule smm_alloc_law smm_free_law; assumption)+

end
