(* ===== verification/Smm_Pool_Fail.thy ===== *)
theory Smm_Pool_Fail
  imports Smm_Client
begin

text \<open>
  When an allocation of the pool fails, the size at which it wraps around, and that a released block is
  the next one of its size to be given.
\<close>

lemma no_room:
  assumes ok: "smm_ok s" and f: "2 \<le> length (mFreeMemoryMapEntryList s)" and n: "0 < n" and t: "t \<in> smm_memory_types"
    and r: "SmmInternalAllocatePages AllocateAnyPages t n 0 s = Some (st, A, s')" "st \<noteq> EFI_SUCCESS"
  shows "\<not> room s n (- 1) a"
  using allocate_highest[OF ok f n t, of AllocateAnyPages "- 1" 0] r by auto

text \<open>A request of an index fails only if the rings from that index are empty and no page is free.\<close>

lemma InternalAllocPoolByIndex_fails:
  assumes "pool_ok s" "2 \<le> length (mFreeMemoryMapEntryList (pages s))" "t \<in> smm_memory_types" "i \<le> MAX_POOL_INDEX"
    "InternalAllocPoolByIndex t i s = Some (st, x, s')" "st \<noteq> EFI_SUCCESS"
  shows "(\<forall>j. i \<le> j \<and> j < MAX_POOL_INDEX \<longrightarrow> pool_ring s t j = []) \<and> (\<forall>a. \<not> room (pages s) 1 (- 1) a)"
  using assms(4-6)
proof (induction k \<equiv> "MAX_POOL_INDEX - i" arbitrary: i st x s')
  case 0
  then have i: "i = MAX_POOL_INDEX" by simp
  obtain T where T: "UefiMemoryTypeToSmmPoolType t = Some T" using smm_pool_type_of[OF assms(3)] by metis
  have okp: "smm_ok (pages s)" using assms(1) by (simp add: pool_ok_def)
  have "(0 :: u64) < 1" by simp
  note N = no_room[OF okp assms(2) this assms(3)]
  show ?case
  proof (cases "SmmInternalAllocatePages AllocateAnyPages t 1 0 (pages s)")
    case None
    then show ?thesis using 0(3) by (subst (asm) InternalAllocPoolByIndex.simps) (simp add: i T one_pool_page)
  next
    case (Some r)
    obtain st' A p where r: "r = (st', A, p)" by (cases r) auto
    have "st' \<noteq> EFI_SUCCESS"
      using 0(3,4) Some r by (subst (asm) InternalAllocPoolByIndex.simps) (auto simp: i T one_pool_page split: if_splits)
    then show ?thesis using N Some r i by auto
  qed
next
  case (Suc k)
  then have i: "i < MAX_POOL_INDEX" by simp
  obtain T where T: "UefiMemoryTypeToSmmPoolType t = Some T" and ring: "\<And>s i. pool_ring s t i = mSmmPoolLists s T i"
    using smm_pool_type_of[OF assms(3)] by metis
  show ?case
  proof (cases "pool_ring s t i")
    case (Cons y ys)
    then have "InternalAllocPoolByIndex t i s = Some (EFI_SUCCESS, y, set_used y t (word_of_nat (block_size i)) (remove_first T i s))"
      using i by (subst InternalAllocPoolByIndex.simps) (simp add: T ring block_size_word)
    then show ?thesis using Suc.prems by simp
  next
    case Nil
    have "i + 1 \<le> MAX_POOL_INDEX" "k = MAX_POOL_INDEX - (i + 1)" using Suc.hyps(2) i by simp_all
    note IH = Suc.hyps(1)[OF this(2,1)]
    have "\<exists>st' x' s''. InternalAllocPoolByIndex t (i + 1) s = Some (st', x', s'') \<and> st' \<noteq> EFI_SUCCESS"
      using Suc.prems(2,3) i Nil
      by (subst (asm) InternalAllocPoolByIndex.simps)
        (auto simp: T ring split: bind_split_asm prod.splits if_splits)
    then obtain st' x' s'' where r: "InternalAllocPoolByIndex t (i + 1) s = Some (st', x', s'')" "st' \<noteq> EFI_SUCCESS" by blast
    have "pool_ring s t j = []" if "i \<le> j" "j < MAX_POOL_INDEX" for j
      using IH[OF r] Nil that by (cases "j = i") auto
    then show ?thesis using IH[OF r] by blast
  qed
qed

subsection \<open>Failure of the service\<close>

lemma SmmInternalAllocatePool_fails:
  assumes ok: "pool_ok s" and f: "2 \<le> length (mFreeMemoryMapEntryList (pages s))" and t: "t \<in> smm_memory_types"
    and sz: "unat Size' + 4136 < 18446744073709551616"
    and r: "SmmInternalAllocatePool t Size' s = Some (st, x, s')" "EFI_ERROR st"
  shows "if 2008 < unat Size' then \<forall>a n. unat n = (unat Size' + 4135) div 4096 \<longrightarrow> \<not> room (pages s) n (- 1) a
    else (\<forall>i < MAX_POOL_INDEX. unat Size' + 40 \<le> block_size i \<longrightarrow> pool_ring s t i = []) \<and>
      (\<forall>a. \<not> room (pages s) 1 (- 1) a)"
proof -
  have "unat Size' + 40 < 18446744073709551616" using sz by simp
  note W = size_words[OF this]
  have okp: "smm_ok (pages s)" using ok by (simp add: pool_ok_def)
  show ?thesis
  proof (cases "2008 < unat Size'")
    case True
    let ?k = "EFI_SIZE_TO_PAGES (Size' + POOL_OVERHEAD)"
    note K = large_request_pages[OF sz]
    obtain st' A p where a: "SmmInternalAllocatePages AllocateAnyPages t ?k 0 (pages s) = Some (st', A, p)" "EFI_ERROR st'"
      using r W(2) True large_pool_request[OF t, of Size' s] by (auto simp: Let_def split: bind_split_asm prod.splits if_splits)
    have "st' \<noteq> EFI_SUCCESS" using a(2) by auto
    from no_room[OF okp f K(2) t a(1) this] have "\<not> room (pages s) ?k (- 1) a" for a .
    moreover have "n = ?k" if "unat n = (unat Size' + 4135) div 4096" for n using that K(1) by (simp add: word_unat_eq_iff)
    ultimately show ?thesis using True by auto
  next
    case False
    then have "unat Size' + 40 \<le> 2048" by simp
    note R = size_index_range[OF this]
    obtain st' h s'' where a: "InternalAllocPoolByIndex t (size_index Size') s = Some (st', h, s'')" "EFI_ERROR st'"
      using r W(2) False small_pool_request[OF t, of Size' s] by (auto split: bind_split_asm prod.splits if_splits)
    have "st' \<noteq> EFI_SUCCESS" "size_index Size' \<le> MAX_POOL_INDEX" using a(2) R(1) by auto
    from InternalAllocPoolByIndex_fails[OF ok f t this(2) a(1) this(1)]
    have e: "\<And>j. size_index Size' \<le> j \<Longrightarrow> j < MAX_POOL_INDEX \<Longrightarrow> pool_ring s t j = []" "\<And>a. \<not> room (pages s) 1 (- 1) a" by blast+
    have "pool_ring s t i = []" if "i < MAX_POOL_INDEX" "unat Size' + 40 \<le> block_size i" for i
    proof -
      have "size_index Size' \<le> i"
      proof (rule ccontr)
        assume n: "\<not> size_index Size' \<le> i"
        then have "block_size i \<le> block_size (size_index Size' - 1)" by (simp add: block_size_def power_increasing)
        then show False using that(2) R(3) n by auto
      qed
      then show ?thesis using e(1) that(1) by blast
    qed
    then show ?thesis using False e(2) by simp
  qed
qed

subsection \<open>Reuse\<close>

lemma ring_head_given:
  assumes ok: "pool_ok s" and t: "t \<in> smm_memory_types" and i: "i < MAX_POOL_INDEX" and x: "pool_ring s t i = x # xs"
  shows "\<exists>s'. InternalAllocPoolByIndex t i s = Some (EFI_SUCCESS, x, s') \<and> given s s' x t (block_size i) \<and>
    pages s' = pages s \<and>
    (\<forall>u \<in> smm_memory_types. \<forall>j. pool_ring s' u j = (if u = t \<and> j = i then xs else pool_ring s u j))"
proof -
  obtain T where T: "UefiMemoryTypeToSmmPoolType t = Some T" and ring: "\<And>s i. pool_ring s t i = mSmmPoolLists s T i"
    using smm_pool_type_of[OF t] by metis
  let ?s = "set_used x t (word_of_nat (block_size i)) (remove_first T i s)"
  have "InternalAllocPoolByIndex t i s = Some (EFI_SUCCESS, x, ?s)"
    using i x by (subst InternalAllocPoolByIndex.simps) (simp add: T ring block_size_word)
  moreover have "given s ?s x t (block_size i)" using remove_first_given[OF ok t T i x] by blast
  moreover have "pool_ring ?s u j = (if u = t \<and> j = i then xs else pool_ring s u j)" if "u \<in> smm_memory_types" for u j
    using pool_ring_remove[OF t that T] x by (simp add: set_used_frame)
  moreover have "pages ?s = pages s" by (simp add: set_used_frame remove_first_def)
  ultimately show ?thesis by blast
qed

lemma released_block_again:
  assumes ok: "pool_ok s" and b: "block_at s Hdr t n" and i: "i < MAX_POOL_INDEX" "n = block_size i" "n dvd unat Hdr"
    and sz: "unat Size' + 40 \<le> n" "i = 0 \<or> block_size (i - 1) < unat Size' + 40"
  shows "\<exists>s' s''. SmmInternalFreePool (Hdr + header_size) s = Some (EFI_SUCCESS, s') \<and>
    SmmInternalAllocatePool t Size' s' = Some (EFI_SUCCESS, Hdr + header_size, s'') \<and> block_at s'' Hdr t n \<and>
    pool_ok s'' \<and> pages s'' = pages s \<and> pool_ring s'' = pool_ring s"
proof -
  have t: "t \<in> smm_memory_types" using b by (simp add: block_at_def held_def)
  have "\<not> word_of_nat n > MAX_POOL_SIZE" using block_size_check(3)[OF i(1)] i(2) by simp
  then have run: "SmmInternalFreePool (Hdr + header_size) s = InternalFreePoolByIndex Hdr s"
    using SmmInternalFreePool_block[OF ok b] by simp
  from release_block[OF ok b t i]
  obtain s' where r: "InternalFreePoolByIndex Hdr s = Some (EFI_SUCCESS, s')" "pool_ok s'" "pages s' = pages s"
    "\<And>u j. u \<in> smm_memory_types \<Longrightarrow> pool_ring s' u j = (if u = t \<and> j = i then Hdr # pool_ring s t i else pool_ring s u j)"
    unfolding released_def by blast
  have "pool_ring s' t i = Hdr # pool_ring s t i" using r(4) t by simp
  from ring_head_given[OF r(2) t i(1) this]
  obtain s'' where a: "InternalAllocPoolByIndex t i s' = Some (EFI_SUCCESS, Hdr, s'')" "given s' s'' Hdr t n" "pages s'' = pages s'"
    "\<And>u j. u \<in> smm_memory_types \<Longrightarrow> pool_ring s'' u j = (if u = t \<and> j = i then pool_ring s t i else pool_ring s' u j)"
    unfolding i(2) by blast
  have six: "size_index Size' = i" by (rule size_index_least[OF sz(1)[unfolded i(2)] i(1) sz(2)])
  have "n \<le> 2048" using i by (auto simp: block_size_def MAX_POOL_INDEX_def MAX_POOL_SHIFT_def MIN_POOL_SHIFT_def less_Suc_eq numeral_eq_Suc)
  then have small: "unat Size' \<le> 2008" using sz(1) by simp
  then have "\<not> Size' + POOL_OVERHEAD > MAX_POOL_SIZE" using size_words(2)[of Size'] by simp
  from small_pool_request[OF t this, of s'] have "SmmInternalAllocatePool t Size' s' = Some (EFI_SUCCESS, Hdr + header_size, s'')"
    unfolding six using a(1) by simp
  moreover have "pool_ring s'' u j = pool_ring s u j" for u j
    using a(4) r(4) other_ring by (cases "u \<in> smm_memory_types") auto
  then have "pool_ring s'' = pool_ring s" by (intro ext)
  ultimately show ?thesis using run r(1,3) a(2,3) by (auto simp: given_def)
qed

subsection \<open>Sizes that wrap around\<close>

lemma wrapped_size:
  assumes "18446744073709551616 < unat (Size' :: u64) + 40"
  shows "\<not> Size' + POOL_OVERHEAD > MAX_POOL_SIZE" "size_index Size' = 0"
proof -
  define k where "k = unat Size' + 40 - 18446744073709551616"
  have k: "0 < k" "k < 40" using assms unat_u64[of Size'] by (simp_all add: k_def)
  have "Size' = word_of_nat (unat Size')" by simp
  also have "\<dots> = word_of_nat (k + 18446744073709551576)" using assms by (simp add: k_def)
  also have "\<dots> = word_of_nat k - 40" by simp
  finally have s: "Size' + POOL_OVERHEAD = word_of_nat k"
    by (simp add: POOL_OVERHEAD_def header_size_def tail_size_def)
  have "unat (word_of_nat k :: u64) = k" using unat_plus(2)[of 0 k] k(2) by simp
  then show "\<not> Size' + POOL_OVERHEAD > MAX_POOL_SIZE"
    unfolding s using k(2) by (simp add: word_less_nat_alt MAX_POOL_SIZE_def MAX_POOL_SHIFT_def)
  have "list_all (\<lambda>k. unat (pool_index (drop_bit MIN_POOL_SHIFT (word_of_nat k + MIN_POOL_SIZE - 1))) = 0) [1..<40]"
    by code_simp
  then show "size_index Size' = 0" using k unfolding size_index_def s list_all_iff by simp
qed

lemma wrapped_request:
  assumes ok: "pool_ok s" and f: "2 \<le> length (mFreeMemoryMapEntryList (pages s))" and t: "t \<in> smm_memory_types"
    and r: "room (pages s) 1 (- 1) a" and sz: "18446744073709551616 < unat Size' + 40"
  shows "\<exists>Hdr s'. SmmInternalAllocatePool t Size' s = Some (EFI_SUCCESS, Hdr + header_size, s') \<and> given s s' Hdr t 64"
proof -
  note W = wrapped_size[OF sz]
  have b0: "block_size 0 = 64" by (simp add: block_size_def)
  note run = small_pool_request[OF t W(1), of s, unfolded W(2)]
  have "0 \<le> MAX_POOL_INDEX" by simp
  note G = InternalAllocPoolByIndex_gives[OF ok f t this] and F = InternalAllocPoolByIndex_fails[OF ok f t this]
  have "InternalAllocPoolByIndex t 0 s \<noteq> Some (EFI_OUT_OF_RESOURCES, 0, s)" using F r by fastforce
  then show ?thesis using G run b0 by auto
qed

end
