(* ===== verification/Smm_Pool_Init.thy ===== *)
theory Smm_Pool_Init
  imports Smm_Pool_Fail
begin

text \<open>
  SmmInitializeMemoryServices: the descriptors of SMRAM become free pages or, for those in use, pages of
  EfiRuntimeServicesData, and the rings are empty.
\<close>

type_synonym smram_range = "u64 \<times> u64 \<times> bool"

definition first_page :: "smram_range \<Rightarrow> nat" where
  "first_page r = (unat (fst r) + 4095) div 4096"

definition end_page :: "smram_range \<Rightarrow> nat" where
  "end_page r = (unat (fst r) + unat (fst (snd r))) div 4096"

definition in_use :: "smram_range \<Rightarrow> bool" where
  "in_use r = snd (snd r)"

definition range_type :: "bool \<Rightarrow> efi_memory_type" where
  "range_type used = (if used then EfiRuntimeServicesData else EfiConventionalMemory)"

text \<open>The descriptors have whole pages, and a page or more is between any two of them.\<close>

definition ranges_ok :: "smram_range list \<Rightarrow> bool" where
  "ranges_ok rs \<longleftrightarrow> (\<forall>r \<in> set rs. 0 < first_page r \<and> first_page r < end_page r \<and> end_page r < page_limit) \<and>
     sorted_wrt (\<lambda>r q. end_page r < first_page q \<or> end_page q < first_page r) rs"

definition covers :: "bool \<Rightarrow> smram_range list \<Rightarrow> nat \<Rightarrow> bool" where
  "covers used rs p \<longleftrightarrow> (\<exists>r \<in> set rs. in_use r = used \<and> first_page r \<le> p \<and> p < end_page r)"

lemma ranges_ok_Cons:
  "ranges_ok (r # rs) \<longleftrightarrow> 0 < first_page r \<and> first_page r < end_page r \<and> end_page r < page_limit \<and>
    (\<forall>q \<in> set rs. end_page r < first_page q \<or> end_page q < first_page r) \<and> ranges_ok rs"
  by (auto simp: ranges_ok_def)

lemma ranges_two:
  assumes "ranges_ok rs" "x \<in> set rs" "y \<in> set rs" "x \<noteq> y"
  shows "end_page x < first_page y \<or> end_page y < first_page x"
  using assms by (induction rs) (auto simp: ranges_ok_Cons)

lemma covers_Cons:
  "covers used (r # rs) p \<longleftrightarrow> (in_use r = used \<and> first_page r \<le> p \<and> p < end_page r) \<or> covers used rs p"
  by (auto simp: covers_def)

lemma add_regions_adds:
  assumes "smm_ok p" "2 * length (filter (\<lambda>r. in_use r = used) rs) \<le> length (mFreeMemoryMapEntryList p)" "ranges_ok rs"
    "\<forall>r \<in> set rs. in_use r = used \<longrightarrow> (\<forall>q \<in> {first_page r - 1..<end_page r}. page_type p q = None)"
  shows "\<exists>p'. add_regions used rs p = Some p' \<and> smm_ok p' \<and>
    length (mFreeMemoryMapEntryList p) \<le> length (mFreeMemoryMapEntryList p') + 2 * length (filter (\<lambda>r. in_use r = used) rs) \<and>
    page_type p' = (\<lambda>q. if covers used rs q then Some (range_type used) else page_type p q)"
  using assms
proof (induction rs arbitrary: p)
  case (Cons r rs)
  obtain A n st where r: "r = (A, n, st)" by (cases r) auto
  show ?case
  proof (cases "in_use r = used")
    case False
    then show ?thesis using Cons by (auto simp: r in_use_def covers_Cons ranges_ok_Cons)
  next
    case True
    let ?a = "first_page r" and ?b = "end_page r"
    have ab: "0 < ?a" "?a < ?b" "?b < page_limit" and ro: "ranges_ok rs"
      and gap: "\<forall>q \<in> set rs. ?b < first_page q \<or> end_page q < ?a"
      using Cons.prems(3) by (simp_all add: ranges_ok_Cons)
    have pg: "?a = (unat A + 4095) div 4096" "?b = (unat A + unat n) div 4096"
      by (simp_all add: r first_page_def end_page_def)
    have new: "\<forall>q \<in> {?a - 1..<?b}. page_type p q = None" using Cons.prems(4) True by simp
    then have new': "\<forall>q \<in> {?a..<?b}. page_type p q = None" by auto
    have "page_type p (?a - 1) \<noteq> Some (range_type used)" using new ab by simp
    then have sep: "(\<forall>q \<ge> ?b. page_type p q = None) \<or> page_type p (?a - 1) \<noteq> Some (range_type used)" ..
    have one: "1 \<le> length (mFreeMemoryMapEntryList p)" using Cons.prems(2) True by simp
    have ty: "range_type used = (if used then EfiRuntimeServicesData else EfiConventionalMemory)" by (rule range_type_def)
    obtain p1 where p1: "SmmAddMemoryRegion A n used p = Some p1" "changed (range_type used) ?a ?b p p1"
      using SmmAddMemoryRegion_adds[OF Cons.prems(1) one pg ab(1,2,3) new' ty sep] by blast
    have c: "smm_ok p1" "page_type p1 = set_pages (range_type used) ?a ?b (page_type p)"
      "length (mFreeMemoryMapEntryList p) \<le> length (mFreeMemoryMapEntryList p1) + 2"
      using p1(2) by (simp_all add: changed_def)
    have "2 * length (filter (\<lambda>r. in_use r = used) rs) \<le> length (mFreeMemoryMapEntryList p1)"
      using c(3) Cons.prems(2) True by simp
    moreover have "\<forall>q \<in> set rs. in_use q = used \<longrightarrow> (\<forall>k \<in> {first_page q - 1..<end_page q}. page_type p1 k = None)"
    proof (intro ballI impI)
      fix q k assume q: "q \<in> set rs" "in_use q = used" "k \<in> {first_page q - 1..<end_page q}"
      have "\<not> (?a \<le> k \<and> k < ?b)" using gap q(1,3) by fastforce
      then show "page_type p1 k = None" using Cons.prems(4) q c(2) by (auto simp: set_pages_def)
    qed
    ultimately obtain p2 where p2: "add_regions used rs p1 = Some p2" "smm_ok p2"
      "length (mFreeMemoryMapEntryList p1) \<le> length (mFreeMemoryMapEntryList p2) + 2 * length (filter (\<lambda>r. in_use r = used) rs)"
      "page_type p2 = (\<lambda>q. if covers used rs q then Some (range_type used) else page_type p1 q)"
      using Cons.IH[OF c(1) _ ro] by blast
    have "add_regions used (r # rs) p = Some p2" using p1(1) p2(1) True by (simp add: r in_use_def)
    moreover have "page_type p2 = (\<lambda>q. if covers used (r # rs) q then Some (range_type used) else page_type p q)"
      unfolding p2(4) c(2) using True by (auto simp: set_pages_def covers_Cons fun_eq_iff)
    ultimately show ?thesis using p2(2,3) c(3) True by auto
  qed
qed (simp add: covers_def)

lemma add_regions_skip:
  "\<forall>u \<in> set us. in_use u \<noteq> used \<Longrightarrow> add_regions used (us @ rs) p = add_regions used rs p"
  by (induction us) (auto simp: in_use_def)

lemma SmmInitializeMemoryServices_pool:
  assumes us: "\<forall>u \<in> set us. in_use u" and r0: "\<not> in_use r0" "first_page r0 + 1 < end_page r0"
    and ok: "ranges_ok (us @ r0 # rs)" and n: "length (us @ rs) \<le> 41" and s0: "pages s0 = page_init"
  shows "\<exists>s. SmmInitializeMemoryServices (us @ r0 # rs) s0 = Some s \<and> pool_ok s \<and> free_blocks s = {} \<and>
    82 \<le> free_descriptors s + 2 * length (us @ rs) \<and>
    page_type (pages s) = (\<lambda>p. if p = end_page r0 - 1 \<or> covers True (us @ rs) p then Some EfiRuntimeServicesData
      else if covers False (r0 # rs) p then Some EfiConventionalMemory else None)"
proof -
  obtain A k st where r: "r0 = (A, k, st)" by (cases r0) auto
  let ?a = "first_page r0" and ?b = "end_page r0"
  have pg: "?a = (unat A + 4095) div 4096" "?b = (unat A + unat k) div 4096" by (simp_all add: r first_page_def end_page_def)
  have o0: "0 < ?a" "?b < page_limit" using ok by (auto simp: ranges_ok_def)
  have ors: "ranges_ok rs" "ranges_ok (us @ r0 # rs)" using ok by (auto simp: ranges_ok_def sorted_wrt_append)
  have gap: "?b < first_page q \<or> end_page q < ?a" if "q \<in> set (us @ rs)" for q
    using ok that by (auto simp: ranges_ok_def sorted_wrt_append)
  from SmmAddMemoryRegion_first[OF pg o0(1) r0(2) o0(2)]
  obtain p0 where p0: "SmmAddMemoryRegion A k False page_init = Some p0" "smm_ok p0" "82 \<le> length (mFreeMemoryMapEntryList p0)"
    "map_runs p0 = [(EfiConventionalMemory, ?a, ?b - 1), (EfiRuntimeServicesData, ?b - 1, ?b)]" by blast
  have t0: "page_type p0 q = (if q = ?b - 1 then Some EfiRuntimeServicesData
      else if ?a \<le> q \<and> q < ?b then Some EfiConventionalMemory else None)" for q
    using p0(4) r0(2) by (auto simp: page_type_def)
  let ?f = "length (filter (\<lambda>r. in_use r = False) rs)" and ?u = "length (filter (\<lambda>r. in_use r = True) (us @ r0 # rs))"
  have fu: "?f + ?u = length (us @ rs)"
  proof -
    have "filter in_use us = us" using us by (simp add: filter_id_conv)
    moreover have "length (filter in_use rs) + length (filter (\<lambda>r. \<not> in_use r) rs) = length rs"
      by (rule sum_length_filter_compl)
    ultimately show ?thesis using r0(1) by simp
  qed
  have "page_type p0 q = None" if "x \<in> set (us @ rs)" "q \<in> {first_page x - 1..<end_page x}" for x q
    using gap[OF that(1)] that(2) r0(2) by (auto simp: t0)
  then have free: "\<forall>x \<in> set rs. in_use x = False \<longrightarrow> (\<forall>q \<in> {first_page x - 1..<end_page x}. page_type p0 q = None)"
    and used0: "\<forall>x \<in> set (us @ rs). \<forall>q \<in> {first_page x - 1..<end_page x}. page_type p0 q = None"
    unfolding set_append by blast+
  have "2 * ?f \<le> length (mFreeMemoryMapEntryList p0)" using p0(3) n fu by simp
  from add_regions_adds[OF p0(2) this ors(1) free]
  obtain p1 where p1: "add_regions False rs p0 = Some p1" "smm_ok p1"
    "length (mFreeMemoryMapEntryList p0) \<le> length (mFreeMemoryMapEntryList p1) + 2 * ?f"
    "page_type p1 = (\<lambda>q. if covers False rs q then Some (range_type False) else page_type p0 q)" by blast
  have "\<forall>x \<in> set (us @ r0 # rs). in_use x = True \<longrightarrow> (\<forall>q \<in> {first_page x - 1..<end_page x}. page_type p1 q = None)"
  proof (intro ballI impI)
    fix x q assume x: "x \<in> set (us @ r0 # rs)" "in_use x = True" "q \<in> {first_page x - 1..<end_page x}"
    have x': "x \<in> set (us @ rs)" using x(1,2) r0(1) by auto
    have "\<not> covers False rs q"
    proof
      assume "covers False rs q"
      then obtain y where y: "y \<in> set rs" "\<not> in_use y" "first_page y \<le> q" "q < end_page y" by (auto simp: covers_def)
      have "x \<noteq> y" "y \<in> set (us @ r0 # rs)" using x(2) y(1,2) by auto
      then have "end_page x < first_page y \<or> end_page y < first_page x" using ranges_two[OF ok x(1)] by blast
      then show False using y(3,4) x(3) by auto
    qed
    then show "page_type p1 q = None" using used0 x' x(3) unfolding p1(4) by simp
  qed
  moreover have "2 * ?u \<le> length (mFreeMemoryMapEntryList p1)" using p0(3) p1(3) n fu by simp
  ultimately obtain p2 where p2: "add_regions True (us @ r0 # rs) p1 = Some p2" "smm_ok p2"
    "length (mFreeMemoryMapEntryList p1) \<le> length (mFreeMemoryMapEntryList p2) + 2 * ?u"
    "page_type p2 = (\<lambda>q. if covers True (us @ r0 # rs) q then Some (range_type True) else page_type p1 q)"
    using add_regions_adds[OF p1(2) _ ors(2), of True] by blast
  have "add_regions False (us @ r0 # rs) page_init = Some p1"
    using add_regions_skip[of us False] us p0(1) p1(1) r0(1) by (simp add: r in_use_def)
  then have run: "SmmInitializeMemoryServices (us @ r0 # rs) s0 = Some (s0\<lparr>mSmmPoolLists := (\<lambda>T i. []), pages := p2\<rparr>)"
    using p2(1) s0 by (simp add: SmmInitializeMemoryServices_def Let_def)
  let ?s = "s0\<lparr>mSmmPoolLists := (\<lambda>T i. []), pages := p2\<rparr>"
  have rings: "pool_ring ?s t i = []" for t i by (simp add: pool_ring_def split: option.splits)
  then have fb: "free_blocks ?s = {}" by (simp add: free_blocks_def)
  then have "pool_ok ?s" using p2(2) rings by (simp add: pool_ok_def)
  moreover have "82 \<le> free_descriptors ?s + 2 * length (us @ rs)"
    using p0(3) p1(3) p2(3) fu by (simp add: free_descriptors_def)
  moreover have "page_type (pages ?s) = (\<lambda>p. if p = ?b - 1 \<or> covers True (us @ rs) p then Some EfiRuntimeServicesData
      else if covers False (r0 # rs) p then Some EfiConventionalMemory else None)"
  proof (intro ext)
    fix q
    have "\<not> covers False rs (?b - 1)" using gap r0(2) unfolding covers_def by fastforce
    moreover have "covers True (us @ r0 # rs) q = covers True (us @ rs) q" using r0(1) by (auto simp: covers_def)
    ultimately show "page_type (pages ?s) q = (if q = ?b - 1 \<or> covers True (us @ rs) q then Some EfiRuntimeServicesData
        else if covers False (r0 # rs) q then Some EfiConventionalMemory else None)"
      using r0 by (auto simp: p2(4) p1(4) t0 range_type_def covers_Cons)
  qed
  ultimately show ?thesis using run fb by blast
qed

end
