(* ===== verification/Smm_Pool_Spec.thy ===== *)
theory Smm_Pool_Spec
  imports Smm_Pool_Init
begin

text \<open>
  What the pool allocator of the SMM core promises: the state after initialization, what an allocation
  gives and when it fails, that a released block is reused, that clients of the page and pool services
  never share memory, and the sizes for which an allocation is too small.
\<close>

text \<open>SMRAM of sixteen pages, the last of which holds the descriptors of the memory map.\<close>

definition pool_init :: pool_state where
  "pool_init = \<lparr>pages = page_init, mSmmPoolLists = (\<lambda>T i. []),
     headers = (\<lambda>x. \<lparr>Signature = 0, Available = True, HeaderType = EfiReservedMemoryType, HeaderSize = 0\<rparr>),
     tails = (\<lambda>x. \<lparr>TailSignature = 0, TailSize = 0\<rparr>)\<rparr>"

definition small_pool :: "pool_state option" where
  "small_pool = SmmInitializeMemoryServices [(0x100000, 0x10000, False)] pool_init"

lemma small_pool_ok:
  obtains s where "small_pool = Some s" "pool_ok s" "82 \<le> free_descriptors s" "room (pages s) 1 (- 1) 0x100"
proof -
  let ?r = "(0x100000, 0x10000, False) :: smram_range"
  have r: "\<not> in_use ?r" "first_page ?r = 0x100" "end_page ?r = 0x110"
    by (simp_all add: in_use_def first_page_def end_page_def)
  have "ranges_ok ([] @ ?r # [])" using r by (simp add: ranges_ok_def page_limit_eq)
  then obtain s where s: "SmmInitializeMemoryServices [?r] pool_init = Some s" "pool_ok s" "82 \<le> free_descriptors s"
    "page_type (pages s) = (\<lambda>p. if p = end_page ?r - 1 \<or> covers True [] p then Some EfiRuntimeServicesData
      else if covers False [?r] p then Some EfiConventionalMemory else None)"
    using SmmInitializeMemoryServices_pool[of "[]" ?r "[]" pool_init] r by (auto simp: pool_init_def)
  have "room (pages s) 1 (- 1) 0x100" using r by (auto simp: s(4) room_def covers_def page_above_max page_limit_eq)
  then show ?thesis using that s(1-3) by (simp add: small_pool_def)
qed

lemma small_pool_block:
  assumes t: "t \<in> smm_memory_types"
  obtains s Hdr s' where "small_pool = Some s" "SmmInternalAllocatePool t 100 s = Some (EFI_SUCCESS, Hdr + header_size, s')"
    "pool_ok s'" "80 \<le> free_descriptors s'" "block_at s' Hdr t 256" "256 dvd unat Hdr"
proof -
  obtain s where s: "small_pool = Some s" "pool_ok s" "82 \<le> free_descriptors s" "room (pages s) 1 (- 1) 0x100"
    by (rule small_pool_ok)
  have b: "block_size 2 = 256" "block_size (2 - 1) = 128" by (simp_all add: block_size_def)
  have i: "2 < MAX_POOL_INDEX" by (simp add: MAX_POOL_INDEX_def MAX_POOL_SHIFT_def MIN_POOL_SHIFT_def)
  have ix: "size_index 100 = 2" by (rule size_index_least) (simp_all add: block_size_def i)
  have f: "2 \<le> length (mFreeMemoryMapEntryList (pages s))" using s(3) by (simp add: free_descriptors_def)
  have le: "2 \<le> MAX_POOL_INDEX" using i by simp
  have "InternalAllocPoolByIndex t 2 s \<noteq> Some (EFI_OUT_OF_RESOURCES, 0, s)"
    using InternalAllocPoolByIndex_fails[OF s(2) f t le] s(4) by fastforce
  then obtain Hdr s' where r: "InternalAllocPoolByIndex t 2 s = Some (EFI_SUCCESS, Hdr, s')" "given s s' Hdr t 256" "256 dvd unat Hdr"
    using InternalAllocPoolByIndex_gives[OF s(2) f t le] unfolding b by blast
  have "\<not> (100 :: u64) + POOL_OVERHEAD > MAX_POOL_SIZE" using size_words(2)[of 100] by simp
  from small_pool_request[OF t this, of s]
  have "SmmInternalAllocatePool t 100 s = Some (EFI_SUCCESS, Hdr + header_size, s')" unfolding ix using r(1) by simp
  then show ?thesis using that s(1,3) r(2,3) by (simp add: given_def free_descriptors_def)
qed

section \<open>Properties\<close>

text \<open>C34: Initialization from ranges of SMRAM that are a page or more apart establishes the invariant of
  both allocators with empty rings: whole free pages are free, ranges in use and the last page of the first free
  range, which holds the descriptors, are EfiRuntimeServicesData, and nothing else is mapped.\<close>

theorem SmmInitializeMemoryServices_contract:
  assumes "\<forall>u \<in> set us. in_use u" "\<not> in_use r" "first_page r + 1 < end_page r" "ranges_ok (us @ r # rs)"
    "length (us @ rs) \<le> 41" "pages s0 = page_init"
  shows "\<exists>s. SmmInitializeMemoryServices (us @ r # rs) s0 = Some s \<and> pool_ok s \<and> free_blocks s = {} \<and>
    82 \<le> free_descriptors s + 2 * length (us @ rs) \<and>
    page_type (pages s) = (\<lambda>p. if p = end_page r - 1 \<or> covers True (us @ rs) p then Some EfiRuntimeServicesData
      else if covers False (r # rs) p then Some EfiConventionalMemory else None)"
  by (rule SmmInitializeMemoryServices_pool[OF assms])

theorem SmmInitializeMemoryServices_contract_witness:
  "\<exists>s. SmmInitializeMemoryServices [(0x80000, 0x2000, True), (0x100000, 0x10000, False), (0x200800, 0x1000800, False)] pool_init =
      Some s \<and> pool_ok s \<and> page_type (pages s) 0x81 = Some EfiRuntimeServicesData \<and>
    page_type (pages s) 0x200 = None \<and> page_type (pages s) 0x1200 = Some EfiConventionalMemory"
proof -
  let ?u = "(0x80000, 0x2000, True) :: smram_range" and ?r = "(0x100000, 0x10000, False) :: smram_range"
    and ?q = "(0x200800, 0x1000800, False) :: smram_range"
  have v: "in_use ?u" "first_page ?u = 0x80" "end_page ?u = 0x82" "\<not> in_use ?r" "first_page ?r = 0x100" "end_page ?r = 0x110"
    "\<not> in_use ?q" "first_page ?q = 0x201" "end_page ?q = 0x1201"
    by (simp_all add: in_use_def first_page_def end_page_def)
  have "ranges_ok ([?u] @ ?r # [?q])" using v by (simp add: ranges_ok_def page_limit_eq)
  then show ?thesis
    using SmmInitializeMemoryServices_contract[of "[?u]" ?r "[?q]" pool_init] v
    by (auto simp: pool_init_def covers_def)
qed

text \<open>C12: SmmInternalAllocatePool returns a buffer behind a header in a block that holds header, size and
  tail, that overlaps nothing a client holds and leaves all of that as it is, headers and tails included;
  it fails, changing nothing, only if no block of a large enough ring and no pages are left.\<close>

theorem SmmInternalAllocatePool_contract:
  assumes "pool_ok s" "2 \<le> free_descriptors s" "t \<in> smm_memory_types" "unat Size' + 4136 < 18446744073709551616"
  shows "(\<exists>Hdr s' n. SmmInternalAllocatePool t Size' s = Some (EFI_SUCCESS, Hdr + header_size, s') \<and>
      pool_ok s' \<and> block_at s' Hdr t n \<and> unat Size' + 40 \<le> n \<and>
      (\<forall>u r. held s u r \<longrightarrow> apart r (range_at Hdr n) \<and> held s' u r \<and>
         (\<forall>y. fst r \<le> unat y \<and> unat y < snd r \<longrightarrow> headers s' y = headers s y \<and> tails s' y = tails s y))) \<or>
    SmmInternalAllocatePool t Size' s = Some (EFI_OUT_OF_RESOURCES, 0, s) \<and>
      (if 2008 < unat Size' then \<forall>a n. unat n = (unat Size' + 4135) div 4096 \<longrightarrow> \<not> room (pages s) n (- 1) a
       else (\<forall>i < MAX_POOL_INDEX. unat Size' + 40 \<le> block_size i \<longrightarrow> pool_ring s t i = []) \<and>
         (\<forall>a. \<not> room (pages s) 1 (- 1) a))"
proof -
  note f = assms(2)[unfolded free_descriptors_def]
  from SmmInternalAllocatePool_gives[OF assms(1) f assms(3,4)] show ?thesis
  proof (elim disjE exE conjE)
    assume r: "SmmInternalAllocatePool t Size' s = Some (EFI_OUT_OF_RESOURCES, 0, s)"
    from SmmInternalAllocatePool_fails[OF assms(1) f assms(3,4) r] show ?thesis using r by simp
  next
    fix Hdr s' n assume r: "SmmInternalAllocatePool t Size' s = Some (EFI_SUCCESS, Hdr + header_size, s')" "given s s' Hdr t n"
      "unat Size' + 40 \<le> n"
    have g: "pool_ok s'" "block_at s' Hdr t n" "\<forall>u r. held s u r \<longrightarrow> apart r (range_at Hdr n)"
      "keeps s s' (range_at Hdr n)" using r(2) by (simp_all add: given_def fresh_def)
    then show ?thesis using r(1,3) unfolding keeps_def by blast
  qed
qed

theorem SmmInternalAllocatePool_contract_witness:
  "\<exists>s Hdr s' n. small_pool = Some s \<and>
    SmmInternalAllocatePool EfiRuntimeServicesData 100 s = Some (EFI_SUCCESS, Hdr + header_size, s') \<and>
    block_at s' Hdr EfiRuntimeServicesData n \<and> 140 \<le> n"
proof -
  obtain s where s: "small_pool = Some s" "pool_ok s" "82 \<le> free_descriptors s" "room (pages s) 1 (- 1) 0x100"
    by (rule small_pool_ok)
  have "EfiRuntimeServicesData \<in> smm_memory_types" by (simp add: smm_memory_types_def)
  with SmmInternalAllocatePool_contract[of s EfiRuntimeServicesData 100] s show ?thesis by auto
qed

text \<open>C32: SmmInternalFreePool accepts the buffer of any block that is in use, when two free descriptors are
  left: no ASSERT fires and the invariant holds.  A block of at most 2048 bytes goes to the head of the ring
  of its type and size, every other ring and the memory map stay; the pages of a larger one become
  EfiConventionalMemory, every other page keeps its type and the rings stay (returned).  No part of the block
  is held any more, and everything else a client holds stays as it is, headers and tails included.\<close>

theorem SmmInternalFreePool_contract:
  assumes "pool_ok s" "2 \<le> free_descriptors s" "block_at s Hdr t n"
  shows "\<exists>s'. SmmInternalFreePool (Hdr + header_size) s = Some (EFI_SUCCESS, s') \<and> pool_ok s' \<and>
    returned s s' Hdr t n \<and>
    (\<forall>u x y. x < y \<and> unat Hdr \<le> x \<and> y \<le> unat Hdr + n \<longrightarrow> \<not> held s' u (x, y)) \<and>
    (\<forall>u r. held s u r \<and> apart r (range_at Hdr n) \<longrightarrow> held s' u r \<and>
      (\<forall>y. fst r \<le> unat y \<and> unat y < snd r \<longrightarrow> headers s' y = headers s y \<and> tails s' y = tails s y))"
proof -
  obtain s' where s': "SmmInternalFreePool (Hdr + header_size) s = Some (EFI_SUCCESS, s')"
    "released s s' (range_at Hdr n)" "returned s s' Hdr t n"
    using SmmInternalFreePool_returns[OF assms(1) _ assms(3)] assms(2) unfolding free_descriptors_def by blast
  have "\<not> held s' u (x, y)" if "x < y" "unat Hdr \<le> x" "y \<le> unat Hdr + n" for u x y
    by (rule returned_not_held[OF assms(3) s'(3) refl that])
  then show ?thesis using s' unfolding released_def keeps_def by blast
qed

theorem SmmInternalFreePool_contract_witness:
  "\<exists>s Buffer s' s''. small_pool = Some s \<and> SmmInternalAllocatePool EfiRuntimeServicesCode 100 s = Some (EFI_SUCCESS, Buffer, s') \<and>
    SmmInternalFreePool Buffer s' = Some (EFI_SUCCESS, s'') \<and> pool_ok s'' \<and> pages s'' = pages s' \<and>
    pool_ring s'' EfiRuntimeServicesCode 2 = (Buffer - header_size) # pool_ring s' EfiRuntimeServicesCode 2"
proof -
  have "EfiRuntimeServicesCode \<in> smm_memory_types" by (simp add: smm_memory_types_def)
  then obtain s Hdr s' where s: "small_pool = Some s"
    "SmmInternalAllocatePool EfiRuntimeServicesCode 100 s = Some (EFI_SUCCESS, Hdr + header_size, s')"
    "pool_ok s'" "80 \<le> free_descriptors s'" "block_at s' Hdr EfiRuntimeServicesCode 256" "256 dvd unat Hdr"
    by (rule small_pool_block)
  have "2 \<le> free_descriptors s'" using s(4) by simp
  from SmmInternalFreePool_contract[OF s(3) this s(5)] obtain s'' where
    r: "SmmInternalFreePool (Hdr + header_size) s' = Some (EFI_SUCCESS, s'')" "pool_ok s''"
      "returned s' s'' Hdr EfiRuntimeServicesCode 256" by blast
  have two: "i = 2" if "256 = block_size i" for i
    using that power_inject_exp[of "2 :: nat" i 2] by (simp add: block_size_def)
  have "pages s'' = pages s'" "pool_ring s'' EfiRuntimeServicesCode 2 = Hdr # pool_ring s' EfiRuntimeServicesCode 2"
    using r(3) two by (auto simp: returned_def)
  then show ?thesis using s(1,2) r(1,2) by (intro exI[of _ s] exI[of _ "Hdr + header_size"] exI[of _ s'] exI[of _ s'']) simp
qed

text \<open>C33: A released block of the pool is the next one given for a size of its class, and releasing and
  allocating it again restores the rings and the pages.\<close>

theorem pool_release_then_allocate:
  assumes "pool_ok s" "block_at s Hdr t n" "i < MAX_POOL_INDEX" "n = block_size i" "n dvd unat Hdr"
    "unat Size' + 40 \<le> n" "i = 0 \<or> block_size (i - 1) < unat Size' + 40"
  shows "\<exists>s' s''. SmmInternalFreePool (Hdr + header_size) s = Some (EFI_SUCCESS, s') \<and>
    SmmInternalAllocatePool t Size' s' = Some (EFI_SUCCESS, Hdr + header_size, s'') \<and> block_at s'' Hdr t n \<and>
    pool_ok s'' \<and> pages s'' = pages s \<and> pool_ring s'' = pool_ring s"
  by (rule released_block_again[OF assms])

theorem pool_release_then_allocate_witness:
  "\<exists>s Buffer s1 s2 s3. small_pool = Some s \<and> SmmInternalAllocatePool EfiRuntimeServicesData 100 s = Some (EFI_SUCCESS, Buffer, s1) \<and>
    SmmInternalFreePool Buffer s1 = Some (EFI_SUCCESS, s2) \<and>
    SmmInternalAllocatePool EfiRuntimeServicesData 200 s2 = Some (EFI_SUCCESS, Buffer, s3)"
proof -
  have "EfiRuntimeServicesData \<in> smm_memory_types" by (simp add: smm_memory_types_def)
  then obtain s Hdr s' where s: "small_pool = Some s"
    "SmmInternalAllocatePool EfiRuntimeServicesData 100 s = Some (EFI_SUCCESS, Hdr + header_size, s')"
    "pool_ok s'" "80 \<le> free_descriptors s'" "block_at s' Hdr EfiRuntimeServicesData 256" "256 dvd unat Hdr"
    by (rule small_pool_block)
  have i: "2 < MAX_POOL_INDEX" by (simp add: MAX_POOL_INDEX_def MAX_POOL_SHIFT_def MIN_POOL_SHIFT_def)
  have b: "256 = block_size 2" "unat (200 :: u64) + 40 \<le> 256" "(2 :: nat) = 0 \<or> block_size (2 - 1) < unat (200 :: u64) + 40"
    by (simp_all add: block_size_def)
  from pool_release_then_allocate[OF s(3,5) i b(1) s(6) b(2,3)] show ?thesis using s(1,2) by blast
qed

text \<open>C9: A client makes a sequence of calls, allocations of pages and of pool blocks and releases of what it
  holds, in any order, from a consistent state that has two free descriptors for each of the calls (after
  initialization, for 41 of them).  Allocations ask for at least one page, at a fixed address only for pages that end
  below 2^52 - 1, and for pool sizes that do not wrap around with the overhead.  Then every call returns
  without an ASSERT, the state is consistent again, and all that the client holds at the end lies apart, is of
  the type and size that was asked for, and each block of the pool has its header and tail.\<close>

theorem smm_clients_apart:
  assumes "pool_ok s" "2 * length cs \<le> free_descriptors s" "\<forall>r. Allocate r \<in> set cs \<longrightarrow> smm_valid r"
  shows "\<exists>live s'. run_script smm_alloc smm_release cs [] s = Some (live, s') \<and> pool_ok s' \<and>
    (\<forall>x \<in> set live. smm_owns s' (snd x) \<and> smm_answers (fst x) (snd x)) \<and>
    sorted_wrt (\<lambda>x y. apart (smm_space (snd x)) (smm_space (snd y))) live"
proof -
  have "smm.holds [] s" by (simp add: smm.holds_def)
  from smm.script_runs[OF assms(1) this assms(2,3)] show ?thesis by (simp only: smm.holds_def) blast
qed

theorem smm_clients_apart_witness:
  "\<exists>s live s'. small_pool = Some s \<and> pool_ok s' \<and>
    run_script smm_alloc smm_release [Allocate (PoolRequest EfiRuntimeServicesCode 100),
      Allocate (PageRequest AllocateAnyPages EfiRuntimeServicesData 2 0), Allocate (PoolRequest EfiRuntimeServicesData 3000),
      Release 2, Release 0, Allocate (PoolRequest EfiRuntimeServicesCode 200)] [] s = Some (live, s')"
proof -
  obtain s where s: "small_pool = Some s" "pool_ok s" "82 \<le> free_descriptors s" by (rule small_pool_ok)
  show ?thesis
    using smm_clients_apart[of s "[Allocate (PoolRequest EfiRuntimeServicesCode 100),
      Allocate (PageRequest AllocateAnyPages EfiRuntimeServicesData 2 0), Allocate (PoolRequest EfiRuntimeServicesData 3000),
      Release 2, Release 0, Allocate (PoolRequest EfiRuntimeServicesCode 200)]"] s
    by (auto simp del: run_script.simps)
qed

text \<open>The overhead is added to the size without a check: for the 39 sizes from 2^64 - 39 the sum
  wraps around, and the call succeeds with a block of 64 bytes.\<close>

theorem SmmInternalAllocatePool_wraps:
  assumes "pool_ok s" "2 \<le> free_descriptors s" "t \<in> smm_memory_types" "room (pages s) 1 (- 1) a"
    "18446744073709551616 < unat Size' + 40"
  shows "\<exists>Hdr s'. SmmInternalAllocatePool t Size' s = Some (EFI_SUCCESS, Hdr + header_size, s') \<and>
    pool_ok s' \<and> block_at s' Hdr t 64"
  using wrapped_request[OF assms(1) _ assms(3-5)] assms(2) unfolding given_def free_descriptors_def by blast

theorem SmmInternalAllocatePool_wraps_witness:
  "\<exists>s Hdr s'. small_pool = Some s \<and>
    SmmInternalAllocatePool EfiRuntimeServicesData 0xFFFFFFFFFFFFFFE0 s = Some (EFI_SUCCESS, Hdr + header_size, s') \<and>
    block_at s' Hdr EfiRuntimeServicesData 64"
proof -
  obtain s where s: "small_pool = Some s" "pool_ok s" "82 \<le> free_descriptors s" "room (pages s) 1 (- 1) 0x100"
    by (rule small_pool_ok)
  have "EfiRuntimeServicesData \<in> smm_memory_types" by (simp add: smm_memory_types_def)
  moreover have "18446744073709551616 < unat (0xFFFFFFFFFFFFFFE0 :: u64) + 40" by simp
  moreover have "2 \<le> free_descriptors s" using s(3) by simp
  ultimately show ?thesis using SmmInternalAllocatePool_wraps[OF s(2) _ _ s(4)] s(1) by blast
qed

end
