(* ===== verification/Ppi_Db.thy ===== *)
theory Ppi_Db
  imports Efi_Prelude
begin

text \<open>
  The PPI database of the PEI core, MdeModulePkg/Core/Pei/Ppi/Ppi.c.

  PpiListPtrs is one array for both kinds of descriptors: PPIs from the bottom up to PpiListEnd,
  notifications from the top down to NotifyListEnd, those of dispatch level above DispatchListEnd.  An
  entry is the address of a descriptor; the two descriptor structures have the same layout and are one
  record, whose last field is the interface or the notification function.  descriptors and guids are
  the descriptors and the GUIDs in memory, by their addresses, and 0 is NULL.

  The notification functions are the argument notify, given the function, the descriptor and the
  interface: it may change the database, through the services or not, and what is outside (world).
  An index out of the array is None, as is a loop that does not end and a notification that does not
  return.  The indices of the code are INTN and are integers here; ConvertPpiPointers counts in UINT8.
\<close>

unbundle bit_operations_syntax

type_synonym guid_value = "u32 \<times> u32 \<times> u32 \<times> u32"

record ppi_descriptor =
  Flags :: u64
  Guid :: u64
  Ppi :: u64

record 'w ppi_database =
  PpiListEnd :: int
  NotifyListEnd :: int
  DispatchListEnd :: int
  LastDispatchedInstall :: int
  LastDispatchedNotify :: int
  PpiListPtrs :: "u64 list"
  descriptors :: "u64 \<Rightarrow> ppi_descriptor"
  guids :: "u64 \<Rightarrow> guid_value"
  world :: 'w

type_synonym 'w notify_function = "u64 \<Rightarrow> u64 \<Rightarrow> u64 \<Rightarrow> 'w ppi_database \<Rightarrow> 'w ppi_database option"

definition EFI_PEI_PPI_DESCRIPTOR_PPI :: u64 where "EFI_PEI_PPI_DESCRIPTOR_PPI = 0x10"
definition EFI_PEI_PPI_DESCRIPTOR_NOTIFY_CALLBACK :: u64 where "EFI_PEI_PPI_DESCRIPTOR_NOTIFY_CALLBACK = 0x20"
definition EFI_PEI_PPI_DESCRIPTOR_NOTIFY_DISPATCH :: u64 where "EFI_PEI_PPI_DESCRIPTOR_NOTIFY_DISPATCH = 0x40"
definition EFI_PEI_PPI_DESCRIPTOR_NOTIFY_TYPES :: u64 where "EFI_PEI_PPI_DESCRIPTOR_NOTIFY_TYPES = 0x60"
definition EFI_PEI_PPI_DESCRIPTOR_TERMINATE_LIST :: u64 where "EFI_PEI_PPI_DESCRIPTOR_TERMINATE_LIST = 0x80000000"

text \<open>sizeof (EFI_PEI_PPI_DESCRIPTOR) with the UINTN and the pointers of X64.\<close>

definition descriptor_size :: u64 where "descriptor_size = 24"

definition entry_at :: "'w ppi_database \<Rightarrow> int \<Rightarrow> u64 option" where
  "entry_at s i = (if 0 \<le> i \<and> i < int (length (PpiListPtrs s)) then Some (PpiListPtrs s ! nat i) else None)"

definition set_entry :: "int \<Rightarrow> u64 \<Rightarrow> 'w ppi_database \<Rightarrow> 'w ppi_database option" where
  "set_entry i p s = (if 0 \<le> i \<and> i < int (length (PpiListPtrs s))
     then Some (s\<lparr>PpiListPtrs := (PpiListPtrs s)[nat i := p]\<rparr>) else None)"

text \<open>The comparison of two GUIDs as four INT32 values.\<close>

definition same_guid :: "guid_value \<Rightarrow> guid_value \<Rightarrow> bool" where
  "same_guid g h = (case g of (a, b, c, d) \<Rightarrow> case h of (a', b', c', d') \<Rightarrow> a = a' \<and> b = b' \<and> c = c' \<and> d = d')"

subsection \<open>Notifications\<close>

fun dispatch_installs ::
  "'w notify_function \<Rightarrow> u64 \<Rightarrow> u64 \<Rightarrow> int list \<Rightarrow> 'w ppi_database \<Rightarrow> 'w ppi_database option" where
  "dispatch_installs notify NotifyDescriptor CheckGuid [] s = Some s"
| "dispatch_installs notify NotifyDescriptor CheckGuid (Index2 # is) s = do {
     p \<leftarrow> entry_at s Index2;
     let SearchGuid = Guid (descriptors s p);
     s \<leftarrow> (if same_guid (guids s SearchGuid) (guids s CheckGuid)
           then notify (Ppi (descriptors s NotifyDescriptor)) NotifyDescriptor (Ppi (descriptors s p)) s
           else Some s);
     dispatch_installs notify NotifyDescriptor CheckGuid is s
   }"

fun dispatch_notifies ::
  "'w notify_function \<Rightarrow> int list \<Rightarrow> int list \<Rightarrow> 'w ppi_database \<Rightarrow> 'w ppi_database option" where
  "dispatch_notifies notify is [] s = Some s"
| "dispatch_notifies notify is (Index1 # js) s = do {
     NotifyDescriptor \<leftarrow> entry_at s Index1;
     let CheckGuid = Guid (descriptors s NotifyDescriptor);
     s \<leftarrow> dispatch_installs notify NotifyDescriptor CheckGuid is s;
     dispatch_notifies notify is js s
   }"

text \<open>NotifyType is not used.\<close>

definition DispatchNotify ::
  "'w notify_function \<Rightarrow> u64 \<Rightarrow> int \<Rightarrow> int \<Rightarrow> int \<Rightarrow> int \<Rightarrow> 'w ppi_database \<Rightarrow> 'w ppi_database option" where
  "DispatchNotify notify NotifyType InstallStartIndex InstallStopIndex NotifyStartIndex NotifyStopIndex s =
     dispatch_notifies notify [InstallStartIndex..InstallStopIndex - 1] (rev [NotifyStopIndex + 1..NotifyStartIndex]) s"

subsection \<open>Services\<close>

definition InitializePpiServices :: "u32 \<Rightarrow> bool \<Rightarrow> 'w ppi_database \<Rightarrow> 'w ppi_database" where
  "InitializePpiServices PcdPeiCoreMaxPpiSupported OldCoreData s =
     (if \<not> OldCoreData
      then let n = uint (PcdPeiCoreMaxPpiSupported - 1) in
        s\<lparr>NotifyListEnd := n, DispatchListEnd := n, LastDispatchedNotify := n\<rparr>
      else s)"

text \<open>The loop of PeiInstallPpi: EFI_SUCCESS is the break at the end of the list.\<close>

partial_function (option) install_loop ::
  "int \<Rightarrow> u64 \<Rightarrow> int \<Rightarrow> 'w ppi_database \<Rightarrow> (efi_status \<times> 'w ppi_database) option" where
  "install_loop LastCallbackInstall PpiList Index s =
     (if Index = NotifyListEnd s + 1 then Some (EFI_OUT_OF_RESOURCES, s)
      else if Flags (descriptors s PpiList) AND EFI_PEI_PPI_DESCRIPTOR_PPI = 0
      then Some (EFI_INVALID_PARAMETER, s\<lparr>PpiListEnd := LastCallbackInstall\<rparr>)
      else do {
        s \<leftarrow> set_entry Index PpiList s;
        let s = s\<lparr>PpiListEnd := PpiListEnd s + 1\<rparr>;
        if Flags (descriptors s PpiList) AND EFI_PEI_PPI_DESCRIPTOR_TERMINATE_LIST = EFI_PEI_PPI_DESCRIPTOR_TERMINATE_LIST
        then Some (EFI_SUCCESS, s)
        else install_loop LastCallbackInstall (PpiList + descriptor_size) (Index + 1) s
      })"

declare install_loop.simps [code]

definition PeiInstallPpi ::
  "'w notify_function \<Rightarrow> u64 \<Rightarrow> 'w ppi_database \<Rightarrow> (efi_status \<times> 'w ppi_database) option" where
  "PeiInstallPpi notify PpiList s =
     (if PpiList = 0 then Some (EFI_INVALID_PARAMETER, s)
      else do {
        let LastCallbackInstall = PpiListEnd s;
        (Status, s) \<leftarrow> install_loop LastCallbackInstall PpiList (PpiListEnd s) s;
        if Status \<noteq> EFI_SUCCESS then Some (Status, s)
        else do {
          s \<leftarrow> DispatchNotify notify EFI_PEI_PPI_DESCRIPTOR_NOTIFY_CALLBACK LastCallbackInstall (PpiListEnd s)
            (DispatchListEnd s) (NotifyListEnd s) s;
          Some (EFI_SUCCESS, s)
        }
      })"

fun find_entry :: "u64 \<Rightarrow> int list \<Rightarrow> 'w ppi_database \<Rightarrow> int option option" where
  "find_entry OldPpi [] s = Some None"
| "find_entry OldPpi (Index # is) s = do {
     p \<leftarrow> entry_at s Index;
     if OldPpi = p then Some (Some Index) else find_entry OldPpi is s
   }"

definition PeiReInstallPpi ::
  "'w notify_function \<Rightarrow> u64 \<Rightarrow> u64 \<Rightarrow> 'w ppi_database \<Rightarrow> (efi_status \<times> 'w ppi_database) option" where
  "PeiReInstallPpi notify OldPpi NewPpi s =
     (if OldPpi = 0 \<or> NewPpi = 0 then Some (EFI_INVALID_PARAMETER, s)
      else if Flags (descriptors s NewPpi) AND EFI_PEI_PPI_DESCRIPTOR_PPI = 0 then Some (EFI_INVALID_PARAMETER, s)
      else do {
        found \<leftarrow> find_entry OldPpi [0..PpiListEnd s - 1] s;
        case found of
          None \<Rightarrow> Some (EFI_NOT_FOUND, s)
        | Some Index \<Rightarrow> do {
            s \<leftarrow> set_entry Index NewPpi s;
            s \<leftarrow> DispatchNotify notify EFI_PEI_PPI_DESCRIPTOR_NOTIFY_CALLBACK Index (Index + 1)
              (DispatchListEnd s) (NotifyListEnd s) s;
            Some (EFI_SUCCESS, s)
          }
      })"

text \<open>The result is the descriptor with its interface.\<close>

fun locate_loop :: "u64 \<Rightarrow> u64 \<Rightarrow> int list \<Rightarrow> 'w ppi_database \<Rightarrow> (efi_status \<times> (u64 \<times> u64) option) option" where
  "locate_loop Guid' Instance [] s = Some (EFI_NOT_FOUND, None)"
| "locate_loop Guid' Instance (Index # is) s = do {
     TempPtr \<leftarrow> entry_at s Index;
     let CheckGuid = Guid (descriptors s TempPtr);
     if same_guid (guids s Guid') (guids s CheckGuid) then
       (if Instance = 0 then Some (EFI_SUCCESS, Some (TempPtr, Ppi (descriptors s TempPtr)))
        else locate_loop Guid' (Instance - 1) is s)
     else locate_loop Guid' Instance is s
   }"

definition PeiLocatePpi :: "u64 \<Rightarrow> u64 \<Rightarrow> 'w ppi_database \<Rightarrow> (efi_status \<times> (u64 \<times> u64) option) option" where
  "PeiLocatePpi Guid' Instance s = locate_loop Guid' Instance [0..PpiListEnd s - 1] s"

text \<open>The first loop of PeiNotifyPpi, with the number of dispatch notifications.\<close>

partial_function (option) notify_loop ::
  "int \<Rightarrow> u64 \<Rightarrow> int \<Rightarrow> u64 \<Rightarrow> 'w ppi_database \<Rightarrow> (efi_status \<times> u64 \<times> 'w ppi_database) option" where
  "notify_loop LastCallbackNotify NotifyList Index NotifyDispatchCount s =
     (if Index = PpiListEnd s - 1 then Some (EFI_OUT_OF_RESOURCES, NotifyDispatchCount, s)
      else if Flags (descriptors s NotifyList) AND EFI_PEI_PPI_DESCRIPTOR_NOTIFY_TYPES = 0
      then Some (EFI_INVALID_PARAMETER, NotifyDispatchCount, s\<lparr>NotifyListEnd := LastCallbackNotify\<rparr>)
      else do {
        let NotifyDispatchCount = (if Flags (descriptors s NotifyList) AND EFI_PEI_PPI_DESCRIPTOR_NOTIFY_DISPATCH \<noteq> 0
          then NotifyDispatchCount + 1 else NotifyDispatchCount);
        s \<leftarrow> set_entry Index NotifyList s;
        let s = s\<lparr>NotifyListEnd := NotifyListEnd s - 1\<rparr>;
        if Flags (descriptors s NotifyList) AND EFI_PEI_PPI_DESCRIPTOR_TERMINATE_LIST = EFI_PEI_PPI_DESCRIPTOR_TERMINATE_LIST
        then Some (EFI_SUCCESS, NotifyDispatchCount, s)
        else notify_loop LastCallbackNotify (NotifyList + descriptor_size) (Index - 1) NotifyDispatchCount s
      })"

declare notify_loop.simps [code]

fun shift_entries :: "int list \<Rightarrow> 'w ppi_database \<Rightarrow> 'w ppi_database option" where
  "shift_entries [] s = Some s"
| "shift_entries (Index # is) s = do {
     p \<leftarrow> entry_at s (Index + 1);
     s \<leftarrow> set_entry Index p s;
     shift_entries is s
   }"

text \<open>The notifications of dispatch level go above the others.\<close>

fun move_dispatch :: "int list \<Rightarrow> 'w ppi_database \<Rightarrow> 'w ppi_database option" where
  "move_dispatch [] s = Some s"
| "move_dispatch (NotifyIndex # js) s = do {
     NotifyPtr \<leftarrow> entry_at s NotifyIndex;
     s \<leftarrow> (if Flags (descriptors s NotifyPtr) AND EFI_PEI_PPI_DESCRIPTOR_NOTIFY_DISPATCH \<noteq> 0
           then do {
             s \<leftarrow> shift_entries [NotifyIndex..DispatchListEnd s - 1] s;
             s \<leftarrow> set_entry (max NotifyIndex (DispatchListEnd s)) NotifyPtr s;
             Some (s\<lparr>DispatchListEnd := DispatchListEnd s - 1\<rparr>)
           }
           else Some s);
     move_dispatch js s
   }"

definition PeiNotifyPpi ::
  "'w notify_function \<Rightarrow> u64 \<Rightarrow> 'w ppi_database \<Rightarrow> (efi_status \<times> 'w ppi_database) option" where
  "PeiNotifyPpi notify NotifyList s =
     (if NotifyList = 0 then Some (EFI_INVALID_PARAMETER, s)
      else do {
        let LastCallbackNotify = NotifyListEnd s;
        (Status, NotifyDispatchCount, s) \<leftarrow> notify_loop LastCallbackNotify NotifyList (NotifyListEnd s) 0 s;
        if Status \<noteq> EFI_SUCCESS then Some (Status, s)
        else do {
          (LastCallbackNotify, s) \<leftarrow> (if NotifyDispatchCount > 0 then do {
              s \<leftarrow> move_dispatch (rev [NotifyListEnd s + 1..LastCallbackNotify]) s;
              Some (LastCallbackNotify - sint NotifyDispatchCount, s)
            }
            else Some (LastCallbackNotify, s));
          s \<leftarrow> DispatchNotify notify EFI_PEI_PPI_DESCRIPTOR_NOTIFY_CALLBACK 0 (PpiListEnd s)
            LastCallbackNotify (NotifyListEnd s) s;
          Some (EFI_SUCCESS, s)
        }
      })"

subsection \<open>Notifications of dispatch level\<close>

partial_function (option) new_notifies :: "'w notify_function \<Rightarrow> 'w ppi_database \<Rightarrow> 'w ppi_database option" where
  "new_notifies notify s =
     (if LastDispatchedNotify s = DispatchListEnd s then Some s
      else do {
        let TempValue = DispatchListEnd s;
        s \<leftarrow> DispatchNotify notify EFI_PEI_PPI_DESCRIPTOR_NOTIFY_DISPATCH 0 (LastDispatchedInstall s)
          (LastDispatchedNotify s) (DispatchListEnd s) s;
        new_notifies notify (s\<lparr>LastDispatchedNotify := TempValue\<rparr>)
      })"

partial_function (option) new_installs :: "'w notify_function \<Rightarrow> u32 \<Rightarrow> 'w ppi_database \<Rightarrow> 'w ppi_database option" where
  "new_installs notify PcdPeiCoreMaxPpiSupported s =
     (if LastDispatchedInstall s = PpiListEnd s then Some s
      else do {
        let TempValue = PpiListEnd s;
        s \<leftarrow> DispatchNotify notify EFI_PEI_PPI_DESCRIPTOR_NOTIFY_DISPATCH (LastDispatchedInstall s) (PpiListEnd s)
          (uint (PcdPeiCoreMaxPpiSupported - 1)) (DispatchListEnd s) s;
        new_installs notify PcdPeiCoreMaxPpiSupported (s\<lparr>LastDispatchedInstall := TempValue\<rparr>)
      })"

partial_function (option) ProcessNotifyList :: "'w notify_function \<Rightarrow> u32 \<Rightarrow> 'w ppi_database \<Rightarrow> 'w ppi_database option" where
  "ProcessNotifyList notify PcdPeiCoreMaxPpiSupported s = do {
     s \<leftarrow> new_notifies notify s;
     s \<leftarrow> new_installs notify PcdPeiCoreMaxPpiSupported s;
     if LastDispatchedNotify s = DispatchListEnd s then Some s
     else ProcessNotifyList notify PcdPeiCoreMaxPpiSupported s
   }"

declare new_notifies.simps [code] new_installs.simps [code] ProcessNotifyList.simps [code]

subsection \<open>Migration from temporary memory\<close>

definition moved :: "u64 \<Rightarrow> u64 \<Rightarrow> u64 \<Rightarrow> bool \<Rightarrow> u64 \<Rightarrow> u64" where
  "moved TempBottom TempTop Offset OffsetPositive p =
     (if p < TempTop \<and> p \<ge> TempBottom then (if OffsetPositive then p + Offset else p - Offset) else p)"

text \<open>The entry Index; the descriptor is read and written where it has been moved to.\<close>

definition ConvertSinglePpiPointer ::
  "int \<Rightarrow> u64 \<Rightarrow> u64 \<Rightarrow> u64 \<Rightarrow> bool \<Rightarrow> 'w ppi_database \<Rightarrow> 'w ppi_database option" where
  "ConvertSinglePpiPointer Index TempBottom TempTop Offset OffsetPositive s = do {
     Raw \<leftarrow> entry_at s Index;
     if Raw < TempTop \<and> Raw \<ge> TempBottom then do {
       let Raw = (if OffsetPositive then Raw + Offset else Raw - Offset);
       s \<leftarrow> set_entry Index Raw s;
       let d = descriptors s Raw;
       let d = d\<lparr>Guid := moved TempBottom TempTop Offset OffsetPositive (Guid d)\<rparr>;
       let d = d\<lparr>Ppi := moved TempBottom TempTop Offset OffsetPositive (Ppi d)\<rparr>;
       Some (s\<lparr>descriptors := (descriptors s)(Raw := d)\<rparr>)
     }
     else Some s
   }"

record memory_area =
  Base :: u64
  Size :: u64
  Offset :: u64
  OffsetPositive :: bool

fun convert_holes :: "int \<Rightarrow> memory_area list \<Rightarrow> 'w ppi_database \<Rightarrow> 'w ppi_database option" where
  "convert_holes Index [] s = Some s"
| "convert_holes Index (h # hs) s =
     (if Size h = 0 then convert_holes Index hs s
      else do {
        s \<leftarrow> ConvertSinglePpiPointer Index (Base h) (Base h + Size h) (Offset h) (OffsetPositive h) s;
        convert_holes Index hs s
      })"

text \<open>The heap, the stack and the holes are areas of the temporary memory.\<close>

partial_function (option) convert_loop ::
  "u32 \<Rightarrow> memory_area \<Rightarrow> memory_area \<Rightarrow> memory_area list \<Rightarrow> u8 \<Rightarrow> 'w ppi_database \<Rightarrow> 'w ppi_database option" where
  "convert_loop PcdPeiCoreMaxPpiSupported Heap Stack Holes Index s =
     (if \<not> unat Index < unat PcdPeiCoreMaxPpiSupported then Some s
      else do {
        s \<leftarrow> (if uint Index < PpiListEnd s \<or> uint Index > NotifyListEnd s then do {
             s \<leftarrow> ConvertSinglePpiPointer (uint Index) (Base Heap) (Base Heap + Size Heap) (Offset Heap) (OffsetPositive Heap) s;
             s \<leftarrow> ConvertSinglePpiPointer (uint Index) (Base Stack) (Base Stack + Size Stack) (Offset Stack) (OffsetPositive Stack) s;
             convert_holes (uint Index) Holes s
           }
           else Some s);
        convert_loop PcdPeiCoreMaxPpiSupported Heap Stack Holes (Index + 1) s
      })"

declare convert_loop.simps [code]

definition ConvertPpiPointers ::
  "u32 \<Rightarrow> memory_area \<Rightarrow> memory_area \<Rightarrow> memory_area list \<Rightarrow> 'w ppi_database \<Rightarrow> 'w ppi_database option" where
  "ConvertPpiPointers PcdPeiCoreMaxPpiSupported Heap Stack Holes s =
     convert_loop PcdPeiCoreMaxPpiSupported Heap Stack Holes 0 s"

end
