(* ===== verification/Ppi_Rep.thy ===== *)
theory Ppi_Rep
  imports Ppi_Db
begin

text \<open>
  The three lists that the array of the database holds: represents s ps cs ds says that the PPIs are
  ps, the notifications of callback level cs and those of dispatch level ds, each in the order of their
  installation.  The loops of the services in terms of these lists.
\<close>

definition represents :: "'w ppi_database \<Rightarrow> u64 list \<Rightarrow> u64 list \<Rightarrow> u64 list \<Rightarrow> bool" where
  "represents s ps cs ds \<longleftrightarrow> (\<exists>hole. PpiListPtrs s = ps @ hole @ rev cs @ rev ds \<and>
     PpiListEnd s = int (length ps) \<and> NotifyListEnd s = int (length ps + length hole) - 1 \<and>
     DispatchListEnd s = int (length ps + length hole + length cs) - 1 \<and> length (PpiListPtrs s) \<le> 4294967295)"

definition room_left :: "'w ppi_database \<Rightarrow> nat" where
  "room_left s = nat (NotifyListEnd s + 1 - PpiListEnd s)"

text \<open>The services change the array and its bounds only.\<close>

definition same_outside :: "'w ppi_database \<Rightarrow> 'w ppi_database \<Rightarrow> bool" where
  "same_outside s s' \<longleftrightarrow> descriptors s' = descriptors s \<and> guids s' = guids s \<and> world s' = world s \<and>
     LastDispatchedInstall s' = LastDispatchedInstall s \<and> LastDispatchedNotify s' = LastDispatchedNotify s \<and>
     length (PpiListPtrs s') = length (PpiListPtrs s)"

lemma same_outside_trans: "same_outside s s' \<Longrightarrow> same_outside s' s'' \<Longrightarrow> same_outside s s''"
  by (simp add: same_outside_def)

lemma representsE:
  assumes "represents s ps cs ds"
  obtains hole where "PpiListPtrs s = ps @ hole @ rev cs @ rev ds" "length hole = room_left s"
    "PpiListEnd s = int (length ps)" "NotifyListEnd s = int (length ps + room_left s) - 1"
    "DispatchListEnd s = int (length ps + room_left s + length cs) - 1"
    "length (PpiListPtrs s) = length ps + room_left s + length cs + length ds" "length (PpiListPtrs s) \<le> 4294967295"
  using assms unfolding represents_def room_left_def by auto

lemma representsI:
  assumes "PpiListPtrs s = ps @ hole @ rev cs @ rev ds" "PpiListEnd s = int (length ps)"
    "NotifyListEnd s = int (length ps + length hole) - 1"
    "DispatchListEnd s = int (length ps + length hole + length cs) - 1" "length (PpiListPtrs s) \<le> 4294967295"
  shows "represents s ps cs ds"
  using assms unfolding represents_def by blast

text \<open>The database depends on the array and its bounds only.\<close>

lemma represents_simps [simp]:
  "represents (s\<lparr>world := w\<rparr>) ps cs ds = represents s ps cs ds"
  "represents (s\<lparr>LastDispatchedInstall := i\<rparr>) ps cs ds = represents s ps cs ds"
  "represents (s\<lparr>LastDispatchedNotify := i\<rparr>) ps cs ds = represents s ps cs ds"
  by (simp_all add: represents_def)

lemma entry_at_simps [simp]:
  "entry_at (s\<lparr>world := w\<rparr>) = entry_at s"
  "entry_at (s\<lparr>LastDispatchedInstall := j\<rparr>) = entry_at s"
  "entry_at (s\<lparr>LastDispatchedNotify := j\<rparr>) = entry_at s"
  "entry_at (s\<lparr>PpiListEnd := j\<rparr>) = entry_at s"
  "entry_at (s\<lparr>NotifyListEnd := j\<rparr>) = entry_at s"
  "entry_at (s\<lparr>DispatchListEnd := j\<rparr>) = entry_at s"
  by (simp_all add: entry_at_def fun_eq_iff)

subsection \<open>Entries\<close>

lemma entries_up:
  assumes "PpiListPtrs s = xs @ ys @ zs" "a = int (length xs)" "b = int (length xs + length ys) - 1"
  shows "map (entry_at s) [a..b] = map Some ys"
proof (rule nth_equalityI)
  show "length (map (entry_at s) [a..b]) = length (map Some ys)" using assms(2,3) by simp
  fix i assume "i < length (map (entry_at s) [a..b])"
  then have i: "i < length ys" using assms(2,3) by simp
  then have "[a..b] ! i = int (length xs + i)" using assms(2,3) by (simp add: nth_upto)
  moreover have "entry_at s (int (length xs + i)) = Some (ys ! i)"
    using i assms(1) by (simp add: entry_at_def nth_append nat_int_add flip: of_nat_add)
  ultimately show "map (entry_at s) [a..b] ! i = map Some ys ! i" using i assms(2,3) by simp
qed

lemma entries_down:
  assumes "PpiListPtrs s = xs @ rev ys @ zs" "a = int (length xs)" "b = int (length xs + length ys) - 1"
  shows "map (entry_at s) (rev [a..b]) = map Some ys"
proof -
  have "map (entry_at s) [a..b] = map Some (rev ys)" using entries_up[OF assms(1)] assms(2,3) by simp
  then show ?thesis by (metis rev_map rev_rev_ident)
qed

lemma ppi_entries:
  assumes "represents s ps cs ds" "i \<le> length ps"
  shows "map (entry_at s) [int i..PpiListEnd s - 1] = map Some (drop i ps)"
    "map (entry_at s) [0..int i - 1] = map Some (take i ps)"
proof -
  obtain hole where h: "PpiListPtrs s = ps @ hole @ rev cs @ rev ds" "PpiListEnd s = int (length ps)"
    by (rule representsE[OF assms(1)])
  show "map (entry_at s) [int i..PpiListEnd s - 1] = map Some (drop i ps)"
    by (rule entries_up[of _ "take i ps" _ "hole @ rev cs @ rev ds"]) (use h assms(2) in simp_all)
  show "map (entry_at s) [0..int i - 1] = map Some (take i ps)"
    by (rule entries_up[of _ "[]" _ "drop i ps @ hole @ rev cs @ rev ds"]) (use h assms(2) in simp_all)
qed

lemma callback_entries:
  assumes "represents s ps cs ds" "i \<le> length cs" "b = DispatchListEnd s - int i"
  shows "map (entry_at s) (rev [NotifyListEnd s + 1..b]) = map Some (drop i cs)"
proof -
  obtain hole where h: "PpiListPtrs s = ps @ hole @ rev cs @ rev ds" "length hole = room_left s"
    "NotifyListEnd s = int (length ps + room_left s) - 1" "DispatchListEnd s = int (length ps + room_left s + length cs) - 1"
    by (rule representsE[OF assms(1)])
  have "rev cs = rev (drop i cs) @ rev (take i cs)" by (metis append_take_drop_id rev_append)
  then show ?thesis
    by (intro entries_down[of _ "ps @ hole" _ "rev (take i cs) @ rev ds"]) (use h assms(2,3) in auto)
qed

lemma dispatch_entries:
  assumes "represents s ps cs ds" "i \<le> length ds" "b = int (length (PpiListPtrs s)) - 1 - int i"
  shows "map (entry_at s) (rev [DispatchListEnd s + 1..b]) = map Some (drop i ds)"
proof -
  obtain hole where h: "PpiListPtrs s = ps @ hole @ rev cs @ rev ds" "length hole = room_left s"
    "DispatchListEnd s = int (length ps + room_left s + length cs) - 1"
    "length (PpiListPtrs s) = length ps + room_left s + length cs + length ds"
    by (rule representsE[OF assms(1)])
  have "rev ds = rev (drop i ds) @ rev (take i ds)" by (metis append_take_drop_id rev_append)
  then show ?thesis
    by (intro entries_down[of _ "ps @ hole @ rev cs" _ "rev (take i ds)"]) (use h assms(2,3) in auto)
qed

subsection \<open>What a list of descriptors adds\<close>

text \<open>At most m descriptors of the list at L whose flags meet f, and how reading them ends.\<close>

fun read_list :: "nat \<Rightarrow> (u64 \<Rightarrow> ppi_descriptor) \<Rightarrow> u64 \<Rightarrow> u64 \<Rightarrow> efi_status \<times> u64 list" where
  "read_list 0 d f L = (EFI_OUT_OF_RESOURCES, [])"
| "read_list (Suc m) d f L =
     (if Flags (d L) AND f = 0 then (EFI_INVALID_PARAMETER, [])
      else if Flags (d L) AND EFI_PEI_PPI_DESCRIPTOR_TERMINATE_LIST = EFI_PEI_PPI_DESCRIPTOR_TERMINATE_LIST
      then (EFI_SUCCESS, [L])
      else (let (st, ns) = read_list m d f (L + descriptor_size) in (st, L # ns)))"

lemma read_list_status:
  "read_list m d f L = (st, ns) \<Longrightarrow> st = EFI_SUCCESS \<or> st = EFI_INVALID_PARAMETER \<or> st = EFI_OUT_OF_RESOURCES"
proof (induction m arbitrary: L ns)
  case (Suc m)
  obtain st' ns' where "read_list m d f (L + descriptor_size) = (st', ns')" by fastforce
  then show ?case using Suc by (auto split: if_splits)
qed simp

lemma install_loop_reads:
  assumes "represents s ps cs ds" "read_list (room_left s) (descriptors s) EFI_PEI_PPI_DESCRIPTOR_PPI L = (st, ns)"
    "Last \<le> int (length ps)" "0 \<le> Last"
  shows "\<exists>s'. install_loop Last L (PpiListEnd s) s = Some (st, s') \<and> same_outside s s' \<and>
    represents s' (if st = EFI_INVALID_PARAMETER then take (nat Last) ps else ps @ ns) cs ds"
  using assms
proof (induction m \<equiv> "room_left s" arbitrary: s ps L ns)
  case 0
  have h: "PpiListEnd s = int (length ps)" "NotifyListEnd s = int (length ps + room_left s) - 1"
    using 0(2) by (auto elim: representsE)
  have "PpiListEnd s = NotifyListEnd s + 1" using h 0(1) by simp
  then show ?case using 0 by (subst install_loop.simps) (auto simp: same_outside_def)
next
  case (Suc m)
  obtain hole where h: "PpiListPtrs s = ps @ hole @ rev cs @ rev ds" "length hole = room_left s"
    "PpiListEnd s = int (length ps)" "NotifyListEnd s = int (length ps + room_left s) - 1"
    "DispatchListEnd s = int (length ps + room_left s + length cs) - 1" "length (PpiListPtrs s) \<le> 4294967295"
    by (rule representsE[OF Suc(3)])
  obtain x xs where x: "hole = x # xs" "length xs = m" using h(2) Suc(2) by (cases hole) auto
  have ne: "PpiListEnd s \<noteq> NotifyListEnd s + 1" using h(3,4) Suc(2) by simp
  note rd = Suc(4)[folded Suc(2), simplified]
  show ?case
  proof (cases "Flags (descriptors s L) AND EFI_PEI_PPI_DESCRIPTOR_PPI = 0")
    case True
    then have st: "st = EFI_INVALID_PARAMETER" using rd by simp
    have "represents (s\<lparr>PpiListEnd := Last\<rparr>) (take (nat Last) ps) cs ds"
      by (rule representsI[where hole = "drop (nat Last) ps @ hole"]) (use h Suc(5,6) in auto)
    moreover have "install_loop Last L (PpiListEnd s) s = Some (st, s\<lparr>PpiListEnd := Last\<rparr>)"
      using True ne st by (subst install_loop.simps) simp
    ultimately show ?thesis using st by (auto simp: same_outside_def)
  next
    case False
    let ?s = "s\<lparr>PpiListPtrs := ps @ L # xs @ rev cs @ rev ds, PpiListEnd := PpiListEnd s + 1\<rparr>"
    have set: "set_entry (PpiListEnd s) L s = Some (s\<lparr>PpiListPtrs := ps @ L # xs @ rev cs @ rev ds\<rparr>)"
      using h(1,3) x(1) by (simp add: set_entry_def list_update_append)
    have len: "length (ps @ L # xs @ rev cs @ rev ds) = length (PpiListPtrs s)" using h(1) x(1) by simp
    have rep: "represents ?s (ps @ [L]) cs ds"
      by (rule representsI[where hole = xs]) (use h x len in auto)
    have out: "same_outside s ?s" using len by (simp add: same_outside_def)
    show ?thesis
    proof (cases "Flags (descriptors s L) AND EFI_PEI_PPI_DESCRIPTOR_TERMINATE_LIST = EFI_PEI_PPI_DESCRIPTOR_TERMINATE_LIST")
      case True
      then have st: "st = EFI_SUCCESS" "ns = [L]" using rd False by auto
      have "install_loop Last L (PpiListEnd s) s = Some (EFI_SUCCESS, ?s)"
        using True False ne set by (subst install_loop.simps) (simp add: Let_def)
      then show ?thesis using st rep out by auto
    next
      case nt: False
      obtain ns' where ns: "read_list m (descriptors s) EFI_PEI_PPI_DESCRIPTOR_PPI (L + descriptor_size) = (st, ns')" "ns = L # ns'"
        using rd False nt by (auto split: prod.splits)
      have room: "m = room_left ?s" using h(3,4) Suc(2) by (simp add: room_left_def)
      have "install_loop Last L (PpiListEnd s) s = install_loop Last (L + descriptor_size) (PpiListEnd ?s) ?s"
        using False nt ne set by (subst install_loop.simps) (simp add: Let_def)
      moreover have "read_list (room_left ?s) (descriptors ?s) EFI_PEI_PPI_DESCRIPTOR_PPI (L + descriptor_size) = (st, ns')"
        using ns(1) room by simp
      from Suc(1)[OF room rep this] Suc(5,6)
      obtain s' where "install_loop Last (L + descriptor_size) (PpiListEnd ?s) ?s = Some (st, s')" "same_outside ?s s'"
        "represents s' (if st = EFI_INVALID_PARAMETER then take (nat Last) (ps @ [L]) else (ps @ [L]) @ ns') cs ds" by auto
      ultimately show ?thesis using ns(2) Suc(5) same_outside_trans[OF out] by (auto split: if_splits)
    qed
  qed
qed

lemma notify_loop_reads:
  assumes "represents s ps cs ds" "read_list (room_left s) (descriptors s) EFI_PEI_PPI_DESCRIPTOR_NOTIFY_TYPES L = (st, ns)"
    "NotifyListEnd s \<le> Last" "Last \<le> DispatchListEnd s"
  shows "\<exists>s'. notify_loop Last L (NotifyListEnd s) c s =
      Some (st, c + word_of_nat (length (filter (\<lambda>n. Flags (descriptors s n) AND EFI_PEI_PPI_DESCRIPTOR_NOTIFY_DISPATCH \<noteq> 0) ns)), s') \<and>
    same_outside s s' \<and> PpiListEnd s' = PpiListEnd s \<and> DispatchListEnd s' = DispatchListEnd s \<and>
    represents s' ps (if st = EFI_INVALID_PARAMETER then take (nat (DispatchListEnd s - Last)) cs else cs @ ns) ds"
  using assms
proof (induction m \<equiv> "room_left s" arbitrary: s cs L ns c)
  case 0
  have h: "PpiListEnd s = int (length ps)" "NotifyListEnd s = int (length ps + room_left s) - 1"
    using 0(2) by (auto elim: representsE)
  have "NotifyListEnd s = PpiListEnd s - 1" using h 0(1) by simp
  then show ?case using 0 by (subst notify_loop.simps) (auto simp: same_outside_def)
next
  case (Suc m)
  obtain hole where h: "PpiListPtrs s = ps @ hole @ rev cs @ rev ds" "length hole = room_left s"
    "PpiListEnd s = int (length ps)" "NotifyListEnd s = int (length ps + room_left s) - 1"
    "DispatchListEnd s = int (length ps + room_left s + length cs) - 1" "length (PpiListPtrs s) \<le> 4294967295"
    by (rule representsE[OF Suc(3)])
  obtain xs x where x: "hole = xs @ [x]" "length xs = m" using h(2) Suc(2) by (cases hole rule: rev_cases) auto
  have ne: "NotifyListEnd s \<noteq> PpiListEnd s - 1" using h(3,4) Suc(2) by simp
  note rd = Suc(4)[folded Suc(2), simplified]
  let ?d = "\<lambda>n. Flags (descriptors s n) AND EFI_PEI_PPI_DESCRIPTOR_NOTIFY_DISPATCH \<noteq> 0"
  show ?case
  proof (cases "Flags (descriptors s L) AND EFI_PEI_PPI_DESCRIPTOR_NOTIFY_TYPES = 0")
    case True
    then have st: "st = EFI_INVALID_PARAMETER" "ns = []" using rd by auto
    let ?k = "nat (DispatchListEnd s - Last)"
    have k: "int ?k = DispatchListEnd s - Last" "?k \<le> length cs" using Suc(5,6) h(4,5) by auto
    have "rev cs = rev (drop ?k cs) @ rev (take ?k cs)" by (metis append_take_drop_id rev_append)
    then have "represents (s\<lparr>NotifyListEnd := Last\<rparr>) ps (take ?k cs) ds"
      by (intro representsI[where hole = "hole @ rev (drop ?k cs)"]) (use h k in auto)
    moreover have "notify_loop Last L (NotifyListEnd s) c s = Some (st, c, s\<lparr>NotifyListEnd := Last\<rparr>)"
      using True ne st by (subst notify_loop.simps) simp
    ultimately show ?thesis using st by (auto simp: same_outside_def)
  next
    case False
    let ?s = "s\<lparr>PpiListPtrs := ps @ xs @ L # rev cs @ rev ds, NotifyListEnd := NotifyListEnd s - 1\<rparr>"
    let ?c = "if ?d L then c + 1 else c"
    have "NotifyListEnd s = int (length (ps @ xs))" "PpiListPtrs s = (ps @ xs) @ x # rev cs @ rev ds"
      using h(1,2,4) x Suc(2) by simp_all
    then have set: "set_entry (NotifyListEnd s) L s = Some (s\<lparr>PpiListPtrs := ps @ xs @ L # rev cs @ rev ds\<rparr>)"
      by (simp add: set_entry_def list_update_append flip: of_nat_add)
    have len: "length (ps @ xs @ L # rev cs @ rev ds) = length (PpiListPtrs s)" using h(1) x(1) by simp
    have rep: "represents ?s ps (cs @ [L]) ds"
      by (rule representsI[where hole = xs]) (use h x len Suc(2) in auto)
    have out: "same_outside s ?s" using len by (simp add: same_outside_def)
    show ?thesis
    proof (cases "Flags (descriptors s L) AND EFI_PEI_PPI_DESCRIPTOR_TERMINATE_LIST = EFI_PEI_PPI_DESCRIPTOR_TERMINATE_LIST")
      case True
      then have st: "st = EFI_SUCCESS" "ns = [L]" using rd False by auto
      have "notify_loop Last L (NotifyListEnd s) c s = Some (EFI_SUCCESS, ?c, ?s)"
        using True False ne set by (subst notify_loop.simps) (simp add: Let_def)
      then show ?thesis using st rep out by auto
    next
      case nt: False
      obtain ns' where ns: "read_list m (descriptors s) EFI_PEI_PPI_DESCRIPTOR_NOTIFY_TYPES (L + descriptor_size) = (st, ns')" "ns = L # ns'"
        using rd False nt by (auto split: prod.splits)
      have room: "m = room_left ?s" using h(3,4) Suc(2) by (simp add: room_left_def)
      have run: "notify_loop Last L (NotifyListEnd s) c s = notify_loop Last (L + descriptor_size) (NotifyListEnd ?s) ?c ?s"
        using False nt ne set by (subst notify_loop.simps) (simp add: Let_def)
      have "read_list (room_left ?s) (descriptors ?s) EFI_PEI_PPI_DESCRIPTOR_NOTIFY_TYPES (L + descriptor_size) = (st, ns')"
        using ns(1) room by simp
      note IH = Suc(1)[OF room rep this]
      have le: "NotifyListEnd ?s \<le> Last" "Last \<le> DispatchListEnd ?s" using Suc(5,6) by simp_all
      have D: "descriptors ?s = descriptors s" "DispatchListEnd ?s = DispatchListEnd s" "PpiListEnd ?s = PpiListEnd s"
        by simp_all
      from IH[OF le, of ?c, unfolded D]
      obtain s' where s': "notify_loop Last (L + descriptor_size) (NotifyListEnd ?s) ?c ?s =
          Some (st, ?c + word_of_nat (length (filter ?d ns')), s')" "same_outside ?s s'"
        "PpiListEnd s' = PpiListEnd s" "DispatchListEnd s' = DispatchListEnd s"
        "represents s' ps (if st = EFI_INVALID_PARAMETER then take (nat (DispatchListEnd s - Last)) (cs @ [L]) else (cs @ [L]) @ ns') ds"
        by blast
      have "nat (DispatchListEnd s - Last) \<le> length cs" using Suc(5) h(4,5) by simp
      then show ?thesis using run s' ns(2) same_outside_trans[OF out] by (auto simp: ac_simps)
    qed
  qed
qed

end
