(* ===== verification/Ppi_Run.thy ===== *)
theory Ppi_Run
  imports Ppi_Rep "HOL-Library.Multiset"
begin

text \<open>
  The services on the three lists: what they enter, and the notifications they call in order, where these
  may themselves append PPIs and callbacks to the database.
\<close>

definition is_dispatch :: "(u64 \<Rightarrow> ppi_descriptor) \<Rightarrow> u64 \<Rightarrow> bool" where
  "is_dispatch d n \<longleftrightarrow> Flags (d n) AND EFI_PEI_PPI_DESCRIPTOR_NOTIFY_DISPATCH \<noteq> 0"

subsection \<open>Moving the notifications of dispatch level\<close>

lemma shift_entries_run:
  assumes "PpiListPtrs s = xs @ n # ys @ zs" "a = int (length xs)" "b = int (length xs + length ys) - 1"
  shows "shift_entries [a..b] s = Some (s\<lparr>PpiListPtrs := xs @ ys @ last (n # ys) # zs\<rparr>)"
  using assms
proof (induction ys arbitrary: s xs n a)
  case (Cons y ys)
  have l: "[a..b] = a # [a + 1..b]" using Cons.prems(2,3) by (simp add: upto_rec1)
  have e: "entry_at s (a + 1) = Some y"
    using Cons.prems(1,2) by (simp add: entry_at_def nth_append nat_add_distrib)
  let ?s = "s\<lparr>PpiListPtrs := (xs @ [y]) @ y # ys @ zs\<rparr>"
  have "set_entry a y s = Some ?s"
    using Cons.prems(1,2) by (simp add: set_entry_def list_update_append)
  then have "shift_entries [a..b] s = shift_entries [a + 1..b] ?s" unfolding l by (simp add: e)
  also have "\<dots> = Some (?s\<lparr>PpiListPtrs := (xs @ [y]) @ ys @ last (y # ys) # zs\<rparr>)"
    by (rule Cons.IH) (use Cons.prems in auto)
  finally show ?case by simp
qed (simp add: upto_empty)

lemma move_one:
  assumes "represents s ps (cs @ n # ns) ds" "a = NotifyListEnd s + 1 + int (length ns)" "is_dispatch (descriptors s) n"
  shows "\<exists>s'. move_dispatch (a # js) s = move_dispatch js s' \<and> same_outside s s' \<and> PpiListEnd s' = PpiListEnd s \<and>
    NotifyListEnd s' = NotifyListEnd s \<and> DispatchListEnd s' = DispatchListEnd s - 1 \<and> represents s' ps (cs @ ns) (ds @ [n])"
proof -
  obtain hole where h: "PpiListPtrs s = ps @ hole @ rev (cs @ n # ns) @ rev ds" "length hole = room_left s"
    "PpiListEnd s = int (length ps)" "NotifyListEnd s = int (length ps + room_left s) - 1"
    "DispatchListEnd s = int (length ps + room_left s + length (cs @ n # ns)) - 1" "length (PpiListPtrs s) \<le> 4294967295"
    by (rule representsE[OF assms(1)])
  let ?xs = "ps @ hole @ rev ns"
  have ar: "PpiListPtrs s = ?xs @ n # rev cs @ rev ds" using h(1) by simp
  have a: "a = int (length ?xs)" using assms(2) h(2,4) by simp
  have b: "DispatchListEnd s = int (length ?xs + length cs)" using h(2,5) by simp
  have lt: "length ?xs < length (?xs @ n # rev cs @ rev ds)" by simp
  have e: "entry_at s a = Some n"
    unfolding a entry_at_def ar
    by (simp only: nat_int of_nat_less_iff of_nat_0_le_iff lt if_True simp_thms nth_append_length)
  let ?l = "last (n # rev cs)"
  have sh: "shift_entries [a..DispatchListEnd s - 1] s = Some (s\<lparr>PpiListPtrs := ?xs @ rev cs @ ?l # rev ds\<rparr>)"
    by (rule shift_entries_run[OF ar a]) (simp add: b)
  let ?s = "s\<lparr>PpiListPtrs := ?xs @ rev cs @ n # rev ds\<rparr>"
  have m: "max a (DispatchListEnd s) = int (length (?xs @ rev cs))" using a b by simp
  have st: "set_entry (int (length (?xs @ rev cs))) n (s\<lparr>PpiListPtrs := ?xs @ rev cs @ ?l # rev ds\<rparr>) = Some ?s"
    using list_update_append[of "?xs @ rev cs" "?l # rev ds" "length (?xs @ rev cs)" n]
    by (simp add: set_entry_def del: of_nat_add)
  let ?t = "?s\<lparr>DispatchListEnd := DispatchListEnd s - 1\<rparr>"
  have "move_dispatch (a # js) s = move_dispatch js ?t"
    using e sh st assms(3) m by (simp add: is_dispatch_def del: append_assoc)
  moreover have "represents ?t ps (cs @ ns) (ds @ [n])"
    by (rule representsI[where hole = hole]) (use h in auto)
  moreover have "length (PpiListPtrs ?t) = length (PpiListPtrs s)" using ar by simp
  ultimately show ?thesis by (intro exI[of _ ?t]) (simp add: same_outside_def)
qed

lemma move_dispatch_run:
  assumes "represents s ps (cs @ ns) ds" "b = NotifyListEnd s + int (length ns)"
  shows "\<exists>s'. move_dispatch (rev [NotifyListEnd s + 1..b]) s = Some s' \<and> same_outside s s' \<and>
    PpiListEnd s' = PpiListEnd s \<and> NotifyListEnd s' = NotifyListEnd s \<and>
    represents s' ps (cs @ filter (\<lambda>n. \<not> is_dispatch (descriptors s) n) ns) (ds @ filter (is_dispatch (descriptors s)) ns)"
  using assms
proof (induction ns arbitrary: s cs ds b)
  case Nil
  then show ?case by (auto simp: same_outside_def)
next
  case (Cons n ns)
  let ?d = "is_dispatch (descriptors s)"
  have b: "b = NotifyListEnd s + 1 + int (length ns)" using Cons.prems(2) by simp
  have l: "rev [NotifyListEnd s + 1..b] = b # rev [NotifyListEnd s + 1..b - 1]"
    using b by (simp add: upto_rec2)
  show ?case
  proof (cases "?d n")
    case True
    from move_one[OF Cons.prems(1) b True]
    obtain s1 where s1: "move_dispatch (b # rev [NotifyListEnd s + 1..b - 1]) s = move_dispatch (rev [NotifyListEnd s + 1..b - 1]) s1"
      "same_outside s s1" "PpiListEnd s1 = PpiListEnd s" "NotifyListEnd s1 = NotifyListEnd s" "represents s1 ps (cs @ ns) (ds @ [n])"
      by blast
    have d1: "descriptors s1 = descriptors s" using s1(2) by (simp add: same_outside_def)
    have "b - 1 = NotifyListEnd s1 + int (length ns)" using b s1(4) by simp
    from Cons.IH[OF s1(5) this] show ?thesis
      unfolding l s1(1) using s1(3,4) same_outside_trans[OF s1(2)] True by (auto simp: d1)
  next
    case False
    have e: "entry_at s b = Some n"
    proof -
      have i: "length cs \<le> length (cs @ n # ns)" "b = DispatchListEnd s - int (length cs)"
        using Cons.prems(1) b by (auto elim!: representsE)
      from callback_entries[OF Cons.prems(1) i] have "map (entry_at s) (rev [NotifyListEnd s + 1..b]) = map Some (n # ns)" by simp
      then show ?thesis unfolding l by simp
    qed
    have "represents s ps ((cs @ [n]) @ ns) ds" using Cons.prems(1) by simp
    moreover have "b - 1 = NotifyListEnd s + int (length ns)" using b by simp
    ultimately have "\<exists>s'. move_dispatch (rev [NotifyListEnd s + 1..b - 1]) s = Some s' \<and> same_outside s s' \<and>
      PpiListEnd s' = PpiListEnd s \<and> NotifyListEnd s' = NotifyListEnd s \<and>
      represents s' ps ((cs @ [n]) @ filter (\<lambda>n. \<not> ?d n) ns) (ds @ filter ?d ns)"
      by (rule Cons.IH)
    moreover have "move_dispatch (b # rev [NotifyListEnd s + 1..b - 1]) s = move_dispatch (rev [NotifyListEnd s + 1..b - 1]) s"
      using e False by (simp add: is_dispatch_def)
    ultimately show ?thesis unfolding l using False by simp
  qed
qed

subsection \<open>The order of the calls\<close>

text \<open>The calls of notifications: the descriptor of the notification and the interface.\<close>

type_synonym recorded = "(u64 \<times> u64) list"

text \<open>The matching pairs of notifications ns and PPIs ps, in the order in which they are called.\<close>

definition matches :: "'w ppi_database \<Rightarrow> u64 list \<Rightarrow> u64 list \<Rightarrow> recorded" where
  "matches s ns ps = concat (map (\<lambda>n. map (\<lambda>p. (n, Ppi (descriptors s p)))
     (filter (\<lambda>p. same_guid (guids s (Guid (descriptors s p))) (guids s (Guid (descriptors s n)))) ps)) ns)"

lemma matches_cong: "descriptors s' = descriptors s \<Longrightarrow> guids s' = guids s \<Longrightarrow> matches s' = matches s"
  by (simp add: matches_def fun_eq_iff)

lemma matches_same [simp]:
  "matches (s\<lparr>world := w\<rparr>) = matches s"
  "matches (s\<lparr>LastDispatchedNotify := i\<rparr>) = matches s" "matches (s\<lparr>LastDispatchedInstall := i\<rparr>) = matches s"
  by (rule matches_cong; simp)+

lemma matches_outside: "same_outside s s' \<Longrightarrow> matches s' = matches s"
  by (rule matches_cong) (simp_all add: same_outside_def)

lemma matches_Nil [simp]: "matches s [] ps = []" "matches s ns [] = []"
  by (simp_all add: matches_def)

lemma matches_append: "matches s (ns @ ms) ps = matches s ns ps @ matches s ms ps"
  by (simp add: matches_def)

lemma matches_Cons: "matches s (n # ns) ps = matches s [n] ps @ matches s ns ps"
  by (simp add: matches_def)

lemma mset_matches_append: "mset (matches s ns (ps @ qs)) = mset (matches s ns ps) + mset (matches s ns qs)"
proof (induction ns)
  case (Cons n ns)
  have "matches s [n] (ps @ qs) = matches s [n] ps @ matches s [n] qs" by (simp add: matches_def)
  then show ?case using Cons matches_Cons[of s n ns "ps @ qs"] matches_Cons[of s n ns ps] matches_Cons[of s n ns qs] by simp
qed simp

fun call_all :: "'w notify_function \<Rightarrow> recorded \<Rightarrow> 'w ppi_database \<Rightarrow> 'w ppi_database option" where
  "call_all notify [] s = Some s"
| "call_all notify ((n, i) # calls) s = do {
     s \<leftarrow> notify (Ppi (descriptors s n)) n i s;
     call_all notify calls s
   }"

lemma call_all_append: "call_all notify (xs @ ys) s = do { s \<leftarrow> call_all notify xs s; call_all notify ys s }"
  by (induction notify xs s rule: call_all.induct) (auto split: bind_splits)

text \<open>A database that has grown: PPIs and callbacks have been appended, and nothing else has changed.\<close>

definition extends :: "'w ppi_database \<Rightarrow> 'w ppi_database \<Rightarrow> bool" where
  "extends s s' \<longleftrightarrow> (\<exists>ps cs ds ps' cs'. represents s ps cs ds \<and> represents s' (ps @ ps') (cs @ cs') ds) \<and>
     same_outside (s\<lparr>world := world s'\<rparr>) s'"

text \<open>Notifications that only append PPIs and callbacks, in memory with the descriptors d.\<close>

definition orderly :: "(u64 \<Rightarrow> ppi_descriptor) \<Rightarrow> 'w notify_function \<Rightarrow> bool" where
  "orderly d notify \<longleftrightarrow> (\<forall>f n i s. descriptors s = d \<and> (\<exists>ps cs ds. represents s ps cs ds) \<longrightarrow>
     (\<exists>s'. notify f n i s = Some s' \<and> extends s s'))"

lemma represents_unique:
  assumes "represents s ps cs ds" "represents s ps' cs' ds'"
  shows "ps' = ps \<and> cs' = cs \<and> ds' = ds"
proof -
  obtain hole where h: "PpiListPtrs s = ps @ hole @ rev cs @ rev ds" "length hole = room_left s"
    "PpiListEnd s = int (length ps)" "DispatchListEnd s = int (length ps + room_left s + length cs) - 1"
    by (rule representsE[OF assms(1)])
  obtain hole' where h': "PpiListPtrs s = ps' @ hole' @ rev cs' @ rev ds'" "length hole' = room_left s"
    "PpiListEnd s = int (length ps')" "DispatchListEnd s = int (length ps' + room_left s + length cs') - 1"
    by (rule representsE[OF assms(2)])
  have l: "length ps' = length ps" "length cs' = length cs" using h(3,4) h'(3,4) by simp_all
  have "ps @ hole @ rev cs @ rev ds = ps' @ hole' @ rev cs' @ rev ds'" using h(1) h'(1) by simp
  then show ?thesis using l h(2) h'(2) by simp
qed

lemma extendsI:
  "represents s ps cs ds \<Longrightarrow> represents s' (ps @ ps') (cs @ cs') ds \<Longrightarrow> same_outside (s\<lparr>world := world s'\<rparr>) s' \<Longrightarrow> extends s s'"
  unfolding extends_def by blast

lemma extendsE:
  assumes "extends s s'" "represents s ps cs ds"
  obtains ps' cs' where "represents s' (ps @ ps') (cs @ cs') ds"
  using assms represents_unique[OF assms(2)] unfolding extends_def by blast

lemma extendsD:
  assumes "extends s s'"
  shows "descriptors s' = descriptors s" "guids s' = guids s" "LastDispatchedInstall s' = LastDispatchedInstall s"
    "LastDispatchedNotify s' = LastDispatchedNotify s" "length (PpiListPtrs s') = length (PpiListPtrs s)"
    "matches s' = matches s"
  using assms by (auto simp: extends_def same_outside_def intro: matches_cong)

lemma extends_refl: "represents s ps cs ds \<Longrightarrow> extends s s"
  by (rule extendsI[where ps' = "[]" and cs' = "[]"]) (simp_all add: same_outside_def)

lemma extends_world: "represents s ps cs ds \<Longrightarrow> extends s (s\<lparr>world := w\<rparr>)"
  by (rule extendsI[where ps' = "[]" and cs' = "[]"]) (simp_all add: same_outside_def)

lemma extends_trans:
  assumes "extends s s'" "extends s' s''"
  shows "extends s s''"
proof -
  obtain ps cs ds where r: "represents s ps cs ds" using assms(1) by (auto simp: extends_def)
  obtain ps' cs' where r': "represents s' (ps @ ps') (cs @ cs') ds" by (rule extendsE[OF assms(1) r])
  obtain ps'' cs'' where "represents s'' ((ps @ ps') @ ps'') ((cs @ cs') @ cs'') ds" by (rule extendsE[OF assms(2) r'])
  then have "represents s'' (ps @ (ps' @ ps'')) (cs @ (cs' @ cs'')) ds" by simp
  moreover have "same_outside (s\<lparr>world := world s''\<rparr>) s''" using assms by (auto simp: extends_def same_outside_def)
  ultimately show ?thesis using r by (blast intro: extendsI)
qed

text \<open>The entries in use keep their places.\<close>

definition in_use :: "'w ppi_database \<Rightarrow> int \<Rightarrow> bool" where
  "in_use s i \<longleftrightarrow> 0 \<le> i \<and> i < PpiListEnd s \<or> NotifyListEnd s < i \<and> i < int (length (PpiListPtrs s))"

lemma extends_entry:
  assumes "extends s s'" "in_use s i"
  shows "entry_at s' i = entry_at s i" "in_use s' i"
proof -
  obtain ps cs ds where r: "represents s ps cs ds" using assms(1) by (auto simp: extends_def)
  obtain ps' cs' where r': "represents s' (ps @ ps') (cs @ cs') ds" by (rule extendsE[OF assms(1) r])
  obtain hole where h: "PpiListPtrs s = ps @ hole @ rev cs @ rev ds" "length hole = room_left s"
    "PpiListEnd s = int (length ps)" "NotifyListEnd s = int (length ps + room_left s) - 1"
    "length (PpiListPtrs s) = length ps + room_left s + length cs + length ds" by (rule representsE[OF r])
  obtain hole' where h': "PpiListPtrs s' = (ps @ ps') @ hole' @ rev (cs @ cs') @ rev ds" "length hole' = room_left s'"
    "PpiListEnd s' = int (length (ps @ ps'))" "NotifyListEnd s' = int (length (ps @ ps') + room_left s') - 1"
    "length (PpiListPtrs s') = length (ps @ ps') + room_left s' + length (cs @ cs') + length ds" by (rule representsE[OF r'])
  have l: "length (PpiListPtrs s') = length (PpiListPtrs s)" by (rule extendsD(5)[OF assms(1)])
  let ?j = "length ps + length hole"
  have j: "?j = length (ps @ ps' @ hole' @ rev cs')" using l h(2,5) h'(2,5) by simp
  have "nat i < length ps \<or> ?j \<le> nat i" "0 \<le> i" "i < int (length (PpiListPtrs s))"
    using assms(2) h(2-5) by (auto simp: in_use_def)
  moreover have "PpiListPtrs s' ! k = PpiListPtrs s ! k" if "k < length ps" for k
    using that h(1) h'(1) by (simp add: nth_append)
  moreover have "PpiListPtrs s' ! k = PpiListPtrs s ! k" if "?j \<le> k" for k
  proof -
    have "PpiListPtrs s = (ps @ hole) @ rev cs @ rev ds" "PpiListPtrs s' = (ps @ ps' @ hole' @ rev cs') @ rev cs @ rev ds"
      using h(1) h'(1) by simp_all
    then show ?thesis using that j by (simp add: nth_append del: append_assoc)
  qed
  ultimately show "entry_at s' i = entry_at s i" using l by (auto simp: entry_at_def)
  show "in_use s' i" using assms(2) h h' l by (auto simp: in_use_def)
qed

lemma extends_entries:
  assumes "extends s s'" "list_all (in_use s) is"
  shows "map (entry_at s') is = map (entry_at s) is" "list_all (in_use s') is"
  using assms extends_entry[OF assms(1)] by (auto simp: list_all_iff)

lemma orderly_call:
  assumes "orderly (descriptors s) notify" "represents s ps cs ds"
  shows "\<exists>s'. notify f n i s = Some s' \<and> extends s s'"
  using assms unfolding orderly_def by blast

lemma orderly_call_all:
  assumes "orderly (descriptors s) notify" "represents s ps cs ds"
  shows "\<exists>s'. call_all notify xs s = Some s' \<and> extends s s'"
  using assms
proof (induction xs arbitrary: s ps cs)
  case Nil
  then show ?case by (simp add: extends_refl)
next
  case (Cons x xs)
  obtain s1 where s1: "notify (Ppi (descriptors s (fst x))) (fst x) (snd x) s = Some s1" "extends s s1"
    using orderly_call[OF Cons.prems] by blast
  obtain ps' cs' where "represents s1 (ps @ ps') (cs @ cs') ds" by (rule extendsE[OF s1(2) Cons.prems(2)])
  moreover have "orderly (descriptors s1) notify" using Cons.prems(1) extendsD(1)[OF s1(2)] by simp
  ultimately obtain s2 where "call_all notify xs s1 = Some s2" "extends s1 s2" using Cons.IH by blast
  then show ?case using s1 extends_trans[OF s1(2)] by (cases x) auto
qed

lemma dispatch_installs_calls:
  assumes "orderly (descriptors s) notify" "represents s ps cs ds" "map (entry_at s) is = map Some qs" "list_all (in_use s) is"
  shows "dispatch_installs notify n (Guid (descriptors s n)) is s = call_all notify (matches s [n] qs) s"
  using assms
proof (induction "is" arbitrary: s qs ps cs)
  case (Cons i "is")
  then obtain p rs where p: "qs = p # rs" "entry_at s i = Some p" "map (entry_at s) is = map Some rs" by (cases qs) auto
  have u: "list_all (in_use s) is" using Cons.prems(4) by simp
  show ?case
  proof (cases "same_guid (guids s (Guid (descriptors s p))) (guids s (Guid (descriptors s n)))")
    case True
    then have m: "matches s [n] qs = (n, Ppi (descriptors s p)) # matches s [n] rs" by (simp add: matches_def p(1))
    obtain s1 where s1: "notify (Ppi (descriptors s n)) n (Ppi (descriptors s p)) s = Some s1" "extends s s1"
      using orderly_call[OF Cons.prems(1,2)] by blast
    obtain ps' cs' where r1: "represents s1 (ps @ ps') (cs @ cs') ds" by (rule extendsE[OF s1(2) Cons.prems(2)])
    note D = extendsD[OF s1(2)] and E = extends_entries[OF s1(2) u]
    have "orderly (descriptors s1) notify" "map (entry_at s1) is = map Some rs" using Cons.prems(1) D(1) E(1) p(3) by simp_all
    from Cons.IH[OF this(1) r1 this(2) E(2)] show ?thesis using True p(2) s1(1) D(1,6) by (simp add: m)
  next
    case False
    then have "matches s [n] qs = matches s [n] rs" by (simp add: matches_def p(1))
    then show ?thesis using Cons.IH[OF Cons.prems(1,2) p(3) u] False p(2) by simp
  qed
qed simp

lemma dispatch_notifies_calls:
  assumes "orderly (descriptors s) notify" "represents s ps cs ds" "map (entry_at s) is = map Some qs" "list_all (in_use s) is"
    "map (entry_at s) js = map Some ns" "list_all (in_use s) js"
  shows "dispatch_notifies notify is js s = call_all notify (matches s ns qs) s"
  using assms
proof (induction js arbitrary: s ns ps cs)
  case (Cons j js)
  then obtain n ms where n: "ns = n # ms" "entry_at s j = Some n" "map (entry_at s) js = map Some ms" by (cases ns) auto
  have u: "list_all (in_use s) js" using Cons.prems(6) by simp
  have first: "dispatch_installs notify n (Guid (descriptors s n)) is s = call_all notify (matches s [n] qs) s"
    by (rule dispatch_installs_calls[OF Cons.prems(1-4)])
  obtain s1 where s1: "call_all notify (matches s [n] qs) s = Some s1" "extends s s1"
    using orderly_call_all[OF Cons.prems(1,2)] by blast
  obtain ps' cs' where r1: "represents s1 (ps @ ps') (cs @ cs') ds" by (rule extendsE[OF s1(2) Cons.prems(2)])
  note D = extendsD[OF s1(2)] and E = extends_entries[OF s1(2)]
  have "orderly (descriptors s1) notify" "map (entry_at s1) is = map Some qs" "map (entry_at s1) js = map Some ms"
    using Cons.prems(1,3) D(1) E(1)[OF Cons.prems(4)] E(1)[OF u] n(3) by simp_all
  from Cons.IH[OF this(1) r1 this(2) E(2)[OF Cons.prems(4)] this(3) E(2)[OF u]]
  show ?case using n(2) first s1(1) D(6) matches_Cons[of s n ms qs] by (simp add: n(1) call_all_append)
qed simp

lemma DispatchNotify_calls:
  assumes "orderly (descriptors s) notify" "represents s ps cs ds"
    "map (entry_at s) [a..b - 1] = map Some qs" "0 \<le> a" "b \<le> PpiListEnd s"
    "map (entry_at s) (rev [d + 1..c]) = map Some ns" "NotifyListEnd s \<le> d" "c < int (length (PpiListPtrs s))"
  shows "DispatchNotify notify t a b c d s = call_all notify (matches s ns qs) s"
  unfolding DispatchNotify_def
  by (rule dispatch_notifies_calls[OF assms(1-3) _ assms(6)]) (use assms in \<open>auto simp: list_all_iff in_use_def\<close>)

subsection \<open>Services\<close>

lemma representsD:
  assumes "represents s ps cs ds"
  shows "PpiListEnd s = int (length ps)" "NotifyListEnd s \<le> DispatchListEnd s" "DispatchListEnd s < int (length (PpiListPtrs s))"
    "PpiListEnd s \<le> NotifyListEnd s + 1" "DispatchListEnd s = int (length (PpiListPtrs s)) - 1 - int (length ds)"
  using assms by (auto elim!: representsE)

lemma install_calls:
  assumes r: "represents s ps cs ds" and L: "L \<noteq> 0"
    and rd: "read_list (room_left s) (descriptors s) EFI_PEI_PPI_DESCRIPTOR_PPI L = (st, ns)" and o: "orderly (descriptors s) notify"
  shows "\<exists>s1. represents s1 (if st = EFI_INVALID_PARAMETER then ps else ps @ ns) cs ds \<and> same_outside s s1 \<and>
    PeiInstallPpi notify L s = (if st = EFI_SUCCESS then map_option (Pair EFI_SUCCESS) (call_all notify (matches s cs ns) s1)
      else Some (st, s1))"
proof -
  have e: "PpiListEnd s = int (length ps)" using r by (auto elim: representsE)
  have "PpiListEnd s \<le> int (length ps)" "0 \<le> PpiListEnd s" using e by simp_all
  moreover have n: "take (nat (PpiListEnd s)) ps = ps" using e by simp
  ultimately obtain s1 where s1: "install_loop (PpiListEnd s) L (PpiListEnd s) s = Some (st, s1)" "same_outside s s1"
    "represents s1 (if st = EFI_INVALID_PARAMETER then ps else ps @ ns) cs ds"
    using install_loop_reads[OF r rd, of "PpiListEnd s"] by (auto simp only: n)
  show ?thesis
  proof (cases "st = EFI_SUCCESS")
    case False
    then show ?thesis using s1 L by (auto simp: PeiInstallPpi_def Let_def)
  next
    case True
    have r1: "represents s1 (ps @ ns) cs ds" using s1(3) True by simp
    have "map (entry_at s1) [PpiListEnd s..PpiListEnd s1 - 1] = map Some ns"
      using ppi_entries(1)[OF r1, of "length ps"] e by simp
    moreover have "map (entry_at s1) (rev [NotifyListEnd s1 + 1..DispatchListEnd s1]) = map Some cs"
      using callback_entries[OF r1, of 0] by simp
    moreover have "orderly (descriptors s1) notify" "0 \<le> PpiListEnd s" using o s1(2) e by (simp_all add: same_outside_def)
    ultimately have "DispatchNotify notify t (PpiListEnd s) (PpiListEnd s1) (DispatchListEnd s1) (NotifyListEnd s1) s1 =
        call_all notify (matches s1 cs ns) s1" for t
      using representsD(3)[OF r1] by (intro DispatchNotify_calls[OF _ r1]) simp_all
    then have "PeiInstallPpi notify L s = map_option (Pair EFI_SUCCESS) (call_all notify (matches s cs ns) s1)"
      using s1(1) L True matches_outside[OF s1(2)]
      by (cases "call_all notify (matches s cs ns) s1") (simp_all add: PeiInstallPpi_def Let_def)
    then show ?thesis using r1 s1(2) True by (intro exI[of _ s1]) simp
  qed
qed

lemma few_dispatch:
  assumes "length ns \<le> 4294967295"
  shows "sint (word_of_nat (length (filter P ns)) :: u64) = int (length (filter P ns))"
    "(0 :: u64) < word_of_nat (length (filter P ns)) \<longleftrightarrow> filter P ns \<noteq> []"
proof -
  have l: "length (filter P ns) \<le> 4294967295" using assms length_filter_le[of P ns] by linarith
  then show "sint (word_of_nat (length (filter P ns)) :: u64) = int (length (filter P ns))"
    by (simp add: signed_of_nat signed_take_bit_int_eq_self)
  have "unat (word_of_nat (length (filter P ns)) :: u64) = length (filter P ns)" using l by (simp add: unat_of_nat)
  then show "(0 :: u64) < word_of_nat (length (filter P ns)) \<longleftrightarrow> filter P ns \<noteq> []"
    by (simp add: word_less_nat_alt)
qed

lemma notify_calls:
  assumes r: "represents s ps cs ds" and L: "L \<noteq> 0"
    and rd: "read_list (room_left s) (descriptors s) EFI_PEI_PPI_DESCRIPTOR_NOTIFY_TYPES L = (st, ns)"
    and o: "orderly (descriptors s) notify"
  defines "d \<equiv> is_dispatch (descriptors s)"
  shows "\<exists>s1. (if st = EFI_SUCCESS then represents s1 ps (cs @ filter (\<lambda>n. \<not> d n) ns) (ds @ filter d ns)
      else represents s1 ps (if st = EFI_INVALID_PARAMETER then cs else cs @ ns) ds) \<and> same_outside s s1 \<and>
    PeiNotifyPpi notify L s = (if st = EFI_SUCCESS
      then map_option (Pair EFI_SUCCESS) (call_all notify (matches s (filter (\<lambda>n. \<not> d n) ns) ps) s1) else Some (st, s1))"
proof -
  have h: "NotifyListEnd s = int (length ps + room_left s) - 1"
    "DispatchListEnd s = int (length ps + room_left s + length cs) - 1"
    using r by (auto elim: representsE)
  let ?c = "word_of_nat (length (filter d ns)) :: u64"
  have dd: "d = (\<lambda>n. Flags (descriptors s n) AND EFI_PEI_PPI_DESCRIPTOR_NOTIFY_DISPATCH \<noteq> 0)"
    by (simp add: d_def is_dispatch_def fun_eq_iff)
  have "NotifyListEnd s \<le> NotifyListEnd s" "NotifyListEnd s \<le> DispatchListEnd s" using h by simp_all
  moreover have n: "take (nat (DispatchListEnd s - NotifyListEnd s)) cs = cs" using h by simp
  ultimately have "\<exists>s1. notify_loop (NotifyListEnd s) L (NotifyListEnd s) 0 s = Some (st, ?c, s1) \<and> same_outside s s1 \<and>
    PpiListEnd s1 = PpiListEnd s \<and> DispatchListEnd s1 = DispatchListEnd s \<and>
    represents s1 ps (if st = EFI_INVALID_PARAMETER then cs else cs @ ns) ds"
    using notify_loop_reads[OF r rd, of "NotifyListEnd s" 0, unfolded n add_0, folded dd] by blast
  then
  obtain s1 where s1: "notify_loop (NotifyListEnd s) L (NotifyListEnd s) 0 s = Some (st, ?c, s1)" "same_outside s s1"
    "PpiListEnd s1 = PpiListEnd s" "DispatchListEnd s1 = DispatchListEnd s"
    "represents s1 ps (if st = EFI_INVALID_PARAMETER then cs else cs @ ns) ds"
    by blast
  show ?thesis
  proof (cases "st = EFI_SUCCESS")
    case False
    then show ?thesis using s1 L by (auto simp: PeiNotifyPpi_def Let_def)
  next
    case True
    have r1: "represents s1 ps (cs @ ns) ds" using s1(5) True by simp
    have d1: "is_dispatch (descriptors s1) = d" using s1(2) by (simp add: same_outside_def d_def)
    have "length (PpiListPtrs s1) = length ps + room_left s1 + length (cs @ ns) + length ds" "length (PpiListPtrs s1) \<le> 4294967295"
      using r1 by (auto elim: representsE)
    then have small: "length ns \<le> 4294967295" by simp
    have lim: "NotifyListEnd s = NotifyListEnd s1 + int (length ns)"
    proof -
      have "DispatchListEnd s1 = NotifyListEnd s1 + int (length (cs @ ns))" using r1 by (auto elim: representsE)
      then show ?thesis using s1(4) h by simp
    qed
    from move_dispatch_run[OF r1 lim] d1
    obtain s2 where s2: "move_dispatch (rev [NotifyListEnd s1 + 1..NotifyListEnd s]) s1 = Some s2" "same_outside s1 s2"
      "PpiListEnd s2 = PpiListEnd s1" "NotifyListEnd s2 = NotifyListEnd s1"
      "represents s2 ps (cs @ filter (\<lambda>n. \<not> d n) ns) (ds @ filter d ns)" by auto
    define s3 where "s3 = (if filter d ns \<noteq> [] then s2 else s1)"
    have s3: "same_outside s s3" "PpiListEnd s3 = PpiListEnd s" "NotifyListEnd s3 = NotifyListEnd s1"
      "represents s3 ps (cs @ filter (\<lambda>n. \<not> d n) ns) (ds @ filter d ns)"
      using s1(2,3) s2(2-5) r1 same_outside_trans[OF s1(2) s2(2)]
      by (auto simp: s3_def filter_empty_conv filter_id_conv)
    define stop where "stop = NotifyListEnd s - int (length (filter d ns))"
    have step: "(if ?c > 0 then do {
          s' \<leftarrow> move_dispatch (rev [NotifyListEnd s1 + 1..NotifyListEnd s]) s1;
          Some (NotifyListEnd s - sint ?c, s')
        } else Some (NotifyListEnd s, s1)) = Some (stop, s3)"
      using s2(1) few_dispatch[OF small, of d] by (simp add: stop_def s3_def)
    have "length (filter d ns) + length (filter (\<lambda>n. \<not> d n) ns) = length ns" by (rule sum_length_filter_compl)
    then have "stop = DispatchListEnd s3 - int (length cs)"
      using s3(3,4) lim unfolding stop_def by (auto elim!: representsE)
    from callback_entries[OF s3(4) _ this] have "map (entry_at s3) (rev [NotifyListEnd s3 + 1..stop]) = map Some (filter (\<lambda>n. \<not> d n) ns)"
      by simp
    moreover have "map (entry_at s3) [0..PpiListEnd s3 - 1] = map Some ps"
      using ppi_entries(1)[OF s3(4), of 0] by simp
    moreover have "orderly (descriptors s3) notify" using o s3(1) by (simp add: same_outside_def)
    moreover have "stop < int (length (PpiListPtrs s3))"
      using representsD[OF r] s3(1) by (simp add: stop_def same_outside_def)
    ultimately have "DispatchNotify notify t 0 (PpiListEnd s3) stop (NotifyListEnd s3) s3 =
        call_all notify (matches s3 (filter (\<lambda>n. \<not> d n) ns) ps) s3" for t
      by (intro DispatchNotify_calls[OF _ s3(4)]) simp_all
    then have "PeiNotifyPpi notify L s = map_option (Pair EFI_SUCCESS) (call_all notify (matches s (filter (\<lambda>n. \<not> d n) ns) ps) s3)"
      using s1(1) L True step matches_outside[OF s3(1)]
      by (cases "call_all notify (matches s (filter (\<lambda>n. \<not> d n) ns) ps) s3") (simp_all add: PeiNotifyPpi_def Let_def)
    then show ?thesis using s3(1,4) True by (intro exI[of _ s3]) simp
  qed
qed

lemma find_entry_first:
  assumes "map (entry_at s) is = map Some ps"
  shows "find_entry p is s = Some (if p \<in> set ps then Some (is ! length (takeWhile (\<lambda>q. q \<noteq> p) ps)) else None)"
  using assms
proof (induction "is" arbitrary: ps)
  case (Cons i "is")
  then obtain q qs where q: "ps = q # qs" "entry_at s i = Some q" "map (entry_at s) is = map Some qs" by (cases ps) auto
  show ?case using q(2) Cons.IH[OF q(3)] by (cases "p = q") (simp_all add: q(1))
qed simp

lemma reinstall_calls:
  assumes r: "represents s ps cs ds" and p: "P \<noteq> 0" "N \<noteq> 0" "Flags (descriptors s N) AND EFI_PEI_PPI_DESCRIPTOR_PPI \<noteq> 0" "P \<in> set ps"
    and o: "orderly (descriptors s) notify"
  defines "i \<equiv> length (takeWhile (\<lambda>q. q \<noteq> P) ps)"
  shows "\<exists>s1. represents s1 (ps[i := N]) cs ds \<and> same_outside s s1 \<and>
    PeiReInstallPpi notify P N s = map_option (Pair EFI_SUCCESS) (call_all notify (matches s cs [N]) s1)"
proof -
  have i: "i < length ps" unfolding i_def using p(4) by (induction ps) auto
  obtain hole where h: "PpiListPtrs s = ps @ hole @ rev cs @ rev ds" "length hole = room_left s"
    "PpiListEnd s = int (length ps)" "NotifyListEnd s = int (length ps + room_left s) - 1"
    "DispatchListEnd s = int (length ps + room_left s + length cs) - 1" "length (PpiListPtrs s) \<le> 4294967295"
    by (rule representsE[OF r])
  let ?s = "s\<lparr>PpiListPtrs := (PpiListPtrs s)[i := N]\<rparr>"
  have r': "represents ?s (ps[i := N]) cs ds"
    by (rule representsI[where hole = hole]) (use h i in \<open>simp_all add: list_update_append\<close>)
  have "map (entry_at s) [0..PpiListEnd s - 1] = map Some ps" using ppi_entries(1)[OF r, of 0] by simp
  from find_entry_first[OF this, of P] p(4) have find: "find_entry P [0..PpiListEnd s - 1] s = Some (Some (int i))"
    using i h(3) by (simp add: i_def)
  have set: "set_entry (int i) N s = Some ?s" using i h(1) by (simp add: set_entry_def)
  have "map (entry_at ?s) [int i..int (Suc i) - 1] = map Some [N]" using i h(1) by (simp add: entry_at_def nth_append)
  moreover have "map (entry_at ?s) (rev [NotifyListEnd ?s + 1..DispatchListEnd ?s]) = map Some cs"
    using callback_entries[OF r', of 0 "DispatchListEnd ?s"] by simp
  moreover have "orderly (descriptors ?s) notify" "int (Suc i) \<le> PpiListEnd ?s" using o i h(3) by simp_all
  ultimately have run: "DispatchNotify notify t (int i) (int (Suc i)) (DispatchListEnd ?s) (NotifyListEnd ?s) ?s =
      call_all notify (matches ?s cs [N]) ?s" for t
    using representsD(3)[OF r'] by (intro DispatchNotify_calls[OF _ r']) simp_all
  have "matches ?s = matches s" by (rule matches_cong) simp_all
  then have "PeiReInstallPpi notify P N s = map_option (Pair EFI_SUCCESS) (call_all notify (matches s cs [N]) ?s)"
    using run p find set
    by (cases "call_all notify (matches s cs [N]) ?s") (simp_all add: PeiReInstallPpi_def add.commute)
  then show ?thesis using r' by (intro exI[of _ ?s]) (simp add: same_outside_def)
qed

lemma locate_loop_nth:
  assumes "map (entry_at s) is = map Some ps"
  shows "locate_loop G I is s = Some (let ms = filter (\<lambda>p. same_guid (guids s G) (guids s (Guid (descriptors s p)))) ps in
    if unat I < length ms
    then (EFI_SUCCESS, Some (ms ! unat I, Ppi (descriptors s (ms ! unat I)))) else (EFI_NOT_FOUND, None))"
  using assms
proof (induction "is" arbitrary: ps I)
  case (Cons i "is")
  then obtain p qs where p: "ps = p # qs" "entry_at s i = Some p" "map (entry_at s) is = map Some qs" by (cases ps) auto
  have d: "unat I = Suc (unat (I - 1))" if "I \<noteq> 0" using that unat_minus_one[OF that] by (simp add: unat_eq_zero[symmetric])
  show ?case
    using p(2) Cons.IH[OF p(3)] d by (cases "I = 0") (auto simp: p(1) Let_def)
qed simp

lemma locate_run:
  assumes "represents s ps cs ds"
  shows "PeiLocatePpi G I s = Some (let ms = filter (\<lambda>p. same_guid (guids s G) (guids s (Guid (descriptors s p)))) ps in
    if unat I < length ms then (EFI_SUCCESS, Some (ms ! unat I, Ppi (descriptors s (ms ! unat I)))) else (EFI_NOT_FOUND, None))"
proof -
  have "map (entry_at s) [0..PpiListEnd s - 1] = map Some ps" using ppi_entries(1)[OF assms, of 0] by simp
  from locate_loop_nth[OF this] show ?thesis by (simp add: PeiLocatePpi_def Let_def)
qed

subsection \<open>Pending notifications\<close>

text \<open>The database with k notifications of dispatch level that have been called for the first j PPIs.\<close>

definition pending :: "'w ppi_database \<Rightarrow> u64 list \<Rightarrow> u64 list \<Rightarrow> u64 list \<Rightarrow> nat \<Rightarrow> nat \<Rightarrow> bool" where
  "pending s ps cs ds k j \<longleftrightarrow> represents s ps cs ds \<and> k \<le> length ds \<and> j \<le> length ps \<and>
     LastDispatchedNotify s = int (length (PpiListPtrs s)) - 1 - int k \<and> LastDispatchedInstall s = int j"

lemma pending_simps [simp]:
  "pending (s\<lparr>world := w\<rparr>) ps cs ds k j = pending s ps cs ds k j"
  by (simp add: pending_def)

lemma dispatch_end: "represents s ps cs ds \<Longrightarrow> DispatchListEnd s = int (length (PpiListPtrs s)) - 1 - int (length ds)"
  by (rule representsD(5))

lemma ppi_end: "represents s ps cs ds \<Longrightarrow> PpiListEnd s = int (length ps)"
  by (rule representsD(1))

end
