(* ===== verification/Ppi_Safe.thy ===== *)
theory Ppi_Safe
  imports Ppi_Run
begin

text \<open>
  The services with notifications that change the database through the services: every call returns,
  no index leaves the array, PPIs and notifications never meet, and ProcessNotifyList ends.
\<close>

definition ppi_ok :: "'w ppi_database \<Rightarrow> bool" where
  "ppi_ok s \<longleftrightarrow> (\<exists>ps cs ds k j. pending s ps cs ds k j)"

definition moves :: "'w ppi_database \<Rightarrow> 'w ppi_database \<Rightarrow> bool" where
  "moves s s' \<longleftrightarrow> length (PpiListPtrs s') = length (PpiListPtrs s) \<and> PpiListEnd s \<le> PpiListEnd s' \<and>
     NotifyListEnd s' \<le> NotifyListEnd s \<and> DispatchListEnd s' \<le> DispatchListEnd s \<and>
     LastDispatchedInstall s \<le> LastDispatchedInstall s' \<and> LastDispatchedNotify s' \<le> LastDispatchedNotify s"

definition grows :: "'w ppi_database \<Rightarrow> 'w ppi_database \<Rightarrow> bool" where
  "grows s s' \<longleftrightarrow> ppi_ok s' \<and> moves s s' \<and> LastDispatchedInstall s' = LastDispatchedInstall s \<and>
     LastDispatchedNotify s' = LastDispatchedNotify s"

definition well_behaved :: "'w notify_function \<Rightarrow> bool" where
  "well_behaved notify \<longleftrightarrow> (\<forall>f d i s. ppi_ok s \<longrightarrow> (\<exists>s'. notify f d i s = Some s' \<and> grows s s'))"

lemma moves_refl [simp]: "moves s s"
  by (simp add: moves_def)

lemma moves_trans: "moves s s' \<Longrightarrow> moves s' s'' \<Longrightarrow> moves s s''"
  by (simp add: moves_def)

lemma grows_refl: "ppi_ok s \<Longrightarrow> grows s s"
  by (simp add: grows_def)

lemma grows_trans: "grows s s' \<Longrightarrow> grows s' s'' \<Longrightarrow> grows s s''"
  using moves_trans unfolding grows_def by metis

lemma ppi_bounds:
  assumes "ppi_ok s"
  shows "0 \<le> LastDispatchedInstall s" "LastDispatchedInstall s \<le> PpiListEnd s" "PpiListEnd s \<le> NotifyListEnd s + 1"
    "NotifyListEnd s \<le> DispatchListEnd s" "DispatchListEnd s \<le> LastDispatchedNotify s"
    "LastDispatchedNotify s < int (length (PpiListPtrs s))"
  using assms by (auto simp: ppi_ok_def pending_def elim!: representsE)

lemma if_SomeI:
  assumes "c \<Longrightarrow> \<exists>x. a = Some x \<and> P x" "\<not> c \<Longrightarrow> \<exists>x. b = Some x \<and> P x"
  shows "\<exists>x. (if c then a else b) = Some x \<and> P x"
  using assms by (cases c) simp_all

subsection \<open>Notification loops\<close>

definition inside :: "'w ppi_database \<Rightarrow> int list \<Rightarrow> bool" where
  "inside s is \<longleftrightarrow> (\<forall>i \<in> set is. 0 \<le> i \<and> i < int (length (PpiListPtrs s)))"

lemma inside_grows: "grows s s' \<Longrightarrow> inside s is \<Longrightarrow> inside s' is"
  by (simp add: inside_def grows_def moves_def)

lemma entry_inside: "inside s (i # is) \<Longrightarrow> \<exists>p. entry_at s i = Some p"
  by (simp add: inside_def entry_at_def)

lemma dispatch_installs_safe:
  assumes "well_behaved notify" "ppi_ok s" "inside s is"
  shows "\<exists>s'. dispatch_installs notify n g is s = Some s' \<and> grows s s'"
  using assms(2,3)
proof (induction "is" arbitrary: s)
  case Nil
  then show ?case by (simp add: grows_refl)
next
  case (Cons i "is")
  obtain p where p: "entry_at s i = Some p" using entry_inside[OF Cons.prems(2)] by blast
  define r where "r = (if same_guid (guids s (Guid (descriptors s p))) (guids s g)
    then notify (Ppi (descriptors s n)) n (Ppi (descriptors s p)) s else Some s)"
  have call: "\<exists>s1. notify f d' i' s = Some s1 \<and> grows s s1" for f d' i' using assms(1) Cons.prems(1) by (simp add: well_behaved_def)
  have "\<exists>s1. r = Some s1 \<and> grows s s1" 
    unfolding r_def by (rule if_SomeI) (use call grows_refl[OF Cons.prems(1)] in blast)+
  then obtain s1 where s1: "r = Some s1" "grows s s1" by blast
  have "ppi_ok s1" "inside s1 is" using s1(2) inside_grows[OF s1(2)] Cons.prems(2) by (auto simp: grows_def inside_def)
  from Cons.IH[OF this] obtain s2 where s2: "dispatch_installs notify n g is s1 = Some s2" "grows s1 s2" by blast
  have "dispatch_installs notify n g (i # is) s = Option.bind r (dispatch_installs notify n g is)"
    using p by (simp add: r_def)
  then show ?case using s1 s2 grows_trans by fastforce
qed

lemma dispatch_notifies_safe:
  assumes "well_behaved notify" "ppi_ok s" "inside s is" "inside s js"
  shows "\<exists>s'. dispatch_notifies notify is js s = Some s' \<and> grows s s'"
  using assms(2-4)
proof (induction js arbitrary: s)
  case Nil
  then show ?case by (simp add: grows_refl)
next
  case (Cons j js)
  obtain n where n: "entry_at s j = Some n" using entry_inside[OF Cons.prems(3)] by blast
  obtain s1 where s1: "dispatch_installs notify n (Guid (descriptors s n)) is s = Some s1" "grows s s1"
    using dispatch_installs_safe[OF assms(1) Cons.prems(1,2)] by blast
  have "ppi_ok s1" "inside s1 is" "inside s1 js"
    using s1(2) inside_grows[OF s1(2)] Cons.prems(2,3) by (auto simp: grows_def inside_def)
  from Cons.IH[OF this] obtain s2 where "dispatch_notifies notify is js s1 = Some s2" "grows s1 s2" by blast
  then show ?case using n s1 grows_trans by fastforce
qed

lemma DispatchNotify_safe:
  assumes "well_behaved notify" "ppi_ok s" "0 \<le> a" "b \<le> PpiListEnd s" "NotifyListEnd s \<le> d" "c < int (length (PpiListPtrs s))"
  shows "\<exists>s'. DispatchNotify notify t a b c d s = Some s' \<and> grows s s'"
proof -
  note B = ppi_bounds[OF assms(2)]
  have "inside s [a..b - 1]" using B assms(3,4) by (auto simp: inside_def)
  moreover have "inside s (rev [d + 1..c])" using B assms(5,6) by (auto simp: inside_def)
  ultimately show ?thesis unfolding DispatchNotify_def using dispatch_notifies_safe[OF assms(1,2)] by blast
qed

subsection \<open>Services\<close>

lemma ppi_ok_change:
  assumes "pending s ps cs ds k j" "represents s' ps' cs' (ds @ ds')" "same_outside s s'" "length ps \<le> length ps'"
    "PpiListEnd s \<le> PpiListEnd s'" "NotifyListEnd s' \<le> NotifyListEnd s" "DispatchListEnd s' \<le> DispatchListEnd s"
  shows "grows s s'"
proof -
  have "pending s' ps' cs' (ds @ ds') k j" using assms by (auto simp: pending_def same_outside_def)
  then have "ppi_ok s'" unfolding ppi_ok_def by blast
  then show ?thesis using assms(3,5-7) by (simp add: grows_def moves_def same_outside_def)
qed

lemma PeiInstallPpi_safe:
  assumes "well_behaved notify" "ppi_ok s"
  shows "\<exists>st s'. PeiInstallPpi notify L s = Some (st, s') \<and> grows s s'"
proof (cases "L = 0")
  case True
  then show ?thesis using assms(2) by (simp add: PeiInstallPpi_def grows_refl)
next
  case False
  obtain ps cs ds k j where p: "pending s ps cs ds k j" using assms(2) by (auto simp: ppi_ok_def)
  then have r: "represents s ps cs ds" by (simp add: pending_def)
  have e: "PpiListEnd s = int (length ps)" by (rule ppi_end[OF r])
  obtain st ns where rd: "read_list (room_left s) (descriptors s) EFI_PEI_PPI_DESCRIPTOR_PPI L = (st, ns)" by fastforce
  have "PpiListEnd s \<le> int (length ps)" "0 \<le> PpiListEnd s" using e by simp_all
  from install_loop_reads[OF r rd this]
  obtain s1 where s1: "install_loop (PpiListEnd s) L (PpiListEnd s) s = Some (st, s1)" "same_outside s s1"
    "represents s1 (if st = EFI_INVALID_PARAMETER then take (nat (PpiListEnd s)) ps else ps @ ns) cs ds" by blast
  define ps1 where "ps1 = (if st = EFI_INVALID_PARAMETER then take (nat (PpiListEnd s)) ps else ps @ ns)"
  have r1: "represents s1 ps1 cs (ds @ [])" "length ps \<le> length ps1" using s1(3) e by (simp_all add: ps1_def)
  have "NotifyListEnd s1 = NotifyListEnd s" "DispatchListEnd s1 = DispatchListEnd s"
    using r r1 s1(2) by (auto simp: same_outside_def elim!: representsE)
  then have g: "grows s s1" using ppi_ok_change[OF p r1(1) s1(2) r1(2)] e ppi_end[OF r1(1)] r1(2) by simp
  show ?thesis
  proof (cases "st = EFI_SUCCESS")
    case True
    have ok1: "ppi_ok s1" using g by (simp add: grows_def)
    have "DispatchListEnd s1 < int (length (PpiListPtrs s1))" using ppi_bounds[OF ok1] by simp
    from DispatchNotify_safe[OF assms(1) ok1 _ order_refl order_refl this]
    obtain s2 where "DispatchNotify notify EFI_PEI_PPI_DESCRIPTOR_NOTIFY_CALLBACK (PpiListEnd s) (PpiListEnd s1)
      (DispatchListEnd s1) (NotifyListEnd s1) s1 = Some s2" "grows s1 s2" using e by (metis of_nat_0_le_iff)
    moreover from this have "PeiInstallPpi notify L s = Some (EFI_SUCCESS, s2)"
      using s1(1) True False by (simp add: PeiInstallPpi_def Let_def)
    ultimately show ?thesis using grows_trans[OF g] by blast
  next
    case fail: False
    then show ?thesis using s1(1) g False by (auto simp: PeiInstallPpi_def Let_def)
  qed
qed

lemma find_entry_safe:
  "inside s is \<Longrightarrow> \<exists>r. find_entry p is s = Some r \<and> (\<forall>i. r = Some i \<longrightarrow> i \<in> set is)"
proof (induction "is")
  case (Cons i "is")
  obtain q where q: "entry_at s i = Some q" using entry_inside[OF Cons.prems] by blast
  have "inside s is" using Cons.prems by (simp add: inside_def)
  from Cons.IH[OF this] obtain r where r: "find_entry p is s = Some r" "\<forall>i. r = Some i \<longrightarrow> i \<in> set is" by blast
  show ?case using q r by (cases "p = q") simp_all
qed simp

lemma PeiReInstallPpi_safe:
  assumes "well_behaved notify" "ppi_ok s"
  shows "\<exists>st s'. PeiReInstallPpi notify O' N s = Some (st, s') \<and> grows s s'"
proof (cases "O' = 0 \<or> N = 0 \<or> Flags (descriptors s N) AND EFI_PEI_PPI_DESCRIPTOR_PPI = 0")
  case True
  then show ?thesis using assms(2) by (auto simp: PeiReInstallPpi_def grows_refl)
next
  case False
  note B = ppi_bounds[OF assms(2)]
  have "inside s [0..PpiListEnd s - 1]" using B by (auto simp: inside_def)
  from find_entry_safe[OF this] obtain r where r: "find_entry O' [0..PpiListEnd s - 1] s = Some r"
    "\<forall>i. r = Some i \<longrightarrow> i \<in> set [0..PpiListEnd s - 1]" by blast
  show ?thesis
  proof (cases r)
    case None
    then show ?thesis using r(1) assms(2) False by (auto simp: PeiReInstallPpi_def grows_refl)
  next
    case (Some i)
    then have i: "0 \<le> i" "i < PpiListEnd s" using r(2) by auto
    obtain ps cs ds k j where p: "pending s ps cs ds k j" using assms(2) by (auto simp: ppi_ok_def)
    then have rep: "represents s ps cs ds" by (simp add: pending_def)
    obtain hole where h: "PpiListPtrs s = ps @ hole @ rev cs @ rev ds" "length hole = room_left s"
      "PpiListEnd s = int (length ps)" "NotifyListEnd s = int (length ps + room_left s) - 1"
      "DispatchListEnd s = int (length ps + room_left s + length cs) - 1" "length (PpiListPtrs s) \<le> 4294967295"
      by (rule representsE[OF rep])
    let ?s = "s\<lparr>PpiListPtrs := (PpiListPtrs s)[nat i := N]\<rparr>"
    have set: "set_entry i N s = Some ?s" using i B by (simp add: set_entry_def)
    have r': "represents ?s (ps[nat i := N]) cs (ds @ [])"
      by (rule representsI[where hole = hole]) (use h i in \<open>auto simp: list_update_append\<close>)
    have g: "grows s ?s" by (rule ppi_ok_change[OF p r']) (simp_all add: same_outside_def)
    have ok: "ppi_ok ?s" using g by (simp add: grows_def)
    have "i + 1 \<le> PpiListEnd ?s" "DispatchListEnd ?s < int (length (PpiListPtrs ?s))" using i ppi_bounds[OF ok] by simp_all
    from DispatchNotify_safe[OF assms(1) ok i(1) this(1) order_refl this(2)]
    obtain s2 where "DispatchNotify notify EFI_PEI_PPI_DESCRIPTOR_NOTIFY_CALLBACK i (i + 1) (DispatchListEnd ?s) (NotifyListEnd ?s) ?s = Some s2"
      "grows ?s s2" by blast
    moreover from this have "PeiReInstallPpi notify O' N s = Some (EFI_SUCCESS, s2)"
      using False r(1) Some set by (simp add: PeiReInstallPpi_def)
    ultimately show ?thesis using grows_trans[OF g] by blast
  qed
qed

end
