(* ===== verification/Ppi_Nest.thy ===== *)
theory Ppi_Nest
  imports Ppi_Safe
begin

text \<open>
  Registration and ProcessNotifyList with notifications that use the services, and notifications that do
  so to any depth.
\<close>

lemma PeiNotifyPpi_safe:
  assumes "well_behaved notify" "ppi_ok s"
  shows "\<exists>st s'. PeiNotifyPpi notify L s = Some (st, s') \<and> grows s s'"
proof (cases "L = 0")
  case True
  then show ?thesis using assms(2) by (simp add: PeiNotifyPpi_def grows_refl)
next
  case False
  obtain ps cs ds k j where p: "pending s ps cs ds k j" using assms(2) by (auto simp: ppi_ok_def)
  then have r: "represents s ps cs ds" by (simp add: pending_def)
  note B = ppi_bounds[OF assms(2)]
  obtain st ns where rd: "read_list (room_left s) (descriptors s) EFI_PEI_PPI_DESCRIPTOR_NOTIFY_TYPES L = (st, ns)" by fastforce
  obtain c s1 where s1: "notify_loop (NotifyListEnd s) L (NotifyListEnd s) 0 s = Some (st, c, s1)" "same_outside s s1"
    "PpiListEnd s1 = PpiListEnd s" "DispatchListEnd s1 = DispatchListEnd s"
    "represents s1 ps (if st = EFI_INVALID_PARAMETER then take (nat (DispatchListEnd s - NotifyListEnd s)) cs else cs @ ns) ds"
    and c: "c = word_of_nat (length (filter (\<lambda>n. Flags (descriptors s n) AND EFI_PEI_PPI_DESCRIPTOR_NOTIFY_DISPATCH \<noteq> 0) ns))"
    using notify_loop_reads[OF r rd order_refl B(4), of 0] by auto
  define cs1 where "cs1 = (if st = EFI_INVALID_PARAMETER then take (nat (DispatchListEnd s - NotifyListEnd s)) cs else cs @ ns)"
  have r1: "represents s1 ps cs1 ds" using s1(5) by (simp add: cs1_def)
  have lc: "DispatchListEnd s = NotifyListEnd s + int (length cs)" using r by (auto elim: representsE)
  have lc1: "DispatchListEnd s1 = NotifyListEnd s1 + int (length cs1)" using r1 by (auto elim: representsE)
  have le: "length cs \<le> length cs1" using lc by (simp add: cs1_def)
  have r1': "represents s1 ps cs1 (ds @ [])" using r1 by simp
  have g: "grows s s1" by (rule ppi_ok_change[OF p r1' s1(2)]) (use s1(3,4) lc lc1 le in simp_all)
  show ?thesis
  proof (cases "st = EFI_SUCCESS")
    case fail: False
    then show ?thesis using s1(1) g False by (auto simp: PeiNotifyPpi_def Let_def)
  next
    case True
    have r2: "represents s1 ps (cs @ ns) ds" using r1 True by (simp add: cs1_def)
    have lim: "NotifyListEnd s = NotifyListEnd s1 + int (length ns)" using lc lc1 s1(4) True by (simp add: cs1_def)
    have ok1: "ppi_ok s1" using g by (simp add: grows_def)
    have "\<exists>t. (if c > 0 then do {
          s' \<leftarrow> move_dispatch (rev [NotifyListEnd s1 + 1..NotifyListEnd s]) s1;
          Some (NotifyListEnd s - sint c, s')
        } else Some (NotifyListEnd s, s1)) = Some t \<and> (fst t \<le> NotifyListEnd s \<and> grows s1 (snd t))"
    proof (rule if_SomeI)
      from move_dispatch_run[OF r2 lim] obtain s2 ds' cs' where s2: "move_dispatch (rev [NotifyListEnd s1 + 1..NotifyListEnd s]) s1 = Some s2"
        "same_outside s1 s2" "PpiListEnd s2 = PpiListEnd s1" "NotifyListEnd s2 = NotifyListEnd s1" "represents s2 ps cs' (ds @ ds')" by blast
      have p1: "pending s1 ps cs1 ds k j" using p r1 s1(2) by (auto simp: pending_def same_outside_def)
      have "DispatchListEnd s2 \<le> DispatchListEnd s1"
        using dispatch_end[OF s2(5)] dispatch_end[OF r1] s2(2) by (simp add: same_outside_def)
      then have "grows s1 s2" by (intro ppi_ok_change[OF p1 s2(5,2)]) (use s2(3,4) in simp_all)
      moreover have "length (PpiListPtrs s1) \<le> 4294967295" "length ns \<le> length (PpiListPtrs s1)"
        using r2 by (auto elim!: representsE)
      then have "0 \<le> sint c" using few_dispatch(1)[of ns] unfolding c by simp
      ultimately show "\<exists>t. (do {
          s' \<leftarrow> move_dispatch (rev [NotifyListEnd s1 + 1..NotifyListEnd s]) s1;
          Some (NotifyListEnd s - sint c, s')
        }) = Some t \<and> (fst t \<le> NotifyListEnd s \<and> grows s1 (snd t))"
        using s2(1) by simp
    qed (simp add: grows_refl[OF ok1])
    then obtain b s2 where s2: "(if c > 0 then do {
          s' \<leftarrow> move_dispatch (rev [NotifyListEnd s1 + 1..NotifyListEnd s]) s1;
          Some (NotifyListEnd s - sint c, s')
        } else Some (NotifyListEnd s, s1)) = Some (b, s2)" "b \<le> NotifyListEnd s" "grows s1 s2" by auto
    have ok2: "ppi_ok s2" using s2(3) by (simp add: grows_def)
    have "length (PpiListPtrs s2) = length (PpiListPtrs s)"
      using s2(3) s1(2) by (simp add: grows_def moves_def same_outside_def)
    then have "b < int (length (PpiListPtrs s2))" using s2(2) B by simp
    from DispatchNotify_safe[OF assms(1) ok2 order_refl order_refl order_refl this]
    obtain s3 where s3: "DispatchNotify notify EFI_PEI_PPI_DESCRIPTOR_NOTIFY_CALLBACK 0 (PpiListEnd s2) b (NotifyListEnd s2) s2 = Some s3"
      "grows s2 s3" by blast
    have "PeiNotifyPpi notify L s = Some (EFI_SUCCESS, s3)"
      using s1(1) s2(1) s3(1) True False by (simp add: PeiNotifyPpi_def Let_def)
    then show ?thesis using grows_trans[OF grows_trans[OF g s2(3)] s3(2)] by blast
  qed
qed

subsection \<open>ProcessNotifyList\<close>

lemma ppi_ok_moved:
  assumes "ppi_ok s" "DispatchListEnd s \<le> a" "a < int (length (PpiListPtrs s))" "0 \<le> b" "b \<le> PpiListEnd s"
  shows "ppi_ok (s\<lparr>LastDispatchedNotify := a, LastDispatchedInstall := b\<rparr>)"
proof -
  obtain ps cs ds k j where p: "represents s ps cs ds" using assms(1) by (auto simp: ppi_ok_def pending_def)
  have "pending (s\<lparr>LastDispatchedNotify := a, LastDispatchedInstall := b\<rparr>) ps cs ds (nat (int (length (PpiListPtrs s)) - 1 - a)) (nat b)"
    using assms(2-5) p dispatch_end[OF p] ppi_end[OF p] by (auto simp: pending_def)
  then show ?thesis unfolding ppi_ok_def by blast
qed

lemma new_notifies_safe:
  assumes "well_behaved notify" "ppi_ok s"
  shows "\<exists>s'. new_notifies notify s = Some s' \<and> ppi_ok s' \<and> moves s s' \<and> LastDispatchedNotify s' = DispatchListEnd s' \<and>
    LastDispatchedInstall s' = LastDispatchedInstall s"
  using assms(2)
proof (induction "nat (LastDispatchedNotify s + 1)" arbitrary: s rule: less_induct)
  case less
  note B = ppi_bounds[OF less.prems]
  show ?case
  proof (cases "LastDispatchedNotify s = DispatchListEnd s")
    case True
    then show ?thesis using less.prems by (subst new_notifies.simps) simp
  next
    case False
    have "LastDispatchedInstall s \<le> PpiListEnd s" "NotifyListEnd s \<le> DispatchListEnd s" using B by simp_all
    from DispatchNotify_safe[OF assms(1) less.prems order_refl this B(6)]
    obtain s1 where s1: "DispatchNotify notify EFI_PEI_PPI_DESCRIPTOR_NOTIFY_DISPATCH 0 (LastDispatchedInstall s)
      (LastDispatchedNotify s) (DispatchListEnd s) s = Some s1" "grows s s1" by blast
    have g: "ppi_ok s1" "moves s s1" "LastDispatchedInstall s1 = LastDispatchedInstall s" "LastDispatchedNotify s1 = LastDispatchedNotify s"
      using s1(2) by (simp_all add: grows_def)
    let ?s = "s1\<lparr>LastDispatchedNotify := DispatchListEnd s\<rparr>"
    have "DispatchListEnd s1 \<le> DispatchListEnd s" "length (PpiListPtrs s1) = length (PpiListPtrs s)" using g(2) by (simp_all add: moves_def)
    then have ok: "ppi_ok ?s"
      using ppi_ok_moved[OF g(1), of "DispatchListEnd s" "LastDispatchedInstall s1"] B ppi_bounds[OF g(1)] by simp
    have m: "moves s ?s" using g B by (simp add: moves_def)
    have "nat (LastDispatchedNotify ?s + 1) < nat (LastDispatchedNotify s + 1)" using False B by simp
    from less.hyps[OF this ok] obtain s' where s': "new_notifies notify ?s = Some s'" "ppi_ok s'" "moves ?s s'"
      "LastDispatchedNotify s' = DispatchListEnd s'" "LastDispatchedInstall s' = LastDispatchedInstall ?s" by blast
    have "new_notifies notify s = new_notifies notify ?s" using s1(1) False by (subst new_notifies.simps) (simp add: Let_def)
    then show ?thesis using s' moves_trans[OF m] g(3) by simp
  qed
qed

lemma new_installs_safe:
  assumes "well_behaved notify" "ppi_ok s" "uint (MaxPpi - 1) = int (length (PpiListPtrs s)) - 1"
  shows "\<exists>s'. new_installs notify MaxPpi s = Some s' \<and> ppi_ok s' \<and> moves s s' \<and> LastDispatchedInstall s' = PpiListEnd s' \<and>
    LastDispatchedNotify s' = LastDispatchedNotify s"
  using assms(2,3)
proof (induction "nat (int (length (PpiListPtrs s)) - LastDispatchedInstall s)" arbitrary: s rule: less_induct)
  case less
  note B = ppi_bounds[OF less.prems(1)]
  show ?case
  proof (cases "LastDispatchedInstall s = PpiListEnd s")
    case True
    then show ?thesis using less.prems by (subst new_installs.simps) simp
  next
    case False
    have "NotifyListEnd s \<le> DispatchListEnd s" "uint (MaxPpi - 1) < int (length (PpiListPtrs s))" using B less.prems(2) by simp_all
    from DispatchNotify_safe[OF assms(1) less.prems(1) B(1) order_refl this]
    obtain s1 where s1: "DispatchNotify notify EFI_PEI_PPI_DESCRIPTOR_NOTIFY_DISPATCH (LastDispatchedInstall s) (PpiListEnd s)
      (uint (MaxPpi - 1)) (DispatchListEnd s) s = Some s1" "grows s s1" by blast
    have g: "ppi_ok s1" "moves s s1" "LastDispatchedInstall s1 = LastDispatchedInstall s" "LastDispatchedNotify s1 = LastDispatchedNotify s"
      using s1(2) by (simp_all add: grows_def)
    let ?s = "s1\<lparr>LastDispatchedInstall := PpiListEnd s\<rparr>"
    have l: "PpiListEnd s \<le> PpiListEnd s1" "length (PpiListPtrs s1) = length (PpiListPtrs s)" using g(2) by (simp_all add: moves_def)
    then have ok: "ppi_ok ?s"
      using ppi_ok_moved[OF g(1), of "LastDispatchedNotify s1" "PpiListEnd s"] B ppi_bounds[OF g(1)] by simp
    have m: "moves s ?s" using g B by (simp add: moves_def)
    have "nat (int (length (PpiListPtrs ?s)) - LastDispatchedInstall ?s) < nat (int (length (PpiListPtrs s)) - LastDispatchedInstall s)"
      using False B l by simp
    from less.hyps[OF this ok] less.prems(2) l obtain s' where s': "new_installs notify MaxPpi ?s = Some s'" "ppi_ok s'" "moves ?s s'"
      "LastDispatchedInstall s' = PpiListEnd s'" "LastDispatchedNotify s' = LastDispatchedNotify ?s" by auto
    have "new_installs notify MaxPpi s = new_installs notify MaxPpi ?s" using s1(1) False by (subst new_installs.simps) (simp add: Let_def)
    then show ?thesis using s' moves_trans[OF m] g(4) by simp
  qed
qed

lemma ProcessNotifyList_safe:
  assumes "well_behaved notify" "ppi_ok s" "uint (MaxPpi - 1) = int (length (PpiListPtrs s)) - 1"
  shows "\<exists>s'. ProcessNotifyList notify MaxPpi s = Some s' \<and> ppi_ok s' \<and> moves s s' \<and>
    LastDispatchedNotify s' = DispatchListEnd s' \<and> LastDispatchedInstall s' = PpiListEnd s'"
  using assms(2,3)
proof (induction "2 * nat (LastDispatchedNotify s + 1) + (if LastDispatchedNotify s = DispatchListEnd s then 1 else 0)"
    arbitrary: s rule: less_induct)
  case less
  note B = ppi_bounds[OF less.prems(1)]
  obtain s1 where s1: "new_notifies notify s = Some s1" "ppi_ok s1" "moves s s1" "LastDispatchedNotify s1 = DispatchListEnd s1"
    "LastDispatchedInstall s1 = LastDispatchedInstall s" using new_notifies_safe[OF assms(1) less.prems(1)] by blast
  have "uint (MaxPpi - 1) = int (length (PpiListPtrs s1)) - 1" using less.prems(2) s1(3) by (simp add: moves_def)
  from new_installs_safe[OF assms(1) s1(2) this] obtain s2 where s2: "new_installs notify MaxPpi s1 = Some s2" "ppi_ok s2"
    "moves s1 s2" "LastDispatchedInstall s2 = PpiListEnd s2" "LastDispatchedNotify s2 = LastDispatchedNotify s1" by blast
  have m: "moves s s2" by (rule moves_trans[OF s1(3) s2(3)])
  have run: "ProcessNotifyList notify MaxPpi s =
      (if LastDispatchedNotify s2 = DispatchListEnd s2 then Some s2 else ProcessNotifyList notify MaxPpi s2)"
    using s1(1) s2(1) by (subst ProcessNotifyList.simps) simp
  show ?case
  proof (cases "LastDispatchedNotify s2 = DispatchListEnd s2")
    case True
    then show ?thesis using run s2(2,4) m by simp
  next
    case False
    have "LastDispatchedNotify s2 \<le> DispatchListEnd s" "LastDispatchedNotify s2 \<le> LastDispatchedNotify s"
      using s1(3,4) s2(5) by (simp_all add: moves_def)
    moreover have "0 \<le> LastDispatchedNotify s + 1" "- 1 \<le> DispatchListEnd s" using B by simp_all
    ultimately have "2 * nat (LastDispatchedNotify s2 + 1) + (if LastDispatchedNotify s2 = DispatchListEnd s2 then 1 else 0) <
        2 * nat (LastDispatchedNotify s + 1) + (if LastDispatchedNotify s = DispatchListEnd s then 1 else 0)"
      using False B(5) by auto
    from less.hyps[OF this s2(2)] less.prems(2) m obtain s' where "ProcessNotifyList notify MaxPpi s2 = Some s'" "ppi_ok s'"
      "moves s2 s'" "LastDispatchedNotify s' = DispatchListEnd s'" "LastDispatchedInstall s' = PpiListEnd s'"
      by (auto simp: moves_def)
    then show ?thesis using run False moves_trans[OF m] by auto
  qed
qed

subsection \<open>Notifications that use the services\<close>

datatype ppi_service = Install u64 | ReInstall u64 u64 | Notify u64 | Locate u64 u64

type_synonym ppi_result = "efi_status \<times> (u64 \<times> u64) option"

text \<open>note is what the caller does to the rest of the system when it sees a status.\<close>

fun call_service :: "'w notify_function \<Rightarrow> (efi_status \<Rightarrow> 'w \<Rightarrow> 'w) \<Rightarrow> ppi_service \<Rightarrow> 'w ppi_database \<Rightarrow>
    (ppi_result \<times> 'w ppi_database) option" where
  "call_service notify note (Install L) s = do {
     (st, s) \<leftarrow> PeiInstallPpi notify L s; Some ((st, None), s\<lparr>world := note st (world s)\<rparr>) }"
| "call_service notify note (ReInstall O' N) s = do {
     (st, s) \<leftarrow> PeiReInstallPpi notify O' N s; Some ((st, None), s\<lparr>world := note st (world s)\<rparr>) }"
| "call_service notify note (Notify L) s = do {
     (st, s) \<leftarrow> PeiNotifyPpi notify L s; Some ((st, None), s\<lparr>world := note st (world s)\<rparr>) }"
| "call_service notify note (Locate G I) s = do {
     (st, r) \<leftarrow> PeiLocatePpi G I s; Some ((st, r), s\<lparr>world := note st (world s)\<rparr>) }"

type_synonym 'w ppi_program = "(ppi_service, ppi_result, 'w ppi_database) program"

text \<open>A notification changes the rest of the system by effect and then runs the program behaviour gives for
  its function, descriptor and interface, down to a depth of n notifications within notifications.\<close>

fun nested :: "nat \<Rightarrow> (u64 \<Rightarrow> u64 \<Rightarrow> u64 \<Rightarrow> 'w ppi_program) \<Rightarrow> (u64 \<Rightarrow> u64 \<Rightarrow> u64 \<Rightarrow> 'w \<Rightarrow> 'w) \<Rightarrow>
    (efi_status \<Rightarrow> 'w \<Rightarrow> 'w) \<Rightarrow> 'w notify_function" where
  "nested 0 behaviour effect note f d i s = Some (s\<lparr>world := effect f d i (world s)\<rparr>)"
| "nested (Suc n) behaviour effect note f d i s =
     run_program (call_service (nested n behaviour effect note) note) (behaviour f d i) (s\<lparr>world := effect f d i (world s)\<rparr>)"

lemma grows_world: "ppi_ok s \<Longrightarrow> grows s (s\<lparr>world := w\<rparr>)"
  by (auto simp: grows_def moves_def ppi_ok_def)

lemma grows_then_world: "grows s s' \<Longrightarrow> grows s (s'\<lparr>world := w\<rparr>)"
  using grows_trans grows_world unfolding grows_def by metis

lemma call_service_safe:
  assumes "well_behaved notify" "ppi_ok s"
  shows "\<exists>r s'. call_service notify note c s = Some (r, s') \<and> grows s s'"
proof (cases c)
  case (Install L)
  then show ?thesis using PeiInstallPpi_safe[OF assms, of L] grows_then_world by fastforce
next
  case (ReInstall O' N)
  then show ?thesis using PeiReInstallPpi_safe[OF assms, of O' N] grows_then_world by fastforce
next
  case (Notify L)
  then show ?thesis using PeiNotifyPpi_safe[OF assms, of L] grows_then_world by fastforce
next
  case (Locate G I)
  obtain ps cs ds where "represents s ps cs ds" using assms(2) by (auto simp: ppi_ok_def pending_def)
  from locate_run[OF this, of G I] obtain st r where "PeiLocatePpi G I s = Some (st, r)" by (metis surj_pair)
  then show ?thesis using Locate grows_world[OF assms(2)] by auto
qed

lemma nested_safe: "well_behaved (nested n behaviour effect note)"
proof (induction n)
  case 0
  show ?case unfolding well_behaved_def using grows_world by auto
next
  case (Suc n)
  show ?case
    unfolding well_behaved_def
  proof (intro allI impI)
    fix f d i and s :: "'a ppi_database" assume ok: "ppi_ok s"
    let ?s = "s\<lparr>world := effect f d i (world s)\<rparr>"
    have g: "grows s ?s" by (rule grows_world[OF ok])
    then have "ppi_ok ?s" by (simp add: grows_def)
    moreover have "\<exists>r s'. call_service (nested n behaviour effect note) note c t = Some (r, s') \<and> ppi_ok s' \<and> grows t s'"
      if "ppi_ok t" for c t using call_service_safe[OF Suc that, of "note" c] by (auto simp: grows_def)
    ultimately have "\<exists>s'. run_program (call_service (nested n behaviour effect note) note) (behaviour f d i) ?s = Some s' \<and>
        ppi_ok s' \<and> grows ?s s'"
      by (intro run_program_total[where P = "\<lambda>c. True"]) (auto intro: grows_refl grows_trans)
    then obtain s' where "run_program (call_service (nested n behaviour effect note) note) (behaviour f d i) ?s = Some s'" "grows ?s s'"
      by blast
    then show "\<exists>s'. nested (Suc n) behaviour effect note f d i s = Some s' \<and> grows s s'" using grows_trans[OF g] by simp
  qed
qed

end
