(* ===== verification/Ppi_Once.thy ===== *)
theory Ppi_Once
  imports Ppi_Nest
begin

text \<open>
  Every notification is called once for each PPI it waits for, whatever the order in which both are
  installed, by the core or by other notifications.  The rest of the system is a log of the calls.
\<close>

text \<open>calls are the descriptors and the interfaces, in the order of the calls; short says that a service has
  found no room.\<close>

record ppi_log =
  calls :: recorded
  short :: bool

definition log_status :: "efi_status \<Rightarrow> ppi_log \<Rightarrow> ppi_log" where
  "log_status Status w = w\<lparr>short := short w \<or> Status = EFI_OUT_OF_RESOURCES\<rparr>"

definition log_notification :: "u64 \<Rightarrow> u64 \<Rightarrow> u64 \<Rightarrow> ppi_log \<Rightarrow> ppi_log" where
  "log_notification f d i w = w\<lparr>calls := calls w @ [(d, i)]\<rparr>"

definition ppis :: "'w ppi_database \<Rightarrow> u64 list" where
  "ppis s = take (nat (PpiListEnd s)) (PpiListPtrs s)"

definition callbacks :: "'w ppi_database \<Rightarrow> u64 list" where
  "callbacks s = rev (take (nat (DispatchListEnd s - NotifyListEnd s)) (drop (nat (NotifyListEnd s + 1)) (PpiListPtrs s)))"

lemma ppis_represents: "represents s ps cs ds \<Longrightarrow> ppis s = ps"
  by (auto simp: ppis_def elim!: representsE)

lemma callbacks_represents:
  assumes "represents s ps cs ds"
  shows "callbacks s = cs"
proof -
  obtain hole where h: "PpiListPtrs s = ps @ hole @ rev cs @ rev ds" "length hole = room_left s"
    "PpiListEnd s = int (length ps)" "NotifyListEnd s = int (length ps + room_left s) - 1"
    "DispatchListEnd s = int (length ps + room_left s + length cs) - 1" by (rule representsE[OF assms])
  have "nat (DispatchListEnd s - NotifyListEnd s) = length (rev cs)" "nat (NotifyListEnd s + 1) = length (ps @ hole)"
    using h(2,4,5) by simp_all
  moreover have "drop (length (ps @ hole)) (PpiListPtrs s) = rev cs @ rev ds" using h(1) by simp
  ultimately show ?thesis unfolding callbacks_def by simp
qed

text \<open>The calls that the callbacks and the PPIs of the database call for.\<close>

definition due :: "'w ppi_database \<Rightarrow> (u64 \<times> u64) multiset" where
  "due s = mset (matches s (callbacks s) (ppis s))"

lemma due_represents: "represents s ps cs ds \<Longrightarrow> due s = mset (matches s cs ps)"
  by (simp add: due_def ppis_represents callbacks_represents)

text \<open>Between s and s' the notifications xs have been called, and those of what has been appended.\<close>

definition accounts :: "ppi_log ppi_database \<Rightarrow> ppi_log ppi_database \<Rightarrow> recorded \<Rightarrow> bool" where
  "accounts s s' xs \<longleftrightarrow> extends s s' \<and> (\<not> short (world s') \<longrightarrow> \<not> short (world s) \<and>
     mset (calls (world s')) + due s = mset (calls (world s)) + mset xs + due s')"

definition accounted :: "(u64 \<Rightarrow> ppi_descriptor) \<Rightarrow> ppi_log notify_function \<Rightarrow> bool" where
  "accounted d notify \<longleftrightarrow> (\<forall>f n i s. descriptors s = d \<and> (\<exists>ps cs ds. represents s ps cs ds) \<longrightarrow>
     (\<exists>s'. notify f n i s = Some s' \<and> accounts s s' [(n, i)]))"

lemma accounted_orderly: "accounted d notify \<Longrightarrow> orderly d notify"
  unfolding accounted_def orderly_def accounts_def by blast

lemma accounts_refl: "represents s ps cs ds \<Longrightarrow> accounts s s []"
  by (simp add: accounts_def extends_refl)

lemma balance_trans:
  fixes a b c d e f g h :: "'x multiset"
  assumes "b + d = a + x + e" "c + e = b + y + f"
  shows "c + d = a + (x + y) + f"
proof -
  have "(c + d) + (b + e) = (c + e) + (b + d)" by (simp add: ac_simps)
  also have "\<dots> = (a + (x + y) + f) + (b + e)" unfolding assms by (simp add: ac_simps)
  finally show ?thesis by simp
qed

lemma accounts_trans:
  assumes "accounts s s' xs" "accounts s' s'' ys"
  shows "accounts s s'' (xs @ ys)"
  using assms extends_trans[of s s' s''] balance_trans[of "mset (calls (world s'))" "due s" "mset (calls (world s))" "mset xs" "due s'"
    "mset (calls (world s''))" "mset ys" "due s''"]
  by (auto simp: accounts_def)

lemma call_all_accounts:
  assumes "accounted (descriptors s) notify" "represents s ps cs ds"
  shows "\<exists>s'. call_all notify xs s = Some s' \<and> accounts s s' xs"
  using assms
proof (induction xs arbitrary: s ps cs)
  case Nil
  then show ?case by (simp add: accounts_refl)
next
  case (Cons x xs)
  obtain s1 where s1: "notify (Ppi (descriptors s (fst x))) (fst x) (snd x) s = Some s1" "accounts s s1 [x]"
    using Cons.prems unfolding accounted_def by fastforce
  then have e: "extends s s1" by (simp add: accounts_def)
  obtain ps' cs' where "represents s1 (ps @ ps') (cs @ cs') ds" by (rule extendsE[OF e Cons.prems(2)])
  moreover have "accounted (descriptors s1) notify" using Cons.prems(1) extendsD(1)[OF e] by simp
  ultimately obtain s2 where "call_all notify xs s1 = Some s2" "accounts s1 s2 xs" using Cons.IH by blast
  then show ?case using s1 accounts_trans[OF s1(2)] by (cases x) fastforce
qed

subsection \<open>Services called by notifications\<close>

text \<open>Lists of notifications of callback level only.\<close>

definition callbacks_only :: "(u64 \<Rightarrow> ppi_descriptor) \<Rightarrow> u64 \<Rightarrow> bool" where
  "callbacks_only d L \<longleftrightarrow> (\<forall>m. list_all (\<lambda>n. \<not> is_dispatch d n) (snd (read_list m d EFI_PEI_PPI_DESCRIPTOR_NOTIFY_TYPES L)))"

fun appends_only :: "(u64 \<Rightarrow> ppi_descriptor) \<Rightarrow> ppi_service \<Rightarrow> bool" where
  "appends_only d (Notify L) = callbacks_only d L"
| "appends_only d (ReInstall P N) = False"
| "appends_only d c = True"

lemma due_status [simp]: "due (s\<lparr>world := w\<rparr>) = due s"
  by (simp add: due_def callbacks_def ppis_def)

lemma accounts_status:
  assumes "st \<noteq> EFI_OUT_OF_RESOURCES \<Longrightarrow> accounts s s' xs" "extends s s'"
  shows "accounts s (s'\<lparr>world := log_status st (world s')\<rparr>) xs"
proof -
  obtain ps cs ds where r: "represents s ps cs ds" using assms(2) by (auto simp: extends_def)
  obtain ps' cs' where "represents s' (ps @ ps') (cs @ cs') ds" by (rule extendsE[OF assms(2) r])
  then have "extends s (s'\<lparr>world := log_status st (world s')\<rparr>)" using extends_trans[OF assms(2) extends_world] by blast
  then show ?thesis using assms(1) by (auto simp: accounts_def log_status_def)
qed

text \<open>From the database s1 in which the new entries are already in the lists.\<close>

lemma entered_accounts:
  assumes r: "represents s ps cs ds" "represents s1 (ps @ ps') (cs @ cs') ds" and o: "same_outside s s1"
    and n: "accounted (descriptors s) notify" and d: "due s1 = due s + mset xs"
  shows "\<exists>s'. call_all notify xs s1 = Some s' \<and> accounts s s' []"
proof -
  have a: "accounted (descriptors s1) notify" using n o by (simp add: same_outside_def)
  obtain s' where s': "call_all notify xs s1 = Some s'" "accounts s1 s' xs" using call_all_accounts[OF a r(2)] by blast
  have "extends s s1" by (rule extendsI[OF r]) (use o in \<open>simp add: same_outside_def\<close>)
  then have "extends s s'" using s'(2) extends_trans by (auto simp: accounts_def)
  moreover have "world s1 = world s" using o by (simp add: same_outside_def)
  ultimately have "accounts s s' []" using s'(2) d by (auto simp: accounts_def ac_simps)
  then show ?thesis using s'(1) by blast
qed

lemma entered_fails:
  assumes "represents s ps cs ds" "represents s1 (ps @ ps') (cs @ cs') ds" "same_outside s s1" "ps' = [] \<and> cs' = [] \<or> st = EFI_OUT_OF_RESOURCES"
  shows "accounts s (s1\<lparr>world := log_status st (world s1)\<rparr>) []"
proof (rule accounts_status)
  show e: "extends s s1" by (rule extendsI[OF assms(1,2)]) (use assms(3) in \<open>simp add: same_outside_def\<close>)
  assume "st \<noteq> EFI_OUT_OF_RESOURCES"
  then have "due s1 = due s" using assms(2,4) due_represents[OF assms(1)] due_represents[OF assms(2)] matches_outside[OF assms(3)] by simp
  then show "accounts s s1 []" using e assms(3) by (simp add: accounts_def same_outside_def)
qed

lemma install_accounts:
  assumes "accounted (descriptors s) notify" "represents s ps cs ds"
  shows "\<exists>r s'. call_service notify log_status (Install L) s = Some (r, s') \<and> accounts s s' []"
proof (cases "L = 0")
  case True
  then show ?thesis using entered_fails[of s ps cs ds s "[]" "[]" EFI_INVALID_PARAMETER] assms(2)
    by (simp add: PeiInstallPpi_def same_outside_def)
next
  case False
  obtain st ns where rd: "read_list (room_left s) (descriptors s) EFI_PEI_PPI_DESCRIPTOR_PPI L = (st, ns)" by fastforce
  define new where "new = (if st = EFI_INVALID_PARAMETER then [] else ns)"
  have "(if st = EFI_INVALID_PARAMETER then ps else ps @ ns) = ps @ new" by (simp add: new_def)
  then obtain s1 where s1: "represents s1 (ps @ new) (cs @ []) ds" "same_outside s s1"
    "PeiInstallPpi notify L s = (if st = EFI_SUCCESS then map_option (Pair EFI_SUCCESS) (call_all notify (matches s cs ns) s1)
      else Some (st, s1))"
    using install_calls[OF assms(2) False rd accounted_orderly[OF assms(1)]] by auto
  show ?thesis
  proof (cases "st = EFI_SUCCESS")
    case True
    have "due s1 = due s + mset (matches s cs ns)"
      using due_represents[OF assms(2)] due_represents[OF s1(1)] matches_outside[OF s1(2)] True
      by (simp add: new_def mset_matches_append)
    from entered_accounts[OF assms(2) s1(1,2) assms(1) this] obtain s' where s': "call_all notify (matches s cs ns) s1 = Some s'"
      "accounts s s' []" by blast
    then have "accounts s (s'\<lparr>world := log_status st (world s')\<rparr>) []" by (intro accounts_status) (auto simp: accounts_def)
    then show ?thesis using s1(3) s'(1) True by simp
  next
    case False
    then have "accounts s (s1\<lparr>world := log_status st (world s1)\<rparr>) []"
      using read_list_status[OF rd] by (intro entered_fails[OF assms(2) s1(1,2)]) (auto simp: new_def)
    then show ?thesis using s1(3) False by simp
  qed
qed

text \<open>Registration, with notifications of dispatch level too: how the lists and the calls change.\<close>

lemma notify_enters:
  assumes "represents s ps cs ds" "L \<noteq> 0" "orderly (descriptors s) notify"
  shows "\<exists>st s1 new new'. represents s1 ps (cs @ new) (ds @ new') \<and> same_outside s s1 \<and>
    (callbacks_only (descriptors s) L \<longrightarrow> new' = []) \<and>
    (if st = EFI_SUCCESS then PeiNotifyPpi notify L s = map_option (Pair st) (call_all notify (matches s new ps) s1)
     else PeiNotifyPpi notify L s = Some (st, s1) \<and> new' = [] \<and> (new = [] \<or> st = EFI_OUT_OF_RESOURCES))"
proof -
  let ?d = "is_dispatch (descriptors s)"
  obtain st ns where rd: "read_list (room_left s) (descriptors s) EFI_PEI_PPI_DESCRIPTOR_NOTIFY_TYPES L = (st, ns)" by fastforce
  from notify_calls[OF assms(1,2) rd assms(3)] obtain s1 where s1: "same_outside s s1"
    "if st = EFI_SUCCESS then represents s1 ps (cs @ filter (\<lambda>n. \<not> ?d n) ns) (ds @ filter ?d ns)
     else represents s1 ps (if st = EFI_INVALID_PARAMETER then cs else cs @ ns) ds"
    "PeiNotifyPpi notify L s = (if st = EFI_SUCCESS
      then map_option (Pair EFI_SUCCESS) (call_all notify (matches s (filter (\<lambda>n. \<not> ?d n) ns) ps) s1) else Some (st, s1))"
    by blast
  have none: "filter ?d ns = []" if "callbacks_only (descriptors s) L"
  proof -
    have "list_all (\<lambda>n. \<not> ?d n) ns" using that rd unfolding callbacks_only_def by (metis snd_conv)
    then show ?thesis by (simp add: filter_empty_conv list_all_iff)
  qed
  show ?thesis
  proof (cases "st = EFI_SUCCESS")
    case True
    then show ?thesis using s1 none by (intro exI[of _ st] exI[of _ s1] exI[of _ "filter (\<lambda>n. \<not> ?d n) ns"] exI[of _ "filter ?d ns"]) simp
  next
    case False
    then show ?thesis using s1 read_list_status[OF rd]
      by (intro exI[of _ st] exI[of _ s1] exI[of _ "if st = EFI_INVALID_PARAMETER then [] else ns"] exI[of _ "[]"]) auto
  qed
qed

lemma notify_accounts:
  assumes "accounted (descriptors s) notify" "represents s ps cs ds" "callbacks_only (descriptors s) L"
  shows "\<exists>r s'. call_service notify log_status (Notify L) s = Some (r, s') \<and> accounts s s' []"
proof (cases "L = 0")
  case True
  then show ?thesis using entered_fails[of s ps cs ds s "[]" "[]" EFI_INVALID_PARAMETER] assms(2)
    by (simp add: PeiNotifyPpi_def same_outside_def)
next
  case False
  from notify_enters[OF assms(2) False accounted_orderly[OF assms(1)]] obtain st s1 new new' where
    e: "represents s1 ps (cs @ new) (ds @ new')" "same_outside s s1" "callbacks_only (descriptors s) L \<longrightarrow> new' = []"
    "if st = EFI_SUCCESS then PeiNotifyPpi notify L s = map_option (Pair st) (call_all notify (matches s new ps) s1)
     else PeiNotifyPpi notify L s = Some (st, s1) \<and> new' = [] \<and> (new = [] \<or> st = EFI_OUT_OF_RESOURCES)" by blast
  have s1: "represents s1 (ps @ []) (cs @ new) ds" "same_outside s s1"
    "if st = EFI_SUCCESS then PeiNotifyPpi notify L s = map_option (Pair st) (call_all notify (matches s new ps) s1)
     else PeiNotifyPpi notify L s = Some (st, s1) \<and> (new = [] \<or> st = EFI_OUT_OF_RESOURCES)"
    using e assms(3) by (simp_all split: if_splits)
  show ?thesis
  proof (cases "st = EFI_SUCCESS")
    case True
    have "due s1 = due s + mset (matches s new ps)"
      using due_represents[OF assms(2)] due_represents[OF s1(1)] matches_outside[OF s1(2)] by (simp add: matches_append)
    from entered_accounts[OF assms(2) s1(1,2) assms(1) this] obtain s' where s': "call_all notify (matches s new ps) s1 = Some s'"
      "accounts s s' []" by blast
    then have "accounts s (s'\<lparr>world := log_status st (world s')\<rparr>) []" by (intro accounts_status) (auto simp: accounts_def)
    then show ?thesis using s1(3) s'(1) True by simp
  next
    case False
    then have "accounts s (s1\<lparr>world := log_status st (world s1)\<rparr>) []"
      using s1(3) by (intro entered_fails[OF assms(2) s1(1,2)]) auto
    then show ?thesis using s1(3) False by simp
  qed
qed

lemma call_service_accounts:
  assumes "accounted (descriptors s) notify" "represents s ps cs ds" "appends_only (descriptors s) c"
  shows "\<exists>r s'. call_service notify log_status c s = Some (r, s') \<and> accounts s s' []"
proof (cases c)
  case (Install L)
  then show ?thesis using install_accounts[OF assms(1,2), of L] by simp
next
  case (ReInstall O' N)
  then show ?thesis using assms(3) by simp
next
  case (Notify L)
  then show ?thesis using notify_accounts[OF assms(1,2), of L] assms(3) by simp
next
  case (Locate G I)
  obtain st r where "PeiLocatePpi G I s = Some (st, r)" using locate_run[OF assms(2), of G I] by (metis surj_pair)
  moreover have "accounts s (s\<lparr>world := log_status st (world s)\<rparr>) []"
    by (rule accounts_status) (use accounts_refl[OF assms(2)] extends_refl[OF assms(2)] in auto)
  ultimately show ?thesis using Locate by auto
qed

text \<open>Notifications whose programs only append are counted, to any depth.\<close>

lemma nested_accounted:
  assumes "\<forall>f n i. calls_only (appends_only d) (behaviour f n i)"
  shows "accounted d (nested m behaviour log_notification log_status)"
proof (induction m)
  case 0
  have "accounts s (s\<lparr>world := log_notification f n i (world s)\<rparr>) [(n, i)]" if "represents s ps cs ds" for f n i s ps cs ds
    using extends_world[OF that] by (auto simp: accounts_def log_notification_def)
  then show ?case unfolding accounted_def by auto
next
  case (Suc m)
  show ?case
    unfolding accounted_def
  proof (intro allI impI)
    fix f n i and s :: "ppi_log ppi_database" assume s: "descriptors s = d \<and> (\<exists>ps cs ds. represents s ps cs ds)"
    define s0 where "s0 = s\<lparr>world := log_notification f n i (world s)\<rparr>"
    obtain ps cs ds where r: "represents s ps cs ds" using s by blast
    have a: "accounts s s0 [(n, i)]" using extends_world[OF r] by (auto simp: accounts_def log_notification_def s0_def)
    let ?I = "\<lambda>s. descriptors s = d \<and> (\<exists>ps cs ds. represents s ps cs ds)"
    have call: "\<exists>r s'. call_service (nested m behaviour log_notification log_status) log_status c t = Some (r, s') \<and> ?I s' \<and> accounts t s' []"
      if c: "appends_only d c" and t: "?I t" for c t
    proof -
      obtain ps cs ds where r: "represents t ps cs ds" using t by blast
      obtain r' s' where s': "call_service (nested m behaviour log_notification log_status) log_status c t = Some (r', s')" "accounts t s' []"
        using call_service_accounts[OF _ r, of "nested m behaviour log_notification log_status" c] Suc c t by auto
      then have e: "extends t s'" by (simp add: accounts_def)
      obtain ps' cs' where "represents s' (ps @ ps') (cs @ cs') ds" by (rule extendsE[OF e r])
      then have "?I s'" using extendsD(1)[OF e] t by auto
      then show ?thesis using s' by blast
    qed
    have "?I s0" using s by (simp add: s0_def)
    then have "\<exists>s'. run_program (call_service (nested m behaviour log_notification log_status) log_status) (behaviour f n i) s0 = Some s' \<and>
        ?I s' \<and> accounts s0 s' []"
      by (rule run_program_total[where P = "appends_only d" and I = ?I, rotated -1])
        (use call assms accounts_refl accounts_trans[where xs = "[]" and ys = "[]"] in auto)
    then show "\<exists>s'. nested (Suc m) behaviour log_notification log_status f n i s = Some s' \<and> accounts s s' [(n, i)]"
      using accounts_trans[OF a] by (fastforce simp: s0_def)
  qed
qed

subsection \<open>Scripts\<close>

datatype ppi_call = Service ppi_service | DispatchPending

fun run_calls :: "ppi_log notify_function \<Rightarrow> u32 \<Rightarrow> ppi_call list \<Rightarrow> ppi_log ppi_database \<Rightarrow> ppi_log ppi_database option" where
  "run_calls notify MaxPpi [] s = Some s"
| "run_calls notify MaxPpi (Service c # cs) s = do {
     (r, s) \<leftarrow> call_service notify log_status c s;
     run_calls notify MaxPpi cs s
   }"
| "run_calls notify MaxPpi (DispatchPending # cs) s = do {
     s \<leftarrow> ProcessNotifyList notify MaxPpi s;
     run_calls notify MaxPpi cs s
   }"

fun replaces :: "ppi_call \<Rightarrow> bool" where
  "replaces (Service (ReInstall P N)) = True"
| "replaces c = False"

lemma run_calls_append:
  "run_calls notify MaxPpi (as @ bs) s = do { s \<leftarrow> run_calls notify MaxPpi as s; run_calls notify MaxPpi bs s }"
  by (induction notify MaxPpi as s rule: run_calls.induct) (auto split: bind_splits prod.splits)

text \<open>k notifications of dispatch level have been called for the first j PPIs, and with the callbacks the calls
  are one for each pair.\<close>

definition once :: "u32 \<Rightarrow> ppi_log ppi_database \<Rightarrow> u64 list \<Rightarrow> u64 list \<Rightarrow> u64 list \<Rightarrow> nat \<Rightarrow> nat \<Rightarrow> bool" where
  "once MaxPpi s ps cs ds k j \<longleftrightarrow> pending s ps cs ds k j \<and> uint (MaxPpi - 1) = int (length (PpiListPtrs s)) - 1 \<and>
     (\<not> short (world s) \<longrightarrow> mset (calls (world s)) = due s + mset (matches s (take k ds) (take j ps)))"

lemma extends_pending:
  assumes "extends s s'" "pending s ps cs ds k j"
  obtains ps' cs' where "pending s' (ps @ ps') (cs @ cs') ds k j"
  using assms extendsD[OF assms(1)] by (auto simp: pending_def elim!: extendsE[OF assms(1)])

lemma balance_add:
  fixes a b c d e x y :: "'x multiset"
  assumes "b + d = a + x + e" "a = d + y"
  shows "b = e + (y + x)"
proof -
  have "b + d = (e + (y + x)) + d" unfolding assms(1) assms(2) by (simp add: ac_simps)
  then show ?thesis by simp
qed

text \<open>The notifications xs have been called besides those of what has been appended.\<close>

lemma once_calls:
  assumes "once MaxPpi s ps cs ds k j" "accounts s s' xs"
  obtains ps' cs' where "pending s' (ps @ ps') (cs @ cs') ds k j" "uint (MaxPpi - 1) = int (length (PpiListPtrs s')) - 1"
    "\<not> short (world s') \<longrightarrow> mset (calls (world s')) = due s' + (mset (matches s' (take k ds) (take j ps)) + mset xs)"
proof -
  have e: "extends s s'" using assms(2) by (simp add: accounts_def)
  have p: "pending s ps cs ds k j" using assms(1) by (simp add: once_def)
  obtain ps' cs' where "pending s' (ps @ ps') (cs @ cs') ds k j" by (rule extends_pending[OF e p])
  moreover have "mset (calls (world s')) = due s' + (mset (matches s' (take k ds) (take j ps)) + mset xs)" if "\<not> short (world s')"
    using that assms extendsD(6)[OF e] balance_add[of "mset (calls (world s'))" "due s" "mset (calls (world s))" "mset xs" "due s'"]
    by (simp add: accounts_def once_def)
  ultimately show thesis using that assms(1) extendsD(5)[OF e] by (auto simp: once_def)
qed

lemma once_accounts:
  assumes "once MaxPpi s ps cs ds k j" "accounts s s' []"
  shows "\<exists>ps' cs'. once MaxPpi s' (ps @ ps') (cs @ cs') ds k j"
proof -
  have j: "j \<le> length ps" using assms(1) by (simp add: once_def pending_def)
  obtain ps' cs' where "pending s' (ps @ ps') (cs @ cs') ds k j" "uint (MaxPpi - 1) = int (length (PpiListPtrs s')) - 1"
    "\<not> short (world s') \<longrightarrow> mset (calls (world s')) = due s' + (mset (matches s' (take k ds) (take j ps)) + mset [])"
    by (rule once_calls[OF assms])
  then show ?thesis using j by (auto simp: once_def)
qed

lemma new_notifies_once:
  assumes "once MaxPpi s ps cs ds k j" "accounted (descriptors s) notify"
  shows "\<exists>s' ps' cs'. new_notifies notify s = Some s' \<and> once MaxPpi s' (ps @ ps') (cs @ cs') ds (length ds) j \<and>
    descriptors s' = descriptors s"
proof -
  have p: "represents s ps cs ds" "k \<le> length ds" "j \<le> length ps"
    "LastDispatchedNotify s = int (length (PpiListPtrs s)) - 1 - int k" "LastDispatchedInstall s = int j"
    using assms(1) by (simp_all add: once_def pending_def)
  note de = dispatch_end[OF p(1)]
  show ?thesis
  proof (cases "k = length ds")
    case True
    then have "new_notifies notify s = Some s" using de p(4) by (subst new_notifies.simps) simp
    then show ?thesis using assms(1) True by (intro exI[of _ s] exI[of _ "[]"]) simp
  next
    case False
    then have ne: "LastDispatchedNotify s \<noteq> DispatchListEnd s" using de p(2,4) by simp
    let ?xs = "matches s (drop k ds) (take j ps)"
    have "map (entry_at s) [0..LastDispatchedInstall s - 1] = map Some (take j ps)"
      using ppi_entries(2)[OF p(1,3)] p(5) by simp
    moreover have "map (entry_at s) (rev [DispatchListEnd s + 1..LastDispatchedNotify s]) = map Some (drop k ds)"
      by (rule dispatch_entries[OF p(1,2,4)])
    ultimately have run: "DispatchNotify notify t 0 (LastDispatchedInstall s) (LastDispatchedNotify s) (DispatchListEnd s) s =
        call_all notify ?xs s" for t
      using p(3,4,5) representsD[OF p(1)] accounted_orderly[OF assms(2)] by (intro DispatchNotify_calls[OF _ p(1)]) simp_all
    obtain s1 where s1: "call_all notify ?xs s = Some s1" "accounts s s1 ?xs" using call_all_accounts[OF assms(2) p(1)] by blast
    then have e: "extends s s1" by (simp add: accounts_def)
    obtain ps' cs' where o: "pending s1 (ps @ ps') (cs @ cs') ds k j" "uint (MaxPpi - 1) = int (length (PpiListPtrs s1)) - 1"
      "\<not> short (world s1) \<longrightarrow> mset (calls (world s1)) = due s1 + (mset (matches s1 (take k ds) (take j ps)) + mset ?xs)"
      by (rule once_calls[OF assms(1) s1(2)])
    let ?s = "s1\<lparr>LastDispatchedNotify := DispatchListEnd s\<rparr>"
    have r1: "represents s1 (ps @ ps') (cs @ cs') ds" using o(1) by (simp add: pending_def)
    have de1: "DispatchListEnd s1 = DispatchListEnd s" using de dispatch_end[OF r1] extendsD(5)[OF e] by simp
    have "new_notifies notify s = new_notifies notify ?s"
      using ne run s1(1) by (subst new_notifies.simps) (simp add: Let_def)
    also have "\<dots> = Some ?s" using de1 by (subst new_notifies.simps) simp
    finally have "new_notifies notify s = Some ?s" .
    moreover have "mset (matches s1 (take k ds) (take j ps)) + mset ?xs = mset (matches s1 ds (take j ps))"
      using matches_append[of s "take k ds" "drop k ds" "take j ps"] extendsD(6)[OF e] by simp
    then have "once MaxPpi ?s (ps @ ps') (cs @ cs') ds (length ds) j"
      using o de p(3) extendsD(5)[OF e] by (auto simp: once_def pending_def due_def callbacks_def ppis_def)
    ultimately show ?thesis using extendsD(1)[OF e] by (intro exI[of _ ?s]) auto
  qed
qed

lemma new_installs_once:
  assumes "once MaxPpi s ps cs ds (length ds) j" "accounted (descriptors s) notify"
  shows "\<exists>s' ps' cs'. new_installs notify MaxPpi s = Some s' \<and>
    once MaxPpi s' (ps @ ps') (cs @ cs') ds (length ds) (length (ps @ ps')) \<and> descriptors s' = descriptors s"
  using assms
proof (induction "length (PpiListPtrs s) - j" arbitrary: s ps cs j rule: less_induct)
  case less
  have p: "represents s ps cs ds" "j \<le> length ps"
    "LastDispatchedNotify s = int (length (PpiListPtrs s)) - 1 - int (length ds)" "LastDispatchedInstall s = int j"
    using less.prems(1) by (simp_all add: once_def pending_def)
  note pe = ppi_end[OF p(1)]
  show ?case
  proof (cases "j = length ps")
    case True
    then have "new_installs notify MaxPpi s = Some s" using pe p(4) by (subst new_installs.simps) simp
    then show ?thesis using less.prems(1) True by (intro exI[of _ s] exI[of _ "[]"]) simp
  next
    case False
    then have ne: "LastDispatchedInstall s \<noteq> PpiListEnd s" using pe p(2,4) by simp
    let ?xs = "matches s ds (drop j ps)"
    have last: "uint (MaxPpi - 1) = int (length (PpiListPtrs s)) - 1" using less.prems(1) by (simp add: once_def)
    have "map (entry_at s) [LastDispatchedInstall s..PpiListEnd s - 1] = map Some (drop j ps)"
      using ppi_entries(1)[OF p(1,2)] p(4) by simp
    moreover have "map (entry_at s) (rev [DispatchListEnd s + 1..uint (MaxPpi - 1)]) = map Some ds"
      using dispatch_entries[OF p(1), of 0] last by simp
    ultimately have run: "DispatchNotify notify t (LastDispatchedInstall s) (PpiListEnd s) (uint (MaxPpi - 1)) (DispatchListEnd s) s =
        call_all notify ?xs s" for t
      using p(4) last representsD[OF p(1)] accounted_orderly[OF less.prems(2)] by (intro DispatchNotify_calls[OF _ p(1)]) simp_all
    obtain s1 where s1: "call_all notify ?xs s = Some s1" "accounts s s1 ?xs" using call_all_accounts[OF less.prems(2) p(1)] by blast
    then have e: "extends s s1" by (simp add: accounts_def)
    obtain ps' cs' where o: "pending s1 (ps @ ps') (cs @ cs') ds (length ds) j" "uint (MaxPpi - 1) = int (length (PpiListPtrs s1)) - 1"
      "\<not> short (world s1) \<longrightarrow> mset (calls (world s1)) = due s1 + (mset (matches s1 (take (length ds) ds) (take j ps)) + mset ?xs)"
      by (rule once_calls[OF less.prems(1) s1(2)])
    let ?s = "s1\<lparr>LastDispatchedInstall := PpiListEnd s\<rparr>"
    have "mset (matches s1 ds (take j ps)) + mset ?xs = mset (matches s1 ds ps)"
      using mset_matches_append[of s ds "take j ps" "drop j ps"] extendsD(6)[OF e] by simp
    then have on: "once MaxPpi ?s (ps @ ps') (cs @ cs') ds (length ds) (length ps)"
      using o pe by (auto simp: once_def pending_def due_def callbacks_def ppis_def)
    have "length ps \<le> length (PpiListPtrs s)" using p(1) by (auto elim!: representsE)
    then have "length (PpiListPtrs ?s) - length ps < length (PpiListPtrs s) - j" using False p(2) extendsD(5)[OF e] by simp
    moreover have "accounted (descriptors ?s) notify" using less.prems(2) extendsD(1)[OF e] by simp
    ultimately obtain s' ps'' cs'' where s': "new_installs notify MaxPpi ?s = Some s'"
      "once MaxPpi s' ((ps @ ps') @ ps'') ((cs @ cs') @ cs'') ds (length ds) (length ((ps @ ps') @ ps''))" "descriptors s' = descriptors ?s"
      using less.hyps[OF _ on] by blast
    have "new_installs notify MaxPpi s = new_installs notify MaxPpi ?s"
      using ne run s1(1) by (subst new_installs.simps) (simp add: Let_def)
    then have "new_installs notify MaxPpi s = Some s' \<and>
        once MaxPpi s' (ps @ (ps' @ ps'')) (cs @ (cs' @ cs'')) ds (length ds) (length (ps @ (ps' @ ps''))) \<and> descriptors s' = descriptors s"
      using s' extendsD(1)[OF e] by simp
    then show ?thesis by blast
  qed
qed

lemma process_once:
  assumes "once MaxPpi s ps cs ds k j" "accounted (descriptors s) notify"
  shows "\<exists>s' ps' cs'. ProcessNotifyList notify MaxPpi s = Some s' \<and> once MaxPpi s' ps' cs' ds (length ds) (length ps') \<and>
    descriptors s' = descriptors s"
proof -
  obtain s1 ps1 cs1 where s1: "new_notifies notify s = Some s1" "once MaxPpi s1 (ps @ ps1) (cs @ cs1) ds (length ds) j"
    "descriptors s1 = descriptors s" using new_notifies_once[OF assms] by blast
  have "accounted (descriptors s1) notify" using assms(2) s1(3) by simp
  from new_installs_once[OF s1(2) this] obtain s2 ps2 cs2 where s2: "new_installs notify MaxPpi s1 = Some s2"
    "once MaxPpi s2 ps2 cs2 ds (length ds) (length ps2)" "descriptors s2 = descriptors s1" by blast
  have "LastDispatchedNotify s2 = DispatchListEnd s2" using s2(2) dispatch_end[of s2 ps2 cs2 ds] by (simp add: once_def pending_def)
  then have "ProcessNotifyList notify MaxPpi s = Some s2" using s1(1) s2(1) by (subst ProcessNotifyList.simps) simp
  then show ?thesis using s1(3) s2 by auto
qed

text \<open>The core registers notifications of either level.\<close>

lemma notify_once:
  assumes "once MaxPpi s ps cs ds k j" "accounted (descriptors s) notify" "L \<noteq> 0"
  shows "\<exists>st s' ps' cs' ds'. PeiNotifyPpi notify L s = Some (st, s') \<and>
    once MaxPpi (s'\<lparr>world := log_status st (world s')\<rparr>) ps' cs' ds' k j \<and> descriptors s' = descriptors s"
proof -
  have p: "pending s ps cs ds k j" "represents s ps cs ds" using assms(1) by (simp_all add: once_def pending_def)
  from notify_enters[OF p(2) assms(3) accounted_orderly[OF assms(2)]] obtain st s1 new new' where
    s1: "represents s1 ps (cs @ new) (ds @ new')" "same_outside s s1"
    "if st = EFI_SUCCESS then PeiNotifyPpi notify L s = map_option (Pair st) (call_all notify (matches s new ps) s1)
     else PeiNotifyPpi notify L s = Some (st, s1) \<and> new' = [] \<and> (new = [] \<or> st = EFI_OUT_OF_RESOURCES)" by blast
  have p1: "pending s1 ps (cs @ new) (ds @ new') k j" using p s1(1,2) by (auto simp: pending_def same_outside_def)
  have d1: "due s1 = due s + mset (matches s new ps)"
    using due_represents[OF p(2)] due_represents[OF s1(1)] matches_outside[OF s1(2)] by (simp add: matches_append)
  have k: "take k (ds @ new') = take k ds" using p(1) by (simp add: pending_def)
  have o: "descriptors s1 = descriptors s" "world s1 = world s" "uint (MaxPpi - 1) = int (length (PpiListPtrs s1)) - 1"
    "matches s1 = matches s" using s1(2) assms(1) matches_outside[OF s1(2)] by (simp_all add: same_outside_def once_def)
  show ?thesis
  proof (cases "st = EFI_SUCCESS")
    case True
    have "accounted (descriptors s1) notify" using assms(2) o(1) by simp
    from call_all_accounts[OF this s1(1)] obtain s' where s': "call_all notify (matches s new ps) s1 = Some s'"
      "accounts s1 s' (matches s new ps)" by blast
    then have e: "extends s1 s'" by (simp add: accounts_def)
    obtain ps' cs' where p': "pending s' (ps @ ps') ((cs @ new) @ cs') (ds @ new') k j" by (rule extends_pending[OF e p1])
    have "mset (calls (world s')) = due s' + mset (matches s (take k ds) (take j ps))" if "\<not> short (world s')"
    proof -
      have "mset (calls (world s')) + due s1 = mset (calls (world s)) + mset (matches s new ps) + due s'"
        "mset (calls (world s)) = due s + mset (matches s (take k ds) (take j ps))"
        using that s'(2) assms(1) o(2) by (auto simp: accounts_def once_def)
      then have "mset (calls (world s')) + due s1 = (due s' + mset (matches s (take k ds) (take j ps))) + due s1"
        unfolding d1 by (simp add: ac_simps)
      then show ?thesis by simp
    qed
    then have "once MaxPpi (s'\<lparr>world := log_status st (world s')\<rparr>) (ps @ ps') ((cs @ new) @ cs') (ds @ new') k j"
      using p' p(1) o(3,4) extendsD(5,6)[OF e] k by (auto simp: once_def log_status_def pending_def)
    then show ?thesis using s1(3) s'(1) True o(1) extendsD(1)[OF e] by auto
  next
    case False
    then have "once MaxPpi (s1\<lparr>world := log_status st (world s1)\<rparr>) ps (cs @ new) (ds @ new') k j"
      using s1(3) p1 d1 k o assms(1) by (auto simp: once_def log_status_def)
    then show ?thesis using s1(3) o(1) False by auto
  qed
qed

lemma service_once:
  assumes "once MaxPpi s ps cs ds k j" "accounted (descriptors s) notify" "\<not> replaces (Service c)"
  shows "\<exists>r s' ps' cs' ds'. call_service notify log_status c s = Some (r, s') \<and> once MaxPpi s' ps' cs' ds' k j \<and> descriptors s' = descriptors s"
proof -
  have r: "represents s ps cs ds" using assms(1) by (simp add: once_def pending_def)
  have *: ?thesis if a: "appends_only (descriptors s) c"
  proof -
    obtain r' s' where s': "call_service notify log_status c s = Some (r', s')" "accounts s s' []"
      using call_service_accounts[OF assms(2) r a] by blast
    then have "extends s s'" by (simp add: accounts_def)
    then show ?thesis using s' once_accounts[OF assms(1) s'(2)] extendsD(1) by blast
  qed
  show ?thesis
  proof (cases c)
    case (Notify L)
    show ?thesis
    proof (cases "L = 0")
      case True
      have "once MaxPpi (s\<lparr>world := log_status EFI_INVALID_PARAMETER (world s)\<rparr>) ps cs ds k j"
        using assms(1) by (auto simp: once_def log_status_def)
      then show ?thesis using Notify True by (auto simp: PeiNotifyPpi_def)
    next
      case False
      from notify_once[OF assms(1,2) this] obtain st s' ps' cs' ds' where "PeiNotifyPpi notify L s = Some (st, s')"
        "once MaxPpi (s'\<lparr>world := log_status st (world s')\<rparr>) ps' cs' ds' k j" "descriptors s' = descriptors s" by blast
      then show ?thesis using Notify by auto
    qed
  qed (use * assms(3) in auto)
qed

lemma run_calls_once:
  assumes "once MaxPpi s ps cs ds k j" "accounted (descriptors s) notify" "list_all (\<lambda>c. \<not> replaces c) script"
  shows "\<exists>s' ps' cs' ds' k' j'. run_calls notify MaxPpi script s = Some s' \<and> once MaxPpi s' ps' cs' ds' k' j' \<and> descriptors s' = descriptors s"
  using assms
proof (induction script arbitrary: s ps cs ds k j)
  case Nil
  then show ?case unfolding run_calls.simps by blast
next
  case (Cons c script)
  have "\<exists>s1 ps' cs' ds' k' j'. run_calls notify MaxPpi (c # script) s = run_calls notify MaxPpi script s1 \<and>
    once MaxPpi s1 ps' cs' ds' k' j' \<and> descriptors s1 = descriptors s"
  proof (cases c)
    case (Service x)
    then have "\<not> replaces (Service x)" using Cons.prems(3) by simp
    from service_once[OF Cons.prems(1,2) this] Service show ?thesis by fastforce
  next
    case DispatchPending
    then show ?thesis using process_once[OF Cons.prems(1,2)] by fastforce
  qed
  then obtain s1 ps' cs' ds' k' j' where s1: "run_calls notify MaxPpi (c # script) s = run_calls notify MaxPpi script s1"
    "once MaxPpi s1 ps' cs' ds' k' j'" "descriptors s1 = descriptors s" by blast
  then show ?case using Cons.IH[OF s1(2)] Cons.prems(2,3) by simp
qed

end
