(* ===== verification/Ppi_Convert.thy ===== *)
theory Ppi_Convert
  imports Ppi_Rep
begin

text \<open>
  The migration of the entries to permanent memory: each entry that is in use is moved by the heap, the
  stack and the holes in turn, and the loop ends because its UINT8 index reaches the size of the array.
\<close>

definition moved_by :: "memory_area \<Rightarrow> u64 \<Rightarrow> u64" where
  "moved_by h p = moved (Base h) (Base h + Size h) (Offset h) (OffsetPositive h) p"

definition migrated :: "memory_area \<Rightarrow> memory_area \<Rightarrow> memory_area list \<Rightarrow> u64 \<Rightarrow> u64" where
  "migrated Heap Stack Holes p =
     fold (\<lambda>h p. if Size h = 0 then p else moved_by h p) Holes (moved_by Stack (moved_by Heap p))"

text \<open>The array with the entry i replaced; the descriptors may change.\<close>

definition entry_moved :: "'w ppi_database \<Rightarrow> nat \<Rightarrow> u64 \<Rightarrow> 'w ppi_database \<Rightarrow> bool" where
  "entry_moved s i p s' \<longleftrightarrow> PpiListPtrs s' = (PpiListPtrs s)[i := p] \<and> PpiListEnd s' = PpiListEnd s \<and>
     NotifyListEnd s' = NotifyListEnd s"

lemma entry_moved_trans:
  "entry_moved s i p s' \<Longrightarrow> entry_moved s' i q s'' \<Longrightarrow> entry_moved s i q s''"
  by (simp add: entry_moved_def)

lemma entry_moved_nth: "entry_moved s i p s' \<Longrightarrow> i < length (PpiListPtrs s) \<Longrightarrow>
    PpiListPtrs s' ! i = p \<and> length (PpiListPtrs s') = length (PpiListPtrs s)"
  by (simp add: entry_moved_def)

lemma ConvertSinglePpiPointer_moves:
  assumes "i < length (PpiListPtrs s)"
  shows "\<exists>s'. ConvertSinglePpiPointer (int i) b t off pos s = Some s' \<and>
    entry_moved s i (moved b t off pos (PpiListPtrs s ! i)) s'"
  using assms by (auto simp: ConvertSinglePpiPointer_def entry_at_def set_entry_def entry_moved_def moved_def Let_def)

lemma convert_holes_moves:
  assumes "i < length (PpiListPtrs s)"
  shows "\<exists>s'. convert_holes (int i) hs s = Some s' \<and>
    entry_moved s i (fold (\<lambda>h p. if Size h = 0 then p else moved_by h p) hs (PpiListPtrs s ! i)) s'"
  using assms
proof (induction hs arbitrary: s)
  case Nil
  then show ?case by (simp add: entry_moved_def)
next
  case (Cons h hs)
  show ?case
  proof (cases "Size h = 0")
    case True
    then show ?thesis using Cons by simp
  next
    case False
    obtain s1 where s1: "ConvertSinglePpiPointer (int i) (Base h) (Base h + Size h) (Offset h) (OffsetPositive h) s = Some s1"
      "entry_moved s i (moved_by h (PpiListPtrs s ! i)) s1"
      using ConvertSinglePpiPointer_moves[OF Cons.prems] unfolding moved_by_def by blast
    note n = entry_moved_nth[OF s1(2) Cons.prems]
    have "i < length (PpiListPtrs s1)" using n Cons.prems by simp
    from Cons.IH[OF this] obtain s2 where s2: "convert_holes (int i) hs s1 = Some s2"
      "entry_moved s1 i (fold (\<lambda>h p. if Size h = 0 then p else moved_by h p) hs (PpiListPtrs s1 ! i)) s2" by blast
    show ?thesis using False s1(1) s2(1) entry_moved_trans[OF s1(2) s2(2)] n by simp
  qed
qed

lemma convert_entry:
  assumes "i < length (PpiListPtrs s)"
  shows "\<exists>s'. do {
      s \<leftarrow> ConvertSinglePpiPointer (int i) (Base Heap) (Base Heap + Size Heap) (Offset Heap) (OffsetPositive Heap) s;
      s \<leftarrow> ConvertSinglePpiPointer (int i) (Base Stack) (Base Stack + Size Stack) (Offset Stack) (OffsetPositive Stack) s;
      convert_holes (int i) Holes s
    } = Some s' \<and> entry_moved s i (migrated Heap Stack Holes (PpiListPtrs s ! i)) s'"
proof -
  obtain s1 where s1: "ConvertSinglePpiPointer (int i) (Base Heap) (Base Heap + Size Heap) (Offset Heap) (OffsetPositive Heap) s = Some s1"
    "entry_moved s i (moved_by Heap (PpiListPtrs s ! i)) s1"
    using ConvertSinglePpiPointer_moves[OF assms] unfolding moved_by_def by blast
  note n1 = entry_moved_nth[OF s1(2) assms]
  have l1: "i < length (PpiListPtrs s1)" using n1 assms by simp
  obtain s2 where s2: "ConvertSinglePpiPointer (int i) (Base Stack) (Base Stack + Size Stack) (Offset Stack) (OffsetPositive Stack) s1 = Some s2"
    "entry_moved s1 i (moved_by Stack (PpiListPtrs s1 ! i)) s2"
    using ConvertSinglePpiPointer_moves[OF l1] unfolding moved_by_def by blast
  note n2 = entry_moved_nth[OF s2(2) l1]
  have l2: "i < length (PpiListPtrs s2)" using n2 l1 by simp
  from convert_holes_moves[OF l2, of Holes] obtain s3 where s3: "convert_holes (int i) Holes s2 = Some s3"
    "entry_moved s2 i (fold (\<lambda>h p. if Size h = 0 then p else moved_by h p) Holes (PpiListPtrs s2 ! i)) s3" by blast
  have "entry_moved s i (migrated Heap Stack Holes (PpiListPtrs s ! i)) s3"
    using entry_moved_trans[OF entry_moved_trans[OF s1(2) s2(2)] s3(2)] n1 n2 by (simp add: migrated_def)
  then show ?thesis using s1(1) s2(1) s3(1) by simp
qed

definition in_database :: "'w ppi_database \<Rightarrow> nat \<Rightarrow> bool" where
  "in_database s i \<longleftrightarrow> int i < PpiListEnd s \<or> NotifyListEnd s < int i"

lemma convert_loop_moves:
  assumes "unat MaxPpi < 256" "length (PpiListPtrs s) = unat MaxPpi" "unat Index \<le> unat MaxPpi"
  shows "\<exists>s'. convert_loop MaxPpi Heap Stack Holes Index s = Some s' \<and> PpiListPtrs s' =
    map (\<lambda>i. if unat Index \<le> i \<and> in_database s i then migrated Heap Stack Holes (PpiListPtrs s ! i) else PpiListPtrs s ! i)
      [0..<unat MaxPpi]"
  using assms(2,3)
proof (induction "unat MaxPpi - unat Index" arbitrary: Index s)
  case 0
  then have e: "\<not> unat Index < unat MaxPpi" by simp
  have "PpiListPtrs s = map (\<lambda>i. PpiListPtrs s ! i) [0..<unat MaxPpi]" using 0(2) by (metis map_nth)
  also have "\<dots> = map (\<lambda>i. if unat Index \<le> i \<and> in_database s i then migrated Heap Stack Holes (PpiListPtrs s ! i)
      else PpiListPtrs s ! i) [0..<unat MaxPpi]"
    using e by (intro map_cong) auto
  finally show ?case using e by (subst convert_loop.simps) simp
next
  case (Suc m)
  let ?i = "unat Index"
  have i: "?i < unat MaxPpi" using Suc.hyps(2) by simp
  have u: "uint Index = int ?i" by simp
  have nx: "unat (Index + 1) = Suc ?i"
  proof -
    have "?i + unat (1 :: u8) < 2 ^ LENGTH(8)" using i assms(1) by simp
    then show ?thesis by (subst unat_add_lem[THEN iffD1]) simp_all
  qed
  define body where "body = (if uint Index < PpiListEnd s \<or> uint Index > NotifyListEnd s then do {
      s \<leftarrow> ConvertSinglePpiPointer (uint Index) (Base Heap) (Base Heap + Size Heap) (Offset Heap) (OffsetPositive Heap) s;
      s \<leftarrow> ConvertSinglePpiPointer (uint Index) (Base Stack) (Base Stack + Size Stack) (Offset Stack) (OffsetPositive Stack) s;
      convert_holes (uint Index) Holes s
    } else Some s)"
  let ?p = "if in_database s ?i then migrated Heap Stack Holes (PpiListPtrs s ! ?i) else PpiListPtrs s ! ?i"
  have len: "?i < length (PpiListPtrs s)" using i Suc.prems(1) by simp
  have "\<exists>s1. body = Some s1 \<and> entry_moved s ?i ?p s1"
  proof (cases "in_database s ?i")
    case True
    then have c: "uint Index < PpiListEnd s \<or> uint Index > NotifyListEnd s" by (simp add: in_database_def)
    show ?thesis unfolding body_def if_P[OF c] if_P[OF True] unfolding u using convert_entry[OF len] .
  next
    case False
    then have c: "\<not> (uint Index < PpiListEnd s \<or> uint Index > NotifyListEnd s)" by (simp add: in_database_def)
    show ?thesis unfolding body_def if_not_P[OF c] if_not_P[OF False] by (simp add: entry_moved_def)
  qed
  then obtain s1 where s1: "body = Some s1" "entry_moved s ?i ?p s1" by blast
  have run: "convert_loop MaxPpi Heap Stack Holes Index s = convert_loop MaxPpi Heap Stack Holes (Index + 1) s1"
    using i s1(1) by (subst convert_loop.simps) (simp add: body_def)
  have "m = unat MaxPpi - unat (Index + 1)" "length (PpiListPtrs s1) = unat MaxPpi" "unat (Index + 1) \<le> unat MaxPpi"
    using Suc.hyps(2) Suc.prems(1) i nx s1(2) by (simp_all add: entry_moved_def)
  from Suc.hyps(1)[OF this] obtain s2 where s2: "convert_loop MaxPpi Heap Stack Holes (Index + 1) s1 = Some s2"
    "PpiListPtrs s2 = map (\<lambda>k. if unat (Index + 1) \<le> k \<and> in_database s1 k then migrated Heap Stack Holes (PpiListPtrs s1 ! k)
      else PpiListPtrs s1 ! k) [0..<unat MaxPpi]" by blast
  have "PpiListPtrs s2 = map (\<lambda>k. if ?i \<le> k \<and> in_database s k then migrated Heap Stack Holes (PpiListPtrs s ! k)
      else PpiListPtrs s ! k) [0..<unat MaxPpi]"
    unfolding s2(2)
  proof (intro map_cong refl)
    fix k assume k: "k \<in> set [0..<unat MaxPpi]"
    have ptr: "PpiListPtrs s1 = (PpiListPtrs s)[?i := ?p]" and d: "in_database s1 k = in_database s k"
      using s1(2) by (simp_all add: entry_moved_def in_database_def)
    have nth: "PpiListPtrs s1 ! k = (if k = ?i then ?p else PpiListPtrs s ! k)" unfolding ptr using len k by auto
    show "(if unat (Index + 1) \<le> k \<and> in_database s1 k then migrated Heap Stack Holes (PpiListPtrs s1 ! k) else PpiListPtrs s1 ! k) =
      (if ?i \<le> k \<and> in_database s k then migrated Heap Stack Holes (PpiListPtrs s ! k) else PpiListPtrs s ! k)"
      unfolding d nth nx by (cases "k = ?i") auto
  qed
  then show ?case using run s2(1) by auto
qed

lemma convert_loop_hangs:
  "convert_loop MaxPpi Heap Stack Holes Index s = Some s' \<Longrightarrow> unat MaxPpi < 256"
proof (erule convert_loop.raw_induct[rotated])
  fix f MaxPpi Heap Stack Holes and Index :: u8 and s s'
  assume IH: "\<And>MaxPpi Heap Stack Holes Index s s'. f MaxPpi Heap Stack Holes Index s = Some s' \<Longrightarrow> unat (MaxPpi :: u32) < 256"
    and r: "(if \<not> unat Index < unat MaxPpi then Some s
      else do {
        s \<leftarrow> (if uint Index < PpiListEnd s \<or> uint Index > NotifyListEnd s then do {
             s \<leftarrow> ConvertSinglePpiPointer (uint Index) (Base Heap) (Base Heap + Size Heap) (Offset Heap) (OffsetPositive Heap) s;
             s \<leftarrow> ConvertSinglePpiPointer (uint Index) (Base Stack) (Base Stack + Size Stack) (Offset Stack) (OffsetPositive Stack) s;
             convert_holes (uint Index) Holes s
           }
           else Some s);
        f MaxPpi Heap Stack Holes (Index + 1) s
      }) = Some s'"
  have "unat Index < 256" by (rule order_less_le_trans[OF unsigned_less]) simp
  then show "unat MaxPpi < 256" using r IH by (auto simp: bind_eq_Some_conv split: if_splits)
qed

end
