(* ===== verification/Ppi_Spec.thy ===== *)
theory Ppi_Spec
  imports Ppi_Once Ppi_Convert
begin

text \<open>
  What the PPI database of the PEI core promises: installation, registration and lookup on the three
  lists, that each notification is called exactly once for each PPI, that notifications may use the
  services, and the migration of the pointers.
\<close>

text \<open>The database as the core creates it.\<close>

definition empty_ppi :: "u32 \<Rightarrow> (u64 \<Rightarrow> ppi_descriptor) \<Rightarrow> (u64 \<Rightarrow> guid_value) \<Rightarrow> 'w \<Rightarrow> 'w ppi_database" where
  "empty_ppi MaxPpi d g w = InitializePpiServices MaxPpi False
     \<lparr>PpiListEnd = 0, NotifyListEnd = 0, DispatchListEnd = 0, LastDispatchedInstall = 0, LastDispatchedNotify = 0,
      PpiListPtrs = replicate (unat MaxPpi) 0, descriptors = d, guids = g, world = w\<rparr>"

lemma empty_ppi_pending:
  assumes "0 < MaxPpi"
  shows "pending (empty_ppi MaxPpi d g w) [] [] [] 0 0"
    "uint (MaxPpi - 1) = int (length (PpiListPtrs (empty_ppi MaxPpi d g w))) - 1"
proof -
  have "0 < uint MaxPpi" using assms by (simp add: word_less_def)
  then have "uint (1 :: u32) \<le> uint MaxPpi" by simp
  then have u: "uint (MaxPpi - 1) = int (unat MaxPpi) - 1" using uint_sub_lem[of 1 MaxPpi] by simp
  have "unat MaxPpi < 4294967296" by (rule order_less_le_trans[OF unsigned_less]) simp
  then have l: "unat MaxPpi \<le> 4294967295" by simp
  let ?s = "empty_ppi MaxPpi d g w"
  have "represents ?s [] [] []"
    by (rule representsI[where hole = "replicate (unat MaxPpi) 0"]) (use u l in \<open>simp_all add: empty_ppi_def InitializePpiServices_def Let_def\<close>)
  then show "pending ?s [] [] [] 0 0" using u by (simp add: pending_def empty_ppi_def InitializePpiServices_def Let_def)
  show "uint (MaxPpi - 1) = int (length (PpiListPtrs ?s)) - 1" using u by (simp add: empty_ppi_def InitializePpiServices_def Let_def)
qed

lemma empty_ppi_simps [simp]: "world (empty_ppi MaxPpi d g w) = w" "descriptors (empty_ppi MaxPpi d g w) = d"
  by (simp_all add: empty_ppi_def InitializePpiServices_def Let_def)

subsection \<open>Notifications that only append\<close>

lemma call_service_extends:
  assumes o: "orderly (descriptors s) notify" and r: "represents s ps cs ds" and a: "appends_only (descriptors s) c"
  shows "\<exists>r s'. call_service notify after c s = Some (r, s') \<and> extends s s'"
proof -
  have world: "extends s (s'\<lparr>world := w\<rparr>)" if "extends s s'" for s' w
    using extendsE[OF that r] extends_world extends_trans[OF that] by metis
  have entered: "\<exists>s'. call_all notify xs s1 = Some s' \<and> extends s s'" and same: "extends s s1"
    if r1: "represents s1 (ps @ ps') (cs @ cs') ds" and s1: "same_outside s s1" for s1 ps' cs' xs
  proof -
    show e: "extends s s1" by (rule extendsI[OF r r1]) (use s1 in \<open>simp add: same_outside_def\<close>)
    have "orderly (descriptors s1) notify" using o s1 by (simp add: same_outside_def)
    from orderly_call_all[OF this r1] show "\<exists>s'. call_all notify xs s1 = Some s' \<and> extends s s'" using extends_trans[OF e] by blast
  qed
  show ?thesis
  proof (cases c)
    case (Install L)
    have "\<exists>st s'. PeiInstallPpi notify L s = Some (st, s') \<and> extends s s'"
    proof (cases "L = 0")
      case False
      obtain st ns where rd: "read_list (room_left s) (descriptors s) EFI_PEI_PPI_DESCRIPTOR_PPI L = (st, ns)" by fastforce
      define new where "new = (if st = EFI_INVALID_PARAMETER then [] else ns)"
      have "(if st = EFI_INVALID_PARAMETER then ps else ps @ ns) = ps @ new" by (simp add: new_def)
      then obtain s1 where s1: "represents s1 (ps @ new) (cs @ []) ds" "same_outside s s1"
        "PeiInstallPpi notify L s = (if st = EFI_SUCCESS then map_option (Pair EFI_SUCCESS) (call_all notify (matches s cs ns) s1)
          else Some (st, s1))" using install_calls[OF r False rd o] by auto
      then show ?thesis using entered[OF s1(1,2), of "matches s cs ns"] same[OF s1(1,2)] by auto
    qed (use extends_refl[OF r] in \<open>simp add: PeiInstallPpi_def\<close>)
    then show ?thesis using Install world by auto
  next
    case (ReInstall O' N)
    then show ?thesis using a by simp
  next
    case (Notify L)
    have "\<exists>st s'. PeiNotifyPpi notify L s = Some (st, s') \<and> extends s s'"
    proof (cases "L = 0")
      case False
      from notify_enters[OF r False o] obtain st s1 new new' where
        n: "represents s1 ps (cs @ new) (ds @ new')" "same_outside s s1" "callbacks_only (descriptors s) L \<longrightarrow> new' = []"
        "if st = EFI_SUCCESS then PeiNotifyPpi notify L s = map_option (Pair st) (call_all notify (matches s new ps) s1)
         else PeiNotifyPpi notify L s = Some (st, s1) \<and> new' = [] \<and> (new = [] \<or> st = EFI_OUT_OF_RESOURCES)" by blast
      then have r1: "represents s1 (ps @ []) (cs @ new) ds" using a Notify by simp
      show ?thesis using entered[OF r1 n(2), of "matches s new ps"] same[OF r1 n(2)] n(4) by (cases "st = EFI_SUCCESS") auto
    qed (use extends_refl[OF r] in \<open>simp add: PeiNotifyPpi_def\<close>)
    then show ?thesis using Notify world by auto
  next
    case (Locate G I)
    obtain st q where "PeiLocatePpi G I s = Some (st, q)" using locate_run[OF r, of G I] by (metis surj_pair)
    then show ?thesis using Locate extends_world[OF r] by auto
  qed
qed

lemma nested_orderly:
  assumes "\<forall>f n i. calls_only (appends_only d) (behaviour f n i)"
  shows "orderly d (nested m behaviour effect after)"
proof (induction m)
  case 0
  show ?case unfolding orderly_def using extends_world by auto
next
  case (Suc m)
  show ?case
    unfolding orderly_def
  proof (intro allI impI)
    fix f n i and s :: "'a ppi_database" assume s: "descriptors s = d \<and> (\<exists>ps cs ds. represents s ps cs ds)"
    let ?s = "s\<lparr>world := effect f n i (world s)\<rparr>" and ?I = "\<lambda>s. descriptors s = d \<and> (\<exists>ps cs ds. represents s ps cs ds)"
    have e: "extends s ?s" using s by (auto intro: extends_world)
    have call: "\<exists>r s'. call_service (nested m behaviour effect after) after c t = Some (r, s') \<and> ?I s' \<and> extends t s'"
      if c: "appends_only d c" and t: "?I t" for c t
    proof -
      obtain ps cs ds where r: "represents t ps cs ds" using t by blast
      obtain r' s' where s': "call_service (nested m behaviour effect after) after c t = Some (r', s')" "extends t s'"
        using call_service_extends[OF _ r, of "nested m behaviour effect after" c after] Suc c t by auto
      obtain ps' cs' where "represents s' (ps @ ps') (cs @ cs') ds" by (rule extendsE[OF s'(2) r])
      then have "?I s'" using extendsD(1)[OF s'(2)] t by auto
      then show ?thesis using s' by blast
    qed
    have "?I ?s" using s by simp
    then have "\<exists>s'. run_program (call_service (nested m behaviour effect after) after) (behaviour f n i) ?s = Some s' \<and> ?I s' \<and> extends ?s s'"
      by (rule run_program_total[where P = "appends_only d" and I = ?I, rotated -1])
        (use call assms extends_refl extends_trans in blast)+
    then show "\<exists>s'. nested (Suc m) behaviour effect after f n i s = Some s' \<and> extends s s'"
      using extends_trans[OF e] by auto
  qed
qed

lemma empty_ppi_ok: "0 < MaxPpi \<Longrightarrow> ppi_ok (empty_ppi MaxPpi d g w)"
  unfolding ppi_ok_def by (intro exI) (rule empty_ppi_pending(1))

subsection \<open>Callbacks that register notifications of dispatch level\<close>

text \<open>The callback c registers the list M whenever it is called.\<close>

definition registers :: "u64 \<Rightarrow> u64 \<Rightarrow> recorded notify_function" where
  "registers c M = nested 1 (\<lambda>f n i. if n = c then Call (Notify M) (\<lambda>r. Finish) else Finish) (\<lambda>f n i w. w @ [(n, i)]) (\<lambda>st w. w)"

lemma orderly_plain: "orderly d (nested 0 behaviour effect after)"
  using nested_orderly[of d "\<lambda>f n i. Finish" 0 effect after] by (simp add: orderly_def)

lemma registers_dispatch:
  assumes r: "represents t ps cs ds" and M: "M \<noteq> 0" "is_dispatch (descriptors t) M"
      "Flags (descriptors t M) AND EFI_PEI_PPI_DESCRIPTOR_NOTIFY_TYPES \<noteq> 0"
      "Flags (descriptors t M) AND EFI_PEI_PPI_DESCRIPTOR_TERMINATE_LIST = EFI_PEI_PPI_DESCRIPTOR_TERMINATE_LIST"
    and room: "0 < room_left t"
  shows "\<exists>t'. registers c M f c i t = Some t' \<and> represents t' ps cs (ds @ [M]) \<and> world t' = world t @ [(c, i)] \<and>
    descriptors t' = descriptors t \<and> guids t' = guids t \<and> length (PpiListPtrs t') = length (PpiListPtrs t)"
proof -
  let ?t = "t\<lparr>world := world t @ [(c, i)]\<rparr>"
  let ?plain = "nested 0 (\<lambda>f n i. if n = c then Call (Notify M) (\<lambda>r. Finish) else Finish) (\<lambda>f n i w. w @ [(n, i)]) (\<lambda>st w. w)"
  have r': "represents ?t ps cs ds" using r by simp
  obtain m where "room_left t = Suc m" using room by (cases "room_left t") auto
  moreover have "room_left ?t = room_left t" by (simp add: room_left_def)
  ultimately have rd: "read_list (room_left ?t) (descriptors ?t) EFI_PEI_PPI_DESCRIPTOR_NOTIFY_TYPES M = (EFI_SUCCESS, [M])"
    using M(3,4) by simp
  have "orderly (descriptors ?t) ?plain" by (rule orderly_plain)
  from notify_calls[OF r' M(1) rd this] M(2) obtain t' where
    t': "represents t' ps cs (ds @ [M])" "same_outside ?t t'" "PeiNotifyPpi ?plain M ?t = Some (EFI_SUCCESS, t')" by auto
  then have "registers c M f c i t = Some t'" by (simp add: registers_def)
  then show ?thesis using t' by (auto simp: same_outside_def)
qed

text \<open>The walk by index over the callbacks meets the same callback at every step.\<close>

lemma walk_repeats:
  assumes r: "represents t (ps @ [p]) (c # cs) ds" and M: "M \<noteq> 0" "is_dispatch (descriptors t) M"
      "Flags (descriptors t M) AND EFI_PEI_PPI_DESCRIPTOR_NOTIFY_TYPES \<noteq> 0"
      "Flags (descriptors t M) AND EFI_PEI_PPI_DESCRIPTOR_TERMINATE_LIST = EFI_PEI_PPI_DESCRIPTOR_TERMINATE_LIST"
    and room: "m \<le> room_left t" and waits: "same_guid (guids t (Guid (descriptors t p))) (guids t (Guid (descriptors t c)))"
  shows "\<exists>t'. dispatch_notifies (registers c M) [int (length ps)] (rev [DispatchListEnd t - int m + 1..DispatchListEnd t]) t = Some t' \<and>
    world t' = world t @ replicate m (c, Ppi (descriptors t p))"
  using assms
proof (induction m arbitrary: t ds)
  case 0
  then show ?case by simp
next
  case (Suc m)
  let ?D = "DispatchListEnd t"
  have l: "rev [?D - int (Suc m) + 1..?D] = ?D # rev [?D - 1 - int m + 1..?D - 1]" by (simp add: upto_rec2)
  have n: "entry_at t ?D = Some c" using callback_entries[OF Suc.prems(1), of 0 ?D] representsD(2)[OF Suc.prems(1)]
    Suc.prems(1) by (auto simp: upto_rec2 elim!: representsE)
  have e: "entry_at t (int (length ps)) = Some p"
    using ppi_entries(1)[OF Suc.prems(1), of "length ps"] representsD(1)[OF Suc.prems(1)] by simp
  obtain t1 where t1: "registers c M (Ppi (descriptors t c)) c (Ppi (descriptors t p)) t = Some t1" "represents t1 (ps @ [p]) (c # cs) (ds @ [M])"
    "world t1 = world t @ [(c, Ppi (descriptors t p))]" "descriptors t1 = descriptors t" "guids t1 = guids t" "length (PpiListPtrs t1) = length (PpiListPtrs t)"
    using registers_dispatch[OF Suc.prems(1-5)] Suc.prems(6) by fastforce
  have b: "DispatchListEnd t1 = ?D - 1" "room_left t1 = room_left t - 1"
    using representsD(5)[OF Suc.prems(1)] representsD(5)[OF t1(2)] t1(6) Suc.prems(1) t1(2) by (auto elim!: representsE)
  have "\<exists>t'. dispatch_notifies (registers c M) [int (length ps)] (rev [DispatchListEnd t1 - int m + 1..DispatchListEnd t1]) t1 = Some t' \<and>
      world t' = world t1 @ replicate m (c, Ppi (descriptors t1 p))"
    by (rule Suc.IH[OF t1(2)]) (use Suc.prems t1(4,5) b(2) in simp_all)
  then show ?case unfolding l using n e t1 b(1) Suc.prems(7) by auto
qed

subsection \<open>A database with a PPI and two callbacks\<close>

text \<open>PPIs at 0x200 and 0x218, a list of two callbacks at 0x100, and a dispatch notification at 0x300.\<close>

definition sample_memory :: "u64 \<Rightarrow> ppi_descriptor" where
  "sample_memory a = (if a = 0x100 then \<lparr>Flags = 0x20, Guid = 0x10, Ppi = 1\<rparr>
     else if a = 0x118 then \<lparr>Flags = 0x80000020, Guid = 0x10, Ppi = 2\<rparr>
     else if a = 0x200 then \<lparr>Flags = 0x80000010, Guid = 0x10, Ppi = 3\<rparr>
     else if a = 0x218 then \<lparr>Flags = 0x80000010, Guid = 0x30, Ppi = 5\<rparr>
     else \<lparr>Flags = 0x80000040, Guid = 0x20, Ppi = 4\<rparr>)"

definition sample_guids :: "u64 \<Rightarrow> guid_value" where
  "sample_guids a = (ucast a, 0, 0, 0)"

definition sample_ppi :: "'w \<Rightarrow> 'w ppi_database" where
  "sample_ppi w = \<lparr>PpiListEnd = 1, NotifyListEnd = 5, DispatchListEnd = 7, LastDispatchedInstall = 0, LastDispatchedNotify = 7,
     PpiListPtrs = [0x200, 0, 0, 0, 0, 0, 0x118, 0x100], descriptors = sample_memory, guids = sample_guids, world = w\<rparr>"

lemma sample_ppi_represents: "represents (sample_ppi w) [0x200] [0x100, 0x118] []"
  by (rule representsI[where hole = "[0, 0, 0, 0, 0]"]) (simp_all add: sample_ppi_def)

lemma sample_ppi_simps [simp]: "descriptors (sample_ppi w) = sample_memory" "world (sample_ppi w) = w"
  by (simp_all add: sample_ppi_def)

text \<open>The callback at 0x118 installs the PPI at 0x218.\<close>

definition sample_behaviour :: "u64 \<Rightarrow> u64 \<Rightarrow> u64 \<Rightarrow> 'w ppi_program" where
  "sample_behaviour f n i = (if n = 0x118 then Call (Install 0x218) (\<lambda>r. Finish) else Finish)"

lemma sample_behaviour_appends: "\<forall>f n i. calls_only (appends_only d) (sample_behaviour f n i)"
  by (simp add: sample_behaviour_def)

definition sample_notify :: "recorded notify_function" where
  "sample_notify = nested 1 sample_behaviour (\<lambda>f n i w. w @ [(n, i)]) (\<lambda>st w. w)"

lemma sample_notify_orderly: "orderly d sample_notify"
  unfolding sample_notify_def by (rule nested_orderly[OF sample_behaviour_appends])

section \<open>Properties\<close>

text \<open>C24: PeiInstallPpi reads the list of descriptors up to the one that ends it.  A descriptor that is not
  a PPI gives EFI_INVALID_PARAMETER and the database is as before; otherwise the descriptors are
  appended to the PPIs in order, as many as there is room for (EFI_OUT_OF_RESOURCES when the list does
  not fit).  On success every callback registered is called once for each new PPI with its GUID, in
  the order of the callbacks and then of the PPIs, by notifications that return and do no more to the
  database than append PPIs and callbacks, which nested_orderly shows of those that call PeiInstallPpi,
  PeiLocatePpi and PeiNotifyPpi with callbacks; the state after the calls is that of PeiInstallPpi.\<close>

theorem PeiInstallPpi_contract:
  assumes "represents s ps cs ds" "L \<noteq> 0" "read_list (room_left s) (descriptors s) EFI_PEI_PPI_DESCRIPTOR_PPI L = (st, ns)"
    "orderly (descriptors s) notify"
  shows "\<exists>s1. represents s1 (if st = EFI_INVALID_PARAMETER then ps else ps @ ns) cs ds \<and> same_outside s s1 \<and>
    (if st = EFI_SUCCESS
     then \<exists>s'. call_all notify (matches s cs ns) s1 = Some s' \<and> extends s1 s' \<and> PeiInstallPpi notify L s = Some (EFI_SUCCESS, s')
     else PeiInstallPpi notify L s = Some (st, s1))"
proof -
  from install_calls[OF assms] obtain s1 where s1: "represents s1 (if st = EFI_INVALID_PARAMETER then ps else ps @ ns) cs ds"
    "same_outside s s1" "PeiInstallPpi notify L s = (if st = EFI_SUCCESS
      then map_option (Pair EFI_SUCCESS) (call_all notify (matches s cs ns) s1) else Some (st, s1))" by blast
  have "orderly (descriptors s1) notify" using assms(4) s1(2) by (simp add: same_outside_def)
  from orderly_call_all[OF this s1(1)] show ?thesis using s1 by (intro exI[of _ s1]) auto
qed

theorem PeiInstallPpi_contract_witness:
  "\<exists>s1 s'. represents s1 [0x200, 0x200] [0x100, 0x118] [] \<and>
    call_all sample_notify [(0x100, 3), (0x118, 3)] s1 = Some s' \<and> extends s1 s' \<and>
    PeiInstallPpi sample_notify 0x200 (sample_ppi []) = Some (EFI_SUCCESS, s')"
proof -
  have "read_list (room_left (sample_ppi [] :: recorded ppi_database)) sample_memory EFI_PEI_PPI_DESCRIPTOR_PPI 0x200 = (EFI_SUCCESS, [0x200])"
    "matches (sample_ppi [] :: recorded ppi_database) [0x100, 0x118] [0x200] = [(0x100, 3), (0x118, 3)]"
    by code_simp+
  then show ?thesis
    using PeiInstallPpi_contract[OF sample_ppi_represents, of "0x200" "[]" EFI_SUCCESS "[0x200]" sample_notify] sample_notify_orderly
    by auto
qed

text \<open>C26: PeiReInstallPpi refuses NULL and a new descriptor that is not a PPI, and returns EFI_NOT_FOUND for an
  old descriptor that is not in the database, with nothing changed.  Otherwise the first entry of the
  old descriptor holds the new one, at the same place, and every callback is called for the new PPI when
  it has its GUID, by notifications that return and only append PPIs and callbacks; the state after
  the calls is that of PeiReInstallPpi.\<close>

theorem PeiReInstallPpi_contract:
  assumes "represents s ps cs ds" "orderly (descriptors s) notify"
  shows "if P = 0 \<or> N = 0 \<or> Flags (descriptors s N) AND EFI_PEI_PPI_DESCRIPTOR_PPI = 0
    then PeiReInstallPpi notify P N s = Some (EFI_INVALID_PARAMETER, s)
    else if P \<notin> set ps then PeiReInstallPpi notify P N s = Some (EFI_NOT_FOUND, s)
    else \<exists>s1 s'. represents s1 (ps[length (takeWhile (\<lambda>q. q \<noteq> P) ps) := N]) cs ds \<and> same_outside s s1 \<and>
      call_all notify (matches s cs [N]) s1 = Some s' \<and> extends s1 s' \<and> PeiReInstallPpi notify P N s = Some (EFI_SUCCESS, s')"
proof -
  have "map (entry_at s) [0..PpiListEnd s - 1] = map Some ps" using ppi_entries(1)[OF assms(1), of 0] by simp
  then have none: "P \<notin> set ps \<Longrightarrow> find_entry P [0..PpiListEnd s - 1] s = Some None" by (simp add: find_entry_first)
  have found: "\<exists>s1 s'. represents s1 (ps[length (takeWhile (\<lambda>q. q \<noteq> P) ps) := N]) cs ds \<and> same_outside s s1 \<and>
      call_all notify (matches s cs [N]) s1 = Some s' \<and> extends s1 s' \<and> PeiReInstallPpi notify P N s = Some (EFI_SUCCESS, s')"
    if p: "P \<noteq> 0" "N \<noteq> 0" "Flags (descriptors s N) AND EFI_PEI_PPI_DESCRIPTOR_PPI \<noteq> 0" "P \<in> set ps"
  proof -
    from reinstall_calls[OF assms(1) p assms(2)] obtain s1 where
      s1: "represents s1 (ps[length (takeWhile (\<lambda>q. q \<noteq> P) ps) := N]) cs ds" "same_outside s s1"
      "PeiReInstallPpi notify P N s = map_option (Pair EFI_SUCCESS) (call_all notify (matches s cs [N]) s1)" by blast
    have "orderly (descriptors s1) notify" using assms(2) s1(2) by (simp add: same_outside_def)
    from orderly_call_all[OF this s1(1), of "matches s cs [N]"] show ?thesis using s1 by auto
  qed
  show ?thesis using none found by (auto simp: PeiReInstallPpi_def)
qed

theorem PeiReInstallPpi_contract_witness:
  "\<exists>s1 s'. represents s1 [0x200] [0x100, 0x118] [] \<and> call_all sample_notify [(0x100, 3), (0x118, 3)] s1 = Some s' \<and>
    PeiReInstallPpi sample_notify 0x200 0x200 (sample_ppi []) = Some (EFI_SUCCESS, s')"
proof -
  have "Flags (sample_memory 0x200) AND EFI_PEI_PPI_DESCRIPTOR_PPI \<noteq> 0"
    "matches (sample_ppi [] :: recorded ppi_database) [0x100, 0x118] [0x200] = [(0x100, 3), (0x118, 3)]" by code_simp+
  then show ?thesis
    using PeiReInstallPpi_contract[OF sample_ppi_represents, of "[]" sample_notify "0x200" "0x200"] sample_notify_orderly by auto
qed

text \<open>C25: PeiNotifyPpi registers a list of notifications: the callbacks go below the callbacks there are,
  and those of dispatch level are taken out of their order and put below the dispatch notifications
  there are, each group in the order of the list.  Every new callback is called once for each PPI
  installed before with its GUID, no dispatch notification is called, by notifications that return and
  only append PPIs and callbacks.  A descriptor without a notification flag gives
  EFI_INVALID_PARAMETER and the database is as before; when the array is full the notifications
  already entered all stay among the callbacks and none is called.\<close>

theorem PeiNotifyPpi_contract:
  assumes "represents s ps cs ds" "L \<noteq> 0"
    "read_list (room_left s) (descriptors s) EFI_PEI_PPI_DESCRIPTOR_NOTIFY_TYPES L = (st, ns)" "orderly (descriptors s) notify"
  shows "\<exists>s1. same_outside s s1 \<and>
    (if st = EFI_SUCCESS
     then represents s1 ps (cs @ filter (\<lambda>n. \<not> is_dispatch (descriptors s) n) ns) (ds @ filter (is_dispatch (descriptors s)) ns) \<and>
       (\<exists>s'. call_all notify (matches s (filter (\<lambda>n. \<not> is_dispatch (descriptors s) n) ns) ps) s1 = Some s' \<and> extends s1 s' \<and>
         PeiNotifyPpi notify L s = Some (EFI_SUCCESS, s'))
     else represents s1 ps (if st = EFI_INVALID_PARAMETER then cs else cs @ ns) ds \<and> PeiNotifyPpi notify L s = Some (st, s1))"
proof -
  let ?d = "is_dispatch (descriptors s)"
  from notify_calls[OF assms] obtain s1 where s1: "same_outside s s1"
    "if st = EFI_SUCCESS then represents s1 ps (cs @ filter (\<lambda>n. \<not> ?d n) ns) (ds @ filter ?d ns)
     else represents s1 ps (if st = EFI_INVALID_PARAMETER then cs else cs @ ns) ds"
    "PeiNotifyPpi notify L s = (if st = EFI_SUCCESS
      then map_option (Pair EFI_SUCCESS) (call_all notify (matches s (filter (\<lambda>n. \<not> ?d n) ns) ps) s1) else Some (st, s1))"
    by blast
  have o: "orderly (descriptors s1) notify" using assms(4) s1(1) by (simp add: same_outside_def)
  show ?thesis
  proof (cases "st = EFI_SUCCESS")
    case True
    then have "represents s1 ps (cs @ filter (\<lambda>n. \<not> ?d n) ns) (ds @ filter ?d ns)" using s1(2) by simp
    from orderly_call_all[OF o this] show ?thesis using s1 True by (intro exI[of _ s1]) auto
  next
    case False
    then show ?thesis using s1 by (intro exI[of _ s1]) simp
  qed
qed

theorem PeiNotifyPpi_contract_witness:
  "\<exists>s1 s'. represents s1 [0x200] [0x100, 0x118, 0x100, 0x118] [] \<and> call_all sample_notify [(0x100, 3), (0x118, 3)] s1 = Some s' \<and>
    extends s1 s' \<and> PeiNotifyPpi sample_notify 0x100 (sample_ppi []) = Some (EFI_SUCCESS, s')"
proof -
  have "read_list (room_left (sample_ppi [] :: recorded ppi_database)) sample_memory EFI_PEI_PPI_DESCRIPTOR_NOTIFY_TYPES 0x100 =
      (EFI_SUCCESS, [0x100, 0x118])"
    "filter (is_dispatch sample_memory) [0x100, 0x118] = []" "filter (\<lambda>n. \<not> is_dispatch sample_memory n) [0x100, 0x118] = [0x100, 0x118]"
    "matches (sample_ppi [] :: recorded ppi_database) [0x100, 0x118] [0x200] = [(0x100, 3), (0x118, 3)]" by code_simp+
  then show ?thesis
    using PeiNotifyPpi_contract[OF sample_ppi_represents, of "0x100" "[]" EFI_SUCCESS "[0x100, 0x118]" sample_notify] sample_notify_orderly
    by auto
qed

text \<open>C27: PeiLocatePpi returns the descriptor and the interface of the Instance-th PPI with the GUID,
  counted from 0 in the order of installation, and EFI_NOT_FOUND exactly when there are not so many.\<close>

theorem PeiLocatePpi_correct:
  assumes "represents s ps cs ds"
  shows "PeiLocatePpi G I s = Some (let ms = filter (\<lambda>p. same_guid (guids s G) (guids s (Guid (descriptors s p)))) ps in
    if unat I < length ms then (EFI_SUCCESS, Some (ms ! unat I, Ppi (descriptors s (ms ! unat I)))) else (EFI_NOT_FOUND, None))"
  by (rule locate_run[OF assms])

theorem PeiLocatePpi_correct_witness:
  "PeiLocatePpi 0x10 0 (sample_ppi ()) = Some (EFI_SUCCESS, Some (0x200, 3)) \<and> PeiLocatePpi 0x10 1 (sample_ppi ()) = Some (EFI_NOT_FOUND, None)"
proof -
  have "filter (\<lambda>p. same_guid (guids (sample_ppi ()) 0x10) (guids (sample_ppi ()) (Guid (descriptors (sample_ppi ()) p)))) [0x200] = [0x200]"
    "Ppi (sample_memory 0x200) = 3" by code_simp+
  then show ?thesis using PeiLocatePpi_correct[OF sample_ppi_represents, of "0x10" _ "()"] by (simp add: Let_def)
qed

text \<open>C5: Notifications whose programs call PeiInstallPpi, PeiLocatePpi and PeiNotifyPpi with lists of callbacks,
  to any depth m of notifications within notifications: whatever such calls, and registrations of
  dispatch notifications by the core, come in whatever order, with ProcessNotifyList run at any points
  between and once at the end, every call returns; and when no call was out of room, the calls made of
  notifications are, as a multiset, one for each pair of a notification and a PPI in the database with
  the same GUID: none is missed and none is repeated, whether the notification or the PPI came first
  and whether it is a callback or of dispatch level.  Not covered: PeiReInstallPpi, and notifications
  that themselves register dispatch notifications, for which it fails (nested_registration_repeats).\<close>

theorem notifications_exactly_once:
  assumes "0 < MaxPpi" "\<forall>f n i. calls_only (appends_only d) (behaviour f n i)" "list_all (\<lambda>c. \<not> replaces c) script"
  shows "\<exists>s ps cs ds. run_calls (nested m behaviour log_notification log_status) MaxPpi (script @ [DispatchPending])
      (empty_ppi MaxPpi d g \<lparr>calls = [], short = False\<rparr>) = Some s \<and>
    represents s ps cs ds \<and> (\<not> short (world s) \<longrightarrow> mset (calls (world s)) = mset (matches s (cs @ ds) ps))"
proof -
  let ?e = "empty_ppi MaxPpi d g \<lparr>calls = [], short = False\<rparr>" and ?notify = "nested m behaviour log_notification log_status"
  have p: "pending ?e [] [] [] 0 0" "uint (MaxPpi - 1) = int (length (PpiListPtrs ?e)) - 1" by (rule empty_ppi_pending[OF assms(1)])+
  then have "represents ?e [] [] []" by (simp add: pending_def)
  then have o: "once MaxPpi ?e [] [] [] 0 0" using p due_represents[of ?e "[]" "[]" "[]"] by (simp add: once_def)
  have a: "accounted d ?notify" by (rule nested_accounted[OF assms(2)])
  then have "accounted (descriptors ?e) ?notify" by simp
  from run_calls_once[OF o this assms(3)] obtain s ps cs ds k j where
    r: "run_calls ?notify MaxPpi script ?e = Some s" "once MaxPpi s ps cs ds k j" "descriptors s = d" by auto
  have "accounted (descriptors s) ?notify" using a r(3) by simp
  from process_once[OF r(2) this] obtain s' ps' cs' where s': "ProcessNotifyList ?notify MaxPpi s = Some s'"
    "once MaxPpi s' ps' cs' ds (length ds) (length ps')" by blast
  have rep: "represents s' ps' cs' ds" using s'(2) by (simp add: once_def pending_def)
  have "run_calls ?notify MaxPpi (script @ [DispatchPending]) ?e = Some s'" using r(1) s'(1) by (simp add: run_calls_append)
  then show ?thesis using s'(2) rep due_represents[OF rep] by (intro exI conjI) (auto simp: once_def matches_append)
qed

theorem notifications_exactly_once_witness:
  "\<exists>s ps cs ds. run_calls (nested 2 sample_behaviour log_notification log_status) 8
      ([Service (Notify 0x300), Service (Notify 0x100), DispatchPending, Service (Install 0x200)] @ [DispatchPending])
      (empty_ppi 8 sample_memory sample_guids \<lparr>calls = [], short = False\<rparr>) = Some s \<and> represents s ps cs ds \<and>
    mset (calls (world s)) = mset (matches s (cs @ ds) ps)"
proof -
  have "map_option (\<lambda>s. short (world s)) (run_calls (nested 2 sample_behaviour log_notification log_status) 8
      ([Service (Notify 0x300), Service (Notify 0x100), DispatchPending, Service (Install 0x200)] @ [DispatchPending])
      (empty_ppi 8 sample_memory sample_guids \<lparr>calls = [], short = False\<rparr>)) = Some False" by code_simp
  moreover have "(0 :: u32) < 8"
    "list_all (\<lambda>c. \<not> replaces c) [Service (Notify 0x300), Service (Notify 0x100), DispatchPending, Service (Install 0x200)]" by simp_all
  moreover note notifications_exactly_once[OF this(1) sample_behaviour_appends this(2), of 2 sample_memory sample_guids]
  ultimately show ?thesis by fastforce
qed

text \<open>C6: The services and ProcessNotifyList are safe with any notifications that return and keep the
  database in order, among them those whose programs call the services, to any depth: every call
  returns, no index leaves the array, the PPIs and the notifications never overlap, the two lists only
  grow, and ProcessNotifyList ends with nothing left to dispatch.\<close>

theorem ppi_services_safe:
  assumes "well_behaved notify" "ppi_ok s"
  shows "(\<exists>st s'. PeiInstallPpi notify L s = Some (st, s') \<and> grows s s') \<and>
    (\<exists>st s'. PeiReInstallPpi notify O' N s = Some (st, s') \<and> grows s s') \<and>
    (\<exists>st s'. PeiNotifyPpi notify L s = Some (st, s') \<and> grows s s') \<and>
    (uint (MaxPpi - 1) = int (length (PpiListPtrs s)) - 1 \<longrightarrow> (\<exists>s'. ProcessNotifyList notify MaxPpi s = Some s' \<and>
      ppi_ok s' \<and> moves s s' \<and> LastDispatchedNotify s' = DispatchListEnd s' \<and> LastDispatchedInstall s' = PpiListEnd s')) \<and>
    well_behaved (nested n behaviour effect after)"
  by (intro conjI impI PeiInstallPpi_safe[OF assms] PeiReInstallPpi_safe[OF assms] PeiNotifyPpi_safe[OF assms]
    ProcessNotifyList_safe[OF assms] nested_safe)

theorem ppi_services_safe_witness:
  "\<exists>s'. ProcessNotifyList (registers 0x100 0x300) 8 (empty_ppi 8 sample_memory sample_guids []) = Some s' \<and> ppi_ok s'"
proof -
  have w: "well_behaved (registers 0x100 0x300)" unfolding registers_def by (rule nested_safe)
  have p: "(0 :: u32) < 8" by simp
  show ?thesis
    using ppi_services_safe[OF w empty_ppi_ok[OF p, of sample_memory sample_guids "[]"], THEN conjunct2, THEN conjunct2,
      THEN conjunct2, THEN conjunct1, THEN mp, OF empty_ppi_pending(2)[OF p]] by blast
qed

text \<open>C28: ConvertPpiPointers returns exactly when PcdPeiCoreMaxPpiSupported is below 256, for its index is a
  UINT8.  Then it replaces every entry of the array that holds a PPI or a notification by its address
  in permanent memory, moved by the heap, the stack and the holes that contain it, and changes no
  other entry.\<close>

theorem ConvertPpiPointers_migrates:
  assumes "length (PpiListPtrs s) = unat MaxPpi"
  shows "((\<exists>s'. ConvertPpiPointers MaxPpi Heap Stack Holes s = Some s') \<longleftrightarrow> unat MaxPpi < 256) \<and>
    (\<forall>s'. ConvertPpiPointers MaxPpi Heap Stack Holes s = Some s' \<longrightarrow> PpiListPtrs s' =
      map (\<lambda>i. if in_database s i then migrated Heap Stack Holes (PpiListPtrs s ! i) else PpiListPtrs s ! i) [0..<unat MaxPpi])"
proof -
  have run: "unat MaxPpi < 256 \<Longrightarrow> \<exists>s'. ConvertPpiPointers MaxPpi Heap Stack Holes s = Some s' \<and> PpiListPtrs s' =
      map (\<lambda>i. if in_database s i then migrated Heap Stack Holes (PpiListPtrs s ! i) else PpiListPtrs s ! i) [0..<unat MaxPpi]"
    using convert_loop_moves[OF _ assms, of 0] by (simp add: ConvertPpiPointers_def)
  have stops: "ConvertPpiPointers MaxPpi Heap Stack Holes s = Some t \<Longrightarrow> unat MaxPpi < 256" for t
    unfolding ConvertPpiPointers_def by (rule convert_loop_hangs)
  show ?thesis
  proof (cases "unat MaxPpi < 256")
    case True
    with run show ?thesis by auto
  next
    case False
    with stops have "ConvertPpiPointers MaxPpi Heap Stack Holes s = None"
      by (cases "ConvertPpiPointers MaxPpi Heap Stack Holes s") blast+
    with False show ?thesis by simp
  qed
qed

theorem ConvertPpiPointers_migrates_witness:
  "\<exists>s'. ConvertPpiPointers 8 \<lparr>Base = 0x100, Size = 0x80, Offset = 0x1000, OffsetPositive = True\<rparr>
     \<lparr>Base = 0x200, Size = 0x80, Offset = 0x1000, OffsetPositive = True\<rparr> [] (sample_ppi ()) = Some s'"
proof -
  have "length (PpiListPtrs (sample_ppi ())) = unat (8 :: u32)" by (simp add: sample_ppi_def)
  from ConvertPpiPointers_migrates[OF this] show ?thesis by simp
qed

text \<open>C39: A callback that registers a notification of dispatch level whenever it is called shifts the callbacks
  below it while PeiInstallPpi walks them by index: when a PPI is installed that it and the callbacks
  registered after it all wait for, with room for the registrations, it is called once for each of
  them with the same PPI, and they never are, although each of them was to be called once.\<close>

theorem nested_registration_repeats:
  assumes "represents s ps (c # cs) ds" "L \<noteq> 0" "read_list (room_left s) (descriptors s) EFI_PEI_PPI_DESCRIPTOR_PPI L = (EFI_SUCCESS, [p])"
    "\<forall>n \<in> set (c # cs). same_guid (guids s (Guid (descriptors s p))) (guids s (Guid (descriptors s n)))"
    "M \<noteq> 0" "is_dispatch (descriptors s) M" "Flags (descriptors s M) AND EFI_PEI_PPI_DESCRIPTOR_NOTIFY_TYPES \<noteq> 0"
    "Flags (descriptors s M) AND EFI_PEI_PPI_DESCRIPTOR_TERMINATE_LIST = EFI_PEI_PPI_DESCRIPTOR_TERMINATE_LIST"
    "length (c # cs) < room_left s"
  shows "matches s (c # cs) [p] = map (\<lambda>n. (n, Ppi (descriptors s p))) (c # cs) \<and>
    (\<exists>s'. PeiInstallPpi (registers c M) L s = Some (EFI_SUCCESS, s') \<and>
      world s' = world s @ replicate (length (c # cs)) (c, Ppi (descriptors s p)))"
proof
  show "matches s (c # cs) [p] = map (\<lambda>n. (n, Ppi (descriptors s p))) (c # cs)"
    using assms(4) unfolding matches_def by (induction cs) (auto split: if_splits)
  have e: "PpiListEnd s = int (length ps)" by (rule representsD(1)[OF assms(1)])
  obtain s1 where s1: "install_loop (PpiListEnd s) L (PpiListEnd s) s = Some (EFI_SUCCESS, s1)" "same_outside s s1"
    "represents s1 (ps @ [p]) (c # cs) ds"
    using install_loop_reads[OF assms(1,3), of "PpiListEnd s"] e by auto
  have o: "descriptors s1 = descriptors s" "guids s1 = guids s" "world s1 = world s" using s1(2) by (simp_all add: same_outside_def)
  have e1: "PpiListEnd s1 = int (length ps) + 1" using representsD(1)[OF s1(3)] by simp
  have l: "DispatchListEnd s1 = NotifyListEnd s1 + int (length (c # cs))" using s1(3) by (auto elim!: representsE)
  have "room_left s = Suc (room_left s1)" using s1(2) assms(1,9) s1(3) by (auto simp: same_outside_def elim!: representsE)
  then have room: "length (c # cs) \<le> room_left s1" using assms(9) by simp
  from walk_repeats[OF s1(3) assms(5) _ _ _ room] obtain s2 where
    "dispatch_notifies (registers c M) [int (length ps)] (rev [NotifyListEnd s1 + 1..DispatchListEnd s1]) s1 = Some s2"
    "world s2 = world s1 @ replicate (length (c # cs)) (c, Ppi (descriptors s1 p))"
    using assms(4,6-8) l o(1,2) by auto
  then show "\<exists>s'. PeiInstallPpi (registers c M) L s = Some (EFI_SUCCESS, s') \<and>
      world s' = world s @ replicate (length (c # cs)) (c, Ppi (descriptors s p))"
    using s1(1) assms(2) e e1 o by (simp add: PeiInstallPpi_def DispatchNotify_def Let_def)
qed

theorem nested_registration_repeats_witness:
  "\<exists>s'. PeiInstallPpi (registers 0x100 0x300) 0x200 (sample_ppi []) = Some (EFI_SUCCESS, s') \<and> world s' = [(0x100, 3), (0x100, 3)]"
proof -
  have "read_list (room_left (sample_ppi [] :: recorded ppi_database)) sample_memory EFI_PEI_PPI_DESCRIPTOR_PPI 0x200 = (EFI_SUCCESS, [0x200])"
    "\<forall>n \<in> set [0x100, 0x118]. same_guid (guids (sample_ppi [] :: recorded ppi_database) (Guid (sample_memory 0x200)))
       (guids (sample_ppi [] :: recorded ppi_database) (Guid (sample_memory n)))"
    "is_dispatch sample_memory 0x300" "Flags (sample_memory 0x300) AND EFI_PEI_PPI_DESCRIPTOR_NOTIFY_TYPES \<noteq> 0"
    "Flags (sample_memory 0x300) AND EFI_PEI_PPI_DESCRIPTOR_TERMINATE_LIST = EFI_PEI_PPI_DESCRIPTOR_TERMINATE_LIST"
    "length [0x100 :: u64, 0x118] < room_left (sample_ppi [] :: recorded ppi_database)" "Ppi (sample_memory 0x200) = 3"
    by code_simp+
  then show ?thesis
    using nested_registration_repeats[OF sample_ppi_represents, of "0x200" "[]" "0x200" "0x300"] by simp
qed

end
