(* ===== verification/Dispatch_Spec.thy ===== *)
theory Dispatch_Spec
  imports Pei_Depex Ppi_Spec Protocol_Spec
begin

text \<open>
  The evaluators of dependency expressions on the databases they ask: PeimDispatchReadiness on the PPI
  database and SmmIsSchedulable on the SMM protocol database.  What an evaluator relies on is the
  locale dependency_database, which the PPI database provides, and for lookups that change the database
  the locale dependency_search, which the SMM protocol database provides.
\<close>

section \<open>What an evaluator relies on\<close>

text \<open>A database answers whether a GUID of 16 bytes is installed.\<close>

locale dependency_database =
  fixes ok :: "'s \<Rightarrow> bool"
    and located :: "'s \<Rightarrow> guid \<Rightarrow> bool"
    and present :: "'s \<Rightarrow> guid \<Rightarrow> bool"
  assumes located_present: "ok s \<Longrightarrow> length g = 16 \<Longrightarrow> located s g = present s g"
begin

lemma meaning_present: "ok s \<Longrightarrow> wf_expr x \<Longrightarrow> meaning (\<lambda>g. located s g \<or> f g) x = meaning (\<lambda>g. present s g \<or> f g) x"
  by (induction x) (simp_all add: located_present)

lemma pei_ready:
  assumes "ok s" "wf_expr x" "unpatched x" "length stack0 = 64"
  shows "PeimDispatchReadiness (located s) stack0 (encode x @ EFI_DEP_END # post) =
    Some (depth x \<le> 64 \<and> meaning (present s) x)"
  using PeimDispatchReadiness_expr[OF assms(2-4)] meaning_present[OF assms(1,2), of "\<lambda>g. False"] by simp

end

section \<open>The PPI database\<close>

text \<open>The GUID that IsPpiInstalled copies into its local variable, as four UINT32 values.\<close>

definition le32 :: "u8 list \<Rightarrow> u32" where
  "le32 bs = foldr (\<lambda>b w. push_bit 8 w OR ucast b) bs 0"

definition guid_words :: "guid \<Rightarrow> guid_value" where
  "guid_words g = (le32 (take 4 g), le32 (take 4 (drop 4 g)), le32 (take 4 (drop 8 g)), le32 (take 4 (drop 12 g)))"

text \<open>PpiGuid is the address of the local variable, Instance is 0.\<close>

definition ppi_located :: "u64 \<Rightarrow> 'w ppi_database \<Rightarrow> guid \<Rightarrow> bool" where
  "ppi_located PpiGuid s g =
     (case PeiLocatePpi PpiGuid 0 (s\<lparr>guids := (guids s)(PpiGuid := guid_words g)\<rparr>) of
        Some (Status, r) \<Rightarrow> \<not> EFI_ERROR Status | None \<Rightarrow> False)"

definition ppi_present :: "'w ppi_database \<Rightarrow> guid \<Rightarrow> bool" where
  "ppi_present s g \<longleftrightarrow> (\<exists>p \<in> set (ppis s). guids s (Guid (descriptors s p)) = guid_words g)"

text \<open>The local variable is not the GUID of a PPI.\<close>

definition ppis_apart :: "u64 \<Rightarrow> 'w ppi_database \<Rightarrow> bool" where
  "ppis_apart a s \<longleftrightarrow> (\<exists>ps cs ds. represents s ps cs ds) \<and> (\<forall>p \<in> set (ppis s). Guid (descriptors s p) \<noteq> a)"

lemma same_guid_eq: "same_guid g h \<longleftrightarrow> g = h"
  by (auto simp: same_guid_def split: prod.splits)

lemma ppi_located_present:
  assumes "ppis_apart a s"
  shows "ppi_located a s g = ppi_present s g"
proof -
  obtain ps cs ds where r: "represents s ps cs ds" using assms by (auto simp: ppis_apart_def)
  let ?s = "s\<lparr>guids := (guids s)(a := guid_words g)\<rparr>"
  have "represents ?s ps cs ds" using r by (simp add: represents_def)
  then have "map (entry_at ?s) [0..PpiListEnd ?s - 1] = map Some ps" using ppi_entries(1)[of ?s ps cs ds 0] by simp
  note L = locate_loop_nth[OF this, of a 0]
  have "p \<in> set ps \<Longrightarrow> Guid (descriptors s p) \<noteq> a" for p using assms ppis_represents[OF r] by (simp add: ppis_apart_def)
  then have "filter (\<lambda>p. same_guid (guids ?s a) (guids ?s (Guid (descriptors ?s p)))) ps =
      filter (\<lambda>p. guids s (Guid (descriptors s p)) = guid_words g) ps"
    by (intro filter_cong) (auto simp: same_guid_eq)
  then show ?thesis
    using L ppis_represents[OF r] by (auto simp: ppi_located_def PeiLocatePpi_def ppi_present_def Let_def  filter_empty_conv)
qed

interpretation ppi: dependency_database "ppis_apart a" "ppi_located a" ppi_present for a
  by unfold_locales (rule ppi_located_present)

section \<open>The SMM protocol database\<close>

text \<open>A search changes the database: it counts the searches and marks handles.  So the evaluation of
  SmmIsSchedulable hands the database from one lookup to the next.\<close>

text \<open>The GUID that the pass over the loop looks up: only a PUSH does.\<close>

definition asked :: "nat \<Rightarrow> eval_state \<Rightarrow> guid option" where
  "asked dsize e =
     (if eiter e \<ge> dsize then None
      else do {
        op \<leftarrow> read_byte (ebytes e) (eiter e);
        if op = EFI_DEP_PUSH then read_guid (ebytes e) (eiter e + 1) else None
      })"

function SmmDepexRun ::
  "allocator \<Rightarrow> (guid \<Rightarrow> 's \<Rightarrow> (bool \<times> 's) option) \<Rightarrow> (guid \<Rightarrow> bool) \<Rightarrow> nat \<Rightarrow> eval_state \<Rightarrow> 's \<Rightarrow>
     (bool \<times> eval_state \<times> 's) option" where
  "SmmDepexRun AllocatePool locate LocateProtocol dsize e s =
     (case (case asked dsize e of None \<Rightarrow> Some (False, s) | Some g \<Rightarrow> locate g s) of
        None \<Rightarrow> None
      | Some (hit, s) \<Rightarrow>
          (case SmmDepexStep AllocatePool (\<lambda>g. hit) LocateProtocol dsize e of
             None \<Rightarrow> None
           | Some (Return b e') \<Rightarrow> Some (b, e', s)
           | Some (Continue e') \<Rightarrow> SmmDepexRun AllocatePool locate LocateProtocol dsize e' s))"
  by pat_completeness auto
termination
  by (relation "measure (\<lambda>(_, _, _, dsize, e, _). dsize - eiter e)") (auto dest!: SmmDepexStep_advances)

declare SmmDepexRun.simps [simp del]

definition SmmIsSchedulable_on ::
  "allocator \<Rightarrow> (guid \<Rightarrow> 's \<Rightarrow> (bool \<times> 's) option) \<Rightarrow> (guid \<Rightarrow> bool) \<Rightarrow> driver_entry \<Rightarrow> depex_stack \<Rightarrow> 's \<Rightarrow>
     (bool \<times> driver_entry \<times> depex_stack \<times> 's) option" where
  "SmmIsSchedulable_on AllocatePool locate LocateProtocol d t s =
     (if After d \<or> Before d then Some (False, d, t, s)
      else case Depex d of
        None \<Rightarrow> None
      | Some bs \<Rightarrow> do {
          (b, e, s) \<leftarrow> SmmDepexRun AllocatePool locate LocateProtocol (DepexSize d)
                     \<lparr>ebytes = bs, eiter = 0, estack = t\<lparr>sptr := 0\<rparr>\<rparr> s;
          Some (b, d\<lparr>Depex := Some (ebytes e)\<rparr>, estack e, s)
        })"

text \<open>The lookup of a PUSH.\<close>

definition smm_locate :: "guid \<Rightarrow> 'f pdb \<Rightarrow> (bool \<times> 'f pdb) option" where
  "smm_locate g s = do { (Status, r, s) \<leftarrow> SmmLocateProtocol (Some g) None True s; Some (\<not> EFI_ERROR Status, s) }"

subsection \<open>Lookups that change what is not asked for\<close>

lemma asked_length: "asked dsize e = Some g \<Longrightarrow> length g = 16"
  by (auto simp: asked_def read_guid_def bind_eq_Some_conv split: if_splits)

lemma step_asked:
  assumes "\<And>g. asked dsize e = Some g \<Longrightarrow> f g = h g"
  shows "SmmDepexStep a f uefi dsize e = SmmDepexStep a h uefi dsize e"
proof (cases "eiter e < dsize \<and> read_byte (ebytes e) (eiter e) = Some EFI_DEP_PUSH")
  case True
  then have "asked dsize e = read_guid (ebytes e) (eiter e + 1)" by (simp add: asked_def)
  then have "push_guid a (\<lambda>g. if \<not> f g then uefi g else True) e = push_guid a (\<lambda>g. if \<not> h g then uefi g else True) e"
    using assms by (cases "read_guid (ebytes e) (eiter e + 1)") (auto simp: push_guid_def)
  then show ?thesis using True by (simp add: SmmDepexStep_def)
next
  case False
  then show ?thesis by (cases "read_byte (ebytes e) (eiter e)") (auto simp: SmmDepexStep_def)
qed

text \<open>A database that can be searched n more times; a search answers whether the GUID is present and
  changes no answer.\<close>

locale dependency_search =
  fixes ok :: "nat \<Rightarrow> 's \<Rightarrow> bool"
    and locate :: "guid \<Rightarrow> 's \<Rightarrow> (bool \<times> 's) option"
    and present :: "'s \<Rightarrow> guid \<Rightarrow> bool"
  assumes locate_present: "ok (Suc n) s \<Longrightarrow> length g = 16 \<Longrightarrow> \<exists>s'. locate g s = Some (present s g, s') \<and> ok n s' \<and> present s' = present s"
    and ok_less: "ok (Suc n) s \<Longrightarrow> ok n s"
begin

lemma ok_mono: "m \<le> n \<Longrightarrow> ok n s \<Longrightarrow> ok m s"
  by (induction n) (auto simp: le_Suc_eq intro: ok_less)

lemma run_present:
  assumes "ok (dsize - eiter e) s"
  shows "case SmmDepexLoop a (present s) uefi dsize e of
      None \<Rightarrow> SmmDepexRun a locate uefi dsize e s = None
    | Some (b, e') \<Rightarrow> \<exists>s'. SmmDepexRun a locate uefi dsize e s = Some (b, e', s') \<and> ok 0 s' \<and> present s' = present s"
  using assms
proof (induction "dsize - eiter e" arbitrary: e s rule: less_induct)
  case less
  have "\<exists>hit s1. (case asked dsize e of None \<Rightarrow> Some (False, s) | Some g \<Rightarrow> locate g s) = Some (hit, s1) \<and>
      ok (dsize - eiter e - 1) s1 \<and> present s1 = present s \<and> (\<forall>g. asked dsize e = Some g \<longrightarrow> hit = present s g)"
  proof (cases "asked dsize e")
    case None
    then show ?thesis using ok_mono[OF _ less.prems] by auto
  next
    case (Some g)
    then have "dsize - eiter e = Suc (dsize - eiter e - 1)" by (auto simp: asked_def split: if_splits)
    then have "ok (Suc (dsize - eiter e - 1)) s" using less.prems by simp
    from locate_present[OF this asked_length[OF Some]] Some show ?thesis by auto
  qed
  then obtain hit s1 where s1: "(case asked dsize e of None \<Rightarrow> Some (False, s) | Some g \<Rightarrow> locate g s) = Some (hit, s1)"
    "ok (dsize - eiter e - 1) s1" "present s1 = present s" "\<forall>g. asked dsize e = Some g \<longrightarrow> hit = present s g" by blast
  have step: "SmmDepexStep a (\<lambda>g. hit) uefi dsize e = SmmDepexStep a (present s) uefi dsize e"
    by (rule step_asked) (use s1(4) in simp)
  have loop: "SmmDepexLoop a (present s) uefi dsize e = (case SmmDepexStep a (present s) uefi dsize e of
      None \<Rightarrow> None | Some (Return b e') \<Rightarrow> Some (b, e') | Some (Continue e') \<Rightarrow> SmmDepexLoop a (present s) uefi dsize e')"
    by (subst SmmDepexLoop.simps) simp
  have run: "SmmDepexRun a locate uefi dsize e s = (case SmmDepexStep a (present s) uefi dsize e of
      None \<Rightarrow> None | Some (Return b e') \<Rightarrow> Some (b, e', s1) | Some (Continue e') \<Rightarrow> SmmDepexRun a locate uefi dsize e' s1)"
    by (subst SmmDepexRun.simps) (simp add: s1(1) step)
  show ?case
  proof (cases "SmmDepexStep a (present s) uefi dsize e")
    case None
    then show ?thesis using loop run by simp
  next
    case (Some out)
    show ?thesis
    proof (cases out)
      case (Return b e')
      then show ?thesis using loop run Some s1(2,3) ok_mono[of 0] by auto
    next
      case (Continue e')
      then have adv: "eiter e < dsize" "eiter e < eiter e'" using SmmDepexStep_advances Some by blast+
      then have "dsize - eiter e' < dsize - eiter e" "ok (dsize - eiter e') s1" using ok_mono[OF _ s1(2)] by auto
      from less.hyps[OF this] show ?thesis using loop run Some Continue s1(3) by (auto split: option.splits)
    qed
  qed
qed

lemma smm_ready:
  assumes "ok (DepexSize d) s" "wf_expr x" "depex_fits False x (DepexSize d)" "Depex d = Some (depex_bytes False x post)"
    "\<not> After d" "\<not> Before d"
  shows "\<exists>b d' t' s'. SmmIsSchedulable_on AllocatePool locate uefi d t s = Some (b, d', t', s') \<and> present s' = present s \<and>
    (b \<longrightarrow> meaning (\<lambda>g. present s g \<or> uefi g) x) \<and>
    ((\<forall>n. AllocatePool n \<noteq> None) \<longrightarrow> b = meaning (\<lambda>g. present s g \<or> uefi g) x)"
proof -
  let ?e = "\<lparr>ebytes = depex_bytes False x post, eiter = 0, estack = t\<lparr>sptr := 0\<rparr>\<rparr>"
  obtain b d' t' where p: "SmmIsSchedulable AllocatePool (present s) uefi d t = Some (b, d', t')"
    "b \<longrightarrow> meaning (\<lambda>g. present s g \<or> uefi g) x"
    "(\<forall>n. AllocatePool n \<noteq> None) \<longrightarrow> b = meaning (\<lambda>g. present s g \<or> uefi g) x"
    using SmmIsSchedulable_expr[OF assms(2-6), of AllocatePool "present s" uefi t] by blast
  then obtain e' where l: "SmmDepexLoop AllocatePool (present s) uefi (DepexSize d) ?e = Some (b, e')"
    using assms(4-6) by (auto simp: SmmIsSchedulable_def bind_eq_Some_conv)
  have "ok (DepexSize d - eiter ?e) s" using assms(1) by simp
  from run_present[OF this, of AllocatePool uefi] l obtain s' where
    "SmmDepexRun AllocatePool locate uefi (DepexSize d) ?e s = Some (b, e', s')" "present s' = present s" by auto
  then show ?thesis using p(2,3) assms(4-6) by (simp add: SmmIsSchedulable_on_def)
qed

end

lemma locate_protocol_counts:
  assumes "SmmLocateProtocol (Some g) None True s = Some (st, r, s')"
  shows "mEfiLocateHandleRequest s' = mEfiLocateHandleRequest s + 1"
proof -
  have next_counts: "next_by_protocol is x t = Some (h, y, rest, t') \<Longrightarrow> mEfiLocateHandleRequest t' = mEfiLocateHandleRequest t"
    for "is" x and t :: "'a pdb" and h y rest t'
    by (induction "is" arbitrary: x) (auto simp: bind_eq_Some_conv split: if_splits)
  show ?thesis using assms
    by (auto simp: SmmLocateProtocol_def SmmGetNextLocateByProtocol_def bind_eq_Some_conv Let_def split: option.splits dest!: next_counts)
qed

definition searchable :: "nat \<Rightarrow> 'f pdb \<Rightarrow> bool" where
  "searchable n s \<longleftrightarrow> pdb_inv s \<and> unat (mEfiLocateHandleRequest s) + n < 2 ^ 64"

interpretation pdb: dependency_search searchable smm_locate "\<lambda>s g. provides s g \<noteq> []"
proof (unfold_locales, goal_cases)
  case (1 n s g)
  then have c: "mEfiLocateHandleRequest s \<noteq> - 1" using max_request by (auto simp: searchable_def)
  obtain s' where s': "SmmLocateProtocol (Some g) None True s =
      Some (case provides s g of [] \<Rightarrow> (EFI_NOT_FOUND, Some 0, s') | q # _ \<Rightarrow> (EFI_SUCCESS, Some (snd q), s'))"
    "pdb_inv s'" "same_view s s'" using locate_protocol_eq[OF _ c, of g] 1 by (auto simp: searchable_def)
  then have "mEfiLocateHandleRequest s' = mEfiLocateHandleRequest s + 1"
    using locate_protocol_counts[of g s _ _ s'] by (cases "provides s g") auto
  then have "searchable n s'" using 1(1) s'(2) next_request(1)[OF c] by (simp add: searchable_def)
  then show ?case using s'(1,3) by (cases "provides s g") (auto simp: smm_locate_def same_view_def)
qed (simp add: searchable_def)

section \<open>Properties\<close>

text \<open>C22: What a PEIM waits for is what PeiInstallPpi has installed: after PeiInstallPpi has succeeded, with
  notifications that return and only append PPIs and callbacks, the evaluator that asks PeiLocatePpi
  returns TRUE exactly for a dependency expression whose depth is at most the 64 entries of its stack and
  that holds of the GUIDs of the PPIs then installed: those there were, the new ones, and those
  the callbacks have installed.  A deeper expression is FALSE.\<close>

theorem peim_ready_after_install:
  assumes "represents s ps cs ds" "L \<noteq> 0" "read_list (room_left s) (descriptors s) EFI_PEI_PPI_DESCRIPTOR_PPI L = (EFI_SUCCESS, ns)"
    "orderly (descriptors s) notify" "\<forall>p. Guid (descriptors s p) \<noteq> a" "wf_expr x" "unpatched x" "length stack0 = 64"
  shows "\<exists>s' more. PeiInstallPpi notify L s = Some (EFI_SUCCESS, s') \<and> ppis s' = ps @ ns @ more \<and>
    PeimDispatchReadiness (ppi_located a s') stack0 (encode x @ EFI_DEP_END # post) =
      Some (depth x \<le> 64 \<and> meaning (\<lambda>g. \<exists>p \<in> set (ps @ ns @ more). guids s (Guid (descriptors s p)) = guid_words g) x)"
proof -
  from install_calls[OF assms(1-4)] obtain s1 where s1: "represents s1 (ps @ ns) cs ds" "same_outside s s1"
    "PeiInstallPpi notify L s = map_option (Pair EFI_SUCCESS) (call_all notify (matches s cs ns) s1)" by auto
  have o: "orderly (descriptors s1) notify" using assms(4) s1(2) by (simp add: same_outside_def)
  obtain s' where s': "call_all notify (matches s cs ns) s1 = Some s'" "extends s1 s'" using orderly_call_all[OF o s1(1)] by blast
  obtain more cs' where r: "represents s' ((ps @ ns) @ more) (cs @ cs') ds" by (rule extendsE[OF s'(2) s1(1)])
  have p: "ppis s' = ps @ ns @ more" using ppis_represents[OF r] by simp
  have m: "descriptors s' = descriptors s" "guids s' = guids s"
    using s1(2) extendsD(1,2)[OF s'(2)] by (simp_all add: same_outside_def)
  have "ppis_apart a s'" unfolding ppis_apart_def m using r assms(5) by blast
  from ppi.pei_ready[OF this assms(6-8), of post]
  have "PeimDispatchReadiness (ppi_located a s') stack0 (encode x @ EFI_DEP_END # post) =
      Some (depth x \<le> 64 \<and> meaning (\<lambda>g. \<exists>p \<in> set (ps @ ns @ more). guids s (Guid (descriptors s p)) = guid_words g) x)"
    unfolding ppi_present_def[abs_def] p m .
  then show ?thesis using s1(3) s'(1) p by auto
qed

text \<open>The callback at 0x118 has installed the PPI with the GUID at 0x30, for which the driver waits.\<close>

theorem peim_ready_after_install_witness:
  "\<exists>s' more. PeiInstallPpi sample_notify 0x200 (sample_ppi []) = Some (EFI_SUCCESS, s') \<and> ppis s' = [0x200, 0x200, 0x218] \<and>
    PeimDispatchReadiness (ppi_located 0x7000 s') (replicate 64 \<lparr>Result = True, Operator = Some 7\<rparr>)
      (encode (Push False (0x30 # replicate 15 0)) @ [EFI_DEP_END]) = Some True"
proof -
  have 1: "read_list (room_left (sample_ppi [] :: recorded ppi_database)) (descriptors (sample_ppi [] :: recorded ppi_database))
      EFI_PEI_PPI_DESCRIPTOR_PPI 0x200 = (EFI_SUCCESS, [0x200])"
    "Guid (sample_memory 0x218) = 0x30" "guids (sample_ppi [] :: recorded ppi_database) 0x30 = guid_words (0x30 # replicate 15 0)"
    "map_option (\<lambda>(st, s). ppis s) (PeiInstallPpi sample_notify 0x200 (sample_ppi [])) = Some [0x200, 0x200, 0x218]"
    by code_simp+
  have 2: "\<forall>p. Guid (descriptors (sample_ppi [] :: recorded ppi_database) p) \<noteq> 0x7000" by (simp add: sample_memory_def)
  show ?thesis
    using peim_ready_after_install[OF sample_ppi_represents _ 1(1) sample_notify_orderly 2, of "Push False (0x30 # replicate 15 0)"
        "replicate 64 \<lparr>Result = True, Operator = Some 7\<rparr>" "[]"] 1(2-4) by auto
qed

text \<open>C23: What an SMM driver waits for is what SmmInstallProtocolInterface has installed: after an installation
  of the protocol g has succeeded, SmmIsSchedulable, which asks SmmLocateProtocol for one GUID after the
  other and then the UEFI protocol database, returns the value of the dependency expression with the
  protocols that the database then provides and the UEFI protocols as installed, if no allocation of
  the evaluator fails, and if one fails never TRUE for an expression that does not hold; the searches
  change no answer as long as their counter does not wrap.  The notification functions of the
  installation may use the services (they keep the database well formed); when they leave the
  database alone, it provides what it did before and g.\<close>

theorem smm_ready_after_install:
  assumes "pdb_inv s" "keeps pdb_inv invoke"
    "SmmInstallProtocolInterface oom invoke (Some u) (Some g) True i env s = Some (EFI_SUCCESS, u', env', s')"
    "unat (mEfiLocateHandleRequest s') + DepexSize d < 2 ^ 64"
    "wf_expr x" "depex_fits False x (DepexSize d)" "Depex d = Some (depex_bytes False x post)" "\<not> After d" "\<not> Before d"
  shows "(\<exists>b d' t' s''. SmmIsSchedulable_on AllocatePool smm_locate uefi d t s' = Some (b, d', t', s'') \<and>
      (\<forall>g'. provides s'' g' \<noteq> [] \<longleftrightarrow> provides s' g' \<noteq> []) \<and>
      (b \<longrightarrow> meaning (\<lambda>g'. provides s' g' \<noteq> [] \<or> uefi g') x) \<and>
      ((\<forall>n. AllocatePool n \<noteq> None) \<longrightarrow> b = meaning (\<lambda>g'. provides s' g' \<noteq> [] \<or> uefi g') x)) \<and>
    (quiet invoke \<longrightarrow> (\<forall>g'. provides s' g' \<noteq> [] \<longleftrightarrow> g' = g \<or> provides s g' \<noteq> []))"
proof -
  note run = install_installs[OF assms(1), of oom invoke True u g i env, folded SmmInstallProtocolInterface_def, unfolded assms(3)]
  have "searchable (DepexSize d) s'" using installs_keeps[OF run assms(2)] assms(4) by (simp add: searchable_def)
  from pdb.smm_ready[OF this assms(5-9), of AllocatePool uefi t]
  have "\<exists>b d' t' s''. SmmIsSchedulable_on AllocatePool smm_locate uefi d t s' = Some (b, d', t', s'') \<and>
      (\<forall>g'. provides s'' g' \<noteq> [] \<longleftrightarrow> provides s' g' \<noteq> []) \<and>
      (b \<longrightarrow> meaning (\<lambda>g'. provides s' g' \<noteq> [] \<or> uefi g') x) \<and>
      ((\<forall>n. AllocatePool n \<noteq> None) \<longrightarrow> b = meaning (\<lambda>g'. provides s' g' \<noteq> [] \<or> uefi g') x)"
    by (auto simp: fun_eq_iff)
  moreover have "\<forall>g'. provides s' g' \<noteq> [] \<longleftrightarrow> g' = g \<or> provides s g' \<noteq> []" if q: "quiet invoke"
    using installs_quietly[OF run q] by (auto simp: installed_def split: if_splits)
  ultimately show ?thesis by blast
qed

theorem smm_ready_after_install_witness:
  "\<exists>u' env' s' d' t' s''. SmmInstallProtocolInterface (\<lambda>_. False) log_call (Some None) (Some guid_A) True 9 [] demo =
      Some (EFI_SUCCESS, u', env', s') \<and>
    SmmIsSchedulable_on (\<lambda>n. Some (\<lambda>i. True)) smm_locate (\<lambda>g. False) (sample_driver False) \<lparr>smem = [], sptr = 0\<rparr> s' =
      Some (True, d', t', s'')"
proof -
  have g: "[1] \<noteq> guid_A" by (simp add: guid_A_def numeral_eq_Suc)
  obtain u' env' s' where s': "SmmInstallProtocolInterface (\<lambda>_. False) log_call (Some None) (Some guid_A) True 9 [] demo =
      Some (EFI_SUCCESS, u', env', s')" "mEfiLocateHandleRequest s' = 0"
    using g by (simp add: demo_val(2) SmmInstallProtocolInterface_def SmmInstallProtocolInterfaceNotify_def SmmFindProtocolEntry_def
        Allocate_def SmmValidateHandle_def SmmFindProtocolInterface_def lookup_entry_def SmmNotifyProtocol_def
        Protocol_Db.notify_loop.simps[of _ _ _ None])
  have n: "unat (mEfiLocateHandleRequest s') + DepexSize (sample_driver False) < 2 ^ 64"
    using s'(2) by (simp add: sample_driver_def)
  note r = smm_ready_after_install[OF demo_inv quiet_keeps[OF quiet_log_call] s'(1) n, of sample_expr "[]"
      "\<lambda>n. Some (\<lambda>i. True)" "\<lambda>g. False" "\<lparr>smem = [], sptr = 0\<rparr>"]
  have p: "provides s' g' \<noteq> [] \<longleftrightarrow> g' = guid_A \<or> g' = [1]" for g' using r quiet_log_call by (auto simp: demo_view)
  have "meaning (\<lambda>g'. (g' = guid_A \<or> g' = [1]) \<or> False) sample_expr"
    by (simp add: sample_expr_def guid_A_def guid_B_def numeral_eq_Suc)
  then show ?thesis using s'(1) r unfolding p by fastforce
qed

end
