(* ===== verification/Spec2Isabelle.thy ===== *)
theory Spec2Isabelle
  imports Efi_Prelude Linked_List Bit_Field Math_Lib Check_Sum Depex Pei_Depex Smm_Smi
    Protocol_Spec Event_Spec Rb_Spec Smm_Mem_Spec Smm_Pool_Spec Dispatch_Spec
begin

text \<open>
  A verification development for an EDK II firmware tree: the data structures and services the
  PEI, DXE and SMM cores are built on.

  Parts of the program and how they interact.  The cores (MdeModulePkg/Core/Pei, Dxe and
  PiSmmCore) decide which drivers to dispatch by evaluating dependency expressions against the
  protocols (PPIs) that are installed; drivers install and locate protocols in a handle database,
  register for their arrival, create events and timers, and in SMM register handlers of system
  management interrupts.  The SMM core gives out the pages of SMRAM and, from these pages, blocks of a
  pool.  All of this rests on the intrusive lists, integer functions, bit fields
  and checksums of MdePkg/Library/BaseLib; the ordered collection is the library's associative
  container.

  Theories and the code they model.
    Efi_Prelude     status codes and ASSERT (MdePkg/Include/Base.h, PiMultiPhase.h, DebugLib.h)
    Linked_List     MdePkg/Library/BaseLib/LinkedList.c, a heap of LIST_ENTRY nodes
    Bit_Field       BitField.c, LShiftU64.c, RShiftU64.c; words of 8, 16, 32 and 64 bits
    Math_Lib        Math64.c with the multiplication, division, rotation, swap and scan files
    Check_Sum       CheckSum.c over a byte memory
    Depex           Core/Dxe/Dispatcher/Dependency.c and Core/PiSmmCore/Dependency.c
    Pei_Depex       Core/Pei/Dependency/Dependency.c
    Ppi_Db          Core/Pei/Ppi/Ppi.c, the PPI database; the lists an array holds in Ppi_Rep, whole
                    calls in Ppi_Run and Ppi_Safe, notifications that are programs over the services in
                    Ppi_Nest, the count of the calls of notifications in Ppi_Once, the migration to
                    permanent memory in Ppi_Convert; properties in Ppi_Spec
    Dispatch_Spec   the PEI evaluator on the PPI database and the SMM evaluator on the protocol database
    Smm_Smi         Core/PiSmmCore/Smi.c, the SMI handler registry
    Protocol_Db     Core/PiSmmCore/Handle.c, Notify.c, Locate.c; lemmas in Protocol_Ops,
                    Protocol_Props, Protocol_Search, notifications that are programs over the
                    services in Protocol_Nest; properties in Protocol_Spec
    Event_Tpl       Core/Dxe/Event/Event.c, Tpl.c, Timer.c and the locks of Core/Dxe/Library/
                    Library.c; lemmas in Event_Inv, Event_Svc, Event_Run, Event_Total, Event_Timer,
                    Event_Order, notification functions that are programs over the services in
                    Event_Nest; properties in Event_Spec
    Rb_Tree         BaseOrderedCollectionRedBlackTreeLib.c; the trees a heap holds in Rb_Rep and
                    Rb_Rot, the red-black properties in Rb_Inv, the loops in Rb_Insert and
                    Rb_Delete, unlinking in Rb_Unlink, reading in Rb_Walk and Rb_Valid, the whole
                    operations in Rb_Put and Rb_Remove; properties in Rb_Spec
    Smm_Page        Core/PiSmmCore/Page.c, the page allocator of SMRAM; runs of pages in Smm_Runs,
                    descriptors in Smm_Entry and Smm_Map, the conversion of the map in Smm_Convert,
                    the stack of descriptors in Smm_Stack, free nodes in Smm_Free, Smm_Alloc and
                    Smm_Release, whole calls in Smm_Mem and Smm_Calls, new regions in Smm_Region,
                    Smm_Add and Smm_First; properties in Smm_Mem_Spec
    Smm_Pool        Core/PiSmmCore/Pool.c, the pool allocator; its invariant in Smm_Pool_Inv,
                    allocation in Smm_Pool_Alloc and Smm_Pool_Ops, release in Smm_Pool_Free, failure
                    and reuse in Smm_Pool_Fail, initialization in Smm_Pool_Init, clients of both
                    allocators in Smm_Client; properties in Smm_Pool_Spec

  State and operations.  Each definition has the name of the C function; helper definitions are
  the loop bodies and the labelled blocks.  Structures are records, objects live in maps from their
  addresses, and a LIST_ENTRY ring is the list of the addresses of its elements: Linked_List proves
  that the list operations compute these lists.  A function that can assert, or that uses an object
  that may be gone, returns an option: None is a fired ASSERT, the use of an object that is not
  there, undefined behaviour of C (shifts, quotients) or a loop that does not end.  Status codes
  are the constructors of efi_status; UINTN has 64 bits and machine integers are words wherever
  their width matters.

  What the groups of lemmas show.  The list operations refine insertion and removal in lists; bit
  fields read back what was written and are equal at all widths; products and quotients are those
  of integers modulo 2^64; checksums patch the sum to zero.  The three dependency evaluators
  compute the meaning of the Boolean expression a section encodes, never schedule a driver whose
  protocols are missing, and reject malformed sections.  The PPI database holds three lists in one
  array; the services refine appending to them, and every notification is called once for each PPI with its
  GUID, whichever came first, by notifications that append PPIs and callbacks themselves, to any depth
  (not by those that register notifications of dispatch level: nested_registration_repeats); the
  services return with all programs over them.  dependency_search and dependency_database state what an
  evaluator relies on, with lookups that may change the database; they are interpreted on the PPI
  database and on the SMM protocol database, so an expression holds exactly of what the installations
  have installed.  The SMI registry refines an abstract list of handlers; SmiManage calls the handlers of
  a type in order and returns the status their answers determine (for root handlers this is not the status
  its comment promises when a source could not be quiesced).  The protocol database keeps its rings
  and back links consistent, refines the set of interfaces per handle, and a registration is given
  each matching interface exactly once.  The event services keep their queues, timer list and locks
  consistent in every reachable state; notifications run by descending priority and first in, first
  out; CoreCheckTimers returns unless a trigger time overflows.  The red-black tree refines the
  ascending list of its items, and every ASSERT of RedBlackTreeValidate holds.
  The page allocator is specified by the type of each page: the free nodes and the descriptors are
  the maximal runs of pages of one type, an allocation takes the highest free range, a release frees
  exactly its pages, and both keep this.  The pool allocator gives blocks that overlap nothing in use;
  range_service states what a client of an allocator relies on, and its interpretation on the two
  services shows that what clients hold never overlaps.

  Bounds and fuel.  CoreRestoreTpl recurses on fuel, which also bounds its loops: a statement that
  it returns gives the fuel that is enough (above the 31 priorities and above the length of every
  queue; two rounds per timer for CoreCheckTimers), and statements about its result hold for every
  fuel with which it returns.  Loops that may not end are partial functions into option;
  that they end is proved (SmiManage, the walks of the database, the loops of the tree,
  ProcessNotifyList), or that they do not (CoreCheckTimers_hangs, ConvertPpiPointers_migrates).  The
  array of the PPI database has less than 2^32 entries, the range of its PCD; notifications call the
  services to any finite depth, the index of nested, ev_nested and smm_nested.  The counter of the searches
  of the protocol database has 64 bits and does not wrap before 2^64 - 1 of them.  The tree is bounded by 2^32 - 2 nodes because its
  validation counts in UINT32.  The loop over the stack of descriptors is a partial function that
  returns (Smm_Stack); a call uses at most two new descriptors.  The definitions include the refill
  of the list of free descriptors from a page; the theorems on the allocators assume that the list
  still has two of them for each call (initialization leaves 82).  Handles have 8 bytes (X64).

  Parameters.  Notification functions, SMI handlers, the comparison functions of a collection,
  AllocatePool and the lookup of protocols by the evaluators are arguments (Dispatch_Spec puts the two
  databases in for the lookup); hypotheses about them
  are what their interfaces document (a total order, memory that is not in use).  Notification functions
  are programs over the services where a statement is about all that they may do (ppi_program,
  notification, smm_service), and a program makes any calls that depend on any answers and on the state.
  Where the outcome depends on them, the statement names the class: orderly (they return and only
  append PPIs and callbacks), quiet (they leave the services alone), keeps (an invariant), gentle (SMI
  handlers that leave the handlers of the type alone), and shows programs that are in it.  The argument
  sig of SmiHandlerUnRegister is what the signature of freed memory still reads.

  Not modelled: timer ticks that interrupt a service in the middle (they happen between services
  here), DEBUG output, the contents of memory apart from the structures the code keeps there (nodes,
  descriptors, headers and tails), the calls of the memory profile in SmmAllocatePages and its
  siblings, and what PROJECT.json lists with a reason: the memory services of DXE, images, drivers and
  firmware volumes of the cores, strings and the other libraries, device drivers, the
  network and cryptographic packages, the shell, processor and platform code, and the build tools.
\<close>

end
